(* ===== verification/Prelude.thy ===== *)
theory Prelude
  imports Main "HOL-Library.Word" "HOL-Library.Multiset" "HOL-Library.List_Lexorder"
begin

text \<open>
  Shared vocabulary of the development.

  \<^item> Go's machine integers as words, byte slices as lists of bytes and the
    32-byte identifiers of package \<^verbatim>\<open>ids\<close>.
  \<^item> Go's \<^verbatim>\<open>error\<close> values and the result of a call that can fail, panic or block.
  \<^item> Go's \<^verbatim>\<open>range\<close> over a map: every key once, in an order the program does not control.
  \<^item> \<^verbatim>\<open>bytes.Compare\<close>, slice assignment and the generic lemmas on lists and maps
    that the component theories share.
\<close>

unbundle bit_operations_syntax

section \<open>Types\<close>

type_synonym byte = "8 word"
type_synonym uint64 = "64 word"
type_synonym bytes = "byte list"

text \<open>\<^verbatim>\<open>type ID [IDLen]byte\<close> (default/ids/id.go): an array of 32 bytes.\<close>

type_synonym ID = "byte list"

definition IDLen :: nat where
  "IDLen = 32"

text \<open>\<^verbatim>\<open>type NodeID ShortID\<close> (default/ids/node_id.go): an array of 20 bytes.\<close>

type_synonym NodeID = "byte list"

definition wf_ID :: "ID \<Rightarrow> bool" where
  "wf_ID i \<longleftrightarrow> length i = IDLen"

text \<open>
  A Go \<^verbatim>\<open>error\<close> is created by \<^verbatim>\<open>errors.New\<close> (\<^term>\<open>Err msg\<close>) or wraps another one with
  \<^verbatim>\<open>fmt.Errorf("...: %w", err)\<close> (\<^term>\<open>Wrap msg e\<close>). A call that returns \<^verbatim>\<open>(T, error)\<close>
  is a sum, the error on the left.
\<close>

datatype go_error = Err string | Wrap string go_error

type_synonym 'a res = "go_error + 'a"

text \<open>
  A call that can also panic, or block forever on a lock or a channel: \<^term>\<open>Block\<close> means that
  control does not come back to the caller.
\<close>

datatype 'a go = Ret 'a | Panic string | Block

section \<open>Collections of facts\<close>

named_theorems go_defs \<open>definitions of the small Go helpers that proofs unfold\<close>
named_theorems inv_intros \<open>an operation preserves the invariant of its component\<close>

section \<open>Ranging over a map\<close>

text \<open>
  \<^verbatim>\<open>for k, v := range m\<close> visits every key of \<open>m\<close> exactly once, in an unspecified order.
  An operation whose outcome may depend on it takes the visited keys as an argument;
  \<open>range_order m ks\<close> says that \<open>ks\<close> is a possible order.
\<close>

definition range_order :: "('k \<rightharpoonup> 'v) \<Rightarrow> 'k list \<Rightarrow> bool" where
  "range_order m ks \<longleftrightarrow> distinct ks \<and> set ks = dom m"

lemma range_orderD:
  assumes "range_order m ks"
  shows "distinct ks" "set ks = dom m" "finite (dom m)"
  using assms by (auto simp: range_order_def intro: finite_subset [of _ "set ks"])

lemma range_order_lookup: "range_order m ks \<Longrightarrow> k \<in> set ks \<Longrightarrow> \<exists>v. m k = Some v"
  by (auto simp: range_order_def)

lemma range_order_length: "range_order m ks \<Longrightarrow> length ks = card (dom m)"
  by (metis distinct_card range_order_def)

lemma range_order_empty [simp]: "range_order Map.empty ks \<longleftrightarrow> ks = []"
  by (auto simp: range_order_def)

text \<open>A choice of order for every set of keys an operation ranges over.\<close>

definition valid_ord :: "('k set \<Rightarrow> 'k list) \<Rightarrow> bool" where
  "valid_ord ord \<longleftrightarrow> (\<forall>S. finite S \<longrightarrow> set (ord S) = S \<and> distinct (ord S))"

lemma valid_ordD: "valid_ord ord \<Longrightarrow> finite S \<Longrightarrow> set (ord S) = S" "valid_ord ord \<Longrightarrow> finite S \<Longrightarrow> distinct (ord S)"
  by (simp_all add: valid_ord_def)

section \<open>bytes.Compare\<close>

text \<open>\<^verbatim>\<open>bytes.Compare\<close>: lexicographic, -1, 0 or +1; a proper prefix is smaller.\<close>

fun bytes_Compare :: "bytes \<Rightarrow> bytes \<Rightarrow> int" where
  "bytes_Compare [] [] = 0"
| "bytes_Compare [] (_ # _) = -1"
| "bytes_Compare (_ # _) [] = 1"
| "bytes_Compare (a # as) (b # bs) =
     (if a < b then -1 else if b < a then 1 else bytes_Compare as bs)"

lemma bytes_Compare_neg: "bytes_Compare a b < 0 \<longleftrightarrow> a < b"
  by (induction a b rule: bytes_Compare.induct) auto

lemma bytes_Compare_pos: "bytes_Compare a b > 0 \<longleftrightarrow> b < a"
  by (induction a b rule: bytes_Compare.induct) auto

lemma bytes_Compare_zero: "bytes_Compare a b = 0 \<longleftrightarrow> a = b"
  by (induction a b rule: bytes_Compare.induct) auto

lemma bytes_Compare_ge: "bytes_Compare a b \<ge> 0 \<longleftrightarrow> b \<le> a"
  using bytes_Compare_neg [of a b] by (meson linorder_not_le)

lemma bytes_Compare_le: "bytes_Compare a b \<le> 0 \<longleftrightarrow> a \<le> b"
  using bytes_Compare_pos [of a b] by (meson linorder_not_le)

lemmas bytes_Compare_iffs =
  bytes_Compare_neg bytes_Compare_pos bytes_Compare_zero bytes_Compare_ge bytes_Compare_le

lemma bytes_Compare_minus_one: "bytes_Compare a b = -1 \<longleftrightarrow> a < b"
  by (induction a b rule: bytes_Compare.induct) auto

section \<open>Slices\<close>

text \<open>\<^verbatim>\<open>s[i], s[j] = s[j], s[i]\<close> with both indices in range.\<close>

definition swap :: "'a list \<Rightarrow> nat \<Rightarrow> nat \<Rightarrow> 'a list" where
  "swap xs i j = xs[i := xs ! j, j := xs ! i]"

lemma length_swap [simp]: "length (swap xs i j) = length xs"
  by (simp add: swap_def)

lemma mset_swap: "i < length xs \<Longrightarrow> j < length xs \<Longrightarrow> mset (swap xs i j) = mset xs"
  by (simp add: swap_def mset_swap)

lemma set_swap: "i < length xs \<Longrightarrow> j < length xs \<Longrightarrow> set (swap xs i j) = set xs"
  by (metis mset_swap set_mset_mset)

lemma nth_swap:
  "i < length xs \<Longrightarrow> j < length xs \<Longrightarrow> k < length xs \<Longrightarrow>
   swap xs i j ! k = (if k = i then xs ! j else if k = j then xs ! i else xs ! k)"
  by (auto simp: swap_def nth_list_update)

text \<open>\<^verbatim>\<open>clear(s[i:])\<close> on a slice of integers.\<close>

definition clear_from :: "nat \<Rightarrow> int list \<Rightarrow> int list" where
  "clear_from i xs = take i xs @ replicate (length xs - i) 0"

lemma length_clear_from [simp]: "length (clear_from i xs) = length xs"
  by (simp add: clear_from_def)

lemma nth_clear_from:
  "k < length xs \<Longrightarrow> clear_from i xs ! k = (if k < i then xs ! k else 0)"
  by (auto simp: clear_from_def nth_append)

lemma clear_from_0 [simp]: "clear_from 0 xs = replicate (length xs) 0"
  by (simp add: clear_from_def)

section \<open>Generic list and map lemmas\<close>

lemma map_upd_dom_eq: "k \<in> dom m \<Longrightarrow> dom (m(k \<mapsto> v)) = dom m"
  by auto

lemma card_dom_upd: "finite (dom m) \<Longrightarrow> k \<notin> dom m \<Longrightarrow> card (dom (m(k \<mapsto> v))) = Suc (card (dom m))"
  by simp

lemma card_dom_delete:
  "finite (dom m) \<Longrightarrow> k \<in> dom m \<Longrightarrow> card (dom (m(k := None))) = card (dom m) - 1"
  by (simp add: card_Diff_singleton)

lemma sorted_wrt_iff_adjacent:
  assumes "transp R"
  shows "sorted_wrt R xs \<longleftrightarrow> (\<forall>i. Suc i < length xs \<longrightarrow> R (xs ! i) (xs ! Suc i))"
  using assms by (rule sorted_wrt_iff_nth_Suc_transp)

end
