(* ===== verification/Bag.thy ===== *)
theory Bag
  imports Prelude
begin

text \<open>
  default/utils/bag/bag.go: the multiset of votes. \<^verbatim>\<open>counts\<close> is a Go map, nil in the zero value and
  read as an empty map; counts and sizes are \<^verbatim>\<open>int\<close> and stay far below the wrap-around in a poll of
  at most K votes. An operation that ranges over the map takes the order \<open>ord\<close> of a range over a
  set of keys. The abstraction is HOL's multiset.
\<close>

section \<open>Model\<close>

record 'a bag =
  counts :: "'a \<rightharpoonup> int"
  bag_size :: int
  threshold :: int
  metThreshold :: "'a set"

definition empty_bag :: "'a bag" where
  "empty_bag = \<lparr>counts = Map.empty, bag_size = 0, threshold = 0, metThreshold = {}\<rparr>"

definition bag_Count :: "'a \<Rightarrow> 'a bag \<Rightarrow> int" where
  "bag_Count elt b = (case counts b elt of None \<Rightarrow> 0 | Some n \<Rightarrow> n)"

definition SetThreshold :: "('a set \<Rightarrow> 'a list) \<Rightarrow> int \<Rightarrow> 'a bag \<Rightarrow> 'a bag" where
  "SetThreshold ord t b =
     (if threshold b = t then b
      else b\<lparr>threshold := t,
             metThreshold := foldl (\<lambda>s vote. if bag_Count vote b \<ge> t then insert vote s else s) {} (ord (dom (counts b)))\<rparr>)"

definition AddCount :: "'a \<Rightarrow> int \<Rightarrow> 'a bag \<Rightarrow> 'a bag" where
  "AddCount elt n b =
     (if n \<le> 0 then b
      else let totalCount = bag_Count elt b + n;
               b = b\<lparr>counts := (counts b)(elt \<mapsto> totalCount), bag_size := bag_size b + n\<rparr>
           in if totalCount \<ge> threshold b then b\<lparr>metThreshold := insert elt (metThreshold b)\<rparr> else b)"

definition bag_Add :: "'a list \<Rightarrow> 'a bag \<Rightarrow> 'a bag" where
  "bag_Add elts b = foldl (\<lambda>b elt. AddCount elt 1 b) b elts"

definition bag_Of :: "'a list \<Rightarrow> 'a bag" where
  "bag_Of elts = bag_Add elts empty_bag"

definition bag_Len :: "'a bag \<Rightarrow> int" where
  "bag_Len b = bag_size b"

definition bag_List :: "('a set \<Rightarrow> 'a list) \<Rightarrow> 'a bag \<Rightarrow> 'a list" where
  "bag_List ord b = ord (dom (counts b))"

definition bag_Equals :: "'a bag \<Rightarrow> 'a bag \<Rightarrow> bool" where
  "bag_Equals b other \<longleftrightarrow> bag_size b = bag_size other \<and> counts b = counts other"

text \<open>\<open>zero\<close> is the zero value of the element type, the result for an empty bag.\<close>

definition bag_Mode :: "('a set \<Rightarrow> 'a list) \<Rightarrow> 'a \<Rightarrow> 'a bag \<Rightarrow> 'a \<times> int" where
  "bag_Mode ord zero b =
     foldl (\<lambda>(mode, modeFreq) elt. if bag_Count elt b > modeFreq then (elt, bag_Count elt b) else (mode, modeFreq))
       (zero, 0) (ord (dom (counts b)))"

definition bag_Threshold :: "'a bag \<Rightarrow> 'a set" where
  "bag_Threshold b = metThreshold b"

definition bag_Filter :: "('a set \<Rightarrow> 'a list) \<Rightarrow> ('a \<Rightarrow> bool) \<Rightarrow> 'a bag \<Rightarrow> 'a bag" where
  "bag_Filter ord filterFunc b =
     foldl (\<lambda>n vote. if filterFunc vote then AddCount vote (bag_Count vote b) n else n) empty_bag (ord (dom (counts b)))"

definition bag_Split :: "('a set \<Rightarrow> 'a list) \<Rightarrow> ('a \<Rightarrow> bool) \<Rightarrow> 'a bag \<Rightarrow> 'a bag \<times> 'a bag" where
  "bag_Split ord splitFunc b =
     foldl (\<lambda>(n0, n1) vote. if splitFunc vote then (n0, AddCount vote (bag_Count vote b) n1)
                            else (AddCount vote (bag_Count vote b) n0, n1))
       (empty_bag, empty_bag) (ord (dom (counts b)))"

definition bag_Remove :: "'a \<Rightarrow> 'a bag \<Rightarrow> 'a bag" where
  "bag_Remove elt b = b\<lparr>counts := (counts b)(elt := None), bag_size := bag_size b - bag_Count elt b\<rparr>"

definition bag_Clone :: "('a set \<Rightarrow> 'a list) \<Rightarrow> 'a bag \<Rightarrow> 'a bag" where
  "bag_Clone ord b = foldl (\<lambda>n k. AddCount k (bag_Count k b) n) empty_bag (ord (dom (counts b)))"

section \<open>Abstraction to multisets\<close>

text \<open>\<open>represents b M\<close>: the counts are the positive multiplicities of \<open>M\<close> and the size is its size.\<close>

definition represents :: "'a bag \<Rightarrow> 'a multiset \<Rightarrow> bool" where
  "represents b M \<longleftrightarrow>
     counts b = (\<lambda>x. if x \<in># M then Some (int (count M x)) else None) \<and> bag_size b = int (size M)"

text \<open>The threshold set is exact as long as nothing is removed.\<close>

definition exact_threshold :: "'a bag \<Rightarrow> bool" where
  "exact_threshold b \<longleftrightarrow> metThreshold b = {x \<in> dom (counts b). threshold b \<le> bag_Count x b}"

lemma represents_Count: "represents b M \<Longrightarrow> bag_Count x b = int (count M x)"
  by (simp add: represents_def bag_Count_def not_in_iff)

lemma represents_dom: "represents b M \<Longrightarrow> dom (counts b) = set_mset M"
  by (auto simp: represents_def split: if_splits)

lemma represents_Len: "represents b M \<Longrightarrow> bag_Len b = int (size M)"
  by (simp add: represents_def bag_Len_def)

lemma represents_empty [simp]: "represents empty_bag {#}"
  by (simp add: represents_def empty_bag_def)

lemma represents_AddCount:
  assumes "represents b M" and "0 \<le> n"
  shows "represents (AddCount x n b) (M + replicate_mset (nat n) x)"
  using assms represents_Count [OF assms(1), of x]
  by (auto simp: AddCount_def Let_def represents_def fun_eq_iff in_replicate_mset)

lemma represents_inj: "represents b M \<Longrightarrow> represents b N \<Longrightarrow> M = N"
  by (metis multiset_eqI of_nat_eq_iff represents_Count)

lemma represents_Add: "represents b M \<Longrightarrow> represents (bag_Add xs b) (M + mset xs)"
proof (induction xs arbitrary: b M)
  case (Cons x xs)
  from Cons.IH [OF represents_AddCount [OF Cons.prems, of 1 x]] show ?case by (simp add: bag_Add_def)
qed (simp add: bag_Add_def)

lemma represents_Remove:
  assumes b: "represents b M"
  shows "represents (bag_Remove x b) (filter_mset (\<lambda>y. y \<noteq> x) M)"
proof -
  have "filter_mset (\<lambda>y. \<not> y \<noteq> x) M = replicate_mset (count M x) x"
    by (simp add: filter_eq_replicate_mset eq_commute)
  then have "size M = size (filter_mset (\<lambda>y. y \<noteq> x) M) + count M x"
    using multiset_partition [of M "\<lambda>y. y \<noteq> x"] by (metis size_replicate_mset size_union)
  with b represents_Count [OF b, of x] show ?thesis
    by (auto simp: bag_Remove_def represents_def fun_eq_iff)
qed

lemma represents_collect:
  assumes b: "represents b M" and "represents n N" and "distinct ks"
  shows "represents (foldl (\<lambda>n vote. if f vote then AddCount vote (bag_Count vote b) n else n) n ks)
    (N + filter_mset (\<lambda>x. x \<in> set ks \<and> f x) M)"
  using assms(2,3)
proof (induction ks arbitrary: n N)
  case (Cons k ks)
  let ?n = "if f k then AddCount k (bag_Count k b) n else n"
  let ?N = "if f k then N + replicate_mset (count M k) k else N"
  have step: "represents ?n ?N"
    using represents_AddCount [OF Cons.prems(1), of "int (count M k)" k] Cons.prems(1) represents_Count [OF b, of k] by simp
  have "?N + filter_mset (\<lambda>x. x \<in> set ks \<and> f x) M = N + filter_mset (\<lambda>x. x \<in> set (k # ks) \<and> f x) M"
    using Cons.prems(2) by (intro multiset_eqI) auto
  with Cons.IH [OF step] Cons.prems(2) show ?case by simp
qed simp

lemma represents_Filter:
  assumes "represents b M" and "valid_ord ord"
  shows "represents (bag_Filter ord f b) (filter_mset f M)"
proof -
  have "set (ord (dom (counts b))) = set_mset M" "distinct (ord (dom (counts b)))"
    using valid_ordD [OF assms(2), of "dom (counts b)"] represents_dom [OF assms(1)] by auto
  moreover have "filter_mset (\<lambda>x. x \<in># M \<and> f x) M = filter_mset f M" by (rule filter_mset_cong) auto
  ultimately show ?thesis
    using represents_collect [OF assms(1) represents_empty, of "ord (dom (counts b))" f] by (simp add: bag_Filter_def)
qed

lemma bag_Split_eq: "bag_Split ord f b = (bag_Filter ord (\<lambda>x. \<not> f x) b, bag_Filter ord f b)"
proof -
  have "foldl (\<lambda>(n0, n1) vote. if f vote then (n0, AddCount vote (bag_Count vote b) n1)
                               else (AddCount vote (bag_Count vote b) n0, n1)) (m0, m1) ks =
      (foldl (\<lambda>n vote. if \<not> f vote then AddCount vote (bag_Count vote b) n else n) m0 ks,
       foldl (\<lambda>n vote. if f vote then AddCount vote (bag_Count vote b) n else n) m1 ks)" for m0 m1 ks
    by (induction ks arbitrary: m0 m1) auto
  then show ?thesis by (simp add: bag_Split_def bag_Filter_def)
qed

lemma bag_Clone_eq: "bag_Clone ord b = bag_Filter ord (\<lambda>_. True) b"
  by (simp add: bag_Clone_def bag_Filter_def)

lemma mode_loop:
  "0 \<le> q \<Longrightarrow>
   foldl (\<lambda>(mode, modeFreq) elt. if h elt > modeFreq then (elt, h elt) else (mode, modeFreq)) (m, q) ks = (m', q') \<Longrightarrow>
   q \<le> q' \<and> (\<forall>k \<in> set ks. h k \<le> q') \<and> (m' = m \<and> q' = q \<or> m' \<in> set ks \<and> h m' = q' \<and> q < (q' :: int))"
proof (induction ks arbitrary: m q)
  case (Cons k ks)
  show ?case
  proof (cases "h k > q")
    case True
    with Cons.prems Cons.IH [of "h k" k] show ?thesis by auto
  next
    case False
    with Cons.prems Cons.IH [of q m] show ?thesis by auto
  qed
qed simp

lemma bag_Mode_max:
  assumes b: "represents b M" and "valid_ord ord" and mode: "bag_Mode ord zero b = (m, n)"
  shows "n = int (count M m) \<or> M = {#} \<and> m = zero \<and> n = 0" and "int (count M x) \<le> n" and "M \<noteq> {#} \<Longrightarrow> m \<in># M"
proof -
  have ks: "set (ord (dom (counts b))) = set_mset M"
    using valid_ordD [OF assms(2), of "dom (counts b)"] represents_dom [OF b] by auto
  from mode_loop [of 0 "\<lambda>x. bag_Count x b" zero "ord (dom (counts b))" m n] mode
  have l: "0 \<le> n" "\<forall>k \<in># M. int (count M k) \<le> n" "m = zero \<and> n = 0 \<or> m \<in># M \<and> int (count M m) = n \<and> 0 < n"
    by (auto simp: bag_Mode_def ks represents_Count [OF b])
  show "int (count M x) \<le> n" using l by (cases "x \<in># M") (auto simp: not_in_iff)
  have pos: "0 < n" if "M \<noteq> {#}"
  proof -
    from that obtain y where y: "y \<in># M" by auto
    then have "0 < count M y" by simp
    moreover have "int (count M y) \<le> n" using l(2) y by blast
    ultimately show ?thesis by linarith
  qed
  with l(3) show "M \<noteq> {#} \<Longrightarrow> m \<in># M" by auto
  with l(3) pos show "n = int (count M m) \<or> M = {#} \<and> m = zero \<and> n = 0" by fastforce
qed

lemma exact_threshold_AddCount: "exact_threshold b \<Longrightarrow> exact_threshold (AddCount x n b)"
  by (auto simp: exact_threshold_def AddCount_def Let_def bag_Count_def split: if_splits option.splits)

lemma exact_threshold_Set:
  assumes "exact_threshold b" and "valid_ord ord" and "finite (dom (counts b))"
  shows "exact_threshold (SetThreshold ord t b)"
proof -
  have "foldl (\<lambda>s v. if P v then insert v s else s) A ks = A \<union> {v \<in> set ks. P v}" for P and A :: "'a set" and ks
    by (induction ks arbitrary: A) auto
  with assms valid_ordD [OF assms(2,3)] show ?thesis
    by (auto simp: exact_threshold_def SetThreshold_def bag_Count_def)
qed

text \<open>
  A bag is a multiset: starting from the elements of \<open>M\<close>, every operation gives the bag of the
  multiset operation, whatever the order in which Go ranges over the map. \<^verbatim>\<open>Mode\<close> returns an element of
  maximal multiplicity. The threshold set is exact after \<^verbatim>\<open>SetThreshold\<close> and \<^verbatim>\<open>AddCount\<close>, but
  \<^verbatim>\<open>Remove\<close> does not update it: an element that had met the threshold stays in it.
\<close>

theorem bag_refines_multiset:
  assumes b: "represents b M" and ord: "valid_ord ord"
  shows "represents (bag_Add xs b) (M + mset xs) \<and>
    (0 \<le> n \<longrightarrow> represents (AddCount x n b) (M + replicate_mset (nat n) x)) \<and>
    represents (bag_Remove x b) (filter_mset (\<lambda>y. y \<noteq> x) M) \<and>
    represents (bag_Filter ord f b) (filter_mset f M) \<and>
    represents (fst (bag_Split ord f b)) (filter_mset (\<lambda>y. \<not> f y) M) \<and>
    represents (snd (bag_Split ord f b)) (filter_mset f M) \<and>
    represents (bag_Clone ord b) M \<and>
    bag_Count x b = int (count M x) \<and> bag_Len b = int (size M) \<and> set (bag_List ord b) = set_mset M \<and>
    (represents c N \<longrightarrow> bag_Equals b c = (M = N)) \<and>
    (case bag_Mode ord zero b of (m, k) \<Rightarrow> (M \<noteq> {#} \<longrightarrow> m \<in># M \<and> k = int (count M m)) \<and> (\<forall>y. int (count M y) \<le> k)) \<and>
    (exact_threshold b \<longrightarrow> exact_threshold (AddCount x n b) \<and> exact_threshold (SetThreshold ord t b) \<and>
       (threshold b \<le> int (count M x) \<and> x \<in># M \<longrightarrow> x \<in> bag_Threshold (bag_Remove x b)))"
proof -
  have fin: "finite (dom (counts b))" using represents_dom [OF b] by simp
  obtain m k where mode: "bag_Mode ord zero b = (m, k)" by fastforce
  have "bag_Equals b c = (M = N)" if "represents c N"
    using b that represents_inj [of b M N] unfolding bag_Equals_def represents_def by auto
  moreover have "set (bag_List ord b) = set_mset M"
    using valid_ordD(1) [OF ord fin] represents_dom [OF b] by (simp add: bag_List_def)
  moreover have "x \<in> bag_Threshold (bag_Remove x b)"
    if "exact_threshold b" "threshold b \<le> int (count M x)" "x \<in># M"
    using that represents_dom [OF b] represents_Count [OF b, of x]
    by (auto simp: bag_Threshold_def bag_Remove_def exact_threshold_def)
  moreover have "represents (bag_Clone ord b) M" using represents_Filter [OF b ord, of "\<lambda>_. True"] by (simp add: bag_Clone_eq)
  moreover have "case bag_Mode ord zero b of (m, k) \<Rightarrow>
      (M \<noteq> {#} \<longrightarrow> m \<in># M \<and> k = int (count M m)) \<and> (\<forall>y. int (count M y) \<le> k)"
    using bag_Mode_max [OF b ord mode] by (auto simp: mode)
  ultimately show ?thesis
    using represents_Add [OF b] represents_AddCount [OF b] represents_Remove [OF b] represents_Filter [OF b ord]
      represents_Count [OF b] represents_Len [OF b] exact_threshold_AddCount [of b x n] exact_threshold_Set [OF _ ord fin]
    by (simp add: bag_Split_eq)
qed

theorem bag_refines_multiset_witness:
  "represents (bag_Of [1, 2, 2 :: nat]) {#1, 2, 2#} \<and> bag_Len (bag_Of [1, 2, 2 :: nat]) = 3"
proof -
  have "represents (bag_Of [1, 2, 2 :: nat]) ({#} + mset [1, 2, 2])"
    unfolding bag_Of_def by (rule represents_Add) simp
  moreover have "valid_ord (sorted_list_of_set :: nat set \<Rightarrow> nat list)" by (simp add: valid_ord_def)
  ultimately show ?thesis using bag_refines_multiset [of "bag_Of [1, 2, 2 :: nat]" "{#1, 2, 2#}" sorted_list_of_set] by simp
qed

end
