(* ===== verification/VoteGraph.thy ===== *)
theory VoteGraph
  imports Bag "HOL-Library.Monad_Syntax"
begin

text \<open>
  default/snow/consensus/snowman/poll/graph.go: the graph of the voted blocks and their ancestors, and
  the count of transitive votes by a topological sort from the leaves. There is one vertex per block
  identifier, so that a pointer to a vertex is named by the identifier. \<open>getParent\<close> is the function the
  poll is given; \<open>ords n\<close> is the order of the \<open>n\<close>-th range over a map. The loops follow pointers and are
  partial functions; that they return, for every \<open>getParent\<close> without cycles that knows finitely many
  blocks, is part of the lemmas.
\<close>

section \<open>Model\<close>

record voteVertex =
  vv_parent :: "ID option"
  vv_descendants :: "ID list"

type_synonym vertices = "ID \<rightharpoonup> voteVertex"

record voteGraph =
  vertexCount :: nat
  vg_leaves :: "ID list"
  vg_roots :: "ID list"
  vg_vertices :: vertices

definition vertex_at :: "vertices \<Rightarrow> ID \<Rightarrow> voteVertex" where
  "vertex_at vs i = (case vs i of None \<Rightarrow> \<lparr>vv_parent = None, vv_descendants = []\<rparr> | Some v \<Rightarrow> v)"

text \<open>
  A pre-order walk along the pointers \<open>next_of\<close>, on the elements of a slice one after the other. The result
  lists the elements in the order in which \<^verbatim>\<open>f\<close> is called on them.
\<close>

partial_function (option) preorder :: "('a \<Rightarrow> 'a list) \<Rightarrow> 'a list \<Rightarrow> 'a list option" where
  [code]: "preorder next_of us =
     (case us of
        [] \<Rightarrow> Some []
      | v # rest \<Rightarrow> do {
          below \<leftarrow> preorder next_of (next_of v);
          others \<leftarrow> preorder next_of rest;
          Some (v # below @ others)
        })"

definition traverse :: "vertices \<Rightarrow> ID \<Rightarrow> ID list option" where
  "traverse vs v = preorder (\<lambda>v. vv_descendants (vertex_at vs v)) [v]"

partial_function (option) addIDAndAncestorsToGraph :: "(ID \<Rightarrow> ID \<times> bool) \<Rightarrow> ID \<Rightarrow> vertices \<Rightarrow> vertices option" where
  [code]: "addIDAndAncestorsToGraph getParent i id2Vertex =
     (if id2Vertex i \<noteq> None then Some id2Vertex
      else let id2Vertex = id2Vertex(i \<mapsto> \<lparr>vv_parent = None, vv_descendants = []\<rparr>);
               (parent, ok) = getParent i
           in if \<not> ok then Some id2Vertex
              else addIDAndAncestorsToGraph getParent parent id2Vertex)"

fun add_votes :: "(ID \<Rightarrow> ID \<times> bool) \<Rightarrow> ID list \<Rightarrow> vertices \<Rightarrow> vertices option" where
  "add_votes getParent [] id2Vertex = Some id2Vertex"
| "add_votes getParent (i # idList) id2Vertex =
     addIDAndAncestorsToGraph getParent i id2Vertex \<bind> add_votes getParent idList"

definition link_vertex :: "(ID \<Rightarrow> ID \<times> bool) \<Rightarrow> ID list \<times> vertices \<Rightarrow> ID \<Rightarrow> ID list \<times> vertices" where
  "link_vertex getParent = (\<lambda>(roots, id2Vertex) i.
     let (parent, ok) = getParent i in
     if \<not> ok then (roots @ [i], id2Vertex)
     else if id2Vertex parent \<noteq> None then
       let id2Vertex = id2Vertex(i \<mapsto> (vertex_at id2Vertex i)\<lparr>vv_parent := Some parent\<rparr>);
           u = vertex_at id2Vertex parent
       in (roots, id2Vertex(parent \<mapsto> u\<lparr>vv_descendants := vv_descendants u @ [i]\<rparr>))
     else (roots @ [i], id2Vertex))"

definition findLeaves :: "(ID set \<Rightarrow> ID list) \<Rightarrow> vertices \<Rightarrow> ID list" where
  "findLeaves ord idToVertex = filter (\<lambda>i. vv_descendants (vertex_at idToVertex i) = []) (ord (dom idToVertex))"

definition buildVoteGraph :: "(nat \<Rightarrow> ID set \<Rightarrow> ID list) \<Rightarrow> (ID \<Rightarrow> ID \<times> bool) \<Rightarrow> ID bag \<Rightarrow> voteGraph option" where
  "buildVoteGraph ords getParent votes = do {
     id2Vertex \<leftarrow> add_votes getParent (bag_List (ords 0) votes) Map.empty;
     let (roots, id2Vertex) = foldl (link_vertex getParent) ([], id2Vertex) (ords 1 (dom id2Vertex));
     let leaves = findLeaves (ords 2) id2Vertex;
     Some \<lparr>vertexCount = card (dom id2Vertex), vg_leaves = leaves, vg_roots = roots, vg_vertices = id2Vertex\<rparr>
   }"

fun fold_calls :: "('a \<Rightarrow> 'b list option) \<Rightarrow> 'a list \<Rightarrow> 'b list option" where
  "fold_calls f [] = Some []"
| "fold_calls f (x # xs) = do { ys \<leftarrow> f x; zs \<leftarrow> fold_calls f xs; Some (ys @ zs) }"

definition vg_traverse :: "voteGraph \<Rightarrow> ID list option" where
  "vg_traverse vg = fold_calls (traverse (vg_vertices vg)) (vg_roots vg)"

definition child_count :: "(ID \<rightharpoonup> int) \<Rightarrow> ID \<Rightarrow> int" where
  "child_count m i = (case m i of None \<Rightarrow> 0 | Some n \<Rightarrow> n)"

fun sort_layer :: "vertices \<Rightarrow> (ID \<Rightarrow> 's \<Rightarrow> 's) \<Rightarrow> ID list \<Rightarrow> ID list \<times> (ID \<rightharpoonup> int) \<times> 's \<Rightarrow> ID list \<times> (ID \<rightharpoonup> int) \<times> 's" where
  "sort_layer vs f [] st = st"
| "sort_layer vs f (leaf # leaves) (newLeaves, childCount, s) =
     (let s = f leaf s in
      case vv_parent (vertex_at vs leaf) of
        None \<Rightarrow> sort_layer vs f leaves (newLeaves, childCount, s)
      | Some p \<Rightarrow>
          let childCount = childCount(p \<mapsto> child_count childCount p - 1);
              newLeaves = (if child_count childCount p = 0 then newLeaves @ [p] else newLeaves)
          in sort_layer vs f leaves (newLeaves, childCount, s))"

partial_function (option) sort_loop :: "vertices \<Rightarrow> (ID \<Rightarrow> 's \<Rightarrow> 's) \<Rightarrow> ID list \<Rightarrow> (ID \<rightharpoonup> int) \<Rightarrow> 's \<Rightarrow> 's option" where
  [code]: "sort_loop vs f leaves childCount s =
     (if leaves = [] then Some s
      else let (newLeaves, childCount, s) = sort_layer vs f leaves ([], childCount, s)
           in sort_loop vs f newLeaves childCount s)"

text \<open>\<open>f\<close> acts on a state \<open>s\<close>, the variables its closure captures.\<close>

definition topologicalSortTraversal :: "voteGraph \<Rightarrow> (ID \<Rightarrow> 's \<Rightarrow> 's) \<Rightarrow> 's \<Rightarrow> 's option" where
  "topologicalSortTraversal vg f s = do {
     visited \<leftarrow> vg_traverse vg;
     let childCount = foldl (\<lambda>m v. m(v \<mapsto> int (length (vv_descendants (vertex_at (vg_vertices vg) v))))) Map.empty visited;
     sort_loop (vg_vertices vg) f (vg_leaves vg) childCount s
   }"

definition computeTransitiveVoteCountGraph :: "(ID set \<Rightarrow> ID list) \<Rightarrow> voteGraph \<Rightarrow> ID bag \<Rightarrow> ID bag option" where
  "computeTransitiveVoteCountGraph ord graph votes =
     topologicalSortTraversal graph
       (\<lambda>v b. case vv_parent (vertex_at (vg_vertices graph) v) of None \<Rightarrow> b | Some p \<Rightarrow> AddCount p (bag_Count v b) b)
       (bag_Clone ord votes)"

section \<open>Ancestors and transitive votes\<close>

definition edge :: "(ID \<Rightarrow> ID \<times> bool) \<Rightarrow> (ID \<times> ID) set" where
  "edge getParent = {(a, b). getParent a = (b, True)}"

definition parents_ok :: "(ID \<Rightarrow> ID \<times> bool) \<Rightarrow> bool" where
  "parents_ok getParent \<longleftrightarrow> finite (Domain (edge getParent)) \<and> acyclic (edge getParent)"

text \<open>\<open>votes_for getParent V S\<close>: the votes of \<open>V\<close> for the blocks \<open>S\<close> and their descendants.\<close>

definition votes_for :: "(ID \<Rightarrow> ID \<times> bool) \<Rightarrow> ID multiset \<Rightarrow> ID set \<Rightarrow> nat" where
  "votes_for getParent V S = size (filter_mset (\<lambda>u. \<exists>i \<in> S. (u, i) \<in> (edge getParent)\<^sup>*) V)"

definition voted :: "(ID \<Rightarrow> ID \<times> bool) \<Rightarrow> ID multiset \<Rightarrow> ID set" where
  "voted getParent V = (edge getParent)\<^sup>* `` set_mset V"

lemma edge_iff [simp]: "(a, b) \<in> edge gp \<longleftrightarrow> gp a = (b, True)"
  by (simp add: edge_def)

lemma single_valued_edge: "single_valued (edge gp)"
  by (auto simp: single_valued_def)

lemma edge_irrefl: "acyclic (edge gp) \<Longrightarrow> gp i \<noteq> (i, True)"
  by (metis acyclic_def edge_iff trancl.r_into_trancl)

lemma edge_linear:
  assumes "(u, a) \<in> (edge gp)\<^sup>*" "(u, b) \<in> (edge gp)\<^sup>*"
  shows "(a, b) \<in> (edge gp)\<^sup>* \<or> (b, a) \<in> (edge gp)\<^sup>*"
  using single_valued_confluent [OF single_valued_edge [of gp]] assms by blast

lemma edge_step_back:
  assumes "(a, b) \<in> (edge gp)\<^sup>*" "gp a = (c, True)" "a \<noteq> b"
  shows "(c, b) \<in> (edge gp)\<^sup>*"
  using assms(1,3)
proof (cases rule: converse_rtranclE)
  case (step d)
  with assms(2) show ?thesis by simp
qed simp

lemma siblings_disjoint:
  assumes "acyclic (edge gp)" "gp a = (v, True)" "gp b = (v, True)" "(u, a) \<in> (edge gp)\<^sup>*" "(u, b) \<in> (edge gp)\<^sup>*"
  shows "a = b"
proof (rule ccontr)
  assume ne: "a \<noteq> b"
  have imp: False if "(a, b) \<in> (edge gp)\<^sup>*" "gp a = (v, True)" "gp b = (v, True)" "a \<noteq> b" for a b
  proof -
    have "(v, b) \<in> (edge gp)\<^sup>*" by (rule edge_step_back [OF that(1,2,4)])
    then have "(v, v) \<in> (edge gp)\<^sup>+" using that(3) by (meson edge_iff rtrancl_into_trancl1)
    with assms(1) show False by (simp add: acyclic_def)
  qed
  with edge_linear [OF assms(4,5)] assms(2,3) ne show False by metis
qed

lemma votes_for_empty [simp]: "votes_for gp {#} S = 0" "votes_for gp V {} = 0"
  by (simp_all add: votes_for_def)

lemma votes_for_union: "votes_for gp (V + W) S = votes_for gp V S + votes_for gp W S"
  by (simp add: votes_for_def)

lemma votes_for_le: "votes_for gp V S \<le> size V"
  by (simp add: votes_for_def size_filter_mset_lesseq)

lemma votes_for_unvoted: "S \<inter> voted gp V = {} \<Longrightarrow> votes_for gp V S = 0"
  by (auto simp: votes_for_def voted_def filter_mset_eq_conv)

lemma votes_for_voted: "votes_for gp V (S \<inter> voted gp V) = votes_for gp V S"
  unfolding votes_for_def voted_def by (rule arg_cong [of _ _ size], rule filter_mset_cong) auto

lemma votes_for_insert:
  assumes "\<And>u j. j \<in> S \<Longrightarrow> (u, i) \<in> (edge gp)\<^sup>* \<Longrightarrow> (u, j) \<in> (edge gp)\<^sup>* \<Longrightarrow> False"
  shows "votes_for gp V (insert i S) = votes_for gp V {i} + votes_for gp V S"
proof (induction V)
  case (add u V)
  then show ?case using assms [of _ u] by (auto simp: votes_for_def)
qed simp

lemma votes_for_siblings:
  assumes "acyclic (edge gp)" "finite S" "\<And>c. c \<in> S \<Longrightarrow> gp c = (v, True)"
  shows "votes_for gp V S = (\<Sum>c \<in> S. votes_for gp V {c})"
  using assms(2,3)
proof (induction S)
  case (insert i S)
  have "votes_for gp V (insert i S) = votes_for gp V {i} + votes_for gp V S"
    by (rule votes_for_insert) (use siblings_disjoint [OF assms(1)] insert in blast)
  with insert show ?case by simp
qed simp

lemma finite_voted:
  assumes "parents_ok gp"
  shows "finite (voted gp V)"
proof -
  have "finite (edge gp)"
  proof (rule finite_subset)
    show "edge gp \<subseteq> (\<lambda>a. (a, fst (gp a))) ` Domain (edge gp)" by force
  qed (use assms in \<open>simp add: parents_ok_def\<close>)
  then have "finite (set_mset V \<union> Range (edge gp))" by (simp add: finite_Range)
  moreover have "voted gp V \<subseteq> set_mset V \<union> Range (edge gp)"
    by (auto simp: voted_def elim: rtranclE)
  ultimately show ?thesis by (rule rev_finite_subset)
qed

lemma voted_closed: "a \<in> voted gp V \<Longrightarrow> gp a = (b, True) \<Longrightarrow> b \<in> voted gp V"
  unfolding voted_def by (meson Image_iff edge_iff rtrancl.rtrancl_into_rtrancl)

lemma votes_for_pos: "i \<in> voted gp V \<Longrightarrow> 0 < votes_for gp V {i}"
  unfolding votes_for_def voted_def by (auto simp flip: set_mset_eq_empty_iff nonempty_has_size)

lemma votes_for_step:
  assumes "parents_ok gp" "i \<in> voted gp V"
  shows "votes_for gp V {i} = count V i + (\<Sum>c \<in> {c \<in> voted gp V. gp c = (i, True)}. votes_for gp V {c})"
proof -
  let ?C = "{c \<in> voted gp V. gp c = (i, True)}"
  have ac: "acyclic (edge gp)" using assms(1) by (simp add: parents_ok_def)
  have cyc: "\<not> (i, c) \<in> (edge gp)\<^sup>*" if "gp c = (i, True)" for c
    using ac that by (meson acyclic_def edge_iff rtrancl_into_trancl1)
  have desc: "(u, i) \<in> (edge gp)\<^sup>* \<longleftrightarrow> u = i \<or> (\<exists>c \<in> ?C. (u, c) \<in> (edge gp)\<^sup>*)" if "u \<in># V" for u
  proof
    assume "(u, i) \<in> (edge gp)\<^sup>*"
    then show "u = i \<or> (\<exists>c \<in> ?C. (u, c) \<in> (edge gp)\<^sup>*)"
      by (cases rule: rtranclE) (use that in \<open>auto simp: voted_def\<close>)
  qed (auto intro: rtrancl_into_rtrancl)
  have "filter_mset (\<lambda>u. (u, i) \<in> (edge gp)\<^sup>*) V = filter_mset (\<lambda>u. u = i) V + filter_mset (\<lambda>u. \<exists>c \<in> ?C. (u, c) \<in> (edge gp)\<^sup>*) V"
    using desc cyc by (intro multiset_eqI) (auto simp: count_eq_zero_iff)
  then have "votes_for gp V {i} = count V i + votes_for gp V ?C"
    by (simp add: votes_for_def filter_eq_replicate_mset)
  moreover have "votes_for gp V ?C = (\<Sum>c \<in> ?C. votes_for gp V {c})"
    by (rule votes_for_siblings [OF ac]) (use finite_voted [OF assms(1)] in auto)
  ultimately show ?thesis by simp
qed

section \<open>Building the graph\<close>

abbreviation new_vertex :: voteVertex where
  "new_vertex \<equiv> \<lparr>vv_parent = None, vv_descendants = []\<rparr>"

definition fresh_on :: "ID set \<Rightarrow> vertices" where
  "fresh_on D = (\<lambda>i. if i \<in> D then Some new_vertex else None)"

definition closed_but :: "(ID \<Rightarrow> ID \<times> bool) \<Rightarrow> ID set \<Rightarrow> ID set \<Rightarrow> bool" where
  "closed_but gp A D \<longleftrightarrow> edge gp `` D \<subseteq> D \<union> A"

lemma closed_butD: "closed_but gp A D \<Longrightarrow> a \<in> D \<Longrightarrow> gp a = (b, True) \<Longrightarrow> b \<in> D \<union> A"
  unfolding closed_but_def by (meson ImageI edge_iff subsetD)

lemma closed_Image: "closed_but gp {} D \<Longrightarrow> i \<in> D \<Longrightarrow> (edge gp)\<^sup>* `` {i} \<subseteq> D"
proof
  fix x assume "closed_but gp {} D" "i \<in> D" "x \<in> (edge gp)\<^sup>* `` {i}"
  then have "(i, x) \<in> (edge gp)\<^sup>*" by simp
  then show "x \<in> D" using \<open>i \<in> D\<close> \<open>closed_but gp {} D\<close> by (induction rule: rtrancl_induct) (auto dest: closed_butD)
qed

lemma edge_Image_step: "gp i = (p, True) \<Longrightarrow> (edge gp)\<^sup>* `` {i} = insert i ((edge gp)\<^sup>* `` {p})"
  by (auto elim: converse_rtranclE intro: converse_rtrancl_into_rtrancl)

lemma edge_Image_stop: "gp i = (p, False) \<Longrightarrow> (edge gp)\<^sup>* `` {i} = {i}"
  by (auto elim: converse_rtranclE)

lemma fresh_on_simps [simp]: "dom (fresh_on D) = D" "(fresh_on D)(i \<mapsto> new_vertex) = fresh_on (insert i D)"
  "fresh_on D i = None \<longleftrightarrow> i \<notin> D" "fresh_on {} = Map.empty"
  by (auto simp: fresh_on_def dom_def)

lemma addID_graph:
  assumes fin: "finite (Domain (edge gp))" and "closed_but gp {i} D"
  shows "addIDAndAncestorsToGraph gp i (fresh_on D) = Some (fresh_on (D \<union> (edge gp)\<^sup>* `` {i})) \<and>
    closed_but gp {} (D \<union> (edge gp)\<^sup>* `` {i})"
  using assms(2)
proof (induction "card (Domain (edge gp) - D)" arbitrary: i D rule: less_induct)
  case less
  obtain p ok where gp: "gp i = (p, ok)" by fastforce
  consider "i \<in> D" | "i \<notin> D" "\<not> ok" | "i \<notin> D" "ok" by blast
  then show ?case
  proof cases
    case 1
    then have "closed_but gp {} D" using less.prems by (auto simp: closed_but_def)
    moreover from closed_Image [OF this 1] have "D \<union> (edge gp)\<^sup>* `` {i} = D" by blast
    ultimately show ?thesis using 1 by (simp add: addIDAndAncestorsToGraph.simps)
  next
    case 2
    with gp have "(edge gp)\<^sup>* `` {i} = {i}" using edge_Image_stop by simp
    moreover have "closed_but gp {} (insert i D)" using less.prems 2 gp by (auto simp: closed_but_def)
    ultimately show ?thesis using 2 gp by (simp add: addIDAndAncestorsToGraph.simps)
  next
    case 3
    have "i \<in> Domain (edge gp)" using 3 gp by auto
    then have "card (Domain (edge gp) - insert i D) < card (Domain (edge gp) - D)"
      using fin 3 by (intro psubset_card_mono) auto
    moreover have "closed_but gp {p} (insert i D)" using less.prems 3 gp by (auto simp: closed_but_def)
    ultimately have ih: "addIDAndAncestorsToGraph gp p (fresh_on (insert i D)) = Some (fresh_on (insert i D \<union> (edge gp)\<^sup>* `` {p})) \<and>
      closed_but gp {} (insert i D \<union> (edge gp)\<^sup>* `` {p})" by (rule less.hyps)
    moreover have "insert i D \<union> (edge gp)\<^sup>* `` {p} = D \<union> (edge gp)\<^sup>* `` {i}" using edge_Image_step [of gp i p] gp 3 by auto
    moreover have "addIDAndAncestorsToGraph gp i (fresh_on D) = addIDAndAncestorsToGraph gp p (fresh_on (insert i D))"
      by (subst addIDAndAncestorsToGraph.simps) (use 3 gp in simp)
    ultimately show ?thesis by simp
  qed
qed

lemma add_votes_graph:
  assumes "finite (Domain (edge gp))" and "closed_but gp {} D"
  shows "add_votes gp us (fresh_on D) = Some (fresh_on (D \<union> (edge gp)\<^sup>* `` set us))"
  using assms(2)
proof (induction us arbitrary: D)
  case (Cons i us)
  have "closed_but gp {i} D" using Cons.prems by (auto simp: closed_but_def)
  from addID_graph [OF assms(1) this] have a: "addIDAndAncestorsToGraph gp i (fresh_on D) = Some (fresh_on (D \<union> (edge gp)\<^sup>* `` {i}))"
    "closed_but gp {} (D \<union> (edge gp)\<^sup>* `` {i})" by simp_all
  have "D \<union> (edge gp)\<^sup>* `` {i} \<union> (edge gp)\<^sup>* `` set us = D \<union> (edge gp)\<^sup>* `` set (i # us)" by auto
  with a(1) Cons.IH [OF a(2)] show ?case by simp
qed simp

text \<open>What the linking loop has done after the vertices \<open>xs\<close> of the graph on \<open>D\<close>.\<close>

definition linked_on :: "(ID \<Rightarrow> ID \<times> bool) \<Rightarrow> ID set \<Rightarrow> ID list \<Rightarrow> ID \<Rightarrow> voteVertex option" where
  "linked_on gp D xs = (\<lambda>i. if i \<in> D then Some \<lparr>vv_parent = (if i \<in> set xs \<and> snd (gp i) then Some (fst (gp i)) else None),
       vv_descendants = filter (\<lambda>c. gp c = (i, True)) xs\<rparr> else None)"

lemma vertex_at_linked: "i \<in> D \<Longrightarrow> vertex_at (linked_on gp D xs) i =
   \<lparr>vv_parent = (if i \<in> set xs \<and> snd (gp i) then Some (fst (gp i)) else None), vv_descendants = filter (\<lambda>c. gp c = (i, True)) xs\<rparr>"
  by (simp add: vertex_at_def linked_on_def)

lemma dom_linked_on [simp]: "dom (linked_on gp D xs) = D"
  by (auto simp: linked_on_def split: if_splits)

lemma link_vertex_linked:
  assumes "closed_but gp {} D" "i \<in> D" "i \<notin> set xs" "acyclic (edge gp)"
  shows "link_vertex gp (filter (\<lambda>i. \<not> snd (gp i)) xs, linked_on gp D xs) i =
    (filter (\<lambda>i. \<not> snd (gp i)) (xs @ [i]), linked_on gp D (xs @ [i]))"
proof (cases "gp i")
  case (Pair p ok)
  show ?thesis
  proof (cases ok)
    case True
    then have p: "p \<in> D" using closed_butD [OF assms(1,2)] Pair by auto
    have "p \<noteq> i" using edge_irrefl [OF assms(4)] Pair True by auto
    with p assms(2,3) Pair True show ?thesis
      by (auto simp: link_vertex_def linked_on_def vertex_at_def fun_eq_iff)
  next
    case False
    with assms(2,3) Pair show ?thesis by (auto simp: link_vertex_def linked_on_def fun_eq_iff)
  qed
qed

lemma link_all:
  assumes "closed_but gp {} D" "acyclic (edge gp)" "set (xs @ ys) \<subseteq> D" "distinct (xs @ ys)"
  shows "foldl (link_vertex gp) (filter (\<lambda>i. \<not> snd (gp i)) xs, linked_on gp D xs) ys =
    (filter (\<lambda>i. \<not> snd (gp i)) (xs @ ys), linked_on gp D (xs @ ys))"
  using assms(3,4)
proof (induction ys arbitrary: xs)
  case (Cons y ys)
  have "link_vertex gp (filter (\<lambda>i. \<not> snd (gp i)) xs, linked_on gp D xs) y =
    (filter (\<lambda>i. \<not> snd (gp i)) (xs @ [y]), linked_on gp D (xs @ [y]))"
    by (rule link_vertex_linked [OF assms(1) _ _ assms(2)]) (use Cons.prems in auto)
  moreover have "set ((xs @ [y]) @ ys) \<subseteq> D" "distinct ((xs @ [y]) @ ys)" using Cons.prems by auto
  note Cons.IH [OF this]
  ultimately show ?case by simp
qed simp

definition vote_graph_on :: "(ID \<Rightarrow> ID \<times> bool) \<Rightarrow> ID set \<Rightarrow> voteGraph \<Rightarrow> bool" where
  "vote_graph_on gp D g \<longleftrightarrow> finite D \<and> closed_but gp {} D \<and> acyclic (edge gp) \<and> (\<exists>xs. set xs = D \<and> distinct xs \<and>
     vg_vertices g = linked_on gp D xs) \<and> set (vg_roots g) = {i \<in> D. \<not> snd (gp i)} \<and>
     set (vg_leaves g) = {i \<in> D. \<forall>c \<in> D. gp c \<noteq> (i, True)} \<and> distinct (vg_leaves g) \<and> vertexCount g = card D"

lemma buildVoteGraph_on:
  assumes gp: "parents_ok gp" and V: "represents votes V" and o: "\<And>n. valid_ord (ords n)"
  shows "\<exists>g. buildVoteGraph ords gp votes = Some g \<and> vote_graph_on gp (voted gp V) g"
proof -
  let ?D = "voted gp V"
  have fin: "finite ?D" by (rule finite_voted [OF gp])
  have ac: "acyclic (edge gp)" and fd: "finite (Domain (edge gp))" using gp by (simp_all add: parents_ok_def)
  have cl: "closed_but gp {} ?D" using voted_closed by (auto simp: closed_but_def)
  have "set (ords 0 (dom (counts votes))) = set_mset V"
    using valid_ordD(1) [OF o, of "dom (counts votes)" 0] represents_dom [OF V] by simp
  then have a: "add_votes gp (bag_List (ords 0) votes) Map.empty = Some (fresh_on ?D)"
    using add_votes_graph [OF fd, of "{}" "bag_List (ords 0) votes"] by (simp add: closed_but_def bag_List_def voted_def)
  let ?xs = "ords 1 ?D"
  have xs: "set ?xs = ?D" "distinct ?xs" using valid_ordD [OF o fin] by auto
  have "fresh_on ?D = linked_on gp ?D []" by (auto simp: fresh_on_def linked_on_def)
  with link_all [OF cl ac, of "[]" ?xs] xs
  have l: "foldl (link_vertex gp) ([], fresh_on ?D) ?xs = (filter (\<lambda>i. \<not> snd (gp i)) ?xs, linked_on gp ?D ?xs)" by simp
  have "set (findLeaves (ords 2) (linked_on gp ?D ?xs)) = {i \<in> ?D. \<forall>c \<in> ?D. gp c \<noteq> (i, True)}"
    using valid_ordD(1) [OF o fin] xs by (auto simp: findLeaves_def vertex_at_linked filter_empty_conv)
  moreover have "distinct (findLeaves (ords 2) (linked_on gp ?D ?xs))"
    using valid_ordD(2) [OF o fin] by (simp add: findLeaves_def)
  ultimately show ?thesis using a l fin cl ac xs
    by (auto simp: buildVoteGraph_def vote_graph_on_def)
qed

section \<open>Traversing the graph\<close>

definition children_of :: "(ID \<Rightarrow> ID \<times> bool) \<Rightarrow> ID set \<Rightarrow> ID \<Rightarrow> ID set" where
  "children_of gp D i = {c \<in> D. gp c = (i, True)}"

lemma vote_graph_vertex:
  assumes "vote_graph_on gp D g" "i \<in> D"
  shows "vv_parent (vertex_at (vg_vertices g) i) = (if snd (gp i) then Some (fst (gp i)) else None)"
    "set (vv_descendants (vertex_at (vg_vertices g) i)) = children_of gp D i"
    "distinct (vv_descendants (vertex_at (vg_vertices g) i))"
  using assms by (auto simp: vote_graph_on_def vertex_at_linked children_of_def)

lemma wf_edge_inverse:
  assumes "vote_graph_on gp D g"
  shows "wf {(c, v). c \<in> D \<and> gp c = (v, True)}"
proof (rule finite_acyclic_wf)
  have fin: "finite D" using assms by (simp add: vote_graph_on_def)
  have "{(c, v). c \<in> D \<and> gp c = (v, True)} \<subseteq> (\<lambda>c. (c, fst (gp c))) ` D" by force
  then show "finite {(c, v). c \<in> D \<and> gp c = (v, True)}" using fin finite_surj by blast
  have "acyclic (edge gp)" using assms by (simp add: vote_graph_on_def)
  then show "acyclic {(c, v). c \<in> D \<and> gp c = (v, True)}" by (rule acyclic_subset) auto
qed

lemma preorder_list:
  assumes "\<And>x. x \<in> set us \<Longrightarrow> \<exists>ys. preorder next_of (next_of x) = Some ys \<and> insert x (set ys) = T x"
  shows "\<exists>ys. preorder next_of us = Some ys \<and> set ys = (\<Union>x \<in> set us. T x)"
  using assms
proof (induction us)
  case Nil
  then show ?case by (simp add: preorder.simps)
next
  case (Cons u us)
  from Cons.prems [of u] obtain ys where ys: "preorder next_of (next_of u) = Some ys" "insert u (set ys) = T u" by auto
  from Cons.IH Cons.prems obtain zs where zs: "preorder next_of us = Some zs" "set zs = (\<Union>x \<in> set us. T x)" by auto
  have "preorder next_of (u # us) = Some (u # ys @ zs)" by (subst preorder.simps) (simp add: ys zs)
  then show ?case using ys(2) zs(2) by auto
qed

lemma fold_calls_set:
  "(\<And>x. x \<in> set us \<Longrightarrow> \<exists>ys. f x = Some ys \<and> set ys = T x) \<Longrightarrow> \<exists>ys. fold_calls f us = Some ys \<and> set ys = (\<Union>x \<in> set us. T x)"
  by (induction us) fastforce+

lemma below_children:
  assumes "v \<in> D"
  shows "{u \<in> D. (u, v) \<in> (edge gp)\<^sup>*} = insert v (\<Union>c \<in> {c. gp c = (v, True)}. {u \<in> D. (u, c) \<in> (edge gp)\<^sup>*})"
  using assms by (auto elim: rtranclE intro: rtrancl_into_rtrancl)

lemma traverse_subtree:
  assumes g: "vote_graph_on gp D g" and "v \<in> D"
  shows "\<exists>ys. preorder (\<lambda>v. vv_descendants (vertex_at (vg_vertices g) v)) (vv_descendants (vertex_at (vg_vertices g) v)) = Some ys \<and>
    insert v (set ys) = {u \<in> D. (u, v) \<in> (edge gp)\<^sup>*}"
  using assms(2)
proof (induction v rule: wf_induct_rule [OF wf_edge_inverse [OF g]])
  case (1 v)
  have cl: "closed_but gp {} D" using g by (simp add: vote_graph_on_def)
  from 1 have ih: "\<exists>ys. preorder (\<lambda>v. vv_descendants (vertex_at (vg_vertices g) v)) (vv_descendants (vertex_at (vg_vertices g) x)) = Some ys \<and>
      insert x (set ys) = {u \<in> D. (u, x) \<in> (edge gp)\<^sup>*}" if "x \<in> set (vv_descendants (vertex_at (vg_vertices g) v))" for x
    using that vote_graph_vertex(2) [OF g 1(2)] by (auto simp: children_of_def)
  have D: "c \<in> D" if "gp c = (v, True)" "u \<in> D" "(u, c) \<in> (edge gp)\<^sup>*" for u c using closed_Image [OF cl that(2)] that(3) by auto
  from preorder_list [of "vv_descendants (vertex_at (vg_vertices g) v)", OF ih]
  obtain ys where ys: "preorder (\<lambda>v. vv_descendants (vertex_at (vg_vertices g) v)) (vv_descendants (vertex_at (vg_vertices g) v)) = Some ys"
    "set ys = (\<Union>x \<in> children_of gp D v. {u \<in> D. (u, x) \<in> (edge gp)\<^sup>*})" unfolding vote_graph_vertex(2) [OF g 1(2)] by blast
  then show ?case unfolding below_children [OF 1(2)] using D by (intro exI [of _ ys]) (auto simp: children_of_def)
qed

lemma has_root:
  assumes g: "vote_graph_on gp D g" and "u \<in> D"
  shows "\<exists>r \<in> set (vg_roots g). (u, r) \<in> (edge gp)\<^sup>*"
proof (rule ccontr)
  assume n: "\<not> ?thesis"
  let ?A = "(edge gp)\<^sup>* `` {u}"
  have cl: "closed_but gp {} D" and fin: "finite D" and ac: "acyclic (edge gp)" and
    r: "set (vg_roots g) = {i \<in> D. \<not> snd (gp i)}" using g by (simp_all add: vote_graph_on_def)
  have A: "?A \<subseteq> D" by (rule closed_Image [OF cl assms(2)])
  have step: "\<exists>b \<in> ?A. (b, a) \<in> (edge gp)\<inverse> \<inter> ?A \<times> ?A" if a: "a \<in> ?A" for a
  proof -
    have "snd (gp a)" using n a A r by auto
    then have e: "(a, fst (gp a)) \<in> edge gp" by (simp add: prod_eq_iff)
    with a have "fst (gp a) \<in> ?A" by (auto intro: rtrancl_into_rtrancl simp del: edge_iff)
    with a e show ?thesis by blast
  qed
  have "wf ((edge gp)\<inverse> \<inter> ?A \<times> ?A)"
    by (rule finite_acyclic_wf) (use A fin ac in \<open>auto intro: finite_subset acyclic_subset [of "(edge gp)\<inverse>"]\<close>)
  then obtain a where "a \<in> ?A" "\<forall>b. (b, a) \<in> (edge gp)\<inverse> \<inter> ?A \<times> ?A \<longrightarrow> b \<notin> ?A" by (rule wfE_min [of _ u ?A]) blast+
  with step show False by blast
qed

lemma vg_traverse_all:
  assumes g: "vote_graph_on gp D g"
  shows "\<exists>ys. vg_traverse g = Some ys \<and> set ys = D"
proof -
  have r: "set (vg_roots g) \<subseteq> D" using g by (auto simp: vote_graph_on_def)
  have "\<exists>ys. traverse (vg_vertices g) x = Some ys \<and> set ys = {u \<in> D. (u, x) \<in> (edge gp)\<^sup>*}" if "x \<in> D" for x
    using preorder_list [of "[x]", OF traverse_subtree [OF g]] that by (simp add: traverse_def)
  with fold_calls_set [of "vg_roots g" "traverse (vg_vertices g)" "\<lambda>x. {u \<in> D. (u, x) \<in> (edge gp)\<^sup>*}"] r
  obtain ys where "fold_calls (traverse (vg_vertices g)) (vg_roots g) = Some ys"
    "set ys = (\<Union>x \<in> set (vg_roots g). {u \<in> D. (u, x) \<in> (edge gp)\<^sup>*})" by blast
  then show ?thesis using has_root [OF g] by (auto simp: vg_traverse_def)
qed

section \<open>Counting transitive votes\<close>

text \<open>
  The state of the sort: the vertices \<open>P\<close> are done, those of \<open>Q\<close> are ready, \<open>cc\<close> counts the children that
  are not done and the bag has the votes that the done children have passed on.
\<close>

definition sort_inv :: "(ID \<Rightarrow> ID \<times> bool) \<Rightarrow> ID multiset \<Rightarrow> ID set \<Rightarrow> ID list \<Rightarrow> (ID \<rightharpoonup> int) \<Rightarrow> ID bag \<Rightarrow> bool" where
  "sort_inv gp V P Q cc b \<longleftrightarrow>
     P \<subseteq> voted gp V \<and> (\<forall>w \<in> P. children_of gp (voted gp V) w \<subseteq> P) \<and>
     set Q = {w \<in> voted gp V - P. children_of gp (voted gp V) w \<subseteq> P} \<and> distinct Q \<and>
     (\<forall>w \<in> voted gp V. child_count cc w = int (card (children_of gp (voted gp V) w - P))) \<and>
     (\<exists>M. represents b M \<and> (\<forall>i. count M i = count V i + (\<Sum>c \<in> {c \<in> P. gp c = (i, True)}. votes_for gp V {c})))"

lemma sort_invD:
  assumes "sort_inv gp V P Q cc b"
  shows "P \<subseteq> voted gp V" "w \<in> P \<Longrightarrow> children_of gp (voted gp V) w \<subseteq> P"
    "set Q = {w \<in> voted gp V - P. children_of gp (voted gp V) w \<subseteq> P}" "distinct Q"
    "w \<in> voted gp V \<Longrightarrow> child_count cc w = int (card (children_of gp (voted gp V) w - P))"
  using assms by (auto simp: sort_inv_def)

lemma sort_inv_ready:
  assumes gp: "parents_ok gp" and inv: "sort_inv gp V P (v # Q) cc b"
  shows "v \<in> voted gp V" "v \<notin> P" "children_of gp (voted gp V) v \<subseteq> P" "bag_Count v b = int (votes_for gp V {v})"
proof -
  from inv have s: "set (v # Q) = {w \<in> voted gp V - P. children_of gp (voted gp V) w \<subseteq> P}" and PD: "P \<subseteq> voted gp V"
    by (simp_all add: sort_inv_def)
  then show v: "v \<in> voted gp V" "v \<notin> P" and c: "children_of gp (voted gp V) v \<subseteq> P" by auto
  from inv obtain M where M: "represents b M" "count M v = count V v + (\<Sum>c \<in> {c \<in> P. gp c = (v, True)}. votes_for gp V {c})"
    by (auto simp: sort_inv_def)
  have "{c \<in> P. gp c = (v, True)} = {c \<in> voted gp V. gp c = (v, True)}" using c PD by (auto simp: children_of_def)
  with M votes_for_step [OF gp v(1)] have "count M v = votes_for gp V {v}" by simp
  with represents_Count [OF M(1)] show "bag_Count v b = int (votes_for gp V {v})" by simp
qed

lemma sort_inv_root:
  assumes gp: "parents_ok gp" and inv: "sort_inv gp V P (v # Q) cc b" and r: "\<not> snd (gp v)"
  shows "sort_inv gp V (insert v P) Q cc b"
proof -
  note v = sort_inv_ready [OF gp inv]
  have c: "v \<notin> children_of gp D w" for w D using r by (auto simp: children_of_def)
  have "children_of gp (voted gp V) w \<subseteq> insert v P \<longleftrightarrow> children_of gp (voted gp V) w \<subseteq> P" for w using c by blast
  moreover have "children_of gp (voted gp V) w - insert v P = children_of gp (voted gp V) w - P" for w using c by blast
  moreover have "{c. (c = v \<or> c \<in> P) \<and> gp c = (i, True)} = {c \<in> P. gp c = (i, True)}" for i using r by auto
  moreover have "set Q = set (v # Q) - {v}" using inv by (auto simp: sort_inv_def)
  ultimately show ?thesis using inv v by (auto simp: sort_inv_def)
qed

lemma sort_inv_votes:
  assumes gp: "parents_ok gp" and inv: "sort_inv gp V P (v # Q) cc b" and p: "gp v = (p, True)"
  shows "\<exists>M. represents (AddCount p (bag_Count v b) b) M \<and>
    (\<forall>i. count M i = count V i + (\<Sum>c \<in> {c \<in> insert v P. gp c = (i, True)}. votes_for gp V {c}))"
proof -
  note v = sort_inv_ready [OF gp inv]
  from inv obtain M where M: "represents b M" "\<And>i. count M i = count V i + (\<Sum>c \<in> {c \<in> P. gp c = (i, True)}. votes_for gp V {c})"
    by (auto simp: sort_inv_def)
  have "finite P" using inv finite_voted [OF gp, of V] by (auto simp: sort_inv_def intro: finite_subset)
  moreover have "{c. (c = v \<or> c \<in> P) \<and> gp c = (i, True)} = (if i = p then insert v {c \<in> P. gp c = (i, True)} else {c \<in> P. gp c = (i, True)})" for i
    using p by auto
  ultimately have "(\<Sum>c \<in> {c \<in> insert v P. gp c = (i, True)}. votes_for gp V {c}) =
      (if i = p then votes_for gp V {v} else 0) + (\<Sum>c \<in> {c \<in> P. gp c = (i, True)}. votes_for gp V {c})" for i
    using v(2) by simp
  with M(2) have "count (M + replicate_mset (votes_for gp V {v}) p) i =
      count V i + (\<Sum>c \<in> {c \<in> insert v P. gp c = (i, True)}. votes_for gp V {c})" for i by simp
  moreover have "represents (AddCount p (bag_Count v b) b) (M + replicate_mset (votes_for gp V {v}) p)"
    using represents_AddCount [OF M(1), of "bag_Count v b" p] v(4) by simp
  ultimately show ?thesis by blast
qed

lemma sort_inv_child:
  assumes gp: "parents_ok gp" and inv: "sort_inv gp V P (v # Q) cc b" and p: "gp v = (p, True)"
    and cc': "cc' = cc(p \<mapsto> child_count cc p - 1)"
  shows "sort_inv gp V (insert v P) (if child_count cc' p = 0 then Q @ [p] else Q) cc' (AddCount p (bag_Count v b) b)"
proof -
  let ?D = "voted gp V"
  note v = sort_inv_ready [OF gp inv]
  have fin: "finite ?D" by (rule finite_voted [OF gp])
  have pD: "p \<in> ?D" by (rule voted_closed [OF v(1) p])
  have vc: "v \<in> children_of gp ?D w \<longleftrightarrow> w = p" for w using v(1) p by (auto simp: children_of_def)
  note D = sort_invD [OF inv]
  have pP: "p \<notin> P" using D(2) [of p] vc v(2) by blast
  have pv: "p \<noteq> v" using edge_irrefl [of gp v] p gp by (auto simp: parents_ok_def)
  have pQ: "p \<notin> set Q"
  proof
    assume "p \<in> set Q"
    then have "children_of gp ?D p \<subseteq> P" using D(3) by auto
    with vc v(2) show False by blast
  qed
  have card: "int (card (children_of gp ?D p - insert v P)) = int (card (children_of gp ?D p - P)) - 1"
  proof -
    have "finite (children_of gp ?D p - P)" using fin by (simp add: children_of_def)
    from card_Suc_Diff1 [OF this, of v] vc v(2) show ?thesis by (simp flip: Diff_insert)
  qed
  have other: "w \<noteq> p \<Longrightarrow> children_of gp ?D w - insert v P = children_of gp ?D w - P" for w using vc by auto
  have count: "\<forall>w \<in> ?D. child_count cc' w = int (card (children_of gp ?D w - insert v P))"
    using D(5) card other pD by (auto simp: cc' child_count_def)
  have zero: "child_count cc' p = 0 \<longleftrightarrow> children_of gp ?D p \<subseteq> insert v P"
  proof -
    have "child_count cc' p = 0 \<longleftrightarrow> card (children_of gp ?D p - insert v P) = 0" using count pD by simp
    moreover have "finite (children_of gp ?D p - insert v P)" using fin by (simp add: children_of_def)
    ultimately show ?thesis by auto
  qed
  have Q: "set Q = {w \<in> ?D - insert v P. children_of gp ?D w \<subseteq> P}" using D(3,4) by auto
  have "children_of gp ?D w \<subseteq> insert v P \<longleftrightarrow> (if w = p then child_count cc' p = 0 else children_of gp ?D w \<subseteq> P)" for w
  proof (cases "w = p")
    case False
    then have "v \<notin> children_of gp ?D w" using vc by simp
    then show ?thesis using False by (simp add: subset_insert)
  qed (use zero in simp)
  moreover have "\<not> children_of gp ?D p \<subseteq> P" using vc v(2) by blast
  ultimately have ready: "{w \<in> ?D - insert v P. children_of gp ?D w \<subseteq> insert v P} = (if child_count cc' p = 0 then insert p (set Q) else set Q)"
    unfolding Q using pD pP pv by auto
  have "distinct Q" "P \<subseteq> ?D" "\<forall>w \<in> P. children_of gp ?D w \<subseteq> P" using D by auto
  then show ?thesis using sort_inv_votes [OF gp inv p] count ready v pQ unfolding sort_inv_def by auto
qed

abbreviation pass_on :: "voteGraph \<Rightarrow> ID \<Rightarrow> ID bag \<Rightarrow> ID bag" where
  "pass_on g \<equiv> \<lambda>v b. case vv_parent (vertex_at (vg_vertices g) v) of None \<Rightarrow> b | Some p \<Rightarrow> AddCount p (bag_Count v b) b"

lemma sort_layer_inv:
  assumes gp: "parents_ok gp" and g: "vote_graph_on gp (voted gp V) g"
  shows "sort_inv gp V P (leaves @ new) cc b \<Longrightarrow>
    \<exists>new' cc' b'. sort_layer (vg_vertices g) (pass_on g) leaves (new, cc, b) = (new', cc', b') \<and> sort_inv gp V (P \<union> set leaves) new' cc' b'"
proof (induction leaves arbitrary: P new cc b)
  case (Cons v leaves)
  from Cons.prems have inv: "sort_inv gp V P (v # leaves @ new) cc b" by simp
  note v = sort_inv_ready [OF gp inv]
  show ?case
  proof (cases "snd (gp v)")
    case False
    from Cons.IH [OF sort_inv_root [OF gp inv False]] vote_graph_vertex(1) [OF g v(1)] False show ?thesis by simp
  next
    case True
    then have p: "gp v = (fst (gp v), True)" by (simp add: prod_eq_iff)
    define cc' where "cc' = cc(fst (gp v) \<mapsto> child_count cc (fst (gp v)) - 1)"
    from sort_inv_child [OF gp inv p cc'_def]
    have "sort_inv gp V (insert v P) (leaves @ (if child_count cc' (fst (gp v)) = 0 then new @ [fst (gp v)] else new)) cc'
      (AddCount (fst (gp v)) (bag_Count v b) b)" by (simp split: if_splits)
    note ih = Cons.IH [OF this]
    have "sort_layer (vg_vertices g) (pass_on g) (v # leaves) (new, cc, b) = sort_layer (vg_vertices g) (pass_on g) leaves
      ((if child_count cc' (fst (gp v)) = 0 then new @ [fst (gp v)] else new), cc', AddCount (fst (gp v)) (bag_Count v b) b)"
      using vote_graph_vertex(1) [OF g v(1)] True by (simp add: cc'_def Let_def)
    with ih show ?thesis by simp
  qed
qed simp

lemma sort_loop_inv:
  assumes gp: "parents_ok gp" and g: "vote_graph_on gp (voted gp V) g"
  shows "sort_inv gp V P leaves cc b \<Longrightarrow>
    \<exists>P' cc' b'. sort_loop (vg_vertices g) (pass_on g) leaves cc b = Some b' \<and> sort_inv gp V P' [] cc' b'"
proof (induction "card (voted gp V - P)" arbitrary: P leaves cc b rule: less_induct)
  case less
  show ?case
  proof (cases "leaves = []")
    case True
    with less.prems show ?thesis by (auto simp: sort_loop.simps)
  next
    case False
    from sort_layer_inv [OF gp g, of P leaves "[]" cc b] less.prems obtain new cc' b' where
      n: "sort_layer (vg_vertices g) (pass_on g) leaves ([], cc, b) = (new, cc', b')" "sort_inv gp V (P \<union> set leaves) new cc' b'"
      unfolding append_Nil2 by blast
    have "set leaves \<subseteq> voted gp V - P" using sort_invD(3) [OF less.prems] by auto
    then have "card (voted gp V - (P \<union> set leaves)) < card (voted gp V - P)"
      using False finite_voted [OF gp, of V] by (intro psubset_card_mono) (auto simp: neq_Nil_conv)
    from less.hyps [OF this n(2)] show ?thesis
      by (subst sort_loop.simps) (use False n(1) in simp)
  qed
qed

lemma sort_inv_end:
  assumes gp: "parents_ok gp" and g: "vote_graph_on gp (voted gp V) g" and inv: "sort_inv gp V P [] cc b"
  shows "P = voted gp V"
proof (rule ccontr)
  assume "P \<noteq> voted gp V"
  then obtain x where x: "x \<in> voted gp V - P" using sort_invD(1) [OF inv] by auto
  obtain v where v: "v \<in> voted gp V - P"
    "\<And>c. (c, v) \<in> {(c, v). c \<in> voted gp V \<and> gp c = (v, True)} \<Longrightarrow> c \<notin> voted gp V - P"
    by (rule wfE_min [OF wf_edge_inverse [OF g] x]) blast
  then have "v \<in> {w \<in> voted gp V - P. children_of gp (voted gp V) w \<subseteq> P}" by (auto simp: children_of_def)
  with sort_invD(3) [OF inv] show False by (metis empty_iff empty_set)
qed

lemma child_counts:
  "set us \<subseteq> D \<Longrightarrow> child_count (foldl (\<lambda>m v. m(v \<mapsto> f v)) m us) w = (if w \<in> set us then f w else child_count m w)"
  by (induction us arbitrary: m) (auto simp: child_count_def)

theorem transitive_counts:
  assumes gp: "parents_ok gp" and g: "vote_graph_on gp (voted gp V) g" and V: "represents votes V" and o: "valid_ord ord"
  shows "\<exists>b. computeTransitiveVoteCountGraph ord g votes = Some b \<and> dom (counts b) = voted gp V \<and>
    (\<forall>i. bag_Count i b = int (votes_for gp V {i}))"
proof -
  let ?D = "voted gp V"
  from vg_traverse_all [OF g] obtain us where us: "vg_traverse g = Some us" "set us = ?D" by auto
  define cc where "cc = foldl (\<lambda>m v. m(v \<mapsto> int (length (vv_descendants (vertex_at (vg_vertices g) v))))) Map.empty us"
  have cc: "child_count cc w = int (card (children_of gp ?D w - {}))" if "w \<in> ?D" for w
    unfolding cc_def using child_counts [of us ?D _ _ w] us(2) that vote_graph_vertex(2,3) [OF g that] by (simp flip: distinct_card)
  have cl: "represents (bag_Clone ord votes) V" using represents_Filter [OF V o, of "\<lambda>_. True"] by (simp add: bag_Clone_eq)
  have "sort_inv gp V {} (vg_leaves g) cc (bag_Clone ord votes)"
    unfolding sort_inv_def using g cc cl by (auto simp: vote_graph_on_def children_of_def)
  from sort_loop_inv [OF gp g this] obtain P cc' b where
    b: "sort_loop (vg_vertices g) (pass_on g) (vg_leaves g) cc (bag_Clone ord votes) = Some b" "sort_inv gp V P [] cc' b" by blast
  from b(2) sort_inv_end [OF gp g b(2)] obtain M where M: "represents b M"
    "\<And>i. count M i = count V i + (\<Sum>c \<in> {c \<in> ?D. gp c = (i, True)}. votes_for gp V {c})" unfolding sort_inv_def by blast
  have c: "count M i = votes_for gp V {i}" for i
  proof (cases "i \<in> ?D")
    case True
    with votes_for_step [OF gp] M(2) show ?thesis by simp
  next
    case False
    then have "i \<notin># V" "{c \<in> ?D. gp c = (i, True)} = {}" using voted_closed [of _ gp V i] by (auto simp: voted_def)
    moreover have "votes_for gp V {i} = 0" by (rule votes_for_unvoted) (use False in auto)
    ultimately show ?thesis using M(2) [of i] by (simp only: sum.empty) (simp add: count_eq_zero_iff)
  qed
  have "i \<in># M \<longleftrightarrow> i \<in> ?D" for i
    using votes_for_pos [of i gp V] votes_for_unvoted [of "{i}" gp V] c [of i]
    by (cases "i \<in> ?D") (auto simp flip: count_greater_zero_iff)
  then have "dom (counts b) = ?D" using represents_dom [OF M(1)] by auto
  then show ?thesis using b(1) us(1) represents_Count [OF M(1)] c
    by (auto simp: computeTransitiveVoteCountGraph_def topologicalSortTraversal_def cc_def)
qed

end
