(* ===== verification/IdBits.thy ===== *)
theory IdBits
  imports Prelude
begin

text \<open>
  default/ids/bits.go and \<^verbatim>\<open>ID.Bit\<close> of default/ids/id.go: the bits of an identifier in the order
  the snowball tree splits on, byte by byte, least significant bit first. Bit positions are
  \<^verbatim>\<open>int\<close> in the source and never negative in its callers; they are \<^typ>\<open>nat\<close> here. The masks are
  \<^verbatim>\<open>int\<close> values, as in the source.
\<close>

section \<open>Model\<close>

definition NumBits :: nat where
  "NumBits = 256"

definition BitsPerByte :: nat where
  "BitsPerByte = 8"

definition id_Bit :: "ID \<Rightarrow> nat \<Rightarrow> nat" where
  "id_Bit i n = unat (drop_bit (n mod BitsPerByte) (i ! (n div BitsPerByte)) AND 1)"

definition subslice :: "nat \<Rightarrow> nat \<Rightarrow> 'a list \<Rightarrow> 'a list" where
  "subslice a b xs = take (b - a) (drop a xs)"

definition startMask :: "nat \<Rightarrow> int" where
  "startMask startBit = push_bit startBit (-1)"

definition stopMask :: "nat \<Rightarrow> int" where
  "stopMask stopBit = push_bit (stopBit + 1) 1 - 1"

definition EqualSubset :: "nat \<Rightarrow> nat \<Rightarrow> ID \<Rightarrow> ID \<Rightarrow> bool" where
  "EqualSubset start stop id1 id2 =
     (if stop = 0 \<or> start > stop - 1 then True
      else let stop = stop - 1 in
        if stop \<ge> NumBits then False
        else let startIndex = start div BitsPerByte; stopIndex = stop div BitsPerByte in
          if startIndex + 1 < stopIndex \<and> subslice (startIndex + 1) stopIndex id1 \<noteq> subslice (startIndex + 1) stopIndex id2
          then False
          else let startM = startMask (start mod BitsPerByte); stopM = stopMask (stop mod BitsPerByte) in
            if startIndex = stopIndex then
              (startM AND stopM) AND uint (id1 ! startIndex) = (startM AND stopM) AND uint (id2 ! startIndex)
            else startM AND uint (id1 ! startIndex) = startM AND uint (id2 ! startIndex) \<and>
                 stopM AND uint (id1 ! stopIndex) = stopM AND uint (id2 ! stopIndex))"

text \<open>\<^verbatim>\<open>bits.TrailingZeros8\<close>.\<close>

definition TrailingZeros8 :: "byte \<Rightarrow> nat" where
  "TrailingZeros8 w = length (takeWhile (\<lambda>n. \<not> bit w n) [0..<8])"

definition diff_bit :: "int \<Rightarrow> int \<Rightarrow> nat \<Rightarrow> nat \<times> bool" where
  "diff_bit b1 b2 index = (TrailingZeros8 (word_of_int (b1 XOR b2)) + index * BitsPerByte, True)"

text \<open>The index is 0 when no difference is found.\<close>

definition FirstDifferenceSubset :: "nat \<Rightarrow> nat \<Rightarrow> ID \<Rightarrow> ID \<Rightarrow> nat \<times> bool" where
  "FirstDifferenceSubset start stop id1 id2 =
     (if stop = 0 \<or> start > stop - 1 \<or> stop - 1 \<ge> NumBits then (0, False)
      else let stop = stop - 1; startIndex = start div BitsPerByte; stopIndex = stop div BitsPerByte;
               startM = startMask (start mod BitsPerByte); stopM = stopMask (stop mod BitsPerByte) in
        if startIndex = stopIndex then
          (let b1 = (startM AND stopM) AND uint (id1 ! startIndex); b2 = (startM AND stopM) AND uint (id2 ! startIndex)
           in if b1 = b2 then (0, False) else diff_bit b1 b2 startIndex)
        else
          let start1 = startM AND uint (id1 ! startIndex); start2 = startM AND uint (id2 ! startIndex) in
          if start1 \<noteq> start2 then diff_bit start1 start2 startIndex
          else case find (\<lambda>i. id1 ! i \<noteq> id2 ! i) [startIndex + 1..<stopIndex] of
                 Some i \<Rightarrow> diff_bit (uint (id1 ! i)) (uint (id2 ! i)) i
               | None \<Rightarrow>
                   (let stop1 = stopM AND uint (id1 ! stopIndex); stop2 = stopM AND uint (id2 ! stopIndex)
                    in if stop1 \<noteq> stop2 then diff_bit stop1 stop2 stopIndex else (0, False)))"

section \<open>Bits and masks\<close>

definition bit_at :: "ID \<Rightarrow> nat \<Rightarrow> bool" where
  "bit_at i n = bit (i ! (n div 8)) (n mod 8)"

lemma id_Bit_bit_at: "id_Bit i n = of_bool (bit_at i n)"
proof -
  have "drop_bit (n mod 8) (i ! (n div 8)) AND 1 = of_bool (bit_at i n)"
    by (simp add: and_one_eq mod_2_eq_odd bit_at_def bit_iff_odd_drop_bit)
  then show ?thesis by (simp add: id_Bit_def BitsPerByte_def)
qed

lemma id_Bit_eq_iff: "id_Bit a n = id_Bit b m \<longleftrightarrow> bit_at a n = bit_at b m"
  by (simp add: id_Bit_bit_at)

lemma id_Bit_le: "id_Bit i n \<le> 1"
  by (simp add: id_Bit_bit_at)

lemma bit_startMask: "bit (startMask s) k \<longleftrightarrow> s \<le> k"
  by (auto simp: startMask_def bit_simps)

lemma bit_stopMask: "bit (stopMask s) k \<longleftrightarrow> k \<le> s"
proof -
  have "stopMask s = mask (Suc s)" by (simp add: stopMask_def mask_eq_exp_minus_1)
  then show ?thesis by (simp add: bit_mask_iff less_Suc_eq_le)
qed

lemma masked_eq_iff:
  fixes x y :: byte
  shows "m AND uint x = m AND uint y \<longleftrightarrow> (\<forall>k < 8. bit m k \<longrightarrow> bit x k = bit y k)"
  by (auto simp: bit_eq_iff bit_and_iff bit_uint_iff)

lemma byte_eq_iff: "x = y \<longleftrightarrow> (\<forall>k < 8. bit x k = bit (y :: byte) k)"
  by (auto simp: bit_eq_iff)

text \<open>The lowest set bit.\<close>

lemma TrailingZeros8_least:
  assumes "w \<noteq> 0"
  shows "TrailingZeros8 w < 8 \<and> bit w (TrailingZeros8 w) \<and> (\<forall>k < TrailingZeros8 w. \<not> bit w k)"
proof -
  let ?t = "takeWhile (\<lambda>n. \<not> bit w n) [0..<8]"
  from assms obtain n where n: "n < 8" "bit w n" by (auto simp: byte_eq_iff)
  have "\<not> (\<forall>k \<in> set [0..<8]. \<not> bit w k)" using n by auto
  then have len: "length ?t < length [0..<8]"
    by (metis (no_types, lifting) length_takeWhile_le nat_less_le takeWhile_eq_all_conv takeWhile_eq_take take_all_iff)
  then have "bit w ([0..<8] ! length ?t)" using nth_length_takeWhile by blast
  moreover have "\<not> bit w k" if "k < length ?t" for k
  proof -
    have "?t ! k = k" using that len by (simp add: takeWhile_nth)
    with that show ?thesis by (metis (mono_tags, lifting) nth_mem set_takeWhileD)
  qed
  ultimately show ?thesis using len by (simp add: TrailingZeros8_def)
qed

lemma masked_diff:
  fixes x y :: byte
  assumes "m AND uint x \<noteq> m AND uint y" and t: "t = TrailingZeros8 (word_of_int ((m AND uint x) XOR (m AND uint y)))"
  shows "t < 8 \<and> bit m t \<and> bit x t \<noteq> bit y t \<and> (\<forall>k < t. bit m k \<longrightarrow> bit x k = bit y k)"
proof -
  define w :: byte where "w = word_of_int ((m AND uint x) XOR (m AND uint y))"
  have bw: "bit w k \<longleftrightarrow> bit m k \<and> bit x k \<noteq> bit y k" if "k < 8" for k
    using that by (auto simp: w_def bit_word_of_int_iff bit_xor_iff bit_and_iff bit_uint_iff)
  from assms(1) obtain k where "k < 8" "bit w k" using bw by (auto simp: masked_eq_iff)
  then have "w \<noteq> 0" by auto
  from TrailingZeros8_least [OF this] bw show ?thesis by (auto simp: t simp flip: w_def)
qed

section \<open>Ranges of bits\<close>

definition agree :: "ID \<Rightarrow> ID \<Rightarrow> nat \<Rightarrow> nat \<Rightarrow> bool" where
  "agree a b start stop \<longleftrightarrow> (\<forall>n. start \<le> n \<and> n < stop \<longrightarrow> bit_at a n = bit_at b n)"

definition first_difference :: "ID \<Rightarrow> ID \<Rightarrow> nat \<Rightarrow> nat \<Rightarrow> nat \<Rightarrow> bool" where
  "first_difference a b start stop i \<longleftrightarrow>
     start \<le> i \<and> i < stop \<and> bit_at a i \<noteq> bit_at b i \<and> agree a b start i"

lemma pos_le: "j < 8 \<Longrightarrow> k < 8 \<Longrightarrow> 8 * s + j \<le> 8 * i + k \<longleftrightarrow> s < i \<or> s = i \<and> j \<le> (k :: nat)"
  by (cases s i rule: linorder_cases) auto

lemma bit_at_pos [simp]: "k < 8 \<Longrightarrow> bit_at a (8 * i + k) = bit (a ! i) k"
  by (simp add: bit_at_def)

lemma bytewise: "(\<forall>n. P n) \<longleftrightarrow> (\<forall>i k. k < 8 \<longrightarrow> P (8 * i + k :: nat))"
proof
  assume P: "\<forall>i k. k < 8 \<longrightarrow> P (8 * i + k)"
  show "\<forall>n. P n"
  proof
    fix n :: nat
    have "n mod 8 < 8" by simp
    with P have "P (8 * (n div 8) + n mod 8)" by blast
    then show "P n" by simp
  qed
qed simp

lemma agree_bytes:
  assumes "start = 8 * s + j" "stop = Suc (8 * t + l)" "j < 8" "l < 8"
  shows "agree a b start stop \<longleftrightarrow>
    (\<forall>i k. k < 8 \<longrightarrow> (s < i \<or> s = i \<and> j \<le> k) \<and> (i < t \<or> i = t \<and> k \<le> l) \<longrightarrow> bit (a ! i) k = bit (b ! i) k)"
  unfolding agree_def assms less_Suc_eq_le
  by (subst bytewise) (simp add: pos_le assms)

lemma agree_bytes_apart:
  assumes pos: "start = 8 * s + j" "stop = Suc (8 * t + l)" "j < 8" "l < 8" and st: "s < t"
  shows "agree a b start stop \<longleftrightarrow> (\<forall>k < 8. j \<le> k \<longrightarrow> bit (a ! s) k = bit (b ! s) k) \<and>
    (\<forall>i. s < i \<and> i < t \<longrightarrow> a ! i = b ! i) \<and> (\<forall>k < 8. k \<le> l \<longrightarrow> bit (a ! t) k = bit (b ! t) k)"
    (is "_ \<longleftrightarrow> ?first \<and> ?mid \<and> ?last")
proof
  assume "agree a b start stop"
  then have A: "bit (a ! i) k = bit (b ! i) k" if "k < 8" "s < i \<or> s = i \<and> j \<le> k" "i < t \<or> i = t \<and> k \<le> l" for i k
    using that unfolding agree_bytes [OF pos] by blast
  show "?first \<and> ?mid \<and> ?last"
    unfolding byte_eq_iff using A st by simp
next
  assume C: "?first \<and> ?mid \<and> ?last"
  show "agree a b start stop"
    unfolding agree_bytes [OF pos]
  proof (intro allI impI)
    fix i k :: nat
    assume k: "k < 8" "(s < i \<or> s = i \<and> j \<le> k) \<and> (i < t \<or> i = t \<and> k \<le> l)"
    then consider "i = s" "j \<le> k" | "s < i" "i < t" | "i = t" "k \<le> l" by auto
    then show "bit (a ! i) k = bit (b ! i) k" using C k(1) by cases auto
  qed
qed

lemma subslice_eq_iff:
  assumes "length a = length b" "t \<le> length a"
  shows "subslice (Suc s) t a = subslice (Suc s) t b \<longleftrightarrow> (\<forall>i. s < i \<and> i < t \<longrightarrow> a ! i = b ! i)"
proof
  assume eq: "subslice (Suc s) t a = subslice (Suc s) t b"
  show "\<forall>i. s < i \<and> i < t \<longrightarrow> a ! i = b ! i"
  proof (intro allI impI)
    fix i
    assume i: "s < i \<and> i < t"
    have "subslice (Suc s) t a ! (i - Suc s) = subslice (Suc s) t b ! (i - Suc s)" using eq by simp
    moreover have "Suc (s + (i - Suc s)) = i" "i - Suc s < t - Suc s" using i by auto
    ultimately show "a ! i = b ! i" using assms i by (simp add: subslice_def)
  qed
next
  assume "\<forall>i. s < i \<and> i < t \<longrightarrow> a ! i = b ! i"
  with assms show "subslice (Suc s) t a = subslice (Suc s) t b"
    by (auto simp: subslice_def intro!: nth_equalityI)
qed

text \<open>Positions of an in-range interval, byte by byte.\<close>

lemma interval_bytes:
  assumes "start < stop" "stop \<le> 256"
  obtains s j t l where "start = 8 * s + j" "stop = Suc (8 * t + l)" "j < 8" "l < 8" "s < 32" "t < 32" "s \<le> t"
    "s = t \<longrightarrow> j \<le> l"
proof
  show "start = 8 * (start div 8) + start mod 8" by simp
  show "stop = Suc (8 * ((stop - 1) div 8) + (stop - 1) mod 8)" using assms by simp
  show "start div 8 = (stop - 1) div 8 \<longrightarrow> start mod 8 \<le> (stop - 1) mod 8"
    using assms by (metis Suc_pred' add_le_cancel_left less_Suc_eq_le mult_div_mod_eq not_less_zero gr0I)
  show "start div 8 \<le> (stop - 1) div 8" using assms by (intro div_le_mono) simp
qed (use assms in auto)

lemma EqualSubset_agree:
  assumes "wf_ID a" "wf_ID b" "stop \<le> 256"
  shows "EqualSubset start stop a b \<longleftrightarrow> agree a b start stop"
proof (cases "start < stop")
  case False
  then show ?thesis by (auto simp: EqualSubset_def agree_def)
next
  case True
  from True assms(3) obtain s j t l where pos: "start = 8 * s + j" "stop = Suc (8 * t + l)" "j < 8" "l < 8"
    "s < 32" "t < 32" "s \<le> t" "s = t \<longrightarrow> j \<le> l" by (rule interval_bytes)
  have d: "(8 * s + j) div 8 = s" "(8 * s + j) mod 8 = j" "(8 * t + l) div 8 = t" "(8 * t + l) mod 8 = l"
    "8 * t + l < 256" "8 * s + j \<le> 8 * t + l"
    using pos by auto
  have len: "length a = length b" "t \<le> length a" using assms(1,2) pos by (auto simp: wf_ID_def IDLen_def)
  note simps = EqualSubset_def BitsPerByte_def NumBits_def Let_def pos(1,2) d(1-4) masked_eq_iff
    bit_and_iff bit_startMask bit_stopMask
  show ?thesis
  proof (cases "s = t")
    case True
    with d(5,6) have "EqualSubset start stop a b \<longleftrightarrow>
        (\<forall>k < 8. j \<le> k \<and> k \<le> l \<longrightarrow> bit (a ! s) k = bit (b ! s) k)"
      using pos(3,4) by (auto simp: simps)
    with True show ?thesis unfolding agree_bytes [OF pos(1-4)] by (metis less_asym)
  next
    case False
    then have st: "s < t" using pos by simp
    have "EqualSubset start stop a b \<longleftrightarrow> (\<forall>i. s < i \<and> i < t \<longrightarrow> a ! i = b ! i) \<and>
        (\<forall>k < 8. j \<le> k \<longrightarrow> bit (a ! s) k = bit (b ! s) k) \<and> (\<forall>k < 8. k \<le> l \<longrightarrow> bit (a ! t) k = bit (b ! t) k)"
      using d(5,6) st pos(3,4) subslice_eq_iff [OF len, of s] by (auto simp: simps)
    then show ?thesis unfolding agree_bytes_apart [OF pos(1-4) st] by blast
  qed
qed

lemma pos_less: "j < 8 \<Longrightarrow> k < 8 \<Longrightarrow> 8 * s + j < 8 * i + k \<longleftrightarrow> s < i \<or> s = i \<and> j < (k :: nat)"
  by (cases s i rule: linorder_cases) auto

lemma first_difference_bytes:
  assumes pos: "start = 8 * s + j" "stop = Suc (8 * t + l)" "j < 8" "l < 8"
    and k: "k < 8" "s < i \<or> s = i \<and> j \<le> k" "i < t \<or> i = t \<and> k \<le> l" "bit (a ! i) k \<noteq> bit (b ! i) k"
    and before: "\<And>m n. n < 8 \<Longrightarrow> s < m \<or> s = m \<and> j \<le> n \<Longrightarrow> m < i \<or> m = i \<and> n < k \<Longrightarrow> bit (a ! m) n = bit (b ! m) n"
  shows "first_difference a b start stop (k + i * 8)"
proof -
  have "agree a b start (8 * i + k)"
    unfolding agree_def pos(1) by (subst bytewise) (use before in \<open>simp add: pos_le pos_less pos(3) k(1)\<close>)
  then have "first_difference a b start stop (8 * i + k)"
    using k pos by (simp add: first_difference_def pos_le less_Suc_eq_le)
  then show ?thesis by (simp add: add.commute mult.commute)
qed

lemma find_interval:
  "find P [m..<n] = Some i \<Longrightarrow> m \<le> i \<and> i < n \<and> P i \<and> (\<forall>h. m \<le> h \<and> h < i \<longrightarrow> \<not> P h)"
  by (auto simp: find_Some_iff) (metis add_diff_inverse_nat add_less_cancel_left not_le nth_upt less_trans)

text \<open>The outcome of the search: the first difference if there is one, no difference otherwise.\<close>

definition located :: "ID \<Rightarrow> ID \<Rightarrow> nat \<Rightarrow> nat \<Rightarrow> nat \<times> bool \<Rightarrow> bool" where
  "located a b start stop r \<longleftrightarrow>
     (if snd r then first_difference a b start stop (fst r) else fst r = 0 \<and> agree a b start stop)"

lemma located_same_byte:
  assumes pos: "start = 8 * s + j" "stop = Suc (8 * t + l)" "j < 8" "l < 8" and st: "s = t"
    and m: "m = startMask j AND stopMask l"
  shows "located a b start stop
    (if m AND uint (a ! s) = m AND uint (b ! s) then (0, False) else diff_bit (m AND uint (a ! s)) (m AND uint (b ! s)) s)"
proof (cases "m AND uint (a ! s) = m AND uint (b ! s)")
  case True
  then have "bit (a ! s) k = bit (b ! s) k" if "k < 8" "j \<le> k" "k \<le> l" for k
    using that by (simp add: masked_eq_iff m bit_and_iff bit_startMask bit_stopMask)
  then have "agree a b start stop" unfolding agree_bytes [OF pos] using st by auto
  with True show ?thesis by (simp add: located_def)
next
  case False
  note d = masked_diff [OF False refl, unfolded m bit_and_iff bit_startMask bit_stopMask, folded m]
  have "first_difference a b start stop (TrailingZeros8 (word_of_int ((m AND uint (a ! s)) XOR (m AND uint (b ! s)))) + s * 8)"
    by (rule first_difference_bytes [OF pos]) (use d st in auto)
  with False show ?thesis by (simp add: located_def diff_bit_def BitsPerByte_def)
qed

lemma located_apart:
  assumes pos: "start = 8 * s + j" "stop = Suc (8 * t + l)" "j < 8" "l < 8" and st: "s < t"
    and m: "m = startMask j" "m' = stopMask l"
  shows "located a b start stop
    (if m AND uint (a ! s) \<noteq> m AND uint (b ! s) then diff_bit (m AND uint (a ! s)) (m AND uint (b ! s)) s
     else case find (\<lambda>i. a ! i \<noteq> b ! i) [s + 1..<t] of
            Some i \<Rightarrow> diff_bit (uint (a ! i)) (uint (b ! i)) i
          | None \<Rightarrow> if m' AND uint (a ! t) \<noteq> m' AND uint (b ! t)
                    then diff_bit (m' AND uint (a ! t)) (m' AND uint (b ! t)) t else (0, False))"
    (is "located a b start stop ?r")
proof -
  have first: "m AND uint (a ! s) = m AND uint (b ! s) \<longleftrightarrow> (\<forall>k < 8. j \<le> k \<longrightarrow> bit (a ! s) k = bit (b ! s) k)"
    by (simp add: masked_eq_iff m bit_startMask)
  have last: "m' AND uint (a ! t) = m' AND uint (b ! t) \<longleftrightarrow> (\<forall>k < 8. k \<le> l \<longrightarrow> bit (a ! t) k = bit (b ! t) k)"
    by (simp add: masked_eq_iff m bit_stopMask)
  consider (start) "m AND uint (a ! s) \<noteq> m AND uint (b ! s)"
    | (interior) i where "m AND uint (a ! s) = m AND uint (b ! s)" "find (\<lambda>i. a ! i \<noteq> b ! i) [s + 1..<t] = Some i"
    | (stop) "m AND uint (a ! s) = m AND uint (b ! s)" "find (\<lambda>i. a ! i \<noteq> b ! i) [s + 1..<t] = None"
        "m' AND uint (a ! t) \<noteq> m' AND uint (b ! t)"
    | (none) "m AND uint (a ! s) = m AND uint (b ! s)" "find (\<lambda>i. a ! i \<noteq> b ! i) [s + 1..<t] = None"
        "m' AND uint (a ! t) = m' AND uint (b ! t)"
    by (cases "find (\<lambda>i. a ! i \<noteq> b ! i) [s + 1..<t]") auto
  then show ?thesis
  proof cases
    case start
    note d = masked_diff [OF start refl, unfolded m bit_startMask, folded m]
    have "first_difference a b start stop (TrailingZeros8 (word_of_int ((m AND uint (a ! s)) XOR (m AND uint (b ! s)))) + s * 8)"
      by (rule first_difference_bytes [OF pos]) (use d st in auto)
    with start show ?thesis by (simp add: located_def diff_bit_def BitsPerByte_def)
  next
    case interior
    from find_interval [OF interior(2)] have i: "s < i" "i < t" "a ! i \<noteq> b ! i" "\<forall>h. s < h \<and> h < i \<longrightarrow> a ! h = b ! h" by auto
    then have ne: "(-1) AND uint (a ! i) \<noteq> (-1) AND uint (b ! i)" by (simp flip: word_uint_eq_iff)
    note d = masked_diff [OF ne refl, simplified]
    have "first_difference a b start stop (TrailingZeros8 (word_of_int (uint (a ! i) XOR uint (b ! i))) + i * 8)"
      by (rule first_difference_bytes [OF pos]) (use d i first interior(1) in auto)
    with interior show ?thesis by (simp add: located_def diff_bit_def BitsPerByte_def)
  next
    case stop
    have mid: "\<forall>h. s < h \<and> h < t \<longrightarrow> a ! h = b ! h" using stop(2) by (auto simp: find_None_iff)
    note d = masked_diff [OF stop(3) refl, unfolded m bit_stopMask, folded m]
    have "first_difference a b start stop (TrailingZeros8 (word_of_int ((m' AND uint (a ! t)) XOR (m' AND uint (b ! t)))) + t * 8)"
      by (rule first_difference_bytes [OF pos]) (use d st mid first stop(1) in auto)
    with stop show ?thesis by (simp add: located_def diff_bit_def BitsPerByte_def)
  next
    case none
    have "\<forall>h. s < h \<and> h < t \<longrightarrow> a ! h = b ! h" using none(2) by (auto simp: find_None_iff)
    with none first last have "agree a b start stop" unfolding agree_bytes_apart [OF pos st] by blast
    with none show ?thesis by (simp add: located_def)
  qed
qed

lemma FirstDifferenceSubset_located:
  assumes "stop \<le> 256"
  shows "located a b start stop (FirstDifferenceSubset start stop a b)"
proof (cases "start < stop")
  case False
  then show ?thesis by (auto simp: FirstDifferenceSubset_def located_def agree_def)
next
  case True
  from True assms obtain s j t l where pos: "start = 8 * s + j" "stop = Suc (8 * t + l)" "j < 8" "l < 8"
    "s < 32" "t < 32" "s \<le> t" "s = t \<longrightarrow> j \<le> l" by (rule interval_bytes)
  have d: "(8 * s + j) div 8 = s" "(8 * s + j) mod 8 = j" "(8 * t + l) div 8 = t" "(8 * t + l) mod 8 = l"
    "\<not> 8 * t + l < 8 * s + j" "\<not> 256 \<le> 8 * t + l" "\<not> 8 * s + j > 8 * t + l"
    using pos by auto
  note eq = FirstDifferenceSubset_def [of start stop a b, unfolded pos(1,2) BitsPerByte_def NumBits_def Let_def diff_Suc_1 d]
  show ?thesis
  proof (cases "s = t")
    case True
    with eq located_same_byte [OF pos(1-4) True refl, of a b] pos(1,2,8) d(6) show ?thesis by simp
  next
    case False
    with pos(7) have st: "s < t" by simp
    with eq located_apart [OF pos(1-4) st refl refl, of a b] False pos(1,2) d(5,6) show ?thesis by simp
  qed
qed

text \<open>
  The bit functions of the identifiers, for ranges within the 256 bits: \<^verbatim>\<open>EqualSubset\<close> holds exactly
  when the identifiers agree on every bit of the range, and \<^verbatim>\<open>FirstDifferenceSubset\<close> finds the first
  bit of the range where they differ, or reports none when they agree. A range that ends beyond the
  last bit is reported as unequal by the one and as without a difference by the other.
\<close>

theorem id_bits_correct:
  assumes "wf_ID a" and "wf_ID b" and "stop \<le> NumBits"
  shows "(EqualSubset start stop a b \<longleftrightarrow> (\<forall>n. start \<le> n \<and> n < stop \<longrightarrow> id_Bit a n = id_Bit b n)) \<and>
    (case FirstDifferenceSubset start stop a b of (i, found) \<Rightarrow>
       if found then start \<le> i \<and> i < stop \<and> id_Bit a i \<noteq> id_Bit b i \<and> (\<forall>n. start \<le> n \<and> n < i \<longrightarrow> id_Bit a n = id_Bit b n)
       else i = 0 \<and> EqualSubset start stop a b) \<and>
    (start < end \<and> NumBits < end \<longrightarrow>
       \<not> EqualSubset start end a b \<and> FirstDifferenceSubset start end a b = (0, False))"
proof -
  have stop: "stop \<le> 256" using assms(3) by (simp add: NumBits_def)
  have "EqualSubset start stop a b \<longleftrightarrow> (\<forall>n. start \<le> n \<and> n < stop \<longrightarrow> id_Bit a n = id_Bit b n)"
    by (simp add: EqualSubset_agree [OF assms(1,2) stop] agree_def id_Bit_eq_iff)
  moreover have "located a b start stop (FirstDifferenceSubset start stop a b)"
    using stop by (rule FirstDifferenceSubset_located)
  then have "case FirstDifferenceSubset start stop a b of (i, found) \<Rightarrow>
      if found then start \<le> i \<and> i < stop \<and> id_Bit a i \<noteq> id_Bit b i \<and> (\<forall>n. start \<le> n \<and> n < i \<longrightarrow> id_Bit a n = id_Bit b n)
      else i = 0 \<and> EqualSubset start stop a b"
    unfolding EqualSubset_agree [OF assms(1,2) stop] id_Bit_eq_iff
    by (cases "FirstDifferenceSubset start stop a b") (simp add: located_def first_difference_def agree_def split: if_splits)
  moreover have "start < end \<and> NumBits < end \<longrightarrow>
      \<not> EqualSubset start end a b \<and> FirstDifferenceSubset start end a b = (0, False)"
    by (auto simp: EqualSubset_def FirstDifferenceSubset_def)
  ultimately show ?thesis by blast
qed

theorem id_bits_correct_witness:
  "wf_ID (replicate 32 0) \<and> wf_ID (replicate 31 0 @ [4]) \<and>
   FirstDifferenceSubset 3 256 (replicate 32 0) (replicate 31 0 @ [4]) = (250, True) \<and>
   id_Bit (replicate 32 0) 249 = id_Bit (replicate 31 0 @ [4]) 249"
proof -
  have wf: "wf_ID (replicate 32 0)" "wf_ID (replicate 31 0 @ [4])" by (simp_all add: wf_ID_def IDLen_def)
  have r: "FirstDifferenceSubset 3 256 (replicate 32 0) (replicate 31 0 @ [4]) = (250, True)"
    by code_simp
  from id_bits_correct [OF wf, of 256 3] r wf show ?thesis by (simp add: NumBits_def)
qed

end
