(* ===== verification/PrefixGroup.thy ===== *)
theory PrefixGroup
  imports VoteGraph IdBits
begin

text \<open>
  default/snow/consensus/snowman/poll/prefix.go: the shared bit prefixes of a set of sibling blocks. Prefix
  groups are split in place through pointers; the store is the list of the groups allocated so far and a
  pointer is an index into it. \<^verbatim>\<open>member.Bit(i)\<close> panics beyond the last bit, a panic is None.
\<close>

section \<open>Model\<close>

record prefixGroup =
  pg_index :: nat
  pg_members :: "ID list"
  pg_child0 :: "nat option"
  pg_child1 :: "nat option"

type_synonym groups = "prefixGroup list"

definition new_group :: "nat \<Rightarrow> ID list \<Rightarrow> prefixGroup" where
  "new_group i ms = \<lparr>pg_index = i, pg_members = ms, pg_child0 = None, pg_child1 = None\<rparr>"

definition determineDescendant :: "prefixGroup \<Rightarrow> nat option" where
  "determineDescendant pg = (case pg_child0 pg of Some c \<Rightarrow> Some c | None \<Rightarrow> pg_child1 pg)"

definition isBifurcation :: "prefixGroup \<Rightarrow> bool" where
  "isBifurcation pg \<longleftrightarrow> pg_child0 pg \<noteq> None \<and> pg_child1 pg \<noteq> None"

definition canSplit :: "prefixGroup \<Rightarrow> bool" where
  "canSplit pg \<longleftrightarrow> length (pg_members pg) > 1"

definition pg_split :: "nat \<Rightarrow> groups \<Rightarrow> groups option" where
  "pg_split r h =
     (let pg = h ! r; index = pg_index pg in
      if pg_members pg \<noteq> [] \<and> NumBits \<le> index then None
      else let (m0, m1) = foldl (\<lambda>(m0, m1) member. if id_Bit member index = 0 then (m0 @ [member], m1) else (m0, m1 @ [member]))
                            ([], []) (pg_members pg);
               c0 = length h; c1 = length h + 1;
               h = h @ [new_group (index + 1) m0, new_group (index + 1) m1]
           in Some (h[r := pg\<lparr>pg_child0 := (if length m0 = 0 then None else Some c0),
                              pg_child1 := (if length m1 = 0 then None else Some c1)\<rparr>]))"

partial_function (option) split_group :: "nat \<Rightarrow> groups \<Rightarrow> groups option" where
  [code]: "split_group r h = do {
     h \<leftarrow> pg_split r h;
     if isBifurcation (h ! r) then Some h
     else do {
       descendant \<leftarrow> determineDescendant (h ! r);
       split_group r (h[r := h ! descendant])
     }
   }"

definition group_children :: "prefixGroup \<Rightarrow> nat list" where
  "group_children pg = (case pg_child0 pg of None \<Rightarrow> [] | Some c \<Rightarrow> [c]) @ (case pg_child1 pg of None \<Rightarrow> [] | Some c \<Rightarrow> [c])"

partial_function (option) split_groups :: "nat list \<Rightarrow> groups \<Rightarrow> groups option" where
  [code]: "split_groups pgs h =
     (case pgs of
        [] \<Rightarrow> Some h
      | r # rest \<Rightarrow>
          if \<not> canSplit (h ! r) then split_groups rest h
          else do {
            h \<leftarrow> split_group r h;
            split_groups (rest @ group_children (h ! r)) h
          })"

definition deduplicate :: "ID list \<Rightarrow> ID list" where
  "deduplicate ins = fst (foldl (\<lambda>(out, used) i. if i \<in> used then (out, used) else (out @ [i], insert i used)) ([], {}) ins)"

text \<open>The root of the groups is at index 0.\<close>

definition longestSharedPrefixes :: "ID list \<Rightarrow> groups option" where
  "longestSharedPrefixes idList = split_groups [0] [new_group 0 (deduplicate idList)]"

definition pg_traverse :: "groups \<Rightarrow> nat \<Rightarrow> nat list option" where
  "pg_traverse h r = preorder (\<lambda>r. group_children (h ! r)) [r]"

definition bifurcationsWithCommonPrefix :: "groups \<Rightarrow> nat \<Rightarrow> ID list list option" where
  "bifurcationsWithCommonPrefix h r = do {
     rs \<leftarrow> pg_traverse h r;
     Some (map (\<lambda>r. pg_members (h ! r)) (filter (\<lambda>r. isBifurcation (h ! r) \<and> pg_index (h ! r) > 0) rs))
   }"

section \<open>Splitting one group\<close>

definition same_prefix :: "nat \<Rightarrow> ID \<Rightarrow> ID \<Rightarrow> bool" where
  "same_prefix n x y \<longleftrightarrow> (\<forall>j < n. id_Bit x j = id_Bit y j)"

lemma same_prefix_simps [simp]: "same_prefix n x x" "same_prefix 0 x y"
  by (simp_all add: same_prefix_def)

lemma same_prefix_Suc: "same_prefix (Suc n) x y \<longleftrightarrow> same_prefix n x y \<and> id_Bit x n = id_Bit y n"
  by (auto simp: same_prefix_def less_Suc_eq)

lemma same_prefix_sym: "same_prefix n x y \<Longrightarrow> same_prefix n y x"
  by (simp add: same_prefix_def)

lemma same_prefix_trans: "same_prefix n x y \<Longrightarrow> same_prefix n y z \<Longrightarrow> same_prefix n x z"
  by (simp add: same_prefix_def)

lemma same_prefix_mono: "same_prefix n x y \<Longrightarrow> m \<le> n \<Longrightarrow> same_prefix m x y"
  by (simp add: same_prefix_def)

lemma bits_partition:
  "foldl (\<lambda>(m0, m1) member. if P member then (m0 @ [member], m1) else (m0, m1 @ [member])) (a, b) ms =
     (a @ filter P ms, b @ filter (\<lambda>x. \<not> P x) ms)"
  by (induction ms arbitrary: a b) auto

lemma pg_split_eq:
  assumes "h ! r = new_group n ms" "n < NumBits"
  shows "pg_split r h = Some ((h @ [new_group (n + 1) (filter (\<lambda>x. id_Bit x n = 0) ms), new_group (n + 1) (filter (\<lambda>x. id_Bit x n \<noteq> 0) ms)])
    [r := \<lparr>pg_index = n, pg_members = ms,
      pg_child0 = (if filter (\<lambda>x. id_Bit x n = 0) ms = [] then None else Some (length h)),
      pg_child1 = (if filter (\<lambda>x. id_Bit x n \<noteq> 0) ms = [] then None else Some (length h + 1))\<rparr>])"
proof -
  define m0 where "m0 = filter (\<lambda>x. id_Bit x n = 0) ms"
  define m1 where "m1 = filter (\<lambda>x. id_Bit x n \<noteq> 0) ms"
  have h: "pg_index (h ! r) = n" "pg_members (h ! r) = ms" by (simp_all add: assms new_group_def)
  have "foldl (\<lambda>(m0, m1) member. if id_Bit member n = 0 then (m0 @ [member], m1) else (m0, m1 @ [member])) ([], []) ms = (m0, m1)"
    by (simp add: bits_partition m0_def m1_def)
  then have "pg_split r h = Some ((h @ [new_group (n + 1) m0, new_group (n + 1) m1])[r := (h ! r)
      \<lparr>pg_child0 := (if length m0 = 0 then None else Some (length h)), pg_child1 := (if length m1 = 0 then None else Some (length h + 1))\<rparr>])"
    using assms(2) by (simp add: pg_split_def Let_def h)
  then show ?thesis unfolding m0_def [symmetric] m1_def [symmetric] assms(1) by (simp add: new_group_def)
qed

lemma IDs_differ:
  assumes "wf_ID x" "wf_ID y" "x \<noteq> y"
  shows "\<exists>d < NumBits. id_Bit x d \<noteq> id_Bit y d"
proof -
  from assms obtain i where i: "i < 32" "x ! i \<noteq> y ! i" by (auto simp: wf_ID_def IDLen_def list_eq_iff_nth_eq)
  then obtain k where "k < 8" "bit (x ! i) k \<noteq> bit (y ! i) k" using byte_eq_iff by blast
  then have "8 * i + k < 256" "bit_at x (8 * i + k) \<noteq> bit_at y (8 * i + k)" using i(1) by simp_all
  then show ?thesis unfolding id_Bit_eq_iff NumBits_def by blast
qed

text \<open>The first bit on which the members of a group of at least two differ.\<close>

lemma first_difference:
  assumes wf: "\<forall>x \<in> M. wf_ID x" and "a \<in> M" "b \<in> M" "a \<noteq> b" and same: "\<forall>x \<in> M. \<forall>y \<in> M. same_prefix n x y"
  obtains d x y where "n \<le> d" "d < NumBits" "\<forall>x \<in> M. \<forall>y \<in> M. same_prefix d x y" "x \<in> M" "y \<in> M" "id_Bit x d = 0" "id_Bit y d \<noteq> 0"
proof -
  let ?P = "\<lambda>d. \<exists>x \<in> M. \<exists>y \<in> M. id_Bit x d \<noteq> id_Bit y d"
  define d where "d = (LEAST d. ?P d)"
  from IDs_differ [of a b] assms obtain e where e: "e < NumBits" "?P e" by blast
  then have d: "?P d" unfolding d_def by (intro LeastI [of ?P])
  have de: "d \<le> e" unfolding d_def by (rule Least_le) (rule e(2))
  have least: "\<forall>j < d. \<not> ?P j" unfolding d_def using not_less_Least by blast
  then have "\<forall>x \<in> M. \<forall>y \<in> M. same_prefix d x y" unfolding same_prefix_def by blast
  moreover have "n \<le> d" using d same by (metis not_less same_prefix_def)
  moreover obtain x y where xy: "x \<in> M" "y \<in> M" "id_Bit x d \<noteq> id_Bit y d" using d by blast
  have "id_Bit x d = 0 \<and> id_Bit y d \<noteq> 0 \<or> id_Bit y d = 0 \<and> id_Bit x d \<noteq> 0" using id_Bit_le [of x d] id_Bit_le [of y d] xy(3) by linarith
  then have "\<exists>x \<in> M. \<exists>y \<in> M. id_Bit x d = 0 \<and> id_Bit y d \<noteq> 0" using xy(1,2) by blast
  moreover have "d < NumBits" using e(1) de by simp
  ultimately show thesis using that by blast
qed

lemma split_group_result:
  assumes "r < length h" "h ! r = new_group n ms" "n \<le> d" "d < NumBits"
    and same: "\<forall>x \<in> set ms. \<forall>y \<in> set ms. same_prefix d x y"
    and diff: "\<exists>x \<in> set ms. id_Bit x d = 0" "\<exists>x \<in> set ms. id_Bit x d \<noteq> 0"
  shows "\<exists>h' a b. split_group r h = Some h' \<and> length h \<le> a \<and> length h \<le> b \<and> a < length h' \<and> b < length h' \<and> a \<noteq> b \<and>
    h' ! r = \<lparr>pg_index = d, pg_members = ms, pg_child0 = Some a, pg_child1 = Some b\<rparr> \<and>
    h' ! a = new_group (d + 1) (filter (\<lambda>x. id_Bit x d = 0) ms) \<and> h' ! b = new_group (d + 1) (filter (\<lambda>x. id_Bit x d \<noteq> 0) ms) \<and>
    (\<forall>i < length h. i \<noteq> r \<longrightarrow> h' ! i = h ! i)"
  using assms(1-3)
proof (induction "d - n" arbitrary: h n)
  case 0
  then have n: "n = d" by simp
  have "filter (\<lambda>x. id_Bit x d = 0) ms \<noteq> []" "filter (\<lambda>x. id_Bit x d \<noteq> 0) ms \<noteq> []" using diff by (auto simp: filter_empty_conv)
  then have "pg_split r h = Some ((h @ [new_group (d + 1) (filter (\<lambda>x. id_Bit x d = 0) ms), new_group (d + 1) (filter (\<lambda>x. id_Bit x d \<noteq> 0) ms)])
    [r := \<lparr>pg_index = d, pg_members = ms, pg_child0 = Some (length h), pg_child1 = Some (length h + 1)\<rparr>])" (is "_ = Some ?h")
    using pg_split_eq [OF 0(3) [unfolded n] assms(4)] by simp
  moreover have "isBifurcation (?h ! r)" using 0(2) by (simp add: isBifurcation_def)
  ultimately have "split_group r h = Some ?h" by (subst split_group.simps) simp
  then show ?case using 0(2) by (intro exI [of _ ?h] exI [of _ "length h"] exI [of _ "length h + 1"]) (simp add: nth_append nth_list_update)
next
  case (Suc k)
  then have n: "n < d" "n < NumBits" using assms(4) by auto
  obtain x0 where x0: "x0 \<in> set ms" using diff by blast
  have all: "id_Bit x n = id_Bit x0 n" if "x \<in> set ms" for x using same [rule_format, OF that x0] n(1) by (simp add: same_prefix_def)
  define d' where "d' = (if id_Bit x0 n = 0 then length h else length h + 1)"
  define h1 where "h1 = (h @ [new_group (n + 1) (filter (\<lambda>x. id_Bit x n = 0) ms), new_group (n + 1) (filter (\<lambda>x. id_Bit x n \<noteq> 0) ms)])
    [r := \<lparr>pg_index = n, pg_members = ms,
      pg_child0 = (if filter (\<lambda>x. id_Bit x n = 0) ms = [] then None else Some (length h)),
      pg_child1 = (if filter (\<lambda>x. id_Bit x n \<noteq> 0) ms = [] then None else Some (length h + 1))\<rparr>]"
  have f: "filter (\<lambda>x. id_Bit x n = 0) ms = (if id_Bit x0 n = 0 then ms else [])" "filter (\<lambda>x. id_Bit x n \<noteq> 0) ms = (if id_Bit x0 n = 0 then [] else ms)"
    using all by (auto simp: filter_id_conv filter_empty_conv)
  have ms: "ms \<noteq> []" using x0 by auto
  have "pg_split r h = Some h1" unfolding h1_def by (rule pg_split_eq) (use Suc.prems n in auto)
  moreover have "\<not> isBifurcation (h1 ! r)" "determineDescendant (h1 ! r) = Some d'"
    using Suc.prems(1) ms unfolding h1_def f by (auto simp: isBifurcation_def determineDescendant_def d'_def)
  ultimately have eq: "split_group r h = split_group r (h1[r := h1 ! d'])" by (subst split_group.simps) simp
  let ?h2 = "h1[r := h1 ! d']"
  have h2: "r < length ?h2" "?h2 ! r = new_group (n + 1) ms" "length ?h2 = length h + 2"
    using Suc.prems(1) unfolding h1_def f by (auto simp: d'_def nth_append)
  have old: "i < length h \<Longrightarrow> i \<noteq> r \<Longrightarrow> ?h2 ! i = h ! i" for i by (simp add: h1_def nth_append)
  have k: "k = d - (n + 1)" "n + 1 \<le> d" using Suc.hyps(2) n by auto
  from Suc.hyps(1) [OF k(1) h2(1,2) k(2)] obtain h' a b where r: "split_group r ?h2 = Some h'"
    "length ?h2 \<le> a" "length ?h2 \<le> b" "a < length h'" "b < length h'" "a \<noteq> b"
    "h' ! r = \<lparr>pg_index = d, pg_members = ms, pg_child0 = Some a, pg_child1 = Some b\<rparr>"
    "h' ! a = new_group (d + 1) (filter (\<lambda>x. id_Bit x d = 0) ms)" "h' ! b = new_group (d + 1) (filter (\<lambda>x. id_Bit x d \<noteq> 0) ms)"
    "\<forall>i < length ?h2. i \<noteq> r \<longrightarrow> h' ! i = ?h2 ! i" by blast
  have "\<forall>i < length h. i \<noteq> r \<longrightarrow> h' ! i = h ! i" using r(10) old h2(3) by simp
  then show ?case using r h2(3) eq by (intro exI [of _ h'] exI [of _ a] exI [of _ b]) simp
qed

section \<open>Splitting all groups\<close>

definition group_of :: "ID set \<Rightarrow> nat \<Rightarrow> ID \<Rightarrow> ID set" where
  "group_of A n x = {y \<in> A. same_prefix n x y}"

definition bifurcates :: "ID set \<Rightarrow> nat \<Rightarrow> ID \<Rightarrow> bool" where
  "bifurcates A n x \<longleftrightarrow> n < NumBits \<and> (\<exists>y \<in> group_of A n x. id_Bit y n = 0) \<and> (\<exists>y \<in> group_of A n x. id_Bit y n \<noteq> 0)"

abbreviation members_at :: "groups \<Rightarrow> nat \<Rightarrow> ID set" where
  "members_at h r \<equiv> set (pg_members (h ! r))"

definition node_of :: "ID set \<Rightarrow> groups \<Rightarrow> nat \<Rightarrow> bool" where
  "node_of A h r \<longleftrightarrow> r < length h \<and> distinct (pg_members (h ! r)) \<and> (\<exists>x. members_at h r = group_of A (pg_index (h ! r)) x)"

definition split_below :: "groups \<Rightarrow> nat set \<Rightarrow> nat \<Rightarrow> bool" where
  "split_below h L r \<longleftrightarrow> (\<exists>a b. pg_child0 (h ! r) = Some a \<and> pg_child1 (h ! r) = Some b \<and> r < a \<and> r < b \<and> a \<in> L \<and> b \<in> L \<and>
     pg_index (h ! r) < NumBits \<and> members_at h a \<noteq> {} \<and> members_at h b \<noteq> {} \<and>
     members_at h a = {y \<in> members_at h r. id_Bit y (pg_index (h ! r)) = 0} \<and>
     members_at h b = {y \<in> members_at h r. id_Bit y (pg_index (h ! r)) \<noteq> 0})"

definition done_node :: "groups \<Rightarrow> nat set \<Rightarrow> nat \<Rightarrow> bool" where
  "done_node h L r \<longleftrightarrow> \<not> canSplit (h ! r) \<and> pg_child0 (h ! r) = None \<and> pg_child1 (h ! r) = None \<or> split_below h L r"

definition groups_inv :: "ID set \<Rightarrow> groups \<Rightarrow> nat set \<Rightarrow> nat list \<Rightarrow> bool" where
  "groups_inv A h L Q \<longleftrightarrow> 0 \<in> L \<and> members_at h 0 = A \<and> set Q \<subseteq> L \<and> distinct Q \<and> (\<forall>r \<in> L. node_of A h r) \<and>
     (\<forall>r \<in> set Q. h ! r = new_group (pg_index (h ! r)) (pg_members (h ! r))) \<and> (\<forall>r \<in> L - set Q. done_node h L r)"

lemma group_of_self: "x \<in> A \<Longrightarrow> x \<in> group_of A n x"
  by (simp add: group_of_def)

lemma group_of_member: "y \<in> group_of A n x \<Longrightarrow> group_of A n x = group_of A n y"
proof -
  assume "y \<in> group_of A n x"
  then have "same_prefix n x z \<longleftrightarrow> same_prefix n y z" for z by (auto simp: group_of_def same_prefix_def)
  then show ?thesis by (simp add: group_of_def)
qed

lemma group_of_refine:
  assumes "M = group_of A n x" "n \<le> d" "\<forall>y \<in> M. \<forall>z \<in> M. same_prefix d y z" "y \<in> M"
  shows "M = group_of A d y"
proof -
  have "M = group_of A n y" using group_of_member assms(1,4) by metis
  then show ?thesis using assms(2-4) same_prefix_mono by (auto simp: group_of_def)
qed

lemma group_of_Suc: "group_of A (Suc n) y = {z \<in> group_of A n y. id_Bit z n = id_Bit y n}"
  by (auto simp: group_of_def same_prefix_Suc)

lemma group_of_filter: "y \<in> group_of A n x \<Longrightarrow> {z \<in> group_of A n x. id_Bit z n = id_Bit y n} = group_of A (Suc n) y"
  using group_of_member [of y A n x] by (simp add: group_of_Suc)

lemma filter_zero_one:
  assumes "M = group_of A d x" "y \<in> M"
  shows "id_Bit y d = 0 \<Longrightarrow> {z \<in> M. id_Bit z d = 0} = group_of A (Suc d) y"
    "id_Bit y d \<noteq> 0 \<Longrightarrow> {z \<in> M. id_Bit z d \<noteq> 0} = group_of A (Suc d) y"
proof -
  have two: "id_Bit z d \<noteq> 0 \<longleftrightarrow> id_Bit z d = 1" for z using id_Bit_le [of z d] by auto
  note g = group_of_filter [of y A d x] assms
  show "id_Bit y d = 0 \<Longrightarrow> {z \<in> M. id_Bit z d = 0} = group_of A (Suc d) y" using g by simp
  show "id_Bit y d \<noteq> 0 \<Longrightarrow> {z \<in> M. id_Bit z d \<noteq> 0} = group_of A (Suc d) y" using g unfolding two by simp
qed

lemma groups_inv_skip:
  assumes "groups_inv A h L (r # Q)" "\<not> canSplit (h ! r)"
  shows "groups_inv A h L Q"
proof -
  have "h ! r = new_group (pg_index (h ! r)) (pg_members (h ! r))" using assms(1) by (simp add: groups_inv_def)
  then have "pg_child0 (h ! r) = None" "pg_child1 (h ! r) = None" by (metis new_group_def prefixGroup.select_convs(3,4))+
  with assms show ?thesis by (auto simp: groups_inv_def done_node_def)
qed

text \<open>Nodes that are done stay done when another node is split in place.\<close>

lemma done_node_frame:
  assumes "done_node h L i" "i \<noteq> r" "L \<subseteq> {..<length h}" "i \<in> L" "L \<subseteq> L'"
    and "\<forall>i < length h. i \<noteq> r \<longrightarrow> h' ! i = h ! i" "pg_members (h' ! r) = pg_members (h ! r)"
  shows "done_node h' L' i"
proof -
  have "pg_members (h' ! a) = pg_members (h ! a)" if "a \<in> L" for a using that assms(3,6,7) by (cases "a = r") auto
  moreover have "h' ! i = h ! i" using assms by auto
  ultimately show ?thesis using assms(1,5) unfolding done_node_def split_below_def by (auto 0 3)
qed

lemma groups_inv_split:
  assumes inv: "groups_inv A h L (r # Q)" and can: "canSplit (h ! r)" and wf: "\<forall>x \<in> A. wf_ID x"
  shows "\<exists>h' L' a b. split_group r h = Some h' \<and> group_children (h' ! r) = [a, b] \<and> groups_inv A h' L' (Q @ [a, b]) \<and>
    (\<forall>i \<in> set Q. h' ! i = h ! i) \<and> pg_members (h' ! a) \<noteq> [] \<and> pg_members (h' ! b) \<noteq> [] \<and>
    length (pg_members (h' ! a)) + length (pg_members (h' ! b)) = length (pg_members (h ! r))"
proof -
  define n where "n = pg_index (h ! r)"
  define ms where "ms = pg_members (h ! r)"
  from inv have hr: "h ! r = new_group n ms" and rL: "r \<in> L" and rQ: "r \<notin> set Q" "distinct Q" "set Q \<subseteq> L" and len: "L \<subseteq> {..<length h}"
    and nodes: "\<forall>r \<in> L. node_of A h r" by (auto simp: groups_inv_def n_def ms_def node_of_def)
  from rL nodes obtain x where x: "set ms = group_of A n x" "r < length h" "distinct ms" by (auto simp: node_of_def n_def ms_def)
  from can have "length ms > 1" by (simp add: canSplit_def ms_def)
  then obtain u v ws where "ms = u # v # ws" by (cases ms; cases "tl ms") auto
  then have uv: "u \<in> set ms" "v \<in> set ms" "u \<noteq> v" using x(3) by auto
  have same_n: "\<forall>y \<in> set ms. \<forall>z \<in> set ms. same_prefix n y z" using x(1) unfolding group_of_def same_prefix_def by simp
  have wfm: "\<forall>x \<in> set ms. wf_ID x" using wf x(1) by (auto simp: group_of_def)
  obtain d y z where d: "n \<le> d" "d < NumBits" "\<forall>x \<in> set ms. \<forall>y \<in> set ms. same_prefix d x y" "y \<in> set ms" "z \<in> set ms"
    "id_Bit y d = 0" "id_Bit z d \<noteq> 0" by (rule first_difference [OF wfm uv same_n])
  from split_group_result [OF x(2) hr d(1-3)] d(4-7) obtain h' a b where s: "split_group r h = Some h'"
    "length h \<le> a" "length h \<le> b" "a < length h'" "b < length h'" "a \<noteq> b"
    "h' ! r = \<lparr>pg_index = d, pg_members = ms, pg_child0 = Some a, pg_child1 = Some b\<rparr>"
    "h' ! a = new_group (d + 1) (filter (\<lambda>x. id_Bit x d = 0) ms)" "h' ! b = new_group (d + 1) (filter (\<lambda>x. id_Bit x d \<noteq> 0) ms)"
    "\<forall>i < length h. i \<noteq> r \<longrightarrow> h' ! i = h ! i" by blast
  let ?L = "insert a (insert b L)"
  have new: "a \<notin> L" "b \<notin> L" "r < a" "r < b" using s(2,3) len x(2) by auto
  have M: "set ms = group_of A d y" using group_of_refine [OF x(1) d(1,3,4)] .
  have mem: "pg_members (h' ! r) = pg_members (h ! r)" "pg_members (h' ! a) = filter (\<lambda>x. id_Bit x d = 0) ms"
    "pg_members (h' ! b) = filter (\<lambda>x. id_Bit x d \<noteq> 0) ms" by (simp_all add: s(7,8,9) ms_def new_group_def)
  have "split_below h' ?L r" unfolding split_below_def
    by (rule exI [of _ a], rule exI [of _ b]) (use d(4-7) in \<open>auto simp: s(7) mem(2,3) new d(2)\<close>)
  moreover have "done_node h' ?L i" if "i \<in> L - set (r # Q)" for i
    by (rule done_node_frame [of h L i r, OF _ _ len _ _ s(10) mem(1)]) (use inv that in \<open>auto simp: groups_inv_def\<close>)
  ultimately have done_all: "\<forall>i \<in> ?L - set (Q @ [a, b]). done_node h' ?L i" by (auto simp: done_node_def)
  have "node_of A h' i" if "i \<in> L" "i \<noteq> r" for i using nodes that s(4,10) len s(2) by (force simp: node_of_def)
  moreover have "node_of A h' r" using s(4) new x(3) M by (auto simp: node_of_def s(7))
  moreover have "node_of A h' a" using s(4) x(3) filter_zero_one(1) [OF M d(4,6)] by (auto simp: node_of_def s(8) new_group_def)
  moreover have "node_of A h' b" using s(5) x(3) filter_zero_one(2) [OF M d(5,7)] by (auto simp: node_of_def s(9) new_group_def)
  ultimately have node: "\<forall>i \<in> ?L. node_of A h' i" by blast
  have same: "\<forall>i \<in> set Q. h' ! i = h ! i" using s(10) rQ len by blast
  have "members_at h' 0 = A"
    using inv mem(1) s(10) len by (cases "0 = r") (auto simp: groups_inv_def)
  then have "groups_inv A h' ?L (Q @ [a, b])"
    using inv node done_all same new rQ s(6,8,9) by (auto simp: groups_inv_def new_group_def)
  moreover have "group_children (h' ! r) = [a, b]" by (simp add: group_children_def s(7))
  moreover have "pg_members (h' ! a) \<noteq> []" "pg_members (h' ! b) \<noteq> []" using d(4-7) unfolding mem by (auto simp: filter_empty_conv)
  moreover have "length (pg_members (h' ! a)) + length (pg_members (h' ! b)) = length (pg_members (h ! r))"
    unfolding mem ms_def [symmetric] by (rule sum_length_filter_compl)
  ultimately show ?thesis using s(1) same by blast
qed

definition weight :: "groups \<Rightarrow> nat \<Rightarrow> nat" where
  "weight h r = (if pg_members (h ! r) = [] then 1 else 3 * length (pg_members (h ! r)) - 1)"

lemma weight_pos: "0 < weight h r"
  by (auto simp: weight_def simp flip: length_greater_0_conv)

lemma split_groups_result:
  assumes wf: "\<forall>x \<in> A. wf_ID x"
  shows "groups_inv A h L Q \<Longrightarrow> \<exists>h' L'. split_groups Q h = Some h' \<and> groups_inv A h' L' []"
proof (induction "sum_list (map (weight h) Q)" arbitrary: h L Q rule: less_induct)
  case less
  show ?case
  proof (cases Q)
    case Nil
    with less.prems show ?thesis by (auto simp: split_groups.simps)
  next
    case (Cons r rest)
    show ?thesis
    proof (cases "canSplit (h ! r)")
      case False
      have "sum_list (map (weight h) rest) < sum_list (map (weight h) Q)" using weight_pos [of h r] by (simp add: Cons)
      moreover have "groups_inv A h L rest" using groups_inv_skip less.prems False unfolding Cons by blast
      ultimately obtain h' L' where "split_groups rest h = Some h'" "groups_inv A h' L' []" using less.hyps by blast
      moreover have "split_groups Q h = split_groups rest h" by (subst split_groups.simps) (simp add: Cons False)
      ultimately show ?thesis by metis
    next
      case True
      from groups_inv_split [OF less.prems [unfolded Cons] True wf] obtain h' L' a b where s: "split_group r h = Some h'"
        "group_children (h' ! r) = [a, b]" "groups_inv A h' L' (rest @ [a, b])" "\<forall>i \<in> set rest. h' ! i = h ! i"
        "pg_members (h' ! a) \<noteq> []" "pg_members (h' ! b) \<noteq> []"
        "length (pg_members (h' ! a)) + length (pg_members (h' ! b)) = length (pg_members (h ! r))" by blast
      have "map (weight h') rest = map (weight h) rest" using s(4) by (simp add: weight_def)
      then have "sum_list (map (weight h') rest) = sum_list (map (weight h) rest)" by (rule arg_cong)
      moreover have "weight h' a + weight h' b < weight h r"
        using s(5-7) by (cases "pg_members (h' ! a)"; cases "pg_members (h' ! b)") (auto simp: weight_def)
      ultimately have "sum_list (map (weight h') (rest @ [a, b])) < sum_list (map (weight h) Q)" by (simp add: Cons)
      from less.hyps [OF this s(3)] obtain h2 L2 where "split_groups (rest @ [a, b]) h' = Some h2" "groups_inv A h2 L2 []" by blast
      moreover have "split_groups Q h = split_groups (rest @ [a, b]) h'" by (subst split_groups.simps) (simp add: Cons True s(1,2))
      ultimately show ?thesis by metis
    qed
  qed
qed

section \<open>The groups found\<close>

text \<open>The bifurcations within a group, with their indices and members.\<close>

definition bifurcations_in :: "ID set \<Rightarrow> ID set \<Rightarrow> (nat \<times> ID set) set" where
  "bifurcations_in A M = {(n, group_of A n x) | n x. x \<in> M \<and> bifurcates A n x \<and> group_of A n x \<subseteq> M}"

lemma bifurcations_in_single:
  assumes "M = group_of A n x" "length ms \<le> 1" "set ms = M"
  shows "bifurcations_in A M = {}"
proof -
  have False if "y \<in> M" "z \<in> M" "id_Bit y m = 0" "id_Bit z m \<noteq> 0" for y z m
    using that assms(2,3) by (cases ms) auto
  then show ?thesis unfolding bifurcations_in_def bifurcates_def by blast
qed

lemma bifurcations_in_split:
  assumes M: "M = group_of A d x" and d: "d < NumBits"
    and M0: "M0 = {y \<in> M. id_Bit y d = 0}" "M0 \<noteq> {}" and M1: "M1 = {y \<in> M. id_Bit y d \<noteq> 0}" "M1 \<noteq> {}"
  shows "bifurcations_in A M = insert (d, M) (bifurcations_in A M0 \<union> bifurcations_in A M1)"
proof -
  have Md: "M = group_of A d y" if "y \<in> M" for y using M that group_of_member by metis
  have sub: "group_of A n y \<subseteq> M0 \<or> group_of A n y \<subseteq> M1" if "y \<in> M" "d < n" "group_of A n y \<subseteq> M" for n y
  proof -
    have "id_Bit z d = id_Bit y d" if "z \<in> group_of A n y" for z using that \<open>d < n\<close> by (simp add: group_of_def same_prefix_def)
    then show ?thesis using that(3) by (cases "id_Bit y d = 0") (auto simp: M0(1) M1(1))
  qed
  have le: "d \<le> n" if "y \<in> M" "bifurcates A n y" "group_of A n y \<subseteq> M" for n y
  proof (rule ccontr)
    assume n: "\<not> d \<le> n"
    from that obtain u v where uv: "u \<in> M" "v \<in> M" "id_Bit u n = 0" "id_Bit v n \<noteq> 0" by (auto simp: bifurcates_def)
    then have "same_prefix d u v" using Md [OF uv(1)] by (auto simp: group_of_def)
    with n uv show False by (auto simp: same_prefix_def)
  qed
  have y: "y \<in> group_of A n y" if "y \<in> M" for n y using that M by (simp add: group_of_def)
  show ?thesis
  proof (intro equalityI subsetI)
    fix p assume "p \<in> bifurcations_in A M"
    then obtain n y where p: "p = (n, group_of A n y)" "y \<in> M" "bifurcates A n y" "group_of A n y \<subseteq> M" by (auto simp: bifurcations_in_def)
    show "p \<in> insert (d, M) (bifurcations_in A M0 \<union> bifurcations_in A M1)"
    proof (cases "n = d")
      case True
      then show ?thesis using p Md by simp
    next
      case False
      then have "group_of A n y \<subseteq> M0 \<or> group_of A n y \<subseteq> M1" using le [OF p(2-4)] sub [OF p(2) _ p(4)] by simp
      then show ?thesis using p y [OF p(2)] unfolding bifurcations_in_def by blast
    qed
  next
    fix p assume "p \<in> insert (d, M) (bifurcations_in A M0 \<union> bifurcations_in A M1)"
    then consider "p = (d, M)" | "p \<in> bifurcations_in A M0 \<union> bifurcations_in A M1" by blast
    then show "p \<in> bifurcations_in A M"
    proof cases
      case 1
      from M0 M1 obtain u v where uv: "u \<in> M" "v \<in> M" "id_Bit u d = 0" "id_Bit v d \<noteq> 0" by blast
      then have "bifurcates A d u" "group_of A d u = M" using Md [OF uv(1)] d unfolding bifurcates_def by auto
      with 1 uv(1) show ?thesis unfolding bifurcations_in_def by blast
    next
      case 2
      then show ?thesis unfolding bifurcations_in_def M0(1) M1(1) by blast
    qed
  qed
qed

abbreviation found :: "groups \<Rightarrow> nat set \<Rightarrow> (nat \<times> ID set) set" where
  "found h R \<equiv> (\<lambda>r. (pg_index (h ! r), members_at h r)) ` {r \<in> R. isBifurcation (h ! r)}"

lemma groups_walk:
  assumes inv: "groups_inv A h L []" and "r \<in> L"
  shows "\<exists>rs. preorder (\<lambda>r. group_children (h ! r)) (group_children (h ! r)) = Some rs \<and> insert r (set rs) \<subseteq> L \<and>
    found h (insert r (set rs)) = bifurcations_in A (members_at h r)"
  using assms(2)
proof (induction "length h - r" arbitrary: r rule: less_induct)
  case less
  from inv less.prems have n: "node_of A h r" and "done_node h L r" by (auto simp: groups_inv_def)
  from n obtain x where x: "members_at h r = group_of A (pg_index (h ! r)) x" and len: "r < length h" by (auto simp: node_of_def)
  from \<open>done_node h L r\<close> consider "\<not> canSplit (h ! r)" "pg_child0 (h ! r) = None" "pg_child1 (h ! r) = None" | "split_below h L r"
    by (auto simp: done_node_def)
  then show ?case
  proof cases
    case 1
    have "bifurcations_in A (members_at h r) = {}"
      by (rule bifurcations_in_single [OF x]) (use 1 in \<open>auto simp: canSplit_def\<close>)
    with 1 less.prems show ?thesis by (simp add: group_children_def preorder.simps isBifurcation_def)
  next
    case 2
    then obtain a b where c: "pg_child0 (h ! r) = Some a" "pg_child1 (h ! r) = Some b" "r < a" "r < b" "a \<in> L" "b \<in> L"
      "pg_index (h ! r) < NumBits" "members_at h a \<noteq> {}" "members_at h b \<noteq> {}"
      "members_at h a = {y \<in> members_at h r. id_Bit y (pg_index (h ! r)) = 0}"
      "members_at h b = {y \<in> members_at h r. id_Bit y (pg_index (h ! r)) \<noteq> 0}" unfolding split_below_def by blast
    have "length h - a < length h - r" using len c(3) by simp
    from less.hyps [OF this c(5)] obtain as where as: "preorder (\<lambda>r. group_children (h ! r)) (group_children (h ! a)) = Some as"
      "insert a (set as) \<subseteq> L" "found h (insert a (set as)) = bifurcations_in A (members_at h a)" by blast
    have "length h - b < length h - r" using len c(4) by simp
    from less.hyps [OF this c(6)] obtain bs where bs: "preorder (\<lambda>r. group_children (h ! r)) (group_children (h ! b)) = Some bs"
      "insert b (set bs) \<subseteq> L" "found h (insert b (set bs)) = bifurcations_in A (members_at h b)" by blast
    have gc: "group_children (h ! r) = [a, b]" by (simp add: group_children_def c)
    have walk: "preorder (\<lambda>r. group_children (h ! r)) [a, b] = Some (a # as @ b # bs)"
      by (subst preorder.simps, simp add: as(1), subst preorder.simps, simp add: bs(1), subst preorder.simps, simp)
    have "found h (insert r (set (a # as @ b # bs))) = insert (pg_index (h ! r), members_at h r) (found h (insert a (set as)) \<union> found h (insert b (set bs)))"
      using c(1,2) by (auto simp: isBifurcation_def)
    also have "\<dots> = bifurcations_in A (members_at h r)"
      unfolding as(3) bs(3) by (rule bifurcations_in_split [OF x c(7,10,8,11,9), symmetric])
    finally show ?thesis using walk gc as(2) bs(2) less.prems by simp
  qed
qed

lemma deduplicate_loop:
  "used = set out \<Longrightarrow> distinct out \<Longrightarrow>
   (let r = fst (foldl (\<lambda>(out, used) i. if i \<in> used then (out, used) else (out @ [i], insert i used)) (out, used) ins)
    in distinct r \<and> set r = set out \<union> set ins)"
proof (induction ins arbitrary: out used)
  case (Cons i ins)
  show ?case
  proof (cases "i \<in> used")
    case True
    with Cons.IH [OF Cons.prems] Cons.prems show ?thesis by (auto simp: Let_def)
  next
    case False
    with Cons.IH [of "insert i used" "out @ [i]"] Cons.prems show ?thesis by (simp add: Let_def)
  qed
qed simp

lemma deduplicate_set: "distinct (deduplicate ins) \<and> set (deduplicate ins) = set ins"
  using deduplicate_loop [of "{}" "[]" ins] by (simp add: deduplicate_def Let_def)

theorem prefix_groups_found:
  assumes wf: "\<forall>x \<in> set idList. wf_ID x"
  shows "\<exists>h gs. longestSharedPrefixes idList = Some h \<and> bifurcationsWithCommonPrefix h 0 = Some gs \<and>
    set ` set gs = {group_of (set idList) n x | n x. 0 < n \<and> x \<in> set idList \<and> bifurcates (set idList) n x} \<and>
    (\<forall>g \<in> set gs. distinct g)"
proof -
  let ?A = "set idList"
  let ?h0 = "[new_group 0 (deduplicate idList)]"
  have "group_of ?A 0 [] = ?A" by (simp add: group_of_def)
  then have "node_of ?A ?h0 0" using deduplicate_set [of idList] by (auto simp: node_of_def new_group_def intro!: exI [of _ "[]"])
  then have "groups_inv ?A ?h0 {0} [0]" using deduplicate_set [of idList] by (simp add: groups_inv_def new_group_def)
  from split_groups_result [OF wf this] obtain h L where h: "split_groups [0] ?h0 = Some h" "groups_inv ?A h L []" by blast
  then have z: "0 \<in> L" "members_at h 0 = ?A" by (simp_all add: groups_inv_def)
  from groups_walk [OF h(2) z(1)] obtain rs where
    rs: "preorder (\<lambda>r. group_children (h ! r)) (group_children (h ! 0)) = Some rs" "insert 0 (set rs) \<subseteq> L"
      "found h (insert 0 (set rs)) = bifurcations_in ?A ?A" unfolding z(2) by blast
  have t: "pg_traverse h 0 = Some (0 # rs)"
    unfolding pg_traverse_def by (subst preorder.simps, simp add: rs(1), subst preorder.simps, simp)
  let ?gs = "map (\<lambda>r. pg_members (h ! r)) (filter (\<lambda>r. isBifurcation (h ! r) \<and> pg_index (h ! r) > 0) (0 # rs))"
  have "set ` set ?gs = snd ` {p \<in> found h (insert 0 (set rs)). 0 < fst p}" by (force simp: image_image)
  also have "\<dots> = {group_of ?A n x | n x. 0 < n \<and> x \<in> ?A \<and> bifurcates ?A n x}"
    unfolding rs(3) bifurcations_in_def group_of_def by force
  finally have "set ` set ?gs = {group_of ?A n x | n x. 0 < n \<and> x \<in> ?A \<and> bifurcates ?A n x}" .
  moreover have "\<forall>g \<in> set ?gs. distinct g" using h(2) rs(2) by (auto simp: groups_inv_def node_of_def)
  ultimately show ?thesis using h(1) t by (auto simp: longestSharedPrefixes_def bifurcationsWithCommonPrefix_def simp del: set_map)
qed

text \<open>Every set of at least two members that share a prefix is one of the groups.\<close>

lemma prefix_class_group:
  assumes wf: "\<forall>x \<in> A. wf_ID x" and G: "G = {y \<in> A. \<forall>j < n. id_Bit y j = p j}" and "a \<in> G" "b \<in> G" "a \<noteq> b"
  obtains m x where "n \<le> m" "x \<in> A" "bifurcates A m x" "G = group_of A m x"
proof -
  have "\<forall>x \<in> G. wf_ID x" using wf G by simp
  moreover have sn: "\<forall>x \<in> G. \<forall>y \<in> G. same_prefix n x y" by (simp add: G same_prefix_def)
  ultimately obtain m x y where m: "n \<le> m" "m < NumBits" "\<forall>x \<in> G. \<forall>y \<in> G. same_prefix m x y" "x \<in> G" "y \<in> G"
    "id_Bit x m = 0" "id_Bit y m \<noteq> 0" using first_difference [of G a b n] assms(3-5) by blast
  have "G = group_of A n a" using assms(3) by (auto simp: G group_of_def same_prefix_def)
  from group_of_refine [OF this m(1,3,4)] have g: "G = group_of A m x" .
  moreover have "bifurcates A m x" using m g by (auto simp: bifurcates_def)
  moreover have "x \<in> A" using m(4) G by simp
  ultimately show thesis using that m(1) by blast
qed

end
