(* ===== verification/EarlyTermPoll.thy ===== *)
theory EarlyTermPoll
  imports PrefixGroup
begin

text \<open>
  default/snow/consensus/snowman/poll/early_term_traversal.go: a poll that finishes as soon as the
  outstanding validators cannot change its outcome for any block or shared prefix of blocks. \<open>getParent\<close> is
  the block tree at the time of the call of \<^verbatim>\<open>Finished\<close>. Metrics and start times do not influence the poll.
\<close>

section \<open>Model\<close>

record earlyTermPoll =
  p_votes :: "ID bag"
  p_polled :: "NodeID bag"
  p_alphaPreference :: int
  p_alphaConfidence :: int
  p_finished :: bool

definition poll_New :: "int \<Rightarrow> int \<Rightarrow> NodeID bag \<Rightarrow> earlyTermPoll" where
  "poll_New alphaPreference alphaConfidence vdrs =
     \<lparr>p_votes = empty_bag, p_polled = vdrs, p_alphaPreference = alphaPreference, p_alphaConfidence = alphaConfidence, p_finished = False\<rparr>"

definition poll_Vote :: "NodeID \<Rightarrow> ID \<Rightarrow> earlyTermPoll \<Rightarrow> earlyTermPoll" where
  "poll_Vote vdr vote p =
     (let count = bag_Count vdr (p_polled p);
          p = p\<lparr>p_polled := bag_Remove vdr (p_polled p)\<rparr>
      in p\<lparr>p_votes := AddCount vote count (p_votes p)\<rparr>)"

definition poll_Drop :: "NodeID \<Rightarrow> earlyTermPoll \<Rightarrow> earlyTermPoll" where
  "poll_Drop vdr p = p\<lparr>p_polled := bag_Remove vdr (p_polled p)\<rparr>"

definition shouldTerminate :: "earlyTermPoll \<Rightarrow> int \<Rightarrow> int \<Rightarrow> bool" where
  "shouldTerminate p freq remaining \<longleftrightarrow>
     (let maxPossibleVotes = freq + remaining in
      maxPossibleVotes < p_alphaPreference p \<or>
      (freq \<ge> p_alphaPreference p \<and> maxPossibleVotes < p_alphaConfidence p) \<or>
      freq \<ge> p_alphaConfidence p)"

definition poll_Result :: "earlyTermPoll \<Rightarrow> ID bag" where
  "poll_Result p = p_votes p"

definition aggregateVotesFromPrefixesAndIDs :: "(ID set \<Rightarrow> ID list) \<Rightarrow> int list \<Rightarrow> ID bag \<Rightarrow> int list" where
  "aggregateVotesFromPrefixesAndIDs ord transitiveVotesForPrefixes transitiveVotes =
     map (\<lambda>i. bag_Count i transitiveVotes) (bag_List ord transitiveVotes) @ transitiveVotesForPrefixes"

definition descendantIDsOfVertex :: "voteGraph \<Rightarrow> ID \<Rightarrow> ID list" where
  "descendantIDsOfVertex g v = vv_descendants (vertex_at (vg_vertices g) v)"

fun sumVotesFromIDs :: "ID list \<Rightarrow> ID bag \<Rightarrow> int" where
  "sumVotesFromIDs [] transitiveVotes = 0"
| "sumVotesFromIDs (i # is') transitiveVotes = bag_Count i transitiveVotes + sumVotesFromIDs is' transitiveVotes"

definition votes_for_prefixes :: "voteGraph \<Rightarrow> ID bag \<Rightarrow> ID \<Rightarrow> int list option" where
  "votes_for_prefixes votesGraph transitiveVotes v = do {
     pg \<leftarrow> longestSharedPrefixes (descendantIDsOfVertex votesGraph v);
     gs \<leftarrow> bifurcationsWithCommonPrefix pg 0;
     Some (map (\<lambda>ids. sumVotesFromIDs ids transitiveVotes) gs)
   }"

definition computeTransitiveVotesForPrefixes :: "voteGraph \<Rightarrow> ID bag \<Rightarrow> int list option" where
  "computeTransitiveVotesForPrefixes votesGraph transitiveVotes = do {
     visited \<leftarrow> vg_traverse votesGraph;
     fold_calls (votes_for_prefixes votesGraph transitiveVotes) visited
   }"

text \<open>The loop of \<^verbatim>\<open>Finished\<close> over the votes, which breaks at the first that can be improved.\<close>

fun cant_improve :: "earlyTermPoll \<Rightarrow> int \<Rightarrow> int list \<Rightarrow> bool \<Rightarrow> bool" where
  "cant_improve p remaining [] b = b"
| "cant_improve p remaining (completedVotes # rest) b =
     (let b = (b \<and> shouldTerminate p completedVotes remaining) in if \<not> b then b else cant_improve p remaining rest b)"

definition poll_Finished :: "(nat \<Rightarrow> ID set \<Rightarrow> ID list) \<Rightarrow> (ID \<Rightarrow> ID \<times> bool) \<Rightarrow> earlyTermPoll \<Rightarrow> (earlyTermPoll \<times> bool) option" where
  "poll_Finished ords getParent p =
     (if p_finished p then Some (p, True)
      else let remaining = bag_Len (p_polled p) in
        if remaining = 0 then Some (p\<lparr>p_finished := True\<rparr>, True)
        else let received = bag_Len (p_votes p); maxPossibleVotes = received + remaining in
          if maxPossibleVotes < p_alphaPreference p then Some (p\<lparr>p_finished := True\<rparr>, True)
          else do {
            votesGraph \<leftarrow> buildVoteGraph ords getParent (p_votes p);
            transitiveVotes \<leftarrow> computeTransitiveVoteCountGraph (ords 3) votesGraph (p_votes p);
            transitiveVotesForPrefixes \<leftarrow> computeTransitiveVotesForPrefixes votesGraph transitiveVotes;
            let counts = aggregateVotesFromPrefixesAndIDs (ords 4) transitiveVotesForPrefixes transitiveVotes;
            let p = (if cant_improve p remaining counts (length counts > 0) then p\<lparr>p_finished := True\<rparr> else p);
            Some (p, p_finished p)
          })"

section \<open>The votes of a poll\<close>

lemma poll_Vote_represents:
  assumes "represents (p_votes p) V" "represents (p_polled p) P"
  shows "represents (p_votes (poll_Vote vdr x p)) (V + replicate_mset (count P vdr) x)"
    "represents (p_polled (poll_Vote vdr x p)) (filter_mset (\<lambda>v. v \<noteq> vdr) P)"
  using represents_AddCount [OF assms(1), of "int (count P vdr)" x] represents_Count [OF assms(2), of vdr] represents_Remove [OF assms(2), of vdr]
  by (simp_all add: poll_Vote_def Let_def)

lemma poll_Drop_represents:
  assumes "represents (p_votes p) V" "represents (p_polled p) P"
  shows "represents (p_votes (poll_Drop vdr p)) V" "represents (p_polled (poll_Drop vdr p)) (filter_mset (\<lambda>v. v \<noteq> vdr) P)"
  using assms represents_Remove [OF assms(2), of vdr] by (simp_all add: poll_Drop_def)

text \<open>A response is a vote or a failure of the query; \<open>answers\<close> counts the first response of every validator polled.\<close>

fun respond :: "NodeID \<times> ID option \<Rightarrow> earlyTermPoll \<Rightarrow> earlyTermPoll" where
  "respond (vdr, Some vote) p = poll_Vote vdr vote p"
| "respond (vdr, None) p = poll_Drop vdr p"

definition answers :: "(NodeID \<times> ID option) list \<Rightarrow> NodeID multiset \<Rightarrow> ID multiset" where
  "answers rs P = image_mset (\<lambda>v. the (the (map_of rs v))) (filter_mset (\<lambda>v. \<exists>x. map_of rs v = Some (Some x)) P)"

lemma answers_Cons:
  "answers ((u, Some x) # rs) P = replicate_mset (count P u) x + answers rs (filter_mset (\<lambda>v. v \<noteq> u) P)"
  "answers ((u, None) # rs) P = answers rs (filter_mset (\<lambda>v. v \<noteq> u) P)"
  by (induction P) (auto simp: answers_def)

lemma fold_respond:
  assumes "represents (p_votes p) V" "represents (p_polled p) P"
  shows "represents (p_votes (fold respond rs p)) (V + answers rs P) \<and>
    represents (p_polled (fold respond rs p)) (filter_mset (\<lambda>v. v \<notin> fst ` set rs) P)"
  using assms
proof (induction rs arbitrary: p V P)
  case (Cons r rs)
  obtain u a where r: "r = (u, a)" by fastforce
  have f: "filter_mset (\<lambda>v. v \<notin> fst ` set rs) (filter_mset (\<lambda>v. v \<noteq> u) P) = filter_mset (\<lambda>v. v \<notin> fst ` set (r # rs)) P"
    by (simp add: filter_filter_mset r conj_commute)
  show ?case
  proof (cases a)
    case None
    from Cons.IH [OF poll_Drop_represents [OF Cons.prems, of u]] f show ?thesis by (simp add: r None answers_Cons)
  next
    case (Some x)
    from Cons.IH [OF poll_Vote_represents [OF Cons.prems, of u x]] f show ?thesis by (simp add: r Some answers_Cons add.assoc)
  qed
qed (simp add: answers_def)

text \<open>
  The result of a poll is the multiset of the first answers of the validators it was sent to, each as
  often as the validator was sampled, whatever else they or others send, and the poll waits exactly for the
  validators that have neither answered nor failed.
\<close>

theorem poll_counts_first_answers:
  assumes "represents vdrs P"
  shows "represents (poll_Result (fold respond rs (poll_New aP aC vdrs))) (answers rs P) \<and>
    represents (p_polled (fold respond rs (poll_New aP aC vdrs))) (filter_mset (\<lambda>v. v \<notin> fst ` set rs) P)"
  using fold_respond [of "poll_New aP aC vdrs" "{#}" P rs] assms by (simp add: poll_New_def poll_Result_def)

theorem poll_counts_first_answers_witness:
  "represents (poll_Result (fold respond [([1], Some [7]), ([1], Some [8]), ([2], None)] (poll_New 2 2 (bag_Of [[1], [1], [2]])))) {#[7], [7]#}"
proof -
  have "represents (bag_Of [[1], [1], [2]]) {#[1 :: byte], [1], [2]#}" using represents_Add [OF represents_empty, of "[[1 :: byte], [1], [2]]"]
    by (simp add: bag_Of_def)
  from poll_counts_first_answers [OF this, of "[([1], Some [7]), ([1], Some [8]), ([2], None)]" 2 2] show ?thesis
    by (simp add: answers_def)
qed

section \<open>The votes that are compared with the thresholds\<close>

definition known_ok :: "(ID \<Rightarrow> ID \<times> bool) \<Rightarrow> bool" where
  "known_ok gp \<longleftrightarrow> parents_ok gp \<and> (\<forall>i. snd (gp i) \<longrightarrow> wf_ID i)"

definition checked_sets :: "(ID \<Rightarrow> ID \<times> bool) \<Rightarrow> ID set \<Rightarrow> ID set set" where
  "checked_sets gp D = (\<lambda>i. {i}) ` D \<union>
     {group_of (children_of gp D v) n x | v n x. v \<in> D \<and> 0 < n \<and> x \<in> children_of gp D v \<and> bifurcates (children_of gp D v) n x}"

lemma sumVotes_eq: "distinct is' \<Longrightarrow> sumVotesFromIDs is' b = (\<Sum>i \<in> set is'. bag_Count i b)"
  by (induction is') auto

lemma cant_improve_iff: "cant_improve p r cs b \<longleftrightarrow> b \<and> (\<forall>c \<in> set cs. shouldTerminate p c r)"
  by (induction cs arbitrary: b) (auto simp: Let_def)

lemma votes_for_prefixes_set:
  assumes gp: "known_ok gp" and g: "vote_graph_on gp (voted gp V) g" and v: "v \<in> voted gp V"
    and b: "\<forall>i. bag_Count i b = int (votes_for gp V {i})"
  shows "\<exists>cs. votes_for_prefixes g b v = Some cs \<and> set cs = (\<lambda>S. int (votes_for gp V S)) `
    {group_of (children_of gp (voted gp V) v) n x | n x. 0 < n \<and> x \<in> children_of gp (voted gp V) v \<and> bifurcates (children_of gp (voted gp V) v) n x}"
proof -
  let ?C = "children_of gp (voted gp V) v"
  have C: "set (descendantIDsOfVertex g v) = ?C" using vote_graph_vertex(2) [OF g v] by (simp add: descendantIDsOfVertex_def)
  have "\<forall>x \<in> set (descendantIDsOfVertex g v). wf_ID x" 
  proof
    fix x assume "x \<in> set (descendantIDsOfVertex g v)"
    then have "gp x = (v, True)" by (simp add: C children_of_def)
    then have "snd (gp x)" by simp
    with gp show "wf_ID x" by (simp add: known_ok_def)
  qed
  from prefix_groups_found [OF this] obtain h gs where
    h: "longestSharedPrefixes (descendantIDsOfVertex g v) = Some h" "bifurcationsWithCommonPrefix h 0 = Some gs"
      "set ` set gs = {group_of ?C n x | n x. 0 < n \<and> x \<in> ?C \<and> bifurcates ?C n x}" "\<forall>g \<in> set gs. distinct g" unfolding C by (elim exE conjE) (rule that, assumption+)
  have "sumVotesFromIDs ids b = int (votes_for gp V (set ids))" if "ids \<in> set gs" for ids
  proof -
    have "set ids \<in> set ` set gs" using that by simp
    then have sub: "set ids \<subseteq> ?C" unfolding h(3) by (auto simp: group_of_def)
    have "votes_for gp V (set ids) = (\<Sum>c \<in> set ids. votes_for gp V {c})"
      by (rule votes_for_siblings [of _ _ v]) (use gp sub in \<open>auto simp: known_ok_def parents_ok_def children_of_def\<close>)
    then show ?thesis using sumVotes_eq [of ids b] h(4) that b by simp
  qed
  then have "set (map (\<lambda>ids. sumVotesFromIDs ids b) gs) = (\<lambda>S. int (votes_for gp V S)) ` (set ` set gs)" by (simp add: image_image)
  with h show ?thesis by (simp add: votes_for_prefixes_def)
qed

lemma counts_set:
  assumes gp: "known_ok gp" and V: "represents votes V" and o: "\<And>n. valid_ord (ords n)"
  shows "\<exists>g b vs. buildVoteGraph ords gp votes = Some g \<and> computeTransitiveVoteCountGraph (ords 3) g votes = Some b \<and>
    computeTransitiveVotesForPrefixes g b = Some vs \<and>
    set (aggregateVotesFromPrefixesAndIDs (ords 4) vs b) = (\<lambda>S. int (votes_for gp V S)) ` checked_sets gp (voted gp V)"
proof -
  let ?D = "voted gp V"
  let ?G = "\<lambda>v. {group_of (children_of gp ?D v) n x | n x. 0 < n \<and> x \<in> children_of gp ?D v \<and> bifurcates (children_of gp ?D v) n x}"
  have pok: "parents_ok gp" using gp by (simp add: known_ok_def)
  from buildVoteGraph_on [OF pok V, of ords] o obtain g where g: "buildVoteGraph ords gp votes = Some g" "vote_graph_on gp ?D g" by blast
  from transitive_counts [OF pok g(2) V o] obtain b where b: "computeTransitiveVoteCountGraph (ords 3) g votes = Some b"
    "dom (counts b) = ?D" "\<forall>i. bag_Count i b = int (votes_for gp V {i})" by blast
  from vg_traverse_all [OF g(2)] obtain us where us: "vg_traverse g = Some us" "set us = ?D" by blast
  have "\<exists>cs. votes_for_prefixes g b v = Some cs \<and> set cs = (\<lambda>S. int (votes_for gp V S)) ` ?G v" if "v \<in> set us" for v
    by (rule votes_for_prefixes_set [OF gp g(2) _ b(3)]) (use that us(2) in simp)
  then have "\<exists>vs. fold_calls (votes_for_prefixes g b) us = Some vs \<and> set vs = (\<Union>v \<in> set us. (\<lambda>S. int (votes_for gp V S)) ` ?G v)"
    by (rule fold_calls_set)
  then obtain vs where
    vs: "fold_calls (votes_for_prefixes g b) us = Some vs" "set vs = (\<Union>v \<in> ?D. (\<lambda>S. int (votes_for gp V S)) ` ?G v)"
    unfolding us(2) by (elim exE conjE) (rule that, assumption+)
  have "set (bag_List (ords 4) b) = ?D"
    using valid_ordD(1) [OF o finite_voted [OF pok]] by (simp add: bag_List_def b(2))
  then have "set (aggregateVotesFromPrefixesAndIDs (ords 4) vs b) = (\<lambda>S. int (votes_for gp V S)) ` ((\<lambda>i. {i}) ` ?D \<union> (\<Union>v \<in> ?D. ?G v))"
    using b(3) by (simp add: aggregateVotesFromPrefixesAndIDs_def vs(2) image_Un image_UN image_image)
  also have "(\<lambda>i. {i}) ` ?D \<union> (\<Union>v \<in> ?D. ?G v) = checked_sets gp ?D" unfolding checked_sets_def by blast
  finally show ?thesis using g b us vs(1) by (simp add: computeTransitiveVotesForPrefixes_def)
qed

definition decided :: "earlyTermPoll \<Rightarrow> (ID \<Rightarrow> ID \<times> bool) \<Rightarrow> ID multiset \<Rightarrow> nat \<Rightarrow> bool" where
  "decided p gp V r \<longleftrightarrow> r = 0 \<or> int (size V + r) < p_alphaPreference p \<or>
     V \<noteq> {#} \<and> (\<forall>S \<in> checked_sets gp (voted gp V). shouldTerminate p (int (votes_for gp V S)) (int r))"

lemma poll_Finished_eq:
  assumes gp: "known_ok gp" and V: "represents (p_votes p) V" and P: "represents (p_polled p) P" and o: "\<And>n. valid_ord (ords n)"
    and f: "\<not> p_finished p"
  shows "poll_Finished ords gp p = Some (p\<lparr>p_finished := decided p gp V (size P)\<rparr>, decided p gp V (size P))"
proof -
  from counts_set [OF gp V, of ords] o obtain g b vs where c: "buildVoteGraph ords gp (p_votes p) = Some g"
    "computeTransitiveVoteCountGraph (ords 3) g (p_votes p) = Some b" "computeTransitiveVotesForPrefixes g b = Some vs"
    "set (aggregateVotesFromPrefixesAndIDs (ords 4) vs b) = (\<lambda>S. int (votes_for gp V S)) ` checked_sets gp (voted gp V)" by blast
  have "checked_sets gp (voted gp V) = {} \<longleftrightarrow> V = {#}" by (auto simp: checked_sets_def voted_def)
  then have "aggregateVotesFromPrefixesAndIDs (ords 4) vs b = [] \<longleftrightarrow> V = {#}" using c(4) by (metis image_is_empty set_empty)
  with c f represents_Len [OF V] represents_Len [OF P] show ?thesis
    by (cases p) (auto simp: poll_Finished_def Let_def cant_improve_iff decided_def)
qed

section \<open>Early termination does not change outcomes\<close>

text \<open>The children of a block whose first bits are \<open>f\<close>: the blocks that one snowflake instance votes for.\<close>

definition prefix_children :: "(ID \<Rightarrow> ID \<times> bool) \<Rightarrow> ID \<Rightarrow> nat \<Rightarrow> (nat \<Rightarrow> nat) \<Rightarrow> ID set" where
  "prefix_children gp v n f = {c. gp c = (v, True) \<and> (\<forall>j < n. id_Bit c j = f j)}"

lemma prefix_children_checked:
  assumes gp: "known_ok gp" and n: "0 < n" and ne: "prefix_children gp v n f \<inter> voted gp V \<noteq> {}"
  shows "prefix_children gp v n f \<inter> voted gp V \<in> checked_sets gp (voted gp V)"
proof -
  let ?C = "children_of gp (voted gp V) v"
  let ?S = "prefix_children gp v n f \<inter> voted gp V"
  have S: "?S = {y \<in> ?C. \<forall>j < n. id_Bit y j = f j}" by (auto simp: prefix_children_def children_of_def)
  from ne obtain a where a: "a \<in> ?S" by blast
  then have v: "v \<in> voted gp V" using voted_closed [of a gp V v] by (simp add: prefix_children_def)
  show ?thesis
  proof (cases "?S = {a}")
    case True
    then show ?thesis using a unfolding checked_sets_def by blast
  next
    case False
    then obtain b where b: "b \<in> ?S" "a \<noteq> b" using a by blast
    have wf: "\<forall>x \<in> ?C. wf_ID x"
    proof
      fix x assume "x \<in> ?C"
      then have "snd (gp x)" by (simp add: children_of_def)
      with gp show "wf_ID x" by (simp add: known_ok_def)
    qed
    obtain m x where "n \<le> m" "x \<in> ?C" "bifurcates ?C m x" "?S = group_of ?C m x"
      by (rule prefix_class_group [OF wf S a b])
    moreover from this have "0 < m" using n by simp
    ultimately show ?thesis using v unfolding checked_sets_def by blast
  qed
qed

lemma decided_stable:
  assumes d: "decided p gp V r" and W: "size W \<le> r" and al: "p_alphaPreference p \<le> p_alphaConfidence p"
    and k: "int (size V + r) < 2 * p_alphaPreference p"
    and S: "S \<inter> voted gp V = {} \<or> S \<inter> voted gp V \<in> checked_sets gp (voted gp V)"
    and a: "a = p_alphaPreference p \<or> a = p_alphaConfidence p"
  shows "a \<le> int (votes_for gp (V + W) S) \<longleftrightarrow> a \<le> int (votes_for gp V S)"
proof -
  define x where "x = int (votes_for gp V S)"
  define w where "w = int (votes_for gp W S)"
  have w: "0 \<le> w" "w \<le> int r" using W votes_for_le [of gp W S] by (simp_all add: w_def)
  have x: "0 \<le> x" "x \<le> int (size V)" using votes_for_le [of gp V S] by (simp_all add: x_def)
  have "a \<le> x + w \<longleftrightarrow> a \<le> x"
  proof (cases "r = 0 \<or> int (size V + r) < p_alphaPreference p")
    case True
    then show ?thesis using w x a al by linarith
  next
    case False
    with d have V: "V \<noteq> {#}" and t: "\<And>S. S \<in> checked_sets gp (voted gp V) \<Longrightarrow> shouldTerminate p (int (votes_for gp V S)) (int r)"
      by (auto simp: decided_def)
    show ?thesis
    proof (cases "S \<inter> voted gp V = {}")
      case True
      then have "x = 0" using votes_for_unvoted [of S gp V] by (simp add: x_def)
      from V obtain u where "u \<in># V" by blast
      then have "{u} \<in> checked_sets gp (voted gp V)" by (auto simp: checked_sets_def voted_def)
      from t [OF this] have "int r < p_alphaPreference p"
        using k votes_for_le [of gp V "{u}"] al by (auto simp: shouldTerminate_def Let_def)
      with \<open>x = 0\<close> w a al show ?thesis by linarith
    next
      case False
      with S have "S \<inter> voted gp V \<in> checked_sets gp (voted gp V)" by blast
      from t [OF this] have "shouldTerminate p x (int r)" by (simp add: x_def votes_for_voted)
      with w a al show ?thesis by (auto simp: shouldTerminate_def Let_def)
    qed
  qed
  then show ?thesis by (simp add: votes_for_union x_def w_def)
qed

text \<open>
  C8. \<^verbatim>\<open>Finished\<close> always returns. It is true when all validators have answered; and when it becomes true,
  the answers that are still outstanding, whatever they are, change neither whether a block reaches the
  thresholds \<^verbatim>\<open>alphaPreference\<close> and \<^verbatim>\<open>alphaConfidence\<close> with the votes for it and its descendants, nor whether the
  children of a block with a common prefix do, which is what the snowflake instances of snowman see.
\<close>

theorem early_termination_sound:
  assumes "known_ok gp" and "represents (p_votes p) V" and "represents (p_polled p) P" and "\<forall>n. valid_ord (ords n)"
    and "\<not> p_finished p" and "p_alphaPreference p \<le> p_alphaConfidence p" and "int (size V + size P) < 2 * p_alphaPreference p"
  shows "\<exists>b. poll_Finished ords gp p = Some (p\<lparr>p_finished := b\<rparr>, b) \<and> (P = {#} \<longrightarrow> b) \<and>
    (b \<longrightarrow> (\<forall>W a. size W \<le> size P \<and> a \<in> {p_alphaPreference p, p_alphaConfidence p} \<longrightarrow>
       (\<forall>i. a \<le> int (votes_for gp (V + W) {i}) \<longleftrightarrow> a \<le> int (votes_for gp V {i})) \<and>
       (\<forall>v n f. 0 < n \<longrightarrow>
          (a \<le> int (votes_for gp (V + W) (prefix_children gp v n f)) \<longleftrightarrow> a \<le> int (votes_for gp V (prefix_children gp v n f))))))"
proof (intro exI conjI impI allI)
  let ?b = "decided p gp V (size P)"
  show "poll_Finished ords gp p = Some (p\<lparr>p_finished := ?b\<rparr>, ?b)"
    by (rule poll_Finished_eq [OF assms(1-3) _ assms(5)]) (use assms(4) in simp)
  show "P = {#} \<Longrightarrow> ?b" by (simp add: decided_def)
  fix W :: "ID multiset" and a
  assume d: ?b and W: "size W \<le> size P \<and> a \<in> {p_alphaPreference p, p_alphaConfidence p}"
  then have a: "a = p_alphaPreference p \<or> a = p_alphaConfidence p" by simp
  note stable = decided_stable [OF d conjunct1 [OF W] assms(6,7) _ a]
  show "a \<le> int (votes_for gp (V + W) {i}) \<longleftrightarrow> a \<le> int (votes_for gp V {i})" for i
    by (rule stable) (auto simp: checked_sets_def)
  show "a \<le> int (votes_for gp (V + W) (prefix_children gp v n f)) \<longleftrightarrow> a \<le> int (votes_for gp V (prefix_children gp v n f))"
    if "0 < n" for v n f
    by (rule stable) (use prefix_children_checked [OF assms(1) that] in blast)
qed

text \<open>Two of three validators have voted for the only child of the genesis block.\<close>

definition child_block :: ID where
  "child_block = replicate 32 1"

definition one_block :: "ID \<Rightarrow> ID \<times> bool" where
  "one_block i = (if i = child_block then (replicate 32 0, True) else ([], False))"

definition two_answers :: earlyTermPoll where
  "two_answers = poll_Vote [2] child_block (poll_Vote [1] child_block (poll_New 2 2 (bag_Of [[1], [2], [3]])))"

lemma one_block_ok: "known_ok one_block"
proof -
  have "child_block \<noteq> replicate 32 0" by (simp add: child_block_def numeral_eq_Suc)
  then have "edge one_block = {(child_block, replicate 32 0)}" "acyclic {(child_block, replicate 32 (0 :: byte))}"
    by (auto simp: edge_def one_block_def acyclic_def trancl_insert split: if_splits)
  then show ?thesis by (auto simp: known_ok_def parents_ok_def one_block_def child_block_def wf_ID_def IDLen_def)
qed

lemma two_answers_rep:
  "represents (p_votes two_answers) {#child_block, child_block#}" "represents (p_polled two_answers) {#[3]#}"
  "\<not> p_finished two_answers" "p_alphaPreference two_answers = 2" "p_alphaConfidence two_answers = 2"
  by (auto simp: two_answers_def poll_Vote_def poll_New_def bag_Of_def bag_Add_def represents_def bag_Remove_def
      AddCount_def bag_Count_def empty_bag_def Let_def fun_eq_iff)

lemma sorted_ord: "\<forall>n :: nat. valid_ord (sorted_list_of_set :: ID set \<Rightarrow> ID list)"
  by (simp add: valid_ord_def)

theorem early_termination_sound_witness:
  "known_ok one_block \<and> (\<exists>b. poll_Finished (\<lambda>_. sorted_list_of_set) one_block two_answers = Some (two_answers\<lparr>p_finished := b\<rparr>, b) \<and>
    (b \<longrightarrow> (\<forall>W. size W \<le> 1 \<longrightarrow> (2 \<le> int (votes_for one_block ({#child_block, child_block#} + W) {child_block}) \<longleftrightarrow>
       2 \<le> int (votes_for one_block {#child_block, child_block#} {child_block})))))"
proof -
  have "p_alphaPreference two_answers \<le> p_alphaConfidence two_answers"
    "int (size {#child_block, child_block#} + size {#[3 :: byte]#}) < 2 * p_alphaPreference two_answers" by (simp_all add: two_answers_rep)
  note t = early_termination_sound [OF one_block_ok two_answers_rep(1,2) sorted_ord two_answers_rep(3) this]
  have "(\<exists>b. A b \<and> C b \<and> (b \<longrightarrow> (\<forall>W a. Q W a \<longrightarrow> (\<forall>i. R W a i) \<and> T W a))) \<Longrightarrow>
    \<exists>b. A b \<and> (b \<longrightarrow> (\<forall>W :: ID multiset. Q W 2 \<longrightarrow> R W (2 :: int) child_block))" for A C Q R T by blast
  from this [OF t] show ?thesis using one_block_ok by (simp add: two_answers_rep)
qed

end
