(* ===== verification/LinkedList.thy ===== *)
theory LinkedList
  imports Prelude "HOL-Library.Monad_Syntax"
begin

text \<open>
  default/utils/linked/list.go: doubly linked lists with a sentinel, over an explicit heap. An element
  is an address, a field of elements a function of addresses; a list is named by the address of its
  sentinel. \<^term>\<open>None\<close> as an address is Go's nil, as a value the zero value; \<^term>\<open>None\<close> as a
  result says that a nil pointer was dereferenced.
\<close>

section \<open>Model\<close>

type_synonym ref = nat

record 'a heap =
  h_next :: "ref \<Rightarrow> ref option"
  h_prev :: "ref \<Rightarrow> ref option"
  h_list :: "ref \<Rightarrow> ref option"
  h_Value :: "ref \<Rightarrow> 'a option"
  h_length :: "ref \<Rightarrow> int"
  h_fresh :: ref

definition empty_heap :: "'a heap" where
  "empty_heap = \<lparr>h_next = Map.empty, h_prev = Map.empty, h_list = Map.empty, h_Value = Map.empty, h_length = (\<lambda>_. 0), h_fresh = 0\<rparr>"

text \<open>\<^verbatim>\<open>&ListElement[T]{}\<close>, and the assignments \<^verbatim>\<open>p.next = v\<close> and \<^verbatim>\<open>p.prev = v\<close>.\<close>

definition new_element :: "'a heap \<Rightarrow> 'a heap \<times> ref" where
  "new_element h =
     (let e = h_fresh h in
      (h\<lparr>h_next := (h_next h)(e := None), h_prev := (h_prev h)(e := None), h_list := (h_list h)(e := None),
         h_Value := (h_Value h)(e := None), h_fresh := Suc e\<rparr>, e))"

definition set_next :: "ref option \<Rightarrow> ref option \<Rightarrow> 'a heap \<Rightarrow> 'a heap option" where
  "set_next p v h = (case p of None \<Rightarrow> None | Some a \<Rightarrow> Some (h\<lparr>h_next := (h_next h)(a := v)\<rparr>))"

definition set_prev :: "ref option \<Rightarrow> ref option \<Rightarrow> 'a heap \<Rightarrow> 'a heap option" where
  "set_prev p v h = (case p of None \<Rightarrow> None | Some a \<Rightarrow> Some (h\<lparr>h_prev := (h_prev h)(a := v)\<rparr>))"

definition elem_Next :: "ref \<Rightarrow> 'a heap \<Rightarrow> ref option" where
  "elem_Next e h = (if h_list h e \<noteq> None \<and> h_next h e \<noteq> h_list h e then h_next h e else None)"

definition elem_Prev :: "ref \<Rightarrow> 'a heap \<Rightarrow> ref option" where
  "elem_Prev e h = (if h_list h e \<noteq> None \<and> h_prev h e \<noteq> h_list h e then h_prev h e else None)"

definition NewList :: "'a heap \<Rightarrow> 'a heap \<times> ref" where
  "NewList h =
     (let (h, l) = new_element h in
      (h\<lparr>h_next := (h_next h)(l \<mapsto> l), h_prev := (h_prev h)(l \<mapsto> l), h_list := (h_list h)(l \<mapsto> l),
         h_length := (h_length h)(l := 0)\<rparr>, l))"

definition list_Len :: "ref \<Rightarrow> 'a heap \<Rightarrow> int" where
  "list_Len l h = h_length h l"

definition Front :: "ref \<Rightarrow> 'a heap \<Rightarrow> ref option" where
  "Front l h = (if h_length h l = 0 then None else h_next h l)"

definition Back :: "ref \<Rightarrow> 'a heap \<Rightarrow> ref option" where
  "Back l h = (if h_length h l = 0 then None else h_prev h l)"

definition list_Remove :: "ref \<Rightarrow> ref \<Rightarrow> 'a heap \<Rightarrow> 'a heap option" where
  "list_Remove l e h =
     (if h_list h e \<noteq> Some l then Some h
      else do {
        h \<leftarrow> set_next (h_prev h e) (h_next h e) h;
        h \<leftarrow> set_prev (h_next h e) (h_prev h e) h;
        Some (h\<lparr>h_next := (h_next h)(e := None), h_prev := (h_prev h)(e := None), h_list := (h_list h)(e := None),
                h_length := (h_length h)(l := h_length h l - 1)\<rparr>)
      })"

definition insertAfter :: "ref \<Rightarrow> ref \<Rightarrow> ref option \<Rightarrow> 'a heap \<Rightarrow> 'a heap option" where
  "insertAfter l e location h =
     (if h_list h e \<noteq> None then Some h
      else case location of
        None \<Rightarrow> None
      | Some loc \<Rightarrow> do {
          let h = h\<lparr>h_prev := (h_prev h)(e := location)\<rparr>;
          let h = h\<lparr>h_next := (h_next h)(e := h_next h loc)\<rparr>;
          h \<leftarrow> set_next (h_prev h e) (Some e) h;
          h \<leftarrow> set_prev (h_next h e) (Some e) h;
          Some (h\<lparr>h_list := (h_list h)(e \<mapsto> l), h_length := (h_length h)(l := h_length h l + 1)\<rparr>)
        })"

definition moveAfter :: "ref \<Rightarrow> ref \<Rightarrow> ref option \<Rightarrow> 'a heap \<Rightarrow> 'a heap option" where
  "moveAfter l e location h =
     (if h_list h e \<noteq> Some l then Some h
      else case location of
        None \<Rightarrow> None
      | Some loc \<Rightarrow>
          if h_list h loc \<noteq> Some l \<or> e = loc then Some h
          else do {
            h \<leftarrow> set_next (h_prev h e) (h_next h e) h;
            h \<leftarrow> set_prev (h_next h e) (h_prev h e) h;
            let h = h\<lparr>h_prev := (h_prev h)(e := location)\<rparr>;
            let h = h\<lparr>h_next := (h_next h)(e := h_next h loc)\<rparr>;
            h \<leftarrow> set_next (h_prev h e) (Some e) h;
            set_prev (h_next h e) (Some e) h
          })"

definition elem_PushFront :: "ref \<Rightarrow> ref \<Rightarrow> 'a heap \<Rightarrow> 'a heap option" where
  "elem_PushFront l e h = insertAfter l e (Some l) h"

definition elem_PushBack :: "ref \<Rightarrow> ref \<Rightarrow> 'a heap \<Rightarrow> 'a heap option" where
  "elem_PushBack l e h = insertAfter l e (h_prev h l) h"

definition elem_InsertBefore :: "ref \<Rightarrow> ref \<Rightarrow> ref \<Rightarrow> 'a heap \<Rightarrow> 'a heap option" where
  "elem_InsertBefore l e loc h = (if h_list h loc = Some l then insertAfter l e (h_prev h loc) h else Some h)"

definition elem_InsertAfter :: "ref \<Rightarrow> ref \<Rightarrow> ref \<Rightarrow> 'a heap \<Rightarrow> 'a heap option" where
  "elem_InsertAfter l e loc h = (if h_list h loc = Some l then insertAfter l e (Some loc) h else Some h)"

definition MoveToFront :: "ref \<Rightarrow> ref \<Rightarrow> 'a heap \<Rightarrow> 'a heap option" where
  "MoveToFront l e h = (if Some e \<noteq> h_next h l then moveAfter l e (Some l) h else Some h)"

definition MoveToBack :: "ref \<Rightarrow> ref \<Rightarrow> 'a heap \<Rightarrow> 'a heap option" where
  "MoveToBack l e h = moveAfter l e (h_prev h l) h"

definition MoveBefore :: "ref \<Rightarrow> ref \<Rightarrow> ref \<Rightarrow> 'a heap \<Rightarrow> 'a heap option" where
  "MoveBefore l e loc h = (if e \<noteq> loc then moveAfter l e (h_prev h loc) h else Some h)"

definition MoveAfter :: "ref \<Rightarrow> ref \<Rightarrow> ref \<Rightarrow> 'a heap \<Rightarrow> 'a heap option" where
  "MoveAfter l e loc h = moveAfter l e (Some loc) h"

text \<open>The package functions, which allocate the element.\<close>

definition with_value :: "'a \<Rightarrow> 'a heap \<Rightarrow> 'a heap \<times> ref" where
  "with_value v h = (let (h, e) = new_element h in (h\<lparr>h_Value := (h_Value h)(e \<mapsto> v)\<rparr>, e))"

definition PushFront :: "ref \<Rightarrow> 'a \<Rightarrow> 'a heap \<Rightarrow> 'a heap option" where
  "PushFront l v h = (let (h, e) = with_value v h in elem_PushFront l e h)"

definition PushBack :: "ref \<Rightarrow> 'a \<Rightarrow> 'a heap \<Rightarrow> 'a heap option" where
  "PushBack l v h = (let (h, e) = with_value v h in elem_PushBack l e h)"

definition InsertBefore :: "ref \<Rightarrow> 'a \<Rightarrow> ref \<Rightarrow> 'a heap \<Rightarrow> 'a heap option" where
  "InsertBefore l v loc h = (let (h, e) = with_value v h in elem_InsertBefore l e loc h)"

definition InsertAfter :: "ref \<Rightarrow> 'a \<Rightarrow> ref \<Rightarrow> 'a heap \<Rightarrow> 'a heap option" where
  "InsertAfter l v loc h = (let (h, e) = with_value v h in elem_InsertAfter l e loc h)"

section \<open>Paths\<close>

text \<open>From \<open>a\<close> through \<open>xs\<close> to \<open>b\<close> along \<open>f\<close>.\<close>

fun path :: "(ref \<Rightarrow> ref option) \<Rightarrow> ref \<Rightarrow> ref list \<Rightarrow> ref \<Rightarrow> bool" where
  "path f a [] b \<longleftrightarrow> f a = Some b"
| "path f a (x # xs) b \<longleftrightarrow> f a = Some x \<and> path f x xs b"

lemma path_split: "path f a (xs @ y # ys) b \<longleftrightarrow> path f a xs y \<and> path f y ys b"
  by (induction xs arbitrary: a) auto

lemma path_upd: "u \<notin> set (a # xs) \<Longrightarrow> path (f(u := v)) a xs b = path f a xs b"
  by (induction xs arbitrary: a) auto

lemma path_last: "path f a xs b \<Longrightarrow> f (last (a # xs)) = Some b"
  by (induction xs arbitrary: a) auto

lemma path_first: "path f a xs b \<Longrightarrow> f a = Some (hd (xs @ [b]))"
  by (cases xs) auto

lemma path_insert:
  assumes "path f a (ys @ zs) b" and "e \<notin> set (a # ys @ zs)" and "distinct (a # ys)" and "set (a # ys) \<inter> set zs = {}"
    and "p = last (a # ys)"
  shows "path (f(e := f p, p \<mapsto> e)) a (ys @ e # zs) b"
  using assms
proof (induction ys arbitrary: a)
  case Nil
  show ?case
  proof (cases zs)
    case (Cons z zs')
    have "path (f(e := f p, p \<mapsto> e)) z zs' b = path (f(e := f p)) z zs' b" by (rule path_upd) (use Nil.prems Cons in auto)
    also have "\<dots> = path f z zs' b" by (rule path_upd) (use Nil.prems Cons in auto)
    finally have "path (f(e := f p, p \<mapsto> e)) z zs' b" using Nil.prems by (simp add: Cons)
    moreover have "(f(e := f p, p \<mapsto> e)) a = Some e" "(f(e := f p, p \<mapsto> e)) e = Some z" using Nil.prems by (simp_all add: Cons)
    ultimately show ?thesis unfolding Cons by (simp only: append_Nil path.simps simp_thms)
  qed (use Nil.prems in auto)
next
  case (Cons y ys)
  have p: "p = last (y # ys)" using Cons.prems(5) by simp
  then have "p \<in> set (y # ys)" using last_in_set [of "y # ys"] by simp
  then have "(f(e := f p, p \<mapsto> e)) a = f a" using Cons.prems(2,3) by auto
  moreover have "path (f(e := f p, p \<mapsto> e)) y (ys @ e # zs) b" by (rule Cons.IH [OF _ _ _ _ p]) (use Cons.prems in auto)
  ultimately show ?case using Cons.prems(1) by (simp only: append_Cons path.simps simp_thms)
qed

lemma path_remove:
  assumes "path f a (ys @ e # zs) b" and "distinct (a # ys @ e # zs)" and "p = last (a # ys)"
  shows "path (f(p := f e)) a (ys @ zs) b"
  using assms
proof (induction ys arbitrary: a)
  case Nil
  show ?case
  proof (cases zs)
    case (Cons z zs')
    have "path (f(p := f e)) z zs' b = path f z zs' b" by (rule path_upd) (use Nil.prems Cons in auto)
    then have "path (f(p := f e)) z zs' b" "(f(p := f e)) a = Some z" using Nil.prems by (simp_all add: Cons)
    then show ?thesis unfolding Cons by (simp only: append_Nil path.simps simp_thms)
  qed (use Nil.prems in auto)
next
  case (Cons y ys)
  have p: "p = last (y # ys)" using Cons.prems(3) by simp
  then have "p \<in> set (y # ys)" using last_in_set [of "y # ys"] by simp
  then have "(f(p := f e)) a = f a" using Cons.prems(2) by auto
  moreover have "path (f(p := f e)) y (ys @ zs) b" by (rule Cons.IH [OF _ _ p]) (use Cons.prems in auto)
  ultimately show ?case using Cons.prems(1) by (simp only: append_Cons path.simps simp_thms)
qed

text \<open>A cycle through \<open>l\<close> and \<open>xs\<close>, forwards along \<open>f\<close> and backwards along \<open>g\<close>.\<close>

definition cycle :: "(ref \<Rightarrow> ref option) \<Rightarrow> (ref \<Rightarrow> ref option) \<Rightarrow> ref \<Rightarrow> ref list \<Rightarrow> bool" where
  "cycle f g l xs \<longleftrightarrow> distinct (l # xs) \<and> path f l xs l \<and> path g l (rev xs) l"

lemma cycle_around:
  assumes "cycle f g l (ys @ e # zs)"
  shows "g e = Some (last (l # ys))" "f e = Some (hd (zs @ [l]))"
proof -
  have "path f e zs l" "path g e (rev ys) l" using assms by (auto simp: cycle_def path_split)
  then show "f e = Some (hd (zs @ [l]))" "g e = Some (last (l # ys))"
    by (auto dest!: path_first simp: hd_append hd_rev)
qed

lemma cycle_sentinel:
  assumes "cycle f g l xs"
  shows "f l = Some (hd (xs @ [l]))" "g l = Some (last (l # xs))"
  using assms path_first [of f l xs l] path_first [of g l "rev xs" l] by (auto simp: cycle_def hd_append hd_rev)

lemma cycle_gap:
  assumes "cycle f g l (ys @ zs)"
  shows "f (last (l # ys)) = Some (hd (zs @ [l]))" "g (hd (zs @ [l])) = Some (last (l # ys))"
proof -
  show "f (last (l # ys)) = Some (hd (zs @ [l]))"
    using cycle_sentinel(1) [OF assms] cycle_around(2) [of f g l "butlast ys" "last ys" zs] assms
    by (cases ys rule: rev_cases) auto
  show "g (hd (zs @ [l])) = Some (last (l # ys))"
    using cycle_sentinel(2) [OF assms] cycle_around(1) [of f g l ys "hd zs" "tl zs"] assms by (cases zs) auto
qed

lemma cycle_insert:
  assumes c: "cycle f g l (ys @ zs)" and e: "e \<notin> set (l # ys @ zs)" and p: "p = last (l # ys)" and n: "n = hd (zs @ [l])"
  shows "cycle (f(e := Some n, p \<mapsto> e)) (g(e := Some p, n \<mapsto> e)) l (ys @ e # zs)"
proof -
  have d: "distinct (l # ys @ zs)" using c by (simp add: cycle_def)
  note gap = cycle_gap [OF c, folded p n]
  have "path (f(e := Some n, p \<mapsto> e)) l (ys @ e # zs) l"
    unfolding gap(1) [symmetric] by (rule path_insert [OF _ e _ _ p]) (use c d in \<open>auto simp: cycle_def\<close>)
  moreover have "n = last (l # rev zs)" unfolding n by (cases zs) auto
  then have "path (g(e := Some p, n \<mapsto> e)) l (rev zs @ e # rev ys) l"
    unfolding gap(2) [symmetric] by (intro path_insert) (use c d e in \<open>auto simp: cycle_def\<close>)
  ultimately show ?thesis using d e by (auto simp: cycle_def)
qed

lemma cycle_remove:
  assumes c: "cycle f g l (ys @ e # zs)" and p: "p = last (l # ys)" and n: "n = hd (zs @ [l])"
  shows "cycle (f(p := f e)) (g(n := g e)) l (ys @ zs)"
proof -
  have d: "distinct (l # ys @ e # zs)" using c by (simp add: cycle_def)
  have "path (f(p := f e)) l (ys @ zs) l" by (rule path_remove [OF _ d p]) (use c in \<open>simp add: cycle_def\<close>)
  moreover have "n = last (l # rev zs)" unfolding n by (cases zs) auto
  then have "path (g(n := g e)) l (rev zs @ rev ys) l" by (intro path_remove) (use c d in \<open>auto simp: cycle_def\<close>)
  ultimately show ?thesis using d by (auto simp: cycle_def)
qed

lemma cycle_upd: "e \<notin> set (l # xs) \<Longrightarrow> cycle (f(e := u)) (g(e := v)) l xs = cycle f g l xs"
  by (simp add: cycle_def path_upd del: fun_upd_apply)

lemma gap_in: "last (l # ys) \<in> set (l # ys)" "hd (zs @ [l]) \<in> set (l # zs)"
  by (cases ys rule: rev_cases; simp) (cases zs; simp)

section \<open>Lists on the heap\<close>

text \<open>The list with sentinel \<open>l\<close> has the elements \<open>xs\<close>.\<close>

definition linked :: "'a heap \<Rightarrow> ref \<Rightarrow> ref list \<Rightarrow> bool" where
  "linked h l xs \<longleftrightarrow> cycle (h_next h) (h_prev h) l xs \<and> (\<forall>e. h_list h e = Some l \<longleftrightarrow> e \<in> set (l # xs)) \<and>
     h_length h l = int (length xs) \<and> (\<forall>e \<in> set (l # xs). e < h_fresh h)"

text \<open>What an operation on the list \<open>l\<close> keeps outside of it.\<close>

definition same_outside :: "'a heap \<Rightarrow> 'a heap \<Rightarrow> ref \<Rightarrow> ref set \<Rightarrow> bool" where
  "same_outside h h' l es \<longleftrightarrow> h_Value h' = h_Value h \<and> h_fresh h' = h_fresh h \<and>
     (\<forall>l'. l' \<noteq> l \<longrightarrow> h_length h' l' = h_length h l') \<and>
     (\<forall>e. e \<notin> insert l es \<longrightarrow> h_next h' e = h_next h e \<and> h_prev h' e = h_prev h e \<and> h_list h' e = h_list h e)"

lemma linked_list: "linked h l xs \<Longrightarrow> h_list h e = Some l \<longleftrightarrow> e \<in> set (l # xs)"
  unfolding linked_def by blast

lemma linked_distinct: "linked h l xs \<Longrightarrow> distinct (l # xs)"
  by (simp add: linked_def cycle_def)

lemma linked_NewList:
  assumes "NewList h = (h', l)" and "\<forall>e. h_list h e \<noteq> Some (h_fresh h)"
  shows "linked h' l []" "l = h_fresh h" "h_fresh h' = Suc l"
  using assms by (auto simp: NewList_def new_element_def Let_def linked_def cycle_def split: if_splits)

lemma insertAfter_linked:
  assumes k: "linked h l (ys @ zs)" and e: "h_list h e = None" "e < h_fresh h" and p: "p = last (l # ys)"
  shows "\<exists>h'. insertAfter l e (Some p) h = Some h' \<and> linked h' l (ys @ e # zs) \<and> same_outside h h' l (set (ys @ e # zs))"
proof -
  define n where "n = hd (zs @ [l])"
  have c: "cycle (h_next h) (h_prev h) l (ys @ zs)" using k by (simp add: linked_def)
  have en: "e \<notin> set (l # ys @ zs)" using linked_list [OF k, of e] e(1) by auto
  have pn: "p \<in> set (l # ys)" "n \<in> set (l # zs)" using gap_in(1) [of l ys] gap_in(2) [of zs l] by (simp_all only: p n_def)
  then have pe: "p \<noteq> e" "n \<noteq> e" using en by auto
  define h' where "h' = h\<lparr>h_prev := (h_prev h)(e := Some p, n := Some e), h_next := (h_next h)(e := Some n, p := Some e),
    h_list := (h_list h)(e \<mapsto> l), h_length := (h_length h)(l := h_length h l + 1)\<rparr>"
  have "insertAfter l e (Some p) h = Some h'"
    using e(1) cycle_gap(1) [OF c, folded p n_def] pe by (simp add: insertAfter_def set_next_def set_prev_def h'_def Let_def)
  moreover have "cycle (h_next h') (h_prev h') l (ys @ e # zs)" using cycle_insert [OF c en p n_def] by (simp add: h'_def)
  ultimately show ?thesis using k en e(2) pn unfolding linked_def same_outside_def
    by (intro exI [of _ h']) (auto simp: h'_def)
qed

lemma list_Remove_linked:
  assumes k: "linked h l (ys @ e # zs)"
  shows "\<exists>h'. list_Remove l e h = Some h' \<and> linked h' l (ys @ zs) \<and> same_outside h h' l (set (ys @ e # zs)) \<and> h_list h' e = None"
proof -
  define p where "p = last (l # ys)"
  define n where "n = hd (zs @ [l])"
  have c: "cycle (h_next h) (h_prev h) l (ys @ e # zs)" using k by (simp add: linked_def)
  have d: "distinct (l # ys @ e # zs)" by (rule linked_distinct [OF k])
  have le: "h_list h e = Some l" using linked_list [OF k, of e] by simp
  have pn: "p \<in> set (l # ys)" "n \<in> set (l # zs)" using gap_in(1) [of l ys] gap_in(2) [of zs l] by (simp_all only: p_def n_def)
  then have pe: "p \<noteq> e" "n \<noteq> e" using d by auto
  define h' where "h' = h\<lparr>h_next := (h_next h)(p := h_next h e, e := None), h_prev := (h_prev h)(n := h_prev h e, e := None),
    h_list := (h_list h)(e := None), h_length := (h_length h)(l := h_length h l - 1)\<rparr>"
  have "list_Remove l e h = Some h'"
    using le cycle_around [OF c, folded p_def n_def] pe by (simp add: list_Remove_def set_next_def set_prev_def h'_def Let_def)
  moreover have "e \<notin> set (l # ys @ zs)" using d by auto
  then have "cycle (h_next h') (h_prev h') l (ys @ zs)"
    using cycle_remove [OF c p_def n_def] by (simp add: h'_def cycle_upd del: fun_upd_apply)
  ultimately show ?thesis using k d pn unfolding linked_def same_outside_def
    by (intro exI [of _ h']) (auto simp: h'_def)
qed

lemma moveAfter_linked:
  assumes k: "linked h l (ys @ e # zs)" and sp: "ys @ zs = us @ ws" and q: "q = last (l # us)"
  shows "\<exists>h'. moveAfter l e (Some q) h = Some h' \<and> linked h' l (us @ e # ws) \<and> same_outside h h' l (set (ys @ e # zs))"
proof -
  define p where "p = last (l # ys)"
  define n where "n = hd (zs @ [l])"
  define m where "m = hd (ws @ [l])"
  have c: "cycle (h_next h) (h_prev h) l (ys @ e # zs)" using k by (simp add: linked_def)
  have d: "distinct (l # ys @ e # zs)" by (rule linked_distinct [OF k])
  have set: "set (us @ ws) = set (ys @ zs)" "length (us @ ws) = length (ys @ zs)" using sp by simp_all
  have en: "e \<notin> set (l # us @ ws)" using d unfolding set list.set by auto
  have pn: "p \<in> set (l # ys)" "n \<in> set (l # zs)" "q \<in> set (l # us)" "m \<in> set (l # ws)"
    using gap_in(1) [of l ys] gap_in(2) [of zs l] gap_in(1) [of l us] gap_in(2) [of ws l] by (simp_all only: p_def n_def q m_def)
  then have "q \<in> set (l # ys @ e # zs)" using set(1) by auto
  then have le: "h_list h e = Some l" "h_list h q = Some l" using linked_list [OF k] by simp_all
  have pe: "p \<noteq> e" "n \<noteq> e" "q \<noteq> e" "m \<noteq> e" using d en pn by auto
  define f where "f = (h_next h)(p := h_next h e)"
  define g where "g = (h_prev h)(n := h_prev h e)"
  have c2: "cycle f g l (us @ ws)" using cycle_remove [OF c p_def n_def] by (simp only: f_def g_def sp)
  define h' where "h' = h\<lparr>h_next := f(e := Some m, q := Some e), h_prev := g(e := Some q, m := Some e)\<rparr>"
  have "moveAfter l e (Some q) h = Some h'"
    using le cycle_around [OF c, folded p_def n_def] pe cycle_gap(1) [OF c2, folded q m_def]
    by (simp add: moveAfter_def set_next_def set_prev_def h'_def Let_def f_def g_def)
  moreover have "cycle (h_next h') (h_prev h') l (us @ e # ws)" using cycle_insert [OF c2 en q m_def] by (simp add: h'_def)
  moreover have "set (l # us @ e # ws) = set (l # ys @ e # zs)" "length (us @ e # ws) = length (ys @ e # zs)" using set by auto
  moreover have "h_next h' x = h_next h x \<and> h_prev h' x = h_prev h x" if "x \<notin> insert l (set (ys @ e # zs))" for x
    using that pn set(1) unfolding h'_def f_def g_def by auto
  ultimately show ?thesis using k unfolding linked_def same_outside_def
    by (intro exI [of _ h'] conjI) (simp_all add: h'_def)
qed

section \<open>The operations\<close>

lemma linked_ends:
  assumes "linked h l xs"
  shows "h_next h l = Some (hd (xs @ [l]))" "h_prev h l = Some (last (l # xs))" "h_length h l = int (length xs)"
  using assms cycle_sentinel [of "h_next h" "h_prev h" l xs] by (simp_all add: linked_def)

lemma linked_Front: "linked h l xs \<Longrightarrow> Front l h = (case xs of [] \<Rightarrow> None | x # _ \<Rightarrow> Some x)"
  using linked_ends [of h l xs] by (auto simp: Front_def split: list.splits)

lemma linked_Back: "linked h l xs \<Longrightarrow> Back l h = (if xs = [] then None else Some (last xs))"
  using linked_ends [of h l xs] by (auto simp: Back_def)

lemma linked_Next:
  assumes "linked h l (ys @ e # zs)"
  shows "elem_Next e h = (case zs of [] \<Rightarrow> None | z # _ \<Rightarrow> Some z)" "elem_Prev e h = (if ys = [] then None else Some (last ys))"
proof -
  have "cycle (h_next h) (h_prev h) l (ys @ e # zs)" using assms by (simp add: linked_def)
  note ar = cycle_around [OF this]
  have "h_list h e = Some l" "l \<notin> set ys" "l \<notin> set zs"
    using linked_list [OF assms, of e] linked_distinct [OF assms] by auto
  moreover have "last ys = l \<Longrightarrow> ys = []" using \<open>l \<notin> set ys\<close> last_in_set [of ys] by metis
  ultimately show "elem_Next e h = (case zs of [] \<Rightarrow> None | z # _ \<Rightarrow> Some z)" "elem_Prev e h = (if ys = [] then None else Some (last ys))"
    using ar by (auto simp: elem_Next_def elem_Prev_def split: list.splits)
qed

lemma linked_pred:
  assumes "linked h l (ys @ e # zs)"
  shows "h_prev h e = Some (last (l # ys))"
  using assms cycle_around(1) [of "h_next h" "h_prev h" l ys e zs] by (simp add: linked_def)

lemma linked_PushFront:
  assumes "linked h l xs" and "h_list h e = None" "e < h_fresh h"
  shows "\<exists>h'. elem_PushFront l e h = Some h' \<and> linked h' l (e # xs) \<and> same_outside h h' l (set (e # xs))"
  using insertAfter_linked [of h l "[]" xs e l] assms by (simp add: elem_PushFront_def)

lemma linked_PushBack:
  assumes "linked h l xs" and "h_list h e = None" "e < h_fresh h"
  shows "\<exists>h'. elem_PushBack l e h = Some h' \<and> linked h' l (xs @ [e]) \<and> same_outside h h' l (set (xs @ [e]))"
  using insertAfter_linked [of h l xs "[]" e "last (l # xs)"] assms linked_ends(2) [OF assms(1)] by (simp add: elem_PushBack_def)

lemma linked_InsertAfter:
  assumes "linked h l (ys @ loc # zs)" and "h_list h e = None" "e < h_fresh h"
  shows "\<exists>h'. elem_InsertAfter l e loc h = Some h' \<and> linked h' l (ys @ loc # e # zs) \<and> same_outside h h' l (set (ys @ loc # e # zs))"
    and "\<exists>h'. elem_InsertBefore l e loc h = Some h' \<and> linked h' l (ys @ e # loc # zs) \<and> same_outside h h' l (set (ys @ e # loc # zs))"
proof -
  have "h_list h loc = Some l" using linked_list [OF assms(1), of loc] by simp
  with insertAfter_linked [of h l "ys @ [loc]" zs e loc] insertAfter_linked [of h l ys "loc # zs" e "last (l # ys)"] assms linked_pred [OF assms(1)]
  show "\<exists>h'. elem_InsertAfter l e loc h = Some h' \<and> linked h' l (ys @ loc # e # zs) \<and> same_outside h h' l (set (ys @ loc # e # zs))"
    "\<exists>h'. elem_InsertBefore l e loc h = Some h' \<and> linked h' l (ys @ e # loc # zs) \<and> same_outside h h' l (set (ys @ e # loc # zs))"
    by (simp_all add: elem_InsertAfter_def elem_InsertBefore_def)
qed

lemma same_outside_refl [simp]: "same_outside h h l es"
  by (simp add: same_outside_def)

lemma moveAfter_self [simp]: "moveAfter l e (Some e) h = Some h"
  by (simp add: moveAfter_def)

lemma linked_MoveToFront:
  assumes "linked h l (ys @ e # zs)"
  shows "\<exists>h'. MoveToFront l e h = Some h' \<and> linked h' l (e # ys @ zs) \<and> same_outside h h' l (set (ys @ e # zs))"
proof (cases ys)
  case Nil
  with assms linked_ends(1) [OF assms] show ?thesis by (auto simp: MoveToFront_def)
next
  case (Cons y ys')
  then have "h_next h l \<noteq> Some e" using linked_ends(1) [OF assms] linked_distinct [OF assms] by auto
  with moveAfter_linked [OF assms, of "[]" "ys @ zs" l] show ?thesis by (auto simp: MoveToFront_def)
qed

lemma linked_MoveToBack:
  assumes "linked h l (ys @ e # zs)"
  shows "\<exists>h'. MoveToBack l e h = Some h' \<and> linked h' l (ys @ zs @ [e]) \<and> same_outside h h' l (set (ys @ e # zs))"
proof (cases "zs = []")
  case True
  with assms linked_ends(2) [OF assms] show ?thesis by (auto simp: MoveToBack_def)
next
  case False
  then have "last (l # ys @ e # zs) = last (l # ys @ zs)" by simp
  with moveAfter_linked [OF assms, of "ys @ zs" "[]" "last (l # ys @ zs)"] linked_ends(2) [OF assms] show ?thesis
    by (simp add: MoveToBack_def)
qed

lemma linked_MoveAfter:
  assumes k: "linked h l (ys @ e # zs)" and sp: "ys @ zs = us @ loc # ws"
  shows "\<exists>h'. MoveAfter l e loc h = Some h' \<and> linked h' l (us @ loc # e # ws) \<and> same_outside h h' l (set (ys @ e # zs))"
    and "\<exists>h'. MoveBefore l e loc h = Some h' \<and> linked h' l (us @ e # loc # ws) \<and> same_outside h h' l (set (ys @ e # zs))"
proof -
  show "\<exists>h'. MoveAfter l e loc h = Some h' \<and> linked h' l (us @ loc # e # ws) \<and> same_outside h h' l (set (ys @ e # zs))"
    using moveAfter_linked [OF k, of "us @ [loc]" ws loc] sp by (simp add: MoveAfter_def)
  have "set (ys @ zs) = set (us @ loc # ws)" using sp by simp
  then have ne: "e \<noteq> loc" using linked_distinct [OF k] by auto
  show "\<exists>h'. MoveBefore l e loc h = Some h' \<and> linked h' l (us @ e # loc # ws) \<and> same_outside h h' l (set (ys @ e # zs))"
  proof (cases "ys = us")
    case True
    with sp have "zs = loc # ws" by simp
    with linked_pred [of h l "ys @ [e]" loc ws] k True ne show ?thesis by (simp add: MoveBefore_def)
  next
    case False
    have "h_prev h loc = Some (last (l # us))"
    proof (cases "length us \<le> length ys")
      case True
      with False sp obtain vs where "ys = us @ loc # vs" by (auto simp: append_eq_append_conv2 append_eq_Cons_conv)
      with k linked_pred [of h l us loc "vs @ e # zs"] show ?thesis by simp
    next
      case len: False
      with sp obtain us' where "us = ys @ us'" "zs = us' @ loc # ws" "us' \<noteq> []" by (auto simp: append_eq_append_conv2 append_eq_Cons_conv)
      then obtain v vs where v: "us = ys @ v # vs" "zs = v # vs @ loc # ws" by (cases us') auto
      with k linked_pred [of h l "ys @ e # v # vs" loc ws] show ?thesis by (simp add: v)
    qed
    with moveAfter_linked [OF k, of us "loc # ws" "last (l # us)"] sp ne show ?thesis by (simp add: MoveBefore_def)
  qed
qed

text \<open>
  The pointer structure implements sequences: on a well-linked list \<^verbatim>\<open>Front\<close>, \<^verbatim>\<open>Back\<close> and \<^verbatim>\<open>Len\<close> are the
  ends and the length, \<^verbatim>\<open>Next\<close> and \<^verbatim>\<open>Prev\<close> the neighbours of an element; \<^verbatim>\<open>Remove\<close> takes an element
  out; a detached element is put at the front, the back, before or after a location; an element of the list
  is moved to these places. None of them dereferences nil, touches a value, or changes links or
  membership of elements of other lists.
\<close>

theorem linked_list_refines:
  assumes "linked h l xs" and "xs = ys @ e # zs"
  shows "(list_Len l h = int (length xs)) \<and>
    (Front l h = Some (hd xs)) \<and>
    (Back l h = Some (last xs)) \<and>
    (elem_Next e h = (case zs of [] \<Rightarrow> None | z # _ \<Rightarrow> Some z)) \<and>
    (elem_Prev e h = (if ys = [] then None else Some (last ys))) \<and>
    (\<exists>h'. list_Remove l e h = Some h' \<and> linked h' l (ys @ zs) \<and> same_outside h h' l (set xs) \<and> h_list h' e = None) \<and>
    (\<exists>h'. MoveToFront l e h = Some h' \<and> linked h' l (e # ys @ zs) \<and> same_outside h h' l (set xs)) \<and>
    (\<exists>h'. MoveToBack l e h = Some h' \<and> linked h' l (ys @ zs @ [e]) \<and> same_outside h h' l (set xs)) \<and>
    (ys @ zs = us @ loc # ws \<longrightarrow>
      (\<exists>h'. MoveAfter l e loc h = Some h' \<and> linked h' l (us @ loc # e # ws) \<and> same_outside h h' l (set xs)) \<and>
      (\<exists>h'. MoveBefore l e loc h = Some h' \<and> linked h' l (us @ e # loc # ws) \<and> same_outside h h' l (set xs))) \<and>
    (h_list h x = None \<and> x < h_fresh h \<longrightarrow>
      (\<exists>h'. elem_PushFront l x h = Some h' \<and> linked h' l (x # xs) \<and> same_outside h h' l (insert x (set xs))) \<and>
      (\<exists>h'. elem_PushBack l x h = Some h' \<and> linked h' l (xs @ [x]) \<and> same_outside h h' l (insert x (set xs))) \<and>
      (\<exists>h'. elem_InsertAfter l x e h = Some h' \<and> linked h' l (ys @ e # x # zs) \<and> same_outside h h' l (insert x (set xs))) \<and>
      (\<exists>h'. elem_InsertBefore l x e h = Some h' \<and> linked h' l (ys @ x # e # zs) \<and> same_outside h h' l (insert x (set xs))))"
proof -
  note k = assms(1) [unfolded assms(2)]
  have c1: "list_Len l h = int (length xs)" using linked_ends(3) [OF assms(1)] by (simp add: list_Len_def)
  have c2: "Front l h = Some (hd xs)" using linked_Front [OF assms(1)] assms(2) by (auto split: list.splits)
  have c3: "Back l h = Some (last xs)" using linked_Back [OF assms(1)] assms(2) by simp
  have c4: "elem_Next e h = (case zs of [] \<Rightarrow> None | z # _ \<Rightarrow> Some z)" "elem_Prev e h = (if ys = [] then None else Some (last ys))"
    by (rule linked_Next [OF k])+
  have c5: "\<exists>h'. list_Remove l e h = Some h' \<and> linked h' l (ys @ zs) \<and> same_outside h h' l (set xs) \<and> h_list h' e = None"
    unfolding assms(2) by (rule list_Remove_linked [OF k])
  have c6: "\<exists>h'. MoveToFront l e h = Some h' \<and> linked h' l (e # ys @ zs) \<and> same_outside h h' l (set xs)"
    unfolding assms(2) by (rule linked_MoveToFront [OF k])
  have c7: "\<exists>h'. MoveToBack l e h = Some h' \<and> linked h' l (ys @ zs @ [e]) \<and> same_outside h h' l (set xs)"
    unfolding assms(2) by (rule linked_MoveToBack [OF k])
  have c8: "ys @ zs = us @ loc # ws \<longrightarrow>
      (\<exists>h'. MoveAfter l e loc h = Some h' \<and> linked h' l (us @ loc # e # ws) \<and> same_outside h h' l (set xs)) \<and>
      (\<exists>h'. MoveBefore l e loc h = Some h' \<and> linked h' l (us @ e # loc # ws) \<and> same_outside h h' l (set xs))"
    unfolding assms(2) using linked_MoveAfter [OF k] by blast
  have sets: "insert x (set xs) = set (x # xs)" "insert x (set xs) = set (xs @ [x])" "insert x (set xs) = set (ys @ e # x # zs)"
    "insert x (set xs) = set (ys @ x # e # zs)" using assms(2) by auto
  have c9: "h_list h x = None \<and> x < h_fresh h \<longrightarrow>
      (\<exists>h'. elem_PushFront l x h = Some h' \<and> linked h' l (x # xs) \<and> same_outside h h' l (insert x (set xs))) \<and>
      (\<exists>h'. elem_PushBack l x h = Some h' \<and> linked h' l (xs @ [x]) \<and> same_outside h h' l (insert x (set xs))) \<and>
      (\<exists>h'. elem_InsertAfter l x e h = Some h' \<and> linked h' l (ys @ e # x # zs) \<and> same_outside h h' l (insert x (set xs))) \<and>
      (\<exists>h'. elem_InsertBefore l x e h = Some h' \<and> linked h' l (ys @ x # e # zs) \<and> same_outside h h' l (insert x (set xs)))"
    using linked_PushFront [OF assms(1)] linked_PushBack [OF assms(1)] linked_InsertAfter [OF k] by (metis sets)
  show ?thesis by (intro conjI c1 c2 c3 c4 c5 c6 c7 c8 c9)
qed

text \<open>Two elements in a new list.\<close>

definition two_elements :: "nat heap" where
  "two_elements = the (do {
     let (h, l) = NewList empty_heap;
     h \<leftarrow> PushBack l 7 h;
     PushFront l 5 h
   })"

theorem linked_list_refines_witness:
  "linked two_elements 0 [2, 1] \<and> Front 0 two_elements = Some 2 \<and> (\<exists>h'. MoveToBack 0 2 two_elements = Some h' \<and> linked h' 0 [1, 2])"
proof -
  have k: "linked two_elements 0 [2, 1]"
    by (auto simp: two_elements_def NewList_def new_element_def PushBack_def PushFront_def with_value_def elem_PushBack_def elem_PushFront_def
        insertAfter_def set_next_def set_prev_def empty_heap_def linked_def cycle_def Let_def split: if_splits)
  from linked_list_refines [OF k, of "[]" 2 "[1]"] k show ?thesis by (simp; blast)
qed

end
