(* ===== verification/LinkedHashmap.thy ===== *)
theory LinkedHashmap
  imports LinkedList
begin

text \<open>
  default/utils/linked/hashmap.go: a map that remembers the order of insertion, and its iterator. The
  abstraction of a hashmap is the list of its entries, oldest first. \<open>ordered_map\<close> is what its
  clients rely on. Elements of the list always have a key and a value; the model gives no entry for the
  zero key and value of a freed element.
\<close>

section \<open>Model\<close>

record ('k, 'v) Hashmap =
  hm_heap :: "('k \<times> 'v) heap"
  entryMap :: "'k \<rightharpoonup> ref"
  entryList :: ref
  freeList :: "ref list"

fun alloc_elements :: "nat \<Rightarrow> 'a heap \<Rightarrow> 'a heap \<times> ref list" where
  "alloc_elements 0 h = (h, [])"
| "alloc_elements (Suc n) h = (let (h, e) = new_element h; (h, es) = alloc_elements n h in (h, e # es))"

definition NewHashmapWithSize :: "nat \<Rightarrow> ('k, 'v) Hashmap" where
  "NewHashmapWithSize initialSize =
     (let (h, l) = NewList empty_heap; (h, es) = alloc_elements initialSize h in
      \<lparr>hm_heap = h, entryMap = Map.empty, entryList = l, freeList = es\<rparr>)"

definition NewHashmap :: "('k, 'v) Hashmap" where
  "NewHashmap = NewHashmapWithSize 0"

definition hm_Put :: "'k \<Rightarrow> 'v \<Rightarrow> ('k, 'v) Hashmap \<Rightarrow> ('k, 'v) Hashmap option" where
  "hm_Put key val lh =
     (case entryMap lh key of
        Some e \<Rightarrow> do {
          h \<leftarrow> MoveToBack (entryList lh) e (hm_heap lh);
          Some (lh\<lparr>hm_heap := h\<lparr>h_Value := (h_Value h)(e \<mapsto> (key, val))\<rparr>\<rparr>)
        }
      | None \<Rightarrow> do {
          let (h, e, free) = (if freeList lh \<noteq> [] then (hm_heap lh, last (freeList lh), butlast (freeList lh))
                              else case new_element (hm_heap lh) of (h, e) \<Rightarrow> (h, e, freeList lh));
          let h = h\<lparr>h_Value := (h_Value h)(e \<mapsto> (key, val))\<rparr>;
          h \<leftarrow> elem_PushBack (entryList lh) e h;
          Some (lh\<lparr>hm_heap := h, entryMap := (entryMap lh)(key \<mapsto> e), freeList := free\<rparr>)
        })"

definition hm_Get :: "'k \<Rightarrow> ('k, 'v) Hashmap \<Rightarrow> 'v option" where
  "hm_Get key lh = (case entryMap lh key of None \<Rightarrow> None | Some e \<Rightarrow> map_option snd (h_Value (hm_heap lh) e))"

definition hm_remove :: "ref \<Rightarrow> ('k, 'v) Hashmap \<Rightarrow> ('k, 'v) Hashmap option" where
  "hm_remove e lh =
     (case h_Value (hm_heap lh) e of
        None \<Rightarrow> None
      | Some (k, _) \<Rightarrow> do {
          let lh = lh\<lparr>entryMap := (entryMap lh)(k := None)\<rparr>;
          h \<leftarrow> list_Remove (entryList lh) e (hm_heap lh);
          Some (lh\<lparr>hm_heap := h\<lparr>h_Value := (h_Value h)(e := None)\<rparr>, freeList := freeList lh @ [e]\<rparr>)
        })"

definition hm_Delete :: "'k \<Rightarrow> ('k, 'v) Hashmap \<Rightarrow> (('k, 'v) Hashmap \<times> bool) option" where
  "hm_Delete key lh =
     (case entryMap lh key of
        None \<Rightarrow> Some (lh, False)
      | Some e \<Rightarrow> map_option (\<lambda>lh. (lh, True)) (hm_remove e lh))"

text \<open>\<open>ks\<close> is the order in which \<^verbatim>\<open>Clear\<close> ranges over the map.\<close>

fun hm_Clear :: "'k list \<Rightarrow> ('k, 'v) Hashmap \<Rightarrow> ('k, 'v) Hashmap option" where
  "hm_Clear [] lh = Some lh"
| "hm_Clear (k # ks) lh = (case entryMap lh k of None \<Rightarrow> hm_Clear ks lh | Some e \<Rightarrow> hm_remove e lh \<bind> hm_Clear ks)"

definition hm_Len :: "('k, 'v) Hashmap \<Rightarrow> int" where
  "hm_Len lh = int (card (dom (entryMap lh)))"

definition hm_Oldest :: "('k, 'v) Hashmap \<Rightarrow> ('k \<times> 'v) option" where
  "hm_Oldest lh = (case Front (entryList lh) (hm_heap lh) of None \<Rightarrow> None | Some e \<Rightarrow> h_Value (hm_heap lh) e)"

definition hm_Newest :: "('k, 'v) Hashmap \<Rightarrow> ('k \<times> 'v) option" where
  "hm_Newest lh = (case Back (entryList lh) (hm_heap lh) of None \<Rightarrow> None | Some e \<Rightarrow> h_Value (hm_heap lh) e)"

text \<open>The iterator; \<open>it_entry\<close> is its current key and value.\<close>

record ('k, 'v) Iterator =
  it_entry :: "('k \<times> 'v) option"
  it_next :: "ref option"
  it_initialized :: bool
  it_exhausted :: bool

definition NewIterator :: "('k, 'v) Iterator" where
  "NewIterator = \<lparr>it_entry = None, it_next = None, it_initialized = False, it_exhausted = False\<rparr>"

definition iter_step :: "('k, 'v) Hashmap \<Rightarrow> ('k, 'v) Iterator \<Rightarrow> (('k, 'v) Iterator \<times> bool) option" where
  "iter_step lh it =
     (case it_next it of
        None \<Rightarrow> None
      | Some e \<Rightarrow>
          let it = it\<lparr>it_entry := h_Value (hm_heap lh) e\<rparr>;
              it = it\<lparr>it_next := elem_Next e (hm_heap lh)\<rparr>
          in Some (it\<lparr>it_exhausted := (it_next it = None)\<rparr>, True))"

definition iter_Next :: "('k, 'v) Hashmap \<Rightarrow> ('k, 'v) Iterator \<Rightarrow> (('k, 'v) Iterator \<times> bool) option" where
  "iter_Next lh it =
     (if it_exhausted it then Some (it\<lparr>it_entry := None, it_next := None\<rparr>, False)
      else if it_initialized it then iter_step lh it
      else let it = it\<lparr>it_initialized := True\<rparr> in
        case Front (entryList lh) (hm_heap lh) of
          None \<Rightarrow> Some (it\<lparr>it_exhausted := True, it_entry := None, it_next := None\<rparr>, False)
        | Some e \<Rightarrow> iter_step lh (it\<lparr>it_next := Some e\<rparr>))"

section \<open>Abstraction\<close>

text \<open>The list holds the elements \<open>xs\<close>; the map leads from the key of each of them to it.\<close>

definition hm_ok :: "('k, 'v) Hashmap \<Rightarrow> ref list \<Rightarrow> bool" where
  "hm_ok lh xs \<longleftrightarrow> linked (hm_heap lh) (entryList lh) xs \<and>
     (\<forall>e \<in> set xs. h_Value (hm_heap lh) e \<noteq> None) \<and>
     (\<forall>k e. entryMap lh k = Some e \<longleftrightarrow> e \<in> set xs \<and> (\<exists>v. h_Value (hm_heap lh) e = Some (k, v))) \<and>
     distinct (freeList lh) \<and> (\<forall>e \<in> set (freeList lh). h_list (hm_heap lh) e = None \<and> e < h_fresh (hm_heap lh)) \<and>
     (\<forall>e \<ge> h_fresh (hm_heap lh). h_list (hm_heap lh) e = None)"

definition entries_of :: "('k \<times> 'v) heap \<Rightarrow> ref list \<Rightarrow> ('k \<times> 'v) list" where
  "entries_of h xs = map (\<lambda>e. the (h_Value h e)) xs"

definition hm_rep :: "('k, 'v) Hashmap \<Rightarrow> ('k \<times> 'v) list \<Rightarrow> bool" where
  "hm_rep lh es \<longleftrightarrow> (\<exists>xs. hm_ok lh xs \<and> es = entries_of (hm_heap lh) xs)"

definition del_key :: "'k \<Rightarrow> ('k \<times> 'v) list \<Rightarrow> ('k \<times> 'v) list" where
  "del_key k = filter (\<lambda>p. fst p \<noteq> k)"

lemma del_key_simps [simp]:
  "del_key k [] = []" "del_key k (p # es) = (if fst p = k then del_key k es else p # del_key k es)"
  "del_key k (es @ fs) = del_key k es @ del_key k fs"
  by (simp_all add: del_key_def)

lemma del_key_other [simp]: "k \<notin> fst ` set es \<Longrightarrow> del_key k es = es"
  by (induction es) auto

lemma set_del_key [simp]: "set (del_key k es) = {p \<in> set es. fst p \<noteq> k}"
  by (simp add: del_key_def)

lemma distinct_del_key: "distinct (map fst es) \<Longrightarrow> distinct (map fst (del_key k es))"
  by (induction es) auto

lemma map_of_del_key: "map_of (del_key k es) k' = (if k' = k then None else map_of es k')"
  by (induction es) auto

lemma entries_simps [simp]:
  "entries_of h [] = []" "entries_of h (xs @ ys) = entries_of h xs @ entries_of h ys"
  "entries_of h (e # xs) = the (h_Value h e) # entries_of h xs" "length (entries_of h xs) = length xs"
  by (simp_all add: entries_of_def)

lemma entries_cong: "(\<And>e. e \<in> set xs \<Longrightarrow> h_Value h' e = h_Value h e) \<Longrightarrow> entries_of h' xs = entries_of h xs"
  by (simp add: entries_of_def)

lemma hm_okD:
  assumes "hm_ok lh xs"
  shows "linked (hm_heap lh) (entryList lh) xs" "e \<in> set xs \<Longrightarrow> \<exists>k v. h_Value (hm_heap lh) e = Some (k, v)"
    "entryMap lh k = Some e \<longleftrightarrow> e \<in> set xs \<and> (\<exists>v. h_Value (hm_heap lh) e = Some (k, v))"
  using assms by (auto simp: hm_ok_def)

lemma entry_key:
  assumes "hm_ok lh xs" and "e \<in> set xs"
  shows "entryMap lh (fst (the (h_Value (hm_heap lh) e))) = Some e"
  using hm_okD(2,3) [OF assms(1)] assms(2) by fastforce

lemma hm_keys:
  assumes ok: "hm_ok lh xs"
  shows "distinct (map fst (entries_of (hm_heap lh) xs))" "fst ` set (entries_of (hm_heap lh) xs) = dom (entryMap lh)"
proof -
  have "inj_on (\<lambda>e. fst (the (h_Value (hm_heap lh) e))) (set xs)"
    by (rule inj_onI) (metis entry_key [OF ok] option.inject)
  moreover have "distinct xs" using linked_distinct [OF hm_okD(1) [OF ok]] by simp
  ultimately show "distinct (map fst (entries_of (hm_heap lh) xs))" by (simp add: entries_of_def distinct_map comp_def)
  show "fst ` set (entries_of (hm_heap lh) xs) = dom (entryMap lh)"
    using entry_key [OF ok] hm_okD(3) [OF ok] by (force simp: entries_of_def image_image dom_def)
qed

lemma hm_split:
  assumes ok: "hm_ok lh xs" and e: "entryMap lh k = Some e"
  obtains ys zs v where "xs = ys @ e # zs" "h_Value (hm_heap lh) e = Some (k, v)"
    "del_key k (entries_of (hm_heap lh) xs) = entries_of (hm_heap lh) (ys @ zs)"
proof -
  from hm_okD(3) [OF ok] e obtain v where v: "e \<in> set xs" "h_Value (hm_heap lh) e = Some (k, v)" by blast
  then obtain ys zs where xs: "xs = ys @ e # zs" by (auto dest: split_list)
  have "distinct (map fst (entries_of (hm_heap lh) xs))" by (rule hm_keys(1) [OF ok])
  then have "k \<notin> fst ` set (entries_of (hm_heap lh) ys)" "k \<notin> fst ` set (entries_of (hm_heap lh) zs)" using v by (auto simp: xs)
  then show thesis using that [OF xs v(2)] v(2) by (simp add: xs)
qed

section \<open>The operations on entries\<close>

lemma hm_Get_rep:
  assumes "hm_rep lh es"
  shows "hm_Get k lh = map_of es k"
proof -
  from assms obtain xs where ok: "hm_ok lh xs" and es: "es = entries_of (hm_heap lh) xs" by (auto simp: hm_rep_def)
  note keys = hm_keys [OF ok, folded es]
  show ?thesis
  proof (cases "entryMap lh k")
    case None
    then have "k \<notin> fst ` set es" using keys(2) by auto
    with None show ?thesis by (simp add: hm_Get_def) (metis map_of_eq_None_iff)
  next
    case (Some e)
    then obtain v where v: "e \<in> set xs" "h_Value (hm_heap lh) e = Some (k, v)" using hm_okD(3) [OF ok] by blast
    then have "(k, v) \<in> set es" by (force simp: es entries_of_def)
    with keys(1) have "map_of es k = Some v" by simp
    with Some v(2) show ?thesis by (simp add: hm_Get_def)
  qed
qed

lemma hm_Put_old:
  assumes ok: "hm_ok lh xs" and e: "entryMap lh k = Some e"
  shows "\<exists>lh'. hm_Put k v lh = Some lh' \<and> hm_rep lh' (del_key k (entries_of (hm_heap lh) xs) @ [(k, v)])"
proof -
  from hm_split [OF ok e] obtain ys zs v0 where xs: "xs = ys @ e # zs" "h_Value (hm_heap lh) e = Some (k, v0)"
    and d: "del_key k (entries_of (hm_heap lh) xs) = entries_of (hm_heap lh) (ys @ zs)" by blast
  from linked_MoveToBack [OF hm_okD(1) [OF ok, unfolded xs(1)]] obtain h where
    h: "MoveToBack (entryList lh) e (hm_heap lh) = Some h" "linked h (entryList lh) (ys @ zs @ [e])"
      "same_outside (hm_heap lh) h (entryList lh) (set xs)" by (auto simp: xs)
  define lh' where "lh' = lh\<lparr>hm_heap := h\<lparr>h_Value := (h_Value h)(e \<mapsto> (k, v))\<rparr>\<rparr>"
  have dist: "distinct (entryList lh # xs)" using linked_distinct [OF hm_okD(1) [OF ok]] .
  have val: "h_Value h = h_Value (hm_heap lh)" "h_fresh h = h_fresh (hm_heap lh)" using h(3) by (simp_all add: same_outside_def)
  have lst: "h_list h x = h_list (hm_heap lh) x" for x
  proof (cases "x \<in> set (entryList lh # xs)")
    case True
    then have "h_list (hm_heap lh) x = Some (entryList lh)" using linked_list [OF hm_okD(1) [OF ok]] by blast
    moreover have "h_list h x = Some (entryList lh)" using linked_list [OF h(2)] True by (auto simp: xs)
    ultimately show ?thesis by simp
  qed (use h(3) in \<open>auto simp: same_outside_def\<close>)
  have "linked (h\<lparr>h_Value := V\<rparr>) l ws = linked h l ws" for V l ws by (simp add: linked_def)
  moreover have "(entryMap lh k' = Some e') = (e' \<in> set (ys @ zs @ [e]) \<and> (\<exists>w. ((h_Value h)(e \<mapsto> (k, v))) e' = Some (k', w)))" for k' e'
    using hm_okD(3) [OF ok, of k' e'] xs val(1) by auto
  ultimately have "hm_ok lh' (ys @ zs @ [e])" using ok h(2) val lst unfolding hm_ok_def lh'_def xs(1) by auto
  moreover have "entries_of (hm_heap lh') (ys @ zs @ [e]) = del_key k (entries_of (hm_heap lh) xs) @ [(k, v)]"
  proof -
    have "entries_of (hm_heap lh') (ys @ zs) = entries_of (hm_heap lh) (ys @ zs)"
      by (rule entries_cong) (use dist val in \<open>auto simp: lh'_def xs\<close>)
    then show ?thesis by (simp add: d lh'_def)
  qed
  ultimately have "hm_rep lh' (del_key k (entries_of (hm_heap lh) xs) @ [(k, v)])" unfolding hm_rep_def by metis
  then show ?thesis using e h(1) by (auto simp: hm_Put_def lh'_def)
qed

lemma linked_Value [simp]: "linked (h\<lparr>h_Value := V\<rparr>) l xs = linked h l xs"
  by (simp add: linked_def)

text \<open>The element that a new key gets.\<close>

lemma hm_fresh_element:
  assumes ok: "hm_ok lh xs"
  obtains h e free where
    "(if freeList lh \<noteq> [] then (hm_heap lh, last (freeList lh), butlast (freeList lh))
      else case new_element (hm_heap lh) of (h, e) \<Rightarrow> (h, e, freeList lh)) = (h, e, free)"
    "linked h (entryList lh) xs" "h_list h e = None" "e < h_fresh h" "e \<notin> set free"
    "\<forall>x \<in> set xs. h_Value h x = h_Value (hm_heap lh) x" "distinct free" "\<forall>x \<in> set free. h_list h x = None \<and> x < h_fresh h"
    "\<forall>x \<ge> h_fresh h. h_list h x = None"
proof (cases "freeList lh = []")
  case True
  let ?h = "hm_heap lh"
  let ?e = "h_fresh ?h"
  obtain h where ne: "new_element ?h = (h, ?e)" by (simp add: new_element_def Let_def)
  have lt: "\<forall>x \<in> set (entryList lh # xs). x < ?e" using hm_okD(1) [OF ok] by (simp add: linked_def)
  have fr: "\<forall>x \<ge> ?e. h_list ?h x = None" using ok by (simp add: hm_ok_def)
  have c: "cycle (h_next ?h) (h_prev ?h) (entryList lh) xs" using hm_okD(1) [OF ok] by (simp add: linked_def)
  have "cycle ((h_next ?h)(?e := None)) ((h_prev ?h)(?e := None)) (entryList lh) xs"
    using c lt by (subst cycle_upd) auto
  then have "linked h (entryList lh) xs" using hm_okD(1) [OF ok] ne lt fr
    by (auto simp: new_element_def Let_def linked_def less_Suc_eq split: if_splits)
  then show thesis using that [of h ?e "[]"] True ne lt fr by (auto simp: new_element_def Let_def)
next
  case False
  let ?e = "last (freeList lh)"
  have fl: "freeList lh = butlast (freeList lh) @ [?e]" using False by simp
  have "?e \<in> set (freeList lh)" "\<forall>x \<in> set (butlast (freeList lh)). x \<in> set (freeList lh)" using False by (auto dest: in_set_butlastD)
  moreover have "distinct (butlast (freeList lh))" "?e \<notin> set (butlast (freeList lh))"
    using ok distinct_append [of "butlast (freeList lh)" "[?e]"] False by (auto simp: hm_ok_def)
  ultimately show thesis using that [of "hm_heap lh" ?e "butlast (freeList lh)"] False ok by (auto simp: hm_ok_def)
qed

lemma hm_Put_new:
  assumes ok: "hm_ok lh xs" and k: "entryMap lh k = None"
  shows "\<exists>lh'. hm_Put k v lh = Some lh' \<and> hm_rep lh' (entries_of (hm_heap lh) xs @ [(k, v)])"
proof -
  obtain h e free where f: "(if freeList lh \<noteq> [] then (hm_heap lh, last (freeList lh), butlast (freeList lh))
      else case new_element (hm_heap lh) of (h, e) \<Rightarrow> (h, e, freeList lh)) = (h, e, free)"
    and h: "linked h (entryList lh) xs" "h_list h e = None" "e < h_fresh h" "e \<notin> set free"
    "\<forall>x \<in> set xs. h_Value h x = h_Value (hm_heap lh) x" and fr: "distinct free" "\<forall>x \<in> set free. h_list h x = None \<and> x < h_fresh h"
    "\<forall>x \<ge> h_fresh h. h_list h x = None" by (rule hm_fresh_element [OF ok])
  define h1 where "h1 = h\<lparr>h_Value := (h_Value h)(e \<mapsto> (k, v))\<rparr>"
  have "linked h1 (entryList lh) xs" "h_list h1 e = None" "e < h_fresh h1" using h by (simp_all add: h1_def)
  from linked_PushBack [OF this] obtain h2 where p: "elem_PushBack (entryList lh) e h1 = Some h2"
    "linked h2 (entryList lh) (xs @ [e])" "same_outside h1 h2 (entryList lh) (set (xs @ [e]))" by blast
  have ex: "e \<notin> set (entryList lh # xs)" using linked_list [OF h(1), of e] h(2) by auto
  have v2: "h_Value h2 = (h_Value h)(e \<mapsto> (k, v))" "h_fresh h2 = h_fresh h" using p(3) by (simp_all add: same_outside_def h1_def)
  have l2: "h_list h2 x = None" if "h_list h x = None" "x \<noteq> e" for x
  proof -
    have "x \<notin> set (entryList lh # xs)" using linked_list [OF h(1), of x] that(1) by auto
    with that p(3) show ?thesis by (simp add: same_outside_def h1_def)
  qed
  define lh' where "lh' = lh\<lparr>hm_heap := h2, entryMap := (entryMap lh)(k \<mapsto> e), freeList := free\<rparr>"
  have "((entryMap lh)(k \<mapsto> e)) k' = Some e' \<longleftrightarrow> e' \<in> set (xs @ [e]) \<and> (\<exists>w. h_Value h2 e' = Some (k', w))" for k' e'
  proof (cases "e' = e")
    case True
    have "entryMap lh k' \<noteq> Some e" for k' using hm_okD(3) [OF ok, of k' e] ex by auto
    with True show ?thesis by (auto simp: v2)
  next
    case False
    have "entryMap lh k' = Some e' \<longleftrightarrow> e' \<in> set xs \<and> (\<exists>w. h_Value h e' = Some (k', w))"
      using hm_okD(3) [OF ok, of k' e'] h(5) by auto
    with False k show ?thesis by (auto simp: v2)
  qed
  moreover have "\<forall>x \<in> set (xs @ [e]). h_Value h2 x \<noteq> None" using hm_okD(2) [OF ok] h(5) ex by (auto simp: v2)
  moreover have "\<forall>x \<in> set free. h_list h2 x = None \<and> x < h_fresh h2" "\<forall>x \<ge> h_fresh h2. h_list h2 x = None"
    using fr h(3,4) l2 unfolding v2(2) by (metis, metis not_less)
  ultimately have "hm_ok lh' (xs @ [e])" using p(2) fr(1) by (simp add: hm_ok_def lh'_def)
  moreover have "entries_of h2 xs = entries_of (hm_heap lh) xs" by (rule entries_cong) (use h(5) ex in \<open>auto simp: v2\<close>)
  then have "entries_of (hm_heap lh') (xs @ [e]) = entries_of (hm_heap lh) xs @ [(k, v)]" by (simp add: lh'_def v2)
  ultimately have "hm_rep lh' (entries_of (hm_heap lh) xs @ [(k, v)])" unfolding hm_rep_def by metis
  then show ?thesis using k f p(1) by (auto simp: hm_Put_def lh'_def h1_def)
qed

lemma hm_Put_rep:
  assumes "hm_rep lh es"
  shows "\<exists>lh'. hm_Put k v lh = Some lh' \<and> hm_rep lh' (del_key k es @ [(k, v)])"
proof -
  from assms obtain xs where ok: "hm_ok lh xs" and es: "es = entries_of (hm_heap lh) xs" by (auto simp: hm_rep_def)
  show ?thesis
  proof (cases "entryMap lh k")
    case None
    then have "k \<notin> fst ` set es" using hm_keys(2) [OF ok] es by auto
    with hm_Put_new [OF ok None, of v] es show ?thesis by simp
  next
    case (Some e)
    then show ?thesis using hm_Put_old [OF ok] es by blast
  qed
qed

lemma hm_remove_ok:
  assumes ok: "hm_ok lh xs" and e: "entryMap lh k = Some e"
  shows "\<exists>lh' ys zs. hm_remove e lh = Some lh' \<and> xs = ys @ e # zs \<and> hm_ok lh' (ys @ zs) \<and>
    entries_of (hm_heap lh') (ys @ zs) = del_key k (entries_of (hm_heap lh) xs)"
proof -
  from hm_split [OF ok e] obtain ys zs v where xs: "xs = ys @ e # zs" "h_Value (hm_heap lh) e = Some (k, v)"
    and d: "del_key k (entries_of (hm_heap lh) xs) = entries_of (hm_heap lh) (ys @ zs)" by blast
  from list_Remove_linked [OF hm_okD(1) [OF ok, unfolded xs(1)]] obtain h where
    h: "list_Remove (entryList lh) e (hm_heap lh) = Some h" "linked h (entryList lh) (ys @ zs)"
      "same_outside (hm_heap lh) h (entryList lh) (set xs)" "h_list h e = None" by (auto simp: xs)
  have dist: "distinct (entryList lh # xs)" using linked_distinct [OF hm_okD(1) [OF ok]] .
  have val: "h_Value h = h_Value (hm_heap lh)" "h_fresh h = h_fresh (hm_heap lh)" using h(3) by (simp_all add: same_outside_def)
  have l2: "h_list h x = None" if "h_list (hm_heap lh) x = None" for x
  proof -
    have "x \<notin> set (entryList lh # xs)" using linked_list [OF hm_okD(1) [OF ok], of x] that by auto
    with that h(3) show ?thesis by (simp add: same_outside_def)
  qed
  define lh' where "lh' = lh\<lparr>entryMap := (entryMap lh)(k := None), hm_heap := h\<lparr>h_Value := (h_Value h)(e := None)\<rparr>, freeList := freeList lh @ [e]\<rparr>"
  have "((entryMap lh)(k := None)) k' = Some e' \<longleftrightarrow> e' \<in> set (ys @ zs) \<and> (\<exists>w. ((h_Value h)(e := None)) e' = Some (k', w))" for k' e'
    using hm_okD(3) [OF ok, of k' e'] hm_okD(3) [OF ok, of k e'] e dist val by (auto simp: xs)
  moreover have "\<forall>x \<in> set (ys @ zs). ((h_Value h)(e := None)) x \<noteq> None" using hm_okD(2) [OF ok] val dist by (auto simp: xs)
  moreover have "h_list (hm_heap lh) e = Some (entryList lh)" using linked_list [OF hm_okD(1) [OF ok], of e] by (simp add: xs)
  then have "e \<notin> set (freeList lh)" using ok by (auto simp: hm_ok_def)
  moreover have "e < h_fresh (hm_heap lh)" using hm_okD(1) [OF ok] by (simp add: linked_def xs)
  ultimately have "hm_ok lh' (ys @ zs)" using h(2,4) ok val l2 by (simp add: hm_ok_def lh'_def)
  moreover have "entries_of (hm_heap lh') (ys @ zs) = entries_of (hm_heap lh) (ys @ zs)"
    by (rule entries_cong) (use dist val in \<open>auto simp: lh'_def xs\<close>)
  moreover have "hm_remove e lh = Some lh'" using h(1) xs(2) by (simp add: hm_remove_def lh'_def)
  ultimately show ?thesis using xs(1) d by (intro exI [of _ lh'] exI [of _ ys] exI [of _ zs]) simp
qed

lemma hm_remove_rep:
  assumes "hm_ok lh xs" and "entryMap lh k = Some e"
  shows "\<exists>lh'. hm_remove e lh = Some lh' \<and> hm_rep lh' (del_key k (entries_of (hm_heap lh) xs))"
  using hm_remove_ok [OF assms] unfolding hm_rep_def by metis

lemma hm_Delete_rep:
  assumes "hm_rep lh es"
  shows "\<exists>lh'. hm_Delete k lh = Some (lh', k \<in> fst ` set es) \<and> hm_rep lh' (del_key k es)"
proof -
  from assms obtain xs where ok: "hm_ok lh xs" and es: "es = entries_of (hm_heap lh) xs" by (auto simp: hm_rep_def)
  note keys = hm_keys(2) [OF ok, folded es]
  show ?thesis
  proof (cases "entryMap lh k")
    case None
    with keys assms have "k \<notin> fst ` set es" by auto
    with None assms show ?thesis by (simp add: hm_Delete_def)
  next
    case (Some e)
    from hm_remove_rep [OF ok Some] obtain lh' where "hm_remove e lh = Some lh'" "hm_rep lh' (del_key k es)" by (auto simp: es)
    moreover have "k \<in> fst ` set es" using Some keys by blast
    ultimately show ?thesis using Some by (simp add: hm_Delete_def)
  qed
qed

lemma hm_rep_dom: "hm_rep lh es \<Longrightarrow> dom (entryMap lh) = fst ` set es"
  unfolding hm_rep_def using hm_keys(2) by blast

lemma hm_Clear_rep: "hm_rep lh es \<Longrightarrow> \<exists>lh'. hm_Clear ks lh = Some lh' \<and> hm_rep lh' (filter (\<lambda>p. fst p \<notin> set ks) es)"
proof (induction ks arbitrary: lh es)
  case (Cons k ks)
  show ?case
  proof (cases "entryMap lh k")
    case None
    then have "k \<notin> fst ` set es" using hm_rep_dom [OF Cons.prems] by auto
    then have "filter (\<lambda>p. fst p \<notin> set (k # ks)) es = filter (\<lambda>p. fst p \<notin> set ks) es" by (intro filter_cong) auto
    with Cons.IH [OF Cons.prems] None show ?thesis by simp
  next
    case (Some e)
    from Cons.prems obtain xs where ok: "hm_ok lh xs" and es: "es = entries_of (hm_heap lh) xs" by (auto simp: hm_rep_def)
    from hm_remove_rep [OF ok Some] obtain lh1 where r: "hm_remove e lh = Some lh1" "hm_rep lh1 (del_key k es)" by (auto simp: es)
    from Cons.IH [OF r(2)] r(1) Some show ?thesis by (auto simp: del_key_def conj_commute)
  qed
qed simp

lemma hm_ends:
  assumes "hm_rep lh es"
  shows "hm_Oldest lh = (case es of [] \<Rightarrow> None | p # _ \<Rightarrow> Some p)" "hm_Newest lh = (if es = [] then None else Some (last es))"
    "hm_Len lh = int (length es)"
proof -
  from assms obtain xs where ok: "hm_ok lh xs" and es: "es = entries_of (hm_heap lh) xs" by (auto simp: hm_rep_def)
  have v: "e \<in> set xs \<Longrightarrow> h_Value (hm_heap lh) e = Some (the (h_Value (hm_heap lh) e))" for e using hm_okD(2) [OF ok] by fastforce
  show "hm_Oldest lh = (case es of [] \<Rightarrow> None | p # _ \<Rightarrow> Some p)"
    using linked_Front [OF hm_okD(1) [OF ok]] v by (cases xs) (auto simp: hm_Oldest_def es)
  show "hm_Newest lh = (if es = [] then None else Some (last es))"
    using linked_Back [OF hm_okD(1) [OF ok]] v by (cases xs rule: rev_cases) (auto simp: hm_Newest_def es)
  show "hm_Len lh = int (length es)"
    using hm_keys [OF ok, folded es] distinct_card [of "map fst es"] by (simp add: hm_Len_def)
qed

lemma hm_rep_distinct: "hm_rep lh es \<Longrightarrow> distinct (map fst es)"
  unfolding hm_rep_def using hm_keys(1) by blast

lemma alloc_list: "alloc_elements n h = (h', es) \<Longrightarrow> h_list h x = None \<Longrightarrow> h_list h' x = None"
  by (induction n arbitrary: h es) (auto simp: new_element_def Let_def split: prod.splits)

lemma alloc_elements_ok:
  assumes "alloc_elements n h = (h', es)" and "linked h l []" and "\<forall>x \<ge> h_fresh h. h_list h x = None"
  shows "linked h' l [] \<and> (\<forall>x \<ge> h_fresh h'. h_list h' x = None) \<and> distinct es \<and> h_fresh h \<le> h_fresh h' \<and>
    (\<forall>x \<in> set es. h_list h' x = None \<and> h_fresh h \<le> x \<and> x < h_fresh h')"
  using assms
proof (induction n arbitrary: h es)
  case (Suc n)
  define h1 where "h1 = fst (new_element h)"
  obtain es1 where r: "alloc_elements n h1 = (h', es1)" "es = h_fresh h # es1"
    using Suc.prems(1) by (auto simp: h1_def new_element_def Let_def split: prod.splits)
  have l: "l < h_fresh h" using Suc.prems(2) by (simp add: linked_def)
  have "linked h1 l []" "\<forall>x \<ge> h_fresh h1. h_list h1 x = None" "h_fresh h1 = Suc (h_fresh h)"
    using Suc.prems(2,3) l by (auto simp: h1_def new_element_def Let_def linked_def cycle_def split: if_splits)
  moreover from this have IH: "linked h' l []" "\<forall>x \<ge> h_fresh h'. h_list h' x = None" "distinct es1" "h_fresh h1 \<le> h_fresh h'"
    "\<forall>x \<in> set es1. h_list h' x = None \<and> h_fresh h1 \<le> x \<and> x < h_fresh h'" using Suc.IH [OF r(1)] by blast+
  moreover have "h_list h' (h_fresh h) = None" using alloc_list [OF r(1)] by (simp add: h1_def new_element_def Let_def)
  ultimately show ?case by (force simp: r(2))
qed auto

lemma hm_rep_New: "hm_rep (NewHashmapWithSize n :: ('a, 'b) Hashmap) []"
proof -
  obtain h l where n: "NewList (empty_heap :: ('a \<times> 'b) heap) = (h, l)" by fastforce
  have "linked h l []" "\<forall>x \<ge> h_fresh h. h_list h x = None"
    using n by (auto simp: NewList_def new_element_def empty_heap_def Let_def linked_def cycle_def split: if_splits)
  moreover obtain h' es where "alloc_elements n h = (h', es)" by fastforce
  moreover from this n have "(NewHashmapWithSize n :: ('a, 'b) Hashmap) = \<lparr>hm_heap = h', entryMap = Map.empty, entryList = l, freeList = es\<rparr>"
    by (simp add: NewHashmapWithSize_def)
  ultimately have "hm_ok (NewHashmapWithSize n :: ('a, 'b) Hashmap) []" using alloc_elements_ok [of n h h' es l] by (simp add: hm_ok_def)
  then show ?thesis unfolding hm_rep_def by force
qed

section \<open>The interface\<close>

locale ordered_map =
  fixes new :: 'm
    and put :: "'k \<Rightarrow> 'v \<Rightarrow> 'm \<Rightarrow> 'm option"
    and get :: "'k \<Rightarrow> 'm \<Rightarrow> 'v option"
    and delete :: "'k \<Rightarrow> 'm \<Rightarrow> ('m \<times> bool) option"
    and clear :: "'k list \<Rightarrow> 'm \<Rightarrow> 'm option"
    and len :: "'m \<Rightarrow> int"
    and oldest :: "'m \<Rightarrow> ('k \<times> 'v) option"
    and rep :: "'m \<Rightarrow> ('k \<times> 'v) list \<Rightarrow> bool"
  assumes rep_new: "rep new []"
    and rep_distinct: "rep m es \<Longrightarrow> distinct (map fst es)"
    and rep_put: "rep m es \<Longrightarrow> \<exists>m'. put k v m = Some m' \<and> rep m' (del_key k es @ [(k, v)])"
    and rep_get: "rep m es \<Longrightarrow> get k m = map_of es k"
    and rep_delete: "rep m es \<Longrightarrow> \<exists>m'. delete k m = Some (m', k \<in> fst ` set es) \<and> rep m' (del_key k es)"
    and rep_clear: "rep m es \<Longrightarrow> \<exists>m'. clear ks m = Some m' \<and> rep m' (filter (\<lambda>p. fst p \<notin> set ks) es)"
    and rep_len: "rep m es \<Longrightarrow> len m = int (length es)"
    and rep_oldest: "rep m es \<Longrightarrow> oldest m = (case es of [] \<Rightarrow> None | p # _ \<Rightarrow> Some p)"
begin

lemma delete_oldest:
  assumes "rep m ((k, v) # es)"
  shows "\<exists>m'. delete k m = Some (m', True) \<and> rep m' es"
proof -
  have "k \<notin> fst ` set es" using rep_distinct [OF assms] by auto
  with rep_delete [OF assms, of k] show ?thesis by simp
qed

lemma clear_all: "rep m es \<Longrightarrow> set ks = fst ` set es \<Longrightarrow> \<exists>m'. clear ks m = Some m' \<and> rep m' []"
  using rep_clear [of m es ks] by (auto simp: filter_empty_conv)

lemma put_get:
  assumes "rep m es" and "put k v m = Some m'"
  shows "get k' m' = (if k' = k then Some v else get k' m)" and "len m' = (if get k m = None then len m + 1 else len m)"
proof -
  from rep_put [OF assms(1), of k v] assms(2) have r: "rep m' (del_key k es @ [(k, v)])" by auto
  show "get k' m' = (if k' = k then Some v else get k' m)"
    using rep_get [OF r] rep_get [OF assms(1)] by (simp add: map_add_def map_of_del_key split: option.splits)
  have "length (del_key k es) = (if k \<in> fst ` set es then length es - 1 else length es) \<and> (k \<in> fst ` set es \<longrightarrow> es \<noteq> [])"
    using rep_distinct [OF assms(1)] by (induction es) (auto simp: Suc_pred)
  then show "len m' = (if get k m = None then len m + 1 else len m)"
    using rep_len [OF r] rep_len [OF assms(1)] rep_get [OF assms(1), of k] map_of_eq_None_iff [of es k]
    by (cases "k \<in> fst ` set es"; cases es) (simp_all add: of_nat_diff)
qed

end

interpretation hm: ordered_map NewHashmap hm_Put hm_Get hm_Delete hm_Clear hm_Len hm_Oldest hm_rep
  by unfold_locales
    (simp_all add: NewHashmap_def hm_rep_New hm_rep_distinct hm_Put_rep hm_Get_rep hm_Delete_rep hm_Clear_rep hm_ends)

section \<open>Iterating and deleting\<close>

text \<open>The iterator is about to deliver the elements \<open>xs\<close>, which are all that is left in the map.\<close>

definition iter_at :: "('k, 'v) Iterator \<Rightarrow> ref list \<Rightarrow> bool" where
  "iter_at it xs \<longleftrightarrow> (if it_initialized it then it_next it = (case xs of [] \<Rightarrow> None | x # _ \<Rightarrow> Some x) \<and> it_exhausted it = (xs = [])
     else \<not> it_exhausted it)"

lemma iter_at_New [simp]: "iter_at NewIterator xs"
  by (simp add: iter_at_def NewIterator_def)

lemma iter_Next_end: "hm_ok lh [] \<Longrightarrow> iter_at it [] \<Longrightarrow> \<exists>it'. iter_Next lh it = Some (it', False)"
  using linked_Front [OF hm_okD(1), of lh "[]"] by (auto simp: iter_at_def iter_Next_def split: if_splits)

lemma iter_Next_at:
  assumes ok: "hm_ok lh (x # xs)" and it: "iter_at it (x # xs)"
  shows "\<exists>it' k v. iter_Next lh it = Some (it', True) \<and> it_entry it' = Some (k, v) \<and> the (h_Value (hm_heap lh) x) = (k, v) \<and> iter_at it' xs"
proof -
  have f: "Front (entryList lh) (hm_heap lh) = Some x" using linked_Front [OF hm_okD(1) [OF ok]] by simp
  have n: "elem_Next x (hm_heap lh) = (case xs of [] \<Rightarrow> None | x # _ \<Rightarrow> Some x)"
    using linked_Next(1) [of "hm_heap lh" "entryList lh" "[]" x xs] hm_okD(1) [OF ok] by simp
  from hm_okD(2) [OF ok, of x] obtain k v where v: "h_Value (hm_heap lh) x = Some (k, v)" by auto
  show ?thesis using it f n v
    by (cases xs) (auto simp: iter_Next_def iter_step_def iter_at_def Let_def split: if_splits)
qed

lemma iter_delete:
  assumes ok: "hm_ok lh (x # xs)" and v: "the (h_Value (hm_heap lh) x) = (k, v)"
  shows "\<exists>lh'. hm_Delete k lh = Some (lh', True) \<and> hm_ok lh' xs \<and> entries_of (hm_heap lh') xs = entries_of (hm_heap lh) xs"
proof -
  have e: "entryMap lh k = Some x" using entry_key [OF ok, of x] v by simp
  from hm_remove_ok [OF ok e] obtain lh' ys zs where r: "hm_remove x lh = Some lh'" "x # xs = ys @ x # zs" "hm_ok lh' (ys @ zs)"
    "entries_of (hm_heap lh') (ys @ zs) = del_key k (entries_of (hm_heap lh) (x # xs))" by blast
  have "x \<notin> set xs" using linked_distinct [OF hm_okD(1) [OF ok]] by simp
  with r(2) have "ys = []" "zs = xs" by (auto simp: Cons_eq_append_conv)
  moreover have "k \<notin> fst ` set (entries_of (hm_heap lh) xs)" using hm_keys(1) [OF ok] v by auto
  ultimately show ?thesis using r e v by (auto simp: hm_Delete_def)
qed

text \<open>
  C39. The linked hashmap is a map that keeps its entries in the order of their last insertion, however
  elements are reused: a lookup finds the latest value, \<^verbatim>\<open>Put\<close> moves the key to the newest position,
  \<^verbatim>\<open>Delete\<close> reports whether the key was there, \<^verbatim>\<open>Oldest\<close> and \<^verbatim>\<open>Newest\<close> are the ends, and no call
  dereferences nil.
\<close>

theorem hashmap_refines:
  assumes "hm_rep lh es"
  shows "hm_Get k lh = map_of es k \<and> hm_Len lh = int (length es) \<and> distinct (map fst es) \<and>
    hm_Oldest lh = (case es of [] \<Rightarrow> None | p # _ \<Rightarrow> Some p) \<and> hm_Newest lh = (if es = [] then None else Some (last es)) \<and>
    (\<exists>lh'. hm_Put k v lh = Some lh' \<and> hm_rep lh' (del_key k es @ [(k, v)])) \<and>
    (\<exists>lh'. hm_Delete k lh = Some (lh', k \<in> fst ` set es) \<and> hm_rep lh' (del_key k es)) \<and>
    (\<forall>ks. set ks = fst ` set es \<longrightarrow> (\<exists>lh'. hm_Clear ks lh = Some lh' \<and> hm_rep lh' []))"
  using assms hm_Get_rep [OF assms] hm_ends [OF assms] hm_rep_distinct [OF assms] hm_Put_rep [OF assms] hm_Delete_rep [OF assms]
    hm.clear_all [OF assms] by blast

theorem hashmap_refines_witness:
  "\<exists>lh. hm_Put True (3 :: nat) (NewHashmapWithSize 1) = Some lh \<and> hm_rep lh [(True, 3)] \<and> hm_Get True lh = Some 3 \<and> hm_Len lh = 1"
proof -
  from hm_Put_rep [OF hm_rep_New, of True 3 1] obtain lh where lh: "hm_Put True (3 :: nat) (NewHashmapWithSize 1) = Some lh" "hm_rep lh [(True, 3)]"
    by auto
  with hashmap_refines [OF lh(2), of True 0] show ?thesis by auto
qed

end
