(* ===== verification/PollSet.thy ===== *)
theory PollSet
  imports EarlyTermPoll LinkedHashmap
begin

text \<open>
  default/snow/consensus/snowman/poll/set.go: the outstanding polls, in the order in which they were started. A
  poll is an object behind a pointer that \<^verbatim>\<open>Vote\<close> and \<^verbatim>\<open>Drop\<close> change in place; the linked hashmap has the pointers,
  \<open>ps_objects\<close> the objects. The methods of the interface \<^verbatim>\<open>Poll\<close> and of its factory are the argument
  \<open>M\<close> of each call, since what \<^verbatim>\<open>Finished\<close> answers depends on the block tree at that time. The abstract
  specification is a queue of polls.
\<close>

section \<open>Model\<close>

type_synonym uint32 = "32 word"

record 'p PollMethods =
  m_New :: "NodeID bag \<Rightarrow> 'p"
  m_Vote :: "NodeID \<Rightarrow> ID \<Rightarrow> 'p \<Rightarrow> 'p"
  m_Drop :: "NodeID \<Rightarrow> 'p \<Rightarrow> 'p"
  m_Finished :: "'p \<Rightarrow> ('p \<times> bool) option"
  m_Result :: "'p \<Rightarrow> ID bag"

record 'p pollset =
  ps_polls :: "(uint32, nat) Hashmap"
  ps_objects :: "'p list"

definition NewSet :: "'p pollset" where
  "NewSet = \<lparr>ps_polls = NewHashmap, ps_objects = []\<rparr>"

definition set_Add :: "'p PollMethods \<Rightarrow> uint32 \<Rightarrow> NodeID bag \<Rightarrow> 'p pollset \<Rightarrow> ('p pollset \<times> bool) option" where
  "set_Add M requestID vdrs s =
     (if hm_Get requestID (ps_polls s) \<noteq> None then Some (s, False)
      else do {
        polls \<leftarrow> hm_Put requestID (length (ps_objects s)) (ps_polls s);
        Some (s\<lparr>ps_polls := polls, ps_objects := ps_objects s @ [m_New M vdrs]\<rparr>, True)
      })"

text \<open>\<^verbatim>\<open>p.Finished()\<close> on the poll at \<open>r\<close>, which may set its flag.\<close>

definition call_Finished :: "'p PollMethods \<Rightarrow> nat \<Rightarrow> 'p pollset \<Rightarrow> ('p pollset \<times> bool) option" where
  "call_Finished M r s = do {
     (p, b) \<leftarrow> m_Finished M (ps_objects s ! r);
     Some (s\<lparr>ps_objects := (ps_objects s)[r := p]\<rparr>, b)
   }"

partial_function (option) process_loop :: "'p PollMethods \<Rightarrow> (uint32, nat) Iterator \<Rightarrow> ID bag list \<Rightarrow> 'p pollset \<Rightarrow> ('p pollset \<times> ID bag list) option" where
  [code]: "process_loop M iter results s = do {
     (iter, more) \<leftarrow> iter_Next (ps_polls s) iter;
     if \<not> more then Some (s, results)
     else do {
       (k, r) \<leftarrow> it_entry iter;
       (s, finished) \<leftarrow> call_Finished M r s;
       if \<not> finished then Some (s, results)
       else do {
         let results = results @ [m_Result M (ps_objects s ! r)];
         (polls, _) \<leftarrow> hm_Delete k (ps_polls s);
         process_loop M iter results (s\<lparr>ps_polls := polls\<rparr>)
       }
     }
   }"

definition processFinishedPolls :: "'p PollMethods \<Rightarrow> 'p pollset \<Rightarrow> ('p pollset \<times> ID bag list) option" where
  "processFinishedPolls M s = process_loop M NewIterator [] s"

definition set_Vote :: "'p PollMethods \<Rightarrow> uint32 \<Rightarrow> NodeID \<Rightarrow> ID \<Rightarrow> 'p pollset \<Rightarrow> ('p pollset \<times> ID bag list) option" where
  "set_Vote M requestID vdr vote s =
     (case hm_Get requestID (ps_polls s) of
        None \<Rightarrow> Some (s, [])
      | Some r \<Rightarrow> do {
          let s = s\<lparr>ps_objects := (ps_objects s)[r := m_Vote M vdr vote (ps_objects s ! r)]\<rparr>;
          (s, finished) \<leftarrow> call_Finished M r s;
          if \<not> finished then Some (s, []) else processFinishedPolls M s
        })"

definition set_Drop :: "'p PollMethods \<Rightarrow> uint32 \<Rightarrow> NodeID \<Rightarrow> 'p pollset \<Rightarrow> ('p pollset \<times> ID bag list) option" where
  "set_Drop M requestID vdr s =
     (case hm_Get requestID (ps_polls s) of
        None \<Rightarrow> Some (s, [])
      | Some r \<Rightarrow> do {
          let s = s\<lparr>ps_objects := (ps_objects s)[r := m_Drop M vdr (ps_objects s ! r)]\<rparr>;
          (s, finished) \<leftarrow> call_Finished M r s;
          if \<not> finished then Some (s, []) else processFinishedPolls M s
        })"

definition set_Len :: "'p pollset \<Rightarrow> int" where
  "set_Len s = hm_Len (ps_polls s)"

section \<open>Specification: a queue of polls\<close>

type_synonym 'p pqueue = "(uint32 \<times> 'p) list"

definition fin :: "'p PollMethods \<Rightarrow> 'p \<Rightarrow> 'p \<times> bool" where
  "fin M p = the (m_Finished M p)"

text \<open>The finished polls at the front leave the queue.\<close>

fun flush :: "'p PollMethods \<Rightarrow> 'p pqueue \<Rightarrow> 'p pqueue \<times> (uint32 \<times> ID bag) list" where
  "flush M [] = ([], [])"
| "flush M ((k, p) # q) =
     (if snd (fin M p) then let (q', rs) = flush M q in (q', (k, m_Result M (fst (fin M p))) # rs)
      else ((k, fst (fin M p)) # q, []))"

definition change :: "uint32 \<Rightarrow> ('p \<Rightarrow> 'p) \<Rightarrow> 'p pqueue \<Rightarrow> 'p pqueue" where
  "change k f = map (\<lambda>(k', p). (k', if k' = k then f p else p))"

definition q_Add :: "'p PollMethods \<Rightarrow> uint32 \<Rightarrow> NodeID bag \<Rightarrow> 'p pqueue \<Rightarrow> 'p pqueue \<times> bool" where
  "q_Add M k vdrs q = (if k \<in> fst ` set q then (q, False) else (q @ [(k, m_New M vdrs)], True))"

definition q_respond :: "'p PollMethods \<Rightarrow> uint32 \<Rightarrow> ('p \<Rightarrow> 'p) \<Rightarrow> 'p pqueue \<Rightarrow> 'p pqueue \<times> (uint32 \<times> ID bag) list" where
  "q_respond M k f q =
     (case map_of q k of
        None \<Rightarrow> (q, [])
      | Some p \<Rightarrow>
          let q = change k (\<lambda>p. fst (fin M (f p))) q in
          if snd (fin M (f p)) then flush M q else (q, []))"

text \<open>The pointers of the entries lead to the polls of the queue.\<close>

definition obj_rep :: "'p list \<Rightarrow> (uint32 \<times> nat) list \<Rightarrow> 'p pqueue \<Rightarrow> bool" where
  "obj_rep objs es q \<longleftrightarrow> distinct (map snd es) \<and> (\<forall>r \<in> snd ` set es. r < length objs) \<and> q = map (\<lambda>(k, r). (k, objs ! r)) es"

definition set_rep :: "'p pollset \<Rightarrow> 'p pqueue \<Rightarrow> bool" where
  "set_rep s q \<longleftrightarrow> (\<exists>es. hm_rep (ps_polls s) es \<and> obj_rep (ps_objects s) es q)"

definition total_on :: "'p PollMethods \<Rightarrow> 'p pqueue \<Rightarrow> bool" where
  "total_on M q \<longleftrightarrow> (\<forall>p \<in> snd ` set q. m_Finished M p = Some (fin M p))"

lemma set_rep_New: "set_rep NewSet []"
  unfolding set_rep_def by (rule exI [of _ "[]"]) (simp add: NewSet_def NewHashmap_def hm_rep_New obj_rep_def)

lemma obj_rep_keys: "obj_rep objs es q \<Longrightarrow> map fst q = map fst es"
  by (auto simp: obj_rep_def)

lemma obj_rep_Cons:
  assumes "obj_rep objs ((k, r) # es) q"
  obtains q' where "q = (k, objs ! r) # q'" "r < length objs" "r \<notin> snd ` set es" "obj_rep objs es q'"
  using assms by (auto simp: obj_rep_def)

lemma obj_rep_update:
  assumes "obj_rep objs es q" "r \<notin> snd ` set es"
  shows "obj_rep (objs[r := p]) es q"
proof -
  have "objs[r := p] ! r' = objs ! r'" if "(k, r') \<in> set es" for k r'
  proof -
    have "r \<noteq> r'" using assms(2) that by force
    then show ?thesis by simp
  qed
  then show ?thesis using assms(1) by (auto simp: obj_rep_def)
qed

lemma process_loop_flush:
  assumes "hm_ok (ps_polls s) xs" "obj_rep (ps_objects s) (entries_of (hm_heap (ps_polls s)) xs) q" "iter_at it xs" "total_on M q"
  shows "\<exists>s'. process_loop M it rs s = Some (s', rs @ map snd (snd (flush M q))) \<and> set_rep s' (fst (flush M q))"
  using assms
proof (induction xs arbitrary: s q it rs)
  case Nil
  from iter_Next_end [OF Nil(1,3)] obtain it' where it': "iter_Next (ps_polls s) it = Some (it', False)" by blast
  have q: "q = []" using Nil(2) by (simp add: obj_rep_def)
  have "process_loop M it rs s = Some (s, rs)" by (subst process_loop.simps) (simp add: it')
  moreover have "set_rep s []" unfolding set_rep_def hm_rep_def using Nil(1,2) q by auto
  ultimately show ?case by (simp add: q)
next
  case (Cons x xs)
  let ?lh = "ps_polls s"
  from iter_Next_at [OF Cons.prems(1,3)] obtain it' k r where it': "iter_Next ?lh it = Some (it', True)" "it_entry it' = Some (k, r)"
    "the (h_Value (hm_heap ?lh) x) = (k, r)" "iter_at it' xs" by blast
  have "obj_rep (ps_objects s) ((k, r) # entries_of (hm_heap ?lh) xs) q" using Cons.prems(2) it'(3) by simp
  then obtain q' where q: "q = (k, ps_objects s ! r) # q'" and r: "r < length (ps_objects s)" "r \<notin> snd ` set (entries_of (hm_heap ?lh) xs)"
    and q': "obj_rep (ps_objects s) (entries_of (hm_heap ?lh) xs) q'" by (rule obj_rep_Cons)
  obtain p b where f: "fin M (ps_objects s ! r) = (p, b)" by fastforce
  have mf: "m_Finished M (ps_objects s ! r) = Some (p, b)" using Cons.prems(4) f by (simp add: total_on_def q)
  define s1 where "s1 = s\<lparr>ps_objects := (ps_objects s)[r := p]\<rparr>"
  have call: "call_Finished M r s = Some (s1, b)" by (simp add: call_Finished_def mf s1_def)
  have q1: "obj_rep (ps_objects s1) (entries_of (hm_heap ?lh) xs) q'" using obj_rep_update [OF q' r(2)] by (simp add: s1_def)
  show ?case
  proof (cases b)
    case False
    have "obj_rep (ps_objects s1) (entries_of (hm_heap ?lh) (x # xs)) ((k, p) # q')"
      using q1 r it'(3) by (simp add: obj_rep_def s1_def)
    then have "set_rep s1 ((k, p) # q')" unfolding set_rep_def hm_rep_def using Cons.prems(1) by (auto simp: s1_def)
    moreover have "process_loop M it rs s = Some (s1, rs)" by (subst process_loop.simps) (simp add: it' call False)
    ultimately show ?thesis using f False by (simp add: q)
  next
    case True
    from iter_delete [OF Cons.prems(1) it'(3)] obtain lh' where d: "hm_Delete k ?lh = Some (lh', True)" "hm_ok lh' xs"
      "entries_of (hm_heap lh') xs = entries_of (hm_heap ?lh) xs" by blast
    define s2 where "s2 = s1\<lparr>ps_polls := lh'\<rparr>"
    have "total_on M q'" using Cons.prems(4) by (auto simp: total_on_def q)
    with Cons.IH [of s2 q' it' "rs @ [m_Result M p]"] d q1 it'(4) obtain s' where
      s': "process_loop M it' (rs @ [m_Result M p]) s2 = Some (s', (rs @ [m_Result M p]) @ map snd (snd (flush M q')))"
        "set_rep s' (fst (flush M q'))" by (auto simp: s2_def s1_def)
    have "process_loop M it rs s = process_loop M it' (rs @ [m_Result M p]) s2"
      by (subst process_loop.simps) (use r(1) d(1) in \<open>simp add: it' call True s1_def s2_def\<close>)
    with s' f True show ?thesis by (simp add: q case_prod_beta)
  qed
qed

lemma processFinishedPolls_flush:
  assumes "set_rep s q" "total_on M q"
  shows "\<exists>s'. processFinishedPolls M s = Some (s', map snd (snd (flush M q))) \<and> set_rep s' (fst (flush M q))"
proof -
  from assms(1) obtain xs where "hm_ok (ps_polls s) xs" "obj_rep (ps_objects s) (entries_of (hm_heap (ps_polls s)) xs) q"
    by (auto simp: set_rep_def hm_rep_def)
  from process_loop_flush [OF this iter_at_New assms(2), of "[]"] show ?thesis by (simp add: processFinishedPolls_def)
qed

lemma set_Add_queue:
  assumes "set_rep s q"
  shows "\<exists>s'. set_Add M k vdrs s = Some (s', snd (q_Add M k vdrs q)) \<and> set_rep s' (fst (q_Add M k vdrs q))"
proof -
  from assms obtain es where h: "hm_rep (ps_polls s) es" and o: "obj_rep (ps_objects s) es q" by (auto simp: set_rep_def)
  have keys: "fst ` set q = fst ` set es" using obj_rep_keys [OF o] by (metis set_map)
  have get: "hm_Get k (ps_polls s) = map_of es k" by (rule hm_Get_rep [OF h])
  show ?thesis
  proof (cases "k \<in> fst ` set es")
    case True
    then have "map_of es k \<noteq> None" by (metis map_of_eq_None_iff)
    with True keys get assms show ?thesis by (simp add: set_Add_def q_Add_def)
  next
    case False
    then have "map_of es k = None" by (metis map_of_eq_None_iff)
    moreover from hm_Put_rep [OF h, of k "length (ps_objects s)"] False obtain lh where
      lh: "hm_Put k (length (ps_objects s)) (ps_polls s) = Some lh" "hm_rep lh (es @ [(k, length (ps_objects s))])" by auto
    moreover have "obj_rep (ps_objects s @ [m_New M vdrs]) (es @ [(k, length (ps_objects s))]) (q @ [(k, m_New M vdrs)])"
      using o by (fastforce simp: obj_rep_def nth_append)
    ultimately show ?thesis using False keys get by (auto simp: set_Add_def q_Add_def set_rep_def)
  qed
qed

lemma obj_rep_change:
  assumes o: "obj_rep objs es q" and d: "distinct (map fst es)" and r: "(k, r) \<in> set es"
  shows "obj_rep (objs[r := f (objs ! r)]) es (change k f q)" "map_of q k = Some (objs ! r)"
proof -
  have eq: "r' = r \<longleftrightarrow> k' = k" if "(k', r') \<in> set es" for k' r'
  proof
    have i: "inj_on snd (set es)" using o by (simp add: obj_rep_def distinct_map)
    show "r' = r \<Longrightarrow> k' = k" using inj_onD [OF i, of "(k', r')" "(k, r)"] that r by simp
    show "k' = k \<Longrightarrow> r' = r" using eq_key_imp_eq_value [OF d, of k r r'] that r by simp
  qed
  show "obj_rep (objs[r := f (objs ! r)]) es (change k f q)"
  proof -
    have "objs[r := f (objs ! r)] ! r' = (if k' = k then f (objs ! r') else objs ! r')" if "(k', r') \<in> set es" for k' r'
    proof -
      have "r' < length objs" using o that by (force simp: obj_rep_def)
      then show ?thesis using eq [OF that] by (auto simp: nth_list_update)
    qed
    then show ?thesis using o by (auto simp: obj_rep_def change_def)
  qed
  have "(k, objs ! r) \<in> set q" "distinct (map fst q)" using o r d obj_rep_keys [OF o] by (force simp: obj_rep_def, simp)
  then show "map_of q k = Some (objs ! r)" by simp
qed

lemma change_change: "change k g (change k f q) = change k (\<lambda>p. g (f p)) q"
  by (auto simp: change_def)

lemma respond_queue:
  assumes s: "set_rep s q" and t: "total_on M (change k f q)" "total_on M (change k (\<lambda>p. fst (fin M (f p))) q)"
    and r: "hm_Get k (ps_polls s) = Some r"
  shows "\<exists>s'. (do { (s, finished) \<leftarrow> call_Finished M r (s\<lparr>ps_objects := (ps_objects s)[r := f (ps_objects s ! r)]\<rparr>);
       if \<not> finished then Some (s, []) else processFinishedPolls M s }) = Some (s', map snd (snd (q_respond M k f q))) \<and>
    set_rep s' (fst (q_respond M k f q))"
proof -
  from s obtain es where h: "hm_rep (ps_polls s) es" and o: "obj_rep (ps_objects s) es q" by (auto simp: set_rep_def)
  have d: "distinct (map fst es)" by (rule hm_rep_distinct [OF h])
  have kr: "(k, r) \<in> set es" using r hm_Get_rep [OF h, of k] by (auto dest: map_of_SomeD)
  let ?p = "f (ps_objects s ! r)"
  note c = obj_rep_change [OF o d kr]
  have rl: "r < length (ps_objects s)" using o kr by (force simp: obj_rep_def)
  have "?p \<in> snd ` set (change k f q)" using map_of_SomeD [OF c(2)] by (force simp: change_def image_image)
  then have mf: "m_Finished M ?p = Some (fin M ?p)" using t(1) unfolding total_on_def by blast
  define s1 where "s1 = s\<lparr>ps_objects := (ps_objects s)[r := fst (fin M ?p)]\<rparr>"
  have call: "call_Finished M r (s\<lparr>ps_objects := (ps_objects s)[r := ?p]\<rparr>) = Some (s1, snd (fin M ?p))"
    using mf rl by (simp add: call_Finished_def s1_def case_prod_beta)
  have q1: "set_rep s1 (change k (\<lambda>p. fst (fin M (f p))) q)"
    unfolding set_rep_def using h obj_rep_change(1) [OF o d kr, of "\<lambda>p. fst (fin M (f p))"] by (auto simp: s1_def)
  show ?thesis
  proof (cases "snd (fin M ?p)")
    case False
    then show ?thesis using call q1 c(2) by (simp add: q_respond_def)
  next
    case True
    then show ?thesis using call processFinishedPolls_flush [OF q1 t(2)] c(2) by (simp add: q_respond_def)
  qed
qed

section \<open>Sequences of calls\<close>

datatype call = PollAdd uint32 "NodeID bag" | PollVote uint32 NodeID ID | PollDrop uint32 NodeID

text \<open>The requests that were added and the results that were returned.\<close>

fun set_call :: "'p PollMethods \<Rightarrow> call \<Rightarrow> 'p pollset \<Rightarrow> ('p pollset \<times> uint32 list \<times> ID bag list) option" where
  "set_call M (PollAdd k vdrs) s = map_option (\<lambda>(s, b). (s, if b then [k] else [], [])) (set_Add M k vdrs s)"
| "set_call M (PollVote k vdr vote) s = map_option (\<lambda>(s, rs). (s, [], rs)) (set_Vote M k vdr vote s)"
| "set_call M (PollDrop k vdr) s = map_option (\<lambda>(s, rs). (s, [], rs)) (set_Drop M k vdr s)"

fun q_call :: "'p PollMethods \<Rightarrow> call \<Rightarrow> 'p pqueue \<Rightarrow> 'p pqueue \<times> uint32 list \<times> (uint32 \<times> ID bag) list" where
  "q_call M (PollAdd k vdrs) q = (case q_Add M k vdrs q of (q, b) \<Rightarrow> (q, if b then [k] else [], []))"
| "q_call M (PollVote k vdr vote) q = (case q_respond M k (m_Vote M vdr vote) q of (q, rs) \<Rightarrow> (q, [], rs))"
| "q_call M (PollDrop k vdr) q = (case q_respond M k (m_Drop M vdr) q of (q, rs) \<Rightarrow> (q, [], rs))"

fun set_run :: "('p PollMethods \<times> call) list \<Rightarrow> 'p pollset \<Rightarrow> ('p pollset \<times> uint32 list \<times> ID bag list) option" where
  "set_run [] s = Some (s, [], [])"
| "set_run ((M, c) # cs) s = do {
     (s, added, results) \<leftarrow> set_call M c s;
     (s, added', results') \<leftarrow> set_run cs s;
     Some (s, added @ added', results @ results')
   }"

fun q_run :: "('p PollMethods \<times> call) list \<Rightarrow> 'p pqueue \<Rightarrow> 'p pqueue \<times> uint32 list \<times> (uint32 \<times> ID bag) list" where
  "q_run [] q = (q, [], [])"
| "q_run ((M, c) # cs) q =
     (let (q, added, results) = q_call M c q; (q, added', results') = q_run cs q
      in (q, added @ added', results @ results'))"

section \<open>The contract of a poll\<close>

locale poll_contract =
  fixes poll_methods :: "'p PollMethods \<Rightarrow> bool"
    and vdrs_ok :: "NodeID bag \<Rightarrow> bool"
    and poll_inv :: "'p \<Rightarrow> bool"
    and completed :: "'p \<Rightarrow> bool"
  assumes new_inv: "poll_methods M \<Longrightarrow> vdrs_ok vdrs \<Longrightarrow> poll_inv (m_New M vdrs) \<and> \<not> completed (m_New M vdrs)"
    and vote_inv: "poll_methods M \<Longrightarrow> poll_inv p \<Longrightarrow> poll_inv (m_Vote M vdr vote p)"
    and drop_inv: "poll_methods M \<Longrightarrow> poll_inv p \<Longrightarrow> poll_inv (m_Drop M vdr p)"
    and finished_inv: "poll_methods M \<Longrightarrow> poll_inv p \<Longrightarrow>
      \<exists>p' b. m_Finished M p = Some (p', b) \<and> poll_inv p' \<and> completed p' = b"
begin

definition queue_ok :: "'p pqueue \<Rightarrow> bool" where
  "queue_ok q \<longleftrightarrow> distinct (map fst q) \<and> (\<forall>p \<in> snd ` set q. poll_inv p) \<and> (q \<noteq> [] \<longrightarrow> \<not> completed (snd (hd q)))"

definition call_ok :: "'p PollMethods \<times> call \<Rightarrow> bool" where
  "call_ok = (\<lambda>(M, c). poll_methods M \<and> (\<forall>k vdrs. c = PollAdd k vdrs \<longrightarrow> vdrs_ok vdrs))"

lemma fin_inv: "poll_methods M \<Longrightarrow> poll_inv p \<Longrightarrow> m_Finished M p = Some (fin M p) \<and> poll_inv (fst (fin M p)) \<and> completed (fst (fin M p)) = snd (fin M p)"
  using finished_inv [of M p] by (auto simp: fin_def)

lemma flush_ok:
  "poll_methods M \<Longrightarrow> distinct (map fst q) \<Longrightarrow> \<forall>p \<in> snd ` set q. poll_inv p \<Longrightarrow>
   queue_ok (fst (flush M q)) \<and> map fst q = map fst (snd (flush M q)) @ map fst (fst (flush M q))"
proof (induction q)
  case (Cons e q)
  obtain k p where e: "e = (k, p)" by fastforce
  from Cons.prems fin_inv [of M p] have fin: "poll_inv (fst (fin M p))" "completed (fst (fin M p)) = snd (fin M p)" by (auto simp: e)
  then show ?case
  proof (cases "snd (fin M p)")
    case True
    with Cons show ?thesis by (simp add: e case_prod_beta)
  next
    case False
    with fin Cons.prems show ?thesis by (simp add: e queue_ok_def)
  qed
qed (simp add: queue_ok_def)

lemma change_keys [simp]: "map fst (change k f q) = map fst q"
  by (auto simp: change_def)

lemma change_inv: "(\<And>p. poll_inv p \<Longrightarrow> poll_inv (f p)) \<Longrightarrow> \<forall>p \<in> snd ` set q. poll_inv p \<Longrightarrow> \<forall>p \<in> snd ` set (change k f q). poll_inv p"
  by (auto simp: change_def)

lemma total_inv: "poll_methods M \<Longrightarrow> \<forall>p \<in> snd ` set q. poll_inv p \<Longrightarrow> total_on M q"
  using fin_inv by (auto simp: total_on_def)

lemma respond_ok:
  assumes M: "poll_methods M" and q: "queue_ok q" and f: "\<And>p. poll_inv p \<Longrightarrow> poll_inv (f p)"
  shows "queue_ok (fst (q_respond M k f q)) \<and> map fst q = map fst (snd (q_respond M k f q)) @ map fst (fst (q_respond M k f q))"
proof (cases "map_of q k")
  case None
  with q show ?thesis by (simp add: q_respond_def)
next
  case (Some p)
  let ?f = "\<lambda>p. fst (fin M (f p))"
  have inv: "\<forall>p \<in> snd ` set q. poll_inv p" "distinct (map fst q)" using q by (simp_all add: queue_ok_def)
  have inv': "\<forall>p \<in> snd ` set (change k ?f q). poll_inv p" by (rule change_inv [OF _ inv(1)]) (use f fin_inv [OF M] in blast)
  show ?thesis
  proof (cases "snd (fin M (f p))")
    case True
    with flush_ok [OF M, of "change k ?f q"] inv inv' Some show ?thesis by (simp add: q_respond_def)
  next
    case False
    obtain k0 p0 q0 where q0: "q = (k0, p0) # q0" using Some by (cases q) auto
    have "\<not> completed (snd (hd (change k ?f q)))"
    proof (cases "k0 = k")
      case True
      then have "p0 = p" using Some by (simp add: q0)
      moreover have "poll_inv p" using inv(1) by (simp add: q0 \<open>p0 = p\<close>)
      ultimately show ?thesis using True False fin_inv [OF M f] by (simp add: q0 change_def)
    next
      case k: False
      then show ?thesis using q by (simp add: q0 change_def queue_ok_def)
    qed
    then have "queue_ok (change k ?f q)" using inv inv' by (simp add: queue_ok_def)
    with False Some show ?thesis by (simp add: q_respond_def)
  qed
qed

lemma set_respond:
  assumes M: "poll_methods M" and q: "queue_ok q" and s: "set_rep s q" and f: "\<And>p. poll_inv p \<Longrightarrow> poll_inv (f p)"
  shows "\<exists>s'. (case hm_Get k (ps_polls s) of
        None \<Rightarrow> Some (s, [])
      | Some r \<Rightarrow> do {
          let s = s\<lparr>ps_objects := (ps_objects s)[r := f (ps_objects s ! r)]\<rparr>;
          (s, finished) \<leftarrow> call_Finished M r s;
          if \<not> finished then Some (s, []) else processFinishedPolls M s
        }) = Some (s', map snd (snd (q_respond M k f q))) \<and> set_rep s' (fst (q_respond M k f q))"
proof (cases "hm_Get k (ps_polls s)")
  case None
  from s obtain es where h: "hm_rep (ps_polls s) es" and o: "obj_rep (ps_objects s) es q" by (auto simp: set_rep_def)
  have "map_of es k = None" using None hm_Get_rep [OF h] by simp
  then have "map_of q k = None" using obj_rep_keys [OF o] by (metis map_of_eq_None_iff set_map)
  with None s show ?thesis by (simp add: q_respond_def)
next
  case (Some r)
  have inv: "\<forall>p \<in> snd ` set q. poll_inv p" using q by (simp add: queue_ok_def)
  have "\<forall>p \<in> snd ` set (change k f q). poll_inv p" by (rule change_inv [OF f inv])
  moreover have "\<forall>p \<in> snd ` set (change k (\<lambda>p. fst (fin M (f p))) q). poll_inv p" by (rule change_inv [OF _ inv]) (use f fin_inv [OF M] in blast)
  ultimately show ?thesis using respond_queue [OF s total_inv [OF M] total_inv [OF M] Some] Some by simp
qed

lemma call_queue:
  assumes c: "call_ok (M, c)" and q: "queue_ok q" and s: "set_rep s q" and r: "q_call M c q = (q', added, results)"
  shows "\<exists>s'. set_call M c s = Some (s', added, map snd results) \<and> set_rep s' q' \<and> queue_ok q' \<and>
    map fst q @ added = map fst results @ map fst q'"
proof (cases c)
  case (PollAdd k vdrs)
  with c have "poll_inv (m_New M vdrs)" "\<not> completed (m_New M vdrs)" using new_inv by (auto simp: call_ok_def)
  then have "queue_ok (fst (q_Add M k vdrs q))" using q by (cases q) (auto simp: q_Add_def queue_ok_def)
  with set_Add_queue [OF s, of M k vdrs] r show ?thesis by (auto simp: PollAdd q_Add_def split: if_splits)
next
  case (PollVote k vdr vote)
  have M: "poll_methods M" using c by (simp add: call_ok_def)
  from respond_ok [where f = "m_Vote M vdr vote" and k = k, OF M q vote_inv [OF M]]
    set_respond [where f = "m_Vote M vdr vote" and k = k, OF M q s vote_inv [OF M]] r show ?thesis
    by (auto simp: PollVote set_Vote_def split: prod.splits)
next
  case (PollDrop k vdr)
  have M: "poll_methods M" using c by (simp add: call_ok_def)
  from respond_ok [where f = "m_Drop M vdr" and k = k, OF M q drop_inv [OF M]]
    set_respond [where f = "m_Drop M vdr" and k = k, OF M q s drop_inv [OF M]] r show ?thesis
    by (auto simp: PollDrop set_Drop_def split: prod.splits)
qed

lemma run_queue:
  "\<forall>c \<in> set cs. call_ok c \<Longrightarrow> queue_ok q \<Longrightarrow> set_rep s q \<Longrightarrow> q_run cs q = (q', added, results) \<Longrightarrow>
   \<exists>s'. set_run cs s = Some (s', added, map snd results) \<and> set_rep s' q' \<and> queue_ok q' \<and> map fst q @ added = map fst results @ map fst q'"
proof (induction cs arbitrary: q s added results)
  case (Cons x cs)
  obtain M c where x: "x = (M, c)" by fastforce
  obtain q1 a1 r1 where 1: "q_call M c q = (q1, a1, r1)" by (cases "q_call M c q")
  obtain a2 r2 where 2: "q_run cs q1 = (q', a2, r2)" "added = a1 @ a2" "results = r1 @ r2"
    using Cons.prems(4) by (auto simp: x 1 split: prod.splits)
  have "call_ok (M, c)" using Cons.prems(1) by (simp add: x)
  from call_queue [OF this Cons.prems(2,3) 1] obtain s1 where s1: "set_call M c s = Some (s1, a1, map snd r1)" "set_rep s1 q1" "queue_ok q1"
    "map fst q @ a1 = map fst r1 @ map fst q1" by blast
  from Cons.IH [OF _ s1(3,2) 2(1)] Cons.prems(1) obtain s' where "set_run cs s1 = Some (s', a2, map snd r2)" "set_rep s' q'" "queue_ok q'"
    "map fst q1 @ a2 = map fst r2 @ map fst q'" by auto
  with s1(1,4) show ?case by (simp add: x 2) (metis append.assoc)
qed simp

end

section \<open>Polls with early termination\<close>

definition early_poll :: "int \<Rightarrow> int \<Rightarrow> (nat \<Rightarrow> ID set \<Rightarrow> ID list) \<Rightarrow> (ID \<Rightarrow> ID \<times> bool) \<Rightarrow> earlyTermPoll PollMethods" where
  "early_poll alphaPreference alphaConfidence ords getParent =
     \<lparr>m_New = poll_New alphaPreference alphaConfidence, m_Vote = poll_Vote, m_Drop = poll_Drop,
      m_Finished = poll_Finished ords getParent, m_Result = poll_Result\<rparr>"

definition early_methods :: "earlyTermPoll PollMethods \<Rightarrow> bool" where
  "early_methods M \<longleftrightarrow> (\<exists>aP aC ords gp. known_ok gp \<and> (\<forall>n. valid_ord (ords n)) \<and> M = early_poll aP aC ords gp)"

definition bag_ok :: "'a bag \<Rightarrow> bool" where
  "bag_ok b \<longleftrightarrow> (\<exists>M. represents b M)"

definition poll_ok :: "earlyTermPoll \<Rightarrow> bool" where
  "poll_ok p \<longleftrightarrow> bag_ok (p_votes p) \<and> bag_ok (p_polled p)"

lemma poll_ok_Finished:
  assumes "known_ok gp" "\<forall>n. valid_ord (ords n)" "poll_ok p"
  shows "\<exists>p' b. poll_Finished ords gp p = Some (p', b) \<and> poll_ok p' \<and> p_finished p' = b"
proof (cases "p_finished p")
  case True
  then show ?thesis using assms(3) by (simp add: poll_Finished_def)
next
  case False
  from assms(3) obtain V P where "represents (p_votes p) V" "represents (p_polled p) P" by (auto simp: poll_ok_def bag_ok_def)
  from poll_Finished_eq [OF assms(1) this _ False, of ords] assms(2,3) show ?thesis by (simp add: poll_ok_def)
qed

lemma poll_ok_respond: "poll_ok p \<Longrightarrow> poll_ok (poll_Vote vdr x p)" "poll_ok p \<Longrightarrow> poll_ok (poll_Drop vdr p)"
  unfolding poll_ok_def bag_ok_def by (metis poll_Vote_represents, metis poll_Drop_represents)

interpretation early: poll_contract early_methods bag_ok poll_ok p_finished
proof unfold_locales
  fix M :: "earlyTermPoll PollMethods" and p :: earlyTermPoll and vdrs vdr vote
  assume "early_methods M"
  then obtain aP aC ords gp where M: "known_ok gp" "\<forall>n. valid_ord (ords n)" "M = early_poll aP aC ords gp" by (auto simp: early_methods_def)
  show "bag_ok vdrs \<Longrightarrow> poll_ok (m_New M vdrs) \<and> \<not> p_finished (m_New M vdrs)"
    using exI [of "represents empty_bag", OF represents_empty] by (simp add: M(3) early_poll_def poll_New_def poll_ok_def bag_ok_def)
  show "poll_ok p \<Longrightarrow> poll_ok (m_Vote M vdr vote p)" "poll_ok p \<Longrightarrow> poll_ok (m_Drop M vdr p)"
    by (simp_all add: M(3) early_poll_def poll_ok_respond)
  show "poll_ok p \<Longrightarrow> \<exists>p' b. m_Finished M p = Some (p', b) \<and> poll_ok p' \<and> p_finished p' = b"
    using poll_ok_Finished [OF M(1,2)] by (simp add: M(3) early_poll_def)
qed

text \<open>
  C9. Whatever calls the set of polls receives, and however the block tree changes between them, no call
  panics or runs forever. The set behaves as a queue: results come back in the order in which the polls
  were added, each poll gives exactly one result or is still outstanding, and the oldest outstanding poll
  had not finished when it was last looked at.
\<close>

theorem poll_set_in_order:
  assumes "\<forall>(M, c) \<in> set calls. early_methods M \<and> (\<forall>k vdrs. c = PollAdd k vdrs \<longrightarrow> bag_ok vdrs)"
  shows "\<exists>s q added results. q_run calls [] = (q, added, results) \<and> set_run calls NewSet = Some (s, added, map snd results) \<and>
    set_rep s q \<and> added = map fst results @ map fst q \<and> distinct (map fst q) \<and> set_Len s = int (length q) \<and>
    (q \<noteq> [] \<longrightarrow> \<not> p_finished (snd (hd q)))"
proof -
  obtain q added results where r: "q_run calls [] = (q, added, results)" by (cases "q_run calls []")
  have c: "\<forall>c \<in> set calls. early.call_ok c" using assms by (auto simp: early.call_ok_def)
  have "early.queue_ok []" by (simp add: early.queue_ok_def)
  from early.run_queue [OF c this set_rep_New r] obtain s where s: "set_run calls NewSet = Some (s, added, map snd results)"
    "set_rep s q" "early.queue_ok q" "added = map fst results @ map fst q" by auto
  from s(2) obtain es where "hm_rep (ps_polls s) es" "obj_rep (ps_objects s) es q" by (auto simp: set_rep_def)
  then have "set_Len s = int (length q)" using hm.rep_len by (simp add: set_Len_def obj_rep_def)
  then show ?thesis using r s by (simp add: early.queue_ok_def)
qed

theorem poll_set_in_order_witness:
  "\<exists>s q added results. set_run [(early_poll 2 2 (\<lambda>_. sorted_list_of_set) one_block, PollAdd 1 (bag_Of [[1], [2], [3]])),
     (early_poll 2 2 (\<lambda>_. sorted_list_of_set) one_block, PollVote 1 [2] child_block)] NewSet = Some (s, added, map snd results) \<and>
     added = map fst results @ map fst (q :: earlyTermPoll pqueue) \<and> set_Len s = int (length q)"
proof -
  have "early_methods (early_poll 2 2 (\<lambda>_. sorted_list_of_set) one_block)"
    unfolding early_methods_def
    by (rule exI [of _ 2], rule exI [of _ 2], rule exI [of _ "\<lambda>_. sorted_list_of_set"], rule exI [of _ one_block])
      (simp only: one_block_ok sorted_ord simp_thms)
  moreover have "bag_ok (bag_Of [[1], [2], [3 :: byte]])" unfolding bag_ok_def bag_Of_def using represents_Add [OF represents_empty] by blast
  ultimately show ?thesis using poll_set_in_order [of "[(early_poll 2 2 (\<lambda>_. sorted_list_of_set) one_block, PollAdd 1 (bag_Of [[1], [2], [3]])),
     (early_poll 2 2 (\<lambda>_. sorted_list_of_set) one_block, PollVote 1 [2] child_block)]"] by (simp del: set_run.simps q_run.simps) blast
qed

end
