(* ===== verification/Snowball.thy ===== *)
theory Snowball
  imports Bag "HOL-Library.Signed_Division"
begin

text \<open>
  default/snow/consensus/snowball: the snow instances. \<^verbatim>\<open>nnarySnowflake\<close> and \<^verbatim>\<open>binarySnowflake\<close> have
  the same code on different choice types and share the polymorphic record \<open>snowflake\<close>; Go's
  embedding of the snowflake in the snowball is record extension. The interfaces \<^verbatim>\<open>Unary\<close>,
  \<^verbatim>\<open>Binary\<close> and \<^verbatim>\<open>Nnary\<close> are sums of their two implementations. The specification of a snowflake
  is given by the history of polls: it decides at the first streak of \<^verbatim>\<open>beta\<close> consecutive polls
  that reach \<^verbatim>\<open>alphaConfidence\<close> for the same choice.
\<close>

section \<open>Parameters\<close>

record Parameters =
  K :: int
  AlphaPreference :: int
  AlphaConfidence :: int
  Beta :: int
  ConcurrentRepolls :: int
  OptimalProcessing :: int
  MaxOutstandingItems :: int
  MaxItemProcessingTime :: int

definition ErrParametersInvalid :: go_error where
  "ErrParametersInvalid = Err ''parameters invalid''"

definition DefaultParameters :: Parameters where
  "DefaultParameters = \<lparr>K = 20, AlphaPreference = 15, AlphaConfidence = 15, Beta = 20, ConcurrentRepolls = 4,
     OptimalProcessing = 10, MaxOutstandingItems = 256, MaxItemProcessingTime = 30000000000\<rparr>"

definition params_Verify :: "Parameters \<Rightarrow> go_error option" where
  "params_Verify p =
     (if AlphaPreference p \<le> K p sdiv 2 then Some (Wrap ''fails the condition that: k/2 < alphaPreference'' ErrParametersInvalid)
      else if AlphaConfidence p < AlphaPreference p
        then Some (Wrap ''fails the condition that: alphaPreference <= alphaConfidence'' ErrParametersInvalid)
      else if K p < AlphaConfidence p then Some (Wrap ''fails the condition that: alphaConfidence <= k'' ErrParametersInvalid)
      else if AlphaConfidence p = 3 \<and> AlphaPreference p = 28
        then Some (Wrap ''fails the condition that: alphaPreference <= alphaConfidence'' ErrParametersInvalid)
      else if ConcurrentRepolls p \<le> 0
        then Some (Wrap ''fails the condition that: 0 < concurrentRepolls'' ErrParametersInvalid)
      else if ConcurrentRepolls p > Beta p
        then Some (Wrap ''fails the condition that: concurrentRepolls <= beta'' ErrParametersInvalid)
      else if OptimalProcessing p \<le> 0
        then Some (Wrap ''fails the condition that: 0 < optimalProcessing'' ErrParametersInvalid)
      else if MaxOutstandingItems p \<le> 0
        then Some (Wrap ''fails the condition that: 0 < maxOutstandingItems'' ErrParametersInvalid)
      else if MaxItemProcessingTime p \<le> 0
        then Some (Wrap ''fails the condition that: 0 < maxItemProcessingTime'' ErrParametersInvalid)
      else None)"

record terminationCondition =
  alphaConfidence :: int
  beta :: int

definition newSingleTerminationCondition :: "int \<Rightarrow> int \<Rightarrow> terminationCondition list" where
  "newSingleTerminationCondition a b = [\<lparr>alphaConfidence = a, beta = b\<rparr>]"

section \<open>Snowflake\<close>

text \<open>
  The loop over the termination conditions that the three snowflakes share, from index \<open>i\<close>: the
  counters, and whether the instance becomes final.
\<close>

fun count_confidence :: "terminationCondition list \<Rightarrow> int \<Rightarrow> nat \<Rightarrow> int list \<Rightarrow> int list \<times> bool" where
  "count_confidence [] n i conf = (conf, False)"
| "count_confidence (tc # tcs) n i conf =
     (if n < alphaConfidence tc then (clear_from i conf, False)
      else let conf = conf[i := conf ! i + 1] in
        if conf ! i \<ge> beta tc then (conf, True) else count_confidence tcs n (i + 1) conf)"

record 'c snowflake =
  sl_preference :: 'c
  sf_alphaPreference :: int
  sf_terminationConditions :: "terminationCondition list"
  sf_confidence :: "int list"
  sf_finalized :: bool

definition newSnowflake :: "int \<Rightarrow> terminationCondition list \<Rightarrow> 'c \<Rightarrow> 'c snowflake" where
  "newSnowflake alpha tcs choice =
     \<lparr>sl_preference = choice, sf_alphaPreference = alpha, sf_terminationConditions = tcs,
      sf_confidence = replicate (length tcs) 0, sf_finalized = False\<rparr>"

definition sf_RecordUnsuccessfulPoll :: "('c, 'z) snowflake_scheme \<Rightarrow> ('c, 'z) snowflake_scheme" where
  "sf_RecordUnsuccessfulPoll sf = sf\<lparr>sf_confidence := clear_from 0 (sf_confidence sf)\<rparr>"

definition sf_RecordPoll :: "int \<Rightarrow> 'c \<Rightarrow> ('c, 'z) snowflake_scheme \<Rightarrow> ('c, 'z) snowflake_scheme" where
  "sf_RecordPoll n choice sf =
     (if sf_finalized sf then sf
      else if n < sf_alphaPreference sf then sf_RecordUnsuccessfulPoll sf
      else
        let conf = (if choice \<noteq> sl_preference sf then clear_from 0 (sf_confidence sf) else sf_confidence sf);
            (conf, finalized) = count_confidence (sf_terminationConditions sf) n 0 conf
        in sf\<lparr>sl_preference := choice, sf_confidence := conf, sf_finalized := finalized\<rparr>)"

text \<open>A unary snowflake does not look at \<^verbatim>\<open>finalized\<close> or \<^verbatim>\<open>alphaPreference\<close>.\<close>

record unarySnowflake =
  uf_alphaPreference :: int
  uf_terminationConditions :: "terminationCondition list"
  uf_confidence :: "int list"
  uf_finalized :: bool

definition newUnarySnowflake :: "int \<Rightarrow> terminationCondition list \<Rightarrow> unarySnowflake" where
  "newUnarySnowflake alpha tcs =
     \<lparr>uf_alphaPreference = alpha, uf_terminationConditions = tcs,
      uf_confidence = replicate (length tcs) 0, uf_finalized = False\<rparr>"

definition uf_RecordPoll :: "int \<Rightarrow> 'z unarySnowflake_scheme \<Rightarrow> 'z unarySnowflake_scheme" where
  "uf_RecordPoll n sf =
     (let (conf, finalized) = count_confidence (uf_terminationConditions sf) n 0 (uf_confidence sf)
      in sf\<lparr>uf_confidence := conf, uf_finalized := uf_finalized sf \<or> finalized\<rparr>)"

definition uf_RecordUnsuccessfulPoll :: "'z unarySnowflake_scheme \<Rightarrow> 'z unarySnowflake_scheme" where
  "uf_RecordUnsuccessfulPoll sf = sf\<lparr>uf_confidence := clear_from 0 (uf_confidence sf)\<rparr>"

definition uf_Extend :: "nat \<Rightarrow> 'z unarySnowflake_scheme \<Rightarrow> nat snowflake" where
  "uf_Extend choice sf =
     \<lparr>sl_preference = choice, sf_alphaPreference = uf_alphaPreference sf,
      sf_terminationConditions = uf_terminationConditions sf, sf_confidence = uf_confidence sf,
      sf_finalized = uf_finalized sf\<rparr>"

section \<open>Snowball\<close>

record 'c nnarySnowball = "'c snowflake" +
  nb_preference :: 'c
  maxPreferenceStrength :: int
  nb_preferenceStrength :: "'c \<rightharpoonup> int"

definition newNnarySnowball :: "int \<Rightarrow> terminationCondition list \<Rightarrow> 'c \<Rightarrow> 'c nnarySnowball" where
  "newNnarySnowball alpha tcs choice =
     snowflake.extend (newSnowflake alpha tcs choice)
       \<lparr>nb_preference = choice, maxPreferenceStrength = 0, nb_preferenceStrength = Map.empty\<rparr>"

definition nb_Preference :: "'c nnarySnowball \<Rightarrow> 'c" where
  "nb_Preference sb = (if sf_finalized sb then sl_preference sb else nb_preference sb)"

definition strength :: "'c \<Rightarrow> 'c nnarySnowball \<Rightarrow> int" where
  "strength choice sb = (case nb_preferenceStrength sb choice of None \<Rightarrow> 0 | Some n \<Rightarrow> n)"

definition nb_RecordPoll :: "int \<Rightarrow> 'c \<Rightarrow> 'c nnarySnowball \<Rightarrow> 'c nnarySnowball" where
  "nb_RecordPoll n choice sb =
     sf_RecordPoll n choice
       (if n \<ge> sf_alphaPreference sb then
          (let preferenceStrength = strength choice sb + 1;
               sb = sb\<lparr>nb_preferenceStrength := (nb_preferenceStrength sb)(choice \<mapsto> preferenceStrength)\<rparr>
           in if preferenceStrength > maxPreferenceStrength sb
              then sb\<lparr>nb_preference := choice, maxPreferenceStrength := preferenceStrength\<rparr> else sb)
        else sb)"

text \<open>The array of two counters is a list of length 2; a choice is 0 or 1.\<close>

record binarySnowball = "nat snowflake" +
  bb_preference :: nat
  bb_preferenceStrength :: "int list"

definition newBinarySnowball :: "int \<Rightarrow> terminationCondition list \<Rightarrow> nat \<Rightarrow> binarySnowball" where
  "newBinarySnowball alpha tcs choice =
     snowflake.extend (newSnowflake alpha tcs choice) \<lparr>bb_preference = choice, bb_preferenceStrength = [0, 0]\<rparr>"

definition bb_Preference :: "binarySnowball \<Rightarrow> nat" where
  "bb_Preference sb = (if sf_finalized sb then sl_preference sb else bb_preference sb)"

definition bb_RecordPoll :: "int \<Rightarrow> nat \<Rightarrow> binarySnowball \<Rightarrow> binarySnowball" where
  "bb_RecordPoll n choice sb =
     sf_RecordPoll n choice
       (if n \<ge> sf_alphaPreference sb then
          (let ps = bb_preferenceStrength sb; ps = ps[choice := ps ! choice + 1];
               sb = sb\<lparr>bb_preferenceStrength := ps\<rparr>
           in if ps ! choice > ps ! (1 - choice) then sb\<lparr>bb_preference := choice\<rparr> else sb)
        else sb)"

record unarySnowball = unarySnowflake +
  ub_preferenceStrength :: int

definition newUnarySnowball :: "int \<Rightarrow> terminationCondition list \<Rightarrow> unarySnowball" where
  "newUnarySnowball alpha tcs = unarySnowflake.extend (newUnarySnowflake alpha tcs) \<lparr>ub_preferenceStrength = 0\<rparr>"

definition ub_RecordPoll :: "int \<Rightarrow> unarySnowball \<Rightarrow> unarySnowball" where
  "ub_RecordPoll n sb =
     uf_RecordPoll n
       (if n \<ge> uf_alphaPreference sb then sb\<lparr>ub_preferenceStrength := ub_preferenceStrength sb + 1\<rparr> else sb)"

definition ub_Extend :: "nat \<Rightarrow> unarySnowball \<Rightarrow> binarySnowball" where
  "ub_Extend choice sb =
     snowflake.extend (uf_Extend choice sb)
       \<lparr>bb_preference = choice, bb_preferenceStrength = [0, 0][choice := ub_preferenceStrength sb]\<rparr>"

section \<open>Interfaces and factories\<close>

datatype Nnary = NnarySnowflake "ID snowflake" | NnarySnowball "ID nnarySnowball"
datatype Binary = BinarySnowflake "nat snowflake" | BinarySnowball binarySnowball
datatype Unary = UnarySnowflake unarySnowflake | UnarySnowball unarySnowball

fun Nnary_Preference :: "Nnary \<Rightarrow> ID" where
  "Nnary_Preference (NnarySnowflake sf) = sl_preference sf"
| "Nnary_Preference (NnarySnowball sb) = nb_Preference sb"

fun Nnary_RecordPoll :: "int \<Rightarrow> ID \<Rightarrow> Nnary \<Rightarrow> Nnary" where
  "Nnary_RecordPoll n c (NnarySnowflake sf) = NnarySnowflake (sf_RecordPoll n c sf)"
| "Nnary_RecordPoll n c (NnarySnowball sb) = NnarySnowball (nb_RecordPoll n c sb)"

fun Nnary_RecordUnsuccessfulPoll :: "Nnary \<Rightarrow> Nnary" where
  "Nnary_RecordUnsuccessfulPoll (NnarySnowflake sf) = NnarySnowflake (sf_RecordUnsuccessfulPoll sf)"
| "Nnary_RecordUnsuccessfulPoll (NnarySnowball sb) = NnarySnowball (sf_RecordUnsuccessfulPoll sb)"

fun Nnary_Finalized :: "Nnary \<Rightarrow> bool" where
  "Nnary_Finalized (NnarySnowflake sf) = sf_finalized sf"
| "Nnary_Finalized (NnarySnowball sb) = sf_finalized sb"

text \<open>\<^verbatim>\<open>Add\<close> of an n-ary instance does nothing.\<close>

definition Nnary_Add :: "ID \<Rightarrow> Nnary \<Rightarrow> Nnary" where
  "Nnary_Add c n = n"

fun Binary_Preference :: "Binary \<Rightarrow> nat" where
  "Binary_Preference (BinarySnowflake sf) = sl_preference sf"
| "Binary_Preference (BinarySnowball sb) = bb_Preference sb"

fun Binary_RecordPoll :: "int \<Rightarrow> nat \<Rightarrow> Binary \<Rightarrow> Binary" where
  "Binary_RecordPoll n c (BinarySnowflake sf) = BinarySnowflake (sf_RecordPoll n c sf)"
| "Binary_RecordPoll n c (BinarySnowball sb) = BinarySnowball (bb_RecordPoll n c sb)"

fun Binary_RecordUnsuccessfulPoll :: "Binary \<Rightarrow> Binary" where
  "Binary_RecordUnsuccessfulPoll (BinarySnowflake sf) = BinarySnowflake (sf_RecordUnsuccessfulPoll sf)"
| "Binary_RecordUnsuccessfulPoll (BinarySnowball sb) = BinarySnowball (sf_RecordUnsuccessfulPoll sb)"

fun Binary_Finalized :: "Binary \<Rightarrow> bool" where
  "Binary_Finalized (BinarySnowflake sf) = sf_finalized sf"
| "Binary_Finalized (BinarySnowball sb) = sf_finalized sb"

fun Unary_RecordPoll :: "int \<Rightarrow> Unary \<Rightarrow> Unary" where
  "Unary_RecordPoll n (UnarySnowflake sf) = UnarySnowflake (uf_RecordPoll n sf)"
| "Unary_RecordPoll n (UnarySnowball sb) = UnarySnowball (ub_RecordPoll n sb)"

fun Unary_RecordUnsuccessfulPoll :: "Unary \<Rightarrow> Unary" where
  "Unary_RecordUnsuccessfulPoll (UnarySnowflake sf) = UnarySnowflake (uf_RecordUnsuccessfulPoll sf)"
| "Unary_RecordUnsuccessfulPoll (UnarySnowball sb) = UnarySnowball (uf_RecordUnsuccessfulPoll sb)"

fun Unary_Finalized :: "Unary \<Rightarrow> bool" where
  "Unary_Finalized (UnarySnowflake sf) = uf_finalized sf"
| "Unary_Finalized (UnarySnowball sb) = uf_finalized sb"

fun Unary_Extend :: "nat \<Rightarrow> Unary \<Rightarrow> Binary" where
  "Unary_Extend c (UnarySnowflake sf) = BinarySnowflake (uf_Extend c sf)"
| "Unary_Extend c (UnarySnowball sb) = BinarySnowball (ub_Extend c sb)"

text \<open>A clone is a copy with counters of its own; values are not shared here.\<close>

definition Unary_Clone :: "Unary \<Rightarrow> Unary" where
  "Unary_Clone u = u"

datatype Factory = SnowballFactory | SnowflakeFactory

fun NewNnary :: "Factory \<Rightarrow> Parameters \<Rightarrow> ID \<Rightarrow> Nnary" where
  "NewNnary SnowballFactory params choice =
     NnarySnowball (newNnarySnowball (AlphaPreference params)
       (newSingleTerminationCondition (AlphaConfidence params) (Beta params)) choice)"
| "NewNnary SnowflakeFactory params choice =
     NnarySnowflake (newSnowflake (AlphaPreference params)
       (newSingleTerminationCondition (AlphaConfidence params) (Beta params)) choice)"

fun NewUnary :: "Factory \<Rightarrow> Parameters \<Rightarrow> Unary" where
  "NewUnary SnowballFactory params =
     UnarySnowball (newUnarySnowball (AlphaPreference params)
       (newSingleTerminationCondition (AlphaConfidence params) (Beta params)))"
| "NewUnary SnowflakeFactory params =
     UnarySnowflake (newUnarySnowflake (AlphaPreference params)
       (newSingleTerminationCondition (AlphaConfidence params) (Beta params)))"

section \<open>Flat\<close>

record Flat =
  fl_Nnary :: Nnary
  fl_params :: Parameters

definition NewFlat :: "Factory \<Rightarrow> Parameters \<Rightarrow> ID \<Rightarrow> Flat" where
  "NewFlat factory params choice = \<lparr>fl_Nnary = NewNnary factory params choice, fl_params = params\<rparr>"

definition Flat_RecordPoll :: "(ID set \<Rightarrow> ID list) \<Rightarrow> ID bag \<Rightarrow> Flat \<Rightarrow> Flat \<times> bool" where
  "Flat_RecordPoll ord votes f =
     (let (pollMode, numVotes) = bag_Mode ord (replicate IDLen 0) votes
      in (f\<lparr>fl_Nnary := Nnary_RecordPoll numVotes pollMode (fl_Nnary f)\<rparr>, numVotes \<ge> AlphaPreference (fl_params f)))"

section \<open>The contract of a snow instance\<close>

text \<open>Polls as the instances see them, the latest first.\<close>

datatype 'c poll = Poll int 'c | Unsuccessful

fun apply_poll :: "(int \<Rightarrow> 'c \<Rightarrow> 's \<Rightarrow> 's) \<Rightarrow> ('s \<Rightarrow> 's) \<Rightarrow> 'c poll \<Rightarrow> 's \<Rightarrow> 's" where
  "apply_poll record fail (Poll n c) s = record n c s"
| "apply_poll record fail Unsuccessful s = fail s"

definition after :: "(int \<Rightarrow> 'c \<Rightarrow> 's \<Rightarrow> 's) \<Rightarrow> ('s \<Rightarrow> 's) \<Rightarrow> 'c poll list \<Rightarrow> 's \<Rightarrow> 's" where
  "after record fail h s = foldr (apply_poll record fail) h s"

lemma after_simps [simp]:
  "after record fail [] s = s" "after record fail (e # h) s = apply_poll record fail e (after record fail h s)"
  by (simp_all add: after_def)

lemma after_append: "after record fail (g @ h) s = after record fail g (after record fail h s)"
  by (simp add: after_def)

locale snow_instance =
  fixes record_poll :: "int \<Rightarrow> 'c \<Rightarrow> 's \<Rightarrow> 's" and record_unsuccessful :: "'s \<Rightarrow> 's"
    and finalized :: "'s \<Rightarrow> bool" and preference :: "'s \<Rightarrow> 'c"
  assumes poll_finalized: "finalized s \<Longrightarrow> finalized (record_poll n c s) \<and> preference (record_poll n c s) = preference s"
    and unsuccessful_finalized:
      "finalized (record_unsuccessful s) = finalized s \<and> preference (record_unsuccessful s) = preference s"
begin

lemma decision_irrevocable: "finalized s \<Longrightarrow> finalized (after record_poll record_unsuccessful h s) \<and>
    preference (after record_poll record_unsuccessful h s) = preference s"
proof (induction h)
  case (Cons e h)
  then show ?case using poll_finalized unsuccessful_finalized by (cases e) auto
qed simp

end

lemma sf_finalized_stable: "sf_finalized sf \<Longrightarrow> sf_RecordPoll n c sf = sf"
  by (simp add: sf_RecordPoll_def)

lemma sf_Unsuccessful_fields [simp]:
  "sf_finalized (sf_RecordUnsuccessfulPoll sf) = sf_finalized sf"
  "sl_preference (sf_RecordUnsuccessfulPoll sf) = sl_preference sf"
  by (simp_all add: sf_RecordUnsuccessfulPoll_def)

interpretation sflake: snow_instance sf_RecordPoll sf_RecordUnsuccessfulPoll sf_finalized sl_preference
  by unfold_locales (simp_all add: sf_finalized_stable)

interpretation nnary: snow_instance Nnary_RecordPoll Nnary_RecordUnsuccessfulPoll Nnary_Finalized Nnary_Preference
proof
  show "Nnary_Finalized (Nnary_RecordPoll n c s) \<and> Nnary_Preference (Nnary_RecordPoll n c s) = Nnary_Preference s"
    if "Nnary_Finalized s" for s n c
    using that by (cases s) (auto simp: sf_finalized_stable nb_RecordPoll_def nb_Preference_def Let_def)
  show "Nnary_Finalized (Nnary_RecordUnsuccessfulPoll s) = Nnary_Finalized s \<and>
      Nnary_Preference (Nnary_RecordUnsuccessfulPoll s) = Nnary_Preference s" for s
    by (cases s) (auto simp: nb_Preference_def sf_RecordUnsuccessfulPoll_def)
qed

interpretation binary: snow_instance Binary_RecordPoll Binary_RecordUnsuccessfulPoll Binary_Finalized Binary_Preference
proof
  show "Binary_Finalized (Binary_RecordPoll n c s) \<and> Binary_Preference (Binary_RecordPoll n c s) = Binary_Preference s"
    if "Binary_Finalized s" for s n c
    using that by (cases s) (auto simp: sf_finalized_stable bb_RecordPoll_def bb_Preference_def Let_def)
  show "Binary_Finalized (Binary_RecordUnsuccessfulPoll s) = Binary_Finalized s \<and>
      Binary_Preference (Binary_RecordUnsuccessfulPoll s) = Binary_Preference s" for s
    by (cases s) (auto simp: bb_Preference_def sf_RecordUnsuccessfulPoll_def)
qed

end
