(* ===== verification/SnowballProperties.thy ===== *)
theory SnowballProperties
  imports Snowball
begin

text \<open>
  When a snow instance decides, and on what: the streak specification of the snowflakes, the
  preference of the snowballs, and the independence of \<^verbatim>\<open>Flat\<close> from the iteration order of the votes.
\<close>

section \<open>Streaks\<close>

text \<open>How many of the latest polls in a row reached \<open>a\<close> votes for \<open>c\<close>.\<close>

fun streak :: "int \<Rightarrow> 'c \<Rightarrow> 'c poll list \<Rightarrow> nat" where
  "streak a c (Poll n d # h) = (if a \<le> n \<and> d = c then Suc (streak a c h) else 0)"
| "streak a c _ = 0"

text \<open>The choice decided by a history: the first streak of \<^verbatim>\<open>beta\<close> polls wins.\<close>

fun decision :: "terminationCondition list \<Rightarrow> 'c poll list \<Rightarrow> 'c option" where
  "decision tcs [] = None"
| "decision tcs (e # h) =
     (case decision tcs h of
        Some c \<Rightarrow> Some c
      | None \<Rightarrow> (case e of
          Poll n c \<Rightarrow> if \<exists>tc \<in> set tcs. beta tc \<le> int (streak (alphaConfidence tc) c (e # h)) then Some c else None
        | Unsuccessful \<Rightarrow> None))"

text \<open>The choice of the last poll that reached \<open>alpha\<close>.\<close>

fun last_choice :: "int \<Rightarrow> 'c \<Rightarrow> 'c poll list \<Rightarrow> 'c" where
  "last_choice alpha init [] = init"
| "last_choice alpha init (Poll n c # h) = (if alpha \<le> n then c else last_choice alpha init h)"
| "last_choice alpha init (Unsuccessful # h) = last_choice alpha init h"

definition tcs_ok :: "int \<Rightarrow> terminationCondition list \<Rightarrow> bool" where
  "tcs_ok alpha tcs \<longleftrightarrow> sorted (map alphaConfidence tcs) \<and> (\<forall>tc \<in> set tcs. alpha \<le> alphaConfidence tc \<and> 0 < beta tc)"

text \<open>One pass over ascending thresholds: reached counters go up, the others are cleared.\<close>

lemma count_confidence_spec:
  assumes "sorted (map alphaConfidence tcs)" and "length conf = i + length tcs"
  shows "case count_confidence tcs n i conf of (conf', fin) \<Rightarrow>
    length conf' = length conf \<and>
    (fin \<longleftrightarrow> (\<exists>j < length tcs. alphaConfidence (tcs ! j) \<le> n \<and> beta (tcs ! j) \<le> conf ! (i + j) + 1)) \<and>
    (\<not> fin \<longrightarrow> (\<forall>k < i. conf' ! k = conf ! k) \<and>
      (\<forall>j < length tcs. conf' ! (i + j) = (if alphaConfidence (tcs ! j) \<le> n then conf ! (i + j) + 1 else 0)))"
  using assms
proof (induction tcs arbitrary: i conf)
  case Nil
  then show ?case by simp
next
  case (Cons tc tcs)
  have len: "i < length conf" using Cons.prems(2) by simp
  have above: "alphaConfidence tc \<le> alphaConfidence (tcs ! j)" if "j < length tcs" for j
    using Cons.prems(1) that by simp
  show ?case
  proof (cases "n < alphaConfidence tc")
    case True
    then have "\<not> alphaConfidence ((tc # tcs) ! j) \<le> n" if "j < Suc (length tcs)" for j
      using above [of "j - 1"] that by (cases j) auto
    with True Cons.prems(2) show ?thesis by (auto simp: nth_clear_from)
  next
    case False
    let ?c = "conf[i := conf ! i + 1]"
    obtain c' f where r: "count_confidence tcs n (Suc i) ?c = (c', f)" by fastforce
    from Cons.IH [of ?c "Suc i"] Cons.prems r
    have IH: "length c' = length conf"
      "f \<longleftrightarrow> (\<exists>j < length tcs. alphaConfidence (tcs ! j) \<le> n \<and> beta (tcs ! j) \<le> conf ! Suc (i + j) + 1)"
      "\<not> f \<Longrightarrow> k < Suc i \<Longrightarrow> c' ! k = ?c ! k"
      "\<not> f \<Longrightarrow> j < length tcs \<Longrightarrow>
        c' ! Suc (i + j) = (if alphaConfidence (tcs ! j) \<le> n then conf ! Suc (i + j) + 1 else 0)" for k j
      by auto
    have low: "c' ! k = conf ! k" if "\<not> f" "k < i" for k
      using IH(3) [OF that(1), of k] that(2) by auto
    have at_i: "c' ! i = conf ! i + 1" if "\<not> f" using IH(3) [OF that, of i] len by simp
    show ?thesis
      using False len r IH(1,2,4) low at_i
      by (simp add: Let_def All_less_Suc2 Ex_less_Suc2)
  qed
qed

section \<open>Snowflake\<close>

text \<open>A snowflake in step with the history of its polls.\<close>

definition tracks :: "int \<Rightarrow> terminationCondition list \<Rightarrow> 'c \<Rightarrow> 'c poll list \<Rightarrow> ('c, 'z) snowflake_scheme \<Rightarrow> bool" where
  "tracks alpha tcs init h sf \<longleftrightarrow>
     sf_alphaPreference sf = alpha \<and> sf_terminationConditions sf = tcs \<and>
     (case decision tcs h of
        Some c \<Rightarrow> sf_finalized sf \<and> sl_preference sf = c
      | None \<Rightarrow> \<not> sf_finalized sf \<and> sl_preference sf = last_choice alpha init h \<and>
          sf_confidence sf = map (\<lambda>tc. int (streak (alphaConfidence tc) (last_choice alpha init h) h)) tcs)"

lemma streak_last_choice: "0 < streak a c h \<Longrightarrow> alpha \<le> a \<Longrightarrow> last_choice alpha init h = c"
  by (induction a c h rule: streak.induct) (auto split: if_splits)

lemma streak_other: "c \<noteq> last_choice alpha init h \<Longrightarrow> alpha \<le> a \<Longrightarrow> streak a c h = 0"
  using streak_last_choice by (metis gr0I)

lemma tracks_new: "tracks alpha tcs init [] (newSnowflake alpha tcs init)"
  by (simp add: tracks_def newSnowflake_def map_replicate_const)

lemma tracks_unsuccessful: "tracks alpha tcs init h sf \<Longrightarrow> tracks alpha tcs init (Unsuccessful # h) (sf_RecordUnsuccessfulPoll sf)"
  by (auto simp: tracks_def sf_RecordUnsuccessfulPoll_def map_replicate_const split: option.splits)

lemma tracks_poll:
  assumes ok: "tcs_ok alpha tcs" and tr: "tracks alpha tcs init h sf"
  shows "tracks alpha tcs init (Poll n c # h) (sf_RecordPoll n c sf)"
proof (cases "decision tcs h")
  case (Some d)
  with tr show ?thesis by (simp add: tracks_def sf_RecordPoll_def)
next
  case None
  with tr have sf: "\<not> sf_finalized sf" "sl_preference sf = last_choice alpha init h" "sf_alphaPreference sf = alpha"
    "sf_terminationConditions sf = tcs"
    "sf_confidence sf = map (\<lambda>tc. int (streak (alphaConfidence tc) (last_choice alpha init h) h)) tcs"
    by (auto simp: tracks_def)
  have tc: "alpha \<le> alphaConfidence t" "0 < beta t" if "t \<in> set tcs" for t
    using ok that by (auto simp: tcs_ok_def)
  show ?thesis
  proof (cases "n < alpha")
    case True
    then have "streak (alphaConfidence t) d (Poll n c # h) = 0" if "t \<in> set tcs" for t d
      using tc(1) [OF that] by simp
    with True None sf tc show ?thesis
      by (auto simp: tracks_def sf_RecordPoll_def sf_RecordUnsuccessfulPoll_def not_le simp flip: map_replicate_const)
  next
    case False
    define conf where "conf = map (\<lambda>t. int (streak (alphaConfidence t) c h)) tcs"
    have conf: "(if c \<noteq> sl_preference sf then clear_from 0 (sf_confidence sf) else sf_confidence sf) = conf"
      using tc(1) by (auto simp: sf conf_def streak_other simp flip: map_replicate_const)
    obtain conf' fin where r: "count_confidence tcs n 0 conf = (conf', fin)" by fastforce
    have "sorted (map alphaConfidence tcs)" using ok by (simp add: tcs_ok_def)
    from count_confidence_spec [OF this, of conf 0 n] r
    have spec: "length conf' = length tcs"
      "fin \<longleftrightarrow> (\<exists>j < length tcs. alphaConfidence (tcs ! j) \<le> n \<and> beta (tcs ! j) \<le> conf ! j + 1)"
      "\<not> fin \<Longrightarrow> j < length tcs \<Longrightarrow> conf' ! j = (if alphaConfidence (tcs ! j) \<le> n then conf ! j + 1 else 0)" for j
      by (auto simp: conf_def)
    have grow: "int (streak (alphaConfidence (tcs ! j)) c (Poll n c # h)) =
        (if alphaConfidence (tcs ! j) \<le> n then conf ! j + 1 else 0)" if "j < length tcs" for j
      using that by (simp add: conf_def)
    have "fin \<longleftrightarrow> (\<exists>j < length tcs. beta (tcs ! j) \<le> int (streak (alphaConfidence (tcs ! j)) c (Poll n c # h)))"
      unfolding spec(2) using grow tc(2) by (metis nth_mem not_less)
    then have fin: "fin \<longleftrightarrow> (\<exists>t \<in> set tcs. beta t \<le> int (streak (alphaConfidence t) c (Poll n c # h)))"
      by (metis in_set_conv_nth)
    have "conf' = map (\<lambda>t. int (streak (alphaConfidence t) c (Poll n c # h))) tcs" if "\<not> fin"
      by (rule nth_equalityI) (simp_all only: spec(1) length_map nth_map spec(3) [OF that] grow)
    moreover have "sf_RecordPoll n c sf = sf\<lparr>sl_preference := c, sf_confidence := conf', sf_finalized := fin\<rparr>"
      using False r by (simp add: sf_RecordPoll_def sf(1,3,4) conf Let_def)
    ultimately show ?thesis
      using False None fin sf(3,4) by (simp add: tracks_def)
  qed
qed

lemma tracks_after:
  "tcs_ok alpha tcs \<Longrightarrow> tracks alpha tcs init g sf \<Longrightarrow>
   tracks alpha tcs init (h @ g) (after sf_RecordPoll sf_RecordUnsuccessfulPoll h sf)"
proof (induction h)
  case (Cons e h)
  then show ?case by (cases e) (simp_all add: tracks_poll tracks_unsuccessful)
qed simp

text \<open>A history decides when some point of it ends a long enough streak.\<close>

lemma decision_iff:
  assumes "tcs_ok alpha tcs"
  shows "decision tcs h \<noteq> None \<longleftrightarrow>
    (\<exists>g h' c. h = g @ h' \<and> (\<exists>tc \<in> set tcs. beta tc \<le> int (streak (alphaConfidence tc) c h')))"
proof (induction h)
  case Nil
  then show ?case using assms by (auto simp: tcs_ok_def not_le)
next
  case (Cons e h)
  have split: "(\<exists>g h'. e # h = g @ h' \<and> P h') \<longleftrightarrow> P (e # h) \<or> (\<exists>g h'. h = g @ h' \<and> P h')" for P
    by (auto simp: Cons_eq_append_conv)
  have pos: "beta tc \<le> int (streak (alphaConfidence tc) c (e # h)) \<longrightarrow> (\<exists>n. e = Poll n c)" if "tc \<in> set tcs" for tc c
    using assms that by (cases e) (auto simp: tcs_ok_def not_le)
  show ?case
  proof (cases "decision tcs h")
    case None
    with Cons.IH have no: "\<nexists>g h' c. h = g @ h' \<and> (\<exists>tc \<in> set tcs. beta tc \<le> int (streak (alphaConfidence tc) c h'))" by simp
    have "decision tcs (e # h) \<noteq> None \<longleftrightarrow> (\<exists>c. \<exists>tc \<in> set tcs. beta tc \<le> int (streak (alphaConfidence tc) c (e # h)))"
    proof (cases e)
      case (Poll n c)
      then have "decision tcs (e # h) \<noteq> None \<longleftrightarrow> (\<exists>tc \<in> set tcs. beta tc \<le> int (streak (alphaConfidence tc) c (e # h)))"
        using None by (simp del: streak.simps)
      with Poll pos show ?thesis by blast
    next
      case Unsuccessful
      with None pos show ?thesis by auto
    qed
    also have "\<dots> \<longleftrightarrow> (\<exists>c g h'. e # h = g @ h' \<and> (\<exists>tc \<in> set tcs. beta tc \<le> int (streak (alphaConfidence tc) c h')))"
      using no unfolding split by blast
    finally show ?thesis by blast
  next
    case (Some c)
    with Cons.IH obtain g h' d where "h = g @ h'" "\<exists>tc \<in> set tcs. beta tc \<le> int (streak (alphaConfidence tc) d h')" by auto
    then have "e # h = (e # g) @ h' \<and> (\<exists>tc \<in> set tcs. beta tc \<le> int (streak (alphaConfidence tc) d h'))" by simp
    moreover have "decision tcs (e # h) \<noteq> None" using Some by simp
    ultimately show ?thesis by blast
  qed
qed

section \<open>Snowball\<close>

text \<open>The number of polls that reached \<open>alpha\<close> for \<open>c\<close>.\<close>

fun successes :: "int \<Rightarrow> 'c \<Rightarrow> 'c poll list \<Rightarrow> nat" where
  "successes alpha c [] = 0"
| "successes alpha c (Poll n d # h) = (if alpha \<le> n \<and> d = c then 1 else 0) + successes alpha c h"
| "successes alpha c (Unsuccessful # h) = successes alpha c h"

definition strengths_ok :: "int \<Rightarrow> 'c \<Rightarrow> 'c poll list \<Rightarrow> 'c nnarySnowball \<Rightarrow> bool" where
  "strengths_ok alpha init h sb \<longleftrightarrow>
     sf_alphaPreference sb = alpha \<and> (\<forall>c. strength c sb = int (successes alpha c h)) \<and>
     maxPreferenceStrength sb = strength (nb_preference sb) sb \<and> (\<forall>c. strength c sb \<le> maxPreferenceStrength sb) \<and>
     (maxPreferenceStrength sb = 0 \<longrightarrow> nb_preference sb = init)"

lemma sf_RecordPoll_more [simp]:
  "sf_alphaPreference (sf_RecordPoll n c sf) = sf_alphaPreference sf"
  "snowflake.more (sf_RecordPoll n c sf) = snowflake.more sf"
  by (auto simp: sf_RecordPoll_def sf_RecordUnsuccessfulPoll_def Let_def split: prod.splits)

lemma nb_fields_more:
  "snowflake.more x = snowflake.more (y :: 'c nnarySnowball) \<Longrightarrow>
   nb_preference x = nb_preference y \<and> maxPreferenceStrength x = maxPreferenceStrength y \<and>
   nb_preferenceStrength x = nb_preferenceStrength y"
  by (cases x; cases y) simp

lemma strengths_ok_more:
  "snowflake.more x = snowflake.more (y :: 'c nnarySnowball) \<Longrightarrow> sf_alphaPreference x = sf_alphaPreference y \<Longrightarrow>
   strengths_ok alpha init h x = strengths_ok alpha init h y"
  using nb_fields_more [of x y] by (simp add: strengths_ok_def strength_def)

lemma strengths_new: "strengths_ok alpha init [] (newNnarySnowball alpha tcs init)"
  by (simp add: strengths_ok_def newNnarySnowball_def snowflake.defs strength_def newSnowflake_def)

lemma strengths_ok_cong:
  "(\<And>d. successes alpha d h' = successes alpha d h) \<Longrightarrow> strengths_ok alpha init h' sb = strengths_ok alpha init h sb"
  by (simp only: strengths_ok_def)

lemma strengths_unsuccessful:
  "strengths_ok alpha init h sb \<Longrightarrow> strengths_ok alpha init (Unsuccessful # h) (sf_RecordUnsuccessfulPoll sb)"
  using strengths_ok_cong [of alpha "Unsuccessful # h" h]
  by (subst strengths_ok_more [of _ sb]) (simp_all add: sf_RecordUnsuccessfulPoll_def)

lemma strengths_poll:
  assumes sb: "strengths_ok alpha init h sb"
  shows "strengths_ok alpha init (Poll n c # h) (nb_RecordPoll n c sb)"
proof -
  let ?sb = "if n \<ge> sf_alphaPreference sb then
          (let preferenceStrength = strength c sb + 1;
               sb = sb\<lparr>nb_preferenceStrength := (nb_preferenceStrength sb)(c \<mapsto> preferenceStrength)\<rparr>
           in if preferenceStrength > maxPreferenceStrength sb
              then sb\<lparr>nb_preference := c, maxPreferenceStrength := preferenceStrength\<rparr> else sb)
        else sb"
  have "strengths_ok alpha init (Poll n c # h) ?sb"
  proof (cases "alpha \<le> n")
    case False
    then have "successes alpha d (Poll n c # h) = successes alpha d h" for d by simp
    moreover have "?sb = sb" using False sb by (simp add: strengths_ok_def)
    ultimately show ?thesis using sb strengths_ok_cong [of alpha "Poll n c # h" h init sb] by (simp only:)
  next
    case True
    have upd: "strength d (sb\<lparr>nb_preferenceStrength := (nb_preferenceStrength sb)(c \<mapsto> v), nb_preference := p, maxPreferenceStrength := m\<rparr>) =
        (if d = c then v else strength d sb)"
      "strength d (sb\<lparr>nb_preferenceStrength := (nb_preferenceStrength sb)(c \<mapsto> v)\<rparr>) = (if d = c then v else strength d sb)" for d v p m
      by (simp_all add: strength_def)
    from sb have s: "sf_alphaPreference sb = alpha" "\<And>d. strength d sb = int (successes alpha d h)"
      "maxPreferenceStrength sb = strength (nb_preference sb) sb" "\<And>d. strength d sb \<le> maxPreferenceStrength sb"
      "maxPreferenceStrength sb = 0 \<longrightarrow> nb_preference sb = init"
      by (auto simp: strengths_ok_def)
    show ?thesis
    proof (cases "strength c sb + 1 > maxPreferenceStrength sb")
      case above: True
      let ?s = "sb\<lparr>nb_preferenceStrength := (nb_preferenceStrength sb)(c \<mapsto> strength c sb + 1), nb_preference := c,
          maxPreferenceStrength := strength c sb + 1\<rparr>"
      have eq: "?sb = ?s" using True above s(1) by (simp add: Let_def)
      have le: "strength d sb \<le> strength c sb + 1" for d using above s(4) [of d] by linarith
      have "strength d ?s = int (successes alpha d (Poll n c # h))" for d
        unfolding upd using True s(2) by simp
      moreover have "strength d ?s \<le> maxPreferenceStrength ?s" for d unfolding upd using le [of d] by simp
      moreover have "maxPreferenceStrength ?s = strength (nb_preference ?s) ?s" "maxPreferenceStrength ?s \<noteq> 0"
        unfolding upd using s(2) [of c] by simp_all
      ultimately show ?thesis unfolding eq strengths_ok_def using s(1) by simp
    next
      case below: False
      let ?s = "sb\<lparr>nb_preferenceStrength := (nb_preferenceStrength sb)(c \<mapsto> strength c sb + 1)\<rparr>"
      have eq: "?sb = ?s" using True below s(1) by (simp add: Let_def)
      have c: "c \<noteq> nb_preference sb" using s(3) below by auto
      have "strength d ?s = int (successes alpha d (Poll n c # h))" for d
        unfolding upd using True s(2) by simp
      moreover have "strength d ?s \<le> maxPreferenceStrength ?s" for d
        unfolding upd using below s(4) [of d] by simp
      moreover have "maxPreferenceStrength ?s = strength (nb_preference ?s) ?s"
        unfolding upd using c s(3) by simp
      ultimately show ?thesis unfolding eq strengths_ok_def using s(1,5) by simp
    qed
  qed
  then show ?thesis unfolding nb_RecordPoll_def by (subst strengths_ok_more [of _ ?sb]) simp_all
qed

section \<open>Instances made by the factories\<close>

definition single_tcs :: "Parameters \<Rightarrow> terminationCondition list" where
  "single_tcs params = newSingleTerminationCondition (AlphaConfidence params) (Beta params)"

text \<open>An n-ary instance in step with the history of its polls.\<close>

fun nnary_tracks :: "Factory \<Rightarrow> Parameters \<Rightarrow> ID \<Rightarrow> ID poll list \<Rightarrow> Nnary \<Rightarrow> bool" where
  "nnary_tracks factory params init h (NnarySnowflake sf) =
     (factory = SnowflakeFactory \<and> tracks (AlphaPreference params) (single_tcs params) init h sf)"
| "nnary_tracks factory params init h (NnarySnowball sb) =
     (factory = SnowballFactory \<and> tracks (AlphaPreference params) (single_tcs params) init h sb \<and>
      strengths_ok (AlphaPreference params) init h sb)"

lemma verified_tcs_ok: "params_Verify params = None \<Longrightarrow> tcs_ok (AlphaPreference params) (single_tcs params)"
  by (auto simp: params_Verify_def tcs_ok_def single_tcs_def newSingleTerminationCondition_def split: if_splits)

lemma nb_RecordPoll_tracks:
  assumes "tcs_ok alpha tcs" and "tracks alpha tcs init h sb"
  shows "tracks alpha tcs init (Poll n c # h) (nb_RecordPoll n c sb)"
  unfolding nb_RecordPoll_def
  by (rule tracks_poll [OF assms(1)]) (use assms(2) in \<open>auto simp: tracks_def Let_def split: option.splits\<close>)

lemma nnary_tracks_new: "nnary_tracks factory params init [] (NewNnary factory params init)"
proof (cases factory)
  case SnowballFactory
  have "tracks (AlphaPreference params) (single_tcs params) init [] (newNnarySnowball (AlphaPreference params) (single_tcs params) init)"
    using tracks_new [of "AlphaPreference params" "single_tcs params" init]
    by (simp add: tracks_def newNnarySnowball_def snowflake.defs)
  with SnowballFactory strengths_new show ?thesis by (simp add: single_tcs_def)
qed (simp add: tracks_new flip: single_tcs_def)

lemma nnary_tracks_after:
  assumes "params_Verify params = None"
  shows "nnary_tracks factory params init h
    (after Nnary_RecordPoll Nnary_RecordUnsuccessfulPoll h (NewNnary factory params init))"
proof (induction h)
  case Nil
  show ?case by (simp add: nnary_tracks_new)
next
  case (Cons e h)
  let ?s = "after Nnary_RecordPoll Nnary_RecordUnsuccessfulPoll h (NewNnary factory params init)"
  note ok = verified_tcs_ok [OF assms]
  show ?case
    using Cons.IH by (cases ?s; cases e)
      (auto simp: tracks_poll [OF ok] tracks_unsuccessful nb_RecordPoll_tracks [OF ok] strengths_poll strengths_unsuccessful)
qed

lemma nnary_tracks_decides:
  assumes ok: "params_Verify params = None" and t: "nnary_tracks factory params init h s"
  shows "Nnary_Finalized s \<longleftrightarrow> decision (single_tcs params) h \<noteq> None"
    and "decision (single_tcs params) h = Some c \<Longrightarrow> Nnary_Preference s = c"
    and "\<not> Nnary_Finalized s \<Longrightarrow> factory = SnowflakeFactory \<Longrightarrow> Nnary_Preference s = last_choice (AlphaPreference params) init h"
    and "\<not> Nnary_Finalized s \<Longrightarrow> factory = SnowballFactory \<Longrightarrow>
      successes (AlphaPreference params) c h \<le> successes (AlphaPreference params) (Nnary_Preference s) h"
  using t by (cases s; auto simp: tracks_def nb_Preference_def strengths_ok_def split: option.splits)+

text \<open>
  C32. An n-ary snow instance made by either factory with verified parameters, after any sequence of
  polls, the latest first: it is final exactly if at some point the last \<^verbatim>\<open>Beta\<close> polls all reached
  \<^verbatim>\<open>AlphaConfidence\<close> votes for one choice; then its preference is the choice of the first such
  streak, and no later poll changes it. Before that a snowflake prefers the choice of the last poll
  that reached \<^verbatim>\<open>AlphaPreference\<close>, and a snowball a choice with the most such polls.
\<close>

theorem snow_decides:
  assumes "params_Verify params = None"
    and "s = after Nnary_RecordPoll Nnary_RecordUnsuccessfulPoll h (NewNnary factory params init)"
  shows "(Nnary_Finalized s \<longleftrightarrow>
      (\<exists>g h' c. h = g @ h' \<and> Beta params \<le> int (streak (AlphaConfidence params) c h'))) \<and>
    (Nnary_Finalized s \<longrightarrow>
      decision (newSingleTerminationCondition (AlphaConfidence params) (Beta params)) h = Some (Nnary_Preference s) \<and>
      (\<forall>g. Nnary_Preference (after Nnary_RecordPoll Nnary_RecordUnsuccessfulPoll g s) = Nnary_Preference s)) \<and>
    (\<not> Nnary_Finalized s \<and> factory = SnowflakeFactory \<longrightarrow>
      Nnary_Preference s = last_choice (AlphaPreference params) init h) \<and>
    (\<not> Nnary_Finalized s \<and> factory = SnowballFactory \<longrightarrow>
      (\<forall>c. successes (AlphaPreference params) c h \<le> successes (AlphaPreference params) (Nnary_Preference s) h))"
proof -
  have t: "nnary_tracks factory params init h s" using nnary_tracks_after [OF assms(1)] assms(2) by simp
  note d = nnary_tracks_decides [OF assms(1) t, unfolded single_tcs_def]
  have "Nnary_Finalized s \<longleftrightarrow> (\<exists>g h' c. h = g @ h' \<and> Beta params \<le> int (streak (AlphaConfidence params) c h'))"
    unfolding d(1) decision_iff [OF verified_tcs_ok [OF assms(1)], unfolded single_tcs_def]
    by (simp add: newSingleTerminationCondition_def)
  moreover have "\<forall>g. Nnary_Preference (after Nnary_RecordPoll Nnary_RecordUnsuccessfulPoll g s) = Nnary_Preference s"
    if "Nnary_Finalized s"
    using nnary.decision_irrevocable [OF that] by blast
  moreover have "decision (newSingleTerminationCondition (AlphaConfidence params) (Beta params)) h = Some (Nnary_Preference s)"
    if "Nnary_Finalized s"
    using d(1,2) that by fastforce
  ultimately show ?thesis using d(3,4) by blast
qed

theorem snow_decides_witness:
  "params_Verify DefaultParameters = None \<and>
   Nnary_Finalized (after Nnary_RecordPoll Nnary_RecordUnsuccessfulPoll (replicate 20 (Poll 15 (replicate 32 1)))
     (NewNnary SnowballFactory DefaultParameters (replicate 32 0)))"
proof -
  have ok: "params_Verify DefaultParameters = None" by code_simp
  have "streak 15 c (replicate n (Poll 15 c)) = n" for c :: ID and n by (induction n) simp_all
  then have "\<exists>g h' c. replicate 20 (Poll 15 (replicate 32 1 :: ID)) = g @ h' \<and>
      Beta DefaultParameters \<le> int (streak (AlphaConfidence DefaultParameters) c h')"
    by (intro exI [of _ "[]"] exI [of _ "replicate 20 (Poll 15 (replicate 32 1))"] exI [of _ "replicate 32 1"])
      (simp add: DefaultParameters_def)
  with snow_decides [OF ok refl, of "replicate 20 (Poll 15 (replicate 32 1))" SnowballFactory "replicate 32 0"] ok
  show ?thesis by blast
qed

section \<open>Flat\<close>

text \<open>Two choices cannot both have a majority.\<close>

lemma count_two_le_size: "c \<noteq> d \<Longrightarrow> count M c + count M d \<le> size M"
proof -
  assume "c \<noteq> d"
  then have "replicate_mset (count M c) c + replicate_mset (count M d) d \<subseteq># M"
    by (auto simp: subseteq_mset_def)
  from size_mset_mono [OF this] show ?thesis by simp
qed

lemma verified_majority:
  assumes "params_Verify params = None"
  shows "0 < AlphaPreference params" "K params < 2 * AlphaPreference params"
proof -
  have a: "K params sdiv 2 < AlphaPreference params" "AlphaPreference params \<le> K params"
    using assms by (auto simp: params_Verify_def split: if_splits)
  have "0 < K params"
  proof (rule ccontr)
    assume "\<not> 0 < K params"
    then have "K params sdiv 2 = - ((- K params) div 2)" by (auto simp: signed_divide_int_def sgn_if)
    with a \<open>\<not> 0 < K params\<close> show False by simp
  qed
  then have "K params sdiv 2 = K params div 2" by (simp add: signed_divide_int_def)
  with a \<open>0 < K params\<close> show "0 < AlphaPreference params" "K params < 2 * AlphaPreference params" by simp_all
qed

lemma majority_unique:
  assumes "params_Verify params = None" and "int (size M) \<le> K params"
    and "AlphaPreference params \<le> int (count M c)" and "AlphaPreference params \<le> int (count M d)"
  shows "c = d"
proof (rule ccontr)
  assume "c \<noteq> d"
  from count_two_le_size [OF this, of M] have "count M c + count M d \<le> size M" .
  with verified_majority [OF assms(1)] assms(2-) show False by linarith
qed

text \<open>A poll below the preference threshold does not look at the choice.\<close>

lemma nnary_low_poll:
  assumes "nnary_tracks factory params init h s" and "n < AlphaPreference params"
  shows "Nnary_RecordPoll n c s = (if Nnary_Finalized s then s else Nnary_RecordUnsuccessfulPoll s)"
  using assms by (cases s) (auto simp: tracks_def sf_RecordPoll_def nb_RecordPoll_def)

text \<open>
  \<^verbatim>\<open>Flat.RecordPoll\<close> with verified parameters and at most \<^verbatim>\<open>K\<close> votes does not depend on the order in
  which Go ranges over the votes, although \<^verbatim>\<open>Mode\<close> does on a tie: it reports success exactly if a
  choice reaches \<^verbatim>\<open>AlphaPreference\<close> votes, that choice is unique, and it is the one recorded with its
  number of votes; without one the poll only resets the confidence counters, as
  \<^verbatim>\<open>RecordUnsuccessfulPoll\<close> does, unless the instance is final.
\<close>

theorem flat_poll_deterministic:
  assumes ok: "params_Verify params = None" and votes: "represents votes M" and k: "int (size M) \<le> K params"
    and ord: "valid_ord ord" and ord': "valid_ord ord'"
    and f: "f = \<lparr>fl_Nnary = after Nnary_RecordPoll Nnary_RecordUnsuccessfulPoll h (NewNnary factory params init), fl_params = params\<rparr>"
  shows "Flat_RecordPoll ord votes f = Flat_RecordPoll ord' votes f \<and>
    snd (Flat_RecordPoll ord votes f) = (\<exists>c. AlphaPreference params \<le> int (count M c)) \<and>
    (AlphaPreference params \<le> int (count M c) \<longrightarrow>
      fl_Nnary (fst (Flat_RecordPoll ord votes f)) = Nnary_RecordPoll (int (count M c)) c (fl_Nnary f)) \<and>
    (\<not> snd (Flat_RecordPoll ord votes f) \<and> \<not> Nnary_Finalized (fl_Nnary f) \<longrightarrow>
      fl_Nnary (fst (Flat_RecordPoll ord votes f)) = Nnary_RecordUnsuccessfulPoll (fl_Nnary f))"
proof -
  have t: "nnary_tracks factory params init h (fl_Nnary f)" using nnary_tracks_after [OF ok] f by simp
  have pos: "0 < AlphaPreference params" using verified_majority(1) [OF ok] .
  have mode: "\<exists>m n. bag_Mode o' (replicate IDLen 0) votes = (m, n) \<and> (\<forall>c. int (count M c) \<le> n) \<and>
      (AlphaPreference params \<le> n \<longrightarrow> n = int (count M m))" if o': "valid_ord o'" for o'
  proof -
    obtain m n where mn: "bag_Mode o' (replicate IDLen 0) votes = (m, n)" by fastforce
    with bag_Mode_max [OF votes o' mn] pos show ?thesis by auto
  qed
  from mode [OF ord] obtain m n where m: "bag_Mode ord (replicate IDLen 0) votes = (m, n)" "\<forall>c. int (count M c) \<le> n"
    "AlphaPreference params \<le> n \<longrightarrow> n = int (count M m)" by blast
  from mode [OF ord'] obtain m' n' where m': "bag_Mode ord' (replicate IDLen 0) votes = (m', n')" "\<forall>c. int (count M c) \<le> n'"
    "AlphaPreference params \<le> n' \<longrightarrow> n' = int (count M m')" by blast
  show ?thesis
  proof (cases "\<exists>c. AlphaPreference params \<le> int (count M c)")
    case True
    then obtain c0 where c0: "AlphaPreference params \<le> int (count M c0)" by blast
    have eq: "m = d \<and> n = int (count M d) \<and> m' = d \<and> n' = int (count M d)" if "AlphaPreference params \<le> int (count M d)" for d
    proof -
      have "AlphaPreference params \<le> n" "AlphaPreference params \<le> n'" using that m(2) m'(2) order.trans by blast+
      with m(3) m'(3) majority_unique [OF ok k that] show ?thesis by metis
    qed
    from eq [OF c0] eq [of c] c0 show ?thesis by (auto simp: Flat_RecordPoll_def m(1) m'(1) f)
  next
    case False
    with m m' have low: "n < AlphaPreference params" "n' < AlphaPreference params" by (force simp: not_le)+
    with False nnary_low_poll [OF t low(1), of m] nnary_low_poll [OF t low(2), of m'] show ?thesis
      by (auto simp: Flat_RecordPoll_def m(1) m'(1) f)
  qed
qed

theorem flat_poll_deterministic_witness:
  "snd (Flat_RecordPoll sorted_list_of_set (bag_Of (replicate 15 (replicate 32 1) @ replicate 5 (replicate 32 0)))
     (NewFlat SnowflakeFactory DefaultParameters (replicate 32 0)))"
proof -
  let ?l = "replicate 15 (replicate 32 1) @ replicate 5 (replicate 32 0) :: ID list"
  have ok: "params_Verify DefaultParameters = None" by code_simp
  have votes: "represents (bag_Of ?l) (mset ?l)"
    using represents_Add [OF represents_empty, of ?l] by (simp add: bag_Of_def)
  have k: "int (size (mset ?l)) \<le> K DefaultParameters" by (simp add: DefaultParameters_def)
  have ord: "valid_ord (sorted_list_of_set :: ID set \<Rightarrow> ID list)" by (simp add: valid_ord_def)
  have f: "NewFlat SnowflakeFactory DefaultParameters (replicate 32 0) =
      \<lparr>fl_Nnary = after Nnary_RecordPoll Nnary_RecordUnsuccessfulPoll [] (NewNnary SnowflakeFactory DefaultParameters (replicate 32 0)),
       fl_params = DefaultParameters\<rparr>"
    by (simp add: NewFlat_def)
  have "AlphaPreference DefaultParameters \<le> int (count (mset ?l) (replicate 32 1))" by (simp add: DefaultParameters_def)
  with flat_poll_deterministic [OF ok votes k ord ord f] show ?thesis by blast
qed

end
