(* ===== verification/SnowTree.thy ===== *)
theory SnowTree
  imports IdBits SnowballProperties
begin

text \<open>
  default/snow/consensus/snowball/tree.go: the snowball tree, a Patricia tree over the bits of the
  choices with a unary snow instance for every run of undisputed bits and a binary one for every
  disputed bit. A nil \<^verbatim>\<open>node\<close> is \<open>NilNode\<close>. A method that mutates its receiver and may return
  another node gives both: \<open>node_RecordPoll\<close> returns the receiver after the call, the node
  returned and the flag. The returned node is the receiver or part of it, and a caller that keeps
  the receiver only reads the preference of the returned node, so values stand for pointers.
  \<^verbatim>\<open>ord\<close> is the order of Go's ranges over the votes, \<^verbatim>\<open>params\<close> and \<^verbatim>\<open>factory\<close> are read through
  the \<^verbatim>\<open>tree\<close> pointer of the nodes.
\<close>

section \<open>Model\<close>

datatype node =
    NilNode
  | UnaryNode (un_preference: ID) (decidedPrefix: nat) (commonPrefix: nat) (un_snow: Unary) (un_shouldReset: bool) (un_child: node)
  | BinaryNode (preference0: ID) (preference1: ID) (bn_bit: nat) (bn_snow: Binary)
      (shouldReset0: bool) (shouldReset1: bool) (child0: node) (child1: node)

fun node_Preference :: "node \<Rightarrow> ID" where
  "node_Preference (UnaryNode preference dp cp snow sr child) = preference"
| "node_Preference (BinaryNode p0 p1 bt snow r0 r1 c0 c1) = (if Binary_Preference snow = 1 then p1 else p0)"

fun DecidedPrefix :: "node \<Rightarrow> nat" where
  "DecidedPrefix (UnaryNode preference dp cp snow sr child) = dp"
| "DecidedPrefix (BinaryNode p0 p1 bt snow r0 r1 c0 c1) = bt"

fun node_Finalized :: "node \<Rightarrow> bool" where
  "node_Finalized (UnaryNode preference dp cp snow sr child) = Unary_Finalized snow"
| "node_Finalized (BinaryNode p0 p1 bt snow r0 r1 c0 c1) = Binary_Finalized snow"

text \<open>The binary node that replaces the vote on bit \<open>index\<close> of a unary node, with the given children.\<close>

definition split_node :: "ID \<Rightarrow> ID \<Rightarrow> nat \<Rightarrow> Unary \<Rightarrow> bool \<Rightarrow> node \<Rightarrow> node \<Rightarrow> node" where
  "split_node preference newChoice index snow sr same new =
     (let b = id_Bit preference index in
      if b = 1 then BinaryNode newChoice preference index (Unary_Extend 1 snow) sr sr new same
      else BinaryNode preference newChoice index (Unary_Extend 0 snow) sr sr same new)"

fun node_Add :: "Factory \<Rightarrow> Parameters \<Rightarrow> ID \<Rightarrow> node \<Rightarrow> node" where
  "node_Add factory params newChoice NilNode = NilNode"
| "node_Add factory params newChoice (UnaryNode preference dp cp snow sr child) =
     (if Unary_Finalized snow then UnaryNode preference dp cp snow sr child
      else case FirstDifferenceSubset dp cp preference newChoice of (index, found) \<Rightarrow>
        if \<not> found then
          UnaryNode preference dp cp snow sr (if child \<noteq> NilNode then node_Add factory params newChoice child else child)
        else
          let newChild = UnaryNode newChoice (index + 1) NumBits (NewUnary factory params) False NilNode;
              newChildUnlessLeaf = (if child \<noteq> NilNode then newChild else NilNode) in
          if dp + 1 = cp then split_node preference newChoice index snow sr child newChildUnlessLeaf
          else if index = dp then
            split_node preference newChoice index snow sr (UnaryNode preference (dp + 1) cp snow sr child) newChild
          else if index + 1 = cp then
            UnaryNode preference dp (cp - 1) snow sr
              (split_node preference newChoice index snow sr child newChildUnlessLeaf)
          else
            UnaryNode preference dp index (Unary_Clone snow) False
              (split_node preference newChoice index snow sr (UnaryNode preference (index + 1) cp snow sr child) newChild))"
| "node_Add factory params newChoice (BinaryNode p0 p1 bt snow r0 r1 c0 c1) =
     (if id_Bit newChoice bt = 1
      then BinaryNode p0 p1 bt snow r0 r1 c0 (if c1 \<noteq> NilNode then node_Add factory params newChoice c1 else c1)
      else BinaryNode p0 p1 bt snow r0 r1 (if c0 \<noteq> NilNode then node_Add factory params newChoice c0 else c0) c1)"

fun node_RecordPoll ::
  "Parameters \<Rightarrow> (ID set \<Rightarrow> ID list) \<Rightarrow> ID bag \<Rightarrow> bool \<Rightarrow> node \<Rightarrow> node \<times> node \<times> bool" where
  "node_RecordPoll params ord votes reset NilNode = (NilNode, NilNode, False)"
| "node_RecordPoll params ord votes reset (UnaryNode preference dp cp snow sr child) =
     (let snow = (if reset then Unary_RecordUnsuccessfulPoll snow else snow);
          sr = (reset \<or> sr);
          numVotes = bag_Len votes in
      if numVotes < AlphaPreference params then
        (let u = UnaryNode preference dp cp (Unary_RecordUnsuccessfulPoll snow) True child in (u, u, False))
      else
        let snow = Unary_RecordPoll numVotes snow in
        if child \<noteq> NilNode then
          (case node_RecordPoll params ord votes sr child of (child, newChild, _) \<Rightarrow>
             if Unary_Finalized snow then (UnaryNode preference dp cp snow sr child, newChild, True)
             else let u = UnaryNode (node_Preference child) dp cp snow False child in (u, u, True))
        else let u = UnaryNode preference dp cp snow False child in (u, u, True))"
| "node_RecordPoll params ord votes reset (BinaryNode p0 p1 bt snow r0 r1 c0 c1) =
     (let splitVotes = bag_Split ord (\<lambda>i. id_Bit i bt = 1) votes;
          one = (bag_Len (snd splitVotes) \<ge> AlphaPreference params);
          snow = (if reset then Binary_RecordUnsuccessfulPoll snow else snow);
          r0 = (one \<or> reset \<or> r0);
          r1 = (\<not> one \<or> reset \<or> r1);
          prunedVotes = (if one then snd splitVotes else fst splitVotes);
          numVotes = bag_Len prunedVotes in
      if numVotes < AlphaPreference params then
        (let b = BinaryNode p0 p1 bt (Binary_RecordUnsuccessfulPoll snow) True True c0 c1 in (b, b, False))
      else
        let snow = Binary_RecordPoll numVotes (if one then 1 else 0) snow in
        if one then
          (if c1 \<noteq> NilNode then
             (case node_RecordPoll params ord prunedVotes r1 c1 of (c1, newChild, _) \<Rightarrow>
                if Binary_Finalized snow then (BinaryNode p0 p1 bt snow r0 r1 c0 c1, newChild, True)
                else let b = BinaryNode p0 (node_Preference newChild) bt snow r0 False c0 c1 in (b, b, True))
           else let b = BinaryNode p0 p1 bt snow r0 False c0 c1 in (b, b, True))
        else
          (if c0 \<noteq> NilNode then
             (case node_RecordPoll params ord prunedVotes r0 c0 of (c0, newChild, _) \<Rightarrow>
                if Binary_Finalized snow then (BinaryNode p0 p1 bt snow r0 r1 c0 c1, newChild, True)
                else let b = BinaryNode (node_Preference newChild) p1 bt snow False r1 c0 c1 in (b, b, True))
           else let b = BinaryNode p0 p1 bt snow False r1 c0 c1 in (b, b, True)))"

record Tree =
  tr_node :: node
  tr_params :: Parameters
  tr_shouldReset :: bool
  tr_factory :: Factory

definition NewTree :: "Factory \<Rightarrow> Parameters \<Rightarrow> ID \<Rightarrow> Tree" where
  "NewTree factory params choice =
     \<lparr>tr_node = UnaryNode choice 0 NumBits (NewUnary factory params) False NilNode,
      tr_params = params, tr_shouldReset = False, tr_factory = factory\<rparr>"

definition Tree_Preference :: "Tree \<Rightarrow> ID" where
  "Tree_Preference t = node_Preference (tr_node t)"

definition Tree_Finalized :: "Tree \<Rightarrow> bool" where
  "Tree_Finalized t = node_Finalized (tr_node t)"

definition Tree_Add :: "ID \<Rightarrow> Tree \<Rightarrow> Tree" where
  "Tree_Add choice t =
     (if EqualSubset 0 (DecidedPrefix (tr_node t)) (Tree_Preference t) choice
      then t\<lparr>tr_node := node_Add (tr_factory t) (tr_params t) choice (tr_node t)\<rparr> else t)"

definition Tree_RecordPoll :: "(ID set \<Rightarrow> ID list) \<Rightarrow> ID bag \<Rightarrow> Tree \<Rightarrow> Tree \<times> bool" where
  "Tree_RecordPoll ord votes t =
     (let decided = DecidedPrefix (tr_node t);
          filteredVotes = bag_Filter ord (\<lambda>i. EqualSubset 0 decided (Tree_Preference t) i) votes
      in case node_RecordPoll (tr_params t) ord filteredVotes (tr_shouldReset t) (tr_node t) of
           (_, node, successful) \<Rightarrow> (t\<lparr>tr_node := node, tr_shouldReset := False\<rparr>, successful))"

definition Tree_RecordUnsuccessfulPoll :: "Tree \<Rightarrow> Tree" where
  "Tree_RecordUnsuccessfulPoll t = t\<lparr>tr_shouldReset := True\<rparr>"

section \<open>Snow instances in the tree\<close>

text \<open>A live instance: single termination condition, one counter below \<^verbatim>\<open>Beta\<close>, not final.\<close>

fun uconf :: "Unary \<Rightarrow> int" where
  "uconf (UnarySnowflake sf) = hd (uf_confidence sf)"
| "uconf (UnarySnowball sb) = hd (uf_confidence sb)"

fun bconf :: "Binary \<Rightarrow> int" where
  "bconf (BinarySnowflake sf) = hd (sf_confidence sf)"
| "bconf (BinarySnowball sb) = hd (sf_confidence sb)"

fun slush :: "Binary \<Rightarrow> nat" where
  "slush (BinarySnowflake sf) = sl_preference sf"
| "slush (BinarySnowball sb) = sl_preference sb"

definition live_unary :: "Parameters \<Rightarrow> 'z unarySnowflake_scheme \<Rightarrow> bool" where
  "live_unary p sf \<longleftrightarrow> uf_alphaPreference sf = AlphaPreference p \<and> uf_terminationConditions sf = single_tcs p \<and>
     (\<exists>k. uf_confidence sf = [k] \<and> 0 \<le> k \<and> k < Beta p) \<and> \<not> uf_finalized sf"

definition live_snowflake :: "Parameters \<Rightarrow> (nat, 'z) snowflake_scheme \<Rightarrow> bool" where
  "live_snowflake p sf \<longleftrightarrow> sf_alphaPreference sf = AlphaPreference p \<and> sf_terminationConditions sf = single_tcs p \<and>
     (\<exists>k. sf_confidence sf = [k] \<and> 0 \<le> k \<and> k < Beta p) \<and> \<not> sf_finalized sf \<and> sl_preference sf \<le> 1"

fun unary_ok :: "Parameters \<Rightarrow> Unary \<Rightarrow> bool" where
  "unary_ok p (UnarySnowflake sf) = live_unary p sf"
| "unary_ok p (UnarySnowball sb) = live_unary p sb"

fun binary_ok :: "Parameters \<Rightarrow> Binary \<Rightarrow> bool" where
  "binary_ok p (BinarySnowflake sf) = live_snowflake p sf"
| "binary_ok p (BinarySnowball sb) = (live_snowflake p sb \<and> bb_preference sb \<le> 1)"

lemma count_single:
  "count_confidence (single_tcs p) n 0 [k] =
     (if n < AlphaConfidence p then ([0], False) else ([k + 1], Beta p \<le> k + 1))"
  by (simp add: single_tcs_def newSingleTerminationCondition_def Let_def clear_from_def)

lemma live_unary_poll:
  assumes "live_unary p sf" and "0 < Beta p" and "sf' = uf_RecordPoll n sf"
  shows "hd (uf_confidence sf') = (if AlphaConfidence p \<le> n then hd (uf_confidence sf) + 1 else 0) \<and>
    (uf_finalized sf' \<longleftrightarrow> Beta p \<le> hd (uf_confidence sf')) \<and> (\<not> uf_finalized sf' \<longrightarrow> live_unary p sf')"
proof -
  from assms(1) obtain k where k: "uf_confidence sf = [k]" "0 \<le> k" "\<not> uf_finalized sf" "uf_terminationConditions sf = single_tcs p"
    "uf_alphaPreference sf = AlphaPreference p" by (auto simp: live_unary_def)
  have "sf' = sf\<lparr>uf_confidence := [if AlphaConfidence p \<le> n then k + 1 else 0],
        uf_finalized := AlphaConfidence p \<le> n \<and> Beta p \<le> k + 1\<rparr>"
    by (simp add: assms(3) uf_RecordPoll_def k count_single)
  with k assms(2) show ?thesis by (auto simp: live_unary_def)
qed

lemma live_snowflake_poll:
  assumes "live_snowflake p sf" and "0 < Beta p" and "AlphaPreference p \<le> n" and "c \<le> 1" and "sf' = sf_RecordPoll n c sf"
  shows "hd (sf_confidence sf') =
      (if AlphaConfidence p \<le> n then (if c = sl_preference sf then hd (sf_confidence sf) else 0) + 1 else 0) \<and>
    (sf_finalized sf' \<longleftrightarrow> Beta p \<le> hd (sf_confidence sf')) \<and> (\<not> sf_finalized sf' \<longrightarrow> live_snowflake p sf') \<and>
    sl_preference sf' = c \<and> snowflake.more sf' = snowflake.more sf"
proof -
  from assms(1) obtain k where k: "sf_confidence sf = [k]" "0 \<le> k" "\<not> sf_finalized sf" "sf_terminationConditions sf = single_tcs p"
    "sf_alphaPreference sf = AlphaPreference p" by (auto simp: live_snowflake_def)
  let ?k = "if c = sl_preference sf then k else 0"
  have "(if c \<noteq> sl_preference sf then clear_from 0 (sf_confidence sf) else sf_confidence sf) = [?k]"
    by (simp add: k)
  then have "sf' = sf\<lparr>sl_preference := c, sf_confidence := [if AlphaConfidence p \<le> n then ?k + 1 else 0],
      sf_finalized := AlphaConfidence p \<le> n \<and> Beta p \<le> ?k + 1\<rparr>"
    unfolding assms(5) sf_RecordPoll_def using k assms(3) by (simp only: Let_def) (simp add: count_single)
  with k assms(2,4) show ?thesis by (auto simp: live_snowflake_def)
qed

lemmas snow_defs = live_unary_def live_snowflake_def uf_RecordUnsuccessfulPoll_def sf_RecordUnsuccessfulPoll_def

lemma unary_new: "0 < Beta p \<Longrightarrow> unary_ok p (NewUnary factory p) \<and> uconf (NewUnary factory p) = 0"
  by (cases factory)
    (auto simp: snow_defs newUnarySnowflake_def newUnarySnowball_def unarySnowflake.defs single_tcs_def newSingleTerminationCondition_def)

lemma unary_not_final: "unary_ok p u \<Longrightarrow> \<not> Unary_Finalized u \<and> 0 \<le> uconf u \<and> uconf u < Beta p"
  by (cases u) (auto simp: live_unary_def)

lemma unary_unsuccessful:
  "0 < Beta p \<Longrightarrow> unary_ok p u \<Longrightarrow> unary_ok p (Unary_RecordUnsuccessfulPoll u) \<and> uconf (Unary_RecordUnsuccessfulPoll u) = 0"
  by (cases u) (auto simp: snow_defs)

lemma unary_final_poll: "Unary_Finalized u \<Longrightarrow> Unary_Finalized (Unary_RecordPoll n u)"
  by (cases u) (auto simp: uf_RecordPoll_def ub_RecordPoll_def split: prod.splits)

lemma unary_final_unsuccessful: "Unary_Finalized (Unary_RecordUnsuccessfulPoll u) = Unary_Finalized u"
  by (cases u) (auto simp: snow_defs)

lemma unary_poll:
  assumes "unary_ok p u" and "0 < Beta p"
  shows "uconf (Unary_RecordPoll n u) = (if AlphaConfidence p \<le> n then uconf u + 1 else 0)"
    and "Unary_Finalized (Unary_RecordPoll n u) \<longleftrightarrow> Beta p \<le> uconf (Unary_RecordPoll n u)"
    and "\<not> Unary_Finalized (Unary_RecordPoll n u) \<Longrightarrow> unary_ok p (Unary_RecordPoll n u)"
proof -
  have "uconf (Unary_RecordPoll n u) = (if AlphaConfidence p \<le> n then uconf u + 1 else 0) \<and>
      (Unary_Finalized (Unary_RecordPoll n u) \<longleftrightarrow> Beta p \<le> uconf (Unary_RecordPoll n u)) \<and>
      (\<not> Unary_Finalized (Unary_RecordPoll n u) \<longrightarrow> unary_ok p (Unary_RecordPoll n u))"
  proof (cases u)
    case (UnarySnowflake sf)
    with assms live_unary_poll [of p sf, OF _ _ refl] show ?thesis by simp
  next
    case (UnarySnowball sb)
    define sb1 where "sb1 =
      (if n \<ge> uf_alphaPreference sb then sb\<lparr>ub_preferenceStrength := ub_preferenceStrength sb + 1\<rparr> else sb)"
    have "live_unary p sb1" "uf_confidence sb1 = uf_confidence sb"
      using assms(1) UnarySnowball by (auto simp: sb1_def live_unary_def)
    moreover have "Unary_RecordPoll n u = UnarySnowball (uf_RecordPoll n sb1)"
      by (simp add: UnarySnowball ub_RecordPoll_def sb1_def)
    ultimately show ?thesis
      using live_unary_poll [of p sb1, OF _ assms(2) refl, of n] UnarySnowball by simp
  qed
  then show "uconf (Unary_RecordPoll n u) = (if AlphaConfidence p \<le> n then uconf u + 1 else 0)"
    "Unary_Finalized (Unary_RecordPoll n u) \<longleftrightarrow> Beta p \<le> uconf (Unary_RecordPoll n u)"
    "\<not> Unary_Finalized (Unary_RecordPoll n u) \<Longrightarrow> unary_ok p (Unary_RecordPoll n u)"
    by blast+
qed

lemma binary_not_final: "binary_ok p b \<Longrightarrow> \<not> Binary_Finalized b \<and> 0 \<le> bconf b \<and> bconf b < Beta p"
  by (cases b) (auto simp: live_snowflake_def)

lemma binary_pref_le: "binary_ok p b \<Longrightarrow> Binary_Preference b \<le> 1 \<and> slush b \<le> 1"
  by (cases b) (auto simp: live_snowflake_def bb_Preference_def)

lemma binary_unsuccessful:
  "0 < Beta p \<Longrightarrow> binary_ok p b \<Longrightarrow>
   binary_ok p (Binary_RecordUnsuccessfulPoll b) \<and> bconf (Binary_RecordUnsuccessfulPoll b) = 0 \<and>
   slush (Binary_RecordUnsuccessfulPoll b) = slush b"
  by (cases b) (auto simp: snow_defs)

lemma unary_extend:
  assumes "unary_ok p u" and "c \<le> 1"
  shows "binary_ok p (Unary_Extend c u) \<and> bconf (Unary_Extend c u) = uconf u \<and> slush (Unary_Extend c u) = c \<and>
    Binary_Preference (Unary_Extend c u) = c"
  using assms by (cases u) (auto simp: snow_defs uf_Extend_def ub_Extend_def snowflake.defs bb_Preference_def)

lemma bb_fields_more:
  "snowflake.more x = snowflake.more (y :: binarySnowball) \<Longrightarrow> bb_preference x = bb_preference y"
  by (cases x; cases y) simp

lemma binary_poll:
  assumes "binary_ok p b" and "0 < Beta p" and "c \<le> 1" and "AlphaPreference p \<le> n"
  shows "bconf (Binary_RecordPoll n c b) = (if AlphaConfidence p \<le> n then (if c = slush b then bconf b else 0) + 1 else 0)"
    and "Binary_Finalized (Binary_RecordPoll n c b) \<longleftrightarrow> Beta p \<le> bconf (Binary_RecordPoll n c b)"
    and "\<not> Binary_Finalized (Binary_RecordPoll n c b) \<Longrightarrow> binary_ok p (Binary_RecordPoll n c b)"
    and "slush (Binary_RecordPoll n c b) = c"
    and "Binary_Finalized (Binary_RecordPoll n c b) \<Longrightarrow> Binary_Preference (Binary_RecordPoll n c b) = c"
proof -
  let ?b = "Binary_RecordPoll n c b"
  have "bconf ?b = (if AlphaConfidence p \<le> n then (if c = slush b then bconf b else 0) + 1 else 0) \<and>
      (Binary_Finalized ?b \<longleftrightarrow> Beta p \<le> bconf ?b) \<and> (\<not> Binary_Finalized ?b \<longrightarrow> binary_ok p ?b) \<and> slush ?b = c \<and>
      (Binary_Finalized ?b \<longrightarrow> Binary_Preference ?b = c)"
  proof (cases b)
    case (BinarySnowflake sf)
    with assms live_snowflake_poll [of p sf, OF _ _ _ _ refl] show ?thesis by simp
  next
    case (BinarySnowball sb)
    define sb1 where "sb1 = (if n \<ge> sf_alphaPreference sb then
          (let ps = bb_preferenceStrength sb; ps = ps[c := ps ! c + 1];
               sb = sb\<lparr>bb_preferenceStrength := ps\<rparr>
           in if ps ! c > ps ! (1 - c) then sb\<lparr>bb_preference := c\<rparr> else sb)
        else sb)"
    have l: "live_snowflake p sb1" "sf_confidence sb1 = sf_confidence sb" "sl_preference sb1 = sl_preference sb" "bb_preference sb1 \<le> 1"
      using assms(1,3) BinarySnowball by (auto simp: sb1_def live_snowflake_def Let_def)
    have eq: "?b = BinarySnowball (sf_RecordPoll n c sb1)"
      by (simp add: BinarySnowball bb_RecordPoll_def sb1_def)
    have "bb_preference (sf_RecordPoll n c sb1) \<le> 1" using bb_fields_more [of "sf_RecordPoll n c sb1" sb1] l(4) by simp
    with live_snowflake_poll [OF l(1) assms(2,4,3) refl] l(2,3) show ?thesis
      unfolding eq by (simp add: BinarySnowball bb_Preference_def)
  qed
  then show "bconf ?b = (if AlphaConfidence p \<le> n then (if c = slush b then bconf b else 0) + 1 else 0)"
    "Binary_Finalized ?b \<longleftrightarrow> Beta p \<le> bconf ?b" "\<not> Binary_Finalized ?b \<Longrightarrow> binary_ok p ?b" "slush ?b = c"
    "Binary_Finalized ?b \<Longrightarrow> Binary_Preference ?b = c"
    by blast+
qed

end
