(* ===== verification/TreeProperties.thy ===== *)
theory TreeProperties
  imports SnowTree
begin

text \<open>
  Safety of the snowball tree. In a live tree no instance is final, the nodes partition the bits of
  the choices, every stored preference is an added choice, and the confidence of a child, once a
  pending reset is taken into account, never exceeds that of its parent: the tree decides from
  the root down. A tree whose root is final is a single leaf.
\<close>

section \<open>Invariant\<close>

fun node_conf :: "node \<Rightarrow> int" where
  "node_conf (UnaryNode preference dp cp snow sr child) = uconf snow"
| "node_conf (BinaryNode p0 p1 bt snow r0 r1 c0 c1) = bconf snow"

fun live :: "Parameters \<Rightarrow> ID set \<Rightarrow> node \<Rightarrow> bool" where
  "live p A NilNode = False"
| "live p A (UnaryNode preference dp cp snow sr child) \<longleftrightarrow>
     unary_ok p snow \<and> preference \<in> A \<and> dp < cp \<and> cp \<le> 256 \<and> (child = NilNode \<longleftrightarrow> cp = 256) \<and>
     (child \<noteq> NilNode \<longrightarrow> live p A child \<and> DecidedPrefix child = cp \<and> node_Preference child = preference \<and>
        (sr \<or> node_conf child \<le> uconf snow))"
| "live p A (BinaryNode p0 p1 bt snow r0 r1 c0 c1) \<longleftrightarrow>
     binary_ok p snow \<and> p0 \<in> A \<and> p1 \<in> A \<and> bt < 256 \<and> agree p0 p1 0 bt \<and> \<not> bit_at p0 bt \<and> bit_at p1 bt \<and>
     (c0 = NilNode \<longleftrightarrow> bt = 255) \<and> (c1 = NilNode \<longleftrightarrow> bt = 255) \<and>
     (c0 \<noteq> NilNode \<longrightarrow> live p A c0 \<and> DecidedPrefix c0 = bt + 1 \<and> node_Preference c0 = p0 \<and>
        (r0 \<or> node_conf c0 \<le> (if slush snow = 0 then bconf snow else 0))) \<and>
     (c1 \<noteq> NilNode \<longrightarrow> live p A c1 \<and> DecidedPrefix c1 = bt + 1 \<and> node_Preference c1 = p1 \<and>
        (r1 \<or> node_conf c1 \<le> (if slush snow = 1 then bconf snow else 0)))"

fun final_leaf :: "ID set \<Rightarrow> node \<Rightarrow> bool" where
  "final_leaf A NilNode = False"
| "final_leaf A (UnaryNode preference dp cp snow sr child) \<longleftrightarrow>
     Unary_Finalized snow \<and> child = NilNode \<and> preference \<in> A \<and> dp < cp \<and> cp = 256"
| "final_leaf A (BinaryNode p0 p1 bt snow r0 r1 c0 c1) \<longleftrightarrow>
     Binary_Finalized snow \<and> c0 = NilNode \<and> c1 = NilNode \<and> p0 \<in> A \<and> p1 \<in> A \<and> bt < 256"

lemma live_not_final: "live p A n \<Longrightarrow> \<not> node_Finalized n \<and> 0 \<le> node_conf n \<and> node_conf n < Beta p"
  using unary_not_final binary_not_final by (cases n) auto

lemma live_mono: "live p A n \<Longrightarrow> A \<subseteq> B \<Longrightarrow> live p B n"
  by (induction n) auto

lemma final_leaf_mono: "final_leaf A n \<Longrightarrow> A \<subseteq> B \<Longrightarrow> final_leaf B n"
  by (cases n) auto

lemma live_preference: "live p A n \<Longrightarrow> node_Preference n \<in> A"
  by (cases n) auto

lemma final_leaf_preference: "final_leaf A n \<Longrightarrow> node_Preference n \<in> A"
  by (cases n) auto

lemma live_prefix: "live p A n \<Longrightarrow> DecidedPrefix n < 256"
  by (cases n) auto

lemma agree_refl [simp]: "agree a a s t"
  by (simp add: agree_def)

lemma agree_sym: "agree a b s t \<Longrightarrow> agree b a s t"
  by (simp add: agree_def)

lemma agree_trans: "agree a b s t \<Longrightarrow> agree b c s t \<Longrightarrow> agree a c s t"
  by (simp add: agree_def)

lemma agree_less: "agree a b s t \<Longrightarrow> t' \<le> t \<Longrightarrow> agree a b s t'"
  by (simp add: agree_def)

lemma agree_join: "agree a b r s \<Longrightarrow> agree a b s t \<Longrightarrow> agree a b r t"
  by (auto simp: agree_def) (metis not_le)+

lemma agree_Suc: "agree a b 0 (Suc t) \<longleftrightarrow> agree a b 0 t \<and> bit_at a t = bit_at b t"
  by (auto simp: agree_def less_Suc_eq)

section \<open>Add\<close>

lemma split_node_live:
  assumes snow: "unary_ok p snow" and A: "preference \<in> A" "x \<in> A" and i: "i < 256"
    and ag: "agree preference x 0 i" "bit_at preference i \<noteq> bit_at x i"
    and same: "same = NilNode \<longleftrightarrow> i = 255" "same \<noteq> NilNode \<longrightarrow> live p A same \<and> DecidedPrefix same = i + 1 \<and>
      node_Preference same = preference \<and> (sr \<or> node_conf same \<le> uconf snow)"
    and new: "new = NilNode \<longleftrightarrow> i = 255" "new \<noteq> NilNode \<longrightarrow> live p A new \<and> DecidedPrefix new = i + 1 \<and>
      node_Preference new = x \<and> node_conf new = 0"
  shows "live p A (split_node preference x i snow sr same new) \<and> DecidedPrefix (split_node preference x i snow sr same new) = i \<and>
    node_Preference (split_node preference x i snow sr same new) = preference \<and>
    node_conf (split_node preference x i snow sr same new) = uconf snow"
  using assms unary_extend [OF snow, of 0] unary_extend [OF snow, of 1] agree_sym [OF ag(1)] unary_not_final [OF snow]
  by (cases "bit_at preference i") (auto simp: split_node_def id_Bit_bit_at)

lemma new_child_live:
  "0 < Beta p \<Longrightarrow> x \<in> A \<Longrightarrow> i < 255 \<Longrightarrow>
   live p A (UnaryNode x (i + 1) NumBits (NewUnary factory p) False NilNode) \<and>
   node_conf (UnaryNode x (i + 1) NumBits (NewUnary factory p) False NilNode) = 0"
  using unary_new [of p factory] by (simp add: NumBits_def)

text \<open>The split of a unary node, at whatever bit of its range.\<close>

lemma unary_split_live:
  assumes beta: "0 < Beta p" and u: "live p A (UnaryNode preference dp cp snow sr child)" and x: "x \<in> A"
    and d: "first_difference preference x dp cp i" and ag: "agree preference x 0 dp"
    and found: "FirstDifferenceSubset dp cp preference x = (i, True)"
    and r: "r = node_Add factory p x (UnaryNode preference dp cp snow sr child)"
  shows "live p A r \<and> DecidedPrefix r = dp \<and> node_Preference r = preference \<and> node_conf r = uconf snow"
proof -
  have fin: "\<not> Unary_Finalized snow" and snow: "unary_ok p snow" and A: "preference \<in> A"
    and cp: "dp < cp" "cp \<le> 256" "child = NilNode \<longleftrightarrow> cp = 256"
    using u live_not_final [OF u] by auto
  have ch: "live p A child" "DecidedPrefix child = cp" "node_Preference child = preference" "sr \<or> node_conf child \<le> uconf snow"
    if "child \<noteq> NilNode" using u that by auto
  have i: "dp \<le> i" "i < cp" "bit_at preference i \<noteq> bit_at x i" and agi: "agree preference x 0 i"
    using d agree_join [OF ag] by (auto simp: first_difference_def)
  let ?new = "UnaryNode x (i + 1) NumBits (NewUnary factory p) False NilNode"
  let ?leaf = "if child \<noteq> NilNode then ?new else NilNode"
  have new: "live p A ?new \<and> node_conf ?new = 0" if "i < 255" using new_child_live [OF beta x that] .
  have i256: "i < 256" using i(2) cp by simp
  note split = split_node_live [OF snow A x i256 agi i(3)]
  define bot where "bot = split_node preference x i snow sr child ?leaf"
  have bottom: "live p A bot \<and> DecidedPrefix bot = i \<and> node_Preference bot = preference \<and> node_conf bot = uconf snow"
    if "i + 1 = cp"
    unfolding bot_def by (rule split) (use that cp ch new in \<open>auto split: if_splits\<close>)
  define upp where "upp = split_node preference x i snow sr (UnaryNode preference (i + 1) cp snow sr child) ?new"
  have upper: "live p A upp \<and> DecidedPrefix upp = i \<and> node_Preference upp = preference \<and> node_conf upp = uconf snow"
    if "i + 1 < cp"
    unfolding upp_def by (rule split) (use that u new cp in auto)
  have add: "r = (if dp + 1 = cp then bot else if i = dp then upp
      else if i + 1 = cp then UnaryNode preference dp (cp - 1) snow sr bot
      else UnaryNode preference dp i snow False upp)"
    using found fin by (simp add: r bot_def upp_def Unary_Clone_def Let_def)
  have ne: "i + 1 = cp \<Longrightarrow> bot \<noteq> NilNode" "i + 1 < cp \<Longrightarrow> upp \<noteq> NilNode" using bottom upper by auto
  consider "dp + 1 = cp" "i = dp" | "dp + 1 < cp" "i = dp" | "dp < i" "i + 1 = cp" | "dp < i" "i + 1 < cp"
    using i cp by linarith
  then show ?thesis
  proof cases
    case 1
    with bottom add show ?thesis by simp
  next
    case 2
    with upper add show ?thesis by simp
  next
    case 3
    then have "cp - 1 = i" "dp + 1 \<noteq> cp" "i \<noteq> dp" "i \<noteq> 256" using cp by auto
    with 3 bottom add ne snow A cp show ?thesis by simp
  next
    case 4
    then have "dp + 1 \<noteq> cp" "i \<noteq> dp" "i + 1 \<noteq> cp" "i < 256" using cp by auto
    with 4 upper add ne snow A cp show ?thesis by simp
  qed
qed

lemma node_Add_live:
  assumes beta: "0 < Beta p" and x: "x \<in> A"
  shows "live p A n \<Longrightarrow> agree (node_Preference n) x 0 (DecidedPrefix n) \<Longrightarrow> r = node_Add factory p x n \<Longrightarrow>
    live p A r \<and> DecidedPrefix r = DecidedPrefix n \<and> node_Preference r = node_Preference n \<and> node_conf r = node_conf n"
proof (induction n arbitrary: r)
  case NilNode
  then show ?case by simp
next
  case (UnaryNode preference dp cp snow sr child)
  obtain i found where f: "FirstDifferenceSubset dp cp preference x = (i, found)" by fastforce
  have cp: "cp \<le> 256" "dp < cp" using UnaryNode.prems(1) by auto
  have loc: "located preference x dp cp (i, found)" using FirstDifferenceSubset_located [OF cp(1)] f by metis
  have ag: "agree preference x 0 dp" using UnaryNode.prems(2) by simp
  have nf: "\<not> Unary_Finalized snow" using live_not_final [OF UnaryNode.prems(1)] by simp
  show ?case
  proof (cases found)
    case True
    with loc have "first_difference preference x dp cp i" by (simp add: located_def)
    from unary_split_live [OF beta UnaryNode.prems(1) x this ag _ UnaryNode.prems(3)] f True show ?thesis by simp
  next
    case False
    with loc have "agree preference x 0 cp" using agree_join [OF ag] by (simp add: located_def)
    then have IH: "child \<noteq> NilNode \<Longrightarrow> live p A (node_Add factory p x child) \<and>
        DecidedPrefix (node_Add factory p x child) = cp \<and> node_Preference (node_Add factory p x child) = preference \<and>
        node_conf (node_Add factory p x child) = node_conf child"
      using UnaryNode.IH [OF _ _ refl] UnaryNode.prems(1) by simp
    have ne: "node_Add factory p x child \<noteq> NilNode" if "child \<noteq> NilNode" using IH [OF that] by auto
    show ?thesis using UnaryNode.prems f False nf IH ne by (auto split: if_splits)
  qed
next
  case (BinaryNode p0 p1 bt snow r0 r1 c0 c1)
  let ?b = "bit_at x bt" and ?c = "\<lambda>c. node_Add factory p x c"
  have prems: "agree p0 p1 0 bt" "\<not> bit_at p0 bt" "bit_at p1 bt" using BinaryNode.prems(1) by auto
  have ag: "agree p0 x 0 bt" "agree p1 x 0 bt"
    using BinaryNode.prems(2) agree_trans [OF prems(1)] agree_trans [OF agree_sym [OF prems(1)]]
    by (cases "Binary_Preference snow = 1"; simp)+
  have IH0: "live p A (?c c0) \<and> DecidedPrefix (?c c0) = bt + 1 \<and> node_Preference (?c c0) = p0 \<and> node_conf (?c c0) = node_conf c0"
    if "c0 \<noteq> NilNode" "\<not> ?b"
    using BinaryNode.IH(1) [OF _ _ refl] BinaryNode.prems(1) that ag(1) prems by (simp add: agree_Suc)
  have IH1: "live p A (?c c1) \<and> DecidedPrefix (?c c1) = bt + 1 \<and> node_Preference (?c c1) = p1 \<and> node_conf (?c c1) = node_conf c1"
    if "c1 \<noteq> NilNode" "?b"
    using BinaryNode.IH(2) [OF _ _ refl] BinaryNode.prems(1) that ag(2) prems by (simp add: agree_Suc)
  have ne: "?c c0 \<noteq> NilNode" if "c0 \<noteq> NilNode" "\<not> ?b" using IH0 [OF that] by auto
  have ne1: "?c c1 \<noteq> NilNode" if "c1 \<noteq> NilNode" "?b" using IH1 [OF that] by auto
  show ?case
    using BinaryNode.prems IH0 IH1 ne ne1 by (cases ?b) (auto simp: id_Bit_bit_at split: if_splits)
qed

section \<open>RecordPoll\<close>

text \<open>
  What a poll with \<open>v\<close> votes makes of a live node: the receiver keeps its prefix and its decided bits,
  its confidence grows by at most one, and unless it becomes final it is live and returned; if it
  becomes final, the node returned in its place is live or a final leaf, further down the tree.
\<close>

definition polled :: "Parameters \<Rightarrow> ID set \<Rightarrow> int \<Rightarrow> bool \<Rightarrow> node \<Rightarrow> node \<times> node \<times> bool \<Rightarrow> bool" where
  "polled p A v reset n out \<longleftrightarrow> (case out of (n', r, s) \<Rightarrow>
     n' \<noteq> NilNode \<and> DecidedPrefix n' = DecidedPrefix n \<and> agree (node_Preference n) (node_Preference n') 0 (DecidedPrefix n) \<and>
     0 \<le> node_conf n' \<and>
     node_conf n' \<le> (if AlphaConfidence p \<le> v then (if reset then 0 else node_conf n) + 1 else 0) \<and>
     (node_Finalized n' \<longleftrightarrow> Beta p \<le> node_conf n') \<and>
     (if node_Finalized n'
      then (live p A r \<or> final_leaf A r) \<and> DecidedPrefix n \<le> DecidedPrefix r \<and>
        agree (node_Preference n) (node_Preference r) 0 (DecidedPrefix n)
      else live p A n' \<and> r = n'))"

lemma polled_child:
  assumes "polled p A v rs c (c', rn, s)" and "rs \<or> node_conf c \<le> e" and "0 \<le> e"
  shows "node_conf c' \<le> (if AlphaConfidence p \<le> v then e + 1 else 0)"
    and "(if AlphaConfidence p \<le> v then e + 1 else 0) < Beta p \<Longrightarrow> live p A c' \<and> rn = c'"
    and "live p A rn \<or> final_leaf A rn" and "DecidedPrefix c \<le> DecidedPrefix rn"
    and "agree (node_Preference c) (node_Preference rn) 0 (DecidedPrefix c)"
    and "agree (node_Preference c) (node_Preference c') 0 (DecidedPrefix c)" and "DecidedPrefix c' = DecidedPrefix c"
    and "c' \<noteq> NilNode"
proof -
  note P = assms(1) [unfolded polled_def, simplified]
  show le: "node_conf c' \<le> (if AlphaConfidence p \<le> v then e + 1 else 0)"
    using P assms(2,3) by (auto split: if_splits)
  show "(if AlphaConfidence p \<le> v then e + 1 else 0) < Beta p \<Longrightarrow> live p A c' \<and> rn = c'"
    using P le by (auto split: if_splits)
  show "live p A rn \<or> final_leaf A rn" "DecidedPrefix c \<le> DecidedPrefix rn"
    "agree (node_Preference c) (node_Preference rn) 0 (DecidedPrefix c)"
    "agree (node_Preference c) (node_Preference c') 0 (DecidedPrefix c)" "DecidedPrefix c' = DecidedPrefix c" "c' \<noteq> NilNode"
    using P by (auto split: if_splits)
qed

lemma unary_polled:
  assumes beta: "0 < Beta p" and u: "live p A (UnaryNode preference dp cp snow sr child)"
    and child: "\<And>rs. child \<noteq> NilNode \<Longrightarrow> polled p A (bag_Len votes) rs child (node_RecordPoll p ord votes rs child)"
  shows "polled p A (bag_Len votes) reset (UnaryNode preference dp cp snow sr child)
    (node_RecordPoll p ord votes reset (UnaryNode preference dp cp snow sr child))"
proof -
  have snow: "unary_ok p snow" and A: "preference \<in> A" and cp: "dp < cp" "cp \<le> 256" "child = NilNode \<longleftrightarrow> cp = 256"
    and ch: "child \<noteq> NilNode \<Longrightarrow> live p A child \<and> DecidedPrefix child = cp \<and> node_Preference child = preference \<and>
      (sr \<or> node_conf child \<le> uconf snow)" using u by auto
  define snow1 where "snow1 = (if reset then Unary_RecordUnsuccessfulPoll snow else snow)"
  define e where "e = (if reset then 0 else uconf snow)"
  have s1: "unary_ok p snow1" "uconf snow1 = e"
    using snow unary_unsuccessful [OF beta snow] by (auto simp: snow1_def e_def)
  have e: "0 \<le> e" using unary_not_final [OF snow] by (simp add: e_def)
  define snow2 where "snow2 = Unary_RecordPoll (bag_Len votes) snow1"
  note s2 = unary_poll [OF s1(1) beta, of "bag_Len votes", folded snow2_def, unfolded s1(2)]
  let ?k = "if AlphaConfidence p \<le> bag_Len votes then e + 1 else 0"
  have k0: "0 \<le> uconf snow2" using s2(1) e by simp
  show ?thesis
  proof (cases "bag_Len votes < AlphaPreference p")
    case True
    define u where "u = UnaryNode preference dp cp (Unary_RecordUnsuccessfulPoll snow1) True child"
    have rec: "node_RecordPoll p ord votes reset (UnaryNode preference dp cp snow sr child) = (u, u, False)"
      using True by (simp add: u_def Let_def flip: snow1_def)
    have "live p A u" "node_conf u = 0" "DecidedPrefix u = dp" "node_Preference u = preference"
      using unary_unsuccessful [OF beta s1(1)] u by (auto simp: u_def)
    with live_not_final [of p A u] beta e show ?thesis unfolding rec polled_def by (auto simp: e_def u_def)
  next
    case low: False
    show ?thesis
    proof (cases "child = NilNode")
      case True
      define u where "u = UnaryNode preference dp cp snow2 False NilNode"
      have rec: "node_RecordPoll p ord votes reset (UnaryNode preference dp cp snow sr child) = (u, u, True)"
        using low True by (simp add: u_def Let_def flip: snow1_def snow2_def)
      have "if Unary_Finalized snow2 then final_leaf A u else live p A u"
        using A cp s2(3) True by (simp add: u_def)
      with s2(1,2) k0 show ?thesis unfolding rec polled_def by (auto simp: e_def u_def)
    next
      case False
      obtain c' rn s where out: "node_RecordPoll p ord votes (reset \<or> sr) child = (c', rn, s)" by (metis prod_cases3)
      have "polled p A (bag_Len votes) (reset \<or> sr) child (c', rn, s)" using child [OF False, of "reset \<or> sr"] out by simp
      note P = polled_child [OF this _ e]
      have bound: "(reset \<or> sr) \<or> node_conf child \<le> e" using ch [OF False] by (auto simp: e_def)
      have ag: "agree preference (node_Preference rn) 0 dp" "agree preference (node_Preference c') 0 dp"
        using P(5,6) [OF bound] ch [OF False] agree_less cp(1) by (metis less_imp_le)+
      have rec: "node_RecordPoll p ord votes reset (UnaryNode preference dp cp snow sr child) =
          (if Unary_Finalized snow2 then (UnaryNode preference dp cp snow2 (reset \<or> sr) c', rn, True)
           else (UnaryNode (node_Preference c') dp cp snow2 False c', UnaryNode (node_Preference c') dp cp snow2 False c', True))"
        using low False out by (simp add: Let_def flip: snow1_def snow2_def)
      show ?thesis
      proof (cases "Unary_Finalized snow2")
        case True
        with P(3,4) [OF bound] ch [OF False] cp ag(1) s2 k0 show ?thesis unfolding rec polled_def by (auto simp: e_def)
      next
        case nf: False
        then have "?k < Beta p" using s2 by simp
        with P(2) [OF bound] have c': "live p A c'" "rn = c'" by auto
        have "live p A (UnaryNode (node_Preference c') dp cp snow2 False c')"
          using s2(1,3) nf live_preference [OF c'(1)] cp P(1,7,8) [OF bound] c'(1) ch [OF False] False by auto
        with nf s2(1,2) k0 ag(2) show ?thesis unfolding rec polled_def by (auto simp: e_def)
      qed
    qed
  qed
qed

text \<open>A binary node seen from side \<open>c\<close>: its own preference, pending reset and child, then the other's.\<close>

definition bnode :: "nat \<Rightarrow> ID \<Rightarrow> ID \<Rightarrow> nat \<Rightarrow> Binary \<Rightarrow> bool \<Rightarrow> bool \<Rightarrow> node \<Rightarrow> node \<Rightarrow> node" where
  "bnode c pc po bt snow rc ro cc co =
     (if c = 1 then BinaryNode po pc bt snow ro rc co cc else BinaryNode pc po bt snow rc ro cc co)"

lemma bnode_simps [simp]:
  "DecidedPrefix (bnode c pc po bt snow rc ro cc co) = bt"
  "node_Finalized (bnode c pc po bt snow rc ro cc co) = Binary_Finalized snow"
  "node_conf (bnode c pc po bt snow rc ro cc co) = bconf snow"
  "bnode c pc po bt snow rc ro cc co \<noteq> NilNode"
  by (simp_all add: bnode_def)

lemma bnode_Preference: "node_Preference (bnode c pc po bt snow rc ro cc co) \<in> {pc, po}"
  by (simp add: bnode_def)

lemma final_leaf_bnode:
  "final_leaf A (bnode c pc po bt snow rc ro cc co) \<longleftrightarrow>
     Binary_Finalized snow \<and> cc = NilNode \<and> co = NilNode \<and> pc \<in> A \<and> po \<in> A \<and> bt < 256"
  by (auto simp: bnode_def)

lemma live_bnode:
  assumes "c \<le> 1"
  shows "live p A (bnode c pc po bt snow rc ro cc co) \<longleftrightarrow>
    binary_ok p snow \<and> pc \<in> A \<and> po \<in> A \<and> bt < 256 \<and> agree pc po 0 bt \<and> bit_at pc bt = (c = 1) \<and> bit_at po bt = (c \<noteq> 1) \<and>
    (cc = NilNode \<longleftrightarrow> bt = 255) \<and> (co = NilNode \<longleftrightarrow> bt = 255) \<and>
    (cc \<noteq> NilNode \<longrightarrow> live p A cc \<and> DecidedPrefix cc = bt + 1 \<and> node_Preference cc = pc \<and>
       (rc \<or> node_conf cc \<le> (if slush snow = c then bconf snow else 0))) \<and>
    (co \<noteq> NilNode \<longrightarrow> live p A co \<and> DecidedPrefix co = bt + 1 \<and> node_Preference co = po \<and>
       (ro \<or> node_conf co \<le> (if slush snow = 1 - c then bconf snow else 0)))"
  using assms agree_sym [of pc po 0 bt] agree_sym [of po pc 0 bt]
  by (cases "c = 1") (auto simp: bnode_def)

text \<open>A poll with \<open>v\<close> votes for side \<open>c\<close>, given what the poll makes of the child on that side.\<close>

definition side_poll ::
  "Parameters \<Rightarrow> bool \<Rightarrow> nat \<Rightarrow> ID \<Rightarrow> ID \<Rightarrow> nat \<Rightarrow> Binary \<Rightarrow> bool \<Rightarrow> node \<Rightarrow> node \<Rightarrow> int \<Rightarrow> node \<times> node \<times> bool \<Rightarrow>
   node \<times> node \<times> bool" where
  "side_poll p reset c pc po bt snow rc cc co v out =
     (let (cc', rn, s) = out;
          snow1 = (if reset then Binary_RecordUnsuccessfulPoll snow else snow);
          snow2 = Binary_RecordPoll v c snow1 in
      if v < AlphaPreference p then
        (let b = bnode c pc po bt (Binary_RecordUnsuccessfulPoll snow1) True True cc co in (b, b, False))
      else if cc = NilNode then (let b = bnode c pc po bt snow2 False True cc co in (b, b, True))
      else if Binary_Finalized snow2 then (bnode c pc po bt snow2 (reset \<or> rc) True cc' co, rn, True)
      else (let b = bnode c (node_Preference rn) po bt snow2 False True cc' co in (b, b, True)))"

definition side :: "Parameters \<Rightarrow> nat \<Rightarrow> ID multiset \<Rightarrow> nat" where
  "side p bt M = (if AlphaPreference p \<le> int (size (filter_mset (\<lambda>x. bit_at x bt) M)) then 1 else 0)"

lemma side_le: "side p bt M \<le> 1"
  by (simp add: side_def)

text \<open>Every poll of a binary node is of this form.\<close>

lemma binary_poll_view:
  assumes votes: "represents votes M" and ord: "valid_ord ord" and c: "c = side p bt M"
  obtains pc po rc ro cc co pv where "BinaryNode p0 p1 bt snow r0 r1 c0 c1 = bnode c pc po bt snow rc ro cc co"
    "cc = (if c = 1 then c1 else c0)" "represents pv (filter_mset (\<lambda>x. bit_at x bt = (c = 1)) M)" "bag_Len pv \<le> bag_Len votes"
    "node_RecordPoll p ord votes reset (BinaryNode p0 p1 bt snow r0 r1 c0 c1) =
      side_poll p reset c pc po bt snow rc cc co (bag_Len pv) (node_RecordPoll p ord pv (reset \<or> rc) cc)"
proof -
  define pv1 where "pv1 = bag_Filter ord (\<lambda>i. id_Bit i bt = 1) votes"
  define pv0 where "pv0 = bag_Filter ord (\<lambda>i. id_Bit i bt \<noteq> 1) votes"
  have one: "(id_Bit x bt = 1) = bit_at x bt" for x by (simp add: id_Bit_bit_at)
  have r1: "represents pv1 (filter_mset (\<lambda>x. bit_at x bt) M)" and r0: "represents pv0 (filter_mset (\<lambda>x. \<not> bit_at x bt) M)"
    unfolding pv1_def pv0_def one by (rule represents_Filter [OF votes ord])+
  have le: "bag_Len pv1 \<le> bag_Len votes" "bag_Len pv0 \<le> bag_Len votes"
    using represents_Len [OF r1] represents_Len [OF r0] represents_Len [OF votes] by (simp_all add: size_filter_mset_lesseq)
  have "bag_Split ord (\<lambda>i. id_Bit i bt = 1) votes = (pv0, pv1)" by (simp add: bag_Split_eq pv1_def pv0_def)
  then have sp: "bag_Split ord (\<lambda>i. id_Bit i bt = Suc 0) votes = (pv0, pv1)" by simp
  have c1: "c = 1 \<longleftrightarrow> AlphaPreference p \<le> bag_Len pv1" using represents_Len [OF r1] by (simp add: c side_def)
  show thesis
  proof (cases "c = 1")
    case True
    obtain cc' rn s where out: "node_RecordPoll p ord pv1 (reset \<or> r1) c1 = (cc', rn, s)" by (metis prod_cases3)
    show thesis
      by (rule that [of p1 p0 r1 r0 c1 c0 pv1])
        (use True c1 r1 le out in \<open>simp_all add: bnode_def side_poll_def sp Let_def\<close>)
  next
    case False
    then have "c = 0" by (simp add: c side_def split: if_splits)
    obtain cc' rn s where out: "node_RecordPoll p ord pv0 (reset \<or> r0) c0 = (cc', rn, s)" by (metis prod_cases3)
    show thesis
      by (rule that [of p0 p1 r0 r1 c0 c1 pv0])
        (use False \<open>c = 0\<close> c1 r0 le out in \<open>simp_all add: bnode_def side_poll_def sp Let_def\<close>)
  qed
qed

lemma binary_success_polled:
  assumes beta: "0 < Beta p" and b: "live p A (bnode c pc po bt snow rc ro cc co)" and c: "c \<le> 1"
    and child: "cc \<noteq> NilNode \<Longrightarrow> polled p A v' (reset \<or> rc) cc (cc', rn, s)" and v: "v' \<le> v" and alpha: "AlphaPreference p \<le> v'"
    and snow1: "snow1 = (if reset then Binary_RecordUnsuccessfulPoll snow else snow)"
    and snow2: "snow2 = Binary_RecordPoll v' c snow1"
  shows "polled p A v reset (bnode c pc po bt snow rc ro cc co)
    (if cc = NilNode then (let b = bnode c pc po bt snow2 False True cc co in (b, b, True))
     else if Binary_Finalized snow2 then (bnode c pc po bt snow2 (reset \<or> rc) True cc' co, rn, True)
     else (let b = bnode c (node_Preference rn) po bt snow2 False True cc' co in (b, b, True)))"
proof -
  note B = b [unfolded live_bnode [OF c]]
  define e where "e = (if c = slush snow1 then bconf snow1 else 0)"
  have snow: "binary_ok p snow" using B by blast
  have s1: "binary_ok p snow1" "slush snow1 = slush snow" "bconf snow1 = (if reset then 0 else bconf snow)"
    using snow binary_unsuccessful [OF beta snow] by (auto simp: snow1)
  have e: "0 \<le> e" "e \<le> (if reset then 0 else bconf snow)" using binary_not_final [OF s1(1)] by (auto simp: e_def s1)
  note s2 = binary_poll [OF s1(1) beta c alpha, folded snow2 e_def]
  have k: "0 \<le> bconf snow2" "bconf snow2 \<le> (if AlphaConfidence p \<le> v then (if reset then 0 else bconf snow) + 1 else 0)"
    using s2(1) e v by auto
  have prefs: "agree (node_Preference (bnode c pc po bt snow rc ro cc co)) q 0 bt" if "agree pc q 0 bt" for q
    using bnode_Preference [of c pc po bt snow rc ro cc co] that B agree_trans agree_sym by (metis insertE singletonD)
  have stay: "agree (node_Preference (bnode c pc po bt snow rc ro cc co)) (node_Preference (bnode c pc' po bt' snow' rc' ro' cc1 co')) 0 bt"
    if "agree pc pc' 0 bt" for pc' bt' snow' rc' ro' cc1 co'
    using prefs bnode_Preference [of c pc' po bt' snow' rc' ro' cc1 co'] that B by (metis insertE singletonD)
  show ?thesis
  proof (cases "cc = NilNode")
    case True
    have "if Binary_Finalized snow2 then final_leaf A (bnode c pc po bt snow2 False True cc co)
        else live p A (bnode c pc po bt snow2 False True cc co)"
      using B s2(3) True by (auto simp: final_leaf_bnode live_bnode [OF c])
    with True k s2(2) stay [of pc] show ?thesis unfolding polled_def Let_def by auto
  next
    case False
    have bound: "(reset \<or> rc) \<or> node_conf cc \<le> e" using B False by (auto simp: e_def s1 split: if_splits)
    note P = polled_child [OF child [OF False] bound e(1)]
    have ag: "agree pc (node_Preference rn) 0 (Suc bt)" using P(5) B False by simp
    then have ag': "agree pc (node_Preference rn) 0 bt" by (simp add: agree_Suc)
    show ?thesis
    proof (cases "Binary_Finalized snow2")
      case True
      have "bt \<le> DecidedPrefix rn" using P(4) B False by simp
      with True False P(3) k s2(2) stay [of pc] prefs [OF ag'] show ?thesis unfolding polled_def by auto
    next
      case nf: False
      then have "(if AlphaConfidence p \<le> v' then e + 1 else 0) < Beta p" using s2(1,2) by simp
      with P(2) have c': "live p A cc'" "rn = cc'" by auto
      have po: "agree (node_Preference rn) po 0 bt" using B ag' agree_trans agree_sym by blast
      have "bit_at (node_Preference rn) bt = (c = 1)" using ag B by (simp add: agree_Suc)
      then have "live p A (bnode c (node_Preference rn) po bt snow2 False True cc' co)"
        using B s2(1,3,4) nf c' P(1,7,8) po live_preference [OF c'(1)] False by (auto simp: live_bnode [OF c])
      with nf False k s2(2) stay [OF ag'] show ?thesis unfolding polled_def Let_def by auto
    qed
  qed
qed

lemma binary_low_polled:
  assumes beta: "0 < Beta p" and b: "live p A (bnode c pc po bt snow rc ro cc co)" and c: "c \<le> 1"
    and b': "b' = bnode c pc po bt (Binary_RecordUnsuccessfulPoll (if reset then Binary_RecordUnsuccessfulPoll snow else snow)) True True cc co"
  shows "polled p A v reset (bnode c pc po bt snow rc ro cc co) (b', b', False)"
proof -
  let ?snow = "Binary_RecordUnsuccessfulPoll (if reset then Binary_RecordUnsuccessfulPoll snow else snow)"
  note B = b [unfolded live_bnode [OF c]]
  have snow: "binary_ok p ?snow" "bconf ?snow = 0"
    using B binary_unsuccessful [OF beta] by auto
  then have "live p A b'" using B unfolding b' live_bnode [OF c] by auto
  moreover have "agree (node_Preference (bnode c pc po bt snow rc ro cc co)) (node_Preference b') 0 bt"
    using bnode_Preference [of c pc po bt snow rc ro cc co] bnode_Preference [of c pc po bt ?snow True True cc co] B agree_sym agree_refl
    unfolding b' by (metis insertE singletonD)
  ultimately show ?thesis
    using beta live_not_final [OF b] live_not_final [of p A b'] snow(2) by (auto simp: polled_def b')
qed

lemma binary_polled:
  assumes "0 < Beta p" and "live p A (bnode c pc po bt snow rc ro cc co)" and "c \<le> 1"
    and "cc \<noteq> NilNode \<Longrightarrow> polled p A v' (reset \<or> rc) cc out" and "v' \<le> v"
  shows "polled p A v reset (bnode c pc po bt snow rc ro cc co) (side_poll p reset c pc po bt snow rc cc co v' out)"
proof -
  obtain cc' rn s where out: "out = (cc', rn, s)" by (metis prod_cases3)
  show ?thesis
  proof (cases "v' < AlphaPreference p")
    case True
    with binary_low_polled [OF assms(1-3) refl, of v reset] show ?thesis by (simp add: side_poll_def Let_def out)
  next
    case False
    with binary_success_polled [OF assms(1-3) assms(4) [unfolded out] assms(5) _ refl refl] show ?thesis
      by (simp add: side_poll_def Let_def out)
  qed
qed

lemma node_polled:
  assumes beta: "0 < Beta p" and ord: "valid_ord ord"
  shows "live p A n \<Longrightarrow> represents votes M \<Longrightarrow> polled p A (bag_Len votes) reset n (node_RecordPoll p ord votes reset n)"
proof (induction n arbitrary: votes M reset)
  case NilNode
  then show ?case by simp
next
  case (UnaryNode preference dp cp snow sr child)
  show ?case
    by (rule unary_polled [OF beta UnaryNode.prems(1)], rule UnaryNode.IH [OF _ UnaryNode.prems(2)])
      (use UnaryNode.prems(1) in auto)
next
  case (BinaryNode p0 p1 bt snow r0 r1 c0 c1)
  define c where "c = side p bt M"
  have c1: "c \<le> 1" unfolding c_def by (rule side_le)
  obtain pc po rc ro cc co pv where n: "BinaryNode p0 p1 bt snow r0 r1 c0 c1 = bnode c pc po bt snow rc ro cc co"
    and cc: "cc = (if c = 1 then c1 else c0)" and pv: "represents pv (filter_mset (\<lambda>x. bit_at x bt = (c = 1)) M)" "bag_Len pv \<le> bag_Len votes"
    and rec: "node_RecordPoll p ord votes reset (BinaryNode p0 p1 bt snow r0 r1 c0 c1) =
      side_poll p reset c pc po bt snow rc cc co (bag_Len pv) (node_RecordPoll p ord pv (reset \<or> rc) cc)"
    by (rule binary_poll_view [OF BinaryNode.prems(2) ord c_def])
  have live: "live p A (bnode c pc po bt snow rc ro cc co)" using BinaryNode.prems(1) n by simp
  have child: "polled p A (bag_Len pv) (reset \<or> rc) cc (node_RecordPoll p ord pv (reset \<or> rc) cc)" if "cc \<noteq> NilNode"
  proof -
    have "live p A cc" using live that unfolding live_bnode [OF c1] by blast
    with BinaryNode.IH pv(1) cc show ?thesis by metis
  qed
  show ?case unfolding rec unfolding n by (rule binary_polled [OF beta live c1 child pv(2)])
qed

lemma final_leaf_polled:
  assumes "final_leaf A n" and "node_RecordPoll p ord votes reset n = (n', r, s)"
  shows "final_leaf A r \<and> DecidedPrefix r = DecidedPrefix n \<and> node_Preference r = node_Preference n"
proof (cases n)
  case NilNode
  with assms show ?thesis by simp
next
  case (UnaryNode preference dp cp snow sr child)
  with assms show ?thesis
    by (auto simp: Let_def unary_final_poll unary_final_unsuccessful split: if_splits)
next
  case (BinaryNode p0 p1 bt snow r0 r1 c0 c1)
  have fin: "Binary_Finalized snow" using assms(1) BinaryNode by simp
  define snow1 where "snow1 = (if reset then Binary_RecordUnsuccessfulPoll snow else snow)"
  have s1: "Binary_Finalized snow1 \<and> Binary_Preference snow1 = Binary_Preference snow"
    using fin binary.unsuccessful_finalized [of snow] by (simp add: snow1_def)
  note s2 = binary.poll_finalized [OF conjunct1 [OF s1]] binary.unsuccessful_finalized [of snow1]
  show ?thesis
    using assms BinaryNode s1 s2 by (auto simp: Let_def simp flip: snow1_def split: if_splits)
qed

section \<open>The tree over time\<close>

text \<open>
  The states a tree goes through from \<open>t0\<close>, with the set of choices added so far. The votes of a poll
  are any bag of identifiers.
\<close>

inductive tree_steps :: "ID set \<Rightarrow> Tree \<Rightarrow> ID set \<Rightarrow> Tree \<Rightarrow> bool" for A0 t0 where
  start: "tree_steps A0 t0 A0 t0"
| add: "tree_steps A0 t0 A t \<Longrightarrow> wf_ID x \<Longrightarrow> tree_steps A0 t0 (insert x A) (Tree_Add x t)"
| poll: "tree_steps A0 t0 A t \<Longrightarrow> valid_ord ord \<Longrightarrow> represents votes M \<Longrightarrow>
     tree_steps A0 t0 A (fst (Tree_RecordPoll ord votes t))"
| unsuccessful: "tree_steps A0 t0 A t \<Longrightarrow> tree_steps A0 t0 A (Tree_RecordUnsuccessfulPoll t)"

definition tree_ok :: "ID set \<Rightarrow> Tree \<Rightarrow> bool" where
  "tree_ok A t \<longleftrightarrow> A \<subseteq> Collect wf_ID \<and> 0 < Beta (tr_params t) \<and>
     (live (tr_params t) A (tr_node t) \<or> final_leaf A (tr_node t))"

text \<open>Nothing decided is undone.\<close>

definition tree_extends :: "Tree \<Rightarrow> Tree \<Rightarrow> bool" where
  "tree_extends t t' \<longleftrightarrow>
     DecidedPrefix (tr_node t) \<le> DecidedPrefix (tr_node t') \<and>
     agree (Tree_Preference t) (Tree_Preference t') 0 (DecidedPrefix (tr_node t)) \<and>
     (Tree_Finalized t \<longrightarrow> Tree_Finalized t' \<and> Tree_Preference t' = Tree_Preference t)"

lemma tree_extends_refl [simp]: "tree_extends t t"
  by (simp add: tree_extends_def)

lemma tree_extends_trans: "tree_extends t u \<Longrightarrow> tree_extends u w \<Longrightarrow> tree_extends t w"
  unfolding tree_extends_def by (metis agree_less agree_trans le_trans)

lemma final_leaf_final: "final_leaf A n \<Longrightarrow> node_Finalized n"
  by (cases n) auto

lemma final_leaf_Add: "final_leaf A n \<Longrightarrow> node_Add factory p x n = n"
  by (cases n) auto

lemma tree_ok_final: "tree_ok A t \<Longrightarrow> Tree_Finalized t \<longleftrightarrow> final_leaf A (tr_node t)"
  using live_not_final [of "tr_params t" A "tr_node t"] final_leaf_final [of A "tr_node t"]
  by (auto simp: tree_ok_def Tree_Finalized_def)

lemma tree_ok_preference: "tree_ok A t \<Longrightarrow> Tree_Preference t \<in> A \<and> wf_ID (Tree_Preference t)"
  using live_preference [of "tr_params t" A "tr_node t"] final_leaf_preference [of A "tr_node t"]
  by (auto simp: tree_ok_def Tree_Preference_def)

lemma tree_ok_prefix: "tree_ok A t \<Longrightarrow> DecidedPrefix (tr_node t) < 256"
  using live_prefix by (cases "tr_node t") (auto simp: tree_ok_def)

lemma tree_ok_New: "0 < Beta p \<Longrightarrow> wf_ID c \<Longrightarrow> tree_ok {c} (NewTree factory p c)"
  using unary_new [of p factory] by (simp add: tree_ok_def NewTree_def NumBits_def)

lemma tree_ok_Add:
  assumes ok: "tree_ok A t" and x: "wf_ID x"
  shows "tree_ok (insert x A) (Tree_Add x t) \<and> tree_extends t (Tree_Add x t)"
proof (cases "EqualSubset 0 (DecidedPrefix (tr_node t)) (Tree_Preference t) x \<and> live (tr_params t) A (tr_node t)")
  case True
  have "DecidedPrefix (tr_node t) \<le> 256" using tree_ok_prefix [OF ok] by simp
  with True have ag: "agree (node_Preference (tr_node t)) x 0 (DecidedPrefix (tr_node t))"
    using EqualSubset_agree tree_ok_preference [OF ok] x by (simp add: Tree_Preference_def)
  have "live (tr_params t) (insert x A) (tr_node t)" using True live_mono by (metis subset_insertI)
  from node_Add_live [OF _ _ this ag refl] ok True
  have "live (tr_params t) (insert x A) (tr_node (Tree_Add x t)) \<and>
      DecidedPrefix (tr_node (Tree_Add x t)) = DecidedPrefix (tr_node t) \<and> Tree_Preference (Tree_Add x t) = Tree_Preference t"
    by (simp add: Tree_Add_def tree_ok_def Tree_Preference_def)
  moreover have "\<not> Tree_Finalized t" using True live_not_final by (auto simp: Tree_Finalized_def)
  ultimately show ?thesis using ok x by (auto simp: tree_ok_def tree_extends_def Tree_Add_def)
next
  case False
  then have "Tree_Add x t = t"
    using ok final_leaf_Add by (auto simp: Tree_Add_def tree_ok_def)
  with ok x live_mono [of _ A _ "insert x A"] final_leaf_mono [of A _ "insert x A"] show ?thesis
    by (auto simp: tree_ok_def)
qed

lemma tree_ok_RecordPoll:
  assumes ok: "tree_ok A t" and ord: "valid_ord ord" and votes: "represents votes M"
  shows "tree_ok A (fst (Tree_RecordPoll ord votes t)) \<and> tree_extends t (fst (Tree_RecordPoll ord votes t))"
proof -
  let ?p = "tr_params t" and ?n = "tr_node t"
  define fv where "fv = bag_Filter ord (\<lambda>i. EqualSubset 0 (DecidedPrefix ?n) (Tree_Preference t) i) votes"
  obtain n' r s where out: "node_RecordPoll ?p ord fv (tr_shouldReset t) ?n = (n', r, s)" by (metis prod_cases3)
  have t': "fst (Tree_RecordPoll ord votes t) = t\<lparr>tr_node := r, tr_shouldReset := False\<rparr>"
    by (simp add: Tree_RecordPoll_def Let_def out flip: fv_def)
  have fv: "represents fv (filter_mset (\<lambda>i. EqualSubset 0 (DecidedPrefix ?n) (Tree_Preference t) i) M)"
    unfolding fv_def by (rule represents_Filter [OF votes ord])
  show ?thesis
  proof (cases "final_leaf A ?n")
    case True
    from final_leaf_polled [OF True out] final_leaf_final ok show ?thesis
      unfolding t' by (auto simp: tree_ok_def tree_extends_def Tree_Preference_def Tree_Finalized_def)
  next
    case False
    with ok have live: "live ?p A ?n" and beta: "0 < Beta ?p" by (auto simp: tree_ok_def)
    from node_polled [OF beta ord live fv, of "tr_shouldReset t"] out have "polled ?p A (bag_Len fv) (tr_shouldReset t) ?n (n', r, s)"
      by simp
    from polled_child(3-5) [OF this, of "node_conf ?n"] live_not_final [OF live]
    have "live ?p A r \<or> final_leaf A r" "DecidedPrefix ?n \<le> DecidedPrefix r"
      "agree (node_Preference ?n) (node_Preference r) 0 (DecidedPrefix ?n)" by auto
    with live_not_final [OF live] ok show ?thesis
      unfolding t' by (auto simp: tree_ok_def tree_extends_def Tree_Preference_def Tree_Finalized_def)
  qed
qed

lemma tree_ok_Unsuccessful: "tree_ok A t \<Longrightarrow> tree_ok A (Tree_RecordUnsuccessfulPoll t) \<and> tree_extends t (Tree_RecordUnsuccessfulPoll t)"
  by (simp add: tree_ok_def tree_extends_def Tree_RecordUnsuccessfulPoll_def Tree_Preference_def Tree_Finalized_def)

lemma tree_steps_ok: "tree_steps A t B t' \<Longrightarrow> tree_ok A t \<Longrightarrow> tree_ok B t' \<and> tree_extends t t'"
proof (induction rule: tree_steps.induct)
  case (add B t' x)
  then show ?case using tree_ok_Add tree_extends_trans by blast
next
  case (poll B t' ord votes M)
  then show ?case using tree_ok_RecordPoll tree_extends_trans by blast
next
  case (unsuccessful B t')
  then show ?case using tree_ok_Unsuccessful tree_extends_trans by blast
qed simp

text \<open>
  C30. The snowball tree never undoes a decision. From a new tree with verified parameters, after any
  choices added, polls recorded (with any votes, in any iteration order) and unsuccessful polls: the
  preference is one of the added choices; whatever happens next, the number of decided bits does
  not decrease, the decided bits of the preference keep their values, and once the tree is final it
  stays final with the same preference. No operation leaves a decided instance anywhere but at
  the root, and there only in a tree reduced to a leaf.
\<close>

theorem tree_decisions_stable:
  assumes "params_Verify params = None" and "wf_ID choice"
    and "tree_steps {choice} (NewTree factory params choice) A t" and "tree_steps A t B t'"
  shows "Tree_Preference t \<in> A \<and> DecidedPrefix (tr_node t) \<le> DecidedPrefix (tr_node t') \<and>
    EqualSubset 0 (DecidedPrefix (tr_node t)) (Tree_Preference t) (Tree_Preference t') \<and>
    (Tree_Finalized t \<longrightarrow> Tree_Finalized t' \<and> Tree_Preference t' = Tree_Preference t) \<and>
    (if Tree_Finalized t then final_leaf A (tr_node t) else live (tr_params t) A (tr_node t))"
proof -
  have "0 < Beta params" using assms(1) by (auto simp: params_Verify_def split: if_splits)
  with assms(2,3) have ok: "tree_ok A t" using tree_steps_ok tree_ok_New by blast
  with assms(4) have ok': "tree_ok B t'" "tree_extends t t'" using tree_steps_ok by blast+
  have "EqualSubset 0 (DecidedPrefix (tr_node t)) (Tree_Preference t) (Tree_Preference t')"
    using EqualSubset_agree tree_ok_preference [OF ok] tree_ok_preference [OF ok'(1)] tree_ok_prefix [OF ok] ok'(2)
    by (simp add: tree_extends_def)
  with ok ok' tree_ok_preference [OF ok] tree_ok_final [OF ok] show ?thesis
    by (auto simp: tree_extends_def tree_ok_def)
qed

theorem tree_decisions_stable_witness:
  "EqualSubset 0 0 (Tree_Preference (NewTree SnowballFactory DefaultParameters (replicate 32 0)))
     (Tree_Preference (Tree_Add (replicate 32 1) (NewTree SnowballFactory DefaultParameters (replicate 32 0)))) \<and>
   Tree_Preference (NewTree SnowballFactory DefaultParameters (replicate 32 0)) \<in> {replicate 32 0}"
proof -
  let ?t = "NewTree SnowballFactory DefaultParameters (replicate 32 0)"
  have ok: "params_Verify DefaultParameters = None" by code_simp
  have wf: "wf_ID (replicate 32 0)" "wf_ID (replicate 32 1)" by (simp_all add: wf_ID_def IDLen_def)
  have "tree_steps {replicate 32 0} ?t (insert (replicate 32 1) {replicate 32 0}) (Tree_Add (replicate 32 1) ?t)"
    by (intro tree_steps.add tree_steps.start wf)
  moreover have "DecidedPrefix (tr_node ?t) = 0" by (simp add: NewTree_def)
  ultimately show ?thesis using tree_decisions_stable [OF ok wf(1) tree_steps.start] by metis
qed

end
