(* ===== verification/TreeLiveness.thy ===== *)
theory TreeLiveness
  imports TreeProperties
begin

text \<open>
  Liveness of the snowball tree: \<^verbatim>\<open>Beta\<close> consecutive polls in which one choice gets
  \<^verbatim>\<open>AlphaConfidence\<close> votes finalize it, however deep the choice is in the tree and whatever resets were
  pending.
\<close>

section \<open>The choices of a tree\<close>

text \<open>The path of \<open>x\<close> through the tree is not interrupted.\<close>

fun has :: "ID \<Rightarrow> node \<Rightarrow> bool" where
  "has x NilNode = True"
| "has x (UnaryNode preference dp cp snow sr child) \<longleftrightarrow> agree preference x dp cp \<and> has x child"
| "has x (BinaryNode p0 p1 bt snow r0 r1 c0 c1) \<longleftrightarrow> (if bit_at x bt then has x c1 else has x c0)"

lemma agree_mid: "agree a b s t \<Longrightarrow> s \<le> s' \<Longrightarrow> t' \<le> t \<Longrightarrow> agree a b s' t'"
  by (simp add: agree_def)

lemma has_split:
  "bit_at preference i \<noteq> bit_at y i \<Longrightarrow>
   has x (split_node preference y i snow sr same new) \<longleftrightarrow> (if bit_at x i = bit_at preference i then has x same else has x new)"
  by (auto simp: split_node_def id_Bit_bit_at)

lemma has_Add_old:
  assumes "live p A n" and "has x n"
  shows "has x (node_Add factory p y n)"
  using assms
proof (induction n)
  case (UnaryNode preference dp cp snow sr child)
  obtain i found where f: "FirstDifferenceSubset dp cp preference y = (i, found)" by fastforce
  have cp: "cp \<le> 256" using UnaryNode.prems by auto
  have loc: "located preference y dp cp (i, found)" using FirstDifferenceSubset_located [OF cp] f by metis
  show ?case
  proof (cases found)
    case False
    with UnaryNode f show ?thesis by auto
  next
    case True
    with loc have i: "dp \<le> i" "i < cp" "bit_at preference i \<noteq> bit_at y i" by (auto simp: located_def first_difference_def)
    have ag: "agree preference x dp cp" "has x child" using UnaryNode.prems by auto
    then have "bit_at x i = bit_at preference i" using i by (simp add: agree_def)
    moreover have "agree preference x (i + 1) cp" "agree preference x dp i" "agree preference x dp (cp - 1)" "agree preference x (dp + 1) cp"
      using ag(1) i by (auto intro: agree_mid)
    ultimately show ?thesis
      using f True ag i(3) live_not_final [OF UnaryNode.prems(1)] by (auto simp: Let_def has_split)
  qed
qed auto

lemma has_Add_new:
  assumes "live p A n" and "agree (node_Preference n) y 0 (DecidedPrefix n)"
  shows "has y (node_Add factory p y n)"
  using assms
proof (induction n)
  case (UnaryNode preference dp cp snow sr child)
  obtain i found where f: "FirstDifferenceSubset dp cp preference y = (i, found)" by fastforce
  have cp: "cp \<le> 256" "dp < cp" using UnaryNode.prems by auto
  have loc: "located preference y dp cp (i, found)" using FirstDifferenceSubset_located [OF cp(1)] f by metis
  show ?case
  proof (cases found)
    case False
    with loc have ag: "agree preference y dp cp" by (simp add: located_def)
    then have "agree preference y 0 cp" using UnaryNode.prems(2) agree_join by auto
    with UnaryNode f False ag live_not_final [OF UnaryNode.prems(1)] show ?thesis by (auto)
  next
    case True
    with loc have i: "dp \<le> i" "i < cp" "bit_at preference i \<noteq> bit_at y i" "agree preference y dp i"
      by (auto simp: located_def first_difference_def)
    then have "i + 1 = cp \<Longrightarrow> agree preference y dp (cp - 1)" by auto
    with f True i(3,4) live_not_final [OF UnaryNode.prems(1)] show ?thesis by (auto simp: Let_def has_split)
  qed
next
  case (BinaryNode p0 p1 bt snow r0 r1 c0 c1)
  have "agree p0 y 0 bt" "agree p1 y 0 bt"
    using BinaryNode.prems agree_trans [of p0 p1 0 bt y] agree_trans [OF agree_sym, of p0 p1 0 bt y]
    by (cases "Binary_Preference snow = 1"; simp)+
  with BinaryNode show ?case by (auto simp: id_Bit_bit_at agree_Suc)
qed simp

section \<open>Polls keep the choices\<close>

lemma has_bnode: "has x (bnode c pc po bt snow rc ro cc co) \<longleftrightarrow> (if bit_at x bt = (c = 1) then has x cc else has x co)"
  by (auto simp: bnode_def)

lemma unary_RecordPoll:
  assumes "snow1 = (if reset then Unary_RecordUnsuccessfulPoll snow else snow)"
    and "snow2 = Unary_RecordPoll (bag_Len votes) snow1"
    and "node_RecordPoll p ord votes (reset \<or> sr) child = (c', rn, s)"
  shows "node_RecordPoll p ord votes reset (UnaryNode preference dp cp snow sr child) =
    (if bag_Len votes < AlphaPreference p then
       (let u = UnaryNode preference dp cp (Unary_RecordUnsuccessfulPoll snow1) True child in (u, u, False))
     else if child = NilNode then (let u = UnaryNode preference dp cp snow2 False NilNode in (u, u, True))
     else if Unary_Finalized snow2 then (UnaryNode preference dp cp snow2 (reset \<or> sr) c', rn, True)
     else (let u = UnaryNode (node_Preference c') dp cp snow2 False c' in (u, u, True)))"
  using assms by (simp add: Let_def)

lemma polled_basic:
  assumes "live p A n" and "polled p A v rs n (n', r, s)"
  shows "live p A r \<or> final_leaf A r" "DecidedPrefix n \<le> DecidedPrefix r"
    "agree (node_Preference n) (node_Preference r) 0 (DecidedPrefix n)"
    "agree (node_Preference n) (node_Preference n') 0 (DecidedPrefix n)" "n' \<noteq> NilNode"
  using polled_child [OF assms(2), of "node_conf n"] live_not_final [OF assms(1)] by auto

lemma has_RecordPoll:
  assumes beta: "0 < Beta p" and ord: "valid_ord ord"
  shows "live p A n \<Longrightarrow> represents votes M \<Longrightarrow> node_RecordPoll p ord votes reset n = (n', r, s) \<Longrightarrow> has x n \<Longrightarrow>
    has x n' \<and> (agree (node_Preference r) x 0 (DecidedPrefix r) \<longrightarrow> has x r)"
proof (induction n arbitrary: votes M reset n' r s)
  case NilNode
  then show ?case by simp
next
  case (UnaryNode preference dp cp snow sr child)
  obtain c' rn b where out: "node_RecordPoll p ord votes (reset \<or> sr) child = (c', rn, b)" by (metis prod_cases3)
  have hx: "agree preference x dp cp" "has x child" using UnaryNode.prems(4) by auto
  show ?case
  proof (cases "child = NilNode")
    case True
    with UnaryNode.prems(3) hx show ?thesis
      unfolding unary_RecordPoll [OF refl refl out] by (auto simp: Let_def split: if_splits)
  next
    case False
    then have ch: "live p A child" "DecidedPrefix child = cp" "node_Preference child = preference"
      using UnaryNode.prems(1) by auto
    have IH: "has x c' \<and> (agree (node_Preference rn) x 0 (DecidedPrefix rn) \<longrightarrow> has x rn)"
      by (rule UnaryNode.IH [OF ch(1) UnaryNode.prems(2) out hx(2)])
    have "polled p A (bag_Len votes) (reset \<or> sr) child (c', rn, b)"
      using node_polled [OF beta ord ch(1) UnaryNode.prems(2), of "reset \<or> sr"] out by simp
    from polled_basic(4) [OF ch(1) this] have "agree preference (node_Preference c') dp cp"
      using ch agree_mid by (metis le_refl zero_le)
    then have "agree (node_Preference c') x dp cp" using hx(1) agree_trans agree_sym by blast
    with UnaryNode.prems(3) IH hx show ?thesis
      unfolding unary_RecordPoll [OF refl refl out] by (auto simp: Let_def split: if_splits)
  qed
next
  case (BinaryNode p0 p1 bt snow r0 r1 c0 c1)
  define c where "c = side p bt M"
  have c1: "c \<le> 1" unfolding c_def by (rule side_le)
  obtain pc po rc ro cc co pv where n: "BinaryNode p0 p1 bt snow r0 r1 c0 c1 = bnode c pc po bt snow rc ro cc co"
    and cc: "cc = (if c = 1 then c1 else c0)" and pv: "represents pv (filter_mset (\<lambda>x. bit_at x bt = (c = 1)) M)" "bag_Len pv \<le> bag_Len votes"
    and rec: "node_RecordPoll p ord votes reset (BinaryNode p0 p1 bt snow r0 r1 c0 c1) =
      side_poll p reset c pc po bt snow rc cc co (bag_Len pv) (node_RecordPoll p ord pv (reset \<or> rc) cc)"
    by (rule binary_poll_view [OF BinaryNode.prems(2) ord c_def])
  obtain cc' rn b where out: "node_RecordPoll p ord pv (reset \<or> rc) cc = (cc', rn, b)" by (metis prod_cases3)
  note B = BinaryNode.prems(1) [unfolded n live_bnode [OF c1]]
  have hx: "if bit_at x bt = (c = 1) then has x cc else has x co" using BinaryNode.prems(4) unfolding n has_bnode .
  have IH: "has x cc' \<and> (agree (node_Preference rn) x 0 (DecidedPrefix rn) \<longrightarrow> has x rn)"
    if "cc \<noteq> NilNode" "bit_at x bt = (c = 1)"
  proof -
    have "live p A cc" "has x cc" using B that hx by auto
    with BinaryNode.IH pv(1) cc out show ?thesis by metis
  qed
  have turn: "bit_at x bt = (c = 1)" if "cc \<noteq> NilNode" "agree (node_Preference rn) x 0 (DecidedPrefix rn)"
  proof -
    have l: "live p A cc" "DecidedPrefix cc = bt + 1" "node_Preference cc = pc" using B that(1) by auto
    have "polled p A (bag_Len pv) (reset \<or> rc) cc (cc', rn, b)"
      using node_polled [OF beta ord l(1) pv(1), of "reset \<or> rc"] out by simp
    from polled_basic(2,3) [OF l(1) this] l(2,3)
    have "bt < DecidedPrefix rn" "bit_at pc bt = bit_at (node_Preference rn) bt" by (auto simp: agree_def)
    with that(2) B show ?thesis by (auto simp: agree_def)
  qed
  from BinaryNode.prems(3) hx IH turn show ?case
    unfolding rec side_poll_def Let_def out by (auto simp: has_bnode split: if_splits)
qed

section \<open>Polls for one choice\<close>

text \<open>The instances on the path of \<open>x\<close> prefer it with confidence at least \<open>k\<close>, and no reset is pending.\<close>

fun strong :: "int \<Rightarrow> ID \<Rightarrow> node \<Rightarrow> bool" where
  "strong k x NilNode = True"
| "strong k x (UnaryNode preference dp cp snow sr child) \<longleftrightarrow> k \<le> uconf snow \<and> (child = NilNode \<or> \<not> sr \<and> strong k x child)"
| "strong k x (BinaryNode p0 p1 bt snow r0 r1 c0 c1) \<longleftrightarrow>
     k \<le> bconf snow \<and> slush snow = (if bit_at x bt then 1 else 0) \<and>
     (if bit_at x bt then c1 = NilNode \<or> \<not> r1 \<and> strong k x c1 else c0 = NilNode \<or> \<not> r0 \<and> strong k x c0)"

lemma strong_bnode:
  "c \<le> 1 \<Longrightarrow> bit_at x bt = (c = 1) \<Longrightarrow>
   strong k x (bnode c pc po bt snow rc ro cc co) \<longleftrightarrow>
     k \<le> bconf snow \<and> slush snow = c \<and> (cc = NilNode \<or> \<not> rc \<and> strong k x cc)"
  by (auto simp: bnode_def)

lemma strong_conf: "strong k x n \<Longrightarrow> n \<noteq> NilNode \<Longrightarrow> k \<le> node_conf n"
  by (cases n) auto

lemma bnode_Preference_side: "c \<le> 1 \<Longrightarrow> Binary_Preference snow = c \<Longrightarrow> node_Preference (bnode c pc po bt snow rc ro cc co) = pc"
  by (auto simp: bnode_def)

lemma agree_all:
  assumes "wf_ID a" and "wf_ID b" and "agree a b 0 256"
  shows "a = b"
proof (rule nth_equalityI)
  show len: "length a = length b" using assms by (simp add: wf_ID_def)
  fix i
  assume "i < length a"
  then have "i < 32" using assms by (simp add: wf_ID_def IDLen_def)
  then have "bit_at a (8 * i + k) = bit_at b (8 * i + k)" if "k < 8" for k
    using assms(3) that by (simp add: agree_def del: bit_at_pos)
  then show "a ! i = b ! i" by (auto simp: byte_eq_iff)
qed

text \<open>The conditions on a poll for \<open>x\<close>.\<close>

definition for_choice :: "Parameters \<Rightarrow> ID \<Rightarrow> ID multiset \<Rightarrow> bool" where
  "for_choice p x M \<longleftrightarrow> int (size M) \<le> K p \<and> AlphaConfidence p \<le> int (count M x)"

lemma verified_bounds:
  assumes "params_Verify p = None"
  shows "0 < Beta p" "AlphaPreference p \<le> AlphaConfidence p" "K p < 2 * AlphaPreference p"
  using assms verified_majority [OF assms] by (auto simp: params_Verify_def split: if_splits)

lemma for_choice_side:
  assumes ok: "params_Verify p = None" and M: "for_choice p x M"
  shows "(side p bt M = 1) = bit_at x bt"
    and "for_choice p x (filter_mset (\<lambda>y. bit_at y bt = bit_at x bt) M)"
proof -
  note b = verified_bounds [OF ok]
  have x: "AlphaPreference p \<le> int (count M x)" using M b by (simp add: for_choice_def)
  have "count (filter_mset f M) x \<le> size (filter_mset f M)" for f by (rule count_le_size)
  then have le: "f x \<Longrightarrow> AlphaPreference p \<le> int (size (filter_mset f M))" for f
    using x by (metis (full_types) count_filter_mset order_trans of_nat_le_iff)
  have "size M = size (filter_mset (\<lambda>y. bit_at y bt) M) + size (filter_mset (\<lambda>y. \<not> bit_at y bt) M)"
    by (metis multiset_partition size_union)
  with le [of "\<lambda>y. \<not> bit_at y bt"] le [of "\<lambda>y. bit_at y bt"] M b show "(side p bt M = 1) = bit_at x bt"
    by (cases "bit_at x bt") (auto simp: side_def for_choice_def)
  show "for_choice p x (filter_mset (\<lambda>y. bit_at y bt = bit_at x bt) M)"
    using M by (auto simp: for_choice_def size_filter_mset_lesseq intro: order_trans [of _ "int (size M)"])
qed

text \<open>Where the tree stands after \<open>k\<close> polls for \<open>x\<close> in a row.\<close>

definition toward :: "Parameters \<Rightarrow> ID set \<Rightarrow> int \<Rightarrow> ID \<Rightarrow> node \<Rightarrow> bool" where
  "toward p A k x r \<longleftrightarrow>
     (live p A r \<and> strong k x r \<or> final_leaf A r \<and> node_Preference r = x) \<and> agree (node_Preference r) x 0 (DecidedPrefix r)"

lemma toward_live: "toward p A k x r \<Longrightarrow> live p A r \<Longrightarrow> strong k x r"
  using live_not_final [of p A r] final_leaf_final [of A r] by (auto simp: toward_def)

lemma unary_toward:
  assumes ok: "params_Verify p = None" and A: "A \<subseteq> Collect wf_ID" "wf_ID x"
    and u: "live p A (UnaryNode preference dp cp snow sr child)" and v: "AlphaConfidence p \<le> bag_Len votes"
    and hx: "agree preference x dp cp" and ag: "agree preference x 0 dp" and k: "0 \<le> k"
    and pre: "k = 0 \<or> \<not> reset \<and> strong k x (UnaryNode preference dp cp snow sr child)"
    and out: "node_RecordPoll p ord votes (reset \<or> sr) child = (c', rn, b)"
    and pol: "polled p A (bag_Len votes) reset (UnaryNode preference dp cp snow sr child) (n', r, s)"
    and child: "child \<noteq> NilNode \<Longrightarrow> polled p A (bag_Len votes) (reset \<or> sr) child (c', rn, b) \<and> toward p A (k + 1) x rn"
    and rec: "node_RecordPoll p ord votes reset (UnaryNode preference dp cp snow sr child) = (n', r, s)"
  shows "k + 1 \<le> node_conf n' \<and> toward p A (k + 1) x r"
proof -
  note bd = verified_bounds [OF ok]
  have snow: "unary_ok p snow" and cp: "dp < cp" "preference \<in> A" "child = NilNode \<longleftrightarrow> cp = 256" using u by auto
  define snow1 where "snow1 = (if reset then Unary_RecordUnsuccessfulPoll snow else snow)"
  define snow2 where "snow2 = Unary_RecordPoll (bag_Len votes) snow1"
  have s1: "unary_ok p snow1" "uconf snow1 = (if reset then 0 else uconf snow)"
    using snow unary_unsuccessful [OF bd(1) snow] by (auto simp: snow1_def)
  have "k \<le> uconf snow1" using pre unary_not_final [OF snow] by (auto simp: s1)
  then have k1: "k + 1 \<le> uconf snow2" using unary_poll(1) [OF s1(1) bd(1), of "bag_Len votes"] v by (simp add: snow2_def)
  note eq = rec [unfolded unary_RecordPoll [OF snow1_def snow2_def out]]
  have hi: "\<not> bag_Len votes < AlphaPreference p" using v bd by simp
  have full: "agree preference x 0 cp" using agree_join [OF ag hx] .
  show ?thesis
  proof (cases "child = NilNode")
    case True
    with eq hi have n': "n' = UnaryNode preference dp cp snow2 False NilNode" "r = n'" by (auto simp: Let_def)
    have "preference = x" using agree_all A cp True full by blast
    with k1 n' pol ag show ?thesis by (auto simp: toward_def polled_def split: if_splits)
  next
    case False
    have conf: "node_conf n' = uconf snow2" using eq hi False by (auto simp: Let_def split: if_splits)
    show ?thesis
    proof (cases "Unary_Finalized snow2")
      case True
      with eq hi False child [OF False] k1 conf show ?thesis by auto
    next
      case nf: False
      with eq hi False have n': "n' = UnaryNode (node_Preference c') dp cp snow2 False c'" "r = n'" by (auto simp: Let_def)
      then have lv: "live p A n'" using pol nf by (auto simp: polled_def)
      have c': "live p A c'" "c' \<noteq> NilNode" "DecidedPrefix c' = cp" using lv n' False cp by auto
      have "rn = c'" using child [OF False] live_not_final [OF c'(1)] by (auto simp: polled_def)
      then have tw: "toward p A (k + 1) x c'" using child [OF False] by simp
      then have "agree (node_Preference c') x 0 dp" using c'(3) cp(1) agree_less by (auto simp: toward_def)
      with tw lv n' k1 toward_live [OF tw c'(1)] show ?thesis by (auto simp: toward_def)
    qed
  qed
qed

lemma binary_toward:
  assumes ok: "params_Verify p = None" and A: "A \<subseteq> Collect wf_ID" "wf_ID x"
    and b: "live p A (bnode c pc po bt snow rc ro cc co)" and c: "c \<le> 1" "bit_at x bt = (c = 1)"
    and v: "AlphaConfidence p \<le> v'" and ag: "agree (node_Preference (bnode c pc po bt snow rc ro cc co)) x 0 bt" and k: "0 \<le> k"
    and pre: "k = 0 \<or> \<not> reset \<and> strong k x (bnode c pc po bt snow rc ro cc co)"
    and pol: "polled p A v reset (bnode c pc po bt snow rc ro cc co) (n', r, s)"
    and child: "cc \<noteq> NilNode \<Longrightarrow> polled p A v' (reset \<or> rc) cc (c', rn, b') \<and> toward p A (k + 1) x rn"
    and rec: "side_poll p reset c pc po bt snow rc cc co v' (c', rn, b') = (n', r, s)"
  shows "k + 1 \<le> node_conf n' \<and> toward p A (k + 1) x r"
proof -
  note bd = verified_bounds [OF ok] and B = b [unfolded live_bnode [OF c(1)]]
  have snow: "binary_ok p snow" using B by blast
  define snow1 where "snow1 = (if reset then Binary_RecordUnsuccessfulPoll snow else snow)"
  define snow2 where "snow2 = Binary_RecordPoll v' c snow1"
  have s1: "binary_ok p snow1" "bconf snow1 = (if reset then 0 else bconf snow)" "slush snow1 = slush snow"
    using snow binary_unsuccessful [OF bd(1) snow] by (auto simp: snow1_def)
  have hi: "AlphaPreference p \<le> v'" using v bd by simp
  note s2 = binary_poll [OF s1(1) bd(1) c(1) hi, folded snow2_def]
  have "k \<le> (if c = slush snow1 then bconf snow1 else 0)"
    using pre binary_not_final [OF snow] by (auto simp: s1 strong_bnode [OF c])
  then have k1: "k + 1 \<le> bconf snow2" using s2(1) v by simp
  note eq = rec [unfolded side_poll_def Let_def prod.case, folded snow1_def, folded snow2_def]
  have pcx: "agree pc x 0 bt" "agree po x 0 bt"
    using ag bnode_Preference [of c pc po bt snow rc ro cc co] B agree_trans agree_sym by (metis insertE singletonD)+
  show ?thesis
  proof (cases "cc = NilNode")
    case True
    with eq hi have n': "n' = bnode c pc po bt snow2 False True cc co" "r = n'" by auto
    have "agree pc x 0 (Suc bt)" using pcx B c(2) by (simp add: agree_Suc)
    then have "pc = x" using agree_all A B True by auto
    moreover have "agree (node_Preference n') x 0 bt"
      using pcx bnode_Preference [of c pc po bt snow2 False True cc co] unfolding n' by (metis insertE singletonD)
    ultimately show ?thesis
      using k1 n' pol s2(4,5) bnode_Preference_side [OF c(1), of snow2] True
      by (auto simp: toward_def polled_def strong_bnode [OF c] split: if_splits)
  next
    case False
    show ?thesis
    proof (cases "Binary_Finalized snow2")
      case True
      with eq hi False child [OF False] k1 show ?thesis by auto
    next
      case nf: False
      with eq hi False have n': "n' = bnode c (node_Preference rn) po bt snow2 False True c' co" "r = n'" by auto
      then have lv: "live p A n'" using pol nf by (auto simp: polled_def)
      have c': "live p A c'" "DecidedPrefix c' = bt + 1" "c' \<noteq> NilNode"
        using lv B False unfolding n' live_bnode [OF c(1)] by auto
      have "rn = c'" using child [OF False] live_not_final [OF c'(1)] by (auto simp: polled_def)
      then have tw: "toward p A (k + 1) x c'" using child [OF False] by simp
      then have "agree (node_Preference c') x 0 bt" using c'(2) agree_less by (auto simp: toward_def)
      then have "agree (node_Preference n') x 0 bt"
        using pcx(2) bnode_Preference [of c "node_Preference rn" po bt snow2 False True c' co] \<open>rn = c'\<close> unfolding n'
        by (metis insertE singletonD)
      with lv n' k1 toward_live [OF tw c'(1)] s2(4) show ?thesis by (auto simp: toward_def strong_bnode [OF c])
    qed
  qed
qed

lemma node_toward:
  assumes ok: "params_Verify p = None" and ord: "valid_ord ord" and A: "A \<subseteq> Collect wf_ID" "wf_ID x" and k: "0 \<le> k"
  shows "live p A n \<Longrightarrow> represents votes M \<Longrightarrow> for_choice p x M \<Longrightarrow> has x n \<Longrightarrow>
    agree (node_Preference n) x 0 (DecidedPrefix n) \<Longrightarrow> k = 0 \<or> \<not> reset \<and> strong k x n \<Longrightarrow>
    node_RecordPoll p ord votes reset n = (n', r, s) \<Longrightarrow> k + 1 \<le> node_conf n' \<and> toward p A (k + 1) x r"
proof (induction n arbitrary: votes M reset n' r s)
  case NilNode
  then show ?case by simp
next
  case (UnaryNode preference dp cp snow sr child)
  note prems = UnaryNode.prems and beta = verified_bounds(1) [OF ok]
  obtain c' rn b where out: "node_RecordPoll p ord votes (reset \<or> sr) child = (c', rn, b)" by (metis prod_cases3)
  have "count M x \<le> size M" by (rule count_le_size)
  then have v: "AlphaConfidence p \<le> bag_Len votes"
    using prems(3) represents_Len [OF prems(2)] by (simp add: for_choice_def)
  have hx: "agree preference x dp cp" "has x child" "agree preference x 0 dp" using prems by auto
  have "polled p A (bag_Len votes) (reset \<or> sr) child (c', rn, b) \<and> toward p A (k + 1) x rn" if ne: "child \<noteq> NilNode"
  proof -
    have ch: "live p A child" "DecidedPrefix child = cp" "node_Preference child = preference" using prems(1) ne by auto
    have "k = 0 \<or> \<not> (reset \<or> sr) \<and> strong k x child" using prems(6) ne by auto
    with UnaryNode.IH [OF ch(1) prems(2,3) hx(2) _ _ out] ch agree_join [OF hx(3,1)] have "toward p A (k + 1) x rn" by simp
    moreover have "polled p A (bag_Len votes) (reset \<or> sr) child (c', rn, b)"
      using node_polled [OF beta ord ch(1) prems(2), of "reset \<or> sr"] out by simp
    ultimately show ?thesis by blast
  qed
  moreover have "polled p A (bag_Len votes) reset (UnaryNode preference dp cp snow sr child) (n', r, s)"
    using node_polled [OF beta ord prems(1,2), of reset] prems(7) by simp
  ultimately show ?case
    using unary_toward [OF ok A prems(1) v hx(1,3) k prems(6) out _ _ prems(7)] by blast
next
  case (BinaryNode p0 p1 bt snow r0 r1 c0 c1)
  note prems = BinaryNode.prems and beta = verified_bounds(1) [OF ok]
  define c where "c = side p bt M"
  have c1: "c \<le> 1" unfolding c_def by (rule side_le)
  note fc = for_choice_side [OF ok prems(3), of bt, folded c_def]
  obtain pc po rc ro cc co pv where n: "BinaryNode p0 p1 bt snow r0 r1 c0 c1 = bnode c pc po bt snow rc ro cc co"
    and cc: "cc = (if c = 1 then c1 else c0)" and pv: "represents pv (filter_mset (\<lambda>y. bit_at y bt = (c = 1)) M)" "bag_Len pv \<le> bag_Len votes"
    and rec: "node_RecordPoll p ord votes reset (BinaryNode p0 p1 bt snow r0 r1 c0 c1) =
      side_poll p reset c pc po bt snow rc cc co (bag_Len pv) (node_RecordPoll p ord pv (reset \<or> rc) cc)"
    by (rule binary_poll_view [OF prems(2) ord c_def])
  have xb: "bit_at x bt = (c = 1)" using fc(1) by simp
  have fpv: "for_choice p x (filter_mset (\<lambda>y. bit_at y bt = (c = 1)) M)" using fc(2) xb by simp
  let ?n = "bnode c pc po bt snow rc ro cc co"
  have live: "live p A ?n" and ag: "agree (node_Preference ?n) x 0 bt" and pre: "k = 0 \<or> \<not> reset \<and> strong k x ?n"
    using prems(1,5,6) unfolding n by simp_all
  obtain cc' rn b where out: "node_RecordPoll p ord pv (reset \<or> rc) cc = (cc', rn, b)" by (metis prod_cases3)
  have v: "AlphaConfidence p \<le> bag_Len pv"
    using fpv represents_Len [OF pv(1)] count_le_size [of "filter_mset (\<lambda>y. bit_at y bt = (c = 1)) M" x]
    unfolding for_choice_def by linarith
  have child: "polled p A (bag_Len pv) (reset \<or> rc) cc (cc', rn, b) \<and> toward p A (k + 1) x rn" if ne: "cc \<noteq> NilNode"
  proof -
    note B = live [unfolded live_bnode [OF c1]]
    have ch: "live p A cc" "DecidedPrefix cc = bt + 1" "node_Preference cc = pc" using B ne by auto
    have hx: "has x cc" using prems(4) xb unfolding n has_bnode by simp
    have "agree pc x 0 bt" using ag bnode_Preference [of c pc po bt snow rc ro cc co] B agree_trans by (metis insertE singletonD)
    then have agc: "agree (node_Preference cc) x 0 (DecidedPrefix cc)" using ch B xb by (simp add: agree_Suc)
    have prc: "k = 0 \<or> \<not> (reset \<or> rc) \<and> strong k x cc" using pre ne by (auto simp: strong_bnode [OF c1 xb])
    have "k + 1 \<le> node_conf cc' \<and> toward p A (k + 1) x rn"
      using BinaryNode.IH(1) [OF _ pv(1) fpv] BinaryNode.IH(2) [OF _ pv(1) fpv] cc ch(1) hx agc prc out by metis
    moreover have "polled p A (bag_Len pv) (reset \<or> rc) cc (cc', rn, b)"
      using node_polled [OF beta ord ch(1) pv(1), of "reset \<or> rc"] out by simp
    ultimately show ?thesis by blast
  qed
  have "polled p A (bag_Len votes) reset ?n (n', r, s)"
    using node_polled [OF beta ord prems(1,2), of reset] prems(7) unfolding n by simp
  from binary_toward [OF ok A live c1 xb v ag k pre this child] prems(7) rec out show ?case by simp
qed

section \<open>The tree over time\<close>

text \<open>A live tree has every added choice that is not decided against.\<close>

definition tree_has :: "ID set \<Rightarrow> Tree \<Rightarrow> bool" where
  "tree_has A t \<longleftrightarrow> (\<forall>x \<in> A. \<not> Tree_Finalized t \<and> agree (Tree_Preference t) x 0 (DecidedPrefix (tr_node t)) \<longrightarrow> has x (tr_node t))"

lemma tree_ok_live: "tree_ok A t \<Longrightarrow> \<not> Tree_Finalized t \<Longrightarrow> live (tr_params t) A (tr_node t)"
  using tree_ok_final by (auto simp: tree_ok_def)

lemma tree_has_Add:
  assumes ok: "tree_ok A t" and h: "tree_has A t" and y: "wf_ID y"
  shows "tree_has (insert y A) (Tree_Add y t)"
proof (cases "EqualSubset 0 (DecidedPrefix (tr_node t)) (Tree_Preference t) y \<and> \<not> Tree_Finalized t")
  case True
  have ag: "agree (Tree_Preference t) y 0 (DecidedPrefix (tr_node t))"
    using True EqualSubset_agree tree_ok_preference [OF ok] y tree_ok_prefix [OF ok] by simp
  have live: "live (tr_params t) (insert y A) (tr_node t)"
    using live_mono [OF tree_ok_live [OF ok]] True by blast
  have beta: "0 < Beta (tr_params t)" using ok by (simp add: tree_ok_def)
  from node_Add_live [OF beta _ live ag [unfolded Tree_Preference_def] refl, of "tr_factory t"] True
  have same: "DecidedPrefix (tr_node (Tree_Add y t)) = DecidedPrefix (tr_node t)" "Tree_Preference (Tree_Add y t) = Tree_Preference t"
    by (simp_all add: Tree_Add_def Tree_Preference_def)
  have node: "tr_node (Tree_Add y t) = node_Add (tr_factory t) (tr_params t) y (tr_node t)" using True by (simp add: Tree_Add_def)
  show ?thesis
    using h True has_Add_old [OF live] has_Add_new [OF live ag [unfolded Tree_Preference_def]] unfolding tree_has_def same unfolding node by auto
next
  case False
  then have t': "Tree_Add y t = t" using ok final_leaf_Add tree_ok_final [OF ok] by (auto simp: Tree_Add_def)
  have "\<not> agree (Tree_Preference t) y 0 (DecidedPrefix (tr_node t)) \<or> Tree_Finalized t"
    using False EqualSubset_agree tree_ok_preference [OF ok] y tree_ok_prefix [OF ok] by simp
  with h show ?thesis by (auto simp: t' tree_has_def)
qed

text \<open>One poll of a live tree, with the votes for decided bits filtered out.\<close>

lemma Tree_RecordPoll_view:
  assumes votes: "represents votes M" and ord: "valid_ord ord"
  obtains fv n' r s where "represents fv (filter_mset (\<lambda>i. EqualSubset 0 (DecidedPrefix (tr_node t)) (Tree_Preference t) i) M)"
    "node_RecordPoll (tr_params t) ord fv (tr_shouldReset t) (tr_node t) = (n', r, s)"
    "fst (Tree_RecordPoll ord votes t) = t\<lparr>tr_node := r, tr_shouldReset := False\<rparr>"
proof -
  define fv where "fv = bag_Filter ord (\<lambda>i. EqualSubset 0 (DecidedPrefix (tr_node t)) (Tree_Preference t) i) votes"
  obtain n' r s where out: "node_RecordPoll (tr_params t) ord fv (tr_shouldReset t) (tr_node t) = (n', r, s)" by (metis prod_cases3)
  have "represents fv (filter_mset (\<lambda>i. EqualSubset 0 (DecidedPrefix (tr_node t)) (Tree_Preference t) i) M)"
    unfolding fv_def by (rule represents_Filter [OF votes ord])
  moreover have "fst (Tree_RecordPoll ord votes t) = t\<lparr>tr_node := r, tr_shouldReset := False\<rparr>"
    by (simp add: Tree_RecordPoll_def Let_def out flip: fv_def)
  ultimately show thesis using that out by blast
qed

lemma tree_has_RecordPoll:
  assumes ok: "tree_ok A t" and h: "tree_has A t" and ord: "valid_ord ord" and votes: "represents votes M"
  shows "tree_has A (fst (Tree_RecordPoll ord votes t))"
proof (cases "Tree_Finalized t")
  case True
  with tree_ok_RecordPoll [OF ok ord votes] show ?thesis by (simp add: tree_has_def tree_extends_def)
next
  case False
  note live = tree_ok_live [OF ok False]
  have beta: "0 < Beta (tr_params t)" using ok by (simp add: tree_ok_def)
  obtain fv n' r s where fv: "represents fv (filter_mset (\<lambda>i. EqualSubset 0 (DecidedPrefix (tr_node t)) (Tree_Preference t) i) M)"
    and out: "node_RecordPoll (tr_params t) ord fv (tr_shouldReset t) (tr_node t) = (n', r, s)"
    and t': "fst (Tree_RecordPoll ord votes t) = t\<lparr>tr_node := r, tr_shouldReset := False\<rparr>"
    by (rule Tree_RecordPoll_view [OF votes ord])
  have "polled (tr_params t) A (bag_Len fv) (tr_shouldReset t) (tr_node t) (n', r, s)"
    using node_polled [OF beta ord live fv, of "tr_shouldReset t"] out by simp
  note P = polled_basic(2,3) [OF live this]
  have "has x r" if x: "x \<in> A" "agree (node_Preference r) x 0 (DecidedPrefix r)" for x
  proof -
    have "agree (Tree_Preference t) x 0 (DecidedPrefix (tr_node t))"
      unfolding Tree_Preference_def using agree_trans [OF P(2) agree_less [OF x(2) P(1)]] .
    with h x(1) False have "has x (tr_node t)" by (simp add: tree_has_def)
    with has_RecordPoll [OF beta ord live fv out] x(2) show ?thesis by blast
  qed
  then show ?thesis by (auto simp: t' tree_has_def Tree_Preference_def)
qed

lemma Tree_params [simp]:
  "tr_params (Tree_Add x t) = tr_params t" "tr_params (fst (Tree_RecordPoll ord votes t)) = tr_params t"
  "tr_params (Tree_RecordUnsuccessfulPoll t) = tr_params t"
  by (simp_all add: Tree_Add_def Tree_RecordPoll_def Tree_RecordUnsuccessfulPoll_def Let_def split: prod.splits)

lemma tree_steps_has:
  "tree_steps A t B t' \<Longrightarrow> tree_ok A t \<Longrightarrow> tree_has A t \<Longrightarrow> tree_has B t' \<and> tr_params t' = tr_params t"
proof (induction rule: tree_steps.induct)
  case (add B t' x)
  then show ?case using tree_has_Add tree_steps_ok by simp
next
  case (poll B t' ord votes M)
  then show ?case using tree_has_RecordPoll tree_steps_ok by simp
qed (auto simp: tree_has_def Tree_RecordUnsuccessfulPoll_def Tree_Preference_def Tree_Finalized_def)

text \<open>After \<open>k\<close> polls for \<open>x\<close> in a row.\<close>

definition tree_toward :: "ID set \<Rightarrow> int \<Rightarrow> ID \<Rightarrow> Tree \<Rightarrow> bool" where
  "tree_toward A k x t \<longleftrightarrow> tree_ok A t \<and> tree_has A t \<and>
     (if Tree_Finalized t then Tree_Preference t = x
      else agree (Tree_Preference t) x 0 (DecidedPrefix (tr_node t)) \<and> (k = 0 \<or> \<not> tr_shouldReset t \<and> strong k x (tr_node t)))"

lemma tree_toward_poll:
  assumes ok: "params_Verify (tr_params t) = None" and ord: "valid_ord ord" and votes: "represents votes M"
    and M: "for_choice (tr_params t) x M" and x: "x \<in> A" and t: "tree_toward A k x t" and k: "0 \<le> k"
  shows "tree_toward A (k + 1) x (fst (Tree_RecordPoll ord votes t))"
proof -
  have tok: "tree_ok A t" and th: "tree_has A t" using t by (auto simp: tree_toward_def)
  note step = tree_ok_RecordPoll [OF tok ord votes] tree_has_RecordPoll [OF tok th ord votes]
  show ?thesis
  proof (cases "Tree_Finalized t")
    case True
    with step t show ?thesis by (auto simp: tree_toward_def tree_extends_def)
  next
    case False
    note live = tree_ok_live [OF tok False]
    have A: "A \<subseteq> Collect wf_ID" "wf_ID x" using tok x by (auto simp: tree_ok_def)
    have ag: "agree (Tree_Preference t) x 0 (DecidedPrefix (tr_node t))"
      and pre: "k = 0 \<or> \<not> tr_shouldReset t \<and> strong k x (tr_node t)" using t False by (auto simp: tree_toward_def)
    let ?f = "\<lambda>i. EqualSubset 0 (DecidedPrefix (tr_node t)) (Tree_Preference t) i"
    obtain fv n' r s where fv: "represents fv (filter_mset ?f M)"
      and out: "node_RecordPoll (tr_params t) ord fv (tr_shouldReset t) (tr_node t) = (n', r, s)"
      and t': "fst (Tree_RecordPoll ord votes t) = t\<lparr>tr_node := r, tr_shouldReset := False\<rparr>"
      by (rule Tree_RecordPoll_view [OF votes ord])
    have "?f x" using EqualSubset_agree tree_ok_preference [OF tok] A(2) tree_ok_prefix [OF tok] ag by simp
    with M have fc: "for_choice (tr_params t) x (filter_mset ?f M)"
      by (auto simp: for_choice_def size_filter_mset_lesseq intro: order_trans [of _ "int (size M)"])
    have hx: "has x (tr_node t)" using th x False ag by (simp add: tree_has_def)
    from node_toward [OF ok ord A k live fv fc hx ag [unfolded Tree_Preference_def] pre out]
    have tw: "toward (tr_params t) A (k + 1) x r" by simp
    have "live (tr_params t) A r \<Longrightarrow> \<not> node_Finalized r" using live_not_final by blast
    with tw step show ?thesis
      by (auto simp: t' tree_toward_def toward_def Tree_Preference_def Tree_Finalized_def dest: final_leaf_final)
  qed
qed

fun record_polls :: "((ID set \<Rightarrow> ID list) \<times> ID bag) list \<Rightarrow> Tree \<Rightarrow> Tree" where
  "record_polls [] t = t"
| "record_polls ((ord, votes) # ps) t = record_polls ps (fst (Tree_RecordPoll ord votes t))"

lemma tree_toward_polls:
  assumes "params_Verify (tr_params t) = None" and "x \<in> A" and "0 \<le> k" and "tree_toward A k x t"
    and "\<forall>(ord, votes) \<in> set ps. valid_ord ord \<and> (\<exists>M. represents votes M \<and> for_choice (tr_params t) x M)"
  shows "tree_toward A (k + int (length ps)) x (record_polls ps t)"
  using assms
proof (induction ps arbitrary: k t)
  case (Cons q ps)
  obtain ord votes where q: "q = (ord, votes)" by (cases q)
  from Cons.prems(5) obtain M where M: "valid_ord ord" "represents votes M" "for_choice (tr_params t) x M" by (auto simp: q)
  let ?t = "fst (Tree_RecordPoll ord votes t)"
  have "tree_toward A (k + 1) x ?t" using tree_toward_poll [OF Cons.prems(1) M Cons.prems(2,4,3)] .
  from Cons.IH [OF _ Cons.prems(2) _ this] Cons.prems have "tree_toward A (k + 1 + int (length ps)) x (record_polls ps ?t)"
    by simp
  then show ?case by (simp add: q algebra_simps)
qed simp

text \<open>
  C31. The snowball tree decides for a choice the network agrees on. In any reachable tree that is not
  final, take an added choice that the decided bits do not exclude. After \<^verbatim>\<open>Beta\<close> or more consecutive
  polls of at most \<^verbatim>\<open>K\<close> votes in which it gets at least \<^verbatim>\<open>AlphaConfidence\<close> votes, whatever the other
  votes are, the tree is final and prefers that choice.
\<close>

theorem tree_unanimous_finalizes:
  assumes ok: "params_Verify params = None" and "wf_ID choice"
    and t: "tree_steps {choice} (NewTree factory params choice) A t" and live: "\<not> Tree_Finalized t"
    and x: "x \<in> A" "EqualSubset 0 (DecidedPrefix (tr_node t)) (Tree_Preference t) x"
    and ps: "\<forall>(ord, votes) \<in> set ps. valid_ord ord \<and>
      (\<exists>M. represents votes M \<and> int (size M) \<le> K params \<and> AlphaConfidence params \<le> int (count M x))"
    and len: "Beta params \<le> int (length ps)"
  shows "Tree_Finalized (record_polls ps t) \<and> Tree_Preference (record_polls ps t) = x"
proof -
  have new: "tree_ok {choice} (NewTree factory params choice)" "tree_has {choice} (NewTree factory params choice)"
    using tree_ok_New [OF verified_bounds(1) [OF ok]] assms(2) by (auto simp: tree_has_def NewTree_def)
  have tok: "tree_ok A t" and th: "tree_has A t" and p: "tr_params t = params"
    using tree_steps_ok [OF t new(1)] tree_steps_has [OF t new] by (auto simp: NewTree_def)
  have wx: "wf_ID x" using tok x(1) by (auto simp: tree_ok_def)
  have "agree (Tree_Preference t) x 0 (DecidedPrefix (tr_node t))"
    using EqualSubset_agree tree_ok_preference [OF tok] wx tree_ok_prefix [OF tok] x(2) by simp
  then have "tree_toward A 0 x t" using tok th live by (simp add: tree_toward_def)
  from tree_toward_polls [OF _ x(1) _ this, of ps] ps ok p
  have tw: "tree_toward A (int (length ps)) x (record_polls ps t)" by (auto simp: for_choice_def)
  have "Tree_Finalized (record_polls ps t)"
  proof (rule ccontr)
    assume nf: "\<not> Tree_Finalized (record_polls ps t)"
    have l: "live (tr_params (record_polls ps t)) A (tr_node (record_polls ps t))"
      using tree_ok_live [OF _ nf] tw by (simp add: tree_toward_def)
    have "tr_params (record_polls ps t) = params"
      unfolding p [symmetric] by (induction ps t rule: record_polls.induct) auto
    with l live_not_final [OF l] have "node_conf (tr_node (record_polls ps t)) < Beta params" "tr_node (record_polls ps t) \<noteq> NilNode" by auto
    moreover have "ps \<noteq> []" using len verified_bounds(1) [OF ok] by auto
    then have "strong (int (length ps)) x (tr_node (record_polls ps t))" using tw nf by (auto simp: tree_toward_def)
    ultimately show False using strong_conf len by fastforce
  qed
  with tw show ?thesis by (simp add: tree_toward_def)
qed

text \<open>Two choices that differ in the first bit; the one added second gets 15 of 20 votes, 20 times.\<close>

definition two_choices :: Tree where
  "two_choices = Tree_Add (replicate 32 1) (NewTree SnowballFactory DefaultParameters (replicate 32 0))"

definition fifteen_votes :: "ID bag" where
  "fifteen_votes = bag_Of (replicate 15 (replicate 32 1) @ replicate 5 (replicate 32 0))"

theorem tree_unanimous_finalizes_witness:
  "Tree_Finalized (record_polls (replicate 20 (sorted_list_of_set, fifteen_votes)) two_choices) \<and>
   Tree_Preference (record_polls (replicate 20 (sorted_list_of_set, fifteen_votes)) two_choices) = replicate 32 1"
proof -
  let ?l = "replicate 15 (replicate 32 1) @ replicate 5 (replicate 32 0) :: ID list"
  have ok: "params_Verify DefaultParameters = None" by code_simp
  have wf: "wf_ID (replicate 32 0)" "wf_ID (replicate 32 1)" by (simp_all add: wf_ID_def IDLen_def)
  have steps: "tree_steps {replicate 32 0} (NewTree SnowballFactory DefaultParameters (replicate 32 0))
      (insert (replicate 32 1) {replicate 32 0}) two_choices"
    unfolding two_choices_def by (intro tree_steps.add tree_steps.start wf)
  have nf: "\<not> Tree_Finalized two_choices" "EqualSubset 0 (DecidedPrefix (tr_node two_choices)) (Tree_Preference two_choices) (replicate 32 1)"
    by code_simp+
  have votes: "represents fifteen_votes (mset ?l)"
    using represents_Add [OF represents_empty, of ?l] by (simp add: bag_Of_def fifteen_votes_def)
  have ord: "valid_ord (sorted_list_of_set :: ID set \<Rightarrow> ID list)" by (simp add: valid_ord_def)
  have "int (size (mset ?l)) \<le> K DefaultParameters \<and> AlphaConfidence DefaultParameters \<le> int (count (mset ?l) (replicate 32 1))"
    by (simp add: DefaultParameters_def)
  with votes ord have ps: "\<forall>(ord, votes) \<in> set (replicate 20 (sorted_list_of_set :: ID set \<Rightarrow> ID list, fifteen_votes)). valid_ord ord \<and>
      (\<exists>M. represents votes M \<and> int (size M) \<le> K DefaultParameters \<and> AlphaConfidence DefaultParameters \<le> int (count M (replicate 32 1)))"
    by auto
  have len: "Beta DefaultParameters \<le> int (length (replicate 20 (sorted_list_of_set :: ID set \<Rightarrow> ID list, fifteen_votes)))"
    by (simp add: DefaultParameters_def)
  show ?thesis by (rule tree_unanimous_finalizes [OF ok wf(1) steps nf(1) _ nf(2) ps len]) simp
qed

end
