(* ===== verification/Snowman.thy ===== *)
theory Snowman
  imports TreeLiveness "HOL-Library.Monad_Syntax"
begin

text \<open>
  default/snow/consensus/snowman: \<^verbatim>\<open>snowmanBlock\<close> (snowman_block.go) and \<^verbatim>\<open>Topological\<close> (topological.go),
  the consensus over a tree of blocks with one snowball tree per parent. A block is an object of an
  interface; \<open>block_methods\<close> is its table of methods together with the acceptor of the context. The
  calls of \<^verbatim>\<open>Accept\<close> and \<^verbatim>\<open>Reject\<close>, the decisions, are logged in \<open>decisions\<close>, the latest first.
  A result \<^term>\<open>None\<close> says that the call panics on a nil pointer or does not return. \<open>ord\<close> is the order
  in which one poll ranges over maps and pops sets; stacks have their top at the head. Logging and
  metrics are left out.
\<close>

section \<open>Blocks\<close>

record 'b block_methods =
  b_ID :: "'b \<Rightarrow> ID"
  b_Parent :: "'b \<Rightarrow> ID"
  b_Height :: "'b \<Rightarrow> uint64"
  b_Bytes :: "'b \<Rightarrow> bytes"
  b_Accept :: "'b \<Rightarrow> go_error option"
  b_Reject :: "'b \<Rightarrow> go_error option"
  BlockAcceptor :: "ID \<Rightarrow> bytes \<Rightarrow> go_error option"

datatype decision = Notified ID bytes | AcceptCalled ID | RejectCalled ID

record 'b snowmanBlock =
  sm_blk :: "'b option"
  sm_shouldFalter :: bool
  sm_sb :: "Tree option"
  sm_children :: "ID \<rightharpoonup> 'b"

record kahnNode =
  inDegree :: int
  kahn_votes :: "ID bag"

record 'b Topological =
  ts_Factory :: Factory
  ts_pollNumber :: uint64
  ts_params :: Parameters
  lastAcceptedID :: ID
  lastAcceptedHeight :: uint64
  ts_blocks :: "ID \<rightharpoonup> 'b snowmanBlock"
  preferredIDs :: "ID set"
  preferredHeights :: "uint64 \<rightharpoonup> ID"
  ts_preference :: ID
  ts_leaves :: "ID set"
  kahnNodes :: "ID \<rightharpoonup> kahnNode"
  decisions :: "decision list"

definition Empty_ID :: ID where
  "Empty_ID = replicate IDLen 0"

definition errDuplicateAdd :: go_error where
  "errDuplicateAdd = Err ''duplicate block add''"
definition errUnknownParentBlock :: go_error where
  "errUnknownParentBlock = Err ''unknown parent block''"
definition errTooManyProcessingBlocks :: go_error where
  "errTooManyProcessingBlocks = Err ''too many processing blocks''"
definition errBlockProcessingTooLong :: go_error where
  "errBlockProcessingTooLong = Err ''block processing too long''"

definition AddChild :: "'b block_methods \<Rightarrow> 'b Topological \<Rightarrow> 'b \<Rightarrow> 'b snowmanBlock \<Rightarrow> 'b snowmanBlock" where
  "AddChild M ts child n =
     (let childID = b_ID M child;
          n = (case sm_sb n of
                 None \<Rightarrow> n\<lparr>sm_sb := Some (NewTree (ts_Factory ts) (ts_params ts) childID), sm_children := Map.empty\<rparr>
               | Some t \<Rightarrow> n\<lparr>sm_sb := Some (Tree_Add childID t)\<rparr>)
      in n\<lparr>sm_children := (sm_children n)(childID \<mapsto> child)\<rparr>)"

definition sm_Decided :: "'b block_methods \<Rightarrow> 'b Topological \<Rightarrow> 'b snowmanBlock \<Rightarrow> bool" where
  "sm_Decided M ts n = (case sm_blk n of None \<Rightarrow> True | Some b \<Rightarrow> b_Height M b \<le> lastAcceptedHeight ts)"

section \<open>Topological\<close>

definition empty_snowmanBlock :: "'b snowmanBlock" where
  "empty_snowmanBlock = \<lparr>sm_blk = None, sm_shouldFalter = False, sm_sb = None, sm_children = Map.empty\<rparr>"

definition topo_Initialize :: "Factory \<Rightarrow> Parameters \<Rightarrow> ID \<Rightarrow> uint64 \<Rightarrow> 'b Topological res" where
  "topo_Initialize factory params i height =
     (case params_Verify params of
        Some err \<Rightarrow> Inl err
      | None \<Rightarrow> Inr
          \<lparr>ts_Factory = factory, ts_pollNumber = 0, ts_params = params, lastAcceptedID = i,
           lastAcceptedHeight = height, ts_blocks = [i \<mapsto> empty_snowmanBlock], preferredIDs = {},
           preferredHeights = Map.empty, ts_preference = i, ts_leaves = {}, kahnNodes = Map.empty, decisions = []\<rparr>)"

definition NumProcessing :: "'b Topological \<Rightarrow> int" where
  "NumProcessing ts = int (card (dom (ts_blocks ts))) - 1"

definition topo_Processing :: "ID \<Rightarrow> 'b Topological \<Rightarrow> bool" where
  "topo_Processing blkID ts = (if blkID = lastAcceptedID ts then False else ts_blocks ts blkID \<noteq> None)"

definition topo_Add :: "'b block_methods \<Rightarrow> 'b \<Rightarrow> 'b Topological \<Rightarrow> 'b Topological \<times> go_error option" where
  "topo_Add M blk ts =
     (let blkID = b_ID M blk; height = b_Height M blk; parentID = b_Parent M blk in
      if topo_Processing blkID ts then (ts, Some errDuplicateAdd)
      else case ts_blocks ts parentID of
        None \<Rightarrow> (ts, Some errUnknownParentBlock)
      | Some parentNode \<Rightarrow>
          let ts = ts\<lparr>ts_blocks := (ts_blocks ts)(parentID \<mapsto> AddChild M ts blk parentNode,
                                                  blkID \<mapsto> empty_snowmanBlock\<lparr>sm_blk := Some blk\<rparr>)\<rparr>;
              ts = (if ts_preference ts = parentID
                    then ts\<lparr>ts_preference := blkID, preferredIDs := insert blkID (preferredIDs ts),
                            preferredHeights := (preferredHeights ts)(height \<mapsto> blkID)\<rparr>
                    else ts)
          in (ts, None))"

definition IsPreferred :: "ID \<Rightarrow> 'b Topological \<Rightarrow> bool" where
  "IsPreferred blkID ts \<longleftrightarrow> blkID = lastAcceptedID ts \<or> blkID \<in> preferredIDs ts"

definition LastAccepted :: "'b Topological \<Rightarrow> ID \<times> uint64" where
  "LastAccepted ts = (lastAcceptedID ts, lastAcceptedHeight ts)"

definition PreferenceAtHeight :: "uint64 \<Rightarrow> 'b Topological \<Rightarrow> ID option" where
  "PreferenceAtHeight height ts =
     (if height = lastAcceptedHeight ts then Some (lastAcceptedID ts) else preferredHeights ts height)"

definition topo_GetParent :: "'b block_methods \<Rightarrow> ID \<Rightarrow> 'b Topological \<Rightarrow> ID \<times> bool" where
  "topo_GetParent M i ts =
     (case ts_blocks ts i of
        None \<Rightarrow> (Empty_ID, False)
      | Some block \<Rightarrow> (case sm_blk block of None \<Rightarrow> (Empty_ID, False) | Some b \<Rightarrow> (b_Parent M b, True)))"

text \<open>\<open>maxTimeProcessing\<close> is the oldest duration that the metrics report.\<close>

definition topo_HealthCheck :: "int \<Rightarrow> 'b Topological \<Rightarrow> go_error list" where
  "topo_HealthCheck maxTimeProcessing ts =
     (if NumProcessing ts > MaxOutstandingItems (ts_params ts) then [errTooManyProcessingBlocks] else []) @
     (if maxTimeProcessing > MaxItemProcessingTime (ts_params ts) then [errBlockProcessingTooLong] else [])"

subsection \<open>Counting votes\<close>

definition kahn_get :: "ID \<Rightarrow> 'b Topological \<Rightarrow> kahnNode" where
  "kahn_get i ts = (case kahnNodes ts i of None \<Rightarrow> \<lparr>inDegree = 0, kahn_votes = empty_bag\<rparr> | Some k \<Rightarrow> k)"

definition kahn_set :: "ID \<Rightarrow> kahnNode \<Rightarrow> 'b Topological \<Rightarrow> 'b Topological" where
  "kahn_set i k ts = ts\<lparr>kahnNodes := (kahnNodes ts)(i \<mapsto> k)\<rparr>"

text \<open>The loop over the ancestors of a voted block, from the node \<open>parentID\<close>.\<close>

partial_function (option) mark_ancestors ::
  "'b block_methods \<Rightarrow> ID \<Rightarrow> 'b Topological \<Rightarrow> 'b Topological option" where
  "mark_ancestors M parentID ts =
     (case ts_blocks ts parentID of
        None \<Rightarrow> None
      | Some n \<Rightarrow>
          if sm_Decided M ts n then Some ts
          else case sm_blk n of
            None \<Rightarrow> None
          | Some b \<Rightarrow>
              let parentID = b_Parent M b;
                  kahn = kahn_get parentID ts;
                  previouslySeen = (kahnNodes ts parentID \<noteq> None);
                  ts = kahn_set parentID (kahn\<lparr>inDegree := inDegree kahn + 1\<rparr>) ts
              in if previouslySeen then Some (ts\<lparr>ts_leaves := ts_leaves ts - {parentID}\<rparr>)
                 else mark_ancestors M parentID ts)"

definition count_vote ::
  "'b block_methods \<Rightarrow> ID bag \<Rightarrow> ID \<Rightarrow> 'b Topological \<Rightarrow> 'b Topological option" where
  "count_vote M votes vote ts =
     (case ts_blocks ts vote of
        None \<Rightarrow> Some ts
      | Some votedBlock \<Rightarrow>
          if sm_Decided M ts votedBlock then Some ts
          else case sm_blk votedBlock of
            None \<Rightarrow> None
          | Some b \<Rightarrow>
              let parentID = b_Parent M b;
                  numVotes = bag_Count vote votes;
                  kahn = kahn_get parentID ts;
                  previouslySeen = (kahnNodes ts parentID \<noteq> None);
                  ts = kahn_set parentID (kahn\<lparr>kahn_votes := AddCount vote numVotes (kahn_votes kahn)\<rparr>) ts
              in if previouslySeen then Some ts
                 else mark_ancestors M parentID (ts\<lparr>ts_leaves := insert parentID (ts_leaves ts)\<rparr>))"

fun count_votes ::
  "'b block_methods \<Rightarrow> ID bag \<Rightarrow> ID list \<Rightarrow> 'b Topological \<Rightarrow> 'b Topological option" where
  "count_votes M votes [] ts = Some ts"
| "count_votes M votes (vote # vs) ts = count_vote M votes vote ts \<bind> count_votes M votes vs"

definition calculateInDegree ::
  "'b block_methods \<Rightarrow> (ID set \<Rightarrow> ID list) \<Rightarrow> ID bag \<Rightarrow> 'b Topological \<Rightarrow> 'b Topological option" where
  "calculateInDegree M ord votes ts =
     count_votes M votes (bag_List ord votes) (ts\<lparr>kahnNodes := Map.empty, ts_leaves := {}\<rparr>)"

partial_function (option) pushVotes ::
  "'b block_methods \<Rightarrow> (ID set \<Rightarrow> ID list) \<Rightarrow> (ID \<times> ID bag) list \<Rightarrow> 'b Topological \<Rightarrow>
   ('b Topological \<times> (ID \<times> ID bag) list) option" where
  "pushVotes M ord voteStack ts =
     (if ts_leaves ts = {} then Some (ts, voteStack)
      else
        let leafID = hd (ord (ts_leaves ts));
            ts = ts\<lparr>ts_leaves := ts_leaves ts - {leafID}\<rparr>;
            kahn = kahn_get leafID ts;
            voteStack = (if bag_Len (kahn_votes kahn) \<ge> AlphaPreference (ts_params ts)
                         then (leafID, kahn_votes kahn) # voteStack else voteStack)
        in case ts_blocks ts leafID of
             None \<Rightarrow> None
           | Some block \<Rightarrow>
               if sm_Decided M ts block then pushVotes M ord voteStack ts
               else case sm_blk block of
                 None \<Rightarrow> None
               | Some b \<Rightarrow>
                   let parentID = b_Parent M b;
                       parentKahn = kahn_get parentID ts;
                       parentKahn = parentKahn\<lparr>inDegree := inDegree parentKahn - 1,
                         kahn_votes := AddCount leafID (bag_Len (kahn_votes kahn)) (kahn_votes parentKahn)\<rparr>;
                       ts = kahn_set parentID parentKahn ts;
                       ts = (if inDegree parentKahn = 0 then ts\<lparr>ts_leaves := insert parentID (ts_leaves ts)\<rparr> else ts)
                   in pushVotes M ord voteStack ts)"

subsection \<open>Accepting and rejecting\<close>

text \<open>The calls of \<^verbatim>\<open>Reject\<close> on the children \<open>ids\<close>, up to the first error.\<close>

fun reject_each ::
  "'b block_methods \<Rightarrow> (ID \<rightharpoonup> 'b) \<Rightarrow> ID list \<Rightarrow> 'b Topological \<Rightarrow> 'b Topological \<times> go_error option" where
  "reject_each M cs [] ts = (ts, None)"
| "reject_each M cs (childID # ids) ts =
     (case cs childID of
        None \<Rightarrow> (ts, None)
      | Some child \<Rightarrow>
          let ts = ts\<lparr>decisions := RejectCalled childID # decisions ts\<rparr> in
          case b_Reject M child of Some err \<Rightarrow> (ts, Some err) | None \<Rightarrow> reject_each M cs ids ts)"

partial_function (option) rejectTransitively ::
  "'b block_methods \<Rightarrow> (ID set \<Rightarrow> ID list) \<Rightarrow> ID list \<Rightarrow> 'b Topological \<Rightarrow> ('b Topological \<times> go_error option) option" where
  "rejectTransitively M ord rejected ts =
     (case rejected of
        [] \<Rightarrow> Some (ts, None)
      | rejectedID # rejected \<Rightarrow>
          case ts_blocks ts rejectedID of
            None \<Rightarrow> None
          | Some rejectedNode \<Rightarrow>
              let ts = ts\<lparr>ts_blocks := (ts_blocks ts)(rejectedID := None)\<rparr>;
                  ids = ord (dom (sm_children rejectedNode))
              in case reject_each M (sm_children rejectedNode) ids ts of
                   (ts, Some err) \<Rightarrow> Some (ts, Some err)
                 | (ts, None) \<Rightarrow> rejectTransitively M ord (rev ids @ rejected) ts)"

definition acceptPreferredChild ::
  "'b block_methods \<Rightarrow> (ID set \<Rightarrow> ID list) \<Rightarrow> Tree \<Rightarrow> (ID \<rightharpoonup> 'b) \<Rightarrow> 'b Topological \<Rightarrow>
   ('b Topological \<times> go_error option) option" where
  "acceptPreferredChild M ord t cs ts =
     (let pref = Tree_Preference t in
      case cs pref of
        None \<Rightarrow> None
      | Some child \<Rightarrow>
          let bs = b_Bytes M child;
              ts = ts\<lparr>decisions := Notified pref bs # decisions ts\<rparr>
          in case BlockAcceptor M pref bs of
               Some err \<Rightarrow> Some (ts, Some err)
             | None \<Rightarrow>
                 let height = b_Height M child;
                     ts = ts\<lparr>decisions := AcceptCalled pref # decisions ts\<rparr>
                 in case b_Accept M child of
                      Some err \<Rightarrow> Some (ts, Some err)
                    | None \<Rightarrow>
                        let ts = ts\<lparr>lastAcceptedID := pref, lastAcceptedHeight := height,
                                   preferredIDs := preferredIDs ts - {pref},
                                   preferredHeights := (preferredHeights ts)(height := None)\<rparr>;
                            ids = filter (\<lambda>i. i \<noteq> pref) (ord (dom cs))
                        in case reject_each M cs ids ts of
                             (ts, Some err) \<Rightarrow> Some (ts, Some err)
                           | (ts, None) \<Rightarrow> rejectTransitively M ord (rev ids) ts)"

subsection \<open>Voting\<close>

text \<open>
  The loop over the children of a block that was voted on: all of them but the one voted on next are
  marked to falter, that one too when the block itself had to falter.
\<close>

definition falter_children :: "(ID \<rightharpoonup> 'b) \<Rightarrow> bool \<Rightarrow> ID \<Rightarrow> 'b Topological \<Rightarrow> 'b Topological" where
  "falter_children cs shouldTransitivelyFalter nextID ts =
     ts\<lparr>ts_blocks := (\<lambda>i.
        if cs i \<noteq> None \<and> \<not> (\<not> shouldTransitivelyFalter \<and> i = nextID)
        then map_option (\<lambda>n. n\<lparr>sm_shouldFalter := True\<rparr>) (ts_blocks ts i) else ts_blocks ts i)\<rparr>"

fun vote_loop ::
  "'b block_methods \<Rightarrow> (ID set \<Rightarrow> ID list) \<Rightarrow> (ID \<times> ID bag) list \<Rightarrow> ID \<Rightarrow> bool \<Rightarrow> 'b Topological \<Rightarrow>
   ('b Topological \<times> ID res) option" where
  "vote_loop M ord [] newPreferred onPreferredBranch ts = Some (ts, Inr newPreferred)"
| "vote_loop M ord ((parentID, votes) # voteStack) newPreferred onPreferredBranch ts =
     (case ts_blocks ts parentID of
        None \<Rightarrow> Some (ts, Inr newPreferred)
      | Some parentBlock \<Rightarrow>
          case sm_sb parentBlock of
            None \<Rightarrow> None
          | Some t \<Rightarrow>
              let shouldTransitivelyFalter = sm_shouldFalter parentBlock;
                  t = (if shouldTransitivelyFalter then Tree_RecordUnsuccessfulPoll t else t);
                  t = fst (Tree_RecordPoll ord votes t);
                  cs = sm_children parentBlock;
                  ts = ts\<lparr>ts_blocks := (ts_blocks ts)(parentID \<mapsto> parentBlock\<lparr>sm_shouldFalter := False, sm_sb := Some t\<rparr>)\<rparr>
              in (if Tree_Finalized t \<and> lastAcceptedID ts = parentID
                  then acceptPreferredChild M ord t cs ts \<bind> (\<lambda>(ts, err). Some (case err of
                         Some e \<Rightarrow> (ts, Some e)
                       | None \<Rightarrow> (ts\<lparr>ts_blocks := (ts_blocks ts)(parentID := None)\<rparr>, None)))
                  else Some (ts, None))
                 \<bind> (\<lambda>(ts, err). case err of
                      Some e \<Rightarrow> Some (ts, Inl e)
                    | None \<Rightarrow>
                        let parentPreference = Tree_Preference t;
                            newPreferred = (if onPreferredBranch then parentPreference else newPreferred);
                            nextID = (case voteStack of [] \<Rightarrow> Empty_ID | (next, _) # _ \<Rightarrow> next)
                        in vote_loop M ord voteStack newPreferred (onPreferredBranch \<and> nextID = parentPreference)
                             (falter_children cs shouldTransitivelyFalter nextID ts)))"

definition topo_vote ::
  "'b block_methods \<Rightarrow> (ID set \<Rightarrow> ID list) \<Rightarrow> (ID \<times> ID bag) list \<Rightarrow> 'b Topological \<Rightarrow>
   ('b Topological \<times> ID res) option" where
  "topo_vote M ord voteStack ts =
     (if voteStack = [] then
        (case ts_blocks ts (lastAcceptedID ts) of
           None \<Rightarrow> None
         | Some lastAcceptedBlock \<Rightarrow>
             Some (ts\<lparr>ts_blocks := (ts_blocks ts)(lastAcceptedID ts \<mapsto> lastAcceptedBlock\<lparr>sm_shouldFalter := True\<rparr>)\<rparr>,
                   Inr (ts_preference ts)))
      else vote_loop M ord voteStack (lastAcceptedID ts) True ts)"

subsection \<open>Recording a poll\<close>

partial_function (option) prefer_ancestors ::
  "'b block_methods \<Rightarrow> 'b snowmanBlock \<Rightarrow> 'b Topological \<Rightarrow> 'b Topological option" where
  "prefer_ancestors M block ts =
     (if sm_Decided M ts block then Some ts
      else case sm_blk block of
        None \<Rightarrow> None
      | Some b \<Rightarrow>
          let blkID = b_ID M b;
              ts = ts\<lparr>preferredIDs := insert blkID (preferredIDs ts),
                      preferredHeights := (preferredHeights ts)(b_Height M b \<mapsto> blkID)\<rparr>
          in case ts_blocks ts (b_Parent M b) of
               None \<Rightarrow> None
             | Some block \<Rightarrow> prefer_ancestors M block ts)"

partial_function (option) prefer_descendants ::
  "'b block_methods \<Rightarrow> 'b snowmanBlock \<Rightarrow> 'b Topological \<Rightarrow> 'b Topological option" where
  "prefer_descendants M block ts =
     (case sm_sb block of
        None \<Rightarrow> Some ts
      | Some t \<Rightarrow>
          let preference = Tree_Preference t;
              ts = ts\<lparr>ts_preference := preference, preferredIDs := insert preference (preferredIDs ts)\<rparr>
          in case ts_blocks ts preference of
               None \<Rightarrow> None
             | Some block \<Rightarrow>
                 case sm_blk block of
                   None \<Rightarrow> None
                 | Some b \<Rightarrow>
                     prefer_descendants M block
                       (ts\<lparr>preferredHeights := (preferredHeights ts)(b_Height M b \<mapsto> preference)\<rparr>))"

definition collect_votes ::
  "'b block_methods \<Rightarrow> (ID set \<Rightarrow> ID list) \<Rightarrow> ID bag \<Rightarrow> 'b Topological \<Rightarrow>
   ('b Topological \<times> (ID \<times> ID bag) list) option" where
  "collect_votes M ord voteBag ts =
     (if bag_Len voteBag \<ge> AlphaPreference (ts_params ts)
      then calculateInDegree M ord voteBag ts \<bind> pushVotes M ord [] else Some (ts, []))"

definition topo_RecordPoll ::
  "'b block_methods \<Rightarrow> (ID set \<Rightarrow> ID list) \<Rightarrow> ID bag \<Rightarrow> 'b Topological \<Rightarrow>
   ('b Topological \<times> go_error option) option" where
  "topo_RecordPoll M ord voteBag ts =
     collect_votes M ord voteBag (ts\<lparr>ts_pollNumber := ts_pollNumber ts + 1\<rparr>) \<bind> (\<lambda>(ts, voteStack).
     topo_vote M ord voteStack ts \<bind> (\<lambda>(ts, r). case r of
       Inl err \<Rightarrow> Some (ts, Some err)
     | Inr preferred \<Rightarrow>
         if preferred \<in> preferredIDs ts then Some (ts, None)
         else
           let ts = ts\<lparr>preferredIDs := {}, preferredHeights := Map.empty, ts_preference := preferred\<rparr>
           in case ts_blocks ts preferred of
                None \<Rightarrow> None
              | Some startBlock \<Rightarrow>
                  prefer_ancestors M startBlock ts \<bind> (\<lambda>ts.
                  prefer_descendants M startBlock ts \<bind> (\<lambda>ts. Some (ts, None)))))"

end
