(* ===== verification/SnowmanVotes.thy ===== *)
theory SnowmanVotes
  imports Snowman
begin

text \<open>
  How a poll is counted in \<^verbatim>\<open>Topological\<close>: the structural invariant of the block tree, and that
  \<^verbatim>\<open>calculateInDegree\<close> and \<^verbatim>\<open>pushVotes\<close> compute, for every block, the votes for its descendants, whatever
  order they visit them in. \<open>par\<close> and \<open>ht\<close> give the parent and the height of a block by its identifier.
\<close>

section \<open>Ancestors\<close>

definition block_law :: "'b block_methods \<Rightarrow> (ID \<Rightarrow> ID) \<Rightarrow> (ID \<Rightarrow> nat) \<Rightarrow> bool" where
  "block_law M par ht \<longleftrightarrow>
     (\<forall>b. wf_ID (b_ID M b) \<and> b_Parent M b = par (b_ID M b) \<and> unat (b_Height M b) = ht (b_ID M b) \<and>
          ht (b_ID M b) = Suc (ht (par (b_ID M b))))"

definition anc :: "(ID \<Rightarrow> ID) \<Rightarrow> (ID \<Rightarrow> nat) \<Rightarrow> ID \<Rightarrow> nat \<Rightarrow> ID" where
  "anc par ht i h = (par ^^ (ht i - h)) i"

definition below :: "(ID \<Rightarrow> ID) \<Rightarrow> (ID \<Rightarrow> nat) \<Rightarrow> ID \<Rightarrow> ID \<Rightarrow> bool" where
  "below par ht a i \<longleftrightarrow> ht a \<le> ht i \<and> anc par ht i (ht a) = a"

lemma below_refl [simp]: "below par ht i i"
  by (simp add: below_def anc_def)

lemma below_height: "below par ht a i \<Longrightarrow> ht a \<le> ht i"
  by (simp add: below_def)

lemma anc_self [simp]: "anc par ht i (ht i) = i"
  by (simp add: anc_def)

lemma anc_par: "ht i = Suc (ht (par i)) \<Longrightarrow> h < ht i \<Longrightarrow> anc par ht i h = anc par ht (par i) h"
proof -
  assume "ht i = Suc (ht (par i))" and "h < ht i"
  then have "ht i - h = Suc (ht (par i) - h)" by linarith
  then show ?thesis unfolding anc_def by (simp only: funpow_Suc_right comp_def)
qed

lemma below_antisym: "below par ht a i \<Longrightarrow> ht i \<le> ht a \<Longrightarrow> a = i"
  unfolding below_def by (metis anc_self le_antisym)

lemma below_par: "below par ht a i \<Longrightarrow> a \<noteq> i \<Longrightarrow> ht i = Suc (ht (par i)) \<Longrightarrow> below par ht a (par i)"
proof -
  assume a: "below par ht a i" "a \<noteq> i" and h: "ht i = Suc (ht (par i))"
  with below_antisym [OF a(1)] have "ht a < ht i" by linarith
  with h anc_par [of ht i par "ht a", OF h this] a(1) show ?thesis unfolding below_def by (metis less_Suc_eq_le)
qed

lemma below_step: "below par ht a (par i) \<Longrightarrow> ht i = Suc (ht (par i)) \<Longrightarrow> below par ht a i"
proof -
  assume a: "below par ht a (par i)" and h: "ht i = Suc (ht (par i))"
  then have "ht a < ht i" unfolding below_def by linarith
  with anc_par [of ht i par "ht a", OF h this] a show ?thesis unfolding below_def by (metis less_imp_le)
qed

lemma below_linear:
  assumes "below par ht a v" "below par ht b v" "ht a \<le> ht b"
  shows "below par ht a b"
proof -
  have "(par ^^ (ht b - ht a)) b = (par ^^ (ht b - ht a)) ((par ^^ (ht v - ht b)) v)"
    using assms(2) by (simp add: below_def anc_def)
  also have "\<dots> = (par ^^ (ht v - ht a)) v"
    using assms(2,3) by (simp add: below_def funpow_add [symmetric, THEN fun_cong, unfolded comp_def])
  finally show ?thesis using assms by (simp add: below_def anc_def)
qed

lemma below_trans:
  assumes "below par ht a b" "below par ht b c"
  shows "below par ht a c"
proof -
  have "(par ^^ (ht c - ht a)) c = (par ^^ (ht b - ht a)) ((par ^^ (ht c - ht b)) c)"
    using assms by (simp add: below_def funpow_add [symmetric, THEN fun_cong, unfolded comp_def])
  with assms show ?thesis by (simp add: below_def anc_def)
qed

lemma below_unique: "below par ht a v \<Longrightarrow> below par ht b v \<Longrightarrow> ht a = ht b \<Longrightarrow> a = b"
  using below_linear [of par ht a v b] below_antisym [of par ht a b] by simp

section \<open>The block tree\<close>

definition tree_shape :: "(ID \<Rightarrow> ID) \<Rightarrow> (ID \<Rightarrow> nat) \<Rightarrow> ID set \<Rightarrow> ID \<Rightarrow> bool" where
  "tree_shape par ht B la \<longleftrightarrow> finite B \<and> la \<in> B \<and>
     (\<forall>i \<in> B. i \<noteq> la \<longrightarrow> par i \<in> B \<and> ht i = Suc (ht (par i)) \<and> ht la < ht i)"

definition sound_tree :: "ID set \<Rightarrow> Tree \<Rightarrow> bool" where
  "sound_tree C t \<longleftrightarrow> tree_ok C t \<and> tree_has C t"

lemma sound_tree_ok: "sound_tree C t \<Longrightarrow> tree_ok C t"
  by (simp add: sound_tree_def)

lemma sound_tree_New: "0 < Beta p \<Longrightarrow> wf_ID c \<Longrightarrow> sound_tree {c} (NewTree factory p c)"
  using tree_ok_New [of p c factory] by (simp add: sound_tree_def tree_has_def NewTree_def)

lemma sound_tree_Add: "sound_tree C t \<Longrightarrow> wf_ID y \<Longrightarrow> sound_tree (insert y C) (Tree_Add y t)"
  using tree_ok_Add [of C t y] tree_has_Add [of C t y] by (simp add: sound_tree_def)

lemma sound_tree_RecordPoll:
  "sound_tree C t \<Longrightarrow> valid_ord ord \<Longrightarrow> represents votes W \<Longrightarrow> sound_tree C (fst (Tree_RecordPoll ord votes t))"
  using tree_ok_RecordPoll [of C t ord votes W] tree_has_RecordPoll [of C t ord votes W] by (simp add: sound_tree_def)

lemma sound_tree_Unsuccessful: "sound_tree C t \<Longrightarrow> sound_tree C (Tree_RecordUnsuccessfulPoll t)"
  using tree_ok_Unsuccessful [of C t]
  by (simp add: sound_tree_def tree_has_def Tree_RecordUnsuccessfulPoll_def Tree_Preference_def Tree_Finalized_def)

definition node_ok :: "'b block_methods \<Rightarrow> (ID \<Rightarrow> ID) \<Rightarrow> 'b Topological \<Rightarrow> ID \<Rightarrow> 'b snowmanBlock \<Rightarrow> bool" where
  "node_ok M par ts i n \<longleftrightarrow>
     (case sm_blk n of None \<Rightarrow> i = lastAcceptedID ts | Some b \<Rightarrow> b_ID M b = i) \<and>
     dom (sm_children n) = {c \<in> dom (ts_blocks ts). c \<noteq> lastAcceptedID ts \<and> par c = i} \<and>
     (\<forall>c b. sm_children n c = Some b \<longrightarrow> b_ID M b = c) \<and>
     (case sm_sb n of None \<Rightarrow> sm_children n = Map.empty
      | Some t \<Rightarrow> tr_params t = ts_params ts \<and> sound_tree (dom (sm_children n)) t)"

definition topo_ok :: "'b block_methods \<Rightarrow> (ID \<Rightarrow> ID) \<Rightarrow> (ID \<Rightarrow> nat) \<Rightarrow> 'b Topological \<Rightarrow> bool" where
  "topo_ok M par ht ts \<longleftrightarrow>
     block_law M par ht \<and> params_Verify (ts_params ts) = None \<and>
     tree_shape par ht (dom (ts_blocks ts)) (lastAcceptedID ts) \<and>
     unat (lastAcceptedHeight ts) = ht (lastAcceptedID ts) \<and>
     (\<forall>i n. ts_blocks ts i = Some n \<longrightarrow> node_ok M par ts i n)"

lemma shape_below: "tree_shape par ht B la \<Longrightarrow> i \<in> B \<Longrightarrow> below par ht la i"
proof (induction "ht i" arbitrary: i rule: less_induct)
  case less
  show ?case
  proof (cases "i = la")
    case False
    with less.prems have p: "par i \<in> B" "ht i = Suc (ht (par i))" by (auto simp: tree_shape_def)
    with less.hyps [of "par i"] less.prems(1) show ?thesis by (auto intro: below_step)
  qed simp
qed

lemma shape_anc:
  assumes s: "tree_shape par ht B la"
  shows "v \<in> B \<Longrightarrow> ht la \<le> h \<Longrightarrow> h \<le> ht v \<Longrightarrow> anc par ht v h \<in> B \<and> ht (anc par ht v h) = h"
proof (induction "ht v" arbitrary: v rule: less_induct)
  case less
  show ?case
  proof (cases "h = ht v")
    case False
    with less.prems have "v \<noteq> la" by auto
    with s less.prems(1) have p: "par v \<in> B" "ht v = Suc (ht (par v))" by (auto simp: tree_shape_def)
    with False less.prems have "h \<le> ht (par v)" "h < ht v" by auto
    moreover have "ht (par v) < ht v" using p(2) by linarith
    ultimately show ?thesis using less.hyps [of "par v"] p(1) less.prems(2) anc_par [of ht v par h, OF p(2)] by metis
  qed (use less.prems in simp)
qed

lemma anc_below: "ht (anc par ht v h) = h \<Longrightarrow> h \<le> ht v \<Longrightarrow> below par ht (anc par ht v h) v"
  by (simp add: below_def)

lemma topo_node: "topo_ok M par ht ts \<Longrightarrow> ts_blocks ts i = Some n \<Longrightarrow> node_ok M par ts i n"
  by (simp add: topo_ok_def)

lemma topo_decided:
  assumes ok: "topo_ok M par ht ts" and n: "ts_blocks ts i = Some n"
  shows "sm_Decided M ts n \<longleftrightarrow> i = lastAcceptedID ts"
proof (cases "sm_blk n")
  case None
  with topo_node [OF ok n] show ?thesis by (simp add: node_ok_def sm_Decided_def)
next
  case (Some b)
  with topo_node [OF ok n] have i: "b_ID M b = i" by (simp add: node_ok_def)
  from ok have "unat (b_Height M b) = ht i" by (simp add: topo_ok_def block_law_def i)
  moreover have "i \<in> dom (ts_blocks ts)" using n by blast
  ultimately show ?thesis
    using ok Some by (force simp: topo_ok_def tree_shape_def sm_Decided_def word_le_nat_alt)
qed

lemma topo_blk:
  assumes "topo_ok M par ht ts" and "ts_blocks ts i = Some n" and "i \<noteq> lastAcceptedID ts"
  obtains b where "sm_blk n = Some b" "b_ID M b = i" "b_Parent M b = par i" "unat (b_Height M b) = ht i"
    "par i \<in> dom (ts_blocks ts)" "ht i = Suc (ht (par i))" "ht (lastAcceptedID ts) < ht i"
proof -
  from topo_node [OF assms(1,2)] assms(3) obtain b where b: "sm_blk n = Some b" "b_ID M b = i" by (auto simp: node_ok_def split: option.splits)
  with assms have "b_Parent M b = par i" "unat (b_Height M b) = ht i" by (auto simp: topo_ok_def block_law_def)
  moreover have "par i \<in> dom (ts_blocks ts)" "ht i = Suc (ht (par i))" "ht (lastAcceptedID ts) < ht i"
    using assms unfolding topo_ok_def tree_shape_def by blast+
  ultimately show thesis using that b by blast
qed

section \<open>Counting in-degrees\<close>

text \<open>
  The Kahn nodes after the votes \<open>V\<close> were counted: the nodes are closed under parents except at \<open>X\<close>,
  hold the votes for their children, and have as in-degree the number of their children among the
  nodes that are not in \<open>X\<close>.
\<close>

definition inbound :: "(ID \<Rightarrow> ID) \<Rightarrow> ID \<Rightarrow> ID set \<Rightarrow> ID set \<Rightarrow> ID \<Rightarrow> ID set" where
  "inbound par la X A p = {c \<in> A. c \<noteq> la \<and> c \<notin> X \<and> par c = p}"

definition counted ::
  "(ID \<Rightarrow> ID) \<Rightarrow> ID set \<Rightarrow> ID \<Rightarrow> ID multiset \<Rightarrow> ID set \<Rightarrow> (ID \<rightharpoonup> kahnNode) \<Rightarrow> ID set \<Rightarrow> bool" where
  "counted par B la V X N L \<longleftrightarrow>
     finite (dom N) \<and> dom N \<subseteq> B \<and> (\<forall>v \<in># V. par v \<in> dom N) \<and>
     (\<forall>c \<in> dom N. c \<noteq> la \<and> c \<notin> X \<longrightarrow> par c \<in> dom N) \<and>
     (\<forall>p k. N p = Some k \<longrightarrow> represents (kahn_votes k) (filter_mset (\<lambda>v. par v = p) V) \<and>
        inDegree k = int (card (inbound par la X (dom N) p))) \<and>
     L = {p. \<exists>k. N p = Some k \<and> inDegree k = 0}"

lemma counted_seen:
  assumes c: "counted par B la V {x} N L" and x: "x \<in> dom N" "x \<noteq> la" and k: "N (par x) = Some k"
  shows "counted par B la V {} (N(par x \<mapsto> k\<lparr>inDegree := inDegree k + 1\<rparr>)) (L - {par x})"
proof -
  have d: "dom (N(par x \<mapsto> k\<lparr>inDegree := inDegree k + 1\<rparr>)) = dom N" using k by auto
  have i: "inbound par la {} (dom N) p = (if p = par x then insert x (inbound par la {x} (dom N) p) else inbound par la {x} (dom N) p)" for p
    using x by (auto simp: inbound_def)
  have "finite (inbound par la {x} (dom N) p)" for p using c by (simp add: counted_def inbound_def)
  then have n: "int (card (inbound par la {} (dom N) p)) = (if p = par x then 1 else 0) + int (card (inbound par la {x} (dom N) p))" for p
    unfolding i by (simp add: inbound_def)
  have "inDegree k \<ge> 0" using c k by (simp add: counted_def)
  with c k n x show ?thesis unfolding counted_def d by (auto split: if_splits)
qed

lemma counted_new:
  assumes c: "counted par B la V {x} N L" and x: "x \<in> dom N" "x \<noteq> la" and k: "N (par x) = None" and B: "par x \<in> B"
  shows "counted par B la V {par x} (N(par x \<mapsto> \<lparr>inDegree = 1, kahn_votes = empty_bag\<rparr>)) L"
proof -
  have "inbound par la {par x} (insert (par x) (dom N)) p = inbound par la {x} (dom N) p" if "p \<noteq> par x" for p
    using that k x by (auto simp: inbound_def)
  moreover have "inbound par la {par x} (insert (par x) (dom N)) (par x) = {x}"
    using c k x unfolding counted_def inbound_def by auto
  moreover have "filter_mset (\<lambda>v. par v = par x) V = {#}" using c k by (auto simp: counted_def filter_mset_eq_conv)
  then have "represents empty_bag (filter_mset (\<lambda>v. par v = par x) V)" by (simp only: represents_empty)
  ultimately show ?thesis using c k x B unfolding counted_def by (auto split: if_splits)
qed

lemma counted_root: "counted par B la V {la} N L \<longleftrightarrow> counted par B la V {} N L"
  unfolding counted_def inbound_def by (simp add: conj_commute conj_left_commute cong: conj_cong)

lemma topo_ok_kahn [simp]:
  "topo_ok M par ht (ts\<lparr>kahnNodes := N, ts_leaves := L\<rparr>) = topo_ok M par ht ts"
  "topo_ok M par ht (ts\<lparr>kahnNodes := N\<rparr>) = topo_ok M par ht ts"
  "topo_ok M par ht (ts\<lparr>ts_leaves := L\<rparr>) = topo_ok M par ht ts"
  by (simp_all add: topo_ok_def node_ok_def cong: option.case_cong)

lemma sm_Decided_kahn [simp]:
  "sm_Decided M (ts\<lparr>kahnNodes := N\<rparr>) n = sm_Decided M ts n"
  "sm_Decided M (ts\<lparr>ts_leaves := L\<rparr>) n = sm_Decided M ts n"
  by (simp_all add: sm_Decided_def cong: option.case_cong)

abbreviation counted_in where
  "counted_in par ts V X N L \<equiv> counted par (dom (ts_blocks ts)) (lastAcceptedID ts) V X N L"

lemma mark_ancestors_counted:
  assumes "topo_ok M par ht ts" and "counted_in par ts V {x} (kahnNodes ts) (ts_leaves ts)"
    and "x \<in> dom (kahnNodes ts)"
  shows "\<exists>N L. mark_ancestors M x ts = Some (ts\<lparr>kahnNodes := N, ts_leaves := L\<rparr>) \<and> counted_in par ts V {} N L"
  using assms
proof (induction "ht x" arbitrary: x ts rule: less_induct)
  case less
  let ?B = "dom (ts_blocks ts)" and ?la = "lastAcceptedID ts" and ?N = "kahnNodes ts"
  from less.prems(2,3) have "x \<in> ?B" by (auto simp: counted_def)
  then obtain n where n: "ts_blocks ts x = Some n" by blast
  show ?case
  proof (cases "x = ?la")
    case True
    with less.prems(2) topo_decided [OF less.prems(1) n] n show ?thesis
      by (intro exI [of _ ?N] exI [of _ "ts_leaves ts"]) (simp add: mark_ancestors.simps counted_root)
  next
    case False
    from topo_blk [OF less.prems(1) n False] obtain b where b: "sm_blk n = Some b" "b_Parent M b = par x"
      "par x \<in> ?B" "ht x = Suc (ht (par x))" by metis
    have nd: "\<not> sm_Decided M ts n" using topo_decided [OF less.prems(1) n] False by simp
    show ?thesis
    proof (cases "?N (par x)")
      case (Some k)
      then have "mark_ancestors M x ts =
          Some (ts\<lparr>kahnNodes := ?N(par x \<mapsto> k\<lparr>inDegree := inDegree k + 1\<rparr>), ts_leaves := ts_leaves ts - {par x}\<rparr>)"
        using n nd b by (simp add: mark_ancestors.simps [of M x] kahn_get_def kahn_set_def Let_def)
      with counted_seen [OF less.prems(2,3) False Some] show ?thesis by blast
    next
      case None
      define ts' where "ts' = ts\<lparr>kahnNodes := ?N(par x \<mapsto> \<lparr>inDegree = 1, kahn_votes = empty_bag\<rparr>)\<rparr>"
      have "mark_ancestors M x ts = mark_ancestors M (par x) ts'"
        using None n nd b by (simp add: mark_ancestors.simps [of M x] kahn_get_def kahn_set_def ts'_def Let_def)
      moreover have "counted_in par ts' V {par x} (kahnNodes ts') (ts_leaves ts')"
        using counted_new [OF less.prems(2,3) False None b(3)] by (simp add: ts'_def)
      moreover have "ht (par x) < ht x" using b(4) by linarith
      ultimately obtain N L where "mark_ancestors M x ts = Some (ts'\<lparr>kahnNodes := N, ts_leaves := L\<rparr>)"
        "counted_in par ts' V {} N L"
        using less.hyps [of "par x" ts'] less.prems(1) by (auto simp: ts'_def)
      then show ?thesis by (auto simp: ts'_def)
    qed
  qed
qed

lemma filter_replicate_mset: "filter_mset P (replicate_mset m x) = (if P x then replicate_mset m x else {#})"
  by (induction m) auto

lemma counted_vote_seen:
  assumes c: "counted par B la V {} N L" and k: "N (par v) = Some k"
  shows "counted par B la (V + replicate_mset m v) {} (N(par v \<mapsto> k\<lparr>kahn_votes := AddCount v (int m) (kahn_votes k)\<rparr>)) L"
proof -
  have d: "dom (N(par v \<mapsto> k\<lparr>kahn_votes := AddCount v (int m) (kahn_votes k)\<rparr>)) = dom N" using k by auto
  have "represents (kahn_votes k) (filter_mset (\<lambda>w. par w = par v) V)" using c k by (simp add: counted_def)
  from represents_AddCount [OF this, of "int m" v] c k show ?thesis
    unfolding counted_def d by (auto simp: filter_replicate_mset split: if_splits)
qed

lemma counted_vote_new:
  assumes c: "counted par B la V {} N L" and k: "N (par v) = None" and B: "par v \<in> B"
  shows "counted par B la (V + replicate_mset m v) {par v}
    (N(par v \<mapsto> \<lparr>inDegree = 0, kahn_votes = AddCount v (int m) empty_bag\<rparr>)) (insert (par v) L)"
proof -
  have "inbound par la {par v} (insert (par v) (dom N)) p = inbound par la {} (dom N) p" if "p \<noteq> par v" for p
    using that k by (auto simp: inbound_def)
  moreover have "inbound par la {par v} (insert (par v) (dom N)) (par v) = {}"
    using c k unfolding counted_def inbound_def by auto
  moreover have "filter_mset (\<lambda>w. par w = par v) V = {#}" using c k by (auto simp: counted_def filter_mset_eq_conv)
  then have "represents (AddCount v (int m) empty_bag) (filter_mset (\<lambda>w. par w = par v) V + replicate_mset m v)"
    using represents_AddCount [OF represents_empty, of "int m" v] by (simp only: nat_int of_nat_0_le_iff add_0)
  ultimately show ?thesis
    using c k B unfolding counted_def by (auto simp: filter_replicate_mset split: if_splits)
qed

definition valid_vote :: "'b Topological \<Rightarrow> ID \<Rightarrow> bool" where
  "valid_vote ts v \<longleftrightarrow> v \<in> dom (ts_blocks ts) \<and> v \<noteq> lastAcceptedID ts"

lemma valid_vote_kahn [simp]: "valid_vote (ts\<lparr>kahnNodes := N, ts_leaves := L\<rparr>) = valid_vote ts"
  by (simp add: valid_vote_def fun_eq_iff)

lemma count_vote_counted:
  assumes ok: "topo_ok M par ht ts" and c: "counted_in par ts V {} (kahnNodes ts) (ts_leaves ts)"
    and m: "bag_Count v votes = int m"
  shows "\<exists>N L. count_vote M votes v ts = Some (ts\<lparr>kahnNodes := N, ts_leaves := L\<rparr>) \<and>
    counted_in par ts (V + (if valid_vote ts v then replicate_mset m v else {#})) {} N L"
proof (cases "valid_vote ts v")
  case False
  with topo_decided [OF ok] have "count_vote M votes v ts = Some ts"
    by (auto simp: count_vote_def valid_vote_def split: option.splits)
  with False c show ?thesis by (intro exI [of _ "kahnNodes ts"] exI [of _ "ts_leaves ts"]) simp
next
  case True
  then obtain n where n: "ts_blocks ts v = Some n" and la: "v \<noteq> lastAcceptedID ts" by (auto simp: valid_vote_def)
  from topo_blk [OF ok n la] obtain b where b: "sm_blk n = Some b" "b_Parent M b = par v"
    "par v \<in> dom (ts_blocks ts)" by metis
  have nd: "\<not> sm_Decided M ts n" using topo_decided [OF ok n] la by simp
  show ?thesis
  proof (cases "kahnNodes ts (par v)")
    case (Some k)
    define N where "N = (kahnNodes ts)(par v \<mapsto> k\<lparr>kahn_votes := AddCount v (int m) (kahn_votes k)\<rparr>)"
    have "count_vote M votes v ts = Some (ts\<lparr>kahnNodes := N, ts_leaves := ts_leaves ts\<rparr>)"
      using Some n nd b m by (simp add: count_vote_def kahn_get_def kahn_set_def N_def Let_def)
    with counted_vote_seen [OF c Some, of m, folded N_def] True show ?thesis by (metis (mono_tags))
  next
    case None
    define ts' where "ts' = ts\<lparr>kahnNodes := (kahnNodes ts)(par v \<mapsto> \<lparr>inDegree = 0, kahn_votes = AddCount v (int m) empty_bag\<rparr>),
      ts_leaves := insert (par v) (ts_leaves ts)\<rparr>"
    have "count_vote M votes v ts = mark_ancestors M (par v) ts'"
      using None n nd b m by (simp add: count_vote_def kahn_get_def kahn_set_def ts'_def Let_def)
    moreover have "counted_in par ts' (V + replicate_mset m v) {par v} (kahnNodes ts') (ts_leaves ts')"
      using counted_vote_new [OF c None b(3), of m] by (simp add: ts'_def)
    moreover have "topo_ok M par ht ts'" "par v \<in> dom (kahnNodes ts')" using ok by (simp_all add: ts'_def)
    ultimately obtain N L where r: "count_vote M votes v ts = Some (ts'\<lparr>kahnNodes := N, ts_leaves := L\<rparr>)"
      "counted_in par ts' (V + replicate_mset m v) {} N L"
      using mark_ancestors_counted by metis
    from r(1) have "count_vote M votes v ts = Some (ts\<lparr>kahnNodes := N, ts_leaves := L\<rparr>)" by (simp add: ts'_def)
    moreover from r(2) True have
      "counted_in par ts (V + (if valid_vote ts v then replicate_mset m v else {#})) {} N L" by (simp add: ts'_def)
    ultimately show ?thesis by blast
  qed
qed

lemma count_votes_counted:
  assumes "topo_ok M par ht ts" and "counted_in par ts V {} (kahnNodes ts) (ts_leaves ts)"
    and "represents votes W" and "distinct vs"
  shows "\<exists>N L. count_votes M votes vs ts = Some (ts\<lparr>kahnNodes := N, ts_leaves := L\<rparr>) \<and>
    counted_in par ts (V + filter_mset (\<lambda>v. v \<in> set vs \<and> valid_vote ts v) W) {} N L"
  using assms
proof (induction vs arbitrary: ts V)
  case Nil
  then show ?case by (intro exI [of _ "kahnNodes ts"] exI [of _ "ts_leaves ts"]) simp
next
  case (Cons v vs)
  let ?V = "V + (if valid_vote ts v then replicate_mset (count W v) v else {#})"
  from count_vote_counted [OF Cons.prems(1,2) represents_Count [OF Cons.prems(3)], of v]
  obtain N L where a: "count_vote M votes v ts = Some (ts\<lparr>kahnNodes := N, ts_leaves := L\<rparr>)" "counted_in par ts ?V {} N L"
    by blast
  let ?ts = "ts\<lparr>kahnNodes := N, ts_leaves := L\<rparr>"
  from Cons.IH [of ?ts ?V] Cons.prems a(2) obtain N' L' where
    b: "count_votes M votes vs ?ts = Some (ts\<lparr>kahnNodes := N', ts_leaves := L'\<rparr>)"
       "counted_in par ts (?V + filter_mset (\<lambda>v. v \<in> set vs \<and> valid_vote ts v) W) {} N' L'" by auto
  have "?V + filter_mset (\<lambda>v. v \<in> set vs \<and> valid_vote ts v) W = V + filter_mset (\<lambda>w. w \<in> set (v # vs) \<and> valid_vote ts w) W"
    using Cons.prems(4) by (intro multiset_eqI) auto
  with a b show ?case by auto
qed

lemma calculateInDegree_counted:
  assumes ok: "topo_ok M par ht ts" and votes: "represents votes W" and ord: "valid_ord ord"
  shows "\<exists>N L. calculateInDegree M ord votes ts = Some (ts\<lparr>kahnNodes := N, ts_leaves := L\<rparr>) \<and>
    counted_in par ts (filter_mset (valid_vote ts) W) {} N L"
proof -
  let ?ts = "ts\<lparr>kahnNodes := Map.empty, ts_leaves := {}\<rparr>"
  have l: "set (bag_List ord votes) = set_mset W" "distinct (bag_List ord votes)"
    using valid_ordD [OF ord, of "dom (counts votes)"] represents_dom [OF votes] by (simp_all add: bag_List_def)
  have "counted_in par ?ts {#} {} (kahnNodes ?ts) (ts_leaves ?ts)" by (simp add: counted_def)
  from count_votes_counted [of M par ht, OF _ this votes l(2)] ok obtain N L where
    "count_votes M votes (bag_List ord votes) ?ts = Some (ts\<lparr>kahnNodes := N, ts_leaves := L\<rparr>)"
    "counted_in par ts (filter_mset (\<lambda>v. v \<in> set (bag_List ord votes) \<and> valid_vote ts v) W) {} N L" by auto
  moreover have "filter_mset (\<lambda>v. v \<in> set (bag_List ord votes) \<and> valid_vote ts v) W = filter_mset (valid_vote ts) W"
    using l(1) by (intro filter_mset_cong) auto
  ultimately show ?thesis unfolding calculateInDegree_def by metis
qed

section \<open>Pushing votes\<close>

text \<open>The votes that a block passes to its snowball tree: every vote for a descendant, as a vote for the child above it.\<close>

definition child_votes :: "(ID \<Rightarrow> ID) \<Rightarrow> (ID \<Rightarrow> nat) \<Rightarrow> ID multiset \<Rightarrow> ID \<Rightarrow> ID multiset" where
  "child_votes par ht V p =
     image_mset (\<lambda>v. anc par ht v (Suc (ht p))) (filter_mset (\<lambda>v. below par ht p v \<and> v \<noteq> p) V)"

definition votes_so_far :: "(ID \<Rightarrow> ID) \<Rightarrow> (ID \<Rightarrow> nat) \<Rightarrow> ID multiset \<Rightarrow> ID set \<Rightarrow> ID \<Rightarrow> ID multiset" where
  "votes_so_far par ht V D p =
     image_mset (\<lambda>v. anc par ht v (Suc (ht p)))
       (filter_mset (\<lambda>v. below par ht p v \<and> v \<noteq> p \<and> (par v = p \<or> anc par ht v (Suc (ht p)) \<in> D)) V)"

definition pushed ::
  "(ID \<Rightarrow> ID) \<Rightarrow> (ID \<Rightarrow> nat) \<Rightarrow> ID set \<Rightarrow> ID \<Rightarrow> ID multiset \<Rightarrow> int \<Rightarrow> ID set \<Rightarrow> (ID \<rightharpoonup> kahnNode) \<Rightarrow> ID set \<Rightarrow>
   (ID \<times> ID bag) list \<Rightarrow> bool" where
  "pushed par ht B la V alpha D N L st \<longleftrightarrow>
     finite (dom N) \<and> dom N \<subseteq> B \<and> D \<subseteq> dom N \<and> (\<forall>v \<in># V. v \<in> B \<and> v \<noteq> la \<and> par v \<in> dom N) \<and>
     (\<forall>c \<in> dom N. c \<noteq> la \<longrightarrow> par c \<in> dom N) \<and> (\<forall>c \<in> dom N. c \<noteq> la \<and> par c \<in> D \<longrightarrow> c \<in> D) \<and>
     (\<forall>p k. N p = Some k \<and> p \<notin> D \<longrightarrow> represents (kahn_votes k) (votes_so_far par ht V D p) \<and>
        inDegree k = int (card (inbound par la D (dom N) p))) \<and>
     L = {p. \<exists>k. N p = Some k \<and> p \<notin> D \<and> inDegree k = 0} \<and>
     fst ` set st = {p \<in> D. alpha \<le> int (size (child_votes par ht V p))} \<and>
     (\<forall>(p, b) \<in> set st. represents b (child_votes par ht V p)) \<and>
     sorted_wrt (\<lambda>x y. ht (fst x) < ht (fst y)) st"

lemma toward_child:
  assumes s: "tree_shape par ht B la" and v: "v \<in> B" "below par ht p v" "p \<noteq> v" and p: "p \<in> B"
  shows "anc par ht v (Suc (ht p)) \<in> B" and "ht (anc par ht v (Suc (ht p))) = Suc (ht p)"
    and "par (anc par ht v (Suc (ht p))) = p" and "below par ht (anc par ht v (Suc (ht p))) v"
    and "anc par ht v (Suc (ht p)) \<noteq> la"
proof -
  let ?c = "anc par ht v (Suc (ht p))"
  have "ht la \<le> ht p" using below_height [OF shape_below [OF s p]] .
  moreover have "ht p < ht v" using below_antisym [OF v(2)] v(3) below_height [OF v(2)] by linarith
  ultimately have c: "?c \<in> B" "ht ?c = Suc (ht p)" "?c \<noteq> la" using shape_anc [OF s v(1), of "Suc (ht p)"] by auto
  then show "?c \<in> B" "ht ?c = Suc (ht p)" "?c \<noteq> la" by auto
  show b: "below par ht ?c v" using c(2) \<open>ht p < ht v\<close> by (intro anc_below) auto
  have h: "ht ?c = Suc (ht (par ?c))" using s c(1,3) by (auto simp: tree_shape_def)
  then have "below par ht (par ?c) ?c" by (auto intro: below_step)
  with b have "below par ht (par ?c) v" by (rule below_trans [rotated])
  with v(2) h c(2) show "par ?c = p" using below_unique [of par ht "par ?c" v p] by linarith
qed

lemma filter_mset_split:
  assumes "\<And>v. v \<in># V \<Longrightarrow> R v \<longleftrightarrow> P v \<or> Q v" and "\<And>v. v \<in># V \<Longrightarrow> \<not> (P v \<and> Q v)"
  shows "filter_mset R V = filter_mset P V + filter_mset Q V"
  using assms by (induction V) auto

lemma majority_common:
  assumes "size V < size (filter_mset P V) + size (filter_mset Q V)"
  shows "\<exists>v. v \<in># V \<and> P v \<and> Q v"
proof (rule ccontr)
  assume "\<nexists>v. v \<in># V \<and> P v \<and> Q v"
  then have "filter_mset (\<lambda>v. P v \<or> Q v) V = filter_mset P V + filter_mset Q V" by (intro filter_mset_split) auto
  moreover have "size (filter_mset (\<lambda>v. P v \<or> Q v) V) \<le> size V" by (rule size_filter_mset_lesseq)
  ultimately show False using assms by simp
qed

lemma closed_up:
  assumes s: "tree_shape par ht B la" and A: "A \<subseteq> B" "\<forall>c \<in> A. c \<noteq> la \<longrightarrow> par c \<in> A" and p: "p \<in> B"
  shows "x \<in> A \<Longrightarrow> below par ht p x \<Longrightarrow> p \<in> A"
proof (induction "ht x" arbitrary: x rule: less_induct)
  case less
  show ?case
  proof (cases "p = x")
    case False
    have "x \<noteq> la" using below_antisym [OF less.prems(2)] below_height [OF shape_below [OF s p]] False by auto
    with less.prems(1) A s have x: "par x \<in> A" "ht x = Suc (ht (par x))" by (auto simp: tree_shape_def)
    moreover have "ht (par x) < ht x" using x(2) by linarith
    ultimately show ?thesis using less.hyps [of "par x"] below_par [OF less.prems(2) False] by blast
  qed (use less.prems in simp)
qed

lemma closed_down:
  assumes s: "tree_shape par ht B la" and A: "A \<subseteq> B" "\<forall>c \<in> A. c \<noteq> la \<longrightarrow> par c \<in> A" and p: "p \<in> D" "D \<subseteq> A"
    and D: "\<forall>c \<in> A. c \<noteq> la \<and> par c \<in> D \<longrightarrow> c \<in> D"
  shows "x \<in> A \<Longrightarrow> below par ht p x \<Longrightarrow> x \<in> D"
proof (induction "ht x" arbitrary: x rule: less_induct)
  case less
  show ?case
  proof (cases "p = x")
    case False
    have "p \<in> B" using p A by auto
    then have l: "x \<noteq> la" using below_antisym [OF less.prems(2)] below_height [OF shape_below [OF s]] False by auto
    with less.prems(1) A s have x: "par x \<in> A" "ht x = Suc (ht (par x))" by (auto simp: tree_shape_def)
    moreover have "ht (par x) < ht x" using x(2) by linarith
    ultimately have "par x \<in> D" using less.hyps [of "par x"] below_par [OF less.prems(2) False] by blast
    with D less.prems(1) l show ?thesis by blast
  qed (use p in simp)
qed

lemma pushed_stack:
  "pushed par ht B la V alpha D N L st \<Longrightarrow> fst ` set st = {p \<in> D. alpha \<le> int (size (child_votes par ht V p))}"
  by (simp add: pushed_def)

lemma pushed_leaf:
  assumes p: "pushed par ht B la V alpha D N L st" and l: "l \<in> L"
  obtains k where "N l = Some k" "l \<notin> D" "l \<in> B" "represents (kahn_votes k) (votes_so_far par ht V D l)"
    "inbound par la D (dom N) l = {}"
proof -
  from p l obtain k where k: "N l = Some k" "l \<notin> D" "inDegree k = 0" by (auto simp: pushed_def)
  with p have r: "represents (kahn_votes k) (votes_so_far par ht V D l)" "int (card (inbound par la D (dom N) l)) = 0"
    unfolding pushed_def by metis+
  have "finite (inbound par la D (dom N) l)" using p by (simp add: pushed_def inbound_def)
  moreover have "l \<in> B" using p k(1) by (auto simp: pushed_def)
  ultimately show thesis using that k r by simp
qed

lemma votes_complete:
  assumes s: "tree_shape par ht B la" and p: "pushed par ht B la V alpha D N L st" and l: "l \<in> L"
  shows "votes_so_far par ht V D l = child_votes par ht V l"
proof -
  from pushed_leaf [OF p l] have lB: "l \<in> B" and none: "inbound par la D (dom N) l = {}" by blast+
  have N: "dom N \<subseteq> B" "\<forall>c \<in> dom N. c \<noteq> la \<longrightarrow> par c \<in> dom N" using p by (auto simp: pushed_def)
  have "par v = l \<or> anc par ht v (Suc (ht l)) \<in> D" if v: "v \<in># V" "below par ht l v" "v \<noteq> l" for v
  proof (rule disjCI)
    let ?c = "anc par ht v (Suc (ht l))"
    assume "?c \<notin> D"
    have vB: "v \<in> B" "v \<noteq> la" "par v \<in> dom N" using v(1) p by (auto simp: pushed_def)
    note c = toward_child [OF s vB(1) v(2) v(3) [symmetric] lB]
    show "par v = l"
    proof (rule ccontr)
      assume "par v \<noteq> l"
      with c(3) have "?c \<noteq> v" by auto
      then have "below par ht ?c (par v)" using below_par [OF c(4)] s vB by (auto simp: tree_shape_def)
      with closed_up [OF s N c(1) vB(3)] have "?c \<in> dom N" by blast
      with c(3,5) \<open>?c \<notin> D\<close> none show False by (auto simp: inbound_def)
    qed
  qed
  then show ?thesis unfolding votes_so_far_def child_votes_def by (intro arg_cong [of _ _ "image_mset _"] filter_mset_cong) auto
qed

lemma votes_push_other:
  assumes s: "tree_shape par ht B la" and V: "\<forall>v \<in># V. v \<in> B" and p: "p \<in> B" "par l \<noteq> p"
  shows "votes_so_far par ht V (insert l D) p = votes_so_far par ht V D p"
proof -
  have "anc par ht v (Suc (ht p)) \<noteq> l" if "v \<in># V" "below par ht p v" "v \<noteq> p" for v
    using toward_child(3) [OF s, of v p] that V p by auto
  then show ?thesis unfolding votes_so_far_def by (intro arg_cong [of _ _ "image_mset _"] filter_mset_cong) auto
qed

lemma votes_push_parent:
  assumes s: "tree_shape par ht B la" and V: "\<forall>v \<in># V. v \<in> B" and l: "l \<in> B" "l \<noteq> la" "l \<notin> D"
  shows "votes_so_far par ht V (insert l D) (par l) =
    votes_so_far par ht V D (par l) + replicate_mset (size (child_votes par ht V l)) l"
proof -
  let ?q = "par l" and ?c = "\<lambda>v. anc par ht v (Suc (ht (par l)))"
  have q: "?q \<in> B" "ht l = Suc (ht ?q)" using s l by (auto simp: tree_shape_def)
  have under: "?c v = l \<and> v \<noteq> ?q \<and> par v \<noteq> ?q" if "v \<in># V" "below par ht l v" "v \<noteq> l" for v
  proof -
    have "ht l < ht v" using that(2,3) below_antisym [OF that(2)] below_height [OF that(2)] by (metis le_neq_implies_less order_refl)
    moreover from this have "v \<noteq> la" using below_height [OF shape_below [OF s l(1)]] by auto
    then have "ht v = Suc (ht (par v))" using s V that(1) by (auto simp: tree_shape_def)
    ultimately show ?thesis using that(2) q(2) by (auto simp: below_def)
  qed
  have eq: "filter_mset (\<lambda>v. below par ht ?q v \<and> v \<noteq> ?q \<and> (par v = ?q \<or> ?c v \<in> insert l D)) V =
      filter_mset (\<lambda>v. below par ht ?q v \<and> v \<noteq> ?q \<and> (par v = ?q \<or> ?c v \<in> D)) V +
      filter_mset (\<lambda>v. below par ht l v \<and> v \<noteq> l) V"
  proof (rule filter_mset_split)
    fix v assume v: "v \<in># V"
    have "below par ht ?q v" if "below par ht l v" using below_trans [OF below_step [of par ht ?q l, OF below_refl q(2)] that] .
    moreover have "below par ht l v" if "?c v = l" "below par ht ?q v" "v \<noteq> ?q"
      using toward_child(4) [OF s, of v ?q] that V v q(1) by auto
    ultimately show "(below par ht ?q v \<and> v \<noteq> ?q \<and> (par v = ?q \<or> ?c v \<in> insert l D)) =
        (below par ht ?q v \<and> v \<noteq> ?q \<and> (par v = ?q \<or> ?c v \<in> D) \<or> below par ht l v \<and> v \<noteq> l)"
      using under [OF v] by (cases "v = l") auto
    show "\<not> ((below par ht ?q v \<and> v \<noteq> ?q \<and> (par v = ?q \<or> ?c v \<in> D)) \<and> below par ht l v \<and> v \<noteq> l)"
      using under [OF v] l(3) by auto
  qed
  have "image_mset ?c (filter_mset (\<lambda>v. below par ht l v \<and> v \<noteq> l) V) = image_mset (\<lambda>_. l) (filter_mset (\<lambda>v. below par ht l v \<and> v \<noteq> l) V)"
    using under by (intro image_mset_cong) auto
  then show ?thesis unfolding votes_so_far_def eq by (simp add: child_votes_def image_mset_const_eq)
qed

lemma push_stack:
  assumes s: "tree_shape par ht B la" and p: "pushed par ht B la V alpha D N L st" and l: "l \<in> L"
    and maj: "int (size V) < 2 * alpha" and b: "represents b (child_votes par ht V l)"
  defines "st' \<equiv> if alpha \<le> bag_Len b then (l, b) # st else st"
  shows "fst ` set st' = {p \<in> insert l D. alpha \<le> int (size (child_votes par ht V p))} \<and>
    (\<forall>(p, b) \<in> set st'. represents b (child_votes par ht V p)) \<and> sorted_wrt (\<lambda>x y. ht (fst x) < ht (fst y)) st'"
proof -
  from l p have lD: "l \<in> dom N" "l \<notin> D" by (auto simp: pushed_def)
  have len: "bag_Len b = int (size (child_votes par ht V l))" by (rule represents_Len [OF b])
  have "ht l < ht q" if a: "alpha \<le> bag_Len b" and q: "(q, c) \<in> set st" for q c
  proof -
    have "q \<in> fst ` set st" using q by force
    with pushed_stack [OF p] have qs: "q \<in> D" "alpha \<le> int (size (child_votes par ht V q))" by auto
    with a len maj have "\<exists>v. v \<in># V \<and> (below par ht l v \<and> v \<noteq> l) \<and> (below par ht q v \<and> v \<noteq> q)"
      by (intro majority_common) (simp add: child_votes_def)
    then obtain v where v: "below par ht l v" "below par ht q v" by blast
    have "\<not> ht q \<le> ht l"
    proof
      assume "ht q \<le> ht l"
      with v have "below par ht q l" using below_linear by blast
      moreover have "dom N \<subseteq> B" "\<forall>c \<in> dom N. c \<noteq> la \<longrightarrow> par c \<in> dom N" "D \<subseteq> dom N"
        "\<forall>c \<in> dom N. c \<noteq> la \<and> par c \<in> D \<longrightarrow> c \<in> D" using p by (auto simp: pushed_def)
      ultimately have "l \<in> D" using closed_down [OF s _ _ qs(1) _ _ lD(1)] by blast
      with lD show False by blast
    qed
    then show ?thesis by simp
  qed
  with p b len show ?thesis unfolding st'_def pushed_def by auto
qed

lemma pushed_root:
  assumes s: "tree_shape par ht B la" and p: "pushed par ht B la V alpha D N L st" and l: "la \<in> L"
    and maj: "int (size V) < 2 * alpha" and k: "N la = Some k"
  shows "pushed par ht B la V alpha (insert la D) N (L - {la})
    (if alpha \<le> bag_Len (kahn_votes k) then (la, kahn_votes k) # st else st)"
proof -
  from pushed_leaf [OF p l] k have kb: "represents (kahn_votes k) (child_votes par ht V la)"
    and none: "inbound par la D (dom N) la = {}" using votes_complete [OF s p l] by (metis option.inject)+
  have i: "inbound par la (insert la D) (dom N) q = inbound par la D (dom N) q" for q by (auto simp: inbound_def)
  have V: "\<forall>v \<in># V. v \<in> B" and B: "dom N \<subseteq> B" using p by (auto simp: pushed_def)
  have o: "votes_so_far par ht V (insert la D) q = votes_so_far par ht V D q" if "q \<in> B" for q
  proof -
    have "anc par ht v (Suc (ht q)) \<noteq> la" if "v \<in># V" "below par ht q v" "v \<noteq> q" for v
      using toward_child(5) [OF s, of v q] that V \<open>q \<in> B\<close> by auto
    then show ?thesis unfolding votes_so_far_def by (intro arg_cong [of _ _ "image_mset _"] filter_mset_cong) auto
  qed
  from push_stack [OF s p l maj kb] p l B i none o show ?thesis
    unfolding pushed_def by (auto simp: inbound_def)
qed

lemma pushed_parent:
  assumes s: "tree_shape par ht B la" and p: "pushed par ht B la V alpha D N L st" and l: "l \<in> L" "l \<noteq> la"
    and maj: "int (size V) < 2 * alpha" and k: "N l = Some k" and k': "N (par l) = Some k'"
  defines "k2 \<equiv> k'\<lparr>inDegree := inDegree k' - 1, kahn_votes := AddCount l (bag_Len (kahn_votes k)) (kahn_votes k')\<rparr>"
  shows "pushed par ht B la V alpha (insert l D) (N(par l \<mapsto> k2))
    (if inDegree k2 = 0 then insert (par l) (L - {l}) else L - {l})
    (if alpha \<le> bag_Len (kahn_votes k) then (l, kahn_votes k) # st else st)"
proof -
  from pushed_leaf [OF p l(1)] k have kb: "represents (kahn_votes k) (child_votes par ht V l)"
    and none: "inbound par la D (dom N) l = {}" and lD: "l \<notin> D" "l \<in> B"
    using votes_complete [OF s p l(1)] by (metis option.inject)+
  have q: "par l \<notin> D" using p l(2) k lD(1) by (auto simp: pushed_def)
  have fin: "finite (inbound par la D (dom N) p)" for p using p by (simp add: pushed_def inbound_def)
  have i: "inbound par la (insert l D) (dom N) r = (if r = par l then inbound par la D (dom N) r - {l} else inbound par la D (dom N) r)" for r
    by (auto simp: inbound_def)
  have lin: "l \<in> inbound par la D (dom N) (par l)" using l k lD by (auto simp: inbound_def)
  have n: "int (card (inbound par la D (dom N) (par l) - {l})) = int (card (inbound par la D (dom N) (par l))) - 1"
    using fin [of "par l"] lin by (simp add: card_gt_0_iff of_nat_diff Suc_leI) (metis One_nat_def Suc_leI card_gt_0_iff empty_iff of_nat_1 of_nat_diff)
  have V: "\<forall>v \<in># V. v \<in> B" and B: "dom N \<subseteq> B" using p by (auto simp: pushed_def)
  have d: "dom (N(par l \<mapsto> k2)) = dom N" using k' by auto
  have "represents (kahn_votes k') (votes_so_far par ht V D (par l))" using p k' q by (auto simp: pushed_def)
  from represents_AddCount [OF this, of "bag_Len (kahn_votes k)" l] represents_Len [OF kb]
  have v2: "represents (kahn_votes k2) (votes_so_far par ht V (insert l D) (par l))"
    using votes_push_parent [OF s V lD(2) l(2) lD(1)] by (simp add: k2_def)
  have pl: "par l \<noteq> l" using s lD l by (auto simp: tree_shape_def)
  have deg: "inDegree k2 = int (card (inbound par la (insert l D) (dom N) (par l)))"
    using p k' q n i by (auto simp: k2_def pushed_def)
  have L: "L = {p. \<exists>k. N p = Some k \<and> p \<notin> D \<and> inDegree k = 0}" using p by (simp add: pushed_def)
  have "par l \<notin> L" using L k' p q lin fin [of "par l"] by (auto simp: pushed_def)
  then have L': "(if inDegree k2 = 0 then insert (par l) (L - {l}) else L - {l}) =
      {p. \<exists>k. (N(par l \<mapsto> k2)) p = Some k \<and> p \<notin> insert l D \<and> inDegree k = 0}"
    using L k' q pl by auto
  have st: "(\<forall>p k. (N(par l \<mapsto> k2)) p = Some k \<and> p \<notin> insert l D \<longrightarrow>
        represents (kahn_votes k) (votes_so_far par ht V (insert l D) p) \<and>
        inDegree k = int (card (inbound par la (insert l D) (dom N) p)))"
    using p v2 deg votes_push_other [OF s V, of _ l D] B i by (auto simp: pushed_def subset_iff domIff split: if_splits)
  have down: "\<forall>c \<in> dom N. c \<noteq> la \<and> par c \<in> insert l D \<longrightarrow> c \<in> insert l D"
    using p none by (auto simp: pushed_def inbound_def)
  from push_stack [OF s p l(1) maj kb] p l k st L' down show ?thesis
    unfolding pushed_def d by (auto simp: pushed_def)
qed

lemma pushed_done:
  assumes s: "tree_shape par ht B la" and p: "pushed par ht B la V alpha D N {} st"
  shows "D = dom N"
proof (rule ccontr)
  assume "D \<noteq> dom N"
  with p have ne: "dom N - D \<noteq> {}" "finite (dom N - D)" by (auto simp: pushed_def)
  then have "Max (ht ` (dom N - D)) \<in> ht ` (dom N - D)" by (intro Max_in) auto
  then obtain x where "x \<in> dom N - D" "ht x = Max (ht ` (dom N - D))" by (metis imageE)
  with ne(2) have x: "x \<in> dom N - D" "\<forall>y \<in> dom N - D. ht y \<le> ht x" by auto
  have B: "dom N \<subseteq> B" using p by (simp add: pushed_def)
  have "inbound par la D (dom N) x = {}"
  proof (rule ccontr)
    assume "inbound par la D (dom N) x \<noteq> {}"
    then obtain c where c: "c \<in> dom N - D" "c \<noteq> la" "par c = x" by (auto simp: inbound_def)
    with s B have "ht c = Suc (ht x)" by (auto simp: tree_shape_def)
    with x(2) c(1) show False by (metis not_less_eq_eq order_refl)
  qed
  moreover from x(1) obtain k where "N x = Some k" "x \<notin> D" by blast
  moreover from this p have "inDegree k = int (card (inbound par la D (dom N) x))" "inDegree k \<noteq> 0"
    unfolding pushed_def by blast+
  ultimately show False by simp
qed

lemma pushVotes_pushed:
  assumes "topo_ok M par ht ts" and "valid_ord ord" and "alpha = AlphaPreference (ts_params ts)" and "int (size V) < 2 * alpha"
    and "pushed par ht (dom (ts_blocks ts)) (lastAcceptedID ts) V alpha D (kahnNodes ts) (ts_leaves ts) st"
  shows "\<exists>N st'. pushVotes M ord st ts = Some (ts\<lparr>kahnNodes := N, ts_leaves := {}\<rparr>, st') \<and>
    dom N = dom (kahnNodes ts) \<and>
    pushed par ht (dom (ts_blocks ts)) (lastAcceptedID ts) V alpha (dom N) N {} st'"
  using assms
proof (induction "card (dom (kahnNodes ts) - D)" arbitrary: D ts st rule: less_induct)
  case less
  let ?B = "dom (ts_blocks ts)" and ?la = "lastAcceptedID ts" and ?N = "kahnNodes ts" and ?L = "ts_leaves ts"
  have s: "tree_shape par ht ?B ?la" using less.prems(1) by (simp add: topo_ok_def)
  note p = less.prems(5)
  have fin: "finite (dom ?N)" using p by (simp add: pushed_def)
  show ?case
  proof (cases "?L = {}")
    case True
    with pushed_done [OF s] p show ?thesis
      by (intro exI [of _ ?N] exI [of _ st]) (simp add: pushVotes.simps)
  next
    case False
    define l where "l = hd (ord ?L)"
    have "?L \<subseteq> dom ?N" using p by (auto simp: pushed_def)
    then have "set (ord ?L) = ?L" using valid_ordD(1) [OF less.prems(2)] fin by (meson finite_subset)
    with False have l: "l \<in> ?L" unfolding l_def by (metis hd_in_set set_empty)
    from pushed_leaf [OF p l] obtain k where k: "?N l = Some k" "l \<notin> D" "l \<in> ?B" by blast
    then obtain n where n: "ts_blocks ts l = Some n" by blast
    define st2 where "st2 = (if alpha \<le> bag_Len (kahn_votes k) then (l, kahn_votes k) # st else st)"
    have dec: "card (dom ?N - insert l D) < card (dom ?N - D)"
      using fin k(1,2) by (intro psubset_card_mono) auto
    show ?thesis
    proof (cases "l = ?la")
      case True
      define ts2 where "ts2 = ts\<lparr>ts_leaves := ?L - {l}\<rparr>"
      have "pushVotes M ord st ts = pushVotes M ord st2 ts2"
        using False n k(1) topo_decided [OF less.prems(1) n] True less.prems(3)
        by (simp add: pushVotes.simps [of M ord st] kahn_get_def Let_def ts2_def st2_def flip: l_def)
      moreover have "pushed par ht ?B ?la V alpha (insert l D) ?N (?L - {l}) st2"
        using pushed_root [OF s p _ less.prems(4), of k] l k(1) unfolding True st2_def by blast
      ultimately obtain N st' where "pushVotes M ord st ts = Some (ts2\<lparr>kahnNodes := N, ts_leaves := {}\<rparr>, st')"
        "dom N = dom ?N" "pushed par ht ?B ?la V alpha (dom N) N {} st'"
        using less.hyps [of ts2 "insert l D" st2] dec less.prems(1-4) by (auto simp: ts2_def)
      then show ?thesis by (auto simp: ts2_def)
    next
      case nla: False
      from topo_blk [OF less.prems(1) n nla] obtain b where b: "sm_blk n = Some b" "b_Parent M b = par l" by metis
      from p k(1) nla obtain k' where k': "?N (par l) = Some k'" by (fastforce simp: pushed_def)
      define k2 where "k2 = k'\<lparr>inDegree := inDegree k' - 1, kahn_votes := AddCount l (bag_Len (kahn_votes k)) (kahn_votes k')\<rparr>"
      define ts1 where "ts1 = ts\<lparr>ts_leaves := ?L - {l}, kahnNodes := ?N(par l \<mapsto> k2)\<rparr>"
      define ts2 where "ts2 = (if inDegree k2 = 0 then ts1\<lparr>ts_leaves := insert (par l) (ts_leaves ts1)\<rparr> else ts1)"
      have "pushVotes M ord st ts = pushVotes M ord st2 ts2"
        using False n k(1) k' b topo_decided [OF less.prems(1) n] nla less.prems(3)
        unfolding pushVotes.simps [of M ord st] Let_def l_def [symmetric] ts2_def ts1_def st2_def k2_def
        by (simp add: kahn_get_def kahn_set_def)
      moreover have "kahnNodes ts2 = ?N(par l \<mapsto> k2)"
        "ts_leaves ts2 = (if inDegree k2 = 0 then insert (par l) (?L - {l}) else ?L - {l})"
        by (simp_all add: ts2_def ts1_def)
      then have "pushed par ht ?B ?la V alpha (insert l D) (kahnNodes ts2) (ts_leaves ts2) st2"
        using pushed_parent [OF s p l nla less.prems(4) k(1) k', folded k2_def st2_def] by (simp only:)
      moreover have d: "dom (kahnNodes ts2) = dom ?N" using k' by (auto simp: ts2_def ts1_def)
      ultimately obtain N st' where "pushVotes M ord st ts = Some (ts2\<lparr>kahnNodes := N, ts_leaves := {}\<rparr>, st')"
        "dom N = dom ?N" "pushed par ht ?B ?la V alpha (dom N) N {} st'"
        using less.hyps [of ts2 "insert l D" st2] dec less.prems(1-4) unfolding ts2_def ts1_def by (auto split: if_splits)
      moreover have "ts2\<lparr>kahnNodes := N, ts_leaves := {}\<rparr> = ts\<lparr>kahnNodes := N, ts_leaves := {}\<rparr>" by (simp add: ts2_def ts1_def)
      ultimately show ?thesis by auto
    qed
  qed
qed

section \<open>The vote stack\<close>

fun chain :: "(ID \<Rightarrow> ID) \<Rightarrow> ID list \<Rightarrow> bool" where
  "chain par (p # q # ps) \<longleftrightarrow> par q = p \<and> chain par (q # ps)"
| "chain par _ = True"

lemma sorted_chain:
  assumes "sorted_wrt (\<lambda>x y. ht x < ht y) (p # ps)" and "\<forall>r \<in> set ps. par r \<in> set (p # ps) \<and> ht r = Suc (ht (par r))"
  shows "chain par (p # ps)"
  using assms
proof (induction ps arbitrary: p)
  case (Cons q ps)
  from Cons.prems(2) have q: "par q \<in> set (p # q # ps)" "ht q = Suc (ht (par q))" by auto
  have "ht (par q) < ht q" using q(2) by linarith
  with q(1) Cons.prems(1) have "par q = p" by auto
  moreover have "par r \<in> set (q # ps)" if r: "r \<in> set ps" for r
  proof -
    have "ht q < ht r" "ht p < ht q" "ht r = Suc (ht (par r))" "par r \<in> set (p # q # ps)" using Cons.prems r by auto
    then show ?thesis by auto
  qed
  moreover have "sorted_wrt (\<lambda>x y. ht x < ht y) (q # ps)" "\<forall>r \<in> set ps. ht r = Suc (ht (par r))" using Cons.prems by simp_all
  ultimately show ?case using Cons.IH [of q] unfolding chain.simps by blast
qed (simp only: chain.simps)

lemma child_votes_parent:
  assumes s: "tree_shape par ht B la" and p: "p \<in> B" "p \<noteq> la"
  shows "size (child_votes par ht V p) \<le> size (child_votes par ht V (par p))"
proof -
  have h: "ht p = Suc (ht (par p))" using s p by (auto simp: tree_shape_def)
  have "filter_mset (\<lambda>v. below par ht p v \<and> v \<noteq> p) V \<subseteq># filter_mset (\<lambda>v. below par ht (par p) v \<and> v \<noteq> par p) V"
    using below_trans [OF below_step [of par ht "par p" p, OF below_refl h]] h below_height [of par ht p]
    by (intro filter_mset_mono_strong) force+
  then show ?thesis by (simp add: child_votes_def size_mset_mono)
qed

text \<open>
  The stack is what the reference definition says: the blocks with at least \<^verbatim>\<open>AlphaPreference\<close> votes for
  their descendants, from the last accepted block downwards, each with the votes for its children.
\<close>

definition vote_stack ::
  "'b Topological \<Rightarrow> (ID \<Rightarrow> ID) \<Rightarrow> (ID \<Rightarrow> nat) \<Rightarrow> ID multiset \<Rightarrow> (ID \<times> ID bag) list \<Rightarrow> bool" where
  "vote_stack ts par ht V st \<longleftrightarrow>
     set (map fst st) = {p \<in> dom (ts_blocks ts). AlphaPreference (ts_params ts) \<le> int (size (child_votes par ht V p))} \<and>
     (st \<noteq> [] \<longrightarrow> fst (hd st) = lastAcceptedID ts) \<and> chain par (map fst st) \<and>
     sorted_wrt (\<lambda>x y. ht x < ht y) (map fst st) \<and>
     (\<forall>(p, b) \<in> set st. represents b (child_votes par ht V p))"

lemma stack_from_root:
  assumes s: "tree_shape par ht B la" and ps: "set ps = {p \<in> B. alpha \<le> int (size (child_votes par ht V p))}"
    and so: "sorted_wrt (\<lambda>x y. ht x < ht y) ps"
  shows "(ps \<noteq> [] \<longrightarrow> hd ps = la) \<and> chain par ps"
proof (cases ps)
  case (Cons p qs)
  have up: "par q \<in> set ps \<and> ht q = Suc (ht (par q))" if "q \<in> set ps" "q \<noteq> la" for q
    using that ps s child_votes_parent [OF s, of q V] by (force simp: tree_shape_def)
  have "p = la"
  proof (rule ccontr)
    assume "p \<noteq> la"
    with up [of p] Cons so show False by (metis list.set_intros(1) not_less_eq order_less_imp_not_less set_ConsD sorted_wrt.simps(2) lessI)
  qed
  moreover have "q \<noteq> la" if "q \<in> set qs" for q using that so Cons \<open>p = la\<close> by auto
  ultimately show ?thesis using sorted_chain [of ht p qs par] so up Cons by auto
qed simp

lemma collect_votes_stack:
  assumes ok: "topo_ok M par ht ts" and ord: "valid_ord ord" and votes: "represents votes W"
    and k: "int (size W) \<le> K (ts_params ts)"
  shows "\<exists>N L st. collect_votes M ord votes ts = Some (ts\<lparr>kahnNodes := N, ts_leaves := L\<rparr>, st) \<and>
    vote_stack ts par ht (filter_mset (valid_vote ts) W) st"
proof -
  let ?V = "filter_mset (valid_vote ts) W" and ?al = "AlphaPreference (ts_params ts)"
    and ?B = "dom (ts_blocks ts)" and ?la = "lastAcceptedID ts"
  have s: "tree_shape par ht ?B ?la" and pv: "params_Verify (ts_params ts) = None" using ok by (auto simp: topo_ok_def)
  have pos: "0 < ?al" "K (ts_params ts) < 2 * ?al" using verified_majority [OF pv] by auto
  have sz: "size ?V \<le> size W" by (rule size_filter_mset_lesseq)
  have small: "int (size (child_votes par ht ?V p)) \<le> int (size W)" for p
    using le_trans [OF size_filter_mset_lesseq [of "\<lambda>v. below par ht p v \<and> v \<noteq> p" ?V] sz] by (simp add: child_votes_def)
  show ?thesis
  proof (cases "bag_Len votes \<ge> ?al")
    case False
    then have "\<not> ?al \<le> int (size (child_votes par ht ?V p))" for p
      using small [of p] represents_Len [OF votes] by linarith
    with False show ?thesis
      by (intro exI [of _ "kahnNodes ts"] exI [of _ "ts_leaves ts"] exI [of _ "[]"])
        (auto simp: collect_votes_def vote_stack_def)
  next
    case True
    from calculateInDegree_counted [OF ok votes ord] obtain N L where
      c: "calculateInDegree M ord votes ts = Some (ts\<lparr>kahnNodes := N, ts_leaves := L\<rparr>)" "counted_in par ts ?V {} N L"
      by blast
    have vt: "\<forall>v \<in># ?V. v \<in> ?B \<and> v \<noteq> ?la" by (auto simp: valid_vote_def)
    have direct: "votes_so_far par ht ?V {} p = filter_mset (\<lambda>v. par v = p) ?V" if "p \<in> ?B" for p
    proof -
      have v: "below par ht p v \<and> v \<noteq> p \<and> anc par ht v (Suc (ht p)) = v" if "v \<in># ?V" "par v = p" for v
      proof -
        have h: "ht v = Suc (ht p)" using that vt s by (auto simp: tree_shape_def)
        then have "below par ht p v" using below_step [of par ht p v] that(2) by simp
        moreover have "anc par ht v (Suc (ht p)) = v" by (simp add: h [symmetric])
        ultimately show ?thesis using h by auto
      qed
      have "image_mset (\<lambda>v. anc par ht v (Suc (ht p))) (filter_mset (\<lambda>v. par v = p) ?V) = image_mset id (filter_mset (\<lambda>v. par v = p) ?V)"
        using v by (intro image_mset_cong) auto
      moreover have "filter_mset (\<lambda>v. below par ht p v \<and> v \<noteq> p \<and> par v = p) ?V = filter_mset (\<lambda>v. par v = p) ?V"
        using v by (intro filter_mset_cong) auto
      ultimately show ?thesis unfolding votes_so_far_def by simp
    qed
    define ts2 where "ts2 = ts\<lparr>kahnNodes := N, ts_leaves := L\<rparr>"
    have "pushed par ht ?B ?la ?V ?al {} N L []"
      using c(2) vt direct unfolding counted_def pushed_def by (auto simp: subset_iff domIff)
    with pushVotes_pushed [of M par ht ts2 ord ?al ?V "{}" "[]"] ok ord sz k pos(2) obtain N' st where
      r: "pushVotes M ord [] ts2 = Some (ts2\<lparr>kahnNodes := N', ts_leaves := {}\<rparr>, st)" "dom N' = dom N"
        "pushed par ht ?B ?la ?V ?al (dom N') N' {} st" by (auto simp: ts2_def)
    have full: "p \<in> dom N'" if "p \<in> ?B" "?al \<le> int (size (child_votes par ht ?V p))" for p
    proof -
      from that(2) pos(1) have "child_votes par ht ?V p \<noteq> {#}" by auto
      then obtain v where v: "v \<in># ?V" "below par ht p v" "v \<noteq> p" by (auto simp: child_votes_def filter_mset_eq_conv)
      with vt s have "below par ht p (par v)" using below_par [of par ht p v] by (auto simp: tree_shape_def)
      moreover have "par v \<in> dom N'" "dom N' \<subseteq> ?B" "\<forall>c \<in> dom N'. c \<noteq> ?la \<longrightarrow> par c \<in> dom N'"
        using r(3) v(1) by (auto simp: pushed_def)
      ultimately show ?thesis using closed_up [OF s _ _ that(1)] by blast
    qed
    have st: "set (map fst st) = {p \<in> ?B. ?al \<le> int (size (child_votes par ht ?V p))}"
    proof -
      have "dom N' \<subseteq> ?B" using r(3) by (simp add: pushed_def)
      with full have "{p \<in> dom N'. ?al \<le> int (size (child_votes par ht ?V p))} = {p \<in> ?B. ?al \<le> int (size (child_votes par ht ?V p))}"
        by blast
      with pushed_stack [OF r(3)] show ?thesis by simp
    qed
    have so: "sorted_wrt (\<lambda>x y. ht x < ht y) (map fst st)" using r(3) by (simp add: pushed_def sorted_wrt_map)
    from stack_from_root [OF s st so] have "vote_stack ts par ht ?V st"
      using st so r(3) by (auto simp: vote_stack_def pushed_def hd_map)
    moreover have "collect_votes M ord votes ts = Some (ts\<lparr>kahnNodes := N', ts_leaves := {}\<rparr>, st)"
      using True c(1) r(1) by (simp add: collect_votes_def ts2_def)
    ultimately show ?thesis by blast
  qed
qed

end
