(* ===== verification/SnowmanDecisions.thy ===== *)
theory SnowmanDecisions
  imports SnowmanVotes
begin

text \<open>
  What \<^verbatim>\<open>acceptPreferredChild\<close> and \<^verbatim>\<open>rejectTransitively\<close> do to the block tree and to the log of decisions:
  one child of the last accepted block is accepted, every other block that does not descend from it is
  rejected exactly once and removed.
\<close>

section \<open>The log of decisions\<close>

fun accepted_of :: "decision list \<Rightarrow> ID list" where
  "accepted_of [] = []"
| "accepted_of (AcceptCalled i # ds) = i # accepted_of ds"
| "accepted_of (d # ds) = accepted_of ds"

fun rejected_of :: "decision list \<Rightarrow> ID list" where
  "rejected_of [] = []"
| "rejected_of (RejectCalled i # ds) = i # rejected_of ds"
| "rejected_of (d # ds) = rejected_of ds"

lemma log_append [simp]:
  "accepted_of (ds @ es) = accepted_of ds @ accepted_of es" "rejected_of (ds @ es) = rejected_of ds @ rejected_of es"
  by (induction ds rule: accepted_of.induct) simp_all

lemma log_rejects [simp]: "accepted_of (map RejectCalled is) = []" "rejected_of (map RejectCalled is) = is"
  by (induction "is") simp_all

text \<open>
  From the initial block \<open>g\<close>, the accepted blocks form a chain that ends at the last accepted one;
  no block is decided twice; a rejected block does not descend from the last accepted one.
\<close>

definition log_ok :: "(ID \<Rightarrow> ID) \<Rightarrow> (ID \<Rightarrow> nat) \<Rightarrow> ID \<Rightarrow> ID set \<Rightarrow> 'b Topological \<Rightarrow> bool" where
  "log_ok par ht g A ts \<longleftrightarrow>
     (let acc = accepted_of (decisions ts); rej = rejected_of (decisions ts) in
      hd (acc @ [g]) = lastAcceptedID ts \<and> chain par (rev (acc @ [g])) \<and> distinct acc \<and>
      (\<forall>i \<in> set acc. ht i \<le> ht (lastAcceptedID ts)) \<and>
      distinct rej \<and> set rej \<inter> dom (ts_blocks ts) = {} \<and> set rej \<inter> set acc = {} \<and>
      (\<forall>i \<in> set rej. \<not> below par ht (lastAcceptedID ts) i) \<and>
      A = set acc \<union> set rej \<union> (dom (ts_blocks ts) - {lastAcceptedID ts}))"

definition no_errors :: "'b block_methods \<Rightarrow> bool" where
  "no_errors M \<longleftrightarrow> (\<forall>b. b_Accept M b = None \<and> b_Reject M b = None) \<and> (\<forall>i bs. BlockAcceptor M i bs = None)"

lemma reject_each_ok:
  "no_errors M \<Longrightarrow> set is \<subseteq> dom cs \<Longrightarrow>
   reject_each M cs is ts = (ts\<lparr>decisions := map RejectCalled (rev is) @ decisions ts\<rparr>, None)"
  by (induction "is" arbitrary: ts) (auto simp: no_errors_def Let_def)

section \<open>Rejecting subtrees\<close>

text \<open>
  The state between two steps of \<^verbatim>\<open>rejectTransitively\<close>: \<open>b0\<close> are the blocks before, \<open>p\<close> the old last
  accepted block, \<open>c\<close> the new one. The blocks on the stack are those whose parent is gone.
\<close>

definition rejecting ::
  "(ID \<Rightarrow> ID) \<Rightarrow> (ID \<Rightarrow> nat) \<Rightarrow> (ID \<rightharpoonup> 'b snowmanBlock) \<Rightarrow> ID list \<Rightarrow> ID \<Rightarrow> ID \<Rightarrow> (ID \<rightharpoonup> 'b snowmanBlock) \<Rightarrow>
   ID list \<Rightarrow> ID list \<Rightarrow> bool" where
  "rejecting par ht b0 rej0 p c b stack rej \<longleftrightarrow>
     finite (dom b) \<and> b \<subseteq>\<^sub>m b0 \<and> p \<in> dom b \<and> c \<in> dom b - {p} \<and> c \<notin> set stack \<and> distinct stack \<and>
     set stack \<subseteq> dom b - {p} \<and>
     (\<forall>i \<in> dom b - {p}. i \<noteq> c \<longrightarrow> (i \<in> set stack \<longleftrightarrow> par i \<notin> dom b - {p})) \<and>
     (\<forall>i \<in> dom b0 - {p}. i \<notin> dom b \<longrightarrow> par i \<notin> dom b - {p}) \<and>
     distinct rej \<and> set rej \<inter> dom b = set stack \<and> set rej = set rej0 \<union> (dom b0 - dom b) \<union> set stack \<and>
     (\<forall>i \<in> set rej. \<not> below par ht c i)"

lemma rejecting_step:
  assumes r: "rejecting par ht b0 rej0 p c b (i # stack) rej" and ord: "distinct is" "set is = {x \<in> dom b0. x \<noteq> p \<and> par x = i}"
    and h: "\<forall>x \<in> dom b0. x \<noteq> p \<longrightarrow> ht x = Suc (ht (par x))" and pc: "par c = p"
    and rej0: "set rej0 \<inter> dom b0 = {}"
  shows "rejecting par ht b0 rej0 p c (b(i := None)) (rev is @ stack) (rev is @ rej)"
proof -
  note R = r [unfolded rejecting_def]
  have d: "dom b \<subseteq> dom b0" using R by (auto dest: map_le_implies_dom_le)
  have i: "i \<in> dom b - {p}" "i \<noteq> c" "i \<notin> set stack" "i \<in> set rej" using R by auto
  have kids: "x \<in> dom b - {p} \<and> x \<notin> set (i # stack) \<and> x \<notin> set rej \<and> x \<noteq> c" if "x \<in> set is" for x
  proof -
    have x: "x \<in> dom b0 - {p}" "par x = i" using that ord(2) by auto
    with R i have xb: "x \<in> dom b - {p}" by blast
    moreover have "x \<noteq> c" using pc x i by auto
    ultimately have "x \<notin> set (i # stack)" using R x(2) i by blast
    with R xb \<open>x \<noteq> c\<close> show ?thesis by blast
  qed
  have nb: "\<not> below par ht c x" if "x \<in> set is" for x
  proof
    assume b: "below par ht c x"
    have x: "x \<in> dom b0" "x \<noteq> p" "par x = i" using that ord(2) by auto
    then have "ht x = Suc (ht (par x))" using h by blast
    moreover have "c \<noteq> x" using kids [OF that] by blast
    ultimately have "below par ht c i" using below_par [of par ht c x, OF b] x(3) by simp
    with R i show False by blast
  qed
  have le: "b(i := None) \<subseteq>\<^sub>m b0" using R by (auto simp: map_le_def)
  have stk: "\<forall>x \<in> dom b - {p}. x \<noteq> c \<longrightarrow> (x \<in> set (i # stack) \<longleftrightarrow> par x \<notin> dom b - {p})" using R by (elim conjE)
  have st: "x \<in> set (rev is @ stack) \<longleftrightarrow> par x \<notin> dom (b(i := None)) - {p}" if "x \<in> dom (b(i := None)) - {p}" "x \<noteq> c" for x
  proof (cases "par x = i")
    case True
    with that d have "x \<in> set is" using ord(2) by auto
    with True show ?thesis by auto
  next
    case False
    then have "x \<notin> set is" using ord(2) by auto
    moreover have "x \<in> dom b - {p}" using that(1) by auto
    with stk that(2) have "x \<in> set (i # stack) \<longleftrightarrow> par x \<notin> dom b - {p}" by blast
    ultimately show ?thesis using that False by auto
  qed
  have gone: "par x \<notin> dom (b(i := None)) - {p}" if "x \<in> dom b0 - {p}" "x \<notin> dom (b(i := None))" for x
  proof (cases "x = i")
    case True
    have "par i \<notin> dom b - {p}" using R i by auto
    with True show ?thesis by auto
  next
    case False
    with that R have "par x \<notin> dom b - {p}" by auto
    then show ?thesis by auto
  qed
  have rj: "set (rev is @ rej) \<inter> dom (b(i := None)) = set (rev is @ stack)"
    using R kids i by auto
  have rs: "set (rev is @ rej) = set rej0 \<union> (dom b0 - dom (b(i := None))) \<union> set (rev is @ stack)"
    using R i d by auto
  have dist: "distinct (rev is @ rej)" "distinct (rev is @ stack)" using R ord(1) kids by auto
  have sub: "set (rev is @ stack) \<subseteq> dom (b(i := None)) - {p}" "c \<notin> set (rev is @ stack)"
    using R kids i by auto
  have rn: "\<not> below par ht c x" if "x \<in> set (rev is @ rej)" for x using that nb R by auto
  have basic: "finite (dom (b(i := None)))" "p \<in> dom (b(i := None))" "c \<in> dom (b(i := None)) - {p}" using R i by auto
  show ?thesis
    unfolding rejecting_def by (intro conjI ballI impI basic le dist sub rj rs st gone rn)
qed

lemma rejectTransitively_ok:
  assumes ne: "no_errors M" and ord: "valid_ord ord"
    and kids: "\<forall>i n. b0 i = Some n \<longrightarrow> i \<noteq> p \<longrightarrow> dom (sm_children n) = {x \<in> dom b0. x \<noteq> p \<and> par x = i}" and fin: "finite (dom b0)"
    and h: "\<forall>x \<in> dom b0. x \<noteq> p \<longrightarrow> ht x = Suc (ht (par x))" and pc: "par c = p" and rej0: "set rej0 \<inter> dom b0 = {}"
  shows "rejecting par ht b0 rej0 p c (ts_blocks ts) stack (rejected_of (decisions ts)) \<Longrightarrow>
    \<exists>b ds. rejectTransitively M ord stack ts = Some (ts\<lparr>ts_blocks := b, decisions := map RejectCalled ds @ decisions ts\<rparr>, None) \<and>
      rejecting par ht b0 rej0 p c b [] (ds @ rejected_of (decisions ts))"
proof (induction "card (dom (ts_blocks ts))" arbitrary: ts stack rule: less_induct)
  case less
  note r = less.prems [unfolded rejecting_def]
  show ?case
  proof (cases stack)
    case Nil
    with less.prems show ?thesis
      by (intro exI [of _ "ts_blocks ts"] exI [of _ "[]"]) (simp add: rejectTransitively.simps)
  next
    case (Cons i rest)
    with r have i: "i \<in> dom (ts_blocks ts)" "i \<noteq> p" by auto
    then obtain n where n: "ts_blocks ts i = Some n" by blast
    moreover have "ts_blocks ts \<subseteq>\<^sub>m b0" using r by simp
    ultimately have "b0 i = Some n" unfolding map_le_def by (metis domI)
    with kids i(2) have dn: "dom (sm_children n) = {x \<in> dom b0. x \<noteq> p \<and> par x = i}" by blast
    then have "finite (dom (sm_children n))" using fin by simp
    define ks where "ks = ord (dom (sm_children n))"
    have ks: "set ks = dom (sm_children n)" "distinct ks" using valid_ordD [OF ord \<open>finite (dom (sm_children n))\<close>] by (auto simp: ks_def)
    define ts2 where "ts2 = ts\<lparr>ts_blocks := (ts_blocks ts)(i := None), decisions := map RejectCalled (rev ks) @ decisions ts\<rparr>"
    have "rejectTransitively M ord stack ts = rejectTransitively M ord (rev ks @ rest) ts2"
      using n Cons reject_each_ok [OF ne, of ks "sm_children n"] ks(1)
      by (simp add: rejectTransitively.simps [of M ord "i # rest"] Let_def ts2_def flip: ks_def)
    moreover have "rejecting par ht b0 rej0 p c (ts_blocks ts2) (rev ks @ rest) (rejected_of (decisions ts2))"
      using rejecting_step [OF less.prems [unfolded Cons] ks(2) _ h pc rej0] ks(1) dn
      by (simp add: ts2_def del: rev_map)
    moreover have "card (dom (ts_blocks ts2)) < card (dom (ts_blocks ts))"
      using r i(1) by (intro psubset_card_mono) (auto simp: ts2_def)
    ultimately obtain b ds where
      "rejectTransitively M ord stack ts = Some (ts2\<lparr>ts_blocks := b, decisions := map RejectCalled ds @ decisions ts2\<rparr>, None)"
      "rejecting par ht b0 rej0 p c b [] (ds @ rejected_of (decisions ts2))"
      using less.hyps [of ts2 "rev ks @ rest"] by auto
    then show ?thesis
      by (intro exI [of _ b] exI [of _ "ds @ rev ks"]) (simp add: ts2_def)
  qed
qed

section \<open>Accepting a child\<close>

text \<open>\<open>ts'\<close> is \<open>ts\<close> after \<open>c\<close>, a child of the last accepted block, was accepted.\<close>

definition advanced :: "(ID \<Rightarrow> ID) \<Rightarrow> (ID \<Rightarrow> nat) \<Rightarrow> ID \<Rightarrow> 'b Topological \<Rightarrow> 'b Topological \<Rightarrow> bool" where
  "advanced par ht c ts ts' \<longleftrightarrow>
     lastAcceptedID ts' = c \<and> ts_params ts' = ts_params ts \<and> ts_Factory ts' = ts_Factory ts \<and>
     ts_blocks ts' = (\<lambda>i. if below par ht c i then ts_blocks ts i else None) \<and>
     preferredIDs ts' = preferredIDs ts - {c} \<and> ts_preference ts' = ts_preference ts \<and>
     preferredHeights ts' = (preferredHeights ts)(lastAcceptedHeight ts' := None)"

lemma chain_snoc: "chain par (xs @ [x]) \<Longrightarrow> par y = x \<Longrightarrow> chain par (xs @ [x, y])"
  by (induction par "xs @ [x]" arbitrary: xs rule: chain.induct) (auto simp: Cons_eq_append_conv)

lemma rejected_all:
  assumes s: "tree_shape par ht (dom b0) p" and r: "rejecting par ht b0 rej0 p c b [] rej" and pc: "par c = p" "c \<in> dom b0"
  shows "b(p := None) = (\<lambda>i. if below par ht c i then b0 i else None)" and "tree_shape par ht (dom (b(p := None))) c"
proof -
  note R = r [unfolded rejecting_def]
  have le: "\<forall>i \<in> dom b. b i = b0 i" using R by (auto simp: map_le_def)
  have d: "dom b \<subseteq> dom b0" using R by (auto dest: map_le_implies_dom_le)
  have hc: "ht c = Suc (ht p)" using s pc R by (auto simp: tree_shape_def)
  have np: "\<not> below par ht c p" using below_height [of par ht c p] hc by auto
  have up: "par i \<in> dom b - {p} \<and> ht i = Suc (ht (par i))" if "i \<in> dom b - {p}" "i \<noteq> c" for i
    using that R s d by (auto simp: tree_shape_def)
  have below: "below par ht c i" if "i \<in> dom b - {p}" for i
    using that
  proof (induction "ht i" arbitrary: i rule: less_induct)
    case less
    show ?case
    proof (cases "i = c")
      case False
      from up [OF less.prems False] have u: "par i \<in> dom b - {p}" "ht i = Suc (ht (par i))" by auto
      moreover have "ht (par i) < ht i" using u(2) by linarith
      ultimately show ?thesis using less.hyps [of "par i"] below_step by blast
    qed simp
  qed
  have "set rej = set rej0 \<union> (dom b0 - dom b)" "\<forall>i \<in> set rej. \<not> below par ht c i" using R by simp_all
  then have "i \<in> dom b" if "i \<in> dom b0" "below par ht c i" for i using that by blast
  note inb = this
  show "b(p := None) = (\<lambda>i. if below par ht c i then b0 i else None)"
  proof
    fix i
    show "(b(p := None)) i = (if below par ht c i then b0 i else None)"
    proof (cases "i \<in> dom b - {p}")
      case True
      with below [OF True] le show ?thesis by simp
    next
      case False
      then have "(b(p := None)) i = None" by auto
      moreover have "i \<notin> dom b0" if "below par ht c i" using inb that False np by blast
      ultimately show ?thesis by (simp add: domIff)
    qed
  qed
  have "ht c < ht i" if "i \<in> dom b - {p}" "i \<noteq> c" for i
    using below_height [OF below [OF that(1)]] below_antisym [OF below [OF that(1)]] that(2) by force
  with up R show "tree_shape par ht (dom (b(p := None))) c" by (auto simp: tree_shape_def)
qed

lemma rejecting_start:
  assumes ok: "topo_ok M par ht ts" and log: "log_ok par ht g A ts"
    and c: "c \<in> dom (ts_blocks ts)" "c \<noteq> lastAcceptedID ts" "par c = lastAcceptedID ts"
    and ks: "distinct ks" "set ks = {x \<in> dom (ts_blocks ts). x \<noteq> lastAcceptedID ts \<and> par x = lastAcceptedID ts} - {c}"
  shows "rejecting par ht (ts_blocks ts) (rejected_of (decisions ts)) (lastAcceptedID ts) c (ts_blocks ts) (rev ks)
    (rev ks @ rejected_of (decisions ts))"
proof -
  let ?b = "ts_blocks ts" and ?p = "lastAcceptedID ts" and ?rej = "rejected_of (decisions ts)"
  have s: "tree_shape par ht (dom ?b) ?p" using ok by (simp add: topo_ok_def)
  have rej: "distinct ?rej" "set ?rej \<inter> dom ?b = {}" "\<forall>i \<in> set ?rej. \<not> below par ht ?p i"
    using log by (simp_all add: log_ok_def Let_def)
  have h: "ht x = Suc (ht (par x))" if "x \<in> dom ?b" "x \<noteq> ?p" for x using s that by (auto simp: tree_shape_def)
  have pc: "below par ht ?p c" using shape_below [OF s c(1)] .
  have "\<not> below par ht c x" if "x \<in> set ks" for x
    using below_antisym [of par ht c x] h [of x] h [OF c(1,2)] that ks(2) c(3) by auto
  moreover have "\<not> below par ht c x" if "x \<in> set ?rej" for x using rej(3) that below_trans [OF pc] by blast
  ultimately have "\<forall>i \<in> set (rev ks @ ?rej). \<not> below par ht c i" by auto
  moreover have "i \<in> set (rev ks) \<longleftrightarrow> par i \<notin> dom ?b - {?p}" if "i \<in> dom ?b - {?p}" "i \<noteq> c" for i
  proof -
    have "par i \<in> dom ?b" using s that(1) by (auto simp: tree_shape_def)
    with that ks(2) show ?thesis by auto
  qed
  moreover have "?p \<in> dom ?b" "finite (dom ?b)" using s by (auto simp: tree_shape_def)
  moreover have "distinct (rev ks @ ?rej)" "set (rev ks @ ?rej) \<inter> dom ?b = set (rev ks)" using ks rej(1,2) by auto
  moreover have "set (rev ks) \<subseteq> dom ?b - {?p}" "c \<notin> set (rev ks)" using ks(2) by auto
  moreover have "set (rev ks @ ?rej) = set ?rej \<union> (dom ?b - dom ?b) \<union> set (rev ks)" by auto
  ultimately show ?thesis unfolding rejecting_def using c ks(1) by (intro conjI ballI impI) auto
qed

lemma topo_ok_advance:
  assumes ok: "topo_ok M par ht ts" and adv: "advanced par ht c ts ts'"
    and s: "tree_shape par ht (dom (ts_blocks ts')) c" and h: "unat (lastAcceptedHeight ts') = ht c"
    and c: "c \<in> dom (ts_blocks ts)" "c \<noteq> lastAcceptedID ts" "par c = lastAcceptedID ts"
  shows "topo_ok M par ht ts'"
proof -
  let ?p = "lastAcceptedID ts"
  have la: "lastAcceptedID ts' = c" and ps: "ts_params ts' = ts_params ts"
    and b: "ts_blocks ts' = (\<lambda>i. if below par ht c i then ts_blocks ts i else None)" using adv by (simp_all add: advanced_def)
  have hp: "ht c = Suc (ht ?p)" using ok c by (auto simp: topo_ok_def tree_shape_def)
  have "node_ok M par ts' i n" if "ts_blocks ts' i = Some n" for i n
  proof -
    have i: "ts_blocks ts i = Some n" "below par ht c i" using that b by (auto split: if_splits)
    have n: "node_ok M par ts i n" using topo_node [OF ok i(1)] .
    have ip: "i \<noteq> ?p" using below_height [OF i(2)] hp by auto
    have "{x \<in> dom (ts_blocks ts'). x \<noteq> c \<and> par x = i} = {x \<in> dom (ts_blocks ts). x \<noteq> ?p \<and> par x = i}"
    proof (intro equalityI subsetI CollectI)
      fix x assume x: "x \<in> {x \<in> dom (ts_blocks ts). x \<noteq> ?p \<and> par x = i}"
      then have "ht x = Suc (ht i)" using ok by (auto simp: topo_ok_def tree_shape_def)
      with i(2) x have "below par ht c x" using below_step [of par ht c x] by auto
      with x b ip c(3) show "x \<in> dom (ts_blocks ts') \<and> x \<noteq> c \<and> par x = i" by auto
    next
      fix x assume x: "x \<in> {x \<in> dom (ts_blocks ts'). x \<noteq> c \<and> par x = i}"
      then have "x \<in> dom (ts_blocks ts)" "below par ht c x" using b by (auto split: if_splits)
      with x below_height [of par ht c x] hp show "x \<in> dom (ts_blocks ts) \<and> x \<noteq> ?p \<and> par x = i" by auto
    qed
    with n ip show ?thesis by (auto simp: node_ok_def la ps split: option.splits)
  qed
  with ok s h la ps show ?thesis by (simp add: topo_ok_def)
qed

lemma node_sb:
  "node_ok M par ts i n \<Longrightarrow> sm_sb n = Some t \<Longrightarrow> tr_params t = ts_params ts \<and> sound_tree (dom (sm_children n)) t"
proof -
  assume "node_ok M par ts i n" and t: "sm_sb n = Some t"
  then have "case sm_sb n of None \<Rightarrow> sm_children n = Map.empty
      | Some t \<Rightarrow> tr_params t = ts_params ts \<and> sound_tree (dom (sm_children n)) t"
    unfolding node_ok_def by (elim conjE)
  with t show ?thesis by simp
qed

lemma preferred_child:
  assumes ok: "topo_ok M par ht ts" and n: "ts_blocks ts i = Some n" and t: "sm_sb n = Some t"
  obtains b where "sm_children n (Tree_Preference t) = Some b" "b_ID M b = Tree_Preference t"
    "unat (b_Height M b) = ht (Tree_Preference t)" "Tree_Preference t \<in> dom (ts_blocks ts)"
    "Tree_Preference t \<noteq> lastAcceptedID ts" "par (Tree_Preference t) = i" "ht (Tree_Preference t) = Suc (ht i)"
proof -
  let ?c = "Tree_Preference t"
  note nk = topo_node [OF ok n]
  then have "?c \<in> dom (sm_children n)" using node_sb [OF _ t] tree_ok_preference [OF sound_tree_ok] by blast
  then obtain b where b: "sm_children n ?c = Some b" by blast
  with nk have c: "b_ID M b = ?c" "?c \<in> dom (ts_blocks ts)" "?c \<noteq> lastAcceptedID ts" "par ?c = i"
    unfolding node_ok_def by blast+
  have "unat (b_Height M b) = ht ?c" using ok c(1) by (metis topo_ok_def block_law_def)
  moreover have "ht ?c = Suc (ht i)" using ok c(2-4) by (auto simp: topo_ok_def tree_shape_def)
  ultimately show thesis using that b c by blast
qed

lemma log_ok_advance:
  assumes log: "log_ok par ht g A ts" and s: "tree_shape par ht (dom (ts_blocks ts)) (lastAcceptedID ts)"
    and c: "c \<in> dom (ts_blocks ts)" "c \<noteq> lastAcceptedID ts" "par c = lastAcceptedID ts"
    and r: "rejecting par ht (ts_blocks ts) (rejected_of (decisions ts)) (lastAcceptedID ts) c b [] rej"
    and ts': "lastAcceptedID ts' = c" "ts_blocks ts' = b(lastAcceptedID ts := None)"
      "accepted_of (decisions ts') = c # accepted_of (decisions ts)" "rejected_of (decisions ts') = rej"
  shows "log_ok par ht g A ts'"
proof -
  let ?p = "lastAcceptedID ts" and ?acc = "accepted_of (decisions ts)" and ?rej = "rejected_of (decisions ts)"
  have hc: "ht c = Suc (ht ?p)" using s c by (auto simp: tree_shape_def)
  have l: "hd (?acc @ [g]) = ?p" "chain par (rev (?acc @ [g]))" "distinct ?acc" "\<forall>i \<in> set ?acc. ht i \<le> ht ?p"
    "set ?rej \<inter> set ?acc = {}" "A = set ?acc \<union> set ?rej \<union> (dom (ts_blocks ts) - {?p})"
    using log by (simp_all add: log_ok_def Let_def)
  have R: "distinct rej" "set rej \<inter> dom b = {}" "set rej = set ?rej \<union> (dom (ts_blocks ts) - dom b)"
    "\<forall>i \<in> set rej. \<not> below par ht c i" "dom b \<subseteq> dom (ts_blocks ts)" "c \<in> dom b" "?p \<in> dom b"
    using r by (auto simp: rejecting_def dest: map_le_implies_dom_le)
  obtain xs where xs: "rev (?acc @ [g]) = xs @ [?p]" using l(1) by (cases ?acc) auto
  then have "chain par (rev ((c # ?acc) @ [g]))" using chain_snoc [of par xs ?p c] l(2) c(3) by simp
  moreover have "i \<notin> set ?acc" if "i \<in> dom (ts_blocks ts)" "i \<noteq> ?p" for i
  proof -
    have "ht ?p < ht i" using s that by (auto simp: tree_shape_def)
    with l(4) show ?thesis by auto
  qed
  then have "set rej \<inter> set (c # ?acc) = {}" "c \<notin> set ?acc" using R l(5) c by auto
  moreover have "A = set (c # ?acc) \<union> set rej \<union> (dom (b(?p := None)) - {c})"
    unfolding l(6) using R c by auto
  moreover have "\<forall>i \<in> set (c # ?acc). ht i \<le> ht c" using l(4) hc by auto
  ultimately show ?thesis unfolding log_ok_def Let_def ts' using R l(3) by auto
qed

lemma accept_ok:
  assumes ok: "topo_ok M par ht ts" and log: "log_ok par ht g A ts" and ne: "no_errors M" and ord: "valid_ord ord"
    and n: "ts_blocks ts (lastAcceptedID ts) = Some n" and t: "sm_sb n = Some t"
  shows "\<exists>ts1 ts'. acceptPreferredChild M ord t (sm_children n) ts = Some (ts1, None) \<and>
    ts' = ts1\<lparr>ts_blocks := (ts_blocks ts1)(lastAcceptedID ts := None)\<rparr> \<and>
    advanced par ht (Tree_Preference t) ts ts' \<and> topo_ok M par ht ts' \<and> log_ok par ht g A ts'"
proof -
  let ?p = "lastAcceptedID ts" and ?b0 = "ts_blocks ts" and ?rej = "rejected_of (decisions ts)"
  define c where "c = Tree_Preference t"
  obtain ch where ch: "sm_children n c = Some ch" "b_ID M ch = c" "unat (b_Height M ch) = ht c"
    and c: "c \<in> dom ?b0" "c \<noteq> ?p" "par c = ?p" using preferred_child [OF ok n t] unfolding c_def by metis
  have s: "tree_shape par ht (dom ?b0) ?p" using ok by (simp add: topo_ok_def)
  have dn: "dom (sm_children n) = {x \<in> dom ?b0. x \<noteq> ?p \<and> par x = ?p}" using topo_node [OF ok n] by (simp add: node_ok_def)
  have "finite (dom (sm_children n))" unfolding dn using s by (simp add: tree_shape_def)
  note o = valid_ordD [OF ord this]
  define ks where "ks = filter (\<lambda>i. i \<noteq> c) (ord (dom (sm_children n)))"
  have ks: "distinct ks" "set ks = {x \<in> dom ?b0. x \<noteq> ?p \<and> par x = ?p} - {c}" using o dn by (auto simp: ks_def)
  have kd: "set ks \<subseteq> dom (sm_children n)" using o(1) by (auto simp: ks_def)
  define ts1 where "ts1 = ts\<lparr>lastAcceptedID := c, lastAcceptedHeight := b_Height M ch, preferredIDs := preferredIDs ts - {c},
    preferredHeights := (preferredHeights ts)(b_Height M ch := None),
    decisions := map RejectCalled (rev ks) @ AcceptCalled c # Notified c (b_Bytes M ch) # decisions ts\<rparr>"
  have eq: "acceptPreferredChild M ord t (sm_children n) ts = rejectTransitively M ord (rev ks) ts1"
    using ch(1) ne reject_each_ok [OF ne kd]
    by (simp add: acceptPreferredChild_def Let_def ts1_def no_errors_def flip: c_def ks_def)
  have rs: "rejecting par ht ?b0 ?rej ?p c (ts_blocks ts1) (rev ks) (rejected_of (decisions ts1))"
    using rejecting_start [OF ok log c ks] by (simp add: ts1_def del: rev_map)
  have kids: "\<forall>i n. ?b0 i = Some n \<longrightarrow> i \<noteq> ?p \<longrightarrow> dom (sm_children n) = {x \<in> dom ?b0. x \<noteq> ?p \<and> par x = i}"
    using topo_node [OF ok] by (simp add: node_ok_def)
  have h: "\<forall>x \<in> dom ?b0. x \<noteq> ?p \<longrightarrow> ht x = Suc (ht (par x))" "finite (dom ?b0)" using s by (auto simp: tree_shape_def)
  have r0: "set ?rej \<inter> dom ?b0 = {}" using log by (simp add: log_ok_def Let_def)
  from rejectTransitively_ok [of M ord ?b0 ?p par ht c, OF ne ord kids h(2,1) c(3) r0 rs] eq obtain b ds where
    a: "acceptPreferredChild M ord t (sm_children n) ts = Some (ts1\<lparr>ts_blocks := b, decisions := map RejectCalled ds @ decisions ts1\<rparr>, None)"
    and r: "rejecting par ht ?b0 ?rej ?p c b [] (ds @ rejected_of (decisions ts1))"
    by auto
  define ts' where "ts' = ts1\<lparr>ts_blocks := b(?p := None), decisions := map RejectCalled ds @ decisions ts1\<rparr>"
  note all = rejected_all [OF s r c(3,1)]
  have adv: "advanced par ht c ts ts'" using all(1) by (simp add: advanced_def ts'_def ts1_def)
  moreover have "topo_ok M par ht ts'"
    by (rule topo_ok_advance [OF ok adv _ _ c]) (use all(2) ch(3) in \<open>simp_all add: ts'_def ts1_def\<close>)
  moreover have "log_ok par ht g A ts'"
    by (rule log_ok_advance [OF log s c r]) (simp_all add: ts'_def ts1_def)
  ultimately show ?thesis using a unfolding c_def
    by (intro exI [of _ "ts1\<lparr>ts_blocks := b, decisions := map RejectCalled ds @ decisions ts1\<rparr>"] exI [of _ ts']) (simp add: ts'_def)
qed

end
