(* ===== verification/SnowmanSafety.thy ===== *)
theory SnowmanSafety
  imports SnowmanDecisions
begin

text \<open>
  The invariants of \<^verbatim>\<open>Topological\<close> under every sequence of \<^verbatim>\<open>Add\<close> and \<^verbatim>\<open>RecordPoll\<close>: no call panics or
  hangs, decisions are safe, and the preferred blocks are the branch that the snowball trees prefer.
\<close>

section \<open>The preferred branch\<close>

definition nxt :: "'b Topological \<Rightarrow> ID \<Rightarrow> ID option" where
  "nxt ts i = (case ts_blocks ts i of None \<Rightarrow> None | Some n \<Rightarrow> map_option Tree_Preference (sm_sb n))"

fun pref_walk :: "'b Topological \<Rightarrow> ID \<Rightarrow> ID list \<Rightarrow> bool" where
  "pref_walk ts i [] = True"
| "pref_walk ts i (j # js) = (nxt ts i = Some j \<and> pref_walk ts j js)"

definition pref_path :: "'b Topological \<Rightarrow> ID \<Rightarrow> ID list \<Rightarrow> bool" where
  "pref_path ts i js \<longleftrightarrow> pref_walk ts i js \<and> nxt ts (last (i # js)) = None"

definition heights_ok :: "(ID \<Rightarrow> nat) \<Rightarrow> 'b Topological \<Rightarrow> bool" where
  "heights_ok ht ts \<longleftrightarrow> (\<forall>h i. preferredHeights ts h = Some i \<longleftrightarrow> i \<in> preferredIDs ts \<and> unat h = ht i)"

definition pref_ok :: "(ID \<Rightarrow> nat) \<Rightarrow> 'b Topological \<Rightarrow> ID list \<Rightarrow> bool" where
  "pref_ok ht ts vs \<longleftrightarrow> pref_path ts (lastAcceptedID ts) vs \<and> preferredIDs ts = set vs \<and>
     ts_preference ts = last (lastAcceptedID ts # vs) \<and> heights_ok ht ts"

lemma walk_append: "pref_walk ts i (xs @ ys) \<longleftrightarrow> pref_walk ts i xs \<and> pref_walk ts (last (i # xs)) ys"
  by (induction xs arbitrary: i) auto

lemma path_append: "pref_path ts i (xs @ ys) \<longleftrightarrow> pref_walk ts i xs \<and> pref_path ts (last (i # xs)) ys"
  by (auto simp: pref_path_def walk_append)

lemma path_Cons: "pref_path ts i (j # js) \<longleftrightarrow> nxt ts i = Some j \<and> pref_path ts j js"
  by (simp add: pref_path_def)

lemma path_Nil: "pref_path ts i [] \<longleftrightarrow> nxt ts i = None"
  by (simp add: pref_path_def)

lemma walk_cong:
  "(\<And>k. k \<in> set (butlast (i # js)) \<Longrightarrow> nxt ts' k = nxt ts k) \<Longrightarrow> pref_walk ts' i js = pref_walk ts i js"
  by (induction js arbitrary: i) auto

lemma path_cong: "(\<And>k. k \<in> set (i # js) \<Longrightarrow> nxt ts' k = nxt ts k) \<Longrightarrow> pref_path ts' i js = pref_path ts i js"
proof -
  assume eq: "\<And>k. k \<in> set (i # js) \<Longrightarrow> nxt ts' k = nxt ts k"
  have "pref_walk ts' i js = pref_walk ts i js" by (rule walk_cong) (use eq in_set_butlastD in fast)
  moreover have "nxt ts' (last (i # js)) = nxt ts (last (i # js))" by (rule eq) (rule last_in_set, simp)
  ultimately show ?thesis by (simp only: pref_path_def)
qed

lemma nxt_child:
  assumes ok: "topo_ok M par ht ts" and j: "nxt ts i = Some j"
  shows "i \<in> dom (ts_blocks ts)" "j \<in> dom (ts_blocks ts)" "j \<noteq> lastAcceptedID ts" "par j = i" "ht j = Suc (ht i)"
    "below par ht i j"
proof -
  from j obtain n t where n: "ts_blocks ts i = Some n" "sm_sb n = Some t" "j = Tree_Preference t"
    by (auto simp: nxt_def split: option.splits)
  from preferred_child [OF ok n(1,2)] n show "i \<in> dom (ts_blocks ts)" "j \<in> dom (ts_blocks ts)"
    "j \<noteq> lastAcceptedID ts" "par j = i" and h: "ht j = Suc (ht i)" by (metis domI)+
  then show "below par ht i j" using below_step [of par ht i j] by simp
qed

lemma walk_below:
  assumes ok: "topo_ok M par ht ts"
  shows "pref_walk ts i js \<Longrightarrow> j \<in> set js \<Longrightarrow>
    j \<in> dom (ts_blocks ts) \<and> j \<noteq> lastAcceptedID ts \<and> below par ht i j \<and> ht i < ht j"
proof (induction js arbitrary: i)
  case (Cons k ks)
  then have k: "nxt ts i = Some k" by simp
  note c = nxt_child [OF ok k]
  show ?case
  proof (cases "j = k")
    case True
    with c show ?thesis by auto
  next
    case False
    with Cons have "j \<in> dom (ts_blocks ts) \<and> j \<noteq> lastAcceptedID ts \<and> below par ht k j \<and> ht k < ht j" by auto
    with c below_trans [OF c(6)] show ?thesis by auto
  qed
qed simp

lemma walk_sorted:
  assumes ok: "topo_ok M par ht ts"
  shows "pref_walk ts i js \<Longrightarrow> sorted_wrt (\<lambda>x y. ht x < ht y) (i # js)"
proof (induction js arbitrary: i)
  case (Cons k ks)
  from Cons.IH [of k] Cons.prems have "sorted_wrt (\<lambda>x y. ht x < ht y) (k # ks)" by (simp only: pref_walk.simps)
  with walk_below [OF ok Cons.prems] show ?case by auto
qed simp

lemma sorted_height_distinct: "sorted_wrt (\<lambda>x y. (ht x :: nat) < ht y) xs \<Longrightarrow> distinct xs"
  by (induction xs) auto

lemma sorted_last: "sorted_wrt (\<lambda>x y. (ht x :: nat) < ht y) xs \<Longrightarrow> x \<in> set xs \<Longrightarrow> ht x \<le> ht (last xs)"
  by (induction xs) (auto intro: less_imp_le)

lemma path_exists:
  assumes ok: "topo_ok M par ht ts" and i: "i \<in> dom (ts_blocks ts)"
  shows "\<exists>js. pref_path ts i js"
proof -
  have fin: "finite (dom (ts_blocks ts))" using ok by (simp add: topo_ok_def tree_shape_def)
  define m where "m = Max (ht ` dom (ts_blocks ts))"
  have m: "ht i \<le> m" if "i \<in> dom (ts_blocks ts)" for i using fin that by (simp add: m_def)
  show ?thesis using i
  proof (induction "m - ht i" arbitrary: i rule: less_induct)
    case less
    show ?case
    proof (cases "nxt ts i")
      case None
      then show ?thesis using path_Nil by blast
    next
      case (Some j)
      note c = nxt_child [OF ok Some]
      have "m - ht j < m - ht i" using c(5) m [OF c(2)] by linarith
      with less.hyps c(2) Some show ?thesis using path_Cons by blast
    qed
  qed
qed

lemma path_unique: "pref_path ts i js \<Longrightarrow> pref_path ts i ks \<Longrightarrow> js = ks"
proof (induction js arbitrary: i ks)
  case Nil
  then show ?case by (cases ks) (auto simp: path_Nil path_Cons)
next
  case (Cons j js)
  then show ?case by (cases ks) (auto simp: path_Nil path_Cons)
qed

section \<open>Voting on a block\<close>

lemma topo_ok_cong:
  assumes ok: "topo_ok M par ht ts" and d: "dom b = dom (ts_blocks ts)"
    and same: "\<And>i n n'. ts_blocks ts i = Some n \<Longrightarrow> b i = Some n' \<Longrightarrow>
      sm_blk n' = sm_blk n \<and> sm_children n' = sm_children n \<and>
      (sm_sb n' = sm_sb n \<or>
       (\<exists>t. sm_sb n' = Some t \<and> tr_params t = ts_params ts \<and> sound_tree (dom (sm_children n)) t))"
  shows "topo_ok M par ht (ts\<lparr>ts_blocks := b\<rparr>)"
proof -
  have "node_ok M par (ts\<lparr>ts_blocks := b\<rparr>) i n'" if n': "b i = Some n'" for i n'
  proof -
    have "i \<in> dom (ts_blocks ts)" using d n' by blast
    then obtain n where n: "ts_blocks ts i = Some n" by blast
    have eq: "sm_blk n' = sm_blk n" "sm_children n' = sm_children n" using same [OF n n'] by auto
    note nk = topo_node [OF ok n]
    have "case sm_sb n' of None \<Rightarrow> sm_children n' = Map.empty
        | Some t \<Rightarrow> tr_params t = ts_params ts \<and> sound_tree (dom (sm_children n')) t"
      using same [OF n n'] nk unfolding node_ok_def eq by auto
    moreover have "(case sm_blk n of None \<Rightarrow> i = lastAcceptedID ts | Some b \<Rightarrow> b_ID M b = i)"
      "dom (sm_children n) = {c \<in> dom (ts_blocks ts). c \<noteq> lastAcceptedID ts \<and> par c = i}"
      "\<forall>c b. sm_children n c = Some b \<longrightarrow> b_ID M b = c" using nk unfolding node_ok_def by blast+
    ultimately show ?thesis by (simp add: node_ok_def d eq cong: option.case_cong)
  qed
  with ok show ?thesis by (simp add: topo_ok_def d)
qed

text \<open>A block after the votes were recorded on its snowball tree.\<close>

definition poll_tree :: "(ID set \<Rightarrow> ID list) \<Rightarrow> ID bag \<Rightarrow> 'b snowmanBlock \<Rightarrow> Tree \<Rightarrow> Tree" where
  "poll_tree ord votes n t = fst (Tree_RecordPoll ord votes (if sm_shouldFalter n then Tree_RecordUnsuccessfulPoll t else t))"

definition record_vote :: "ID \<Rightarrow> 'b snowmanBlock \<Rightarrow> Tree \<Rightarrow> 'b Topological \<Rightarrow> 'b Topological" where
  "record_vote p n t ts = ts\<lparr>ts_blocks := (ts_blocks ts)(p \<mapsto> n\<lparr>sm_shouldFalter := False, sm_sb := Some t\<rparr>)\<rparr>"

definition next_of :: "(ID \<times> ID bag) list \<Rightarrow> ID" where
  "next_of st = (case st of [] \<Rightarrow> Empty_ID | (q, _) # _ \<Rightarrow> q)"

lemma vote_loop_plain:
  assumes "ts_blocks ts p = Some n" and "sm_sb n = Some t" and "t2 = poll_tree ord votes n t"
    and "\<not> (Tree_Finalized t2 \<and> lastAcceptedID ts = p)"
  shows "vote_loop M ord ((p, votes) # rest) np on ts =
    vote_loop M ord rest (if on then Tree_Preference t2 else np) (on \<and> next_of rest = Tree_Preference t2)
      (falter_children (sm_children n) (sm_shouldFalter n) (next_of rest) (record_vote p n t2 ts))"
  using assms
  by (cases "sm_shouldFalter n"; cases "Tree_Finalized t2") (simp_all add: Let_def poll_tree_def record_vote_def next_of_def)

lemma vote_loop_accept:
  assumes "ts_blocks ts p = Some n" and "sm_sb n = Some t" and "t2 = poll_tree ord votes n t"
    and "Tree_Finalized t2" "lastAcceptedID ts = p"
    and "acceptPreferredChild M ord t2 (sm_children n) (record_vote p n t2 ts) = Some (ts1, None)"
  shows "vote_loop M ord ((p, votes) # rest) np on ts =
    vote_loop M ord rest (if on then Tree_Preference t2 else np) (on \<and> next_of rest = Tree_Preference t2)
      (falter_children (sm_children n) (sm_shouldFalter n) (next_of rest) (ts1\<lparr>ts_blocks := (ts_blocks ts1)(p := None)\<rparr>))"
  using assms by (cases "sm_shouldFalter n") (simp_all add: Let_def poll_tree_def record_vote_def next_of_def)

lemma poll_tree_ok:
  assumes "sound_tree C t" and "valid_ord ord" and "represents votes W"
  shows "sound_tree C (poll_tree ord votes n t) \<and> tr_params (poll_tree ord votes n t) = tr_params t"
  using assms sound_tree_Unsuccessful [OF assms(1)] sound_tree_RecordPoll [OF _ assms(2,3)]
  by (auto simp: poll_tree_def)

lemma record_vote_ok:
  assumes ok: "topo_ok M par ht ts" and n: "ts_blocks ts p = Some n" "sm_sb n = Some t"
    and "valid_ord ord" "represents votes W" and t2: "t2 = poll_tree ord votes n t"
  shows "topo_ok M par ht (record_vote p n t2 ts)"
    and "nxt (record_vote p n t2 ts) i = (if i = p then Some (Tree_Preference t2) else nxt ts i)"
proof -
  have t: "tr_params t = ts_params ts" "sound_tree (dom (sm_children n)) t" using node_sb [OF topo_node [OF ok n(1)] n(2)] by auto
  with poll_tree_ok [OF t(2) assms(4,5)] t2 have "tr_params t2 = ts_params ts" "sound_tree (dom (sm_children n)) t2" by auto
  with n show "topo_ok M par ht (record_vote p n t2 ts)"
    unfolding record_vote_def by (intro topo_ok_cong [OF ok]) (auto split: if_splits)
  show "nxt (record_vote p n t2 ts) i = (if i = p then Some (Tree_Preference t2) else nxt ts i)"
    by (simp add: nxt_def record_vote_def)
qed

lemma falter_children_ok:
  assumes ok: "topo_ok M par ht ts"
  shows "topo_ok M par ht (falter_children cs f q ts)" and "nxt (falter_children cs f q ts) i = nxt ts i"
    and "dom (ts_blocks (falter_children cs f q ts)) = dom (ts_blocks ts)"
    and "\<exists>b. falter_children cs f q ts = ts\<lparr>ts_blocks := b\<rparr>"
proof -
  show d: "dom (ts_blocks (falter_children cs f q ts)) = dom (ts_blocks ts)"
    by (auto simp: falter_children_def split: if_splits)
  show "topo_ok M par ht (falter_children cs f q ts)"
    using d unfolding falter_children_def by (intro topo_ok_cong [OF ok]) (auto split: if_splits)
  show "nxt (falter_children cs f q ts) i = nxt ts i"
    by (cases "ts_blocks ts i") (auto simp: nxt_def falter_children_def)
  show "\<exists>b. falter_children cs f q ts = ts\<lparr>ts_blocks := b\<rparr>" unfolding falter_children_def by blast
qed

lemma log_ok_blocks: "dom b = dom (ts_blocks ts) \<Longrightarrow> log_ok par ht g A (ts\<lparr>ts_blocks := b\<rparr>) = log_ok par ht g A ts"
  by (simp add: log_ok_def)

definition votable :: "'b Topological \<Rightarrow> (ID \<times> ID bag) list \<Rightarrow> bool" where
  "votable ts st \<longleftrightarrow>
     (\<forall>(q, b) \<in> set st. (\<exists>W. represents b W) \<and> (q \<in> dom (ts_blocks ts) \<longrightarrow> nxt ts q \<noteq> None))"

lemma votable_Cons: "votable ts ((p, votes) # rest) \<Longrightarrow> votable ts rest"
  by (simp add: votable_def)

lemma votable_head:
  assumes "votable ts ((p, votes) # rest)"
  obtains W where "represents votes W" "p \<in> dom (ts_blocks ts) \<Longrightarrow> \<exists>n t. ts_blocks ts p = Some n \<and> sm_sb n = Some t"
proof -
  from assms obtain W where "represents votes W" by (auto simp: votable_def)
  moreover have "\<exists>n t. ts_blocks ts p = Some n \<and> sm_sb n = Some t" if "p \<in> dom (ts_blocks ts)"
    using assms that by (auto simp: votable_def nxt_def split: option.splits)
  ultimately show thesis using that by blast
qed

lemma votable_mono:
  assumes "votable ts st" and "\<And>q. q \<in> dom (ts_blocks ts') \<Longrightarrow> q \<in> dom (ts_blocks ts) \<and> (nxt ts q \<noteq> None \<longrightarrow> nxt ts' q \<noteq> None)"
  shows "votable ts' st"
  using assms unfolding votable_def by fast

text \<open>Away from the preferred branch votes are recorded, but nothing is decided.\<close>

lemma vote_loop_off:
  assumes "topo_ok M par ht ts" and "valid_ord ord" and "lastAcceptedID ts \<notin> set (map fst st)" and "votable ts st"
  shows "\<exists>b. vote_loop M ord st np False ts = Some (ts\<lparr>ts_blocks := b\<rparr>, Inr np) \<and> topo_ok M par ht (ts\<lparr>ts_blocks := b\<rparr>) \<and>
    dom b = dom (ts_blocks ts) \<and> (\<forall>i. i \<notin> set (map fst st) \<longrightarrow> nxt (ts\<lparr>ts_blocks := b\<rparr>) i = nxt ts i)"
  using assms
proof (induction st arbitrary: ts)
  case Nil
  then show ?case by (intro exI [of _ "ts_blocks ts"]) simp
next
  case (Cons x rest)
  obtain p votes where x: "x = (p, votes)" by (cases x)
  obtain W where W: "represents votes W" "p \<in> dom (ts_blocks ts) \<Longrightarrow> \<exists>n t. ts_blocks ts p = Some n \<and> sm_sb n = Some t"
    using votable_head Cons.prems(4) x by blast
  show ?case
  proof (cases "p \<in> dom (ts_blocks ts)")
    case False
    then have "ts_blocks ts p = None" by blast
    with Cons.prems(1) show ?thesis by (intro exI [of _ "ts_blocks ts"]) (simp add: x)
  next
    case True
    with W(2) obtain n t where n: "ts_blocks ts p = Some n" "sm_sb n = Some t" by blast
    define t2 where "t2 = poll_tree ord votes n t"
    define ts1 where "ts1 = record_vote p n t2 ts"
    define ts2 where "ts2 = falter_children (sm_children n) (sm_shouldFalter n) (next_of rest) ts1"
    note rv = record_vote_ok [OF Cons.prems(1) n Cons.prems(2) W(1) t2_def, folded ts1_def]
    note fc = falter_children_ok [OF rv(1), of "sm_children n" "sm_shouldFalter n" "next_of rest", folded ts2_def]
    have d1: "dom (ts_blocks ts1) = dom (ts_blocks ts)" using n(1) by (auto simp: ts1_def record_vote_def)
    have nx: "nxt ts2 i = (if i = p then Some (Tree_Preference t2) else nxt ts i)" for i using fc(2) rv(2) by simp
    have u: "\<exists>b. ts2 = ts\<lparr>ts_blocks := b\<rparr>" using fc(4) by (auto simp: ts1_def record_vote_def)
    then have la: "lastAcceptedID ts2 = lastAcceptedID ts" by auto
    have "vote_loop M ord (x # rest) np False ts = vote_loop M ord rest np False ts2"
      using vote_loop_plain [OF n t2_def] Cons.prems(3) x by (simp add: ts2_def ts1_def)
    moreover have "votable ts2 rest"
      by (rule votable_mono [OF votable_Cons [of ts p votes rest]]) (use Cons.prems(4) x nx fc(3) d1 in auto)
    moreover have "lastAcceptedID ts2 \<notin> set (map fst rest)" using la Cons.prems(3) by simp
    ultimately obtain b where b: "vote_loop M ord (x # rest) np False ts = Some (ts2\<lparr>ts_blocks := b\<rparr>, Inr np)"
      "topo_ok M par ht (ts2\<lparr>ts_blocks := b\<rparr>)" "dom b = dom (ts_blocks ts2)"
      "\<forall>i. i \<notin> set (map fst rest) \<longrightarrow> nxt (ts2\<lparr>ts_blocks := b\<rparr>) i = nxt ts2 i"
      using Cons.IH [OF fc(1) Cons.prems(2)] by auto
    moreover have "ts2\<lparr>ts_blocks := b\<rparr> = ts\<lparr>ts_blocks := b\<rparr>" using u by auto
    ultimately show ?thesis using nx fc(3) d1 x by (intro exI [of _ b]) auto
  qed
qed

section \<open>Following the preferred branch\<close>

text \<open>
  \<open>us\<close> leads from the last accepted block to \<open>p\<close> and \<open>ps\<close> from \<open>p\<close> to the end of the preferred branch. The
  recorded preferences describe this branch, unless none of them is at or below \<open>p\<close>.
\<close>

definition on_branch :: "(ID \<Rightarrow> ID) \<Rightarrow> (ID \<Rightarrow> nat) \<Rightarrow> 'b Topological \<Rightarrow> ID list \<Rightarrow> ID \<Rightarrow> ID list \<Rightarrow> bool" where
  "on_branch par ht ts us p ps \<longleftrightarrow>
     pref_walk ts (lastAcceptedID ts) us \<and> last (lastAcceptedID ts # us) = p \<and> pref_path ts p ps \<and>
     (preferredIDs ts = set (us @ ps) \<and> ts_preference ts = last (lastAcceptedID ts # us @ ps) \<and> heights_ok ht ts \<or>
      (\<forall>d. below par ht p d \<longrightarrow> d \<notin> preferredIDs ts))"

definition settled :: "(ID \<Rightarrow> nat) \<Rightarrow> 'b Topological \<Rightarrow> ID \<Rightarrow> bool" where
  "settled ht ts np \<longleftrightarrow> (\<exists>vs. pref_path ts (lastAcceptedID ts) vs \<and> np \<in> set (lastAcceptedID ts # vs) \<and>
     (np \<in> preferredIDs ts \<longrightarrow> pref_ok ht ts vs))"

lemma on_branch_settled: "on_branch par ht ts us p ps \<Longrightarrow> settled ht ts p"
proof -
  assume b: "on_branch par ht ts us p ps"
  then have path: "pref_path ts (lastAcceptedID ts) (us @ ps)" by (auto simp: on_branch_def path_append)
  have "p \<in> set (lastAcceptedID ts # us)" using b unfolding on_branch_def by (metis last_in_set list.distinct(1))
  then have "p \<in> set (lastAcceptedID ts # us @ ps)" by auto
  moreover have "pref_ok ht ts (us @ ps)" if "p \<in> preferredIDs ts"
    using b that path unfolding on_branch_def pref_ok_def by auto
  ultimately show ?thesis using path unfolding settled_def by blast
qed

definition same_prefs :: "'b Topological \<Rightarrow> 'b Topological \<Rightarrow> bool" where
  "same_prefs ts ts' \<longleftrightarrow> lastAcceptedID ts' = lastAcceptedID ts \<and> preferredIDs ts' = preferredIDs ts \<and>
     preferredHeights ts' = preferredHeights ts \<and> ts_preference ts' = ts_preference ts"

lemma same_prefs_blocks [simp]: "same_prefs ts (ts\<lparr>ts_blocks := b\<rparr>)"
  by (simp add: same_prefs_def)

lemma on_branch_cong:
  assumes "on_branch par ht ts us p ps" and "same_prefs ts ts'"
    and "\<And>i. i \<in> set (lastAcceptedID ts # us @ ps) \<Longrightarrow> nxt ts' i = nxt ts i"
  shows "on_branch par ht ts' us p ps"
proof -
  have "pref_path ts' (lastAcceptedID ts) (us @ ps) = pref_path ts (lastAcceptedID ts) (us @ ps)"
    by (rule path_cong) (rule assms(3))
  then show ?thesis using assms(1,2) unfolding on_branch_def same_prefs_def path_append heights_ok_def
    by (auto simp: pref_path_def)
qed

lemma on_branch_vote:
  assumes ok: "topo_ok M par ht ts" "topo_ok M par ht ts'" and br: "on_branch par ht ts us p ps" and same: "same_prefs ts ts'"
    and nx: "\<And>i. nxt ts' i = (if i = p then Some y else nxt ts i)"
  shows "\<exists>ys. on_branch par ht ts' (us @ [y]) y ys"
proof -
  let ?la = "lastAcceptedID ts"
  have la: "lastAcceptedID ts' = ?la" using same by (simp add: same_prefs_def)
  have w: "pref_walk ts ?la us" "last (?la # us) = p" "pref_path ts p ps" using br by (simp_all add: on_branch_def)
  have yp: "nxt ts' p = Some y" using nx by simp
  note y = nxt_child [OF ok(2) yp]
  have sorted: "sorted_wrt (\<lambda>x y. ht x < ht y) (butlast (?la # us) @ [p])"
    using walk_sorted [OF ok(1) w(1)] w(2) by (metis append_butlast_last_id list.distinct(1))
  then have "nxt ts' k = nxt ts k" if "k \<in> set (butlast (?la # us))" for k using that nx by (auto simp: sorted_wrt_append)
  with walk_cong [of ?la us ts' ts] w(1) have "pref_walk ts' ?la us" by blast
  with w(2) yp have walk: "pref_walk ts' ?la (us @ [y])" by (simp add: walk_append)
  obtain ys where ys: "pref_path ts' y ys" using path_exists [OF ok(2) y(2)] by blast
  have above: "ht i \<le> ht p" if "i \<in> set us" for i
    using sorted_last [OF walk_sorted [OF ok(1) w(1)], of i] that w(2) by simp
  have "preferredIDs ts = set ((us @ [y]) @ ys) \<and> ts_preference ts = last (?la # (us @ [y]) @ ys) \<and> heights_ok ht ts \<or>
      (\<forall>d. below par ht y d \<longrightarrow> d \<notin> preferredIDs ts)"
  proof (cases "\<forall>d. below par ht p d \<longrightarrow> d \<notin> preferredIDs ts")
    case True
    then show ?thesis using below_trans [OF y(6)] by blast
  next
    case False
    with br have U: "preferredIDs ts = set (us @ ps)" "ts_preference ts = last (?la # us @ ps)" "heights_ok ht ts"
      unfolding on_branch_def by blast+
    show ?thesis
    proof (cases "nxt ts p = Some y")
      case True
      then have "nxt ts' = nxt ts" using nx by auto
      then have "pref_path ts p (y # ys)" using ys True path_cong [of y ys ts' ts] by (simp add: path_Cons)
      with w(3) path_unique have "ps = y # ys" by blast
      with U show ?thesis by simp
    next
      case ny: False
      have "d \<notin> preferredIDs ts" if d: "below par ht y d" for d
      proof
        assume "d \<in> preferredIDs ts"
        then consider "d \<in> set us" | "d \<in> set ps" using U(1) by auto
        then show False
        proof cases
          case 1
          then show False using above [OF 1] below_height [OF d] y(5) by simp
        next
          case 2
          then obtain z zs where z: "ps = z # zs" by (cases ps) auto
          with w(3) have nz: "nxt ts p = Some z" "pref_walk ts z zs" by (auto simp: path_Cons pref_path_def)
          have "below par ht z d" using walk_below [OF ok(1) nz(2), of d] 2 z by auto
          with d nxt_child(5) [OF ok(1) nz(1)] y(5) have "z = y" using below_unique [of par ht z d y] by simp
          with ny nz show False by simp
        qed
      qed
      then show ?thesis by blast
    qed
  qed
  note D = this
  have eq: "preferredIDs ts' = preferredIDs ts" "ts_preference ts' = ts_preference ts" "heights_ok ht ts' = heights_ok ht ts"
    using same by (simp_all add: heights_ok_def same_prefs_def)
  have "last (?la # us @ [y]) = y" by simp
  then show ?thesis unfolding on_branch_def la eq using walk ys D by blast
qed

lemma on_branch_advance:
  assumes ok: "topo_ok M par ht ts" "topo_ok M par ht ts'" and br: "on_branch par ht ts [y] y ys" and adv: "advanced par ht y ts ts'"
  shows "on_branch par ht ts' [] y ys"
proof -
  have a: "lastAcceptedID ts' = y" "preferredIDs ts' = preferredIDs ts - {y}" "ts_preference ts' = ts_preference ts"
    "preferredHeights ts' = (preferredHeights ts)(lastAcceptedHeight ts' := None)"
    "ts_blocks ts' = (\<lambda>i. if below par ht y i then ts_blocks ts i else None)" using adv by (simp_all add: advanced_def)
  have path: "pref_path ts y ys" using br by (simp add: on_branch_def)
  then have walk: "pref_walk ts y ys" by (simp add: pref_path_def)
  have ys: "ht y < ht i" "below par ht y i" if "i \<in> set ys" for i using walk_below [OF ok(1) walk that] by auto
  have "nxt ts' i = nxt ts i" if "i \<in> set (y # ys)" for i using that ys(2) by (auto simp: nxt_def a(5))
  then have path': "pref_path ts' y ys" using path path_cong [of y ys ts' ts] by blast
  have hy: "unat (lastAcceptedHeight ts') = ht y" using ok(2) a(1) by (simp add: topo_ok_def)
  show ?thesis
  proof (cases "\<forall>d. below par ht y d \<longrightarrow> d \<notin> preferredIDs ts")
    case True
    then show ?thesis using path' by (simp add: on_branch_def a(1,2))
  next
    case False
    with br have U: "preferredIDs ts = set (y # ys)" "ts_preference ts = last (lastAcceptedID ts # y # ys)" "heights_ok ht ts"
      by (auto simp: on_branch_def)
    have "preferredIDs ts' = set ys" using U(1) a(2) ys(1) by auto
    moreover have "heights_ok ht ts'"
      unfolding heights_ok_def
    proof (intro allI)
      fix h i
      show "(preferredHeights ts' h = Some i) = (i \<in> preferredIDs ts' \<and> unat h = ht i)"
      proof (cases "h = lastAcceptedHeight ts'")
        case True
        then show ?thesis using hy ys(1) [of i] a(4) \<open>preferredIDs ts' = set ys\<close> by auto
      next
        case False
        then have "unat h \<noteq> ht y" using hy by (metis word_eq_iff_unsigned)
        with False U(3) a(2,4) show ?thesis by (auto simp: heights_ok_def)
      qed
    qed
    ultimately show ?thesis using path' U(2) by (simp add: on_branch_def a(1,3))
  qed
qed

lemma chain_below:
  assumes "chain par (q # qs)" and "\<forall>r \<in> set qs. ht r = Suc (ht (par r))" and "r \<in> set (q # qs)"
  shows "below par ht q r"
  using assms
proof (induction qs arbitrary: q)
  case (Cons s qs)
  then have s: "par s = q" "chain par (s # qs)" "ht s = Suc (ht (par s))" by (simp_all only: chain.simps list.set insert_iff simp_thms ball_simps)
  have "below par ht q s" using below_step [of par ht q s] s by simp
  moreover have "below par ht s r" if "r \<in> set (s # qs)" using Cons.IH [OF s(2) _ that] Cons.prems(2) by simp
  ultimately show ?case using Cons.prems(3) below_trans [of par ht q s r] by auto
qed simp

lemma root_walk:
  assumes "topo_ok M par ht ts" and "pref_walk ts (lastAcceptedID ts) us" and "last (lastAcceptedID ts # us) = lastAcceptedID ts"
  shows "us = []"
  using walk_below [OF assms(1,2), of "last us"] assms(3) by (cases us rule: rev_cases) auto

definition voted_ok ::
  "'b block_methods \<Rightarrow> (ID \<Rightarrow> ID) \<Rightarrow> (ID \<Rightarrow> nat) \<Rightarrow> ID \<Rightarrow> ID set \<Rightarrow> 'b Topological \<Rightarrow> ('b Topological \<times> ID res) option \<Rightarrow> bool" where
  "voted_ok M par ht g A ts r \<longleftrightarrow>
     (\<exists>ts' np. r = Some (ts', Inr np) \<and> topo_ok M par ht ts' \<and> log_ok par ht g A ts' \<and> ts_params ts' = ts_params ts \<and> settled ht ts' np)"

lemma vote_off_branch:
  assumes ok: "topo_ok M par ht ts" and log: "log_ok par ht g A ts" and ord: "valid_ord ord" and v: "votable ts rest"
    and br: "on_branch par ht ts us y ys" and y: "par y = p" "ht y = Suc (ht p)" "y \<noteq> lastAcceptedID ts"
    and ch: "chain par (p # map fst rest)" "\<forall>q \<in> set (map fst rest). ht q = Suc (ht (par q))" and q: "rest \<noteq> [] \<Longrightarrow> next_of rest \<noteq> y"
  shows "voted_ok M par ht g A ts (vote_loop M ord rest y False ts)"
proof -
  let ?la = "lastAcceptedID ts"
  have w: "pref_walk ts ?la us" "last (?la # us) = y" "pref_walk ts y ys" using br by (auto simp: on_branch_def pref_path_def)
  then have "us \<noteq> []" using y(3) by auto
  have lower: "ht i \<le> ht y" "i \<noteq> y \<Longrightarrow> ht i < ht y" if "i \<in> set (?la # us)" for i
  proof -
    have "sorted_wrt (\<lambda>x y. ht x < ht y) (butlast (?la # us) @ [y])"
      using walk_sorted [OF ok w(1)] w(2) by (metis append_butlast_last_id list.distinct(1))
    moreover have "set (?la # us) = insert y (set (butlast (?la # us)))"
      using w(2) by (metis append_butlast_last_id insert_is_Un list.distinct(1) list.simps(15) set_append sup_commute list.set(1))
    ultimately show "ht i \<le> ht y" "i \<noteq> y \<Longrightarrow> ht i < ht y" using that by (auto simp: sorted_wrt_append intro: less_imp_le)
  qed
  have off: "i \<notin> set (map fst rest)" if i: "i \<in> set (?la # us @ ys)" for i
  proof
    assume r: "i \<in> set (map fst rest)"
    then obtain z zs where z: "map fst rest = z # zs" by (cases rest) auto
    then have zy: "z \<noteq> y" using q by (cases rest) (auto simp: next_of_def)
    from ch z have zp: "par z = p" "ht z = Suc (ht p)" by auto
    have "below par ht z i" using chain_below [of par z zs ht i] ch z r by (auto simp: z)
    moreover from this have "ht y \<le> ht i" using below_height zp y(2) by metis
    then have "below par ht y i" using i lower [of i] walk_below [OF ok w(3), of i] by (cases "i = y") auto
    ultimately show False using below_unique [of par ht z i y] zp(2) y(2) zy by simp
  qed
  have "?la \<notin> set (map fst rest)" using off by simp
  from vote_loop_off [OF ok ord this v] obtain b where b: "vote_loop M ord rest y False ts = Some (ts\<lparr>ts_blocks := b\<rparr>, Inr y)"
    "topo_ok M par ht (ts\<lparr>ts_blocks := b\<rparr>)" "dom b = dom (ts_blocks ts)"
    "\<forall>i. i \<notin> set (map fst rest) \<longrightarrow> nxt (ts\<lparr>ts_blocks := b\<rparr>) i = nxt ts i" by blast
  have "on_branch par ht (ts\<lparr>ts_blocks := b\<rparr>) us y ys" by (rule on_branch_cong [OF br]) (use b(4) off in auto)
  with b log log_ok_blocks [OF b(3)] show ?thesis unfolding voted_ok_def using on_branch_settled by fastforce
qed

text \<open>One iteration on the preferred branch, with or without an acceptance.\<close>

definition vote_next ::
  "'b block_methods \<Rightarrow> (ID \<Rightarrow> ID) \<Rightarrow> (ID \<Rightarrow> nat) \<Rightarrow> ID \<Rightarrow> ID set \<Rightarrow> 'b Topological \<Rightarrow> ID \<Rightarrow> (ID \<times> ID bag) list \<Rightarrow>
   'b Topological \<Rightarrow> ID \<Rightarrow> bool" where
  "vote_next M par ht g A ts p rest ts2 y \<longleftrightarrow>
     topo_ok M par ht ts2 \<and> log_ok par ht g A ts2 \<and> ts_params ts2 = ts_params ts \<and> votable ts2 rest \<and>
     y \<in> dom (ts_blocks ts2) \<and> par y = p \<and> ht y = Suc (ht p) \<and> (\<exists>us ys. on_branch par ht ts2 us y ys) \<and>
     (y = lastAcceptedID ts2 \<longrightarrow> (\<forall>q. par q = p \<and> ht q = ht y \<and> q \<noteq> y \<longrightarrow> q \<notin> dom (ts_blocks ts2)))"

lemma vote_step_plain:
  assumes ok: "topo_ok M par ht ts" and log: "log_ok par ht g A ts" and ord: "valid_ord ord"
    and v: "votable ts rest" and n: "ts_blocks ts p = Some n" "sm_sb n = Some t" and W: "represents votes W"
    and br: "on_branch par ht ts us p ps" and t2: "t2 = poll_tree ord votes n t"
  shows "vote_next M par ht g A ts p rest
    (falter_children (sm_children n) (sm_shouldFalter n) (next_of rest) (record_vote p n t2 ts)) (Tree_Preference t2)"
proof -
  define y where "y = Tree_Preference t2"
  define ts1 where "ts1 = record_vote p n t2 ts"
  define ts2 where "ts2 = falter_children (sm_children n) (sm_shouldFalter n) (next_of rest) ts1"
  note rv = record_vote_ok [OF ok n ord W t2, folded ts1_def y_def]
  note fc = falter_children_ok [OF rv(1), of "sm_children n" "sm_shouldFalter n" "next_of rest", folded ts2_def]
  have d: "dom (ts_blocks ts2) = dom (ts_blocks ts)" unfolding fc(3) using n(1) by (auto simp: ts1_def record_vote_def)
  have nx: "nxt ts2 i = (if i = p then Some y else nxt ts i)" for i using fc(2) rv(2) by simp
  obtain b where b: "ts2 = ts\<lparr>ts_blocks := b\<rparr>" using fc(4) by (auto simp: ts1_def record_vote_def)
  have "nxt ts2 p = Some y" by (simp add: nx)
  note c = nxt_child [OF fc(1) this]
  obtain ys where "on_branch par ht ts2 (us @ [y]) y ys" using on_branch_vote [OF ok fc(1) br _ nx] by (auto simp: b)
  moreover have "votable ts2 rest" by (rule votable_mono [OF v]) (use nx d in auto)
  moreover have "log_ok par ht g A ts2" using log log_ok_blocks [of b ts] d by (simp add: b)
  ultimately have "vote_next M par ht g A ts p rest ts2 y"
    unfolding vote_next_def using fc(1) c by (auto simp: b)
  then show ?thesis by (simp add: ts2_def ts1_def y_def)
qed

lemma vote_step_accept:
  assumes ok: "topo_ok M par ht ts" and log: "log_ok par ht g A ts" and ne: "no_errors M" and ord: "valid_ord ord"
    and v: "votable ts rest" and n: "ts_blocks ts p = Some n" "sm_sb n = Some t" and W: "represents votes W"
    and br: "on_branch par ht ts us p ps" and t2: "t2 = poll_tree ord votes n t" and la: "lastAcceptedID ts = p"
  shows "\<exists>ts1. acceptPreferredChild M ord t2 (sm_children n) (record_vote p n t2 ts) = Some (ts1, None) \<and>
    vote_next M par ht g A ts p rest
      (falter_children (sm_children n) (sm_shouldFalter n) (next_of rest) (ts1\<lparr>ts_blocks := (ts_blocks ts1)(p := None)\<rparr>)) (Tree_Preference t2)"
proof -
  define y where "y = Tree_Preference t2"
  define tsr where "tsr = record_vote p n t2 ts"
  note rv = record_vote_ok [OF ok n ord W t2, folded tsr_def y_def]
  have d: "dom (ts_blocks tsr) = dom (ts_blocks ts)" using n(1) by (auto simp: tsr_def record_vote_def)
  have log': "log_ok par ht g A tsr" using log log_ok_blocks d by (metis record_vote_def tsr_def Topological.simps(6) Topological.ext_inject Topological.surjective Topological.update_convs(6))
  have nb: "ts_blocks tsr (lastAcceptedID tsr) = Some (n\<lparr>sm_shouldFalter := False, sm_sb := Some t2\<rparr>)"
    using la by (simp add: tsr_def record_vote_def)
  from accept_ok [OF rv(1) log' ne ord nb, of t2] obtain ts1 ts' where
    a: "acceptPreferredChild M ord t2 (sm_children n) tsr = Some (ts1, None)"
      "ts' = ts1\<lparr>ts_blocks := (ts_blocks ts1)(lastAcceptedID tsr := None)\<rparr>" "advanced par ht y tsr ts'"
      "topo_ok M par ht ts'" "log_ok par ht g A ts'" by (auto simp: y_def)
  define ts2 where "ts2 = falter_children (sm_children n) (sm_shouldFalter n) (next_of rest) ts'"
  note fc = falter_children_ok [OF a(4), of "sm_children n" "sm_shouldFalter n" "next_of rest", folded ts2_def]
  obtain b where b: "ts2 = ts'\<lparr>ts_blocks := b\<rparr>" using fc(4) by blast
  have us: "us = []" using root_walk [OF ok] br la by (simp add: on_branch_def)
  have "same_prefs ts tsr" by (simp add: tsr_def record_vote_def)
  from on_branch_vote [OF ok rv(1) br this rv(2)] us obtain ys where "on_branch par ht tsr [y] y ys" by auto
  from on_branch_advance [OF rv(1) a(4) this a(3)] have "on_branch par ht ts' [] y ys" .
  then have br2: "on_branch par ht ts2 [] y ys" by (rule on_branch_cong) (use fc(2) b in auto)
  have lay: "lastAcceptedID ts2 = y" "ts_params ts2 = ts_params ts" using a(3) by (simp_all add: b advanced_def tsr_def record_vote_def)
  have bl: "ts_blocks ts' = (\<lambda>i. if below par ht y i then ts_blocks tsr i else None)" using a(3) by (simp add: advanced_def)
  have "nxt tsr p = Some y" using rv(2) by simp
  note c = nxt_child [OF rv(1) this]
  have "y \<in> dom (ts_blocks ts2)" unfolding fc(3) bl using c(2) by auto
  moreover have "votable ts2 rest"
    by (rule votable_mono [OF v]) (use fc(3) bl d rv(2) fc(2) in \<open>auto simp: nxt_def split: if_splits\<close>)
  moreover have "q \<notin> dom (ts_blocks ts2)" if "ht q = ht y" "q \<noteq> y" for q
    unfolding fc(3) bl using below_antisym [of par ht y q] that by (auto split: if_splits)
  moreover have "log_ok par ht g A ts2" using a(5) log_ok_blocks [of b ts'] fc(3) by (simp add: b)
  ultimately have "vote_next M par ht g A ts p rest ts2 y"
    unfolding vote_next_def using fc(1) c lay br2 by blast
  moreover have "ts' = ts1\<lparr>ts_blocks := (ts_blocks ts1)(p := None)\<rparr>" using a(2) la by (simp add: tsr_def record_vote_def)
  ultimately show ?thesis using a(1) by (auto simp: ts2_def tsr_def y_def)
qed

lemma vote_step:
  assumes "no_errors M" and "valid_ord ord" and "topo_ok M par ht ts" and "log_ok par ht g A ts"
    and "votable ts ((p, votes) # rest)" and "p \<in> dom (ts_blocks ts)" and "on_branch par ht ts us p ps"
  shows "\<exists>ts2 y. vote_loop M ord ((p, votes) # rest) np True ts = vote_loop M ord rest y (next_of rest = y) ts2 \<and>
    vote_next M par ht g A ts p rest ts2 y"
proof -
  obtain W where W: "represents votes W" "p \<in> dom (ts_blocks ts) \<Longrightarrow> \<exists>n t. ts_blocks ts p = Some n \<and> sm_sb n = Some t"
    using votable_head [OF assms(5)] by blast
  with assms(6) obtain n t where n: "ts_blocks ts p = Some n" "sm_sb n = Some t" by blast
  note v = votable_Cons [OF assms(5)]
  define t2 where "t2 = poll_tree ord votes n t"
  show ?thesis
  proof (cases "Tree_Finalized t2 \<and> lastAcceptedID ts = p")
    case True
    then obtain ts1 where "acceptPreferredChild M ord t2 (sm_children n) (record_vote p n t2 ts) = Some (ts1, None)"
      "vote_next M par ht g A ts p rest
        (falter_children (sm_children n) (sm_shouldFalter n) (next_of rest) (ts1\<lparr>ts_blocks := (ts_blocks ts1)(p := None)\<rparr>)) (Tree_Preference t2)"
      using vote_step_accept [OF assms(3,4,1,2) v n W(1) assms(7) t2_def] by blast
    with vote_loop_accept [OF n t2_def] True show ?thesis by auto
  next
    case False
    with vote_loop_plain [OF n t2_def] vote_step_plain [OF assms(3,4,2) v n W(1) assms(7) t2_def] show ?thesis by auto
  qed
qed

lemma vote_loop_on:
  assumes "no_errors M" and "valid_ord ord"
    and "topo_ok M par ht ts" and "log_ok par ht g A ts" and "votable ts ((p, votes) # rest)"
    and "chain par (p # map fst rest)" and "\<forall>q \<in> set (map fst rest). ht q = Suc (ht (par q))"
    and "p \<in> dom (ts_blocks ts)" and "on_branch par ht ts us p ps"
  shows "voted_ok M par ht g A ts (vote_loop M ord ((p, votes) # rest) np True ts)"
  using assms(3-)
proof (induction rest arbitrary: ts p votes us ps np)
  case (Nil ts p votes us ps np)
  from vote_step [OF assms(1,2) Nil(1-3,6,7)] obtain ts2 y where
    "vote_loop M ord [(p, votes)] np True ts = vote_loop M ord [] y (next_of [] = y) ts2"
    "vote_next M par ht g A ts p [] ts2 y" by blast
  then show ?case using on_branch_settled by (fastforce simp: voted_ok_def vote_next_def)
next
  case (Cons r rest ts p votes us ps np)
  obtain q w where r: "r = (q, w)" by (cases r)
  have nq: "next_of (r # rest) = q" by (simp add: r next_of_def)
  from vote_step [OF assms(1,2) Cons.prems(1-3,6,7)] obtain ts2 y where
    st: "vote_loop M ord ((p, votes) # r # rest) np True ts = vote_loop M ord (r # rest) y (q = y) ts2"
    and nx: "vote_next M par ht g A ts p (r # rest) ts2 y" unfolding nq by blast
  note N = nx [unfolded vote_next_def]
  from N obtain us2 ys2 where br: "on_branch par ht ts2 us2 y ys2" by blast
  have ch: "chain par (q # map fst rest)" "par q = p" "\<forall>q \<in> set (map fst rest). ht q = Suc (ht (par q))" "ht q = Suc (ht p)"
    using Cons.prems(4,5) by (auto simp: r)
  have hy: "par y = p" "ht y = Suc (ht p)" using N by auto
  show ?case
  proof (cases "q = y")
    case True
    have "voted_ok M par ht g A ts2 (vote_loop M ord ((q, w) # rest) y True ts2)"
      by (rule Cons.IH [OF _ _ _ ch(1,3), of ts2]) (use N br True r in auto)
    with st True r N show ?thesis by (simp add: voted_ok_def)
  next
    case False
    show ?thesis
    proof (cases "y = lastAcceptedID ts2")
      case True
      with N False ch(2,4) hy have "q \<notin> dom (ts_blocks ts2)" by (metis)
      then have "vote_loop M ord (r # rest) y (q = y) ts2 = Some (ts2, Inr y)" by (simp add: r domIff)
      with st N on_branch_settled [OF br] show ?thesis by (simp add: voted_ok_def)
    next
      case nla: False
      have "voted_ok M par ht g A ts2 (vote_loop M ord (r # rest) y False ts2)"
        by (rule vote_off_branch [OF _ _ assms(2) _ br hy nla]) (use N Cons.prems(4,5) False r in \<open>auto simp: next_of_def\<close>)
      with st False N show ?thesis by (simp add: voted_ok_def)
    qed
  qed
qed

end
