(* ===== verification/SnowmanProperties.thy ===== *)
theory SnowmanProperties
  imports SnowmanSafety
begin

text \<open>
  \<^verbatim>\<open>Add\<close> and \<^verbatim>\<open>RecordPoll\<close> keep the invariant of \<^verbatim>\<open>Topological\<close>; what follows for callers: safe decisions,
  the preferred branch, the counting of votes and that supported blocks are accepted.
\<close>

section \<open>Recording a poll\<close>

lemma stack_votable:
  assumes ok: "topo_ok M par ht ts" and st: "vote_stack ts par ht V st" and V: "\<forall>v \<in># V. valid_vote ts v"
  shows "votable ts st"
proof -
  have s: "tree_shape par ht (dom (ts_blocks ts)) (lastAcceptedID ts)" using ok by (simp add: topo_ok_def)
  have pos: "0 < AlphaPreference (ts_params ts)" using ok verified_majority(1) by (simp add: topo_ok_def)
  have "nxt ts q \<noteq> None" if qb: "(q, b) \<in> set st" for q b
  proof -
    have "q \<in> set (map fst st)" using qb by force
    with st have q: "q \<in> dom (ts_blocks ts)" "AlphaPreference (ts_params ts) \<le> int (size (child_votes par ht V q))"
      by (auto simp: vote_stack_def)
    with pos have "child_votes par ht V q \<noteq> {#}" by auto
    then obtain v where v: "v \<in># V" "below par ht q v" "v \<noteq> q" by (auto simp: child_votes_def filter_mset_eq_conv)
    with V have "v \<in> dom (ts_blocks ts)" by (auto simp: valid_vote_def)
    note c = toward_child [OF s this v(2) v(3) [symmetric] q(1)]
    obtain n where n: "ts_blocks ts q = Some n" using q(1) by blast
    have "anc par ht v (Suc (ht q)) \<in> dom (sm_children n)" using c topo_node [OF ok n] by (auto simp: node_ok_def)
    then have "sm_sb n \<noteq> None" using topo_node [OF ok n] by (auto simp: node_ok_def split: option.splits)
    with n show ?thesis by (auto simp: nxt_def)
  qed
  then show ?thesis using st by (auto simp: votable_def vote_stack_def)
qed

lemma topo_vote_ok:
  assumes ok: "topo_ok M par ht ts" and log: "log_ok par ht g A ts" and ne: "no_errors M" and ord: "valid_ord ord"
    and p: "pref_ok ht ts vs" and st: "vote_stack ts par ht V st" and V: "\<forall>v \<in># V. valid_vote ts v"
  shows "voted_ok M par ht g A ts (topo_vote M ord st ts)"
proof (cases st)
  case Nil
  let ?la = "lastAcceptedID ts"
  obtain n where n: "ts_blocks ts ?la = Some n" using ok by (auto simp: topo_ok_def tree_shape_def)
  define b where "b = (ts_blocks ts)(?la \<mapsto> n\<lparr>sm_shouldFalter := True\<rparr>)"
  have d: "dom b = dom (ts_blocks ts)" using n by (auto simp: b_def)
  have "topo_ok M par ht (ts\<lparr>ts_blocks := b\<rparr>)"
    by (rule topo_ok_cong [OF ok d]) (use n in \<open>auto simp: b_def split: if_splits\<close>)
  moreover have nx: "nxt (ts\<lparr>ts_blocks := b\<rparr>) i = nxt ts i" for i using n by (simp add: nxt_def b_def)
  have "pref_path (ts\<lparr>ts_blocks := b\<rparr>) ?la vs = pref_path ts ?la vs" by (rule path_cong) (rule nx)
  with p have "pref_ok ht (ts\<lparr>ts_blocks := b\<rparr>) vs" by (simp add: pref_ok_def heights_ok_def)
  then have "settled ht (ts\<lparr>ts_blocks := b\<rparr>) (ts_preference ts)"
    unfolding settled_def pref_ok_def using last_in_set [of "?la # vs"] by (intro exI [of _ vs]) auto
  moreover have "topo_vote M ord st ts = Some (ts\<lparr>ts_blocks := b\<rparr>, Inr (ts_preference ts))"
    using Nil n by (simp add: topo_vote_def b_def)
  ultimately show ?thesis using log log_ok_blocks [OF d] by (simp add: voted_ok_def)
next
  case (Cons x rest)
  obtain q votes where x: "x = (q, votes)" by (cases x)
  have s: "tree_shape par ht (dom (ts_blocks ts)) (lastAcceptedID ts)" using ok by (simp add: topo_ok_def)
  have q: "q = lastAcceptedID ts" using st by (simp add: vote_stack_def Cons x)
  have "r \<in> dom (ts_blocks ts) \<and> ht q < ht r" if "r \<in> set (map fst rest)" for r
    using st that by (auto simp: vote_stack_def Cons x)
  then have "r \<in> dom (ts_blocks ts) \<and> r \<noteq> lastAcceptedID ts" if "r \<in> set (map fst rest)" for r using that q by blast
  then have h: "\<forall>r \<in> set (map fst rest). ht r = Suc (ht (par r))" using s unfolding tree_shape_def by blast
  have "on_branch par ht ts [] q vs" using p q by (simp add: on_branch_def pref_ok_def)
  moreover have "q \<in> dom (ts_blocks ts)" "chain par (q # map fst rest)"
    using s q st by (auto simp: tree_shape_def vote_stack_def Cons x)
  moreover have "votable ts ((q, votes) # rest)" using stack_votable [OF ok st V] by (simp add: Cons x)
  ultimately show ?thesis
    using vote_loop_on [OF ne ord ok log _ _ h] by (simp add: topo_vote_def Cons x del: vote_loop.simps)
qed

section \<open>Recomputing the preference\<close>

lemma topo_ok_prefs [simp]:
  "topo_ok M par ht (ts\<lparr>preferredIDs := P, preferredHeights := H\<rparr>) = topo_ok M par ht ts"
  "topo_ok M par ht (ts\<lparr>ts_preference := i\<rparr>) = topo_ok M par ht ts"
  "topo_ok M par ht (ts\<lparr>preferredIDs := P\<rparr>) = topo_ok M par ht ts"
  "topo_ok M par ht (ts\<lparr>preferredHeights := H\<rparr>) = topo_ok M par ht ts"
  by (simp_all add: topo_ok_def node_ok_def cong: option.case_cong)

lemma nxt_prefs [simp]:
  "nxt (ts\<lparr>preferredIDs := P\<rparr>) = nxt ts" "nxt (ts\<lparr>preferredHeights := H\<rparr>) = nxt ts" "nxt (ts\<lparr>ts_preference := p\<rparr>) = nxt ts"
  by (simp_all add: nxt_def fun_eq_iff cong: option.case_cong)

lemma heights_insert:
  assumes "heights_ok ht ts" and "unat h = ht i" and "\<forall>j \<in> preferredIDs ts. ht j \<noteq> ht i"
  shows "heights_ok ht (ts\<lparr>preferredIDs := insert i (preferredIDs ts), preferredHeights := (preferredHeights ts)(h \<mapsto> i)\<rparr>)"
proof -
  have eq: "h' = h" if "unat h' = ht i" for h' using that assms(2) by (metis word_eq_iff_unsigned)
  have old: "preferredHeights ts h' = Some j \<longleftrightarrow> j \<in> preferredIDs ts \<and> unat h' = ht j" for h' j
    using assms(1) by (simp add: heights_ok_def)
  have "((preferredHeights ts)(h \<mapsto> i)) h' = Some j \<longleftrightarrow> j \<in> insert i (preferredIDs ts) \<and> unat h' = ht j" for h' j
    using old eq assms(2,3) by (metis fun_upd_apply insert_iff option.inject)
  then show ?thesis by (simp add: heights_ok_def)
qed

lemma prefer_ancestors_ok:
  assumes "topo_ok M par ht ts" and "pref_walk ts (lastAcceptedID ts) us" and "ts_blocks ts (last (lastAcceptedID ts # us)) = Some n"
    and "heights_ok ht ts" and "\<forall>j \<in> preferredIDs ts. ht (last (lastAcceptedID ts # us)) < ht j"
  shows "\<exists>P H. prefer_ancestors M n ts = Some (ts\<lparr>preferredIDs := P, preferredHeights := H\<rparr>) \<and> P = preferredIDs ts \<union> set us \<and>
    heights_ok ht (ts\<lparr>preferredIDs := P, preferredHeights := H\<rparr>)"
  using assms
proof (induction us arbitrary: ts n rule: rev_induct)
  case Nil
  then show ?case using topo_decided [OF Nil.prems(1,3)]
    by (intro exI [of _ "preferredIDs ts"] exI [of _ "preferredHeights ts"]) (simp add: prefer_ancestors.simps)
next
  case (snoc i us)
  let ?la = "lastAcceptedID ts"
  have w: "pref_walk ts ?la us" "nxt ts (last (?la # us)) = Some i" using snoc.prems(2) by (simp_all add: walk_append)
  note c = nxt_child [OF snoc.prems(1) w(2)]
  have n: "ts_blocks ts i = Some n" using snoc.prems(3) by simp
  from topo_blk [OF snoc.prems(1) n c(3)] obtain b where b: "sm_blk n = Some b" "b_ID M b = i" "b_Parent M b = par i"
    "unat (b_Height M b) = ht i" by metis
  obtain n' where n': "ts_blocks ts (last (?la # us)) = Some n'" using c(1) by blast
  define ts2 where "ts2 = ts\<lparr>preferredIDs := insert i (preferredIDs ts), preferredHeights := (preferredHeights ts)(b_Height M b \<mapsto> i)\<rparr>"
  have "prefer_ancestors M n ts = prefer_ancestors M n' ts2"
    using topo_decided [OF snoc.prems(1) n] c(3,4) b n' by (simp add: prefer_ancestors.simps [of M n] ts2_def Let_def)
  moreover have hk: "heights_ok ht ts2" unfolding ts2_def by (rule heights_insert) (use snoc.prems(4,5) b(4) in auto)
  moreover have "\<forall>j \<in> preferredIDs ts2. ht (last (?la # us)) < ht j" using snoc.prems(5) c(5) by (auto simp: ts2_def)
  moreover have "pref_walk ts2 ?la us = pref_walk ts ?la us" by (rule walk_cong) (simp add: ts2_def)
  ultimately obtain P H where "prefer_ancestors M n ts = Some (ts2\<lparr>preferredIDs := P, preferredHeights := H\<rparr>)"
    "P = preferredIDs ts2 \<union> set us" "heights_ok ht (ts2\<lparr>preferredIDs := P, preferredHeights := H\<rparr>)"
    using snoc.IH [of ts2 n'] snoc.prems(1) w(1) n' by (auto simp: ts2_def)
  then show ?case by (auto simp: ts2_def)
qed

lemma prefer_descendants_ok:
  assumes "topo_ok M par ht ts" and "pref_path ts i js" and "ts_blocks ts i = Some n"
    and "heights_ok ht ts" and "\<forall>j \<in> preferredIDs ts. ht j \<le> ht i"
  shows "\<exists>H. prefer_descendants M n ts =
      Some (ts\<lparr>preferredIDs := preferredIDs ts \<union> set js, preferredHeights := H, ts_preference := (if js = [] then ts_preference ts else last js)\<rparr>) \<and>
    heights_ok ht (ts\<lparr>preferredIDs := preferredIDs ts \<union> set js, preferredHeights := H\<rparr>)"
  using assms
proof (induction js arbitrary: ts i n)
  case Nil
  then have "sm_sb n = None" by (auto simp: path_Nil nxt_def)
  with Nil.prems(4) show ?case by (intro exI [of _ "preferredHeights ts"]) (simp add: prefer_descendants.simps)
next
  case (Cons j js)
  have j: "nxt ts i = Some j" "pref_path ts j js" using Cons.prems(2) by (simp_all add: path_Cons)
  then obtain t where t: "sm_sb n = Some t" "Tree_Preference t = j" using Cons.prems(3) by (auto simp: nxt_def)
  note c = nxt_child [OF Cons.prems(1) j(1)]
  obtain m where m: "ts_blocks ts j = Some m" using c(2) by blast
  from topo_blk [OF Cons.prems(1) m c(3)] obtain b where b: "sm_blk m = Some b" "unat (b_Height M b) = ht j" by metis
  define ts2 where "ts2 = ts\<lparr>ts_preference := j, preferredIDs := insert j (preferredIDs ts),
    preferredHeights := (preferredHeights ts)(b_Height M b \<mapsto> j)\<rparr>"
  have pj: "ts_preference ts2 = j" and ok2: "topo_ok M par ht ts2" "ts_blocks ts2 j = Some m"
    using Cons.prems(1) m by (simp_all add: ts2_def)
  have "prefer_descendants M n ts = prefer_descendants M m ts2"
    using t m b by (simp add: prefer_descendants.simps [of M n] ts2_def Let_def)
  moreover have "\<forall>k \<in> preferredIDs ts. ht k \<noteq> ht j" using Cons.prems(5) c(5) by fastforce
  then have "heights_ok ht ts2" using heights_insert [OF Cons.prems(4) b(2)] by (simp add: heights_ok_def ts2_def)
  moreover have "\<forall>k \<in> preferredIDs ts2. ht k \<le> ht j" using Cons.prems(5) c(5) by (auto simp: ts2_def)
  moreover have "pref_path ts2 j js = pref_path ts j js" by (rule path_cong) (simp add: ts2_def)
  ultimately obtain H where "prefer_descendants M n ts =
      Some (ts2\<lparr>preferredIDs := preferredIDs ts2 \<union> set js, preferredHeights := H, ts_preference := (if js = [] then j else last js)\<rparr>)"
    "heights_ok ht (ts2\<lparr>preferredIDs := preferredIDs ts2 \<union> set js, preferredHeights := H\<rparr>)"
    using Cons.IH [of ts2 j m, unfolded pj] ok2 j(2) by auto
  then show ?case by (intro exI [of _ H]) (auto simp: ts2_def heights_ok_def)
qed

section \<open>The invariant\<close>

definition topo_inv :: "'b block_methods \<Rightarrow> (ID \<Rightarrow> ID) \<Rightarrow> (ID \<Rightarrow> nat) \<Rightarrow> ID \<Rightarrow> ID set \<Rightarrow> 'b Topological \<Rightarrow> bool" where
  "topo_inv M par ht g A ts \<longleftrightarrow> topo_ok M par ht ts \<and> log_ok par ht g A ts \<and> (\<exists>vs. pref_ok ht ts vs)"

lemma pref_path_frame: "ts_blocks ts' = ts_blocks ts \<Longrightarrow> pref_path ts' i vs = pref_path ts i vs"
  by (rule path_cong) (simp add: nxt_def)

lemma topo_ok_frame:
  "ts_blocks ts' = ts_blocks ts \<Longrightarrow> lastAcceptedID ts' = lastAcceptedID ts \<Longrightarrow> lastAcceptedHeight ts' = lastAcceptedHeight ts \<Longrightarrow>
   ts_params ts' = ts_params ts \<Longrightarrow> topo_ok M par ht ts' = topo_ok M par ht ts"
  by (simp add: topo_ok_def node_ok_def cong: option.case_cong)

lemma recompute_ok:
  assumes ok: "topo_ok M par ht ts" and log: "log_ok par ht g A ts" and st: "settled ht ts np"
  defines "ts3 \<equiv> ts\<lparr>preferredIDs := {}, preferredHeights := Map.empty, ts_preference := np\<rparr>"
  shows "\<exists>n ts1 ts'. ts_blocks ts3 np = Some n \<and> prefer_ancestors M n ts3 = Some ts1 \<and> prefer_descendants M n ts1 = Some ts' \<and>
    topo_inv M par ht g A ts' \<and> ts_params ts' = ts_params ts"
proof -
  let ?la = "lastAcceptedID ts"
  from st obtain vs where vs: "pref_path ts ?la vs" "np \<in> set (?la # vs)" by (auto simp: settled_def)
  then obtain us ps where sp: "vs = us @ ps" "last (?la # us) = np"
  proof (cases "np = ?la")
    case False
    with vs(2) obtain us ps where "vs = us @ np # ps" by (auto dest: split_list)
    then show thesis using that [of "us @ [np]" ps] by simp
  qed (use that [of "[]" vs] in simp)
  have ok3: "topo_ok M par ht ts3" and la3: "lastAcceptedID ts3 = ?la" using ok by (simp_all add: ts3_def)
  have path3: "pref_path ts3 ?la (us @ ps)" using vs(1) sp(1) pref_path_frame [of ts3 ts] by (simp add: ts3_def)
  then have w: "pref_walk ts3 ?la us" "pref_path ts3 np ps" using sp(2) by (simp_all add: path_append)
  have "np \<in> dom (ts_blocks ts)"
  proof (cases us rule: rev_cases)
    case Nil
    with sp(2) ok show ?thesis by (simp add: topo_ok_def tree_shape_def)
  next
    case (snoc us' x)
    with walk_below [OF ok3, of ?la us np] w(1) sp(2) show ?thesis by (auto simp: ts3_def)
  qed
  then obtain n where n: "ts_blocks ts3 np = Some n" by (auto simp: ts3_def)
  have "heights_ok ht ts3" "preferredIDs ts3 = {}" by (simp_all add: heights_ok_def ts3_def)
  with prefer_ancestors_ok [OF ok3, of us n] w(1) n sp(2) la3 obtain H where
    a: "prefer_ancestors M n ts3 = Some (ts3\<lparr>preferredIDs := set us, preferredHeights := H\<rparr>)"
      "heights_ok ht (ts3\<lparr>preferredIDs := set us, preferredHeights := H\<rparr>)" by auto
  define ts1 where "ts1 = ts3\<lparr>preferredIDs := set us, preferredHeights := H\<rparr>"
  have p1: "ts_preference ts1 = np" "preferredIDs ts1 = set us" by (simp_all add: ts1_def ts3_def)
  have "\<forall>j \<in> set us. ht j \<le> ht np"
    using sorted_last [OF walk_sorted [OF ok3 w(1)]] sp(2) by (auto simp: ts1_def)
  moreover have "pref_path ts1 np ps" using w(2) pref_path_frame [of ts1 ts3] by (simp add: ts1_def)
  moreover have "topo_ok M par ht ts1" "ts_blocks ts1 np = Some n" using ok3 n by (simp_all add: ts1_def)
  ultimately obtain H' where d: "prefer_descendants M n ts1 =
      Some (ts1\<lparr>preferredIDs := set us \<union> set ps, preferredHeights := H', ts_preference := (if ps = [] then np else last ps)\<rparr>)"
    "heights_ok ht (ts1\<lparr>preferredIDs := set us \<union> set ps, preferredHeights := H'\<rparr>)"
    using prefer_descendants_ok [of M par ht ts1 np ps n, unfolded p1] a(2) [folded ts1_def] by auto
  define ts' where "ts' = ts1\<lparr>preferredIDs := set us \<union> set ps, preferredHeights := H', ts_preference := (if ps = [] then np else last ps)\<rparr>"
  have "pref_path ts' ?la vs" using vs(1) pref_path_frame [of ts' ts] by (simp add: ts'_def ts1_def ts3_def)
  moreover have "ts_preference ts' = last (?la # vs)" using sp by (auto simp: ts'_def split: if_splits)
  ultimately have "pref_ok ht ts' vs" using d(2) sp(1) by (simp add: pref_ok_def ts'_def ts1_def ts3_def heights_ok_def)
  moreover have "log_ok par ht g A ts'" using log by (simp add: log_ok_def ts'_def ts1_def ts3_def)
  moreover have "topo_ok M par ht ts'" using ok topo_ok_frame [of ts' ts] by (simp add: ts'_def ts1_def ts3_def)
  moreover have "ts_params ts' = ts_params ts" by (simp add: ts'_def ts1_def ts3_def)
  ultimately have "topo_inv M par ht g A ts' \<and> ts_params ts' = ts_params ts" by (auto simp: topo_inv_def)
  moreover have "prefer_ancestors M n ts3 = Some ts1" "prefer_descendants M n ts1 = Some ts'" using a(1) d(1) by (simp_all add: ts1_def ts'_def)
  ultimately show ?thesis using n by blast
qed

lemma RecordPoll_ok:
  assumes inv: "topo_inv M par ht g A ts" and ne: "no_errors M" and ord: "valid_ord ord" and votes: "represents votes W"
    and k: "int (size W) \<le> K (ts_params ts)"
  shows "\<exists>ts'. topo_RecordPoll M ord votes ts = Some (ts', None) \<and> topo_inv M par ht g A ts' \<and> ts_params ts' = ts_params ts"
proof -
  define ts0 where "ts0 = ts\<lparr>ts_pollNumber := ts_pollNumber ts + 1\<rparr>"
  have ok0: "topo_ok M par ht ts0" using inv topo_ok_frame [of ts0 ts] by (simp add: topo_inv_def ts0_def)
  from collect_votes_stack [OF ok0 ord votes] k obtain N L st where
    c: "collect_votes M ord votes ts0 = Some (ts0\<lparr>kahnNodes := N, ts_leaves := L\<rparr>, st)"
      "vote_stack ts0 par ht (filter_mset (valid_vote ts0) W) st" by (auto simp: ts0_def)
  define ts1 where "ts1 = ts0\<lparr>kahnNodes := N, ts_leaves := L\<rparr>"
  from inv obtain vs where vs: "pref_ok ht ts vs" "log_ok par ht g A ts" by (auto simp: topo_inv_def)
  have "pref_path ts1 (lastAcceptedID ts) vs = pref_path ts (lastAcceptedID ts) vs"
    by (rule pref_path_frame) (simp add: ts1_def ts0_def)
  with vs have p1: "pref_ok ht ts1 vs" "log_ok par ht g A ts1" by (simp_all add: pref_ok_def log_ok_def heights_ok_def ts1_def ts0_def)
  have ok1: "topo_ok M par ht ts1" using ok0 by (simp add: ts1_def)
  have "vote_stack ts1 par ht (filter_mset (valid_vote ts0) W) st" using c(2) by (simp add: vote_stack_def ts1_def)
  moreover have "\<forall>v \<in># filter_mset (valid_vote ts0) W. valid_vote ts1 v" by (simp add: ts1_def)
  ultimately have "voted_ok M par ht g A ts1 (topo_vote M ord st ts1)"
    using topo_vote_ok [OF ok1 p1(2) ne ord p1(1)] by blast
  then obtain ts2 np where v: "topo_vote M ord st ts1 = Some (ts2, Inr np)" "topo_ok M par ht ts2" "log_ok par ht g A ts2"
      "ts_params ts2 = ts_params ts1" "settled ht ts2 np"
    by (auto simp: voted_ok_def)
  have ps: "ts_params ts1 = ts_params ts" by (simp add: ts1_def ts0_def)
  show ?thesis
  proof (cases "np \<in> preferredIDs ts2")
    case True
    then have "topo_RecordPoll M ord votes ts = Some (ts2, None)" using c(1) v(1) by (simp add: topo_RecordPoll_def ts0_def ts1_def)
    moreover have "topo_inv M par ht g A ts2" using True v by (auto simp: topo_inv_def settled_def)
    ultimately show ?thesis using v(4) ps by auto
  next
    case False
    from recompute_ok [OF v(2,3,5)] obtain n tsa tsb where
      r: "ts_blocks ts2 np = Some n" "prefer_ancestors M n (ts2\<lparr>preferredIDs := {}, preferredHeights := Map.empty, ts_preference := np\<rparr>) = Some tsa"
        "prefer_descendants M n tsa = Some tsb" "topo_inv M par ht g A tsb" "ts_params tsb = ts_params ts2" by auto
    then have "topo_RecordPoll M ord votes ts = Some (tsb, None)"
      using False c(1) v(1) by (simp add: topo_RecordPoll_def ts0_def ts1_def Let_def)
    with r v(4) ps show ?thesis by auto
  qed
qed

section \<open>Adding blocks\<close>

lemma Tree_Add_Preference:
  assumes ok: "tree_ok C t" and y: "wf_ID y"
  shows "Tree_Preference (Tree_Add y t) = Tree_Preference t"
proof (cases "EqualSubset 0 (DecidedPrefix (tr_node t)) (Tree_Preference t) y \<and> \<not> Tree_Finalized t")
  case True
  have ag: "agree (Tree_Preference t) y 0 (DecidedPrefix (tr_node t))"
    using True EqualSubset_agree tree_ok_preference [OF ok] y tree_ok_prefix [OF ok] by simp
  have live: "live (tr_params t) (insert y C) (tr_node t)" using live_mono [OF tree_ok_live [OF ok]] True by blast
  have "0 < Beta (tr_params t)" using ok by (simp add: tree_ok_def)
  from node_Add_live [OF this _ live ag [unfolded Tree_Preference_def] refl, of "tr_factory t"] True
  show ?thesis by (simp add: Tree_Add_def Tree_Preference_def)
next
  case False
  then show ?thesis using ok final_leaf_Add tree_ok_final [OF ok] by (auto simp: Tree_Add_def)
qed

lemma AddChild_ok:
  assumes n: "node_ok M par ts p n" and wf: "wf_ID (b_ID M blk)" and pv: "params_Verify (ts_params ts) = None"
  defines "n' \<equiv> AddChild M ts blk n"
  shows "sm_blk n' = sm_blk n" "sm_children n' = (sm_children n)(b_ID M blk \<mapsto> blk)"
    "\<exists>t. sm_sb n' = Some t \<and> tr_params t = ts_params ts \<and> sound_tree (insert (b_ID M blk) (dom (sm_children n))) t \<and>
      Tree_Preference t = (case sm_sb n of None \<Rightarrow> b_ID M blk | Some t0 \<Rightarrow> Tree_Preference t0)"
proof -
  show "sm_blk n' = sm_blk n" by (auto simp: n'_def AddChild_def Let_def split: option.splits)
  have cn: "sm_sb n = None \<Longrightarrow> sm_children n = Map.empty" using n by (simp add: node_ok_def)
  then show "sm_children n' = (sm_children n)(b_ID M blk \<mapsto> blk)"
    by (auto simp: n'_def AddChild_def Let_def split: option.splits)
  show "\<exists>t. sm_sb n' = Some t \<and> tr_params t = ts_params ts \<and> sound_tree (insert (b_ID M blk) (dom (sm_children n))) t \<and>
      Tree_Preference t = (case sm_sb n of None \<Rightarrow> b_ID M blk | Some t0 \<Rightarrow> Tree_Preference t0)"
  proof (cases "sm_sb n")
    case None
    with cn sound_tree_New [OF verified_bounds(1) [OF pv] wf] show ?thesis
      by (auto simp: n'_def AddChild_def Let_def NewTree_def Tree_Preference_def)
  next
    case (Some t)
    with node_sb [OF n Some] sound_tree_Add Tree_Add_Preference [OF sound_tree_ok] wf show ?thesis
      by (auto simp: n'_def AddChild_def Let_def)
  qed
qed

lemma add_fresh:
  assumes inv: "topo_inv M par ht g A ts" and p: "par i \<in> dom (ts_blocks ts)" "ht i = Suc (ht (par i))"
    and np: "\<not> topo_Processing i ts"
  shows "i \<notin> dom (ts_blocks ts)" "i \<notin> A" "below par ht (lastAcceptedID ts) i"
proof -
  have s: "tree_shape par ht (dom (ts_blocks ts)) (lastAcceptedID ts)" and log: "log_ok par ht g A ts"
    using inv by (auto simp: topo_inv_def topo_ok_def)
  have b: "below par ht (lastAcceptedID ts) (par i)" using shape_below [OF s p(1)] .
  then have h: "ht (lastAcceptedID ts) < ht i" using below_height [OF b] p(2) by simp
  then show d: "i \<notin> dom (ts_blocks ts)" using np by (auto simp: topo_Processing_def split: if_splits)
  show bi: "below par ht (lastAcceptedID ts) i" using below_step [OF b p(2)] .
  have "i \<notin> set (accepted_of (decisions ts))" "i \<notin> set (rejected_of (decisions ts))"
    using log h bi by (auto simp: log_ok_def Let_def)
  with d log show "i \<notin> A" by (auto simp: log_ok_def Let_def)
qed

text \<open>The blocks after \<open>blk\<close> was added below \<open>n\<close>.\<close>

definition add_blocks :: "'b block_methods \<Rightarrow> 'b \<Rightarrow> 'b snowmanBlock \<Rightarrow> 'b Topological \<Rightarrow> 'b Topological" where
  "add_blocks M blk n ts = ts\<lparr>ts_blocks := (ts_blocks ts)(b_Parent M blk \<mapsto> AddChild M ts blk n,
     b_ID M blk \<mapsto> empty_snowmanBlock\<lparr>sm_blk := Some blk\<rparr>)\<rparr>"

lemma add_blocks_ok:
  assumes ok: "topo_ok M par ht ts" and n: "ts_blocks ts (par i) = Some n" and i: "i = b_ID M blk" "i \<notin> dom (ts_blocks ts)"
  shows "topo_ok M par ht (add_blocks M blk n ts)"
    and "nxt (add_blocks M blk n ts) k = (if k = i then None else if k = par i then
      Some (case sm_sb n of None \<Rightarrow> i | Some t \<Rightarrow> Tree_Preference t) else nxt ts k)"
proof -
  let ?p = "par i" and ?la = "lastAcceptedID ts"
  have law: "b_Parent M blk = ?p" "unat (b_Height M blk) = ht i" "ht i = Suc (ht ?p)" "wf_ID i"
    using ok i(1) by (auto simp: topo_ok_def block_law_def)
  have s: "tree_shape par ht (dom (ts_blocks ts)) ?la" and pv: "params_Verify (ts_params ts) = None" using ok by (auto simp: topo_ok_def)
  have ip: "i \<noteq> ?p" "i \<noteq> ?la" using n i(2) s by (auto simp: tree_shape_def)
  note nk = topo_node [OF ok n]
  note ac = AddChild_ok [OF nk _ pv, of blk, folded i(1), OF law(4)]
  define n' where "n' = AddChild M ts blk n"
  obtain t where t: "sm_sb n' = Some t" "tr_params t = ts_params ts" "sound_tree (insert i (dom (sm_children n))) t"
    "Tree_Preference t = (case sm_sb n of None \<Rightarrow> i | Some t0 \<Rightarrow> Tree_Preference t0)" using ac(3) by (auto simp: n'_def)
  define b where "b = (ts_blocks ts)(?p \<mapsto> n', i \<mapsto> empty_snowmanBlock\<lparr>sm_blk := Some blk\<rparr>)"
  have eq: "add_blocks M blk n ts = ts\<lparr>ts_blocks := b\<rparr>" by (simp add: add_blocks_def b_def n'_def law(1) flip: i(1))
  have d: "dom b = insert i (dom (ts_blocks ts))" using n by (auto simp: b_def)
  have "below par ht ?la ?p" using shape_below [OF s] n by blast
  then have lt: "ht ?la < ht i" using below_height law(3) by (metis less_Suc_eq_le)
  have shape: "tree_shape par ht (dom b) ?la" using s lt law(3) n unfolding d tree_shape_def by auto
  have up: "par j \<in> dom (ts_blocks ts)" if "j \<in> dom (ts_blocks ts)" "j \<noteq> ?la" for j using s that by (auto simp: tree_shape_def)
  have kids: "{c \<in> dom b. c \<noteq> ?la \<and> par c = j} =
      (if j = ?p then insert i {c \<in> dom (ts_blocks ts). c \<noteq> ?la \<and> par c = j} else {c \<in> dom (ts_blocks ts). c \<noteq> ?la \<and> par c = j})" for j
    using ip by (auto simp: d)
  have eqs: "lastAcceptedID (ts\<lparr>ts_blocks := b\<rparr>) = ?la" "ts_params (ts\<lparr>ts_blocks := b\<rparr>) = ts_params ts"
    "ts_blocks (ts\<lparr>ts_blocks := b\<rparr>) = b" by simp_all
  have "node_ok M par (ts\<lparr>ts_blocks := b\<rparr>) j m" if m: "b j = Some m" for j m
  proof -
    consider "j = i" | "j = ?p" "j \<noteq> i" | "j \<noteq> i" "j \<noteq> ?p" by blast
    then show ?thesis
    proof cases
      case 1
      then have "m = empty_snowmanBlock\<lparr>sm_blk := Some blk\<rparr>" using m by (simp add: b_def)
      moreover have "{c \<in> dom b. c \<noteq> ?la \<and> par c = i} = {}" using kids [of i] ip up i(2) by auto
      ultimately show ?thesis using 1 i(1) by (simp add: node_ok_def empty_snowmanBlock_def)
    next
      case 2
      then have "m = n'" using m by (simp add: b_def)
      moreover have "sm_children n' = (sm_children n)(i \<mapsto> blk)" "sm_blk n' = sm_blk n" using ac by (simp_all add: n'_def)
      moreover have "dom ((sm_children n)(i \<mapsto> blk)) = {c \<in> dom b. c \<noteq> ?la \<and> par c = ?p}"
        using nk unfolding kids by (auto simp: node_ok_def)
      ultimately show ?thesis using nk t i(1) 2 unfolding node_ok_def by (auto cong: option.case_cong)
    next
      case 3
      then have jm: "ts_blocks ts j = Some m" using m by (simp add: b_def)
      have same: "{c \<in> dom b. c \<noteq> ?la \<and> par c = j} = {c \<in> dom (ts_blocks ts). c \<noteq> ?la \<and> par c = j}" using kids [of j] 3(2) by simp
      show ?thesis unfolding node_ok_def eqs same using topo_node [OF ok jm, unfolded node_ok_def] .
    qed
  qed
  with ok shape show "topo_ok M par ht (add_blocks M blk n ts)" unfolding eq by (simp add: topo_ok_def)
  show "nxt (add_blocks M blk n ts) k = (if k = i then None else if k = ?p then
      Some (case sm_sb n of None \<Rightarrow> i | Some t \<Rightarrow> Tree_Preference t) else nxt ts k)"
    unfolding eq using t by (simp add: nxt_def b_def empty_snowmanBlock_def)
qed

lemma walk_butlast: "pref_walk ts i vs \<Longrightarrow> k \<in> set (butlast (i # vs)) \<Longrightarrow> nxt ts k \<noteq> None"
  by (induction vs arbitrary: i) (auto split: if_splits)

lemma add_prefs_ok:
  assumes ok: "topo_ok M par ht ts" and p: "pref_ok ht ts vs" and n: "ts_blocks ts (par i) = Some n"
    and i: "i = b_ID M blk" "i \<notin> dom (ts_blocks ts)" "unat (b_Height M blk) = ht i" "ht i = Suc (ht (par i))"
  defines "ts1 \<equiv> add_blocks M blk n ts"
  shows "\<exists>vs. pref_ok ht (if ts_preference ts1 = par i then ts1\<lparr>ts_preference := i, preferredIDs := insert i (preferredIDs ts1),
      preferredHeights := (preferredHeights ts1)(b_Height M blk \<mapsto> i)\<rparr> else ts1) vs"
proof -
  let ?la = "lastAcceptedID ts"
  note nx = add_blocks_ok(2) [OF ok n i(1,2), folded ts1_def]
  have same: "lastAcceptedID ts1 = ?la" "preferredIDs ts1 = preferredIDs ts" "ts_preference ts1 = ts_preference ts"
    "preferredHeights ts1 = preferredHeights ts" by (simp_all add: ts1_def add_blocks_def)
  have P: "pref_path ts ?la vs" "preferredIDs ts = set vs" "ts_preference ts = last (?la # vs)" "heights_ok ht ts"
    using p by (simp_all add: pref_ok_def)
  have walk: "pref_walk ts ?la vs" using P(1) by (simp add: pref_path_def)
  have srt: "sorted_wrt (\<lambda>x y. ht x < ht y) (?la # vs)" by (rule walk_sorted [OF ok walk])
  have dom: "k \<in> dom (ts_blocks ts)" if "k \<in> set (?la # vs)" for k
    using that walk_below [OF ok walk] ok by (auto simp: topo_ok_def tree_shape_def)
  then have notin: "i \<notin> set (?la # vs)" using i(2) by blast
  show ?thesis
  proof (cases "ts_preference ts = par i")
    case True
    have none: "nxt ts (par i) = None" using P(1,3) True by (simp add: pref_path_def)
    then have "sm_sb n = None" using n by (simp add: nxt_def)
    then have ni: "nxt ts1 (par i) = Some i" "nxt ts1 i = None" using nx i(2) n by auto
    have "nxt ts1 k = nxt ts k" if "k \<in> set (butlast (?la # vs))" for k
    proof -
      have "k \<noteq> last (?la # vs)"
        using that sorted_height_distinct [OF srt] by (metis append_butlast_last_id distinct_append disjoint_iff list.distinct(1) list.set_intros(1))
      with that notin P(3) True show ?thesis using nx by (metis in_set_butlastD)
    qed
    then have "pref_walk ts1 ?la vs" using walk walk_cong [of ?la vs ts1 ts] by blast
    then have "pref_path ts1 ?la (vs @ [i])" using ni P(3) True by (simp add: path_append path_Cons path_Nil)
    define ts2 where "ts2 = ts1\<lparr>ts_preference := i, preferredIDs := insert i (preferredIDs ts1),
      preferredHeights := (preferredHeights ts1)(b_Height M blk \<mapsto> i)\<rparr>"
    have "pref_path ts2 ?la (vs @ [i])" using \<open>pref_path ts1 ?la (vs @ [i])\<close> pref_path_frame [of ts2 ts1] by (simp add: ts2_def)
    moreover have "\<forall>j \<in> preferredIDs ts1. ht j \<noteq> ht i"
    proof
      fix j assume "j \<in> preferredIDs ts1"
      with sorted_last [OF srt, of j] P(2,3) True i(4) same show "ht j \<noteq> ht i" by auto
    qed
    with heights_insert [of ht ts1 _ i] P(4) i(3) same have "heights_ok ht ts2"
      by (simp add: heights_ok_def ts2_def)
    ultimately have "pref_ok ht ts2 (vs @ [i])" using P(2) same by (auto simp: pref_ok_def ts2_def)
    then show ?thesis using True same unfolding ts2_def by auto
  next
    case False
    have "nxt ts1 k = nxt ts k" if k: "k \<in> set (?la # vs)" for k
    proof (cases "k = par i")
      case True
      with False P(3) k have "k \<in> set (butlast (?la # vs))" by (metis append_butlast_last_id in_set_conv_decomp list.distinct(1) set_ConsD rotate1.simps(2) set_rotate1)
      then have "nxt ts k \<noteq> None" by (rule walk_butlast [OF walk])
      with True n show ?thesis using nx notin k by (auto simp: nxt_def split: option.splits)
    qed (use nx notin k in auto)
    then have "pref_path ts1 ?la vs = pref_path ts ?la vs" by (rule path_cong)
    with P same have "pref_ok ht ts1 vs" by (simp add: pref_ok_def heights_ok_def)
    with False same show ?thesis by auto
  qed
qed

lemma Add_ok:
  assumes inv: "topo_inv M par ht g A ts" and add: "topo_Add M blk ts = (ts', err)"
  shows "if topo_Processing (b_ID M blk) ts then err = Some errDuplicateAdd \<and> ts' = ts
    else if b_Parent M blk \<notin> dom (ts_blocks ts) then err = Some errUnknownParentBlock \<and> ts' = ts
    else err = None \<and> b_ID M blk \<notin> A \<and> topo_inv M par ht g (insert (b_ID M blk) A) ts' \<and> ts_params ts' = ts_params ts \<and>
      decisions ts' = decisions ts"
proof (cases "topo_Processing (b_ID M blk) ts \<or> b_Parent M blk \<notin> dom (ts_blocks ts)")
  case True
  then show ?thesis using add by (auto simp: topo_Add_def Let_def domIff split: if_splits option.splits)
next
  case False
  define i where "i = b_ID M blk"
  have ok: "topo_ok M par ht ts" and log: "log_ok par ht g A ts" using inv by (auto simp: topo_inv_def)
  from inv obtain vs where vs: "pref_ok ht ts vs" by (auto simp: topo_inv_def)
  have law: "b_Parent M blk = par i" "unat (b_Height M blk) = ht i" "ht i = Suc (ht (par i))"
    using ok by (auto simp: i_def topo_ok_def block_law_def)
  obtain n where n: "ts_blocks ts (par i) = Some n" using False law(1) by auto
  note fr = add_fresh [OF inv, of i]
  have f: "i \<notin> dom (ts_blocks ts)" "i \<notin> A" "below par ht (lastAcceptedID ts) i" using fr n law(3) False by (auto simp: i_def)
  define ts1 where "ts1 = add_blocks M blk n ts"
  define ts2 where "ts2 = (if ts_preference ts1 = par i then ts1\<lparr>ts_preference := i, preferredIDs := insert i (preferredIDs ts1),
      preferredHeights := (preferredHeights ts1)(b_Height M blk \<mapsto> i)\<rparr> else ts1)"
  have out: "ts' = ts2" "err = None"
    using add False n law(1) by (auto simp: topo_Add_def Let_def ts2_def ts1_def add_blocks_def i_def)
  have ok1: "topo_ok M par ht ts1" using add_blocks_ok(1) [OF ok n i_def f(1)] by (simp add: ts1_def)
  then have "topo_ok M par ht ts2" using topo_ok_frame [of ts2 ts1] by (simp add: ts2_def)
  moreover have "\<exists>vs. pref_ok ht ts2 vs" unfolding ts2_def ts1_def by (rule add_prefs_ok [OF ok vs n i_def f(1) law(2,3)])
  moreover have b2: "dom (ts_blocks ts2) = insert i (dom (ts_blocks ts))" "lastAcceptedID ts2 = lastAcceptedID ts"
    "decisions ts2 = decisions ts" "ts_params ts2 = ts_params ts"
    using n law(1) by (auto simp: ts2_def ts1_def add_blocks_def i_def)
  have "i \<notin> set (rejected_of (decisions ts))" "i \<noteq> lastAcceptedID ts" using log f ok
    by (auto simp: log_ok_def Let_def topo_ok_def tree_shape_def)
  with log have "log_ok par ht g (insert i A) ts2" by (auto simp: log_ok_def Let_def b2)
  ultimately show ?thesis using False f(2) out b2 by (simp add: topo_inv_def flip: i_def)
qed

lemma Initialize_ok:
  assumes "block_law M par ht" and "unat h = ht g" and "topo_Initialize factory params g h = Inr ts"
  shows "topo_inv M par ht g {} ts" and "ts_params ts = params"
proof -
  have pv: "params_Verify params = None" and ts: "ts = \<lparr>ts_Factory = factory, ts_pollNumber = 0, ts_params = params, lastAcceptedID = g,
       lastAcceptedHeight = h, ts_blocks = [g \<mapsto> empty_snowmanBlock], preferredIDs = {},
       preferredHeights = Map.empty, ts_preference = g, ts_leaves = {}, kahnNodes = Map.empty, decisions = []\<rparr>"
    using assms(3) by (auto simp: topo_Initialize_def split: option.splits)
  have "topo_ok M par ht ts" using assms(1,2) pv
    by (auto simp: ts topo_ok_def tree_shape_def node_ok_def empty_snowmanBlock_def split: if_splits)
  moreover have "log_ok par ht g {} ts" by (simp add: ts log_ok_def)
  moreover have "pref_ok ht ts []" by (simp add: ts pref_ok_def path_Nil nxt_def empty_snowmanBlock_def heights_ok_def)
  ultimately show "topo_inv M par ht g {} ts" by (auto simp: topo_inv_def)
  show "ts_params ts = params" by (simp add: ts)
qed

section \<open>Reachable states\<close>

text \<open>
  The states after any sequence of calls: \<open>g\<close> at height \<open>h\<close> is the block to start from, \<open>A\<close> the
  blocks added, polls have at most \<^verbatim>\<open>K\<close> votes.
\<close>

inductive topo_reach ::
  "'b block_methods \<Rightarrow> Factory \<Rightarrow> Parameters \<Rightarrow> ID \<Rightarrow> uint64 \<Rightarrow> ID set \<Rightarrow> 'b Topological \<Rightarrow> bool"
  for M factory params g h where
  start: "topo_Initialize factory params g h = Inr ts \<Longrightarrow> topo_reach M factory params g h {} ts"
| add: "topo_reach M factory params g h A ts \<Longrightarrow> topo_Add M blk ts = (ts', None) \<Longrightarrow>
     topo_reach M factory params g h (insert (b_ID M blk) A) ts'"
| poll: "topo_reach M factory params g h A ts \<Longrightarrow> valid_ord ord \<Longrightarrow> represents votes W \<Longrightarrow> int (size W) \<le> K params \<Longrightarrow>
     topo_RecordPoll M ord votes ts = Some (ts', err) \<Longrightarrow> topo_reach M factory params g h A ts'"

lemma topo_reach_inv:
  assumes law: "block_law M par ht" and h: "unat h = ht g" and ne: "no_errors M"
  shows "topo_reach M factory params g h A ts \<Longrightarrow> topo_inv M par ht g A ts \<and> ts_params ts = params"
proof (induction rule: topo_reach.induct)
  case (start ts)
  then show ?case using Initialize_ok [OF law] h by blast
next
  case (add A ts blk ts')
  then show ?case using Add_ok [of M par ht g A ts blk ts' None] by (simp split: if_splits)
next
  case (poll A ts ord votes W ts' err)
  then show ?case using RecordPoll_ok [OF _ ne, of par ht g A ts ord votes W] by auto
qed

section \<open>An example\<close>

text \<open>Two conflicting blocks on the initial one.\<close>

definition fork_methods :: "bool block_methods" where
  "fork_methods = \<lparr>b_ID = (\<lambda>b. replicate 32 (if b then 1 else 2)), b_Parent = (\<lambda>_. Empty_ID), b_Height = (\<lambda>_. 1), b_Bytes = (\<lambda>_. []),
     b_Accept = (\<lambda>_. None), b_Reject = (\<lambda>_. None), BlockAcceptor = (\<lambda>_ _. None)\<rparr>"

definition fork_ht :: "ID \<Rightarrow> nat" where
  "fork_ht i = (if i = Empty_ID then 0 else 1)"

definition fork_start :: "bool Topological" where
  "fork_start = projr (topo_Initialize SnowballFactory DefaultParameters Empty_ID 0)"

definition fork :: "bool Topological" where
  "fork = fst (topo_Add fork_methods False (fst (topo_Add fork_methods True fork_start)))"

definition fork_poll :: "ID bag" where
  "fork_poll = bag_Of (replicate 15 (replicate 32 1) @ replicate 5 (replicate 32 2))"

lemma fork_law: "block_law fork_methods (\<lambda>_. Empty_ID) fork_ht" "no_errors fork_methods" "unat (0 :: uint64) = fork_ht Empty_ID"
  by (auto simp: block_law_def no_errors_def fork_methods_def fork_ht_def wf_ID_def IDLen_def Empty_ID_def)

lemma fork_reach: "topo_reach fork_methods SnowballFactory DefaultParameters Empty_ID 0 {replicate 32 2, replicate 32 1} fork"
proof -
  have "params_Verify DefaultParameters = None" by code_simp
  then have "topo_Initialize SnowballFactory DefaultParameters Empty_ID 0 = Inr fork_start"
    by (simp add: fork_start_def topo_Initialize_def)
  then have 0: "topo_reach fork_methods SnowballFactory DefaultParameters Empty_ID 0 {} fork_start" by (rule topo_reach.start)
  have bl: "ts_blocks fork_start = [Empty_ID \<mapsto> empty_snowmanBlock]" "lastAcceptedID fork_start = Empty_ID"
    using \<open>params_Verify DefaultParameters = None\<close> by (simp_all add: fork_start_def topo_Initialize_def)
  have ids: "b_ID fork_methods b = replicate 32 (if b then 1 else 2)" "b_Parent fork_methods b = Empty_ID" for b
    by (simp_all add: fork_methods_def)
  have ne: "replicate 32 1 \<noteq> Empty_ID" "replicate 32 2 \<noteq> Empty_ID" "replicate 32 (2 :: 8 word) \<noteq> replicate 32 1"
    by (simp_all add: Empty_ID_def IDLen_def)
  define ts1 where "ts1 = fst (topo_Add fork_methods True fork_start)"
  have a1: "topo_Add fork_methods True fork_start = (ts1, None)" "lastAcceptedID ts1 = Empty_ID"
    "dom (ts_blocks ts1) = {Empty_ID, replicate 32 1}"
    using ne by (auto simp: ts1_def topo_Add_def Let_def topo_Processing_def bl ids)
  then have "ts_blocks ts1 Empty_ID \<noteq> None" "ts_blocks ts1 (replicate 32 2) = None" using ne by auto
  then have "snd (topo_Add fork_methods False ts1) = None"
    by (auto simp: topo_Add_def Let_def topo_Processing_def ids a1(2))
  moreover have "fst (topo_Add fork_methods False ts1) = fork" by (simp add: fork_def ts1_def)
  ultimately have a2: "topo_Add fork_methods False ts1 = (fork, None)" by (simp add: prod_eq_iff)
  from topo_reach.add [OF topo_reach.add [OF 0 a1(1)] a2] show ?thesis by (simp add: ids)
qed

lemma fork_ord: "valid_ord (sorted_list_of_set :: ID set \<Rightarrow> ID list)"
  by (simp add: valid_ord_def)

lemma fork_votes: "represents fork_poll (mset (replicate 15 (replicate 32 1) @ replicate 5 (replicate 32 2)))"
  "int (size (mset (replicate 15 (replicate 32 1) @ replicate 5 (replicate 32 2) :: ID list))) \<le> K DefaultParameters"
  using represents_Add [OF represents_empty, of "replicate 15 (replicate 32 1) @ replicate 5 (replicate 32 2)"]
  by (simp_all add: bag_Of_def fork_poll_def DefaultParameters_def)

lemma fork_polled:
  "\<exists>ts'. topo_RecordPoll fork_methods sorted_list_of_set fork_poll fork = Some (ts', None) \<and>
    topo_reach fork_methods SnowballFactory DefaultParameters Empty_ID 0 {replicate 32 2, replicate 32 1} ts'"
proof -
  have "topo_inv fork_methods (\<lambda>_. Empty_ID) fork_ht Empty_ID {replicate 32 2, replicate 32 1} fork \<and> ts_params fork = DefaultParameters"
    by (rule topo_reach_inv [OF fork_law(1,3,2) fork_reach])
  with RecordPoll_ok [OF _ fork_law(2) fork_ord fork_votes(1)] fork_votes(2) obtain ts' where
    "topo_RecordPoll fork_methods sorted_list_of_set fork_poll fork = Some (ts', None)" by metis
  with topo_reach.poll [OF fork_reach fork_ord fork_votes this] show ?thesis by blast
qed

section \<open>What callers rely on\<close>

lemma log_ok_chain:
  assumes "log_ok par ht g A ts" and "topo_ok M par ht ts"
  defines "acc \<equiv> rev (accepted_of (decisions ts))" and "rej \<equiv> rejected_of (decisions ts)"
    and "processing \<equiv> dom (ts_blocks ts) - {lastAcceptedID ts}"
  shows "chain par (g # acc)" "last (g # acc) = lastAcceptedID ts" "distinct (acc @ rej)" "A = set acc \<union> set rej \<union> processing"
    "processing \<inter> (set acc \<union> set rej) = {}" "\<forall>i \<in> processing. below par ht (lastAcceptedID ts) i"
    "\<forall>i \<in> set rej. \<not> below par ht (lastAcceptedID ts) i"
proof -
  note L = assms(1) [unfolded log_ok_def Let_def]
  have s: "tree_shape par ht (dom (ts_blocks ts)) (lastAcceptedID ts)" using assms(2) by (simp add: topo_ok_def)
  show "chain par (g # acc)" using L by (simp add: acc_def)
  show "last (g # acc) = lastAcceptedID ts" using L by (cases "accepted_of (decisions ts)") (simp_all add: acc_def)
  show "distinct (acc @ rej)" using L by (auto simp: acc_def rej_def)
  show "A = set acc \<union> set rej \<union> processing" using L by (simp add: acc_def rej_def processing_def)
  have "ht (lastAcceptedID ts) < ht i" if "i \<in> processing" for i using s that by (auto simp: processing_def tree_shape_def)
  then show "processing \<inter> (set acc \<union> set rej) = {}" using L by (fastforce simp: acc_def rej_def processing_def)
  show "\<forall>i \<in> processing. below par ht (lastAcceptedID ts) i" using shape_below [OF s] by (simp add: processing_def)
  show "\<forall>i \<in> set rej. \<not> below par ht (lastAcceptedID ts) i" using L by (simp add: rej_def)
qed

lemma count_image_size: "count (image_mset f X) c = size {#x \<in># X. f x = c#}"
  by (induction X) auto

lemma child_votes_count:
  assumes "ht c = Suc (ht p)" and "par c = p"
  shows "count (child_votes par ht V p) c = size {#v \<in># V. below par ht c v#}"
proof -
  have "below par ht p v \<and> v \<noteq> p \<and> anc par ht v (Suc (ht p)) = c \<longleftrightarrow> below par ht c v" for v
  proof
    assume "below par ht c v"
    moreover have "below par ht p c" using below_step [of par ht p c] assms by simp
    ultimately show "below par ht p v \<and> v \<noteq> p \<and> anc par ht v (Suc (ht p)) = c"
      using below_trans below_height [of par ht c v] assms(1) by (metis Suc_n_not_le_n below_def)
  next
    assume a: "below par ht p v \<and> v \<noteq> p \<and> anc par ht v (Suc (ht p)) = c"
    then have "Suc (ht p) \<le> ht v" using below_antisym [of par ht p v] by (cases "ht v \<le> ht p") auto
    with a assms(1) show "below par ht c v" by (simp add: below_def)
  qed
  then have "{#v \<in># V. below par ht c v#} = {#v \<in># {#v \<in># V. below par ht p v \<and> v \<noteq> p#}. anc par ht v (Suc (ht p)) = c#}"
    by (simp add: filter_filter_mset conj_ac)
  then show ?thesis by (simp add: child_votes_def count_image_size)
qed

text \<open>
  C1. Safety of snowman: after any sequence of calls of \<^verbatim>\<open>Add\<close> and \<^verbatim>\<open>RecordPoll\<close>, when accepting and
  rejecting blocks gives no error, the blocks accepted so far form one chain, each the parent of
  the next, from the initial block to the last accepted one; no block is accepted or rejected twice or
  both; every block ever added is accepted, rejected or still processing; the processing
  blocks are descendants of the last accepted one and the rejected blocks are not.
\<close>

theorem snowman_safe:
  assumes "block_law M par ht" and "no_errors M" and "unat h = ht g" and "topo_reach M factory params g h A ts"
  defines "acc \<equiv> rev (accepted_of (decisions ts))" and "rej \<equiv> rejected_of (decisions ts)"
    and "processing \<equiv> dom (ts_blocks ts) - {lastAcceptedID ts}"
  shows "chain par (g # acc) \<and> last (g # acc) = lastAcceptedID ts \<and> distinct (acc @ rej) \<and>
    A = set acc \<union> set rej \<union> processing \<and> processing \<inter> (set acc \<union> set rej) = {} \<and>
    (\<forall>i \<in> processing. below par ht (lastAcceptedID ts) i) \<and> (\<forall>i \<in> set rej. \<not> below par ht (lastAcceptedID ts) i)"
proof -
  have "topo_ok M par ht ts" "log_ok par ht g A ts"
    using topo_reach_inv [OF assms(1,3,2,4)] by (simp_all add: topo_inv_def)
  from log_ok_chain [OF this(2,1)] show ?thesis unfolding acc_def rej_def processing_def by blast
qed

theorem snowman_safe_witness:
  "\<exists>ts'. topo_RecordPoll fork_methods sorted_list_of_set fork_poll fork = Some (ts', None) \<and>
    {replicate 32 2, replicate 32 1} = set (accepted_of (decisions ts')) \<union> set (rejected_of (decisions ts')) \<union>
      (dom (ts_blocks ts') - {lastAcceptedID ts'}) \<and>
    distinct (accepted_of (decisions ts') @ rejected_of (decisions ts'))"
proof -
  obtain ts' where r: "topo_RecordPoll fork_methods sorted_list_of_set fork_poll fork = Some (ts', None)"
    "topo_reach fork_methods SnowballFactory DefaultParameters Empty_ID 0 {replicate 32 2, replicate 32 1} ts'" using fork_polled by blast
  from snowman_safe [OF fork_law r(2)] r(1) show ?thesis by auto
qed

text \<open>
  C3. No poll panics, hangs or fails: in every reachable state \<^verbatim>\<open>RecordPoll\<close> on at most \<^verbatim>\<open>K\<close> votes, for any
  blocks at all and whatever order maps are ranged over, returns without an error.
\<close>

theorem snowman_poll_returns:
  assumes "block_law M par ht" and "no_errors M" and "unat h = ht g" and "topo_reach M factory params g h A ts"
    and "valid_ord ord" and "represents votes W" and "int (size W) \<le> K params"
  shows "\<exists>ts'. topo_RecordPoll M ord votes ts = Some (ts', None) \<and> topo_reach M factory params g h A ts'"
proof -
  have "topo_inv M par ht g A ts" "ts_params ts = params" using topo_reach_inv [OF assms(1,3,2,4)] by simp_all
  with RecordPoll_ok [OF _ assms(2,5,6)] assms(7) obtain ts' where "topo_RecordPoll M ord votes ts = Some (ts', None)" by metis
  with topo_reach.poll [OF assms(4-7) this] show ?thesis by blast
qed

theorem snowman_poll_returns_witness:
  "\<exists>ts'. topo_RecordPoll fork_methods sorted_list_of_set fork_poll fork = Some (ts', None)"
  using snowman_poll_returns [OF fork_law fork_reach fork_ord fork_votes] by blast

text \<open>
  C5. The preferred branch: from the last accepted block the preferences of the snowball trees lead
  to a block without children, and that is the preference; \<^verbatim>\<open>IsPreferred\<close> holds of exactly the blocks on this
  branch, and \<^verbatim>\<open>PreferenceAtHeight\<close> finds each of them under its height and nothing else.
\<close>

theorem snowman_preferred:
  assumes "block_law M par ht" and "no_errors M" and "unat h = ht g" and "topo_reach M factory params g h A ts"
  shows "\<exists>vs. pref_path ts (lastAcceptedID ts) vs \<and> chain par (lastAcceptedID ts # vs) \<and> ts_preference ts = last (lastAcceptedID ts # vs) \<and>
    (\<forall>i. IsPreferred i ts \<longleftrightarrow> i \<in> set (lastAcceptedID ts # vs)) \<and>
    (\<forall>k i. PreferenceAtHeight k ts = Some i \<longleftrightarrow> i \<in> set (lastAcceptedID ts # vs) \<and> unat k = ht i)"
proof -
  let ?la = "lastAcceptedID ts"
  have inv: "topo_inv M par ht g A ts" using topo_reach_inv [OF assms(1,3,2,4)] by simp
  then obtain vs where ok: "topo_ok M par ht ts" and vs: "pref_ok ht ts vs" by (auto simp: topo_inv_def)
  have w: "pref_walk ts ?la vs" and P: "preferredIDs ts = set vs" using vs by (simp_all add: pref_ok_def pref_path_def)
  have "sorted_wrt (\<lambda>x y. ht x < ht y) (?la # vs)" by (rule walk_sorted [OF ok w])
  then have gt: "\<forall>i \<in> set vs. ht ?la < ht i" by simp
  have la: "unat (lastAcceptedHeight ts) = ht ?la" using ok by (simp add: topo_ok_def)
  have "PreferenceAtHeight k ts = Some i \<longleftrightarrow> i \<in> set (?la # vs) \<and> unat k = ht i" for k i
  proof (cases "k = lastAcceptedHeight ts")
    case True
    with la gt show ?thesis by (auto simp: PreferenceAtHeight_def)
  next
    case False
    with la have "unat k \<noteq> ht ?la" by (metis word_eq_iff_unsigned)
    with False vs show ?thesis by (auto simp: PreferenceAtHeight_def pref_ok_def heights_ok_def)
  qed
  moreover have "chain par (i # vs)" if "pref_walk ts i vs" for i
    using that
  proof (induction vs arbitrary: i)
    case (Cons j js)
    then show ?case using nxt_child [OF ok] by simp
  qed simp
  ultimately show ?thesis using vs w P by (auto simp: pref_ok_def IsPreferred_def)
qed

theorem snowman_preferred_witness:
  "\<exists>vs. pref_path fork (lastAcceptedID fork) vs \<and> ts_preference fork = last (lastAcceptedID fork # vs)"
  using snowman_preferred [OF fork_law fork_reach] by blast

text \<open>
  C4. The votes of a poll are counted as they should be: whatever order the blocks are visited in, the
  stack holds exactly the blocks with at least \<^verbatim>\<open>AlphaPreference\<close> votes for their proper descendants; they are
  a chain that starts at the last accepted block; and each comes with, for every child, as many
  votes as were cast for the child and its descendants. Votes for unknown or decided blocks count nowhere.
\<close>

theorem snowman_votes_counted:
  assumes "block_law M par ht" and "no_errors M" and "unat h = ht g" and "topo_reach M factory params g h A ts"
    and "valid_ord ord" and "represents votes W" and "int (size W) \<le> K params"
  defines "V \<equiv> {#v \<in># W. topo_Processing v ts#}"
  shows "\<exists>ts' st. collect_votes M ord votes ts = Some (ts', st) \<and> ts_blocks ts' = ts_blocks ts \<and>
    set (map fst st) = {p \<in> dom (ts_blocks ts). AlphaPreference params \<le> int (size {#v \<in># V. below par ht p v \<and> v \<noteq> p#})} \<and>
    chain par (map fst st) \<and> (st \<noteq> [] \<longrightarrow> fst (hd st) = lastAcceptedID ts) \<and>
    (\<forall>(p, b) \<in> set st. \<forall>c. ht c = Suc (ht p) \<longrightarrow> par c = p \<longrightarrow> bag_Count c b = int (size {#v \<in># V. below par ht c v#}))"
proof -
  have inv: "topo_ok M par ht ts" "ts_params ts = params" using topo_reach_inv [OF assms(1,3,2,4)] by (simp_all add: topo_inv_def)
  have V: "V = filter_mset (valid_vote ts) W" unfolding V_def
    by (rule filter_mset_cong) (auto simp: valid_vote_def topo_Processing_def)
  from collect_votes_stack [OF inv(1) assms(5,6)] assms(7) inv(2) obtain N L st where
    c: "collect_votes M ord votes ts = Some (ts\<lparr>kahnNodes := N, ts_leaves := L\<rparr>, st)" "vote_stack ts par ht V st" unfolding V by blast
  have "bag_Count c b = int (size {#v \<in># V. below par ht c v#})"
    if "(p, b) \<in> set st" "ht c = Suc (ht p)" "par c = p" for p b c
  proof -
    have "represents b (child_votes par ht V p)" using that(1) c(2) by (auto simp: vote_stack_def)
    then have "bag_Count c b = int (count (child_votes par ht V p) c)" by (rule represents_Count)
    also have "count (child_votes par ht V p) c = size {#v \<in># V. below par ht c v#}"
      using child_votes_count that(2,3) by simp
    finally show ?thesis .
  qed
  with c inv(2) show ?thesis
    by (intro exI [of _ "ts\<lparr>kahnNodes := N, ts_leaves := L\<rparr>"] exI [of _ st]) (auto simp: vote_stack_def child_votes_def)
qed

theorem snowman_votes_counted_witness:
  "\<exists>ts' st. collect_votes fork_methods sorted_list_of_set fork_poll fork = Some (ts', st) \<and>
    chain (\<lambda>_. Empty_ID) (map fst st) \<and> ts_blocks ts' = ts_blocks fork"
  using snowman_votes_counted [OF fork_law fork_reach fork_ord fork_votes] by blast

text \<open>
  C6. \<^verbatim>\<open>Add\<close> in a reachable state: a block that is processing is refused as a duplicate, one whose parent is
  neither the last accepted block nor processing, such as a child of a rejected or of an older accepted block,
  as having an unknown parent, and nothing changes; every other block is new, and it becomes processing
  below its parent while nothing is decided and all other blocks stay processing.
\<close>

theorem snowman_add:
  assumes "block_law M par ht" and "no_errors M" and "unat h = ht g" and "topo_reach M factory params g h A ts"
  shows "let (ts', err) = topo_Add M blk ts; i = b_ID M blk; p = b_Parent M blk in
    if topo_Processing i ts then err = Some errDuplicateAdd \<and> ts' = ts
    else if p \<noteq> lastAcceptedID ts \<and> \<not> topo_Processing p ts then err = Some errUnknownParentBlock \<and> ts' = ts
    else err = None \<and> i \<notin> A \<and> decisions ts' = decisions ts \<and> lastAcceptedID ts' = lastAcceptedID ts \<and>
      (\<forall>j. topo_Processing j ts' \<longleftrightarrow> j = i \<or> topo_Processing j ts) \<and> NumProcessing ts' = NumProcessing ts + 1 \<and>
      topo_GetParent M i ts' = (p, True)"
proof -
  have inv: "topo_inv M par ht g A ts" using topo_reach_inv [OF assms(1,3,2,4)] by simp
  obtain ts' err where add: "topo_Add M blk ts = (ts', err)" by fastforce
  have la: "lastAcceptedID ts \<in> dom (ts_blocks ts)" and s: "tree_shape par ht (dom (ts_blocks ts)) (lastAcceptedID ts)"
    using inv by (auto simp: topo_inv_def topo_ok_def tree_shape_def)
  then have known: "b_Parent M blk \<in> dom (ts_blocks ts) \<longleftrightarrow> b_Parent M blk = lastAcceptedID ts \<or> topo_Processing (b_Parent M blk) ts"
    by (auto simp: topo_Processing_def)
  note ok = Add_ok [OF inv add]
  show ?thesis
  proof (cases "topo_Processing (b_ID M blk) ts \<or> b_Parent M blk \<notin> dom (ts_blocks ts)")
    case True
    with ok known show ?thesis by (auto simp: add split: if_splits)
  next
    case False
    then obtain n where n: "ts_blocks ts (b_Parent M blk) = Some n" by auto
    note fr = add_fresh [OF inv, of "b_ID M blk"]
    have law: "b_Parent M blk = par (b_ID M blk)" "ht (b_ID M blk) = Suc (ht (par (b_ID M blk)))"
      using assms(1) by (auto simp: block_law_def)
    then have f: "b_ID M blk \<notin> dom (ts_blocks ts)" "below par ht (lastAcceptedID ts) (b_ID M blk)" using fr False by auto
    have eff: "dom (ts_blocks ts') = insert (b_ID M blk) (dom (ts_blocks ts))" "lastAcceptedID ts' = lastAcceptedID ts"
      "ts_blocks ts' (b_ID M blk) = Some (empty_snowmanBlock\<lparr>sm_blk := Some blk\<rparr>)"
      using add False n by (auto simp: topo_Add_def Let_def split: if_splits)
    have "\<forall>j. topo_Processing j ts' \<longleftrightarrow> j = b_ID M blk \<or> topo_Processing j ts"
      using eff f(1) la by (auto simp: topo_Processing_def)
    moreover have "NumProcessing ts' = NumProcessing ts + 1"
      using eff(1) f(1) s by (simp add: NumProcessing_def tree_shape_def)
    moreover have "topo_GetParent M (b_ID M blk) ts' = (b_Parent M blk, True)" using eff(3) by (simp add: topo_GetParent_def)
    ultimately show ?thesis using ok False known eff(2) by (auto simp: add)
  qed
qed

theorem snowman_add_witness:
  "snd (topo_Add fork_methods True fork) = Some errDuplicateAdd \<and> fst (topo_Add fork_methods True fork) = fork"
proof -
  have "topo_inv fork_methods (\<lambda>_. Empty_ID) fork_ht Empty_ID {replicate 32 2, replicate 32 1} fork"
    using topo_reach_inv [OF fork_law(1,3,2) fork_reach] by blast
  then have "log_ok (\<lambda>_. Empty_ID) fork_ht Empty_ID {replicate 32 2, replicate 32 1} fork" "topo_ok fork_methods (\<lambda>_. Empty_ID) fork_ht fork"
    by (simp_all add: topo_inv_def)
  from log_ok_chain(4) [OF this] have "replicate 32 1 \<in> set (rev (accepted_of (decisions fork))) \<union> set (rejected_of (decisions fork)) \<union>
      (dom (ts_blocks fork) - {lastAcceptedID fork})" by (metis insertI1 insertI2)
  moreover have "decisions (fst (topo_Add M b ts)) = decisions ts" for M ts and b :: bool
    by (auto simp: topo_Add_def Let_def split: option.splits)
  moreover have "params_Verify DefaultParameters = None" by code_simp
  then have "decisions fork_start = []" by (simp add: fork_start_def topo_Initialize_def)
  ultimately have "replicate 32 1 \<in> dom (ts_blocks fork) - {lastAcceptedID fork}" unfolding fork_def by simp
  then have "topo_Processing (b_ID fork_methods True) fork" by (auto simp: topo_Processing_def fork_methods_def)
  with snowman_add [OF fork_law fork_reach, of True] show ?thesis by (simp add: Let_def split: prod.splits)
qed

end
