(* ===== verification/SnowmanLiveness.thy ===== *)
theory SnowmanLiveness
  imports SnowmanProperties
begin

text \<open>
  That \<^verbatim>\<open>Topological\<close> decides: a child of the last accepted block for which \<^verbatim>\<open>Beta\<close> polls in a row have enough
  votes, for itself or its descendants, is accepted.
\<close>

section \<open>Decisions are never undone\<close>

definition grows :: "'b Topological \<Rightarrow> 'b Topological \<Rightarrow> bool" where
  "grows ts ts' \<longleftrightarrow> (\<exists>ds. decisions ts' = ds @ decisions ts)"

lemma grows_refl [simp]: "grows ts ts"
  by (simp add: grows_def)

lemma grows_trans: "grows ts ts' \<Longrightarrow> grows ts' ts'' \<Longrightarrow> grows ts ts''"
  by (auto simp: grows_def)

lemma grows_eq: "decisions ts' = d # decisions ts \<Longrightarrow> grows ts ts'" "decisions ts' = decisions ts \<Longrightarrow> grows ts ts'"
  by (simp_all add: grows_def)

lemma grows_accepted: "grows ts ts' \<Longrightarrow> set (accepted_of (decisions ts)) \<subseteq> set (accepted_of (decisions ts'))"
  by (auto simp: grows_def)

lemma grows_cong: "decisions ts1 = decisions ts \<Longrightarrow> decisions ts1' = decisions ts' \<Longrightarrow> grows ts1 ts1' = grows ts ts'"
  by (simp add: grows_def)

lemma reject_each_grows: "grows ts (fst (reject_each M cs is ts))"
proof (induction "is" arbitrary: ts)
  case (Cons i "is")
  show ?case
  proof (cases "cs i")
    case (Some c)
    let ?ts = "ts\<lparr>decisions := RejectCalled i # decisions ts\<rparr>"
    have "grows ts ?ts" by (simp add: grows_eq)
    with Some Cons.IH [of ?ts] show ?thesis by (auto simp: Let_def split: option.splits intro: grows_trans)
  qed simp
qed simp

lemma rejectTransitively_grows: "rejectTransitively M ord rejected ts = Some r \<Longrightarrow> grows ts (fst r)"
proof (induction rule: rejectTransitively.raw_induct [rotated 1, consumes 1])
  case (1 f M ord rejected ts r)
  show ?case
  proof (cases rejected)
    case Nil
    with 1(2) show ?thesis by auto
  next
    case (Cons i rest)
    with 1(2) obtain n where n: "ts_blocks ts i = Some n" by (auto split: option.splits)
    let ?e = "reject_each M (sm_children n) (ord (dom (sm_children n))) (ts\<lparr>ts_blocks := (ts_blocks ts)(i := None)\<rparr>)"
    have g: "grows ts (fst ?e)" using reject_each_grows by (rule grows_cong [THEN iffD1, rotated 2]) simp_all
    obtain ts1 err where e: "?e = (ts1, err)" by fastforce
    show ?thesis
    proof (cases err)
      case None
      with 1(2) have "f M ord (rev (ord (dom (sm_children n))) @ rest) ts1 = Some r" by (simp add: Cons n Let_def e)
      with 1(1) g show ?thesis by (metis e fst_conv grows_trans)
    next
      case (Some x)
      with 1(2) have "r = (ts1, err)" by (simp add: Cons n Let_def e)
      with g e show ?thesis by simp
    qed
  qed
qed

lemma accept_grows:
  assumes "acceptPreferredChild M ord t cs ts = Some (ts', err)"
  shows "grows ts ts'" and "err = None \<Longrightarrow> Tree_Preference t \<in> set (accepted_of (decisions ts'))"
proof -
  let ?c = "Tree_Preference t"
  obtain b where b: "cs ?c = Some b" using assms by (auto simp: acceptPreferredChild_def Let_def split: option.splits)
  define ts1 where "ts1 = ts\<lparr>decisions := Notified ?c (b_Bytes M b) # decisions ts\<rparr>"
  define ts2 where "ts2 = ts1\<lparr>decisions := AcceptCalled ?c # decisions ts1\<rparr>"
  define ts3 where "ts3 = ts2\<lparr>lastAcceptedID := ?c, lastAcceptedHeight := b_Height M b,
    preferredIDs := preferredIDs ts2 - {?c}, preferredHeights := (preferredHeights ts2)(b_Height M b := None)\<rparr>"
  let ?is = "filter (\<lambda>i. i \<noteq> ?c) (ord (dom cs))"
  have g: "grows ts ts1" "grows ts ts2" "grows ts ts3" by (simp_all add: grows_def ts1_def ts2_def ts3_def)
  have acc: "?c \<in> set (accepted_of (decisions ts3))" by (simp add: ts3_def ts2_def)
  obtain ts4 e where e: "reject_each M cs ?is ts3 = (ts4, e)" by fastforce
  have g4: "grows ts3 ts4" using reject_each_grows [of ts3 M cs ?is] e by simp
  have eq: "acceptPreferredChild M ord t cs ts = (case BlockAcceptor M ?c (b_Bytes M b) of Some x \<Rightarrow> Some (ts1, Some x) | None \<Rightarrow>
      (case b_Accept M b of Some x \<Rightarrow> Some (ts2, Some x) | None \<Rightarrow>
      (case e of Some x \<Rightarrow> Some (ts4, Some x) | None \<Rightarrow> rejectTransitively M ord (rev ?is) ts4)))"
    using e by (simp add: acceptPreferredChild_def Let_def b ts3_def ts2_def ts1_def cong: option.case_cong)
  consider (stop) x where "Some x = err" "ts1 = ts' \<or> ts2 = ts' \<or> ts4 = ts'" |
    (settle) "rejectTransitively M ord (rev ?is) ts4 = Some (ts', err)"
    using assms unfolding eq by (simp split: option.split_asm) blast+
  then have "grows ts ts' \<and> (err = None \<longrightarrow> ?c \<in> set (accepted_of (decisions ts')))"
  proof cases
    case settle
    with rejectTransitively_grows have "grows ts3 ts'" using grows_trans [OF g4] by fastforce
    with g(3) acc grows_accepted show ?thesis by (blast intro: grows_trans)
  qed (use g g4 in \<open>auto intro: grows_trans\<close>)
  then show "grows ts ts'" "err = None \<Longrightarrow> ?c \<in> set (accepted_of (decisions ts'))" by auto
qed

lemma falter_frame [simp]:
  "decisions (falter_children cs f q ts) = decisions ts" "lastAcceptedID (falter_children cs f q ts) = lastAcceptedID ts"
  "cs i = None \<Longrightarrow> ts_blocks (falter_children cs f q ts) i = ts_blocks ts i"
  by (simp_all add: falter_children_def)

lemma vote_loop_grows: "vote_loop M ord st np on ts = Some (ts', r) \<Longrightarrow> grows ts ts'"
proof (induction st arbitrary: np on ts)
  case (Cons x rest)
  obtain p votes where x: "x = (p, votes)" by (cases x)
  show ?case
  proof (cases "ts_blocks ts p")
    case None
    with Cons.prems show ?thesis by (simp add: x)
  next
    case (Some n)
    with Cons.prems obtain t where t: "sm_sb n = Some t" by (auto simp: x split: option.splits)
    define t2 where "t2 = poll_tree ord votes n t"
    define tsr where "tsr = record_vote p n t2 ts"
    have gr: "grows ts tsr" by (simp add: tsr_def record_vote_def grows_eq)
    show ?thesis
    proof (cases "Tree_Finalized t2 \<and> lastAcceptedID ts = p")
      case False
      with Cons.prems vote_loop_plain [OF Some t t2_def] obtain np' on' where
        "vote_loop M ord rest np' on' (falter_children (sm_children n) (sm_shouldFalter n) (next_of rest) tsr) = Some (ts', r)"
        by (auto simp: x tsr_def)
      from Cons.IH [OF this] gr show ?thesis by (simp add: grows_def tsr_def record_vote_def)
    next
      case True
      obtain ts1 err where a: "acceptPreferredChild M ord t2 (sm_children n) tsr = Some (ts1, err)"
        using Cons.prems True Some t
        by (cases "sm_shouldFalter n") (auto simp: x Let_def tsr_def record_vote_def t2_def poll_tree_def bind_eq_Some_conv)
      show ?thesis
      proof (cases err)
        case None
        with Cons.prems vote_loop_accept [OF Some t t2_def] True a obtain np' on' where
          "vote_loop M ord rest np' on' (falter_children (sm_children n) (sm_shouldFalter n) (next_of rest)
            (ts1\<lparr>ts_blocks := (ts_blocks ts1)(p := None)\<rparr>)) = Some (ts', r)"
          by (auto simp: x tsr_def)
        from Cons.IH [OF this] accept_grows(1) [OF a] gr show ?thesis
          by (auto simp: grows_def tsr_def record_vote_def)
      next
        case e: (Some x1)
        with Cons.prems True Some t a have "ts' = ts1"
          by (cases "sm_shouldFalter n") (simp_all add: x Let_def tsr_def record_vote_def t2_def poll_tree_def)
        with accept_grows(1) [OF a] gr show ?thesis by (auto intro: grows_trans)
      qed
    qed
  qed
qed simp

lemma prefer_ancestors_frame:
  "prefer_ancestors M n ts = Some ts' \<Longrightarrow> ts_blocks ts' = ts_blocks ts \<and> lastAcceptedID ts' = lastAcceptedID ts \<and> decisions ts' = decisions ts"
proof (induction rule: prefer_ancestors.raw_induct [rotated 1, consumes 1])
  case (1 f M n ts ts')
  from 1(2) show ?case by (auto simp: Let_def split: if_splits option.splits dest!: 1(1))
qed

lemma prefer_descendants_frame:
  "prefer_descendants M n ts = Some ts' \<Longrightarrow> ts_blocks ts' = ts_blocks ts \<and> lastAcceptedID ts' = lastAcceptedID ts \<and> decisions ts' = decisions ts"
proof (induction rule: prefer_descendants.raw_induct [rotated 1, consumes 1])
  case (1 f M n ts ts')
  from 1(2) show ?case by (auto simp: Let_def split: if_splits option.splits dest!: 1(1))
qed

section \<open>The tree of the last accepted block\<close>

lemma vote_loop_frame:
  assumes "lastAcceptedID ts \<notin> set (map fst st)" and "\<forall>q n. ts_blocks ts q = Some n \<longrightarrow> lastAcceptedID ts \<notin> dom (sm_children n)"
    and "vote_loop M ord st np on ts = Some (ts', r)"
  shows "lastAcceptedID ts' = lastAcceptedID ts \<and> ts_blocks ts' (lastAcceptedID ts) = ts_blocks ts (lastAcceptedID ts) \<and>
    dom (ts_blocks ts') = dom (ts_blocks ts)"
  using assms
proof (induction st arbitrary: np on ts)
  case (Cons x rest)
  obtain p votes where x: "x = (p, votes)" by (cases x)
  show ?case
  proof (cases "ts_blocks ts p")
    case None
    with Cons.prems(3) show ?thesis by (simp add: x)
  next
    case (Some n)
    with Cons.prems(3) obtain t where t: "sm_sb n = Some t" by (auto simp: x split: option.splits)
    define t2 where "t2 = poll_tree ord votes n t"
    define ts1 where "ts1 = falter_children (sm_children n) (sm_shouldFalter n) (next_of rest) (record_vote p n t2 ts)"
    have p: "lastAcceptedID ts \<noteq> p" using Cons.prems(1) by (auto simp: x)
    obtain np' on' where v: "vote_loop M ord rest np' on' ts1 = Some (ts', r)"
      using vote_loop_plain [OF Some t t2_def, of M rest np on] Cons.prems(3) p by (auto simp: x ts1_def)
    have la: "lastAcceptedID ts1 = lastAcceptedID ts" by (simp add: ts1_def record_vote_def)
    have "\<forall>q n. ts_blocks ts1 q = Some n \<longrightarrow> lastAcceptedID ts \<notin> dom (sm_children n)"
      using Cons.prems(2) Some by (fastforce simp: ts1_def record_vote_def falter_children_def split: if_splits)
    with Cons.IH [OF _ _ v] Cons.prems(1) have "lastAcceptedID ts' = lastAcceptedID ts \<and>
        ts_blocks ts' (lastAcceptedID ts) = ts_blocks ts1 (lastAcceptedID ts) \<and> dom (ts_blocks ts') = dom (ts_blocks ts1)"
      by (auto simp: la)
    moreover have "sm_children n (lastAcceptedID ts) = None" using Cons.prems(2) Some by blast
    then have "ts_blocks ts1 (lastAcceptedID ts) = ts_blocks ts (lastAcceptedID ts)"
      using p by (simp add: ts1_def record_vote_def)
    moreover have "dom (ts_blocks ts1) = dom (ts_blocks ts)"
      using Some by (auto simp: ts1_def falter_children_def record_vote_def split: if_splits)
    ultimately show ?thesis by simp
  qed
qed simp

text \<open>After \<open>k\<close> polls in a row for the child \<open>c\<close> of the last accepted block, which is not accepted yet.\<close>

definition headed :: "int \<Rightarrow> ID \<Rightarrow> 'b Topological \<Rightarrow> bool" where
  "headed k c ts \<longleftrightarrow> (\<exists>n t. ts_blocks ts (lastAcceptedID ts) = Some n \<and> sm_sb n = Some t \<and> c \<in> dom (sm_children n) \<and>
     tree_toward (dom (sm_children n)) k c t \<and> (k = 0 \<or> \<not> sm_shouldFalter n \<and> \<not> Tree_Finalized t))"

lemma tree_toward_Unsuccessful: "tree_toward A 0 x t \<Longrightarrow> tree_toward A 0 x (Tree_RecordUnsuccessfulPoll t)"
  using tree_ok_Unsuccessful [of A t]
  by (auto simp: tree_toward_def tree_has_def Tree_RecordUnsuccessfulPoll_def Tree_Preference_def Tree_Finalized_def)

lemma poll_tree_toward:
  assumes "params_Verify (tr_params t) = None" and "valid_ord ord" and "represents votes V" and "for_choice (tr_params t) c V"
    and "c \<in> C" and "tree_toward C k c t" and "0 \<le> k" and "k = 0 \<or> \<not> sm_shouldFalter n"
  shows "tree_toward C (k + 1) c (poll_tree ord votes n t)"
proof (cases "sm_shouldFalter n")
  case True
  with assms(8) have k: "k = 0" by simp
  with tree_toward_Unsuccessful assms(6) have "tree_toward C k c (Tree_RecordUnsuccessfulPoll t)" by simp
  with tree_toward_poll [of "Tree_RecordUnsuccessfulPoll t" ord votes V c C k] assms True show ?thesis by (simp add: poll_tree_def)
next
  case False
  with tree_toward_poll [OF assms(1-4,5,6,7)] show ?thesis by (simp add: poll_tree_def)
qed

text \<open>\<open>backs\<close>: a poll of at most \<^verbatim>\<open>K\<close> votes with enough of them for blocks of \<open>D\<close> that are \<open>c\<close> or its descendants.\<close>

definition backs ::
  "Parameters \<Rightarrow> (ID \<Rightarrow> ID) \<Rightarrow> (ID \<Rightarrow> nat) \<Rightarrow> ID set \<Rightarrow> ID \<Rightarrow> (ID set \<Rightarrow> ID list) \<times> ID bag \<Rightarrow> bool" where
  "backs params par ht D c = (\<lambda>(ord, votes). valid_ord ord \<and> (\<exists>W. represents votes W \<and> int (size W) \<le> K params \<and>
     AlphaConfidence params \<le> int (size {#v \<in># W. v \<in> D \<and> below par ht c v#})))"

lemma root_votes:
  assumes ok: "topo_ok M par ht ts" and ord: "valid_ord ord" and W: "represents votes W" "int (size W) \<le> K (ts_params ts)"
    and c: "c \<in> dom (ts_blocks ts)" "par c = lastAcceptedID ts" "c \<noteq> lastAcceptedID ts"
    and al: "AlphaConfidence (ts_params ts) \<le> int (size {#v \<in># W. v \<in> dom (ts_blocks ts) \<and> below par ht c v#})"
  shows "\<exists>N L b rest V. collect_votes M ord votes ts = Some (ts\<lparr>kahnNodes := N, ts_leaves := L\<rparr>, (lastAcceptedID ts, b) # rest) \<and>
    represents b V \<and> for_choice (ts_params ts) c V \<and> lastAcceptedID ts \<notin> set (map fst rest)"
proof -
  let ?la = "lastAcceptedID ts" and ?V = "filter_mset (valid_vote ts) W"
  have s: "tree_shape par ht (dom (ts_blocks ts)) ?la" using ok by (simp add: topo_ok_def)
  have hc: "ht c = Suc (ht ?la)" using s c by (auto simp: tree_shape_def)
  have ve: "valid_vote ts v \<longleftrightarrow> v \<in> dom (ts_blocks ts) \<and> v \<noteq> ?la" for v by (simp add: valid_vote_def)
  have ge: "v \<noteq> ?la" if "below par ht c v" for v using below_height [OF that] hc by auto
  have "{#v \<in># W. v \<in> dom (ts_blocks ts) \<and> below par ht c v#} = {#v \<in># ?V. below par ht c v#}"
    by (auto simp: filter_filter_mset ve intro!: filter_mset_cong dest: ge)
  with al child_votes_count [of ht c ?la par ?V] hc c(2)
  have cnt: "AlphaConfidence (ts_params ts) \<le> int (count (child_votes par ht ?V ?la) c)" by simp
  have "size (child_votes par ht ?V ?la) \<le> size W" unfolding child_votes_def size_image_mset
    by (rule order_trans [OF size_filter_mset_lesseq size_filter_mset_lesseq])
  with W(2) cnt have fc: "for_choice (ts_params ts) c (child_votes par ht ?V ?la)" by (simp add: for_choice_def)
  have "AlphaPreference (ts_params ts) \<le> AlphaConfidence (ts_params ts)" using ok verified_bounds by (simp add: topo_ok_def)
  with cnt have "AlphaPreference (ts_params ts) \<le> int (size (child_votes par ht ?V ?la))"
    using count_le_size [of "child_votes par ht ?V ?la" c] by linarith
  moreover from collect_votes_stack [OF ok ord W] obtain N L st where
    st: "collect_votes M ord votes ts = Some (ts\<lparr>kahnNodes := N, ts_leaves := L\<rparr>, st)" "vote_stack ts par ht ?V st" by blast
  ultimately have "?la \<in> set (map fst st)" using s by (simp add: vote_stack_def tree_shape_def)
  then obtain b rest where r: "st = (?la, b) # rest" using st(2) by (cases st) (auto simp: vote_stack_def)
  have "represents b (child_votes par ht ?V ?la)" "?la \<notin> set (map fst rest)" using st(2) by (auto simp: vote_stack_def r)
  with fc st(1) r show ?thesis by blast
qed

text \<open>The vote on the stack: either \<open>c\<close> is accepted, or its support has grown.\<close>

lemma vote_headed:
  assumes ok: "topo_ok M par ht ts" and log: "log_ok par ht g A ts" and ne: "no_errors M" and ord: "valid_ord ord"
    and h: "headed k c ts" "0 \<le> k" and V: "represents b V" "for_choice (ts_params ts) c V"
    and rest: "lastAcceptedID ts \<notin> set (map fst rest)"
    and v: "vote_loop M ord ((lastAcceptedID ts, b) # rest) np on ts = Some (ts', Inr np')"
  shows "c \<in> set (accepted_of (decisions ts')) \<or>
    lastAcceptedID ts' = lastAcceptedID ts \<and> dom (ts_blocks ts') = dom (ts_blocks ts) \<and> headed (k + 1) c ts'"
proof -
  let ?la = "lastAcceptedID ts"
  from h obtain n t where n: "ts_blocks ts ?la = Some n" "sm_sb n = Some t" and c: "c \<in> dom (sm_children n)"
    and tw: "tree_toward (dom (sm_children n)) k c t" and f: "k = 0 \<or> \<not> sm_shouldFalter n"
    by (auto simp: headed_def)
  have ps: "tr_params t = ts_params ts" "params_Verify (ts_params ts) = None"
    using node_sb [OF topo_node [OF ok n(1)] n(2)] ok by (simp_all add: topo_ok_def)
  define t2 where "t2 = poll_tree ord b n t"
  have tw2: "tree_toward (dom (sm_children n)) (k + 1) c t2"
    unfolding t2_def using poll_tree_toward [OF _ ord V(1) _ c tw h(2) f] V(2) ps by simp
  define tsr where "tsr = record_vote ?la n t2 ts"
  show ?thesis
  proof (cases "Tree_Finalized t2")
    case True
    then have pc: "Tree_Preference t2 = c" using tw2 by (simp add: tree_toward_def)
    have "topo_ok M par ht tsr" unfolding tsr_def by (rule record_vote_ok(1) [OF ok n ord V(1) t2_def])
    moreover have "log_ok par ht g A tsr" using log n(1) unfolding tsr_def record_vote_def by (subst log_ok_blocks) auto
    moreover have "ts_blocks tsr (lastAcceptedID tsr) = Some (n\<lparr>sm_shouldFalter := False, sm_sb := Some t2\<rparr>)"
      by (simp add: tsr_def record_vote_def)
    ultimately obtain ts1 where a: "acceptPreferredChild M ord t2 (sm_children n) tsr = Some (ts1, None)"
      using accept_ok [OF _ _ ne ord, of par ht tsr g A _ t2] by fastforce
    from v [unfolded vote_loop_accept [OF n t2_def True refl a [unfolded tsr_def]]] have
      "grows (falter_children (sm_children n) (sm_shouldFalter n) (next_of rest) (ts1\<lparr>ts_blocks := (ts_blocks ts1)(?la := None)\<rparr>)) ts'"
      by (rule vote_loop_grows)
    from grows_accepted [OF this] accept_grows(2) [OF a] pc show ?thesis by auto
  next
    case False
    define ts1 where "ts1 = falter_children (sm_children n) (sm_shouldFalter n) (next_of rest) tsr"
    have kids: "?la \<notin> dom (sm_children m)" if "ts_blocks ts q = Some m" for q m
      using topo_node [OF ok that] by (simp add: node_ok_def)
    have la: "lastAcceptedID ts1 = ?la" by (simp add: ts1_def tsr_def record_vote_def)
    have "\<forall>q m. ts_blocks ts1 q = Some m \<longrightarrow> ?la \<notin> dom (sm_children m)"
      using kids n(1) by (fastforce simp: ts1_def tsr_def record_vote_def falter_children_def split: if_splits)
    moreover obtain np2 on2 where "vote_loop M ord rest np2 on2 ts1 = Some (ts', Inr np')"
    proof -
      have "\<not> (Tree_Finalized t2 \<and> ?la = ?la)" using False by simp
      from v [unfolded vote_loop_plain [OF n t2_def this]] that show thesis unfolding ts1_def tsr_def by blast
    qed
    ultimately have fr: "lastAcceptedID ts' = ?la" "ts_blocks ts' ?la = ts_blocks ts1 ?la" "dom (ts_blocks ts') = dom (ts_blocks ts1)"
      using vote_loop_frame [of ts1 rest, unfolded la, OF rest] by blast+
    have "ts_blocks ts1 ?la = Some (n\<lparr>sm_shouldFalter := False, sm_sb := Some t2\<rparr>)"
      using kids [OF n(1)] by (simp add: ts1_def tsr_def record_vote_def domIff)
    with fr(1,2) tw2 c False have "headed (k + 1) c ts'" by (simp add: headed_def)
    moreover have "dom (ts_blocks ts1) = dom (ts_blocks ts)"
      using n(1) by (auto simp: ts1_def falter_children_def tsr_def record_vote_def split: if_splits)
    ultimately show ?thesis using fr by simp
  qed
qed

lemma headed_cong:
  "ts_blocks ts' = ts_blocks ts \<Longrightarrow> lastAcceptedID ts' = lastAcceptedID ts \<Longrightarrow> headed k c ts' = headed k c ts"
  by (simp add: headed_def)

text \<open>The part of \<^verbatim>\<open>RecordPoll\<close> after the vote changes neither blocks nor decisions.\<close>

lemma RecordPoll_split:
  assumes "topo_RecordPoll M ord votes ts = Some (ts', None)"
  obtains ts1 st ts2 np where "collect_votes M ord votes (ts\<lparr>ts_pollNumber := ts_pollNumber ts + 1\<rparr>) = Some (ts1, st)"
    "topo_vote M ord st ts1 = Some (ts2, Inr np)"
    "ts_blocks ts' = ts_blocks ts2" "lastAcceptedID ts' = lastAcceptedID ts2" "decisions ts' = decisions ts2"
proof -
  from assms obtain ts1 st ts2 r where c: "collect_votes M ord votes (ts\<lparr>ts_pollNumber := ts_pollNumber ts + 1\<rparr>) = Some (ts1, st)"
    and v: "topo_vote M ord st ts1 = Some (ts2, r)" by (auto simp: topo_RecordPoll_def bind_eq_Some_conv)
  then obtain np where "r = Inr np" using assms by (cases r) (auto simp: topo_RecordPoll_def)
  note 1 = c v [unfolded this]
  show thesis
  proof (cases "np \<in> preferredIDs ts2")
    case True
    with 1 assms that show ?thesis by (simp add: topo_RecordPoll_def)
  next
    case False
    with 1 assms obtain n tsa where "prefer_ancestors M n (ts2\<lparr>preferredIDs := {}, preferredHeights := Map.empty, ts_preference := np\<rparr>) = Some tsa"
      "prefer_descendants M n tsa = Some ts'"
      by (auto simp: topo_RecordPoll_def Let_def bind_eq_Some_conv split: option.splits)
    from prefer_ancestors_frame [OF this(1)] prefer_descendants_frame [OF this(2)] 1 that show ?thesis by simp
  qed
qed

lemma RecordPoll_grows:
  assumes "topo_ok M par ht ts" and "valid_ord ord" and "represents votes W" and "int (size W) \<le> K (ts_params ts)"
    and "topo_RecordPoll M ord votes ts = Some (ts', None)"
  shows "grows ts ts'"
proof -
  define ts0 where "ts0 = ts\<lparr>ts_pollNumber := ts_pollNumber ts + 1\<rparr>"
  from RecordPoll_split [OF assms(5)] obtain ts1 st ts2 np where c: "collect_votes M ord votes ts0 = Some (ts1, st)"
    and v: "topo_vote M ord st ts1 = Some (ts2, Inr np)" "decisions ts' = decisions ts2" unfolding ts0_def by metis
  have "topo_ok M par ht ts0" using assms(1) topo_ok_frame [of ts0 ts] by (simp add: ts0_def)
  from collect_votes_stack [OF this assms(2,3)] assms(4) c have "decisions ts1 = decisions ts" by (auto simp: ts0_def)
  moreover have "grows ts1 ts2" using v(1)
    by (auto simp: topo_vote_def grows_eq split: if_splits option.splits intro: vote_loop_grows)
  ultimately show ?thesis using v(2) by (simp add: grows_def)
qed

lemma RecordPoll_headed:
  assumes inv: "topo_inv M par ht g A ts" and ne: "no_errors M" and h: "headed k c ts" "0 \<le> k"
    and b: "backs (ts_params ts) par ht (dom (ts_blocks ts)) c (ord, votes)"
  shows "\<exists>ts'. topo_RecordPoll M ord votes ts = Some (ts', None) \<and> topo_inv M par ht g A ts' \<and> ts_params ts' = ts_params ts \<and>
    (c \<in> set (accepted_of (decisions ts')) \<or> dom (ts_blocks ts') = dom (ts_blocks ts) \<and> headed (k + 1) c ts')"
proof -
  from b obtain W where W: "valid_ord ord" "represents votes W" "int (size W) \<le> K (ts_params ts)"
    "AlphaConfidence (ts_params ts) \<le> int (size {#v \<in># W. v \<in> dom (ts_blocks ts) \<and> below par ht c v#})" by (auto simp: backs_def)
  define ts0 where "ts0 = ts\<lparr>ts_pollNumber := ts_pollNumber ts + 1\<rparr>"
  have ok: "topo_ok M par ht ts" "log_ok par ht g A ts" using inv by (auto simp: topo_inv_def)
  then have ok0: "topo_ok M par ht ts0" using topo_ok_frame [of ts0 ts] by (simp add: ts0_def)
  from RecordPoll_ok [OF inv ne W(1-3)] obtain ts' where r: "topo_RecordPoll M ord votes ts = Some (ts', None)"
    "topo_inv M par ht g A ts'" "ts_params ts' = ts_params ts" by blast
  from h obtain n where "ts_blocks ts (lastAcceptedID ts) = Some n" "c \<in> dom (sm_children n)" by (auto simp: headed_def)
  then have c: "c \<in> dom (ts_blocks ts)" "par c = lastAcceptedID ts" "c \<noteq> lastAcceptedID ts"
    using topo_node [OF ok(1)] by (auto simp: node_ok_def)
  from root_votes [OF ok0 W(1,2), of c] W(3,4) c obtain N L bg rest V where
    cv: "collect_votes M ord votes ts0 = Some (ts0\<lparr>kahnNodes := N, ts_leaves := L\<rparr>, (lastAcceptedID ts0, bg) # rest)"
    and V: "represents bg V" "for_choice (ts_params ts0) c V" "lastAcceptedID ts0 \<notin> set (map fst rest)" by (auto simp: ts0_def)
  define ts1 where "ts1 = ts0\<lparr>kahnNodes := N, ts_leaves := L\<rparr>"
  have eqs: "ts_blocks ts1 = ts_blocks ts" "lastAcceptedID ts1 = lastAcceptedID ts" "ts_params ts1 = ts_params ts"
    "decisions ts1 = decisions ts" "lastAcceptedID ts0 = lastAcceptedID ts" "ts_params ts0 = ts_params ts" by (simp_all add: ts1_def ts0_def)
  from RecordPoll_split [OF r(1)] cv obtain ts2 np where
    v: "topo_vote M ord ((lastAcceptedID ts1, bg) # rest) ts1 = Some (ts2, Inr np)"
    and e: "ts_blocks ts' = ts_blocks ts2" "lastAcceptedID ts' = lastAcceptedID ts2" "decisions ts' = decisions ts2"
    unfolding ts0_def [symmetric] ts1_def by (metis Pair_inject option.inject eqs(2,5) ts1_def)
  have "topo_ok M par ht ts1" using ok0 by (simp add: ts1_def)
  moreover have "log_ok par ht g A ts1" using ok(2) eqs by (simp add: log_ok_def)
  moreover have "headed k c ts1" using h(1) headed_cong [of ts1 ts] eqs by simp
  ultimately have "c \<in> set (accepted_of (decisions ts2)) \<or> lastAcceptedID ts2 = lastAcceptedID ts1 \<and>
      dom (ts_blocks ts2) = dom (ts_blocks ts1) \<and> headed (k + 1) c ts2"
    using vote_headed [OF _ _ ne W(1) _ h(2) V(1), of par ht ts1 g A c rest "lastAcceptedID ts1" True ts2 np] V(2,3) v eqs
    by (simp add: topo_vote_def del: vote_loop.simps)
  with r e eqs headed_cong [of ts' ts2] show ?thesis by auto
qed

section \<open>Sequences of polls\<close>

fun run_polls :: "'b block_methods \<Rightarrow> ((ID set \<Rightarrow> ID list) \<times> ID bag) list \<Rightarrow> 'b Topological \<Rightarrow> 'b Topological option" where
  "run_polls M [] ts = Some ts"
| "run_polls M ((ord, votes) # ps) ts =
     (case topo_RecordPoll M ord votes ts of Some (ts', None) \<Rightarrow> run_polls M ps ts' | _ \<Rightarrow> None)"

lemma polls_keep:
  assumes "no_errors M" and "topo_inv M par ht g A ts" and "\<forall>p \<in> set ps. backs (ts_params ts) par ht D c p"
    and "c \<in> set (accepted_of (decisions ts))"
  shows "\<exists>ts'. run_polls M ps ts = Some ts' \<and> c \<in> set (accepted_of (decisions ts'))"
  using assms(2-)
proof (induction ps arbitrary: ts)
  case (Cons p ps)
  obtain ord votes where p: "p = (ord, votes)" by (cases p)
  from Cons.prems(2) obtain W where W: "valid_ord ord" "represents votes W" "int (size W) \<le> K (ts_params ts)" by (auto simp: p backs_def)
  from RecordPoll_ok [OF Cons.prems(1) assms(1) W] obtain ts1 where r: "topo_RecordPoll M ord votes ts = Some (ts1, None)"
    "topo_inv M par ht g A ts1" "ts_params ts1 = ts_params ts" by blast
  have "grows ts ts1" using RecordPoll_grows [OF _ W r(1), of par ht] Cons.prems(1) by (simp add: topo_inv_def)
  from grows_accepted [OF this] Cons.IH [OF r(2)] Cons.prems(2,3) r show ?case by (auto simp: p)
qed simp

lemma polls_headed:
  assumes "no_errors M" and "topo_inv M par ht g A ts" and "\<forall>p \<in> set ps. backs (ts_params ts) par ht (dom (ts_blocks ts)) c p"
    and "headed k c ts" and "0 \<le> k"
  shows "\<exists>ts'. run_polls M ps ts = Some ts' \<and> (c \<in> set (accepted_of (decisions ts')) \<or>
    topo_ok M par ht ts' \<and> ts_params ts' = ts_params ts \<and> headed (k + int (length ps)) c ts')"
  using assms(2-)
proof (induction ps arbitrary: ts k)
  case Nil
  then show ?case by (simp add: topo_inv_def)
next
  case (Cons p ps)
  obtain ord votes where p: "p = (ord, votes)" by (cases p)
  from RecordPoll_headed [OF Cons.prems(1) assms(1) Cons.prems(3,4), of ord votes] Cons.prems(2) obtain ts1 where
    r: "topo_RecordPoll M ord votes ts = Some (ts1, None)" "topo_inv M par ht g A ts1" "ts_params ts1 = ts_params ts"
      "c \<in> set (accepted_of (decisions ts1)) \<or> dom (ts_blocks ts1) = dom (ts_blocks ts) \<and> headed (k + 1) c ts1" by (auto simp: p)
  show ?case
  proof (cases "c \<in> set (accepted_of (decisions ts1))")
    case True
    with polls_keep [OF assms(1) r(2)] Cons.prems(2) r show ?thesis by (simp add: p) blast
  next
    case False
    with Cons.IH [OF r(2), of "k + 1"] Cons.prems(2,4) r show ?thesis by (auto simp: p algebra_simps)
  qed
qed

text \<open>
  C2. Liveness of snowman: take any reachable state and a processing child of the last accepted
  block that the bits decided so far in the snowball tree over the children do not exclude. After \<^verbatim>\<open>Beta\<close>
  or more polls in a row, each of at most \<^verbatim>\<open>K\<close> votes of which at least \<^verbatim>\<open>AlphaConfidence\<close> are for the child
  or blocks built on it, whatever the other votes are, the child has been accepted.
\<close>

theorem snowman_accepts:
  assumes "block_law M par ht" and "no_errors M" and "unat h = ht g" and "topo_reach M factory params g h A ts"
    and c: "topo_Processing c ts" "par c = lastAcceptedID ts"
    and t: "ts_blocks ts (lastAcceptedID ts) = Some n" "sm_sb n = Some t"
      "if Tree_Finalized t then Tree_Preference t = c else EqualSubset 0 (DecidedPrefix (tr_node t)) (Tree_Preference t) c"
    and ps: "\<forall>p \<in> set ps. backs params par ht (dom (ts_blocks ts)) c p" and len: "Beta params \<le> int (length ps)"
  shows "\<exists>ts'. run_polls M ps ts = Some ts' \<and> c \<in> set (accepted_of (decisions ts'))"
proof -
  have inv: "topo_inv M par ht g A ts" "ts_params ts = params" using topo_reach_inv [OF assms(1,3,2,4)] by simp_all
  then have ok: "topo_ok M par ht ts" and pv: "params_Verify params = None" by (auto simp: topo_inv_def topo_ok_def)
  note nk = topo_node [OF ok t(1)]
  have cd: "c \<in> dom (sm_children n)" using nk c by (auto simp: node_ok_def topo_Processing_def split: if_splits)
  have st: "sound_tree (dom (sm_children n)) t" using node_sb [OF nk t(2)] by simp
  then have tok: "tree_ok (dom (sm_children n)) t" by (rule sound_tree_ok)
  have "wf_ID c" using tok cd by (auto simp: tree_ok_def)
  then have "\<not> Tree_Finalized t \<Longrightarrow> agree (Tree_Preference t) c 0 (DecidedPrefix (tr_node t))"
    using t(3) EqualSubset_agree tree_ok_preference [OF tok] tree_ok_prefix [OF tok] by simp
  with st t(3) have "tree_toward (dom (sm_children n)) 0 c t" by (simp add: tree_toward_def sound_tree_def)
  with t cd have "headed 0 c ts" by (simp add: headed_def)
  from polls_headed [OF assms(2) inv(1) _ this, of ps] ps inv(2) obtain ts' where
    r: "run_polls M ps ts = Some ts'" "c \<in> set (accepted_of (decisions ts')) \<or>
      topo_ok M par ht ts' \<and> ts_params ts' = params \<and> headed (int (length ps)) c ts'" by auto
  moreover have "\<not> headed (int (length ps)) c ts'" if ok': "topo_ok M par ht ts'" "ts_params ts' = params"
  proof
    assume "headed (int (length ps)) c ts'"
    moreover have "ps \<noteq> []" using len verified_bounds(1) [OF pv] by auto
    ultimately obtain n' t' where n': "ts_blocks ts' (lastAcceptedID ts') = Some n'" "sm_sb n' = Some t'"
      and tw: "tree_toward (dom (sm_children n')) (int (length ps)) c t'" and nf: "\<not> Tree_Finalized t'" by (auto simp: headed_def)
    have pt: "tr_params t' = params" using node_sb [OF topo_node [OF ok'(1) n'(1)] n'(2)] ok'(2) by simp
    have l: "live params (dom (sm_children n')) (tr_node t')" using tree_ok_live [OF _ nf] tw pt by (simp add: tree_toward_def)
    have "strong (int (length ps)) c (tr_node t')" using tw nf \<open>ps \<noteq> []\<close> by (auto simp: tree_toward_def)
    moreover have "node_conf (tr_node t') < Beta params" "tr_node t' \<noteq> NilNode" using l live_not_final [OF l] by auto
    ultimately show False using strong_conf len by fastforce
  qed
  ultimately show ?thesis by blast
qed

text \<open>The first of the two conflicting blocks gets 15 of 20 votes in 20 polls.\<close>

lemma fork_root:
  defines "t \<equiv> Tree_Add (replicate 32 2) (NewTree SnowballFactory DefaultParameters (replicate 32 1))"
  shows "\<exists>n. ts_blocks fork (lastAcceptedID fork) = Some n \<and> sm_sb n = Some t" "lastAcceptedID fork = Empty_ID"
    "replicate 32 1 \<in> dom (ts_blocks fork)"
proof -
  have "params_Verify DefaultParameters = None" by code_simp
  then have st: "ts_blocks fork_start = [Empty_ID \<mapsto> empty_snowmanBlock]" "lastAcceptedID fork_start = Empty_ID"
    "ts_Factory fork_start = SnowballFactory" "ts_params fork_start = DefaultParameters"
    by (simp_all add: fork_start_def topo_Initialize_def)
  have ids: "b_ID fork_methods b = replicate 32 (if b then 1 else 2)" "b_Parent fork_methods b = Empty_ID" for b
    by (simp_all add: fork_methods_def)
  have ne: "replicate 32 1 \<noteq> Empty_ID" "replicate 32 2 \<noteq> Empty_ID" "replicate 32 (2 :: 8 word) \<noteq> replicate 32 1"
    "Empty_ID \<noteq> replicate 32 1" "Empty_ID \<noteq> replicate 32 2" "replicate 32 (1 :: 8 word) \<noteq> replicate 32 2"
    by (simp_all add: Empty_ID_def IDLen_def)
  define ts1 where "ts1 = fst (topo_Add fork_methods True fork_start)"
  have 1: "ts_blocks ts1 = [Empty_ID \<mapsto> AddChild fork_methods fork_start True empty_snowmanBlock,
      replicate 32 1 \<mapsto> empty_snowmanBlock\<lparr>sm_blk := Some True\<rparr>]" "lastAcceptedID ts1 = Empty_ID"
      "ts_Factory ts1 = SnowballFactory" "ts_params ts1 = DefaultParameters"
    using ne st by (simp_all add: ts1_def topo_Add_def Let_def topo_Processing_def ids)
  have "ts_blocks fork = (ts_blocks ts1)(Empty_ID \<mapsto> AddChild fork_methods ts1 False (AddChild fork_methods fork_start True empty_snowmanBlock),
      replicate 32 2 \<mapsto> empty_snowmanBlock\<lparr>sm_blk := Some False\<rparr>)" and la: "lastAcceptedID fork = Empty_ID"
    using ne 1 by (simp_all add: fork_def flip: ts1_def) (simp_all add: topo_Add_def Let_def topo_Processing_def ids)
  with 1 ne st show "\<exists>n. ts_blocks fork (lastAcceptedID fork) = Some n \<and> sm_sb n = Some t" "replicate 32 1 \<in> dom (ts_blocks fork)"
    by (simp_all add: AddChild_def Let_def empty_snowmanBlock_def ids t_def)
  show "lastAcceptedID fork = Empty_ID" by (rule la)
qed

theorem snowman_accepts_witness:
  "\<exists>ts'. run_polls fork_methods (replicate 20 (sorted_list_of_set, fork_poll)) fork = Some ts' \<and>
    replicate 32 1 \<in> set (accepted_of (decisions ts'))"
proof -
  let ?t = "Tree_Add (replicate 32 2) (NewTree SnowballFactory DefaultParameters (replicate 32 1))"
  let ?c = "replicate 32 1 :: ID" and ?W = "mset (replicate 15 (replicate 32 1) @ replicate 5 (replicate 32 2)) :: ID multiset"
  obtain n where n: "ts_blocks fork (lastAcceptedID fork) = Some n" "sm_sb n = Some ?t" using fork_root(1) by blast
  have ne: "?c \<noteq> Empty_ID" by (simp add: Empty_ID_def IDLen_def)
  have c: "topo_Processing ?c fork" "Empty_ID = lastAcceptedID fork" using fork_root(2,3) ne by (auto simp: topo_Processing_def)
  have live: "if Tree_Finalized ?t then Tree_Preference ?t = ?c else EqualSubset 0 (DecidedPrefix (tr_node ?t)) (Tree_Preference ?t) ?c"
    by code_simp
  have "replicate_mset 15 ?c \<subseteq># {#v \<in># ?W. v \<in> dom (ts_blocks fork) \<and> below (\<lambda>_. Empty_ID) fork_ht ?c v#}"
    using fork_root(3) by (simp add: filter_replicate_mset)
  from size_mset_mono [OF this] have "15 \<le> size {#v \<in># ?W. v \<in> dom (ts_blocks fork) \<and> below (\<lambda>_. Empty_ID) fork_ht ?c v#}" by simp
  then have "AlphaConfidence DefaultParameters \<le> int (size {#v \<in># ?W. v \<in> dom (ts_blocks fork) \<and> below (\<lambda>_. Empty_ID) fork_ht ?c v#})"
    by (simp add: DefaultParameters_def)
  with fork_ord fork_votes have "backs DefaultParameters (\<lambda>_. Empty_ID) fork_ht (dom (ts_blocks fork)) ?c (sorted_list_of_set, fork_poll)"
    unfolding backs_def by blast
  then show ?thesis
    by (intro snowman_accepts [OF fork_law fork_reach c n live]) (simp_all add: DefaultParameters_def)
qed

end
