(* ===== verification/SnowmanPolls.thy ===== *)
theory SnowmanPolls
  imports PollSet SnowmanLiveness
begin

text \<open>
  Polls over snowman: the block tree of \<^verbatim>\<open>Topological\<close> is what \<^verbatim>\<open>GetParent\<close> tells a poll, in every
  reachable state it is as the polls need it, and the votes a poll compares with the thresholds are those that
  \<^verbatim>\<open>RecordPoll\<close> counts.
\<close>

abbreviation block_parent :: "'b block_methods \<Rightarrow> 'b Topological \<Rightarrow> ID \<Rightarrow> ID \<times> bool" where
  "block_parent M ts \<equiv> \<lambda>i. topo_GetParent M i ts"

lemma block_parent_known:
  assumes ok: "topo_ok M par ht ts" and p: "topo_GetParent M i ts = (p, True)"
  shows "i \<in> dom (ts_blocks ts)" "p = par i" "ht i = Suc (ht (par i))" "wf_ID i"
proof -
  from p obtain n b where n: "ts_blocks ts i = Some n" "sm_blk n = Some b" "p = b_Parent M b"
    by (auto simp: topo_GetParent_def split: option.splits)
  with ok have "node_ok M par ts i n" by (simp add: topo_ok_def)
  with n(2) have "b_ID M b = i" by (simp add: node_ok_def)
  moreover have "block_law M par ht" using ok by (simp add: topo_ok_def)
  ultimately show "i \<in> dom (ts_blocks ts)" "p = par i" "ht i = Suc (ht (par i))" "wf_ID i"
    using n unfolding block_law_def by auto
qed

lemma block_parent_processing:
  assumes ok: "topo_ok M par ht ts" and i: "i \<in> dom (ts_blocks ts)" "i \<noteq> lastAcceptedID ts"
  shows "topo_GetParent M i ts = (par i, True)"
proof -
  from i obtain n where n: "ts_blocks ts i = Some n" by blast
  with ok have "node_ok M par ts i n" by (simp add: topo_ok_def)
  with i(2) obtain b where b: "sm_blk n = Some b" "b_ID M b = i" by (auto simp: node_ok_def split: option.splits)
  moreover have "block_law M par ht" using ok by (simp add: topo_ok_def)
  ultimately show ?thesis using n by (auto simp: topo_GetParent_def block_law_def)
qed

lemma block_parent_edge_height:
  assumes ok: "topo_ok M par ht ts"
  shows "(u, v) \<in> (edge (block_parent M ts))\<^sup>+ \<Longrightarrow> ht v < ht u"
proof (induction rule: trancl_induct)
  case (base v)
  then show ?case using block_parent_known [OF ok] by fastforce
next
  case (step v w)
  then have "topo_GetParent M v ts = (w, True)" by simp
  from block_parent_known(2,3) [OF ok this] step.IH show ?case by simp
qed

lemma block_parent_ok:
  assumes ok: "topo_ok M par ht ts"
  shows "known_ok (block_parent M ts)"
proof -
  have "Domain (edge (block_parent M ts)) \<subseteq> dom (ts_blocks ts)" using block_parent_known(1) [OF ok] by (meson DomainE edge_iff subsetI)
  moreover have "finite (dom (ts_blocks ts))" using ok by (simp add: topo_ok_def tree_shape_def)
  ultimately have "finite (Domain (edge (block_parent M ts)))" by (rule finite_subset)
  moreover have "acyclic (edge (block_parent M ts))"
    using block_parent_edge_height [OF ok] unfolding acyclic_def by blast
  moreover have "wf_ID i" if "snd (topo_GetParent M i ts)" for i
    using block_parent_known(4) [OF ok, of i "fst (topo_GetParent M i ts)"] that by (simp add: prod_eq_iff)
  ultimately show ?thesis by (simp add: known_ok_def parents_ok_def)
qed

text \<open>A processing block is reached from a vote exactly when the vote is for it or a descendant.\<close>

lemma block_parent_below:
  assumes ok: "topo_ok M par ht ts" and i: "valid_vote ts i"
  shows "(u, i) \<in> (edge (block_parent M ts))\<^sup>* \<longleftrightarrow> valid_vote ts u \<and> below par ht i u"
proof
  have s: "tree_shape par ht (dom (ts_blocks ts)) (lastAcceptedID ts)" using ok by (simp add: topo_ok_def)
  then have hi: "ht (lastAcceptedID ts) < ht i" using i by (auto simp: tree_shape_def valid_vote_def)
  show "(u, i) \<in> (edge (block_parent M ts))\<^sup>* \<Longrightarrow> valid_vote ts u \<and> below par ht i u"
  proof (induction rule: converse_rtrancl_induct)
    case (step u v)
    then have p: "topo_GetParent M u ts = (v, True)" by simp
    note k = block_parent_known [OF ok p]
    have "ht i \<le> ht v" using step.IH below_height by blast
    then have "u \<noteq> lastAcceptedID ts" using k hi by auto
    then show ?case using k step.IH below_step by (auto simp: valid_vote_def)
  qed (use i in simp)
  show "valid_vote ts u \<and> below par ht i u \<Longrightarrow> (u, i) \<in> (edge (block_parent M ts))\<^sup>*"
  proof (induction "ht u" arbitrary: u rule: less_induct)
    case less
    show ?case
    proof (cases "u = i")
      case False
      have u: "u \<in> dom (ts_blocks ts)" "u \<noteq> lastAcceptedID ts" using less.prems by (auto simp: valid_vote_def)
      then have pu: "par u \<in> dom (ts_blocks ts)" "ht u = Suc (ht (par u))" using s by (auto simp: tree_shape_def)
      have b: "below par ht i (par u)" using below_par less.prems False pu(2) by metis
      then have "ht i \<le> ht (par u)" by (rule below_height)
      then have "par u \<noteq> lastAcceptedID ts" using hi by auto
      with less.hyps [of "par u"] pu b have "(par u, i) \<in> (edge (block_parent M ts))\<^sup>*" by (simp add: valid_vote_def)
      moreover have "(u, par u) \<in> edge (block_parent M ts)" using block_parent_processing [OF ok u] by simp
      ultimately show ?thesis by (rule converse_rtrancl_into_rtrancl [rotated])
    qed simp
  qed
qed

lemma votes_for_block:
  assumes "topo_ok M par ht ts" and "valid_vote ts i"
  shows "votes_for (block_parent M ts) V {i} = size {#v \<in># {#v \<in># V. topo_Processing v ts#}. below par ht i v#}"
proof -
  have "filter_mset (\<lambda>u. \<exists>j \<in> {i}. (u, j) \<in> (edge (block_parent M ts))\<^sup>*) V = {#v \<in># {#v \<in># V. topo_Processing v ts#}. below par ht i v#}"
    unfolding filter_filter_mset using block_parent_below [OF assms]
    by (intro filter_mset_cong refl) (auto simp: topo_Processing_def valid_vote_def)
  then show ?thesis unfolding votes_for_def by (rule arg_cong)
qed

text \<open>
  C7. Early termination does not change what snowman sees. In every reachable state of the consensus, a poll
  with its thresholds over at most \<^verbatim>\<open>K\<close> validators can be asked whether it has finished. When it answers yes, then for
  every processing block, the votes that \<^verbatim>\<open>RecordPoll\<close> counts for it and its descendants reach
  \<^verbatim>\<open>AlphaPreference\<close> or \<^verbatim>\<open>AlphaConfidence\<close> with the answers received exactly if they do with any further answers
  of the validators that are still to respond.
\<close>

theorem snowman_poll_outcomes:
  assumes "block_law M par ht" and "no_errors M" and "unat h = ht g" and "topo_reach M factory params g h A ts"
    and "represents (p_votes p) V" and "represents (p_polled p) P" and "int (size V + size P) \<le> K params" and "\<forall>n. valid_ord (ords n)"
    and "p_alphaPreference p = AlphaPreference params" and "p_alphaConfidence p = AlphaConfidence params" and "\<not> p_finished p"
  defines "tally \<equiv> \<lambda>V i. int (size {#v \<in># {#v \<in># V. topo_Processing v ts#}. below par ht i v#})"
  shows "\<exists>b. poll_Finished ords (\<lambda>i. topo_GetParent M i ts) p = Some (p\<lparr>p_finished := b\<rparr>, b) \<and>
    (b \<longrightarrow> (\<forall>W i. size W \<le> size P \<and> topo_Processing i ts \<longrightarrow>
       (AlphaPreference params \<le> tally (V + W) i \<longleftrightarrow> AlphaPreference params \<le> tally V i) \<and>
       (AlphaConfidence params \<le> tally (V + W) i \<longleftrightarrow> AlphaConfidence params \<le> tally V i)))"
proof (intro exI conjI impI allI)
  have inv: "topo_ok M par ht ts" "ts_params ts = params" using topo_reach_inv [OF assms(1,3,2,4)] by (simp_all add: topo_inv_def)
  then have v: "params_Verify params = None" by (auto simp: topo_ok_def)
  let ?gp = "block_parent M ts"
  let ?b = "decided p ?gp V (size P)"
  note gp = block_parent_ok [OF inv(1)]
  show "poll_Finished ords ?gp p = Some (p\<lparr>p_finished := ?b\<rparr>, ?b)"
    by (rule poll_Finished_eq [OF gp assms(5,6) _ assms(11)]) (use assms(8) in simp)
  have al: "p_alphaPreference p \<le> p_alphaConfidence p" "int (size V + size P) < 2 * p_alphaPreference p"
    using v assms(7,9,10) verified_majority(2) [OF v] by (auto simp: params_Verify_def split: if_splits)
  fix W :: "ID multiset" and i
  assume b: ?b and W: "size W \<le> size P \<and> topo_Processing i ts"
  then have i: "valid_vote ts i" by (auto simp: topo_Processing_def valid_vote_def split: if_splits)
  have S: "{i} \<inter> voted ?gp V = {} \<or> {i} \<inter> voted ?gp V \<in> checked_sets ?gp (voted ?gp V)" by (auto simp: checked_sets_def)
  have t: "tally V i = int (votes_for ?gp V {i})" for V by (simp only: tally_def votes_for_block [OF inv(1) i])
  note stable = decided_stable [OF b conjunct1 [OF W] al S]
  show "AlphaPreference params \<le> tally (V + W) i \<longleftrightarrow> AlphaPreference params \<le> tally V i"
    using stable [of "AlphaPreference params"] assms(9) unfolding t by simp
  show "AlphaConfidence params \<le> tally (V + W) i \<longleftrightarrow> AlphaConfidence params \<le> tally V i"
    using stable [of "AlphaConfidence params"] assms(10) unfolding t by simp
qed

theorem snowman_poll_outcomes_witness:
  "\<exists>b. poll_Finished (\<lambda>_. sorted_list_of_set) (\<lambda>i. topo_GetParent fork_methods i fork) (poll_New 15 15 (bag_Of [[1]])) =
    Some ((poll_New 15 15 (bag_Of [[1]]))\<lparr>p_finished := b\<rparr>, b)"
proof -
  let ?p = "poll_New 15 15 (bag_Of [[1]])"
  have "represents (bag_Of [[1 :: byte]]) {#[1]#}" using represents_Add [OF represents_empty, of "[[1 :: byte]]"] by (simp add: bag_Of_def)
  then have "represents (p_votes ?p) {#}" "represents (p_polled ?p) {#[1]#}" "int (size {#} + size {#[1 :: byte]#}) \<le> K DefaultParameters"
    "p_alphaPreference ?p = AlphaPreference DefaultParameters" "p_alphaConfidence ?p = AlphaConfidence DefaultParameters" "\<not> p_finished ?p"
    by (simp_all add: poll_New_def DefaultParameters_def)
  from snowman_poll_outcomes [OF fork_law fork_reach this(1,2,3) sorted_ord this(4-6)] show ?thesis by blast
qed

end
