(* ===== verification/SafeMath.thy ===== *)
theory SafeMath
  imports Prelude
begin

text \<open>
  Checked unsigned arithmetic: pkg/utils/math/math_fixed.go. The Go functions are generic over
  the unsigned integer types, the model over the word length.
\<close>

section \<open>Model\<close>

definition ErrOverflow :: go_error where
  "ErrOverflow = Err ''overflow''"

definition ErrUnderflow :: go_error where
  "ErrUnderflow = Err ''underflow''"

definition MaxUint :: "'a::len word" where
  "MaxUint = NOT 0"

definition Add :: "'a::len word \<Rightarrow> 'a word \<Rightarrow> 'a word res" where
  "Add a b = (if a > MaxUint - b then Inl ErrOverflow else Inr (a + b))"

definition Sub :: "'a::len word \<Rightarrow> 'a word \<Rightarrow> 'a word res" where
  "Sub a b = (if a < b then Inl ErrUnderflow else Inr (a - b))"

definition Mul :: "'a::len word \<Rightarrow> 'a word \<Rightarrow> 'a word res" where
  "Mul a b = (if b \<noteq> 0 \<and> a > MaxUint div b then Inl ErrOverflow else Inr (a * b))"

definition AbsDiff :: "'a::len word \<Rightarrow> 'a word \<Rightarrow> 'a word" where
  "AbsDiff a b = (if a > b then a - b else b - a)"

section \<open>Exactness\<close>

lemma unat_bound: "unat (a :: 'a::len word) < 2 ^ LENGTH('a)"
  by simp

lemma unat_MaxUint: "Suc (unat (MaxUint :: 'a::len word)) = 2 ^ LENGTH('a)"
  by (simp add: MaxUint_def unsigned_minus_1_eq_mask mask_eq_exp_minus_1)

lemma unat_MaxUint_minus: "unat (MaxUint - b :: 'a::len word) = unat (MaxUint :: 'a word) - unat b"
proof -
  have "b \<le> MaxUint"
    by (simp add: MaxUint_def)
  then show ?thesis
    by (rule unat_sub)
qed

lemma Add_guard: "a > MaxUint - b \<longleftrightarrow> unat a + unat (b :: 'a::len word) \<ge> 2 ^ LENGTH('a)"
proof -
  have "unat b \<le> unat (MaxUint :: 'a word)"
    by (simp add: MaxUint_def flip: word_le_nat_alt)
  then show ?thesis
    by (auto simp: word_less_nat_alt unat_MaxUint_minus simp flip: unat_MaxUint)
qed

lemma Mul_guard:
  "b \<noteq> 0 \<and> a > MaxUint div b \<longleftrightarrow> unat a * unat (b :: 'a::len word) \<ge> 2 ^ LENGTH('a)"
proof (cases "b = 0")
  case True
  then show ?thesis by simp
next
  case False
  then have pos: "0 < unat b"
    by (simp add: unat_gt_0)
  have "a > MaxUint div b \<longleftrightarrow> unat (MaxUint :: 'a word) div unat b < unat a"
    by (simp add: word_less_nat_alt unat_div)
  also have "\<dots> \<longleftrightarrow> unat (MaxUint :: 'a word) < unat a * unat b"
    using pos by (simp add: div_less_iff_less_mult)
  also have "\<dots> \<longleftrightarrow> unat a * unat b \<ge> 2 ^ LENGTH('a)"
    by (auto simp flip: unat_MaxUint)
  finally show ?thesis using False by simp
qed

text \<open>
  Checked arithmetic is exact: \<^verbatim>\<open>Add\<close>, \<^verbatim>\<open>Sub\<close> and \<^verbatim>\<open>Mul\<close> return the mathematical
  sum, difference or product whenever it is representable in the word and the overflow or
  underflow error otherwise, and \<^verbatim>\<open>AbsDiff\<close> returns the distance without wrapping around.
\<close>

theorem checked_arithmetic_exact:
  fixes a b :: "'a::len word"
  shows "Add a b = (if unat a + unat b < 2 ^ LENGTH('a)
                    then Inr (word_of_nat (unat a + unat b)) else Inl ErrOverflow)
    \<and> Sub a b = (if unat b \<le> unat a
                    then Inr (word_of_nat (unat a - unat b)) else Inl ErrUnderflow)
    \<and> Mul a b = (if unat a * unat b < 2 ^ LENGTH('a)
                    then Inr (word_of_nat (unat a * unat b)) else Inl ErrOverflow)
    \<and> unat (AbsDiff a b) = (if unat b \<le> unat a then unat a - unat b else unat b - unat a)"
proof (intro conjI)
  show "Add a b = (if unat a + unat b < 2 ^ LENGTH('a)
                   then Inr (word_of_nat (unat a + unat b)) else Inl ErrOverflow)"
    by (auto simp: Add_def Add_guard)
  show "Sub a b = (if unat b \<le> unat a
                   then Inr (word_of_nat (unat a - unat b)) else Inl ErrUnderflow)"
    by (auto simp: Sub_def word_less_nat_alt of_nat_diff)
  show "Mul a b = (if unat a * unat b < 2 ^ LENGTH('a)
                   then Inr (word_of_nat (unat a * unat b)) else Inl ErrOverflow)"
    unfolding Mul_def Mul_guard by auto
  show "unat (AbsDiff a b) = (if unat b \<le> unat a then unat a - unat b else unat b - unat a)"
    by (auto simp: AbsDiff_def word_less_nat_alt unat_sub_if')
qed

end
