(* ===== verification/Validators.thy ===== *)
theory Validators
  imports SafeMath "HOL-Library.Monad_Syntax"
begin

text \<open>
  default/snow/validators/set.go and manager.go: the weighted validator sets of all subnets. A validator is an
  object that the map and the slice of its set both point to; pointers are indices into \<open>vs_objects\<close>.
  Accesses to a slice out of its range panic (None). Locks make every method atomic. Callback
  listeners have names, and each method returns the calls it makes to them, a call to a listener of the manager
  with the subnet. \<^verbatim>\<open>totalWeight\<close> is a \<^verbatim>\<open>big.Int\<close>. The listener slices of the manager and of its sets may share
  an array; they always have the same length and get the same listener appended, so they are lists here. Sampling
  is not modelled, and with it the flag \<^verbatim>\<open>samplerInitialized\<close>.
\<close>

section \<open>Model: a validator set\<close>

record 'k Validator =
  v_NodeID :: NodeID
  v_PublicKey :: 'k
  v_TxID :: ID
  v_Weight :: uint64
  v_index :: nat

datatype 'k event =
    OnValidatorAdded NodeID 'k ID uint64
  | OnValidatorRemoved NodeID uint64
  | OnValidatorWeightChanged NodeID uint64 uint64

type_synonym ('k, 'l) notice = "'l \<times> ID option \<times> 'k event"

record ('k, 'l) vdrSet =
  vs_subnetID :: ID
  vs_objects :: "'k Validator list"
  vs_vdrs :: "NodeID \<rightharpoonup> nat"
  vs_vdrSlice :: "nat list"
  vs_weights :: "uint64 list"
  vs_totalWeight :: int
  managerCallbackListeners :: "'l list"
  setCallbackListeners :: "'l list"

definition errDuplicateValidator :: go_error where
  "errDuplicateValidator = Err ''duplicate validator''"

definition errMissingValidator :: go_error where
  "errMissingValidator = Err ''missing validator''"

definition errTotalWeightNotUint64 :: go_error where
  "errTotalWeightNotUint64 = Err ''total weight is not a uint64''"

definition newSet :: "ID \<Rightarrow> 'l list \<Rightarrow> ('k, 'l) vdrSet" where
  "newSet subnetID callbackListeners =
     \<lparr>vs_subnetID = subnetID, vs_objects = [], vs_vdrs = Map.empty, vs_vdrSlice = [], vs_weights = [], vs_totalWeight = 0,
      managerCallbackListeners = callbackListeners, setCallbackListeners = []\<rparr>"

definition call_listeners :: "'k event \<Rightarrow> ('k, 'l) vdrSet \<Rightarrow> ('k, 'l) notice list" where
  "call_listeners e s = map (\<lambda>l. (l, Some (vs_subnetID s), e)) (managerCallbackListeners s) @ map (\<lambda>l. (l, None, e)) (setCallbackListeners s)"

definition callWeightChangeCallbacks :: "NodeID \<Rightarrow> uint64 \<Rightarrow> uint64 \<Rightarrow> ('k, 'l) vdrSet \<Rightarrow> ('k, 'l) notice list" where
  "callWeightChangeCallbacks node oldWeight newWeight s = call_listeners (OnValidatorWeightChanged node oldWeight newWeight) s"

definition callValidatorAddedCallbacks :: "NodeID \<Rightarrow> 'k \<Rightarrow> ID \<Rightarrow> uint64 \<Rightarrow> ('k, 'l) vdrSet \<Rightarrow> ('k, 'l) notice list" where
  "callValidatorAddedCallbacks node pk txID weight s = call_listeners (OnValidatorAdded node pk txID weight) s"

definition callValidatorRemovedCallbacks :: "NodeID \<Rightarrow> uint64 \<Rightarrow> ('k, 'l) vdrSet \<Rightarrow> ('k, 'l) notice list" where
  "callValidatorRemovedCallbacks node weight s = call_listeners (OnValidatorRemoved node weight) s"

type_synonym ('k, 'l) outcome = "(('k, 'l) vdrSet \<times> go_error option \<times> ('k, 'l) notice list) option"

definition vs_add :: "NodeID \<Rightarrow> 'k \<Rightarrow> ID \<Rightarrow> uint64 \<Rightarrow> ('k, 'l) vdrSet \<Rightarrow> ('k, 'l) outcome" where
  "vs_add nodeID pk txID weight s =
     (if vs_vdrs s nodeID \<noteq> None then Some (s, Some errDuplicateValidator, [])
      else let vdr = \<lparr>v_NodeID = nodeID, v_PublicKey = pk, v_TxID = txID, v_Weight = weight, v_index = length (vs_vdrSlice s)\<rparr>;
               r = length (vs_objects s);
               s = s\<lparr>vs_objects := vs_objects s @ [vdr]\<rparr>;
               s = s\<lparr>vs_vdrs := (vs_vdrs s)(nodeID \<mapsto> r), vs_vdrSlice := vs_vdrSlice s @ [r], vs_weights := vs_weights s @ [weight],
                     vs_totalWeight := vs_totalWeight s + uint weight\<rparr>
           in Some (s, None, callValidatorAddedCallbacks nodeID pk txID weight s))"

definition set_weight :: "nat \<Rightarrow> uint64 \<Rightarrow> ('k, 'l) vdrSet \<Rightarrow> ('k, 'l) vdrSet option" where
  "set_weight r weight s =
     (let i = v_index (vs_objects s ! r) in
      if i < length (vs_weights s)
      then Some (s\<lparr>vs_objects := (vs_objects s)[r := (vs_objects s ! r)\<lparr>v_Weight := weight\<rparr>],
                   vs_weights := (vs_weights s)[i := weight]\<rparr>)
      else None)"

definition vs_addWeight :: "NodeID \<Rightarrow> uint64 \<Rightarrow> ('k, 'l) vdrSet \<Rightarrow> ('k, 'l) outcome" where
  "vs_addWeight nodeID weight s =
     (case vs_vdrs s nodeID of
        None \<Rightarrow> Some (s, Some errMissingValidator, [])
      | Some r \<Rightarrow>
          let oldWeight = v_Weight (vs_objects s ! r) in
          case Add oldWeight weight of
            Inl err \<Rightarrow> Some (s, Some err, [])
          | Inr newWeight \<Rightarrow> do {
              s \<leftarrow> set_weight r newWeight s;
              let s = s\<lparr>vs_totalWeight := vs_totalWeight s + uint weight\<rparr>;
              Some (s, None, callWeightChangeCallbacks nodeID oldWeight (v_Weight (vs_objects s ! r)) s)
            })"

definition vs_getWeight :: "NodeID \<Rightarrow> ('k, 'l) vdrSet \<Rightarrow> uint64" where
  "vs_getWeight nodeID s = (case vs_vdrs s nodeID of None \<Rightarrow> 0 | Some r \<Rightarrow> v_Weight (vs_objects s ! r))"

text \<open>The nodes of the subset in the order of the range.\<close>

fun subset_sum :: "NodeID list \<Rightarrow> uint64 \<Rightarrow> ('k, 'l) vdrSet \<Rightarrow> uint64 res" where
  "subset_sum [] totalWeight s = Inr totalWeight"
| "subset_sum (nodeID # rest) totalWeight s =
     (case Add totalWeight (vs_getWeight nodeID s) of
        Inl err \<Rightarrow> Inl err
      | Inr totalWeight \<Rightarrow> subset_sum rest totalWeight s)"

definition vs_subsetWeight :: "(NodeID set \<Rightarrow> NodeID list) \<Rightarrow> NodeID set \<Rightarrow> ('k, 'l) vdrSet \<Rightarrow> uint64 res" where
  "vs_subsetWeight ord nodes s = subset_sum (ord nodes) 0 s"

text \<open>The last validator of the slice moves to the place of the removed one.\<close>

definition vs_remove :: "NodeID \<Rightarrow> nat \<Rightarrow> ('k, 'l) vdrSet \<Rightarrow> ('k, 'l) vdrSet option" where
  "vs_remove nodeID r s =
     (let lastIndex = length (vs_vdrSlice s) - 1;
          vdrToSwap = vs_vdrSlice s ! lastIndex;
          i = v_index (vs_objects s ! r)
      in if vs_vdrSlice s = [] \<or> i \<ge> length (vs_vdrSlice s) \<or> i \<ge> length (vs_weights s) \<or> lastIndex > length (vs_weights s) then None
         else let s = s\<lparr>vs_objects := (vs_objects s)[vdrToSwap := (vs_objects s ! vdrToSwap)\<lparr>v_index := i\<rparr>]\<rparr>;
                  s = s\<lparr>vs_vdrSlice := (vs_vdrSlice s)[i := vdrToSwap],
                        vs_weights := (vs_weights s)[i := v_Weight (vs_objects s ! vdrToSwap)]\<rparr>
              in Some (s\<lparr>vs_vdrs := (vs_vdrs s)(nodeID := None), vs_vdrSlice := take lastIndex (vs_vdrSlice s),
                         vs_weights := take lastIndex (vs_weights s)\<rparr>))"

definition vs_removeWeight :: "NodeID \<Rightarrow> uint64 \<Rightarrow> ('k, 'l) vdrSet \<Rightarrow> ('k, 'l) outcome" where
  "vs_removeWeight nodeID weight s =
     (case vs_vdrs s nodeID of
        None \<Rightarrow> Some (s, Some errMissingValidator, [])
      | Some r \<Rightarrow>
          let oldWeight = v_Weight (vs_objects s ! r) in
          case Sub oldWeight weight of
            Inl err \<Rightarrow> Some (s, Some err, [])
          | Inr newWeight \<Rightarrow>
              if newWeight = 0 then do {
                s \<leftarrow> vs_remove nodeID r s;
                let calls = callValidatorRemovedCallbacks nodeID oldWeight s;
                Some (s\<lparr>vs_totalWeight := vs_totalWeight s - uint weight\<rparr>, None, calls)
              }
              else do {
                s \<leftarrow> set_weight r newWeight s;
                let calls = callWeightChangeCallbacks nodeID oldWeight newWeight s;
                Some (s\<lparr>vs_totalWeight := vs_totalWeight s - uint weight\<rparr>, None, calls)
              })"

definition vs_get :: "NodeID \<Rightarrow> ('k, 'l) vdrSet \<Rightarrow> 'k Validator option" where
  "vs_get nodeID s = map_option (\<lambda>r. vs_objects s ! r) (vs_vdrs s nodeID)"

definition vs_len :: "('k, 'l) vdrSet \<Rightarrow> nat" where
  "vs_len s = length (vs_vdrSlice s)"

definition HasCallbackRegistered :: "('k, 'l) vdrSet \<Rightarrow> bool" where
  "HasCallbackRegistered s \<longleftrightarrow> length (setCallbackListeners s) > 0"

definition vs_Map :: "('k, 'l) vdrSet \<Rightarrow> NodeID \<rightharpoonup> NodeID \<times> 'k \<times> uint64" where
  "vs_Map s = foldl (\<lambda>m r. let vdr = vs_objects s ! r in m(v_NodeID vdr \<mapsto> (v_NodeID vdr, v_PublicKey vdr, v_Weight vdr))) Map.empty (vs_vdrSlice s)"

definition vs_TotalWeight :: "('k, 'l) vdrSet \<Rightarrow> uint64 res" where
  "vs_TotalWeight s =
     (if \<not> (0 \<le> vs_totalWeight s \<and> vs_totalWeight s < 2 ^ 64) then Inl errTotalWeightNotUint64
      else Inr (word_of_int (vs_totalWeight s)))"

definition added_calls :: "'l \<Rightarrow> ID option \<Rightarrow> ('k, 'l) vdrSet \<Rightarrow> ('k, 'l) notice list" where
  "added_calls l sub s = map (\<lambda>r. let vdr = vs_objects s ! r in
     (l, sub, OnValidatorAdded (v_NodeID vdr) (v_PublicKey vdr) (v_TxID vdr) (v_Weight vdr))) (vs_vdrSlice s)"

definition RegisterManagerCallbackListener :: "'l \<Rightarrow> ('k, 'l) vdrSet \<Rightarrow> ('k, 'l) vdrSet \<times> ('k, 'l) notice list" where
  "RegisterManagerCallbackListener l s =
     (s\<lparr>managerCallbackListeners := managerCallbackListeners s @ [l]\<rparr>, added_calls l (Some (vs_subnetID s)) s)"

definition RegisterCallbackListener :: "'l \<Rightarrow> ('k, 'l) vdrSet \<Rightarrow> ('k, 'l) vdrSet \<times> ('k, 'l) notice list" where
  "RegisterCallbackListener l s = (s\<lparr>setCallbackListeners := setCallbackListeners s @ [l]\<rparr>, added_calls l None s)"

definition vs_GetValidatorIDs :: "('k, 'l) vdrSet \<Rightarrow> NodeID list" where
  "vs_GetValidatorIDs s = map (\<lambda>r. v_NodeID (vs_objects s ! r)) (vs_vdrSlice s)"

section \<open>Model: the manager\<close>

record ('k, 'l) manager =
  subnetToVdrs :: "ID \<rightharpoonup> ('k, 'l) vdrSet"
  callbackListeners :: "'l list"

definition ErrZeroWeight :: go_error where
  "ErrZeroWeight = Err ''weight must be non-zero''"

definition NewManager :: "('k, 'l) manager" where
  "NewManager = \<lparr>subnetToVdrs = Map.empty, callbackListeners = []\<rparr>"

definition with_set :: "ID \<Rightarrow> ('k, 'l) outcome \<Rightarrow> ('k, 'l) manager \<Rightarrow> (('k, 'l) manager \<times> go_error option \<times> ('k, 'l) notice list) option" where
  "with_set subnetID r m = map_option (\<lambda>(s, err, calls). (m\<lparr>subnetToVdrs := (subnetToVdrs m)(subnetID \<mapsto> s)\<rparr>, err, calls)) r"

definition AddStaker :: "ID \<Rightarrow> NodeID \<Rightarrow> 'k \<Rightarrow> ID \<Rightarrow> uint64 \<Rightarrow> ('k, 'l) manager \<Rightarrow> (('k, 'l) manager \<times> go_error option \<times> ('k, 'l) notice list) option" where
  "AddStaker subnetID nodeID pk txID weight m =
     (if weight = 0 then Some (m, Some ErrZeroWeight, [])
      else let s = (case subnetToVdrs m subnetID of None \<Rightarrow> newSet subnetID (callbackListeners m) | Some s \<Rightarrow> s)
           in with_set subnetID (vs_add nodeID pk txID weight s) m)"

definition AddWeight :: "ID \<Rightarrow> NodeID \<Rightarrow> uint64 \<Rightarrow> ('k, 'l) manager \<Rightarrow> (('k, 'l) manager \<times> go_error option \<times> ('k, 'l) notice list) option" where
  "AddWeight subnetID nodeID weight m =
     (if weight = 0 then Some (m, Some ErrZeroWeight, [])
      else case subnetToVdrs m subnetID of
        None \<Rightarrow> Some (m, Some errMissingValidator, [])
      | Some s \<Rightarrow> with_set subnetID (vs_addWeight nodeID weight s) m)"

definition RemoveWeight :: "ID \<Rightarrow> NodeID \<Rightarrow> uint64 \<Rightarrow> ('k, 'l) manager \<Rightarrow> (('k, 'l) manager \<times> go_error option \<times> ('k, 'l) notice list) option" where
  "RemoveWeight subnetID nodeID weight m =
     (if weight = 0 then Some (m, Some ErrZeroWeight, [])
      else case subnetToVdrs m subnetID of
        None \<Rightarrow> Some (m, Some errMissingValidator, [])
      | Some s \<Rightarrow> do {
          (s, err, calls) \<leftarrow> vs_removeWeight nodeID weight s;
          let m = m\<lparr>subnetToVdrs := (subnetToVdrs m)(subnetID \<mapsto> s)\<rparr>;
          if err \<noteq> None then Some (m, err, calls)
          else if vs_len s = 0 \<and> \<not> HasCallbackRegistered s
            then Some (m\<lparr>subnetToVdrs := (subnetToVdrs m)(subnetID := None)\<rparr>, None, calls)
          else Some (m, None, calls)
        })"

definition GetWeight :: "ID \<Rightarrow> NodeID \<Rightarrow> ('k, 'l) manager \<Rightarrow> uint64" where
  "GetWeight subnetID nodeID m = (case subnetToVdrs m subnetID of None \<Rightarrow> 0 | Some s \<Rightarrow> vs_getWeight nodeID s)"

definition GetValidator :: "ID \<Rightarrow> NodeID \<Rightarrow> ('k, 'l) manager \<Rightarrow> 'k Validator option" where
  "GetValidator subnetID nodeID m = (case subnetToVdrs m subnetID of None \<Rightarrow> None | Some s \<Rightarrow> vs_get nodeID s)"

definition SubsetWeight :: "(NodeID set \<Rightarrow> NodeID list) \<Rightarrow> ID \<Rightarrow> NodeID set \<Rightarrow> ('k, 'l) manager \<Rightarrow> uint64 res" where
  "SubsetWeight ord subnetID validatorIDs m =
     (case subnetToVdrs m subnetID of None \<Rightarrow> Inr 0 | Some s \<Rightarrow> vs_subsetWeight ord validatorIDs s)"

definition NumSubnets :: "('k, 'l) manager \<Rightarrow> nat" where
  "NumSubnets m = card (dom (subnetToVdrs m))"

definition NumValidators :: "ID \<Rightarrow> ('k, 'l) manager \<Rightarrow> nat" where
  "NumValidators subnetID m = (case subnetToVdrs m subnetID of None \<Rightarrow> 0 | Some s \<Rightarrow> vs_len s)"

definition TotalWeight :: "ID \<Rightarrow> ('k, 'l) manager \<Rightarrow> uint64 res" where
  "TotalWeight subnetID m = (case subnetToVdrs m subnetID of None \<Rightarrow> Inr 0 | Some s \<Rightarrow> vs_TotalWeight s)"

definition GetMap :: "ID \<Rightarrow> ('k, 'l) manager \<Rightarrow> NodeID \<rightharpoonup> NodeID \<times> 'k \<times> uint64" where
  "GetMap subnetID m = (case subnetToVdrs m subnetID of None \<Rightarrow> Map.empty | Some s \<Rightarrow> vs_Map s)"

definition GetValidatorIDs :: "ID \<Rightarrow> ('k, 'l) manager \<Rightarrow> NodeID list" where
  "GetValidatorIDs subnetID m = (case subnetToVdrs m subnetID of None \<Rightarrow> [] | Some s \<Rightarrow> vs_GetValidatorIDs s)"

text \<open>\<open>subs\<close> are the subnets in the order of the range over the map.\<close>

fun register_all :: "'l \<Rightarrow> ID list \<Rightarrow> (ID \<rightharpoonup> ('k, 'l) vdrSet) \<Rightarrow> (ID \<rightharpoonup> ('k, 'l) vdrSet) \<times> ('k, 'l) notice list" where
  "register_all l [] sets = (sets, [])"
| "register_all l (subnetID # subs) sets =
     (case sets subnetID of
        None \<Rightarrow> register_all l subs sets
      | Some s \<Rightarrow>
          let (s, calls) = RegisterManagerCallbackListener l s;
              (sets, more) = register_all l subs (sets(subnetID \<mapsto> s))
          in (sets, calls @ more))"

definition m_RegisterCallbackListener :: "(ID set \<Rightarrow> ID list) \<Rightarrow> 'l \<Rightarrow> ('k, 'l) manager \<Rightarrow> ('k, 'l) manager \<times> ('k, 'l) notice list" where
  "m_RegisterCallbackListener ord listener m =
     (let m = m\<lparr>callbackListeners := callbackListeners m @ [listener]\<rparr>;
          (sets, calls) = register_all listener (ord (dom (subnetToVdrs m))) (subnetToVdrs m)
      in (m\<lparr>subnetToVdrs := sets\<rparr>, calls))"

definition RegisterSetCallbackListener :: "ID \<Rightarrow> 'l \<Rightarrow> ('k, 'l) manager \<Rightarrow> ('k, 'l) manager \<times> ('k, 'l) notice list" where
  "RegisterSetCallbackListener subnetID listener m =
     (let s = (case subnetToVdrs m subnetID of None \<Rightarrow> newSet subnetID (callbackListeners m) | Some s \<Rightarrow> s);
          (s, calls) = RegisterCallbackListener listener s
      in (m\<lparr>subnetToVdrs := (subnetToVdrs m)(subnetID \<mapsto> s)\<rparr>, calls))"

section \<open>The invariant of a set\<close>

definition vs_ok :: "('k, 'l) vdrSet \<Rightarrow> bool" where
  "vs_ok s \<longleftrightarrow> distinct (vs_vdrSlice s) \<and> (\<forall>r \<in> set (vs_vdrSlice s). r < length (vs_objects s)) \<and>
     vs_weights s = map (\<lambda>r. v_Weight (vs_objects s ! r)) (vs_vdrSlice s) \<and>
     (\<forall>i < length (vs_vdrSlice s). v_index (vs_objects s ! (vs_vdrSlice s ! i)) = i) \<and>
     (\<forall>n r. vs_vdrs s n = Some r \<longleftrightarrow> r \<in> set (vs_vdrSlice s) \<and> v_NodeID (vs_objects s ! r) = n) \<and>
     vs_totalWeight s = (\<Sum>r \<in> set (vs_vdrSlice s). uint (v_Weight (vs_objects s ! r)))"

text \<open>What the set says about its validators: public key, transaction and weight.\<close>

type_synonym 'k vdrs = "NodeID \<rightharpoonup> 'k \<times> ID \<times> uint64"

definition info :: "('k, 'l) vdrSet \<Rightarrow> 'k vdrs" where
  "info s n = map_option (\<lambda>r. let v = vs_objects s ! r in (v_PublicKey v, v_TxID v, v_Weight v)) (vs_vdrs s n)"

definition weight_of :: "'k vdrs \<Rightarrow> NodeID \<Rightarrow> uint64" where
  "weight_of m n = (case m n of None \<Rightarrow> 0 | Some (_, _, w) \<Rightarrow> w)"

definition set_to :: "'k vdrs \<Rightarrow> NodeID \<Rightarrow> uint64 \<Rightarrow> 'k vdrs" where
  "set_to m n w = (case m n of None \<Rightarrow> m | Some (pk, tx, _) \<Rightarrow> m(n \<mapsto> (pk, tx, w)))"

lemma vs_okD:
  assumes "vs_ok s"
  shows "distinct (vs_vdrSlice s)" "r \<in> set (vs_vdrSlice s) \<Longrightarrow> r < length (vs_objects s)"
    "vs_weights s = map (\<lambda>r. v_Weight (vs_objects s ! r)) (vs_vdrSlice s)"
    "vs_vdrs s n = Some r \<longleftrightarrow> r \<in> set (vs_vdrSlice s) \<and> v_NodeID (vs_objects s ! r) = n"
    "vs_totalWeight s = (\<Sum>r \<in> set (vs_vdrSlice s). uint (v_Weight (vs_objects s ! r)))"
  using assms by (auto simp: vs_ok_def)

lemma vs_ok_index:
  assumes "vs_ok s" "r \<in> set (vs_vdrSlice s)"
  shows "v_index (vs_objects s ! r) < length (vs_vdrSlice s)" "vs_vdrSlice s ! v_index (vs_objects s ! r) = r"
proof -
  from assms(2) obtain i where i: "i < length (vs_vdrSlice s)" "vs_vdrSlice s ! i = r" by (auto simp: in_set_conv_nth)
  with assms(1) have "v_index (vs_objects s ! r) = i" by (auto simp: vs_ok_def)
  with i show "v_index (vs_objects s ! r) < length (vs_vdrSlice s)" "vs_vdrSlice s ! v_index (vs_objects s ! r) = r" by simp_all
qed

lemma vs_ok_index_nth: "vs_ok s \<Longrightarrow> i < length (vs_vdrSlice s) \<Longrightarrow> v_index (vs_objects s ! (vs_vdrSlice s ! i)) = i"
  by (simp add: vs_ok_def)

lemma vs_ok_newSet [simp]: "vs_ok (newSet sub ls)" "info (newSet sub ls) = Map.empty"
  by (auto simp: vs_ok_def newSet_def info_def)

lemma vs_getWeight_info: "vs_getWeight n s = weight_of (info s) n"
  by (simp add: vs_getWeight_def info_def weight_of_def Let_def split: option.splits)

lemma vs_add_ok:
  assumes ok: "vs_ok s" and n: "vs_vdrs s n = None"
  shows "\<exists>s'. vs_add n pk tx w s = Some (s', None, callValidatorAddedCallbacks n pk tx w s) \<and> vs_ok s' \<and> info s' = (info s)(n \<mapsto> (pk, tx, w)) \<and>
    vs_subnetID s' = vs_subnetID s \<and> managerCallbackListeners s' = managerCallbackListeners s \<and> setCallbackListeners s' = setCallbackListeners s"
proof -
  let ?vdr = "\<lparr>v_NodeID = n, v_PublicKey = pk, v_TxID = tx, v_Weight = w, v_index = length (vs_vdrSlice s)\<rparr>"
  let ?r = "length (vs_objects s)"
  define s' where "s' = s\<lparr>vs_objects := vs_objects s @ [?vdr], vs_vdrs := (vs_vdrs s)(n \<mapsto> ?r), vs_vdrSlice := vs_vdrSlice s @ [?r],
    vs_weights := vs_weights s @ [w], vs_totalWeight := vs_totalWeight s + uint w\<rparr>"
  note D = vs_okD [OF ok]
  have fresh: "?r \<notin> set (vs_vdrSlice s)" using D(2) by blast
  have old: "(vs_objects s @ [?vdr]) ! r = vs_objects s ! r" if "r \<in> set (vs_vdrSlice s)" for r using D(2) [OF that] by (simp add: nth_append)
  have new: "(vs_objects s @ [?vdr]) ! ?r = ?vdr" by simp
  have "vs_vdrs s' n' = Some r \<longleftrightarrow> r \<in> set (vs_vdrSlice s') \<and> v_NodeID (vs_objects s' ! r) = n'" for n' r
    using D(4) [of n' r] D(4) [of n r] n fresh old [of r] by (cases "r = ?r") (auto simp: s'_def)
  moreover have "v_index (vs_objects s' ! (vs_vdrSlice s' ! i)) = i" if "i < length (vs_vdrSlice s')" for i
    using that old [OF nth_mem, of i] vs_ok_index_nth [OF ok, of i] by (cases "i < length (vs_vdrSlice s)") (auto simp: s'_def nth_append)
  moreover have "vs_totalWeight s' = (\<Sum>r \<in> set (vs_vdrSlice s'). uint (v_Weight (vs_objects s' ! r)))"
    using D(5) fresh old by (simp add: s'_def)
  moreover have "vs_weights s' = map (\<lambda>r. v_Weight (vs_objects s' ! r)) (vs_vdrSlice s')" using D(3) old by (simp add: s'_def)
  moreover have "distinct (vs_vdrSlice s')" "\<forall>r \<in> set (vs_vdrSlice s'). r < length (vs_objects s')"
    using D(1,2) fresh by (auto simp: s'_def less_Suc_eq)
  ultimately have "vs_ok s'" unfolding vs_ok_def by blast
  moreover have "info s' = (info s)(n \<mapsto> (pk, tx, w))"
  proof
    fix n'
    show "info s' n' = ((info s)(n \<mapsto> (pk, tx, w))) n'"
    proof (cases "vs_vdrs s n'")
      case (Some q)
      then have "(vs_objects s @ [?vdr]) ! q = vs_objects s ! q" "n' \<noteq> n" using D(4) [of n' q] old n by auto
      with Some show ?thesis by (simp add: info_def s'_def)
    qed (auto simp: info_def s'_def)
  qed
  moreover have "vs_add n pk tx w s = Some (s', None, callValidatorAddedCallbacks n pk tx w s)"
    using n by (simp add: vs_add_def s'_def Let_def callValidatorAddedCallbacks_def call_listeners_def)
  ultimately show ?thesis by (auto simp: s'_def)
qed

lemma set_weight_ok:
  assumes ok: "vs_ok s" and r: "vs_vdrs s n = Some r"
  shows "\<exists>s'. set_weight r w s = Some s' \<and> vs_objects s' ! r = (vs_objects s ! r)\<lparr>v_Weight := w\<rparr> \<and>
    vs_ok (s'\<lparr>vs_totalWeight := vs_totalWeight s - uint (v_Weight (vs_objects s ! r)) + uint w\<rparr>) \<and>
    info s' = set_to (info s) n w \<and> vs_totalWeight s' = vs_totalWeight s \<and> vs_vdrs s' = vs_vdrs s \<and> vs_vdrSlice s' = vs_vdrSlice s \<and>
    vs_subnetID s' = vs_subnetID s \<and> managerCallbackListeners s' = managerCallbackListeners s \<and> setCallbackListeners s' = setCallbackListeners s"
proof -
  note D = vs_okD [OF ok]
  have rs: "r \<in> set (vs_vdrSlice s)" "v_NodeID (vs_objects s ! r) = n" using D(4) r by auto
  have rl: "r < length (vs_objects s)" by (rule D(2) [OF rs(1)])
  let ?i = "v_index (vs_objects s ! r)"
  note i = vs_ok_index [OF ok rs(1)]
  define v where "v = (vs_objects s ! r)\<lparr>v_Weight := w\<rparr>"
  define s' where "s' = s\<lparr>vs_objects := (vs_objects s)[r := v], vs_weights := (vs_weights s)[?i := w]\<rparr>"
  have obj: "(vs_objects s)[r := v] ! q = (if q = r then v else vs_objects s ! q)" for q using rl by (auto simp: nth_list_update)
  have "(vs_weights s)[?i := w] = map (\<lambda>q. v_Weight ((vs_objects s)[r := v] ! q)) (vs_vdrSlice s)"
  proof (rule nth_equalityI)
    show "length ((vs_weights s)[?i := w]) = length (map (\<lambda>q. v_Weight ((vs_objects s)[r := v] ! q)) (vs_vdrSlice s))" using D(3) by simp
    fix j assume "j < length ((vs_weights s)[?i := w])"
    then have j: "j < length (vs_vdrSlice s)" using D(3) by simp
    have "vs_vdrSlice s ! j = r \<longleftrightarrow> j = ?i" using i j D(1) nth_eq_iff_index_eq by metis
    then show "(vs_weights s)[?i := w] ! j = map (\<lambda>q. v_Weight ((vs_objects s)[r := v] ! q)) (vs_vdrSlice s) ! j"
      using j i(1) D(3) by (cases "j = ?i") (simp_all add: obj i(2), simp add: v_def)
  qed
  moreover have "(\<Sum>q \<in> set (vs_vdrSlice s). uint (v_Weight ((vs_objects s)[r := v] ! q))) =
      vs_totalWeight s - uint (v_Weight (vs_objects s ! r)) + uint w"
    unfolding D(5) obj using rs(1) by (simp add: sum.remove v_def)
  moreover have "v_index ((vs_objects s)[r := v] ! (vs_vdrSlice s ! j)) = j" if "j < length (vs_vdrSlice s)" for j
    using vs_ok_index_nth [OF ok that] unfolding obj by (auto simp: v_def)
  moreover have "vs_vdrs s n' = Some q \<longleftrightarrow> q \<in> set (vs_vdrSlice s) \<and> v_NodeID ((vs_objects s)[r := v] ! q) = n'" for n' q
    using D(4) [of n' q] unfolding obj by (auto simp: v_def)
  ultimately have "vs_ok (s'\<lparr>vs_totalWeight := vs_totalWeight s - uint (v_Weight (vs_objects s ! r)) + uint w\<rparr>)"
    using D(1,2) unfolding vs_ok_def s'_def by simp
  moreover have "info s' = set_to (info s) n w"
  proof
    fix n'
    have "vs_vdrs s n' = Some r \<longleftrightarrow> n' = n" using D(4) [of n' r] rs by auto
    then show "info s' n' = set_to (info s) n w n'" 
      using r by (cases "vs_vdrs s n'") (simp_all add: info_def set_to_def s'_def obj, auto simp: v_def info_def Let_def)
  qed
  moreover have "set_weight r w s = Some s'" using i(1) D(3) by (simp add: set_weight_def s'_def v_def Let_def)
  moreover have "vs_objects s' ! r = v" using rl by (simp add: s'_def)
  ultimately show ?thesis by (auto simp: s'_def v_def)
qed

text \<open>Removing the element at \<open>i\<close> by moving the last one there.\<close>

lemma swap_remove:
  assumes "distinct xs" "i < length xs"
  defines "ys \<equiv> take (length xs - 1) (xs[i := xs ! (length xs - 1)])"
  shows "set ys = set xs - {xs ! i}" "distinct ys" "length ys = length xs - 1"
    "j < length ys \<Longrightarrow> ys ! j = (if j = i then xs ! (length xs - 1) else xs ! j)"
proof -
  show len: "length ys = length xs - 1" by (simp add: ys_def)
  show nth: "ys ! j = (if j = i then xs ! (length xs - 1) else xs ! j)" if "j < length ys" for j
    using that assms(2) by (auto simp: ys_def nth_list_update)
  have inj: "xs ! a = xs ! b \<longleftrightarrow> a = b" if "a < length xs" "b < length xs" for a b using assms(1) that nth_eq_iff_index_eq by blast
  show "distinct ys"
    unfolding distinct_conv_nth
  proof (intro allI impI)
    fix a b assume ab: "a < length ys" "b < length ys" "a \<noteq> b"
    then show "ys ! a \<noteq> ys ! b" unfolding nth [OF ab(1)] nth [OF ab(2)] using inj len assms(2) by auto
  qed
  show "set ys = set xs - {xs ! i}"
  proof (intro equalityI subsetI)
    fix x assume "x \<in> set ys"
    then obtain j where "j < length ys" "x = ys ! j" by (auto simp: in_set_conv_nth)
    then show "x \<in> set xs - {xs ! i}" using nth [of j] inj len assms(2) by (auto split: if_splits)
  next
    fix x assume "x \<in> set xs - {xs ! i}"
    then obtain j where j: "j < length xs" "x = xs ! j" "j \<noteq> i" by (auto simp: in_set_conv_nth)
    show "x \<in> set ys"
    proof (cases "j = length xs - 1")
      case True
      then have "i < length ys" "ys ! i = x" using j assms(2) len nth [of i] by auto
      then show ?thesis by (metis nth_mem)
    next
      case False
      then have "j < length ys" "ys ! j = x" using j len nth [of j] by auto
      then show ?thesis by (metis nth_mem)
    qed
  qed
qed

lemma vs_remove_ok:
  assumes ok: "vs_ok s" and r: "vs_vdrs s n = Some r"
  shows "\<exists>s'. vs_remove n r s = Some s' \<and> vs_ok (s'\<lparr>vs_totalWeight := vs_totalWeight s - uint (v_Weight (vs_objects s ! r))\<rparr>) \<and>
    info s' = (info s)(n := None) \<and> vs_totalWeight s' = vs_totalWeight s \<and>
    vs_subnetID s' = vs_subnetID s \<and> managerCallbackListeners s' = managerCallbackListeners s \<and> setCallbackListeners s' = setCallbackListeners s"
proof -
  note D = vs_okD [OF ok]
  have rs: "r \<in> set (vs_vdrSlice s)" "v_NodeID (vs_objects s ! r) = n" using D(4) r by auto
  define i where "i = v_index (vs_objects s ! r)"
  define k where "k = length (vs_vdrSlice s) - 1"
  define z where "z = vs_vdrSlice s ! k"
  define objs where "objs = (vs_objects s)[z := (vs_objects s ! z)\<lparr>v_index := i\<rparr>]"
  define sl where "sl = take k ((vs_vdrSlice s)[i := z])"
  have i: "i < length (vs_vdrSlice s)" "vs_vdrSlice s ! i = r" using vs_ok_index [OF ok rs(1)] by (simp_all add: i_def)
  then have k: "k < length (vs_vdrSlice s)" by (simp add: k_def)
  then have z: "z \<in> set (vs_vdrSlice s)" "z < length (vs_objects s)" using D(2) by (simp_all add: z_def)
  note sw = swap_remove [OF D(1) i(1), folded k_def, folded z_def, folded sl_def]
  have obj: "objs ! q = (if q = z then (vs_objects s ! z)\<lparr>v_index := i\<rparr> else vs_objects s ! q)" for q
    using z(2) by (auto simp: objs_def nth_list_update)
  then have same: "v_NodeID (objs ! q) = v_NodeID (vs_objects s ! q)" "v_Weight (objs ! q) = v_Weight (vs_objects s ! q)"
    "v_PublicKey (objs ! q) = v_PublicKey (vs_objects s ! q)" "v_TxID (objs ! q) = v_TxID (vs_objects s ! q)" for q by simp_all
  define s' where "s' = s\<lparr>vs_objects := objs, vs_vdrs := (vs_vdrs s)(n := None), vs_vdrSlice := sl,
    vs_weights := take k ((vs_weights s)[i := v_Weight (objs ! z)])\<rparr>"
  have "take k ((vs_weights s)[i := v_Weight (objs ! z)]) = map (\<lambda>q. v_Weight (objs ! q)) sl"
    unfolding D(3) sl_def same by (simp only: take_map [symmetric] map_update)
  moreover have "v_index (objs ! (sl ! j)) = j" if "j < length sl" for j
  proof (cases "j = i")
    case True
    then show ?thesis using sw(4) [OF that] by (simp add: obj)
  next
    case False
    then have j: "sl ! j = vs_vdrSlice s ! j" "j < k" using sw(4) [OF that] that sw(3) by (simp_all add: k_def)
    then have "sl ! j \<noteq> z" using D(1) k nth_eq_iff_index_eq [of "vs_vdrSlice s" j k] by (simp add: z_def)
    then show ?thesis using vs_ok_index_nth [OF ok, of j] j k by (simp add: obj)
  qed
  moreover have "((vs_vdrs s)(n := None)) n' = Some q \<longleftrightarrow> q \<in> set sl \<and> v_NodeID (objs ! q) = n'" for n' q
  proof -
    have "q \<in> set sl \<longleftrightarrow> q \<in> set (vs_vdrSlice s) \<and> q \<noteq> r" using sw(1) i(2) by auto
    then show ?thesis using D(4) [of n' q] D(4) [of n q] r by (auto simp: same)
  qed
  moreover have "vs_totalWeight s - uint (v_Weight (vs_objects s ! r)) = (\<Sum>q \<in> set sl. uint (v_Weight (objs ! q)))"
    unfolding D(5) same sw(1) i(2) using rs(1) by (simp add: sum.remove)
  moreover have "\<forall>q \<in> set sl. q < length objs" using D(2) sw(1) by (auto simp: objs_def)
  ultimately have "vs_ok (s'\<lparr>vs_totalWeight := vs_totalWeight s - uint (v_Weight (vs_objects s ! r))\<rparr>)"
    using sw(2) unfolding vs_ok_def s'_def by simp
  moreover have "info s' = (info s)(n := None)" by (rule ext) (simp add: info_def s'_def same Let_def)
  moreover have "vs_remove n r s = Some s'"
  proof -
    have "vs_vdrSlice s \<noteq> []" "length (vs_weights s) = length (vs_vdrSlice s)" using rs(1) D(3) by auto
    then show ?thesis using i(1) k unfolding vs_remove_def Let_def k_def [symmetric] z_def [symmetric] i_def [symmetric]
      by (simp add: s'_def objs_def sl_def)
  qed
  ultimately show ?thesis by (auto simp: s'_def)
qed

section \<open>Specification of the operations on a set\<close>

text \<open>The new validators, the error and the event that the listeners are told.\<close>

type_synonym 'k spec = "'k vdrs \<times> go_error option \<times> 'k event option"

definition spec_add :: "NodeID \<Rightarrow> 'k \<Rightarrow> ID \<Rightarrow> uint64 \<Rightarrow> 'k vdrs \<Rightarrow> 'k spec" where
  "spec_add n pk tx w m =
     (if m n \<noteq> None then (m, Some errDuplicateValidator, None)
      else (m(n \<mapsto> (pk, tx, w)), None, Some (OnValidatorAdded n pk tx w)))"

definition spec_addWeight :: "NodeID \<Rightarrow> uint64 \<Rightarrow> 'k vdrs \<Rightarrow> 'k spec" where
  "spec_addWeight n w m =
     (case m n of
        None \<Rightarrow> (m, Some errMissingValidator, None)
      | Some (pk, tx, old) \<Rightarrow>
          if 2 ^ 64 \<le> unat old + unat w then (m, Some ErrOverflow, None)
          else (m(n \<mapsto> (pk, tx, old + w)), None, Some (OnValidatorWeightChanged n old (old + w))))"

definition spec_removeWeight :: "NodeID \<Rightarrow> uint64 \<Rightarrow> 'k vdrs \<Rightarrow> 'k spec" where
  "spec_removeWeight n w m =
     (case m n of
        None \<Rightarrow> (m, Some errMissingValidator, None)
      | Some (pk, tx, old) \<Rightarrow>
          if old < w then (m, Some ErrUnderflow, None)
          else if old = w then (m(n := None), None, Some (OnValidatorRemoved n old))
          else (m(n \<mapsto> (pk, tx, old - w)), None, Some (OnValidatorWeightChanged n old (old - w))))"

definition notices :: "('k, 'l) vdrSet \<Rightarrow> 'k event option \<Rightarrow> ('k, 'l) notice list" where
  "notices s e = (case e of None \<Rightarrow> [] | Some e \<Rightarrow> call_listeners e s)"

definition same_listeners :: "('k, 'l) vdrSet \<Rightarrow> ('k, 'l) vdrSet \<Rightarrow> bool" where
  "same_listeners s s' \<longleftrightarrow> vs_subnetID s' = vs_subnetID s \<and> managerCallbackListeners s' = managerCallbackListeners s \<and>
     setCallbackListeners s' = setCallbackListeners s"

definition implements :: "('k, 'l) vdrSet \<Rightarrow> ('k, 'l) outcome \<Rightarrow> 'k spec \<Rightarrow> bool" where
  "implements s r sp \<longleftrightarrow> (\<exists>s'. r = Some (s', fst (snd sp), notices s (snd (snd sp))) \<and> vs_ok s' \<and> info s' = fst sp \<and> same_listeners s s')"

lemma same_listeners_refl [simp]: "same_listeners s s"
  by (simp add: same_listeners_def)

lemma call_listeners_cong: "same_listeners s s' \<Longrightarrow> call_listeners e s' = call_listeners e s"
  by (simp add: same_listeners_def call_listeners_def)

lemma info_None: "info s n = None \<longleftrightarrow> vs_vdrs s n = None"
  by (simp add: info_def)

lemma info_total [simp]: "info (s\<lparr>vs_totalWeight := t\<rparr>) = info s"
  by (simp add: info_def fun_eq_iff)

lemma info_Some: "vs_vdrs s n = Some r \<Longrightarrow> info s n = Some (v_PublicKey (vs_objects s ! r), v_TxID (vs_objects s ! r), v_Weight (vs_objects s ! r))"
  by (simp add: info_def Let_def)

lemma vs_add_implements:
  assumes "vs_ok s"
  shows "implements s (vs_add n pk tx w s) (spec_add n pk tx w (info s))"
proof (cases "vs_vdrs s n")
  case None
  from vs_add_ok [OF assms None, of pk tx w] None show ?thesis
    by (auto simp: implements_def spec_add_def info_None notices_def same_listeners_def callValidatorAddedCallbacks_def)
next
  case (Some r)
  then have "info s n \<noteq> None" by (simp add: info_None)
  with Some assms show ?thesis by (auto simp: implements_def spec_add_def vs_add_def notices_def)
qed

lemma vs_addWeight_implements:
  assumes "vs_ok s"
  shows "implements s (vs_addWeight n w s) (spec_addWeight n w (info s))"
proof (cases "vs_vdrs s n")
  case None
  then have "info s n = None" by (simp add: info_None)
  with None assms show ?thesis by (auto simp: implements_def spec_addWeight_def vs_addWeight_def notices_def)
next
  case (Some r)
  let ?old = "v_Weight (vs_objects s ! r)"
  note i = info_Some [OF Some]
  show ?thesis
  proof (cases "2 ^ 64 \<le> unat ?old + unat w")
    case True
    then have "Add ?old w = Inl ErrOverflow" unfolding Add_def Add_guard by simp
    with True Some i assms show ?thesis by (auto simp: implements_def spec_addWeight_def vs_addWeight_def notices_def Let_def)
  next
    case False
    then have a: "Add ?old w = Inr (?old + w)" unfolding Add_def Add_guard by simp
    have u: "uint (?old + w) = uint ?old + uint w"
    proof -
      have "int (unat ?old + unat w) < int (2 ^ 64)" using False by (simp only: of_nat_less_iff not_le)
      then have "uint ?old + uint w < 2 ^ 64" by simp
      then show ?thesis using uint_add_lem [of ?old w] by simp
    qed
    from set_weight_ok [OF assms Some, of "?old + w"] obtain s1 where s1: "set_weight r (?old + w) s = Some s1"
      "vs_objects s1 ! r = (vs_objects s ! r)\<lparr>v_Weight := ?old + w\<rparr>"
      "vs_ok (s1\<lparr>vs_totalWeight := vs_totalWeight s - uint ?old + uint (?old + w)\<rparr>)"
      "info s1 = set_to (info s) n (?old + w)" "vs_totalWeight s1 = vs_totalWeight s" "same_listeners s s1"
      by (auto simp: same_listeners_def)
    define s2 where "s2 = s1\<lparr>vs_totalWeight := vs_totalWeight s1 + uint w\<rparr>"
    have "vs_ok s2" using s1(3,5) u by (simp add: s2_def)
    moreover have "info s2 = (info s)(n \<mapsto> (v_PublicKey (vs_objects s ! r), v_TxID (vs_objects s ! r), ?old + w))"
      using s1(4) i by (simp add: s2_def set_to_def)
    moreover have sl: "same_listeners s s2" using s1(6) by (simp add: s2_def same_listeners_def)
    moreover have "vs_addWeight n w s = Some (s2, None, call_listeners (OnValidatorWeightChanged n ?old (?old + w)) s)"
      using Some a s1(1,2) call_listeners_cong [OF sl]
      by (simp add: vs_addWeight_def Let_def s2_def callWeightChangeCallbacks_def)
    ultimately show ?thesis using False i by (simp add: implements_def spec_addWeight_def notices_def)
  qed
qed

lemma vs_removeWeight_implements:
  assumes "vs_ok s"
  shows "implements s (vs_removeWeight n w s) (spec_removeWeight n w (info s))"
proof (cases "vs_vdrs s n")
  case None
  then have "info s n = None" by (simp add: info_None)
  with None assms show ?thesis by (auto simp: implements_def spec_removeWeight_def vs_removeWeight_def notices_def)
next
  case (Some r)
  let ?old = "v_Weight (vs_objects s ! r)"
  note i = info_Some [OF Some]
  consider "?old < w" | "?old = w" | "w < ?old" by (cases ?old w rule: linorder_cases) auto
  then show ?thesis
  proof cases
    case 1
    then show ?thesis using Some i assms by (auto simp: implements_def spec_removeWeight_def vs_removeWeight_def notices_def Let_def Sub_def)
  next
    case 2
    from vs_remove_ok [OF assms Some] obtain s1 where s1: "vs_remove n r s = Some s1"
      "vs_ok (s1\<lparr>vs_totalWeight := vs_totalWeight s - uint ?old\<rparr>)" "info s1 = (info s)(n := None)"
      "vs_totalWeight s1 = vs_totalWeight s" "same_listeners s s1" by (auto simp: same_listeners_def)
    have "same_listeners s (s1\<lparr>vs_totalWeight := t\<rparr>)" for t using s1(5) by (simp add: same_listeners_def)
    moreover have "vs_removeWeight n w s = Some (s1\<lparr>vs_totalWeight := vs_totalWeight s1 - uint w\<rparr>, None, call_listeners (OnValidatorRemoved n ?old) s)"
      using 2 Some s1(1) call_listeners_cong [OF s1(5)] by (simp add: vs_removeWeight_def Let_def Sub_def callValidatorRemovedCallbacks_def)
    ultimately show ?thesis using 2 i s1 by (simp add: implements_def spec_removeWeight_def notices_def)
  next
    case 3
    have ne: "?old - w \<noteq> 0" using 3 by auto
    have u: "uint (?old - w) = uint ?old - uint w" using 3 by (simp add: uint_sub_if' word_less_def)
    from set_weight_ok [OF assms Some, of "?old - w"] obtain s1 where s1: "set_weight r (?old - w) s = Some s1"
      "vs_ok (s1\<lparr>vs_totalWeight := vs_totalWeight s - uint ?old + uint (?old - w)\<rparr>)"
      "info s1 = set_to (info s) n (?old - w)" "vs_totalWeight s1 = vs_totalWeight s" "same_listeners s s1"
      by (auto simp: same_listeners_def)
    have "same_listeners s (s1\<lparr>vs_totalWeight := t\<rparr>)" for t using s1(5) by (simp add: same_listeners_def)
    moreover have "vs_ok (s1\<lparr>vs_totalWeight := vs_totalWeight s1 - uint w\<rparr>)" using s1(2,4) u by simp
    moreover have "vs_removeWeight n w s = Some (s1\<lparr>vs_totalWeight := vs_totalWeight s1 - uint w\<rparr>, None,
        call_listeners (OnValidatorWeightChanged n ?old (?old - w)) s)"
      using 3 ne Some s1(1) call_listeners_cong [OF s1(5)] by (simp add: vs_removeWeight_def Let_def Sub_def callWeightChangeCallbacks_def)
    ultimately show ?thesis using 3 i s1(3) by (auto simp: implements_def spec_removeWeight_def notices_def set_to_def)
  qed
qed

end
