(* ===== verification/ValidatorProperties.thy ===== *)
theory ValidatorProperties
  imports Validators "HOL-Library.List_Lexorder"
begin

text \<open>
  The validator manager implements maps from nodes to weights, one per subnet, in every sequence of calls, and
  what its listeners are told is exactly how these maps change.
\<close>

section \<open>Sequences of calls\<close>

datatype ('k, 'l) vop =
    OpAddStaker ID NodeID 'k ID uint64
  | OpAddWeight ID NodeID uint64
  | OpRemoveWeight ID NodeID uint64
  | OpListen "ID set \<Rightarrow> ID list" 'l
  | OpListenSet ID 'l

fun vop_step :: "('k, 'l) vop \<Rightarrow> ('k, 'l) manager \<Rightarrow> (('k, 'l) manager \<times> go_error option \<times> ('k, 'l) notice list) option" where
  "vop_step (OpAddStaker sub n pk tx w) m = AddStaker sub n pk tx w m"
| "vop_step (OpAddWeight sub n w) m = AddWeight sub n w m"
| "vop_step (OpRemoveWeight sub n w) m = RemoveWeight sub n w m"
| "vop_step (OpListen ord l) m = (case m_RegisterCallbackListener ord l m of (m, calls) \<Rightarrow> Some (m, None, calls))"
| "vop_step (OpListenSet sub l) m = (case RegisterSetCallbackListener sub l m of (m, calls) \<Rightarrow> Some (m, None, calls))"

text \<open>The final manager, the errors returned and the calls to listeners.\<close>

fun vop_run :: "('k, 'l) vop list \<Rightarrow> ('k, 'l) manager \<Rightarrow> (('k, 'l) manager \<times> go_error option list \<times> ('k, 'l) notice list) option" where
  "vop_run [] m = Some (m, [], [])"
| "vop_run (c # cs) m = do {
     (m, err, calls) \<leftarrow> vop_step c m;
     (m, errs, more) \<leftarrow> vop_run cs m;
     Some (m, err # errs, calls @ more)
   }"

type_synonym 'k subnets = "ID \<Rightarrow> 'k vdrs"

definition at :: "ID \<Rightarrow> ('k vdrs \<Rightarrow> 'k spec) \<Rightarrow> 'k subnets \<Rightarrow> 'k subnets \<times> go_error option \<times> (ID \<times> 'k event) option" where
  "at sub f a = (case f (a sub) of (m, err, e) \<Rightarrow> (a(sub := m), err, map_option (Pair sub) e))"

fun spec_step :: "('k, 'l) vop \<Rightarrow> 'k subnets \<Rightarrow> 'k subnets \<times> go_error option \<times> (ID \<times> 'k event) option" where
  "spec_step (OpAddStaker sub n pk tx w) a = (if w = 0 then (a, Some ErrZeroWeight, None) else at sub (spec_add n pk tx w) a)"
| "spec_step (OpAddWeight sub n w) a = (if w = 0 then (a, Some ErrZeroWeight, None) else at sub (spec_addWeight n w) a)"
| "spec_step (OpRemoveWeight sub n w) a = (if w = 0 then (a, Some ErrZeroWeight, None) else at sub (spec_removeWeight n w) a)"
| "spec_step (OpListen ord l) a = (a, None, None)"
| "spec_step (OpListenSet sub l) a = (a, None, None)"

fun spec_run :: "('k, 'l) vop list \<Rightarrow> 'k subnets \<Rightarrow> 'k subnets \<times> go_error option list" where
  "spec_run [] a = (a, [])"
| "spec_run (c # cs) a = (case spec_step c a of (a, err, _) \<Rightarrow> case spec_run cs a of (a, errs) \<Rightarrow> (a, err # errs))"

section \<open>The manager implements the specification\<close>

definition vabs :: "('k, 'l) manager \<Rightarrow> 'k subnets" where
  "vabs m sub = (case subnetToVdrs m sub of None \<Rightarrow> Map.empty | Some s \<Rightarrow> info s)"

definition set_listeners :: "('k, 'l) manager \<Rightarrow> ID \<Rightarrow> 'l list" where
  "set_listeners m sub = (case subnetToVdrs m sub of None \<Rightarrow> [] | Some s \<Rightarrow> setCallbackListeners s)"

definition set_ok :: "('k, 'l) manager \<Rightarrow> ID \<Rightarrow> ('k, 'l) vdrSet \<Rightarrow> bool" where
  "set_ok m sub s \<longleftrightarrow> vs_ok s \<and> vs_subnetID s = sub \<and> managerCallbackListeners s = callbackListeners m"

definition mgr_ok :: "('k, 'l) manager \<Rightarrow> bool" where
  "mgr_ok m \<longleftrightarrow> finite (dom (subnetToVdrs m)) \<and>
     (\<forall>sub s. subnetToVdrs m sub = Some s \<longrightarrow> set_ok m sub s \<and> (info s = Map.empty \<longrightarrow> setCallbackListeners s \<noteq> []))"

text \<open>The set a call works on, which may have to be created.\<close>

definition the_set :: "('k, 'l) manager \<Rightarrow> ID \<Rightarrow> ('k, 'l) vdrSet" where
  "the_set m sub = (case subnetToVdrs m sub of None \<Rightarrow> newSet sub (callbackListeners m) | Some s \<Rightarrow> s)"

lemma the_set_ok:
  assumes "mgr_ok m"
  shows "set_ok m sub (the_set m sub)" "info (the_set m sub) = vabs m sub" "setCallbackListeners (the_set m sub) = set_listeners m sub"
  using assms by (auto simp: the_set_def mgr_ok_def set_ok_def vabs_def set_listeners_def newSet_def [of sub] split: option.splits)
    (simp_all flip: newSet_def)

definition put_set :: "ID \<Rightarrow> ('k, 'l) vdrSet \<Rightarrow> ('k, 'l) manager \<Rightarrow> ('k, 'l) manager" where
  "put_set sub s m = m\<lparr>subnetToVdrs := (subnetToVdrs m)(sub \<mapsto> s)\<rparr>"

lemma put_set_simps [simp]:
  "callbackListeners (put_set sub s m) = callbackListeners m" "vabs (put_set sub s m) = (vabs m)(sub := info s)"
  "set_listeners (put_set sub s m) = (set_listeners m)(sub := setCallbackListeners s)"
  by (auto simp: put_set_def vabs_def set_listeners_def fun_eq_iff)

lemma put_set_ok:
  assumes "mgr_ok m" "set_ok m sub s" "info s = Map.empty \<Longrightarrow> setCallbackListeners s \<noteq> []"
  shows "mgr_ok (put_set sub s m)"
  using assms by (auto simp: mgr_ok_def put_set_def set_ok_def)

text \<open>Whom a change of the subnet is told to.\<close>

definition told :: "('k, 'l) manager \<Rightarrow> (ID \<times> 'k event) option \<Rightarrow> ('k, 'l) notice list" where
  "told m ev = (case ev of None \<Rightarrow> []
     | Some (sub, e) \<Rightarrow> map (\<lambda>l. (l, Some sub, e)) (callbackListeners m) @ map (\<lambda>l. (l, None, e)) (set_listeners m sub))"

lemma notices_told:
  assumes "mgr_ok m"
  shows "notices (the_set m sub) e = told m (map_option (Pair sub) e)"
  using the_set_ok [OF assms, of sub] by (auto simp: notices_def told_def call_listeners_def set_ok_def split: option.splits)

definition keeps :: "('k, 'l) manager \<Rightarrow> (('k, 'l) manager \<times> go_error option \<times> ('k, 'l) notice list) option \<Rightarrow>
    'k subnets \<times> go_error option \<times> (ID \<times> 'k event) option \<Rightarrow> bool" where
  "keeps m r sp \<longleftrightarrow> (\<exists>m'. r = Some (m', fst (snd sp), told m (snd (snd sp))) \<and> mgr_ok m' \<and> vabs m' = fst sp \<and>
     callbackListeners m' = callbackListeners m \<and> set_listeners m' = set_listeners m)"

lemma with_set_keeps:
  assumes ok: "mgr_ok m" and i: "implements (the_set m sub) r (f (vabs m sub))"
    and ne: "fst (f (vabs m sub)) = Map.empty \<Longrightarrow> set_listeners m sub \<noteq> []"
  shows "keeps m (with_set sub r m) (at sub f (vabs m))"
proof -
  note t = the_set_ok [OF ok, of sub]
  from i obtain s' where s': "r = Some (s', fst (snd (f (vabs m sub))), notices (the_set m sub) (snd (snd (f (vabs m sub)))))" "vs_ok s'"
    "info s' = fst (f (vabs m sub))" "same_listeners (the_set m sub) s'" by (auto simp: implements_def)
  have l: "set_ok m sub s'" "setCallbackListeners s' = set_listeners m sub" using s'(2,4) t(1,3) by (auto simp: set_ok_def same_listeners_def)
  have "mgr_ok (put_set sub s' m)" by (rule put_set_ok [OF ok l(1)]) (use ne s'(3) l(2) in simp)
  moreover have "with_set sub r m = Some (put_set sub s' m, fst (snd (f (vabs m sub))), told m (map_option (Pair sub) (snd (snd (f (vabs m sub))))))"
    unfolding with_set_def s'(1) notices_told [OF ok] by (simp add: put_set_def)
  ultimately show ?thesis using s'(3) l(2) by (simp add: keeps_def at_def case_prod_beta)
qed

lemma keeps_refl: "mgr_ok m \<Longrightarrow> keeps m (Some (m, err, [])) (vabs m, err, None)"
  by (simp add: keeps_def told_def)

lemma existing_set:
  assumes "mgr_ok m" "subnetToVdrs m sub = Some s"
  shows "the_set m sub = s" "vabs m sub = Map.empty \<Longrightarrow> set_listeners m sub \<noteq> []"
  using assms by (auto simp: the_set_def mgr_ok_def vabs_def set_listeners_def)

lemma AddStaker_keeps:
  assumes ok: "mgr_ok m"
  shows "keeps m (AddStaker sub n pk tx w m) (spec_step (OpAddStaker sub n pk tx w) (vabs m))"
proof (cases "w = 0")
  case False
  have "fst (spec_add n pk tx w (vabs m sub)) n \<noteq> None" by (auto simp: spec_add_def)
  then have ne: "fst (spec_add n pk tx w (vabs m sub)) \<noteq> Map.empty" by metis
  have "implements (the_set m sub) (vs_add n pk tx w (the_set m sub)) (spec_add n pk tx w (vabs m sub))"
    using vs_add_implements [of "the_set m sub" n pk tx w] the_set_ok(1,2) [OF ok, of sub] by (simp add: set_ok_def)
  from with_set_keeps [where f = "spec_add n pk tx w", OF ok this] ne False show ?thesis by (simp add: AddStaker_def the_set_def)
qed (simp add: AddStaker_def keeps_refl [OF ok])

lemma AddWeight_keeps:
  assumes ok: "mgr_ok m"
  shows "keeps m (AddWeight sub n w m) (spec_step (OpAddWeight sub n w) (vabs m))"
proof (cases "w = 0")
  case False
  show ?thesis
  proof (cases "subnetToVdrs m sub")
    case None
    then have "vabs m sub = Map.empty" by (simp add: vabs_def)
    then have "at sub (spec_addWeight n w) (vabs m) = (vabs m, Some errMissingValidator, None)"
      by (auto simp: at_def spec_addWeight_def)
    then show ?thesis using False None keeps_refl [OF ok] by (simp add: AddWeight_def)
  next
    case (Some s)
    note e = existing_set [OF ok Some]
    have "implements (the_set m sub) (vs_addWeight n w (the_set m sub)) (spec_addWeight n w (vabs m sub))"
      using vs_addWeight_implements [of "the_set m sub" n w] the_set_ok(1,2) [OF ok, of sub] by (simp add: set_ok_def)
    moreover have "fst (spec_addWeight n w (vabs m sub)) = Map.empty \<Longrightarrow> vabs m sub = Map.empty"
      by (auto simp: spec_addWeight_def split: option.splits if_splits)
    ultimately show ?thesis using with_set_keeps [OF ok, of sub _ "spec_addWeight n w"] e False Some by (simp add: AddWeight_def)
  qed
qed (simp add: AddWeight_def keeps_refl [OF ok])

lemma vs_len_info:
  assumes "vs_ok s"
  shows "vs_len s = 0 \<longleftrightarrow> info s = Map.empty"
proof -
  have "vs_vdrSlice s = [] \<longleftrightarrow> (\<forall>n. vs_vdrs s n = None)"
    using vs_okD(4) [OF assms] by (metis list.set_intros(1) neq_Nil_conv not_Some_eq empty_iff list.set(1))
  then show ?thesis by (simp add: vs_len_def info_def fun_eq_iff)
qed

lemma RemoveWeight_keeps:
  assumes ok: "mgr_ok m"
  shows "keeps m (RemoveWeight sub n w m) (spec_step (OpRemoveWeight sub n w) (vabs m))"
proof (cases "w = 0")
  case False
  show ?thesis
  proof (cases "subnetToVdrs m sub")
    case None
    then have "vabs m sub = Map.empty" by (simp add: vabs_def)
    then have "at sub (spec_removeWeight n w) (vabs m) = (vabs m, Some errMissingValidator, None)"
      by (auto simp: at_def spec_removeWeight_def)
    then show ?thesis using False None keeps_refl [OF ok] by (simp add: RemoveWeight_def)
  next
    case (Some s)
    note e = existing_set [OF ok Some]
    note t = the_set_ok [OF ok, of sub]
    let ?sp = "spec_removeWeight n w (vabs m sub)"
    have "implements (the_set m sub) (vs_removeWeight n w (the_set m sub)) ?sp"
      using vs_removeWeight_implements [of "the_set m sub" n w] t(1,2) by (simp add: set_ok_def)
    then obtain s' where s': "vs_removeWeight n w s = Some (s', fst (snd ?sp), told m (map_option (Pair sub) (snd (snd ?sp))))" "vs_ok s'"
      "info s' = fst ?sp" "same_listeners (the_set m sub) s'" unfolding implements_def notices_told [OF ok] unfolding e(1) by blast
    have l: "set_ok m sub s'" "setCallbackListeners s' = set_listeners m sub" using s'(2,4) t(1,3) by (auto simp: set_ok_def same_listeners_def)
    have err: "fst (snd ?sp) \<noteq> None \<Longrightarrow> fst ?sp = vabs m sub" by (auto simp: spec_removeWeight_def split: option.splits if_splits)
    have a: "fst (at sub (spec_removeWeight n w) (vabs m)) = (vabs m)(sub := fst ?sp)" "fst (snd (at sub (spec_removeWeight n w) (vabs m))) = fst (snd ?sp)"
      "snd (snd (at sub (spec_removeWeight n w) (vabs m))) = map_option (Pair sub) (snd (snd ?sp))" by (simp_all add: at_def case_prod_beta)
    show ?thesis
    proof (cases "fst (snd ?sp) = None \<and> vs_len s' = 0 \<and> \<not> HasCallbackRegistered s'")
      case True
      then have em: "info s' = Map.empty" "set_listeners m sub = []" using vs_len_info [OF s'(2)] l(2) by (auto simp: HasCallbackRegistered_def)
      let ?m = "m\<lparr>subnetToVdrs := (subnetToVdrs m)(sub := None)\<rparr>"
      have "mgr_ok ?m" using ok by (auto simp: mgr_ok_def set_ok_def)
      moreover have "vabs ?m = (vabs m)(sub := fst ?sp)" using em(1) s'(3) by (auto simp: vabs_def fun_eq_iff)
      moreover have "set_listeners ?m = set_listeners m" using em(2) by (auto simp: set_listeners_def fun_eq_iff)
      moreover have "RemoveWeight sub n w m = Some (?m, None, told m (map_option (Pair sub) (snd (snd ?sp))))"
        using True s'(1) False Some by (simp add: RemoveWeight_def Let_def)
      ultimately show ?thesis using True False a by (simp add: keeps_def)
    next
      case nd: False
      have "info s' = Map.empty \<Longrightarrow> setCallbackListeners s' \<noteq> []"
        using nd err e(2) s'(3) vs_len_info [OF s'(2)] l(2) by (auto simp: HasCallbackRegistered_def)
      then have "mgr_ok (put_set sub s' m)" by (rule put_set_ok [OF ok l(1)])
      moreover have "RemoveWeight sub n w m = Some (put_set sub s' m, fst (snd ?sp), told m (map_option (Pair sub) (snd (snd ?sp))))"
        using nd s'(1) False Some by (cases "fst (snd ?sp)") (auto simp: RemoveWeight_def put_set_def Let_def)
      ultimately show ?thesis using False a s'(3) l(2) by (simp add: keeps_def)
    qed
  qed
qed (simp add: RemoveWeight_def keeps_refl [OF ok])

section \<open>Registering listeners\<close>

lemma register_all_result:
  assumes "distinct subs" "set subs \<subseteq> dom sets"
  shows "register_all l subs sets =
    (\<lambda>sub. if sub \<in> set subs then map_option (\<lambda>s. s\<lparr>managerCallbackListeners := managerCallbackListeners s @ [l]\<rparr>) (sets sub) else sets sub,
     concat (map (\<lambda>sub. added_calls l (Some (vs_subnetID (the (sets sub)))) (the (sets sub))) subs))"
  using assms
proof (induction subs arbitrary: sets)
  case (Cons sub subs)
  then obtain s where s: "sets sub = Some s" by auto
  let ?s = "s\<lparr>managerCallbackListeners := managerCallbackListeners s @ [l]\<rparr>"
  define sets1 where "sets1 = sets(sub \<mapsto> ?s)"
  have old: "sets1 sub' = sets sub'" if "sub' \<in> set subs" for sub' using that Cons.prems(1) by (auto simp: sets1_def)
  have m: "map (\<lambda>sub. added_calls l (Some (vs_subnetID (the (sets1 sub)))) (the (sets1 sub))) subs =
    map (\<lambda>sub. added_calls l (Some (vs_subnetID (the (sets sub)))) (the (sets sub))) subs" using old by simp
  have f: "(\<lambda>sub'. if sub' \<in> set subs then map_option (\<lambda>s. s\<lparr>managerCallbackListeners := managerCallbackListeners s @ [l]\<rparr>) (sets1 sub') else sets1 sub') =
    (\<lambda>sub'. if sub' \<in> set (sub # subs) then map_option (\<lambda>s. s\<lparr>managerCallbackListeners := managerCallbackListeners s @ [l]\<rparr>) (sets sub') else sets sub')"
    (is "?g = ?h")
  proof
    fix x
    show "?g x = ?h x" using old [of x] Cons.prems(1) s by (cases "x = sub") (simp_all add: sets1_def)
  qed
  have "set subs \<subseteq> dom sets1" using Cons.prems(2) by (auto simp: sets1_def)
  from Cons.IH [OF _ this] Cons.prems(1) have "register_all l subs sets1 =
     (?h, concat (map (\<lambda>sub. added_calls l (Some (vs_subnetID (the (sets sub)))) (the (sets sub))) subs))" unfolding f m by simp
  then show ?case by (simp only: register_all.simps s option.case RegisterManagerCallbackListener_def Let_def prod.case sets1_def [symmetric])
      (simp add: s)
qed (simp add: fun_eq_iff)

lemma listen_result:
  assumes ok: "mgr_ok m" and o: "valid_ord ord"
  shows "\<exists>m' calls. vop_step (OpListen ord l) m = Some (m', None, calls) \<and> mgr_ok m' \<and> vabs m' = vabs m \<and>
    callbackListeners m' = callbackListeners m @ [l] \<and> set_listeners m' = set_listeners m \<and>
    calls = concat (map (\<lambda>sub. added_calls l (Some sub) (the_set m sub)) (ord (dom (subnetToVdrs m))))"
proof -
  have fin: "finite (dom (subnetToVdrs m))" using ok by (simp add: mgr_ok_def)
  let ?subs = "ord (dom (subnetToVdrs m))"
  have subs: "set ?subs = dom (subnetToVdrs m)" "distinct ?subs" using valid_ordD [OF o fin] by auto
  define sets where "sets = (\<lambda>sub. map_option (\<lambda>s. s\<lparr>managerCallbackListeners := managerCallbackListeners s @ [l]\<rparr>) (subnetToVdrs m sub))"
  have f: "(\<lambda>sub. if sub \<in> set ?subs then map_option (\<lambda>s. s\<lparr>managerCallbackListeners := managerCallbackListeners s @ [l]\<rparr>) (subnetToVdrs m sub)
      else subnetToVdrs m sub) = sets" unfolding sets_def subs(1) by (auto simp: fun_eq_iff domIff)
  have "added_calls l (Some (vs_subnetID (the (subnetToVdrs m sub)))) (the (subnetToVdrs m sub)) = added_calls l (Some sub) (the_set m sub)"
    if "sub \<in> set ?subs" for sub using that subs(1) ok by (auto simp: the_set_def mgr_ok_def set_ok_def)
  then have mm: "map (\<lambda>sub. added_calls l (Some (vs_subnetID (the (subnetToVdrs m sub)))) (the (subnetToVdrs m sub))) ?subs =
      map (\<lambda>sub. added_calls l (Some sub) (the_set m sub)) ?subs" by simp
  have "register_all l ?subs (subnetToVdrs m) = (sets, concat (map (\<lambda>sub. added_calls l (Some sub) (the_set m sub)) ?subs))"
    unfolding register_all_result [OF subs(2) eq_refl [OF subs(1)]] f mm ..
  then have r: "vop_step (OpListen ord l) m = Some (m\<lparr>callbackListeners := callbackListeners m @ [l], subnetToVdrs := sets\<rparr>, None,
      concat (map (\<lambda>sub. added_calls l (Some sub) (the_set m sub)) ?subs))"
    by (simp add: m_RegisterCallbackListener_def Let_def)
  have i: "info (s\<lparr>managerCallbackListeners := ls\<rparr>) = info s" "vs_ok (s\<lparr>managerCallbackListeners := ls\<rparr>) = vs_ok s" for s :: "('a, 'b) vdrSet" and ls
    by (simp_all add: info_def vs_ok_def fun_eq_iff)
  have "dom sets = dom (subnetToVdrs m)" by (auto simp: sets_def)
  then have "mgr_ok (m\<lparr>callbackListeners := callbackListeners m @ [l], subnetToVdrs := sets\<rparr>)"
    using ok by (auto simp: mgr_ok_def set_ok_def sets_def i)
  moreover have "vabs (m\<lparr>callbackListeners := callbackListeners m @ [l], subnetToVdrs := sets\<rparr>) = vabs m"
    "set_listeners (m\<lparr>callbackListeners := callbackListeners m @ [l], subnetToVdrs := sets\<rparr>) = set_listeners m"
    by (auto simp: vabs_def set_listeners_def sets_def i fun_eq_iff split: option.splits)
  ultimately show ?thesis using r by simp
qed

lemma listen_set_result:
  assumes ok: "mgr_ok m"
  shows "\<exists>m'. vop_step (OpListenSet sub l) m = Some (m', None, added_calls l None (the_set m sub)) \<and> mgr_ok m' \<and> vabs m' = vabs m \<and>
    callbackListeners m' = callbackListeners m \<and> set_listeners m' = (set_listeners m)(sub := set_listeners m sub @ [l])"
proof -
  note t = the_set_ok [OF ok, of sub]
  define s where "s = (the_set m sub)\<lparr>setCallbackListeners := setCallbackListeners (the_set m sub) @ [l]\<rparr>"
  have i: "info s = vabs m sub" "set_ok m sub s" "setCallbackListeners s = set_listeners m sub @ [l]"
    using t by (auto simp: s_def info_def fun_eq_iff set_ok_def vs_ok_def)
  have "vop_step (OpListenSet sub l) m = Some (put_set sub s m, None, added_calls l None (the_set m sub))"
    by (simp add: RegisterSetCallbackListener_def RegisterCallbackListener_def s_def put_set_def the_set_def Let_def)
  moreover have "mgr_ok (put_set sub s m)" by (rule put_set_ok [OF ok i(2)]) (simp add: i)
  ultimately show ?thesis using i by (simp add: fun_upd_idem)
qed

section \<open>Listeners mirror the validators\<close>

text \<open>What a listener makes of an event; an event that does not fit is None.\<close>

fun see :: "'k event \<Rightarrow> 'k vdrs \<Rightarrow> 'k vdrs option" where
  "see (OnValidatorAdded n pk tx w) m = (if m n = None then Some (m(n \<mapsto> (pk, tx, w))) else None)"
| "see (OnValidatorRemoved n w) m = (case m n of None \<Rightarrow> None | Some (_, _, old) \<Rightarrow> if old = w then Some (m(n := None)) else None)"
| "see (OnValidatorWeightChanged n w w') m =
     (case m n of None \<Rightarrow> None | Some (pk, tx, old) \<Rightarrow> if old = w then Some (m(n \<mapsto> (pk, tx, w'))) else None)"

fun replay :: "'k event list \<Rightarrow> 'k vdrs \<Rightarrow> 'k vdrs option" where
  "replay [] m = Some m"
| "replay (e # es) m = see e m \<bind> replay es"

definition events_for :: "'l \<Rightarrow> ID option \<Rightarrow> ('k, 'l) notice list \<Rightarrow> 'k event list" where
  "events_for l sub log = map (\<lambda>(_, _, e). e) (filter (\<lambda>(l', sub', _). l' = l \<and> sub' = sub) log)"

lemma replay_append: "replay (es @ fs) m = replay es m \<bind> replay fs"
  by (induction es arbitrary: m) (auto split: bind_splits)

lemma events_for_append [simp]: "events_for l sub (xs @ ys) = events_for l sub xs @ events_for l sub ys"
  by (simp add: events_for_def)

lemma events_for_other: "l \<notin> fst ` set log \<Longrightarrow> events_for l sub log = []"
  by (force simp: events_for_def filter_empty_conv)

lemma spec_sees:
  "case snd (snd (spec_add n pk tx w m)) of None \<Rightarrow> fst (spec_add n pk tx w m) = m | Some e \<Rightarrow> see e m = Some (fst (spec_add n pk tx w m))"
  "case snd (snd (spec_addWeight n w m)) of None \<Rightarrow> fst (spec_addWeight n w m) = m | Some e \<Rightarrow> see e m = Some (fst (spec_addWeight n w m))"
  "case snd (snd (spec_removeWeight n w m)) of None \<Rightarrow> fst (spec_removeWeight n w m) = m | Some e \<Rightarrow> see e m = Some (fst (spec_removeWeight n w m))"
  by (auto simp: spec_add_def spec_addWeight_def spec_removeWeight_def split: option.splits)

lemma replay_added_list:
  assumes "distinct (map (\<lambda>r. v_NodeID (f r)) rs)" "\<forall>r \<in> set rs. m (v_NodeID (f r)) = None"
  shows "\<exists>m'. replay (map (\<lambda>r. OnValidatorAdded (v_NodeID (f r)) (v_PublicKey (f r)) (v_TxID (f r)) (v_Weight (f r))) rs) m = Some m' \<and>
    (\<forall>n. m' n = (case find (\<lambda>r. v_NodeID (f r) = n) rs of None \<Rightarrow> m n | Some r \<Rightarrow> Some (v_PublicKey (f r), v_TxID (f r), v_Weight (f r))))"
  using assms
proof (induction rs arbitrary: m)
  case (Cons r rs)
  let ?m = "m(v_NodeID (f r) \<mapsto> (v_PublicKey (f r), v_TxID (f r), v_Weight (f r)))"
  have ne: "v_NodeID (f q) \<noteq> v_NodeID (f r)" if "q \<in> set rs" for q using Cons.prems(1) imageI [OF that, of "\<lambda>r. v_NodeID (f r)"] by auto
  have "\<forall>r \<in> set rs. ?m (v_NodeID (f r)) = None" using Cons.prems(2) ne by auto
  moreover have "distinct (map (\<lambda>r. v_NodeID (f r)) rs)" using Cons.prems(1) by simp
  ultimately obtain m' where
    m': "replay (map (\<lambda>r. OnValidatorAdded (v_NodeID (f r)) (v_PublicKey (f r)) (v_TxID (f r)) (v_Weight (f r))) rs) ?m = Some m'"
      "\<forall>n. m' n = (case find (\<lambda>r. v_NodeID (f r) = n) rs of None \<Rightarrow> ?m n | Some r \<Rightarrow> Some (v_PublicKey (f r), v_TxID (f r), v_Weight (f r)))" using Cons.IH [of ?m] by blast
  have "find (\<lambda>q. v_NodeID (f q) = v_NodeID (f r)) rs = None" using ne by (auto simp: find_None_iff)
  with m' Cons.prems(2) show ?case by (auto split: option.splits)
qed simp

lemma replay_added:
  assumes ok: "vs_ok s"
  shows "replay (events_for l sub (added_calls l sub s)) Map.empty = Some (info s)"
proof -
  let ?f = "\<lambda>r. vs_objects s ! r"
  note D = vs_okD [OF ok]
  have ev: "events_for l sub (added_calls l sub s) =
      map (\<lambda>r. OnValidatorAdded (v_NodeID (?f r)) (v_PublicKey (?f r)) (v_TxID (?f r)) (v_Weight (?f r))) (vs_vdrSlice s)"
    by (simp add: events_for_def added_calls_def comp_def Let_def)
  have "inj_on (\<lambda>r. v_NodeID (?f r)) (set (vs_vdrSlice s))" by (rule inj_onI) (metis D(4) option.inject)
  then have d: "distinct (map (\<lambda>r. v_NodeID (?f r)) (vs_vdrSlice s))" using D(1) by (simp add: distinct_map)
  from replay_added_list [OF d, of Map.empty] obtain m' where m': "replay (events_for l sub (added_calls l sub s)) Map.empty = Some m'"
    "\<forall>n. m' n = (case find (\<lambda>r. v_NodeID (?f r) = n) (vs_vdrSlice s) of None \<Rightarrow> None | Some r \<Rightarrow> Some (v_PublicKey (?f r), v_TxID (?f r), v_Weight (?f r)))"
    unfolding ev by auto
  have "m' n = info s n" for n
  proof (cases "vs_vdrs s n")
    case None
    then have "find (\<lambda>r. v_NodeID (?f r) = n) (vs_vdrSlice s) = None" using D(4) [of n] by (auto simp: find_None_iff)
    then show ?thesis using m'(2) None by (simp add: info_def)
  next
    case (Some r)
    have "find (\<lambda>r. v_NodeID (?f r) = n) (vs_vdrSlice s) = Some r"
    proof (cases "find (\<lambda>r. v_NodeID (?f r) = n) (vs_vdrSlice s)")
      case None
      then show ?thesis using D(4) [of n r] Some by (auto simp: find_None_iff)
    next
      case (Some q)
      then have "vs_vdrs s n = Some q" using D(4) [of n q] by (auto simp: find_Some_iff)
      then show ?thesis using Some \<open>vs_vdrs s n = Some r\<close> by simp
    qed
    then show ?thesis using m'(2) info_Some [OF Some] by simp
  qed
  then have "m' = info s" by (rule ext)
  with m'(1) show ?thesis by simp
qed

definition names_ok :: "('k, 'l) manager \<Rightarrow> ('k, 'l) notice list \<Rightarrow> 'l set \<Rightarrow> bool" where
  "names_ok m log R \<longleftrightarrow> distinct (callbackListeners m) \<and> set (callbackListeners m) \<subseteq> R \<and> fst ` set log \<subseteq> R \<and>
     (\<forall>sub. distinct (set_listeners m sub) \<and> set (set_listeners m sub) \<subseteq> R \<and>
        (\<forall>sub'. sub' \<noteq> sub \<longrightarrow> set (set_listeners m sub) \<inter> set (set_listeners m sub') = {}))"

definition mirrors :: "('k, 'l) manager \<Rightarrow> ('k, 'l) notice list \<Rightarrow> bool" where
  "mirrors m log \<longleftrightarrow> (\<forall>l sub. l \<in> set (callbackListeners m) \<longrightarrow> replay (events_for l (Some sub) log) Map.empty = Some (vabs m sub)) \<and>
     (\<forall>l sub. l \<in> set (set_listeners m sub) \<longrightarrow> replay (events_for l None log) Map.empty = Some (vabs m sub))"

lemma names_okD:
  assumes "names_ok m log R"
  shows "l \<in> set (callbackListeners m) \<Longrightarrow> l \<in> R" "l \<in> set (set_listeners m sub) \<Longrightarrow> l \<in> R" "l \<in> fst ` set log \<Longrightarrow> l \<in> R"
    "l \<in> set (set_listeners m sub) \<Longrightarrow> l \<in> set (set_listeners m sub') \<Longrightarrow> sub' = sub"
    "distinct (callbackListeners m)" "distinct (set_listeners m sub)"
  using assms unfolding names_ok_def by blast+

lemma events_for_map: "distinct ls \<Longrightarrow> events_for l t (map (\<lambda>l. (l, t', e)) ls) = (if t' = t \<and> l \<in> set ls then [e] else [])"
  by (induction ls) (auto simp: events_for_def)

lemma events_for_told:
  assumes "names_ok m log R"
  shows "events_for l (Some sub') (told m (Some (sub, e))) = (if l \<in> set (callbackListeners m) \<and> sub' = sub then [e] else [])"
    "events_for l None (told m (Some (sub, e))) = (if l \<in> set (set_listeners m sub) then [e] else [])"
proof -
  have d: "distinct (callbackListeners m)" "distinct (set_listeners m sub)" by (rule names_okD [OF assms])+
  show "events_for l (Some sub') (told m (Some (sub, e))) = (if l \<in> set (callbackListeners m) \<and> sub' = sub then [e] else [])"
    "events_for l None (told m (Some (sub, e))) = (if l \<in> set (set_listeners m sub) then [e] else [])"
    by (auto simp: told_def events_for_map [OF d(1)] events_for_map [OF d(2)])
qed

lemma told_names: "names_ok m log R \<Longrightarrow> fst ` set (told m ev) \<subseteq> R"
  by (cases ev) (auto simp: told_def dest: names_okD(1,2) split: prod.splits)

lemma keeps_mirrors:
  assumes k: "keeps m r (at sub f (vabs m))" and i: "mirrors m log" and n: "names_ok m log R"
    and f: "case snd (snd (f (vabs m sub))) of None \<Rightarrow> fst (f (vabs m sub)) = vabs m sub | Some e \<Rightarrow> see e (vabs m sub) = Some (fst (f (vabs m sub)))"
  shows "\<exists>m' err calls. r = Some (m', err, calls) \<and> mirrors m' (log @ calls) \<and> names_ok m' (log @ calls) R"
proof -
  let ?sp = "f (vabs m sub)"
  from k obtain m' where m': "r = Some (m', fst (snd ?sp), told m (map_option (Pair sub) (snd (snd ?sp))))"
    "vabs m' = (vabs m)(sub := fst ?sp)" "callbackListeners m' = callbackListeners m" "set_listeners m' = set_listeners m"
    by (auto simp: keeps_def at_def case_prod_beta)
  let ?calls = "told m (map_option (Pair sub) (snd (snd ?sp)))"
  have "names_ok m' (log @ ?calls) R" using n told_names [OF n] m'(3,4) by (auto simp: names_ok_def)
  moreover have "mirrors m' (log @ ?calls)"
  proof (cases "snd (snd ?sp)")
    case None
    then have "vabs m' = vabs m" using m'(2) f by (simp add: fun_upd_idem)
    then show ?thesis using None i m'(3,4) by (simp add: mirrors_def told_def)
  next
    case (Some e)
    then have e: "see e (vabs m sub) = Some (fst ?sp)" using f by simp
    have step: "replay (events_for l s log) Map.empty = Some (vabs m sub) \<Longrightarrow>
      replay (events_for l s log @ [e]) Map.empty = Some (fst ?sp)" for l s by (simp add: replay_append e)
    have "replay (events_for l (Some sub') (log @ ?calls)) Map.empty = Some (vabs m' sub')" if "l \<in> set (callbackListeners m)" for l sub'
      using i that step by (auto simp: mirrors_def Some events_for_told(1) [OF n] m'(2))
    moreover have "replay (events_for l None (log @ ?calls)) Map.empty = Some (vabs m' sub')" if l: "l \<in> set (set_listeners m sub')" for l sub'
    proof (cases "sub' = sub")
      case True
      then show ?thesis using i l step by (simp add: mirrors_def Some events_for_told(2) [OF n] m'(2))
    next
      case False
      then have "l \<notin> set (set_listeners m sub)" using names_okD(4) [OF n] l by blast
      then show ?thesis using i l False by (simp add: mirrors_def Some events_for_told(2) [OF n] m'(2))
    qed
    ultimately show ?thesis using m'(3,4) by (simp add: mirrors_def)
  qed
  ultimately show ?thesis using m'(1) by blast
qed

lemma added_calls_names: "fst ` set (added_calls l sub s) \<subseteq> {l}" "events_for l sub' (added_calls l sub s) = (if sub' = sub then events_for l sub (added_calls l sub s) else [])"
  by (auto simp: added_calls_def events_for_def Let_def)

lemma listen_mirrors:
  assumes ok: "mgr_ok m" and o: "valid_ord ord" and i: "mirrors m log" and n: "names_ok m log R" and l: "l \<notin> R"
  shows "\<exists>m' calls. vop_step (OpListen ord l) m = Some (m', None, calls) \<and> mirrors m' (log @ calls) \<and> names_ok m' (log @ calls) (insert l R)"
proof -
  from listen_result [OF ok o] obtain m' calls where m': "vop_step (OpListen ord l) m = Some (m', None, calls)" "vabs m' = vabs m"
    "callbackListeners m' = callbackListeners m @ [l]" "set_listeners m' = set_listeners m"
    "calls = concat (map (\<lambda>sub. added_calls l (Some sub) (the_set m sub)) (ord (dom (subnetToVdrs m))))" by blast
  let ?subs = "ord (dom (subnetToVdrs m))"
  have subs: "set ?subs = dom (subnetToVdrs m)" "distinct ?subs" using valid_ordD [OF o] ok by (auto simp: mgr_ok_def)
  have names: "fst ` set calls \<subseteq> {l}" unfolding m'(5) using added_calls_names(1) by fastforce
  have old: "events_for k s calls = []" if "k \<in> R" for k s using events_for_other [of k calls s] names l that by auto
  have new: "events_for l s log = []" for s using events_for_other [of l log s] names_okD(3) [OF n] l by blast
  have ev: "events_for l (Some sub) (concat (map (\<lambda>sub. added_calls l (Some sub) (the_set m sub)) xs)) =
      (if sub \<in> set xs then events_for l (Some sub) (added_calls l (Some sub) (the_set m sub)) else [])" if "distinct xs" for sub xs
    using that
  proof (induction xs)
    case (Cons x xs)
    then show ?case using added_calls_names(2) [of l "Some sub" "Some x" "the_set m x"] by (auto)
  qed (simp add: events_for_def)
  have "replay (events_for l (Some sub) calls) Map.empty = Some (vabs m sub)" for sub
  proof (cases "sub \<in> dom (subnetToVdrs m)")
    case True
    have "vs_ok (the_set m sub)" using the_set_ok(1) [OF ok] by (simp add: set_ok_def)
    from replay_added [OF this] True the_set_ok(2) [OF ok] show ?thesis by (simp add: m'(5) ev [OF subs(2)] subs(1))
  next
    case False
    then show ?thesis by (auto simp: m'(5) ev [OF subs(2)] subs(1) vabs_def)
  qed
  then have "mirrors m' (log @ calls)" using i n new old m'(2-4) by (auto simp: mirrors_def names_ok_def subset_iff)
  moreover have "names_ok m' (log @ calls) (insert l R)" using n l names m'(3,4) by (auto simp: names_ok_def)
  ultimately show ?thesis using m'(1) by blast
qed

lemma listen_set_mirrors:
  assumes ok: "mgr_ok m" and i: "mirrors m log" and n: "names_ok m log R" and l: "l \<notin> R"
  shows "\<exists>m' calls. vop_step (OpListenSet sub l) m = Some (m', None, calls) \<and> mirrors m' (log @ calls) \<and> names_ok m' (log @ calls) (insert l R)"
proof -
  let ?calls = "added_calls l None (the_set m sub)"
  from listen_set_result [OF ok] obtain m' where m': "vop_step (OpListenSet sub l) m = Some (m', None, ?calls)" "vabs m' = vabs m"
    "callbackListeners m' = callbackListeners m" "set_listeners m' = (set_listeners m)(sub := set_listeners m sub @ [l])" by blast
  have names: "fst ` set ?calls \<subseteq> {l}" by (rule added_calls_names)
  have old: "events_for k s ?calls = []" if "k \<in> R" for k s using events_for_other [of k ?calls s] names l that by auto
  have new: "events_for l s log = []" for s using events_for_other [of l log s] names_okD(3) [OF n] l by blast
  have "vs_ok (the_set m sub)" using the_set_ok(1) [OF ok] by (simp add: set_ok_def)
  from replay_added [OF this, of l None] have "replay (events_for l None ?calls) Map.empty = Some (vabs m sub)"
    by (simp add: the_set_ok(2) [OF ok])
  then have "mirrors m' (log @ ?calls)" using i n new old l m'(2-4) by (auto simp: mirrors_def names_ok_def subset_iff split: if_splits)
  moreover have "names_ok m' (log @ ?calls) (insert l R)" using n l names m'(3,4) by (auto simp: names_ok_def)
  ultimately show ?thesis using m'(1) by blast
qed

section \<open>Queries\<close>

definition total_of :: "'k vdrs \<Rightarrow> NodeID set \<Rightarrow> nat" where
  "total_of a S = (\<Sum>n \<in> S. unat (weight_of a n))"

definition checked :: "go_error \<Rightarrow> nat \<Rightarrow> uint64 res" where
  "checked err n = (if n < 2 ^ 64 then Inr (of_nat n) else Inl err)"

lemma vs_nodes:
  assumes ok: "vs_ok s"
  shows "inj_on (\<lambda>r. v_NodeID (vs_objects s ! r)) (set (vs_vdrSlice s))"
    "(\<lambda>r. v_NodeID (vs_objects s ! r)) ` set (vs_vdrSlice s) = dom (info s)"
    "r \<in> set (vs_vdrSlice s) \<Longrightarrow> weight_of (info s) (v_NodeID (vs_objects s ! r)) = v_Weight (vs_objects s ! r)"
proof -
  note D = vs_okD(4) [OF ok]
  show "inj_on (\<lambda>r. v_NodeID (vs_objects s ! r)) (set (vs_vdrSlice s))" by (rule inj_onI) (metis D option.inject)
  show "(\<lambda>r. v_NodeID (vs_objects s ! r)) ` set (vs_vdrSlice s) = dom (info s)" using D by (force simp: info_def)
  show "weight_of (info s) (v_NodeID (vs_objects s ! r)) = v_Weight (vs_objects s ! r)" if "r \<in> set (vs_vdrSlice s)"
    using info_Some [of s "v_NodeID (vs_objects s ! r)" r] D [of _ r] that by (simp add: weight_of_def)
qed

lemma vs_TotalWeight_spec:
  assumes ok: "vs_ok s"
  shows "vs_TotalWeight s = checked errTotalWeightNotUint64 (total_of (info s) (dom (info s)))"
proof -
  note v = vs_nodes [OF ok]
  have "total_of (info s) (dom (info s)) = (\<Sum>r \<in> set (vs_vdrSlice s). unat (v_Weight (vs_objects s ! r)))"
    unfolding total_of_def v(2) [symmetric] using v(3) by (simp add: sum.reindex [OF v(1)])
  then have t: "vs_totalWeight s = int (total_of (info s) (dom (info s)))" using vs_okD(5) [OF ok] by simp
  have "int k < 2 ^ 64 \<longleftrightarrow> k < 2 ^ 64" for k by (simp flip: of_nat_less_iff)
  then show ?thesis by (simp add: vs_TotalWeight_def checked_def t)
qed

lemma subset_sum_spec:
  "unat t < 2 ^ 64 \<Longrightarrow> subset_sum ns t s = checked ErrOverflow (unat t + sum_list (map (\<lambda>n. unat (weight_of (info s) n)) ns))"
proof (induction ns arbitrary: t)
  case (Cons n ns)
  let ?w = "vs_getWeight n s"
  show ?case
  proof (cases "2 ^ 64 \<le> unat t + unat ?w")
    case True
    then have "Add t ?w = Inl ErrOverflow" unfolding Add_def Add_guard by simp
    with True show ?thesis by (simp add: checked_def vs_getWeight_info)
  next
    case False
    then have "Add t ?w = Inr (t + ?w)" "unat (t + ?w) = unat t + unat ?w" unfolding Add_def Add_guard
      by (simp_all add: unat_add_lem [THEN iffD1])
    with Cons.IH [of "t + ?w"] False show ?thesis by (simp add: vs_getWeight_info add.assoc)
  qed
qed (simp add: checked_def)

lemma vs_subsetWeight_spec:
  assumes "valid_ord ord" "finite S"
  shows "vs_subsetWeight ord S s = checked ErrOverflow (total_of (info s) S)"
  using subset_sum_spec [of 0 "ord S" s] valid_ordD [OF assms]
  by (simp add: vs_subsetWeight_def total_of_def sum_list_distinct_conv_sum_set)

lemma vs_IDs_spec:
  assumes "vs_ok s"
  shows "distinct (vs_GetValidatorIDs s)" "set (vs_GetValidatorIDs s) = dom (info s)" "vs_len s = card (dom (info s))"
proof -
  note v = vs_nodes [OF assms]
  show d: "distinct (vs_GetValidatorIDs s)" using v(1) vs_okD(1) [OF assms] by (simp add: vs_GetValidatorIDs_def distinct_map)
  show e: "set (vs_GetValidatorIDs s) = dom (info s)" using v(2) by (simp add: vs_GetValidatorIDs_def)
  have "card (set (vs_GetValidatorIDs s)) = length (vs_GetValidatorIDs s)" by (rule distinct_card [OF d])
  then show "vs_len s = card (dom (info s))" using e by (simp add: vs_len_def vs_GetValidatorIDs_def)
qed

lemma foldl_updates:
  "distinct (map f rs) \<Longrightarrow> r \<in> set rs \<Longrightarrow> foldl (\<lambda>m r. m(f r \<mapsto> g r)) m rs (f r) = Some (g r)"
  "n \<notin> f ` set rs \<Longrightarrow> foldl (\<lambda>m r. m(f r \<mapsto> g r)) m rs n = m n"
proof (induction rs rule: rev_induct)
  case (snoc x xs)
  { case 1
    then have "f r = f x \<longleftrightarrow> r = x" using image_iff by fastforce
    with 1 snoc.IH(1) show ?case by auto
  next
    case 2
    with snoc.IH(2) show ?case by auto
  }
qed simp_all

lemma vs_Map_spec:
  assumes "vs_ok s"
  shows "vs_Map s n = map_option (\<lambda>(pk, tx, w). (n, pk, w)) (info s n)"
proof -
  note v = vs_nodes [OF assms]
  have d: "distinct (map (\<lambda>r. v_NodeID (vs_objects s ! r)) (vs_vdrSlice s))" using v(1) vs_okD(1) [OF assms] by (simp add: distinct_map)
  show ?thesis
  proof (cases "vs_vdrs s n")
    case None
    then have "n \<notin> (\<lambda>r. v_NodeID (vs_objects s ! r)) ` set (vs_vdrSlice s)" unfolding v(2) by (simp add: domIff info_None)
    then show ?thesis using None by (simp add: vs_Map_def Let_def foldl_updates(2) info_def)
  next
    case (Some r)
    then have r: "r \<in> set (vs_vdrSlice s)" "n = v_NodeID (vs_objects s ! r)" using vs_okD(4) [OF assms, of n r] by auto
    show ?thesis using foldl_updates(1) [OF d r(1), where m = Map.empty] info_Some [OF Some] r(2) by (simp add: vs_Map_def Let_def)
  qed
qed

text \<open>All queries answer from the map of a subnet.\<close>

definition answers_from :: "('k, 'l) manager \<Rightarrow> 'k subnets \<Rightarrow> bool" where
  "answers_from m a \<longleftrightarrow> (\<forall>sub.
     (\<forall>n. GetWeight sub n m = weight_of (a sub) n) \<and>
     (\<forall>n. map_option (\<lambda>v. (v_NodeID v, v_PublicKey v, v_TxID v, v_Weight v)) (GetValidator sub n m) = map_option (Pair n) (a sub n)) \<and>
     (\<forall>n. GetMap sub m n = map_option (\<lambda>(pk, tx, w). (n, pk, w)) (a sub n)) \<and>
     NumValidators sub m = card (dom (a sub)) \<and> distinct (GetValidatorIDs sub m) \<and> set (GetValidatorIDs sub m) = dom (a sub) \<and>
     TotalWeight sub m = checked errTotalWeightNotUint64 (total_of (a sub) (dom (a sub))) \<and>
     (\<forall>ord S. valid_ord ord \<and> finite S \<longrightarrow> SubsetWeight ord sub S m = checked ErrOverflow (total_of (a sub) S)))"

lemma mgr_answers:
  assumes ok: "mgr_ok m"
  shows "answers_from m (vabs m)"
  unfolding answers_from_def
proof (intro allI)
  fix sub
  show "(\<forall>n. GetWeight sub n m = weight_of (vabs m sub) n) \<and>
     (\<forall>n. map_option (\<lambda>v. (v_NodeID v, v_PublicKey v, v_TxID v, v_Weight v)) (GetValidator sub n m) = map_option (Pair n) (vabs m sub n)) \<and>
     (\<forall>n. GetMap sub m n = map_option (\<lambda>(pk, tx, w). (n, pk, w)) (vabs m sub n)) \<and>
     NumValidators sub m = card (dom (vabs m sub)) \<and> distinct (GetValidatorIDs sub m) \<and> set (GetValidatorIDs sub m) = dom (vabs m sub) \<and>
     TotalWeight sub m = checked errTotalWeightNotUint64 (total_of (vabs m sub) (dom (vabs m sub))) \<and>
     (\<forall>ord S. valid_ord ord \<and> finite S \<longrightarrow> SubsetWeight ord sub S m = checked ErrOverflow (total_of (vabs m sub) S))"
  proof (cases "subnetToVdrs m sub")
    case None
    then show ?thesis
      by (simp add: GetWeight_def GetValidator_def GetMap_def NumValidators_def GetValidatorIDs_def TotalWeight_def SubsetWeight_def vabs_def
          weight_of_def total_of_def checked_def)
  next
    case (Some s)
    then have s: "vs_ok s" "vabs m sub = info s" using ok by (auto simp: mgr_ok_def set_ok_def vabs_def)
    have "map_option (\<lambda>v. (v_NodeID v, v_PublicKey v, v_TxID v, v_Weight v)) (vs_get n s) = map_option (Pair n) (info s n)" for n
      using vs_okD(4) [OF s(1), of n] by (cases "vs_vdrs s n") (auto simp: vs_get_def info_def Let_def)
    moreover have "\<forall>ord S. valid_ord ord \<and> finite S \<longrightarrow> vs_subsetWeight ord S s = checked ErrOverflow (total_of (info s) S)"
      using vs_subsetWeight_spec by blast
    ultimately show ?thesis using Some s vs_IDs_spec [OF s(1)] vs_TotalWeight_spec [OF s(1)] vs_Map_spec [OF s(1)]
      by (simp add: GetWeight_def GetValidator_def GetMap_def NumValidators_def GetValidatorIDs_def TotalWeight_def SubsetWeight_def vs_getWeight_info)
  qed
qed

section \<open>All sequences of calls\<close>

definition vop_ok :: "('k, 'l) vop \<Rightarrow> bool" where
  "vop_ok c \<longleftrightarrow> (\<forall>ord l. c = OpListen ord l \<longrightarrow> valid_ord ord)"

fun new_name :: "('k, 'l) vop \<Rightarrow> 'l list" where
  "new_name (OpListen ord l) = [l]"
| "new_name (OpListenSet sub l) = [l]"
| "new_name c = []"

text \<open>The listeners that the calls register.\<close>

fun listen_calls :: "('k, 'l) vop list \<Rightarrow> 'l list" where
  "listen_calls [] = []"
| "listen_calls (OpListen ord l # cs) = l # listen_calls cs"
| "listen_calls (c # cs) = listen_calls cs"

fun listen_set_calls :: "ID \<Rightarrow> ('k, 'l) vop list \<Rightarrow> 'l list" where
  "listen_set_calls sub [] = []"
| "listen_set_calls sub (OpListenSet sub' l # cs) = (if sub' = sub then l # listen_set_calls sub cs else listen_set_calls sub cs)"
| "listen_set_calls sub (c # cs) = listen_set_calls sub cs"

lemma listen_calls_iff: "l \<in> set (listen_calls cs) \<longleftrightarrow> (\<exists>ord. OpListen ord l \<in> set cs)"
  by (induction cs rule: listen_calls.induct) auto

lemma listen_set_calls_iff: "l \<in> set (listen_set_calls sub cs) \<longleftrightarrow> OpListenSet sub l \<in> set cs"
  by (induction sub cs rule: listen_set_calls.induct) auto

lemma vop_step_spec:
  assumes "mgr_ok m" "vop_ok c" "spec_step c (vabs m) = (a, err, ev)"
  shows "\<exists>m' calls. vop_step c m = Some (m', err, calls) \<and> mgr_ok m' \<and> vabs m' = a \<and>
    callbackListeners m' = callbackListeners m @ listen_calls [c] \<and> (\<forall>sub. set_listeners m' sub = set_listeners m sub @ listen_set_calls sub [c])"
proof (cases c)
  case (OpAddStaker sub n pk tx w)
  with AddStaker_keeps [OF assms(1), of sub n pk tx w] assms(3) show ?thesis by (auto simp: keeps_def)
next
  case (OpAddWeight sub n w)
  with AddWeight_keeps [OF assms(1), of sub n w] assms(3) show ?thesis by (auto simp: keeps_def)
next
  case (OpRemoveWeight sub n w)
  with RemoveWeight_keeps [OF assms(1), of sub n w] assms(3) show ?thesis by (auto simp: keeps_def)
next
  case (OpListen ord l)
  with assms(2) have "valid_ord ord" by (simp add: vop_ok_def)
  from listen_result [OF assms(1) this, of l] assms(3) OpListen show ?thesis by auto
next
  case (OpListenSet sub l)
  from listen_set_result [OF assms(1), of sub l] assms(3) OpListenSet show ?thesis by auto
qed

lemma vop_run_spec:
  assumes "mgr_ok m" "\<forall>c \<in> set cs. vop_ok c" "spec_run cs (vabs m) = (a, errs)"
  shows "\<exists>m' log. vop_run cs m = Some (m', errs, log) \<and> mgr_ok m' \<and> vabs m' = a \<and>
    callbackListeners m' = callbackListeners m @ listen_calls cs \<and> (\<forall>sub. set_listeners m' sub = set_listeners m sub @ listen_set_calls sub cs)"
  using assms
proof (induction cs arbitrary: m errs)
  case (Cons c cs)
  obtain a1 err ev where 1: "spec_step c (vabs m) = (a1, err, ev)" by (cases "spec_step c (vabs m)")
  obtain errs' where 2: "spec_run cs a1 = (a, errs')" "errs = err # errs'" using Cons.prems(3) 1 by (auto split: prod.splits)
  from vop_step_spec [OF Cons.prems(1) _ 1] Cons.prems(2) obtain m1 calls where
    m1: "vop_step c m = Some (m1, err, calls)" "mgr_ok m1" "vabs m1 = a1" "callbackListeners m1 = callbackListeners m @ listen_calls [c]"
      "\<forall>sub. set_listeners m1 sub = set_listeners m sub @ listen_set_calls sub [c]" by auto
  from Cons.IH [OF m1(2)] Cons.prems(2) 2(1) m1(3) obtain m' log where
    m': "vop_run cs m1 = Some (m', errs', log)" "mgr_ok m'" "vabs m' = a"
      "callbackListeners m' = callbackListeners m1 @ listen_calls cs" "\<forall>sub. set_listeners m' sub = set_listeners m1 sub @ listen_set_calls sub cs" by auto
  have "listen_calls (c # cs) = listen_calls [c] @ listen_calls cs" "listen_set_calls sub (c # cs) = listen_set_calls sub [c] @ listen_set_calls sub cs" for sub
    by (cases c; simp)+
  with m1 2(2) m' show ?case by simp
qed simp

lemma vop_step_mirrors:
  assumes ok: "mgr_ok m" "vop_ok c" and i: "mirrors m log" "names_ok m log R" and n: "set (new_name c) \<inter> R = {}"
  shows "\<exists>m' err calls. vop_step c m = Some (m', err, calls) \<and> mirrors m' (log @ calls) \<and> names_ok m' (log @ calls) (set (new_name c) \<union> R)"
proof -
  show ?thesis
  proof (cases c)
    case (OpAddStaker sub k pk tx w)
    show ?thesis
    proof (cases "w = 0")
      case False
      with AddStaker_keeps [OF ok(1), of sub k pk tx w] have "keeps m (AddStaker sub k pk tx w m) (at sub (spec_add k pk tx w) (vabs m))" by simp
      from keeps_mirrors [OF this i spec_sees(1)] show ?thesis by (auto simp: OpAddStaker)
    qed (use OpAddStaker i in \<open>simp add: AddStaker_def\<close>)
  next
    case (OpAddWeight sub k w)
    show ?thesis
    proof (cases "w = 0")
      case False
      with AddWeight_keeps [OF ok(1), of sub k w] have "keeps m (AddWeight sub k w m) (at sub (spec_addWeight k w) (vabs m))" by simp
      from keeps_mirrors [OF this i spec_sees(2)] show ?thesis by (auto simp: OpAddWeight)
    qed (use OpAddWeight i in \<open>simp add: AddWeight_def\<close>)
  next
    case (OpRemoveWeight sub k w)
    show ?thesis
    proof (cases "w = 0")
      case False
      with RemoveWeight_keeps [OF ok(1), of sub k w] have "keeps m (RemoveWeight sub k w m) (at sub (spec_removeWeight k w) (vabs m))" by simp
      from keeps_mirrors [OF this i spec_sees(3)] show ?thesis by (auto simp: OpRemoveWeight)
    qed (use OpRemoveWeight i in \<open>simp add: RemoveWeight_def\<close>)
  next
    case (OpListen ord l)
    with ok(2) n have "valid_ord ord" "l \<notin> R" by (auto simp: vop_ok_def)
    from listen_mirrors [OF ok(1) this(1) i this(2)] show ?thesis by (auto simp: OpListen)
  next
    case (OpListenSet sub l)
    with n have "l \<notin> R" by auto
    from listen_set_mirrors [OF ok(1) i this, of sub] show ?thesis by (auto simp: OpListenSet)
  qed
qed

lemma vop_run_mirrors:
  assumes "mgr_ok m" "\<forall>c \<in> set cs. vop_ok c" "mirrors m log" "names_ok m log R" "distinct (concat (map new_name cs))"
    "set (concat (map new_name cs)) \<inter> R = {}"
  shows "\<exists>m' errs more. vop_run cs m = Some (m', errs, more) \<and> mirrors m' (log @ more)"
  using assms
proof (induction cs arbitrary: m log R)
  case (Cons c cs)
  have c: "vop_ok c" "\<forall>c \<in> set cs. vop_ok c" using Cons.prems(2) by auto
  have "set (new_name c) \<inter> R = {}" using Cons.prems(6) by auto
  from vop_step_mirrors [OF Cons.prems(1) c(1) Cons.prems(3,4) this] obtain m1 err calls where
    m1: "vop_step c m = Some (m1, err, calls)" "mirrors m1 (log @ calls)" "names_ok m1 (log @ calls) (set (new_name c) \<union> R)" by blast
  have ok: "mgr_ok m1" using vop_step_spec [OF Cons.prems(1) c(1)] m1(1) by (cases "spec_step c (vabs m)") fastforce
  have "distinct (concat (map new_name cs))" "set (concat (map new_name cs)) \<inter> (set (new_name c) \<union> R) = {}" using Cons.prems(5,6) by auto
  from Cons.IH [OF ok c(2) m1(2,3) this] m1(1) show ?case by auto
qed simp

section \<open>Properties\<close>

lemma NewManager_ok: "mgr_ok NewManager" "vabs NewManager = (\<lambda>_. Map.empty)" "set_listeners NewManager sub = []" "callbackListeners NewManager = []"
  "mirrors NewManager []" "names_ok NewManager [] {}"
  by (auto simp: mgr_ok_def NewManager_def vabs_def set_listeners_def mirrors_def names_ok_def events_for_def)

lemma mgr_subnets:
  assumes "mgr_ok m"
  shows "dom (subnetToVdrs m) = {sub. vabs m sub \<noteq> Map.empty \<or> set_listeners m sub \<noteq> []}"
  using assms by (auto simp: mgr_ok_def vabs_def set_listeners_def split: option.splits)

definition no_validators :: "'k subnets" where
  "no_validators = (\<lambda>_. Map.empty)"

text \<open>A run with two subnets, a listener of the manager and one of a set, errors and a removal.\<close>

definition demo_ops :: "(nat, nat) vop list" where
  "demo_ops = [OpAddStaker [1] [7] 3 [9] 5, OpListen sorted_list_of_set 0, OpAddWeight [1] [7] 3, OpListenSet [1] 1, OpRemoveWeight [1] [7] 4,
     OpAddStaker [1] [7] 3 [9] 1, OpRemoveWeight [1] [7] 100, OpAddWeight [1] [7] 0xFFFFFFFFFFFFFFFF, OpAddStaker [2] [8] 4 [9] 2, OpRemoveWeight [2] [8] 2]"

definition demo_errs :: "go_error option list" where
  "demo_errs = [None, None, None, None, None, Some errDuplicateValidator, Some ErrUnderflow, Some ErrOverflow, None, None]"

lemma demo_ok:
  "\<forall>c \<in> set demo_ops. vop_ok c" "distinct (concat (map new_name demo_ops))"
  by (auto simp: demo_ops_def vop_ok_def valid_ord_def)

lemma demo_spec: "spec_run demo_ops no_validators = (no_validators([1] := [[7] \<mapsto> (3, [9], 4)]), demo_errs)"
  by (simp add: demo_ops_def demo_errs_def no_validators_def at_def spec_add_def spec_addWeight_def spec_removeWeight_def fun_eq_iff)

text \<open>
  C10. Every sequence of calls to the validator manager, which adds stakers, adds and removes weight and
  registers listeners, runs without a panic, returns the errors of the specification, in which each subnet is a map from
  nodes to key, transaction and weight, and all queries answer from the resulting maps: GetWeight,
  GetValidator, GetMap, NumValidators, GetValidatorIDs, TotalWeight and SubsetWeight, the last two with an error instead of
  an overflow. NumSubnets counts the subnets that have a validator or for which a listener was registered.
\<close>

theorem validators_refine:
  assumes "\<forall>c \<in> set ops. vop_ok c" "spec_run ops no_validators = (a, errs)"
  shows "\<exists>m log. vop_run ops NewManager = Some (m, errs, log) \<and> answers_from m a \<and>
    NumSubnets m = card {sub. a sub \<noteq> Map.empty \<or> (\<exists>l. OpListenSet sub l \<in> set ops)}"
proof -
  from vop_run_spec [OF NewManager_ok(1) assms(1)] assms(2) obtain m log where
    m: "vop_run ops NewManager = Some (m, errs, log)" "mgr_ok m" "vabs m = a" "\<And>sub. set_listeners m sub = listen_set_calls sub ops"
    by (auto simp: NewManager_ok no_validators_def)
  have "set_listeners m sub \<noteq> [] \<longleftrightarrow> (\<exists>l. OpListenSet sub l \<in> set ops)" for sub
    unfolding m(4) listen_set_calls_iff [symmetric] by (cases "listen_set_calls sub ops") auto
  then have "NumSubnets m = card {sub. a sub \<noteq> Map.empty \<or> (\<exists>l. OpListenSet sub l \<in> set ops)}"
    unfolding NumSubnets_def mgr_subnets [OF m(2)] m(3) by simp
  then show ?thesis using m(1) mgr_answers [OF m(2)] m(3) by blast
qed

theorem validators_refine_witness:
  "\<exists>m log. vop_run demo_ops NewManager = Some (m, demo_errs, log) \<and> GetWeight [1] [7] m = 4 \<and> NumValidators [2] m = 0 \<and>
    TotalWeight [1] m = Inr 4 \<and> NumSubnets m = 1"
proof -
  let ?a = "no_validators([1] := [[7] \<mapsto> (3, [9], 4)]) :: nat subnets"
  from validators_refine [OF demo_ok(1) demo_spec] obtain m log where m: "vop_run demo_ops NewManager = Some (m, demo_errs, log)" "answers_from m ?a"
    "NumSubnets m = card {sub. ?a sub \<noteq> Map.empty \<or> (\<exists>l. OpListenSet sub l \<in> set demo_ops)}" by blast
  have "{sub. ?a sub \<noteq> Map.empty \<or> (\<exists>l. OpListenSet sub l \<in> set demo_ops)} = {[1]}" by (auto simp: demo_ops_def no_validators_def)
  then show ?thesis using m by (auto simp: answers_from_def weight_of_def total_of_def checked_def no_validators_def)
qed

text \<open>
  C11. If all listeners are different, then each of them can follow the validators from what it is told: replaying the
  events that a listener of the manager got for a subnet, or a listener of a set got, from the empty map,
  each fits the map before it, in adding a node that is not in it and in naming the old weight, and ends with the present
  map of the subnet, whenever the listener was registered.
\<close>

theorem listeners_mirror:
  assumes "\<forall>c \<in> set ops. vop_ok c" "spec_run ops no_validators = (a, errs)" "distinct (concat (map new_name ops))"
  shows "\<exists>m log. vop_run ops NewManager = Some (m, errs, log) \<and>
    (\<forall>ord l sub. OpListen ord l \<in> set ops \<longrightarrow> replay (events_for l (Some sub) log) Map.empty = Some (a sub)) \<and>
    (\<forall>sub l. OpListenSet sub l \<in> set ops \<longrightarrow> replay (events_for l None log) Map.empty = Some (a sub))"
proof -
  from vop_run_spec [OF NewManager_ok(1) assms(1)] assms(2) obtain m log where
    m: "vop_run ops NewManager = Some (m, errs, log)" "vabs m = a" "callbackListeners m = listen_calls ops"
      "\<And>sub. set_listeners m sub = listen_set_calls sub ops" by (auto simp: NewManager_ok no_validators_def)
  from vop_run_mirrors [OF NewManager_ok(1) assms(1) NewManager_ok(5,6) assms(3)] m(1) have "mirrors m log" by simp
  then show ?thesis using m listen_calls_iff [of _ ops] listen_set_calls_iff [of _ _ ops] unfolding mirrors_def by metis
qed

theorem listeners_mirror_witness:
  "\<exists>m log. vop_run demo_ops NewManager = Some (m, demo_errs, log) \<and>
    replay (events_for 0 (Some [1]) log) Map.empty = Some [[7] \<mapsto> (3, [9], 4)] \<and>
    replay (events_for 1 None log) Map.empty = Some [[7] \<mapsto> (3, [9], 4)]"
proof -
  have "OpListen sorted_list_of_set 0 \<in> set demo_ops" "OpListenSet [1] 1 \<in> set demo_ops" by (simp_all add: demo_ops_def)
  with listeners_mirror [OF demo_ok(1) demo_spec demo_ok(2)] show ?thesis by fastforce
qed

end
