(* ===== verification/Database.thy ===== *)
theory Database
  imports Prelude "HOL-Library.Sublist"
begin

text \<open>
  default/database: the key-value interface of the fork (database.go, batch.go, iterator.go, errors.go), as
  a record of methods over the types of databases \<open>'d\<close>, batches \<open>'b\<close> and iterators \<open>'i\<close>, and its contract as the
  locale \<open>database\<close>. A method that changes its receiver returns it. A nil slice is the empty one. A batch and an iterator
  do not hold the database they point to: methods that use it take it as an argument, in its present state.
\<close>

section \<open>Model\<close>

definition ErrClosed :: go_error where
  "ErrClosed = Err ''closed''"

definition ErrNotFound :: go_error where
  "ErrNotFound = Err ''not found''"

record BatchOp =
  op_Key :: bytes
  op_Value :: bytes
  op_Delete :: bool

record BatchOps =
  Ops :: "BatchOp list"
  bo_size :: nat

definition emptyBatchOps :: BatchOps where
  "emptyBatchOps = \<lparr>Ops = [], bo_size = 0\<rparr>"

definition bo_Put :: "bytes \<Rightarrow> bytes \<Rightarrow> BatchOps \<Rightarrow> BatchOps \<times> go_error option" where
  "bo_Put key val b =
     (b\<lparr>Ops := Ops b @ [\<lparr>op_Key = key, op_Value = val, op_Delete = False\<rparr>], bo_size := bo_size b + (length key + length val)\<rparr>, None)"

definition bo_Delete :: "bytes \<Rightarrow> BatchOps \<Rightarrow> BatchOps \<times> go_error option" where
  "bo_Delete key b = (b\<lparr>Ops := Ops b @ [\<lparr>op_Key = key, op_Value = [], op_Delete = True\<rparr>], bo_size := bo_size b + length key\<rparr>, None)"

definition bo_Size :: "BatchOps \<Rightarrow> nat" where
  "bo_Size b = bo_size b"

text \<open>Reset does not touch the operations.\<close>

definition bo_Reset :: "BatchOps \<Rightarrow> BatchOps" where
  "bo_Reset b = b\<lparr>bo_size := 0\<rparr>"

text \<open>Replay into a writer with the methods \<open>put\<close> and \<open>del\<close>.\<close>

fun bo_Replay :: "(bytes \<Rightarrow> bytes \<Rightarrow> 'w \<Rightarrow> 'w \<times> go_error option) \<Rightarrow> (bytes \<Rightarrow> 'w \<Rightarrow> 'w \<times> go_error option) \<Rightarrow>
    BatchOp list \<Rightarrow> 'w \<Rightarrow> 'w \<times> go_error option" where
  "bo_Replay put del [] w = (w, None)"
| "bo_Replay put del (op # ops) w =
     (case (if op_Delete op then del (op_Key op) w else put (op_Key op) (op_Value op) w) of
        (w, Some err) \<Rightarrow> (w, Some err)
      | (w, None) \<Rightarrow> bo_Replay put del ops w)"

record ('d, 'b, 'i) Database =
  db_Has :: "bytes \<Rightarrow> 'd \<Rightarrow> bool res"
  db_Get :: "bytes \<Rightarrow> 'd \<Rightarrow> bytes res"
  db_Put :: "bytes \<Rightarrow> bytes \<Rightarrow> 'd \<Rightarrow> 'd \<times> go_error option"
  db_Delete :: "bytes \<Rightarrow> 'd \<Rightarrow> 'd \<times> go_error option"
  db_NewBatch :: "'d \<Rightarrow> 'b"
  db_NewIterator :: "bytes \<Rightarrow> bytes \<Rightarrow> 'd \<Rightarrow> 'i"
  db_Compact :: "bytes option \<Rightarrow> bytes option \<Rightarrow> 'd \<Rightarrow> go_error option"
  db_Close :: "'d \<Rightarrow> 'd \<times> go_error option"
  db_HealthCheck :: "'d \<Rightarrow> go_error option"
  ba_Put :: "bytes \<Rightarrow> bytes \<Rightarrow> 'b \<Rightarrow> 'b \<times> go_error option"
  ba_Delete :: "bytes \<Rightarrow> 'b \<Rightarrow> 'b \<times> go_error option"
  ba_Size :: "'b \<Rightarrow> nat"
  ba_Write :: "'b \<Rightarrow> 'd \<Rightarrow> 'd \<times> go_error option"
  ba_Reset :: "'b \<Rightarrow> 'b"
  it_Next :: "'d \<Rightarrow> 'i \<Rightarrow> 'i \<times> bool"
  it_Error :: "'i \<Rightarrow> go_error option"
  it_Key :: "'i \<Rightarrow> bytes"
  it_Value :: "'i \<Rightarrow> bytes"
  it_Release :: "'i \<Rightarrow> 'i"

text \<open>
  An iterator of a database is an \<^verbatim>\<open>IteratorError\<close>, which yields nothing and reports its error, or one of the
  database's own type.
\<close>

datatype 'i iter = IteratorError go_error | Iter 'i

definition dbi_Next :: "('i \<Rightarrow> 'i \<times> bool) \<Rightarrow> 'i iter \<Rightarrow> 'i iter \<times> bool" where
  "dbi_Next nxt it = (case it of IteratorError e \<Rightarrow> (IteratorError e, False) | Iter i \<Rightarrow> apfst Iter (nxt i))"

definition dbi_Error :: "('i \<Rightarrow> go_error option) \<Rightarrow> 'i iter \<Rightarrow> go_error option" where
  "dbi_Error f it = (case it of IteratorError e \<Rightarrow> Some e | Iter i \<Rightarrow> f i)"

definition dbi_get :: "('i \<Rightarrow> bytes) \<Rightarrow> 'i iter \<Rightarrow> bytes" where
  "dbi_get f it = (case it of IteratorError e \<Rightarrow> [] | Iter i \<Rightarrow> f i)"

definition dbi_Release :: "('i \<Rightarrow> 'i) \<Rightarrow> 'i iter \<Rightarrow> 'i iter" where
  "dbi_Release f it = (case it of IteratorError e \<Rightarrow> IteratorError e | Iter i \<Rightarrow> Iter (f i))"

lemmas dbi_defs = dbi_Next_def dbi_Error_def dbi_get_def dbi_Release_def

section \<open>Contents, batches and iterations\<close>

type_synonym kv = "bytes \<rightharpoonup> bytes"

fun apply_op :: "kv \<Rightarrow> bytes \<times> bytes option \<Rightarrow> kv" where
  "apply_op m (k, v) = m(k := v)"

abbreviation apply_ops :: "(bytes \<times> bytes option) list \<Rightarrow> kv \<Rightarrow> kv" where
  "apply_ops ops m \<equiv> foldl apply_op m ops"

text \<open>The value of a key after the operations: the last one on it counts.\<close>

lemma apply_ops_lookup: "apply_ops ops m k = (case map_of (rev ops) k of None \<Rightarrow> m k | Some v \<Rightarrow> v)"
proof (induction ops rule: rev_induct)
  case (snoc op ops)
  then show ?case by (cases op) simp
qed simp

lemma apply_ops_idem: "apply_ops ops (apply_ops ops m) = apply_ops ops m"
  by (rule ext) (simp add: apply_ops_lookup split: option.splits)

lemma apply_ops_finite: "finite (dom m) \<Longrightarrow> finite (dom (apply_ops ops m))"
proof (induction ops arbitrary: m)
  case (Cons op ops)
  then show ?case by (cases op) (cases "snd op", auto)
qed simp

definition in_range :: "bytes \<Rightarrow> bytes \<Rightarrow> bytes \<Rightarrow> bool" where
  "in_range start pre k \<longleftrightarrow> prefix pre k \<and> start \<le> k"

definition entries :: "bytes \<Rightarrow> bytes \<Rightarrow> (bytes \<rightharpoonup> 'v) \<Rightarrow> (bytes \<times> 'v) list" where
  "entries start pre m = map (\<lambda>k. (k, the (m k))) (sorted_list_of_set {k \<in> dom m. in_range start pre k})"

lemma entries_props:
  assumes "finite (dom m)"
  shows "sorted_wrt (<) (map fst (entries start pre m))" "set (entries start pre m) = {(k, v). m k = Some v \<and> in_range start pre k}"
proof -
  have f: "finite {k \<in> dom m. in_range start pre k}" using assms by simp
  show "sorted_wrt (<) (map fst (entries start pre m))" using f by (simp add: entries_def comp_def strict_sorted_iff)
  show "set (entries start pre m) = {(k, v). m k = Some v \<and> in_range start pre k}" using f by (force simp: entries_def)
qed

lemma sorted_keys_unique:
  assumes "sorted_wrt (<) (map fst xs)" "sorted_wrt (<) (map fst ys)" "set xs = set (ys :: (('k :: linorder) \<times> 'v) list)"
  shows "xs = ys"
proof -
  have d: "distinct (map fst xs)" "distinct (map fst ys)" using assms(1,2) by (simp_all add: strict_sorted_iff)
  have f: "map fst xs = map fst ys" using assms by (intro sorted_distinct_set_unique) (simp_all add: strict_sorted_iff)
  have m: "map_of xs = map_of ys" using map_of_inject_set [OF d] assms(3) by simp
  have g: "map (\<lambda>k. (k, the (map_of zs k))) (map fst zs) = zs" if "distinct (map fst zs)" for zs :: "('k \<times> 'v) list"
    using that by (auto intro!: map_idI)
  show ?thesis using g [OF d(1)] g [OF d(2)] unfolding f m by (rule trans [OF sym])
qed

lemma entries_unique:
  assumes "finite (dom m)" "sorted_wrt (<) (map fst xs)" "set xs = {(k, v). m k = Some v \<and> in_range start pre k}"
  shows "entries start pre m = xs"
  by (rule sorted_keys_unique) (simp_all add: entries_props [OF assms(1)] assms(2,3))

section \<open>The contract\<close>

text \<open>
  \<open>content\<close> is the map a database holds, or None when it is closed; \<open>queued\<close> are the operations of a batch, \<open>pend\<close> the
  entries that an iterator has not yielded yet. The invariants \<open>ok\<close>, \<open>bok\<close> and \<open>iok\<close> belong to the implementation. Reset keeps
  the queued operations, as batch.go has it.
\<close>

locale database =
  fixes M :: "('d, 'b, 'i) Database"
    and ok :: "'d \<Rightarrow> bool" and content :: "'d \<Rightarrow> kv option"
    and bok :: "'b \<Rightarrow> bool" and queued :: "'b \<Rightarrow> (bytes \<times> bytes option) list"
    and iok :: "'i \<Rightarrow> bool" and pend :: "'i \<Rightarrow> (bytes \<times> bytes) list"
  assumes finite_content: "ok d \<Longrightarrow> content d = Some m \<Longrightarrow> finite (dom m)"
    and Has: "ok d \<Longrightarrow> db_Has M k d = (case content d of None \<Rightarrow> Inl ErrClosed | Some m \<Rightarrow> Inr (m k \<noteq> None))"
    and Get: "ok d \<Longrightarrow> db_Get M k d =
      (case content d of None \<Rightarrow> Inl ErrClosed | Some m \<Rightarrow> (case m k of None \<Rightarrow> Inl ErrNotFound | Some v \<Rightarrow> Inr v))"
    and Put_closed: "ok d \<Longrightarrow> content d = None \<Longrightarrow> db_Put M k v d = (d, Some ErrClosed)"
    and Put: "ok d \<Longrightarrow> content d = Some m \<Longrightarrow> \<exists>d'. db_Put M k v d = (d', None) \<and> ok d' \<and> content d' = Some (m(k \<mapsto> v))"
    and Delete_closed: "ok d \<Longrightarrow> content d = None \<Longrightarrow> db_Delete M k d = (d, Some ErrClosed)"
    and Delete: "ok d \<Longrightarrow> content d = Some m \<Longrightarrow> \<exists>d'. db_Delete M k d = (d', None) \<and> ok d' \<and> content d' = Some (m(k := None))"
    and Compact: "ok d \<Longrightarrow> db_Compact M s l d = (if content d = None then Some ErrClosed else None)"
    and HealthCheck: "ok d \<Longrightarrow> db_HealthCheck M d = (if content d = None then Some ErrClosed else None)"
    and Close_closed: "ok d \<Longrightarrow> content d = None \<Longrightarrow> db_Close M d = (d, Some ErrClosed)"
    and Close: "ok d \<Longrightarrow> content d \<noteq> None \<Longrightarrow> \<exists>d'. db_Close M d = (d', None) \<and> ok d' \<and> content d' = None"
    and NewBatch: "ok d \<Longrightarrow> bok (db_NewBatch M d) \<and> queued (db_NewBatch M d) = []"
    and batch_Put: "bok b \<Longrightarrow> \<exists>b'. ba_Put M k v b = (b', None) \<and> bok b' \<and> queued b' = queued b @ [(k, Some v)]"
    and batch_Delete: "bok b \<Longrightarrow> \<exists>b'. ba_Delete M k b = (b', None) \<and> bok b' \<and> queued b' = queued b @ [(k, None)]"
    and Reset: "bok b \<Longrightarrow> bok (ba_Reset M b) \<and> queued (ba_Reset M b) = queued b"
    and Write_closed: "ok d \<Longrightarrow> bok b \<Longrightarrow> content d = None \<Longrightarrow> ba_Write M b d = (d, Some ErrClosed)"
    and Write: "ok d \<Longrightarrow> bok b \<Longrightarrow> content d = Some m \<Longrightarrow>
      \<exists>d'. ba_Write M b d = (d', None) \<and> ok d' \<and> content d' = Some (apply_ops (queued b) m)"
    and NewIterator: "ok d \<Longrightarrow> content d = Some m \<Longrightarrow>
      \<exists>i. db_NewIterator M start pre d = i \<and> iok i \<and> it_Error M i = None \<and> pend i = entries start pre m"
    and NewIterator_closed: "ok d \<Longrightarrow> content d = None \<Longrightarrow>
      \<exists>i. db_NewIterator M start pre d = i \<and> iok i \<and> it_Error M i = Some ErrClosed \<and> pend i = []"
    and Next: "ok d \<Longrightarrow> content d \<noteq> None \<Longrightarrow> iok i \<Longrightarrow>
      \<exists>i'. it_Next M d i = (i', pend i \<noteq> []) \<and> iok i' \<and> it_Error M i' = it_Error M i \<and> pend i' = tl (pend i) \<and>
        (pend i \<noteq> [] \<longrightarrow> (it_Key M i', it_Value M i') = hd (pend i))"
    and Next_closed: "ok d \<Longrightarrow> content d = None \<Longrightarrow> iok i \<Longrightarrow>
      \<exists>i'. it_Next M d i = (i', False) \<and> iok i' \<and> it_Error M i' = Some ErrClosed"
text \<open>What a client reads with the loop \<^verbatim>\<open>for it.Next() { ... }\<close> in at most \<open>n\<close> rounds, and whether more rounds are needed.\<close>

fun read_all :: "('d, 'b, 'i) Database \<Rightarrow> 'd \<Rightarrow> nat \<Rightarrow> 'i \<Rightarrow> (bytes \<times> bytes) list \<times> bool" where
  "read_all M d 0 i = ([], True)"
| "read_all M d (Suc n) i =
     (case it_Next M d i of
        (i, True) \<Rightarrow> apfst (Cons (it_Key M i, it_Value M i)) (read_all M d n i)
      | (i, False) \<Rightarrow> ([], False))"

context database
begin

lemma read_all_pend:
  assumes "ok d" "content d \<noteq> None"
  shows "iok i \<Longrightarrow> length (pend i) < n \<Longrightarrow> read_all M d n i = (pend i, False)"
proof (induction n arbitrary: i)
  case (Suc n)
  from Next [OF assms Suc.prems(1)] obtain i' where
    i': "it_Next M d i = (i', pend i \<noteq> [])" "iok i'" "pend i' = tl (pend i)" "pend i \<noteq> [] \<longrightarrow> (it_Key M i', it_Value M i') = hd (pend i)" by blast
  show ?case
  proof (cases "pend i")
    case (Cons e es)
    with Suc.IH [OF i'(2)] Suc.prems(2) i' show ?thesis by simp
  qed (use i' in simp)
qed simp

lemma iterate:
  assumes "ok d" "content d = Some m" "card (dom m) < n"
  shows "read_all M d n (db_NewIterator M start pre d) = (entries start pre m, False)"
proof -
  from NewIterator [OF assms(1,2)] have i: "iok (db_NewIterator M start pre d)" "pend (db_NewIterator M start pre d) = entries start pre m" by auto
  have "finite (dom m)" by (rule finite_content [OF assms(1,2)])
  then have "length (entries start pre m) \<le> card (dom m)" by (simp add: entries_def card_mono)
  then show ?thesis using read_all_pend [OF assms(1) _ i(1), of n] assms(2,3) i(2) by simp
qed

end

section \<open>Sequences of writes\<close>

datatype db_op = DPut bytes bytes | DDelete bytes | DWrite "(bytes \<times> bytes option) list"

text \<open>A batch is filled and written.\<close>

fun fill_batch :: "('d, 'b, 'i) Database \<Rightarrow> (bytes \<times> bytes option) list \<Rightarrow> 'b \<Rightarrow> 'b \<times> go_error option" where
  "fill_batch M [] b = (b, None)"
| "fill_batch M ((k, v) # ops) b =
     (case (case v of None \<Rightarrow> ba_Delete M k b | Some v \<Rightarrow> ba_Put M k v b) of
        (b, Some err) \<Rightarrow> (b, Some err)
      | (b, None) \<Rightarrow> fill_batch M ops b)"

fun db_step :: "('d, 'b, 'i) Database \<Rightarrow> db_op \<Rightarrow> 'd \<Rightarrow> 'd \<times> go_error option" where
  "db_step M (DPut k v) d = db_Put M k v d"
| "db_step M (DDelete k) d = db_Delete M k d"
| "db_step M (DWrite ops) d = (case fill_batch M ops (db_NewBatch M d) of (b, Some err) \<Rightarrow> (d, Some err) | (b, None) \<Rightarrow> ba_Write M b d)"

fun db_run :: "('d, 'b, 'i) Database \<Rightarrow> db_op list \<Rightarrow> 'd \<Rightarrow> 'd \<times> go_error option" where
  "db_run M [] d = (d, None)"
| "db_run M (c # cs) d = (case db_step M c d of (d, Some err) \<Rightarrow> (d, Some err) | (d, None) \<Rightarrow> db_run M cs d)"

fun op_list :: "db_op \<Rightarrow> (bytes \<times> bytes option) list" where
  "op_list (DPut k v) = [(k, Some v)]"
| "op_list (DDelete k) = [(k, None)]"
| "op_list (DWrite ops) = ops"

context database
begin

lemma fill_batch_spec: "bok b \<Longrightarrow> \<exists>b'. fill_batch M ops b = (b', None) \<and> bok b' \<and> queued b' = queued b @ ops"
proof (induction ops arbitrary: b)
  case (Cons op ops)
  obtain k v where op: "op = (k, v)" by (cases op)
  have "\<exists>b1. (case v of None \<Rightarrow> ba_Delete M k b | Some v \<Rightarrow> ba_Put M k v b) = (b1, None) \<and> bok b1 \<and> queued b1 = queued b @ [(k, v)]"
    using batch_Delete [OF Cons.prems, of k] batch_Put [OF Cons.prems, of k] by (cases v) auto
  then obtain b1 where "(case v of None \<Rightarrow> ba_Delete M k b | Some v \<Rightarrow> ba_Put M k v b) = (b1, None)" "bok b1" "queued b1 = queued b @ [(k, v)]" by blast
  with Cons.IH [of b1] show ?case by (auto simp: op)
qed simp

lemma db_step_spec:
  assumes "ok d" "content d = Some m"
  shows "\<exists>d'. db_step M c d = (d', None) \<and> ok d' \<and> content d' = Some (apply_ops (op_list c) m)"
proof (cases c)
  case (DWrite ops)
  from fill_batch_spec [OF conjunct1 [OF NewBatch [OF assms(1)]], of ops] NewBatch [OF assms(1)] obtain b where
    b: "fill_batch M ops (db_NewBatch M d) = (b, None)" "bok b" "queued b = ops" by auto
  from Write [OF assms(1) b(2) assms(2)] b(1,3) DWrite show ?thesis by auto
qed (use Put [OF assms] Delete [OF assms] in auto)

end

end
