(* ===== verification/MemDB.thy ===== *)
theory MemDB
  imports Database
begin

text \<open>
  default/database/memdb/db.go: the database in memory, an interpretation of the contract. A closed database is None; its
  lock makes every method atomic. \<open>ord\<close> is the order in which Go ranges over the map.
\<close>

section \<open>Model\<close>

type_synonym memdb = "kv option"

definition mem_New :: memdb where
  "mem_New = Some Map.empty"

definition mem_Close :: "memdb \<Rightarrow> memdb \<times> go_error option" where
  "mem_Close db = (if db = None then (db, Some ErrClosed) else (None, None))"

definition mem_isClosed :: "memdb \<Rightarrow> bool" where
  "mem_isClosed db \<longleftrightarrow> db = None"

definition mem_Has :: "bytes \<Rightarrow> memdb \<Rightarrow> bool res" where
  "mem_Has key db = (case db of None \<Rightarrow> Inl ErrClosed | Some m \<Rightarrow> Inr (m key \<noteq> None))"

definition mem_Get :: "bytes \<Rightarrow> memdb \<Rightarrow> bytes res" where
  "mem_Get key db = (case db of None \<Rightarrow> Inl ErrClosed | Some m \<Rightarrow> (case m key of Some entry \<Rightarrow> Inr entry | None \<Rightarrow> Inl ErrNotFound))"

definition mem_Put :: "bytes \<Rightarrow> bytes \<Rightarrow> memdb \<Rightarrow> memdb \<times> go_error option" where
  "mem_Put key val db = (case db of None \<Rightarrow> (db, Some ErrClosed) | Some m \<Rightarrow> (Some (m(key \<mapsto> val)), None))"

definition mem_Delete :: "bytes \<Rightarrow> memdb \<Rightarrow> memdb \<times> go_error option" where
  "mem_Delete key db = (case db of None \<Rightarrow> (db, Some ErrClosed) | Some m \<Rightarrow> (Some (m(key := None)), None))"

definition mem_NewBatch :: "memdb \<Rightarrow> BatchOps" where
  "mem_NewBatch db = emptyBatchOps"

record mem_iterator =
  mi_initialized :: bool
  mi_keys :: "bytes list"
  mi_values :: "bytes list"
  mi_err :: "go_error option"

definition mem_NewIterator :: "(bytes set \<Rightarrow> bytes list) \<Rightarrow> bytes \<Rightarrow> bytes \<Rightarrow> memdb \<Rightarrow> mem_iterator iter" where
  "mem_NewIterator ord start pre db =
     (case db of
        None \<Rightarrow> IteratorError ErrClosed
      | Some m \<Rightarrow>
          let keys = sort (filter (\<lambda>key. prefix pre key \<and> key \<ge> start) (ord (dom m)))
          in Iter \<lparr>mi_initialized = False, mi_keys = keys, mi_values = map (\<lambda>key. the (m key)) keys, mi_err = None\<rparr>)"

definition mem_Compact :: "bytes option \<Rightarrow> bytes option \<Rightarrow> memdb \<Rightarrow> go_error option" where
  "mem_Compact start limit db = (if db = None then Some ErrClosed else None)"

definition mem_HealthCheck :: "memdb \<Rightarrow> go_error option" where
  "mem_HealthCheck db = (if mem_isClosed db then Some ErrClosed else None)"

definition write_op :: "kv \<Rightarrow> BatchOp \<Rightarrow> kv" where
  "write_op m op = (if op_Delete op then m(op_Key op := None) else m(op_Key op \<mapsto> op_Value op))"

definition mem_Write :: "BatchOps \<Rightarrow> memdb \<Rightarrow> memdb \<times> go_error option" where
  "mem_Write b db = (case db of None \<Rightarrow> (db, Some ErrClosed) | Some m \<Rightarrow> (Some (foldl write_op m (Ops b)), None))"

definition mi_Next :: "memdb \<Rightarrow> mem_iterator \<Rightarrow> mem_iterator \<times> bool" where
  "mi_Next db it =
     (if mem_isClosed db then (it\<lparr>mi_keys := [], mi_values := [], mi_err := Some ErrClosed\<rparr>, False)
      else if \<not> mi_initialized it then (it\<lparr>mi_initialized := True\<rparr>, length (mi_keys it) > 0)
      else let it = (if length (mi_keys it) > 0 then it\<lparr>mi_keys := tl (mi_keys it), mi_values := tl (mi_values it)\<rparr> else it)
           in (it, length (mi_keys it) > 0))"

definition mi_Key :: "mem_iterator \<Rightarrow> bytes" where
  "mi_Key it = (if length (mi_keys it) > 0 then hd (mi_keys it) else [])"

definition mi_Value :: "mem_iterator \<Rightarrow> bytes" where
  "mi_Value it = (if length (mi_values it) > 0 then hd (mi_values it) else [])"

definition mi_Release :: "mem_iterator \<Rightarrow> mem_iterator" where
  "mi_Release it = it\<lparr>mi_keys := [], mi_values := []\<rparr>"

definition memdb :: "(bytes set \<Rightarrow> bytes list) \<Rightarrow> (memdb, BatchOps, mem_iterator iter) Database" where
  "memdb ord = \<lparr>db_Has = mem_Has, db_Get = mem_Get, db_Put = mem_Put, db_Delete = mem_Delete, db_NewBatch = mem_NewBatch,
     db_NewIterator = mem_NewIterator ord, db_Compact = mem_Compact, db_Close = mem_Close, db_HealthCheck = mem_HealthCheck,
     ba_Put = bo_Put, ba_Delete = bo_Delete, ba_Size = bo_Size, ba_Write = mem_Write, ba_Reset = bo_Reset,
     it_Next = (\<lambda>db. dbi_Next (mi_Next db)), it_Error = dbi_Error mi_err, it_Key = dbi_get mi_Key, it_Value = dbi_get mi_Value,
     it_Release = dbi_Release mi_Release\<rparr>"

section \<open>memdb satisfies the contract\<close>

definition op_pair :: "BatchOp \<Rightarrow> bytes \<times> bytes option" where
  "op_pair op = (op_Key op, if op_Delete op then None else Some (op_Value op))"

definition bo_queued :: "BatchOps \<Rightarrow> (bytes \<times> bytes option) list" where
  "bo_queued b = map op_pair (Ops b)"

lemma bo_queued_simps:
  "bo_queued emptyBatchOps = []" "bo_queued (fst (bo_Put k v b)) = bo_queued b @ [(k, Some v)]" "bo_queued (fst (bo_Delete k b)) = bo_queued b @ [(k, None)]"
  "bo_queued (bo_Reset b) = bo_queued b"
  by (simp_all add: bo_queued_def emptyBatchOps_def bo_Put_def bo_Delete_def bo_Reset_def op_pair_def)

lemma foldl_write_op: "foldl write_op m ops = apply_ops (map op_pair ops) m"
  by (induction ops arbitrary: m) (auto simp: write_op_def op_pair_def)

definition mi_pend :: "mem_iterator iter \<Rightarrow> (bytes \<times> bytes) list" where
  "mi_pend it = (case it of IteratorError e \<Rightarrow> []
     | Iter i \<Rightarrow> (if mi_initialized i then tl (zip (mi_keys i) (mi_values i)) else zip (mi_keys i) (mi_values i)))"

definition mi_ok :: "mem_iterator iter \<Rightarrow> bool" where
  "mi_ok it = (case it of IteratorError e \<Rightarrow> e = ErrClosed | Iter i \<Rightarrow> length (mi_keys i) = length (mi_values i))"

definition mem_ok :: "memdb \<Rightarrow> bool" where
  "mem_ok db \<longleftrightarrow> (\<forall>m. db = Some m \<longrightarrow> finite (dom m))"

lemma range_keys_sorted:
  assumes o: "valid_ord ord" and f: "finite (dom m)"
  shows "sort (filter (\<lambda>key. prefix pre key \<and> key \<ge> start) (ord (dom m))) = sorted_list_of_set {k \<in> dom m. in_range start pre k}"
proof (rule sorted_distinct_set_unique)
  show "distinct (sort (filter (\<lambda>key. prefix pre key \<and> key \<ge> start) (ord (dom m))))" using valid_ordD [OF o f] by simp
  show "set (sort (filter (\<lambda>key. prefix pre key \<and> key \<ge> start) (ord (dom m)))) = set (sorted_list_of_set {k \<in> dom m. in_range start pre k})"
    using valid_ordD [OF o f] f by (auto simp: in_range_def)
qed simp_all

lemma mem_NewIterator_entries:
  assumes "valid_ord ord" "finite (dom m)"
  shows "mi_pend (mem_NewIterator ord start pre (Some m)) = entries start pre m"
  by (simp add: mem_NewIterator_def mi_pend_def entries_def Let_def zip_map2 zip_same_conv_map range_keys_sorted [OF assms])

lemma mi_Next_open:
  assumes "mi_ok i"
  shows "\<exists>i'. dbi_Next (mi_Next (Some m)) i = (i', mi_pend i \<noteq> []) \<and> mi_ok i' \<and> dbi_Error mi_err i' = dbi_Error mi_err i \<and> mi_pend i' = tl (mi_pend i) \<and>
    (mi_pend i \<noteq> [] \<longrightarrow> (dbi_get mi_Key i', dbi_get mi_Value i') = hd (mi_pend i))"
proof (cases i)
  case (IteratorError e)
  then show ?thesis using assms by (simp add: dbi_defs mi_pend_def mi_ok_def)
next
  case (Iter r)
  obtain b ks vs e where r: "r = \<lparr>mi_initialized = b, mi_keys = ks, mi_values = vs, mi_err = e\<rparr>" by (cases r)
  have l: "length ks = length vs" using assms Iter r by (simp add: mi_ok_def)
  consider "ks = []" | k v ks' vs' where "ks = k # ks'" "vs = v # vs'" "length ks' = length vs'" using l by (cases ks; cases vs) auto
  then show ?thesis
  proof cases
    case 1
    then show ?thesis using Iter r l by (cases b) (simp_all add: dbi_defs mi_pend_def mi_ok_def mi_Next_def mem_isClosed_def)
  next
    case (2 k v ks' vs')
    then show ?thesis using Iter r
      by (cases b; cases ks'; cases vs') (simp_all add: dbi_defs mi_pend_def mi_ok_def mi_Next_def mem_isClosed_def mi_Key_def mi_Value_def)
  qed
qed

text \<open>The order of ranging over a map.\<close>

locale map_order =
  fixes ord :: "bytes set \<Rightarrow> bytes list"
  assumes valid: "valid_ord ord"

interpretation ascending: map_order sorted_list_of_set
  by unfold_locales (simp add: valid_ord_def)

sublocale map_order \<subseteq> mem: database "memdb ord" mem_ok id "\<lambda>_. True" bo_queued mi_ok mi_pend
proof (unfold_locales, goal_cases)
  case (18 d m start pre)
  then show ?case using mem_NewIterator_entries [OF valid, of m start pre]
    by (simp add: memdb_def mem_ok_def) (simp add: mem_NewIterator_def mi_ok_def dbi_Error_def Let_def)
next
  case (19 d start pre)
  then show ?case by (simp add: memdb_def mem_NewIterator_def mi_ok_def dbi_Error_def mi_pend_def)
next
  case (20 d i)
  then obtain m where "d = Some m" by auto
  with mi_Next_open [OF 20(3), of m] show ?case by (simp add: memdb_def)
next
  case (21 d i)
  then show ?case by (cases i) (simp_all add: memdb_def dbi_defs mi_Next_def mem_isClosed_def mi_ok_def)
qed (auto simp: memdb_def mem_ok_def mem_Has_def mem_Get_def mem_Put_def mem_Delete_def mem_Close_def mem_Compact_def mem_HealthCheck_def
    mem_isClosed_def mem_NewBatch_def mem_Write_def bo_queued_simps foldl_write_op apply_ops_finite bo_queued_def bo_Put_def bo_Delete_def
    bo_Reset_def op_pair_def emptyBatchOps_def split: option.splits)

context map_order
begin

lemmas memdb_database = mem.database_axioms

end

end
