(* ===== verification/VersionDB.thy ===== *)
theory VersionDB
  imports MemDB
begin

text \<open>
  default/database/versiondb/db.go: a database that keeps changes in memory until they are committed to the
  database below it, over any database that satisfies the contract. \<open>v_db\<close> is the database behind the pointer \<^verbatim>\<open>db\<close>; Close
  sets \<^verbatim>\<open>mem\<close>, \<^verbatim>\<open>db\<close> and \<^verbatim>\<open>batch\<close> to nil together, so a closed database is one with \<open>v_mem = None\<close>. An iterator reads the
  database below in its present state; SetDatabase while an iterator is open is not covered.
\<close>

section \<open>Model\<close>

record valueDelete =
  vd_value :: bytes
  vd_delete :: bool

record ('d, 'b) versiondb =
  v_mem :: "(bytes \<rightharpoonup> valueDelete) option"
  v_db :: 'd
  v_batch :: 'b

definition v_New :: "('d, 'b, 'i) Database \<Rightarrow> 'd \<Rightarrow> ('d, 'b) versiondb" where
  "v_New M db = \<lparr>v_mem = Some Map.empty, v_db = db, v_batch = db_NewBatch M db\<rparr>"

definition v_isClosed :: "('d, 'b) versiondb \<Rightarrow> bool" where
  "v_isClosed s \<longleftrightarrow> v_mem s = None"

definition v_Has :: "('d, 'b, 'i) Database \<Rightarrow> bytes \<Rightarrow> ('d, 'b) versiondb \<Rightarrow> bool res" where
  "v_Has M key s =
     (case v_mem s of
        None \<Rightarrow> Inl ErrClosed
      | Some mem \<Rightarrow> (case mem key of Some val \<Rightarrow> Inr (\<not> vd_delete val) | None \<Rightarrow> db_Has M key (v_db s)))"

definition v_Get :: "('d, 'b, 'i) Database \<Rightarrow> bytes \<Rightarrow> ('d, 'b) versiondb \<Rightarrow> bytes res" where
  "v_Get M key s =
     (case v_mem s of
        None \<Rightarrow> Inl ErrClosed
      | Some mem \<Rightarrow>
          (case mem key of
             Some val \<Rightarrow> if vd_delete val then Inl ErrNotFound else Inr (vd_value val)
           | None \<Rightarrow> db_Get M key (v_db s)))"

definition v_Put :: "bytes \<Rightarrow> bytes \<Rightarrow> ('d, 'b) versiondb \<Rightarrow> ('d, 'b) versiondb \<times> go_error option" where
  "v_Put key val s =
     (case v_mem s of
        None \<Rightarrow> (s, Some ErrClosed)
      | Some mem \<Rightarrow> (s\<lparr>v_mem := Some (mem(key \<mapsto> \<lparr>vd_value = val, vd_delete = False\<rparr>))\<rparr>, None))"

definition v_Delete :: "bytes \<Rightarrow> ('d, 'b) versiondb \<Rightarrow> ('d, 'b) versiondb \<times> go_error option" where
  "v_Delete key s =
     (case v_mem s of
        None \<Rightarrow> (s, Some ErrClosed)
      | Some mem \<Rightarrow> (s\<lparr>v_mem := Some (mem(key \<mapsto> \<lparr>vd_value = [], vd_delete = True\<rparr>))\<rparr>, None))"

definition v_NewBatch :: "('d, 'b) versiondb \<Rightarrow> BatchOps" where
  "v_NewBatch s = emptyBatchOps"

record 'i v_iterator =
  vi_Iterator :: 'i
  vi_key :: bytes
  vi_value :: bytes
  vi_err :: "go_error option"
  vi_keys :: "bytes list"
  vi_values :: "valueDelete list"
  vi_initialized :: bool
  vi_exhausted :: bool

definition v_NewIterator :: "(bytes set \<Rightarrow> bytes list) \<Rightarrow> ('d, 'b, 'i) Database \<Rightarrow> bytes \<Rightarrow> bytes \<Rightarrow> ('d, 'b) versiondb \<Rightarrow> 'i v_iterator iter" where
  "v_NewIterator ord M start pre s =
     (case v_mem s of
        None \<Rightarrow> IteratorError ErrClosed
      | Some mem \<Rightarrow>
          let keys = sort (filter (\<lambda>key. prefix pre key \<and> key \<ge> start) (ord (dom mem)))
          in Iter \<lparr>vi_Iterator = db_NewIterator M start pre (v_db s), vi_key = [], vi_value = [], vi_err = None,
                vi_keys = keys, vi_values = map (\<lambda>key. the (mem key)) keys, vi_initialized = False, vi_exhausted = False\<rparr>)"

definition v_Compact :: "('d, 'b, 'i) Database \<Rightarrow> bytes option \<Rightarrow> bytes option \<Rightarrow> ('d, 'b) versiondb \<Rightarrow> go_error option" where
  "v_Compact M start limit s = (if v_mem s = None then Some ErrClosed else db_Compact M start limit (v_db s))"

definition v_SetDatabase :: "('d, 'b, 'i) Database \<Rightarrow> 'd \<Rightarrow> ('d, 'b) versiondb \<Rightarrow> ('d, 'b) versiondb \<times> go_error option" where
  "v_SetDatabase M newDB s = (if v_mem s = None then (s, Some ErrClosed) else (s\<lparr>v_db := newDB, v_batch := db_NewBatch M newDB\<rparr>, None))"

definition v_GetDatabase :: "('d, 'b) versiondb \<Rightarrow> 'd option" where
  "v_GetDatabase s = (if v_isClosed s then None else Some (v_db s))"

definition v_Abort :: "('d, 'b) versiondb \<Rightarrow> ('d, 'b) versiondb" where
  "v_Abort s = s\<lparr>v_mem := map_option (\<lambda>_. Map.empty) (v_mem s)\<rparr>"

text \<open>The changes in the order of the range.\<close>

fun queue_changes :: "('d, 'b, 'i) Database \<Rightarrow> (bytes \<times> valueDelete) list \<Rightarrow> 'b \<Rightarrow> 'b \<times> go_error option" where
  "queue_changes M [] b = (b, None)"
| "queue_changes M ((key, val) # rest) b =
     (case (if vd_delete val then ba_Delete M key b else ba_Put M key (vd_value val) b) of
        (b, Some err) \<Rightarrow> (b, Some err)
      | (b, None) \<Rightarrow> queue_changes M rest b)"

definition v_commitBatch :: "(bytes set \<Rightarrow> bytes list) \<Rightarrow> ('d, 'b, 'i) Database \<Rightarrow> ('d, 'b) versiondb \<Rightarrow> ('d, 'b) versiondb \<times> go_error option" where
  "v_commitBatch ord M s =
     (case v_mem s of
        None \<Rightarrow> (s, Some ErrClosed)
      | Some mem \<Rightarrow>
          (case queue_changes M (map (\<lambda>key. (key, the (mem key))) (ord (dom mem))) (ba_Reset M (v_batch s)) of
             (b, err) \<Rightarrow> (s\<lparr>v_batch := b\<rparr>, err)))"

text \<open>The batch that CommitBatch returns is the field \<^verbatim>\<open>batch\<close>; its client may write it.\<close>

definition v_CommitBatch :: "(bytes set \<Rightarrow> bytes list) \<Rightarrow> ('d, 'b, 'i) Database \<Rightarrow> ('d, 'b) versiondb \<Rightarrow> ('d, 'b) versiondb \<times> 'b res" where
  "v_CommitBatch ord M s = (case v_commitBatch ord M s of (s, Some err) \<Rightarrow> (s, Inl err) | (s, None) \<Rightarrow> (s, Inr (v_batch s)))"

definition v_Commit :: "(bytes set \<Rightarrow> bytes list) \<Rightarrow> ('d, 'b, 'i) Database \<Rightarrow> ('d, 'b) versiondb \<Rightarrow> ('d, 'b) versiondb \<times> go_error option" where
  "v_Commit ord M s =
     (case v_commitBatch ord M s of
        (s, Some err) \<Rightarrow> (s, Some err)
      | (s, None) \<Rightarrow>
          (case ba_Write M (v_batch s) (v_db s) of
             (db, Some err) \<Rightarrow> (s\<lparr>v_db := db\<rparr>, Some err)
           | (db, None) \<Rightarrow> (v_Abort (s\<lparr>v_db := db, v_batch := ba_Reset M (v_batch s)\<rparr>), None)))"

definition v_Close :: "('d, 'b) versiondb \<Rightarrow> ('d, 'b) versiondb \<times> go_error option" where
  "v_Close s = (if v_mem s = None then (s, Some ErrClosed) else (s\<lparr>v_mem := None\<rparr>, None))"

definition v_HealthCheck :: "('d, 'b, 'i) Database \<Rightarrow> ('d, 'b) versiondb \<Rightarrow> go_error option" where
  "v_HealthCheck M s = (if v_mem s = None then Some ErrClosed else db_HealthCheck M (v_db s))"

definition v_write_op :: "(bytes \<rightharpoonup> valueDelete) \<Rightarrow> BatchOp \<Rightarrow> bytes \<rightharpoonup> valueDelete" where
  "v_write_op mem op = mem(op_Key op \<mapsto> \<lparr>vd_value = op_Value op, vd_delete = op_Delete op\<rparr>)"

definition v_Write :: "BatchOps \<Rightarrow> ('d, 'b) versiondb \<Rightarrow> ('d, 'b) versiondb \<times> go_error option" where
  "v_Write b s = (case v_mem s of None \<Rightarrow> (s, Some ErrClosed) | Some mem \<Rightarrow> (s\<lparr>v_mem := Some (foldl v_write_op mem (Ops b))\<rparr>, None))"

text \<open>The loop of Next; a round that does not return consumes a change that deletes a key.\<close>

definition drop_change :: "'i v_iterator \<Rightarrow> 'i v_iterator" where
  "drop_change it = it\<lparr>vi_keys := tl (vi_keys it), vi_values := tl (vi_values it)\<rparr>"

definition advance :: "('d, 'b, 'i) Database \<Rightarrow> 'd \<Rightarrow> 'i v_iterator \<Rightarrow> 'i v_iterator" where
  "advance M db it = (case it_Next M db (vi_Iterator it) of (i, hasNext) \<Rightarrow> it\<lparr>vi_Iterator := i, vi_exhausted := \<not> hasNext\<rparr>)"

function vi_loop :: "('d, 'b, 'i) Database \<Rightarrow> 'd \<Rightarrow> 'i v_iterator \<Rightarrow> 'i v_iterator \<times> bool" where
  "vi_loop M db it =
     (if vi_exhausted it \<and> vi_keys it = [] then (it\<lparr>vi_key := [], vi_value := []\<rparr>, False)
      else if vi_exhausted it then
        (let nextKey = hd (vi_keys it); nextValue = hd (vi_values it); it = drop_change it
         in if \<not> vd_delete nextValue then (it\<lparr>vi_key := nextKey, vi_value := vd_value nextValue\<rparr>, True)
            else vi_loop M db it)
      else if vi_keys it = [] then
        (advance M db (it\<lparr>vi_key := it_Key M (vi_Iterator it), vi_value := it_Value M (vi_Iterator it)\<rparr>), True)
      else
        (let memKey = hd (vi_keys it); memValue = hd (vi_values it); dbKey = it_Key M (vi_Iterator it)
         in if memKey < dbKey then
              (let it = drop_change it
               in if \<not> vd_delete memValue then (it\<lparr>vi_key := memKey, vi_value := vd_value memValue\<rparr>, True)
                  else vi_loop M db it)
            else if dbKey < memKey then
              (advance M db (it\<lparr>vi_key := dbKey, vi_value := it_Value M (vi_Iterator it)\<rparr>), True)
            else
              (let it = advance M db (drop_change it)
               in if \<not> vd_delete memValue then (it\<lparr>vi_key := memKey, vi_value := vd_value memValue\<rparr>, True)
                  else vi_loop M db it)))"
  by pat_completeness auto
termination
  by (relation "measure (\<lambda>(M, db, it). length (vi_keys it))") (auto simp: drop_change_def advance_def split: prod.splits)

declare vi_loop.simps [simp del]

definition vi_Next :: "('d, 'b, 'i) Database \<Rightarrow> ('d, 'b) versiondb \<Rightarrow> 'i v_iterator \<Rightarrow> 'i v_iterator \<times> bool" where
  "vi_Next M s it =
     (if v_isClosed s then (it\<lparr>vi_key := [], vi_value := [], vi_err := Some ErrClosed\<rparr>, False)
      else vi_loop M (v_db s) (if \<not> vi_initialized it then (advance M (v_db s) it)\<lparr>vi_initialized := True\<rparr> else it))"

definition vi_Error :: "('d, 'b, 'i) Database \<Rightarrow> 'i v_iterator \<Rightarrow> go_error option" where
  "vi_Error M it = (if vi_err it \<noteq> None then vi_err it else it_Error M (vi_Iterator it))"

definition vi_Release :: "('d, 'b, 'i) Database \<Rightarrow> 'i v_iterator \<Rightarrow> 'i v_iterator" where
  "vi_Release M it = it\<lparr>vi_key := [], vi_value := [], vi_keys := [], vi_values := [], vi_Iterator := it_Release M (vi_Iterator it)\<rparr>"

definition versiondb :: "(bytes set \<Rightarrow> bytes list) \<Rightarrow> ('d, 'b, 'i) Database \<Rightarrow> (('d, 'b) versiondb, BatchOps, 'i v_iterator iter) Database" where
  "versiondb ord M = \<lparr>db_Has = v_Has M, db_Get = v_Get M, db_Put = v_Put, db_Delete = v_Delete, db_NewBatch = v_NewBatch,
     db_NewIterator = v_NewIterator ord M, db_Compact = v_Compact M, db_Close = v_Close, db_HealthCheck = v_HealthCheck M,
     ba_Put = bo_Put, ba_Delete = bo_Delete, ba_Size = bo_Size, ba_Write = v_Write, ba_Reset = bo_Reset,
     it_Next = (\<lambda>s. dbi_Next (vi_Next M s)), it_Error = dbi_Error (vi_Error M), it_Key = dbi_get vi_key, it_Value = dbi_get vi_value,
     it_Release = dbi_Release (vi_Release M)\<rparr>"

section \<open>Merging the changes with the database below\<close>

definition change :: "valueDelete \<Rightarrow> bytes option" where
  "change val = (if vd_delete val then None else Some (vd_value val))"

definition overlay :: "(bytes \<rightharpoonup> valueDelete) \<Rightarrow> kv \<Rightarrow> kv" where
  "overlay mem m k = (case mem k of None \<Rightarrow> m k | Some val \<Rightarrow> change val)"

lemma overlay_upd [simp]: "overlay (mem(k \<mapsto> val)) m = (overlay mem m)(k := change val)"
  by (auto simp: overlay_def fun_eq_iff)

lemma overlay_empty [simp]: "overlay Map.empty m = m"
  by (simp add: overlay_def fun_eq_iff)

lemma overlay_finite: "finite (dom mem) \<Longrightarrow> finite (dom m) \<Longrightarrow> finite (dom (overlay mem m))"
  by (rule finite_subset [of _ "dom mem \<union> dom m"]) (auto simp: overlay_def dom_def split: option.splits)

fun merge :: "('k :: linorder \<times> valueDelete) list \<Rightarrow> ('k \<times> bytes) list \<Rightarrow> ('k \<times> bytes) list" where
  "merge [] es = es"
| "merge ((k, val) # ms) [] = (if vd_delete val then merge ms [] else (k, vd_value val) # merge ms [])"
| "merge ((k, val) # ms) ((k', v) # es) =
     (if k < k' then (if vd_delete val then merge ms ((k', v) # es) else (k, vd_value val) # merge ms ((k', v) # es))
      else if k' < k then (k', v) # merge ((k, val) # ms) es
      else (if vd_delete val then merge ms es else (k, vd_value val) # merge ms es))"

lemma merge_steps:
  "k < k' \<Longrightarrow> merge ((k, val) # ms) ((k', v) # es) = (if vd_delete val then [] else [(k, vd_value val)]) @ merge ms ((k', v) # es)"
  "k' < k \<Longrightarrow> merge ((k, val) # ms) ((k', v) # es) = (k', v) # merge ((k, val) # ms) es"
  "merge ((k, val) # ms) ((k, v) # es) = (if vd_delete val then [] else [(k, vd_value val)]) @ merge ms es"
  "merge ((k, val) # ms) [] = (if vd_delete val then [] else [(k, vd_value val)]) @ merge ms []"
  using less_asym [of k k'] by auto

lemma merge_rule [case_names Nil Left Less Greater Same]:
  assumes "\<And>es. P [] es" "\<And>k val ms. P ms [] \<Longrightarrow> P ((k, val) # ms) []"
    "\<And>k val ms k' v es. k < k' \<Longrightarrow> P ms ((k', v) # es) \<Longrightarrow> P ((k, val) # ms) ((k', v) # es)"
    "\<And>k val ms k' v es. k' < k \<Longrightarrow> P ((k, val) # ms) es \<Longrightarrow> P ((k, val) # ms) ((k', v) # es)"
    "\<And>k val ms v es. P ms es \<Longrightarrow> P ((k, val) # ms) ((k, v) # es)"
  shows "P (ms :: ('k \<times> valueDelete) list) (es :: ('k :: linorder \<times> bytes) list)"
proof (induction ms es rule: merge.induct)
  case (2 k val ms)
  then show ?case using assms(2) by blast
next
  case (3 k val ms k' v es)
  show ?case
  proof (cases k k' rule: linorder_cases)
    case less
    then show ?thesis using 3(1,2) assms(3) by blast
  next
    case equal
    then show ?thesis using 3(4,5) assms(5) by blast
  next
    case greater
    then show ?thesis using 3(3) assms(4) less_asym by blast
  qed
qed (rule assms)

declare merge.simps(2,3) [simp del] merge_steps(3,4) [simp]

lemma merge_keys: "x \<in> set (merge ms es) \<Longrightarrow> fst x \<in> fst ` set ms \<or> fst x \<in> fst ` set es"
  by (induction ms es rule: merge_rule) (auto simp: merge_steps(1,2) split: if_splits)

lemma merge_above: "\<forall>x \<in> set ms. b < fst x \<Longrightarrow> \<forall>x \<in> set es. b < fst x \<Longrightarrow> \<forall>x \<in> set (merge ms es). b < fst x"
  using merge_keys [of _ ms es] by (metis imageE)

lemma merge_sorted: "sorted_wrt (<) (map fst ms) \<Longrightarrow> sorted_wrt (<) (map fst es) \<Longrightarrow> sorted_wrt (<) (map fst (merge ms es))"
proof (induction ms es rule: merge_rule)
  case (Left k val ms)
  then show ?case using merge_above [of ms k "[]"] by simp
next
  case (Less k val ms k' v es)
  then have "\<forall>x \<in> set ((k', v) # es). k < fst x" by (auto intro: less_trans)
  with Less merge_above [of ms k "(k', v) # es"] show ?case by (simp add: merge_steps(1))
next
  case (Greater k val ms k' v es)
  then have "\<forall>x \<in> set ((k, val) # ms). k' < fst x" by (auto intro: less_trans)
  with Greater merge_above [of "(k, val) # ms" k' es] show ?case by (simp add: merge_steps(2))
next
  case (Same k val ms v es)
  then show ?case using merge_above [of ms k es] by simp
qed simp

lemma map_of_above: "\<forall>x \<in> set xs. (k :: 'k :: linorder) < fst x \<Longrightarrow> k' \<le> k \<Longrightarrow> map_of xs k' = None"
  by (induction xs) auto

lemma merge_lookup:
  "sorted_wrt (<) (map fst ms) \<Longrightarrow> sorted_wrt (<) (map fst es) \<Longrightarrow>
   map_of (merge ms es) k = (case map_of ms k of None \<Rightarrow> map_of es k | Some val \<Rightarrow> change val)"
proof (induction ms es rule: merge_rule)
  case (Left k' val ms)
  then show ?case using map_of_above [of ms k' k'] by (auto simp: change_def)
next
  case (Less k1 val ms k2 w es)
  then have "map_of ((k2, w) # es) k1 = None" "map_of ms k1 = None" using map_of_above [of es k2 k1] map_of_above [of ms k1 k1] by auto
  with Less show ?case by (auto simp: merge_steps(1) change_def)
next
  case (Greater k1 val ms k2 w es)
  then have "map_of ((k1, val) # ms) k2 = None" using map_of_above [of ms k1 k2] by auto
  with Greater show ?case by (auto simp: merge_steps(2) split: option.splits)
next
  case (Same k' val ms w es)
  then have "map_of ms k' = None" "map_of es k' = None" using map_of_above [of _ k' k'] by auto
  with Same show ?case by (auto simp: change_def split: option.splits)
qed simp

lemma map_of_entries: "finite (dom m) \<Longrightarrow> map_of (entries start pre m) k = (if in_range start pre k then m k else None)"
proof (cases "map_of (entries start pre m) k")
  case None
  assume "finite (dom m)"
  with None entries_props(2) [of m start pre] show ?thesis by (cases "m k") (auto simp: map_of_eq_None_iff image_iff)
next
  case (Some v)
  assume "finite (dom m)"
  with map_of_SomeD [OF Some] entries_props(2) [of m start pre] Some show ?thesis by simp
qed

lemma merge_entries:
  assumes "finite (dom mem)" "finite (dom m)"
  shows "merge (entries start pre mem) (entries start pre m) = entries start pre (overlay mem m)"
proof (rule sym, rule entries_unique)
  note e = entries_props [OF assms(1), of start pre] entries_props [OF assms(2), of start pre]
  show "sorted_wrt (<) (map fst (merge (entries start pre mem) (entries start pre m)))" by (rule merge_sorted) (rule e)+
  then have d: "distinct (map fst (merge (entries start pre mem) (entries start pre m)))" by (simp add: strict_sorted_iff)
  have "(k, v) \<in> set (merge (entries start pre mem) (entries start pre m)) \<longleftrightarrow> overlay mem m k = Some v \<and> in_range start pre k" for k v
    unfolding map_of_eq_Some_iff [OF d, symmetric] merge_lookup [OF e(1,3)] map_of_entries [OF assms(1)] map_of_entries [OF assms(2)]
    by (simp add: overlay_def)
  then show "set (merge (entries start pre mem) (entries start pre m)) = {(k, v). overlay mem m k = Some v \<and> in_range start pre k}" by auto
qed (rule overlay_finite [OF assms])

section \<open>versiondb satisfies the contract\<close>

definition v_content :: "('d \<Rightarrow> kv option) \<Rightarrow> ('d, 'b) versiondb \<Rightarrow> kv option" where
  "v_content content s = (case v_mem s of None \<Rightarrow> None | Some mem \<Rightarrow> map_option (overlay mem) (content (v_db s)))"

definition v_ok :: "('d \<Rightarrow> bool) \<Rightarrow> ('d \<Rightarrow> kv option) \<Rightarrow> ('b \<Rightarrow> bool) \<Rightarrow> ('d, 'b) versiondb \<Rightarrow> bool" where
  "v_ok ok content bok s \<longleftrightarrow>
     (\<forall>mem. v_mem s = Some mem \<longrightarrow> finite (dom mem) \<and> ok (v_db s) \<and> content (v_db s) \<noteq> None \<and> bok (v_batch s))"

definition below :: "('d, 'b, 'i) Database \<Rightarrow> ('i \<Rightarrow> (bytes \<times> bytes) list) \<Rightarrow> 'i v_iterator \<Rightarrow> (bytes \<times> bytes) list" where
  "below M pend it = (if \<not> vi_initialized it then pend (vi_Iterator it) else if vi_exhausted it then []
     else (it_Key M (vi_Iterator it), it_Value M (vi_Iterator it)) # pend (vi_Iterator it))"

definition vi_rest :: "('d, 'b, 'i) Database \<Rightarrow> ('i \<Rightarrow> (bytes \<times> bytes) list) \<Rightarrow> 'i v_iterator \<Rightarrow> (bytes \<times> bytes) list" where
  "vi_rest M pend it = merge (zip (vi_keys it) (vi_values it)) (below M pend it)"

definition vi_wf :: "('i \<Rightarrow> bool) \<Rightarrow> 'i v_iterator \<Rightarrow> bool" where
  "vi_wf iok it \<longleftrightarrow> iok (vi_Iterator it) \<and> length (vi_keys it) = length (vi_values it)"

definition vi_pend :: "('d, 'b, 'i) Database \<Rightarrow> ('i \<Rightarrow> (bytes \<times> bytes) list) \<Rightarrow> 'i v_iterator iter \<Rightarrow> (bytes \<times> bytes) list" where
  "vi_pend M pend it = (case it of IteratorError e \<Rightarrow> [] | Iter i \<Rightarrow> vi_rest M pend i)"

definition vi_ok :: "('i \<Rightarrow> bool) \<Rightarrow> 'i v_iterator iter \<Rightarrow> bool" where
  "vi_ok iok it = (case it of IteratorError e \<Rightarrow> e = ErrClosed | Iter i \<Rightarrow> vi_wf iok i)"

text \<open>What a call to Next owes its caller when \<open>es\<close> are the entries still to come.\<close>

definition delivers :: "('d, 'b, 'i) Database \<Rightarrow> ('i \<Rightarrow> bool) \<Rightarrow> ('i \<Rightarrow> (bytes \<times> bytes) list) \<Rightarrow> 'i v_iterator \<Rightarrow> (bytes \<times> bytes) list \<Rightarrow> 'i v_iterator \<times> bool \<Rightarrow> bool" where
  "delivers M iok pend it es r \<longleftrightarrow> snd r = (es \<noteq> []) \<and> vi_wf iok (fst r) \<and> vi_Error M (fst r) = vi_Error M it \<and> vi_rest M pend (fst r) = tl es \<and>
     (es \<noteq> [] \<longrightarrow> (vi_key (fst r), vi_value (fst r)) = hd es)"

lemma set_key_value [simp]:
  "vi_wf iok (it\<lparr>vi_key := k, vi_value := v\<rparr>) = vi_wf iok it" "vi_Error M (it\<lparr>vi_key := k, vi_value := v\<rparr>) = vi_Error M it"
  "vi_rest M pend (it\<lparr>vi_key := k, vi_value := v\<rparr>) = vi_rest M pend it"
  "vi_wf iok (it\<lparr>vi_initialized := b\<rparr>) = vi_wf iok it" "vi_Error M (it\<lparr>vi_initialized := b\<rparr>) = vi_Error M it"
  by (simp_all add: vi_wf_def vi_Error_def vi_rest_def below_def)

lemma delivers_emit:
  assumes "vi_wf iok it'" "vi_Error M it' = vi_Error M it" "es = (k, v) # vi_rest M pend it'"
  shows "delivers M iok pend it es (it'\<lparr>vi_key := k, vi_value := v\<rparr>, True)"
  using assms by (simp add: delivers_def)

lemma delivers_cong: "vi_Error M it' = vi_Error M it \<Longrightarrow> delivers M iok pend it' es r = delivers M iok pend it es r"
  by (simp add: delivers_def)

lemma drop_change_facts:
  assumes "vi_wf iok it"
  shows "vi_wf iok (drop_change it)" "vi_Error M (drop_change it) = vi_Error M it" "vi_initialized (drop_change it) = vi_initialized it"
    "vi_exhausted (drop_change it) = vi_exhausted it" "vi_keys (drop_change it) = tl (vi_keys it)" "vi_values (drop_change it) = tl (vi_values it)"
    "below M pend (drop_change it) = below M pend it" "vi_Iterator (drop_change it) = vi_Iterator it"
  using assms by (simp_all add: drop_change_def vi_wf_def vi_Error_def below_def)

locale versioned_database = database M ok content bok queued iok pend + map_order ord
  for M :: "('d, 'b, 'i) Database" and ok content bok queued iok pend ord
begin

lemma advance_facts:
  assumes d: "ok d" "content d \<noteq> None" and w: "vi_wf iok it"
  shows "vi_wf iok (advance M d it)" "vi_Error M (advance M d it) = vi_Error M it" "vi_initialized (advance M d it) = vi_initialized it"
    "vi_keys (advance M d it) = vi_keys it" "vi_values (advance M d it) = vi_values it"
    "below M pend ((advance M d it)\<lparr>vi_initialized := True\<rparr>) = pend (vi_Iterator it)"
    "vi_key (advance M d it) = vi_key it" "vi_value (advance M d it) = vi_value it"
proof -
  have "iok (vi_Iterator it)" using w by (simp add: vi_wf_def)
  from Next [OF d this] obtain i' where i': "it_Next M d (vi_Iterator it) = (i', pend (vi_Iterator it) \<noteq> [])" "iok i'"
    "it_Error M i' = it_Error M (vi_Iterator it)" "pend i' = tl (pend (vi_Iterator it))"
    "pend (vi_Iterator it) \<noteq> [] \<longrightarrow> (it_Key M i', it_Value M i') = hd (pend (vi_Iterator it))" by blast
  then have a: "advance M d it = it\<lparr>vi_Iterator := i', vi_exhausted := pend (vi_Iterator it) = []\<rparr>" by (simp add: advance_def)
  show "below M pend ((advance M d it)\<lparr>vi_initialized := True\<rparr>) = pend (vi_Iterator it)"
    using i' by (cases "pend (vi_Iterator it)") (simp_all add: below_def a)
  show "vi_wf iok (advance M d it)" "vi_Error M (advance M d it) = vi_Error M it" "vi_initialized (advance M d it) = vi_initialized it"
    "vi_keys (advance M d it) = vi_keys it" "vi_values (advance M d it) = vi_values it"
    "vi_key (advance M d it) = vi_key it" "vi_value (advance M d it) = vi_value it"
    using i' w by (simp_all add: a vi_wf_def vi_Error_def)
qed

lemma advance_initialized:
  assumes d: "ok d" "content d \<noteq> None" and w: "vi_wf iok it" "vi_initialized it"
  shows "below M pend (advance M d it) = pend (vi_Iterator it)"
proof -
  have "(advance M d it)\<lparr>vi_initialized := True\<rparr> = advance M d it" using advance_facts(3) [OF d w(1)] w(2) by (cases "advance M d it") simp
  then show ?thesis using advance_facts(6) [OF d w(1)] by simp
qed

lemma vi_loop_delivers:
  assumes d: "ok d" "content d \<noteq> None"
  shows "vi_wf iok it \<Longrightarrow> vi_initialized it \<Longrightarrow> delivers M iok pend it (vi_rest M pend it) (vi_loop M d it)"
proof (induction "vi_keys it" arbitrary: it)
  case Nil
  then have k: "vi_keys it = []" "vi_values it = []" by (simp_all add: vi_wf_def)
  show ?case
  proof (cases "vi_exhausted it")
    case True
    with k Nil show ?thesis by (simp add: vi_loop.simps delivers_def vi_rest_def vi_wf_def vi_Error_def below_def)
  next
    case False
    define it1 where "it1 = it\<lparr>vi_key := it_Key M (vi_Iterator it), vi_value := it_Value M (vi_Iterator it)\<rparr>"
    have i: "vi_wf iok it1" "vi_initialized it1" "vi_Error M it1 = vi_Error M it" "vi_Iterator it1 = vi_Iterator it" "vi_keys it1 = []"
      using Nil k by (simp_all add: vi_wf_def it1_def vi_Error_def)
    have "vi_loop M d it = (advance M d it1, True)" using k False by (simp add: vi_loop.simps it1_def)
    moreover have "vi_rest M pend it = (vi_key it1, vi_value it1) # vi_rest M pend (advance M d it1)"
      using advance_initialized [OF d i(1,2)] advance_facts(4) [OF d i(1)] i(4,5) k False Nil(3) by (simp add: vi_rest_def below_def it1_def)
    ultimately show ?thesis using advance_facts [OF d i(1)] i(3) by (simp add: delivers_def)
  qed
next
  case (Cons k ks)
  have "length (vi_values it) = Suc (length ks)" using Cons(2,3) [unfolded vi_wf_def] by (metis length_Cons)
  then obtain val vs where k: "vi_keys it = k # ks" "vi_values it = val # vs" "length ks = length vs" using Cons(2) by (cases "vi_values it") auto
  note dr = drop_change_facts [OF Cons(3)]
  have rest: "vi_rest M pend it = merge ((k, val) # zip ks vs) (below M pend it)" by (simp add: vi_rest_def k)
  have drest: "vi_rest M pend (drop_change it) = merge (zip ks vs) (below M pend it)" by (simp add: vi_rest_def k dr)
  have IH: "delivers M iok pend it (vi_rest M pend it1) (vi_loop M d it1)"
    if "vi_keys it1 = ks" "vi_wf iok it1" "vi_initialized it1" "vi_Error M it1 = vi_Error M it" for it1
    using Cons(1) [OF that(1) [symmetric] that(2,3)] unfolding delivers_cong [OF that(4)] .
  have skip: "delivers M iok pend it (vi_rest M pend it) (if \<not> vd_delete val then (it1\<lparr>vi_key := k, vi_value := vd_value val\<rparr>, True) else vi_loop M d it1)"
    if "vi_keys it1 = ks" "vi_wf iok it1" "vi_initialized it1" "vi_Error M it1 = vi_Error M it"
      "vi_rest M pend it = (if vd_delete val then [] else [(k, vd_value val)]) @ vi_rest M pend it1" for it1
    using IH [OF that(1-4)] delivers_emit [OF that(2,4)] that(5) by simp
  have dropped: "vi_keys (drop_change it) = ks" "vi_wf iok (drop_change it)" "vi_initialized (drop_change it)" "vi_Error M (drop_change it) = vi_Error M it"
    using dr k Cons(4) by simp_all
  show ?case
  proof (cases "vi_exhausted it")
    case True
    then have "below M pend it = []" using Cons(4) by (simp add: below_def)
    then show ?thesis using skip [OF dropped] True rest drest by (simp add: vi_loop.simps [of M d it] k(1,2) Let_def)
  next
    case False
    define k' where "k' = it_Key M (vi_Iterator it)"
    define v where "v = it_Value M (vi_Iterator it)"
    have b: "below M pend it = (k', v) # pend (vi_Iterator it)" using False Cons(4) by (simp add: below_def k'_def v_def)
    consider "k < k'" | "k' < k" | "k = k'" by (cases k k' rule: linorder_cases) auto
    then show ?thesis
    proof cases
      case 1
      then have "vi_rest M pend it = (if vd_delete val then [] else [(k, vd_value val)]) @ vi_rest M pend (drop_change it)"
        unfolding rest drest b by (rule merge_steps(1))
      from skip [OF dropped this] 1 False show ?thesis by (simp add: vi_loop.simps [of M d it] k(1,2) Let_def k'_def [symmetric])
    next
      case 2
      define it1 where "it1 = it\<lparr>vi_key := k', vi_value := v\<rparr>"
      have i: "vi_wf iok it1" "vi_initialized it1" "vi_Error M it1 = vi_Error M it" "vi_Iterator it1 = vi_Iterator it" "vi_keys it1 = vi_keys it"
        "vi_values it1 = vi_values it" using Cons(3,4) by (simp_all add: vi_wf_def it1_def vi_Error_def)
      have "vi_loop M d it = (advance M d it1, True)"
        using 2 False less_not_sym [OF 2] by (simp add: vi_loop.simps [of M d it] k(1,2) Let_def k'_def [symmetric] v_def [symmetric] it1_def)
      moreover have "vi_rest M pend it = (k', v) # vi_rest M pend (advance M d it1)"
        unfolding rest b merge_steps(2) [OF 2] using advance_initialized [OF d i(1,2)] advance_facts(4,5) [OF d i(1)] i(4-6) by (simp add: vi_rest_def k)
      ultimately show ?thesis using advance_facts [OF d i(1)] i(3) by (simp add: delivers_def it1_def)
    next
      case 3
      let ?it = "advance M d (drop_change it)"
      note ad = advance_facts [OF d dropped(2)]
      have a: "vi_keys ?it = ks" "vi_wf iok ?it" "vi_initialized ?it" "vi_Error M ?it = vi_Error M it" using ad dropped by simp_all
      have "vi_rest M pend ?it = merge (zip ks vs) (pend (vi_Iterator it))"
        using advance_initialized [OF d dropped(2,3)] ad dr k by (simp add: vi_rest_def)
      then have "vi_rest M pend it = (if vd_delete val then [] else [(k, vd_value val)]) @ vi_rest M pend ?it" unfolding rest b 3 by simp
      from skip [OF a this] have "delivers M iok pend it (vi_rest M pend it)
        (if \<not> vd_delete val then (?it\<lparr>vi_key := k, vi_value := vd_value val\<rparr>, True) else vi_loop M d ?it)" .
      moreover have "vi_loop M d it = (if \<not> vd_delete val then (?it\<lparr>vi_key := k, vi_value := vd_value val\<rparr>, True) else vi_loop M d ?it)"
        using 3 False by (simp add: vi_loop.simps [of M d it] k(1,2) Let_def k'_def [symmetric])
      ultimately show ?thesis by (simp only:)
    qed
  qed
qed

lemma vi_Next_delivers:
  assumes s: "v_ok ok content bok s" "\<not> v_isClosed s" and w: "vi_wf iok it"
  shows "delivers M iok pend it (vi_rest M pend it) (vi_Next M s it)"
proof -
  have d: "ok (v_db s)" "content (v_db s) \<noteq> None" using s by (auto simp: v_ok_def v_isClosed_def)
  show ?thesis
  proof (cases "vi_initialized it")
    case True
    then show ?thesis using vi_loop_delivers [OF d w] s(2) by (simp add: vi_Next_def)
  next
    case False
    let ?it = "(advance M (v_db s) it)\<lparr>vi_initialized := True\<rparr>"
    note ad = advance_facts [OF d w]
    have "vi_wf iok ?it" "vi_Error M ?it = vi_Error M it" using ad(1,2) by simp_all
    moreover have "vi_rest M pend ?it = vi_rest M pend it" unfolding vi_rest_def ad(6) using ad(4,5) False by (simp add: below_def)
    ultimately show ?thesis using vi_loop_delivers [OF d, of ?it] s(2) False by (simp add: vi_Next_def delivers_def)
  qed
qed

lemma v_NewIterator_entries:
  assumes "v_ok ok content bok s" "v_mem s = Some mem" "content (v_db s) = Some m"
  shows "vi_pend M pend (v_NewIterator ord M start pre s) = entries start pre (overlay mem m)"
    "vi_ok iok (v_NewIterator ord M start pre s)" "dbi_Error (vi_Error M) (v_NewIterator ord M start pre s) = None"
proof -
  have f: "finite (dom mem)" "ok (v_db s)" using assms by (auto simp: v_ok_def)
  have m: "finite (dom m)" by (rule finite_content [OF f(2) assms(3)])
  have "sort (filter (\<lambda>key. prefix pre key \<and> key \<ge> start) (ord (dom mem))) = sorted_list_of_set {k \<in> dom mem. in_range start pre k}"
    by (rule range_keys_sorted [OF valid f(1)])
  then have e: "zip (sort (filter (\<lambda>key. prefix pre key \<and> key \<ge> start) (ord (dom mem))))
      (map (\<lambda>key. the (mem key)) (sort (filter (\<lambda>key. prefix pre key \<and> key \<ge> start) (ord (dom mem))))) = entries start pre mem"
    by (simp add: entries_def zip_map2 zip_same_conv_map)
  from NewIterator [OF f(2) assms(3)] have i: "iok (db_NewIterator M start pre (v_db s))" "it_Error M (db_NewIterator M start pre (v_db s)) = None"
    "pend (db_NewIterator M start pre (v_db s)) = entries start pre m" by auto
  show "vi_pend M pend (v_NewIterator ord M start pre s) = entries start pre (overlay mem m)"
    using i(3) e merge_entries [OF f(1) m, of start pre] assms(2) by (simp add: v_NewIterator_def Let_def vi_pend_def vi_rest_def below_def)
  show "vi_ok iok (v_NewIterator ord M start pre s)" "dbi_Error (vi_Error M) (v_NewIterator ord M start pre s) = None"
    using i(1,2) assms(2) by (simp_all add: v_NewIterator_def Let_def vi_ok_def vi_wf_def dbi_Error_def vi_Error_def)
qed

lemma v_content_None: "v_ok ok content bok s \<Longrightarrow> v_content content s = None \<longleftrightarrow> v_mem s = None"
  by (auto simp: v_content_def v_ok_def split: option.splits)

lemma v_content_Some: "v_content content s = Some m \<longleftrightarrow> (\<exists>mem m0. v_mem s = Some mem \<and> content (v_db s) = Some m0 \<and> m = overlay mem m0)"
  by (auto simp: v_content_def split: option.splits)

end

lemma overlay_write: "overlay (foldl v_write_op mem ops) m = apply_ops (map op_pair ops) (overlay mem m)"
  by (induction ops arbitrary: mem) (simp_all add: v_write_op_def op_pair_def change_def)

lemma v_write_finite: "finite (dom mem) \<Longrightarrow> finite (dom (foldl v_write_op mem ops))"
  by (induction ops arbitrary: mem) (simp_all add: v_write_op_def)

sublocale versioned_database \<subseteq> v: database "versiondb ord M" "v_ok ok content bok" "v_content content" "\<lambda>_. True" bo_queued "vi_ok iok" "vi_pend M pend"
proof (unfold_locales, goal_cases)
  case (1 d m)
  then show ?case using overlay_finite finite_content by (fastforce simp: v_content_Some v_ok_def)
next
  case (2 d k)
  then show ?case using Has [of "v_db d" k] by (auto simp: versiondb_def v_Has_def v_content_def v_ok_def overlay_def change_def split: option.splits)
next
  case (3 d k)
  then show ?case using Get [of "v_db d" k] by (auto simp: versiondb_def v_Get_def v_content_def v_ok_def overlay_def change_def split: option.splits)
next
  case (8 d s l)
  then show ?case using Compact [of "v_db d" s l] by (auto simp: versiondb_def v_Compact_def v_content_def v_ok_def split: option.splits)
next
  case (9 d)
  then show ?case using HealthCheck [of "v_db d"] by (auto simp: versiondb_def v_HealthCheck_def v_content_def v_ok_def split: option.splits)
next
  case (18 d m start pre)
  then show ?case using v_NewIterator_entries by (fastforce simp: versiondb_def v_content_Some)
next
  case (19 d start pre)
  then show ?case by (simp add: v_content_None versiondb_def v_NewIterator_def vi_ok_def dbi_Error_def vi_pend_def)
next
  case (20 d i)
  show ?case
  proof (cases i)
    case (IteratorError e)
    then show ?thesis using 20(3) by (simp add: versiondb_def dbi_defs vi_pend_def)
  next
    case (Iter it)
    then have "vi_wf iok it" "\<not> v_isClosed d" using 20 by (auto simp: vi_ok_def v_content_None v_isClosed_def)
    from vi_Next_delivers [OF 20(1) this(2,1)] Iter show ?thesis
      by (cases "vi_Next M d it") (simp add: versiondb_def dbi_defs vi_pend_def vi_ok_def delivers_def)
  qed
next
  case (21 d i)
  then show ?case
    by (cases i) (simp_all add: versiondb_def dbi_defs vi_ok_def vi_Next_def v_isClosed_def v_content_None vi_Error_def vi_wf_def)
qed (auto simp: versiondb_def v_content_Some v_content_None v_ok_def v_Put_def v_Delete_def v_Close_def v_NewBatch_def v_Write_def bo_queued_simps
    overlay_write v_write_finite bo_queued_def bo_Put_def bo_Delete_def bo_Reset_def op_pair_def emptyBatchOps_def change_def split: option.splits)

section \<open>Committing\<close>

definition mem_ops :: "(bytes set \<Rightarrow> bytes list) \<Rightarrow> (bytes \<rightharpoonup> valueDelete) \<Rightarrow> (bytes \<times> bytes option) list" where
  "mem_ops ord mem = map (\<lambda>k. (k, change (the (mem k)))) (ord (dom mem))"

lemma map_of_rev_distinct: "distinct (map fst xs) \<Longrightarrow> map_of (rev xs) = map_of xs"
  by (rule map_of_inject_set [THEN iffD2]) (simp_all flip: rev_map)

lemma apply_mem_ops:
  assumes "valid_ord ord" "finite (dom mem)"
  shows "apply_ops (mem_ops ord mem) m = overlay mem m"
proof
  fix k
  note o = valid_ordD [OF assms]
  have "map_of (rev (mem_ops ord mem)) = map_of (mem_ops ord mem)" using o(2) by (intro map_of_rev_distinct) (simp add: mem_ops_def comp_def)
  moreover have "map_of (mem_ops ord mem) k = map_option change (mem k)"
    using o(1) by (cases "mem k") (auto simp: mem_ops_def map_of_map_restrict restrict_map_def)
  ultimately show "apply_ops (mem_ops ord mem) m k = overlay mem m k" by (simp add: apply_ops_lookup overlay_def split: option.splits)
qed

context versioned_database
begin

lemma queue_changes_spec:
  "bok b \<Longrightarrow> \<exists>b'. queue_changes M xs b = (b', None) \<and> bok b' \<and> queued b' = queued b @ map (\<lambda>(k, val). (k, change val)) xs"
proof (induction xs arbitrary: b)
  case (Cons x xs)
  obtain key val where x: "x = (key, val)" by (cases x)
  have "\<exists>b1. (if vd_delete val then ba_Delete M key b else ba_Put M key (vd_value val) b) = (b1, None) \<and> bok b1 \<and> queued b1 = queued b @ [(key, change val)]"
    using batch_Put [OF Cons.prems, of key "vd_value val"] batch_Delete [OF Cons.prems, of key] by (cases "vd_delete val") (simp_all add: change_def)
  then obtain b1 where b1: "(if vd_delete val then ba_Delete M key b else ba_Put M key (vd_value val) b) = (b1, None)" "bok b1"
    "queued b1 = queued b @ [(key, change val)]" by blast
  from Cons.IH [OF b1(2)] b1(1,3) show ?case by (auto simp: x)
qed simp

lemma v_commitBatch_spec:
  assumes "v_ok ok content bok s" "v_mem s = Some mem" "valid_ord ord'"
  shows "\<exists>b'. v_commitBatch ord' M s = (s\<lparr>v_batch := b'\<rparr>, None) \<and> bok b' \<and> queued b' = queued (v_batch s) @ mem_ops ord' mem"
proof -
  have "bok (v_batch s)" using assms by (simp add: v_ok_def)
  then have r: "bok (ba_Reset M (v_batch s))" "queued (ba_Reset M (v_batch s)) = queued (v_batch s)" using Reset by auto
  from queue_changes_spec [OF r(1), of "map (\<lambda>key. (key, the (mem key))) (ord' (dom mem))"] r(2) assms(2)
  show ?thesis by (auto simp: v_commitBatch_def mem_ops_def comp_def)
qed

lemma v_Commit_spec:
  assumes s: "v_ok ok content bok s" "v_mem s = Some mem" and o: "valid_ord ord'" and m: "content (v_db s) = Some m"
  shows "\<exists>s'. v_Commit ord' M s = (s', None) \<and> v_ok ok content bok s' \<and> v_mem s' = Some Map.empty \<and>
    content (v_db s') = Some (overlay mem (apply_ops (queued (v_batch s)) m)) \<and> queued (v_batch s') = queued (v_batch s) @ mem_ops ord' mem"
proof -
  from v_commitBatch_spec [OF s o] obtain b' where b': "v_commitBatch ord' M s = (s\<lparr>v_batch := b'\<rparr>, None)" "bok b'"
    "queued b' = queued (v_batch s) @ mem_ops ord' mem" by blast
  have f: "ok (v_db s)" "finite (dom mem)" using s by (auto simp: v_ok_def)
  from Write [OF f(1) b'(2) m] obtain d' where d': "ba_Write M b' (v_db s) = (d', None)" "ok d'"
    "content d' = Some (overlay mem (apply_ops (queued (v_batch s)) m))" by (auto simp: b'(3) apply_mem_ops [OF o f(2)])
  then show ?thesis using b' Reset [OF b'(2)] s(2) by (simp add: v_Commit_def v_Abort_def v_ok_def)
qed

end

section \<open>Sequences of operations\<close>

datatype vdb_op = VPut bytes bytes | VDelete bytes | VWrite BatchOps | VCommit "bytes set \<Rightarrow> bytes list" | VAbort

fun vdb_step :: "('d, 'b, 'i) Database \<Rightarrow> vdb_op \<Rightarrow> ('d, 'b) versiondb \<Rightarrow> ('d, 'b) versiondb \<times> go_error option" where
  "vdb_step M (VPut k v) s = v_Put k v s"
| "vdb_step M (VDelete k) s = v_Delete k s"
| "vdb_step M (VWrite b) s = v_Write b s"
| "vdb_step M (VCommit ord) s = v_Commit ord M s"
| "vdb_step M VAbort s = (v_Abort s, None)"

fun vdb_run :: "('d, 'b, 'i) Database \<Rightarrow> vdb_op list \<Rightarrow> ('d, 'b) versiondb \<Rightarrow> ('d, 'b) versiondb \<times> go_error option" where
  "vdb_run M [] s = (s, None)"
| "vdb_run M (c # cs) s = (case vdb_step M c s of (s, Some err) \<Rightarrow> (s, Some err) | (s, None) \<Rightarrow> vdb_run M cs s)"

text \<open>The specification: the committed map and the working map.\<close>

fun vdb_spec :: "vdb_op list \<Rightarrow> kv \<Rightarrow> kv \<Rightarrow> kv \<times> kv" where
  "vdb_spec [] committed working = (committed, working)"
| "vdb_spec (VPut k v # cs) committed working = vdb_spec cs committed (working(k \<mapsto> v))"
| "vdb_spec (VDelete k # cs) committed working = vdb_spec cs committed (working(k := None))"
| "vdb_spec (VWrite b # cs) committed working = vdb_spec cs committed (apply_ops (map op_pair (Ops b)) working)"
| "vdb_spec (VCommit ord # cs) committed working = vdb_spec cs working working"
| "vdb_spec (VAbort # cs) committed working = vdb_spec cs committed committed"

definition vdb_op_ok :: "vdb_op \<Rightarrow> bool" where
  "vdb_op_ok c \<longleftrightarrow> (\<forall>ord. c = VCommit ord \<longrightarrow> valid_ord ord)"

context versioned_database
begin

text \<open>The operations that stay in the batch after a commit do not change the database below.\<close>

definition tracks :: "('d, 'b) versiondb \<Rightarrow> kv \<Rightarrow> kv \<Rightarrow> bool" where
  "tracks s committed working \<longleftrightarrow> v_ok ok content bok s \<and> content (v_db s) = Some committed \<and> v_content content s = Some working \<and>
     apply_ops (queued (v_batch s)) committed = committed"

lemma tracks_mem: "tracks s c w \<Longrightarrow> \<exists>mem. v_mem s = Some mem \<and> w = overlay mem c"
  by (auto simp: tracks_def v_content_Some)

lemma tracks_New: "ok d \<Longrightarrow> content d = Some m \<Longrightarrow> tracks (v_New M d) m m"
  using NewBatch [of d] by (simp add: tracks_def v_New_def v_ok_def v_content_def)

lemma vdb_step_spec:
  assumes t: "tracks s c w" and o: "vdb_op_ok x"
  shows "\<exists>s'. vdb_step M x s = (s', None) \<and> (\<exists>c' w'. tracks s' c' w' \<and> (\<forall>cs. vdb_spec (x # cs) c w = vdb_spec cs c' w'))"
proof -
  from tracks_mem [OF t] obtain mem where mem: "v_mem s = Some mem" "w = overlay mem c" by blast
  note T = t [unfolded tracks_def v_content_Some]
  show ?thesis
  proof (cases x)
    case (VCommit ord')
    with o have o': "valid_ord ord'" by (simp add: vdb_op_ok_def)
    have c: "content (v_db s) = Some c" "apply_ops (queued (v_batch s)) c = c" "v_ok ok content bok s" using T by auto
    from v_Commit_spec [OF c(3) mem(1) o' c(1)] obtain s' where s': "v_Commit ord' M s = (s', None)" "v_ok ok content bok s'"
      "v_mem s' = Some Map.empty" "content (v_db s') = Some w" "queued (v_batch s') = queued (v_batch s) @ mem_ops ord' mem" by (auto simp: c(2) mem(2))
    have "finite (dom mem)" using c(3) mem(1) by (simp add: v_ok_def)
    then have "apply_ops (queued (v_batch s')) c = w" by (simp add: s'(5) c(2) apply_mem_ops [OF o'] mem(2))
    then have "apply_ops (queued (v_batch s')) w = w" using apply_ops_idem [where ops = "queued (v_batch s')" and m = c] by simp
    then have "tracks s' w w" using s' by (simp add: tracks_def v_content_def)
    then show ?thesis using s'(1) VCommit by auto
  qed (use T mem in \<open>auto simp: tracks_def v_content_def v_ok_def v_Put_def v_Delete_def v_Write_def v_Abort_def change_def overlay_write v_write_finite\<close>)
qed

lemma vdb_run_spec:
  assumes "tracks s c w" "\<forall>x \<in> set cs. vdb_op_ok x" "vdb_spec cs c w = (c', w')"
  shows "\<exists>s'. vdb_run M cs s = (s', None) \<and> tracks s' c' w'"
  using assms
proof (induction cs arbitrary: s c w)
  case (Cons x cs)
  from vdb_step_spec [OF Cons.prems(1), of x] Cons.prems(2) obtain s1 c1 w1 where
    1: "vdb_step M x s = (s1, None)" "tracks s1 c1 w1" "vdb_spec (x # cs) c w = vdb_spec cs c1 w1" by auto
  from Cons.IH [OF 1(2)] Cons.prems(2,3) 1(3) obtain s' where "vdb_run M cs s1 = (s', None)" "tracks s' c' w'" by auto
  with 1(1) show ?case by auto
qed simp

text \<open>What a versioned database answers.\<close>

lemma tracks_answers:
  assumes "tracks s c w"
  shows "v_Get M k s = (case w k of None \<Rightarrow> Inl ErrNotFound | Some v \<Rightarrow> Inr v)" "v_Has M k s = Inr (w k \<noteq> None)"
    "card (dom w) < n \<Longrightarrow> read_all (versiondb ord M) s n (v_NewIterator ord M start pre s) = (entries start pre w, False)"
proof -
  have s: "v_ok ok content bok s" "v_content content s = Some w" using assms by (auto simp: tracks_def)
  show "v_Get M k s = (case w k of None \<Rightarrow> Inl ErrNotFound | Some v \<Rightarrow> Inr v)" using v.Get [OF s(1), of k] s(2) by (simp add: versiondb_def)
  show "v_Has M k s = Inr (w k \<noteq> None)" using v.Has [OF s(1), of k] s(2) by (simp add: versiondb_def)
  show "card (dom w) < n \<Longrightarrow> read_all (versiondb ord M) s n (v_NewIterator ord M start pre s) = (entries start pre w, False)"
    using v.iterate [OF s, of n start pre] by (simp add: versiondb_def)
qed

end

section \<open>A versioned database over memdb\<close>

lemma versioned_memdb:
  assumes "valid_ord ord"
  shows "versioned_database (memdb ord) mem_ok id (\<lambda>_. True) bo_queued mi_ok mi_pend ord"
proof -
  have "map_order ord" using assms by (rule map_order.intro)
  then show ?thesis by (intro versioned_database.intro) (rule map_order.memdb_database)
qed

interpretation vmem: versioned_database "memdb sorted_list_of_set" mem_ok id "\<lambda>_. True" bo_queued mi_ok mi_pend sorted_list_of_set
  by (rule versioned_memdb) (rule ascending.valid)

text \<open>
  C12. A versioned database over memdb, under every sequence of Put, Delete, writes of batches, Commit and Abort, behaves as a
  committed and a working map: writes change the working map, Commit makes it the committed one, Abort returns to the committed one. No
  operation fails, the database below always holds the committed map, Get and Has answer from the working map, and
  an iterator yields its entries with the given prefix from the given start on, sorted by key, each once, and then ends.
\<close>

theorem versiondb_refines:
  assumes "valid_ord ord" "\<forall>c \<in> set cs. vdb_op_ok c" "finite (dom m)" "vdb_spec cs m m = (committed, working)"
  shows "\<exists>s. vdb_run (memdb ord) cs (v_New (memdb ord) (Some m)) = (s, None) \<and> v_db s = Some committed \<and>
    (\<forall>k. v_Get (memdb ord) k s = (case working k of None \<Rightarrow> Inl ErrNotFound | Some v \<Rightarrow> Inr v)) \<and>
    (\<forall>k. v_Has (memdb ord) k s = Inr (working k \<noteq> None)) \<and>
    (\<forall>start pre n. card (dom working) < n \<longrightarrow>
      read_all (versiondb ord (memdb ord)) s n (v_NewIterator ord (memdb ord) start pre s) = (entries start pre working, False))"
proof -
  note V = versioned_memdb [OF assms(1)]
  have t: "versioned_database.tracks mem_ok id (\<lambda>_. True) bo_queued (v_New (memdb ord) (Some m)) m m"
    by (rule versioned_database.tracks_New [OF V]) (use assms(3) in \<open>simp_all add: mem_ok_def\<close>)
  from versioned_database.vdb_run_spec [OF V t assms(2,4)] obtain s where
    s: "vdb_run (memdb ord) cs (v_New (memdb ord) (Some m)) = (s, None)" "versioned_database.tracks mem_ok id (\<lambda>_. True) bo_queued s committed working" by blast
  have "v_db s = Some committed" using s(2) by (simp add: versioned_database.tracks_def [OF V])
  with s(1) versioned_database.tracks_answers [OF V s(2)] show ?thesis by blast
qed

definition demo_changes :: "vdb_op list" where
  "demo_changes = [VPut [1] [10], VPut [2, 5] [20], VCommit sorted_list_of_set, VPut [2, 1] [21], VDelete [1], VDelete [2, 5], VAbort,
     VPut [2] [22], VDelete [1]]"

theorem versiondb_refines_witness:
  "\<exists>s. vdb_run (memdb sorted_list_of_set) demo_changes (v_New (memdb sorted_list_of_set) (Some Map.empty)) = (s, None) \<and>
    v_db s = Some [[1] \<mapsto> [10], [2, 5] \<mapsto> [20]] \<and> v_Get (memdb sorted_list_of_set) [1] s = Inl ErrNotFound \<and>
    read_all (versiondb sorted_list_of_set (memdb sorted_list_of_set)) s 5 (v_NewIterator sorted_list_of_set (memdb sorted_list_of_set) [] [2] s) =
      ([([2], [22]), ([2, 5], [20])], False)"
proof -
  let ?c = "[[1] \<mapsto> [10], [2, 5] \<mapsto> [20]] :: kv"
  let ?w = "(?c([2] \<mapsto> [22]))([1] := None) :: kv"
  have ok: "\<forall>c \<in> set demo_changes. vdb_op_ok c" using ascending.valid by (simp add: demo_changes_def vdb_op_ok_def)
  have spec: "vdb_spec demo_changes Map.empty Map.empty = (?c, ?w)" by (simp add: demo_changes_def)
  have w: "?w = [[2, 5] \<mapsto> [20], [2] \<mapsto> [22]]" by (auto simp: fun_eq_iff)
  have e: "entries [] [2] ?w = [([2], [22]), ([2, 5], [20])]"
  proof (rule entries_unique)
    show "set [([2], [22]), ([2, 5], [20])] = {(k, v). ?w k = Some v \<and> in_range [] [2] k}" unfolding w by (auto simp: in_range_def split: if_splits)
  qed (simp_all add: w)
  have "card (dom ?w) < 5" unfolding w by simp
  with versiondb_refines [OF ascending.valid ok _ spec] e show ?thesis by fastforce
qed

text \<open>
  C13. Reset of a batch keeps its operations, and the batch of a versioned database is used for every commit. So a change that
  was put into a batch by CommitBatch and then aborted, which reads no longer see, is written by the next Commit; and a
  commit writes the values of all earlier commits again, over later changes of the database below.
\<close>

theorem stale_batch_committed:
  assumes "valid_ord ord" "valid_ord ord1" "valid_ord ord2" "finite (dom m)" and s_def: "s = fst (v_Put k v (v_New (memdb ord) (Some m)))"
  shows "(\<exists>s1 b s2. v_CommitBatch ord1 (memdb ord) s = (s1, Inr b) \<and>
      v_Get (memdb ord) k (v_Abort s1) = mem_Get k (Some m) \<and>
      v_Commit ord2 (memdb ord) (v_Abort s1) = (s2, None) \<and> v_db s2 = Some (m(k \<mapsto> v))) \<and>
    (\<exists>s1 s2. v_Commit ord1 (memdb ord) s = (s1, None) \<and>
      v_Commit ord2 (memdb ord) (s1\<lparr>v_db := fst (mem_Put k v' (v_db s1))\<rparr>) = (s2, None) \<and> v_db s2 = Some (m(k \<mapsto> v)))"
proof -
  note V = versioned_memdb [OF assms(1)]
  have s: "v_mem s = Some [k \<mapsto> \<lparr>vd_value = v, vd_delete = False\<rparr>]" "v_db s = Some m" "v_batch s = emptyBatchOps"
    by (simp_all add: s_def v_Put_def v_New_def memdb_def mem_NewBatch_def)
  have ok: "v_ok mem_ok id (\<lambda>_. True) s" using assms(4) s by (simp add: v_ok_def mem_ok_def)
  have ops: "mem_ops o' [k \<mapsto> \<lparr>vd_value = v, vd_delete = False\<rparr>] = [(k, Some v)]" if "valid_ord o'" for o'
  proof -
    have "set (o' {k}) = {k}" "distinct (o' {k})" using valid_ordD [OF that, of "{k}"] by auto
    then have "o' {k} = [k]" by (cases "o' {k}" rule: list.exhaust; cases "tl (o' {k})") auto
    then show ?thesis by (simp add: mem_ops_def change_def)
  qed
  from versioned_database.v_commitBatch_spec [OF V ok s(1) assms(2)] obtain b where
    b: "v_commitBatch ord1 (memdb ord) s = (s\<lparr>v_batch := b\<rparr>, None)" "bo_queued b = [(k, Some v)]" by (auto simp: s(3) bo_queued_simps ops [OF assms(2)])
  let ?a = "v_Abort (s\<lparr>v_batch := b\<rparr>)"
  have a: "v_ok mem_ok id (\<lambda>_. True) ?a" "v_mem ?a = Some Map.empty" "v_db ?a = Some m" "v_batch ?a = b"
    using ok s by (simp_all add: v_ok_def v_Abort_def)
  from versioned_database.v_Commit_spec [OF V a(1,2) assms(3)] a(3,4) b(2) obtain s2 where
    s2: "v_Commit ord2 (memdb ord) ?a = (s2, None)" "v_db s2 = Some (m(k \<mapsto> v))" by auto
  have "v_CommitBatch ord1 (memdb ord) s = (s\<lparr>v_batch := b\<rparr>, Inr b)" using b(1) by (simp add: v_CommitBatch_def)
  moreover have "v_Get (memdb ord) k ?a = mem_Get k (Some m)" using a(2,3) by (simp add: v_Get_def memdb_def)
  ultimately have first: "\<exists>s1 b s2. v_CommitBatch ord1 (memdb ord) s = (s1, Inr b) \<and>
      v_Get (memdb ord) k (v_Abort s1) = mem_Get k (Some m) \<and>
      v_Commit ord2 (memdb ord) (v_Abort s1) = (s2, None) \<and> v_db s2 = Some (m(k \<mapsto> v))" using s2 by blast
  from versioned_database.v_Commit_spec [OF V ok s(1) assms(2)] s(2,3) obtain s1 where
    s1: "v_Commit ord1 (memdb ord) s = (s1, None)" "v_ok mem_ok id (\<lambda>_. True) s1" "v_mem s1 = Some Map.empty" "v_db s1 = Some (m(k \<mapsto> v))"
      "bo_queued (v_batch s1) = [(k, Some v)]" by (auto simp: bo_queued_simps ops [OF assms(2)] change_def)
  let ?b = "s1\<lparr>v_db := fst (mem_Put k v' (v_db s1))\<rparr>"
  have b: "v_ok mem_ok id (\<lambda>_. True) ?b" "v_mem ?b = Some Map.empty" "v_db ?b = Some (m(k \<mapsto> v'))" "v_batch ?b = v_batch s1"
    using s1 assms(4) by (simp_all add: v_ok_def mem_Put_def mem_ok_def)
  from versioned_database.v_Commit_spec [OF V b(1,2) assms(3)] b(3,4) s1(5) have "\<exists>s2. v_Commit ord2 (memdb ord) ?b = (s2, None) \<and> v_db s2 = Some (m(k \<mapsto> v))" by auto
  with s1(1) first show ?thesis by blast
qed

theorem stale_batch_committed_witness:
  "\<exists>s1 b s2. v_CommitBatch sorted_list_of_set (memdb sorted_list_of_set)
      (fst (v_Put [1] [9] (v_New (memdb sorted_list_of_set) (Some Map.empty)))) = (s1, Inr b) \<and>
    v_Get (memdb sorted_list_of_set) [1] (v_Abort s1) = Inl ErrNotFound \<and>
    v_Commit sorted_list_of_set (memdb sorted_list_of_set) (v_Abort s1) = (s2, None) \<and> v_db s2 = Some [[1] \<mapsto> [9]]"
  using stale_batch_committed [OF ascending.valid ascending.valid ascending.valid _ refl, of Map.empty "[1]" "[9]"]
  by (simp add: mem_Get_def)

end
