(* ===== verification/ByteOrder.thy ===== *)
theory ByteOrder
  imports Prelude
begin

text \<open>
  Go's \<^verbatim>\<open>binary.BigEndian\<close>, for the widths 16, 32 and 64, and its round trips. The order of
  big-endian strings of equal length is the order of the numbers.
\<close>

fun be_bytes :: "nat \<Rightarrow> nat \<Rightarrow> bytes" where
  "be_bytes 0 v = []"
| "be_bytes (Suc n) v = be_bytes n (v div 256) @ [of_nat (v mod 256)]"

definition be_nat :: "bytes \<Rightarrow> nat" where
  "be_nat b = foldl (\<lambda>a x. a * 256 + unat x) 0 b"

definition PutUint :: "nat \<Rightarrow> 'a :: len word \<Rightarrow> bytes" where
  "PutUint n w = be_bytes n (unat w)"

text \<open>Reads the first \<open>n\<close> bytes of a slice that has at least as many.\<close>

definition Uint :: "nat \<Rightarrow> bytes \<Rightarrow> 'a :: len word" where
  "Uint n b = of_nat (be_nat (take n b))"

lemma length_be_bytes [simp]: "length (be_bytes n v) = n"
  by (induction n arbitrary: v) simp_all

lemma be_nat_snoc [simp]: "be_nat (b @ [x]) = be_nat b * 256 + unat x"
  by (simp add: be_nat_def)

lemma be_nat_Nil [simp]: "be_nat [] = 0"
  by (simp add: be_nat_def)

lemma unat_byte: "unat (of_nat (v mod 256) :: byte) = v mod 256"
  by (simp add: unat_of_nat)

lemma byte_less: "unat (x :: byte) < 256"
  using unsigned_less [of x, where ?'a = nat] by simp

lemma be_nat_be_bytes: "be_nat (be_bytes n v) = v mod 256 ^ n"
proof (induction n arbitrary: v)
  case (Suc n)
  then show ?case by (simp add: unat_byte mod_mult2_eq)
qed simp

lemma be_bytes_be_nat: "be_bytes (length b) (be_nat b) = b"
proof (induction b rule: rev_induct)
  case (snoc x b)
  then show ?case using byte_less [of x] by simp
qed simp

lemma be_nat_less: "be_nat b < 256 ^ length b"
proof (induction b rule: rev_induct)
  case (snoc x b)
  then have "be_nat b + 1 \<le> 256 ^ length b" by simp
  then have "(be_nat b + 1) * 256 \<le> 256 ^ length b * 256" by (rule mult_le_mono1)
  then show ?case using byte_less [of x] by simp
qed simp

lemma snoc_less_snoc: "length k = length p \<Longrightarrow> (k :: bytes) @ [c] < p @ [b] \<longleftrightarrow> k < p \<or> k = p \<and> c < b"
  by (induction k p rule: list_induct2) auto

lemma snoc_le_snoc: "length k = length p \<Longrightarrow> (k :: bytes) @ [c] \<le> p @ [b] \<longleftrightarrow> k < p \<or> k = p \<and> c \<le> b"
  by (induction k p rule: list_induct2) auto

lemma be_nat_mono: "length a = length b \<Longrightarrow> a < b \<longleftrightarrow> be_nat a < be_nat b"
proof (induction a arbitrary: b rule: rev_induct)
  case (snoc x a)
  then obtain b' y where b: "b = b' @ [y]" "length a = length b'" by (cases b rule: rev_exhaust) auto
  note x = byte_less [of x] byte_less [of y]
  have eq: "a = b' \<longleftrightarrow> be_nat a = be_nat b'" using b(2) by (metis be_bytes_be_nat)
  have "be_nat a * 256 + unat x < be_nat b' * 256 + unat y \<longleftrightarrow> be_nat a < be_nat b' \<or> be_nat a = be_nat b' \<and> unat x < unat y"
    using x by (cases "be_nat a" "be_nat b'" rule: linorder_cases) auto
  then show ?case using snoc.IH [OF b(2)] b eq by (simp add: snoc_less_snoc word_less_nat_alt)
qed simp

lemma PutUint_Uint:
  assumes "LENGTH('a) = 8 * n"
  shows "length (PutUint n (w :: 'a :: len word)) = n" "Uint n (PutUint n w @ rest) = w" "PutUint n w < PutUint n w' \<longleftrightarrow> w < w'"
proof -
  have p: "(256 :: nat) ^ n = 2 ^ LENGTH('a)" by (simp add: assms power_mult)
  have w: "unat v mod 256 ^ n = unat v" for v :: "'a word" unfolding p using unsigned_less [of v, where ?'a = nat] by simp
  show "length (PutUint n w) = n" by (simp add: PutUint_def)
  then show "Uint n (PutUint n w @ rest) = w" by (simp add: Uint_def) (simp add: PutUint_def be_nat_be_bytes w)
  show "PutUint n w < PutUint n w' \<longleftrightarrow> w < w'" by (simp add: PutUint_def be_nat_mono be_nat_be_bytes w word_less_nat_alt)
qed

lemma Uint_PutUint:
  assumes "LENGTH('a) = 8 * n" "n \<le> length b"
  shows "PutUint n (Uint n b :: 'a :: len word) = take n b"
proof -
  have l: "length (take n b) = n" using assms(2) by simp
  have "(256 :: nat) ^ n = 2 ^ LENGTH('a)" by (simp add: assms power_mult)
  then have "be_nat (take n b) < 2 ^ LENGTH('a)" using be_nat_less [of "take n b"] l by simp
  then have "unat (of_nat (be_nat (take n b)) :: 'a word) = be_nat (take n b)" by (simp add: unat_of_nat)
  then show ?thesis using be_bytes_be_nat [of "take n b"] l by (simp add: PutUint_def Uint_def)
qed

end
