(* ===== verification/PrefixDB.thy ===== *)
theory PrefixDB
  imports VersionDB ByteOrder
begin

text \<open>
  default/database/prefixdb/db.go: a part of a database, the keys with a prefix, as a database of its own, over any
  database that satisfies the contract. \<open>p_db\<close> is the database behind the pointer \<^verbatim>\<open>db\<close>; a batch and an iterator keep the prefix
  of theirs. The pool of byte buffers only recycles memory and is left out. \<open>hash\<close> is \<^verbatim>\<open>hashing.ComputeHash256\<close>.
\<close>

section \<open>Model\<close>

record 'd prefixdb =
  p_dbPrefix :: bytes
  p_dbLimit :: bytes
  p_db :: 'd
  p_closed :: bool

text \<open>The loop runs from the last byte to the first.\<close>

fun inc_loop :: "bytes \<Rightarrow> bytes" where
  "inc_loop [] = []"
| "inc_loop (b # rest) = (let b = b + 1 in if b \<noteq> 0 then b # rest else b # inc_loop rest)"

definition incrementByteSlice :: "bytes \<Rightarrow> bytes" where
  "incrementByteSlice orig = rev (inc_loop (rev orig))"

definition newDB :: "bytes \<Rightarrow> 'd \<Rightarrow> 'd prefixdb" where
  "newDB pre db = \<lparr>p_dbPrefix = pre, p_dbLimit = incrementByteSlice pre, p_db = db, p_closed = False\<rparr>"

definition MakePrefix :: "(bytes \<Rightarrow> bytes) \<Rightarrow> bytes \<Rightarrow> bytes" where
  "MakePrefix hash pre = hash pre"

definition JoinPrefixes :: "(bytes \<Rightarrow> bytes) \<Rightarrow> bytes \<Rightarrow> bytes \<Rightarrow> bytes" where
  "JoinPrefixes hash firstPrefix secondPrefix = MakePrefix hash (firstPrefix @ secondPrefix)"

definition PrefixKey :: "bytes \<Rightarrow> bytes \<Rightarrow> bytes" where
  "PrefixKey pre key = pre @ key"

text \<open>New compresses the prefixes when its argument is itself a prefixed database (Inl).\<close>

definition p_New :: "(bytes \<Rightarrow> bytes) \<Rightarrow> bytes \<Rightarrow> 'd prefixdb + 'd \<Rightarrow> 'd prefixdb" where
  "p_New hash pre db =
     (case db of
        Inl prefixDB \<Rightarrow> newDB (JoinPrefixes hash (p_dbPrefix prefixDB) pre) (p_db prefixDB)
      | Inr db \<Rightarrow> newDB (MakePrefix hash pre) db)"

definition NewNested :: "(bytes \<Rightarrow> bytes) \<Rightarrow> bytes \<Rightarrow> 'd \<Rightarrow> 'd prefixdb" where
  "NewNested hash pre db = newDB (MakePrefix hash pre) db"

definition p_prefix :: "bytes \<Rightarrow> 'd prefixdb \<Rightarrow> bytes" where
  "p_prefix key s = p_dbPrefix s @ key"

definition on_db :: "'d prefixdb \<Rightarrow> 'd \<times> go_error option \<Rightarrow> 'd prefixdb \<times> go_error option" where
  "on_db s r = (s\<lparr>p_db := fst r\<rparr>, snd r)"

definition p_Has :: "('d, 'b, 'i) Database \<Rightarrow> bytes \<Rightarrow> 'd prefixdb \<Rightarrow> bool res" where
  "p_Has M key s = (if p_closed s then Inl ErrClosed else db_Has M (p_prefix key s) (p_db s))"

definition p_Get :: "('d, 'b, 'i) Database \<Rightarrow> bytes \<Rightarrow> 'd prefixdb \<Rightarrow> bytes res" where
  "p_Get M key s = (if p_closed s then Inl ErrClosed else db_Get M (p_prefix key s) (p_db s))"

definition p_Put :: "('d, 'b, 'i) Database \<Rightarrow> bytes \<Rightarrow> bytes \<Rightarrow> 'd prefixdb \<Rightarrow> 'd prefixdb \<times> go_error option" where
  "p_Put M key val s = (if p_closed s then (s, Some ErrClosed) else on_db s (db_Put M (p_prefix key s) val (p_db s)))"

definition p_Delete :: "('d, 'b, 'i) Database \<Rightarrow> bytes \<Rightarrow> 'd prefixdb \<Rightarrow> 'd prefixdb \<times> go_error option" where
  "p_Delete M key s = (if p_closed s then (s, Some ErrClosed) else on_db s (db_Delete M (p_prefix key s) (p_db s)))"

record 'b prefix_batch =
  pb_Batch :: 'b
  pb_prefix :: bytes
  pb_ops :: "BatchOp list"

definition p_NewBatch :: "('d, 'b, 'i) Database \<Rightarrow> 'd prefixdb \<Rightarrow> 'b prefix_batch" where
  "p_NewBatch M s = \<lparr>pb_Batch = db_NewBatch M (p_db s), pb_prefix = p_dbPrefix s, pb_ops = []\<rparr>"

record 'i prefix_iterator =
  pi_Iterator :: 'i
  pi_prefix :: bytes
  pi_key :: bytes
  pi_val :: bytes
  pi_err :: "go_error option"

definition p_NewIterator :: "('d, 'b, 'i) Database \<Rightarrow> bytes \<Rightarrow> bytes \<Rightarrow> 'd prefixdb \<Rightarrow> 'i prefix_iterator iter" where
  "p_NewIterator M start pre s =
     (if p_closed s then IteratorError ErrClosed
      else Iter \<lparr>pi_Iterator = db_NewIterator M (p_prefix start s) (p_prefix pre s) (p_db s), pi_prefix = p_dbPrefix s,
             pi_key = [], pi_val = [], pi_err = None\<rparr>)"

definition p_Compact :: "('d, 'b, 'i) Database \<Rightarrow> bytes option \<Rightarrow> bytes option \<Rightarrow> 'd prefixdb \<Rightarrow> go_error option" where
  "p_Compact M start limit s =
     (if p_closed s then Some ErrClosed
      else let prefixedStart = p_prefix (case start of None \<Rightarrow> [] | Some k \<Rightarrow> k) s in
        case limit of
          None \<Rightarrow> db_Compact M (Some prefixedStart) (Some (p_dbLimit s)) (p_db s)
        | Some l \<Rightarrow> db_Compact M (Some prefixedStart) (Some (p_prefix l s)) (p_db s))"

definition p_Close :: "'d prefixdb \<Rightarrow> 'd prefixdb \<times> go_error option" where
  "p_Close s = (if p_closed s then (s, Some ErrClosed) else (s\<lparr>p_closed := True\<rparr>, None))"

definition p_HealthCheck :: "('d, 'b, 'i) Database \<Rightarrow> 'd prefixdb \<Rightarrow> go_error option" where
  "p_HealthCheck M s = (if p_closed s then Some ErrClosed else db_HealthCheck M (p_db s))"

definition pb_Put :: "('d, 'b, 'i) Database \<Rightarrow> bytes \<Rightarrow> bytes \<Rightarrow> 'b prefix_batch \<Rightarrow> 'b prefix_batch \<times> go_error option" where
  "pb_Put M key val b =
     (let prefixedKey = pb_prefix b @ key;
          b = b\<lparr>pb_ops := pb_ops b @ [\<lparr>op_Key = prefixedKey, op_Value = val, op_Delete = False\<rparr>]\<rparr>
      in case ba_Put M prefixedKey val (pb_Batch b) of (inner, err) \<Rightarrow> (b\<lparr>pb_Batch := inner\<rparr>, err))"

definition pb_Delete :: "('d, 'b, 'i) Database \<Rightarrow> bytes \<Rightarrow> 'b prefix_batch \<Rightarrow> 'b prefix_batch \<times> go_error option" where
  "pb_Delete M key b =
     (let prefixedKey = pb_prefix b @ key;
          b = b\<lparr>pb_ops := pb_ops b @ [\<lparr>op_Key = prefixedKey, op_Value = [], op_Delete = True\<rparr>]\<rparr>
      in case ba_Delete M prefixedKey (pb_Batch b) of (inner, err) \<Rightarrow> (b\<lparr>pb_Batch := inner\<rparr>, err))"

definition pb_Write :: "('d, 'b, 'i) Database \<Rightarrow> 'b prefix_batch \<Rightarrow> 'd prefixdb \<Rightarrow> 'd prefixdb \<times> go_error option" where
  "pb_Write M b s = (if p_closed s then (s, Some ErrClosed) else on_db s (ba_Write M (pb_Batch b) (p_db s)))"

definition pb_Reset :: "('d, 'b, 'i) Database \<Rightarrow> 'b prefix_batch \<Rightarrow> 'b prefix_batch" where
  "pb_Reset M b = b\<lparr>pb_ops := [], pb_Batch := ba_Reset M (pb_Batch b)\<rparr>"

definition pb_Replay :: "(bytes \<Rightarrow> bytes \<Rightarrow> 'w \<Rightarrow> 'w \<times> go_error option) \<Rightarrow> (bytes \<Rightarrow> 'w \<Rightarrow> 'w \<times> go_error option) \<Rightarrow>
    'b prefix_batch \<Rightarrow> 'w \<Rightarrow> 'w \<times> go_error option" where
  "pb_Replay put del b w = bo_Replay put del (map (\<lambda>op. op\<lparr>op_Key := drop (length (pb_prefix b)) (op_Key op)\<rparr>) (pb_ops b)) w"

definition pi_Next :: "('d, 'b, 'i) Database \<Rightarrow> 'd prefixdb \<Rightarrow> 'i prefix_iterator \<Rightarrow> 'i prefix_iterator \<times> bool" where
  "pi_Next M s it =
     (if p_closed s then (it\<lparr>pi_key := [], pi_val := [], pi_err := Some ErrClosed\<rparr>, False)
      else case it_Next M (p_db s) (pi_Iterator it) of (i, hasNext) \<Rightarrow>
        let it = it\<lparr>pi_Iterator := i\<rparr> in
        if hasNext then
          let key = it_Key M i; prefixLen = length (pi_prefix it); key = (if length key \<ge> prefixLen then drop prefixLen key else key)
          in (it\<lparr>pi_key := key, pi_val := it_Value M i\<rparr>, True)
        else (it\<lparr>pi_key := [], pi_val := []\<rparr>, False))"

definition pi_Error :: "('d, 'b, 'i) Database \<Rightarrow> 'i prefix_iterator \<Rightarrow> go_error option" where
  "pi_Error M it = (if pi_err it \<noteq> None then pi_err it else it_Error M (pi_Iterator it))"

definition prefixdb :: "('d, 'b, 'i) Database \<Rightarrow> ('d prefixdb, 'b prefix_batch, 'i prefix_iterator iter) Database" where
  "prefixdb M = \<lparr>db_Has = p_Has M, db_Get = p_Get M, db_Put = p_Put M, db_Delete = p_Delete M, db_NewBatch = p_NewBatch M,
     db_NewIterator = p_NewIterator M, db_Compact = p_Compact M, db_Close = p_Close, db_HealthCheck = p_HealthCheck M,
     ba_Put = pb_Put M, ba_Delete = pb_Delete M, ba_Size = (\<lambda>b. ba_Size M (pb_Batch b)), ba_Write = pb_Write M, ba_Reset = pb_Reset M,
     it_Next = (\<lambda>s. dbi_Next (pi_Next M s)), it_Error = dbi_Error (pi_Error M), it_Key = dbi_get pi_key, it_Value = dbi_get pi_val,
     it_Release = dbi_Release (\<lambda>it. it\<lparr>pi_Iterator := it_Release M (pi_Iterator it)\<rparr>)\<rparr>"

section \<open>prefixdb satisfies the contract\<close>

definition strip :: "bytes \<Rightarrow> (bytes \<times> 'v) list \<Rightarrow> (bytes \<times> 'v) list" where
  "strip p xs = map (\<lambda>(k, v). (drop (length p) k, v)) xs"

definition view :: "bytes \<Rightarrow> kv \<Rightarrow> kv" where
  "view p m = (\<lambda>k. m (p @ k))"

definition all_prefixed :: "bytes \<Rightarrow> (bytes \<times> 'v) list \<Rightarrow> bool" where
  "all_prefixed p xs \<longleftrightarrow> (\<forall>x \<in> set xs. prefix p (fst x))"

definition p_ok :: "('d \<Rightarrow> bool) \<Rightarrow> ('d \<Rightarrow> kv option) \<Rightarrow> bytes \<Rightarrow> 'd prefixdb \<Rightarrow> bool" where
  "p_ok ok content p s \<longleftrightarrow> p_dbPrefix s = p \<and> ok (p_db s) \<and> (\<not> p_closed s \<longrightarrow> content (p_db s) \<noteq> None)"

definition p_content :: "('d \<Rightarrow> kv option) \<Rightarrow> bytes \<Rightarrow> 'd prefixdb \<Rightarrow> kv option" where
  "p_content content p s = (if p_closed s then None else map_option (view p) (content (p_db s)))"

definition pb_ok :: "('b \<Rightarrow> bool) \<Rightarrow> ('b \<Rightarrow> (bytes \<times> bytes option) list) \<Rightarrow> bytes \<Rightarrow> 'b prefix_batch \<Rightarrow> bool" where
  "pb_ok bok queued p b \<longleftrightarrow> bok (pb_Batch b) \<and> pb_prefix b = p \<and> all_prefixed p (queued (pb_Batch b))"

definition pb_queued :: "('b \<Rightarrow> (bytes \<times> bytes option) list) \<Rightarrow> bytes \<Rightarrow> 'b prefix_batch \<Rightarrow> (bytes \<times> bytes option) list" where
  "pb_queued queued p b = strip p (queued (pb_Batch b))"

definition pi_ok :: "('i \<Rightarrow> bool) \<Rightarrow> ('i \<Rightarrow> (bytes \<times> bytes) list) \<Rightarrow> bytes \<Rightarrow> 'i prefix_iterator iter \<Rightarrow> bool" where
  "pi_ok iok pend p it = (case it of IteratorError e \<Rightarrow> e = ErrClosed
     | Iter i \<Rightarrow> iok (pi_Iterator i) \<and> pi_prefix i = p \<and> all_prefixed p (pend (pi_Iterator i)))"

definition pi_pend :: "('i \<Rightarrow> (bytes \<times> bytes) list) \<Rightarrow> bytes \<Rightarrow> 'i prefix_iterator iter \<Rightarrow> (bytes \<times> bytes) list" where
  "pi_pend pend p it = (case it of IteratorError e \<Rightarrow> [] | Iter i \<Rightarrow> strip p (pend (pi_Iterator i)))"

lemma append_less_append [simp]: "(p :: bytes) @ a < p @ b \<longleftrightarrow> a < b" "p @ a \<le> p @ b \<longleftrightarrow> a \<le> b"
  by (induction p) auto

lemma view_upd [simp]: "view p (m(p @ k := v)) = (view p m)(k := v)"
  by (auto simp: view_def fun_eq_iff)

lemma view_finite: "finite (dom m) \<Longrightarrow> finite (dom (view p m))"
  by (rule finite_imageD [of "(@) p"]) (auto simp: inj_on_def view_def intro: finite_subset [of _ "dom m"])

lemma view_apply_ops: "all_prefixed p ops \<Longrightarrow> view p (apply_ops ops m) = apply_ops (strip p ops) (view p m)"
proof (induction ops arbitrary: m)
  case (Cons op ops)
  then obtain k v where "op = (p @ k, v)" by (cases op) (auto simp: all_prefixed_def prefix_def)
  with Cons show ?case by (simp add: all_prefixed_def strip_def)
qed (simp add: strip_def)

lemma view_entries:
  assumes "finite (dom m)"
  shows "strip p (entries (p @ start) (p @ pre) m) = entries start pre (view p m)" "all_prefixed p (entries (p @ start) (p @ pre) m)"
proof -
  note e = entries_props [OF assms, of "p @ start" "p @ pre"]
  show a: "all_prefixed p (entries (p @ start) (p @ pre) m)" unfolding all_prefixed_def e(2) by (auto simp: in_range_def prefix_def)
  have less: "drop (length p) (fst x) < drop (length p) (fst y)" if t: "all_prefixed p xs" "x \<in> set xs" "y \<in> set xs" "fst x < fst y"
    for x y and xs :: "(bytes \<times> bytes) list"
  proof -
    obtain a b where "fst x = p @ a" "fst y = p @ b" using t(1-3) unfolding all_prefixed_def prefix_def by blast
    then show ?thesis using t(4) by simp
  qed
  have s: "sorted_wrt (<) (map fst xs) \<Longrightarrow> all_prefixed p xs \<Longrightarrow> sorted_wrt (<) (map fst (strip p xs))" for xs :: "(bytes \<times> bytes) list"
    unfolding strip_def map_map comp_def case_prod_beta sorted_wrt_map fst_conv
    by (erule sorted_wrt_mono_rel [rotated]) (use less in blast)
  have "(k, v) \<in> set (strip p xs) \<longleftrightarrow> (p @ k, v) \<in> set xs" if "all_prefixed p xs" for k v and xs :: "(bytes \<times> bytes) list"
    using that by (induction xs) (auto simp: strip_def all_prefixed_def prefix_def)
  then have "set (strip p (entries (p @ start) (p @ pre) m)) = {(k, v). view p m k = Some v \<and> in_range start pre k}"
    using a by (auto simp: e(2) view_def in_range_def)
  then show "strip p (entries (p @ start) (p @ pre) m) = entries start pre (view p m)"
    using entries_unique [OF view_finite [OF assms] s [OF e(1) a]] by simp
qed

locale prefixed_database = database M ok content bok queued iok pend
  for M :: "('d, 'b, 'i) Database" and ok content bok queued iok pend +
  fixes p :: bytes
begin

lemma p_content_None: "p_ok ok content p s \<Longrightarrow> p_content content p s = None \<longleftrightarrow> p_closed s"
  by (auto simp: p_content_def p_ok_def)

lemma p_content_Some: "p_content content p s = Some m \<longleftrightarrow> \<not> p_closed s \<and> (\<exists>m0. content (p_db s) = Some m0 \<and> m = view p m0)"
  by (auto simp: p_content_def)

lemma pi_Next_delivers:
  assumes s: "p_ok ok content p s" "\<not> p_closed s" and i: "iok (pi_Iterator it)" "pi_prefix it = p" "all_prefixed p (pend (pi_Iterator it))"
  shows "\<exists>it'. pi_Next M s it = (it', pend (pi_Iterator it) \<noteq> []) \<and> iok (pi_Iterator it') \<and> pi_prefix it' = p \<and> pi_Error M it' = pi_Error M it \<and>
    pend (pi_Iterator it') = tl (pend (pi_Iterator it)) \<and>
    (pend (pi_Iterator it) \<noteq> [] \<longrightarrow> (pi_key it', pi_val it') = hd (strip p (pend (pi_Iterator it))))"
proof -
  have "ok (p_db s)" "content (p_db s) \<noteq> None" using s by (auto simp: p_ok_def)
  from Next [OF this i(1)] obtain j where j: "it_Next M (p_db s) (pi_Iterator it) = (j, pend (pi_Iterator it) \<noteq> [])" "iok j"
    "it_Error M j = it_Error M (pi_Iterator it)" "pend j = tl (pend (pi_Iterator it))"
    "pend (pi_Iterator it) \<noteq> [] \<longrightarrow> (it_Key M j, it_Value M j) = hd (pend (pi_Iterator it))" by blast
  show ?thesis
  proof (cases "pend (pi_Iterator it)")
    case Nil
    then show ?thesis using j s(2) i(2) by (auto simp: pi_Next_def pi_Error_def)
  next
    case (Cons e es)
    then obtain k v where e: "e = (p @ k, v)" using i(3) by (cases e) (auto simp: all_prefixed_def prefix_def)
    then have "it_Key M j = p @ k" "it_Value M j = v" using j(5) Cons by auto
    then show ?thesis using j s(2) i(2) Cons e by (auto simp: pi_Next_def pi_Error_def Let_def strip_def)
  qed
qed

end

sublocale prefixed_database \<subseteq> p: database "prefixdb M" "p_ok ok content p" "p_content content p" "pb_ok bok queued p" "pb_queued queued p"
  "pi_ok iok pend p" "pi_pend pend p"
proof (unfold_locales, goal_cases)
  case (1 d m)
  then show ?case using finite_content view_finite by (fastforce simp: p_content_Some p_ok_def)
next
  case (2 d k)
  then show ?case using Has [of "p_db d" "p @ k"] by (auto simp: prefixdb_def p_Has_def p_prefix_def p_content_def p_ok_def view_def)
next
  case (3 d k)
  then show ?case using Get [of "p_db d" "p @ k"] by (auto simp: prefixdb_def p_Get_def p_prefix_def p_content_def p_ok_def view_def)
next
  case (5 d m k v)
  then obtain m0 where m: "content (p_db d) = Some m0" "m = view p m0" "\<not> p_closed d" "ok (p_db d)" by (auto simp: p_content_Some p_ok_def)
  from Put [OF m(4,1), of "p @ k" v] m 5(1) show ?case by (auto simp: prefixdb_def p_Put_def p_prefix_def p_ok_def p_content_def on_db_def)
next
  case (7 d m k)
  then obtain m0 where m: "content (p_db d) = Some m0" "m = view p m0" "\<not> p_closed d" "ok (p_db d)" by (auto simp: p_content_Some p_ok_def)
  from Delete [OF m(4,1), of "p @ k"] m 7(1) show ?case by (auto simp: prefixdb_def p_Delete_def p_prefix_def p_ok_def p_content_def on_db_def)
next
  case (8 d s l)
  then show ?case using Compact [of "p_db d"] by (auto simp: prefixdb_def p_Compact_def p_content_def p_ok_def Let_def split: option.splits)
next
  case (9 d)
  then show ?case using HealthCheck [of "p_db d"] by (auto simp: prefixdb_def p_HealthCheck_def p_content_def p_ok_def)
next
  case (12 d)
  then show ?case using NewBatch [of "p_db d"] by (simp add: prefixdb_def p_NewBatch_def pb_ok_def pb_queued_def p_ok_def all_prefixed_def strip_def)
next
  case (13 b k v)
  then show ?case using batch_Put [of "pb_Batch b" "p @ k" v]
    by (auto simp: prefixdb_def pb_Put_def pb_ok_def pb_queued_def all_prefixed_def strip_def Let_def)
next
  case (14 b k)
  then show ?case using batch_Delete [of "pb_Batch b" "p @ k"]
    by (auto simp: prefixdb_def pb_Delete_def pb_ok_def pb_queued_def all_prefixed_def strip_def Let_def)
next
  case (15 b)
  then show ?case using Reset [of "pb_Batch b"] by (simp add: prefixdb_def pb_Reset_def pb_ok_def pb_queued_def)
next
  case (17 d b m)
  then obtain m0 where m: "content (p_db d) = Some m0" "m = view p m0" "\<not> p_closed d" "ok (p_db d)" by (auto simp: p_content_Some p_ok_def)
  have b: "bok (pb_Batch b)" "all_prefixed p (queued (pb_Batch b))" using 17(2) by (simp_all add: pb_ok_def)
  from Write [OF m(4) b(1) m(1)] m 17(1) view_apply_ops [OF b(2), of m0] show ?case
    by (auto simp: prefixdb_def pb_Write_def p_ok_def p_content_def on_db_def pb_queued_def)
next
  case (18 d m start pre)
  then obtain m0 where m: "content (p_db d) = Some m0" "m = view p m0" "\<not> p_closed d" "ok (p_db d)" "p_dbPrefix d = p" by (auto simp: p_content_Some p_ok_def)
  from NewIterator [OF m(4,1), of "p @ start" "p @ pre"] view_entries [OF finite_content [OF m(4,1)], of p start pre] m show ?case
    by (auto simp: prefixdb_def p_NewIterator_def p_prefix_def pi_ok_def pi_pend_def dbi_Error_def pi_Error_def)
next
  case (19 d start pre)
  then show ?case by (simp add: p_content_None prefixdb_def p_NewIterator_def pi_ok_def dbi_Error_def pi_pend_def)
next
  case (20 d i)
  show ?case
  proof (cases i)
    case (IteratorError e)
    then show ?thesis using 20(3) by (simp add: prefixdb_def dbi_defs pi_pend_def)
  next
    case (Iter it)
    then have it: "iok (pi_Iterator it)" "pi_prefix it = p" "all_prefixed p (pend (pi_Iterator it))" "\<not> p_closed d"
      using 20 by (auto simp: pi_ok_def p_content_None)
    from pi_Next_delivers [OF 20(1) it(4,1,2,3)] obtain it' where it': "pi_Next M d it = (it', pend (pi_Iterator it) \<noteq> [])" "iok (pi_Iterator it')"
      "pi_prefix it' = p" "pi_Error M it' = pi_Error M it" "pend (pi_Iterator it') = tl (pend (pi_Iterator it))"
      "pend (pi_Iterator it) \<noteq> [] \<longrightarrow> (pi_key it', pi_val it') = hd (strip p (pend (pi_Iterator it)))" by blast
    have "all_prefixed p (tl (pend (pi_Iterator it)))" using it(3) by (cases "pend (pi_Iterator it)") (simp_all add: all_prefixed_def)
    then show ?thesis using it' Iter by (simp add: prefixdb_def dbi_defs pi_pend_def pi_ok_def) (simp add: strip_def map_tl)
  qed
next
  case (21 d i)
  then show ?case by (cases i) (simp_all add: prefixdb_def dbi_defs pi_ok_def pi_Next_def p_content_None pi_Error_def)
qed (auto simp: prefixdb_def p_content_None p_Put_def p_Delete_def p_Close_def pb_Write_def p_ok_def p_content_def split: if_splits)

section \<open>Prefixed databases do not interfere\<close>

lemma apply_ops_outside: "all_prefixed p ops \<Longrightarrow> \<not> prefix p k \<Longrightarrow> apply_ops ops m k = m k"
  by (induction ops arbitrary: m) (auto simp: all_prefixed_def)

context prefixed_database
begin

lemmas prefixdb_database = p.database_axioms

lemma db_step_frame:
  assumes s: "p_ok ok content p s" "\<not> p_closed s" "content (p_db s) = Some m" and r: "db_step (prefixdb M) c s = (s', None)"
  shows "\<not> p_closed s' \<and> (\<exists>m'. content (p_db s') = Some m' \<and> (\<forall>k. \<not> prefix p k \<longrightarrow> m' k = m k))"
proof (cases c)
  case (DPut k v)
  have "ok (p_db s)" "p_dbPrefix s = p" using s by (simp_all add: p_ok_def)
  from Put [OF this(1) s(3), of "p @ k" v] this(2) r s(2) DPut show ?thesis
    by (auto simp: prefixdb_def p_Put_def p_prefix_def on_db_def)
next
  case (DDelete k)
  have "ok (p_db s)" "p_dbPrefix s = p" using s by (simp_all add: p_ok_def)
  from Delete [OF this(1) s(3), of "p @ k"] this(2) r s(2) DDelete show ?thesis
    by (auto simp: prefixdb_def p_Delete_def p_prefix_def on_db_def)
next
  case (DWrite ops)
  from p.fill_batch_spec [OF conjunct1 [OF p.NewBatch [OF s(1)]], of ops] obtain b where
    b: "fill_batch (prefixdb M) ops (db_NewBatch (prefixdb M) s) = (b, None)" "pb_ok bok queued p b" by blast
  have "ok (p_db s)" "bok (pb_Batch b)" "all_prefixed p (queued (pb_Batch b))" using s b(2) by (simp_all add: p_ok_def pb_ok_def)
  from Write [OF this(1,2) s(3)] apply_ops_outside [OF this(3)] b(1) r s(2) DWrite show ?thesis
    by (auto simp: prefixdb_def pb_Write_def on_db_def)
qed

lemma db_run_frame:
  "p_ok ok content p s \<Longrightarrow> \<not> p_closed s \<Longrightarrow> content (p_db s) = Some m \<Longrightarrow>
   \<exists>s' m'. db_run (prefixdb M) cs s = (s', None) \<and> p_ok ok content p s' \<and> \<not> p_closed s' \<and> content (p_db s') = Some m' \<and>
     view p m' = apply_ops (concat (map op_list cs)) (view p m) \<and> (\<forall>k. \<not> prefix p k \<longrightarrow> m' k = m k)"
proof (induction cs arbitrary: s m)
  case (Cons c cs)
  have "p_content content p s = Some (view p m)" using Cons.prems by (simp add: p_content_def)
  from p.db_step_spec [OF Cons.prems(1) this] obtain s1 where s1: "db_step (prefixdb M) c s = (s1, None)" "p_ok ok content p s1"
    "p_content content p s1 = Some (apply_ops (op_list c) (view p m))" by blast
  from db_step_frame [OF Cons.prems s1(1)] obtain m1 where m1: "\<not> p_closed s1" "content (p_db s1) = Some m1" "\<forall>k. \<not> prefix p k \<longrightarrow> m1 k = m k" by blast
  have "view p m1 = apply_ops (op_list c) (view p m)" using s1(3) m1(1,2) by (simp add: p_content_def)
  with Cons.IH [OF s1(2) m1(1,2)] s1(1) m1(3) show ?case by fastforce
qed simp

end

lemma prefixed_memdb:
  assumes "valid_ord ord"
  shows "prefixed_database (memdb ord) mem_ok id (\<lambda>_. True) bo_queued mi_ok mi_pend"
  using map_order.memdb_database [OF map_order.intro [OF assms]] by (rule prefixed_database.intro)

interpretation pmem: prefixed_database "memdb sorted_list_of_set" mem_ok id "\<lambda>_. True" bo_queued mi_ok mi_pend p for p
  by (rule prefixed_memdb) (rule ascending.valid)

text \<open>A prefixed database over a versioned one over memdb, the usual stack.\<close>

interpretation stack: prefixed_database "versiondb sorted_list_of_set (memdb sorted_list_of_set)" "v_ok mem_ok id (\<lambda>_. True)" "v_content id"
  "\<lambda>_. True" bo_queued "vi_ok mi_ok" "vi_pend (memdb sorted_list_of_set) mi_pend" p for p
  by (rule prefixed_database.intro) (rule vmem.v.database_axioms)

text \<open>
  C14. Every sequence of Put, Delete and writes of batches on a prefixed database over memdb succeeds and acts as on a
  map of its own: reads and iterators see exactly the keys below the prefix, without it. All other keys of the database below
  stay as they were, so prefixed databases with different prefixes of the same length, such as the hashes that New takes, do not interfere.
\<close>

theorem prefixdb_isolated:
  assumes "valid_ord ord" "finite (dom m)" "working = apply_ops (concat (map op_list cs)) (view p m)"
  shows "\<exists>s m'. db_run (prefixdb (memdb ord)) cs (newDB p (Some m)) = (s, None) \<and> p_db s = Some m' \<and>
    (\<forall>k. m' k = (if prefix p k then working (drop (length p) k) else m k)) \<and>
    (\<forall>k. p_Get (memdb ord) k s = (case working k of None \<Rightarrow> Inl ErrNotFound | Some v \<Rightarrow> Inr v)) \<and>
    (\<forall>start pre n. card (dom working) < n \<longrightarrow>
      read_all (prefixdb (memdb ord)) s n (p_NewIterator (memdb ord) start pre s) = (entries start pre working, False)) \<and>
    (\<forall>q k. length q = length p \<longrightarrow> q \<noteq> p \<longrightarrow> p_Get (memdb ord) k (newDB q (Some m')) = p_Get (memdb ord) k (newDB q (Some m)))"
proof -
  note V = prefixed_memdb [OF assms(1)]
  have D: "database (prefixdb (memdb ord)) (p_ok mem_ok id p) (p_content id p) (pb_ok (\<lambda>_. True) bo_queued p) (pb_queued bo_queued p) (pi_ok mi_ok mi_pend p) (pi_pend mi_pend p)"
    by (rule prefixed_database.prefixdb_database [OF V])
  have "p_ok mem_ok id p (newDB p (Some m))" "\<not> p_closed (newDB p (Some m))" "id (p_db (newDB p (Some m))) = Some m"
    using assms(2) by (simp_all add: p_ok_def newDB_def mem_ok_def)
  from prefixed_database.db_run_frame [OF V this, of cs] obtain s m' where
    s: "db_run (prefixdb (memdb ord)) cs (newDB p (Some m)) = (s, None)" "p_ok mem_ok id p s" "\<not> p_closed s" "p_db s = Some m'"
      "view p m' = working" "\<forall>k. \<not> prefix p k \<longrightarrow> m' k = m k" unfolding id_apply assms(3) by blast
  have c: "p_content id p s = Some working" using s(3-5) by (simp add: p_content_def)
  have m': "m' k = (if prefix p k then working (drop (length p) k) else m k)" for k
    using s(6) by (auto simp: s(5) [symmetric] view_def prefix_def)
  have get: "p_Get (memdb ord) k s = (case working k of None \<Rightarrow> Inl ErrNotFound | Some v \<Rightarrow> Inr v)" for k
    using database.Get [OF D s(2), of k] c by (simp add: prefixdb_def)
  have it: "card (dom working) < n \<Longrightarrow> read_all (prefixdb (memdb ord)) s n (p_NewIterator (memdb ord) start pre s) = (entries start pre working, False)" for start pre n
    using database.iterate [OF D s(2) c, of n start pre] by (simp add: prefixdb_def)
  have "m' (q @ k) = m (q @ k)" if "length q = length p" "q \<noteq> p" for q k
    using s(6) that by (auto simp: prefix_def)
  then have "p_Get (memdb ord) k (newDB q (Some m')) = p_Get (memdb ord) k (newDB q (Some m))" if "length q = length p" "q \<noteq> p" for q k
    using that by (simp add: p_Get_def newDB_def p_prefix_def memdb_def mem_Get_def)
  with s(1,4) m' get it show ?thesis by blast
qed

theorem prefixdb_isolated_witness:
  "\<exists>s m'. db_run (prefixdb (memdb sorted_list_of_set)) [DPut [1] [9], DWrite [([2], Some [8]), ([1], None)]] (newDB [7] (Some [[6, 1] \<mapsto> [0], [7, 1] \<mapsto> [3]])) = (s, None) \<and>
    p_db s = Some m' \<and> m' [6, 1] = Some [0] \<and> m' [7, 1] = None \<and> m' [7, 2] = Some [8] \<and>
    p_Get (memdb sorted_list_of_set) [1] (newDB [6] (Some m')) = Inr [0]"
proof -
  let ?m = "[[6, 1] \<mapsto> [0], [7, 1] \<mapsto> [3]] :: kv"
  let ?w = "((view [7] ?m)([1] \<mapsto> [9]))([2] \<mapsto> [8], [1] := None)"
  have w: "?w = apply_ops (concat (map op_list [DPut [1] [9], DWrite [([2], Some [8]), ([1], None)]])) (view [7] ?m)" by simp
  from prefixdb_isolated [OF ascending.valid _ w] obtain s m' where s:
    "db_run (prefixdb (memdb sorted_list_of_set)) [DPut [1] [9], DWrite [([2], Some [8]), ([1], None)]] (newDB [7] (Some ?m)) = (s, None)" "p_db s = Some m'"
    "\<forall>k. m' k = (if prefix [7] k then ?w (drop (length [7 :: byte]) k) else ?m k)"
    "\<forall>q k. length q = length [7 :: byte] \<longrightarrow> q \<noteq> [7] \<longrightarrow>
      p_Get (memdb sorted_list_of_set) k (newDB q (Some m')) = p_Get (memdb sorted_list_of_set) k (newDB q (Some ?m))" by auto
  have "p_Get (memdb sorted_list_of_set) [1] (newDB [6] (Some m')) = p_Get (memdb sorted_list_of_set) [1] (newDB [6] (Some ?m))" using s(4) by simp
  also have "\<dots> = Inr [0]" by (simp add: p_Get_def newDB_def p_prefix_def memdb_def mem_Get_def)
  finally show ?thesis using s(1-3) by (auto simp: view_def)
qed

section \<open>The end of the key range\<close>

lemma increment_snoc: "incrementByteSlice (p @ [b]) = (if b + 1 \<noteq> 0 then p @ [b + 1] else incrementByteSlice p @ [0])"
  by (simp add: incrementByteSlice_def Let_def)

lemma length_increment [simp]: "length (incrementByteSlice p) = length p"
  by (induction p rule: rev_induct) (simp_all add: increment_snoc incrementByteSlice_def [of "[]"])

lemma max_byte: "(255 :: byte) = - 1"
  by simp

lemma byte_succ: "(b :: byte) + 1 \<noteq> 0 \<Longrightarrow> c < b + 1 \<longleftrightarrow> c \<le> b" "(b :: byte) + 1 = 0 \<longleftrightarrow> b = 255"
proof -
  show e: "b + 1 = 0 \<longleftrightarrow> b = 255" unfolding max_byte by (rule eq_neg_iff_add_eq_0 [symmetric])
  show "c < b + 1 \<longleftrightarrow> c \<le> b" if "b + 1 \<noteq> 0" using that unatSuc [of b] by (simp add: word_less_nat_alt word_le_nat_alt add.commute less_Suc_eq_le)
qed

lemma less_increment:
  "length k = length p \<Longrightarrow> \<exists>b \<in> set p. b \<noteq> 255 \<Longrightarrow> k < incrementByteSlice p \<longleftrightarrow> k \<le> p"
proof (induction p arbitrary: k rule: rev_induct)
  case (snoc b p)
  then obtain k' c where k: "k = k' @ [c]" "length k' = length p" by (cases k rule: rev_exhaust) auto
  show ?case
  proof (cases "b + 1 = 0")
    case True
    then have "b = 255" "\<exists>b \<in> set p. b \<noteq> 255" using snoc.prems(2) byte_succ(2) [of b] by auto
    moreover have "c \<le> 255" unfolding max_byte by (rule word_order.extremum)
    ultimately show ?thesis using True k snoc.IH [OF k(2)] by (auto simp: increment_snoc snoc_less_snoc snoc_le_snoc order.order_iff_strict)
  next
    case False
    then show ?thesis using k by (simp add: increment_snoc snoc_less_snoc snoc_le_snoc byte_succ(1))
  qed
qed simp

lemma increment_wraps: "\<forall>b \<in> set p. b = 255 \<Longrightarrow> incrementByteSlice p = replicate (length p) 0"
  by (induction p rule: rev_induct) (simp_all add: increment_snoc byte_succ(2) incrementByteSlice_def [of "[]"] replicate_append_same)

lemma append_cmp:
  "length k = length p \<Longrightarrow> (k :: bytes) @ xs < p \<longleftrightarrow> k < p" "length k = length p \<Longrightarrow> (p :: bytes) \<le> k @ xs \<longleftrightarrow> p \<le> k"
  by (induction k p rule: list_induct2) auto

text \<open>
  C15. The limit of a prefixed database, the incremented prefix, ends its key range: among the keys that are at least as long
  as the prefix, exactly those with the prefix lie between the prefix and the limit. A prefix of bytes 0xFF only wraps around
  to zeros, and no key lies in its range.
\<close>

theorem dbLimit_bounds:
  "((\<exists>b \<in> set p. b \<noteq> 255) \<longrightarrow> length p \<le> length k \<longrightarrow> (prefix p k \<longleftrightarrow> p \<le> k \<and> k < p_dbLimit (newDB p db))) \<and>
   ((\<forall>b \<in> set p. b = 255) \<longrightarrow> p_dbLimit (newDB p db) = replicate (length p) 0 \<and> \<not> (p \<le> k \<and> k < p_dbLimit (newDB p db)))"
proof (intro conjI impI)
  assume p: "\<exists>b \<in> set p. b \<noteq> 255" and l: "length p \<le> length k"
  define h where "h = take (length p) k"
  have h: "length h = length p" "k = h @ drop (length p) k" using l by (simp_all add: h_def)
  have "p \<le> k \<longleftrightarrow> p \<le> h" using append_cmp(2) [OF h(1), of "drop (length p) k"] h(2) by simp
  moreover have "k < incrementByteSlice p \<longleftrightarrow> h < incrementByteSlice p"
    using append_cmp(1) [of h "incrementByteSlice p" "drop (length p) k"] h by simp
  moreover have "prefix p k \<longleftrightarrow> h = p" by (metis append_eq_conv_conj h_def prefix_def)
  ultimately show "prefix p k \<longleftrightarrow> p \<le> k \<and> k < p_dbLimit (newDB p db)" using less_increment [OF h(1) p] by (auto simp: newDB_def)
next
  assume p: "\<forall>b \<in> set p. b = 255"
  show "p_dbLimit (newDB p db) = replicate (length p) 0" using increment_wraps [OF p] by (simp add: newDB_def)
  have "replicate n 0 \<le> (p :: bytes)" if "n = length p" for n using that by (induction p arbitrary: n) (auto simp: order.order_iff_strict word_gt_0)
  then show "\<not> (p \<le> k \<and> k < p_dbLimit (newDB p db))" unfolding newDB_def using increment_wraps [OF p] by (auto simp: not_less dest: order.trans)
qed

theorem dbLimit_bounds_witness:
  "p_dbLimit (newDB [1, 255] ()) = [2, 0] \<and> prefix [1, 255] [1, 255, 7 :: byte] \<and> [1, 255, 7] < p_dbLimit (newDB [1, 255] ()) \<and>
   \<not> ([255] \<le> [255, 3] \<and> [255, 3] < p_dbLimit (newDB [255] ()))"
proof -
  have "p_dbLimit (newDB [1, 255] ()) = [2, 0]" by (simp add: newDB_def incrementByteSlice_def Let_def)
  then show ?thesis using dbLimit_bounds [of "[1, 255]" "[1, 255, 7]" "()"] dbLimit_bounds [of "[255]" "[255, 3]" "()"] by simp
qed

end
