(* ===== verification/IntervalTree.thy ===== *)
theory IntervalTree
  imports MemDB ByteOrder SafeMath
begin

text \<open>
  default/snow/engine/snowman/bootstrap/interval: the heights of the blocks that a bootstrapping node has fetched, as
  disjoint intervals in memory (tree.go, interval.go) and in the database (state.go, blocks.go), and default/database/helpers.go for
  \<^verbatim>\<open>uint64\<close>. The tree of \<^verbatim>\<open>github.com/google/btree\<close> is the parameter \<open>B\<close>; it holds pointers to intervals that the code updates
  in place, here indices into \<open>ivs\<close>. \<open>btree_ok\<close> states what its documentation promises. A writer is a database or a
  batch, by its methods Put and Delete.
\<close>

section \<open>Model\<close>

record 'w writer =
  w_Put :: "bytes \<Rightarrow> bytes \<Rightarrow> 'w \<Rightarrow> 'w \<times> go_error option"
  w_Delete :: "bytes \<Rightarrow> 'w \<Rightarrow> 'w \<times> go_error option"

definition errWrongSize :: go_error where
  "errWrongSize = Err ''value has unexpected size''"

definition PackUInt64 :: "uint64 \<Rightarrow> bytes" where
  "PackUInt64 val = PutUint 8 val"

definition ParseUInt64 :: "bytes \<Rightarrow> uint64 res" where
  "ParseUInt64 b = (if length b \<noteq> 8 then Inl errWrongSize else Inr (Uint 8 b))"

definition PutUInt64 :: "'w writer \<Rightarrow> bytes \<Rightarrow> uint64 \<Rightarrow> 'w \<Rightarrow> 'w \<times> go_error option" where
  "PutUInt64 W key val w = w_Put W key (PackUInt64 val) w"

record Interval =
  LowerBound :: uint64
  UpperBound :: uint64

text \<open>A nil interval is None.\<close>

definition iv_Less :: "Interval \<Rightarrow> Interval \<Rightarrow> bool" where
  "iv_Less i other \<longleftrightarrow> UpperBound i < UpperBound other"

definition iv_Contains :: "Interval option \<Rightarrow> uint64 \<Rightarrow> bool" where
  "iv_Contains i height = (case i of None \<Rightarrow> False | Some i \<Rightarrow> LowerBound i \<le> height \<and> height \<le> UpperBound i)"

definition AdjacentToLowerBound :: "Interval option \<Rightarrow> uint64 \<Rightarrow> bool" where
  "AdjacentToLowerBound i height = (case i of None \<Rightarrow> False | Some i \<Rightarrow> height < MaxUint \<and> height + 1 = LowerBound i)"

definition AdjacentToUpperBound :: "Interval option \<Rightarrow> uint64 \<Rightarrow> bool" where
  "AdjacentToUpperBound i height = (case i of None \<Rightarrow> False | Some i \<Rightarrow> UpperBound i < MaxUint \<and> UpperBound i + 1 = height)"

text \<open>
  The methods of \<^verbatim>\<open>btree.BTreeG\<close>. The comparison is fixed when a tree is made; it is an argument here because it reads the
  intervals behind the pointers. An iteration method gives the items in the order in which it visits them.
\<close>

record ('a, 't) btree =
  bt_New :: 't
  bt_ReplaceOrInsert :: "('a \<Rightarrow> 'a \<Rightarrow> bool) \<Rightarrow> 'a \<Rightarrow> 't \<Rightarrow> 't"
  bt_Delete :: "('a \<Rightarrow> 'a \<Rightarrow> bool) \<Rightarrow> 'a \<Rightarrow> 't \<Rightarrow> 't"
  bt_AscendGreaterOrEqual :: "('a \<Rightarrow> 'a \<Rightarrow> bool) \<Rightarrow> 'a \<Rightarrow> 't \<Rightarrow> 'a list"
  bt_DescendLessOrEqual :: "('a \<Rightarrow> 'a \<Rightarrow> bool) \<Rightarrow> 'a \<Rightarrow> 't \<Rightarrow> 'a list"
  bt_Ascend :: "'t \<Rightarrow> 'a list"

definition btree_ok :: "('a, 't) btree \<Rightarrow> bool" where
  "btree_ok B \<longleftrightarrow> bt_Ascend B (bt_New B) = [] \<and>
     (\<forall>(key :: 'a \<Rightarrow> uint64) x t. sorted_wrt (\<lambda>a b. key a < key b) (bt_Ascend B t) \<longrightarrow>
        bt_Ascend B (bt_ReplaceOrInsert B (\<lambda>a b. key a < key b) x t) =
          filter (\<lambda>y. key y < key x) (bt_Ascend B t) @ x # filter (\<lambda>y. key x < key y) (bt_Ascend B t) \<and>
        bt_Ascend B (bt_Delete B (\<lambda>a b. key a < key b) x t) = filter (\<lambda>y. key y \<noteq> key x) (bt_Ascend B t) \<and>
        bt_AscendGreaterOrEqual B (\<lambda>a b. key a < key b) x t = filter (\<lambda>y. key x \<le> key y) (bt_Ascend B t) \<and>
        bt_DescendLessOrEqual B (\<lambda>a b. key a < key b) x t = rev (filter (\<lambda>y. key y \<le> key x) (bt_Ascend B t)))"

record 't interval_tree =
  knownHeights :: 't
  numKnownHeights :: uint64
  ivs :: "Interval list"

definition less_iv :: "'t interval_tree \<Rightarrow> nat \<Rightarrow> nat \<Rightarrow> bool" where
  "less_iv t = (\<lambda>a b. iv_Less (ivs t ! a) (ivs t ! b))"

definition alloc_iv :: "uint64 \<Rightarrow> uint64 \<Rightarrow> 't interval_tree \<Rightarrow> nat \<times> 't interval_tree" where
  "alloc_iv l u t = (length (ivs t), t\<lparr>ivs := ivs t @ [\<lparr>LowerBound = l, UpperBound = u\<rparr>]\<rparr>)"

definition set_lower :: "nat \<Rightarrow> uint64 \<Rightarrow> 't interval_tree \<Rightarrow> 't interval_tree" where
  "set_lower r l t = t\<lparr>ivs := (ivs t)[r := (ivs t ! r)\<lparr>LowerBound := l\<rparr>]\<rparr>"

definition set_upper :: "nat \<Rightarrow> uint64 \<Rightarrow> 't interval_tree \<Rightarrow> 't interval_tree" where
  "set_upper r u t = t\<lparr>ivs := (ivs t)[r := (ivs t ! r)\<lparr>UpperBound := u\<rparr>]\<rparr>"

text \<open>The callbacks stop at the first item.\<close>

definition first_item :: "'a list \<Rightarrow> 'a option" where
  "first_item xs = (case xs of [] \<Rightarrow> None | x # _ \<Rightarrow> Some x)"

definition deref :: "'t interval_tree \<Rightarrow> nat option \<Rightarrow> Interval option" where
  "deref t r = map_option (\<lambda>r. ivs t ! r) r"

definition intervalPrefix :: bytes where
  "intervalPrefix = [0]"

definition blockPrefix :: bytes where
  "blockPrefix = [1]"

definition errInvalidKeyLength :: go_error where
  "errInvalidKeyLength = Err ''invalid key length''"

definition makeIntervalKey :: "uint64 \<Rightarrow> bytes" where
  "makeIntervalKey upperBound = intervalPrefix @ PackUInt64 upperBound"

definition PutInterval :: "'w writer \<Rightarrow> uint64 \<Rightarrow> uint64 \<Rightarrow> 'w \<Rightarrow> 'w \<times> go_error option" where
  "PutInterval W upperBound lowerBound w = PutUInt64 W (makeIntervalKey upperBound) lowerBound w"

definition DeleteInterval :: "'w writer \<Rightarrow> uint64 \<Rightarrow> 'w \<Rightarrow> 'w \<times> go_error option" where
  "DeleteInterval W upperBound w = w_Delete W (makeIntervalKey upperBound) w"

definition makeBlockKey :: "uint64 \<Rightarrow> bytes" where
  "makeBlockKey height = blockPrefix @ PackUInt64 height"

definition GetBlockIterator :: "('d, 'b, 'i) Database \<Rightarrow> 'd \<Rightarrow> 'i" where
  "GetBlockIterator M d = db_NewIterator M [] blockPrefix d"

definition GetBlockIteratorWithStart :: "('d, 'b, 'i) Database \<Rightarrow> uint64 \<Rightarrow> 'd \<Rightarrow> 'i" where
  "GetBlockIteratorWithStart M height d = db_NewIterator M (makeBlockKey height) blockPrefix d"

definition GetBlock :: "('d, 'b, 'i) Database \<Rightarrow> uint64 \<Rightarrow> 'd \<Rightarrow> bytes res" where
  "GetBlock M height d = db_Get M (makeBlockKey height) d"

definition PutBlock :: "'w writer \<Rightarrow> uint64 \<Rightarrow> bytes \<Rightarrow> 'w \<Rightarrow> 'w \<times> go_error option" where
  "PutBlock W height bs w = w_Put W (makeBlockKey height) bs w"

definition DeleteBlock :: "'w writer \<Rightarrow> uint64 \<Rightarrow> 'w \<Rightarrow> 'w \<times> go_error option" where
  "DeleteBlock W height w = w_Delete W (makeBlockKey height) w"

text \<open>The intervals that an iteration yields; \<open>n\<close> bounds the number of rounds, None means that it was too small.\<close>

fun get_intervals :: "('d, 'b, 'i) Database \<Rightarrow> 'd \<Rightarrow> nat \<Rightarrow> 'i \<Rightarrow> Interval list res option" where
  "get_intervals M d 0 it = None"
| "get_intervals M d (Suc n) it =
     (case it_Next M d it of
        (it, False) \<Rightarrow> Some (case it_Error M it of Some err \<Rightarrow> Inl err | None \<Rightarrow> Inr [])
      | (it, True) \<Rightarrow>
          let dbKey = it_Key M it in
          if length dbKey < 1 then Some (Inl errInvalidKeyLength)
          else case ParseUInt64 (drop 1 dbKey) of
            Inl err \<Rightarrow> Some (Inl err)
          | Inr upperBound \<Rightarrow>
              (case ParseUInt64 (it_Value M it) of
                 Inl err \<Rightarrow> Some (Inl err)
               | Inr lowerBound \<Rightarrow> map_option (map_sum id (Cons \<lparr>LowerBound = lowerBound, UpperBound = upperBound\<rparr>)) (get_intervals M d n it)))"

definition GetIntervals :: "('d, 'b, 'i) Database \<Rightarrow> 'd \<Rightarrow> nat \<Rightarrow> Interval list res option" where
  "GetIntervals M d n = get_intervals M d n (db_NewIterator M [] intervalPrefix d)"

fun insert_all :: "(nat, 't) btree \<Rightarrow> Interval list \<Rightarrow> 't interval_tree \<Rightarrow> 't interval_tree" where
  "insert_all B [] t = t"
| "insert_all B (i # is) t =
     (case alloc_iv (LowerBound i) (UpperBound i) t of (r, t) \<Rightarrow>
        insert_all B is (t\<lparr>knownHeights := bt_ReplaceOrInsert B (less_iv t) r (knownHeights t),
          numKnownHeights := numKnownHeights t + (UpperBound i - LowerBound i + 1)\<rparr>))"

definition NewTree :: "(nat, 't) btree \<Rightarrow> ('d, 'b, 'i) Database \<Rightarrow> 'd \<Rightarrow> nat \<Rightarrow> 't interval_tree res option" where
  "NewTree B M d n =
     map_option (map_sum id (\<lambda>is. insert_all B is \<lparr>knownHeights = bt_New B, numKnownHeights = 0, ivs = []\<rparr>)) (GetIntervals M d n)"

type_synonym ('t, 'w) tree_result = "'t interval_tree \<times> 'w \<times> go_error option"

definition with_tree :: "'t interval_tree \<Rightarrow> 'w \<times> go_error option \<Rightarrow> ('t, 'w) tree_result" where
  "with_tree t r = (t, fst r, snd r)"

definition tree_Add :: "(nat, 't) btree \<Rightarrow> 'w writer \<Rightarrow> uint64 \<Rightarrow> 't interval_tree \<Rightarrow> 'w \<Rightarrow> ('t, 'w) tree_result" where
  "tree_Add B W height t w =
     (case alloc_iv height height t of (newInterval, t) \<Rightarrow>
        let upper = first_item (bt_AscendGreaterOrEqual B (less_iv t) newInterval (knownHeights t)) in
        if iv_Contains (deref t upper) height then (t, w, None)
        else
          let lower = first_item (bt_DescendLessOrEqual B (less_iv t) newInterval (knownHeights t));
              t = t\<lparr>numKnownHeights := numKnownHeights t + 1\<rparr>;
              adjacentToLowerBound = AdjacentToLowerBound (deref t upper) height;
              adjacentToUpperBound = AdjacentToUpperBound (deref t lower) height;
              u = the upper; l = the lower
          in if adjacentToLowerBound \<and> adjacentToUpperBound then
               (case DeleteInterval W (UpperBound (ivs t ! l)) w of
                  (w, Some err) \<Rightarrow> (t, w, Some err)
                | (w, None) \<Rightarrow>
                    let t = set_lower u (LowerBound (ivs t ! l)) t;
                        t = t\<lparr>knownHeights := bt_Delete B (less_iv t) l (knownHeights t)\<rparr>
                    in with_tree t (PutInterval W (UpperBound (ivs t ! u)) (LowerBound (ivs t ! l)) w))
             else if adjacentToLowerBound then
               (let t = set_lower u height t in with_tree t (PutInterval W (UpperBound (ivs t ! u)) height w))
             else if adjacentToUpperBound then
               (case DeleteInterval W (UpperBound (ivs t ! l)) w of
                  (w, Some err) \<Rightarrow> (t, w, Some err)
                | (w, None) \<Rightarrow>
                    let t = set_upper l height t in with_tree t (PutInterval W height (LowerBound (ivs t ! l)) w))
             else
               (let t = t\<lparr>knownHeights := bt_ReplaceOrInsert B (less_iv t) newInterval (knownHeights t)\<rparr>
                in with_tree t (PutInterval W height height w)))"

definition tree_Remove :: "(nat, 't) btree \<Rightarrow> 'w writer \<Rightarrow> uint64 \<Rightarrow> 't interval_tree \<Rightarrow> 'w \<Rightarrow> ('t, 'w) tree_result" where
  "tree_Remove B W height t w =
     (case alloc_iv height height t of (newInterval, t) \<Rightarrow>
        let higher = first_item (bt_AscendGreaterOrEqual B (less_iv t) newInterval (knownHeights t)) in
        if \<not> iv_Contains (deref t higher) height then (t, w, None)
        else
          let t = t\<lparr>numKnownHeights := numKnownHeights t - 1\<rparr>;
              h = the higher; i = ivs t ! h
          in if LowerBound i = UpperBound i then
               (let t = t\<lparr>knownHeights := bt_Delete B (less_iv t) h (knownHeights t)\<rparr>
                in with_tree t (DeleteInterval W (UpperBound i) w))
             else if LowerBound i = height then
               (let t = set_lower h (LowerBound i + 1) t in with_tree t (PutInterval W (UpperBound i) (LowerBound (ivs t ! h)) w))
             else if UpperBound i = height then
               (case DeleteInterval W (UpperBound i) w of
                  (w, Some err) \<Rightarrow> (t, w, Some err)
                | (w, None) \<Rightarrow>
                    let t = set_upper h (UpperBound i - 1) t in with_tree t (PutInterval W (UpperBound (ivs t ! h)) (LowerBound (ivs t ! h)) w))
             else
               (let t = set_upper newInterval (height - 1) (set_lower newInterval (LowerBound i) t);
                    t = t\<lparr>knownHeights := bt_ReplaceOrInsert B (less_iv t) newInterval (knownHeights t)\<rparr>
                in case PutInterval W (UpperBound (ivs t ! newInterval)) (LowerBound (ivs t ! newInterval)) w of
                     (w, Some err) \<Rightarrow> (t, w, Some err)
                   | (w, None) \<Rightarrow>
                       let t = set_lower h (height + 1) t in with_tree t (PutInterval W (UpperBound (ivs t ! h)) (LowerBound (ivs t ! h)) w)))"

definition tree_Contains :: "(nat, 't) btree \<Rightarrow> uint64 \<Rightarrow> 't interval_tree \<Rightarrow> bool" where
  "tree_Contains B height t =
     (case alloc_iv height height t of (i, t) \<Rightarrow>
        iv_Contains (deref t (first_item (bt_AscendGreaterOrEqual B (less_iv t) i (knownHeights t)))) height)"

definition Flatten :: "(nat, 't) btree \<Rightarrow> 't interval_tree \<Rightarrow> Interval list" where
  "Flatten B t = map (\<lambda>r. ivs t ! r) (bt_Ascend B (knownHeights t))"

definition tree_Len :: "'t interval_tree \<Rightarrow> uint64" where
  "tree_Len t = numKnownHeights t"

text \<open>blocks.go\<close>

definition blocks_Add :: "(nat, 't) btree \<Rightarrow> 'w writer \<Rightarrow> uint64 \<Rightarrow> uint64 \<Rightarrow> bytes \<Rightarrow> 't interval_tree \<Rightarrow> 'w \<Rightarrow> 't interval_tree \<times> 'w \<times> bool res" where
  "blocks_Add B W lastAcceptedHeight height blkBytes t w =
     (if height \<le> lastAcceptedHeight \<or> tree_Contains B height t then (t, w, Inr False)
      else case PutBlock W height blkBytes w of
        (w, Some err) \<Rightarrow> (t, w, Inl err)
      | (w, None) \<Rightarrow>
          (case tree_Add B W height t w of
             (t, w, Some err) \<Rightarrow> (t, w, Inl err)
           | (t, w, None) \<Rightarrow>
               let nextHeight = height - 1 in (t, w, Inr (nextHeight \<noteq> lastAcceptedHeight \<and> \<not> tree_Contains B nextHeight t))))"

definition blocks_Remove :: "(nat, 't) btree \<Rightarrow> 'w writer \<Rightarrow> uint64 \<Rightarrow> 't interval_tree \<Rightarrow> 'w \<Rightarrow> ('t, 'w) tree_result" where
  "blocks_Remove B W height t w =
     (case DeleteBlock W height w of (w, Some err) \<Rightarrow> (t, w, Some err) | (w, None) \<Rightarrow> tree_Remove B W height t w)"

end
