(* ===== verification/IntervalProofs.thy ===== *)
theory IntervalProofs
  imports IntervalTree
begin

text \<open>The interval tree implements a set of heights, and the database below it holds the same intervals.\<close>

lemma word_succ:
  assumes "(a :: uint64) < b"
  shows "unat (a + 1) = unat a + 1" "a < MaxUint"
proof -
  have u: "unat a < unat b" "unat b < 2 ^ 64" using assms unsigned_less [of b, where ?'a = nat] by (simp_all add: word_less_nat_alt)
  then show "unat (a + 1) = unat a + 1" by (simp add: unat_word_ariths)
  have "Suc (unat (MaxUint :: uint64)) = 2 ^ 64" using unat_MaxUint [where 'a = 64] by simp
  then have "unat a < unat (MaxUint :: uint64)" using u by simp
  then show "a < MaxUint" by (simp add: word_less_nat_alt)
qed

section \<open>Lists of separated intervals\<close>

definition range_of :: "Interval \<Rightarrow> uint64 set" where
  "range_of i = {h. LowerBound i \<le> h \<and> h \<le> UpperBound i}"

definition heights :: "Interval list \<Rightarrow> uint64 set" where
  "heights L = (\<Union>i \<in> set L. range_of i)"

definition sep :: "Interval \<Rightarrow> Interval \<Rightarrow> bool" where
  "sep i j \<longleftrightarrow> unat (UpperBound i) + 1 < unat (LowerBound j)"

definition ivl_ok :: "Interval list \<Rightarrow> bool" where
  "ivl_ok L \<longleftrightarrow> sorted_wrt sep L \<and> (\<forall>i \<in> set L. LowerBound i \<le> UpperBound i)"

lemma heights_simps [simp]: "heights [] = {}" "heights (i # L) = range_of i \<union> heights L" "heights (L @ L') = heights L \<union> heights L'"
  by (auto simp: heights_def)

lemma ivl_ok_insert:
  "ivl_ok (L1 @ i # L2) \<longleftrightarrow> ivl_ok (L1 @ L2) \<and> LowerBound i \<le> UpperBound i \<and> (\<forall>a \<in> set L1. sep a i) \<and> (\<forall>b \<in> set L2. sep i b)"
  by (auto simp: ivl_ok_def sorted_wrt_append)

lemma sep_less: "sep i j \<Longrightarrow> LowerBound j \<le> UpperBound j \<Longrightarrow> UpperBound i < UpperBound j"
  by (simp add: sep_def word_less_nat_alt word_le_nat_alt)

lemma ivl_ok_sorted: "ivl_ok L \<Longrightarrow> sorted_wrt (\<lambda>i j. UpperBound i < UpperBound j) L"
  unfolding ivl_ok_def by (auto intro: sorted_wrt_mono_rel [of L sep] sep_less)

lemma ivl_ok_distinct:
  assumes "ivl_ok (L1 @ i # L2)"
  shows "UpperBound i \<notin> UpperBound ` set (L1 @ L2)"
  using ivl_ok_sorted [OF assms] by (auto simp: sorted_wrt_append)

text \<open>The intervals below a height that is not contained, and those above it.\<close>

lemma below_above:
  assumes ok: "ivl_ok (L1 @ L2)" and up: "\<forall>a \<in> set L1. UpperBound a < h" "\<forall>b \<in> set L2. h \<le> UpperBound b"
    and n: "\<not> iv_Contains (first_item L2) h"
  shows "\<forall>b \<in> set L2. h < LowerBound b"
    "\<not> AdjacentToLowerBound (first_item L2) h \<Longrightarrow> \<forall>b \<in> set L2. unat h + 1 < unat (LowerBound b)"
    "\<not> AdjacentToUpperBound (first_item (rev L1)) h \<Longrightarrow> \<forall>a \<in> set L1. unat (UpperBound a) + 1 < unat h"
proof -
  have first: "h < LowerBound u \<and> (\<forall>b \<in> set L2'. sep u b)" if "L2 = u # L2'" for u L2'
    using that ok up(2) n by (auto simp: ivl_ok_def sorted_wrt_append first_item_def iv_Contains_def)
  have later: "unat h + 1 < unat (LowerBound b)" if "L2 = u # L2'" "b \<in> set L2'" for u L2' b
  proof -
    have "sep u b" "h \<le> UpperBound u" using first [OF that(1)] that up(2) by auto
    then show ?thesis by (simp add: sep_def word_le_nat_alt)
  qed
  show "\<forall>b \<in> set L2. h < LowerBound b"
  proof (cases L2)
    case (Cons u L2')
    then show ?thesis using first later by (fastforce simp: word_less_nat_alt)
  qed simp
  show "\<forall>b \<in> set L2. unat h + 1 < unat (LowerBound b)" if a: "\<not> AdjacentToLowerBound (first_item L2) h"
  proof (cases L2)
    case (Cons u L2')
    have l: "h < LowerBound u" using first [OF Cons] by simp
    then have "unat h + 1 \<noteq> unat (LowerBound u)" using a Cons word_succ [OF l] by (auto simp: AdjacentToLowerBound_def first_item_def word_unat_eq_iff)
    then have "unat h + 1 < unat (LowerBound u)" using l by (simp add: word_less_nat_alt)
    then show ?thesis using later [OF Cons] Cons by simp
  qed simp
  show "\<forall>a \<in> set L1. unat (UpperBound a) + 1 < unat h" if a: "\<not> AdjacentToUpperBound (first_item (rev L1)) h"
  proof (cases L1 rule: rev_exhaust)
    case (snoc L1' l)
    have l: "UpperBound l < h" "LowerBound l \<le> UpperBound l" "\<forall>a \<in> set L1'. sep a l"
      using up(1) ok snoc by (auto simp: ivl_ok_def sorted_wrt_append)
    then have "unat (UpperBound l) + 1 \<noteq> unat h" using a snoc word_succ [OF l(1)] by (auto simp: AdjacentToUpperBound_def first_item_def word_unat_eq_iff)
    then have "unat (UpperBound l) + 1 < unat h" using l(1) by (simp add: word_less_nat_alt)
    then show ?thesis using l snoc by (auto simp: sep_def word_le_nat_alt)
  qed simp
qed

section \<open>Intervals in a key-value store\<close>

definition ivmap :: "Interval list \<Rightarrow> kv" where
  "ivmap L = map_of (map (\<lambda>i. (makeIntervalKey (UpperBound i), PackUInt64 (LowerBound i))) L)"

definition persisted :: "kv \<Rightarrow> Interval list \<Rightarrow> bool" where
  "persisted m L \<longleftrightarrow> (\<forall>k. prefix intervalPrefix k \<longrightarrow> m k = ivmap L k)"

lemma key_inject [simp]: "PackUInt64 a = PackUInt64 b \<longleftrightarrow> a = b" "makeIntervalKey a = makeIntervalKey b \<longleftrightarrow> a = b" "makeBlockKey a = makeBlockKey b \<longleftrightarrow> a = b"
proof -
  have "Uint 8 (PackUInt64 w) = w" for w using PutUint_Uint(2) [of 8 w "[]"] by (simp add: PackUInt64_def)
  then show p: "PackUInt64 a = PackUInt64 b \<longleftrightarrow> a = b" by metis
  show "makeIntervalKey a = makeIntervalKey b \<longleftrightarrow> a = b" "makeBlockKey a = makeBlockKey b \<longleftrightarrow> a = b" by (simp_all add: makeIntervalKey_def makeBlockKey_def p)
qed

lemma interval_key [simp]: "prefix intervalPrefix (makeIntervalKey u)" "\<not> prefix intervalPrefix (makeBlockKey h)" "prefix blockPrefix (makeBlockKey h)"
  "\<not> prefix blockPrefix (makeIntervalKey u)" "makeBlockKey h \<noteq> makeIntervalKey u"
  by (simp_all add: makeIntervalKey_def makeBlockKey_def intervalPrefix_def blockPrefix_def)

lemma ivmap_put: "UpperBound i \<notin> UpperBound ` set L1 \<Longrightarrow> ivmap (L1 @ i # L2) = (ivmap (L1 @ L2))(makeIntervalKey (UpperBound i) \<mapsto> PackUInt64 (LowerBound i))"
  by (induction L1) (auto simp: ivmap_def)

lemma ivmap_delete: "UpperBound i \<notin> UpperBound ` set (L1 @ L2) \<Longrightarrow> (ivmap (L1 @ i # L2))(makeIntervalKey (UpperBound i) := None) = ivmap (L1 @ L2)"
proof -
  assume u: "UpperBound i \<notin> UpperBound ` set (L1 @ L2)"
  have "ivmap (L1 @ L2) (makeIntervalKey (UpperBound i)) = None" using u by (auto simp: ivmap_def map_of_eq_None_iff)
  moreover have "UpperBound i \<notin> UpperBound ` set L1" using u by auto
  ultimately show ?thesis by (simp add: ivmap_put fun_upd_idem)
qed

text \<open>Something that accepts Put and Delete, with the content it stands for.\<close>

locale kv_writer =
  fixes W :: "'w writer" and wok :: "'w \<Rightarrow> bool" and wabs :: "'w \<Rightarrow> kv"
  assumes put: "wok w \<Longrightarrow> \<exists>w'. w_Put W k v w = (w', None) \<and> wok w' \<and> wabs w' = (wabs w)(k \<mapsto> v)"
    and delete: "wok w \<Longrightarrow> \<exists>w'. w_Delete W k w = (w', None) \<and> wok w' \<and> wabs w' = (wabs w)(k := None)"
begin

text \<open>\<open>w'\<close> comes from \<open>w\<close> by changing the intervals to \<open>L\<close>.\<close>

definition stores :: "'w \<Rightarrow> Interval list \<Rightarrow> 'w \<Rightarrow> bool" where
  "stores w L w' \<longleftrightarrow> wok w' \<and> persisted (wabs w') L \<and> (\<forall>k. \<not> prefix intervalPrefix k \<longrightarrow> wabs w' k = wabs w k)"

lemma stores_put:
  assumes "stores w (L1 @ L2) w1 \<or> stores w (L1 @ j # L2) w1 \<and> UpperBound j = UpperBound i" "UpperBound i \<notin> UpperBound ` set L1"
  shows "\<exists>w'. PutInterval W (UpperBound i) (LowerBound i) w1 = (w', None) \<and> stores w (L1 @ i # L2) w'"
proof -
  have "wok w1" using assms(1) by (auto simp: stores_def)
  from put [OF this, of "makeIntervalKey (UpperBound i)" "PackUInt64 (LowerBound i)"] obtain w' where
    w': "PutInterval W (UpperBound i) (LowerBound i) w1 = (w', None)" "wok w'"
      "wabs w' = (wabs w1)(makeIntervalKey (UpperBound i) \<mapsto> PackUInt64 (LowerBound i))" by (auto simp: PutInterval_def PutUInt64_def)
  have "ivmap (L1 @ i # L2) = (ivmap (L1 @ j # L2))(makeIntervalKey (UpperBound i) \<mapsto> PackUInt64 (LowerBound i))" if "UpperBound j = UpperBound i"
    using assms(2) that by (simp add: ivmap_put)
  then have "stores w (L1 @ i # L2) w'" using assms w'(2,3) by (auto simp: stores_def persisted_def ivmap_put)
  with w'(1) show ?thesis by blast
qed

lemma stores_delete:
  assumes "stores w (L1 @ i # L2) w1" "UpperBound i \<notin> UpperBound ` set (L1 @ L2)"
  shows "\<exists>w'. DeleteInterval W (UpperBound i) w1 = (w', None) \<and> stores w (L1 @ L2) w'"
proof -
  have "wok w1" using assms(1) by (auto simp: stores_def)
  from delete [OF this, of "makeIntervalKey (UpperBound i)"] obtain w' where
    w': "DeleteInterval W (UpperBound i) w1 = (w', None)" "wok w'" "wabs w' = (wabs w1)(makeIntervalKey (UpperBound i) := None)"
    by (auto simp: DeleteInterval_def)
  have "ivmap (L1 @ L2) = (ivmap (L1 @ i # L2))(makeIntervalKey (UpperBound i) := None)" using ivmap_delete [OF assms(2)] by simp
  then have "stores w (L1 @ L2) w'" using assms(1) w'(2,3) by (simp add: stores_def persisted_def)
  with w'(1) show ?thesis by blast
qed

end

section \<open>The tree\<close>

definition tree_wf :: "(nat, 't) btree \<Rightarrow> 't interval_tree \<Rightarrow> bool" where
  "tree_wf B t \<longleftrightarrow> (\<forall>r \<in> set (bt_Ascend B (knownHeights t)). r < length (ivs t)) \<and> ivl_ok (Flatten B t) \<and>
     numKnownHeights t = of_nat (card (heights (Flatten B t)))"

lemma btree_okD:
  assumes "btree_ok B" "sorted_wrt (\<lambda>a b. UpperBound (ivs t ! a) < UpperBound (ivs t ! b)) (bt_Ascend B k)"
  shows "bt_Ascend B (bt_ReplaceOrInsert B (less_iv t) x k) =
      filter (\<lambda>y. UpperBound (ivs t ! y) < UpperBound (ivs t ! x)) (bt_Ascend B k) @ x # filter (\<lambda>y. UpperBound (ivs t ! x) < UpperBound (ivs t ! y)) (bt_Ascend B k)"
    "bt_Ascend B (bt_Delete B (less_iv t) x k) = filter (\<lambda>y. UpperBound (ivs t ! y) \<noteq> UpperBound (ivs t ! x)) (bt_Ascend B k)"
    "bt_AscendGreaterOrEqual B (less_iv t) x k = filter (\<lambda>y. UpperBound (ivs t ! x) \<le> UpperBound (ivs t ! y)) (bt_Ascend B k)"
    "bt_DescendLessOrEqual B (less_iv t) x k = rev (filter (\<lambda>y. UpperBound (ivs t ! y) \<le> UpperBound (ivs t ! x)) (bt_Ascend B k))"
  using conjunct2 [OF assms(1) [unfolded btree_ok_def], THEN spec [where x = "\<lambda>r. UpperBound (ivs t ! r)"], THEN spec [where x = x], THEN spec [where x = k]] assms(2)
  by (simp_all add: less_iv_def iv_Less_def)

lemma filter_split: "sorted_wrt (\<lambda>a b. key a < key b) R \<Longrightarrow> filter (\<lambda>r. key r < (h :: 'k :: linorder)) R @ filter (\<lambda>r. h \<le> key r) R = R"
proof (induction R)
  case (Cons a R)
  have "filter (\<lambda>r. key r < h) R = []" if "h \<le> key a" using Cons.prems that by (fastforce simp: filter_empty_conv)
  then show ?case using Cons by (cases "key a < h") (simp_all add: not_less leD)
qed simp

lemma first_item_map: "first_item (map f xs) = map_option f (first_item xs)"
  by (cases xs) (simp_all add: first_item_def)

text \<open>The pointers in a tree and the intervals behind them.\<close>

definition pts :: "(nat, 't) btree \<Rightarrow> 't interval_tree \<Rightarrow> nat list \<Rightarrow> Interval list \<Rightarrow> bool" where
  "pts B t R L \<longleftrightarrow> bt_Ascend B (knownHeights t) = R \<and> distinct R \<and> (\<forall>r \<in> set R. r < length (ivs t)) \<and> map (\<lambda>r. ivs t ! r) R = L"

lemma pts_Flatten: "pts B t R L \<Longrightarrow> Flatten B t = L"
  by (simp add: pts_def Flatten_def)

lemma map_nth_update: "r \<notin> set R \<Longrightarrow> map (\<lambda>x. xs[r := v] ! x) R = map (\<lambda>x. xs ! x) R"
  by (metis map_cong nth_list_update_neq)

lemma pts_set_lower:
  assumes "pts B t (R1 @ r # R2) (L1 @ i # L2)" "length R1 = length L1"
  shows "pts B (set_lower r l t) (R1 @ r # R2) (L1 @ i\<lparr>LowerBound := l\<rparr> # L2)"
  using assms by (auto simp: pts_def set_lower_def map_nth_update)

lemma pts_set_upper:
  assumes "pts B t (R1 @ r # R2) (L1 @ i # L2)" "length R1 = length L1"
  shows "pts B (set_upper r u t) (R1 @ r # R2) (L1 @ i\<lparr>UpperBound := u\<rparr> # L2)"
  using assms by (auto simp: pts_def set_upper_def map_nth_update)

lemma pts_num [simp]: "pts B (numKnownHeights_update f t) R L = pts B t R L"
  by (simp add: pts_def)

lemma pts_sorted: "pts B t R L \<Longrightarrow> ivl_ok L \<Longrightarrow> sorted_wrt (\<lambda>a b. UpperBound (ivs t ! a) < UpperBound (ivs t ! b)) (bt_Ascend B (knownHeights t))"
  by (auto simp: pts_def sorted_wrt_map dest!: ivl_ok_sorted)

lemma pts_delete:
  assumes "btree_ok B" "pts B t (R1 @ r # R2) (L1 @ i # L2)" "length R1 = length L1"
    and s: "sorted_wrt (\<lambda>i j. UpperBound i < UpperBound j) (L1 @ i # L2)"
  shows "pts B (t\<lparr>knownHeights := bt_Delete B (less_iv t) r (knownHeights t)\<rparr>) (R1 @ R2) (L1 @ L2)"
proof -
  have p: "bt_Ascend B (knownHeights t) = R1 @ r # R2" "distinct (R1 @ r # R2)" "\<forall>r \<in> set (R1 @ r # R2). r < length (ivs t)"
    "map (\<lambda>r. ivs t ! r) R1 = L1" "ivs t ! r = i" "map (\<lambda>r. ivs t ! r) R2 = L2" using assms(2,3) by (auto simp: pts_def)
  have k: "sorted_wrt (\<lambda>a b. UpperBound (ivs t ! a) < UpperBound (ivs t ! b)) (R1 @ r # R2)" using s p(4-6)
    by (auto simp: sorted_wrt_append sorted_wrt_map)
  have "filter (\<lambda>y. UpperBound (ivs t ! y) \<noteq> UpperBound (ivs t ! r)) R1 = R1" "filter (\<lambda>y. UpperBound (ivs t ! y) \<noteq> UpperBound (ivs t ! r)) R2 = R2"
    using k by (fastforce simp: sorted_wrt_append filter_id_conv)+
  then show ?thesis using btree_okD(2) [OF assms(1), of t "knownHeights t"] k p by (auto simp: pts_def)
qed

lemma pts_insert:
  assumes "btree_ok B" "pts B t (R1 @ R2) (L1 @ L2)" "length R1 = length L1" "r < length (ivs t)" "r \<notin> set (R1 @ R2)" "ivs t ! r = i"
    and s: "sorted_wrt (\<lambda>i j. UpperBound i < UpperBound j) (L1 @ i # L2)"
  shows "pts B (t\<lparr>knownHeights := bt_ReplaceOrInsert B (less_iv t) r (knownHeights t)\<rparr>) (R1 @ r # R2) (L1 @ i # L2)"
proof -
  have p: "bt_Ascend B (knownHeights t) = R1 @ R2" "distinct (R1 @ R2)" "\<forall>r \<in> set (R1 @ R2). r < length (ivs t)"
    "map (\<lambda>r. ivs t ! r) R1 = L1" "map (\<lambda>r. ivs t ! r) R2 = L2" using assms(2,3) by (auto simp: pts_def)
  have k: "sorted_wrt (\<lambda>a b. UpperBound (ivs t ! a) < UpperBound (ivs t ! b)) (R1 @ r # R2)" using s p(4,5) assms(6)
    by (auto simp: sorted_wrt_append sorted_wrt_map)
  have f: "filter (\<lambda>y. UpperBound (ivs t ! y) < UpperBound (ivs t ! r)) R1 = R1" "filter (\<lambda>y. UpperBound (ivs t ! y) < UpperBound (ivs t ! r)) R2 = []"
    "filter (\<lambda>y. UpperBound (ivs t ! r) < UpperBound (ivs t ! y)) R1 = []" "filter (\<lambda>y. UpperBound (ivs t ! r) < UpperBound (ivs t ! y)) R2 = R2"
    using k by (fastforce simp: sorted_wrt_append filter_id_conv filter_empty_conv)+
  have "sorted_wrt (\<lambda>a b. UpperBound (ivs t ! a) < UpperBound (ivs t ! b)) (R1 @ R2)" using k by (simp add: sorted_wrt_append)
  then show ?thesis using btree_okD(1) [OF assms(1), of t "knownHeights t" r] p assms(4-6) f by (auto simp: pts_def)
qed

lemma contains_heights:
  assumes ok: "ivl_ok (L1 @ L2)" and up: "\<forall>a \<in> set L1. UpperBound a < h" "\<forall>b \<in> set L2. h \<le> UpperBound b"
  shows "iv_Contains (first_item L2) h \<longleftrightarrow> h \<in> heights (L1 @ L2)"
proof
  assume "iv_Contains (first_item L2) h"
  then show "h \<in> heights (L1 @ L2)" by (cases L2) (auto simp: iv_Contains_def first_item_def range_of_def)
next
  assume h: "h \<in> heights (L1 @ L2)"
  show "iv_Contains (first_item L2) h"
  proof (rule ccontr)
    assume "\<not> iv_Contains (first_item L2) h"
    from below_above(1) [OF ok up this] h up show False by (auto simp: heights_def range_of_def)
  qed
qed

text \<open>What a search for \<open>h\<close> finds, after the interval to search for has been allocated.\<close>

definition located :: "(nat, 't) btree \<Rightarrow> 't interval_tree \<Rightarrow> uint64 \<Rightarrow> 't interval_tree \<Rightarrow> nat list \<Rightarrow> nat list \<Rightarrow> Interval list \<Rightarrow> Interval list \<Rightarrow> bool" where
  "located B t h t' R1 R2 L1 L2 \<longleftrightarrow>
     alloc_iv h h t = (length (ivs t), t') \<and> pts B t' (R1 @ R2) (L1 @ L2) \<and> Flatten B t = L1 @ L2 \<and> length R1 = length L1 \<and>
     length (ivs t) \<notin> set (R1 @ R2) \<and> length (ivs t') = Suc (length (ivs t)) \<and>
     ivs t' ! length (ivs t) = \<lparr>LowerBound = h, UpperBound = h\<rparr> \<and> knownHeights t' = knownHeights t \<and> numKnownHeights t' = numKnownHeights t \<and>
     bt_AscendGreaterOrEqual B (less_iv t') (length (ivs t)) (knownHeights t) = R2 \<and> ivl_ok (L1 @ L2) \<and>
     (\<forall>a \<in> set L1. UpperBound a < h) \<and> (\<forall>b \<in> set L2. h \<le> UpperBound b) \<and>
     (h \<notin> heights (L1 @ L2) \<longrightarrow> bt_DescendLessOrEqual B (less_iv t') (length (ivs t)) (knownHeights t) = rev R1)"

lemma search:
  assumes B: "btree_ok B" and wf: "tree_wf B t"
  shows "\<exists>t' R1 R2 L1 L2. located B t h t' R1 R2 L1 L2"
proof -
  define t' where "t' = t\<lparr>ivs := ivs t @ [\<lparr>LowerBound = h, UpperBound = h\<rparr>]\<rparr>"
  define R where "R = bt_Ascend B (knownHeights t)"
  define key where "key r = UpperBound (ivs t' ! r)" for r
  define R1 where "R1 = filter (\<lambda>r. key r < h) R"
  define R2 where "R2 = filter (\<lambda>r. h \<le> key r) R"
  define L1 where "L1 = map (\<lambda>r. ivs t' ! r) R1"
  define L2 where "L2 = map (\<lambda>r. ivs t' ! r) R2"
  have r: "\<forall>r \<in> set R. r < length (ivs t)" and ok: "ivl_ok (Flatten B t)" using wf by (auto simp: tree_wf_def R_def)
  have n: "ivs t' ! length (ivs t) = \<lparr>LowerBound = h, UpperBound = h\<rparr>" by (simp add: t'_def)
  have F: "Flatten B t = map (\<lambda>r. ivs t' ! r) R" using r by (auto simp: Flatten_def t'_def R_def nth_append)
  have s: "sorted_wrt (\<lambda>a b. key a < key b) R" using ivl_ok_sorted [OF ok] by (simp add: F sorted_wrt_map key_def)
  then have d: "distinct R" by (induction R) auto
  have R12: "R1 @ R2 = R" using filter_split [OF s] by (simp add: R1_def R2_def)
  then have L12: "Flatten B t = L1 @ L2" by (simp add: F L1_def L2_def flip: map_append)
  have up: "\<forall>a \<in> set L1. UpperBound a < h" "\<forall>b \<in> set L2. h \<le> UpperBound b" by (auto simp: L1_def L2_def R1_def R2_def key_def)
  have desc: "bt_DescendLessOrEqual B (less_iv t') (length (ivs t)) (knownHeights t) = rev R1" if "h \<notin> heights (L1 @ L2)"
  proof -
    have "h \<noteq> key r" if r: "r \<in> set R" for r
    proof
      assume e: "h = key r"
      have i: "ivs t' ! r \<in> set (L1 @ L2)" using r R12 by (auto simp: L1_def L2_def)
      then have "LowerBound (ivs t' ! r) \<le> UpperBound (ivs t' ! r)" using ok L12 by (auto simp: ivl_ok_def)
      then have "h \<in> range_of (ivs t' ! r)" using e by (simp add: range_of_def key_def)
      then show False using i \<open>h \<notin> heights (L1 @ L2)\<close> by (auto simp: heights_def)
    qed
    then have "filter (\<lambda>r. key r \<le> h) R = R1" unfolding R1_def by (intro filter_cong) (auto simp: le_less)
    then show ?thesis using btree_okD(4) [OF B, of t' "knownHeights t" "length (ivs t)"] s n by (simp add: R_def key_def)
  qed
  have "map (\<lambda>r. ivs t' ! r) R = L1 @ L2" by (simp add: L1_def L2_def flip: R12)
  then have p: "pts B t' (R1 @ R2) (L1 @ L2)" using r d unfolding R12 by (auto simp: pts_def R_def t'_def)
  have "bt_AscendGreaterOrEqual B (less_iv t') (length (ivs t)) (knownHeights t) = R2"
    using btree_okD(3) [OF B, of t' "knownHeights t" "length (ivs t)"] s n by (simp add: R_def key_def R2_def)
  moreover have "length (ivs t) \<notin> set (R1 @ R2)" using r R12 by auto
  moreover have "alloc_iv h h t = (length (ivs t), t')" "length (ivs t') = Suc (length (ivs t))" "knownHeights t' = knownHeights t"
    "numKnownHeights t' = numKnownHeights t" "length R1 = length L1" by (simp_all add: alloc_iv_def t'_def L1_def)
  ultimately have "located B t h t' R1 R2 L1 L2" using p L12 n up desc ok unfolding located_def by simp
  then show ?thesis by blast
qed

section \<open>Adding and removing a height\<close>

lemma in_range_of: "x \<in> range_of i \<longleftrightarrow> unat (LowerBound i) \<le> unat x \<and> unat x \<le> unat (UpperBound i)"
  by (simp add: range_of_def word_le_nat_alt)

lemma adjacent_nat:
  "AdjacentToLowerBound (Some i) h \<longleftrightarrow> unat (LowerBound i) = unat h + 1"
  "AdjacentToUpperBound (Some i) h \<longleftrightarrow> unat h = unat (UpperBound i) + 1"
proof -
  have e: "a < MaxUint \<and> a + 1 = b \<longleftrightarrow> unat b = unat a + 1" for a b :: uint64
  proof
    assume "a < MaxUint \<and> a + 1 = b"
    then show "unat b = unat a + 1" using word_succ(1) by blast
  next
    assume u: "unat b = unat a + 1"
    then have "a < b" by (simp add: word_less_nat_alt)
    then show "a < MaxUint \<and> a + 1 = b" using word_succ [of a b] u by (simp add: word_unat_eq_iff)
  qed
  show "AdjacentToLowerBound (Some i) h \<longleftrightarrow> unat (LowerBound i) = unat h + 1"
    "AdjacentToUpperBound (Some i) h \<longleftrightarrow> unat h = unat (UpperBound i) + 1" by (simp_all add: AdjacentToLowerBound_def AdjacentToUpperBound_def e)
qed

lemma range_grow:
  "unat (LowerBound i) = unat h + 1 \<Longrightarrow> LowerBound i \<le> UpperBound i \<Longrightarrow> range_of (i\<lparr>LowerBound := h\<rparr>) = insert h (range_of i)"
  "unat h = unat (UpperBound i) + 1 \<Longrightarrow> LowerBound i \<le> UpperBound i \<Longrightarrow> range_of (i\<lparr>UpperBound := h\<rparr>) = insert h (range_of i)"
  "unat (LowerBound j) = unat h + 1 \<Longrightarrow> LowerBound j \<le> UpperBound j \<Longrightarrow> unat h = unat (UpperBound i) + 1 \<Longrightarrow> LowerBound i \<le> UpperBound i \<Longrightarrow>
     range_of (j\<lparr>LowerBound := LowerBound i\<rparr>) = insert h (range_of i \<union> range_of j)"
  "range_of \<lparr>LowerBound = h, UpperBound = h\<rparr> = {h}"
  by (auto simp: in_range_of word_le_nat_alt word_unat_eq_iff)

lemma ivl_ok_disjoint: "ivl_ok (L1 @ i # L2) \<Longrightarrow> h \<in> range_of i \<Longrightarrow> h \<notin> heights (L1 @ L2)"
  by (force simp: ivl_ok_insert sep_def heights_def in_range_of)

lemma word_pred:
  assumes "(a :: uint64) < b"
  shows "unat (b - 1) = unat b - 1"
proof -
  have "b \<noteq> 0" using assms by auto
  then show ?thesis by (rule unat_minus_one)
qed

lemma range_shrink:
  "LowerBound i < UpperBound i \<Longrightarrow> range_of (i\<lparr>LowerBound := LowerBound i + 1\<rparr>) = range_of i - {LowerBound i}"
  "LowerBound i < UpperBound i \<Longrightarrow> range_of (i\<lparr>UpperBound := UpperBound i - 1\<rparr>) = range_of i - {UpperBound i}"
  "LowerBound i < h \<Longrightarrow> h < UpperBound i \<Longrightarrow>
     range_of \<lparr>LowerBound = LowerBound i, UpperBound = h - 1\<rparr> \<union> range_of (i\<lparr>LowerBound := h + 1\<rparr>) = range_of i - {h}"
  using word_pred [of "LowerBound i" h] word_pred [of "LowerBound i" "UpperBound i"] word_succ(1) [of "LowerBound i" "UpperBound i"] word_succ(1) [of h "UpperBound i"]
  by (auto simp: in_range_of word_less_nat_alt word_unat_eq_iff)

lemma tree_wfI:
  assumes "pts B t' R' L'" "ivl_ok L'" "heights L' = insert h H" "h \<notin> H" "numKnownHeights t' = of_nat (card H) + 1"
  shows "tree_wf B t' \<and> heights (Flatten B t') = insert h H"
  using assms by (auto simp: tree_wf_def pts_Flatten [OF assms(1)] pts_def card_insert_if)

lemma tree_wfI_remove:
  assumes "pts B t' R' L'" "ivl_ok L'" "heights L' = H - {h}" "h \<in> H" "numKnownHeights t' = of_nat (card H) - 1"
  shows "tree_wf B t' \<and> heights (Flatten B t') = H - {h}"
proof -
  have "card H = Suc (card (H - {h}))" using assms(4) by (metis card.remove finite)
  then show ?thesis using assms by (auto simp: tree_wf_def pts_Flatten [OF assms(1)] pts_def)
qed

text \<open>The four ways in which a height leaves the interval \<open>i\<close>, behind the pointer \<open>r\<close>, that contains it.\<close>

definition remove_from :: "(nat, 't) btree \<Rightarrow> 'w writer \<Rightarrow> nat \<Rightarrow> nat \<Rightarrow> Interval \<Rightarrow> uint64 \<Rightarrow> 't interval_tree \<Rightarrow> 'w \<Rightarrow> ('t, 'w) tree_result" where
  "remove_from B W n r i h t w =
     (if LowerBound i = UpperBound i then with_tree (t\<lparr>knownHeights := bt_Delete B (less_iv t) r (knownHeights t)\<rparr>) (DeleteInterval W (UpperBound i) w)
      else if LowerBound i = h then with_tree (set_lower r (LowerBound i + 1) t) (PutInterval W (UpperBound i) (LowerBound i + 1) w)
      else if UpperBound i = h then
        (case DeleteInterval W (UpperBound i) w of (w, Some err) \<Rightarrow> (t, w, Some err)
         | (w, None) \<Rightarrow> with_tree (set_upper r (UpperBound i - 1) t) (PutInterval W (UpperBound i - 1) (LowerBound i) w))
      else (let t3 = set_upper n (h - 1) (set_lower n (LowerBound i) t);
                t4 = t3\<lparr>knownHeights := bt_ReplaceOrInsert B (less_iv t3) n (knownHeights t3)\<rparr>
            in case PutInterval W (h - 1) (LowerBound i) w of (w, Some err) \<Rightarrow> (t4, w, Some err)
               | (w, None) \<Rightarrow> with_tree (set_lower r (h + 1) t4) (PutInterval W (UpperBound i) (h + 1) w)))"

context kv_writer
begin

lemma stores_refl: "wok w \<Longrightarrow> persisted (wabs w) L \<Longrightarrow> stores w L w"
  by (simp add: stores_def)

lemma tree_Add_merge:
  assumes B: "btree_ok B" and loc: "located B t h t1 (R1 @ [l]) (u # R2) (L1 @ [il]) (iu # L2)" and num: "numKnownHeights t = of_nat (card (heights (Flatten B t)))"
    and out: "h \<notin> heights (Flatten B t)" and st: "stores w (Flatten B t) w"
    and adj: "AdjacentToLowerBound (Some iu) h" "AdjacentToUpperBound (Some il) h"
  shows "\<exists>t' w'. tree_Add B W h t w = (t', w', None) \<and> (tree_wf B t' \<and> heights (Flatten B t') = insert h (heights (Flatten B t))) \<and> stores w (Flatten B t') w'"
proof -
  let ?t2 = "t1\<lparr>numKnownHeights := numKnownHeights t1 + 1\<rparr>"
  let ?iu = "iu\<lparr>LowerBound := LowerBound il\<rparr>"
  let ?t3 = "set_lower u (LowerBound il) ?t2"
  let ?t4 = "?t3\<lparr>knownHeights := bt_Delete B (less_iv ?t3) l (knownHeights ?t3)\<rparr>"
  note loc' = loc [unfolded located_def]
  have F: "Flatten B t = (L1 @ [il]) @ iu # L2" and ok: "ivl_ok ((L1 @ [il]) @ iu # L2)" and p: "pts B t1 ((R1 @ [l]) @ u # R2) ((L1 @ [il]) @ iu # L2)"
    and len: "length R1 = length L1" using loc' by simp_all
  have p2: "pts B ?t2 ((R1 @ [l]) @ u # R2) ((L1 @ [il]) @ iu # L2)" using p by simp
  have p3: "pts B ?t3 ((R1 @ [l]) @ u # R2) ((L1 @ [il]) @ ?iu # L2)" using pts_set_lower [OF p2] len by simp
  have s: "sorted_wrt (\<lambda>i j. UpperBound i < UpperBound j) (L1 @ il # ?iu # L2)" using ivl_ok_sorted [OF ok] by (simp add: sorted_wrt_append)
  have p4: "pts B ?t4 (R1 @ u # R2) (L1 @ ?iu # L2)" using pts_delete [OF B, of ?t3 R1 l "u # R2" L1 il "?iu # L2"] p3 len s by simp
  have ok4: "ivl_ok (L1 @ ?iu # L2)" using ok by (auto simp: ivl_ok_def sorted_wrt_append sep_def word_le_nat_alt)
  have le: "LowerBound il \<le> UpperBound il" "LowerBound iu \<le> UpperBound iu" using ok by (auto simp: ivl_ok_def)
  have h4: "heights (L1 @ ?iu # L2) = insert h (heights (Flatten B t))" using range_grow(3) [of iu h il] adj le by (auto simp: F adjacent_nat)
  have wf4: "tree_wf B ?t4 \<and> heights (Flatten B ?t4) = insert h (heights (Flatten B t))"
    by (rule tree_wfI [OF p4 ok4 h4 out]) (use loc' num in \<open>simp add: set_lower_def\<close>)
  obtain w1 where w1: "DeleteInterval W (UpperBound il) w = (w1, None)" "stores w (L1 @ iu # L2) w1"
    using stores_delete [of w L1 il "iu # L2" w] st F ivl_ok_distinct [of L1 il "iu # L2"] ok by auto
  obtain w2 where w2: "PutInterval W (UpperBound iu) (LowerBound il) w1 = (w2, None)" "stores w (L1 @ ?iu # L2) w2"
    using stores_put [of w L1 L2 w1 iu ?iu] w1(2) ivl_ok_distinct [OF ok4] by auto
  have i: "ivs t1 ! l = il" "ivs t1 ! u = iu" "l < length (ivs t1)" "u < length (ivs t1)" "l \<noteq> u" using p len by (auto simp: pts_def)
  have "tree_Add B W h t w = (?t4, w2, None)"
    using loc' w1(1) w2(1) out adj i len contains_heights [OF ok]
    by (simp add: tree_Add_def first_item_def deref_def F Let_def set_lower_def with_tree_def iv_Contains_def)
  then show ?thesis using wf4 w2(2) pts_Flatten [OF p4] by auto
qed

lemma tree_Add_lower:
  assumes B: "btree_ok B" and loc: "located B t h t1 R1 (u # R2) L1 (iu # L2)" and num: "numKnownHeights t = of_nat (card (heights (Flatten B t)))"
    and out: "h \<notin> heights (Flatten B t)" and st: "stores w (Flatten B t) w"
    and adj: "AdjacentToLowerBound (Some iu) h" "\<not> AdjacentToUpperBound (first_item (rev L1)) h"
  shows "\<exists>t' w'. tree_Add B W h t w = (t', w', None) \<and> (tree_wf B t' \<and> heights (Flatten B t') = insert h (heights (Flatten B t))) \<and> stores w (Flatten B t') w'"
proof -
  let ?t3 = "set_lower u h (t1\<lparr>numKnownHeights := numKnownHeights t1 + 1\<rparr>)"
  let ?iu = "iu\<lparr>LowerBound := h\<rparr>"
  note loc' = loc [unfolded located_def]
  have F: "Flatten B t = L1 @ iu # L2" and ok: "ivl_ok (L1 @ iu # L2)" and p: "pts B t1 (R1 @ u # R2) (L1 @ iu # L2)"
    and len: "length R1 = length L1" and up: "\<forall>a \<in> set L1. UpperBound a < h" "\<forall>b \<in> set (iu # L2). h \<le> UpperBound b" using loc' by simp_all
  have nc: "\<not> iv_Contains (first_item (iu # L2)) h" using contains_heights [OF ok up] out F by simp
  have p3: "pts B ?t3 (R1 @ u # R2) (L1 @ ?iu # L2)" using pts_set_lower [of B _ R1 u R2 L1 iu L2] p len by simp
  have le: "LowerBound iu \<le> UpperBound iu" using ok by (auto simp: ivl_ok_def)
  have ok3: "ivl_ok (L1 @ ?iu # L2)" using ok up(2) below_above(3) [OF ok up nc adj(2)] by (auto simp: ivl_ok_insert sep_def)
  have h3: "heights (L1 @ ?iu # L2) = insert h (heights (Flatten B t))" using range_grow(1) [of iu h] adj le by (auto simp: F adjacent_nat)
  have wf3: "tree_wf B ?t3 \<and> heights (Flatten B ?t3) = insert h (heights (Flatten B t))"
    by (rule tree_wfI [OF p3 ok3 h3 out]) (use loc' num in \<open>simp add: set_lower_def\<close>)
  obtain w2 where w2: "PutInterval W (UpperBound iu) h w = (w2, None)" "stores w (L1 @ ?iu # L2) w2"
    using stores_put [of w L1 L2 w iu ?iu] st F ivl_ok_distinct [OF ok3] by auto
  have i: "ivs t1 ! u = iu" "u < length (ivs t1)" "deref t1 (first_item (rev R1)) = first_item (rev L1)"
    using p len by (auto simp: pts_def deref_def first_item_map rev_map)
  have "tree_Add B W h t w = (?t3, w2, None)"
    using loc' w2(1) out adj i nc by (simp add: tree_Add_def F Let_def set_lower_def with_tree_def) (simp add: deref_def first_item_def)
  then show ?thesis using wf3 w2(2) pts_Flatten [OF p3] by auto
qed

lemma tree_Add_upper:
  assumes B: "btree_ok B" and loc: "located B t h t1 (R1 @ [l]) R2 (L1 @ [il]) L2" and num: "numKnownHeights t = of_nat (card (heights (Flatten B t)))"
    and out: "h \<notin> heights (Flatten B t)" and st: "stores w (Flatten B t) w"
    and adj: "\<not> AdjacentToLowerBound (first_item L2) h" "AdjacentToUpperBound (Some il) h"
  shows "\<exists>t' w'. tree_Add B W h t w = (t', w', None) \<and> (tree_wf B t' \<and> heights (Flatten B t') = insert h (heights (Flatten B t))) \<and> stores w (Flatten B t') w'"
proof -
  let ?t3 = "set_upper l h (t1\<lparr>numKnownHeights := numKnownHeights t1 + 1\<rparr>)"
  let ?il = "il\<lparr>UpperBound := h\<rparr>"
  note loc' = loc [unfolded located_def]
  have F: "Flatten B t = L1 @ il # L2" and ok: "ivl_ok ((L1 @ [il]) @ L2)" and p: "pts B t1 (R1 @ l # R2) (L1 @ il # L2)"
    and len: "length R1 = length L1" and up: "\<forall>a \<in> set (L1 @ [il]). UpperBound a < h" "\<forall>b \<in> set L2. h \<le> UpperBound b" using loc' by simp_all
  have nc: "\<not> iv_Contains (first_item L2) h" using contains_heights [OF ok up] out F by simp
  have p3: "pts B ?t3 (R1 @ l # R2) (L1 @ ?il # L2)" using pts_set_upper [of B _ R1 l R2 L1 il L2] p len by simp
  have le: "LowerBound il \<le> UpperBound il" "UpperBound il < h" using ok up by (auto simp: ivl_ok_def)
  have ok3: "ivl_ok (L1 @ ?il # L2)" using ok le below_above(2) [OF ok up nc adj(1)] by (auto simp: ivl_ok_insert sep_def)
  have h3: "heights (L1 @ ?il # L2) = insert h (heights (Flatten B t))" using range_grow(2) [of h il] adj le by (auto simp: F adjacent_nat)
  have wf3: "tree_wf B ?t3 \<and> heights (Flatten B ?t3) = insert h (heights (Flatten B t))"
    by (rule tree_wfI [OF p3 ok3 h3 out]) (use loc' num in \<open>simp add: set_upper_def\<close>)
  obtain w1 where w1: "DeleteInterval W (UpperBound il) w = (w1, None)" "stores w (L1 @ L2) w1"
    using stores_delete [of w L1 il L2 w] st F ivl_ok_distinct [of L1 il L2] ok by auto
  obtain w2 where w2: "PutInterval W h (LowerBound il) w1 = (w2, None)" "stores w (L1 @ ?il # L2) w2"
    using stores_put [of w L1 L2 w1 il ?il] w1(2) ivl_ok_distinct [OF ok3] by auto
  have i: "ivs t1 ! l = il" "l < length (ivs t1)" "deref t1 (first_item R2) = first_item L2"
    using p len by (auto simp: pts_def deref_def first_item_map)
  have "tree_Add B W h t w = (?t3, w2, None)"
    using loc' w1(1) w2(1) out adj i nc by (simp add: tree_Add_def F Let_def set_upper_def with_tree_def) (simp add: deref_def first_item_def)
  then show ?thesis using wf3 w2(2) pts_Flatten [OF p3] by auto
qed

lemma tree_Add_single:
  assumes B: "btree_ok B" and loc: "located B t h t1 R1 R2 L1 L2" and num: "numKnownHeights t = of_nat (card (heights (Flatten B t)))"
    and out: "h \<notin> heights (Flatten B t)" and st: "stores w (Flatten B t) w"
    and adj: "\<not> AdjacentToLowerBound (first_item L2) h" "\<not> AdjacentToUpperBound (first_item (rev L1)) h"
  shows "\<exists>t' w'. tree_Add B W h t w = (t', w', None) \<and> (tree_wf B t' \<and> heights (Flatten B t') = insert h (heights (Flatten B t))) \<and> stores w (Flatten B t') w'"
proof -
  let ?i = "\<lparr>LowerBound = h, UpperBound = h\<rparr>"
  let ?t2 = "t1\<lparr>numKnownHeights := numKnownHeights t1 + 1\<rparr>"
  let ?t3 = "?t2\<lparr>knownHeights := bt_ReplaceOrInsert B (less_iv ?t2) (length (ivs t)) (knownHeights ?t2)\<rparr>"
  note loc' = loc [unfolded located_def]
  have F: "Flatten B t = L1 @ L2" and ok: "ivl_ok (L1 @ L2)" and p: "pts B t1 (R1 @ R2) (L1 @ L2)"
    and len: "length R1 = length L1" and up: "\<forall>a \<in> set L1. UpperBound a < h" "\<forall>b \<in> set L2. h \<le> UpperBound b" using loc' by simp_all
  have nc: "\<not> iv_Contains (first_item L2) h" using contains_heights [OF ok up] out F by simp
  have ok3: "ivl_ok (L1 @ ?i # L2)" using ok below_above(2,3) [OF ok up nc] adj by (auto simp: ivl_ok_insert sep_def)
  have p3: "pts B ?t3 (R1 @ length (ivs t) # R2) (L1 @ ?i # L2)"
    by (rule pts_insert [OF B]) (use p len loc' ivl_ok_sorted [OF ok3] in simp_all)
  have h3: "heights (L1 @ ?i # L2) = insert h (heights (Flatten B t))" by (auto simp: F range_grow)
  have wf3: "tree_wf B ?t3 \<and> heights (Flatten B ?t3) = insert h (heights (Flatten B t))"
    by (rule tree_wfI [OF p3 ok3 h3 out]) (use loc' num in simp)
  obtain w2 where w2: "PutInterval W h h w = (w2, None)" "stores w (L1 @ ?i # L2) w2"
    using stores_put [of w L1 L2 w ?i ?i] st F ivl_ok_distinct [OF ok3] by auto
  have i: "deref t1 (first_item R2) = first_item L2" "deref t1 (first_item (rev R1)) = first_item (rev L1)"
    using p len by (auto simp: pts_def deref_def first_item_map rev_map)
  have "tree_Add B W h t w = (?t3, w2, None)"
    using loc' w2(1) out adj i nc by (simp add: tree_Add_def F Let_def with_tree_def) (simp add: deref_def first_item_def)
  then show ?thesis using wf3 w2(2) pts_Flatten [OF p3] by auto
qed

lemma tree_Add_spec:
  assumes B: "btree_ok B" and wf: "tree_wf B t" and w: "wok w" "persisted (wabs w) (Flatten B t)"
  shows "\<exists>t' w'. tree_Add B W h t w = (t', w', None) \<and> (tree_wf B t' \<and> heights (Flatten B t') = insert h (heights (Flatten B t))) \<and> stores w (Flatten B t') w'"
proof -
  obtain t1 R1 R2 L1 L2 where loc: "located B t h t1 R1 R2 L1 L2" using search [OF B wf] by blast
  note loc' = loc [unfolded located_def]
  have st: "stores w (Flatten B t) w" and num: "numKnownHeights t = of_nat (card (heights (Flatten B t)))" using stores_refl w wf by (simp_all add: tree_wf_def)
  have len: "length R1 = length L1" "length R2 = length L2" using loc' by (auto simp: pts_def dest: arg_cong [where f = length])
  show ?thesis
  proof (cases "h \<in> heights (Flatten B t)")
    case True
    have p: "pts B t1 (R1 @ R2) (L1 @ L2)" using loc' by simp
    have "deref t1 (first_item R2) = first_item L2" using p len by (auto simp: pts_def deref_def first_item_map)
    then have "tree_Add B W h t w = (t1, w, None)" using loc' True contains_heights [of L1 L2 h] by (simp add: tree_Add_def)
    then show ?thesis using True wf st loc' pts_Flatten [OF p] by (auto simp: tree_wf_def pts_def insert_absorb)
  next
    case False
    note hyps = num False st
    have L: "\<exists>u R2' iu L2'. R2 = u # R2' \<and> L2 = iu # L2'" if "AdjacentToLowerBound (first_item L2) h"
      using that len by (cases L2; cases R2) (auto simp: AdjacentToLowerBound_def first_item_def)
    have U: "\<exists>l R1' il L1'. R1 = R1' @ [l] \<and> L1 = L1' @ [il]" if "AdjacentToUpperBound (first_item (rev L1)) h"
      using that len by (cases L1 rule: rev_exhaust; cases R1 rule: rev_exhaust) (auto simp: AdjacentToUpperBound_def first_item_def)
    consider "AdjacentToLowerBound (first_item L2) h" "AdjacentToUpperBound (first_item (rev L1)) h"
      | "AdjacentToLowerBound (first_item L2) h" "\<not> AdjacentToUpperBound (first_item (rev L1)) h"
      | "\<not> AdjacentToLowerBound (first_item L2) h" "AdjacentToUpperBound (first_item (rev L1)) h"
      | "\<not> AdjacentToLowerBound (first_item L2) h" "\<not> AdjacentToUpperBound (first_item (rev L1)) h" by blast
    then show ?thesis
    proof cases
      case 1
      with L U obtain u R2' iu L2' l R1' il L1' where e: "R2 = u # R2'" "L2 = iu # L2'" "R1 = R1' @ [l]" "L1 = L1' @ [il]" by blast
      with 1 show ?thesis using tree_Add_merge [OF B loc [unfolded e] hyps] by (simp add: first_item_def)
    next
      case 2
      with L obtain u R2' iu L2' where e: "R2 = u # R2'" "L2 = iu # L2'" by blast
      with 2 show ?thesis using tree_Add_lower [OF B loc [unfolded e] hyps] by (simp add: first_item_def)
    next
      case 3
      with U obtain l R1' il L1' where e: "R1 = R1' @ [l]" "L1 = L1' @ [il]" by blast
      with 3 show ?thesis using tree_Add_upper [OF B loc [unfolded e] hyps] by (simp add: first_item_def)
    qed (rule tree_Add_single [OF B loc hyps])
  qed
qed

lemma tree_Remove_parts:
  assumes "located B t h t1 R1 (r # R2) L1 (i # L2)" "h \<in> heights (Flatten B t)"
  shows "Flatten B t = L1 @ i # L2" "ivl_ok (L1 @ i # L2)" "pts B t1 (R1 @ r # R2) (L1 @ i # L2)" "length R1 = length L1"
    "LowerBound i \<le> h" "h \<le> UpperBound i" "length (ivs t) \<notin> set (R1 @ r # R2)" "length (ivs t) < length (ivs t1)" "numKnownHeights t1 = numKnownHeights t"
    "tree_Remove B W h t w = remove_from B W (length (ivs t)) r i h (t1\<lparr>numKnownHeights := numKnownHeights t1 - 1\<rparr>) w"
proof -
  note loc' = assms(1) [unfolded located_def]
  show F: "Flatten B t = L1 @ i # L2" and ok: "ivl_ok (L1 @ i # L2)" and p: "pts B t1 (R1 @ r # R2) (L1 @ i # L2)" and len: "length R1 = length L1"
    and n: "length (ivs t) \<notin> set (R1 @ r # R2)" "length (ivs t) < length (ivs t1)" and num: "numKnownHeights t1 = numKnownHeights t"
    using loc' by simp_all
  have c: "iv_Contains (Some i) h" using loc' assms(2) contains_heights [OF ok, of h] by (simp add: first_item_def)
  then show "LowerBound i \<le> h" "h \<le> UpperBound i" by (simp_all add: iv_Contains_def)
  have i: "ivs t1 ! r = i" "r < length (ivs t1)" using p len by (auto simp: pts_def)
  have "length (ivs t) \<noteq> r" "ivs t1 ! length (ivs t) = \<lparr>LowerBound = h, UpperBound = h\<rparr>" using loc' by auto
  then show "tree_Remove B W h t w = remove_from B W (length (ivs t)) r i h (t1\<lparr>numKnownHeights := numKnownHeights t1 - 1\<rparr>) w"
    using loc' c i n by (simp add: tree_Remove_def remove_from_def Let_def deref_def first_item_def set_lower_def set_upper_def)
qed

text \<open>The result of removing \<open>h\<close> from a tree with the heights \<open>H\<close>.\<close>

definition removes :: "(nat, 't) btree \<Rightarrow> uint64 set \<Rightarrow> uint64 \<Rightarrow> 'w \<Rightarrow> ('t, 'w) tree_result \<Rightarrow> bool" where
  "removes B H h w res \<longleftrightarrow> (case res of (t', w', err) \<Rightarrow> err = None \<and> (tree_wf B t' \<and> heights (Flatten B t') = H - {h}) \<and> stores w (Flatten B t') w')"

lemma removesI:
  assumes "pts B t' R' L'" "ivl_ok L'" "heights L' = H - {h}" "h \<in> H" "numKnownHeights t' = of_nat (card H) - 1" "stores w L' w'"
  shows "removes B H h w (t', w', None)"
  using tree_wfI_remove [OF assms(1-5)] assms(6) pts_Flatten [OF assms(1)] by (simp add: removes_def)

lemma remove_all:
  assumes B: "btree_ok B" and p: "pts B t (R1 @ r # R2) (L1 @ i # L2)" "length R1 = length L1" and ok: "ivl_ok (L1 @ i # L2)"
    and H: "heights (L1 @ i # L2) = H" "numKnownHeights t = of_nat (card H) - 1" and st: "stores w (L1 @ i # L2) w"
    and h: "LowerBound i \<le> h" "h \<le> UpperBound i" "LowerBound i = UpperBound i"
  shows "removes B H h w (remove_from B W n r i h t w)"
proof -
  let ?t = "t\<lparr>knownHeights := bt_Delete B (less_iv t) r (knownHeights t)\<rparr>"
  have p': "pts B ?t (R1 @ R2) (L1 @ L2)" using pts_delete [OF B p ivl_ok_sorted [OF ok]] .
  obtain w1 where w1: "DeleteInterval W (UpperBound i) w = (w1, None)" "stores w (L1 @ L2) w1"
    using stores_delete [OF st] ivl_ok_distinct [OF ok] by auto
  have ok': "ivl_ok (L1 @ L2)" using ok by (simp add: ivl_ok_insert)
  have r: "range_of i = {h}" using h by (auto simp: range_of_def)
  have "h \<notin> heights (L1 @ L2)" using ivl_ok_disjoint [OF ok] h by (simp add: range_of_def)
  then have "removes B H h w (?t, w1, None)" using r H by (intro removesI [OF p' ok' _ _ _ w1(2)]) auto
  then show ?thesis using h w1 by (simp add: remove_from_def with_tree_def)
qed

lemma remove_lower:
  assumes B: "btree_ok B" and p: "pts B t (R1 @ r # R2) (L1 @ i # L2)" "length R1 = length L1" and ok: "ivl_ok (L1 @ i # L2)"
    and H: "heights (L1 @ i # L2) = H" "numKnownHeights t = of_nat (card H) - 1" and st: "stores w (L1 @ i # L2) w"
    and h: "LowerBound i < UpperBound i" "LowerBound i = h"
  shows "removes B H h w (remove_from B W n r i h t w)"
proof -
  let ?i = "i\<lparr>LowerBound := LowerBound i + 1\<rparr>"
  have p': "pts B (set_lower r (LowerBound i + 1) t) (R1 @ r # R2) (L1 @ ?i # L2)" using pts_set_lower [OF p] .
  have ok': "ivl_ok (L1 @ ?i # L2)" using ok h word_succ(1) [OF h(1)] by (auto simp: ivl_ok_insert sep_def word_le_nat_alt word_less_nat_alt)
  obtain w1 where w1: "PutInterval W (UpperBound i) (LowerBound i + 1) w = (w1, None)" "stores w (L1 @ ?i # L2) w1"
    using stores_put [of w L1 L2 w i ?i] st ivl_ok_distinct [OF ok'] by auto
  have "h \<in> range_of i" using h by (simp add: range_of_def)
  then have "removes B H h w (set_lower r (LowerBound i + 1) t, w1, None)" using ivl_ok_disjoint [OF ok, of h] H range_shrink(1) [OF h(1)] h
    by (intro removesI [OF p' ok' _ _ _ w1(2)]) (auto simp: set_lower_def)
  then show ?thesis using h w1 by (auto simp: remove_from_def with_tree_def)
qed

lemma remove_upper:
  assumes B: "btree_ok B" and p: "pts B t (R1 @ r # R2) (L1 @ i # L2)" "length R1 = length L1" and ok: "ivl_ok (L1 @ i # L2)"
    and H: "heights (L1 @ i # L2) = H" "numKnownHeights t = of_nat (card H) - 1" and st: "stores w (L1 @ i # L2) w"
    and h: "LowerBound i < UpperBound i" "UpperBound i = h"
  shows "removes B H h w (remove_from B W n r i h t w)"
proof -
  let ?i = "i\<lparr>UpperBound := UpperBound i - 1\<rparr>"
  have p': "pts B (set_upper r (UpperBound i - 1) t) (R1 @ r # R2) (L1 @ ?i # L2)" using pts_set_upper [OF p] .
  have ok': "ivl_ok (L1 @ ?i # L2)" using ok h word_pred [OF h(1)] by (auto simp: ivl_ok_insert sep_def word_le_nat_alt word_less_nat_alt)
  obtain w1 where w1: "DeleteInterval W (UpperBound i) w = (w1, None)" "stores w (L1 @ L2) w1"
    using stores_delete [OF st] ivl_ok_distinct [OF ok] by auto
  obtain w2 where w2: "PutInterval W (UpperBound i - 1) (LowerBound i) w1 = (w2, None)" "stores w (L1 @ ?i # L2) w2"
    using stores_put [of w L1 L2 w1 i ?i] w1(2) ivl_ok_distinct [OF ok'] by auto
  have "h \<in> range_of i" using h by (auto simp: range_of_def)
  then have "removes B H h w (set_upper r (UpperBound i - 1) t, w2, None)" using ivl_ok_disjoint [OF ok, of h] H range_shrink(2) [OF h(1)] h
    by (intro removesI [OF p' ok' _ _ _ w2(2)]) (auto simp: set_upper_def)
  then show ?thesis using h w1 w2 by (auto simp: remove_from_def with_tree_def)
qed

lemma remove_middle:
  assumes B: "btree_ok B" and p: "pts B t (R1 @ r # R2) (L1 @ i # L2)" "length R1 = length L1" and ok: "ivl_ok (L1 @ i # L2)"
    and H: "heights (L1 @ i # L2) = H" "numKnownHeights t = of_nat (card H) - 1" and st: "stores w (L1 @ i # L2) w"
    and h: "LowerBound i < h" "h < UpperBound i" and n: "n \<notin> set (R1 @ r # R2)" "n < length (ivs t)"
  shows "removes B H h w (remove_from B W n r i h t w)"
proof -
  let ?j = "\<lparr>LowerBound = LowerBound i, UpperBound = h - 1\<rparr>"
  let ?i = "i\<lparr>LowerBound := h + 1\<rparr>"
  let ?t3 = "set_upper n (h - 1) (set_lower n (LowerBound i) t)"
  let ?t4 = "?t3\<lparr>knownHeights := bt_ReplaceOrInsert B (less_iv ?t3) n (knownHeights ?t3)\<rparr>"
  note nat = word_pred [OF h(1)] word_succ(1) [OF h(2)]
  have ok': "ivl_ok (L1 @ ?j # ?i # L2)" using ok h nat by (auto simp: ivl_ok_insert [of L1] ivl_ok_insert sep_def word_le_nat_alt word_less_nat_alt)
  have p3: "pts B ?t3 (R1 @ r # R2) (L1 @ i # L2)" using p n by (auto simp: pts_def set_lower_def set_upper_def map_nth_update)
  have s: "sorted_wrt (\<lambda>i j. UpperBound i < UpperBound j) (L1 @ ?j # i # L2)" using ivl_ok_sorted [OF ok'] by (simp add: sorted_wrt_append)
  have j: "n < length (ivs ?t3)" "ivs ?t3 ! n = ?j" using n by (simp_all add: set_lower_def set_upper_def)
  have p4: "pts B ?t4 ((R1 @ [n]) @ r # R2) ((L1 @ [?j]) @ i # L2)" using pts_insert [OF B p3 p(2) j(1) n(1) j(2) s] by simp
  have p5: "pts B (set_lower r (h + 1) ?t4) ((R1 @ [n]) @ r # R2) ((L1 @ [?j]) @ ?i # L2)" using pts_set_lower [OF p4] p(2) by simp
  obtain w1 where w1: "PutInterval W (h - 1) (LowerBound i) w = (w1, None)" "stores w ((L1 @ [?j]) @ i # L2) w1"
    using stores_put [of w L1 "i # L2" w ?j ?j] st ivl_ok_distinct [OF ok'] by auto
  obtain w2 where w2: "PutInterval W (UpperBound i) (h + 1) w1 = (w2, None)" "stores w ((L1 @ [?j]) @ ?i # L2) w2"
    using stores_put [of w "L1 @ [?j]" L2 w1 i ?i] w1(2) ivl_ok_distinct [of "L1 @ [?j]" ?i L2] ok' by auto
  have "h \<in> range_of i" using h by (auto simp: range_of_def)
  then have hh: "heights ((L1 @ [?j]) @ ?i # L2) = H - {h}" using ivl_ok_disjoint [OF ok, of h] H range_shrink(3) [OF h] by auto
  have "removes B H h w (set_lower r (h + 1) ?t4, w2, None)" using \<open>h \<in> range_of i\<close> H ok'
    by (intro removesI [OF p5 _ hh _ _ w2(2)]) (auto simp: set_lower_def set_upper_def)
  then show ?thesis using h w1 w2 by (auto simp: remove_from_def with_tree_def Let_def)
qed

lemma tree_Remove_spec:
  assumes B: "btree_ok B" and wf: "tree_wf B t" and w: "wok w" "persisted (wabs w) (Flatten B t)"
  shows "\<exists>t' w'. tree_Remove B W h t w = (t', w', None) \<and> (tree_wf B t' \<and> heights (Flatten B t') = heights (Flatten B t) - {h}) \<and> stores w (Flatten B t') w'"
proof -
  obtain t1 R1 R2 L1 L2 where loc: "located B t h t1 R1 R2 L1 L2" using search [OF B wf] by blast
  note loc' = loc [unfolded located_def]
  have st: "stores w (Flatten B t) w" and num: "numKnownHeights t = of_nat (card (heights (Flatten B t)))" using stores_refl w wf by (simp_all add: tree_wf_def)
  have p: "pts B t1 (R1 @ R2) (L1 @ L2)" using loc' by simp
  have d: "deref t1 (first_item R2) = first_item L2" using loc' by (auto simp: pts_def deref_def first_item_map)
  have "removes B (heights (Flatten B t)) h w (tree_Remove B W h t w)"
  proof (cases "h \<in> heights (Flatten B t)")
    case False
    then have "tree_Remove B W h t w = (t1, w, None)" using loc' d contains_heights [of L1 L2 h] by (simp add: tree_Remove_def)
    then show ?thesis using False wf st loc' pts_Flatten [OF p] by (auto simp: removes_def tree_wf_def pts_def)
  next
    case True
    then have "iv_Contains (first_item L2) h" using loc' contains_heights [of L1 L2 h] by simp
    then obtain r R2' i L2' where e: "R2 = r # R2'" "L2 = i # L2'" using d by (cases L2; cases R2) (auto simp: iv_Contains_def first_item_def deref_def)
    note parts = tree_Remove_parts [OF loc [unfolded e] True]
    let ?t2 = "t1\<lparr>numKnownHeights := numKnownHeights t1 - 1\<rparr>"
    have hyps: "pts B ?t2 (R1 @ r # R2') (L1 @ i # L2')" "length R1 = length L1" "ivl_ok (L1 @ i # L2')" "heights (L1 @ i # L2') = heights (Flatten B t)"
      "numKnownHeights ?t2 = of_nat (card (heights (Flatten B t))) - 1" "stores w (L1 @ i # L2') w" using parts st num by (simp_all del: heights_simps)
    have le: "LowerBound i \<le> UpperBound i" using parts(5,6) by simp
    consider "LowerBound i = UpperBound i" | "LowerBound i < UpperBound i" "LowerBound i = h" | "LowerBound i < UpperBound i" "UpperBound i = h"
      | "LowerBound i < h" "h < UpperBound i" using parts(5,6) le by fastforce
    then show ?thesis unfolding parts(10)
    proof cases
      case 1
      then show "removes B (heights (Flatten B t)) h w (remove_from B W (length (ivs t)) r i h ?t2 w)" by (rule remove_all [OF B hyps parts(5,6)])
    next
      case 2
      then show "removes B (heights (Flatten B t)) h w (remove_from B W (length (ivs t)) r i h ?t2 w)" by (rule remove_lower [OF B hyps])
    next
      case 3
      then show "removes B (heights (Flatten B t)) h w (remove_from B W (length (ivs t)) r i h ?t2 w)" by (rule remove_upper [OF B hyps])
    next
      case 4
      then show "removes B (heights (Flatten B t)) h w (remove_from B W (length (ivs t)) r i h ?t2 w)" by (rule remove_middle [OF B hyps]) (use parts in simp_all)
    qed
  qed
  then show ?thesis by (auto simp: removes_def)
qed

end

end
