(* ===== verification/IntervalStore.thy ===== *)
theory IntervalStore
  imports IntervalProofs
begin

text \<open>
  The interval tree over a database or a batch of one, the blocks stored beside the intervals (blocks.go), and the tree that NewTree
  reads back from the database.
\<close>

section \<open>Queries\<close>

lemma tree_Contains_iff:
  assumes "btree_ok B" "tree_wf B t"
  shows "tree_Contains B h t \<longleftrightarrow> h \<in> heights (Flatten B t)"
proof -
  obtain t1 R1 R2 L1 L2 where "located B t h t1 R1 R2 L1 L2" using search [OF assms] by blast
  note loc = this [unfolded located_def]
  have "deref t1 (first_item R2) = first_item L2" using loc by (auto simp: pts_def deref_def first_item_map)
  then show ?thesis using loc contains_heights [of L1 L2 h] by (simp add: tree_Contains_def)
qed

lemma tree_Len_card: "tree_wf B t \<Longrightarrow> tree_Len t = of_nat (card (heights (Flatten B t)))"
  by (simp add: tree_wf_def tree_Len_def)

text \<open>A set of heights has one list of separated intervals.\<close>

lemma ivl_ok_Cons: "ivl_ok (i # L) \<longleftrightarrow> LowerBound i \<le> UpperBound i \<and> (\<forall>b \<in> set L. sep i b) \<and> ivl_ok L"
  using ivl_ok_insert [of "[]" i L] by auto

lemma heights_above: "ivl_ok (i # L) \<Longrightarrow> x \<in> heights L \<Longrightarrow> unat (UpperBound i) + 1 < unat x"
  by (force simp: ivl_ok_Cons sep_def heights_def in_range_of)

lemma upper_succ:
  assumes "ivl_ok (i # L)" "LowerBound j = LowerBound i" "heights (i # L) = heights (j # L')"
  shows "UpperBound j \<le> UpperBound i"
proof (rule ccontr)
  assume "\<not> UpperBound j \<le> UpperBound i"
  then have l: "UpperBound i < UpperBound j" by simp
  let ?x = "UpperBound i + 1"
  have u: "unat ?x = unat (UpperBound i) + 1" using word_succ(1) [OF l] .
  have "LowerBound i \<le> UpperBound i" using assms(1) by (simp add: ivl_ok_Cons)
  then have "?x \<in> range_of j" using l u assms(2) by (simp add: in_range_of word_less_nat_alt word_le_nat_alt)
  then have "?x \<in> heights (i # L)" using assms(3) by simp
  then show False using heights_above [OF assms(1), of ?x] u by (auto simp: in_range_of)
qed

lemma heights_unique: "ivl_ok L \<Longrightarrow> ivl_ok L' \<Longrightarrow> heights L = heights L' \<Longrightarrow> L = L'"
proof (induction L arbitrary: L')
  case Nil
  then show ?case by (cases L') (auto simp: ivl_ok_Cons range_of_def)
next
  case (Cons i L)
  obtain j L'' where L': "L' = j # L''" using Cons.prems by (cases L') (auto simp: ivl_ok_Cons range_of_def)
  have le: "LowerBound i \<le> UpperBound i" "LowerBound j \<le> UpperBound j" using Cons.prems L' by (auto simp: ivl_ok_Cons)
  have low: "LowerBound a \<le> x" if "ivl_ok (a # M)" "x \<in> heights (a # M)" for a M x
    using that heights_above [OF that(1), of x] by (auto simp: in_range_of ivl_ok_Cons word_le_nat_alt)
  have "LowerBound i \<in> heights (i # L)" "LowerBound j \<in> heights (j # L'')" using le by (auto simp: range_of_def)
  then have l: "LowerBound i = LowerBound j" using Cons.prems L' by (intro antisym low [of i L] low [of j L'']) (simp_all del: heights_simps)
  have u: "UpperBound i = UpperBound j"
    using upper_succ [of i L j L''] upper_succ [of j L'' i L] Cons.prems L' l by (simp del: heights_simps)
  have ij: "i = j" using l u by simp
  have "heights L = heights (i # L) - range_of i" using heights_above [OF Cons.prems(1)] by (fastforce simp: in_range_of)
  moreover have "heights L'' = heights (j # L'') - range_of j" using heights_above [of j L''] Cons.prems(2) L' by (fastforce simp: in_range_of)
  ultimately have "heights L = heights L''" using Cons.prems(3) L' ij by simp
  then show ?case using Cons.IH [of L''] Cons.prems L' ij by (simp add: ivl_ok_Cons)
qed

section \<open>Databases and batches are writers\<close>

definition db_writer :: "('d, 'b, 'i) Database \<Rightarrow> 'd writer" where
  "db_writer M = \<lparr>w_Put = db_Put M, w_Delete = db_Delete M\<rparr>"

definition ba_writer :: "('d, 'b, 'i) Database \<Rightarrow> 'b writer" where
  "ba_writer M = \<lparr>w_Put = ba_Put M, w_Delete = ba_Delete M\<rparr>"

sublocale database \<subseteq> dw: kv_writer "db_writer M" "\<lambda>d. ok d \<and> content d \<noteq> None" "\<lambda>d. the (content d)"
proof (unfold_locales, goal_cases)
  case (1 w k v)
  then show ?case using Put [of w _ k v] by (fastforce simp: db_writer_def)
next
  case (2 w k)
  then show ?case using Delete [of w _ k] by (fastforce simp: db_writer_def)
qed

sublocale database \<subseteq> bw: kv_writer "ba_writer M" bok "\<lambda>b. apply_ops (queued b) m" for m
proof (unfold_locales, goal_cases)
  case (1 w k v)
  then show ?case using batch_Put [of w k v] by (fastforce simp: ba_writer_def)
next
  case (2 w k)
  then show ?case using batch_Delete [of w k] by (fastforce simp: ba_writer_def)
qed

interpretation iv_mem: kv_writer "db_writer (memdb sorted_list_of_set)" "\<lambda>d. mem_ok d \<and> id d \<noteq> None" "\<lambda>d. the (id d)"
  by (rule ascending.mem.dw.kv_writer_axioms)

interpretation iv_batch: kv_writer "ba_writer (memdb sorted_list_of_set)" "\<lambda>_. True" "\<lambda>b. apply_ops (bo_queued b) m" for m
  by (rule ascending.mem.bw.kv_writer_axioms)

section \<open>Reading the tree back\<close>

definition kv_of :: "Interval \<Rightarrow> bytes \<times> bytes" where
  "kv_of i = (makeIntervalKey (UpperBound i), PackUInt64 (LowerBound i))"

lemma PackUInt64_facts: "length (PackUInt64 v) = 8" "ParseUInt64 (PackUInt64 v) = Inr v" "PackUInt64 v < PackUInt64 v' \<longleftrightarrow> v < v'"
  using PutUint_Uint [of 8 v] PutUint_Uint(2) [of 8 v "[]"] by (simp_all add: PackUInt64_def ParseUInt64_def)

lemma Parse_key: "ParseUInt64 (drop 1 (makeIntervalKey u)) = Inr u" "length (makeIntervalKey u) \<ge> 1"
  "ParseUInt64 (drop (Suc 0) (makeIntervalKey u)) = Inr u" "makeIntervalKey u \<noteq> []"
  by (simp_all add: makeIntervalKey_def intervalPrefix_def PackUInt64_facts)

lemma key_less: "makeIntervalKey u < makeIntervalKey u' \<longleftrightarrow> u < u'" "makeBlockKey u < makeBlockKey u' \<longleftrightarrow> u < u'"
  by (simp_all add: makeIntervalKey_def intervalPrefix_def makeBlockKey_def blockPrefix_def PackUInt64_facts)

lemma persisted_entries:
  assumes "finite (dom m)" "persisted m L" "ivl_ok L"
  shows "entries [] intervalPrefix m = map kv_of L"
proof (rule entries_unique [OF assms(1)])
  show s: "sorted_wrt (<) (map fst (map kv_of L))" using ivl_ok_sorted [OF assms(3)] by (simp add: sorted_wrt_map kv_of_def key_less)
  then have d: "distinct (map fst (map kv_of L))" by (simp only: strict_sorted_iff)
  have "m k = Some v \<and> in_range [] intervalPrefix k \<longleftrightarrow> (k, v) \<in> set (map kv_of L)" for k v
  proof -
    have i: "ivmap L k = Some v \<longleftrightarrow> (k, v) \<in> set (map kv_of L)" using map_of_eq_Some_iff [OF d, of k v] by (simp add: ivmap_def kv_of_def [abs_def])
    have "prefix intervalPrefix k" if "(k, v) \<in> set (map kv_of L)" using that by (auto simp: kv_of_def)
    then show ?thesis using i assms(2) by (auto simp: in_range_def persisted_def)
  qed
  then show "set (map kv_of L) = {(k, v). m k = Some v \<and> in_range [] intervalPrefix k}" by auto
qed

lemma range_card:
  assumes "LowerBound i \<le> UpperBound i"
  shows "of_nat (card (range_of i)) = UpperBound i - LowerBound i + 1"
proof -
  have le: "unat (LowerBound i) \<le> unat (UpperBound i)" using assms by (simp add: word_le_nat_alt)
  have "n \<in> unat ` range_of i" if "unat (LowerBound i) \<le> n" "n \<le> unat (UpperBound i)" for n
  proof -
    have "unat (of_nat n :: uint64) = n" using that(2) unsigned_less [of "UpperBound i", where ?'a = nat] by (simp add: unat_of_nat)
    then show ?thesis using that by (intro image_eqI [of _ _ "of_nat n"]) (simp_all add: in_range_of)
  qed
  then have "unat ` range_of i = {unat (LowerBound i)..unat (UpperBound i)}" by (auto simp: in_range_of)
  moreover have "inj_on unat (range_of i)" by (simp add: inj_on_def word_unat_eq_iff)
  ultimately have "card (range_of i) = unat (UpperBound i) - unat (LowerBound i) + 1" using le by (metis card_image card_atLeastAtMost Suc_diff_le Suc_eq_plus1)
  then show ?thesis using le by (simp add: of_nat_diff)
qed

lemma insert_all_pts:
  assumes B: "btree_ok B"
  shows "pts B t R L \<Longrightarrow> ivl_ok (L @ is) \<Longrightarrow> numKnownHeights t = of_nat (card (heights L)) \<Longrightarrow>
    \<exists>R'. pts B (insert_all B is t) R' (L @ is) \<and> numKnownHeights (insert_all B is t) = of_nat (card (heights (L @ is)))"
proof (induction "is" arbitrary: t R L)
  case (Cons i "is")
  let ?t1 = "t\<lparr>ivs := ivs t @ [\<lparr>LowerBound = LowerBound i, UpperBound = UpperBound i\<rparr>]\<rparr>"
  let ?t2 = "?t1\<lparr>knownHeights := bt_ReplaceOrInsert B (less_iv ?t1) (length (ivs t)) (knownHeights ?t1)\<rparr>"
  have ok: "ivl_ok (L @ [i])" "ivl_ok (L @ i # is)" using Cons.prems(2) by (auto simp: ivl_ok_def sorted_wrt_append)
  have le: "LowerBound i \<le> UpperBound i" using ok by (auto simp: ivl_ok_def)
  have p1: "pts B ?t1 (R @ []) (L @ [])" using Cons.prems(1) by (auto simp: pts_def nth_append)
  have p2: "pts B ?t2 (R @ [length (ivs t)]) (L @ [i])"
    by (rule pts_insert [OF B p1]) (use Cons.prems(1) ivl_ok_sorted [OF ok(1)] in \<open>auto simp: pts_def\<close>)
  have dj: "range_of i \<inter> heights L = {}" using ivl_ok_disjoint [of L i "[]"] ok(1) by auto
  note c = range_card [OF le]
  have "numKnownHeights t + (UpperBound i - LowerBound i + 1) = of_nat (card (heights (L @ [i])))"
    using Cons.prems(3) c dj by (simp add: card_Un_disjoint Int_commute)
  then show ?case using Cons.IH [of "?t2\<lparr>numKnownHeights := numKnownHeights ?t2 + (UpperBound i - LowerBound i + 1)\<rparr>" "R @ [length (ivs t)]" "L @ [i]"] p2 ok(2)
    by (simp add: alloc_iv_def)
qed auto

context database
begin

lemma get_intervals_pend:
  assumes "ok d" "content d \<noteq> None"
  shows "iok it \<Longrightarrow> it_Error M it = None \<Longrightarrow> pend it = map kv_of L \<Longrightarrow> length L < n \<Longrightarrow> get_intervals M d n it = Some (Inr L)"
proof (induction n arbitrary: it L)
  case (Suc n)
  from Next [OF assms Suc.prems(1)] obtain i' where
    i': "it_Next M d it = (i', L \<noteq> [])" "iok i'" "it_Error M i' = None" "pend i' = tl (map kv_of L)" "L \<noteq> [] \<longrightarrow> (it_Key M i', it_Value M i') = hd (map kv_of L)"
    using Suc.prems by auto
  show ?case
  proof (cases L)
    case (Cons a L')
    have "get_intervals M d n i' = Some (Inr L')" by (rule Suc.IH) (use i' Suc.prems Cons in simp_all)
    then show ?thesis using i' Cons by (simp add: kv_of_def Parse_key PackUInt64_facts Let_def not_less)
  qed (use i' in simp)
qed simp

lemma NewTree_spec:
  assumes B: "btree_ok B" and d: "ok d" "content d = Some m" and m: "persisted m L" "ivl_ok L" "card (dom m) < n"
  shows "\<exists>t. NewTree B M d n = Some (Inr t) \<and> tree_wf B t \<and> Flatten B t = L"
proof -
  let ?t0 = "\<lparr>knownHeights = bt_New B, numKnownHeights = 0, ivs = []\<rparr>"
  have f: "finite (dom m)" by (rule finite_content [OF d])
  obtain it where it: "db_NewIterator M [] intervalPrefix d = it" "iok it" "it_Error M it = None" "pend it = map kv_of L"
    using NewIterator [OF d, of "[]" intervalPrefix] persisted_entries [OF f m(1,2)] by auto
  have "length (entries [] intervalPrefix m) \<le> card (dom m)" using f by (simp add: entries_def card_mono)
  then have "length L < n" using persisted_entries [OF f m(1,2)] m(3) by simp
  then have g: "GetIntervals M d n = Some (Inr L)" using get_intervals_pend [OF d(1)] it d(2) by (simp add: GetIntervals_def)
  have "pts B ?t0 [] []" using B by (simp add: pts_def btree_ok_def)
  then obtain R' where p: "pts B (insert_all B L ?t0) R' L" "numKnownHeights (insert_all B L ?t0) = of_nat (card (heights L))"
    using insert_all_pts [OF B, of ?t0 "[]" "[]" L] m(2) by auto
  have "tree_wf B (insert_all B L ?t0)" using p m(2) by (simp add: tree_wf_def pts_Flatten [OF p(1)]) (simp add: pts_def)
  then show ?thesis using g pts_Flatten [OF p(1)] by (simp add: NewTree_def)
qed

end

section \<open>Blocks\<close>

text \<open>The store keeps the blocks \<open>bm\<close>, by height, and nothing else under their prefix; the tree has their heights.\<close>

definition blocks_in :: "kv \<Rightarrow> (uint64 \<rightharpoonup> bytes) \<Rightarrow> bool" where
  "blocks_in m bm \<longleftrightarrow> (\<forall>h. m (makeBlockKey h) = bm h) \<and> (\<forall>k. prefix blockPrefix k \<longrightarrow> m k \<noteq> None \<longrightarrow> k \<in> range makeBlockKey)"

definition consistent :: "(nat, 't) btree \<Rightarrow> 't interval_tree \<Rightarrow> kv \<Rightarrow> (uint64 \<rightharpoonup> bytes) \<Rightarrow> bool" where
  "consistent B t m bm \<longleftrightarrow> tree_wf B t \<and> persisted m (Flatten B t) \<and> blocks_in m bm \<and> heights (Flatten B t) = dom bm"

text \<open>A store from which the tree can be read.\<close>

definition restartable :: "kv \<Rightarrow> (uint64 \<rightharpoonup> bytes) \<Rightarrow> bool" where
  "restartable m bm \<longleftrightarrow> (\<exists>L. ivl_ok L \<and> persisted m L \<and> blocks_in m bm \<and> heights L = dom bm)"

lemma consistent_restartable: "consistent B t m bm \<Longrightarrow> restartable m bm"
  by (auto simp: consistent_def restartable_def tree_wf_def)

lemma consistent_Contains: "btree_ok B \<Longrightarrow> consistent B t m bm \<Longrightarrow> tree_Contains B h t \<longleftrightarrow> bm h \<noteq> None"
  by (auto simp: consistent_def tree_Contains_iff)

lemma blocks_in_upd: "blocks_in m bm \<Longrightarrow> blocks_in (m(makeBlockKey h := v)) (bm(h := v))"
  by (auto simp: blocks_in_def)

lemma persisted_block: "persisted m L \<Longrightarrow> persisted (m(makeBlockKey h := v)) L"
  by (auto simp: persisted_def)

lemma no_block_interval: "prefix blockPrefix k \<Longrightarrow> \<not> prefix intervalPrefix k"
  by (auto simp: blockPrefix_def intervalPrefix_def prefix_def)

context kv_writer
begin

lemma stores_blocks: "stores w L w' \<Longrightarrow> blocks_in (wabs w) bm \<Longrightarrow> blocks_in (wabs w') bm"
  using no_block_interval by (simp add: stores_def blocks_in_def)

lemma blocks_Add_spec:
  assumes B: "btree_ok B" and w: "wok w" and c: "consistent B t (wabs w) bm" and skip_def: "skip = (h \<le> la \<or> bm h \<noteq> None)"
  shows "\<exists>t' w'. blocks_Add B W la h bs t w = (t', w', Inr (\<not> skip \<and> h - 1 \<noteq> la \<and> bm (h - 1) = None)) \<and> wok w' \<and>
    consistent B t' (wabs w') (if skip then bm else bm(h \<mapsto> bs)) \<and> (skip \<longrightarrow> t' = t \<and> w' = w)"
proof (cases skip)
  case True
  then show ?thesis using consistent_Contains [OF B c] w c by (auto simp: blocks_Add_def skip_def)
next
  case False
  then have n: "\<not> h \<le> la" "\<not> tree_Contains B h t" using consistent_Contains [OF B c] by (simp_all add: skip_def)
  from put [OF w, of "makeBlockKey h" bs] obtain w1 where
    w1: "PutBlock W h bs w = (w1, None)" "wok w1" "wabs w1 = (wabs w)(makeBlockKey h \<mapsto> bs)" by (auto simp: PutBlock_def)
  have wf: "tree_wf B t" "persisted (wabs w1) (Flatten B t)" "blocks_in (wabs w1) (bm(h \<mapsto> bs))"
    using c w1(3) by (simp_all add: consistent_def persisted_block blocks_in_upd)
  from tree_Add_spec [OF B wf(1) w1(2) wf(2), of h] obtain t' w' where
    t': "tree_Add B W h t w1 = (t', w', None)" "tree_wf B t'" "heights (Flatten B t') = insert h (heights (Flatten B t))" "stores w1 (Flatten B t') w'" by blast
  have c': "consistent B t' (wabs w') (bm(h \<mapsto> bs))" "wok w'"
    using t' stores_blocks [OF t'(4) wf(3)] c by (auto simp: consistent_def stores_def)
  have "tree_Contains B (h - 1) t' \<longleftrightarrow> bm (h - 1) \<noteq> None" using consistent_Contains [OF B c'(1), of "h - 1"] by simp
  then show ?thesis using False n w1(1) t'(1) c' by (simp add: blocks_Add_def Let_def)
qed

lemma blocks_Remove_spec:
  assumes B: "btree_ok B" and w: "wok w" and c: "consistent B t (wabs w) bm"
  shows "\<exists>t' w'. blocks_Remove B W h t w = (t', w', None) \<and> wok w' \<and> consistent B t' (wabs w') (bm(h := None))"
proof -
  from delete [OF w, of "makeBlockKey h"] obtain w1 where
    w1: "DeleteBlock W h w = (w1, None)" "wok w1" "wabs w1 = (wabs w)(makeBlockKey h := None)" by (auto simp: DeleteBlock_def)
  have wf: "tree_wf B t" "persisted (wabs w1) (Flatten B t)" "blocks_in (wabs w1) (bm(h := None))"
    using c w1(3) by (simp_all add: consistent_def persisted_block blocks_in_upd)
  from tree_Remove_spec [OF B wf(1) w1(2) wf(2), of h] obtain t' w' where
    t': "tree_Remove B W h t w1 = (t', w', None)" "tree_wf B t'" "heights (Flatten B t') = heights (Flatten B t) - {h}" "stores w1 (Flatten B t') w'" by blast
  then have "consistent B t' (wabs w') (bm(h := None))" "wok w'"
    using stores_blocks [OF t'(4) wf(3)] c by (auto simp: consistent_def stores_def)
  then show ?thesis using w1(1) t'(1) by (simp add: blocks_Remove_def)
qed

end

section \<open>Sequences of operations\<close>

datatype iv_op = IAdd uint64 bytes | IRemove uint64

fun iv_step :: "(nat, 't) btree \<Rightarrow> 'w writer \<Rightarrow> uint64 \<Rightarrow> iv_op \<Rightarrow> 't interval_tree \<Rightarrow> 'w \<Rightarrow> ('t, 'w) tree_result" where
  "iv_step B W la (IAdd h bs) t w = (case blocks_Add B W la h bs t w of (t, w, Inl err) \<Rightarrow> (t, w, Some err) | (t, w, Inr _) \<Rightarrow> (t, w, None))"
| "iv_step B W la (IRemove h) t w = blocks_Remove B W h t w"

fun iv_run :: "(nat, 't) btree \<Rightarrow> 'w writer \<Rightarrow> uint64 \<Rightarrow> iv_op list \<Rightarrow> 't interval_tree \<Rightarrow> 'w \<Rightarrow> ('t, 'w) tree_result" where
  "iv_run B W la [] t w = (t, w, None)"
| "iv_run B W la (c # cs) t w = (case iv_step B W la c t w of (t, w, Some err) \<Rightarrow> (t, w, Some err) | (t, w, None) \<Rightarrow> iv_run B W la cs t w)"

text \<open>The abstract store: blocks by height.\<close>

fun iv_spec :: "uint64 \<Rightarrow> (uint64 \<rightharpoonup> bytes) \<Rightarrow> iv_op \<Rightarrow> (uint64 \<rightharpoonup> bytes)" where
  "iv_spec la bm (IAdd h bs) = (if h \<le> la \<or> bm h \<noteq> None then bm else bm(h \<mapsto> bs))"
| "iv_spec la bm (IRemove h) = bm(h := None)"

context kv_writer
begin

lemma iv_step_spec:
  assumes B: "btree_ok B" and w: "wok w" and c: "consistent B t (wabs w) bm"
  shows "\<exists>t' w'. iv_step B W la c t w = (t', w', None) \<and> wok w' \<and> consistent B t' (wabs w') (iv_spec la bm c)"
proof (cases c)
  case (IAdd h bs)
  obtain t' w' r where "blocks_Add B W la h bs t w = (t', w', Inr r)" "wok w'"
    "consistent B t' (wabs w') (if h \<le> la \<or> bm h \<noteq> None then bm else bm(h \<mapsto> bs))" using blocks_Add_spec [OF B w c refl, of la h bs] by blast
  then show ?thesis using IAdd by simp
next
  case (IRemove h)
  then show ?thesis using blocks_Remove_spec [OF B w c, of h] by simp
qed

lemma iv_run_spec:
  assumes B: "btree_ok B"
  shows "wok w \<Longrightarrow> consistent B t (wabs w) bm \<Longrightarrow>
    \<exists>t' w'. iv_run B W la cs t w = (t', w', None) \<and> wok w' \<and> consistent B t' (wabs w') (foldl (iv_spec la) bm cs)"
proof (induction cs arbitrary: t w bm)
  case (Cons c cs)
  from iv_step_spec [OF B Cons.prems, of la c] obtain t1 w1 where
    t1: "iv_step B W la c t w = (t1, w1, None)" "wok w1" "consistent B t1 (wabs w1) (iv_spec la bm c)" by blast
  from Cons.IH [OF t1(2,3)] t1(1) show ?case by simp
qed auto

end

context database
begin

lemma iv_run_database:
  assumes B: "btree_ok B" and d: "ok d" "content d = Some m" "consistent B t m bm" and bm': "bm' = foldl (iv_spec la) bm cs"
  shows "\<exists>t' d' m'. iv_run B (db_writer M) la cs t d = (t', d', None) \<and> ok d' \<and> content d' = Some m' \<and> consistent B t' m' bm' \<and>
    (\<forall>h. GetBlock M h d' = (case bm' h of None \<Rightarrow> Inl ErrNotFound | Some b \<Rightarrow> Inr b)) \<and>
    (\<forall>n > card (dom m'). \<exists>t2. NewTree B M d' n = Some (Inr t2) \<and> Flatten B t2 = Flatten B t' \<and> tree_Len t2 = tree_Len t')"
proof -
  obtain t' d' where r: "iv_run B (db_writer M) la cs t d = (t', d', None)" "ok d'" "content d' \<noteq> None" "consistent B t' (the (content d')) bm'"
    using dw.iv_run_spec [OF B, of d t bm la cs] d unfolding bm' by auto
  then obtain m' where m': "content d' = Some m'" "consistent B t' m' bm'" by auto
  have "GetBlock M h d' = (case bm' h of None \<Rightarrow> Inl ErrNotFound | Some b \<Rightarrow> Inr b)" for h
    using Get [OF r(2), of "makeBlockKey h"] m' by (auto simp: GetBlock_def consistent_def blocks_in_def)
  moreover have "\<exists>t2. NewTree B M d' n = Some (Inr t2) \<and> Flatten B t2 = Flatten B t' \<and> tree_Len t2 = tree_Len t'" if n: "n > card (dom m')" for n
  proof -
    have wf: "tree_wf B t'" "persisted m' (Flatten B t')" "ivl_ok (Flatten B t')" using m'(2) by (simp_all add: consistent_def tree_wf_def)
    from NewTree_spec [OF B r(2) m'(1) wf(2,3) n] obtain t2 where t2: "NewTree B M d' n = Some (Inr t2)" "tree_wf B t2" "Flatten B t2 = Flatten B t'" by blast
    then show ?thesis using tree_Len_card [OF wf(1)] tree_Len_card [OF t2(2)] by simp
  qed
  ultimately show ?thesis using r(1,2) m' by blast
qed

end

section \<open>Properties\<close>

text \<open>
  C21. Over the in-memory database, any sequence of Add and Remove of blocks from the empty tree succeeds and implements
  the map from heights to blocks \<open>bm\<close>: Contains and Len describe its domain, GetBlock reads it, Flatten is the list of its
  maximal intervals, and a tree read back from the database with NewTree has the same intervals and the same length.
\<close>

theorem interval_tree_refines:
  assumes "btree_ok B" "valid_ord ord" "bm = foldl (iv_spec la) Map.empty cs" "NewTree B (memdb ord) mem_New 1 = Some (Inr t0)"
  shows "\<exists>t m. iv_run B (db_writer (memdb ord)) la cs t0 mem_New = (t, Some m, None) \<and>
    (\<forall>h. tree_Contains B h t \<longleftrightarrow> bm h \<noteq> None) \<and> tree_Len t = of_nat (card (dom bm)) \<and>
    (\<forall>h. GetBlock (memdb ord) h (Some m) = (case bm h of None \<Rightarrow> Inl ErrNotFound | Some b \<Rightarrow> Inr b)) \<and>
    ivl_ok (Flatten B t) \<and> heights (Flatten B t) = dom bm \<and>
    (\<forall>n > card (dom m). \<exists>t'. NewTree B (memdb ord) (Some m) n = Some (Inr t') \<and> Flatten B t' = Flatten B t \<and> tree_Len t' = tree_Len t)"
proof -
  have D: "database (memdb ord) mem_ok id (\<lambda>_. True) bo_queued mi_ok mi_pend" by (rule map_order.memdb_database [OF map_order.intro [OF assms(2)]])
  have e: "mem_ok mem_New" "id mem_New = Some Map.empty" by (simp_all add: mem_ok_def mem_New_def)
  have "persisted Map.empty []" "ivl_ok []" by (simp_all add: persisted_def ivmap_def ivl_ok_def)
  from database.NewTree_spec [OF D assms(1) e this, of 1] assms(4) have t0: "tree_wf B t0" "Flatten B t0 = []" by auto
  then have c: "consistent B t0 Map.empty Map.empty" by (simp add: consistent_def blocks_in_def persisted_def ivmap_def)
  from database.iv_run_database [OF D assms(1) e c assms(3)] obtain t m where
    r: "iv_run B (db_writer (memdb ord)) la cs t0 mem_New = (t, Some m, None)" "consistent B t m bm"
      "\<forall>h. GetBlock (memdb ord) h (Some m) = (case bm h of None \<Rightarrow> Inl ErrNotFound | Some b \<Rightarrow> Inr b)"
      "\<forall>n > card (dom m). \<exists>t'. NewTree B (memdb ord) (Some m) n = Some (Inr t') \<and> Flatten B t' = Flatten B t \<and> tree_Len t' = tree_Len t" by auto
  have f: "tree_wf B t" "ivl_ok (Flatten B t)" "heights (Flatten B t) = dom bm" using r(2) by (simp_all add: consistent_def tree_wf_def)
  have "tree_Len t = of_nat (card (dom bm))" using tree_Len_card [OF f(1)] f(3) by simp
  then show ?thesis using r(1,3,4) f(2,3) consistent_Contains [OF assms(1) r(2)] by blast
qed

text \<open>A tree that keeps its items in a list.\<close>

definition list_btree :: "('a, 'a list) btree" where
  "list_btree = \<lparr>bt_New = [], bt_ReplaceOrInsert = (\<lambda>less x t. filter (\<lambda>y. less y x) t @ x # filter (\<lambda>y. less x y) t),
     bt_Delete = (\<lambda>less x t. filter (\<lambda>y. less y x \<or> less x y) t), bt_AscendGreaterOrEqual = (\<lambda>less x t. filter (\<lambda>y. \<not> less y x) t),
     bt_DescendLessOrEqual = (\<lambda>less x t. rev (filter (\<lambda>y. \<not> less x y) t)), bt_Ascend = (\<lambda>t. t)\<rparr>"

lemma list_btree_ok: "btree_ok list_btree"
  by (simp add: btree_ok_def list_btree_def not_less neq_iff)

theorem interval_tree_refines_witness:
  "\<exists>t m. iv_run list_btree (db_writer (memdb sorted_list_of_set)) 1 [IAdd 3 [7], IAdd 5 [9], IAdd 4 [8], IAdd 1 [6], IRemove 5]
      \<lparr>knownHeights = [], numKnownHeights = 0, ivs = []\<rparr> mem_New = (t, Some m, None) \<and>
    tree_Contains list_btree 4 t \<and> \<not> tree_Contains list_btree 5 t \<and> \<not> tree_Contains list_btree 1 t \<and> tree_Len t = 2 \<and>
    GetBlock (memdb sorted_list_of_set) 4 (Some m) = Inr [8]"
proof -
  let ?bm = "[3 \<mapsto> [7], 4 \<mapsto> [8]] :: uint64 \<rightharpoonup> bytes"
  have bm: "?bm = foldl (iv_spec 1) Map.empty [IAdd 3 [7], IAdd 5 [9], IAdd 4 [8], IAdd 1 [6], IRemove 5]" by (auto simp: word_le_nat_alt)
  have t0: "NewTree list_btree (memdb sorted_list_of_set) mem_New 1 = Some (Inr \<lparr>knownHeights = [], numKnownHeights = 0, ivs = []\<rparr>)"
    by (simp add: NewTree_def GetIntervals_def memdb_def mem_NewIterator_def mem_New_def dbi_defs mi_Next_def mem_isClosed_def list_btree_def)
  have "card (dom ?bm) = 2" by simp
  then show ?thesis using interval_tree_refines [OF list_btree_ok ascending.valid bm t0] by fastforce
qed

end
