(* ===== verification/BootstrapStorage.thy ===== *)
theory BootstrapStorage
  imports IntervalStore
begin

text \<open>
  default/snow/engine/snowman/bootstrap/storage.go: recording fetched blocks, the identifiers that are still missing, and executing
  the recorded blocks. A block has the accessors of \<^verbatim>\<open>snowman.Block\<close>; the virtual machine's ParseBlock, Verify and Accept are
  parameters, the latter two on its state. Logging, the estimate of the remaining time and Compact, whose error is only logged, are left out.
\<close>

section \<open>Model\<close>

record 'id blk =
  blk_ID :: 'id
  Parent :: 'id
  Height :: uint64
  Bytes :: bytes

type_synonym ('id, 't, 'w) process_result = "'id set \<times> 't interval_tree \<times> 'w \<times> 'id option res"

fun missing_ids :: "('d, 'b, 'i) Database \<Rightarrow> (bytes \<Rightarrow> 'id blk res) \<Rightarrow> uint64 \<Rightarrow> 'd \<Rightarrow> Interval list \<Rightarrow> 'id set \<Rightarrow> 'id set res" where
  "missing_ids M ParseBlock lastHeightToFetch d [] missingBlocks = Inr missingBlocks"
| "missing_ids M ParseBlock lastHeightToFetch d (i # intervals) missingBlocks =
     (if LowerBound i \<le> lastHeightToFetch then missing_ids M ParseBlock lastHeightToFetch d intervals missingBlocks
      else case GetBlock M (LowerBound i) d of
        Inl err \<Rightarrow> Inl err
      | Inr blkBytes \<Rightarrow>
          (case ParseBlock blkBytes of
             Inl err \<Rightarrow> Inl err
           | Inr blk \<Rightarrow> missing_ids M ParseBlock lastHeightToFetch d intervals (insert (Parent blk) missingBlocks)))"

definition getMissingBlockIDs :: "(nat, 't) btree \<Rightarrow> ('d, 'b, 'i) Database \<Rightarrow> (bytes \<Rightarrow> 'id blk res) \<Rightarrow> 't interval_tree \<Rightarrow> uint64 \<Rightarrow> 'd \<Rightarrow> 'id set res" where
  "getMissingBlockIDs B M ParseBlock tree lastAcceptedHeight d = missing_ids M ParseBlock (lastAcceptedHeight + 1) d (Flatten B tree) {}"

text \<open>The loop of process. The identifier to fetch, if any, is the last component.\<close>

partial_function (option) process :: "(nat, 't) btree \<Rightarrow> 'w writer \<Rightarrow> uint64 \<Rightarrow> ('id \<rightharpoonup> 'id blk) \<Rightarrow> 'id blk \<Rightarrow> 'id set \<Rightarrow> 't interval_tree \<Rightarrow> 'w \<Rightarrow>
    ('id, 't, 'w) process_result option" where
  "process B W lastAcceptedHeight ancestors blk missingBlockIDs tree db =
     (let missingBlockIDs = missingBlockIDs - {blk_ID blk} in
      case blocks_Add B W lastAcceptedHeight (Height blk) (Bytes blk) tree db of
        (tree, db, Inl err) \<Rightarrow> Some (missingBlockIDs, tree, db, Inl err)
      | (tree, db, Inr wantsParent) \<Rightarrow>
          if \<not> wantsParent then Some (missingBlockIDs, tree, db, Inr None)
          else case ancestors (Parent blk) of
            None \<Rightarrow> Some (missingBlockIDs, tree, db, Inr (Some (Parent blk)))
          | Some parent \<Rightarrow> process B W lastAcceptedHeight ancestors parent missingBlockIDs tree db)"

text \<open>
  Bootstrapper.process: one batch per call. The identifier to request next is returned instead of being sent; the height of the last
  accepted block, which the code asks the virtual machine for, is an argument; metrics and messages are left out.
\<close>

record ('id, 't, 'd) bs =
  bs_DB :: 'd
  bs_tree :: "'t interval_tree"
  missingBlockIDs :: "'id set"
  startingHeight :: uint64
  tipHeight :: uint64

definition bs_process :: "(nat, 't) btree \<Rightarrow> ('d, 'b, 'i) Database \<Rightarrow> uint64 \<Rightarrow> ('id \<rightharpoonup> 'id blk) \<Rightarrow> 'id blk \<Rightarrow> ('id, 't, 'd) bs \<Rightarrow>
    (('id, 't, 'd) bs \<times> 'id option res) option" where
  "bs_process B M lastAcceptedHeight ancestors blk b =
     (case process B (ba_writer M) lastAcceptedHeight ancestors blk (missingBlockIDs b) (bs_tree b) (db_NewBatch M (bs_DB b)) of
        None \<Rightarrow> None
      | Some (missing, tree, batch, res) \<Rightarrow>
          let b = b\<lparr>bs_tree := tree, missingBlockIDs := missing\<rparr> in
          (case res of
             Inl err \<Rightarrow> Some (b, Inl err)
           | Inr found \<Rightarrow>
               let b = b\<lparr>tipHeight := max (tipHeight b) (Height blk)\<rparr> in
               (case ba_Write M batch (bs_DB b) of
                  (d, Some err) \<Rightarrow> Some (b\<lparr>bs_DB := d\<rparr>, Inl err)
                | (d, None) \<Rightarrow>
                    let b = b\<lparr>bs_DB := d\<rparr> in
                    (case found of
                       None \<Rightarrow> Some (b, Inr None)
                     | Some missingBlockID \<Rightarrow> Some (b\<lparr>missingBlockIDs := insert missingBlockID (missingBlockIDs b)\<rparr>, Inr (Some missingBlockID))))))"

text \<open>The part of Start that reads the database, and of startSyncing that adds the identifiers to fetch.\<close>

definition bs_Start :: "(nat, 't) btree \<Rightarrow> ('d, 'b, 'i) Database \<Rightarrow> (bytes \<Rightarrow> 'id blk res) \<Rightarrow> uint64 \<Rightarrow> nat \<Rightarrow> 'd \<Rightarrow> ('id, 't, 'd) bs res option" where
  "bs_Start B M parse lastAcceptedHeight n d =
     (case NewTree B M d n of
        None \<Rightarrow> None
      | Some (Inl err) \<Rightarrow> Some (Inl (Wrap ''failed to initialize interval tree'' err))
      | Some (Inr tree) \<Rightarrow>
          Some (case getMissingBlockIDs B M parse tree lastAcceptedHeight d of
                  Inl err \<Rightarrow> Inl (Wrap ''failed to initialize missing block IDs'' err)
                | Inr missing \<Rightarrow> Inr \<lparr>bs_DB = d, bs_tree = tree, missingBlockIDs = missing,
                    startingHeight = lastAcceptedHeight, tipHeight = 0\<rparr>))"

definition bs_addMissing :: "'id set \<Rightarrow> 'id set \<Rightarrow> ('id, 't, 'd) bs \<Rightarrow> ('id, 't, 'd) bs" where
  "bs_addMissing knownBlockIDs acceptedBlockIDs b = b\<lparr>missingBlockIDs := missingBlockIDs b \<union> knownBlockIDs \<union> acceptedBlockIDs\<rparr>"

definition batchWritePeriod :: nat where
  "batchWritePeriod = 64"

definition iteratorReleasePeriod :: nat where
  "iteratorReleasePeriod = 1024"

record ('t, 'd, 'b, 'i, 'v) exec =
  e_db :: 'd
  e_tree :: "'t interval_tree"
  e_batch :: 'b
  processedSinceBatchWrite :: nat
  e_iterator :: 'i
  processedSinceIteratorRelease :: nat
  e_vm :: 'v

definition writeBatch :: "('d, 'b, 'i) Database \<Rightarrow> ('t, 'd, 'b, 'i, 'v) exec \<Rightarrow> ('t, 'd, 'b, 'i, 'v) exec \<times> go_error option" where
  "writeBatch M e =
     (if processedSinceBatchWrite e = 0 then (e, None)
      else let e = e\<lparr>processedSinceBatchWrite := 0\<rparr> in
        case ba_Write M (e_batch e) (e_db e) of
          (d, Some err) \<Rightarrow> (e\<lparr>e_db := d\<rparr>, Some err)
        | (d, None) \<Rightarrow> (e\<lparr>e_db := d, e_batch := ba_Reset M (e_batch e)\<rparr>, None))"

record ('id, 'v) vm =
  ParseBlock :: "bytes \<Rightarrow> 'id blk res"
  Verify :: "'id blk \<Rightarrow> 'v \<Rightarrow> 'v \<times> go_error option"
  Accept :: "'id blk \<Rightarrow> 'v \<Rightarrow> 'v \<times> go_error option"

definition regrab :: "('d, 'b, 'i) Database \<Rightarrow> uint64 \<Rightarrow> ('t, 'd, 'b, 'i, 'v) exec \<Rightarrow> ('t, 'd, 'b, 'i, 'v) exec \<times> go_error option" where
  "regrab M height e =
     (if processedSinceIteratorRelease e < iteratorReleasePeriod then (e, None)
      else case it_Error M (e_iterator e) of
        Some err \<Rightarrow> (e, Some err)
      | None \<Rightarrow>
          (case writeBatch M e of
             (e, Some err) \<Rightarrow> (e, Some err)
           | (e, None) \<Rightarrow> (e\<lparr>processedSinceIteratorRelease := 0, e_iterator := GetBlockIteratorWithStart M (height + 1) (e_db e)\<rparr>, None)))"

definition accept_block :: "('id, 'v) vm \<Rightarrow> uint64 \<Rightarrow> 'id blk \<Rightarrow> 'v \<Rightarrow> 'v \<times> go_error option" where
  "accept_block V lastAcceptedHeight blk v =
     (if Height blk \<le> lastAcceptedHeight then (v, None)
      else case Verify V blk v of
        (v, Some err) \<Rightarrow> (v, Some (Wrap ''failed to verify block in bootstrapping'' err))
      | (v, None) \<Rightarrow>
          (case Accept V blk v of
             (v, Some err) \<Rightarrow> (v, Some (Wrap ''failed to accept block in bootstrapping'' err))
           | (v, None) \<Rightarrow> (v, None)))"

text \<open>The body of the loop of execute, once Next has answered true.\<close>

definition exec_step :: "(nat, 't) btree \<Rightarrow> ('d, 'b, 'i) Database \<Rightarrow> ('id, 'v) vm \<Rightarrow> uint64 \<Rightarrow> ('t, 'd, 'b, 'i, 'v) exec \<Rightarrow>
    ('t, 'd, 'b, 'i, 'v) exec \<times> go_error option" where
  "exec_step B M V lastAcceptedHeight e =
     (case ParseBlock V (it_Value M (e_iterator e)) of
        Inl err \<Rightarrow> (e, Some err)
      | Inr blk \<Rightarrow>
          (case blocks_Remove B (ba_writer M) (Height blk) (e_tree e) (e_batch e) of
             (tree, batch, Some err) \<Rightarrow> (e\<lparr>e_tree := tree, e_batch := batch\<rparr>, Some err)
           | (tree, batch, None) \<Rightarrow>
               let e = e\<lparr>e_tree := tree, e_batch := batch, processedSinceBatchWrite := processedSinceBatchWrite e + 1\<rparr> in
               (case (if processedSinceBatchWrite e \<ge> batchWritePeriod then writeBatch M e else (e, None)) of
                  (e, Some err) \<Rightarrow> (e, Some err)
                | (e, None) \<Rightarrow>
                    (case regrab M (Height blk) (e\<lparr>processedSinceIteratorRelease := processedSinceIteratorRelease e + 1\<rparr>) of
                       (e, Some err) \<Rightarrow> (e, Some err)
                     | (e, None) \<Rightarrow>
                         (case accept_block V lastAcceptedHeight blk (e_vm e) of (v, err) \<Rightarrow> (e\<lparr>e_vm := v\<rparr>, err))))))"

text \<open>\<open>halt k\<close> is the answer of shouldHalt before round \<open>k\<close>; \<open>n\<close> bounds the number of rounds, None means that it was too small.\<close>

fun exec_loop :: "(nat, 't) btree \<Rightarrow> ('d, 'b, 'i) Database \<Rightarrow> ('id, 'v) vm \<Rightarrow> uint64 \<Rightarrow> (nat \<Rightarrow> bool) \<Rightarrow> nat \<Rightarrow> nat \<Rightarrow> ('t, 'd, 'b, 'i, 'v) exec \<Rightarrow>
    (('t, 'd, 'b, 'i, 'v) exec \<times> go_error option) option" where
  "exec_loop B M V lastAcceptedHeight halt 0 k e = None"
| "exec_loop B M V lastAcceptedHeight halt (Suc n) k e =
     (if halt k then Some (e, None)
      else case it_Next M (e_db e) (e_iterator e) of
        (i, False) \<Rightarrow> Some (e\<lparr>e_iterator := i\<rparr>, None)
      | (i, True) \<Rightarrow>
          (case exec_step B M V lastAcceptedHeight (e\<lparr>e_iterator := i\<rparr>) of
             (e, Some err) \<Rightarrow> Some (e, Some err)
           | (e, None) \<Rightarrow> exec_loop B M V lastAcceptedHeight halt n (Suc k) e))"

definition execute :: "(nat, 't) btree \<Rightarrow> ('d, 'b, 'i) Database \<Rightarrow> ('id, 'v) vm \<Rightarrow> uint64 \<Rightarrow> (nat \<Rightarrow> bool) \<Rightarrow> nat \<Rightarrow> 't interval_tree \<Rightarrow> 'd \<Rightarrow> 'v \<Rightarrow>
    (('t, 'd, 'b, 'i, 'v) exec \<times> go_error option) option" where
  "execute B M V lastAcceptedHeight halt n tree d v =
     (case exec_loop B M V lastAcceptedHeight halt n 0
         \<lparr>e_db = d, e_tree = tree, e_batch = db_NewBatch M d, processedSinceBatchWrite = 0, e_iterator = GetBlockIterator M d,
          processedSinceIteratorRelease = 0, e_vm = v\<rparr> of
        None \<Rightarrow> None
      | Some (e, Some err) \<Rightarrow> Some (e\<lparr>e_iterator := it_Release M (e_iterator e)\<rparr>, Some err)
      | Some (e, None) \<Rightarrow>
          (case writeBatch M e of
             (e, Some err) \<Rightarrow> Some (e\<lparr>e_iterator := it_Release M (e_iterator e)\<rparr>, Some err)
           | (e, None) \<Rightarrow> Some (e\<lparr>e_iterator := it_Release M (e_iterator e)\<rparr>, it_Error M (e_iterator e))))"

end
