(* ===== verification/BootstrapProofs.thy ===== *)
theory BootstrapProofs
  imports BootstrapStorage
begin

text \<open>No gap among the fetched blocks is forgotten, and execute accepts them in the order of their heights.\<close>

section \<open>Executing\<close>

fun accept_all :: "('id, 'v) vm \<Rightarrow> uint64 \<Rightarrow> 'id blk list \<Rightarrow> 'v \<Rightarrow> 'v \<times> go_error option" where
  "accept_all V la [] v = (v, None)"
| "accept_all V la (x # xs) v = (case accept_block V la x v of (v, Some err) \<Rightarrow> (v, Some err) | (v, None) \<Rightarrow> accept_all V la xs v)"

text \<open>The same as calls of Verify and Accept, one after the other until one fails.\<close>

fun run_until :: "('v \<Rightarrow> 'v \<times> go_error option) list \<Rightarrow> 'v \<Rightarrow> 'v \<times> go_error option" where
  "run_until [] v = (v, None)"
| "run_until (f # fs) v = (case f v of (v, Some err) \<Rightarrow> (v, Some err) | (v, None) \<Rightarrow> run_until fs v)"

definition vm_calls :: "('id, 'v) vm \<Rightarrow> 'id blk list \<Rightarrow> ('v \<Rightarrow> 'v \<times> go_error option) list" where
  "vm_calls V xs = concat (map (\<lambda>x. [Verify V x, Accept V x]) xs)"

lemma accept_all_calls:
  assumes "accept_all V la xs v = (v', err)"
  shows "\<exists>err0. run_until (vm_calls V (filter (\<lambda>x. la < Height x) xs)) v = (v', err0) \<and> (err0 = None \<longleftrightarrow> err = None)"
  using assms
proof (induction xs arbitrary: v)
  case (Cons x xs)
  show ?case
  proof (cases "la < Height x")
    case True
    then have n: "\<not> Height x \<le> la" by simp
    obtain v1 e1 v2 e2 where e: "Verify V x v = (v1, e1)" "Accept V x v1 = (v2, e2)" by fastforce
    show ?thesis using Cons True n e by (cases e1; cases e2) (auto simp: accept_block_def vm_calls_def)
  next
    case False
    then have "Height x \<le> la" by simp
    then show ?thesis using Cons False by (simp add: accept_block_def)
  qed
qed (simp add: vm_calls_def)

definition block_entries :: "(uint64 \<rightharpoonup> bytes) \<Rightarrow> uint64 list \<Rightarrow> (bytes \<times> bytes) list" where
  "block_entries bm hs = map (\<lambda>h. (makeBlockKey h, the (bm h))) hs"

lemma entries_blocks:
  assumes "finite (dom m)" "blocks_in m bm" "sorted_wrt (<) hs" "set hs = {h \<in> dom bm. start \<le> makeBlockKey h}"
  shows "entries start blockPrefix m = block_entries bm hs"
proof (rule entries_unique [OF assms(1)])
  show "sorted_wrt (<) (map fst (block_entries bm hs))" using assms(3) by (simp add: block_entries_def sorted_wrt_map key_less)
  have m: "m (makeBlockKey h) = bm h" for h using assms(2) by (simp add: blocks_in_def)
  have r: "k \<in> range makeBlockKey" if "m k = Some v" "prefix blockPrefix k" for k v using assms(2) that by (auto simp: blocks_in_def)
  show "set (block_entries bm hs) = {(k, v). m k = Some v \<and> in_range start blockPrefix k}"
    using assms(4) r by (fastforce simp: block_entries_def in_range_def m)
qed

text \<open>The state of execute when the blocks with the heights \<open>hs\<close> are still to be processed.\<close>

context database
begin

definition exec_inv :: "(nat, 't) btree \<Rightarrow> (uint64 \<rightharpoonup> bytes) \<Rightarrow> uint64 list \<Rightarrow> ('t, 'd, 'b, 'i, 'v) exec \<Rightarrow> bool" where
  "exec_inv B bm hs e \<longleftrightarrow> (\<exists>m. ok (e_db e) \<and> content (e_db e) = Some m \<and> bok (e_batch e) \<and>
     consistent B (e_tree e) (apply_ops (queued (e_batch e)) m) (bm |` set hs) \<and> iok (e_iterator e) \<and> it_Error M (e_iterator e) = None \<and>
     pend (e_iterator e) = block_entries bm hs \<and> (processedSinceBatchWrite e = 0 \<longrightarrow> apply_ops (queued (e_batch e)) m = m) \<and>
     (\<exists>H. set hs \<subseteq> H \<and> restartable m (bm |` H)))"

lemma writeBatch_spec:
  assumes "exec_inv B bm hs e"
  shows "\<exists>e'. writeBatch M e = (e', None) \<and> exec_inv B bm hs e' \<and> processedSinceBatchWrite e' = 0 \<and> e_vm e' = e_vm e \<and>
    e_iterator e' = e_iterator e \<and> processedSinceIteratorRelease e' = processedSinceIteratorRelease e"
proof (cases "processedSinceBatchWrite e = 0")
  case False
  obtain m where m: "ok (e_db e)" "content (e_db e) = Some m" "bok (e_batch e)" using assms by (auto simp: exec_inv_def)
  from Write [OF m(1,3,2)] obtain d where d: "ba_Write M (e_batch e) (e_db e) = (d, None)" "ok d" "content d = Some (apply_ops (queued (e_batch e)) m)" by blast
  have "exec_inv B bm hs (e\<lparr>processedSinceBatchWrite := 0, e_db := d, e_batch := ba_Reset M (e_batch e)\<rparr>)"
    using assms m d Reset [OF m(3)] by (auto simp: exec_inv_def apply_ops_idem dest: consistent_restartable)
  then show ?thesis using False d(1) by (simp add: writeBatch_def Let_def)
qed (use assms in \<open>simp add: writeBatch_def\<close>)

lemma regrab_spec:
  assumes e: "exec_inv B bm hs e" and hs: "sorted_wrt (<) (h # hs)" "set hs \<subseteq> dom bm"
  shows "\<exists>e'. regrab M h e = (e', None) \<and> exec_inv B bm hs e' \<and> e_vm e' = e_vm e"
proof (cases "processedSinceIteratorRelease e < iteratorReleasePeriod")
  case False
  obtain e1 where e1: "writeBatch M e = (e1, None)" "exec_inv B bm hs e1" "processedSinceBatchWrite e1 = 0" "e_vm e1 = e_vm e"
    using writeBatch_spec [OF e] by blast
  obtain m where m: "ok (e_db e1)" "content (e_db e1) = Some m" "consistent B (e_tree e1) m (bm |` set hs)"
    using e1(2,3) by (auto simp: exec_inv_def)
  have "h + 1 \<le> x" if "x \<in> set hs" for x using hs that word_succ(1) [of h x] by (auto simp: word_le_nat_alt word_less_nat_alt)
  then have "set hs = {x \<in> dom (bm |` set hs). makeBlockKey (h + 1) \<le> makeBlockKey x}" using hs key_less(2) [of _ "h + 1"] by (auto simp flip: not_less)
  moreover have "block_entries (bm |` set hs) hs = block_entries bm hs" by (simp add: block_entries_def)
  ultimately have en: "entries (makeBlockKey (h + 1)) blockPrefix m = block_entries bm hs"
    using entries_blocks [of m "bm |` set hs" hs] finite_content [OF m(1,2)] m(3) hs(1) by (simp add: consistent_def)
  let ?i = "GetBlockIteratorWithStart M (h + 1) (e_db e1)"
  have i: "iok ?i" "it_Error M ?i = None" "pend ?i = block_entries bm hs"
    using NewIterator [OF m(1,2), of "makeBlockKey (h + 1)" blockPrefix] en by (auto simp: GetBlockIteratorWithStart_def)
  have "exec_inv B bm hs (e1\<lparr>processedSinceIteratorRelease := 0, e_iterator := ?i\<rparr>)" using e1(2) i by (simp add: exec_inv_def) (elim conjE exE, intro exI conjI, assumption+)
  moreover have "it_Error M (e_iterator e) = None" using e by (auto simp: exec_inv_def)
  ultimately show ?thesis using False e1(1,4) by (simp add: regrab_def)
qed (use e in \<open>simp add: regrab_def\<close>)

lemma exec_step_spec:
  assumes B: "btree_ok B" and e: "exec_inv B bm (h # hs) e" and hs: "sorted_wrt (<) (h # hs)" "set (h # hs) \<subseteq> dom bm"
    and i: "iok i" "it_Error M i = None" "pend i = block_entries bm hs" "it_Value M i = the (bm h)"
    and x: "ParseBlock V (the (bm h)) = Inr x" "Height x = h" and r: "accept_block V la x (e_vm e) = (v, err)"
  shows "\<exists>e'. exec_step B M V la (e\<lparr>e_iterator := i\<rparr>) = (e', err) \<and> exec_inv B bm hs e' \<and> e_vm e' = v"
proof -
  obtain m where m: "ok (e_db e)" "content (e_db e) = Some m" "bok (e_batch e)" "consistent B (e_tree e) (apply_ops (queued (e_batch e)) m) (bm |` set (h # hs))"
    using e by (auto simp: exec_inv_def)
  obtain t' b' where t': "blocks_Remove B (ba_writer M) h (e_tree e) (e_batch e) = (t', b', None)" "bok b'"
    "consistent B t' (apply_ops (queued b') m) ((bm |` set (h # hs))(h := None))"
    using bw.blocks_Remove_spec [where m = m, OF B m(3,4), of h] by blast
  have "h \<notin> set hs" using hs(1) by auto
  then have d: "(bm |` set (h # hs))(h := None) = bm |` set hs" by (auto simp: restrict_map_def fun_eq_iff)
  let ?e1 = "e\<lparr>e_iterator := i, e_tree := t', e_batch := b', processedSinceBatchWrite := processedSinceBatchWrite e + 1\<rparr>"
  have "\<exists>H. set hs \<subseteq> H \<and> restartable m (bm |` H)" using e m(2) by (auto simp: exec_inv_def)
  then have e1: "exec_inv B bm hs ?e1" using m t' i unfolding d by (auto simp: exec_inv_def)
  define r2 where "r2 = (if processedSinceBatchWrite ?e1 \<ge> batchWritePeriod then writeBatch M ?e1 else (?e1, None))"
  obtain e2 where e2: "r2 = (e2, None)" "exec_inv B bm hs e2" "e_vm e2 = e_vm e"
    using writeBatch_spec [OF e1] e1 by (cases "processedSinceBatchWrite ?e1 \<ge> batchWritePeriod") (auto simp: r2_def)
  have "exec_inv B bm hs (e2\<lparr>processedSinceIteratorRelease := processedSinceIteratorRelease e2 + 1\<rparr>)" using e2(2) by (simp add: exec_inv_def)
  from regrab_spec [OF this hs(1)] hs(2) obtain e3 where
    e3: "regrab M h (e2\<lparr>processedSinceIteratorRelease := processedSinceIteratorRelease e2 + 1\<rparr>) = (e3, None)" "exec_inv B bm hs e3" "e_vm e3 = e_vm e"
    using e2(3) by auto
  have "exec_step B M V la (e\<lparr>e_iterator := i\<rparr>) = (e3\<lparr>e_vm := v\<rparr>, err)"
    using x t'(1) e2(1) e3 i(4) r by (cases "processedSinceBatchWrite ?e1 \<ge> batchWritePeriod") (auto simp: exec_step_def Let_def r2_def)
  moreover have "exec_inv B bm hs (e3\<lparr>e_vm := v\<rparr>)" using e3(2) by (simp add: exec_inv_def)
  ultimately show ?thesis by simp
qed

lemma exec_loop_spec:
  assumes B: "btree_ok B" and p: "\<forall>h b. bm h = Some b \<longrightarrow> ParseBlock V b = Inr (blk_at h) \<and> Height (blk_at h) = h"
  shows "exec_inv B bm hs e \<Longrightarrow> sorted_wrt (<) hs \<Longrightarrow> set hs \<subseteq> dom bm \<Longrightarrow> length hs < n \<Longrightarrow>
    \<exists>e' err hs1 hs2. exec_loop B M V la halt n k e = Some (e', err) \<and> hs = hs1 @ hs2 \<and> accept_all V la (map blk_at hs1) (e_vm e) = (e_vm e', err) \<and>
      exec_inv B bm hs2 e' \<and> (\<forall>j < length hs1. \<not> halt (k + j)) \<and> (err = None \<longrightarrow> hs2 = [] \<or> halt (k + length hs1))"
proof (induction n arbitrary: k e hs)
  case (Suc n)
  show ?case
  proof (cases "halt k")
    case True
    then show ?thesis using Suc.prems(1) by (intro exI [of _ e] exI [of _ None] exI [of _ "[]"] exI [of _ hs]) simp
  next
    case False
    have ok: "ok (e_db e)" "content (e_db e) \<noteq> None" "iok (e_iterator e)" "pend (e_iterator e) = block_entries bm hs" "it_Error M (e_iterator e) = None"
      using Suc.prems(1) by (auto simp: exec_inv_def)
    from Next [OF ok(1-3)] ok(4,5) obtain i where i: "it_Next M (e_db e) (e_iterator e) = (i, hs \<noteq> [])" "iok i" "it_Error M i = None"
      "pend i = tl (block_entries bm hs)" "hs \<noteq> [] \<longrightarrow> (it_Key M i, it_Value M i) = hd (block_entries bm hs)" by (auto simp: block_entries_def)
    show ?thesis
    proof (cases hs)
      case Nil
      then have "exec_loop B M V la halt (Suc n) k e = Some (e\<lparr>e_iterator := i\<rparr>, None)" "exec_inv B bm [] (e\<lparr>e_iterator := i\<rparr>)"
        using False i Suc.prems(1) by (auto simp: exec_inv_def block_entries_def)
      then show ?thesis using Nil by (intro exI [of _ "e\<lparr>e_iterator := i\<rparr>"] exI [of _ None] exI [of _ "[]"]) simp
    next
      case (Cons h hs')
      obtain b where "bm h = Some b" using Suc.prems(3) Cons by auto
      then have x: "ParseBlock V (the (bm h)) = Inr (blk_at h)" "Height (blk_at h) = h" using p by auto
      obtain v err where r: "accept_block V la (blk_at h) (e_vm e) = (v, err)" by fastforce
      have i': "pend i = block_entries bm hs'" "it_Value M i = the (bm h)" using i(4,5) Cons by (simp_all add: block_entries_def)
      obtain e1 where e1: "exec_step B M V la (e\<lparr>e_iterator := i\<rparr>) = (e1, err)" "exec_inv B bm hs' e1" "e_vm e1 = v"
        using exec_step_spec [OF B Suc.prems(1) [unfolded Cons] Suc.prems(2,3) [unfolded Cons] i(2,3) i' x r] by blast
      show ?thesis
      proof (cases err)
        case (Some er)
        have "accept_all V la (map blk_at [h]) (e_vm e) = (e_vm e1, err)" using r Some e1(3) by simp
        moreover have "exec_loop B M V la halt (Suc n) k e = Some (e1, err)" using False i(1) Cons e1(1) Some by simp
        ultimately show ?thesis using e1(2) Some Cons False by (intro exI [of _ e1] exI [of _ err] exI [of _ "[h]"] exI [of _ hs']) simp
      next
        case None
        have "sorted_wrt (<) hs'" "set hs' \<subseteq> dom bm" "length hs' < n" using Suc.prems(2-4) Cons by simp_all
        from Suc.IH [OF e1(2) this, of "Suc k"] obtain e' err' hs1 hs2 where
          l: "exec_loop B M V la halt n (Suc k) e1 = Some (e', err')" "hs' = hs1 @ hs2" "accept_all V la (map blk_at hs1) (e_vm e1) = (e_vm e', err')"
            "exec_inv B bm hs2 e'" "\<forall>j < length hs1. \<not> halt (Suc k + j)" "err' = None \<longrightarrow> hs2 = [] \<or> halt (Suc k + length hs1)" by blast
        have "exec_loop B M V la halt (Suc n) k e = Some (e', err')" using False i(1) Cons e1(1) None l(1) by simp
        moreover have "hs = (h # hs1) @ hs2" using Cons l(2) by simp
        moreover have "accept_all V la (map blk_at (h # hs1)) (e_vm e) = (e_vm e', err')" using r None e1(3) l(3) by simp
        moreover have "\<forall>j < length (h # hs1). \<not> halt (k + j)" using False l(5) by (auto simp: less_Suc_eq_0_disj)
        moreover have "err' = None \<longrightarrow> hs2 = [] \<or> halt (k + length (h # hs1))" using l(6) by simp
        ultimately show ?thesis using l(4) by blast
      qed
    qed
  qed
qed simp

lemma execute_spec:
  assumes B: "btree_ok B" and p: "\<forall>h b. bm h = Some b \<longrightarrow> ParseBlock V b = Inr (blk_at h) \<and> Height (blk_at h) = h"
    and d: "ok d" "content d = Some m" "consistent B t m bm" and n: "card (dom bm) < n"
  shows "\<exists>e err hs1 hs2. execute B M V la halt n t d v = Some (e, err) \<and> sorted_list_of_set (dom bm) = hs1 @ hs2 \<and>
    accept_all V la (map blk_at hs1) v = (e_vm e, err) \<and>
    (\<forall>k < length hs1. \<not> halt k) \<and> (err = None \<longrightarrow> hs2 = [] \<or> halt (length hs1)) \<and>
    (\<exists>m' q. ok (e_db e) \<and> content (e_db e) = Some m' \<and> consistent B (e_tree e) (apply_ops q m') (bm |` set hs2) \<and> (err = None \<longrightarrow> apply_ops q m' = m') \<and>
      (\<exists>H. set hs2 \<subseteq> H \<and> restartable m' (bm |` H)))"
proof -
  let ?hs = "sorted_list_of_set (dom bm)"
  let ?i = "GetBlockIterator M d"
  let ?e = "\<lparr>e_db = d, e_tree = t, e_batch = db_NewBatch M d, processedSinceBatchWrite = 0, e_iterator = ?i, processedSinceIteratorRelease = 0, e_vm = v\<rparr>"
  have f: "finite (dom m)" by (rule finite_content [OF d(1,2)])
  have hs: "sorted_wrt (<) ?hs" "set ?hs = dom bm" "length ?hs < n" using n by simp_all
  have "entries [] blockPrefix m = block_entries bm ?hs" using entries_blocks [OF f, of bm ?hs "[]"] d(3) hs by (simp add: consistent_def)
  then have i: "iok ?i" "it_Error M ?i = None" "pend ?i = block_entries bm ?hs" using NewIterator [OF d(1,2), of "[]" blockPrefix] by (auto simp: GetBlockIterator_def)
  have "bm |` dom bm = bm" by (auto simp: restrict_map_def fun_eq_iff domIff)
  then have "exec_inv B bm ?hs ?e" using d i NewBatch [OF d(1)] hs(2) consistent_restartable [OF d(3)] by (auto simp: exec_inv_def intro!: exI [of _ "dom bm"])
  from exec_loop_spec [OF B p this hs(1) eq_refl [OF hs(2)] hs(3), of la halt 0] obtain e' err hs1 hs2 where
    l: "exec_loop B M V la halt n 0 ?e = Some (e', err)" "?hs = hs1 @ hs2" "accept_all V la (map blk_at hs1) v = (e_vm e', err)"
      "exec_inv B bm hs2 e'" "\<forall>k < length hs1. \<not> halt k" "err = None \<longrightarrow> hs2 = [] \<or> halt (length hs1)" unfolding exec.simps add_0 by blast
  show ?thesis
  proof (cases err)
    case None
    from writeBatch_spec [OF l(4)] obtain e2 where e2: "writeBatch M e' = (e2, None)" "exec_inv B bm hs2 e2" "processedSinceBatchWrite e2 = 0"
      "e_vm e2 = e_vm e'" "e_iterator e2 = e_iterator e'" by blast
    have "it_Error M (e_iterator e2) = None" using e2(2) by (auto simp: exec_inv_def)
    then have x: "execute B M V la halt n t d v = Some (e2\<lparr>e_iterator := it_Release M (e_iterator e2)\<rparr>, None)" using l(1) None e2(1) by (simp add: execute_def)
    show ?thesis
      by (rule exI [of _ "e2\<lparr>e_iterator := it_Release M (e_iterator e2)\<rparr>"], rule exI [of _ None], rule exI [of _ hs1], rule exI [of _ hs2])
        (use x l(2,3,5,6) None e2(2-4) in \<open>auto simp: exec_inv_def\<close>)
  next
    case (Some er)
    then have x: "execute B M V la halt n t d v = Some (e'\<lparr>e_iterator := it_Release M (e_iterator e')\<rparr>, Some er)" using l(1) by (simp add: execute_def)
    show ?thesis
      by (rule exI [of _ "e'\<lparr>e_iterator := it_Release M (e_iterator e')\<rparr>"], rule exI [of _ "Some er"], rule exI [of _ hs1], rule exI [of _ hs2])
        (use x l(2,3,4,5) Some in \<open>auto simp: exec_inv_def\<close>)
  qed
qed

end

section \<open>Gaps\<close>

text \<open>The blocks of the chain that the virtual machine parses: a parent is one lower than its children.\<close>

definition chain :: "(bytes \<Rightarrow> 'id blk res) \<Rightarrow> 'id blk set \<Rightarrow> bool" where
  "chain parse U \<longleftrightarrow> (\<forall>x \<in> U. parse (Bytes x) = Inr x) \<and> (\<forall>x \<in> U. \<forall>y \<in> U. blk_ID y = Parent x \<longrightarrow> unat (Height x) = unat (Height y) + 1)"

definition known :: "'id blk set \<Rightarrow> (uint64 \<rightharpoonup> bytes) \<Rightarrow> bool" where
  "known U bm \<longleftrightarrow> (\<forall>h b. bm h = Some b \<longrightarrow> (\<exists>x \<in> U. Bytes x = b \<and> Height x = h))"

text \<open>The parents of recorded blocks that have to be fetched.\<close>

definition gaps :: "(bytes \<Rightarrow> 'id blk res) \<Rightarrow> (uint64 \<rightharpoonup> bytes) \<Rightarrow> uint64 \<Rightarrow> 'id set" where
  "gaps parse bm la = {Parent x |x h b. bm h = Some b \<and> parse b = Inr x \<and> unat la + 1 < unat h \<and> bm (h - 1) = None}"

definition ancestors_ok :: "'id blk set \<Rightarrow> ('id \<rightharpoonup> 'id blk) \<Rightarrow> bool" where
  "ancestors_ok U anc \<longleftrightarrow> (\<forall>i y. anc i = Some y \<longrightarrow> y \<in> U \<and> blk_ID y = i)"

lemma pred_nat: "unat (la :: uint64) < unat (h :: uint64) \<Longrightarrow> unat (h - 1) = unat h - 1"
  using word_pred [of la h] by (simp add: word_less_nat_alt)

lemma gap_child:
  assumes c: "chain parse U" "known U bm" "x \<in> U" and g: "blk_ID x \<in> gaps parse bm la"
  shows "bm (Height x) = None \<and> la < Height x"
proof -
  obtain z h b where z: "blk_ID x = Parent z" "bm h = Some b" "parse b = Inr z" "unat la + 1 < unat h" "bm (h - 1) = None" using g by (auto simp: gaps_def)
  obtain z' where "z' \<in> U" "Bytes z' = b" "Height z' = h" using c(2) z(2) by (auto simp: known_def)
  then have "z' = z" using c(1) z(3) by (auto simp: chain_def)
  with \<open>z' \<in> U\<close> \<open>Height z' = h\<close> have "unat h = unat (Height x) + 1" using c z(1) by (auto simp: chain_def)
  moreover have "unat (h - 1) = unat h - 1" using z(4) by (intro pred_nat [of la]) simp
  ultimately have "h - 1 = Height x" by (simp add: word_unat_eq_iff)
  then show ?thesis using z(4,5) \<open>unat h = unat (Height x) + 1\<close> by (simp add: word_less_nat_alt)
qed

lemma gaps_add:
  assumes c: "chain parse U" "known U bm" "x \<in> U" and h: "la < Height x" "bm (Height x) = None"
    and g: "gaps parse bm la \<subseteq> insert (blk_ID x) missing"
  shows "known U (bm(Height x \<mapsto> Bytes x))"
    "gaps parse (bm(Height x \<mapsto> Bytes x)) la \<subseteq> (missing - {blk_ID x}) \<union> (if Height x - 1 \<noteq> la \<and> bm (Height x - 1) = None then {Parent x} else {})"
proof -
  let ?bm = "bm(Height x \<mapsto> Bytes x)"
  show k: "known U ?bm" using c by (auto simp: known_def)
  show "gaps parse ?bm la \<subseteq> (missing - {blk_ID x}) \<union> (if Height x - 1 \<noteq> la \<and> bm (Height x - 1) = None then {Parent x} else {})"
  proof
    fix p assume p: "p \<in> gaps parse ?bm la"
    then obtain z hz b where z: "p = Parent z" "?bm hz = Some b" "parse b = Inr z" "unat la + 1 < unat hz" "?bm (hz - 1) = None" by (auto simp: gaps_def)
    have ne: "p \<noteq> blk_ID x" using gap_child [OF c(1) k c(3), of la] p by auto
    show "p \<in> (missing - {blk_ID x}) \<union> (if Height x - 1 \<noteq> la \<and> bm (Height x - 1) = None then {Parent x} else {})"
    proof (cases "hz = Height x")
      case True
      then have "z = x" using z(2,3) c by (auto simp: chain_def)
      moreover have "Height x - 1 \<noteq> la" using z(4) True pred_nat [of la hz] by auto
      moreover have "bm (Height x - 1) = None" using z(5) True by simp
      ultimately show ?thesis using z(1) by simp
    next
      case False
      then have "bm hz = Some b" "bm (hz - 1) = None" using z(2,5) by (auto split: if_splits)
      then have "p \<in> gaps parse bm la" using z(1,3,4) unfolding gaps_def by blast
      then show ?thesis using g ne by auto
    qed
  qed
qed

context kv_writer
begin

lemma process_spec:
  assumes B: "btree_ok B" and c: "chain parse U" "ancestors_ok U anc"
  shows "wok w \<Longrightarrow> consistent B t (wabs w) bm \<Longrightarrow> known U bm \<Longrightarrow> blk \<in> U \<Longrightarrow> gaps parse bm la \<subseteq> insert (blk_ID blk) missing \<Longrightarrow>
    \<exists>missing' t' w' r bm'. process B W la anc blk missing t w = Some (missing', t', w', Inr r) \<and> wok w' \<and> consistent B t' (wabs w') bm' \<and>
      known U bm' \<and> gaps parse bm' la \<subseteq> missing' \<union> set_option r \<and> bm \<subseteq>\<^sub>m bm' \<and> (la < Height blk \<longrightarrow> Height blk \<in> dom bm') \<and>
      missing' \<subseteq> missing - {blk_ID blk}"
proof (induction "card (- dom bm)" arbitrary: bm blk missing t w rule: less_induct)
  case less
  note p = less.prems
  let ?h = "Height blk" and ?m1 = "missing - {blk_ID blk}"
  define skip where "skip = (?h \<le> la \<or> bm ?h \<noteq> None)"
  define wants where "wants = (\<not> skip \<and> ?h - 1 \<noteq> la \<and> bm (?h - 1) = None)"
  define bm1 where "bm1 = (if skip then bm else bm(?h \<mapsto> Bytes blk))"
  obtain t1 w1 where t1: "blocks_Add B W la ?h (Bytes blk) t w = (t1, w1, Inr wants)" "wok w1" "consistent B t1 (wabs w1) bm1"
    using blocks_Add_spec [OF B p(1,2) skip_def, of "Bytes blk"] unfolding wants_def bm1_def by blast
  have k1: "known U bm1" and g1: "gaps parse bm1 la \<subseteq> ?m1 \<union> (if wants then {Parent blk} else {})"
  proof (atomize (full), cases skip)
    case True
    then have "blk_ID blk \<notin> gaps parse bm la" using gap_child [OF c(1) p(3,4), of la] by (auto simp: skip_def)
    then show "known U bm1 \<and> gaps parse bm1 la \<subseteq> ?m1 \<union> (if wants then {Parent blk} else {})" using p(3,5) True by (auto simp: bm1_def)
  next
    case False
    then have "la < ?h" "bm ?h = None" "wants = (?h - 1 \<noteq> la \<and> bm (?h - 1) = None)" "bm1 = bm(?h \<mapsto> Bytes blk)" by (auto simp: bm1_def wants_def skip_def)
    then show "known U bm1 \<and> gaps parse bm1 la \<subseteq> ?m1 \<union> (if wants then {Parent blk} else {})"
      using gaps_add [OF c(1) p(3,4) _ _ p(5)] by simp
  qed
  have le: "bm \<subseteq>\<^sub>m bm1" "la < ?h \<longrightarrow> ?h \<in> dom bm1" by (auto simp: bm1_def skip_def map_le_def)
  note unfold = process.simps [of B W la anc blk missing t w]
  show ?case
  proof (cases "wants \<and> anc (Parent blk) \<noteq> None")
    case False
    let ?r = "if wants then Some (Parent blk) else None"
    have "process B W la anc blk missing t w = Some (?m1, t1, w1, Inr ?r)" using t1(1) False unfolding unfold by auto
    moreover have "gaps parse bm1 la \<subseteq> ?m1 \<union> set_option ?r" using g1 by (cases wants) auto
    ultimately show ?thesis using t1(2,3) k1 le by blast
  next
    case True
    then obtain y where y: "anc (Parent blk) = Some y" "wants" by auto
    have U: "y \<in> U" "blk_ID y = Parent blk" using c(2) y(1) by (auto simp: ancestors_ok_def)
    have "- dom bm1 \<subset> - dom bm" using y(2) by (auto simp: bm1_def wants_def skip_def)
    then have "card (- dom bm1) < card (- dom bm)" by (simp add: psubset_card_mono)
    moreover have "gaps parse bm1 la \<subseteq> insert (blk_ID y) ?m1" using g1 y(2) U(2) by auto
    ultimately have "\<exists>missing' t' w' r bm'. process B W la anc y ?m1 t1 w1 = Some (missing', t', w', Inr r) \<and> wok w' \<and> consistent B t' (wabs w') bm' \<and>
      known U bm' \<and> gaps parse bm' la \<subseteq> missing' \<union> set_option r \<and> bm1 \<subseteq>\<^sub>m bm' \<and> (la < Height y \<longrightarrow> Height y \<in> dom bm') \<and> missing' \<subseteq> ?m1 - {blk_ID y}"
      by (rule less.hyps [OF _ t1(2,3) k1 U(1)])
    then obtain missing' t' w' r bm' where
      i: "process B W la anc y ?m1 t1 w1 = Some (missing', t', w', Inr r)" "wok w'" "consistent B t' (wabs w') bm'"
        "known U bm'" "gaps parse bm' la \<subseteq> missing' \<union> set_option r" "bm1 \<subseteq>\<^sub>m bm'" "missing' \<subseteq> ?m1 - {blk_ID y}" by (elim exE conjE) (rule that)
    have "process B W la anc blk missing t w = Some (missing', t', w', Inr r)" using t1(1) y i(1) unfolding unfold by simp
    moreover have "bm \<subseteq>\<^sub>m bm'" using le(1) i(6) by (rule map_le_trans)
    moreover have "la < ?h \<longrightarrow> ?h \<in> dom bm'" using le(2) map_le_implies_dom_le [OF i(6)] by blast
    ultimately show ?thesis using i(2-5,7) by blast
  qed
qed

end

lemma lower_bounds:
  assumes ok: "ivl_ok L" and h: "unat (la :: uint64) < unat h"
  shows "h \<in> LowerBound ` set L \<longleftrightarrow> h \<in> heights L \<and> h - 1 \<notin> heights L"
proof -
  note pn = pred_nat [OF h]
  have sep: "i = j \<or> sep i j \<or> sep j i" if "i \<in> set L" "j \<in> set L" for i j
    using ok that unfolding ivl_ok_def by (metis in_set_conv_nth linorder_neqE_nat sorted_wrt_iff_nth_less)
  show ?thesis
  proof
    assume "h \<in> LowerBound ` set L"
    then obtain i where i: "i \<in> set L" "h = LowerBound i" by blast
    have le: "LowerBound i \<le> UpperBound i" using ok i by (simp add: ivl_ok_def)
    then have "h \<in> heights L" using i by (auto simp: heights_def range_of_def)
    moreover have "h - 1 \<notin> range_of j" if "j \<in> set L" for j
      using sep [OF i(1) that] ok that h le pn i(2) by (auto simp: in_range_of sep_def ivl_ok_def word_le_nat_alt)
    ultimately show "h \<in> heights L \<and> h - 1 \<notin> heights L" by (auto simp: heights_def)
  next
    assume a: "h \<in> heights L \<and> h - 1 \<notin> heights L"
    then obtain i where i: "i \<in> set L" "h \<in> range_of i" "h - 1 \<notin> range_of i" by (auto simp: heights_def)
    then have "h = LowerBound i" using pn h by (auto simp: in_range_of word_unat_eq_iff)
    then show "h \<in> LowerBound ` set L" using i(1) by blast
  qed
qed

context database
begin

lemma missing_ids_spec:
  assumes d: "ok d" "content d = Some m" "blocks_in m bm" and k: "known U bm" "chain parse U"
  shows "LowerBound ` set L \<subseteq> dom bm \<Longrightarrow>
    missing_ids M parse l d L acc = Inr (acc \<union> {Parent x |x h b. h \<in> LowerBound ` set L \<and> l < h \<and> bm h = Some b \<and> parse b = Inr x})"
proof (induction L arbitrary: acc)
  case (Cons i L)
  let ?S = "\<lambda>L. {Parent x |x h b. h \<in> LowerBound ` set L \<and> l < h \<and> bm h = Some b \<and> parse b = Inr x}"
  obtain b where b: "bm (LowerBound i) = Some b" using Cons.prems by auto
  then obtain x where x: "x \<in> U" "Bytes x = b" using k(1) by (auto simp: known_def)
  then have p: "parse b = Inr x" using k(2) by (auto simp: chain_def)
  have "m (makeBlockKey (LowerBound i)) = Some b" using d(3) b by (simp add: blocks_in_def)
  then have g: "GetBlock M (LowerBound i) d = Inr b" using Get [OF d(1)] d(2) by (simp add: GetBlock_def)
  have "?S (i # L) = (if l < LowerBound i then {Parent x} else {}) \<union> ?S L" using b p by auto
  then show ?case using Cons g p by (auto simp: not_le)
qed simp

lemma getMissingBlockIDs_spec:
  assumes B: "btree_ok B" and d: "ok d" "content d = Some m" and c: "consistent B t m bm" and k: "known U bm" "chain parse U" and la: "la < MaxUint"
  shows "getMissingBlockIDs B M parse t la d = Inr (gaps parse bm la)"
proof -
  let ?L = "Flatten B t"
  have ok: "ivl_ok ?L" "heights ?L = dom bm" "blocks_in m bm" using c by (simp_all add: consistent_def tree_wf_def)
  have "LowerBound ` set ?L \<subseteq> dom bm" using ok(1) unfolding ok(2) [symmetric] by (auto simp: heights_def range_of_def ivl_ok_def)
  note e = missing_ids_spec [OF d ok(3) k this, of "la + 1" "{}"]
  have l: "la + 1 < h \<longleftrightarrow> unat la + 1 < unat h" for h using word_succ(1) [OF la] by (simp add: word_less_nat_alt)
  have b: "h \<in> LowerBound ` set ?L \<longleftrightarrow> bm h \<noteq> None \<and> bm (h - 1) = None" if "unat la + 1 < unat h" for h
    using lower_bounds [OF ok(1), of la h] that unfolding ok(2) by (auto simp: domIff)
  have "{Parent x |x h b. h \<in> LowerBound ` set ?L \<and> la + 1 < h \<and> bm h = Some b \<and> parse b = Inr x} = gaps parse bm la"
    unfolding gaps_def l using b by fastforce
  then show ?thesis using e by (simp add: getMissingBlockIDs_def)
qed

definition bs_inv :: "(nat, 't) btree \<Rightarrow> (bytes \<Rightarrow> 'id blk res) \<Rightarrow> 'id blk set \<Rightarrow> uint64 \<Rightarrow> (uint64 \<rightharpoonup> bytes) \<Rightarrow> ('id, 't, 'd) bs \<Rightarrow> bool" where
  "bs_inv B parse U la bm b \<longleftrightarrow> (\<exists>m. ok (bs_DB b) \<and> content (bs_DB b) = Some m \<and> consistent B (bs_tree b) m bm) \<and> known U bm \<and>
     gaps parse bm la \<subseteq> missingBlockIDs b"

lemma bs_process_spec:
  assumes B: "btree_ok B" and c: "chain parse U" "ancestors_ok U anc" and b: "bs_inv B parse U la bm b" and blk: "blk \<in> U"
  shows "\<exists>b' r bm'. bs_process B M la anc blk b = Some (b', Inr r) \<and> bs_inv B parse U la bm' b' \<and> bm \<subseteq>\<^sub>m bm' \<and> (la < Height blk \<longrightarrow> Height blk \<in> dom bm') \<and>
    missingBlockIDs b' \<subseteq> (missingBlockIDs b - {blk_ID blk}) \<union> set_option r"
proof -
  obtain m where m: "ok (bs_DB b)" "content (bs_DB b) = Some m" "consistent B (bs_tree b) m bm" "known U bm" "gaps parse bm la \<subseteq> missingBlockIDs b"
    using b by (auto simp: bs_inv_def)
  let ?b0 = "db_NewBatch M (bs_DB b)"
  have b0: "bok ?b0" "consistent B (bs_tree b) (apply_ops (queued ?b0) m) bm" "gaps parse bm la \<subseteq> insert (blk_ID blk) (missingBlockIDs b)"
    using NewBatch [OF m(1)] m(3,5) by auto
  from bw.process_spec [where m = m, OF B c b0(1,2) m(4) blk b0(3)] obtain missing' t' w' r bm' where
    p: "process B (ba_writer M) la anc blk (missingBlockIDs b) (bs_tree b) ?b0 = Some (missing', t', w', Inr r)" "bok w'"
      "consistent B t' (apply_ops (queued w') m) bm'" "known U bm'" "gaps parse bm' la \<subseteq> missing' \<union> set_option r" "bm \<subseteq>\<^sub>m bm'"
      "la < Height blk \<longrightarrow> Height blk \<in> dom bm'" "missing' \<subseteq> missingBlockIDs b - {blk_ID blk}" by blast
  from Write [OF m(1) p(2) m(2)] obtain d' where
    d': "ba_Write M w' (bs_DB b) = (d', None)" "ok d'" "content d' = Some (apply_ops (queued w') m)" by blast
  let ?b' = "b\<lparr>bs_tree := t', bs_DB := d', missingBlockIDs := missing' \<union> set_option r, tipHeight := max (tipHeight b) (Height blk)\<rparr>"
  have "bs_process B M la anc blk b = Some (?b', Inr r)" using p(1) d'(1) by (cases r) (simp_all add: bs_process_def Let_def)
  moreover have "bs_inv B parse U la bm' ?b'" using d' p(3-5) by (auto simp: bs_inv_def)
  moreover have "missingBlockIDs ?b' \<subseteq> (missingBlockIDs b - {blk_ID blk}) \<union> set_option r" using p(8) by auto
  ultimately show ?thesis using p(6,7) by blast
qed

lemma bs_Start_spec:
  assumes B: "btree_ok B" and d: "ok d" "content d = Some m" and r: "restartable m bm"
    and k: "known U bm" "chain parse U" and la: "la < MaxUint" and n: "card (dom m) < n"
  shows "\<exists>b. bs_Start B M parse la n d = Some (Inr b) \<and> bs_inv B parse U la bm b \<and> missingBlockIDs b = gaps parse bm la \<and> bs_DB b = d"
proof -
  obtain L where L: "ivl_ok L" "persisted m L" "blocks_in m bm" "heights L = dom bm" using r by (auto simp: restartable_def)
  from NewTree_spec [OF B d L(2,1) n] obtain t where t: "NewTree B M d n = Some (Inr t)" "tree_wf B t" "Flatten B t = L" by blast
  then have c: "consistent B t m bm" using L by (simp add: consistent_def)
  from getMissingBlockIDs_spec [OF B d c k la] show ?thesis using t(1) d c k(1) by (auto simp: bs_Start_def bs_inv_def)
qed

end

text \<open>Without gaps, the heights above the last accepted one are the next ones, up to some top.\<close>

lemma no_gaps_contiguous:
  assumes k: "known U bm" "chain parse U" and g: "gaps parse bm la = {}" and h: "h \<in> dom bm" "la < h'" "h' \<le> h"
  shows "h' \<in> dom bm"
  using h
proof (induction "unat h - unat h'" arbitrary: h)
  case 0
  then have "h = h'" by (simp add: word_le_nat_alt word_unat_eq_iff)
  then show ?case using 0 by simp
next
  case (Suc n)
  have l: "unat la + 1 < unat h" using Suc.hyps(2) Suc.prems by (simp add: word_le_nat_alt word_less_nat_alt)
  then have u: "unat (h - 1) = unat h - 1" by (intro pred_nat [of la]) simp
  obtain b where b: "bm h = Some b" using Suc.prems by auto
  then obtain x where "x \<in> U" "Bytes x = b" using k(1) by (auto simp: known_def)
  then have x: "parse b = Inr x" using k(2) by (auto simp: chain_def)
  have "Parent x \<in> gaps parse bm la" if "bm (h - 1) = None" unfolding gaps_def using b x l that by (intro CollectI exI conjI) (rule refl)
  then have "h - 1 \<in> dom bm" using g by auto
  moreover have "h' \<le> h - 1" "n = unat (h - 1) - unat h'" using u Suc.hyps(2) by (simp_all add: word_le_nat_alt)
  ultimately show ?case using Suc.hyps(1) [of "h - 1"] Suc.prems(2) by simp
qed

section \<open>Sequences of fetched blocks\<close>

datatype 'id bs_op = Seed "'id set" "'id set" | Fetched "'id blk" "'id \<rightharpoonup> 'id blk"

fun bs_run :: "(nat, 't) btree \<Rightarrow> ('d, 'b, 'i) Database \<Rightarrow> uint64 \<Rightarrow> 'id bs_op list \<Rightarrow> ('id, 't, 'd) bs \<Rightarrow> (('id, 't, 'd) bs \<times> go_error option) option" where
  "bs_run B M la [] b = Some (b, None)"
| "bs_run B M la (Seed ks as # cs) b = bs_run B M la cs (bs_addMissing ks as b)"
| "bs_run B M la (Fetched blk anc # cs) b =
     (case bs_process B M la anc blk b of None \<Rightarrow> None | Some (b, Inl err) \<Rightarrow> Some (b, Some err) | Some (b, Inr _) \<Rightarrow> bs_run B M la cs b)"

definition bs_op_ok :: "'id blk set \<Rightarrow> 'id bs_op \<Rightarrow> bool" where
  "bs_op_ok U c \<longleftrightarrow> (\<forall>blk anc. c = Fetched blk anc \<longrightarrow> blk \<in> U \<and> ancestors_ok U anc)"

context database
begin

lemma bs_run_spec:
  assumes B: "btree_ok B" and c: "chain parse U"
  shows "\<forall>c \<in> set cs. bs_op_ok U c \<Longrightarrow> bs_inv B parse U la bm b \<Longrightarrow>
    \<exists>b' bm'. bs_run B M la cs b = Some (b', None) \<and> bs_inv B parse U la bm' b' \<and> bm \<subseteq>\<^sub>m bm' \<and>
      (\<forall>blk anc. Fetched blk anc \<in> set cs \<longrightarrow> la < Height blk \<longrightarrow> Height blk \<in> dom bm')"
proof (induction cs arbitrary: b bm)
  case (Cons c cs)
  show ?case
  proof (cases c)
    case (Seed ks as)
    have "bs_inv B parse U la bm (bs_addMissing ks as b)" using Cons.prems(2) by (auto simp: bs_inv_def bs_addMissing_def)
    from Cons.IH [OF _ this] Cons.prems(1) Seed show ?thesis by simp
  next
    case (Fetched blk anc)
    then have u: "ancestors_ok U anc" "blk \<in> U" using Cons.prems(1) by (auto simp: bs_op_ok_def)
    from bs_process_spec [OF B c u(1) Cons.prems(2) u(2)] obtain b1 r bm1 where
      b1: "bs_process B M la anc blk b = Some (b1, Inr r)" "bs_inv B parse U la bm1 b1" "bm \<subseteq>\<^sub>m bm1" "la < Height blk \<longrightarrow> Height blk \<in> dom bm1" by blast
    from Cons.IH [OF _ b1(2)] Cons.prems(1) obtain b' bm' where
      r: "bs_run B M la cs b1 = Some (b', None)" "bs_inv B parse U la bm' b'" "bm1 \<subseteq>\<^sub>m bm'"
        "\<forall>blk anc. Fetched blk anc \<in> set cs \<longrightarrow> la < Height blk \<longrightarrow> Height blk \<in> dom bm'" by auto
    have "bm \<subseteq>\<^sub>m bm'" using b1(3) r(3) by (rule map_le_trans)
    moreover have "la < Height blk \<longrightarrow> Height blk \<in> dom bm'" using b1(4) map_le_implies_dom_le [OF r(3)] by blast
    ultimately show ?thesis using r(1,2,4) b1(1) Fetched by auto
  qed
qed auto

end

section \<open>Properties\<close>

text \<open>
  C16. After a start from a database that holds the blocks \<open>bm\<close>, the identifiers to fetch are the parents of the
  blocks, above the last accepted height, that have no block just below them; and in whatever order fetched blocks are processed, with
  whatever ancestors, every call succeeds, every processed block is recorded, and when no identifier is missing any more
  the recorded heights above the last accepted one have no gap: below a recorded height everything down to it is recorded. The
  database holds what the tree says, so a restart finds it.
\<close>

theorem bootstrap_no_gap:
  assumes B: "btree_ok B" and o: "valid_ord ord" and m: "finite (dom m)" "restartable m bm" "known U bm" "chain parse U" "la < MaxUint" "card (dom m) < n"
    and cs: "\<forall>c \<in> set cs. bs_op_ok U c"
  shows "\<exists>b0 b m'. bs_Start B (memdb ord) parse la n (Some m) = Some (Inr b0) \<and> missingBlockIDs b0 = gaps parse bm la \<and>
    bs_run B (memdb ord) la cs b0 = Some (b, None) \<and> bs_DB b = Some m' \<and>
    (\<forall>blk anc. Fetched blk anc \<in> set cs \<longrightarrow> la < Height blk \<longrightarrow> tree_Contains B (Height blk) (bs_tree b)) \<and>
    (missingBlockIDs b = {} \<longrightarrow> (\<forall>h h'. tree_Contains B h (bs_tree b) \<longrightarrow> la < h' \<longrightarrow> h' \<le> h \<longrightarrow> tree_Contains B h' (bs_tree b))) \<and>
    (\<exists>bm'. consistent B (bs_tree b) m' bm' \<and> bm \<subseteq>\<^sub>m bm' \<and> known U bm')"
proof -
  have D: "database (memdb ord) mem_ok id (\<lambda>_. True) bo_queued mi_ok mi_pend" by (rule map_order.memdb_database [OF map_order.intro [OF o]])
  have d: "mem_ok (Some m)" "id (Some m) = Some m" using m(1) by (simp_all add: mem_ok_def)
  from database.bs_Start_spec [OF D B d m(2-6)] obtain b0 where
    b0: "bs_Start B (memdb ord) parse la n (Some m) = Some (Inr b0)" "database.bs_inv mem_ok id B parse U la bm b0" "missingBlockIDs b0 = gaps parse bm la" by blast
  from database.bs_run_spec [OF D B m(4) cs b0(2)] obtain b bm' where
    b: "bs_run B (memdb ord) la cs b0 = Some (b, None)" "database.bs_inv mem_ok id B parse U la bm' b" "bm \<subseteq>\<^sub>m bm'"
      "\<forall>blk anc. Fetched blk anc \<in> set cs \<longrightarrow> la < Height blk \<longrightarrow> Height blk \<in> dom bm'" by blast
  from b(2) obtain m' where m': "bs_DB b = Some m'" "consistent B (bs_tree b) m' bm'" "known U bm'" "gaps parse bm' la \<subseteq> missingBlockIDs b"
    by (auto simp: database.bs_inv_def [OF D])
  have t: "tree_Contains B h (bs_tree b) \<longleftrightarrow> h \<in> dom bm'" for h using consistent_Contains [OF B m'(2), of h] by (simp add: domIff)
  have "tree_Contains B h' (bs_tree b)" if "missingBlockIDs b = {}" "tree_Contains B h (bs_tree b)" "la < h'" "h' \<le> h" for h h'
  proof -
    have "gaps parse bm' la = {}" using m'(4) that(1) by simp
    from no_gaps_contiguous [OF m'(3) m(4) this _ that(3,4)] that(2) show ?thesis by (simp add: t)
  qed
  then show ?thesis using b0(1,3) b(1,3,4) m'(1-3) t by blast
qed

text \<open>A chain of blocks whose identifiers are their heights.\<close>

definition demo_blk :: "nat \<Rightarrow> nat blk" where
  "demo_blk i = \<lparr>blk_ID = i, Parent = i - 1, Height = of_nat i, Bytes = [of_nat i]\<rparr>"

definition demo_parse :: "bytes \<Rightarrow> nat blk res" where
  "demo_parse b = (if b = [] then Inl errInvalidKeyLength else Inr (demo_blk (unat (hd b))))"

theorem bootstrap_no_gap_witness:
  "\<exists>b0 b m'. bs_Start list_btree (memdb sorted_list_of_set) demo_parse 2 1 (Some Map.empty) = Some (Inr b0) \<and> missingBlockIDs b0 = {} \<and>
    bs_run list_btree (memdb sorted_list_of_set) 2 [Seed {} {5}, Fetched (demo_blk 5) [4 \<mapsto> demo_blk 4], Fetched (demo_blk 3) Map.empty] b0 = Some (b, None) \<and>
    bs_DB b = Some m' \<and> tree_Contains list_btree 5 (bs_tree b) \<and> tree_Contains list_btree 3 (bs_tree b)"
proof -
  let ?U = "{demo_blk 3, demo_blk 4, demo_blk 5}"
  have r: "restartable Map.empty Map.empty" unfolding restartable_def
    by (rule exI [of _ "[]"]) (simp add: ivl_ok_def persisted_def ivmap_def blocks_in_def)
  have c: "chain demo_parse ?U" "known ?U Map.empty" by (auto simp: chain_def known_def demo_parse_def demo_blk_def)
  have cs: "\<forall>c \<in> set [Seed {} {5}, Fetched (demo_blk 5) [4 \<mapsto> demo_blk 4], Fetched (demo_blk 3) Map.empty]. bs_op_ok ?U c"
    by (auto simp: bs_op_ok_def ancestors_ok_def) (simp add: demo_blk_def split: if_splits)
  have la: "(2 :: uint64) < MaxUint" by (rule word_succ(2) [of _ 3]) (simp add: word_less_nat_alt)
  have h: "Height (demo_blk 5) = 5" "Height (demo_blk 3) = 3" "(2 :: uint64) < 5" "(2 :: uint64) < 3" by (simp_all add: demo_blk_def word_less_nat_alt)
  have g: "gaps demo_parse Map.empty 2 = {}" by (simp add: gaps_def)
  from bootstrap_no_gap [OF list_btree_ok ascending.valid _ r c(2,1) la _ cs, of 1] g show ?thesis by (fastforce simp: h)
qed

text \<open>
  C17. execute takes the recorded blocks in ascending order of height, until it is halted or one of them fails: those
  above the last accepted height are verified and accepted, each once and before the next is looked at. A block is taken only if
  shouldHalt answered no just before, and execute ends without an error only when no block is left or shouldHalt answered yes
  in the round after the last block taken. In every case the loop ends, the tree keeps exactly the heights not taken, and the
  database can be read back with at least these blocks. Without an error the database agrees with the tree. The batch's Reset,
  which keeps the operations of earlier writes, does no harm.
\<close>

theorem execute_in_order:
  assumes B: "btree_ok B" and o: "valid_ord ord" and m: "finite (dom m)" "consistent B t m bm"
    and p: "\<forall>h b. bm h = Some b \<longrightarrow> ParseBlock V b = Inr (blk_at h) \<and> Height (blk_at h) = h" and n: "card (dom bm) < n"
  shows "\<exists>e err hs1 hs2 m'. execute B (memdb ord) V la halt n t (Some m) v = Some (e, err) \<and> sorted_list_of_set (dom bm) = hs1 @ hs2 \<and>
    (\<exists>err0. run_until (vm_calls V (filter (\<lambda>x. la < Height x) (map blk_at hs1))) v = (e_vm e, err0) \<and> (err0 = None \<longleftrightarrow> err = None)) \<and>
    e_db e = Some m' \<and> (\<forall>h. tree_Contains B h (e_tree e) \<longleftrightarrow> h \<in> set hs2) \<and>
    (\<exists>H. set hs2 \<subseteq> H \<and> restartable m' (bm |` H)) \<and> (\<forall>k < length hs1. \<not> halt k) \<and>
    (err = None \<longrightarrow> consistent B (e_tree e) m' (bm |` set hs2) \<and> (hs2 = [] \<or> halt (length hs1)))"
proof -
  have D: "database (memdb ord) mem_ok id (\<lambda>_. True) bo_queued mi_ok mi_pend" by (rule map_order.memdb_database [OF map_order.intro [OF o]])
  have d: "mem_ok (Some m)" "id (Some m) = Some m" using m(1) by (simp_all add: mem_ok_def)
  from database.execute_spec [OF D B p d m(2) n, of la halt v] obtain e err hs1 hs2 m' q where
    r: "execute B (memdb ord) V la halt n t (Some m) v = Some (e, err)" "sorted_list_of_set (dom bm) = hs1 @ hs2"
      "accept_all V la (map blk_at hs1) v = (e_vm e, err)" "err = None \<longrightarrow> hs2 = [] \<or> halt (length hs1)" "id (e_db e) = Some m'"
      "consistent B (e_tree e) (apply_ops q m') (bm |` set hs2)" "err = None \<longrightarrow> apply_ops q m' = m'" "\<exists>H. set hs2 \<subseteq> H \<and> restartable m' (bm |` H)"
      "\<forall>k < length hs1. \<not> halt k" by blast
  have "set (sorted_list_of_set (dom bm)) = dom bm" by simp
  then have "set hs2 \<subseteq> dom bm" unfolding r(2) by auto
  then have "tree_Contains B h (e_tree e) \<longleftrightarrow> h \<in> set hs2" for h using consistent_Contains [OF B r(6), of h] by (auto simp: restrict_map_def)
  moreover have "err = None \<longrightarrow> consistent B (e_tree e) m' (bm |` set hs2) \<and> (hs2 = [] \<or> halt (length hs1))" using r(4,6,7) by auto
  moreover have "e_db e = Some m'" using r(5) by simp
  ultimately show ?thesis using r(1,2,8,9) accept_all_calls [OF r(3)] by blast
qed

lemma consistent_empty: "btree_ok B \<Longrightarrow> consistent B \<lparr>knownHeights = bt_New B, numKnownHeights = 0, ivs = []\<rparr> Map.empty Map.empty"
  by (simp add: consistent_def tree_wf_def Flatten_def btree_ok_def ivl_ok_def persisted_def ivmap_def blocks_in_def)

theorem execute_in_order_witness:
  "\<exists>t m e. execute list_btree (memdb sorted_list_of_set) \<lparr>ParseBlock = demo_parse, Verify = (\<lambda>x v. (v, None)), Accept = (\<lambda>x v. (v @ [Height x], None))\<rparr>
      3 (\<lambda>k. 2 \<le> k) 4 t (Some m) [] = Some (e, None) \<and> tree_Contains list_btree 3 t \<and> e_vm e = [4] \<and>
    \<not> tree_Contains list_btree 4 (e_tree e) \<and> tree_Contains list_btree 5 (e_tree e)"
proof -
  let ?bm = "[3 \<mapsto> [3], 4 \<mapsto> [4], 5 \<mapsto> [5]] :: uint64 \<rightharpoonup> bytes"
  let ?V = "\<lparr>ParseBlock = demo_parse, Verify = (\<lambda>x v. (v, None)), Accept = (\<lambda>x v. (v @ [Height x], None))\<rparr> :: (nat, uint64 list) vm"
  let ?at = "\<lambda>h :: uint64. demo_blk (unat h)"
  have D: "database (memdb sorted_list_of_set) mem_ok id (\<lambda>_. True) bo_queued mi_ok mi_pend" by (rule map_order.memdb_database [OF ascending.map_order_axioms])
  have bm: "?bm = foldl (iv_spec 0) Map.empty [IAdd 3 [3], IAdd 4 [4], IAdd 5 [5]]" by (auto simp: word_le_nat_alt)
  have e: "mem_ok mem_New" "id mem_New = Some Map.empty" by (simp_all add: mem_ok_def mem_New_def)
  from database.iv_run_database [OF D list_btree_ok e consistent_empty [OF list_btree_ok] bm] obtain t m where
    m: "mem_ok (Some m)" "consistent list_btree t m ?bm" by auto
  then have f: "finite (dom m)" by (simp add: mem_ok_def)
  have p: "\<forall>h b. ?bm h = Some b \<longrightarrow> ParseBlock ?V b = Inr (?at h) \<and> Height (?at h) = h" by (auto simp: demo_parse_def demo_blk_def split: if_splits)
  have "card (dom ?bm) < 4" by simp
  from execute_in_order [OF list_btree_ok ascending.valid f m(2) p this, of 3 "\<lambda>k. 2 \<le> k" "[]"] obtain ex err hs1 hs2 err0 where
    r: "execute list_btree (memdb sorted_list_of_set) ?V 3 (\<lambda>k. 2 \<le> k) 4 t (Some m) [] = Some (ex, err)" "sorted_list_of_set (dom ?bm) = hs1 @ hs2"
      "run_until (vm_calls ?V (filter (\<lambda>x. 3 < Height x) (map ?at hs1))) [] = (e_vm ex, err0)" "err0 = None \<longleftrightarrow> err = None"
      "\<forall>h. tree_Contains list_btree h (e_tree ex) \<longleftrightarrow> h \<in> set hs2" "\<forall>k < length hs1. \<not> 2 \<le> k" "err = None \<longrightarrow> hs2 = [] \<or> 2 \<le> length hs1" by blast
  have s: "sorted_list_of_set (dom ?bm) = [3, 4, 5]" by (rule sorted_distinct_set_unique) (auto simp: word_le_nat_alt)
  have "run_until (vm_calls ?V xs) v = (v @ map Height xs, None)" for xs v
    by (induction xs arbitrary: v) (auto simp: vm_calls_def)
  then have v: "e_vm ex = map Height (filter (\<lambda>x. 3 < Height x) (map ?at hs1))" "err = None" using r(3,4) by auto
  have "length hs1 + length hs2 = 3" using r(2) s by (metis length_append list.size(3,4) numeral_3_eq_3 add_Suc_right add_0_right One_nat_def)
  moreover have "\<not> 2 < length hs1" using r(6) by auto
  ultimately have "length hs1 = 2" using r(7) v(2) by auto
  then have "hs1 = [3, 4]" "hs2 = [5]" using r(2) s by (auto simp: numeral_2_eq_2 length_Suc_conv)
  then have "e_vm ex = [4]" "\<not> tree_Contains list_btree 4 (e_tree ex)" "tree_Contains list_btree 5 (e_tree ex)"
    using v(1) r(5) by (simp_all add: demo_blk_def word_less_nat_alt)
  moreover have "tree_Contains list_btree 3 t" using consistent_Contains [OF list_btree_ok m(2), of 3] by simp
  ultimately show ?thesis using r(1) v(2) by blast
qed

end
