(* ===== verification/BiMap.thy ===== *)
theory BiMap
  imports Prelude
begin

text \<open>default/utils/bimap/bimap.go: a map that can be read in both directions.\<close>

section \<open>Model\<close>

record ('k, 'v) BiMap =
  keyToValue :: "'k \<rightharpoonup> 'v"
  valueToKey :: "'v \<rightharpoonup> 'k"

definition bimap_New :: "('k, 'v) BiMap" where
  "bimap_New = \<lparr>keyToValue = Map.empty, valueToKey = Map.empty\<rparr>"

definition bm_DeleteKey :: "'k \<Rightarrow> ('k, 'v) BiMap \<Rightarrow> 'v option \<times> ('k, 'v) BiMap" where
  "bm_DeleteKey key m =
     (case keyToValue m key of
        None \<Rightarrow> (None, m)
      | Some val \<Rightarrow> (Some val, m\<lparr>keyToValue := (keyToValue m)(key := None), valueToKey := (valueToKey m)(val := None)\<rparr>))"

definition bm_DeleteValue :: "'v \<Rightarrow> ('k, 'v) BiMap \<Rightarrow> 'k option \<times> ('k, 'v) BiMap" where
  "bm_DeleteValue val m =
     (case valueToKey m val of
        None \<Rightarrow> (None, m)
      | Some key \<Rightarrow> (Some key, m\<lparr>keyToValue := (keyToValue m)(key := None), valueToKey := (valueToKey m)(val := None)\<rparr>))"

definition bm_Put :: "'k \<Rightarrow> 'v \<Rightarrow> ('k, 'v) BiMap \<Rightarrow> ('k \<times> 'v) list \<times> ('k, 'v) BiMap" where
  "bm_Put key val m =
     (case bm_DeleteKey key m of (oldVal, m) \<Rightarrow>
      case bm_DeleteValue val m of (oldKey, m) \<Rightarrow>
        ((case oldVal of None \<Rightarrow> [] | Some v \<Rightarrow> [(key, v)]) @ (case oldKey of None \<Rightarrow> [] | Some k \<Rightarrow> [(k, val)]),
         m\<lparr>keyToValue := (keyToValue m)(key \<mapsto> val), valueToKey := (valueToKey m)(val \<mapsto> key)\<rparr>))"

definition bm_GetKey :: "'v \<Rightarrow> ('k, 'v) BiMap \<Rightarrow> 'k option" where
  "bm_GetKey val m = valueToKey m val"

definition bm_GetValue :: "'k \<Rightarrow> ('k, 'v) BiMap \<Rightarrow> 'v option" where
  "bm_GetValue key m = keyToValue m key"

definition bm_HasKey :: "'k \<Rightarrow> ('k, 'v) BiMap \<Rightarrow> bool" where
  "bm_HasKey key m \<longleftrightarrow> keyToValue m key \<noteq> None"

definition bm_HasValue :: "'v \<Rightarrow> ('k, 'v) BiMap \<Rightarrow> bool" where
  "bm_HasValue val m \<longleftrightarrow> valueToKey m val \<noteq> None"

definition bm_Len :: "('k, 'v) BiMap \<Rightarrow> nat" where
  "bm_Len m = card (dom (keyToValue m))"

section \<open>The two maps are inverse\<close>

definition bimap_inv :: "('k, 'v) BiMap \<Rightarrow> bool" where
  "bimap_inv m \<longleftrightarrow> (\<forall>k v. keyToValue m k = Some v \<longleftrightarrow> valueToKey m v = Some k)"

lemma bimap_inv_New [inv_intros]: "bimap_inv bimap_New"
  by (simp add: bimap_inv_def bimap_New_def)

lemma bimap_invD:
  assumes "bimap_inv m"
  shows "keyToValue m k = Some v \<longleftrightarrow> valueToKey m v = Some k" "keyToValue m k = Some v \<Longrightarrow> keyToValue m k' = Some v \<Longrightarrow> k = k'"
  using assms unfolding bimap_inv_def by (metis option.inject)+

lemma bm_DeleteKey_spec:
  assumes "bimap_inv m"
  shows "fst (bm_DeleteKey key m) = keyToValue m key" "keyToValue (snd (bm_DeleteKey key m)) = (keyToValue m)(key := None)" "bimap_inv (snd (bm_DeleteKey key m))"
proof -
  show "fst (bm_DeleteKey key m) = keyToValue m key" "keyToValue (snd (bm_DeleteKey key m)) = (keyToValue m)(key := None)"
    by (auto simp: bm_DeleteKey_def fun_eq_iff split: option.splits)
  show "bimap_inv (snd (bm_DeleteKey key m))"
  proof (cases "keyToValue m key")
    case (Some val)
    have e: "snd (bm_DeleteKey key m) = m\<lparr>keyToValue := (keyToValue m)(key := None), valueToKey := (valueToKey m)(val := None)\<rparr>"
      using Some by (simp add: bm_DeleteKey_def)
    have v: "valueToKey m v = Some key \<Longrightarrow> v = val" "valueToKey m val = Some k \<Longrightarrow> k = key" for v k
      using bimap_invD(1) [OF assms, of key v] bimap_invD(1) [OF assms, of key val] Some by auto
    show ?thesis unfolding e bimap_inv_def using bimap_invD(1) [OF assms] v by auto
  qed (use assms in \<open>simp add: bm_DeleteKey_def\<close>)
qed

lemma bm_DeleteValue_spec:
  assumes "bimap_inv m"
  shows "fst (bm_DeleteValue val m) = valueToKey m val" "valueToKey (snd (bm_DeleteValue val m)) = (valueToKey m)(val := None)" "bimap_inv (snd (bm_DeleteValue val m))"
proof -
  let ?f = "\<lambda>m. \<lparr>keyToValue = valueToKey m, valueToKey = keyToValue m\<rparr>"
  have i: "bimap_inv (?f n) \<longleftrightarrow> bimap_inv n" for n by (auto simp: bimap_inv_def)
  have d: "bm_DeleteKey val (?f m) = map_prod id ?f (bm_DeleteValue val m)" by (simp add: bm_DeleteKey_def bm_DeleteValue_def split: option.splits)
  note k = bm_DeleteKey_spec [of "?f m" val, unfolded d i, OF assms]
  show "fst (bm_DeleteValue val m) = valueToKey m val" "valueToKey (snd (bm_DeleteValue val m)) = (valueToKey m)(val := None)" using k(1,2) by simp_all
  have "bimap_inv (?f (snd (bm_DeleteValue val m)))" using k(3) by (cases "bm_DeleteValue val m") simp
  then show "bimap_inv (snd (bm_DeleteValue val m))" unfolding i .
qed

text \<open>Put removes the pairs that share the key or the value.\<close>

lemma bm_Put_spec:
  assumes "bimap_inv m"
  shows "bimap_inv (snd (bm_Put key val m))"
    "keyToValue (snd (bm_Put key val m)) k = (if k = key then Some val else if keyToValue m k = Some val then None else keyToValue m k)"
proof -
  define m1 where "m1 = snd (bm_DeleteKey key m)"
  define m2 where "m2 = snd (bm_DeleteValue val m1)"
  note s1 = bm_DeleteKey_spec [OF assms, of key, folded m1_def]
  note s2 = bm_DeleteValue_spec [OF s1(3), of val, folded m2_def]
  have p: "snd (bm_Put key val m) = m2\<lparr>keyToValue := (keyToValue m2)(key \<mapsto> val), valueToKey := (valueToKey m2)(val \<mapsto> key)\<rparr>"
    by (simp add: bm_Put_def m2_def m1_def split: prod.splits)
  have k1: "keyToValue m1 key = None" "valueToKey m2 val = None" using s1(2) s2(2) by simp_all
  have m2: "keyToValue m2 x = Some v \<longleftrightarrow> v \<noteq> val \<and> keyToValue m1 x = Some v" for x v
    using bimap_invD(1) [OF s2(3), of x v] bimap_invD(1) [OF s1(3), of x v] s2(2) by simp
  have k2: "keyToValue m2 x = (if keyToValue m1 x = Some val then None else keyToValue m1 x)" for x
  proof (cases "keyToValue m1 x")
    case None
    then show ?thesis using m2 [of x "the (keyToValue m2 x)"] by (cases "keyToValue m2 x") auto
  next
    case (Some v)
    then show ?thesis using m2 [of x v] m2 [of x "the (keyToValue m2 x)"] by (cases "keyToValue m2 x") auto
  qed
  show "keyToValue (snd (bm_Put key val m)) k = (if k = key then Some val else if keyToValue m k = Some val then None else keyToValue m k)"
    unfolding p using k2 s1(2) by simp
  have "keyToValue m2 key = None" using k2 k1(1) by simp
  then have "valueToKey m2 v \<noteq> Some key" "keyToValue m2 x \<noteq> Some val" for v x using bimap_invD(1) [OF s2(3)] k1(2) by (metis option.distinct(1))+
  then show "bimap_inv (snd (bm_Put key val m))" unfolding p using s2(3) by (auto simp: bimap_inv_def)
qed

end
