(* ===== verification/Syncing.thy ===== *)
theory Syncing
  imports BootstrapProofs BiMap
begin

text \<open>
  The fetching half of default/snow/engine/snowman/bootstrap/bootstrapper.go: startSyncing, fetch, Ancestors,
  GetAncestorsFailed and process. The virtual machine's GetBlock and BatchedParseBlock, the peer that SelectPeer answers
  for a request (None when there is none) and the node's own identifier are parameters; the messages sent are a component of the state. The
  bookkeeping of request times and peer bandwidth and the log are left out. The caller runs tryStartExecuting after a handler that
  returns no error.
\<close>

section \<open>Model\<close>

datatype ('n, 'id) message = GetAncestors 'n "32 word" 'id

record ('n, 'id, 't, 'd) syncer =
  s_bs :: "('id, 't, 'd) bs"
  requestID :: "32 word"
  outstandingRequests :: "('n \<times> 32 word, 'id) BiMap"
  initiallyFetched :: uint64
  sent :: "('n, 'id) message list"

record ('n, 'id) sync_env =
  SelectPeer :: "32 word \<Rightarrow> 'n option"
  selfID :: 'n
  vm_GetBlock :: "'id \<Rightarrow> 'id blk res"
  BatchedParseBlock :: "bytes list \<Rightarrow> 'id blk list res"
  AncestorsMaxContainersReceived :: nat
  lastAcceptedHeight :: uint64

definition fetch :: "('n, 'id) sync_env \<Rightarrow> 'id \<Rightarrow> ('n, 'id, 't, 'd) syncer \<Rightarrow> ('n, 'id, 't, 'd) syncer" where
  "fetch E blkID s =
     (if bm_HasValue blkID (outstandingRequests s) then s
      else let nodeID = (case SelectPeer E (requestID s) of Some nodeID \<Rightarrow> nodeID | None \<Rightarrow> selfID E);
               s = s\<lparr>requestID := requestID s + 1\<rparr>;
               request = (nodeID, requestID s)
           in s\<lparr>outstandingRequests := snd (bm_Put request blkID (outstandingRequests s)), sent := sent s @ [GetAncestors nodeID (requestID s) blkID]\<rparr>)"

type_synonym ('n, 'id, 't, 'd) sync_result = "(('n, 'id, 't, 'd) syncer \<times> go_error option) option"

definition sync_process :: "('n, 'id) sync_env \<Rightarrow> (nat, 't) btree \<Rightarrow> ('d, 'b, 'i) Database \<Rightarrow> 'id blk \<Rightarrow> ('id \<rightharpoonup> 'id blk) \<Rightarrow>
    ('n, 'id, 't, 'd) syncer \<Rightarrow> ('n, 'id, 't, 'd) sync_result" where
  "sync_process E B M blk ancestors s =
     (case bs_process B M (lastAcceptedHeight E) ancestors blk (s_bs s) of
        None \<Rightarrow> None
      | Some (b, Inl err) \<Rightarrow> Some (s\<lparr>s_bs := b\<rparr>, Some err)
      | Some (b, Inr None) \<Rightarrow> Some (s\<lparr>s_bs := b\<rparr>, None)
      | Some (b, Inr (Some missingBlockID)) \<Rightarrow> Some (fetch E missingBlockID (s\<lparr>s_bs := b\<rparr>), None))"

fun request_missing :: "('n, 'id) sync_env \<Rightarrow> 'id list \<Rightarrow> ('n, 'id, 't, 'd) syncer \<Rightarrow> 'id blk list \<Rightarrow> 'id blk list \<times> ('n, 'id, 't, 'd) syncer" where
  "request_missing E [] s toProcess = (toProcess, s)"
| "request_missing E (blkID # blkIDs) s toProcess =
     (case vm_GetBlock E blkID of
        Inl _ \<Rightarrow> request_missing E blkIDs (fetch E blkID s) toProcess
      | Inr blk \<Rightarrow> request_missing E blkIDs s (toProcess @ [blk]))"

fun process_all :: "('n, 'id) sync_env \<Rightarrow> (nat, 't) btree \<Rightarrow> ('d, 'b, 'i) Database \<Rightarrow> 'id blk list \<Rightarrow> ('n, 'id, 't, 'd) syncer \<Rightarrow> ('n, 'id, 't, 'd) sync_result" where
  "process_all E B M [] s = Some (s, None)"
| "process_all E B M (blk # blks) s =
     (case sync_process E B M blk Map.empty s of
        None \<Rightarrow> None | Some (s, Some err) \<Rightarrow> Some (s, Some err) | Some (s, None) \<Rightarrow> process_all E B M blks s)"

definition startSyncing :: "('id set \<Rightarrow> 'id list) \<Rightarrow> ('n, 'id) sync_env \<Rightarrow> (nat, 't) btree \<Rightarrow> ('d, 'b, 'i) Database \<Rightarrow> 'id set \<Rightarrow> 'id set \<Rightarrow>
    ('n, 'id, 't, 'd) syncer \<Rightarrow> ('n, 'id, 't, 'd) sync_result" where
  "startSyncing ord E B M knownBlockIDs acceptedBlockIDs s =
     (let s = s\<lparr>s_bs := bs_addMissing knownBlockIDs acceptedBlockIDs (s_bs s)\<rparr> in
      case request_missing E (ord (missingBlockIDs (s_bs s))) s [] of (toProcess, s) \<Rightarrow>
        process_all E B M toProcess (s\<lparr>initiallyFetched := tree_Len (bs_tree (s_bs s))\<rparr>))"

definition Ancestors :: "('n, 'id) sync_env \<Rightarrow> (nat, 't) btree \<Rightarrow> ('d, 'b, 'i) Database \<Rightarrow> 'n \<Rightarrow> 32 word \<Rightarrow> bytes list \<Rightarrow>
    ('n, 'id, 't, 'd) syncer \<Rightarrow> ('n, 'id, 't, 'd) sync_result" where
  "Ancestors E B M nodeID reqID blks s =
     (case bm_DeleteKey (nodeID, reqID) (outstandingRequests s) of
        (None, _) \<Rightarrow> Some (s, None)
      | (Some wantedBlkID, requests) \<Rightarrow>
          let s = s\<lparr>outstandingRequests := requests\<rparr> in
          if length blks = 0 then Some (fetch E wantedBlkID s, None)
          else let blks = (if length blks > AncestorsMaxContainersReceived E then take (AncestorsMaxContainersReceived E) blks else blks) in
            case BatchedParseBlock E blks of
              Inl _ \<Rightarrow> Some (fetch E wantedBlkID s, None)
            | Inr [] \<Rightarrow> Some (fetch E wantedBlkID s, None)
            | Inr (requestedBlock # blocks) \<Rightarrow>
                if blk_ID requestedBlock \<noteq> wantedBlkID then Some (fetch E wantedBlkID s, None)
                else let ancestors = foldl (\<lambda>m block. m(blk_ID block \<mapsto> block)) Map.empty blocks in
                  sync_process E B M requestedBlock ancestors s)"

definition GetAncestorsFailed :: "('n, 'id) sync_env \<Rightarrow> 'n \<Rightarrow> 32 word \<Rightarrow> ('n, 'id, 't, 'd) syncer \<Rightarrow> ('n, 'id, 't, 'd) sync_result" where
  "GetAncestorsFailed E nodeID reqID s =
     (case bm_DeleteKey (nodeID, reqID) (outstandingRequests s) of
        (None, _) \<Rightarrow> Some (s, None)
      | (Some blkID, requests) \<Rightarrow> Some (fetch E blkID (s\<lparr>outstandingRequests := requests\<rparr>), None))"

section \<open>Every missing block is requested\<close>

definition requested :: "('n, 'id, 't, 'd) syncer \<Rightarrow> 'id set" where
  "requested s = ran (keyToValue (outstandingRequests s))"

text \<open>The requests use identifiers up to the last one given out, as long as those have not wrapped around.\<close>

definition req_ok :: "('n, 'id, 't, 'd) syncer \<Rightarrow> bool" where
  "req_ok s \<longleftrightarrow> bimap_inv (outstandingRequests s) \<and> (\<forall>n r i. keyToValue (outstandingRequests s) (n, r) = Some i \<longrightarrow> r \<le> requestID s \<and> GetAncestors n r i \<in> set (sent s))"

definition no_wrap :: "('n, 'id, 't, 'd) syncer \<Rightarrow> ('n, 'id, 't, 'd) syncer \<Rightarrow> bool" where
  "no_wrap s s' \<longleftrightarrow> unat (requestID s) + (length (sent s') - length (sent s)) < 2 ^ 32"

lemma fetch_spec:
  assumes "req_ok s" "unat (requestID s) + 1 < 2 ^ 32 \<or> bm_HasValue i (outstandingRequests s)"
  shows "req_ok (fetch E i s)" "requested (fetch E i s) = insert i (requested s)" "s_bs (fetch E i s) = s_bs s"
    "length (sent s) \<le> length (sent (fetch E i s))" "unat (requestID (fetch E i s)) + length (sent s) = unat (requestID s) + length (sent (fetch E i s))"
proof -
  let ?o = "outstandingRequests s"
  have inv: "bimap_inv ?o" using assms(1) by (simp add: req_ok_def)
  consider (old) "bm_HasValue i ?o" | (new) "\<not> bm_HasValue i ?o" "unat (requestID s) + 1 < 2 ^ 32" using assms(2) by blast
  then have "req_ok (fetch E i s) \<and> requested (fetch E i s) = insert i (requested s) \<and> s_bs (fetch E i s) = s_bs s \<and>
    length (sent s) \<le> length (sent (fetch E i s)) \<and> unat (requestID (fetch E i s)) + length (sent s) = unat (requestID s) + length (sent (fetch E i s))"
  proof cases
    case old
    then obtain k where "keyToValue ?o k = Some i" using bimap_invD(1) [OF inv] by (auto simp: bm_HasValue_def)
    then have "i \<in> requested s" unfolding requested_def by (rule ranI)
    then show ?thesis using old assms(1) by (auto simp: fetch_def)
  next
    case new
    define n where "n = (case SelectPeer E (requestID s) of Some nodeID \<Rightarrow> nodeID | None \<Rightarrow> selfID E)"
    let ?k = "(n, requestID s + 1)"
    let ?o' = "snd (bm_Put ?k i ?o)"
    have u: "unat (requestID s + 1) = unat (requestID s) + 1" using new(2) by (simp add: unat_word_ariths)
    have f: "fetch E i s = s\<lparr>requestID := requestID s + 1, outstandingRequests := ?o', sent := sent s @ [GetAncestors n (requestID s + 1) i]\<rparr>"
      using new(1) by (simp add: fetch_def Let_def n_def)
    have fresh: "?k \<notin> dom (keyToValue ?o)"
    proof
      assume "?k \<in> dom (keyToValue ?o)"
      then have "requestID s + 1 \<le> requestID s" using assms(1) by (auto simp: req_ok_def)
      then show False using u by (simp add: word_le_nat_alt)
    qed
    have nv: "keyToValue ?o x \<noteq> Some i" for x using new(1) bimap_invD(1) [OF inv, of x i] by (cases x) (simp add: bm_HasValue_def)
    have o': "keyToValue ?o' = (keyToValue ?o)(?k \<mapsto> i)" using bm_Put_spec(2) [OF inv, of ?k i] nv by (auto simp: fun_eq_iff)
    have r: "requested (fetch E i s) = insert i (requested s)" using fresh unfolding requested_def f by (simp add: o' domIff)
    have le: "r \<le> requestID s + 1" if "r \<le> requestID s" for r using that u by (simp add: word_le_nat_alt)
    have "req_ok (fetch E i s)" using assms(1) bm_Put_spec(1) [OF inv, of ?k i] le unfolding req_ok_def f by (auto simp: o')
    then show ?thesis using r u by (simp add: f)
  qed
  then show "req_ok (fetch E i s)" "requested (fetch E i s) = insert i (requested s)" "s_bs (fetch E i s) = s_bs s"
    "length (sent s) \<le> length (sent (fetch E i s))" "unat (requestID (fetch E i s)) + length (sent s) = unat (requestID s) + length (sent (fetch E i s))" by blast+
qed

text \<open>
  A handler takes a state that holds the blocks \<open>bm\<close> to one that holds \<open>bm'\<close>; the missing identifiers are requested, except
  \<open>X\<close> before and \<open>Y\<close> after it.
\<close>

context database
begin

definition keeps :: "(nat, 't) btree \<Rightarrow> (bytes \<Rightarrow> 'id blk res) \<Rightarrow> 'id blk set \<Rightarrow> uint64 \<Rightarrow>
    (uint64 \<rightharpoonup> bytes) \<Rightarrow> 'id set \<Rightarrow> ('n, 'id, 't, 'd) syncer \<Rightarrow> (uint64 \<rightharpoonup> bytes) \<Rightarrow> 'id set \<Rightarrow> ('n, 'id, 't, 'd) syncer \<Rightarrow> bool" where
  "keeps B parse U la bm X s bm' Y s' \<longleftrightarrow>
     bs_inv B parse U la bm' (s_bs s') \<and> bm \<subseteq>\<^sub>m bm' \<and> length (sent s) \<le> length (sent s') \<and>
     (no_wrap s s' \<longrightarrow> req_ok s \<longrightarrow> missingBlockIDs (s_bs s) \<subseteq> requested s \<union> X \<longrightarrow>
       req_ok s' \<and> missingBlockIDs (s_bs s') \<subseteq> requested s' \<union> Y \<and> unat (requestID s') + length (sent s) = unat (requestID s) + length (sent s'))"

lemma keeps_trans:
  assumes "keeps B parse U la bm X s bm' Y s'" "keeps B parse U la bm' Y s' bm'' Z s''"
  shows "keeps B parse U la bm X s bm'' Z s''"
proof -
  have l: "length (sent s) \<le> length (sent s')" "length (sent s') \<le> length (sent s'')" "bm \<subseteq>\<^sub>m bm''"
    using assms map_le_trans [of bm bm' bm''] by (auto simp: keeps_def)
  have "req_ok s'' \<and> missingBlockIDs (s_bs s'') \<subseteq> requested s'' \<union> Z \<and> unat (requestID s'') + length (sent s) = unat (requestID s) + length (sent s'')"
    if w: "no_wrap s s''" "req_ok s" "missingBlockIDs (s_bs s) \<subseteq> requested s \<union> X"
  proof -
    have "no_wrap s s'" using w(1) l by (simp add: no_wrap_def)
    then have a: "req_ok s'" "missingBlockIDs (s_bs s') \<subseteq> requested s' \<union> Y" "unat (requestID s') + length (sent s) = unat (requestID s) + length (sent s')"
      using assms(1) w(2,3) by (simp_all add: keeps_def)
    have "no_wrap s' s''" using w(1) l a(3) by (simp add: no_wrap_def)
    then show ?thesis using assms(2) a by (auto simp: keeps_def)
  qed
  then show ?thesis using assms(2) l by (simp add: keeps_def)
qed

lemma keeps_self: "bs_inv B parse U la bm (s_bs s) \<Longrightarrow> X \<subseteq> Y \<Longrightarrow> keeps B parse U la bm X s bm Y s"
  by (auto simp: keeps_def)

lemma keeps_fetch:
  assumes "bs_inv B parse U la bm (s_bs s)"
  shows "keeps B parse U la bm (insert i X) s bm X (fetch E i s)"
proof (cases "bm_HasValue i (outstandingRequests s)")
  case True
  have "i \<in> requested s" if "req_ok s" using fetch_spec(2) [OF that, of i E] True by (auto simp: fetch_def)
  then show ?thesis using True assms by (auto simp: keeps_def fetch_def)
next
  case False
  have l: "length (sent (fetch E i s)) = Suc (length (sent s))" "s_bs (fetch E i s) = s_bs s" using False by (simp_all add: fetch_def Let_def)
  have "req_ok (fetch E i s) \<and> missingBlockIDs (s_bs (fetch E i s)) \<subseteq> requested (fetch E i s) \<union> X \<and>
      unat (requestID (fetch E i s)) + length (sent s) = unat (requestID s) + length (sent (fetch E i s))"
    if w: "no_wrap s (fetch E i s)" "req_ok s" "missingBlockIDs (s_bs s) \<subseteq> requested s \<union> insert i X"
  proof -
    have "unat (requestID s) + 1 < 2 ^ 32" using w(1) l(1) by (simp add: no_wrap_def)
    note f = fetch_spec [OF w(2) disjI1 [OF this], where i = i and E = E]
    show ?thesis using f w(3) by auto
  qed
  then show ?thesis using assms l by (simp add: keeps_def)
qed

lemma sync_process_spec:
  assumes B: "btree_ok B" and c: "chain parse U" "ancestors_ok U anc" and s: "bs_inv B parse U (lastAcceptedHeight E) bm (s_bs s)" and blk: "blk \<in> U"
  shows "\<exists>s' bm'. sync_process E B M blk anc s = Some (s', None) \<and> keeps B parse U (lastAcceptedHeight E) bm (insert (blk_ID blk) X) s bm' X s' \<and>
    (lastAcceptedHeight E < Height blk \<longrightarrow> Height blk \<in> dom bm')"
proof -
  from bs_process_spec [OF B c s blk] obtain b r bm' where
    b: "bs_process B M (lastAcceptedHeight E) anc blk (s_bs s) = Some (b, Inr r)" "bs_inv B parse U (lastAcceptedHeight E) bm' b" "bm \<subseteq>\<^sub>m bm'"
      "lastAcceptedHeight E < Height blk \<longrightarrow> Height blk \<in> dom bm'" "missingBlockIDs b \<subseteq> (missingBlockIDs (s_bs s) - {blk_ID blk}) \<union> set_option r" by blast
  let ?s1 = "s\<lparr>s_bs := b\<rparr>"
  have q: "requested ?s1 = requested s" "req_ok ?s1 = req_ok s" by (simp_all add: requested_def req_ok_def)
  have k: "keeps B parse U (lastAcceptedHeight E) bm (insert (blk_ID blk) X) s bm' (set_option r \<union> X) ?s1"
    using b(2,3,5) q by (auto simp: keeps_def)
  show ?thesis
  proof (cases r)
    case None
    then show ?thesis using b(1,4) k by (simp add: sync_process_def) blast
  next
    case (Some i)
    have "keeps B parse U (lastAcceptedHeight E) bm' (insert i X) ?s1 bm' X (fetch E i ?s1)" by (rule keeps_fetch) (use b(2) in simp)
    then show ?thesis using b(1,4) k Some keeps_trans by (fastforce simp: sync_process_def)
  qed
qed

text \<open>Blocks that the virtual machine has are processed, the others requested.\<close>

lemma request_missing_spec:
  assumes v: "\<forall>i x. vm_GetBlock E i = Inr x \<longrightarrow> x \<in> U \<and> blk_ID x = i"
  shows "bs_inv B parse U la bm (s_bs s) \<Longrightarrow> set todo \<subseteq> U \<Longrightarrow> request_missing E is s todo = (todo', s') \<Longrightarrow>
    set todo' \<subseteq> U \<and> bs_inv B parse U la bm (s_bs s') \<and> keeps B parse U la bm (set is \<union> blk_ID ` set todo \<union> X) s bm (blk_ID ` set todo' \<union> X) s'"
proof (induction "is" arbitrary: s todo)
  case Nil
  then show ?case using keeps_self [OF Nil.prems(1)] by auto
next
  case (Cons i "is")
  show ?case
  proof (cases "vm_GetBlock E i")
    case (Inl e)
    have k: "keeps B parse U la bm (insert i (set is \<union> blk_ID ` set todo \<union> X)) s bm (set is \<union> blk_ID ` set todo \<union> X) (fetch E i s)"
      by (rule keeps_fetch [OF Cons.prems(1)])
    then have "bs_inv B parse U la bm (s_bs (fetch E i s))" by (simp add: keeps_def)
    from Cons.IH [OF this Cons.prems(2)] Cons.prems(3) Inl show ?thesis using keeps_trans [OF k] by simp
  next
    case (Inr x)
    then have x: "x \<in> U" "blk_ID x = i" using v by auto
    have "set (todo @ [x]) \<subseteq> U" using Cons.prems(2) x by simp
    from Cons.IH [OF Cons.prems(1) this] Cons.prems(3) Inr x show ?thesis by (simp add: Un_commute Un_left_commute insert_commute)
  qed
qed

lemma process_all_spec:
  assumes B: "btree_ok B" and c: "chain parse U"
  shows "bs_inv B parse U (lastAcceptedHeight E) bm (s_bs s) \<Longrightarrow> set xs \<subseteq> U \<Longrightarrow>
    \<exists>s' bm'. process_all E B M xs s = Some (s', None) \<and> keeps B parse U (lastAcceptedHeight E) bm (blk_ID ` set xs \<union> X) s bm' X s'"
proof (induction xs arbitrary: s bm)
  case Nil
  then show ?case using keeps_self [OF Nil.prems(1), of X X] by auto
next
  case (Cons x xs)
  have a: "ancestors_ok U Map.empty" "x \<in> U" using Cons.prems(2) by (simp_all add: ancestors_ok_def)
  from sync_process_spec [OF B c a(1) Cons.prems(1) a(2), of "blk_ID ` set xs \<union> X"] obtain s1 bm1 where
    s1: "sync_process E B M x Map.empty s = Some (s1, None)" "keeps B parse U (lastAcceptedHeight E) bm (insert (blk_ID x) (blk_ID ` set xs \<union> X)) s bm1 (blk_ID ` set xs \<union> X) s1" by blast
  have "bs_inv B parse U (lastAcceptedHeight E) bm1 (s_bs s1)" "set xs \<subseteq> U" using s1(2) Cons.prems(2) by (simp_all add: keeps_def)
  from Cons.IH [OF this] obtain s' bm' where "process_all E B M xs s1 = Some (s', None)"
    "keeps B parse U (lastAcceptedHeight E) bm1 (blk_ID ` set xs \<union> X) s1 bm' X s'" by blast
  then show ?case using s1 keeps_trans by fastforce
qed

lemma startSyncing_spec:
  assumes B: "btree_ok B" and c: "chain parse U" and v: "\<forall>i x. vm_GetBlock E i = Inr x \<longrightarrow> x \<in> U \<and> blk_ID x = i"
    and s: "bs_inv B parse U (lastAcceptedHeight E) bm (s_bs s)" and o: "valid_ord ord" "finite (missingBlockIDs (s_bs s))" "finite ks" "finite as"
  shows "\<exists>s' bm'. startSyncing ord E B M ks as s = Some (s', None) \<and> keeps B parse U (lastAcceptedHeight E) bm (missingBlockIDs (s_bs s)) s bm' {} s'"
proof -
  let ?b = "bs_addMissing ks as (s_bs s)"
  let ?s1 = "s\<lparr>s_bs := ?b\<rparr>"
  let ?m = "missingBlockIDs ?b"
  have m: "?m = missingBlockIDs (s_bs s) \<union> ks \<union> as" by (simp add: bs_addMissing_def)
  have ordm: "set (ord ?m) = ?m" using valid_ordD(1) [OF o(1)] o(2-4) m by simp
  have b: "bs_inv B parse U (lastAcceptedHeight E) bm (s_bs ?s1)" using s by (auto simp: bs_inv_def bs_addMissing_def)
  have k1: "keeps B parse U (lastAcceptedHeight E) bm (missingBlockIDs (s_bs s)) s bm ?m ?s1"
    using b by (auto simp: keeps_def req_ok_def requested_def)
  obtain todo s2 where r: "request_missing E (ord ?m) ?s1 [] = (todo, s2)" by fastforce
  from request_missing_spec [OF v b _ r, where X = "{}"] have
    k2: "set todo \<subseteq> U" "bs_inv B parse U (lastAcceptedHeight E) bm (s_bs s2)" "keeps B parse U (lastAcceptedHeight E) bm ?m ?s1 bm (blk_ID ` set todo) s2"
    by (simp_all add: ordm)
  let ?s3 = "s2\<lparr>initiallyFetched := tree_Len (bs_tree (s_bs s2))\<rparr>"
  have k3: "keeps B parse U (lastAcceptedHeight E) bm (blk_ID ` set todo) s2 bm (blk_ID ` set todo) ?s3"
    using k2(2) by (auto simp: keeps_def req_ok_def requested_def)
  have "bs_inv B parse U (lastAcceptedHeight E) bm (s_bs ?s3)" using k2(2) by simp
  from process_all_spec [OF B c this k2(1), of "{}"] obtain s' bm' where
    k4: "process_all E B M todo ?s3 = Some (s', None)" "keeps B parse U (lastAcceptedHeight E) bm (blk_ID ` set todo) ?s3 bm' {} s'" by auto
  have "startSyncing ord E B M ks as s = Some (s', None)" using r k4(1) by (simp add: startSyncing_def Let_def)
  moreover have "keeps B parse U (lastAcceptedHeight E) bm (missingBlockIDs (s_bs s)) s bm' {} s'"
    by (rule keeps_trans [OF k1 keeps_trans [OF k2(3) keeps_trans [OF k3 k4(2)]]])
  ultimately show ?thesis by blast
qed

lemma keeps_delete:
  assumes "bs_inv B parse U la bm (s_bs s)" "bm_DeleteKey k (outstandingRequests s) = (Some i, rs)"
  shows "keeps B parse U la bm X s bm (insert i X) (s\<lparr>outstandingRequests := rs\<rparr>)"
proof -
  let ?s = "s\<lparr>outstandingRequests := rs\<rparr>"
  have "req_ok ?s \<and> requested s \<subseteq> insert i (requested ?s)" if "req_ok s"
  proof -
    have inv: "bimap_inv (outstandingRequests s)" using that by (simp add: req_ok_def)
    note d = bm_DeleteKey_spec [OF inv, of k, unfolded assms(2), simplified]
    have "req_ok ?s" using that d by (auto simp: req_ok_def)
    moreover have "j \<in> insert i (requested ?s)" if "j \<in> requested s" for j
    proof -
      obtain k' where k': "keyToValue (outstandingRequests s) k' = Some j" using \<open>j \<in> requested s\<close> by (auto simp: requested_def ran_def)
      then have "keyToValue rs k' = Some j" if "k' \<noteq> k" using d(2) that by simp
      then show ?thesis using d(1) k' ranI [of "keyToValue rs" k' j] by (cases "k' = k") (auto simp: requested_def)
    qed
    ultimately show ?thesis by blast
  qed
  then show ?thesis using assms(1) by (auto simp: keeps_def)
qed

lemma ancestors_fold: "set xs \<subseteq> U \<Longrightarrow> ancestors_ok U anc \<Longrightarrow> ancestors_ok U (foldl (\<lambda>m block. m(blk_ID block \<mapsto> block)) anc xs)"
proof (induction xs arbitrary: anc)
  case (Cons x xs)
  have "ancestors_ok U (anc(blk_ID x \<mapsto> x))" using Cons.prems by (simp add: ancestors_ok_def)
  from Cons.IH [OF _ this] Cons.prems(1) show ?case by simp
qed simp

lemma Ancestors_spec:
  assumes B: "btree_ok B" and c: "chain parse U" and p: "\<forall>bs xs. BatchedParseBlock E bs = Inr xs \<longrightarrow> set xs \<subseteq> U"
    and s: "bs_inv B parse U (lastAcceptedHeight E) bm (s_bs s)"
  shows "\<exists>s' bm'. Ancestors E B M n r blks s = Some (s', None) \<and> keeps B parse U (lastAcceptedHeight E) bm {} s bm' {} s'"
proof (cases "bm_DeleteKey (n, r) (outstandingRequests s)")
  case (Pair wanted rs)
  show ?thesis
  proof (cases wanted)
    case None
    then show ?thesis using Pair keeps_self [OF s, of "{}" "{}"] by (auto simp: Ancestors_def)
  next
    case (Some i)
    let ?s = "s\<lparr>outstandingRequests := rs\<rparr>"
    let ?bs = "if length blks > AncestorsMaxContainersReceived E then take (AncestorsMaxContainersReceived E) blks else blks"
    have d: "keeps B parse U (lastAcceptedHeight E) bm {} s bm {i} ?s" using keeps_delete [OF s] Pair Some by simp
    have b: "bs_inv B parse U (lastAcceptedHeight E) bm (s_bs ?s)" using s by simp
    have f: "keeps B parse U (lastAcceptedHeight E) bm {} s bm {} (fetch E i ?s)" by (rule keeps_trans [OF d keeps_fetch [OF b]])
    have again: ?thesis if "Ancestors E B M n r blks s = Some (fetch E i ?s, None)" using that f by blast
    show ?thesis
    proof (cases "BatchedParseBlock E ?bs")
      case (Inl e)
      show ?thesis by (rule again) (use Inl Pair Some in \<open>auto simp: Ancestors_def Let_def\<close>)
    next
      case (Inr xs)
      show ?thesis
      proof (cases "blks = [] \<or> xs = [] \<or> blk_ID (hd xs) \<noteq> i")
        case True
        show ?thesis by (rule again) (use True Inr Pair Some in \<open>cases xs; auto simp: Ancestors_def Let_def\<close>)
      next
        case False
        then obtain x ys where x: "xs = x # ys" "blk_ID x = i" by (cases xs) auto
        let ?anc = "foldl (\<lambda>m block. m(blk_ID block \<mapsto> block)) Map.empty ys"
        have "set xs \<subseteq> U" using p Inr by blast
        then have U: "x \<in> U" "set ys \<subseteq> U" using x by simp_all
        have a: "ancestors_ok U ?anc" by (rule ancestors_fold [OF U(2)]) (simp add: ancestors_ok_def)
        from sync_process_spec [OF B c a b U(1), of "{}"] obtain s' bm' where
          s': "sync_process E B M x ?anc ?s = Some (s', None)" "keeps B parse U (lastAcceptedHeight E) bm {blk_ID x} ?s bm' {} s'" by auto
        have "Ancestors E B M n r blks s = Some (s', None)" using s'(1) False Inr Pair Some x by (simp add: Ancestors_def Let_def)
        moreover have "keeps B parse U (lastAcceptedHeight E) bm {} s bm' {} s'" using keeps_trans [OF d] s'(2) x(2) by simp
        ultimately show ?thesis by blast
      qed
    qed
  qed
qed

lemma GetAncestorsFailed_spec:
  assumes s: "bs_inv B parse U la bm (s_bs s)"
  shows "\<exists>s'. GetAncestorsFailed E n r s = Some (s', None) \<and> keeps B parse U la bm {} s bm {} s'"
proof (cases "bm_DeleteKey (n, r) (outstandingRequests s)")
  case (Pair wanted rs)
  show ?thesis
  proof (cases wanted)
    case None
    then show ?thesis using Pair keeps_self [OF s, of "{}" "{}"] by (auto simp: GetAncestorsFailed_def)
  next
    case (Some i)
    have d: "keeps B parse U la bm {} s bm {i} (s\<lparr>outstandingRequests := rs\<rparr>)" using keeps_delete [OF s] Pair Some by simp
    have b: "bs_inv B parse U la bm (s_bs (s\<lparr>outstandingRequests := rs\<rparr>))" using s by simp
    from keeps_trans [OF d keeps_fetch [OF b]] show ?thesis using Pair Some by (simp add: GetAncestorsFailed_def)
  qed
qed

end

section \<open>Sequences of messages\<close>

datatype 'n sync_msg = MAncestors 'n "32 word" "bytes list" | MFailed 'n "32 word"

fun sync_run :: "('n, 'id) sync_env \<Rightarrow> (nat, 't) btree \<Rightarrow> ('d, 'b, 'i) Database \<Rightarrow> 'n sync_msg list \<Rightarrow> ('n, 'id, 't, 'd) syncer \<Rightarrow> ('n, 'id, 't, 'd) sync_result" where
  "sync_run E B M [] s = Some (s, None)"
| "sync_run E B M (c # cs) s =
     (case (case c of MAncestors n r blks \<Rightarrow> Ancestors E B M n r blks s | MFailed n r \<Rightarrow> GetAncestorsFailed E n r s) of
        None \<Rightarrow> None | Some (s, Some err) \<Rightarrow> Some (s, Some err) | Some (s, None) \<Rightarrow> sync_run E B M cs s)"

context database
begin

lemma sync_run_spec:
  assumes B: "btree_ok B" and c: "chain parse U" and p: "\<forall>bs xs. BatchedParseBlock E bs = Inr xs \<longrightarrow> set xs \<subseteq> U"
  shows "bs_inv B parse U (lastAcceptedHeight E) bm (s_bs s) \<Longrightarrow>
    \<exists>s' bm'. sync_run E B M cs s = Some (s', None) \<and> keeps B parse U (lastAcceptedHeight E) bm {} s bm' {} s'"
proof (induction cs arbitrary: s bm)
  case Nil
  then show ?case using keeps_self [OF Nil, of "{}" "{}"] by auto
next
  case (Cons c cs)
  have "\<exists>s1 bm1. (case c of MAncestors n r blks \<Rightarrow> Ancestors E B M n r blks s | MFailed n r \<Rightarrow> GetAncestorsFailed E n r s) = Some (s1, None) \<and>
    keeps B parse U (lastAcceptedHeight E) bm {} s bm1 {} s1"
  proof (cases c)
    case (MAncestors n r blks)
    then show ?thesis using Ancestors_spec [OF B \<open>chain parse U\<close> p Cons.prems, of n r blks] by simp
  next
    case (MFailed n r)
    then show ?thesis using GetAncestorsFailed_spec [OF Cons.prems, of E n r] by (simp only: sync_msg.case) blast
  qed
  then obtain s1 bm1 where
    s1: "(case c of MAncestors n r blks \<Rightarrow> Ancestors E B M n r blks s | MFailed n r \<Rightarrow> GetAncestorsFailed E n r s) = Some (s1, None)"
      "keeps B parse U (lastAcceptedHeight E) bm {} s bm1 {} s1" by blast
  then have "bs_inv B parse U (lastAcceptedHeight E) bm1 (s_bs s1)" by (simp add: keeps_def)
  from Cons.IH [OF this] s1 show ?case using keeps_trans by fastforce
qed

end

section \<open>Properties\<close>

definition newSyncer :: "32 word \<Rightarrow> ('id, 't, 'd) bs \<Rightarrow> ('n, 'id, 't, 'd) syncer" where
  "newSyncer startReqID b = \<lparr>s_bs = b, requestID = startReqID, outstandingRequests = bimap_New, initiallyFetched = 0, sent = []\<rparr>"

lemma finite_gaps: "finite (gaps parse bm la)"
proof -
  have "gaps parse bm la \<subseteq> (\<lambda>h. Parent (projr (parse (the (bm h))))) ` UNIV"
  proof
    fix i assume "i \<in> gaps parse bm la"
    then obtain x h b where "i = Parent x" "bm h = Some b" "parse b = Inr x" by (auto simp: gaps_def)
    then show "i \<in> range (\<lambda>h. Parent (projr (parse (the (bm h)))))" by (intro image_eqI [of _ _ h]) simp_all
  qed
  then show ?thesis by (rule finite_subset) simp
qed

text \<open>
  C18. Fetching blocks never gets stuck: after a start from the database, startSyncing with any identifiers, and any
  sequence of Ancestors messages, solicited or not and with whatever blocks that the virtual machine can parse, and of failures, no call
  returns an error, and as long as the 32-bit request identifiers have not wrapped around, every missing block is the subject of
  an outstanding request that has been sent. When no request is outstanding, nothing is missing and the recorded
  heights above the last accepted one have no gap.
\<close>

theorem sync_never_stuck:
  fixes E :: "('n, 'id) sync_env" and B :: "(nat, 't) btree"
  assumes B: "btree_ok B" and o: "valid_ord ord" "valid_ord ordi" and m: "finite (dom m)" "restartable m bm" "known U bm" "chain parse U"
      "lastAcceptedHeight E < MaxUint" "card (dom m) < n"
    and v: "\<forall>i x. vm_GetBlock E i = Inr x \<longrightarrow> x \<in> U \<and> blk_ID x = i" and p: "\<forall>bs xs. BatchedParseBlock E bs = Inr xs \<longrightarrow> set xs \<subseteq> U"
    and f: "finite ks" "finite as"
  shows "\<exists>b0 s1 s. bs_Start B (memdb ord) parse (lastAcceptedHeight E) n (Some m) = Some (Inr b0) \<and>
    startSyncing ordi E B (memdb ord) ks as (newSyncer startReqID b0) = Some (s1, None) \<and> sync_run E B (memdb ord) cs s1 = Some (s, None) \<and>
    (unat startReqID + length (sent s) < 2 ^ 32 \<longrightarrow>
      (\<forall>i \<in> missingBlockIDs (s_bs s). \<exists>nodeID r. keyToValue (outstandingRequests s) (nodeID, r) = Some i \<and> GetAncestors nodeID r i \<in> set (sent s)) \<and>
      (dom (keyToValue (outstandingRequests s)) = {} \<longrightarrow> missingBlockIDs (s_bs s) = {} \<and>
        (\<forall>h h'. tree_Contains B h (bs_tree (s_bs s)) \<longrightarrow> lastAcceptedHeight E < h' \<longrightarrow> h' \<le> h \<longrightarrow> tree_Contains B h' (bs_tree (s_bs s)))))"
proof -
  let ?la = "lastAcceptedHeight E"
  have D: "database (memdb ord) mem_ok id (\<lambda>_. True) bo_queued mi_ok mi_pend" by (rule map_order.memdb_database [OF map_order.intro [OF o(1)]])
  have d: "mem_ok (Some m)" "id (Some m) = Some m" using m(1) by (simp_all add: mem_ok_def)
  from database.bs_Start_spec [OF D B d m(2-6)] obtain b0 where
    b0: "bs_Start B (memdb ord) parse ?la n (Some m) = Some (Inr b0)" "database.bs_inv mem_ok id B parse U ?la bm b0" "missingBlockIDs b0 = gaps parse bm ?la" by blast
  let ?s0 = "newSyncer startReqID b0 :: ('n, 'id, 't, memdb) syncer"
  have s0: "database.bs_inv mem_ok id B parse U ?la bm (s_bs ?s0)" "finite (missingBlockIDs (s_bs ?s0))" using b0(2,3) finite_gaps by (simp_all add: newSyncer_def)
  from database.startSyncing_spec [OF D B m(4) v s0(1) o(2) s0(2) f] obtain s1 bm1 where
    s1: "startSyncing ordi E B (memdb ord) ks as ?s0 = Some (s1, None)" "database.keeps mem_ok id B parse U ?la bm (missingBlockIDs (s_bs ?s0)) ?s0 bm1 {} s1" by blast
  then have i1: "database.bs_inv mem_ok id B parse U ?la bm1 (s_bs s1)" by (simp add: database.keeps_def [OF D])
  from database.sync_run_spec [OF D B m(4) p i1] obtain s bm' where
    s: "sync_run E B (memdb ord) cs s1 = Some (s, None)" "database.keeps mem_ok id B parse U ?la bm1 {} s1 bm' {} s" by blast
  have k: "database.keeps mem_ok id B parse U ?la bm (missingBlockIDs (s_bs ?s0)) ?s0 bm' {} s" by (rule database.keeps_trans [OF D s1(2) s(2)])
  have r0: "req_ok ?s0" by (simp add: req_ok_def newSyncer_def bimap_inv_New) (simp add: bimap_New_def)
  from k obtain m' where m': "consistent B (bs_tree (s_bs s)) m' bm'" "known U bm'" "gaps parse bm' ?la \<subseteq> missingBlockIDs (s_bs s)"
    by (auto simp: database.keeps_def [OF D] database.bs_inv_def [OF D])
  have main: "req_ok s" "missingBlockIDs (s_bs s) \<subseteq> requested s" if "unat startReqID + length (sent s) < 2 ^ 32"
    using k r0 that by (auto simp: database.keeps_def [OF D] no_wrap_def) (auto simp: newSyncer_def)
  have a: "\<exists>nodeID r. keyToValue (outstandingRequests s) (nodeID, r) = Some i \<and> GetAncestors nodeID r i \<in> set (sent s)"
    if "unat startReqID + length (sent s) < 2 ^ 32" "i \<in> missingBlockIDs (s_bs s)" for i
    using main [OF that(1)] that(2) by (fastforce simp: requested_def ran_def req_ok_def)
  have none: "missingBlockIDs (s_bs s) = {}" if "unat startReqID + length (sent s) < 2 ^ 32" "dom (keyToValue (outstandingRequests s)) = {}"
    using main(2) [OF that(1)] that(2) by (simp add: requested_def)
  have t: "tree_Contains B h (bs_tree (s_bs s)) \<longleftrightarrow> h \<in> dom bm'" for h using consistent_Contains [OF B m'(1), of h] by (simp add: domIff)
  have "tree_Contains B h' (bs_tree (s_bs s))" if "missingBlockIDs (s_bs s) = {}" "tree_Contains B h (bs_tree (s_bs s))" "?la < h'" "h' \<le> h" for h h'
    using no_gaps_contiguous [OF m'(2) m(4) _ _ that(3,4)] m'(3) that(1,2) by (simp add: t)
  then show ?thesis using b0(1) s1(1) s(1) a none by blast
qed

definition demo_env :: "(nat, nat) sync_env" where
  "demo_env = \<lparr>SelectPeer = (\<lambda>_. Some 7), selfID = 0, vm_GetBlock = (\<lambda>i. if i = 3 then Inr (demo_blk 3) else Inl ErrNotFound),
     BatchedParseBlock = (\<lambda>bs. Inr (map (\<lambda>b. if b = [4] then demo_blk 4 else demo_blk 5) bs)), AncestorsMaxContainersReceived = 10, lastAcceptedHeight = 2\<rparr>"

theorem sync_never_stuck_witness:
  "\<exists>b0 s1 s. bs_Start list_btree (memdb sorted_list_of_set) demo_parse 2 1 (Some Map.empty) = Some (Inr b0) \<and>
    startSyncing sorted_list_of_set demo_env list_btree (memdb sorted_list_of_set) {3} {5} (newSyncer 0 b0) = Some (s1, None) \<and>
    sync_run demo_env list_btree (memdb sorted_list_of_set) [MFailed 7 1, MAncestors 7 9 [[5]], MAncestors 7 2 [[5], [4]]] s1 = Some (s, None)"
proof -
  let ?U = "{demo_blk 3, demo_blk 4, demo_blk 5}"
  have r: "restartable Map.empty Map.empty" unfolding restartable_def
    by (rule exI [of _ "[]"]) (simp add: ivl_ok_def persisted_def ivmap_def blocks_in_def)
  have c: "chain demo_parse ?U" "known ?U Map.empty" by (auto simp: chain_def known_def demo_parse_def demo_blk_def)
  have o: "valid_ord (sorted_list_of_set :: nat set \<Rightarrow> nat list)" by (simp add: valid_ord_def)
  have l: "lastAcceptedHeight demo_env = 2" by (simp add: demo_env_def)
  have la: "lastAcceptedHeight demo_env < MaxUint" unfolding l by (rule word_succ(2) [of _ 3]) (simp add: word_less_nat_alt)
  have v: "\<forall>i x. vm_GetBlock demo_env i = Inr x \<longrightarrow> x \<in> ?U \<and> blk_ID x = i" by (simp add: demo_env_def demo_blk_def)
  have p: "\<forall>bs xs. BatchedParseBlock demo_env bs = Inr xs \<longrightarrow> set xs \<subseteq> ?U" by (auto simp: demo_env_def)
  have f: "finite (dom (Map.empty :: kv))" "card (dom (Map.empty :: kv)) < 1" "finite {3 :: nat}" "finite {5 :: nat}" by simp_all
  from sync_never_stuck [OF list_btree_ok ascending.valid o f(1) r c(2,1) la f(2) v p f(3,4),
      where startReqID = 0 and cs = "[MFailed 7 1, MAncestors 7 9 [[5]], MAncestors 7 2 [[5], [4]]]"] show ?thesis unfolding l by blast
qed

end
