(* ===== verification/BootstrapRestart.thy ===== *)
theory BootstrapRestart
  imports BootstrapProofs Syncing
begin

text \<open>
  The end of a round of bootstrapping: tryStartExecuting, restartBootstrapping and Timeout of
  default/snow/engine/snowman/bootstrap/bootstrapper.go. What the engine does next (start another round, wait for
  the timeout, call onFinished) is the outcome of the call. \<open>halted\<close> is the answer of Halted after execute, \<open>IsBootstrapped\<close> the
  one of the subnet's tracker; the last accepted block, which the code adds to the text of an error, is left out.
\<close>

section \<open>Model\<close>

datatype outcome = OWait | OError go_error | OHalted | ORestart | OAwait | OFinished

record ('n, 'id, 't, 'd) boot =
  b_sync :: "('n, 'id, 't, 'd) syncer"
  normalOp :: bool
  awaitingTimeout :: bool
  restarted :: bool
  executedStateTransitions :: uint64
  bootstrappedOnce :: bool

definition MaxInt :: uint64 where
  "MaxInt = of_nat (2 ^ 63 - 1)"

definition errUnexpectedTimeout :: go_error where
  "errUnexpectedTimeout = Err ''unexpected timeout fired''"

definition newBoot :: "('n, 'id, 't, 'd) syncer \<Rightarrow> ('n, 'id, 't, 'd) boot" where
  "newBoot s = \<lparr>b_sync = s, normalOp = False, awaitingTimeout = False, restarted = False, executedStateTransitions = MaxInt, bootstrappedOnce = False\<rparr>"

definition restartBootstrapping :: "('n, 'id, 't, 'd) boot \<Rightarrow> ('n, 'id, 't, 'd) boot" where
  "restartBootstrapping b = b\<lparr>restarted := True, b_sync := (b_sync b)\<lparr>outstandingRequests := bimap_New\<rparr>\<rparr>"

definition tryStartExecuting :: "(nat, 't) btree \<Rightarrow> ('d, 'b, 'i) Database \<Rightarrow> ('id, 'v) vm \<Rightarrow> uint64 \<Rightarrow> (nat \<Rightarrow> bool) \<Rightarrow> nat \<Rightarrow> bool \<Rightarrow> bool \<Rightarrow>
    ('n, 'id, 't, 'd) boot \<Rightarrow> 'v \<Rightarrow> (('n, 'id, 't, 'd) boot \<times> 'v \<times> outcome) option" where
  "tryStartExecuting B M V lastAcc halt n halted IsBootstrapped b v =
     (if card (missingBlockIDs (s_bs (b_sync b))) \<noteq> 0 then Some (b, v, OWait)
      else if normalOp b \<or> awaitingTimeout b then Some (b, v, OWait)
      else let bs = s_bs (b_sync b); numToExecute = tree_Len (bs_tree bs) in
        case execute B M V lastAcc halt n (bs_tree bs) (bs_DB bs) v of
          None \<Rightarrow> None
        | Some (e, err) \<Rightarrow>
            let b = b\<lparr>b_sync := (b_sync b)\<lparr>s_bs := bs\<lparr>bs_DB := e_db e, bs_tree := e_tree e\<rparr>\<rparr>\<rparr>; v = e_vm e in
            case err of
              Some err \<Rightarrow> Some (b, v, OError err)
            | None \<Rightarrow>
                if halted then Some (b, v, OHalted)
                else let previouslyExecuted = executedStateTransitions b; b = b\<lparr>executedStateTransitions := numToExecute\<rparr> in
                  if numToExecute > 0 \<and> numToExecute < previouslyExecuted div 2 then Some (restartBootstrapping b, v, ORestart)
                  else let b = b\<lparr>bootstrappedOnce := True\<rparr> in
                    if \<not> IsBootstrapped then Some (b\<lparr>awaitingTimeout := True\<rparr>, v, OAwait)
                    else Some (b, v, OFinished))"

definition Timeout :: "bool \<Rightarrow> ('n, 'id, 't, 'd) boot \<Rightarrow> ('n, 'id, 't, 'd) boot \<times> outcome" where
  "Timeout IsBootstrapped b =
     (if \<not> awaitingTimeout b then (b, OError errUnexpectedTimeout)
      else let b = b\<lparr>awaitingTimeout := False\<rparr> in
        if \<not> IsBootstrapped then (restartBootstrapping b, ORestart) else (b, OFinished))"

section \<open>Rounds\<close>

text \<open>
  From the state \<open>b\<close>, \<open>k\<close> rounds in a row end with a restart. Between two rounds everything but executedStateTransitions may change.
\<close>

inductive rounds :: "(nat, 't) btree \<Rightarrow> ('d, 'b, 'i) Database \<Rightarrow> ('id, 'v) vm \<Rightarrow> ('n, 'id, 't, 'd) boot \<Rightarrow> nat \<Rightarrow> bool" for B M V where
  none: "rounds B M V b 0"
| round: "tryStartExecuting B M V lastAcc halt n halted IsBootstrapped b v = Some (b', v', ORestart) \<Longrightarrow>
    executedStateTransitions b'' = executedStateTransitions b' \<Longrightarrow> rounds B M V b'' k \<Longrightarrow> rounds B M V b (Suc k)"

lemma restart_halves:
  assumes "tryStartExecuting B M V lastAcc halt n halted IsBootstrapped b v = Some (b', v', ORestart)"
  shows "0 < executedStateTransitions b'" "executedStateTransitions b' < executedStateTransitions b div 2" "awaitingTimeout b' = awaitingTimeout b"
    "outstandingRequests (b_sync b') = bimap_New" "restarted b'" "executedStateTransitions b' = tree_Len (bs_tree (s_bs (b_sync b)))"
  using assms by (auto simp: tryStartExecuting_def Let_def restartBootstrapping_def split: if_splits option.splits prod.splits)

lemma restart_when:
  assumes "missingBlockIDs (s_bs (b_sync b)) = {}" "\<not> normalOp b" "\<not> awaitingTimeout b"
    "execute B M V lastAcc halt n (bs_tree (s_bs (b_sync b))) (bs_DB (s_bs (b_sync b))) v = Some (e, None)"
    "0 < tree_Len (bs_tree (s_bs (b_sync b)))" "tree_Len (bs_tree (s_bs (b_sync b))) < executedStateTransitions b div 2"
  shows "\<exists>b'. tryStartExecuting B M V lastAcc halt n False IsBootstrapped b v = Some (b', e_vm e, ORestart)"
  using assms by (simp add: tryStartExecuting_def Let_def)

lemma rounds_bound: "rounds B M V b k \<Longrightarrow> k \<noteq> 0 \<Longrightarrow> 3 * 2 ^ k \<le> unat (executedStateTransitions b) + 2"
proof (induction rule: rounds.induct)
  case (round lastAcc halt n halted IsBootstrapped b v b' v' b'' k)
  let ?x = "unat (executedStateTransitions b)" and ?x' = "unat (executedStateTransitions b')"
  have "0 < ?x'" "?x' < ?x div 2" using restart_halves(1,2) [OF round.hyps(1)] by (simp_all add: word_less_nat_alt unat_div)
  then have s: "2 * ?x' + 2 \<le> ?x" "1 \<le> ?x'" by linarith+
  show ?case
  proof (cases "k = 0")
    case False
    then have "3 * 2 ^ k \<le> ?x' + 2" using round.IH round.hyps(2) by simp
    then show ?thesis using s by simp
  qed (use s in simp)
qed simp

text \<open>
  C19. The rule that a round must execute less than half of what the round before did, and at least one block, ends the
  restarts: from the initial value at most 61 rounds in a row restart, whatever is fetched and executed in between.
\<close>

theorem restarts_bounded:
  assumes "rounds B M V b k" "executedStateTransitions b = executedStateTransitions (newBoot s)"
  shows "k \<le> 61"
proof (rule ccontr)
  assume "\<not> k \<le> 61"
  then have "62 \<le> k" by simp
  then have "(2 :: nat) ^ 62 \<le> 2 ^ k" by (rule power_increasing) simp
  moreover have "3 * 2 ^ k \<le> unat (executedStateTransitions (newBoot s)) + 2" using rounds_bound [OF assms(1)] assms(2) \<open>62 \<le> k\<close> by simp
  moreover have "unat (executedStateTransitions (newBoot s)) = 2 ^ 63 - 1" by (simp add: newBoot_def MaxInt_def)
  ultimately show False by simp
qed

text \<open>A round that executes one block and restarts.\<close>

theorem restarts_bounded_witness: "\<exists>b k. rounds list_btree (memdb sorted_list_of_set)
    \<lparr>ParseBlock = demo_parse, Verify = (\<lambda>x v. (v, None)), Accept = (\<lambda>x v. (v @ [Height x], None))\<rparr> (b :: (nat, nat, nat list, memdb) boot) k \<and> k = 1 \<and> k \<le> 61"
proof -
  let ?V = "\<lparr>ParseBlock = demo_parse, Verify = (\<lambda>x v. (v, None)), Accept = (\<lambda>x v. (v @ [Height x], None))\<rparr> :: (nat, uint64 list) vm"
  have D: "database (memdb sorted_list_of_set) mem_ok id (\<lambda>_. True) bo_queued mi_ok mi_pend" by (rule map_order.memdb_database [OF ascending.map_order_axioms])
  have bm: "[3 \<mapsto> [3]] = foldl (iv_spec 0) Map.empty [IAdd 3 [3]]" by (auto simp: word_le_nat_alt)
  have e: "mem_ok mem_New" "id mem_New = Some Map.empty" by (simp_all add: mem_ok_def mem_New_def)
  from database.iv_run_database [OF D list_btree_ok e consistent_empty [OF list_btree_ok] bm] obtain t m where
    m: "mem_ok (Some m)" "consistent list_btree t m [3 \<mapsto> [3]]" by auto
  have p: "\<forall>h b. [3 \<mapsto> [3]] h = Some b \<longrightarrow> ParseBlock ?V b = Inr (demo_blk (unat h)) \<and> Height (demo_blk (unat h)) = h"
    by (auto simp: demo_parse_def demo_blk_def split: if_splits)
  have c: "card (dom [3 \<mapsto> [3]]) < 4" "id (Some m) = Some m" by simp_all
  from database.execute_spec [OF D list_btree_ok p m(1) c(2) m(2) c(1), of 0 "\<lambda>_. False" "[]"] obtain ex err hs1 where
    x: "execute list_btree (memdb sorted_list_of_set) ?V 0 (\<lambda>_. False) 4 t (Some m) [] = Some (ex, err)"
      "accept_all ?V 0 (map (\<lambda>h :: uint64. demo_blk (unat h)) hs1) [] = (e_vm ex, err)" by blast
  have "snd (accept_all ?V 0 xs v) = None" for xs v by (induction xs arbitrary: v) (auto simp: accept_block_def)
  then have err: "err = None" using x(2) by (metis snd_conv)
  have len: "tree_Len t = 1" using tree_Len_card [of list_btree t] m(2) by (simp add: consistent_def)
  let ?s = "newSyncer 0 \<lparr>bs_DB = Some m, bs_tree = t, missingBlockIDs = {}, startingHeight = 0, tipHeight = 0\<rparr> :: (nat, nat, nat list, memdb) syncer"
  have "MaxInt div 2 = (of_nat (2 ^ 62 - 1) :: uint64)" by (simp add: MaxInt_def)
  then have h: "(1 :: uint64) < MaxInt div 2" by (simp add: word_less_nat_alt)
  have e: "\<exists>b'. tryStartExecuting list_btree (memdb sorted_list_of_set) ?V 0 (\<lambda>_. False) 4 False True (newBoot ?s) [] = Some (b', e_vm ex, ORestart)"
    by (rule restart_when) (use x(1) err len h in \<open>simp_all add: newBoot_def newSyncer_def\<close>)
  have r: "rounds list_btree (memdb sorted_list_of_set) ?V (newBoot ?s) (Suc 0)" by (rule exE [OF e]) (rule rounds.round [OF _ refl rounds.none])
  then show ?thesis using restarts_bounded [OF r refl] by (intro exI [of _ "newBoot ?s"] exI [of _ 1]) simp
qed

end
