(* ===== verification/BootstrapPolls.thy ===== *)
theory BootstrapPolls
  imports SafeMath
begin

text \<open>
  default/snow/consensus/snowman/bootstrapper: the polls with which a bootstrapping node finds blocks to start from. Minority collects
  every answer, Majority the blocks that more than half of the weight reports as accepted. \<open>ordn\<close> and \<open>ordb\<close> are the
  orders in which Go ranges over sets and maps of nodes and of blocks; log messages are left out.
\<close>

section \<open>Model\<close>

record 'n requests =
  maxOutstanding :: int
  pendingSend :: "'n set"
  outstanding :: "'n set"

text \<open>Pop takes the first element of a range over the set.\<close>

fun pop_nodes :: "('n set \<Rightarrow> 'n list) \<Rightarrow> nat \<Rightarrow> 'n requests \<Rightarrow> 'n set \<Rightarrow> 'n set \<times> 'n requests" where
  "pop_nodes ordn 0 r nodeIDs = (nodeIDs, r)"
| "pop_nodes ordn (Suc i) r nodeIDs =
     (case ordn (pendingSend r) of
        [] \<Rightarrow> (nodeIDs, r)
      | nodeID # _ \<Rightarrow> pop_nodes ordn i (r\<lparr>pendingSend := pendingSend r - {nodeID}\<rparr>) (insert nodeID nodeIDs))"

definition GetPeers :: "('n set \<Rightarrow> 'n list) \<Rightarrow> 'n requests \<Rightarrow> 'n set \<times> 'n requests" where
  "GetPeers ordn r =
     (let numPending = int (card (outstanding r)) in
      if numPending \<ge> maxOutstanding r then ({}, r)
      else let numToSend = min (maxOutstanding r - numPending) (int (card (pendingSend r))) in
        case pop_nodes ordn (nat numToSend) r {} of
          (nodeIDs, r) \<Rightarrow> (nodeIDs, r\<lparr>outstanding := outstanding r \<union> nodeIDs\<rparr>))"

definition recordResponse :: "'n \<Rightarrow> 'n requests \<Rightarrow> bool \<times> 'n requests" where
  "recordResponse nodeID r = (nodeID \<in> outstanding r, r\<lparr>outstanding := outstanding r - {nodeID}\<rparr>)"

definition finished :: "'n requests \<Rightarrow> bool" where
  "finished r \<longleftrightarrow> card (pendingSend r) = 0 \<and> card (outstanding r) = 0"

record ('n, 'b) minority =
  min_requests :: "'n requests"
  receivedSet :: "'b set"
  min_received :: "'b list"

definition NewMinority :: "'n set \<Rightarrow> int \<Rightarrow> ('n, 'b) minority" where
  "NewMinority frontierNodes maxOut =
     \<lparr>min_requests = \<lparr>maxOutstanding = maxOut, pendingSend = frontierNodes, outstanding = {}\<rparr>, receivedSet = {}, min_received = []\<rparr>"

definition min_RecordOpinion :: "('b set \<Rightarrow> 'b list) \<Rightarrow> 'n \<Rightarrow> 'b set \<Rightarrow> ('n, 'b) minority \<Rightarrow> ('n, 'b) minority \<times> go_error option" where
  "min_RecordOpinion ordb nodeID blkIDs m =
     (case recordResponse nodeID (min_requests m) of
        (False, r) \<Rightarrow> (m\<lparr>min_requests := r\<rparr>, None)
      | (True, r) \<Rightarrow>
          let m = m\<lparr>min_requests := r, receivedSet := receivedSet m \<union> blkIDs\<rparr> in
          if \<not> finished r then (m, None) else (m\<lparr>min_received := ordb (receivedSet m)\<rparr>, None))"

definition min_Result :: "('n, 'b) minority \<Rightarrow> 'b list \<times> bool" where
  "min_Result m = (min_received m, finished (min_requests m))"

record ('n, 'b) majority =
  maj_requests :: "'n requests"
  nodeWeights :: "'n \<rightharpoonup> uint64"
  maj_received :: "'b \<rightharpoonup> uint64"
  maj_accepted :: "'b list"

definition NewMajority :: "('n \<rightharpoonup> uint64) \<Rightarrow> int \<Rightarrow> ('n, 'b) majority" where
  "NewMajority weights maxOut =
     \<lparr>maj_requests = \<lparr>maxOutstanding = maxOut, pendingSend = dom weights, outstanding = {}\<rparr>, nodeWeights = weights,
      maj_received = Map.empty, maj_accepted = []\<rparr>"

text \<open>A map gives zero for a key it does not have.\<close>

definition get0 :: "('k \<rightharpoonup> uint64) \<Rightarrow> 'k \<Rightarrow> uint64" where
  "get0 m k = (case m k of None \<Rightarrow> 0 | Some w \<Rightarrow> w)"

fun add_weight :: "uint64 \<Rightarrow> 'b list \<Rightarrow> ('b \<rightharpoonup> uint64) \<Rightarrow> ('b \<rightharpoonup> uint64) \<times> go_error option" where
  "add_weight weight [] received = (received, None)"
| "add_weight weight (blkID # blkIDs) received =
     (case SafeMath.Add (get0 received blkID) weight of
        Inl err \<Rightarrow> (received, Some err)
      | Inr newWeight \<Rightarrow> add_weight weight blkIDs (received(blkID \<mapsto> newWeight)))"

fun total_weight :: "('n \<rightharpoonup> uint64) \<Rightarrow> 'n list \<Rightarrow> uint64 \<Rightarrow> uint64 res" where
  "total_weight weights [] totalWeight = Inr totalWeight"
| "total_weight weights (n # ns) totalWeight =
     (case SafeMath.Add totalWeight (get0 weights n) of Inl err \<Rightarrow> Inl err | Inr totalWeight \<Rightarrow> total_weight weights ns totalWeight)"

definition maj_RecordOpinion :: "('n set \<Rightarrow> 'n list) \<Rightarrow> ('b set \<Rightarrow> 'b list) \<Rightarrow> 'n \<Rightarrow> 'b set \<Rightarrow> ('n, 'b) majority \<Rightarrow>
    ('n, 'b) majority \<times> go_error option" where
  "maj_RecordOpinion ordn ordb nodeID blkIDs m =
     (case recordResponse nodeID (maj_requests m) of
        (False, r) \<Rightarrow> (m\<lparr>maj_requests := r\<rparr>, None)
      | (True, r) \<Rightarrow>
          let m = m\<lparr>maj_requests := r\<rparr>; weight = get0 (nodeWeights m) nodeID in
          case add_weight weight (ordb blkIDs) (maj_received m) of
            (received, Some err) \<Rightarrow> (m\<lparr>maj_received := received\<rparr>, Some err)
          | (received, None) \<Rightarrow>
              let m = m\<lparr>maj_received := received\<rparr> in
              if \<not> finished r then (m, None)
              else case total_weight (nodeWeights m) (ordn (dom (nodeWeights m))) 0 of
                Inl err \<Rightarrow> (m, Some err)
              | Inr totalWeight \<Rightarrow>
                  let requiredWeight = totalWeight div 2 + 1 in
                  (m\<lparr>maj_accepted := maj_accepted m @ filter (\<lambda>blkID. get0 received blkID \<ge> requiredWeight) (ordb (dom received))\<rparr>, None))"

definition maj_Result :: "('n, 'b) majority \<Rightarrow> 'b list \<times> bool" where
  "maj_Result m = (maj_accepted m, finished (maj_requests m))"

section \<open>Requests\<close>

text \<open>The nodes \<open>N\<close> of a poll are waiting to be asked, asked, or have answered (\<open>A\<close>).\<close>

definition req_inv :: "'n set \<Rightarrow> 'n set \<Rightarrow> 'n requests \<Rightarrow> bool" where
  "req_inv N A r \<longleftrightarrow> finite N \<and> pendingSend r \<union> outstanding r \<union> A = N \<and> pendingSend r \<inter> outstanding r = {} \<and>
     (pendingSend r \<union> outstanding r) \<inter> A = {} \<and> int (card (outstanding r)) \<le> max 0 (maxOutstanding r)"

lemma req_inv_finite: "req_inv N A r \<Longrightarrow> finite (pendingSend r) \<and> finite (outstanding r) \<and> finite A"
  by (auto simp: req_inv_def)

lemma finished_iff: "req_inv N A r \<Longrightarrow> finished r \<longleftrightarrow> A = N"
  using req_inv_finite [of N A r] by (auto simp: finished_def req_inv_def)

lemma pop_nodes_spec:
  assumes o: "valid_ord ordn"
  shows "finite (pendingSend r) \<Longrightarrow> i \<le> card (pendingSend r) \<Longrightarrow>
    \<exists>P. pop_nodes ordn i r acc = (acc \<union> P, r\<lparr>pendingSend := pendingSend r - P\<rparr>) \<and> P \<subseteq> pendingSend r \<and> card P = i"
proof (induction i arbitrary: r acc)
  case (Suc i)
  obtain n ns where n: "ordn (pendingSend r) = n # ns" using valid_ordD(1) [OF o Suc.prems(1)] Suc.prems(2) by (cases "ordn (pendingSend r)") auto
  then have m: "n \<in> pendingSend r" using valid_ordD(1) [OF o Suc.prems(1)] by auto
  then have "i \<le> card (pendingSend r - {n})" using Suc.prems by (simp add: card_Diff_singleton)
  with Suc.IH [of "r\<lparr>pendingSend := pendingSend r - {n}\<rparr>" "insert n acc"] Suc.prems(1) obtain P where
    P: "pop_nodes ordn i (r\<lparr>pendingSend := pendingSend r - {n}\<rparr>) (insert n acc) = (insert n acc \<union> P, r\<lparr>pendingSend := pendingSend r - {n} - P\<rparr>)"
      "P \<subseteq> pendingSend r - {n}" "card P = i" by auto
  have "finite P" using P(2) Suc.prems(1) by (meson finite_Diff finite_subset)
  then have "card (insert n P) = Suc i" using P(2,3) by (subst card_insert_disjoint) auto
  moreover have "pendingSend r - {n} - P = pendingSend r - insert n P" by auto
  ultimately show ?case using P n m by (intro exI [of _ "insert n P"]) auto
qed (auto intro: exI [of _ "{}"])

lemma GetPeers_spec:
  assumes o: "valid_ord ordn" and i: "req_inv N A r"
  shows "\<exists>P. GetPeers ordn r = (P, r\<lparr>pendingSend := pendingSend r - P, outstanding := outstanding r \<union> P\<rparr>) \<and> P \<subseteq> pendingSend r \<and>
    req_inv N A (snd (GetPeers ordn r)) \<and> (maxOutstanding r > 0 \<longrightarrow> \<not> finished r \<longrightarrow> P \<noteq> {} \<or> outstanding r \<noteq> {})"
proof (cases "int (card (outstanding r)) \<ge> maxOutstanding r")
  case True
  then have "GetPeers ordn r = ({}, r)" by (simp add: GetPeers_def)
  then show ?thesis using i True by auto
next
  case False
  note f = req_inv_finite [OF i]
  let ?n = "nat (min (maxOutstanding r - int (card (outstanding r))) (int (card (pendingSend r))))"
  have "?n \<le> card (pendingSend r)" by linarith
  then obtain P where P: "pop_nodes ordn ?n r {} = (P, r\<lparr>pendingSend := pendingSend r - P\<rparr>)" "P \<subseteq> pendingSend r" "card P = ?n"
    using pop_nodes_spec [OF o, of r ?n "{}"] f by auto
  have g: "GetPeers ordn r = (P, r\<lparr>pendingSend := pendingSend r - P, outstanding := outstanding r \<union> P\<rparr>)"
    using False P(1) by (simp add: GetPeers_def Let_def)
  have "finite P" using P(2) f by (meson finite_subset)
  moreover have "outstanding r \<inter> P = {}" using i P(2) by (auto simp: req_inv_def)
  ultimately have "int (card (outstanding r \<union> P)) = int (card (outstanding r)) + int ?n" using f P(3) by (simp add: card_Un_disjoint)
  also have "\<dots> \<le> maxOutstanding r" using False by linarith
  finally have c: "int (card (outstanding r \<union> P)) \<le> maxOutstanding r" .
  have "req_inv N A (snd (GetPeers ordn r))" unfolding g using i P(2) c by (auto simp: req_inv_def)
  moreover have "P \<noteq> {} \<or> outstanding r \<noteq> {}" if "\<not> finished r"
  proof (rule ccontr)
    assume "\<not> (P \<noteq> {} \<or> outstanding r \<noteq> {})"
    then have "card P = 0" "outstanding r = {}" by auto
    then have "card (pendingSend r) = 0" using P(3) False by auto
    then show False using that \<open>outstanding r = {}\<close> by (simp add: finished_def)
  qed
  ultimately show ?thesis using g P(2) by auto
qed

lemma recordResponse_spec:
  assumes "req_inv N A r"
  shows "req_inv N (if n \<in> outstanding r then insert n A else A) (snd (recordResponse n r))"
proof -
  have "card (outstanding r - {n}) \<le> card (outstanding r)" using req_inv_finite [OF assms] by (simp add: card_mono)
  then show ?thesis using assms by (auto simp: req_inv_def recordResponse_def)
qed

section \<open>Minority\<close>

text \<open>A minority poll collects every block that a node it asked named in its first answer (\<open>ans\<close>).\<close>

definition min_inv :: "'n set \<Rightarrow> ('n \<rightharpoonup> 'b set) \<Rightarrow> ('n, 'b) minority \<Rightarrow> bool" where
  "min_inv N ans m \<longleftrightarrow> req_inv N (dom ans) (min_requests m) \<and> finite (receivedSet m) \<and> receivedSet m = \<Union> (ran ans) \<and>
     set (min_received m) = (if dom ans = N then receivedSet m else {})"

lemma min_inv_New: "finite N \<Longrightarrow> min_inv N Map.empty (NewMinority N k)"
  by (simp add: min_inv_def NewMinority_def req_inv_def)

lemma min_RecordOpinion_spec:
  assumes o: "valid_ord ordb" and i: "min_inv N ans m" and bl: "finite bl"
    and ans': "ans' = (if n \<in> outstanding (min_requests m) then ans(n \<mapsto> bl) else ans)"
  shows "\<exists>m'. min_RecordOpinion ordb n bl m = (m', None) \<and> min_inv N ans' m'"
proof (cases "n \<in> outstanding (min_requests m)")
  case False
  then have "recordResponse n (min_requests m) = (False, min_requests m)" by (simp add: recordResponse_def)
  then show ?thesis using False i ans' by (simp add: min_RecordOpinion_def)
next
  case True
  obtain r where rr: "recordResponse n (min_requests m) = (True, r)" using True by (simp add: recordResponse_def)
  have q: "req_inv N (dom ans) (min_requests m)" using i by (simp add: min_inv_def)
  have n: "n \<notin> dom ans" using True q by (auto simp: req_inv_def)
  have "n \<in> N" using True q by (auto simp: req_inv_def)
  then have nN: "dom ans \<noteq> N" using n by blast
  have r: "req_inv N (dom ans') r" using recordResponse_spec [OF q, of n] True rr ans' by simp
  have u: "\<Union> (ran ans') = receivedSet m \<union> bl" using i n True ans' by (simp add: min_inv_def domIff Un_commute)
  have f: "finite (receivedSet m \<union> bl)" using i bl by (metis finite_UnI min_inv_def)
  have e: "min_received m = []" using i nN by (simp add: min_inv_def)
  show ?thesis using rr r u f e finished_iff [OF r] valid_ordD(1) [OF o f] by (auto simp: min_RecordOpinion_def min_inv_def Let_def)
qed

section \<open>Weights\<close>

text \<open>The weight of the nodes that reported a block, over the natural numbers.\<close>

definition reports :: "('n \<rightharpoonup> uint64) \<Rightarrow> ('n \<rightharpoonup> 'b set) \<Rightarrow> 'b \<Rightarrow> nat" where
  "reports w ans b = (\<Sum>n \<in> {n \<in> dom ans. b \<in> the (ans n)}. unat (get0 w n))"

definition weight_of :: "('n \<rightharpoonup> uint64) \<Rightarrow> nat" where
  "weight_of w = (\<Sum>n \<in> dom w. unat (get0 w n))"

lemma reports_add:
  assumes "finite (dom ans)" "n \<notin> dom ans"
  shows "reports w (ans(n \<mapsto> bl)) b = reports w ans b + (if b \<in> bl then unat (get0 w n) else 0)"
proof -
  have e: "{x \<in> dom (ans(n \<mapsto> bl)). b \<in> the ((ans(n \<mapsto> bl)) x)} = {x \<in> dom ans. b \<in> the (ans x)} \<union> (if b \<in> bl then {n} else {})"
    using assms(2) by auto
  have "n \<notin> {x \<in> dom ans. b \<in> the (ans x)}" "finite {x \<in> dom ans. b \<in> the (ans x)}" using assms by auto
  then show ?thesis unfolding reports_def e by simp
qed

lemma reports_bound:
  assumes "finite (dom w)" "dom ans \<subseteq> dom w" "n \<in> dom w - dom ans"
  shows "reports w ans b + unat (get0 w n) \<le> weight_of w"
proof -
  have "reports w ans b \<le> (\<Sum>x \<in> dom w - {n}. unat (get0 w x))" unfolding reports_def
    using assms by (intro sum_mono2) auto
  then show ?thesis using assms(1,3) by (simp add: weight_of_def sum.remove [of "dom w" n])
qed

lemma Add_fits: "unat a + unat (b :: uint64) < 2 ^ 64 \<Longrightarrow> SafeMath.Add a b = Inr (a + b) \<and> unat (a + b) = unat a + unat b"
  using Add_guard [of b a] by (simp add: SafeMath.Add_def unat_word_ariths)

lemma add_weight_spec:
  "distinct bs \<Longrightarrow> \<forall>b \<in> set bs. unat (get0 rec b) + unat weight < 2 ^ 64 \<Longrightarrow>
    \<exists>rec'. add_weight weight bs rec = (rec', None) \<and> dom rec' = dom rec \<union> set bs \<and>
      (\<forall>b. unat (get0 rec' b) = unat (get0 rec b) + (if b \<in> set bs then unat weight else 0))"
proof (induction bs arbitrary: rec)
  case (Cons b bs)
  note a = Add_fits [of "get0 rec b" weight]
  let ?rec = "rec(b \<mapsto> get0 rec b + weight)"
  have g: "get0 ?rec x = (if x = b then get0 rec b + weight else get0 rec x)" for x by (simp add: get0_def)
  have "\<forall>x \<in> set bs. unat (get0 ?rec x) + unat weight < 2 ^ 64" using Cons.prems by (auto simp: g)
  moreover have "distinct bs" using Cons.prems(1) by simp
  ultimately obtain rec' where r: "add_weight weight bs ?rec = (rec', None)" "dom rec' = dom ?rec \<union> set bs"
    "\<forall>b. unat (get0 rec' b) = unat (get0 ?rec b) + (if b \<in> set bs then unat weight else 0)" using Cons.IH [of ?rec] by blast
  then show ?case using a Cons.prems by (auto simp: g)
qed simp

lemma total_weight_spec:
  "distinct ns \<Longrightarrow> unat t + (\<Sum>n \<in> set ns. unat (get0 w n)) < 2 ^ 64 \<Longrightarrow>
    \<exists>t'. total_weight w ns t = Inr t' \<and> unat t' = unat t + (\<Sum>n \<in> set ns. unat (get0 w n))"
proof (induction ns arbitrary: t)
  case (Cons n ns)
  have "unat t + unat (get0 w n) < 2 ^ 64" using Cons.prems by simp
  note a = Add_fits [OF this]
  then have "unat (t + get0 w n) + (\<Sum>n \<in> set ns. unat (get0 w n)) < 2 ^ 64" using Cons.prems by simp
  with Cons.IH [of "t + get0 w n"] a Cons.prems(1) show ?case by auto
qed simp

lemma required_weight: "(a :: uint64) \<ge> t div 2 + 1 \<longleftrightarrow> unat t < 2 * unat a"
proof -
  have "unat t div 2 + 1 < 2 ^ 64" using unat_bound [of t] by simp
  then have "unat (t div 2 + 1) = unat t div 2 + 1" by (simp add: unat_word_ariths unat_div)
  then show ?thesis by (simp add: word_le_nat_alt) linarith
qed

section \<open>Runs\<close>

datatype ('n, 'b) poll_op = PGetPeers | POpinion 'n "'b set"

text \<open>A run of a majority poll, with the answers that it counted.\<close>

fun maj_run :: "('n set \<Rightarrow> 'n list) \<Rightarrow> ('b set \<Rightarrow> 'b list) \<Rightarrow> ('n, 'b) poll_op list \<Rightarrow> ('n, 'b) majority \<times> ('n \<rightharpoonup> 'b set) \<Rightarrow>
    (('n, 'b) majority \<times> ('n \<rightharpoonup> 'b set)) \<times> go_error option" where
  "maj_run ordn ordb [] s = (s, None)"
| "maj_run ordn ordb (PGetPeers # cs) (m, ans) = maj_run ordn ordb cs (m\<lparr>maj_requests := snd (GetPeers ordn (maj_requests m))\<rparr>, ans)"
| "maj_run ordn ordb (POpinion n bl # cs) (m, ans) =
     (let ans = (if n \<in> outstanding (maj_requests m) then ans(n \<mapsto> bl) else ans) in
      case maj_RecordOpinion ordn ordb n bl m of (m, Some err) \<Rightarrow> ((m, ans), Some err) | (m, None) \<Rightarrow> maj_run ordn ordb cs (m, ans))"

definition maj_inv :: "('n \<rightharpoonup> uint64) \<Rightarrow> int \<Rightarrow> ('n \<rightharpoonup> 'b set) \<Rightarrow> ('n, 'b) majority \<Rightarrow> bool" where
  "maj_inv w k ans m \<longleftrightarrow> nodeWeights m = w \<and> maxOutstanding (maj_requests m) = k \<and> req_inv (dom w) (dom ans) (maj_requests m) \<and> finite (dom (maj_received m)) \<and>
     (\<forall>b. unat (get0 (maj_received m) b) = reports w ans b) \<and> distinct (maj_accepted m) \<and>
     set (maj_accepted m) = (if dom ans = dom w then {b. weight_of w < 2 * reports w ans b} else {})"

lemma maj_GetPeers:
  assumes "valid_ord ordn" "maj_inv w k ans m"
  shows "maj_inv w k ans (m\<lparr>maj_requests := snd (GetPeers ordn (maj_requests m))\<rparr>)"
proof -
  have "req_inv (dom w) (dom ans) (maj_requests m)" using assms(2) by (simp add: maj_inv_def)
  from GetPeers_spec [OF assms(1) this] obtain P where
    "GetPeers ordn (maj_requests m) = (P, (maj_requests m)\<lparr>pendingSend := pendingSend (maj_requests m) - P, outstanding := outstanding (maj_requests m) \<union> P\<rparr>)"
    "req_inv (dom w) (dom ans) (snd (GetPeers ordn (maj_requests m)))" by blast
  then show ?thesis using assms(2) by (simp add: maj_inv_def)
qed

lemma maj_RecordOpinion_spec:
  assumes o: "valid_ord ordn" "valid_ord ordb" and i: "maj_inv w k ans m" and w: "weight_of w < 2 ^ 64" and bl: "finite bl"
    and ans'_def: "ans' = (if n \<in> outstanding (maj_requests m) then ans(n \<mapsto> bl) else ans)"
  shows "\<exists>m'. maj_RecordOpinion ordn ordb n bl m = (m', None) \<and> maj_inv w k ans' m'"
proof (cases "n \<in> outstanding (maj_requests m)")
  case False
  then have "recordResponse n (maj_requests m) = (False, maj_requests m)" by (simp add: recordResponse_def)
  then show ?thesis using False i by (simp add: maj_RecordOpinion_def ans'_def)
next
  case True
  have m: "nodeWeights m = w" "req_inv (dom w) (dom ans) (maj_requests m)" "finite (dom (maj_received m))" "\<forall>b. unat (get0 (maj_received m) b) = reports w ans b"
    "maxOutstanding (maj_requests m) = k" using i by (simp_all add: maj_inv_def)
  obtain r where rr: "recordResponse n (maj_requests m) = (True, r)" using True by (simp add: recordResponse_def)
  have a': "ans' = ans(n \<mapsto> bl)" and n: "n \<in> dom w - dom ans" "dom ans \<subseteq> dom w" and f: "finite (dom w)" "finite (dom ans)"
    using True m(2) req_inv_finite [OF m(2)] by (auto simp: ans'_def req_inv_def)
  have r: "req_inv (dom w) (dom ans') r" using recordResponse_spec [OF m(2), of n] True rr by (simp add: a')
  have k: "maxOutstanding r = k" using rr m(5) by (auto simp: recordResponse_def)
  have "dom ans \<noteq> dom w" using n by auto
  then have acc: "maj_accepted m = []" using i by (simp add: maj_inv_def)
  have "\<forall>b \<in> set (ordb bl). unat (get0 (maj_received m) b) + unat (get0 w n) < 2 ^ 64"
    using reports_bound [OF f(1) n(2,1)] w m(4) by (metis le_less_trans)
  from add_weight_spec [OF valid_ordD(2) [OF o(2) bl] this] obtain rec where
    rec: "add_weight (get0 w n) (ordb bl) (maj_received m) = (rec, None)" "dom rec = dom (maj_received m) \<union> bl"
      "\<forall>b. unat (get0 rec b) = unat (get0 (maj_received m) b) + (if b \<in> bl then unat (get0 w n) else 0)"
    using valid_ordD(1) [OF o(2) bl] by auto
  have rep: "unat (get0 rec b) = reports w ans' b" for b using rec(3) m(4) n(1) reports_add [OF f(2), of n w bl b] by (auto simp: a')
  have fr: "finite (dom rec)" using rec(2) m(3) bl by simp
  show ?thesis
  proof (cases "finished r")
    case False
    then have "dom ans' \<noteq> dom w" using finished_iff [OF r] by simp
    then have "maj_inv w k ans' (m\<lparr>maj_requests := r, maj_received := rec\<rparr>)" using r k fr rep m(1) acc by (simp add: maj_inv_def)
    then show ?thesis using rr rec(1) False m(1) by (simp add: maj_RecordOpinion_def Let_def)
  next
    case True
    then have d: "dom ans' = dom w" using finished_iff [OF r] by simp
    obtain t where t: "total_weight w (ordn (dom w)) 0 = Inr t" "unat t = weight_of w"
      using total_weight_spec [OF valid_ordD(2) [OF o(1) f(1)], of 0 w] valid_ordD(1) [OF o(1) f(1)] w by (auto simp: weight_of_def)
    let ?acc = "filter (\<lambda>b. get0 rec b \<ge> t div 2 + 1) (ordb (dom rec))"
    have "\<exists>y. rec b = Some y" if "weight_of w < 2 * reports w ans' b" for b using rep [of b] that by (cases "rec b") (auto simp: get0_def)
    then have "set ?acc = {b. weight_of w < 2 * reports w ans' b}" using valid_ordD(1) [OF o(2) fr] rep t(2) by (auto simp: required_weight)
    moreover have "distinct ?acc" using valid_ordD(2) [OF o(2) fr] by simp
    ultimately have "maj_inv w k ans' (m\<lparr>maj_requests := r, maj_received := rec, maj_accepted := ?acc\<rparr>)"
      using r k fr rep m(1) d by (simp add: maj_inv_def)
    then show ?thesis using rr rec(1) True m(1) t(1) acc by (simp add: maj_RecordOpinion_def Let_def)
  qed
qed

lemma maj_run_spec:
  assumes o: "valid_ord ordn" "valid_ord ordb" and w: "weight_of w < 2 ^ 64"
  shows "maj_inv w k ans m \<Longrightarrow> \<forall>n bl. POpinion n bl \<in> set cs \<longrightarrow> finite bl \<Longrightarrow>
    \<exists>m' ans'. maj_run ordn ordb cs (m, ans) = ((m', ans'), None) \<and> maj_inv w k ans' m' \<and>
      (\<forall>n bl. ans' n = Some bl \<longrightarrow> ans n = Some bl \<or> POpinion n bl \<in> set cs)"
proof (induction cs arbitrary: m ans)
  case (Cons c cs)
  show ?case
  proof (cases c)
    case PGetPeers
    from Cons.IH [OF maj_GetPeers [OF o(1) Cons.prems(1)]] Cons.prems(2) obtain m' ans' where
      "maj_run ordn ordb cs (m\<lparr>maj_requests := snd (GetPeers ordn (maj_requests m))\<rparr>, ans) = ((m', ans'), None)" "maj_inv w k ans' m'"
      "\<forall>n bl. ans' n = Some bl \<longrightarrow> ans n = Some bl \<or> POpinion n bl \<in> set cs" by auto
    then show ?thesis using PGetPeers by auto
  next
    case (POpinion n bl)
    let ?ans = "if n \<in> outstanding (maj_requests m) then ans(n \<mapsto> bl) else ans"
    have "finite bl" using Cons.prems(2) POpinion by simp
    from maj_RecordOpinion_spec [OF o Cons.prems(1) w this refl, of n] obtain m1 where
      m1: "maj_RecordOpinion ordn ordb n bl m = (m1, None)" "maj_inv w k ?ans m1" by blast
    from Cons.IH [OF m1(2)] Cons.prems(2) obtain m' ans' where
      r: "maj_run ordn ordb cs (m1, ?ans) = ((m', ans'), None)" "maj_inv w k ans' m'"
        "\<forall>x bl'. ans' x = Some bl' \<longrightarrow> ?ans x = Some bl' \<or> POpinion x bl' \<in> set cs" by auto
    have "ans' x = Some bl' \<longrightarrow> ans x = Some bl' \<or> POpinion x bl' \<in> set (c # cs)" for x bl'
      using spec [OF spec [OF r(3), of x], of bl'] POpinion by (auto split: if_splits)
    then show ?thesis using r(1,2) m1(1) POpinion by (auto simp: Let_def)
  qed
qed simp

section \<open>Properties\<close>

text \<open>
  C20. A majority poll over nodes whose weights add up to less than \<open>2^64\<close>, under every sequence of GetPeers and of answers,
  expected or not: no call fails, at most \<open>k\<close> requests are outstanding, only the first answer of a node that was asked counts,
  and while the result is not final some node is waited for or can be asked. The result is final when every node has
  answered, and then consists of the blocks reported by more than half of the total weight, each once.
\<close>

theorem majority_counts_weight:
  fixes cs :: "('n, 'b) poll_op list"
  assumes "valid_ord ordn" "valid_ord ordb" "finite (dom w)" "weight_of w < 2 ^ 64" "\<forall>n bl. POpinion n bl \<in> set cs \<longrightarrow> finite bl"
  shows "\<exists>m ans. maj_run ordn ordb cs (NewMajority w k, Map.empty) = ((m, ans), None) \<and>
    (\<forall>n bl. ans n = Some bl \<longrightarrow> n \<in> dom w \<and> POpinion n bl \<in> set cs) \<and> int (card (outstanding (maj_requests m))) \<le> max 0 k \<and>
    (snd (maj_Result m) \<longleftrightarrow> dom ans = dom w) \<and>
    (snd (maj_Result m) \<longrightarrow> distinct (fst (maj_Result m)) \<and> set (fst (maj_Result m)) = {b. weight_of w < 2 * reports w ans b}) \<and>
    (0 < k \<longrightarrow> \<not> snd (maj_Result m) \<longrightarrow> outstanding (maj_requests m) \<noteq> {} \<or> fst (GetPeers ordn (maj_requests m)) \<noteq> {})"
proof -
  have "maj_inv w k Map.empty (NewMajority w k :: ('n, 'b) majority)"
    using assms(3) by (auto simp: maj_inv_def NewMajority_def req_inv_def reports_def get0_def)
  from maj_run_spec [OF assms(1,2,4) this assms(5)] obtain m ans where
    r: "maj_run ordn ordb cs (NewMajority w k, Map.empty) = ((m, ans), None)" "maj_inv w k ans m" "\<forall>n bl. ans n = Some bl \<longrightarrow> POpinion n bl \<in> set cs" by auto
  have i: "req_inv (dom w) (dom ans) (maj_requests m)" "maxOutstanding (maj_requests m) = k" using r(2) by (simp_all add: maj_inv_def)
  have d: "dom ans \<subseteq> dom w" "int (card (outstanding (maj_requests m))) \<le> max 0 k" using i by (auto simp: req_inv_def)
  have f: "snd (maj_Result m) \<longleftrightarrow> dom ans = dom w" using finished_iff [OF i(1)] by (simp add: maj_Result_def)
  have "0 < k \<longrightarrow> \<not> snd (maj_Result m) \<longrightarrow> outstanding (maj_requests m) \<noteq> {} \<or> fst (GetPeers ordn (maj_requests m)) \<noteq> {}"
    using GetPeers_spec [OF assms(1) i(1)] i(2) by (auto simp: maj_Result_def)
  moreover have "snd (maj_Result m) \<longrightarrow> distinct (fst (maj_Result m)) \<and> set (fst (maj_Result m)) = {b. weight_of w < 2 * reports w ans b}"
    using r(2) f by (simp add: maj_inv_def) (simp add: maj_Result_def)
  ultimately show ?thesis using r(1,3) d f by blast
qed

theorem majority_counts_weight_witness:
  "\<exists>m ans. maj_run sorted_list_of_set sorted_list_of_set [POpinion 1 {9}, PGetPeers, POpinion 1 {7}, POpinion 1 {8}, PGetPeers, POpinion 2 {7, 8}]
      (NewMajority [1 \<mapsto> 3, 2 \<mapsto> 4] 1 :: (nat, nat) majority, Map.empty) = ((m, ans), None) \<and> ans = [1 \<mapsto> {7}, 2 \<mapsto> {7, 8}] \<and> set (fst (maj_Result m)) = {7, 8}"
proof -
  have o: "valid_ord (sorted_list_of_set :: nat set \<Rightarrow> nat list)" by (simp add: valid_ord_def)
  let ?w = "[1 \<mapsto> 3, 2 \<mapsto> 4] :: nat \<rightharpoonup> uint64"
  let ?cs = "[POpinion 1 {9}, PGetPeers, POpinion 1 {7}, POpinion 1 {8}, PGetPeers, POpinion 2 {7, 8}] :: (nat, nat) poll_op list"
  have w: "weight_of ?w = 7" "finite (dom ?w)" by (simp_all add: weight_of_def get0_def)
  have f: "\<forall>n bl. POpinion n bl \<in> set ?cs \<longrightarrow> finite bl" by auto
  from majority_counts_weight [OF o o w(2) _ f, of 1] w(1) obtain m ans where
    r: "maj_run sorted_list_of_set sorted_list_of_set ?cs (NewMajority ?w 1, Map.empty) = ((m, ans), None)"
      "snd (maj_Result m) \<longleftrightarrow> dom ans = dom ?w" "snd (maj_Result m) \<longrightarrow> set (fst (maj_Result m)) = {b. weight_of ?w < 2 * reports ?w ans b}" by auto
  let ?R = "\<lambda>P Q. \<lparr>maxOutstanding = 1, pendingSend = P, outstanding = Q\<rparr> :: nat requests"
  let ?M = "\<lambda>P Q r. \<lparr>maj_requests = ?R P Q, nodeWeights = ?w, maj_received = r, maj_accepted = []\<rparr> :: (nat, nat) majority"
  have g: "GetPeers sorted_list_of_set (?R {1, 2} {}) = ({1}, ?R {2} {1})" "GetPeers sorted_list_of_set (?R {2} {}) = ({2}, ?R {} {2})"
    by (auto simp: GetPeers_def)
  have n: "NewMajority ?w 1 = ?M {1, 2} {} Map.empty" by (auto simp: NewMajority_def)
  have p: "maj_RecordOpinion sorted_list_of_set sorted_list_of_set 1 {9} (?M {1, 2} {} r) = (?M {1, 2} {} r, None)"
    "maj_RecordOpinion sorted_list_of_set sorted_list_of_set 1 {8} (?M {2} {} r) = (?M {2} {} r, None)" for r
    by (simp_all add: maj_RecordOpinion_def recordResponse_def)
  have q: "maj_RecordOpinion sorted_list_of_set sorted_list_of_set 1 {7} (?M {2} {1} Map.empty) = (?M {2} {} [7 \<mapsto> 3], None)"
    by (simp add: maj_RecordOpinion_def recordResponse_def finished_def get0_def SafeMath.Add_def Let_def)
  obtain m2 where m2: "maj_RecordOpinion sorted_list_of_set sorted_list_of_set 2 {7, 8} (?M {} {2} [7 \<mapsto> 3]) = (m2, None)"
    by (simp add: maj_RecordOpinion_def recordResponse_def finished_def get0_def SafeMath.Add_def MaxUint_def Let_def)
  have a: "ans = [1 \<mapsto> {7}, 2 \<mapsto> {7, 8}]" using r(1) by (simp add: n g p q m2 Let_def del: One_nat_def)
  have "{n \<in> dom ans. b \<in> the (ans n)} = (if b = 7 then {1, 2} else if b = 8 then {2} else {})" for b unfolding a by auto
  then have "reports ?w ans b = (if b = 7 then 7 else if b = 8 then 4 else 0)" for b unfolding reports_def by (simp add: get0_def)
  then show ?thesis using r a w(1) by auto
qed

end
