(* ===== verification/Packer.thy ===== *)
theory Packer
  imports ByteOrder "HOL-Library.Monad_Syntax"
begin

text \<open>
  default/utils/wrappers/packing.go and errors.go: packing values into a byte array and unpacking them. The array behind the slice
  \<^verbatim>\<open>Bytes\<close> may be longer than the slice; \<open>spare\<close> is the rest of it, whose length is \<^verbatim>\<open>cap - len\<close>. \<open>grow\<close> gives the spare
  capacity that \<^verbatim>\<open>append\<close> chooses. An access at a negative offset panics (None).
\<close>

section \<open>Model\<close>

record Packer =
  p_Err :: "go_error option"
  MaxSize :: int
  Bytes :: bytes
  spare :: bytes
  Offset :: int

definition ErrInsufficientLength :: go_error where
  "ErrInsufficientLength = Err ''packer has insufficient length for input''"
definition errNegativeOffset :: go_error where
  "errNegativeOffset = Err ''negative offset''"
definition errInvalidInput :: go_error where
  "errInvalidInput = Err ''input does not match expected format''"
definition errBadBool :: go_error where
  "errBadBool = Err ''unexpected value when unpacking bool''"
definition errOversized :: go_error where
  "errOversized = Err ''size is larger than limit''"

definition MaxStringLen :: nat where
  "MaxStringLen = 65535"

definition StringLen :: "bytes \<Rightarrow> nat" where
  "StringLen str = 2 + length str"

definition Errored :: "Packer \<Rightarrow> bool" where
  "Errored p \<longleftrightarrow> p_Err p \<noteq> None"

definition add_err :: "go_error \<Rightarrow> Packer \<Rightarrow> Packer" where
  "add_err err p = (if p_Err p = None then p\<lparr>p_Err := Some err\<rparr> else p)"

definition checkSpace :: "int \<Rightarrow> Packer \<Rightarrow> Packer" where
  "checkSpace n p =
     (if Offset p < 0 then add_err errNegativeOffset p
      else if n < 0 then add_err errInvalidInput p
      else if int (length (Bytes p)) - Offset p < n then add_err ErrInsufficientLength p
      else p)"

definition expand :: "(nat \<Rightarrow> nat) \<Rightarrow> nat \<Rightarrow> Packer \<Rightarrow> Packer" where
  "expand grow n p =
     (let neededSize = int n + Offset p; len = int (length (Bytes p)); capacity = len + int (length (spare p)) in
      if neededSize \<le> len then p
      else if neededSize > MaxSize p then p\<lparr>p_Err := Some ErrInsufficientLength\<rparr>
      else if neededSize \<le> capacity
        then p\<lparr>Bytes := Bytes p @ take (nat (neededSize - len)) (spare p), spare := drop (nat (neededSize - len)) (spare p)\<rparr>
      else p\<lparr>Bytes := Bytes p @ spare p @ replicate (nat (neededSize - capacity)) 0, spare := replicate (grow (nat neededSize)) 0\<rparr>)"

text \<open>\<^verbatim>\<open>copy(p.Bytes[p.Offset:], data); p.Offset += len(data)\<close>, when the slice is long enough.\<close>

definition put_at :: "bytes \<Rightarrow> Packer \<Rightarrow> Packer option" where
  "put_at data p =
     (if Offset p < 0 then None
      else Some (p\<lparr>Bytes := take (nat (Offset p)) (Bytes p) @ data @ drop (nat (Offset p) + length data) (Bytes p), Offset := Offset p + int (length data)\<rparr>))"

definition PackByte :: "(nat \<Rightarrow> nat) \<Rightarrow> byte \<Rightarrow> Packer \<Rightarrow> Packer option" where
  "PackByte grow val p = (let p = expand grow 1 p in if Errored p then Some p else put_at [val] p)"

definition UnpackByte :: "Packer \<Rightarrow> byte \<times> Packer" where
  "UnpackByte p =
     (let p = checkSpace 1 p in
      if Errored p then (0, p) else (Bytes p ! nat (Offset p), p\<lparr>Offset := Offset p + 1\<rparr>))"

definition PackShort :: "(nat \<Rightarrow> nat) \<Rightarrow> 16 word \<Rightarrow> Packer \<Rightarrow> Packer option" where
  "PackShort grow val p = (let p = expand grow 2 p in if Errored p then Some p else put_at (PutUint 2 val) p)"

definition UnpackShort :: "Packer \<Rightarrow> 16 word \<times> Packer" where
  "UnpackShort p =
     (let p = checkSpace 2 p in
      if Errored p then (0, p) else (Uint 2 (drop (nat (Offset p)) (Bytes p)), p\<lparr>Offset := Offset p + 2\<rparr>))"

definition PackInt :: "(nat \<Rightarrow> nat) \<Rightarrow> 32 word \<Rightarrow> Packer \<Rightarrow> Packer option" where
  "PackInt grow val p = (let p = expand grow 4 p in if Errored p then Some p else put_at (PutUint 4 val) p)"

definition UnpackInt :: "Packer \<Rightarrow> 32 word \<times> Packer" where
  "UnpackInt p =
     (let p = checkSpace 4 p in
      if Errored p then (0, p) else (Uint 4 (drop (nat (Offset p)) (Bytes p)), p\<lparr>Offset := Offset p + 4\<rparr>))"

definition PackLong :: "(nat \<Rightarrow> nat) \<Rightarrow> uint64 \<Rightarrow> Packer \<Rightarrow> Packer option" where
  "PackLong grow val p = (let p = expand grow 8 p in if Errored p then Some p else put_at (PutUint 8 val) p)"

definition UnpackLong :: "Packer \<Rightarrow> uint64 \<times> Packer" where
  "UnpackLong p =
     (let p = checkSpace 8 p in
      if Errored p then (0, p) else (Uint 8 (drop (nat (Offset p)) (Bytes p)), p\<lparr>Offset := Offset p + 8\<rparr>))"

definition PackBool :: "(nat \<Rightarrow> nat) \<Rightarrow> bool \<Rightarrow> Packer \<Rightarrow> Packer option" where
  "PackBool grow b p = (if b then PackByte grow 1 p else PackByte grow 0 p)"

definition UnpackBool :: "Packer \<Rightarrow> bool \<times> Packer" where
  "UnpackBool p = (case UnpackByte p of (b, p) \<Rightarrow> if b = 0 then (False, p) else if b = 1 then (True, p) else (False, add_err errBadBool p))"

definition PackFixedBytes :: "(nat \<Rightarrow> nat) \<Rightarrow> bytes \<Rightarrow> Packer \<Rightarrow> Packer option" where
  "PackFixedBytes grow bs p = (let p = expand grow (length bs) p in if Errored p then Some p else put_at bs p)"

definition UnpackFixedBytes :: "int \<Rightarrow> Packer \<Rightarrow> bytes \<times> Packer" where
  "UnpackFixedBytes n p =
     (let p = checkSpace n p in
      if Errored p then ([], p) else (take (nat n) (drop (nat (Offset p)) (Bytes p)), p\<lparr>Offset := Offset p + n\<rparr>))"

definition PackBytes :: "(nat \<Rightarrow> nat) \<Rightarrow> bytes \<Rightarrow> Packer \<Rightarrow> Packer option" where
  "PackBytes grow bs p = PackInt grow (of_nat (length bs)) p \<bind> PackFixedBytes grow bs"

definition UnpackBytes :: "Packer \<Rightarrow> bytes \<times> Packer" where
  "UnpackBytes p = (case UnpackInt p of (n, p) \<Rightarrow> UnpackFixedBytes (uint n) p)"

definition UnpackLimitedBytes :: "32 word \<Rightarrow> Packer \<Rightarrow> bytes \<times> Packer" where
  "UnpackLimitedBytes limit p =
     (case UnpackInt p of (n, p) \<Rightarrow> if n > limit then ([], add_err errOversized p) else UnpackFixedBytes (uint n) p)"

definition PackStr :: "(nat \<Rightarrow> nat) \<Rightarrow> bytes \<Rightarrow> Packer \<Rightarrow> Packer option" where
  "PackStr grow str p =
     (if length str > MaxStringLen then Some (add_err errInvalidInput p)
      else PackShort grow (of_nat (length str)) p \<bind> PackFixedBytes grow str)"

definition UnpackStr :: "Packer \<Rightarrow> bytes \<times> Packer" where
  "UnpackStr p = (case UnpackShort p of (n, p) \<Rightarrow> UnpackFixedBytes (uint n) p)"

definition UnpackLimitedStr :: "16 word \<Rightarrow> Packer \<Rightarrow> bytes \<times> Packer" where
  "UnpackLimitedStr limit p =
     (case UnpackShort p of (n, p) \<Rightarrow> if n > limit then ([], add_err errOversized p) else UnpackFixedBytes (uint n) p)"

section \<open>Sequences of values\<close>

datatype pval = PByte byte | PShort "16 word" | PInt "32 word" | PLong uint64 | PBool bool | PFixed bytes | PBytes bytes | PStr bytes

fun pack_val :: "(nat \<Rightarrow> nat) \<Rightarrow> pval \<Rightarrow> Packer \<Rightarrow> Packer option" where
  "pack_val grow (PByte b) = PackByte grow b"
| "pack_val grow (PShort w) = PackShort grow w"
| "pack_val grow (PInt w) = PackInt grow w"
| "pack_val grow (PLong w) = PackLong grow w"
| "pack_val grow (PBool b) = PackBool grow b"
| "pack_val grow (PFixed bs) = PackFixedBytes grow bs"
| "pack_val grow (PBytes bs) = PackBytes grow bs"
| "pack_val grow (PStr s) = PackStr grow s"

text \<open>Unpacking a value of the same kind, and of the same length for fixed bytes.\<close>

fun unpack_val :: "pval \<Rightarrow> Packer \<Rightarrow> pval \<times> Packer" where
  "unpack_val (PByte _) p = apfst PByte (UnpackByte p)"
| "unpack_val (PShort _) p = apfst PShort (UnpackShort p)"
| "unpack_val (PInt _) p = apfst PInt (UnpackInt p)"
| "unpack_val (PLong _) p = apfst PLong (UnpackLong p)"
| "unpack_val (PBool _) p = apfst PBool (UnpackBool p)"
| "unpack_val (PFixed bs) p = apfst PFixed (UnpackFixedBytes (int (length bs)) p)"
| "unpack_val (PBytes _) p = apfst PBytes (UnpackBytes p)"
| "unpack_val (PStr _) p = apfst PStr (UnpackStr p)"

fun pack_all :: "(nat \<Rightarrow> nat) \<Rightarrow> pval list \<Rightarrow> Packer \<Rightarrow> Packer option" where
  "pack_all grow [] p = Some p"
| "pack_all grow (v # vs) p = pack_val grow v p \<bind> pack_all grow vs"

fun unpack_all :: "pval list \<Rightarrow> Packer \<Rightarrow> pval list \<times> Packer" where
  "unpack_all [] p = ([], p)"
| "unpack_all (v # vs) p = (case unpack_val v p of (x, p) \<Rightarrow> apfst (Cons x) (unpack_all vs p))"

text \<open>The wire format.\<close>

fun encode :: "pval \<Rightarrow> bytes" where
  "encode (PByte b) = [b]"
| "encode (PShort w) = PutUint 2 w"
| "encode (PInt w) = PutUint 4 w"
| "encode (PLong w) = PutUint 8 w"
| "encode (PBool b) = [if b then 1 else 0]"
| "encode (PFixed bs) = bs"
| "encode (PBytes bs) = PutUint 4 (of_nat (length bs) :: 32 word) @ bs"
| "encode (PStr s) = PutUint 2 (of_nat (length s) :: 16 word) @ s"

fun fits :: "pval \<Rightarrow> bool" where
  "fits (PBytes bs) \<longleftrightarrow> length bs < 2 ^ 32"
| "fits (PStr s) \<longleftrightarrow> length s \<le> MaxStringLen"
| "fits _ \<longleftrightarrow> True"

text \<open>A packer that has written \<open>bs\<close> and nothing after it.\<close>

definition written :: "int \<Rightarrow> bytes \<Rightarrow> Packer \<Rightarrow> bool" where
  "written limit bs p \<longleftrightarrow> p_Err p = None \<and> MaxSize p = limit \<and> Bytes p = bs \<and> Offset p = int (length bs)"

definition pack_raw :: "(nat \<Rightarrow> nat) \<Rightarrow> bytes \<Rightarrow> Packer \<Rightarrow> Packer option" where
  "pack_raw grow data p = (let p = expand grow (length data) p in if Errored p then Some p else put_at data p)"

lemma pack_raw_eqs:
  "PackByte grow b p = pack_raw grow [b] p" "PackShort grow w2 p = pack_raw grow (PutUint 2 w2) p" "PackInt grow w4 p = pack_raw grow (PutUint 4 w4) p"
  "PackLong grow w8 p = pack_raw grow (PutUint 8 w8) p" "PackFixedBytes grow bs p = pack_raw grow bs p"
  by (simp_all add: PackByte_def PackShort_def PackInt_def PackLong_def PackFixedBytes_def pack_raw_def PutUint_def Let_def)

lemma pack_raw_written:
  assumes "written limit bs p"
  shows "int (length bs + length data) \<le> limit \<Longrightarrow> \<exists>p'. pack_raw grow data p = Some p' \<and> written limit (bs @ data) p'"
    "limit < int (length bs + length data) \<Longrightarrow> data \<noteq> [] \<Longrightarrow> \<exists>p'. pack_raw grow data p = Some p' \<and> p_Err p' = Some ErrInsufficientLength \<and> Bytes p' = bs"
proof -
  show "\<exists>p'. pack_raw grow data p = Some p' \<and> written limit (bs @ data) p'" if "int (length bs + length data) \<le> limit"
    using assms that by (auto simp: pack_raw_def expand_def put_at_def written_def Errored_def Let_def)
  show "\<exists>p'. pack_raw grow data p = Some p' \<and> p_Err p' = Some ErrInsufficientLength \<and> Bytes p' = bs" if "limit < int (length bs + length data)" "data \<noteq> []"
    using assms that by (auto simp: pack_raw_def expand_def written_def Errored_def Let_def)
qed

lemma pack_raw_errored:
  assumes "p_Err p = Some ErrInsufficientLength"
  shows "\<exists>p'. pack_raw grow data p = Some p' \<and> p_Err p' = Some ErrInsufficientLength"
  using assms by (auto simp: pack_raw_def expand_def Errored_def Let_def)

lemma pack_two:
  assumes "written limit bs p" "d1 \<noteq> []"
  shows "int (length bs + length (d1 @ d2)) \<le> limit \<Longrightarrow> \<exists>p'. (pack_raw grow d1 p \<bind> pack_raw grow d2) = Some p' \<and> written limit (bs @ d1 @ d2) p'"
    "limit < int (length bs + length (d1 @ d2)) \<Longrightarrow> \<exists>p'. (pack_raw grow d1 p \<bind> pack_raw grow d2) = Some p' \<and> p_Err p' = Some ErrInsufficientLength"
proof -
  assume l: "int (length bs + length (d1 @ d2)) \<le> limit"
  then obtain p1 where p1: "pack_raw grow d1 p = Some p1" "written limit (bs @ d1) p1" using pack_raw_written(1) [OF assms(1), of d1 grow] by auto
  from pack_raw_written(1) [OF p1(2), of d2 grow] l p1(1) show "\<exists>p'. (pack_raw grow d1 p \<bind> pack_raw grow d2) = Some p' \<and> written limit (bs @ d1 @ d2) p'" by auto
next
  assume l: "limit < int (length bs + length (d1 @ d2))"
  show "\<exists>p'. (pack_raw grow d1 p \<bind> pack_raw grow d2) = Some p' \<and> p_Err p' = Some ErrInsufficientLength"
  proof (cases "int (length bs + length d1) \<le> limit")
    case True
    then obtain p1 where p1: "pack_raw grow d1 p = Some p1" "written limit (bs @ d1) p1" using pack_raw_written(1) [OF assms(1)] by blast
    have "d2 \<noteq> []" using l True by auto
    with pack_raw_written(2) [OF p1(2), of d2 grow] l p1(1) show ?thesis by auto
  next
    case False
    then obtain p1 where p1: "pack_raw grow d1 p = Some p1" "p_Err p1 = Some ErrInsufficientLength" using pack_raw_written(2) [OF assms(1) _ assms(2)] by force
    then show ?thesis using pack_raw_errored by simp
  qed
qed

lemma pack_val_raw:
  assumes "fits v"
  shows "(\<exists>d. pack_val grow v = pack_raw grow d \<and> encode v = d) \<or>
    (\<exists>d1 d2. (\<forall>p. pack_val grow v p = pack_raw grow d1 p \<bind> pack_raw grow d2) \<and> encode v = d1 @ d2 \<and> d1 \<noteq> [])"
proof -
  have ne: "PutUint 4 w \<noteq> []" "PutUint 2 w' \<noteq> []" for w :: "32 word" and w' :: "16 word" by (simp_all add: PutUint_def flip: length_0_conv)
  have f: "PackFixedBytes grow bs = pack_raw grow bs" for bs by (simp add: fun_eq_iff pack_raw_eqs)
  show ?thesis
  proof (cases v)
    case (PBytes bs)
    then have "pack_val grow v p = pack_raw grow (PutUint 4 (of_nat (length bs) :: 32 word)) p \<bind> pack_raw grow bs" for p
      by (simp add: PackBytes_def pack_raw_eqs(3) f)
    then show ?thesis using PBytes ne(1) by (metis encode.simps(7))
  next
    case (PStr str)
    then have "pack_val grow v p = pack_raw grow (PutUint 2 (of_nat (length str) :: 16 word)) p \<bind> pack_raw grow str" for p
      using assms by (simp add: PackStr_def pack_raw_eqs(2) f)
    then show ?thesis using PStr ne(2) by (metis encode.simps(8))
  qed (auto simp: fun_eq_iff pack_raw_eqs PackBool_def)
qed

lemma pack_val_written:
  assumes w: "written limit bs p" "int (length bs) \<le> limit" and v: "fits v"
  shows "int (length bs + length (encode v)) \<le> limit \<Longrightarrow> \<exists>p'. pack_val grow v p = Some p' \<and> written limit (bs @ encode v) p'"
    "limit < int (length bs + length (encode v)) \<Longrightarrow> \<exists>p'. pack_val grow v p = Some p' \<and> p_Err p' = Some ErrInsufficientLength"
  using pack_val_raw [OF v, of grow] pack_raw_written [OF w(1), of "encode v" grow] pack_two [OF w(1), where grow = grow] w(2) by fastforce+

lemma pack_val_errored:
  assumes "fits v" "p_Err p = Some ErrInsufficientLength"
  shows "\<exists>p'. pack_val grow v p = Some p' \<and> p_Err p' = Some ErrInsufficientLength"
proof -
  have "\<exists>p'. (pack_raw grow d1 p \<bind> pack_raw grow d2) = Some p' \<and> p_Err p' = Some ErrInsufficientLength" for d1 d2
    using pack_raw_errored [OF assms(2), of grow d1] pack_raw_errored [of _ grow d2] by fastforce
  then show ?thesis using pack_val_raw [OF assms(1), of grow] pack_raw_errored [OF assms(2), of grow] by fastforce
qed

lemma pack_all_errored:
  "\<forall>v \<in> set vs. fits v \<Longrightarrow> p_Err p = Some ErrInsufficientLength \<Longrightarrow> \<exists>p'. pack_all grow vs p = Some p' \<and> p_Err p' = Some ErrInsufficientLength"
proof (induction vs arbitrary: p)
  case (Cons v vs)
  then show ?case using pack_val_errored [of v p grow] by fastforce
qed simp

lemma pack_all_written:
  assumes "\<forall>v \<in> set vs. fits v" "written limit bs p" "int (length bs) \<le> limit"
  shows "if int (length bs + length (concat (map encode vs))) \<le> limit
    then \<exists>p'. pack_all grow vs p = Some p' \<and> written limit (bs @ concat (map encode vs)) p'
    else \<exists>p'. pack_all grow vs p = Some p' \<and> p_Err p' = Some ErrInsufficientLength"
  using assms
proof (induction vs arbitrary: bs p)
  case (Cons v vs)
  have v: "fits v" "\<forall>v \<in> set vs. fits v" using Cons.prems(1) by simp_all
  show ?case
  proof (cases "int (length bs + length (encode v)) \<le> limit")
    case True
    then obtain p1 where "pack_val grow v p = Some p1" "written limit (bs @ encode v) p1" using pack_val_written(1) [OF Cons.prems(2,3) v(1)] by blast
    with Cons.IH [OF v(2), of "bs @ encode v" p1] True show ?thesis by (auto simp: add.assoc split: if_splits)
  next
    case False
    then obtain p1 where "pack_val grow v p = Some p1" "p_Err p1 = Some ErrInsufficientLength" using pack_val_written(2) [OF Cons.prems(2,3) v(1)] by force
    with pack_all_errored [OF v(2), of p1 grow] False show ?thesis by simp
  qed
qed simp

section \<open>Unpacking\<close>

definition reading :: "bytes \<Rightarrow> bytes \<Rightarrow> Packer \<Rightarrow> bool" where
  "reading pre rest p \<longleftrightarrow> p_Err p = None \<and> Bytes p = pre @ rest \<and> Offset p = int (length pre)"

lemma checkSpace_reading:
  assumes "reading pre rest p" "0 \<le> n"
  shows "checkSpace n p = (if int (length rest) < n then p\<lparr>p_Err := Some ErrInsufficientLength\<rparr> else p)"
  using assms by (auto simp: checkSpace_def reading_def add_err_def)

lemma unpack_fixed:
  assumes "reading pre (bs @ rest) p"
  shows "UnpackFixedBytes (int (length bs)) p = (bs, p\<lparr>Offset := Offset p + int (length bs)\<rparr>)"
  using assms checkSpace_reading [OF assms, of "int (length bs)"] by (auto simp: UnpackFixedBytes_def Errored_def reading_def Let_def)

lemma unpack_words:
  "reading pre (PutUint 2 w2 @ rest) p \<Longrightarrow> UnpackShort p = (w2, p\<lparr>Offset := Offset p + 2\<rparr>)"
  "reading pre (PutUint 4 w4 @ rest) p \<Longrightarrow> UnpackInt p = (w4, p\<lparr>Offset := Offset p + 4\<rparr>)"
  "reading pre (PutUint 8 w8 @ rest) p \<Longrightarrow> UnpackLong p = (w8, p\<lparr>Offset := Offset p + 8\<rparr>)"
  "reading pre (b # rest) p \<Longrightarrow> UnpackByte p = (b, p\<lparr>Offset := Offset p + 1\<rparr>)"
  using checkSpace_reading [of pre "PutUint 2 w2 @ rest" p 2] checkSpace_reading [of pre "PutUint 4 w4 @ rest" p 4]
    checkSpace_reading [of pre "PutUint 8 w8 @ rest" p 8] checkSpace_reading [of pre "b # rest" p 1]
  by (simp_all add: UnpackShort_def UnpackInt_def UnpackLong_def UnpackByte_def Errored_def reading_def Let_def PutUint_Uint)

lemma unpack_short:
  assumes "reading pre rest p"
  shows "length rest < 2 \<Longrightarrow> UnpackShort p = (0, p\<lparr>p_Err := Some ErrInsufficientLength\<rparr>)"
    "length rest < 4 \<Longrightarrow> UnpackInt p = (0, p\<lparr>p_Err := Some ErrInsufficientLength\<rparr>)"
    "length rest < 8 \<Longrightarrow> UnpackLong p = (0, p\<lparr>p_Err := Some ErrInsufficientLength\<rparr>)"
    "rest = [] \<Longrightarrow> UnpackByte p = (0, p\<lparr>p_Err := Some ErrInsufficientLength\<rparr>)"
    "int (length rest) < n \<Longrightarrow> UnpackFixedBytes n p = ([], p\<lparr>p_Err := Some ErrInsufficientLength\<rparr>)"
  using checkSpace_reading [OF assms]
  by (simp_all add: UnpackShort_def UnpackInt_def UnpackLong_def UnpackByte_def UnpackFixedBytes_def Errored_def Let_def)

lemma checkSpace_errored: "p_Err p = Some e \<Longrightarrow> p_Err (checkSpace n p) = Some e"
  by (simp add: checkSpace_def add_err_def)

lemma unpack_errored:
  assumes "p_Err p = Some e"
  shows "p_Err (snd (UnpackShort p)) = Some e" "p_Err (snd (UnpackInt p)) = Some e" "p_Err (snd (UnpackLong p)) = Some e"
    "UnpackByte p = (0, checkSpace 1 p)" "p_Err (snd (UnpackFixedBytes n p)) = Some e"
  using checkSpace_errored [OF assms]
  by (simp_all add: UnpackShort_def UnpackInt_def UnpackLong_def UnpackByte_def UnpackFixedBytes_def Errored_def Let_def)

lemma unpack_val_errored: "p_Err p = Some e \<Longrightarrow> p_Err (snd (unpack_val v p)) = Some e"
  using checkSpace_errored [of p e 1] unpack_errored [of p e] unpack_errored(5) [of "snd (UnpackInt p)" e] unpack_errored(5) [of "snd (UnpackShort p)" e]
  by (cases v) (simp_all add: UnpackBool_def UnpackBytes_def UnpackStr_def case_prod_beta Errored_def)

lemma unpack_all_errored: "p_Err p = Some e \<Longrightarrow> p_Err (snd (unpack_all vs p)) = Some e"
  by (induction vs arbitrary: p) (auto simp: case_prod_beta dest: unpack_val_errored)

lemma reading_shift: "reading pre (d @ rest) p \<Longrightarrow> reading (pre @ d) rest (p\<lparr>Offset := Offset p + int (length d)\<rparr>)"
  by (simp add: reading_def)

lemma uint_len:
  "length bs < 2 ^ 32 \<Longrightarrow> uint (of_nat (length bs) :: 32 word) = int (length bs)" "length bs \<le> MaxStringLen \<Longrightarrow> uint (of_nat (length bs) :: 16 word) = int (length bs)"
  by (simp_all add: uint_nat unat_of_nat MaxStringLen_def)

lemma unpack_val_ok:
  assumes "fits v" "reading pre (encode v @ rest) p"
  shows "unpack_val v p = (v, p\<lparr>Offset := Offset p + int (length (encode v))\<rparr>)"
proof (cases v)
  case (PBytes bs)
  let ?h = "PutUint 4 (of_nat (length bs) :: 32 word)"
  have h: "UnpackInt p = (of_nat (length bs), p\<lparr>Offset := Offset p + 4\<rparr>)" using unpack_words(2) assms(2) PBytes by simp
  have "reading (pre @ ?h) (bs @ rest) (p\<lparr>Offset := Offset p + 4\<rparr>)"
    using reading_shift [of pre ?h "bs @ rest" p] assms(2) PBytes by (simp add: PutUint_Uint(1))
  from unpack_fixed [OF this] h PBytes assms(1) show ?thesis by (simp add: UnpackBytes_def uint_len PutUint_Uint(1))
next
  case (PStr bs)
  let ?h = "PutUint 2 (of_nat (length bs) :: 16 word)"
  have h: "UnpackShort p = (of_nat (length bs), p\<lparr>Offset := Offset p + 2\<rparr>)" using unpack_words(1) assms(2) PStr by simp
  have "reading (pre @ ?h) (bs @ rest) (p\<lparr>Offset := Offset p + 2\<rparr>)"
    using reading_shift [of pre ?h "bs @ rest" p] assms(2) PStr by (simp add: PutUint_Uint(1))
  from unpack_fixed [OF this] h PStr assms(1) show ?thesis by (simp add: UnpackStr_def uint_len PutUint_Uint(1))
qed (use assms in \<open>auto simp: unpack_words unpack_fixed UnpackBool_def PutUint_Uint(1) split: if_splits\<close>)

text \<open>Input that ends within a value.\<close>

lemma unpack_val_truncated:
  assumes "fits v" "reading pre (take n (encode v)) p" "n < length (encode v)"
  shows "p_Err (snd (unpack_val v p)) = Some ErrInsufficientLength"
proof (cases v)
  case (PBytes bs)
  let ?h = "PutUint 4 (of_nat (length bs) :: 32 word)"
  show ?thesis
  proof (cases "n < 4")
    case True
    then show ?thesis using unpack_short(2) [OF assms(2)] PBytes unpack_errored(5) by (simp add: UnpackBytes_def)
  next
    case False
    then have r: "reading pre (?h @ take (n - 4) bs) p" using assms(2) PBytes by (simp add: PutUint_Uint(1))
    have "reading (pre @ ?h) (take (n - 4) bs) (p\<lparr>Offset := Offset p + 4\<rparr>)" using reading_shift [OF r] by (simp add: PutUint_Uint(1))
    from unpack_short(5) [OF this, of "int (length bs)"] unpack_words(2) [OF r] assms(1,3) PBytes False show ?thesis
      by (simp add: UnpackBytes_def uint_len PutUint_Uint(1))
  qed
next
  case (PStr bs)
  let ?h = "PutUint 2 (of_nat (length bs) :: 16 word)"
  show ?thesis
  proof (cases "n < 2")
    case True
    then show ?thesis using unpack_short(1) [OF assms(2)] PStr unpack_errored(5) by (simp add: UnpackStr_def)
  next
    case False
    then have r: "reading pre (?h @ take (n - 2) bs) p" using assms(2) PStr by (simp add: PutUint_Uint(1))
    have "reading (pre @ ?h) (take (n - 2) bs) (p\<lparr>Offset := Offset p + 2\<rparr>)" using reading_shift [OF r] by (simp add: PutUint_Uint(1))
    from unpack_short(5) [OF this, of "int (length bs)"] unpack_words(1) [OF r] assms(1,3) PStr False show ?thesis
      by (simp add: UnpackStr_def uint_len PutUint_Uint(1))
  qed
qed (use assms unpack_short [OF assms(2)] in \<open>auto simp: UnpackBool_def PutUint_Uint(1)\<close>)

lemma unpack_all_ok:
  assumes "\<forall>v \<in> set vs. fits v" "reading pre (concat (map encode vs) @ rest) p"
  shows "unpack_all vs p = (vs, p\<lparr>Offset := Offset p + int (length (concat (map encode vs)))\<rparr>)"
  using assms
proof (induction vs arbitrary: pre p)
  case (Cons v vs)
  then have r: "reading pre (encode v @ concat (map encode vs) @ rest) p" by simp
  from Cons.IH [OF _ reading_shift [OF r]] unpack_val_ok [OF _ r] Cons.prems(1) show ?case by (simp add: add.assoc)
qed simp

lemma unpack_all_truncated:
  assumes "\<forall>v \<in> set vs. fits v" "reading pre (take n (concat (map encode vs))) p" "n < length (concat (map encode vs))"
  shows "p_Err (snd (unpack_all vs p)) = Some ErrInsufficientLength"
  using assms
proof (induction vs arbitrary: n pre p)
  case (Cons v vs)
  have v: "fits v" "\<forall>v \<in> set vs. fits v" using Cons.prems(1) by simp_all
  show ?case
  proof (cases "n < length (encode v)")
    case True
    then have "reading pre (take n (encode v)) p" using Cons.prems(2) by simp
    from unpack_all_errored [OF unpack_val_truncated [OF v(1) this True], of vs] show ?thesis by (simp add: case_prod_beta)
  next
    case False
    then have r: "reading pre (encode v @ take (n - length (encode v)) (concat (map encode vs))) p" using Cons.prems(2) by simp
    from Cons.IH [OF v(2) reading_shift [OF r]] unpack_val_ok [OF v(1) r] Cons.prems(3) False show ?thesis by simp
  qed
qed simp

section \<open>Properties\<close>

definition newPacker :: "int \<Rightarrow> bytes \<Rightarrow> Packer" where
  "newPacker limit room = \<lparr>p_Err = None, MaxSize = limit, Bytes = [], spare = room, Offset = 0\<rparr>"

text \<open>
  C22. Values packed one after the other, into an array with any spare capacity, never panic. When their encodings fit into
  MaxSize, the bytes are the concatenation of the encodings, big-endian with length prefixes, and unpacking values of
  the same kinds gives them back without an error and ends at the end; on every proper prefix of the bytes
  unpacking ends with ErrInsufficientLength. When they do not fit, packing ends with ErrInsufficientLength.
\<close>

theorem pack_roundtrip:
  assumes "\<forall>v \<in> set vs. fits v" "0 \<le> limit" "enc = concat (map encode vs)"
  shows "\<exists>p. pack_all grow vs (newPacker limit room) = Some p \<and>
    (if int (length enc) \<le> limit
     then p_Err p = None \<and> Bytes p = enc \<and> unpack_all vs (p\<lparr>Offset := 0\<rparr>) = (vs, p) \<and>
       (\<forall>n < length enc. p_Err (snd (unpack_all vs (p\<lparr>Offset := 0, Bytes := take n enc\<rparr>))) = Some ErrInsufficientLength)
     else p_Err p = Some ErrInsufficientLength)"
proof -
  have w: "written limit [] (newPacker limit room)" by (simp add: written_def newPacker_def)
  show ?thesis
  proof (cases "int (length enc) \<le> limit")
    case True
    then obtain p where p: "pack_all grow vs (newPacker limit room) = Some p" "written limit enc p"
      using pack_all_written [OF assms(1) w, of grow] assms(2,3) by auto
    have "reading [] (concat (map encode vs) @ []) (p\<lparr>Offset := 0\<rparr>)" using p(2) assms(3) by (simp add: reading_def written_def)
    from unpack_all_ok [OF assms(1) this] have u: "unpack_all vs (p\<lparr>Offset := 0\<rparr>) = (vs, p)"
      using p(2) assms(3) by (cases p) (simp add: written_def)
    have "reading [] (take n (concat (map encode vs))) (p\<lparr>Offset := 0, Bytes := take n enc\<rparr>)" for n
      using p(2) assms(3) by (simp add: reading_def written_def)
    with unpack_all_truncated [OF assms(1)] have "\<forall>n < length enc. p_Err (snd (unpack_all vs (p\<lparr>Offset := 0, Bytes := take n enc\<rparr>))) = Some ErrInsufficientLength"
      using assms(3) by blast
    then show ?thesis using p u True by (auto simp: written_def)
  next
    case False
    then show ?thesis using pack_all_written [OF assms(1) w, of grow] assms(2,3) by auto
  qed
qed

lemma be_bytes_2: "be_bytes 2 v = [of_nat (v div 256 mod 256), of_nat (v mod 256)]"
  by (simp add: numeral_2_eq_2)

theorem pack_roundtrip_witness:
  "\<exists>p. pack_all (\<lambda>n. n) [PShort 258, PBool True, PStr [104, 105]] (newPacker 100 [7]) = Some p \<and> Bytes p = [1, 2, 1, 0, 2, 104, 105] \<and>
    unpack_all [PShort 258, PBool True, PStr [104, 105]] (p\<lparr>Offset := 0\<rparr>) = ([PShort 258, PBool True, PStr [104, 105]], p)"
proof -
  have "concat (map encode [PShort 258, PBool True, PStr [104, 105]]) = [1, 2, 1, 0, 2, 104, 105]" by (simp add: PutUint_def be_bytes_2)
  with pack_roundtrip [of "[PShort 258, PBool True, PStr [104, 105]]" 100 "[1, 2, 1, 0, 2, 104, 105]" "\<lambda>n. n" "[7]"] show ?thesis
    by (auto simp: MaxStringLen_def)
qed

end
