(* ===== verification/LruCache.thy ===== *)
theory LruCache
  imports LinkedHashmap
begin

text \<open>
  default/cache/lru: \<^verbatim>\<open>Cache\<close> (cache.go), which evicts the least recently used entry, and \<^verbatim>\<open>SizedCache\<close>
  (sized_cache.go), which bounds the total size of its entries. Every call holds the lock of the cache. The
  caches are clients of \<open>ordered_map\<close>; a cache is described by the list of its entries, least
  recently used first.
\<close>

section \<open>Cache\<close>

record ('k, 'v) Cache =
  c_elements :: "('k, 'v) Hashmap"
  c_size :: int

definition NewCache :: "int \<Rightarrow> ('k, 'v) Cache" where
  "NewCache n = \<lparr>c_elements = NewHashmap, c_size = max n 1\<rparr>"

definition cache_Put :: "'k \<Rightarrow> 'v \<Rightarrow> ('k, 'v) Cache \<Rightarrow> ('k, 'v) Cache option" where
  "cache_Put key val c = do {
     m \<leftarrow> (if hm_Len (c_elements c) = c_size c
           then case hm_Oldest (c_elements c) of
                  None \<Rightarrow> Some (c_elements c)
                | Some (oldestKey, _) \<Rightarrow> map_option fst (hm_Delete oldestKey (c_elements c))
           else Some (c_elements c));
     m \<leftarrow> hm_Put key val m;
     Some (c\<lparr>c_elements := m\<rparr>)
   }"

definition cache_Get :: "'k \<Rightarrow> ('k, 'v) Cache \<Rightarrow> (('k, 'v) Cache \<times> 'v option) option" where
  "cache_Get key c =
     (case hm_Get key (c_elements c) of
        None \<Rightarrow> Some (c, None)
      | Some val \<Rightarrow> do {
          m \<leftarrow> hm_Put key val (c_elements c);
          Some (c\<lparr>c_elements := m\<rparr>, Some val)
        })"

definition cache_Evict :: "'k \<Rightarrow> ('k, 'v) Cache \<Rightarrow> ('k, 'v) Cache option" where
  "cache_Evict key c = map_option (\<lambda>(m, _). c\<lparr>c_elements := m\<rparr>) (hm_Delete key (c_elements c))"

definition cache_Flush :: "'k list \<Rightarrow> ('k, 'v) Cache \<Rightarrow> ('k, 'v) Cache option" where
  "cache_Flush ks c = map_option (\<lambda>m. c\<lparr>c_elements := m\<rparr>) (hm_Clear ks (c_elements c))"

definition cache_Len :: "('k, 'v) Cache \<Rightarrow> int" where
  "cache_Len c = hm_Len (c_elements c)"

section \<open>SizedCache\<close>

record ('k, 'v) SizedCache =
  sc_elements :: "('k, 'v \<times> int) Hashmap"
  maxSize :: int
  currentSize :: int
  sc_size :: "'k \<Rightarrow> 'v \<Rightarrow> int"

definition NewSizedCache :: "int \<Rightarrow> ('k \<Rightarrow> 'v \<Rightarrow> int) \<Rightarrow> ('k, 'v) SizedCache" where
  "NewSizedCache n sz = \<lparr>sc_elements = NewHashmap, maxSize = n, currentSize = 0, sc_size = sz\<rparr>"

definition sc_flush :: "'k list \<Rightarrow> ('k, 'v) SizedCache \<Rightarrow> ('k, 'v) SizedCache option" where
  "sc_flush ks c = map_option (\<lambda>m. c\<lparr>sc_elements := m, currentSize := 0\<rparr>) (hm_Clear ks (sc_elements c))"

text \<open>The loop that makes room; without an oldest element it dereferences nil.\<close>

partial_function (option) make_room :: "int \<Rightarrow> ('k, 'v) SizedCache \<Rightarrow> ('k, 'v) SizedCache option" where
  "make_room newEntrySize c =
     (if currentSize c > maxSize c - newEntrySize
      then case hm_Oldest (sc_elements c) of
             None \<Rightarrow> None
           | Some (oldestKey, (_, sz)) \<Rightarrow>
               hm_Delete oldestKey (sc_elements c) \<bind> (\<lambda>(m, _).
               make_room newEntrySize (c\<lparr>sc_elements := m, currentSize := currentSize c - sz\<rparr>))
      else Some c)"

definition sc_put :: "'k list \<Rightarrow> 'k \<Rightarrow> 'v \<Rightarrow> ('k, 'v) SizedCache \<Rightarrow> ('k, 'v) SizedCache option" where
  "sc_put ks key val c =
     (let newEntrySize = sc_size c key val in
      if newEntrySize > maxSize c then sc_flush ks c
      else do {
        let c = (case hm_Get key (sc_elements c) of Some (_, sz) \<Rightarrow> c\<lparr>currentSize := currentSize c - sz\<rparr> | None \<Rightarrow> c);
        c \<leftarrow> make_room newEntrySize c;
        m \<leftarrow> hm_Put key (val, newEntrySize) (sc_elements c);
        Some (c\<lparr>sc_elements := m, currentSize := currentSize c + newEntrySize\<rparr>)
      })"

definition sc_get :: "'k \<Rightarrow> ('k, 'v) SizedCache \<Rightarrow> (('k, 'v) SizedCache \<times> 'v option) option" where
  "sc_get key c =
     (case hm_Get key (sc_elements c) of
        None \<Rightarrow> Some (c, None)
      | Some element \<Rightarrow> do {
          m \<leftarrow> hm_Put key element (sc_elements c);
          Some (c\<lparr>sc_elements := m\<rparr>, Some (fst element))
        })"

definition sc_evict :: "'k \<Rightarrow> ('k, 'v) SizedCache \<Rightarrow> ('k, 'v) SizedCache option" where
  "sc_evict key c =
     (case hm_Get key (sc_elements c) of
        None \<Rightarrow> Some c
      | Some (_, sz) \<Rightarrow> do {
          (m, _) \<leftarrow> hm_Delete key (sc_elements c);
          Some (c\<lparr>sc_elements := m, currentSize := currentSize c - sz\<rparr>)
        })"

definition sc_len :: "('k, 'v) SizedCache \<Rightarrow> int" where
  "sc_len c = hm_Len (sc_elements c)"

section \<open>The least recently used entry goes first\<close>

definition cache_rep :: "('k, 'v) Cache \<Rightarrow> ('k \<times> 'v) list \<Rightarrow> bool" where
  "cache_rep c es \<longleftrightarrow> hm_rep (c_elements c) es \<and> int (length es) \<le> c_size c \<and> 1 \<le> c_size c"

lemma cache_rep_New: "cache_rep (NewCache n) []"
  using hm.rep_new by (auto simp: cache_rep_def NewCache_def)

lemma c_size_New [simp]: "c_size (NewCache n) = max n 1"
  by (simp add: NewCache_def)

lemma length_del_key: "length (del_key k es) \<le> length es"
  by (simp add: del_key_def)

lemma length_del_key_in: "k \<in> fst ` set es \<Longrightarrow> length (del_key k es) < length es"
  unfolding del_key_def by (auto intro: length_filter_less)

lemma cache_Put_rep:
  assumes "cache_rep c es"
  shows "\<exists>c'. cache_Put k v c = Some c' \<and> c_size c' = c_size c \<and>
    cache_rep c' (del_key k (if int (length es) = c_size c then tl es else es) @ [(k, v)])"
proof -
  let ?es = "if int (length es) = c_size c then tl es else es"
  have r: "hm_rep (c_elements c) es" and b: "int (length es) \<le> c_size c" "1 \<le> c_size c" using assms by (auto simp: cache_rep_def)
  note ol = hm.rep_len [OF r] hm.rep_oldest [OF r]
  have "\<exists>m. (if hm_Len (c_elements c) = c_size c
      then case hm_Oldest (c_elements c) of None \<Rightarrow> Some (c_elements c)
        | Some (oldestKey, _) \<Rightarrow> map_option fst (hm_Delete oldestKey (c_elements c))
      else Some (c_elements c)) = Some m \<and> hm_rep m ?es"
  proof (cases "int (length es) = c_size c")
    case True
    with b obtain k0 v0 es' where es: "es = (k0, v0) # es'" by (cases es) auto
    from hm.delete_oldest [OF r [unfolded es]] True ol show ?thesis by (auto simp: es)
  qed (use ol r in auto)
  then obtain m where m: "(if hm_Len (c_elements c) = c_size c
      then case hm_Oldest (c_elements c) of None \<Rightarrow> Some (c_elements c)
        | Some (oldestKey, _) \<Rightarrow> map_option fst (hm_Delete oldestKey (c_elements c))
      else Some (c_elements c)) = Some m" "hm_rep m ?es" by blast
  from hm.rep_put [OF m(2), of k v] obtain m' where "hm_Put k v m = Some m'" "hm_rep m' (del_key k ?es @ [(k, v)])" by blast
  moreover have "int (length (del_key k ?es @ [(k, v)])) \<le> c_size c" using length_del_key [of k ?es] b by (auto split: if_splits)
  ultimately show ?thesis using m(1) b by (auto simp: cache_Put_def cache_rep_def)
qed

lemma cache_Get_rep:
  assumes "cache_rep c es"
  shows "\<exists>c'. cache_Get k c = Some (c', map_of es k) \<and> c_size c' = c_size c \<and>
    cache_rep c' (case map_of es k of None \<Rightarrow> es | Some v \<Rightarrow> del_key k es @ [(k, v)])"
proof (cases "map_of es k")
  case None
  with assms hm.rep_get [of "c_elements c" es k] show ?thesis by (simp add: cache_Get_def cache_rep_def)
next
  case (Some v)
  have r: "hm_rep (c_elements c) es" using assms by (simp add: cache_rep_def)
  from hm.rep_put [OF r, of k v] obtain m where m: "hm_Put k v (c_elements c) = Some m" "hm_rep m (del_key k es @ [(k, v)])" by blast
  have "length (del_key k es) < length es" using length_del_key_in [of k es] Some by (force dest: map_of_SomeD)
  with m Some hm.rep_get [OF r, of k] assms show ?thesis by (auto simp: cache_Get_def cache_rep_def)
qed

lemma cache_Evict_rep:
  assumes "cache_rep c es"
  shows "\<exists>c'. cache_Evict k c = Some c' \<and> c_size c' = c_size c \<and> cache_rep c' (del_key k es)"
proof -
  have r: "hm_rep (c_elements c) es" using assms by (simp add: cache_rep_def)
  from hm.rep_delete [OF r, of k] length_del_key [of k es] assms show ?thesis by (auto simp: cache_Evict_def cache_rep_def)
qed

datatype ('k, 'v) cache_call = CPut 'k 'v | CGet 'k | CEvict 'k

fun call_key :: "('k, 'v) cache_call \<Rightarrow> 'k" where
  "call_key (CPut k v) = k" | "call_key (CGet k) = k" | "call_key (CEvict k) = k"

fun cache_run :: "('k, 'v) cache_call list \<Rightarrow> ('k, 'v) Cache \<Rightarrow> ('k, 'v) Cache option" where
  "cache_run [] c = Some c"
| "cache_run (CPut k v # cs) c = cache_Put k v c \<bind> cache_run cs"
| "cache_run (CGet k # cs) c = cache_Get k c \<bind> (\<lambda>(c, _). cache_run cs c)"
| "cache_run (CEvict k # cs) c = cache_Evict k c \<bind> cache_run cs"

text \<open>An entry with at most \<open>j\<close> more recent ones.\<close>

definition recent :: "nat \<Rightarrow> 'k \<Rightarrow> 'v \<Rightarrow> ('k \<times> 'v) list \<Rightarrow> bool" where
  "recent j k v es \<longleftrightarrow> (\<exists>xs ys. es = xs @ (k, v) # ys \<and> length ys \<le> j)"

lemma recent_del:
  assumes "recent j k v es" and "k' \<noteq> k"
  shows "recent j k v (del_key k' es)"
proof -
  from assms(1) obtain xs ys where "es = xs @ (k, v) # ys" "length ys \<le> j" by (auto simp: recent_def)
  with assms(2) length_del_key [of k' ys] show ?thesis
    unfolding recent_def by (intro exI [of _ "del_key k' xs"] exI [of _ "del_key k' ys"]) simp
qed

lemma recent_snoc: "recent j k v es \<Longrightarrow> recent (Suc j) k v (es @ [p])"
  unfolding recent_def by force

lemma recent_mono: "recent j k v es \<Longrightarrow> j \<le> j' \<Longrightarrow> recent j' k v es"
  unfolding recent_def by fastforce

lemma recent_tl:
  assumes "recent j k v es" and "Suc j < length es"
  shows "recent j k v (tl es)"
proof -
  from assms(1) obtain xs ys where es: "es = xs @ (k, v) # ys" "length ys \<le> j" by (auto simp: recent_def)
  with assms(2) obtain x xs' where "xs = x # xs'" by (cases xs) auto
  with es show ?thesis by (auto simp: recent_def)
qed

lemma recent_call:
  assumes c: "cache_rep c es" and r: "recent j k v es" and j: "int (Suc j) < c_size c" and k: "call_key op \<noteq> k"
  shows "\<exists>c' es'. cache_run [op] c = Some c' \<and> cache_rep c' es' \<and> c_size c' = c_size c \<and> recent (Suc j) k v es'"
proof (cases op)
  case (CPut k' v')
  let ?es = "if int (length es) = c_size c then tl es else es"
  have "recent j k v ?es" using r j recent_tl [OF r] by auto
  then have "recent (Suc j) k v (del_key k' ?es @ [(k', v')])" using recent_del recent_snoc k CPut by fastforce
  with cache_Put_rep [OF c, of k' v'] CPut show ?thesis by auto
next
  case (CGet k')
  from cache_Get_rep [OF c, of k'] obtain c' where c': "cache_Get k' c = Some (c', map_of es k')" "c_size c' = c_size c"
    "cache_rep c' (case map_of es k' of None \<Rightarrow> es | Some v \<Rightarrow> del_key k' es @ [(k', v)])" by blast
  moreover have "recent (Suc j) k v (case map_of es k' of None \<Rightarrow> es | Some v \<Rightarrow> del_key k' es @ [(k', v)])"
    using recent_mono [OF r, of "Suc j"] recent_snoc [OF recent_del [OF r]] k CGet by (auto split: option.splits)
  ultimately show ?thesis using CGet by auto
next
  case (CEvict k')
  with cache_Evict_rep [OF c, of k'] recent_mono [OF recent_del [OF r, of k'], of "Suc j"] k show ?thesis by auto
qed

lemma cache_run_Cons: "cache_run (op # cs) c = cache_run [op] c \<bind> cache_run cs"
  by (cases op) (auto simp: case_prod_beta bind_assoc split: Option.bind_splits)

lemma recent_run:
  assumes "cache_rep c es" and "recent j k v es" and "int (j + length cs) < c_size c" and "\<forall>op \<in> set cs. call_key op \<noteq> k"
  shows "\<exists>c' es'. cache_run cs c = Some c' \<and> cache_rep c' es' \<and> recent (j + length cs) k v es'"
  using assms
proof (induction cs arbitrary: c es j)
  case (Cons op cs)
  from recent_call [OF Cons.prems(1,2), of op] Cons.prems(3,4) obtain c1 es1 where
    1: "cache_run [op] c = Some c1" "cache_rep c1 es1" "c_size c1 = c_size c" "recent (Suc j) k v es1" by auto
  from Cons.IH [OF 1(2,4)] Cons.prems(3,4) 1(3) obtain c' es' where "cache_run cs c1 = Some c'" "cache_rep c' es'" "recent (Suc j + length cs) k v es'"
    by auto
  with 1(1) show ?case unfolding cache_run_Cons [of op cs] by auto
qed auto

lemma cache_run_rep: "cache_rep c es \<Longrightarrow> \<exists>c' es'. cache_run cs c = Some c' \<and> cache_rep c' es' \<and> c_size c' = c_size c"
proof (induction cs arbitrary: c es)
  case (Cons op cs)
  have "\<exists>c1 es1. cache_run [op] c = Some c1 \<and> cache_rep c1 es1 \<and> c_size c1 = c_size c"
  proof (cases op)
    case (CPut k v)
    with cache_Put_rep [OF Cons.prems, of k v] show ?thesis by auto
  next
    case (CGet k)
    from cache_Get_rep [OF Cons.prems, of k] obtain c' where "cache_Get k c = Some (c', map_of es k)" "c_size c' = c_size c"
      "cache_rep c' (case map_of es k of None \<Rightarrow> es | Some v \<Rightarrow> del_key k es @ [(k, v)])" by blast
    then show ?thesis using CGet by auto
  next
    case (CEvict k)
    with cache_Evict_rep [OF Cons.prems, of k] show ?thesis by auto
  qed
  then obtain c1 es1 where "cache_run [op] c = Some c1" "cache_rep c1 es1" "c_size c1 = c_size c" by blast
  with Cons.IH [of c1 es1] show ?case unfolding cache_run_Cons [of op cs] by auto
qed auto

lemma cache_run_append: "cache_run (cs @ ds) c = cache_run cs c \<bind> cache_run ds"
proof (induction cs arbitrary: c)
  case (Cons op cs)
  have "cache_run ((op # cs) @ ds) c = cache_run [op] c \<bind> (\<lambda>c. cache_run cs c \<bind> cache_run ds)"
    by (simp only: append_Cons cache_run_Cons [of op "cs @ ds"] Cons.IH [abs_def])
  also have "\<dots> = cache_run (op # cs) c \<bind> cache_run ds"
    unfolding cache_run_Cons [of op cs] by (cases "cache_run [op] c") simp_all
  finally show ?case .
qed simp

lemma length_del_key_distinct:
  "distinct (map fst es) \<Longrightarrow> k \<in> fst ` set es \<Longrightarrow> Suc (length (del_key k es)) = length es"
  by (induction es) auto

lemma cache_Put_effect:
  assumes c: "cache_rep c es"
  shows "\<exists>c'. cache_Put k v c = Some c' \<and> hm_Get k (c_elements c') = Some v \<and>
    (\<forall>k'. k' \<noteq> k \<longrightarrow> hm_Get k' (c_elements c') =
       (if cache_Len c = c_size c \<and> map_option fst (hm_Oldest (c_elements c)) = Some k' then None else hm_Get k' (c_elements c))) \<and>
    (cache_Len c = c_size c \<and> hm_Get k (c_elements c) \<noteq> None \<and> map_option fst (hm_Oldest (c_elements c)) \<noteq> Some k \<longrightarrow>
       cache_Len c' = cache_Len c - 1)"
proof -
  let ?es = "if int (length es) = c_size c then tl es else es"
  have r: "hm_rep (c_elements c) es" "1 \<le> c_size c" using c by (auto simp: cache_rep_def)
  from cache_Put_rep [OF c, of k v] obtain c' where c': "cache_Put k v c = Some c'" "cache_rep c' (del_key k ?es @ [(k, v)])" by blast
  then have r': "hm_rep (c_elements c') (del_key k ?es @ [(k, v)])" by (simp add: cache_rep_def)
  note get = hm.rep_get [OF r(1)] hm.rep_get [OF r'] hm.rep_len [OF r(1)] hm.rep_len [OF r'] hm.rep_oldest [OF r(1)]
  note dist = hm.rep_distinct [OF r(1)]
  have lookup: "map_of (del_key k ?es @ [(k, v)]) k' = (if k' = k then Some v else map_of ?es k')" for k'
    by (simp add: map_add_def map_of_del_key split: option.splits)
  show ?thesis
  proof (cases "int (length es) = c_size c")
    case True
    with r(2) obtain k0 v0 es' where es: "es = (k0, v0) # es'" by (cases es) auto
    have none: "map_of es' k0 = None" using dist by (simp add: es map_of_eq_None_iff)
    have "Suc (length (del_key k es')) = length es'" if "map_of es k \<noteq> None" "k0 \<noteq> k"
      using that dist by (intro length_del_key_distinct) (auto simp: es map_of_eq_None_iff)
    with True c'(1) get lookup none show ?thesis by (auto simp: es cache_Len_def)
  qed (use c'(1) get lookup in \<open>auto simp: cache_Len_def\<close>)
qed

lemma used_last_retained:
  assumes c: "cache_rep c (es @ [(k, v)])" and cs: "int (length cs) < c_size c" "\<forall>op \<in> set cs. call_key op \<noteq> k"
  shows "\<exists>c1 c2. cache_run cs c = Some c1 \<and> cache_Get k c1 = Some (c2, Some v)"
proof -
  have "recent 0 k v (es @ [(k, v)])" by (auto simp: recent_def)
  from recent_run [OF c this, of cs] cs obtain c1 es1 where 1: "cache_run cs c = Some c1" "cache_rep c1 es1" "recent (length cs) k v es1" by auto
  then have "hm_rep (c_elements c1) es1" "(k, v) \<in> set es1" by (auto simp: cache_rep_def recent_def)
  then have "map_of es1 k = Some v" using hm.rep_distinct by (intro map_of_is_SomeI) auto
  with cache_Get_rep [OF 1(2), of k] 1(1) show ?thesis by auto
qed

lemma cache_Get_retained:
  assumes c: "cache_rep c es" and g: "cache_Get k c = Some (c', Some v)" and cs: "int (length cs) < c_size c" "\<forall>op \<in> set cs. call_key op \<noteq> k"
  shows "\<exists>c1 c2. cache_run cs c' = Some c1 \<and> cache_Get k c1 = Some (c2, Some v)"
proof -
  from cache_Get_rep [OF c, of k] g have "map_of es k = Some v" "c_size c' = c_size c"
    "cache_rep c' (case map_of es k of None \<Rightarrow> es | Some v \<Rightarrow> del_key k es @ [(k, v)])" by auto
  then show ?thesis using used_last_retained [of c' "del_key k es" k v cs] cs by simp
qed

lemma cache_Evict_effect:
  assumes c: "cache_rep c es"
  shows "\<exists>c'. cache_Evict k c = Some c' \<and> (\<forall>k'. hm_Get k' (c_elements c') = (if k' = k then None else hm_Get k' (c_elements c)))"
proof -
  from cache_Evict_rep [OF c, of k] obtain c' where c': "cache_Evict k c = Some c'" "cache_rep c' (del_key k es)" by blast
  then have "hm_rep (c_elements c') (del_key k es)" "hm_rep (c_elements c) es" using c by (simp_all add: cache_rep_def)
  from hm.rep_get [OF this(1)] hm.rep_get [OF this(2)] show ?thesis using c'(1) by (simp add: map_of_del_key)
qed

text \<open>
  C40. The cache keeps what was used last: after any calls on a new cache of size \<open>n\<close> no call has panicked and
  at most \<open>n\<close> entries (one if \<open>n\<close> is below one) are left, and an entry that was put or got is still found with its value after fewer than that many
  calls on other keys. \<^verbatim>\<open>Evict\<close> removes its key and no other. \<^verbatim>\<open>Put\<close> makes room without asking whether its key is already there: into a full cache it
  evicts the least recently used entry, and no other, also when the key is present. So putting a present key other than the least recently used one into a
  full cache leaves it with one entry less; no other \<^verbatim>\<open>Put\<close> loses the value of another key.
\<close>

theorem lru_retains:
  fixes n :: int
  shows "(\<exists>c. cache_run (pre @ CPut k v # cs) (NewCache n) = Some c \<and> cache_Len c \<le> max n 1 \<and>
      (int (length cs) < max n 1 \<and> (\<forall>op \<in> set cs. call_key op \<noteq> k) \<longrightarrow> (\<exists>c'. cache_Get k c = Some (c', Some v)))) \<and>
    (\<exists>c c'. cache_run pre (NewCache n) = Some c \<and> cache_Put k v c = Some c' \<and> hm_Get k (c_elements c') = Some v \<and>
      (\<forall>k'. k' \<noteq> k \<longrightarrow> hm_Get k' (c_elements c') =
         (if cache_Len c = max n 1 \<and> map_option fst (hm_Oldest (c_elements c)) = Some k' then None else hm_Get k' (c_elements c))) \<and>
      (cache_Len c = max n 1 \<and> hm_Get k (c_elements c) \<noteq> None \<and> map_option fst (hm_Oldest (c_elements c)) \<noteq> Some k \<longrightarrow>
         cache_Len c' = max n 1 - 1)) \<and>
    (\<exists>c c'. cache_run pre (NewCache n) = Some c \<and> cache_Evict k c = Some c' \<and>
      (\<forall>k'. hm_Get k' (c_elements c') = (if k' = k then None else hm_Get k' (c_elements c)))) \<and>
    (cache_run pre (NewCache n) = Some c0 \<and> cache_Get k c0 = Some (c1, Some w) \<and> int (length cs) < max n 1 \<and> (\<forall>op \<in> set cs. call_key op \<noteq> k) \<longrightarrow>
      (\<exists>c2 c3. cache_run cs c1 = Some c2 \<and> cache_Get k c2 = Some (c3, Some w)))"
proof -
  from cache_run_rep [OF cache_rep_New] obtain d es0 where 0: "cache_run pre (NewCache n) = Some d" "cache_rep d es0" "c_size d = max n 1"
    by (metis c_size_New)
  from cache_Put_rep [OF 0(2), of k v] obtain d1 es1 where 1: "cache_Put k v d = Some d1" "cache_rep d1 (es1 @ [(k, v)])" "c_size d1 = max n 1"
    using 0(3) by auto
  from cache_run_rep [OF 1(2), of cs] obtain c es where c: "cache_run cs d1 = Some c" "cache_rep c es" "c_size c = max n 1" using 1(3) by auto
  have "cache_run (pre @ CPut k v # cs) (NewCache n) = Some c" using 0(1) 1(1) c(1) by (simp add: cache_run_append)
  moreover have "cache_Len c \<le> max n 1" using c(2,3) hm.rep_len by (fastforce simp: cache_Len_def cache_rep_def)
  moreover have "\<exists>c'. cache_Get k c = Some (c', Some v)" if "int (length cs) < max n 1" "\<forall>op \<in> set cs. call_key op \<noteq> k"
    using used_last_retained [OF 1(2), of cs] that 1(3) c(1) by auto
  moreover have "\<exists>c2 c3. cache_run cs c1 = Some c2 \<and> cache_Get k c2 = Some (c3, Some w)"
    if "cache_run pre (NewCache n) = Some c0 \<and> cache_Get k c0 = Some (c1, Some w) \<and> int (length cs) < max n 1 \<and> (\<forall>op \<in> set cs. call_key op \<noteq> k)"
    using cache_Get_retained [OF 0(2), of k c1 w cs] that 0 by simp
  ultimately show ?thesis using 0(1) cache_Put_effect [OF 0(2), of k v] cache_Evict_effect [OF 0(2), of k] unfolding 0(3) by (intro conjI) fastforce+
qed

lemma two_puts:
  "\<exists>c1 c2. cache_run [CPut True (1 :: nat)] (NewCache 2) = Some c1 \<and> cache_rep c1 [(True, 1)] \<and>
     cache_run [CPut True (1 :: nat), CPut False 2] (NewCache 2) = Some c2 \<and> cache_rep c2 [(True, 1), (False, 2)]"
proof -
  from cache_Put_rep [OF cache_rep_New [of 2], of True "1 :: nat"] obtain c1 where
    1: "cache_Put True (1 :: nat) (NewCache 2) = Some c1" "c_size c1 = 2" "cache_rep c1 [(True, 1)]" by auto
  from cache_Put_rep [OF 1(3), of False 2] 1 show ?thesis by auto
qed

text \<open>Entries kept after a put and after a get, and a present key put again into a full cache, which loses the other one.\<close>

theorem lru_retains_witness:
  "(\<exists>c c'. cache_run [CPut True (1 :: nat), CPut False 2] (NewCache 2) = Some c \<and> cache_Get True c = Some (c', Some 1)) \<and>
   (\<exists>c0 c1 c2 c3. cache_run [CPut True (1 :: nat)] (NewCache 2) = Some c0 \<and> cache_Get True c0 = Some (c1, Some 1) \<and>
      cache_run [CPut False 2] c1 = Some c2 \<and> cache_Get True c2 = Some (c3, Some 1)) \<and>
   (\<exists>c c'. cache_run [CPut True (1 :: nat), CPut False 2] (NewCache 2) = Some c \<and> cache_Put False 3 c = Some c' \<and>
      hm_Get True (c_elements c') = None \<and> hm_Get False (c_elements c') = Some 3)"
proof (intro conjI)
  obtain c1 c2 where c: "cache_run [CPut True (1 :: nat)] (NewCache 2) = Some c1" "cache_rep c1 [(True, 1)]"
    "cache_run [CPut True (1 :: nat), CPut False 2] (NewCache 2) = Some c2" "cache_rep c2 [(True, 1), (False, 2)]" using two_puts by blast
  from conjunct1 [OF lru_retains [where pre = "[]" and k = True and v = "1 :: nat" and cs = "[CPut False 2]" and n = 2]]
  show "\<exists>c c'. cache_run [CPut True (1 :: nat), CPut False 2] (NewCache 2) = Some c \<and> cache_Get True c = Some (c', Some 1)" by auto
  from cache_Get_rep [OF c(2), of True] obtain d where d: "cache_Get True c1 = Some (d, Some 1)" by auto
  then have "\<exists>c2 c3. cache_run [CPut False 2] d = Some c2 \<and> cache_Get True c2 = Some (c3, Some 1)"
    using lru_retains [where pre = "[CPut True (1 :: nat)]" and k = True and cs = "[CPut False 2]" and n = 2 and ?c0.0 = c1 and ?c1.0 = d and w = 1] c(1) by simp
  with c(1) d show "\<exists>c0 c1 c2 c3. cache_run [CPut True (1 :: nat)] (NewCache 2) = Some c0 \<and> cache_Get True c0 = Some (c1, Some 1) \<and>
      cache_run [CPut False 2] c1 = Some c2 \<and> cache_Get True c2 = Some (c3, Some 1)" by blast
  have r: "hm_rep (c_elements c2) [(True, 1), (False, 2)]" using c(4) by (simp add: cache_rep_def)
  have "cache_Len c2 = 2" "map_option fst (hm_Oldest (c_elements c2)) = Some True"
    using hm.rep_len [OF r] hm.rep_oldest [OF r] by (simp_all add: cache_Len_def)
  moreover from conjunct1 [OF conjunct2 [OF lru_retains [where pre = "[CPut True (1 :: nat), CPut False 2]" and k = False and v = 3 and cs = "[]" and n = 2]]]
  obtain d d' where x: "cache_run [CPut True (1 :: nat), CPut False 2] (NewCache 2) = Some d" "cache_Put False 3 d = Some d'" "hm_Get False (c_elements d') = Some 3"
    "\<forall>k'. k' \<noteq> False \<longrightarrow> hm_Get k' (c_elements d') =
       (if cache_Len d = max 2 1 \<and> map_option fst (hm_Oldest (c_elements d)) = Some k' then None else hm_Get k' (c_elements d))" by (elim exE conjE)
  moreover have "d = c2" using x(1) c(3) by (simp only: option.inject)
  ultimately have "cache_Put False 3 c2 = Some d'" "hm_Get True (c_elements d') = None" "hm_Get False (c_elements d') = Some 3" by auto
  with c(3) show "\<exists>c c'. cache_run [CPut True (1 :: nat), CPut False 2] (NewCache 2) = Some c \<and> cache_Put False 3 c = Some c' \<and>
      hm_Get True (c_elements c') = None \<and> hm_Get False (c_elements c') = Some 3" by blast
qed

section \<open>The sized cache\<close>

definition total_size :: "('k \<times> 'v \<times> int) list \<Rightarrow> int" where
  "total_size es = (\<Sum>(_, _, s) \<leftarrow> es. s)"

lemma total_simps [simp]: "total_size [] = 0" "total_size (p # es) = snd (snd p) + total_size es" "total_size (es @ fs) = total_size es + total_size fs"
  by (auto simp: total_size_def case_prod_beta)

definition positive :: "('k \<times> 'v \<times> int) list \<Rightarrow> bool" where
  "positive es \<longleftrightarrow> (\<forall>(_, _, s) \<in> set es. 0 \<le> s)"

lemma total_nonneg: "positive es \<Longrightarrow> 0 \<le> total_size es"
  by (induction es) (auto simp: positive_def)

text \<open>What the loop drops, and what it leaves of the recorded size.\<close>

fun room :: "int \<Rightarrow> int \<Rightarrow> ('k \<times> 'v \<times> int) list \<Rightarrow> int \<times> ('k \<times> 'v \<times> int) list" where
  "room limit cur [] = (cur, [])"
| "room limit cur ((k, v, s) # es) = (if cur > limit then room limit (cur - s) es else (cur, (k, v, s) # es))"

lemma make_room_rep:
  assumes "hm_rep (sc_elements c) es" and "positive es" and "currentSize c \<le> total_size es" and "s \<le> maxSize c"
  shows "\<exists>m. make_room s c = Some (c\<lparr>sc_elements := m, currentSize := fst (room (maxSize c - s) (currentSize c) es)\<rparr>) \<and>
    hm_rep m (snd (room (maxSize c - s) (currentSize c) es))"
  using assms
proof (induction es arbitrary: c)
  case Nil
  then have "make_room s c = Some c" by (subst make_room.simps) simp
  with Nil show ?case by (intro exI [of _ "sc_elements c"]) simp
next
  case (Cons p es)
  obtain k v s0 where p: "p = (k, v, s0)" by (cases p)
  show ?case
  proof (cases "currentSize c > maxSize c - s")
    case False
    then have "make_room s c = Some c" by (subst make_room.simps) simp
    with False Cons.prems show ?thesis by (intro exI [of _ "sc_elements c"]) (simp add: p)
  next
    case True
    from hm.delete_oldest [OF Cons.prems(1) [unfolded p]] obtain m where m: "hm_Delete k (sc_elements c) = Some (m, True)" "hm_rep m es" by blast
    define c1 where "c1 = c\<lparr>sc_elements := m, currentSize := currentSize c - s0\<rparr>"
    have "make_room s c = make_room s c1"
      using True m(1) hm.rep_oldest [OF Cons.prems(1)] by (subst make_room.simps) (simp add: p c1_def)
    moreover have "positive es" "currentSize c1 \<le> total_size es" "hm_rep (sc_elements c1) es" "s \<le> maxSize c1"
      using Cons.prems m(2) by (auto simp: p c1_def positive_def)
    ultimately show ?thesis using Cons.IH [of c1] True by (auto simp: p c1_def)
  qed
qed

lemma sc_put_rep:
  assumes r: "hm_rep (sc_elements c) es" and pos: "positive es" and cur: "currentSize c \<le> total_size es" and s: "sc_size c k v \<le> maxSize c" "0 \<le> sc_size c k v"
  defines "cur \<equiv> currentSize c - (case map_of es k of None \<Rightarrow> 0 | Some (_, sz) \<Rightarrow> sz)"
  defines "room' \<equiv> room (maxSize c - sc_size c k v) cur es"
  shows "\<exists>c'. sc_put ks k v c = Some c' \<and> hm_rep (sc_elements c') (del_key k (snd room') @ [(k, v, sc_size c k v)]) \<and>
    currentSize c' = fst room' + sc_size c k v \<and> maxSize c' = maxSize c \<and> sc_size c' = sc_size c"
proof -
  define c1 where "c1 = (case hm_Get k (sc_elements c) of Some (_, sz) \<Rightarrow> c\<lparr>currentSize := currentSize c - sz\<rparr> | None \<Rightarrow> c)"
  have eq: "hm_Get k (sc_elements c) = map_of es k" by (rule hm.rep_get [OF r])
  have c1: "sc_elements c1 = sc_elements c" "maxSize c1 = maxSize c" "sc_size c1 = sc_size c" "currentSize c1 = cur"
    unfolding c1_def eq cur_def by (auto split: option.splits)
  have "cur \<le> currentSize c" using pos unfolding cur_def positive_def by (force split: option.splits dest: map_of_SomeD)
  then have "hm_rep (sc_elements c1) es" "currentSize c1 \<le> total_size es" "sc_size c k v \<le> maxSize c1" using r cur s c1 by simp_all
  from make_room_rep [OF this(1) pos this(2,3)] obtain m where
    m: "make_room (sc_size c k v) c1 = Some (c1\<lparr>sc_elements := m, currentSize := fst room'\<rparr>)" "hm_rep m (snd room')"
    by (auto simp: c1 room'_def)
  from hm.rep_put [OF m(2), of k "(v, sc_size c k v)"] obtain m' where
    "hm_Put k (v, sc_size c k v) m = Some m'" "hm_rep m' (del_key k (snd room') @ [(k, v, sc_size c k v)])" by blast
  with m s c1 show ?thesis by (simp add: sc_put_def Let_def c1_def [symmetric])
qed

definition sized_ok :: "('k, 'v) SizedCache \<Rightarrow> ('k \<times> 'v \<times> int) list \<Rightarrow> bool" where
  "sized_ok c es \<longleftrightarrow> hm_rep (sc_elements c) es \<and> positive es \<and> currentSize c = total_size es \<and> total_size es \<le> maxSize c"

lemma room_exact:
  "positive es \<Longrightarrow> 0 \<le> limit \<Longrightarrow> \<exists>es1 es2. es = es1 @ es2 \<and> room limit (total_size es) es = (total_size es2, es2) \<and> total_size es2 \<le> limit"
proof (induction es)
  case (Cons p es)
  obtain k v s where p: "p = (k, v, s)" by (cases p)
  show ?case
  proof (cases "total_size (p # es) > limit")
    case True
    from Cons obtain es1 es2 where "es = es1 @ es2" "room limit (total_size es) es = (total_size es2, es2)" "total_size es2 \<le> limit"
      by (auto simp: positive_def)
    with True show ?thesis by (intro exI [of _ "p # es1"] exI [of _ es2]) (simp add: p)
  next
    case False
    then show ?thesis by (intro exI [of _ "[]"] exI [of _ "p # es"]) (simp add: p)
  qed
qed simp

lemma positive_simps [simp]:
  "positive []" "positive ((k, v, s) # es) \<longleftrightarrow> 0 \<le> s \<and> positive es" "positive (es @ fs) \<longleftrightarrow> positive es \<and> positive fs"
  by (auto simp: positive_def ball_Un)

lemma total_del_key:
  assumes "distinct (map fst es)" and "map_of es k = Some (v, s)"
  shows "total_size (del_key k es) = total_size es - s" "positive es \<Longrightarrow> positive (del_key k es)"
proof -
  have "total_size (del_key k es) = total_size es - s \<and> (positive es \<longrightarrow> positive (del_key k es))" using assms
  proof (induction es)
    case (Cons p es)
    obtain k' v' s' where p: "p = (k', v', s')" by (cases p)
    show ?case
    proof (cases "k' = k")
      case True
      with Cons.prems have "del_key k es = es" by (simp add: p)
      with Cons.prems True show ?thesis by (simp add: p)
    next
      case False
      with Cons show ?thesis by (auto simp: p)
    qed
  qed simp
  then show "total_size (del_key k es) = total_size es - s" "positive es \<Longrightarrow> positive (del_key k es)" by auto
qed

lemma sc_flush_rep:
  assumes "hm_rep (sc_elements c) es" and "set ks = fst ` set es" and "0 \<le> maxSize c"
  shows "\<exists>c'. sc_flush ks c = Some c' \<and> sized_ok c' []"
  using hm.clear_all [OF assms(1,2)] assms(3) by (auto simp: sc_flush_def sized_ok_def)

lemma sc_put_new:
  assumes c: "sized_ok c es" and s: "sc_size c k v \<le> maxSize c" "0 \<le> sc_size c k v" and k: "k \<notin> fst ` set es"
  shows "\<exists>c' es1 es2. sc_put ks k v c = Some c' \<and> es = es1 @ es2 \<and> sized_ok c' (es2 @ [(k, v, sc_size c k v)])"
proof -
  have r: "hm_rep (sc_elements c) es" "positive es" "currentSize c = total_size es" using c by (auto simp: sized_ok_def)
  have none: "map_of es k = None" using k by (simp add: map_of_eq_None_iff)
  from room_exact [OF r(2), of "maxSize c - sc_size c k v"] s obtain es1 es2 where
    e: "es = es1 @ es2" "room (maxSize c - sc_size c k v) (total_size es) es = (total_size es2, es2)" "total_size es2 \<le> maxSize c - sc_size c k v" by auto
  have "k \<notin> fst ` set es2" using k e(1) by auto
  moreover from sc_put_rep [OF r(1,2) _ s, of ks] r(3) obtain c' where "sc_put ks k v c = Some c'"
    "hm_rep (sc_elements c') (del_key k es2 @ [(k, v, sc_size c k v)])" "currentSize c' = total_size es2 + sc_size c k v" "maxSize c' = maxSize c"
    unfolding none r(3) option.case(1) diff_0_right e(2) by auto
  ultimately have "sized_ok c' (es2 @ [(k, v, sc_size c k v)])" using r(2) e s by (simp add: sized_ok_def)
  with \<open>sc_put ks k v c = Some c'\<close> e(1) show ?thesis by blast
qed

lemma sc_get_ok:
  assumes c: "sized_ok c es"
  shows "\<exists>c' es'. sc_get k c = Some (c', map_option fst (map_of es k)) \<and> sized_ok c' es' \<and> set es' = set es"
proof (cases "map_of es k")
  case None
  with c hm.rep_get [of "sc_elements c" es k] show ?thesis by (auto simp: sc_get_def sized_ok_def)
next
  case (Some p)
  obtain v s where p: "p = (v, s)" by (cases p)
  have r: "hm_rep (sc_elements c) es" "positive es" using c by (auto simp: sized_ok_def)
  note d = hm.rep_distinct [OF r(1)]
  have kv: "(k, v, s) \<in> set es" using Some p by (auto dest: map_of_SomeD)
  from hm.rep_put [OF r(1), of k p] obtain m where m: "hm_Put k p (sc_elements c) = Some m" "hm_rep m (del_key k es @ [(k, p)])" by blast
  have "w = p" if "(k, w) \<in> set es" for w using eq_key_imp_eq_value [OF d that] kv p by simp
  moreover have "(k, p) \<in> set es" using kv p by simp
  ultimately have "x \<in> set (del_key k es @ [(k, p)]) \<longleftrightarrow> x \<in> set es" for x by (cases x) fastforce
  then have "set (del_key k es @ [(k, p)]) = set es" by blast
  moreover have "sized_ok (c\<lparr>sc_elements := m\<rparr>) (del_key k es @ [(k, p)])"
  proof -
    have "0 \<le> s" using r(2) kv by (auto simp: positive_def)
    then show ?thesis using c m(2) total_del_key [OF d Some [unfolded p]] r(2) by (simp add: sized_ok_def p)
  qed
  ultimately show ?thesis using m(1) Some hm.rep_get [OF r(1), of k] p by (auto simp: sc_get_def)
qed

lemma sc_evict_ok:
  assumes c: "sized_ok c es"
  shows "\<exists>c'. sc_evict k c = Some c' \<and> sized_ok c' (del_key k es)"
proof -
  have r: "hm_rep (sc_elements c) es" "positive es" using c by (auto simp: sized_ok_def)
  show ?thesis
  proof (cases "map_of es k")
    case None
    then have "del_key k es = es" by (simp add: map_of_eq_None_iff)
    with None c hm.rep_get [OF r(1), of k] show ?thesis by (simp add: sc_evict_def)
  next
    case (Some p)
    obtain v s where p: "p = (v, s)" by (cases p)
    have "0 \<le> s" using Some r(2) p by (force simp: positive_def dest: map_of_SomeD)
    with Some p c total_del_key [OF hm.rep_distinct [OF r(1)] Some [unfolded p]] hm.rep_delete [OF r(1), of k] hm.rep_get [OF r(1), of k] show ?thesis
      by (auto simp: sc_evict_def sized_ok_def)
  qed
qed

text \<open>
  The sized cache: as long as keys are not put again, the recorded size is the sum of the sizes of
  the entries and stays within the limit; \<^verbatim>\<open>put\<close> drops the oldest entries it has to and no others, an entry above
  the limit empties the cache, \<^verbatim>\<open>get\<close> and \<^verbatim>\<open>evict\<close> keep the accounts. Putting a key again breaks
  them: when making room evicts the old entry of that key its size is subtracted twice, and the cache ends up
  above its limit.
\<close>

theorem sized_cache_accounts:
  assumes "sized_ok c es" and "0 \<le> sc_size c k v" and "0 \<le> maxSize c" and "set ks = fst ` set es"
  shows "(maxSize c < sc_size c k v \<longrightarrow> (\<exists>c'. sc_put ks k v c = Some c' \<and> sized_ok c' [])) \<and>
    (sc_size c k v \<le> maxSize c \<and> k \<notin> fst ` set es \<longrightarrow>
      (\<exists>c' es1 es2. sc_put ks k v c = Some c' \<and> es = es1 @ es2 \<and> sized_ok c' (es2 @ [(k, v, sc_size c k v)]))) \<and>
    (\<exists>c' es'. sc_get k c = Some (c', map_option fst (map_of es k)) \<and> sized_ok c' es' \<and> set es' = set es) \<and>
    (\<exists>c'. sc_evict k c = Some c' \<and> sized_ok c' (del_key k es)) \<and>
    (\<exists>c1 c2 c3. sc_put [] True 6 (NewSizedCache 10 (\<lambda>_ v. v)) = Some c1 \<and> sc_put [True] False 4 c1 = Some c2 \<and>
      sc_put [True, False] True 9 c2 = Some c3 \<and> hm_rep (sc_elements c3) [(False, 4, 4), (True, 9, 9)] \<and> maxSize c3 = 10 \<and> currentSize c3 = 7)"
proof -
  let ?c = "NewSizedCache 10 (\<lambda>_ v. v) :: (bool, int) SizedCache"
  have 0: "hm_rep (sc_elements ?c) []" "currentSize ?c = 0" "maxSize ?c = 10" "sc_size ?c = (\<lambda>_ v. v)"
    using hm.rep_new by (simp_all add: NewSizedCache_def)
  from sc_put_rep [OF 0(1), of True 6 "[]"] 0 obtain c1 where
    1: "sc_put [] True 6 ?c = Some c1" "hm_rep (sc_elements c1) [(True, 6, 6)]" "currentSize c1 = 6" "maxSize c1 = 10" "sc_size c1 = (\<lambda>_ v. v)" by auto
  from sc_put_rep [OF 1(2), of False 4 "[True]"] 1 obtain c2 where
    2: "sc_put [True] False 4 c1 = Some c2" "hm_rep (sc_elements c2) [(True, 6, 6), (False, 4, 4)]" "currentSize c2 = 10" "maxSize c2 = 10"
      "sc_size c2 = (\<lambda>_ v. v)" by auto
  from sc_put_rep [OF 2(2), of True 9 "[True, False]"] 2 obtain c3 where
    "sc_put [True, False] True 9 c2 = Some c3" "hm_rep (sc_elements c3) [(False, 4, 4), (True, 9, 9)]" "currentSize c3 = 7" "maxSize c3 = 10" by auto
  moreover have "\<exists>c'. sc_put ks k v c = Some c' \<and> sized_ok c' []" if "maxSize c < sc_size c k v"
    using sc_flush_rep [of c es ks] assms that by (auto simp: sc_put_def sized_ok_def)
  ultimately show ?thesis using sc_put_new [OF assms(1) _ assms(2), of ks] sc_get_ok [OF assms(1), of k] sc_evict_ok [OF assms(1), of k] 1(1) 2(1) by blast
qed

theorem sized_cache_accounts_witness:
  "\<exists>c'. sc_put [] True (6 :: int) (NewSizedCache 10 (\<lambda>_ v. v)) = Some c' \<and> sized_ok c' [(True, 6, 6)]"
proof -
  let ?c = "NewSizedCache 10 (\<lambda>_ v. v) :: (bool, int) SizedCache"
  have "sized_ok ?c []" using hm.rep_new by (simp add: sized_ok_def NewSizedCache_def)
  from sized_cache_accounts [OF this, of True 6 "[]"] show ?thesis by (simp add: NewSizedCache_def)
qed

end
