(* ===== verification/Choices.thy ===== *)
theory Choices
  imports Prelude
begin

text \<open>
  The decision status of a consensus item: default/snow/choices/status.go. \<^verbatim>\<open>Status\<close> is a
  \<^verbatim>\<open>uint32\<close> with four named values, so a value outside them is representable and every
  operation has a branch for it.
\<close>

section \<open>Model\<close>

type_synonym Status = "32 word"

definition Unknown :: Status where "Unknown = 0"
definition Processing :: Status where "Processing = 1"
definition Rejected :: Status where "Rejected = 2"
definition Accepted :: Status where "Accepted = 3"

lemmas status_defs = Unknown_def Processing_def Rejected_def Accepted_def

definition errUnknownStatus :: go_error where
  "errUnknownStatus = Err ''unknown status''"

definition Decided :: "Status \<Rightarrow> bool" where
  "Decided s = (if s = Rejected \<or> s = Accepted then True else False)"

definition Fetched :: "Status \<Rightarrow> bool" where
  "Fetched s = (if s = Processing then True else Decided s)"

definition Valid :: "Status \<Rightarrow> go_error option" where
  "Valid s = (if s = Unknown \<or> s = Processing \<or> s = Rejected \<or> s = Accepted
              then None else Some errUnknownStatus)"

definition status_String :: "Status \<Rightarrow> string" where
  "status_String s =
     (if s = Unknown then ''Unknown''
      else if s = Processing then ''Processing''
      else if s = Rejected then ''Rejected''
      else if s = Accepted then ''Accepted''
      else ''Invalid status'')"

definition quoted :: "string \<Rightarrow> string" where
  "quoted s = CHR 0x22 # s @ [CHR 0x22]"

definition status_MarshalJSON :: "Status \<Rightarrow> string res" where
  "status_MarshalJSON s =
     (case Valid s of Some e \<Rightarrow> Inl e | None \<Rightarrow> Inr (quoted (status_String s)))"

text \<open>The receiver \<open>s\<close> keeps its value on \<^verbatim>\<open>null\<close> and on an error.\<close>

definition status_UnmarshalJSON :: "Status \<Rightarrow> string \<Rightarrow> Status \<times> go_error option" where
  "status_UnmarshalJSON s b =
     (if b = ''null'' then (s, None)
      else if b = quoted ''Unknown'' then (Unknown, None)
      else if b = quoted ''Processing'' then (Processing, None)
      else if b = quoted ''Rejected'' then (Rejected, None)
      else if b = quoted ''Accepted'' then (Accepted, None)
      else (s, Some errUnknownStatus))"

text \<open>\<^verbatim>\<open>PackInt\<close> on a four byte buffer: big endian.\<close>

definition status_Bytes :: "Status \<Rightarrow> bytes" where
  "status_Bytes s = map (\<lambda>i. ucast (drop_bit (8 * i) s)) [3, 2, 1, 0]"

section \<open>Properties\<close>

lemma Valid_iff: "Valid s = None \<longleftrightarrow> s \<in> {Unknown, Processing, Rejected, Accepted}"
  by (auto simp: Valid_def)

lemma Decided_Fetched: "Decided s \<Longrightarrow> Fetched s"
  by (simp add: Fetched_def)

text \<open>
  Status values survive JSON: marshalling succeeds exactly on the four named values, and
  unmarshalling what was marshalled restores the status, whatever the receiver held.
\<close>

theorem status_json_roundtrip:
  "(case status_MarshalJSON s of
      Inr b \<Rightarrow> Valid s = None \<and> status_UnmarshalJSON r b = (s, None)
    | Inl e \<Rightarrow> e = errUnknownStatus \<and> s \<notin> {Unknown, Processing, Rejected, Accepted})"
  by (auto simp: status_MarshalJSON_def status_UnmarshalJSON_def Valid_def status_String_def
      status_defs quoted_def)

end
