(* ===== verification/Vertex.thy ===== *)
theory Vertex
  imports Choices
begin

text \<open>
  The interfaces the consensus code is written against: \<^verbatim>\<open>choices.Decidable\<close>
  (default/snow/choices/decidable.go), \<^verbatim>\<open>avalanche.Vertex\<close>
  (default/snow/consensus/avalanche/vertex.go), \<^verbatim>\<open>snowstorm.Tx\<close>
  (default/snow/consensus/snowstorm/tx.go) and \<^verbatim>\<open>ParallelVertex\<close> (pkg/consensus/dag.go).
  A Go interface value is an object with a table of methods; the tables are records, the object
  type is a type variable, and a method that mutates its receiver returns it. The documented laws
  of \<^verbatim>\<open>Decidable\<close> are a locale, interpreted on \<^verbatim>\<open>Block\<close> and \<^verbatim>\<open>Transaction\<close> in the
  theories of package \<^verbatim>\<open>blockchain\<close>.
\<close>

section \<open>Method tables\<close>

record 't tx_methods =
  tx_ID :: "'t \<Rightarrow> ID"
  tx_Accept :: "'t \<Rightarrow> 't \<times> go_error option"
  tx_Reject :: "'t \<Rightarrow> 't \<times> go_error option"
  tx_Status :: "'t \<Rightarrow> Status"
  tx_Verify :: "'t \<Rightarrow> go_error option"
  tx_InputIDs :: "'t \<Rightarrow> ID list res"

record ('v, 't) vertex_methods =
  v_ID :: "'v \<Rightarrow> ID"
  v_Accept :: "'v \<Rightarrow> 'v \<times> go_error option"
  v_Reject :: "'v \<Rightarrow> 'v \<times> go_error option"
  v_Status :: "'v \<Rightarrow> Status"
  v_Parents :: "'v \<Rightarrow> 'v list res"
  v_Height :: "'v \<Rightarrow> uint64 res"
  v_Txs :: "'v \<Rightarrow> 't list res"
  v_Bytes :: "'v \<Rightarrow> bytes"
  v_Verify :: "'v \<Rightarrow> go_error option"
  v_Priority :: "'v \<Rightarrow> uint64"

section \<open>The contract of Decidable\<close>

locale decidable =
  fixes ID_of :: "'a \<Rightarrow> ID"
    and Accept_on :: "'a \<Rightarrow> 'a \<times> go_error option"
    and Reject_on :: "'a \<Rightarrow> 'a \<times> go_error option"
    and Status_of :: "'a \<Rightarrow> Status"
  assumes Accept_ID: "ID_of (fst (Accept_on a)) = ID_of a"
    and Reject_ID: "ID_of (fst (Reject_on a)) = ID_of a"
    and Accept_Status: "snd (Accept_on a) = None \<Longrightarrow> Status_of (fst (Accept_on a)) = Accepted"
    and Reject_Status: "snd (Reject_on a) = None \<Longrightarrow> Status_of (fst (Reject_on a)) = Rejected"
begin

lemma decided_after_Accept: "Accept_on a = (a', None) \<Longrightarrow> Decided (Status_of a')"
  using Accept_Status [of a] by (simp add: Decided_def)

lemma decided_after_Reject: "Reject_on a = (a', None) \<Longrightarrow> Decided (Status_of a')"
  using Reject_Status [of a] by (simp add: Decided_def)

lemma last_decision_wins:
  "Accept_on a = (b, None) \<Longrightarrow> Reject_on b = (c, None) \<Longrightarrow>
   Status_of c = Rejected \<and> ID_of c = ID_of a"
  using Reject_Status [of b] Reject_ID [of b] Accept_ID [of a] by simp

end

section \<open>VertexAdapter\<close>

text \<open>
  pkg/consensus/dag.go: a vertex with a priority. The pointer argument may be nil (\<^term>\<open>None\<close>).
\<close>

record 'v VertexAdapter =
  va_Vertex :: 'v
  va_priority :: uint64

definition NewVertexAdapter :: "'v option \<Rightarrow> uint64 \<Rightarrow> 'v VertexAdapter res" where
  "NewVertexAdapter vertex priority =
     (case vertex of
        None \<Rightarrow> Inl (Err ''nil vertex'')
      | Some v \<Rightarrow> Inr \<lparr>va_Vertex = v, va_priority = priority\<rparr>)"

definition GetProcessingPriority :: "'v VertexAdapter \<Rightarrow> uint64" where
  "GetProcessingPriority va = va_priority va"

section \<open>The contract of a DAG frontier\<close>

text \<open>
  What a component that keeps a DAG of vertices promises of its frontier: it is the set of
  vertices that are not a parent of any vertex. Interpreted on \<^verbatim>\<open>ParallelDAG\<close>, which maintains
  the frontier incrementally, and on \<^verbatim>\<open>ParallelEngine\<close>, which recomputes it.
\<close>

locale frontier_view =
  fixes nodes :: "'s \<Rightarrow> ID set"
    and parents :: "'s \<Rightarrow> ID \<Rightarrow> ID set"
    and front :: "'s \<Rightarrow> ID set"
    and inv :: "'s \<Rightarrow> bool"
  assumes finite_nodes: "inv s \<Longrightarrow> finite (nodes s)"
    and front_eq: "inv s \<Longrightarrow> front s = {v \<in> nodes s. \<forall>c \<in> nodes s. v \<notin> parents s c}"
begin

definition edge :: "'s \<Rightarrow> (ID \<times> ID) set" where
  "edge s = {(c, p). c \<in> nodes s \<and> p \<in> nodes s \<and> p \<in> parents s c}"

lemma wf_edge: "inv s \<Longrightarrow> acyclic (edge s) \<Longrightarrow> wf (edge s)"
proof (rule finite_acyclic_wf)
  assume "inv s"
  then have "finite (nodes s \<times> nodes s)" by (simp add: finite_nodes)
  then show "finite (edge s)" by (rule rev_finite_subset) (auto simp: edge_def)
qed

lemma front_covers:
  assumes "inv s" and "acyclic (edge s)" and "v \<in> nodes s"
  shows "\<exists>f \<in> front s. (f, v) \<in> (edge s)\<^sup>*"
  using assms(3)
proof (induction v rule: wf_induct_rule [OF wf_edge [OF assms(1,2)]])
  case (1 v)
  show ?case
  proof (cases "v \<in> front s")
    case True
    then show ?thesis by blast
  next
    case False
    with 1(2) front_eq [OF assms(1)] obtain c where "c \<in> nodes s" "v \<in> parents s c"
      by auto
    with 1(2) have c: "(c, v) \<in> edge s" by (simp add: edge_def)
    from 1(1) [OF c \<open>c \<in> nodes s\<close>] obtain f where "f \<in> front s" "(f, c) \<in> (edge s)\<^sup>*" by blast
    with c show ?thesis by (meson rtrancl.rtrancl_into_rtrancl)
  qed
qed

lemma front_nonempty:
  "inv s \<Longrightarrow> acyclic (edge s) \<Longrightarrow> nodes s \<noteq> {} \<Longrightarrow> front s \<noteq> {}"
  using front_covers by blast

end

end
