(* ===== verification/Sync.thy ===== *)
theory Sync
  imports Prelude
begin

text \<open>
  The concurrency idioms of the repository's own packages.

  \<^item> \<^verbatim>\<open>sync.RWMutex\<close>: a lock that is not re-entrant.
  \<^item> The bounded parallel loop that \<^verbatim>\<open>DefaultVertexProcessor.ProcessBatch\<close>
    (pkg/consensus/dag.go), \<^verbatim>\<open>ParallelEngine.BatchProcessVertices\<close>
    (pkg/consensus/adapter.go) and \<^verbatim>\<open>Blockchain.ProcessPendingBlocks\<close>
    (pkg/blockchain/blockchain.go) share: one goroutine per item, a semaphore of
    \<^verbatim>\<open>maxWorkers\<close> slots acquired before the goroutine is started and released when it
    ends, the results sent to a channel with room for all of them.
\<close>

section \<open>sync.RWMutex\<close>

record rwmutex =
  writer :: bool
  readers :: nat

definition free_mutex :: rwmutex where
  "free_mutex = \<lparr>writer = False, readers = 0\<rparr>"

definition Lock :: "rwmutex \<Rightarrow> rwmutex go" where
  "Lock m = (if writer m \<or> readers m > 0 then Block else Ret (m\<lparr>writer := True\<rparr>))"

definition Unlock :: "rwmutex \<Rightarrow> rwmutex" where
  "Unlock m = m\<lparr>writer := False\<rparr>"

definition RLock :: "rwmutex \<Rightarrow> rwmutex go" where
  "RLock m = (if writer m then Block else Ret (m\<lparr>readers := Suc (readers m)\<rparr>))"

definition RUnlock :: "rwmutex \<Rightarrow> rwmutex" where
  "RUnlock m = m\<lparr>readers := readers m - 1\<rparr>"

lemmas mutex_defs [go_defs] = free_mutex_def Lock_def Unlock_def RLock_def RUnlock_def

lemma RLock_after_Lock: "Lock m = Ret m' \<Longrightarrow> RLock m' = Block"
  by (auto simp: go_defs split: if_splits)

lemma Lock_free [simp]: "Lock free_mutex = Ret \<lparr>writer = True, readers = 0\<rparr>"
  by (simp add: go_defs)

lemma Unlock_held [simp]: "Unlock \<lparr>writer = True, readers = 0\<rparr> = free_mutex"
  by (simp add: go_defs)

lemma RLock_free [simp]: "RLock free_mutex = Ret \<lparr>writer = False, readers = 1\<rparr>"
  by (simp add: go_defs)

lemma RUnlock_held [simp]: "RUnlock \<lparr>writer = False, readers = Suc 0\<rparr> = free_mutex"
  by (simp add: go_defs)

section \<open>The bounded parallel loop\<close>

text \<open>
  A goroutine has been started with its item, or has done its work and is about to send the
  outcome. The work itself is one step on the shared state: the engine's runs under the engine's lock,
  the vertex processor's changes nothing, and the blockchain's, which holds no lock, is discussed where it is defined.
\<close>

datatype ('v, 'r) goroutine = Started 'v | Worked 'r

record ('s, 'v, 'r) loop =
  todo :: "'v list"
  running :: "('v, 'r) goroutine list"
  shared :: 's
  sent :: "'r list"

definition loop_init :: "'v list \<Rightarrow> 's \<Rightarrow> ('s, 'v, 'r) loop" where
  "loop_init vs s = \<lparr>todo = vs, running = [], shared = s, sent = []\<rparr>"

text \<open>
  The steps: the loop acquires a slot and starts the next goroutine; a started goroutine does its
  work; a goroutine that worked sends its outcome and releases its slot. The scheduler picks the
  step. \<open>work s v\<close> is the shared state after the goroutine's work and what it sends.
\<close>

inductive loop_step ::
  "nat \<Rightarrow> ('s \<Rightarrow> 'v \<Rightarrow> 's \<times> 'r) \<Rightarrow> ('s, 'v, 'r) loop \<Rightarrow> ('s, 'v, 'r) loop \<Rightarrow> bool"
  for cap work where
  spawn: "todo l = v # vs \<Longrightarrow> length (running l) < cap \<Longrightarrow>
     loop_step cap work l (l\<lparr>todo := vs, running := running l @ [Started v]\<rparr>)"
| work: "running l = gs @ Started v # hs \<Longrightarrow> work (shared l) v = (s', r) \<Longrightarrow>
     loop_step cap work l (l\<lparr>running := gs @ Worked r # hs, shared := s'\<rparr>)"
| send: "running l = gs @ Worked r # hs \<Longrightarrow>
     loop_step cap work l (l\<lparr>running := gs @ hs, sent := sent l @ [r]\<rparr>)"

definition loop_done :: "('s, 'v, 'r) loop \<Rightarrow> bool" where
  "loop_done l \<longleftrightarrow> todo l = [] \<and> running l = []"

inductive loop_reach ::
  "nat \<Rightarrow> ('s \<Rightarrow> 'v \<Rightarrow> 's \<times> 'r) \<Rightarrow> 'v list \<Rightarrow> 's \<Rightarrow> ('s, 'v, 'r) loop \<Rightarrow> bool"
  for cap work vs s where
  start: "loop_reach cap work vs s (loop_init vs s)"
| step: "loop_reach cap work vs s l \<Longrightarrow> loop_step cap work l l' \<Longrightarrow> loop_reach cap work vs s l'"

text \<open>The sequential execution of the same work, collecting the outcomes.\<close>

fun run_seq :: "('s \<Rightarrow> 'v \<Rightarrow> 's \<times> 'r) \<Rightarrow> 's \<Rightarrow> 'v list \<Rightarrow> 's \<times> 'r list" where
  "run_seq work s [] = (s, [])"
| "run_seq work s (v # vs) =
     (let (s', r) = work s v; (s'', rs) = run_seq work s' vs in (s'', r # rs))"

lemma run_seq_append:
  "run_seq work s (us @ vs) =
     (let (s', rs) = run_seq work s us; (s'', rs') = run_seq work s' vs in (s'', rs @ rs'))"
  by (induction us arbitrary: s) (auto split: prod.splits)

lemma run_seq_snoc:
  "run_seq work s us = (s', rs) \<Longrightarrow> work s' v = (s'', r) \<Longrightarrow>
   run_seq work s (us @ [v]) = (s'', rs @ [r])"
  by (simp add: run_seq_append)

subsection \<open>The semaphore bounds the number of goroutines\<close>

lemma loop_reach_cap: "loop_reach cap work vs s l \<Longrightarrow> length (running l) \<le> cap"
proof (induction rule: loop_reach.induct)
  case start
  then show ?case by (simp add: loop_init_def)
next
  case (step l l')
  from step.hyps(2) step.IH show ?case
    by (cases rule: loop_step.cases) auto
qed

subsection \<open>Linearisation\<close>

text \<open>
  Whatever the schedule, the shared state is the one of a sequential execution of the items worked
  on so far, and the outcomes sent or about to be sent are that execution's outcomes.
\<close>

primrec started :: "('v, 'r) goroutine \<Rightarrow> 'v list" where
  "started (Started v) = [v]"
| "started (Worked r) = []"

primrec worked :: "('v, 'r) goroutine \<Rightarrow> 'r list" where
  "worked (Started v) = []"
| "worked (Worked r) = [r]"

definition linearised ::
  "('s \<Rightarrow> 'v \<Rightarrow> 's \<times> 'r) \<Rightarrow> 'v list \<Rightarrow> 's \<Rightarrow> ('s, 'v, 'r) loop \<Rightarrow> 'v list \<Rightarrow> bool" where
  "linearised work vs s l us \<longleftrightarrow>
     mset vs = mset us + mset (concat (map started (running l))) + mset (todo l) \<and>
     (\<exists>rs. run_seq work s us = (shared l, rs) \<and>
           mset rs = mset (sent l) + mset (concat (map worked (running l))))"

lemma linearised_init: "linearised work vs s (loop_init vs s) []"
  by (simp add: linearised_def loop_init_def)

lemma linearised_work:
  assumes "linearised work vs s l us" and "running l = gs @ Started v # hs"
    and "work (shared l) v = (s', r)"
  shows "linearised work vs s (l\<lparr>running := gs @ Worked r # hs, shared := s'\<rparr>) (us @ [v])"
proof -
  from assms(1) obtain rs where rs: "run_seq work s us = (shared l, rs)"
    and m: "mset rs = mset (sent l) + mset (concat (map worked (running l)))"
    by (auto simp: linearised_def)
  from rs assms(3) have "run_seq work s (us @ [v]) = (s', rs @ [r])"
    by (rule run_seq_snoc)
  with assms(1,2) m show ?thesis
    by (auto simp: linearised_def)
qed

lemma loop_reach_linearised:
  "loop_reach cap work vs s l \<Longrightarrow> \<exists>us. linearised work vs s l us"
proof (induction rule: loop_reach.induct)
  case start
  show ?case by (rule exI) (rule linearised_init)
next
  case (step l l')
  then obtain us where us: "linearised work vs s l us" by blast
  from step.hyps(2) show ?case
  proof (cases rule: loop_step.cases)
    case (spawn v ws)
    with us have "linearised work vs s l' us" by (auto simp: linearised_def)
    then show ?thesis by blast
  next
    case (work gs v hs s' r)
    with linearised_work [OF us, of gs v hs s' r] show ?thesis by blast
  next
    case (send gs r hs)
    with us have "linearised work vs s l' us" by (auto simp: linearised_def)
    then show ?thesis by blast
  qed
qed

lemma loop_done_linearised:
  assumes "loop_reach cap work vs s l" and "loop_done l"
  shows "\<exists>us rs. mset us = mset vs \<and> run_seq work s us = (shared l, rs) \<and> mset (sent l) = mset rs"
proof -
  from loop_reach_linearised [OF assms(1)] obtain us where "linearised work vs s l us" ..
  with assms(2) show ?thesis
    by (auto simp: linearised_def loop_done_def)
qed

subsection \<open>Overtaking\<close>

text \<open>
  The goroutines are started in the order of the list and at most \<open>cap\<close> of them are running, so the
  order in which the items are worked on differs little from the list: the first \<open>k\<close> items worked
  on are among the first \<open>k + cap - 1\<close> of the list. With one worker the two orders are the same.
\<close>

definition nearly_in_order :: "nat \<Rightarrow> 'v list \<Rightarrow> 'v list \<Rightarrow> bool" where
  "nearly_in_order cap vs us \<longleftrightarrow>
     mset us = mset vs \<and> (\<forall>k. mset (take k us) \<subseteq># mset (take (k + cap - 1) vs))"

lemma mset_take_mono: "m \<le> n \<Longrightarrow> mset (take m xs) \<subseteq># mset (take n xs)"
  by (metis le_iff_add mset_subset_eq_add_left mset_append take_add)

lemma nearly_in_order_1:
  assumes "nearly_in_order 1 vs us"
  shows "us = vs"
proof (rule take_equalityI, rule allI)
  fix k
  have len: "length us = length vs" using assms by (metis mset_eq_length nearly_in_order_def)
  have eq: "mset (take k us) = mset (take k vs)" for k
  proof (rule subset_mset.antisym)
    show "mset (take k us) \<subseteq># mset (take k vs)" using assms by (simp add: nearly_in_order_def)
    then show "mset (take k vs) \<subseteq># mset (take k us)"
      by (metis len length_take mset_subset_size nat_less_le size_mset subset_mset.le_less)
  qed
  show "take k us = take k vs"
  proof (induction k)
    case (Suc k)
    show ?case
    proof (cases "k < length vs")
      case True
      then have "add_mset (us ! k) (mset (take k us)) = add_mset (vs ! k) (mset (take k vs))"
        using eq [of "Suc k"] len by (simp add: take_Suc_conv_app_nth)
      then have "us ! k = vs ! k" using eq [of k] by simp
      with Suc True len show ?thesis by (simp add: take_Suc_conv_app_nth)
    qed (use Suc len in simp)
  qed simp
qed

lemma drop_tl: "v # ws = drop n vs \<Longrightarrow> ws = drop (Suc n) vs"
  by (metis drop_Suc list.sel(3) tl_drop)

definition in_turn :: "nat \<Rightarrow> 'v list \<Rightarrow> ('s, 'v, 'r) loop \<Rightarrow> 'v list \<Rightarrow> bool" where
  "in_turn cap vs l us \<longleftrightarrow>
     todo l = drop (length us + length (concat (map started (running l)))) vs \<and>
     (\<forall>k. mset (take k us) \<subseteq># mset (take (k + cap - 1) vs))"

lemma started_length: "length (concat (map started gs)) \<le> length gs"
proof (induction gs)
  case (Cons g gs)
  then show ?case by (cases g) auto
qed simp

lemma in_turn_work:
  assumes lin: "linearised work vs s l us" and turn: "in_turn cap vs l us" and cap: "length (running l) \<le> cap"
    and l: "running l = gs @ Started v # hs"
  shows "in_turn cap vs (l\<lparr>running := gs @ Worked r # hs, shared := s'\<rparr>) (us @ [v])"
proof -
  let ?st = "concat (map started (running l))"
  let ?d = "length us + length ?st"
  have "mset (take ?d vs) + mset (drop ?d vs) = mset vs" by (metis append_take_drop_id mset_append)
  then have st: "mset (take ?d vs) = mset us + mset ?st"
    using lin turn by (metis (no_types) add_right_cancel in_turn_def linearised_def)
  have d: "?d \<le> Suc (length us) + cap - 1" using started_length [of "running l"] cap by simp
  have "mset (us @ [v]) \<subseteq># mset us + mset ?st" by (simp add: l)
  also have "\<dots> = mset (take ?d vs)" using st by simp
  also have "\<dots> \<subseteq># mset (take (Suc (length us) + cap - 1) vs)" using d by (rule mset_take_mono)
  finally have new: "mset (us @ [v]) \<subseteq># mset (take (Suc (length us) + cap - 1) vs)" .
  have "mset (take k (us @ [v])) \<subseteq># mset (take (k + cap - 1) vs)" for k
  proof (cases "k \<le> length us")
    case True
    with turn show ?thesis by (simp add: in_turn_def)
  next
    case False
    then have "mset (take (Suc (length us) + cap - 1) vs) \<subseteq># mset (take (k + cap - 1) vs)"
      by (intro mset_take_mono) simp
    with new False show ?thesis by (simp add: subset_mset.order_trans)
  qed
  moreover have "todo l = drop (length (us @ [v]) + length (concat (map started (gs @ Worked r # hs)))) vs"
    using turn unfolding in_turn_def l by simp
  ultimately show ?thesis by (simp add: in_turn_def)
qed

lemma loop_reach_in_turn:
  "loop_reach cap work vs s l \<Longrightarrow> \<exists>us. linearised work vs s l us \<and> in_turn cap vs l us"
proof (induction rule: loop_reach.induct)
  case start
  have "in_turn cap vs (loop_init vs s) []" by (simp add: in_turn_def loop_init_def)
  with linearised_init show ?case by (intro exI conjI)
next
  case (step l l')
  then obtain us where us: "linearised work vs s l us" "in_turn cap vs l us" by blast
  from step.hyps(2) show ?case
  proof (cases rule: loop_step.cases)
    case (spawn v ws)
    have t: "todo l = drop (length us + length (concat (map started (running l)))) vs"
      using us(2) unfolding in_turn_def by (rule conjunct1)
    have "ws = drop (Suc (length us + length (concat (map started (running l))))) vs"
      by (rule drop_tl) (rule trans [OF spawn(2) [symmetric] t])
    then have "in_turn cap vs l' us" using us(2) spawn(1) by (simp add: in_turn_def)
    moreover have "linearised work vs s l' us" using us(1) spawn by (auto simp: linearised_def)
    ultimately show ?thesis by blast
  next
    case (work gs v hs s' r)
    with linearised_work [OF us(1), of gs v hs s' r] in_turn_work [OF us loop_reach_cap [OF step.hyps(1)] work(2)]
    show ?thesis by blast
  next
    case (send gs r hs)
    with us have "linearised work vs s l' us" "in_turn cap vs l' us" by (auto simp: linearised_def in_turn_def)
    then show ?thesis by blast
  qed
qed

lemma loop_done_in_turn:
  assumes "loop_reach cap work vs s l" and "loop_done l"
  shows "\<exists>us rs. nearly_in_order cap vs us \<and> run_seq work s us = (shared l, rs) \<and> mset (sent l) = mset rs"
proof -
  from loop_reach_in_turn [OF assms(1)] obtain us where "linearised work vs s l us" "in_turn cap vs l us" by blast
  with assms(2) show ?thesis
    by (auto simp: linearised_def in_turn_def nearly_in_order_def loop_done_def)
qed

subsection \<open>No deadlock, and termination\<close>

lemma loop_progress:
  assumes "0 < cap" and "\<not> loop_done l" and "length (running l) \<le> cap"
  shows "\<exists>l'. loop_step cap work l l'"
proof (cases "running l")
  case Nil
  with assms obtain v vs where "todo l = v # vs"
    by (auto simp: loop_done_def neq_Nil_conv)
  moreover from Nil assms(1) have "length (running l) < cap" by simp
  ultimately show ?thesis by (blast intro: loop_step.spawn)
next
  case (Cons g gs)
  show ?thesis
  proof (cases g)
    case (Started v)
    obtain s' r where "work (shared l) v = (s', r)" by (cases "work (shared l) v")
    moreover from Cons Started have "running l = [] @ Started v # gs" by simp
    ultimately show ?thesis by (blast intro: loop_step.work)
  next
    case (Worked r)
    with Cons have "running l = [] @ Worked r # gs" by simp
    then show ?thesis by (blast intro: loop_step.send)
  qed
qed

primrec goroutine_cost :: "('v, 'r) goroutine \<Rightarrow> nat" where
  "goroutine_cost (Started v) = 2"
| "goroutine_cost (Worked r) = 1"

definition loop_measure :: "('s, 'v, 'r) loop \<Rightarrow> nat" where
  "loop_measure l = 3 * length (todo l) + sum_list (map goroutine_cost (running l))"

lemma loop_step_measure: "loop_step cap work l l' \<Longrightarrow> loop_measure l' < loop_measure l"
  by (cases rule: loop_step.cases) (auto simp: loop_measure_def)

lemma loop_step_wf: "wfP (\<lambda>l' l. loop_step cap work l l')"
  by (rule wfp_if_convertible_to_nat [where f = loop_measure]) (rule loop_step_measure)

text \<open>
  Every schedule of a call ends with the loop done, \<open>S\<close> being the states the call goes through: a
  state that is not final has a next step, and there is no infinite sequence of steps.
\<close>

definition every_schedule_ends ::
  "nat \<Rightarrow> ('s \<Rightarrow> 'v \<Rightarrow> 's \<times> 'r) \<Rightarrow> (('s, 'v, 'r) loop \<Rightarrow> bool) \<Rightarrow> bool" where
  "every_schedule_ends cap work S \<longleftrightarrow>
     (\<forall>l. S l \<longrightarrow> loop_done l \<or> (\<exists>l'. loop_step cap work l l')) \<and>
     \<not> (\<exists>ls. S (ls 0) \<and> (\<forall>i. loop_step cap work (ls i) (ls (Suc i))))"

lemma loop_every_schedule_ends:
  assumes "0 < cap"
  shows "every_schedule_ends cap work (loop_reach cap work vs s)"
  unfolding every_schedule_ends_def
proof (intro conjI allI impI notI)
  show "loop_done l \<or> (\<exists>l'. loop_step cap work l l')" if "loop_reach cap work vs s l" for l
    using loop_progress [OF assms _ loop_reach_cap [OF that], of work] by blast
  assume "\<exists>ls. loop_reach cap work vs s (ls 0) \<and> (\<forall>i. loop_step cap work (ls i) (ls (Suc i)))"
  then obtain ls where "\<forall>i. loop_step cap work (ls i) (ls (Suc i))" by blast
  then show False using loop_step_wf [of cap work] by (auto simp: wfp_def wf_iff_no_infinite_down_chain)
qed

lemma loop_can_finish:
  assumes "0 < cap" and "loop_reach cap work vs s l"
  shows "\<exists>l'. loop_reach cap work vs s l' \<and> loop_done l'"
  using assms(2)
proof (induction "loop_measure l" arbitrary: l rule: less_induct)
  case less
  show ?case
  proof (cases "loop_done l")
    case True
    with less.prems show ?thesis by blast
  next
    case False
    with assms(1) loop_reach_cap [OF less.prems]
    obtain l' where l': "loop_step cap work l l'" using loop_progress by blast
    with less.prems have "loop_reach cap work vs s l'" by (rule loop_reach.step)
    with less.hyps loop_step_measure [OF l'] show ?thesis by blast
  qed
qed

section \<open>Tasks that keep an invariant\<close>

text \<open>
  What a component promises of the work it hands to the loop: every item keeps the component's
  invariant. The loop then keeps it under every schedule.
\<close>

locale loop_task =
  fixes work :: "'s \<Rightarrow> 'v \<Rightarrow> 's \<times> 'r"
    and inv :: "'s \<Rightarrow> bool"
  assumes work_inv: "inv s \<Longrightarrow> inv (fst (work s v))"
begin

lemma run_seq_inv: "inv s \<Longrightarrow> inv (fst (run_seq work s vs))"
proof (induction vs arbitrary: s)
  case Nil
  then show ?case by simp
next
  case (Cons v vs)
  obtain s' r where s': "work s v = (s', r)" by (cases "work s v")
  with work_inv [OF Cons.prems, of v] have "inv (fst (run_seq work s' vs))"
    by (simp add: Cons.IH)
  with s' show ?case by (cases "run_seq work s' vs") simp
qed

lemma reach_inv:
  assumes "loop_reach cap work vs s l" and "inv s"
  shows "inv (shared l)"
proof -
  from loop_reach_linearised [OF assms(1)] obtain us rs
    where "run_seq work s us = (shared l, rs)"
    by (auto simp: linearised_def)
  with run_seq_inv [OF assms(2), of us] show ?thesis by simp
qed

end

section \<open>Reading the error channel\<close>

text \<open>
  \<^verbatim>\<open>for err := range errs { if err != nil { return err } }\<close>: the first error sent. A goroutine
  sends only when its work failed.
\<close>

definition first_error :: "go_error option list \<Rightarrow> go_error option" where
  "first_error rs = (case [e. Some e \<leftarrow> rs] of [] \<Rightarrow> None | e # _ \<Rightarrow> Some e)"

lemma first_error_None: "first_error rs = None \<longleftrightarrow> set rs \<subseteq> {None}"
  by (induction rs) (auto simp: first_error_def split: option.splits list.splits)

lemma first_error_Some: "first_error rs = Some e \<Longrightarrow> Some e \<in> set rs"
  by (induction rs) (auto simp: first_error_def split: option.splits list.splits)

end
