(* ===== verification/GoSort.thy ===== *)
theory GoSort
  imports Prelude
begin

text \<open>
  The three hand-written in-place sorts of the repository, over a key:
  \<^item> \<^verbatim>\<open>sortVerticesByPriority\<close> (pkg/consensus/adapter.go): bubble sort, descending;
  \<^item> \<^verbatim>\<open>slices.Sort\<close> (pkg/utils/compatibility/slices_compatibility.go): insertion sort;
  \<^item> the exchange sort inside \<^verbatim>\<open>SetJSON.MarshalJSON\<close> and
    \<^verbatim>\<open>SampleableSetJSON.MarshalJSON\<close> (pkg/utils/set).
  Each is a sequence of guarded swaps on an index range, as the loops are; the contract they share
  is the locale \<open>in_place_sort\<close>.
\<close>

section \<open>Model\<close>

text \<open>\<^verbatim>\<open>for j := 0; j < m; j++ { if less(s[j], s[j+1]) swap }\<close>\<close>

definition bubble_pass :: "('a \<Rightarrow> 'k::linorder) \<Rightarrow> nat \<Rightarrow> 'a list \<Rightarrow> 'a list" where
  "bubble_pass key m xs =
     foldl (\<lambda>ys j. if key (ys ! j) < key (ys ! Suc j) then swap ys j (Suc j) else ys) xs [0..<m]"

definition bubble_sort :: "('a \<Rightarrow> 'k::linorder) \<Rightarrow> 'a list \<Rightarrow> 'a list" where
  "bubble_sort key xs = foldl (\<lambda>ys i. bubble_pass key (length xs - i - 1) ys) xs [0..<length xs]"

text \<open>\<^verbatim>\<open>for j := i; j > 0 && s[j] < s[j-1]; j-- { swap }\<close>\<close>

fun sink :: "nat \<Rightarrow> 'a::linorder list \<Rightarrow> 'a list" where
  "sink 0 xs = xs"
| "sink (Suc j) xs = (if xs ! Suc j < xs ! j then sink j (swap xs (Suc j) j) else xs)"

definition slices_Sort :: "'a::linorder list \<Rightarrow> 'a list" where
  "slices_Sort xs = foldl (\<lambda>ys i. sink i ys) xs [1..<length xs]"

text \<open>\<^verbatim>\<open>for j := i+1; j < n; j++ { if s[i] > s[j] swap }\<close>\<close>

definition exchange_row :: "nat \<Rightarrow> 'a::linorder list \<Rightarrow> 'a list" where
  "exchange_row i xs =
     foldl (\<lambda>ys j. if ys ! j < ys ! i then swap ys i j else ys) xs [Suc i..<length xs]"

definition exchange_sort :: "'a::linorder list \<Rightarrow> 'a list" where
  "exchange_sort xs = foldl (\<lambda>ys i. exchange_row i ys) xs [0..<length xs]"

section \<open>The contract of a sort\<close>

locale in_place_sort =
  fixes sort_of :: "'a list \<Rightarrow> 'a list"
    and rel :: "'a \<Rightarrow> 'a \<Rightarrow> bool"
  assumes mset_sort_of: "mset (sort_of xs) = mset xs"
    and sorted_sort_of: "sorted_wrt rel (sort_of xs)"
begin

lemma length_sort_of: "length (sort_of xs) = length xs"
  using mset_sort_of [of xs] by (rule mset_eq_length)

lemma set_sort_of: "set (sort_of xs) = set xs"
  using mset_sort_of [of xs] by (rule mset_eq_setD)

lemma distinct_sort_of: "distinct (sort_of xs) = distinct xs"
  using mset_sort_of [of xs] by (metis mset_eq_imp_distinct_iff)

end

section \<open>Folding guarded swaps\<close>

lemma foldl_upt_Suc: "i \<le> m \<Longrightarrow> foldl f xs [i..<Suc m] = f (foldl f xs [i..<m]) m"
  by (simp add: upt_Suc)

lemma length_foldl_same:
  "(\<And>ys j. length (f ys j) = length ys) \<Longrightarrow> length (foldl f xs js) = length xs"
  by (induction js arbitrary: xs) auto

subsection \<open>Bubble sort\<close>

lemma length_bubble_pass [simp]: "length (bubble_pass key m xs) = length xs"
  unfolding bubble_pass_def by (rule length_foldl_same) simp

lemma bubble_pass_Suc:
  "bubble_pass key (Suc m) xs =
     (let ys = bubble_pass key m xs
      in if key (ys ! m) < key (ys ! Suc m) then swap ys m (Suc m) else ys)"
  by (simp add: bubble_pass_def Let_def)

lemma mset_bubble_pass: "m < length xs \<Longrightarrow> mset (bubble_pass key m xs) = mset xs"
proof (induction m)
  case 0
  then show ?case by (simp add: bubble_pass_def)
next
  case (Suc m)
  then show ?case by (simp add: bubble_pass_Suc Let_def mset_swap)
qed

lemma drop_bubble_pass: "m < length xs \<Longrightarrow> drop (Suc m) (bubble_pass key m xs) = drop (Suc m) xs"
proof (induction m)
  case 0
  then show ?case by (simp add: bubble_pass_def)
next
  case (Suc m)
  then have "drop (Suc m) (bubble_pass key m xs) = drop (Suc m) xs" by simp
  then have "drop (Suc (Suc m)) (bubble_pass key m xs) = drop (Suc (Suc m)) xs"
    by (metis drop_Suc tl_drop)
  with Suc.prems show ?case
    by (auto simp: bubble_pass_Suc Let_def swap_def)
qed

lemma bubble_pass_min:
  "m < length xs \<Longrightarrow> a \<le> m \<Longrightarrow>
   key (bubble_pass key m xs ! m) \<le> key (bubble_pass key m xs ! a)"
proof (induction m arbitrary: a)
  case 0
  then show ?case by simp
next
  case (Suc m)
  let ?ys = "bubble_pass key m xs"
  have IH: "key (?ys ! m) \<le> key (?ys ! b)" if "b \<le> m" for b
    using Suc that by simp
  show ?case
  proof (cases "key (?ys ! m) < key (?ys ! Suc m)")
    case True
    with Suc.prems IH [of a] show ?thesis
      by (auto simp: bubble_pass_Suc Let_def nth_swap)
  next
    case False
    with Suc.prems IH [of a] show ?thesis
      by (cases "a = Suc m") (auto simp: bubble_pass_Suc Let_def)
  qed
qed

text \<open>After \<open>i\<close> passes the last \<open>i\<close> positions are final.\<close>

definition settled :: "('a \<Rightarrow> 'k::linorder) \<Rightarrow> nat \<Rightarrow> 'a list \<Rightarrow> bool" where
  "settled key k xs \<longleftrightarrow>
     (\<forall>a b. a < b \<longrightarrow> b < length xs \<longrightarrow> k \<le> b \<longrightarrow> key (xs ! b) \<le> key (xs ! a))"

lemma bubble_pass_settled:
  assumes "settled key (Suc m) xs" and m: "m < length xs"
  shows "settled key m (bubble_pass key m xs)"
  unfolding settled_def
proof (intro allI impI)
  fix a b
  let ?ys = "bubble_pass key m xs"
  assume ab: "a < b" "b < length ?ys" "m \<le> b"
  have tail: "?ys ! c = xs ! c" if "Suc m \<le> c" "c < length xs" for c
    using drop_bubble_pass [OF m, of key] that m
    by (metis add_diff_inverse_nat length_bubble_pass less_Suc_eq_le not_less nth_drop Suc_leI)
  show "key (?ys ! b) \<le> key (?ys ! a)"
  proof (cases "b = m")
    case True
    with bubble_pass_min [OF m, of a] ab show ?thesis by simp
  next
    case False
    with ab have b: "Suc m \<le> b" "b < length xs" by auto
    have low: "key (xs ! b) \<le> key x" if "x \<in> set (take (Suc m) xs)" for x
    proof -
      from that obtain c where "c < Suc m" "c < length xs" "x = xs ! c"
        by (auto simp: in_set_conv_nth)
      with assms(1) b show ?thesis by (auto simp: settled_def)
    qed
    show ?thesis
    proof (cases "a \<le> m")
      case True
      have "mset (take (Suc m) ?ys) = mset (take (Suc m) xs)"
        using mset_bubble_pass [OF m, of key] drop_bubble_pass [OF m, of key]
        by (metis add_right_cancel append_take_drop_id mset_append)
      then have "set (take (Suc m) ?ys) = set (take (Suc m) xs)" by (rule mset_eq_setD)
      moreover have "?ys ! a \<in> set (take (Suc m) ?ys)"
        using True m by (auto simp: in_set_conv_nth intro!: exI [of _ a])
      ultimately show ?thesis using low tail [OF b] by simp
    next
      case False
      with ab b tail [of a] tail [OF b] assms(1) show ?thesis
        by (simp add: settled_def)
    qed
  qed
qed

lemma length_bubble_fold [simp]:
  "length (foldl (\<lambda>ys i. bubble_pass key (n - Suc i) ys) xs is) = length xs"
  by (rule length_foldl_same) simp

lemma bubble_fold:
  "k \<le> length xs \<Longrightarrow>
   settled key (length xs - k) (foldl (\<lambda>ys i. bubble_pass key (length xs - i - 1) ys) xs [0..<k]) \<and>
   mset (foldl (\<lambda>ys i. bubble_pass key (length xs - i - 1) ys) xs [0..<k]) = mset xs"
proof (induction k)
  case 0
  then show ?case by (simp add: settled_def)
next
  case (Suc k)
  let ?ys = "foldl (\<lambda>ys i. bubble_pass key (length xs - i - 1) ys) xs [0..<k]"
  from Suc have k: "Suc (length xs - k - 1) = length xs - k" "length xs - k - 1 < length ?ys"
    by auto
  with Suc bubble_pass_settled [of key "length xs - k - 1" ?ys]
    mset_bubble_pass [of "length xs - k - 1" ?ys key]
  show ?case by simp
qed

lemma mset_bubble_sort: "mset (bubble_sort key xs) = mset xs"
  unfolding bubble_sort_def using bubble_fold [of "length xs" xs key] by blast

lemma sorted_bubble_sort: "sorted_wrt (\<lambda>a b. key b \<le> key a) (bubble_sort key xs)"
proof -
  have "settled key 0 (bubble_sort key xs)"
    unfolding bubble_sort_def using bubble_fold [of "length xs" xs key] by simp
  then show ?thesis
    by (auto simp: settled_def sorted_wrt_iff_nth_less)
qed

interpretation bubble: in_place_sort "bubble_sort key" "\<lambda>a b. key b \<le> key a"
  for key :: "'a \<Rightarrow> 'k::linorder"
  by unfold_locales (rule mset_bubble_sort, rule sorted_bubble_sort)

subsection \<open>Insertion sort\<close>

lemma length_sink [simp]: "length (sink j xs) = length xs"
  by (induction j xs rule: sink.induct) auto

lemma mset_sink: "j < length xs \<Longrightarrow> mset (sink j xs) = mset xs"
  by (induction j xs rule: sink.induct) (auto simp: mset_swap)

text \<open>Sorted up to \<open>m\<close> but for position \<open>j\<close>, whose element may be too small for it.\<close>

definition nearly_sorted :: "nat \<Rightarrow> nat \<Rightarrow> 'a::linorder list \<Rightarrow> bool" where
  "nearly_sorted j m xs \<longleftrightarrow>
     (\<forall>a b. a < b \<longrightarrow> b \<le> m \<longrightarrow> a \<noteq> j \<longrightarrow> b \<noteq> j \<longrightarrow> xs ! a \<le> xs ! b) \<and>
     (\<forall>b. j < b \<longrightarrow> b \<le> m \<longrightarrow> xs ! j \<le> xs ! b)"

definition sorted_upto :: "nat \<Rightarrow> 'a::linorder list \<Rightarrow> bool" where
  "sorted_upto m xs \<longleftrightarrow> (\<forall>a b. a < b \<longrightarrow> b < m \<longrightarrow> xs ! a \<le> xs ! b)"

lemma nearly_sorted_swap:
  assumes "nearly_sorted (Suc j) m xs" and "xs ! Suc j < xs ! j" and "Suc j \<le> m" "m < length xs"
  shows "nearly_sorted j m (swap xs (Suc j) j)"
  unfolding nearly_sorted_def
proof (intro conjI allI impI)
  fix a b
  assume "a < b" "b \<le> m" "a \<noteq> j" "b \<noteq> j"
  with assms show "swap xs (Suc j) j ! a \<le> swap xs (Suc j) j ! b"
    by (auto simp: nth_swap nearly_sorted_def)
next
  fix b
  assume "j < b" "b \<le> m"
  with assms show "swap xs (Suc j) j ! j \<le> swap xs (Suc j) j ! b"
    by (auto simp: nth_swap nearly_sorted_def)
qed

lemma nearly_sorted_stop:
  assumes "nearly_sorted (Suc j) m xs" and "\<not> xs ! Suc j < xs ! j" and "Suc j \<le> m"
  shows "sorted_upto (Suc m) xs"
  unfolding sorted_upto_def
proof (intro allI impI)
  fix a b
  assume ab: "a < b" "b < Suc m"
  show "xs ! a \<le> xs ! b"
  proof (cases "b = Suc j")
    case True
    with ab assms have "xs ! a \<le> xs ! j"
      by (cases "a = j") (auto simp: nearly_sorted_def)
    with True assms(2) show ?thesis by simp
  next
    case False
    with ab assms show ?thesis by (cases "a = Suc j") (auto simp: nearly_sorted_def)
  qed
qed

lemma sink_sorted:
  "nearly_sorted j m xs \<Longrightarrow> j \<le> m \<Longrightarrow> m < length xs \<Longrightarrow> sorted_upto (Suc m) (sink j xs)"
proof (induction j xs rule: sink.induct)
  case (1 xs)
  show ?case
    unfolding sorted_upto_def
  proof (intro allI impI)
    fix a b
    assume "a < b" "b < Suc m"
    with 1 show "sink 0 xs ! a \<le> sink 0 xs ! b"
      by (cases "a = 0") (auto simp: nearly_sorted_def)
  qed
next
  case (2 j xs)
  show ?case
  proof (cases "xs ! Suc j < xs ! j")
    case True
    with 2 nearly_sorted_swap [of j m xs] show ?thesis by simp
  next
    case False
    with 2 nearly_sorted_stop [of j m xs] show ?thesis by simp
  qed
qed

lemma slices_Sort_fold:
  "0 < k \<Longrightarrow> k \<le> length xs \<Longrightarrow>
   sorted_upto k (foldl (\<lambda>ys i. sink i ys) xs [1..<k]) \<and>
   mset (foldl (\<lambda>ys i. sink i ys) xs [1..<k]) = mset xs"
proof (induction k)
  case 0
  then show ?case by simp
next
  case (Suc k)
  let ?ys = "foldl (\<lambda>ys i. sink i ys) xs [1..<k]"
  have len: "length ?ys = length xs" by (rule length_foldl_same) simp
  show ?case
  proof (cases "k = 0")
    case True
    then show ?thesis by (simp add: sorted_upto_def)
  next
    case False
    with Suc have IH: "sorted_upto k ?ys" "mset ?ys = mset xs" by auto
    from IH(1) have "nearly_sorted k k ?ys"
      by (auto simp: nearly_sorted_def sorted_upto_def)
    with Suc.prems len sink_sorted [of k k ?ys] mset_sink [of k ?ys] IH(2) False
    show ?thesis by (simp add: upt_Suc)
  qed
qed

lemma mset_slices_Sort: "mset (slices_Sort xs) = mset xs"
  unfolding slices_Sort_def using slices_Sort_fold [of "length xs" xs] by (cases "xs = []") auto

lemma sorted_slices_Sort: "sorted_wrt (\<le>) (slices_Sort xs)"
proof (cases "xs = []")
  case True
  then show ?thesis by (simp add: slices_Sort_def)
next
  case False
  then have "sorted_upto (length xs) (slices_Sort xs)"
    unfolding slices_Sort_def using slices_Sort_fold [of "length xs" xs] by simp
  moreover have "length (slices_Sort xs) = length xs"
    using mset_slices_Sort by (rule mset_eq_length)
  ultimately show ?thesis
    by (auto simp: sorted_upto_def sorted_wrt_iff_nth_less)
qed

interpretation insertion: in_place_sort "slices_Sort :: 'a::linorder list \<Rightarrow> 'a list" "(\<le>)"
  by unfold_locales (rule mset_slices_Sort, rule sorted_slices_Sort)

subsection \<open>Exchange sort\<close>

definition row_upto :: "nat \<Rightarrow> nat \<Rightarrow> 'a::linorder list \<Rightarrow> 'a list" where
  "row_upto i m xs =
     foldl (\<lambda>ys j. if ys ! j < ys ! i then swap ys i j else ys) xs [Suc i..<m]"

lemma length_row_upto [simp]: "length (row_upto i m xs) = length xs"
  unfolding row_upto_def by (rule length_foldl_same) simp

lemma row_upto_Suc:
  "Suc i \<le> m \<Longrightarrow> row_upto i (Suc m) xs =
     (let ys = row_upto i m xs in if ys ! m < ys ! i then swap ys i m else ys)"
  by (simp add: row_upto_def Let_def upt_Suc)

lemma take_swap: "n \<le> i \<Longrightarrow> n \<le> j \<Longrightarrow> take n (swap xs i j) = take n xs"
  by (simp add: swap_def)

lemma row_upto:
  assumes "Suc i \<le> m" and "m \<le> length xs"
  shows "mset (row_upto i m xs) = mset xs \<and> take i (row_upto i m xs) = take i xs \<and>
     (\<forall>b. i < b \<longrightarrow> b < m \<longrightarrow> row_upto i m xs ! i \<le> row_upto i m xs ! b)"
  using assms
proof (induction m rule: dec_induct)
  case base
  then show ?case by (auto simp: row_upto_def)
next
  case (step m)
  let ?ys = "row_upto i m xs"
  from step have IH: "mset ?ys = mset xs" "take i ?ys = take i xs"
    "\<And>b. i < b \<Longrightarrow> b < m \<Longrightarrow> ?ys ! i \<le> ?ys ! b"
    by auto
  show ?case
  proof (cases "?ys ! m < ?ys ! i")
    case True
    then have eq: "row_upto i (Suc m) xs = swap ?ys i m"
      using step.hyps by (simp add: row_upto_Suc Let_def)
    have "swap ?ys i m ! i \<le> swap ?ys i m ! b" if "i < b" "b < Suc m" for b
      using that step True IH(3) [of b] by (auto simp: nth_swap less_Suc_eq)
    with eq step IH(1,2) show ?thesis
      by (auto simp: take_swap mset_swap)
  next
    case False
    then have "row_upto i (Suc m) xs = ?ys"
      using step.hyps by (simp add: row_upto_Suc Let_def)
    with False IH show ?thesis by (auto simp: less_Suc_eq)
  qed
qed

definition row_done :: "nat \<Rightarrow> 'a::linorder list \<Rightarrow> bool" where
  "row_done i xs \<longleftrightarrow> (\<forall>a b. a < i \<longrightarrow> a < b \<longrightarrow> b < length xs \<longrightarrow> xs ! a \<le> xs ! b)"

lemma exchange_row_done:
  assumes "row_done i xs" and i: "i < length xs"
  shows "row_done (Suc i) (exchange_row i xs) \<and> mset (exchange_row i xs) = mset xs"
proof -
  let ?ys = "exchange_row i xs"
  have ys: "?ys = row_upto i (length xs) xs" by (simp add: exchange_row_def row_upto_def)
  from i have "Suc i \<le> length xs" by simp
  from row_upto [OF this order_refl]
  have m: "mset ?ys = mset xs" and t: "take i ?ys = take i xs"
    and r: "\<And>b. i < b \<Longrightarrow> b < length xs \<Longrightarrow> ?ys ! i \<le> ?ys ! b"
    unfolding ys by auto
  have len: "length ?ys = length xs" unfolding ys by simp
  from m t have "mset (drop i ?ys) = mset (drop i xs)"
    by (metis add_left_cancel append_take_drop_id mset_append)
  then have d: "set (drop i ?ys) = set (drop i xs)" by (rule mset_eq_setD)
  have "?ys ! a \<le> ?ys ! b" if "a < Suc i" "a < b" "b < length ?ys" for a b
  proof (cases "a = i")
    case True
    with that r len show ?thesis by simp
  next
    case False
    with that have a: "a < i" by simp
    with t have ya: "?ys ! a = xs ! a" by (metis nth_take)
    show ?thesis
    proof (cases "b < i")
      case True
      with t have "?ys ! b = xs ! b" by (metis nth_take)
      with ya a True i that assms(1) show ?thesis by (simp add: row_done_def)
    next
      case False
      with that have "?ys ! b \<in> set (drop i ?ys)"
        by (auto simp: in_set_conv_nth intro!: exI [of _ "b - i"])
      with d obtain c where "c < length xs - i" "?ys ! b = drop i xs ! c"
        by (auto simp: in_set_conv_nth)
      with ya a i assms(1) show ?thesis by (simp add: row_done_def)
    qed
  qed
  with m show ?thesis by (simp add: row_done_def)
qed

lemma exchange_fold:
  "k \<le> length xs \<Longrightarrow>
   row_done k (foldl (\<lambda>ys i. exchange_row i ys) xs [0..<k]) \<and>
   mset (foldl (\<lambda>ys i. exchange_row i ys) xs [0..<k]) = mset xs"
proof (induction k)
  case 0
  then show ?case by (simp add: row_done_def)
next
  case (Suc k)
  let ?ys = "foldl (\<lambda>ys i. exchange_row i ys) xs [0..<k]"
  from Suc have "length ?ys = length xs" by (metis Suc_leD mset_eq_length)
  with Suc exchange_row_done [of k ?ys] show ?case by simp
qed

lemma mset_exchange_sort: "mset (exchange_sort xs) = mset xs"
  unfolding exchange_sort_def using exchange_fold [of "length xs" xs] by simp

lemma sorted_exchange_sort: "sorted_wrt (\<le>) (exchange_sort xs)"
proof -
  have "row_done (length xs) (exchange_sort xs)"
    unfolding exchange_sort_def using exchange_fold [of "length xs" xs] by simp
  moreover have "length (exchange_sort xs) = length xs"
    using mset_exchange_sort by (rule mset_eq_length)
  ultimately show ?thesis
    by (auto simp: row_done_def sorted_wrt_iff_nth_less)
qed

interpretation exchange: in_place_sort "exchange_sort :: 'a::linorder list \<Rightarrow> 'a list" "(\<le>)"
  by unfold_locales (rule mset_exchange_sort, rule sorted_exchange_sort)

section \<open>Properties\<close>

text \<open>
  The hand-written sorts are correct: \<^verbatim>\<open>sortVerticesByPriority\<close>'s bubble sort returns a
  permutation of its input in descending order of the key, and \<^verbatim>\<open>slices.Sort\<close> and the exchange
  sort of the JSON encoders return the ascending permutation (the sorted list).
\<close>

theorem go_sorts_correct:
  fixes xs :: "'a list" and key :: "'a \<Rightarrow> 'k::linorder" and ys :: "'b::linorder list"
  shows "mset (bubble_sort key xs) = mset xs \<and>
     sorted_wrt (\<lambda>a b. key b \<le> key a) (bubble_sort key xs) \<and>
     slices_Sort ys = sort ys \<and> exchange_sort ys = sort ys"
proof (intro conjI)
  show "slices_Sort ys = sort ys"
    using properties_for_sort [OF insertion.mset_sort_of insertion.sorted_sort_of] by (rule sym)
  show "exchange_sort ys = sort ys"
    using properties_for_sort [OF exchange.mset_sort_of exchange.sorted_sort_of] by (rule sym)
qed (rule bubble.mset_sort_of, rule bubble.sorted_sort_of)

end
