(* ===== verification/ParallelEngine.thy ===== *)
theory ParallelEngine
  imports Vertex Sync GoSort
begin

text \<open>
  pkg/consensus/adapter.go: \<^verbatim>\<open>ParallelEngine\<close>, the conflict-resolving consensus engine.
  \<^verbatim>\<open>ProcessVertex\<close> records a vertex and the transactions that spend each input;
  \<^verbatim>\<open>DecideTxs\<close> repeatedly walks the frontier and accepts the transactions it can. Both hold the
  engine's lock, so each is one atomic step. The decisions the engine makes on the vertex and
  transaction objects are calls of their \<^verbatim>\<open>Accept\<close> and \<^verbatim>\<open>Reject\<close> methods; the model records
  those calls in \<open>calls\<close>, in order, and takes the error each returns from the method tables.
\<close>

section \<open>Model\<close>

datatype call = TxAccept ID | TxReject ID | VtxAccept ID | VtxReject ID

record 'v engine =
  e_running :: bool
  e_vertices :: "ID \<rightharpoonup> 'v"
  edgeMap :: "ID \<rightharpoonup> ID list"
  conflicts :: "ID \<rightharpoonup> ID set"
  e_maxWorkers :: int
  txsAccepted :: "ID set"
  txsRejected :: "ID set"
  calls :: "call list"

definition NewParallelEngine :: "int \<Rightarrow> 'v engine" where
  "NewParallelEngine n =
     \<lparr>e_running = False, e_vertices = Map.empty, edgeMap = Map.empty, conflicts = Map.empty,
      e_maxWorkers = (if n \<le> 0 then 4 else n), txsAccepted = {}, txsRejected = {}, calls = []\<rparr>"

definition log_call :: "call \<Rightarrow> 'v engine \<Rightarrow> 'v engine" where
  "log_call c e = e\<lparr>calls := calls e @ [c]\<rparr>"

definition decided :: "'v engine \<Rightarrow> ID \<Rightarrow> bool" where
  "decided e i \<longleftrightarrow> i \<in> txsAccepted e \<or> i \<in> txsRejected e"

subsection \<open>ProcessVertex\<close>

fun add_conflicts :: "ID \<Rightarrow> ID list \<Rightarrow> (ID \<rightharpoonup> ID set) \<Rightarrow> (ID \<rightharpoonup> ID set)" where
  "add_conflicts txID [] m = m"
| "add_conflicts txID (i # is) m =
     add_conflicts txID is
       (m(i \<mapsto> insert txID (case m i of None \<Rightarrow> {} | Some s \<Rightarrow> s)))"

fun register_txs :: "'t tx_methods \<Rightarrow> 't list \<Rightarrow> 'v engine \<Rightarrow> 'v engine \<times> go_error option" where
  "register_txs T [] e = (e, None)"
| "register_txs T (tx # txs) e =
     (let txID = tx_ID T tx in
      if decided e txID then register_txs T txs e
      else case tx_InputIDs T tx of
             Inl err \<Rightarrow> (e, Some err)
           | Inr inputs \<Rightarrow>
               register_txs T txs (e\<lparr>conflicts := add_conflicts txID inputs (conflicts e)\<rparr>))"

definition ProcessVertex ::
  "('v, 't) vertex_methods \<Rightarrow> 't tx_methods \<Rightarrow> 'v engine \<Rightarrow> 'v \<Rightarrow> 'v engine \<times> go_error option" where
  "ProcessVertex M T e vertex =
     (let vertexID = v_ID M vertex in
      if e_vertices e vertexID \<noteq> None then (e, None)
      else
        let e = e\<lparr>e_vertices := (e_vertices e)(vertexID \<mapsto> vertex)\<rparr> in
        case v_Parents M vertex of
          Inl err \<Rightarrow> (e, Some err)
        | Inr parents \<Rightarrow>
            let e = e\<lparr>edgeMap := (edgeMap e)(vertexID \<mapsto> map (v_ID M) parents)\<rparr> in
            (case v_Verify M vertex of
               Some _ \<Rightarrow> (log_call (VtxReject vertexID) e, snd (v_Reject M vertex))
             | None \<Rightarrow>
                 (case v_Txs M vertex of
                    Inl err \<Rightarrow> (e, Some err)
                  | Inr txs \<Rightarrow> register_txs T txs e)))"

subsection \<open>BatchProcessVertices\<close>

text \<open>
  \<^verbatim>\<open>sortVerticesByPriority\<close> is the bubble sort of \<open>GoSort\<close> on the priority. An element of the
  argument either implements \<^verbatim>\<open>ParallelVertex\<close> (\<^term>\<open>Inr v\<close>) or is skipped with a warning.
  The workers run \<^verbatim>\<open>ProcessVertex\<close> in the bounded parallel loop.
\<close>

definition sortVerticesByPriority :: "('v, 't) vertex_methods \<Rightarrow> 'v list \<Rightarrow> 'v list" where
  "sortVerticesByPriority M vs = bubble_sort (v_Priority M) vs"

definition parallel_vertices :: "('w + 'v) list \<Rightarrow> 'v list" where
  "parallel_vertices vertices = [v. Inr v \<leftarrow> vertices]"

text \<open>\<open>batch_state\<close>: a state the call goes through, from the semaphore's creation on.\<close>

definition batch_state ::
  "('v, 't) vertex_methods \<Rightarrow> 't tx_methods \<Rightarrow> 'v engine \<Rightarrow> ('w + 'v) list \<Rightarrow>
   ('v engine, 'v, go_error option) loop \<Rightarrow> bool" where
  "batch_state M T e vertices l \<longleftrightarrow>
     (let parallelVertices = sortVerticesByPriority M (parallel_vertices vertices) in
      loop_reach (nat (e_maxWorkers e)) (ProcessVertex M T) parallelVertices e l)"

definition BatchProcessVertices ::
  "('v, 't) vertex_methods \<Rightarrow> 't tx_methods \<Rightarrow> 'v engine \<Rightarrow> ('w + 'v) list \<Rightarrow>
   'v engine \<Rightarrow> go_error option \<Rightarrow> bool" where
  "BatchProcessVertices M T e vertices e' err \<longleftrightarrow>
     (\<exists>l. batch_state M T e vertices l \<and> loop_done l \<and> e' = shared l \<and> err = first_error (sent l))"

subsection \<open>DecideTxs\<close>

definition isParent :: "'v engine \<Rightarrow> ID \<Rightarrow> bool" where
  "isParent e i \<longleftrightarrow> i \<in> \<Union> (set ` ran (edgeMap e))"

text \<open>\<open>ks\<close> is the order of the range over the vertices.\<close>

definition getFrontier :: "'v engine \<Rightarrow> ID list \<Rightarrow> ID list" where
  "getFrontier e ks = filter (\<lambda>v. \<not> isParent e v) ks"

definition canAccept :: "'v engine \<Rightarrow> ID \<Rightarrow> ID list \<Rightarrow> bool" where
  "canAccept e txID inputs \<longleftrightarrow>
     (\<forall>i \<in> set inputs. case conflicts e i of
         None \<Rightarrow> True
       | Some cs \<Rightarrow> (\<forall>c \<in> cs. c = txID \<or> c \<in> txsRejected e))"

text \<open>
  Rejecting the conflicting transactions: for every conflict of every input, every transaction
  object with its ID in every vertex. \<open>ord\<close> gives the order of a range over a set of IDs.
\<close>

fun reject_matching :: "'t tx_methods \<Rightarrow> ID \<Rightarrow> 't list \<Rightarrow> 'v engine \<Rightarrow> 'v engine \<times> go_error option" where
  "reject_matching T c [] e = (e, None)"
| "reject_matching T c (t # ts) e =
     (if tx_ID T t = c then
        (let e = log_call (TxReject c) e in
         case snd (tx_Reject T t) of
           Some err \<Rightarrow> (e, Some err)
         | None \<Rightarrow> reject_matching T c ts (e\<lparr>txsRejected := insert c (txsRejected e)\<rparr>))
      else reject_matching T c ts e)"

definition txs_of :: "('v, 't) vertex_methods \<Rightarrow> 'v option \<Rightarrow> 't list" where
  "txs_of M v = (case v of None \<Rightarrow> [] | Some v \<Rightarrow> (case v_Txs M v of Inl _ \<Rightarrow> [] | Inr txs \<Rightarrow> txs))"

fun reject_in_vertices ::
  "('v, 't) vertex_methods \<Rightarrow> 't tx_methods \<Rightarrow> ID \<Rightarrow> ID list \<Rightarrow> 'v engine \<Rightarrow> 'v engine \<times> go_error option" where
  "reject_in_vertices M T c [] e = (e, None)"
| "reject_in_vertices M T c (v # vs) e =
     (case reject_matching T c (txs_of M (e_vertices e v)) e of
        (e, Some err) \<Rightarrow> (e, Some err)
      | (e, None) \<Rightarrow> reject_in_vertices M T c vs e)"

fun reject_conflicts ::
  "('v, 't) vertex_methods \<Rightarrow> 't tx_methods \<Rightarrow> (ID set \<Rightarrow> ID list) \<Rightarrow> ID \<Rightarrow> ID list \<Rightarrow>
   'v engine \<Rightarrow> 'v engine \<times> go_error option" where
  "reject_conflicts M T ord txID [] e = (e, None)"
| "reject_conflicts M T ord txID (c # cs) e =
     (if c = txID then reject_conflicts M T ord txID cs e
      else case reject_in_vertices M T c (ord (dom (e_vertices e))) e of
             (e, Some err) \<Rightarrow> (e, Some err)
           | (e, None) \<Rightarrow> reject_conflicts M T ord txID cs e)"

fun reject_inputs ::
  "('v, 't) vertex_methods \<Rightarrow> 't tx_methods \<Rightarrow> (ID set \<Rightarrow> ID list) \<Rightarrow> ID \<Rightarrow> ID list \<Rightarrow>
   'v engine \<Rightarrow> 'v engine \<times> go_error option" where
  "reject_inputs M T ord txID [] e = (e, None)"
| "reject_inputs M T ord txID (i # is) e =
     (case conflicts e i of
        None \<Rightarrow> reject_inputs M T ord txID is e
      | Some cs \<Rightarrow>
          (case reject_conflicts M T ord txID (ord cs) e of
             (e, Some err) \<Rightarrow> (e, Some err)
           | (e, None) \<Rightarrow> reject_inputs M T ord txID is e))"

definition decide_tx ::
  "('v, 't) vertex_methods \<Rightarrow> 't tx_methods \<Rightarrow> (ID set \<Rightarrow> ID list) \<Rightarrow> 't \<Rightarrow>
   'v engine \<Rightarrow> 'v engine \<times> go_error option" where
  "decide_tx M T ord tx e =
     (let txID = tx_ID T tx in
      if decided e txID then (e, None)
      else case tx_InputIDs T tx of
             Inl err \<Rightarrow> (e, Some err)
           | Inr inputs \<Rightarrow>
               if canAccept e txID inputs then
                 (let e = log_call (TxAccept txID) e in
                  case snd (tx_Accept T tx) of
                    Some err \<Rightarrow> (e, Some err)
                  | None \<Rightarrow>
                      reject_inputs M T ord txID inputs
                        (e\<lparr>txsAccepted := insert txID (txsAccepted e)\<rparr>))
               else (e, None))"

fun decide_txs ::
  "('v, 't) vertex_methods \<Rightarrow> 't tx_methods \<Rightarrow> (ID set \<Rightarrow> ID list) \<Rightarrow> 't list \<Rightarrow>
   'v engine \<Rightarrow> 'v engine \<times> go_error option" where
  "decide_txs M T ord [] e = (e, None)"
| "decide_txs M T ord (tx # txs) e =
     (case decide_tx M T ord tx e of
        (e, Some err) \<Rightarrow> (e, Some err)
      | (e, None) \<Rightarrow> decide_txs M T ord txs e)"

definition decide_vertex ::
  "('v, 't) vertex_methods \<Rightarrow> 't tx_methods \<Rightarrow> (ID set \<Rightarrow> ID list) \<Rightarrow> ID \<Rightarrow>
   'v engine \<Rightarrow> 'v engine \<times> go_error option" where
  "decide_vertex M T ord vertexID e =
     (case e_vertices e vertexID of
        None \<Rightarrow> (e, None)
      | Some vertex \<Rightarrow>
          (case v_Txs M vertex of
             Inl err \<Rightarrow> (e, Some err)
           | Inr txs \<Rightarrow>
               (case decide_txs M T ord txs e of
                  (e, Some err) \<Rightarrow> (e, Some err)
                | (e, None) \<Rightarrow>
                    if list_all (\<lambda>tx. decided e (tx_ID T tx)) txs
                    then (log_call (VtxAccept vertexID) e, snd (v_Accept M vertex))
                    else (e, None))))"

fun decide_frontier ::
  "('v, 't) vertex_methods \<Rightarrow> 't tx_methods \<Rightarrow> (ID set \<Rightarrow> ID list) \<Rightarrow> ID list \<Rightarrow>
   'v engine \<Rightarrow> 'v engine \<times> go_error option" where
  "decide_frontier M T ord [] e = (e, None)"
| "decide_frontier M T ord (v # vs) e =
     (case decide_vertex M T ord v e of
        (e, Some err) \<Rightarrow> (e, Some err)
      | (e, None) \<Rightarrow> decide_frontier M T ord vs e)"

text \<open>
  The outer loop runs while the frontier is not empty; it may run forever, so it is a partial
  function, \<^term>\<open>None\<close> when it does. \<open>ords n\<close> gives the range orders of the \<open>n\<close>-th round.
\<close>

partial_function (option) DecideTxs ::
  "('v, 't) vertex_methods \<Rightarrow> 't tx_methods \<Rightarrow> (nat \<Rightarrow> ID set \<Rightarrow> ID list) \<Rightarrow> nat \<Rightarrow>
   'v engine \<Rightarrow> ('v engine \<times> go_error option) option" where
  "DecideTxs M T ords n e =
     (let frontier = getFrontier e (ords n (dom (e_vertices e))) in
      if frontier = [] then Some (e, None)
      else case decide_frontier M T (ords n) frontier e of
             (e', Some err) \<Rightarrow> Some (e', Some err)
           | (e', None) \<Rightarrow> DecideTxs M T ords (Suc n) e')"

subsection \<open>RunConsensus\<close>

text \<open>
  The loop's events: the ticker fires, or the context is done. An error of \<^verbatim>\<open>DecideTxs\<close> is
  logged and the loop goes on. \<^term>\<open>None\<close>: the call does not return.
\<close>

datatype tick = Tick | CtxDone

fun run_ticks ::
  "('v, 't) vertex_methods \<Rightarrow> 't tx_methods \<Rightarrow> (nat \<Rightarrow> ID set \<Rightarrow> ID list) \<Rightarrow> tick list \<Rightarrow>
   'v engine \<Rightarrow> 'v engine option" where
  "run_ticks M T ords [] e = None"
| "run_ticks M T ords (CtxDone # evs) e = Some (e\<lparr>e_running := False\<rparr>)"
| "run_ticks M T ords (Tick # evs) e =
     (case DecideTxs M T ords 0 e of
        None \<Rightarrow> None
      | Some (e', _) \<Rightarrow> run_ticks M T ords evs e')"

definition engine_RunConsensus ::
  "('v, 't) vertex_methods \<Rightarrow> 't tx_methods \<Rightarrow> (nat \<Rightarrow> ID set \<Rightarrow> ID list) \<Rightarrow> tick list \<Rightarrow>
   'v engine \<Rightarrow> 'v engine option" where
  "engine_RunConsensus M T ords evs e =
     (if e_running e then Some e else run_ticks M T ords evs (e\<lparr>e_running := True\<rparr>))"

subsection \<open>Reachable states\<close>

text \<open>
  The states the engine goes through: vertices are processed, and lists of vertices decided, in
  any order; a call that returns an error leaves the state it had reached.
\<close>

inductive engine_steps ::
  "('v, 't) vertex_methods \<Rightarrow> 't tx_methods \<Rightarrow> 'v engine \<Rightarrow> 'v engine \<Rightarrow> bool"
  for M T e0 where
  none: "engine_steps M T e0 e0"
| process: "engine_steps M T e0 e \<Longrightarrow> engine_steps M T e0 (fst (ProcessVertex M T e v))"
| decide: "engine_steps M T e0 e \<Longrightarrow> valid_ord ord \<Longrightarrow>
     engine_steps M T e0 (fst (decide_frontier M T ord vs e))"

definition engine_reach :: "('v, 't) vertex_methods \<Rightarrow> 't tx_methods \<Rightarrow> 'v engine \<Rightarrow> bool" where
  "engine_reach M T e \<longleftrightarrow> (\<exists>n. engine_steps M T (NewParallelEngine n) e)"

section \<open>What deciding leaves alone\<close>

definition same_dag :: "'v engine \<Rightarrow> 'v engine \<Rightarrow> bool" where
  "same_dag e e' \<longleftrightarrow> e_vertices e' = e_vertices e \<and> edgeMap e' = edgeMap e \<and>
     conflicts e' = conflicts e \<and> e_maxWorkers e' = e_maxWorkers e \<and> e_running e' = e_running e"

lemma same_dag_refl [simp]: "same_dag e e"
  by (simp add: same_dag_def)

lemma same_dag_trans: "same_dag e f \<Longrightarrow> same_dag f g \<Longrightarrow> same_dag e g"
  by (simp add: same_dag_def)

lemma same_dag_updates [simp]:
  "same_dag e (log_call c f) = same_dag e f"
  "same_dag e (f\<lparr>txsAccepted := A\<rparr>) = same_dag e f"
  "same_dag e (f\<lparr>txsRejected := A\<rparr>) = same_dag e f"
  by (simp_all add: same_dag_def log_call_def)

lemma reject_matching_dag: "same_dag e (fst (reject_matching T c ts e))"
proof (induction T c ts e rule: reject_matching.induct)
  case (2 T c t ts e)
  then show ?case
    by (auto simp: Let_def same_dag_def log_call_def split: option.splits)
qed simp

lemma reject_in_vertices_dag: "same_dag e (fst (reject_in_vertices M T c vs e))"
proof (induction M T c vs e rule: reject_in_vertices.induct)
  case (2 M T c v vs e)
  with reject_matching_dag [of e T c "txs_of M (e_vertices e v)"] show ?case
    by (auto split: prod.splits option.splits intro: same_dag_trans)
qed simp

lemma reject_conflicts_dag: "same_dag e (fst (reject_conflicts M T ord txID cs e))"
proof (induction M T ord txID cs e rule: reject_conflicts.induct)
  case (2 M T ord txID c cs e)
  with reject_in_vertices_dag [of e M T c "ord (dom (e_vertices e))"] show ?case
    by (auto split: prod.splits option.splits intro: same_dag_trans)
qed simp

lemma reject_inputs_dag: "same_dag e (fst (reject_inputs M T ord txID is e))"
proof (induction M T ord txID "is" e rule: reject_inputs.induct)
  case (2 M T ord txID i "is" e)
  show ?case
  proof (cases "conflicts e i")
    case None
    with 2 show ?thesis by simp
  next
    case (Some cs)
    with 2 reject_conflicts_dag [of e M T ord txID "ord cs"] show ?thesis
      by (auto split: prod.splits option.splits intro: same_dag_trans)
  qed
qed simp

lemma decide_tx_dag: "same_dag e (fst (decide_tx M T ord tx e))"
proof -
  have "same_dag e (fst (reject_inputs M T ord i is f))" if "same_dag e f" for i "is" f
    using that reject_inputs_dag by (rule same_dag_trans)
  then show ?thesis
    by (simp add: decide_tx_def Let_def split: sum.splits option.splits)
qed

lemma decide_txs_dag: "same_dag e (fst (decide_txs M T ord txs e))"
proof (induction M T ord txs e rule: decide_txs.induct)
  case (2 M T ord tx txs e)
  with decide_tx_dag [of e M T ord tx] show ?case
    by (auto split: prod.splits option.splits intro: same_dag_trans)
qed simp

lemma decide_vertex_dag: "same_dag e (fst (decide_vertex M T ord v e))"
  using decide_txs_dag [of e M T ord]
  by (auto simp: decide_vertex_def split: option.splits sum.splits prod.splits) (metis fst_conv)+

lemma decide_frontier_dag: "same_dag e (fst (decide_frontier M T ord vs e))"
proof (induction M T ord vs e rule: decide_frontier.induct)
  case (2 M T ord v vs e)
  with decide_vertex_dag [of e M T ord v] show ?case
    by (auto split: prod.splits option.splits intro: same_dag_trans)
qed simp

section \<open>Invariants of the engine\<close>

text \<open>
  To show that the steps of the engine keep a property it is enough to show that processing a
  vertex, deciding one transaction of a stored vertex and accepting a vertex keep it; if the
  initial state has it too, all reachable states do.
\<close>

locale engine_stable =
  fixes M :: "('v, 't) vertex_methods" and T :: "'t tx_methods" and I :: "'v engine \<Rightarrow> bool"
  assumes I_process: "I e \<Longrightarrow> I (fst (ProcessVertex M T e v))"
    and I_decide: "I e \<Longrightarrow> valid_ord ord \<Longrightarrow> e_vertices e i = Some v \<Longrightarrow> v_Txs M v = Inr txs \<Longrightarrow>
      tx \<in> set txs \<Longrightarrow> I (fst (decide_tx M T ord tx e))"
    and I_log: "I e \<Longrightarrow> I (log_call (VtxAccept i) e)"
begin

lemma I_decide_txs:
  "I e \<Longrightarrow> valid_ord ord \<Longrightarrow> e_vertices e i = Some v \<Longrightarrow> v_Txs M v = Inr txs \<Longrightarrow>
   set ts \<subseteq> set txs \<Longrightarrow> I (fst (decide_txs M T ord ts e))"
proof (induction ts arbitrary: e)
  case Nil
  then show ?case by simp
next
  case (Cons t ts)
  obtain f r where f: "decide_tx M T ord t e = (f, r)" by (cases "decide_tx M T ord t e")
  have "I f" using I_decide [OF Cons.prems(1-4), of t] Cons.prems(5) f by simp
  moreover have "e_vertices f i = Some v"
    using decide_tx_dag [of e M T ord t] f Cons.prems(3) by (simp add: same_dag_def)
  ultimately show ?case
    using Cons f by (auto split: option.splits)
qed

lemma I_decide_vertex:
  assumes "I e" and "valid_ord ord"
  shows "I (fst (decide_vertex M T ord i e))"
proof (cases "e_vertices e i")
  case None
  with assms show ?thesis by (simp add: decide_vertex_def)
next
  case (Some v)
  show ?thesis
  proof (cases "v_Txs M v")
    case (Inl err)
    with assms Some show ?thesis by (simp add: decide_vertex_def)
  next
    case (Inr txs)
    with I_decide_txs [OF assms Some] have "I (fst (decide_txs M T ord txs e))" by simp
    with Some Inr show ?thesis
      by (auto simp: decide_vertex_def I_log split: prod.splits option.splits)
  qed
qed

lemma I_decide_frontier:
  "I e \<Longrightarrow> valid_ord ord \<Longrightarrow> I (fst (decide_frontier M T ord vs e))"
proof (induction vs arbitrary: e)
  case Nil
  then show ?case by simp
next
  case (Cons v vs)
  then show ?case
    using I_decide_vertex [OF Cons.prems, of v] by (auto split: prod.splits option.splits)
qed

lemma I_steps: "engine_steps M T e e' \<Longrightarrow> I e \<Longrightarrow> I e'"
  by (induction rule: engine_steps.induct) (auto intro: I_process I_decide_frontier)

end

locale engine_invariant = engine_stable M T I
  for M :: "('v, 't) vertex_methods" and T :: "'t tx_methods" and I :: "'v engine \<Rightarrow> bool" +
  assumes I_new: "I (NewParallelEngine n)"
begin

lemma I_reach: "engine_reach M T e \<Longrightarrow> I e"
  using I_steps I_new by (auto simp: engine_reach_def)

end

subsection \<open>Nothing is ever rejected\<close>

definition no_rejects :: "'v engine \<Rightarrow> bool" where
  "no_rejects e \<longleftrightarrow> txsRejected e = {} \<and> finite (dom (e_vertices e)) \<and>
     dom (edgeMap e) \<subseteq> dom (e_vertices e) \<and> (\<forall>c. TxReject c \<notin> set (calls e))"

lemma register_txs_frame:
  "e_vertices (fst (register_txs T txs e)) = e_vertices e"
  "edgeMap (fst (register_txs T txs e)) = edgeMap e"
  "txsRejected (fst (register_txs T txs e)) = txsRejected e"
  "txsAccepted (fst (register_txs T txs e)) = txsAccepted e"
  "calls (fst (register_txs T txs e)) = calls e"
  by (induction T txs e rule: register_txs.induct) (auto simp: Let_def split: sum.splits)

lemma ProcessVertex_rejected: "txsRejected (fst (ProcessVertex M T e v)) = txsRejected e"
  by (simp add: ProcessVertex_def Let_def log_call_def register_txs_frame split: sum.splits option.splits)

lemma ProcessVertex_accepted: "txsAccepted (fst (ProcessVertex M T e v)) = txsAccepted e"
  by (simp add: ProcessVertex_def Let_def log_call_def register_txs_frame split: sum.splits option.splits)

lemma ProcessVertex_no_rejects: "no_rejects e \<Longrightarrow> no_rejects (fst (ProcessVertex M T e v))"
  by (auto simp: no_rejects_def ProcessVertex_def Let_def log_call_def register_txs_frame
      split: sum.splits option.splits)

text \<open>
  When nothing is rejected yet, a transaction that can be accepted has no competitor, so the loops
  that reject the competitors find nothing to do.
\<close>

lemma reject_conflicts_self: "set cs \<subseteq> {txID} \<Longrightarrow> reject_conflicts M T ord txID cs e = (e, None)"
  by (induction cs) auto

lemma reject_inputs_idle:
  assumes "valid_ord ord" and "\<forall>i \<in> set is. \<forall>cs. conflicts e i = Some cs \<longrightarrow> cs \<subseteq> {txID}"
  shows "reject_inputs M T ord txID is e = (e, None)"
  using assms(2)
proof (induction "is")
  case (Cons i "is")
  show ?case
  proof (cases "conflicts e i")
    case None
    with Cons show ?thesis by simp
  next
    case (Some cs)
    with Cons.prems have "cs \<subseteq> {txID}" by simp
    then have "set (ord cs) \<subseteq> {txID}"
      using assms(1) finite_subset [of cs "{txID}"] by (auto simp: valid_ord_def)
    with Some Cons show ?thesis by (simp add: reject_conflicts_self)
  qed
qed simp

lemma canAccept_alone:
  "txsRejected e = {} \<Longrightarrow> canAccept e txID inputs \<Longrightarrow> i \<in> set inputs \<Longrightarrow> conflicts e i = Some cs \<Longrightarrow>
   cs \<subseteq> {txID}"
  by (auto simp: canAccept_def split: option.splits)

lemma decide_tx_cases:
  assumes "txsRejected e = {}" and "valid_ord ord"
  obtains (same) "txsAccepted (fst (decide_tx M T ord tx e)) = txsAccepted e"
      "txsRejected (fst (decide_tx M T ord tx e)) = {}"
      "set (calls (fst (decide_tx M T ord tx e))) \<subseteq> insert (TxAccept (tx_ID T tx)) (set (calls e))"
  | (accept) inputs where "tx_InputIDs T tx = Inr inputs" "canAccept e (tx_ID T tx) inputs"
      "fst (decide_tx M T ord tx e) =
         (log_call (TxAccept (tx_ID T tx)) e)\<lparr>txsAccepted := insert (tx_ID T tx) (txsAccepted e)\<rparr>"
proof (cases "tx_InputIDs T tx")
  case (Inl err)
  then have "fst (decide_tx M T ord tx e) = e" by (simp add: decide_tx_def Let_def)
  then show ?thesis by (intro same) (auto simp: assms(1))
next
  case (Inr inputs)
  show ?thesis
  proof (cases "\<not> decided e (tx_ID T tx) \<and> canAccept e (tx_ID T tx) inputs \<and> snd (tx_Accept T tx) = None")
    case True
    let ?f = "(log_call (TxAccept (tx_ID T tx)) e)\<lparr>txsAccepted := insert (tx_ID T tx) (txsAccepted e)\<rparr>"
    have "reject_inputs M T ord (tx_ID T tx) inputs ?f = (?f, None)"
      using canAccept_alone [OF assms(1), of "tx_ID T tx" inputs] True
      by (intro reject_inputs_idle [OF assms(2)]) (auto simp: log_call_def)
    with True Inr accept [of inputs] show ?thesis
      by (simp add: decide_tx_def Let_def log_call_def)
  next
    case False
    with Inr have "fst (decide_tx M T ord tx e) \<in> {e, log_call (TxAccept (tx_ID T tx)) e}"
      by (auto simp: decide_tx_def Let_def split: option.splits)
    then show ?thesis by (intro same) (auto simp: log_call_def assms(1))
  qed
qed

interpretation norej: engine_invariant M T no_rejects for M :: "('v, 't) vertex_methods" and T
proof
  fix e :: "'v engine" and v
  assume "no_rejects e"
  then show "no_rejects (fst (ProcessVertex M T e v))" by (rule ProcessVertex_no_rejects)
next
  fix e :: "'v engine" and ord :: "ID set \<Rightarrow> ID list" and i v txs tx
  assume e: "no_rejects e" and ord: "valid_ord ord"
  then have rej: "txsRejected e = {}" by (simp add: no_rejects_def)
  have "txsRejected (fst (decide_tx M T ord tx e)) = {} \<and>
      (\<forall>c. TxReject c \<notin> set (calls (fst (decide_tx M T ord tx e))))"
    using e by (cases rule: decide_tx_cases [OF rej ord, of M T tx])
      (auto simp: rej log_call_def no_rejects_def)
  with e decide_tx_dag [of e M T ord tx] show "no_rejects (fst (decide_tx M T ord tx e))"
    by (simp add: no_rejects_def same_dag_def)
next
  fix e :: "'v engine" and i
  assume "no_rejects e"
  then show "no_rejects (log_call (VtxAccept i) e)" by (simp add: no_rejects_def log_call_def)
next
  show "no_rejects (NewParallelEngine n)" for n
    by (simp add: no_rejects_def NewParallelEngine_def)
qed

subsection \<open>Accepted transactions do not conflict\<close>

text \<open>
  The tables behave when no method fails, every vertex verifies, and transactions with the same ID
  have the same inputs.
\<close>

definition tables_ok :: "('v, 't) vertex_methods \<Rightarrow> 't tx_methods \<Rightarrow> bool" where
  "tables_ok M T \<longleftrightarrow>
     (\<forall>v. v_Verify M v = None \<and> \<not> isl (v_Parents M v) \<and> \<not> isl (v_Txs M v)) \<and>
     (\<forall>t. \<not> isl (tx_InputIDs T t)) \<and>
     (\<forall>t u. tx_ID T t = tx_ID T u \<longrightarrow> tx_InputIDs T t = tx_InputIDs T u)"

definition inputs_of :: "'t tx_methods \<Rightarrow> 't \<Rightarrow> ID set" where
  "inputs_of T t = (case tx_InputIDs T t of Inl _ \<Rightarrow> {} | Inr is \<Rightarrow> set is)"

definition spends :: "'v engine \<Rightarrow> ID \<Rightarrow> ID \<Rightarrow> bool" where
  "spends e a j \<longleftrightarrow> (\<exists>cs. conflicts e j = Some cs \<and> a \<in> cs)"

definition registered :: "'t tx_methods \<Rightarrow> 'v engine \<Rightarrow> 't \<Rightarrow> bool" where
  "registered T e t \<longleftrightarrow> (\<forall>j \<in> inputs_of T t. spends e (tx_ID T t) j)"

definition safe :: "('v, 't) vertex_methods \<Rightarrow> 't tx_methods \<Rightarrow> 'v engine \<Rightarrow> bool" where
  "safe M T e \<longleftrightarrow>
     (\<forall>i v txs t. e_vertices e i = Some v \<longrightarrow> v_Txs M v = Inr txs \<longrightarrow> t \<in> set txs \<longrightarrow> registered T e t) \<and>
     (\<forall>t. tx_ID T t \<in> txsAccepted e \<longrightarrow> registered T e t) \<and>
     (\<forall>t u. tx_ID T t \<in> txsAccepted e \<longrightarrow> tx_ID T u \<in> txsAccepted e \<longrightarrow>
        inputs_of T t \<inter> inputs_of T u \<noteq> {} \<longrightarrow> tx_ID T t = tx_ID T u)"

lemma add_conflicts_eq:
  "add_conflicts a is m j =
     (if j \<in> set is then Some (insert a (case m j of None \<Rightarrow> {} | Some s \<Rightarrow> s)) else m j)"
proof (induction "is" arbitrary: m)
  case (Cons i "is")
  then show ?case by (cases "j = i") simp_all
qed simp

lemma add_conflicts_spends:
  "(\<exists>cs. add_conflicts a is m j = Some cs \<and> b \<in> cs) \<longleftrightarrow>
   (\<exists>cs. m j = Some cs \<and> b \<in> cs) \<or> (b = a \<and> j \<in> set is)"
  by (auto simp: add_conflicts_eq split: option.splits)

lemma register_txs_spends: "spends e b j \<Longrightarrow> spends (fst (register_txs T txs e)) b j"
proof (induction T txs e rule: register_txs.induct)
  case (2 T tx txs e)
  then show ?case
    by (auto simp: Let_def spends_def add_conflicts_spends split: sum.splits)
qed simp

lemma registered_mono:
  "registered T e t \<Longrightarrow> (\<And>b j. spends e b j \<Longrightarrow> spends f b j) \<Longrightarrow> registered T f t"
  by (simp add: registered_def)

lemma register_txs_registers:
  assumes "\<And>t. \<not> isl (tx_InputIDs T t)"
  shows "t \<in> set txs \<Longrightarrow> (\<And>t. decided e (tx_ID T t) \<Longrightarrow> registered T e t) \<Longrightarrow>
    registered T (fst (register_txs T txs e)) t"
proof (induction txs arbitrary: e)
  case Nil
  then show ?case by simp
next
  case (Cons tx txs)
  note later = registered_mono [OF _ register_txs_spends]
  show ?case
  proof (cases "decided e (tx_ID T tx)")
    case True
    with Cons show ?thesis by (auto intro: later)
  next
    case False
    from assms [of tx] obtain inputs where inputs: "tx_InputIDs T tx = Inr inputs"
      by (cases "tx_InputIDs T tx") auto
    let ?e = "e\<lparr>conflicts := add_conflicts (tx_ID T tx) inputs (conflicts e)\<rparr>"
    have sp: "spends ?e b j \<longleftrightarrow> spends e b j \<or> (b = tx_ID T tx \<and> j \<in> set inputs)" for b j
      by (simp add: spends_def add_conflicts_spends)
    have "registered T ?e tx" by (simp add: registered_def inputs_of_def inputs sp)
    moreover have "registered T ?e u" if "decided ?e (tx_ID T u)" for u
      using that Cons.prems(2) [of u] by (auto simp: decided_def sp intro: registered_mono)
    ultimately have "registered T (fst (register_txs T txs ?e)) t"
      using Cons.IH [of ?e] Cons.prems(1) by (auto intro: later)
    with False inputs show ?thesis by simp
  qed
qed

lemma ProcessVertex_safe:
  assumes ok: "tables_ok M T" and rej: "txsRejected e = {}" and safe: "safe M T e"
  shows "safe M T (fst (ProcessVertex M T e v))"
proof (cases "e_vertices e (v_ID M v) = None")
  case False
  with safe show ?thesis by (simp add: ProcessVertex_def)
next
  case True
  have "\<not> isl (v_Parents M v)" "\<not> isl (v_Txs M v)" and ver: "v_Verify M v = None"
    using ok unfolding tables_ok_def by blast+
  then obtain ps txs where ps: "v_Parents M v = Inr ps" and txs: "v_Txs M v = Inr txs"
    by (cases "v_Parents M v"; cases "v_Txs M v") auto
  let ?e = "e\<lparr>e_vertices := (e_vertices e)(v_ID M v \<mapsto> v),
      edgeMap := (edgeMap e)(v_ID M v \<mapsto> map (v_ID M) ps)\<rparr>"
  let ?f = "fst (register_txs T txs ?e)"
  have eq: "fst (ProcessVertex M T e v) = ?f"
    by (simp add: ProcessVertex_def True ps txs ver Let_def)
  have sp: "spends ?f b j" if "spends e b j" for b j
    using that register_txs_spends [of ?e b j T txs] by (simp add: spends_def)
  have reg: "registered T ?f t" if "registered T e t" for t
    using that sp by (rule registered_mono)
  have new: "registered T ?f t" if "t \<in> set txs" for t
  proof (rule register_txs_registers [OF _ that])
    show "\<not> isl (tx_InputIDs T t)" for t using ok unfolding tables_ok_def by blast
    fix u
    assume "decided ?e (tx_ID T u)"
    with rej safe have "registered T e u" by (simp add: decided_def safe_def)
    then show "registered T ?e u" by (simp add: registered_def spends_def)
  qed
  have "registered T ?f t" if "e_vertices ?f i = Some w" "v_Txs M w = Inr us" "t \<in> set us" for i w us t
  proof (cases "i = v_ID M v")
    case True
    with that txs new show ?thesis by (simp add: register_txs_frame)
  next
    case False
    with that safe have "registered T e t" by (auto simp: register_txs_frame safe_def)
    then show ?thesis by (rule reg)
  qed
  moreover have "registered T ?f t" if "tx_ID T t \<in> txsAccepted ?f" for t
    using that safe reg by (simp add: register_txs_frame safe_def)
  moreover have "tx_ID T t = tx_ID T u"
    if "tx_ID T t \<in> txsAccepted ?f" "tx_ID T u \<in> txsAccepted ?f" "inputs_of T t \<inter> inputs_of T u \<noteq> {}" for t u
    using that safe by (simp add: register_txs_frame safe_def)
  ultimately show ?thesis
    unfolding eq safe_def by blast
qed

text \<open>Accepting one more transaction, alone on its inputs, keeps the accepted ones disjoint.\<close>

lemma disjoint_insert:
  assumes old: "\<And>t u. tx_ID T t \<in> A \<Longrightarrow> tx_ID T u \<in> A \<Longrightarrow> inputs_of T t \<inter> inputs_of T u \<noteq> {} \<Longrightarrow> tx_ID T t = tx_ID T u"
    and same: "\<And>t. tx_ID T t = tx_ID T tx \<Longrightarrow> inputs_of T t = inputs_of T tx"
    and alone: "\<And>t. tx_ID T t \<in> A \<Longrightarrow> inputs_of T t \<inter> inputs_of T tx \<noteq> {} \<Longrightarrow> tx_ID T t = tx_ID T tx"
    and tu: "tx_ID T t \<in> insert (tx_ID T tx) A" "tx_ID T u \<in> insert (tx_ID T tx) A" "inputs_of T t \<inter> inputs_of T u \<noteq> {}"
  shows "tx_ID T t = tx_ID T u"
proof -
  from tu(1,2) consider "tx_ID T t = tx_ID T tx" "tx_ID T u = tx_ID T tx"
    | "tx_ID T t = tx_ID T tx" "tx_ID T u \<in> A" | "tx_ID T t \<in> A" "tx_ID T u = tx_ID T tx"
    | "tx_ID T t \<in> A" "tx_ID T u \<in> A"
    by auto
  then show ?thesis
  proof cases
    case 2
    with alone [of u] tu(3) same [of t] show ?thesis by (simp add: inf_commute)
  next
    case 3
    with alone [of t] tu(3) same [of u] show ?thesis by simp
  qed (use old tu(3) in simp_all)
qed

lemma decide_tx_safe:
  assumes ok: "tables_ok M T" and rej: "txsRejected e = {}" and safe: "safe M T e"
    and ord: "valid_ord ord" and tx: "e_vertices e i = Some v" "v_Txs M v = Inr txs" "tx \<in> set txs"
  shows "safe M T (fst (decide_tx M T ord tx e))"
proof (rule decide_tx_cases [OF rej ord, of M T tx])
  assume same: "txsAccepted (fst (decide_tx M T ord tx e)) = txsAccepted e"
  from decide_tx_dag [of e M T ord tx] have "spends (fst (decide_tx M T ord tx e)) = spends e"
    "e_vertices (fst (decide_tx M T ord tx e)) = e_vertices e"
    by (auto simp: same_dag_def spends_def fun_eq_iff)
  with same safe show ?thesis by (simp add: safe_def registered_def)
next
  fix inputs
  assume accept: "tx_InputIDs T tx = Inr inputs" "canAccept e (tx_ID T tx) inputs"
    "fst (decide_tx M T ord tx e) =
       (log_call (TxAccept (tx_ID T tx)) e)\<lparr>txsAccepted := insert (tx_ID T tx) (txsAccepted e)\<rparr>"
  let ?f = "fst (decide_tx M T ord tx e)"
  have f: "spends ?f = spends e" "e_vertices ?f = e_vertices e"
    "txsAccepted ?f = insert (tx_ID T tx) (txsAccepted e)"
    unfolding accept(3) by (auto simp: log_call_def spends_def fun_eq_iff)
  have same_inputs: "inputs_of T t = inputs_of T tx" if "tx_ID T t = tx_ID T tx" for t
    using ok that by (metis inputs_of_def tables_ok_def)
  have "registered T e tx" using safe tx by (auto simp: safe_def)
  then have reg: "registered T e t" if "tx_ID T t = tx_ID T tx" for t
    using that same_inputs [OF that] by (simp add: registered_def)
  have alone: "tx_ID T t = tx_ID T tx"
    if "tx_ID T t \<in> txsAccepted e" "inputs_of T t \<inter> inputs_of T tx \<noteq> {}" for t
  proof -
    from that(2) obtain j where "j \<in> inputs_of T t" "j \<in> inputs_of T tx" by blast
    moreover from this safe that(1) have "spends e (tx_ID T t) j"
      by (auto simp: safe_def registered_def)
    ultimately show ?thesis
      using canAccept_alone [OF rej accept(2), of j] accept(1)
      by (auto simp: spends_def inputs_of_def)
  qed
  have old: "tx_ID T t = tx_ID T u"
    if "tx_ID T t \<in> txsAccepted e" "tx_ID T u \<in> txsAccepted e" "inputs_of T t \<inter> inputs_of T u \<noteq> {}" for t u
    using that safe unfolding safe_def by blast
  have "registered T ?f t" if "e_vertices ?f i = Some w" "v_Txs M w = Inr us" "t \<in> set us" for i w us t
    using that safe unfolding f safe_def registered_def by blast
  moreover have "registered T ?f t" if "tx_ID T t \<in> txsAccepted ?f" for t
    using that safe reg unfolding f safe_def registered_def by blast
  moreover have "tx_ID T t = tx_ID T u"
    if "tx_ID T t \<in> txsAccepted ?f" "tx_ID T u \<in> txsAccepted ?f" "inputs_of T t \<inter> inputs_of T u \<noteq> {}" for t u
    by (rule disjoint_insert [OF old same_inputs alone that(1,2) [unfolded f(3)] that(3)])
  ultimately show ?thesis unfolding safe_def by blast
qed

interpretation safety: engine_invariant M T "\<lambda>e. no_rejects e \<and> (tables_ok M T \<longrightarrow> safe M T e)"
  for M :: "('v, 't) vertex_methods" and T
proof
  fix e :: "'v engine" and v
  assume "no_rejects e \<and> (tables_ok M T \<longrightarrow> safe M T e)"
  then show "no_rejects (fst (ProcessVertex M T e v)) \<and>
      (tables_ok M T \<longrightarrow> safe M T (fst (ProcessVertex M T e v)))"
    using ProcessVertex_safe [of M T e v] by (simp add: norej.I_process) (simp add: no_rejects_def)
next
  fix e :: "'v engine" and ord :: "ID set \<Rightarrow> ID list" and i v txs tx
  assume e: "no_rejects e \<and> (tables_ok M T \<longrightarrow> safe M T e)" "valid_ord ord" "e_vertices e i = Some v"
    "v_Txs M v = Inr txs" "tx \<in> set txs"
  then show "no_rejects (fst (decide_tx M T ord tx e)) \<and>
      (tables_ok M T \<longrightarrow> safe M T (fst (decide_tx M T ord tx e)))"
    using norej.I_decide [of e ord i v M txs tx T] decide_tx_safe [of M T e ord i v txs tx]
    by (auto simp: no_rejects_def)
next
  fix e :: "'v engine" and i
  assume "no_rejects e \<and> (tables_ok M T \<longrightarrow> safe M T e)"
  then show "no_rejects (log_call (VtxAccept i) e) \<and> (tables_ok M T \<longrightarrow> safe M T (log_call (VtxAccept i) e))"
    by (simp add: norej.I_log) (simp add: safe_def registered_def spends_def log_call_def)
next
  show "no_rejects (NewParallelEngine n) \<and> (tables_ok M T \<longrightarrow> safe M T (NewParallelEngine n))" for n
    by (simp add: norej.I_new) (simp add: safe_def NewParallelEngine_def)
qed

end
