(* ===== verification/ParallelDAG.thy ===== *)
theory ParallelDAG
  imports Vertex Sync
begin

text \<open>
  pkg/consensus/dag.go: \<^verbatim>\<open>DefaultVertexProcessor\<close> and \<^verbatim>\<open>ParallelDAG\<close>. The DAG keeps the
  vertices, their parent lists (\<^verbatim>\<open>edges\<close>), the child lists (\<^verbatim>\<open>reversedge\<close>) and the frontier,
  the vertices with no children. Every method takes the DAG's lock; the lock is part of the state,
  so that a method that waits for a lock its own caller holds is seen to block.
\<close>

section \<open>DefaultVertexProcessor\<close>

record DefaultVertexProcessor =
  p_maxWorkers :: int

definition NewDefaultVertexProcessor :: "int \<Rightarrow> DefaultVertexProcessor" where
  "NewDefaultVertexProcessor n = \<lparr>p_maxWorkers = (if n \<le> 0 then 4 else n)\<rparr>"

fun verify_txs :: "'t tx_methods \<Rightarrow> 't list \<Rightarrow> go_error option" where
  "verify_txs T [] = None"
| "verify_txs T (tx # txs) =
     (case tx_Verify T tx of Some e \<Rightarrow> Some e | None \<Rightarrow> verify_txs T txs)"

definition Process ::
  "('v, 't) vertex_methods \<Rightarrow> 't tx_methods \<Rightarrow> 'v \<Rightarrow> go_error option" where
  "Process M T v =
     (case v_Verify M v of
        Some e \<Rightarrow> Some e
      | None \<Rightarrow> (case v_Txs M v of Inl e \<Rightarrow> Some e | Inr txs \<Rightarrow> verify_txs T txs))"

text \<open>
  \<^verbatim>\<open>ProcessBatch\<close> runs \<^verbatim>\<open>Process\<close> on every vertex in the bounded parallel loop; the work
  reads the vertices and changes no shared state. The call returns when the loop is done, with the
  first error in the channel.
\<close>

definition batch_work ::
  "('v, 't) vertex_methods \<Rightarrow> 't tx_methods \<Rightarrow> unit \<Rightarrow> 'v \<Rightarrow> unit \<times> go_error option" where
  "batch_work M T u v = ((), Process M T v)"

definition ProcessBatch ::
  "('v, 't) vertex_methods \<Rightarrow> 't tx_methods \<Rightarrow> DefaultVertexProcessor \<Rightarrow> 'v list \<Rightarrow>
   go_error option \<Rightarrow> bool" where
  "ProcessBatch M T p vertices err \<longleftrightarrow>
     (\<exists>l. loop_reach (nat (p_maxWorkers p)) (batch_work M T) vertices () l \<and> loop_done l \<and>
          err = first_error (sent l))"

section \<open>ParallelDAG\<close>

definition ErrUnknownVertex :: go_error where
  "ErrUnknownVertex = Err ''unknown vertex''"

record 'v dag =
  d_lock :: rwmutex
  vertices :: "ID \<rightharpoonup> 'v"
  edges :: "ID \<rightharpoonup> ID list"
  reversedge :: "ID \<rightharpoonup> ID list"
  frontier :: "ID set"
  d_maxWorkers :: int

definition NewParallelDAG :: "int \<Rightarrow> 'v dag" where
  "NewParallelDAG n =
     \<lparr>d_lock = free_mutex, vertices = Map.empty, edges = Map.empty, reversedge = Map.empty,
      frontier = {}, d_maxWorkers = (if n \<le> 0 then 4 else n)\<rparr>"

text \<open>The loop over the parents.\<close>

fun add_edges :: "ID \<Rightarrow> ID list \<Rightarrow> 'v dag \<Rightarrow> 'v dag" where
  "add_edges vertexID [] d = d"
| "add_edges vertexID (p # ps) d =
     add_edges vertexID ps
       (d\<lparr>reversedge := (reversedge d)(p \<mapsto>
            (case reversedge d p of None \<Rightarrow> [] | Some cs \<Rightarrow> cs) @ [vertexID]),
          frontier := frontier d - {p}\<rparr>)"

definition AddVertex_locked ::
  "('v, 't) vertex_methods \<Rightarrow> 'v dag \<Rightarrow> 'v \<Rightarrow> 'v dag \<times> go_error option" where
  "AddVertex_locked M d vertex =
     (let vertexID = v_ID M vertex in
      if vertices d vertexID \<noteq> None then (d, None)
      else
        let d = d\<lparr>vertices := (vertices d)(vertexID \<mapsto> vertex)\<rparr> in
        case v_Parents M vertex of
          Inl e \<Rightarrow> (d, Some e)
        | Inr parents \<Rightarrow>
            let parentIDs = map (v_ID M) parents;
                d = add_edges vertexID parentIDs d;
                d = d\<lparr>edges := (edges d)(vertexID \<mapsto> parentIDs)\<rparr>
            in (if reversedge d vertexID = None
                then d\<lparr>frontier := insert vertexID (frontier d)\<rparr> else d, None))"

definition AddVertex ::
  "('v, 't) vertex_methods \<Rightarrow> 'v dag \<Rightarrow> 'v \<Rightarrow> ('v dag \<times> go_error option) go" where
  "AddVertex M d vertex =
     (case Lock (d_lock d) of
        Ret l \<Rightarrow>
          let (d', e) = AddVertex_locked M (d\<lparr>d_lock := l\<rparr>) vertex
          in Ret (d'\<lparr>d_lock := Unlock (d_lock d')\<rparr>, e)
      | Panic msg \<Rightarrow> Panic msg
      | Block \<Rightarrow> Block)"

definition GetVertex :: "'v dag \<Rightarrow> ID \<Rightarrow> ('v dag \<times> 'v res) go" where
  "GetVertex d i =
     (case RLock (d_lock d) of
        Ret l \<Rightarrow>
          Ret (d\<lparr>d_lock := RUnlock l\<rparr>,
               case vertices d i of Some v \<Rightarrow> Inr v | None \<Rightarrow> Inl ErrUnknownVertex)
      | Panic msg \<Rightarrow> Panic msg
      | Block \<Rightarrow> Block)"

text \<open>\<open>ks\<close> is the order in which the range over the frontier set visits it.\<close>

definition GetFrontier :: "'v dag \<Rightarrow> ID list \<Rightarrow> ('v dag \<times> 'v list) go" where
  "GetFrontier d ks =
     (case RLock (d_lock d) of
        Ret l \<Rightarrow> Ret (d\<lparr>d_lock := RUnlock l\<rparr>, List.map_filter (vertices d) ks)
      | Panic msg \<Rightarrow> Panic msg
      | Block \<Rightarrow> Block)"

text \<open>\<open>batch\<close> is the \<^verbatim>\<open>ProcessBatch\<close> method of the DAG's \<^verbatim>\<open>VertexProcessor\<close>.\<close>

definition ProcessFrontier ::
  "('v list \<Rightarrow> go_error option) \<Rightarrow> 'v dag \<Rightarrow> ID list \<Rightarrow> ('v dag \<times> go_error option) go" where
  "ProcessFrontier batch d ks =
     (case Lock (d_lock d) of
        Ret l \<Rightarrow>
          (case GetFrontier (d\<lparr>d_lock := l\<rparr>) ks of
             Ret (d', frontierVertices) \<Rightarrow>
               let d' = d'\<lparr>d_lock := Unlock (d_lock d')\<rparr> in
               if frontierVertices = [] then Ret (d', None)
               else Ret (d', batch frontierVertices)
           | Panic msg \<Rightarrow> Panic msg
           | Block \<Rightarrow> Block)
      | Panic msg \<Rightarrow> Panic msg
      | Block \<Rightarrow> Block)"

text \<open>The loop over the children at the end of \<^verbatim>\<open>UpdateStatus\<close> has an empty body.\<close>

definition UpdateStatus_locked ::
  "('v, 't) vertex_methods \<Rightarrow> 'v dag \<Rightarrow> ID \<Rightarrow> Status \<Rightarrow> 'v dag \<times> go_error option" where
  "UpdateStatus_locked M d i status =
     (case vertices d i of
        None \<Rightarrow> (d, Some ErrUnknownVertex)
      | Some vertex \<Rightarrow>
          if v_Status M vertex = status then (d, None)
          else if status = Accepted then
            (let (v', e) = v_Accept M vertex in (d\<lparr>vertices := (vertices d)(i \<mapsto> v')\<rparr>, e))
          else if status = Rejected then
            (let (v', e) = v_Reject M vertex in (d\<lparr>vertices := (vertices d)(i \<mapsto> v')\<rparr>, e))
          else (d, Some (Err (''unsupported status: '' @ status_String status))))"

definition UpdateStatus ::
  "('v, 't) vertex_methods \<Rightarrow> 'v dag \<Rightarrow> ID \<Rightarrow> Status \<Rightarrow> ('v dag \<times> go_error option) go" where
  "UpdateStatus M d i status =
     (case Lock (d_lock d) of
        Ret l \<Rightarrow>
          let (d', e) = UpdateStatus_locked M (d\<lparr>d_lock := l\<rparr>) i status
          in Ret (d'\<lparr>d_lock := Unlock (d_lock d')\<rparr>, e)
      | Panic msg \<Rightarrow> Panic msg
      | Block \<Rightarrow> Block)"

definition Size :: "'v dag \<Rightarrow> ('v dag \<times> nat) go" where
  "Size d =
     (case RLock (d_lock d) of
        Ret l \<Rightarrow> Ret (d\<lparr>d_lock := RUnlock l\<rparr>, card (dom (vertices d)))
      | Panic msg \<Rightarrow> Panic msg
      | Block \<Rightarrow> Block)"

text \<open>A client that adds a list of vertices, ignoring the errors.\<close>

fun AddVertices :: "('v, 't) vertex_methods \<Rightarrow> 'v dag \<Rightarrow> 'v list \<Rightarrow> 'v dag go" where
  "AddVertices M d [] = Ret d"
| "AddVertices M d (v # vs) =
     (case AddVertex M d v of
        Ret (d', _) \<Rightarrow> AddVertices M d' vs
      | Panic msg \<Rightarrow> Panic msg
      | Block \<Rightarrow> Block)"

section \<open>The invariant of the DAG\<close>

definition parents_of :: "'v dag \<Rightarrow> ID \<Rightarrow> ID set" where
  "parents_of d c = (case edges d c of None \<Rightarrow> {} | Some ps \<Rightarrow> set ps)"

definition children_of :: "'v dag \<Rightarrow> ID \<Rightarrow> ID set" where
  "children_of d p = {c. p \<in> parents_of d c}"

definition dag_inv :: "'v dag \<Rightarrow> bool" where
  "dag_inv d \<longleftrightarrow>
     finite (dom (vertices d)) \<and> dom (edges d) \<subseteq> dom (vertices d) \<and>
     (\<forall>p. reversedge d p = None \<longrightarrow> children_of d p = {}) \<and>
     (\<forall>p cs. reversedge d p = Some cs \<longrightarrow> set cs = children_of d p \<and> cs \<noteq> []) \<and>
     frontier d = {v \<in> dom (edges d). reversedge d v = None}"

lemma add_edges_frame [simp]:
  "vertices (add_edges v ps d) = vertices d" "edges (add_edges v ps d) = edges d"
  "d_lock (add_edges v ps d) = d_lock d" "frontier (add_edges v ps d) = frontier d - set ps"
  by (induction v ps d rule: add_edges.induct) auto

lemma add_edges_reversedge:
  "reversedge (add_edges v ps d) p =
     (if p \<in> set ps
      then Some ((case reversedge d p of None \<Rightarrow> [] | Some cs \<Rightarrow> cs) @
                 replicate (count_list ps p) v)
      else reversedge d p)"
proof (induction v ps d rule: add_edges.induct)
  case (1 v d)
  then show ?case by simp
next
  case (2 v q ps d)
  have rep: "replicate (count_list ps p) v = []" if "p \<notin> set ps"
    using that by simp
  from 2 show ?case
    by (auto simp: rep replicate_append_same replicate_app_Cons_same split: option.splits)
qed

lemma dag_inv_New: "dag_inv (NewParallelDAG n)"
  by (simp add: dag_inv_def NewParallelDAG_def children_of_def parents_of_def)

lemma parents_of_edges [simp]: "parents_of (d\<lparr>edges := E\<rparr>) c = (case E c of None \<Rightarrow> {} | Some ps \<Rightarrow> set ps)"
  by (simp add: parents_of_def)

lemma parents_of_frame [simp]:
  "parents_of (d\<lparr>vertices := V\<rparr>) = parents_of d" "parents_of (d\<lparr>frontier := F\<rparr>) = parents_of d"
  "parents_of (d\<lparr>d_lock := l\<rparr>) = parents_of d" "parents_of (add_edges v ps d) = parents_of d"
  by (auto simp: parents_of_def fun_eq_iff)

lemma dag_inv_vertices:
  "dag_inv d \<Longrightarrow> finite (dom V) \<Longrightarrow> dom (vertices d) \<subseteq> dom V \<Longrightarrow> dag_inv (d\<lparr>vertices := V\<rparr>)"
  unfolding dag_inv_def children_of_def by simp blast

lemma dag_inv_lock [simp]: "dag_inv (d\<lparr>d_lock := l\<rparr>) = dag_inv d"
  by (simp add: dag_inv_def children_of_def)

lemma dag_inv_add_edges:
  fixes d :: "'v dag" and i :: ID and ps :: "ID list"
  assumes inv: "dag_inv d" and new: "i \<in> dom (vertices d)" "edges d i = None"
  defines "e \<equiv> add_edges i ps d"
  defines "f \<equiv> e\<lparr>edges := (edges e)(i \<mapsto> ps)\<rparr>"
  shows "dag_inv (if reversedge f i = None then f\<lparr>frontier := insert i (frontier f)\<rparr> else f)"
proof -
  let ?g = "if reversedge f i = None then f\<lparr>frontier := insert i (frontier f)\<rparr> else f"
  have par: "parents_of ?g c = (if c = i then set ps else parents_of d c)" for c
    by (simp add: f_def e_def) (simp add: parents_of_def)
  have pi: "parents_of d i = {}"
    using new(2) by (simp add: parents_of_def)
  have chi: "children_of ?g p = (if p \<in> set ps then insert i (children_of d p) else children_of d p)" for p
    unfolding children_of_def par using pi by auto
  have rev: "reversedge ?g = reversedge e" by (simp add: f_def)
  have "reversedge ?g p = None \<longrightarrow> children_of ?g p = {}" for p
    using inv unfolding chi rev e_def add_edges_reversedge by (simp add: dag_inv_def)
  moreover have "reversedge ?g p = Some cs \<longrightarrow> set cs = children_of ?g p \<and> cs \<noteq> []" for p cs
    using inv unfolding chi rev e_def add_edges_reversedge
    by (auto simp: dag_inv_def count_list_0_iff split: option.splits if_splits)
  moreover have "frontier ?g = {v \<in> dom (edges ?g). reversedge ?g v = None}"
    using inv by (auto simp: f_def e_def add_edges_reversedge dag_inv_def)
  ultimately show ?thesis
    using inv new(1) unfolding dag_inv_def by (auto simp: f_def e_def)
qed

lemma AddVertex_locked_inv:
  assumes "dag_inv d"
  shows "dag_inv (fst (AddVertex_locked M d v))"
proof -
  let ?d = "d\<lparr>vertices := (vertices d)(v_ID M v \<mapsto> v)\<rparr>"
  have new: "edges d (v_ID M v) = None" if "vertices d (v_ID M v) = None"
    using assms that by (auto simp: dag_inv_def)
  have "finite (dom (vertices d))" using assms by (simp add: dag_inv_def)
  with assms have "dag_inv ?d" by (intro dag_inv_vertices) auto
  with assms new show ?thesis
    using dag_inv_add_edges [of ?d "v_ID M v"]
    by (auto simp: AddVertex_locked_def Let_def split: sum.splits)
qed

lemma add_edges_lock: "add_edges i ps (d\<lparr>d_lock := l\<rparr>) = (add_edges i ps d)\<lparr>d_lock := l\<rparr>"
proof (induction ps arbitrary: d)
  case Nil
  then show ?case by simp
next
  case (Cons p ps)
  have comm: "d\<lparr>d_lock := l, reversedge := R, frontier := F\<rparr> = d\<lparr>reversedge := R, frontier := F, d_lock := l\<rparr>" for R F
    by (cases d) simp
  show ?case by (simp add: comm Cons.IH)
qed

lemma AddVertex_locked_mutex:
  "AddVertex_locked M (d\<lparr>d_lock := l\<rparr>) v =
     ((fst (AddVertex_locked M d v))\<lparr>d_lock := l\<rparr>, snd (AddVertex_locked M d v))"
proof -
  have vert: "d\<lparr>d_lock := l, vertices := V\<rparr> = d\<lparr>vertices := V, d_lock := l\<rparr>" for V
    by (cases d) simp
  have rest: "e\<lparr>d_lock := l, edges := E\<rparr> = e\<lparr>edges := E, d_lock := l\<rparr>"
    "e\<lparr>edges := E, d_lock := l, frontier := F\<rparr> = e\<lparr>edges := E, frontier := F, d_lock := l\<rparr>"
    for e :: "'a dag" and E F
    by (cases e; simp)+
  show ?thesis
    by (simp add: AddVertex_locked_def Let_def vert add_edges_lock rest split: sum.splits)
qed

lemma AddVertex_returns:
  assumes "d_lock d = free_mutex"
  shows "AddVertex M d v = Ret (AddVertex_locked M d v)"
proof -
  have "d_lock (fst (AddVertex_locked M d v)) = free_mutex"
    using assms by (simp add: AddVertex_locked_def Let_def split: sum.splits)
  then have "(fst (AddVertex_locked M d v))\<lparr>d_lock := free_mutex\<rparr> = fst (AddVertex_locked M d v)"
    by (cases "fst (AddVertex_locked M d v)") simp
  then show ?thesis
    by (simp add: AddVertex_def assms AddVertex_locked_mutex)
qed

lemma AddVertex_locked_lock: "d_lock (fst (AddVertex_locked M d v)) = d_lock d"
  by (simp add: AddVertex_locked_def Let_def split: sum.splits)

lemma AddVertices_ready:
  assumes "dag_inv d" and "d_lock d = free_mutex"
  shows "\<exists>d'. AddVertices M d vs = Ret d' \<and> dag_inv d' \<and> d_lock d' = free_mutex"
  using assms
proof (induction vs arbitrary: d)
  case Nil
  then show ?case by simp
next
  case (Cons v vs)
  let ?d = "fst (AddVertex_locked M d v)"
  from Cons.prems have "dag_inv ?d" "d_lock ?d = free_mutex"
    by (simp_all add: AddVertex_locked_inv AddVertex_locked_lock)
  from Cons.IH [OF this] show ?case
    by (cases "AddVertex_locked M d v") (simp add: AddVertex_returns [OF Cons.prems(2)])
qed

section \<open>The frontier\<close>

definition added :: "'v dag \<Rightarrow> ID set" where
  "added d = dom (edges d)"

lemma frontier_eq:
  assumes "dag_inv d"
  shows "frontier d = {v \<in> added d. \<forall>c \<in> added d. v \<notin> parents_of d c}"
proof -
  have "reversedge d v = None \<longleftrightarrow> (\<forall>c \<in> added d. v \<notin> parents_of d c)" for v
  proof
    assume "reversedge d v = None"
    with assms show "\<forall>c \<in> added d. v \<notin> parents_of d c"
      by (auto simp: dag_inv_def children_of_def)
  next
    assume none: "\<forall>c \<in> added d. v \<notin> parents_of d c"
    show "reversedge d v = None"
    proof (rule ccontr)
      assume "reversedge d v \<noteq> None"
      then obtain cs where "reversedge d v = Some cs" by blast
      with assms have "set cs = children_of d v" "cs \<noteq> []" by (auto simp: dag_inv_def)
      then obtain c where "v \<in> parents_of d c" by (cases cs) (auto simp: children_of_def)
      moreover from this have "c \<in> added d"
        by (auto simp: parents_of_def added_def split: option.splits)
      ultimately show False using none by blast
    qed
  qed
  with assms show ?thesis by (simp add: dag_inv_def added_def)
qed

interpretation dagf: frontier_view added parents_of frontier dag_inv
proof
  fix d :: "'v dag"
  assume inv: "dag_inv d"
  then show "finite (added d)"
    by (auto simp: dag_inv_def added_def intro: finite_subset)
  from inv show "frontier d = {v \<in> added d. \<forall>c \<in> added d. v \<notin> parents_of d c}"
    by (rule frontier_eq)
qed

section \<open>A concrete vertex type for evaluation\<close>

text \<open>
  A vertex given by its ID, its parents' IDs (or the error of \<^verbatim>\<open>Parents\<close>) and its status.
\<close>

record plain_vertex =
  pv_ID :: ID
  pv_parents :: "ID list res"
  pv_status :: Status

definition plain_parent :: "ID \<Rightarrow> plain_vertex" where
  "plain_parent i = \<lparr>pv_ID = i, pv_parents = Inr [], pv_status = Processing\<rparr>"

definition plain_methods :: "(plain_vertex, unit) vertex_methods" where
  "plain_methods =
     \<lparr>v_ID = pv_ID,
      v_Accept = (\<lambda>v. (v\<lparr>pv_status := Accepted\<rparr>, None)),
      v_Reject = (\<lambda>v. (v\<lparr>pv_status := Rejected\<rparr>, None)),
      v_Status = pv_status,
      v_Parents = (\<lambda>v. map_sum id (map plain_parent) (pv_parents v)),
      v_Height = (\<lambda>_. Inr 0), v_Txs = (\<lambda>_. Inr []), v_Bytes = (\<lambda>_. []),
      v_Verify = (\<lambda>_. None), v_Priority = (\<lambda>_. 0)\<rparr>"

definition test_ID :: "byte \<Rightarrow> ID" where
  "test_ID b = replicate 32 b"

definition plain_vertex_of :: "byte \<Rightarrow> byte list \<Rightarrow> plain_vertex" where
  "plain_vertex_of i ps =
     \<lparr>pv_ID = test_ID i, pv_parents = Inr (map test_ID ps), pv_status = Processing\<rparr>"

lemma test_ID_inject [simp]: "test_ID a = test_ID b \<longleftrightarrow> a = b"
  by (simp add: test_ID_def)

lemma plain_methods_simps [simp]:
  "v_ID plain_methods = pv_ID"
  "v_Accept plain_methods v = (v\<lparr>pv_status := Accepted\<rparr>, None)"
  "v_Reject plain_methods v = (v\<lparr>pv_status := Rejected\<rparr>, None)"
  "v_Status plain_methods = pv_status"
  "v_Parents plain_methods v = map_sum id (map plain_parent) (pv_parents v)"
  "v_Txs plain_methods v = Inr []"
  "v_Verify plain_methods v = None"
  by (simp_all add: plain_methods_def)

lemma plain_vertex_simps [simp]:
  "pv_ID (plain_parent i) = i"
  "pv_ID (plain_vertex_of b bs) = test_ID b"
  "pv_parents (plain_vertex_of b bs) = Inr (map test_ID bs)"
  "pv_status (plain_vertex_of b bs) = Processing"
  by (simp_all add: plain_parent_def plain_vertex_of_def)

lemma New_lock [simp]: "d_lock (NewParallelDAG n) = free_mutex"
  by (simp add: NewParallelDAG_def)

section \<open>Properties of the DAG\<close>

text \<open>What the parents map should hold for a stored vertex: the IDs of its \<^verbatim>\<open>Parents\<close>, unless that call fails.\<close>

definition parent_IDs :: "('v, 't) vertex_methods \<Rightarrow> 'v option \<Rightarrow> ID list option" where
  "parent_IDs M w = (case w of None \<Rightarrow> None | Some v \<Rightarrow> (case v_Parents M v of Inl _ \<Rightarrow> None | Inr ps \<Rightarrow> Some (map (v_ID M) ps)))"

lemma parent_IDs_Some:
  "parent_IDs M w = Some is \<longleftrightarrow> (\<exists>v ps. w = Some v \<and> v_Parents M v = Inr ps \<and> is = map (v_ID M) ps)"
  by (auto simp: parent_IDs_def split: option.splits sum.splits)

lemma AddVertex_locked_maps:
  assumes "dag_inv d" and "\<And>i. edges d i = parent_IDs M (vertices d i)"
  shows "vertices (fst (AddVertex_locked M d v)) i =
      (if vertices d i = None \<and> v_ID M v = i then Some v else vertices d i)"
    and "edges (fst (AddVertex_locked M d v)) i = parent_IDs M (vertices (fst (AddVertex_locked M d v)) i)"
proof -
  show "vertices (fst (AddVertex_locked M d v)) i =
      (if vertices d i = None \<and> v_ID M v = i then Some v else vertices d i)"
    by (auto simp: AddVertex_locked_def Let_def split: sum.splits)
  have "parent_IDs M (vertices d i) = None" if "vertices d i = None" for i
    using that by (simp add: parent_IDs_def)
  with assms(2) show "edges (fst (AddVertex_locked M d v)) i = parent_IDs M (vertices (fst (AddVertex_locked M d v)) i)"
    by (auto simp: AddVertex_locked_def Let_def parent_IDs_def split: sum.splits)
qed

lemma AddVertices_maps:
  "dag_inv d \<Longrightarrow> d_lock d = free_mutex \<Longrightarrow> (\<And>i. edges d i = parent_IDs M (vertices d i)) \<Longrightarrow> AddVertices M d vs = Ret d' \<Longrightarrow>
   (\<forall>i. vertices d' i = (case vertices d i of None \<Rightarrow> find (\<lambda>v. v_ID M v = i) vs | Some v \<Rightarrow> Some v)) \<and>
   (\<forall>i. edges d' i = parent_IDs M (vertices d' i))"
proof (induction vs arbitrary: d)
  case Nil
  then show ?case by (auto split: option.splits)
next
  case (Cons v vs)
  let ?d = "fst (AddVertex_locked M d v)"
  note maps = AddVertex_locked_maps [OF Cons.prems(1,3), of v]
  have "AddVertices M ?d vs = Ret d'"
    using Cons.prems(2,4) by (simp add: AddVertex_returns split: prod.splits)
  from Cons.IH [OF AddVertex_locked_inv [OF Cons.prems(1)] _ maps(2) this] Cons.prems(2)
  have "\<forall>i. vertices d' i = (case vertices ?d i of None \<Rightarrow> find (\<lambda>v. v_ID M v = i) vs | Some v \<Rightarrow> Some v)"
    "\<forall>i. edges d' i = parent_IDs M (vertices d' i)" by (simp_all add: AddVertex_locked_lock)
  then show ?case by (simp add: maps(1) split: option.splits)
qed

text \<open>
  C27. Adding any list of vertices to a new DAG never blocks or panics, and the DAG then holds, for each ID, the first
  vertex of the list with that ID. The parents map has an entry for exactly the vertices whose \<^verbatim>\<open>Parents\<close>
  call succeeds, with the IDs it returned. The frontier, which is maintained incrementally, is exactly the set of these vertices
  that are returned as a parent by no stored vertex; a vertex whose \<^verbatim>\<open>Parents\<close> fails is stored and never in the
  frontier, and hides nothing.
\<close>

theorem dag_frontier_childless:
  "\<exists>d. AddVertices M (NewParallelDAG n) vs = Ret d \<and>
       (\<forall>i. vertices d i = find (\<lambda>v. v_ID M v = i) vs) \<and>
       (\<forall>i. edges d i = (case vertices d i of None \<Rightarrow> None | Some v \<Rightarrow>
          (case v_Parents M v of Inl _ \<Rightarrow> None | Inr ps \<Rightarrow> Some (map (v_ID M) ps)))) \<and>
       frontier d = {i. \<exists>v ps. vertices d i = Some v \<and> v_Parents M v = Inr ps} -
         {v_ID M p | c v ps p. vertices d c = Some v \<and> v_Parents M v = Inr ps \<and> p \<in> set ps}"
proof -
  have new: "dag_inv (NewParallelDAG n)" "d_lock (NewParallelDAG n) = free_mutex"
    by (simp_all add: dag_inv_New)
  from AddVertices_ready [OF new] obtain d
    where d: "AddVertices M (NewParallelDAG n) vs = Ret d" and inv: "dag_inv d"
    by blast
  have "edges (NewParallelDAG n) i = parent_IDs M (vertices (NewParallelDAG n) i)" for i
    by (simp add: NewParallelDAG_def parent_IDs_def)
  from AddVertices_maps [OF new this d] have maps: "\<forall>i. vertices d i = find (\<lambda>v. v_ID M v = i) vs"
    "\<forall>i. edges d i = parent_IDs M (vertices d i)" by (simp_all add: NewParallelDAG_def)
  have dom: "dom (edges d) = {i. \<exists>v ps. vertices d i = Some v \<and> v_Parents M v = Inr ps}"
    by (auto simp: maps(2) dom_def parent_IDs_Some)
  have par: "(\<Union>c. parents_of d c) = {v_ID M p | c v ps p. vertices d c = Some v \<and> v_Parents M v = Inr ps \<and> p \<in> set ps}"
  proof -
    have "i \<in> parents_of d c \<longleftrightarrow> (\<exists>v ps p. vertices d c = Some v \<and> v_Parents M v = Inr ps \<and> p \<in> set ps \<and> i = v_ID M p)" for i c
      by (force simp: parents_of_def maps(2) parent_IDs_def split: option.splits sum.splits)
    then show ?thesis by blast
  qed
  have "frontier d = dom (edges d) - (\<Union>c. parents_of d c)"
    using frontier_eq [OF inv]
    by (auto simp: added_def parents_of_def dom_def split: option.splits)
  then show ?thesis using d maps unfolding dom par parent_IDs_def by blast
qed

text \<open>Vertex 2 names 1 as its parent, and 3, whose parents cannot be read, is the third vertex.\<close>

theorem dag_frontier_childless_witness:
  "\<exists>d. AddVertices plain_methods (NewParallelDAG 4)
      [plain_vertex_of 1 [], plain_vertex_of 2 [1], \<lparr>pv_ID = test_ID 3, pv_parents = Inl (Err ''missing parent''), pv_status = Processing\<rparr>] = Ret d \<and>
    frontier d = {test_ID 2} \<and> vertices d (test_ID 3) \<noteq> None"
proof -
  let ?vs = "[plain_vertex_of 1 [], plain_vertex_of 2 [1], \<lparr>pv_ID = test_ID 3, pv_parents = Inl (Err ''missing parent''), pv_status = Processing\<rparr>]"
  from dag_frontier_childless [of plain_methods 4 ?vs] obtain d where d: "AddVertices plain_methods (NewParallelDAG 4) ?vs = Ret d"
    "\<forall>i. vertices d i = find (\<lambda>v. v_ID plain_methods v = i) ?vs"
    "frontier d = {i. \<exists>v ps. vertices d i = Some v \<and> v_Parents plain_methods v = Inr ps} -
       {v_ID plain_methods p | c v ps p. vertices d c = Some v \<and> v_Parents plain_methods v = Inr ps \<and> p \<in> set ps}" by blast
  have v: "vertices d i = (if i = test_ID 1 then Some (?vs ! 0) else if i = test_ID 2 then Some (?vs ! 1)
      else if i = test_ID 3 then Some (?vs ! 2) else None)" for i
    using d(2) by (simp add: eq_commute [of i])
  have P: "(vertices d i = Some w \<and> v_Parents plain_methods w = Inr ps) \<longleftrightarrow>
      (i = test_ID 1 \<and> w = ?vs ! 0 \<and> ps = []) \<or> (i = test_ID 2 \<and> w = ?vs ! 1 \<and> ps = [plain_parent (test_ID 1)])" for i w ps
    by (cases "i = test_ID 1"; cases "i = test_ID 2"; cases "i = test_ID 3") (auto simp: v)
  have "{i. \<exists>v ps. vertices d i = Some v \<and> v_Parents plain_methods v = Inr ps} = {test_ID 1, test_ID 2}"
    unfolding P by auto
  moreover have "{v_ID plain_methods p | c v ps p. vertices d c = Some v \<and> v_Parents plain_methods v = Inr ps \<and> p \<in> set ps} = {test_ID 1}"
    unfolding conj_assoc [symmetric] P by (auto simp: conj_disj_distribL conj_disj_distribR ex_disj_distrib)
  ultimately have "frontier d = {test_ID 2}" unfolding d(3) by auto
  moreover have "vertices d (test_ID 3) \<noteq> None" unfolding v by simp
  ultimately show ?thesis using d(1) by blast
qed

text \<open>
  C28. The frontier covers the DAG: when the parent relation of a DAG built by \<^verbatim>\<open>AddVertex\<close> has
  no cycle, every added vertex is an ancestor of a frontier vertex (or one itself), so following
  parents from the frontier reaches all of it.
\<close>

theorem dag_frontier_covers:
  assumes "AddVertices M (NewParallelDAG n) vs = Ret d"
    and "acyclic {(c, p). c \<in> dom (edges d) \<and> p \<in> dom (edges d) \<and> p \<in> parents_of d c}"
    and "v \<in> dom (edges d)"
  shows "\<exists>f \<in> frontier d.
     (f, v) \<in> {(c, p). c \<in> dom (edges d) \<and> p \<in> dom (edges d) \<and> p \<in> parents_of d c}\<^sup>*"
proof -
  have "dag_inv d"
    using AddVertices_ready [of "NewParallelDAG n" M vs] assms(1) dag_inv_New
    by (auto simp: NewParallelDAG_def)
  with assms(2,3) show ?thesis
    using dagf.front_covers [of d v] by (simp add: dagf.edge_def added_def)
qed

theorem dag_frontier_covers_witness:
  "\<exists>d. AddVertices plain_methods (NewParallelDAG 4) [plain_vertex_of 0 [], plain_vertex_of 1 [0]] = Ret d \<and>
     frontier d = {test_ID 1} \<and>
     (test_ID 1, test_ID 0) \<in>
       {(c, p). c \<in> dom (edges d) \<and> p \<in> dom (edges d) \<and> p \<in> parents_of d c}\<^sup>*"
proof -
  let ?vs = "[plain_vertex_of 0 [], plain_vertex_of 1 [0]]"
  from AddVertices_ready [OF dag_inv_New New_lock] obtain d
    where d: "AddVertices plain_methods (NewParallelDAG 4) ?vs = Ret d" by blast
  then have edges: "edges d = [test_ID 0 \<mapsto> [], test_ID 1 \<mapsto> [test_ID 0]]"
    and front: "frontier d = {test_ID 1}"
    by (auto simp: AddVertex_returns AddVertex_locked_def Let_def NewParallelDAG_def)
  have rel: "{(c, p). c \<in> dom (edges d) \<and> p \<in> dom (edges d) \<and> p \<in> parents_of d c} =
      {(test_ID 1, test_ID 0)}"
    by (auto simp: edges parents_of_def)
  have "acyclic {(c, p). c \<in> dom (edges d) \<and> p \<in> dom (edges d) \<and> p \<in> parents_of d c}"
    unfolding rel by (intro wf_acyclic) simp
  moreover have "test_ID 0 \<in> dom (edges d)" by (simp add: edges)
  ultimately show ?thesis
    using dag_frontier_covers [OF d] d front by auto
qed

text \<open>
  C29. \<^verbatim>\<open>ProcessFrontier\<close> never returns: it calls \<^verbatim>\<open>GetFrontier\<close>, which takes the read lock,
  while it holds the write lock of the same mutex.
\<close>

theorem ProcessFrontier_deadlocks: "ProcessFrontier batch d ks = Block"
proof (cases "Lock (d_lock d)")
  case (Ret l)
  then have "RLock l = Block" by (rule RLock_after_Lock)
  with Ret show ?thesis by (simp add: ProcessFrontier_def GetFrontier_def)
qed (auto simp: ProcessFrontier_def go_defs split: if_splits)

text \<open>
  A vertex whose \<^verbatim>\<open>Parents\<close> call fails is lost: \<^verbatim>\<open>AddVertex\<close> returns the error but has
  already stored the vertex, without edges and outside the frontier, and a later attempt to add it
  (with whatever parents) returns success and changes nothing.
\<close>

theorem AddVertex_parents_error:
  assumes "dag_inv d" and "vertices d (v_ID M v) = None" and "v_Parents M v = Inl e"
    and "v_ID M v' = v_ID M v"
  shows "\<exists>d'. AddVertex_locked M d v = (d', Some e) \<and> vertices d' (v_ID M v) = Some v \<and>
     edges d' (v_ID M v) = None \<and> v_ID M v \<notin> frontier d' \<and> AddVertex_locked M d' v' = (d', None)"
proof -
  from assms(1,2) have "edges d (v_ID M v) = None" "v_ID M v \<notin> frontier d"
    by (auto simp: dag_inv_def)
  with assms show ?thesis
    by (simp add: AddVertex_locked_def Let_def)
qed

theorem AddVertex_parents_error_witness:
  "\<exists>d'. AddVertex_locked plain_methods (NewParallelDAG 4)
        \<lparr>pv_ID = [7], pv_parents = Inl (Err ''missing parent''), pv_status = Processing\<rparr>
        = (d', Some (Err ''missing parent'')) \<and>
     [7] \<notin> frontier d' \<and>
     AddVertex_locked plain_methods d'
        \<lparr>pv_ID = [7], pv_parents = Inr [], pv_status = Processing\<rparr> = (d', None)"
  using AddVertex_parents_error [of "NewParallelDAG 4" plain_methods
      "\<lparr>pv_ID = [7], pv_parents = Inl (Err ''missing parent''), pv_status = Processing\<rparr>"
      "Err ''missing parent''" "\<lparr>pv_ID = [7], pv_parents = Inr [], pv_status = Processing\<rparr>"]
    dag_inv_New [of 4]
  by (auto simp: NewParallelDAG_def)

lemma run_seq_batch:
  "run_seq (batch_work M T) () us = ((), map (Process M T) us)"
  by (induction us) (simp_all add: batch_work_def)

text \<open>
  \<^verbatim>\<open>ProcessBatch\<close> returns under some schedule from every reachable state, and whatever the
  schedule it reports nil exactly when \<^verbatim>\<open>Process\<close> succeeds on every vertex, and otherwise an
  error of one of them; at no time do more than \<^verbatim>\<open>maxWorkers\<close> goroutines run.
\<close>

theorem ProcessBatch_reports:
  fixes n :: int
  assumes "p = NewDefaultVertexProcessor n"
  shows "(\<exists>err. ProcessBatch M T p vs err) \<and>
     (\<forall>err. ProcessBatch M T p vs err \<longrightarrow>
        (err = None \<longleftrightarrow> (\<forall>v \<in> set vs. Process M T v = None)) \<and>
        (\<forall>e. err = Some e \<longrightarrow> (\<exists>v \<in> set vs. Process M T v = Some e))) \<and>
     (\<forall>l. loop_reach (nat (p_maxWorkers p)) (batch_work M T) vs () l \<longrightarrow>
        int (length (running l)) \<le> p_maxWorkers p)"
proof (intro conjI allI impI)
  have pos: "0 < p_maxWorkers p" by (simp add: assms NewDefaultVertexProcessor_def)
  then have cap: "0 < nat (p_maxWorkers p)" by simp
  from loop_can_finish [OF cap loop_reach.start, of "batch_work M T" vs "()"] obtain l
    where "loop_reach (nat (p_maxWorkers p)) (batch_work M T) vs () l" "loop_done l" by (elim exE conjE)
  then have "ProcessBatch M T p vs (first_error (sent l))" by (auto simp: ProcessBatch_def)
  then show "\<exists>err. ProcessBatch M T p vs err" by (rule exI)
next
  fix err
  assume "ProcessBatch M T p vs err"
  then obtain l where l: "loop_reach (nat (p_maxWorkers p)) (batch_work M T) vs () l" "loop_done l"
    and err: "err = first_error (sent l)"
    by (auto simp: ProcessBatch_def)
  from loop_done_linearised [OF l] have "mset (sent l) = image_mset (Process M T) (mset vs)"
    by (auto simp: run_seq_batch)
  then have "set (sent l) = Process M T ` set vs"
    by (metis mset_map set_map set_mset_mset)
  note outcomes = this
  from outcomes err first_error_None [of "sent l"]
  show "err = None \<longleftrightarrow> (\<forall>v \<in> set vs. Process M T v = None)"
    by auto
  fix e
  assume "err = Some e"
  with outcomes err first_error_Some [of "sent l" e]
  show "\<exists>v \<in> set vs. Process M T v = Some e"
    by auto
next
  fix l
  assume "loop_reach (nat (p_maxWorkers p)) (batch_work M T) vs () l"
  from loop_reach_cap [OF this] show "int (length (running l)) \<le> p_maxWorkers p"
    by (simp add: assms NewDefaultVertexProcessor_def split: if_splits)
qed

theorem ProcessBatch_reports_witness:
  "ProcessBatch plain_methods undefined (NewDefaultVertexProcessor 2) [plain_vertex_of 0 []] None"
proof -
  have "Process plain_methods T (plain_vertex_of 0 []) = None" for T
    by (simp add: Process_def)
  with ProcessBatch_reports [OF refl, of plain_methods undefined 2 "[plain_vertex_of 0 []]"]
  show ?thesis by (metis list.set(1) list.set(2) singletonD)
qed

text \<open>
  \<^verbatim>\<open>UpdateStatus\<close> on a DAG whose lock is free returns, keeps the DAG's invariant, its
  edges and its frontier, and: an unknown vertex or a status other than Accepted and Rejected is
  an error that changes nothing; success means the stored vertex now has the requested status.
\<close>

theorem UpdateStatus_behaviour:
  assumes "decidable (v_ID M) (v_Accept M) (v_Reject M) (v_Status M)"
    and "dag_inv d" and "d_lock d = free_mutex"
  shows "\<exists>d' e. UpdateStatus M d i status = Ret (d', e) \<and> dag_inv d' \<and>
     edges d' = edges d \<and> frontier d' = frontier d \<and> d_lock d' = free_mutex \<and>
     (vertices d i = None \<longrightarrow> e = Some ErrUnknownVertex \<and> d' = d) \<and>
     (e = None \<longrightarrow> (\<exists>v. vertices d' i = Some v \<and> v_Status M v = status))"
proof -
  let ?r = "UpdateStatus_locked M d i status"
  have keep: "edges (fst ?r) = edges d" "frontier (fst ?r) = frontier d" "d_lock (fst ?r) = d_lock d"
    by (auto simp: UpdateStatus_locked_def Let_def split: option.splits prod.splits)
  have "finite (dom (vertices d))" using assms(2) by (simp add: dag_inv_def)
  with assms(2) have inv: "dag_inv (fst ?r)"
    by (auto simp: UpdateStatus_locked_def Let_def split: option.splits prod.splits
        intro!: dag_inv_vertices)
  have ok: "\<exists>v. vertices (fst ?r) i = Some v \<and> v_Status M v = status" if "snd ?r = None"
  proof -
    from that obtain v where "vertices d i = Some v"
      by (cases "vertices d i") (auto simp: UpdateStatus_locked_def)
    with that decidable.Accept_Status [OF assms(1), of v] decidable.Reject_Status [OF assms(1), of v]
    show ?thesis
      by (auto simp: UpdateStatus_locked_def Let_def split: prod.splits if_splits)
  qed
  have mutex: "UpdateStatus_locked M (d\<lparr>d_lock := l\<rparr>) i status = ((fst ?r)\<lparr>d_lock := l\<rparr>, snd ?r)" for l
  proof -
    have "d\<lparr>d_lock := l, vertices := V\<rparr> = d\<lparr>vertices := V, d_lock := l\<rparr>" for V
      by (cases d) simp
    then show ?thesis
      by (simp add: UpdateStatus_locked_def Let_def split: option.splits prod.splits)
  qed
  have "(fst ?r)\<lparr>d_lock := free_mutex\<rparr> = fst ?r"
    using keep(3) assms(3) by (cases "fst ?r") simp
  then have ret: "UpdateStatus M d i status = Ret ?r"
    by (simp add: UpdateStatus_def assms(3) mutex)
  have none: "vertices d i = None \<Longrightarrow> ?r = (d, Some ErrUnknownVertex)"
    by (simp add: UpdateStatus_locked_def)
  from ret inv keep ok none assms(3) show ?thesis
    by (cases ?r) auto
qed

theorem UpdateStatus_behaviour_witness:
  "\<exists>d d' v. AddVertices plain_methods (NewParallelDAG 4) [plain_vertex_of 0 []] = Ret d \<and>
     UpdateStatus plain_methods d (test_ID 0) Accepted = Ret (d', None) \<and>
     vertices d' (test_ID 0) = Some v \<and> pv_status v = Accepted"
proof -
  have laws: "decidable (v_ID plain_methods) (v_Accept plain_methods) (v_Reject plain_methods)
      (v_Status plain_methods)"
    by unfold_locales simp_all
  from AddVertices_ready [OF dag_inv_New, of 4 plain_methods "[plain_vertex_of 0 []]"] obtain d
    where d: "AddVertices plain_methods (NewParallelDAG 4) [plain_vertex_of 0 []] = Ret d"
      and inv: "dag_inv d" "d_lock d = free_mutex"
    by auto
  from d have v: "vertices d (test_ID 0) = Some (plain_vertex_of 0 [])"
    by (auto simp: AddVertex_returns AddVertex_locked_def Let_def NewParallelDAG_def)
  from UpdateStatus_behaviour [OF laws inv, of "test_ID 0" Accepted] obtain d' e
    where d': "UpdateStatus plain_methods d (test_ID 0) Accepted = Ret (d', e)"
      and st: "e = None \<longrightarrow> (\<exists>v. vertices d' (test_ID 0) = Some v \<and> v_Status plain_methods v = Accepted)"
    by blast
  have "e = None"
    using d' v inv(2)
    by (auto simp: UpdateStatus_def UpdateStatus_locked_def status_defs)
  with d d' st show ?thesis by auto
qed

end
