(* ===== verification/EngineProperties.thy ===== *)
theory EngineProperties
  imports ParallelEngine ParallelDAG
begin

text \<open>
  What the engine of \<open>ParallelEngine\<close> guarantees and what it does not: no double spend as long as
  every vertex verifies, a double spend when some do not, conflicts that are never resolved, and a
  \<^verbatim>\<open>DecideTxs\<close> that does not return on a non-empty DAG.
\<close>

section \<open>A small network\<close>

text \<open>
  Transactions are their own IDs and all spend one input; a vertex is its ID, its transactions and
  whether its verification succeeds.
\<close>

definition one_input_txs :: "ID tx_methods" where
  "one_input_txs =
     \<lparr>tx_ID = id, tx_Accept = (\<lambda>t. (t, None)), tx_Reject = (\<lambda>t. (t, None)),
      tx_Status = (\<lambda>_. Processing), tx_Verify = (\<lambda>_. None), tx_InputIDs = (\<lambda>_. Inr [test_ID 0])\<rparr>"

type_synonym net_vertex = "ID \<times> ID list \<times> bool"

definition net :: "bool \<Rightarrow> (net_vertex, ID) vertex_methods" where
  "net checks =
     \<lparr>v_ID = fst, v_Accept = (\<lambda>v. (v, None)), v_Reject = (\<lambda>v. (v, None)),
      v_Status = (\<lambda>_. Processing), v_Parents = (\<lambda>_. Inr []), v_Height = (\<lambda>_. Inr 0),
      v_Txs = (\<lambda>v. Inr (fst (snd v))), v_Bytes = (\<lambda>_. []),
      v_Verify = (\<lambda>v. if checks \<and> \<not> snd (snd v) then Some (Err ''invalid'') else None),
      v_Priority = (\<lambda>_. 0)\<rparr>"

lemma net_simps [simp]:
  "v_ID (net c) v = fst v" "v_Parents (net c) v = Inr []" "v_Txs (net c) v = Inr (fst (snd v))"
  "v_Verify (net c) v = (if c \<and> \<not> snd (snd v) then Some (Err ''invalid'') else None)"
  "v_Accept (net c) v = (v, None)" "v_Reject (net c) v = (v, None)"
  "tx_ID one_input_txs t = t" "tx_InputIDs one_input_txs t = Inr [test_ID 0]"
  "tx_Accept one_input_txs t = (t, None)" "tx_Reject one_input_txs t = (t, None)"
  by (simp_all add: net_def one_input_txs_def)

lemma net_tables_ok: "tables_ok (net False) one_input_txs"
  by (simp add: tables_ok_def)

lemma one_input [simp]: "inputs_of one_input_txs t = {test_ID 0}"
  by (simp add: inputs_of_def)

text \<open>An order for every finite set of IDs, so that the range orders assumed below exist.\<close>

definition some_order :: "ID set \<Rightarrow> ID list" where
  "some_order = sorted_list_of_set"

lemma valid_some_order: "valid_ord some_order"
  by (simp add: valid_ord_def some_order_def)

lemmas engine_run_simps =
  ProcessVertex_def NewParallelEngine_def Let_def log_call_def decided_def decide_vertex_def
  decide_tx_def canAccept_def

section \<open>No double spend while vertices verify\<close>

text \<open>
  C23. When every vertex verifies, no method fails and a transaction's ID determines its inputs, two
  accepted transactions that spend the same input are the same transaction, whatever vertices were
  processed and decided, in whatever order.
\<close>

theorem accepted_txs_disjoint:
  assumes "engine_reach M T e" and "tables_ok M T"
    and "tx_ID T t \<in> txsAccepted e" and "tx_ID T u \<in> txsAccepted e"
    and "j \<in> inputs_of T t" and "j \<in> inputs_of T u"
  shows "tx_ID T t = tx_ID T u"
  using safety.I_reach [OF assms(1)] assms(2-) unfolding safe_def by blast

text \<open>A vertex with one transaction, decided, then a second vertex with a competitor, decided.\<close>

definition rival_run :: "net_vertex engine" where
  "rival_run =
     (let e1 = fst (ProcessVertex (net False) one_input_txs (NewParallelEngine 4) (test_ID 1, [test_ID 11], True));
          e2 = fst (decide_frontier (net False) one_input_txs some_order [test_ID 1] e1);
          e3 = fst (ProcessVertex (net False) one_input_txs e2 (test_ID 2, [test_ID 12], True))
      in fst (decide_frontier (net False) one_input_txs some_order [test_ID 1, test_ID 2] e3))"

lemma rival_run_reach: "engine_reach (net False) one_input_txs rival_run"
  unfolding engine_reach_def rival_run_def Let_def
  by (intro exI [of _ 4] engine_steps.intros valid_some_order)

lemma rival_run_accepted: "test_ID 11 \<in> txsAccepted rival_run"
  by (simp add: rival_run_def engine_run_simps some_order_def)

theorem accepted_txs_disjoint_witness:
  "test_ID 11 \<in> txsAccepted rival_run \<and> test_ID 12 \<notin> txsAccepted rival_run"
  using accepted_txs_disjoint [OF rival_run_reach net_tables_ok, of "test_ID 11" "test_ID 12" "test_ID 0"]
    rival_run_accepted by auto

section \<open>Double spend when vertices do not verify\<close>

text \<open>
  Without the assumption that vertices verify the guarantee is lost: a vertex that fails
  \<^verbatim>\<open>Verify\<close> is rejected, but it stays in the vertex map and its transactions are not entered
  in the conflict map, so \<^verbatim>\<open>DecideTxs\<close> accepts the transactions of two such vertices although they
  spend the same input.
\<close>

theorem rejected_vertices_double_spend:
  "\<exists>e. engine_reach (net True) one_input_txs e \<and>
     VtxReject (test_ID 1) \<in> set (calls e) \<and> VtxReject (test_ID 2) \<in> set (calls e) \<and>
     txsAccepted e = {test_ID 11, test_ID 12} \<and>
     inputs_of one_input_txs (test_ID 11) = inputs_of one_input_txs (test_ID 12)"
proof -
  let ?M = "net True" and ?T = one_input_txs
  define e1 where "e1 = fst (ProcessVertex ?M ?T (NewParallelEngine 4) (test_ID 1, [test_ID 11], False))"
  define e2 where "e2 = fst (ProcessVertex ?M ?T e1 (test_ID 2, [test_ID 12], False))"
  define e3 where "e3 = fst (decide_frontier ?M ?T some_order [test_ID 1, test_ID 2] e2)"
  have "engine_reach ?M ?T e3"
    unfolding engine_reach_def e3_def e2_def e1_def
    by (intro exI [of _ 4] engine_steps.intros valid_some_order)
  moreover have "VtxReject (test_ID 1) \<in> set (calls e3)" "VtxReject (test_ID 2) \<in> set (calls e3)"
    "txsAccepted e3 = {test_ID 11, test_ID 12}"
    by (auto simp: e3_def e2_def e1_def engine_run_simps)
  ultimately show ?thesis by auto
qed

section \<open>Conflicts are never resolved\<close>

lemma no_rejects_reach: "engine_reach M T e \<Longrightarrow> no_rejects e"
  by (rule norej.I_reach)

text \<open>\<open>a\<close> and \<open>b\<close> compete for \<open>j\<close>, and those of them in \<open>A\<close> are accepted.\<close>

definition deadlocked :: "'t tx_methods \<Rightarrow> ID \<Rightarrow> ID \<Rightarrow> ID \<Rightarrow> ID set \<Rightarrow> 'v engine \<Rightarrow> bool" where
  "deadlocked T j a b A e \<longleftrightarrow> no_rejects e \<and> a \<noteq> b \<and> spends e a j \<and> spends e b j \<and>
     txsAccepted e \<inter> {a, b} = A \<and>
     (\<forall>t. tx_ID T t = a \<or> tx_ID T t = b \<longrightarrow> j \<in> inputs_of T t)"

lemma ProcessVertex_spends: "spends e a j \<Longrightarrow> spends (fst (ProcessVertex M T e v)) a j"
proof -
  assume a: "spends e a j"
  have "spends (fst (register_txs T txs (e\<lparr>e_vertices := V, edgeMap := E\<rparr>))) a j" for txs V E
    by (rule register_txs_spends) (use a in \<open>simp add: spends_def\<close>)
  moreover have "spends (e\<lparr>e_vertices := V\<rparr>) a j" "spends (e\<lparr>e_vertices := V, edgeMap := E\<rparr>) a j"
    "spends (log_call c (e\<lparr>e_vertices := V, edgeMap := E\<rparr>)) a j" for V E c
    using a by (simp_all add: spends_def log_call_def)
  ultimately show ?thesis using a
    by (simp add: ProcessVertex_def Let_def split: sum.splits option.splits)
qed

lemma canAccept_competitor:
  "txsRejected e = {} \<Longrightarrow> canAccept e c inputs \<Longrightarrow> j \<in> set inputs \<Longrightarrow> spends e a j \<Longrightarrow> a = c"
  using canAccept_alone [of e c inputs j] by (auto simp: spends_def)

interpretation stuck: engine_stable M T "deadlocked T j a b A"
  for M :: "('v, 't) vertex_methods" and T j a b A
proof
  fix e :: "'v engine" and v
  assume "deadlocked T j a b A e"
  then show "deadlocked T j a b A (fst (ProcessVertex M T e v))"
    by (simp add: deadlocked_def norej.I_process ProcessVertex_spends ProcessVertex_accepted)
next
  fix e :: "'v engine" and ord :: "ID set \<Rightarrow> ID list" and i v txs tx
  assume e: "deadlocked T j a b A e" and ord: "valid_ord ord" and tx: "e_vertices e i = Some v"
    "v_Txs M v = Inr txs" "tx \<in> set txs"
  let ?f = "fst (decide_tx M T ord tx e)"
  from e have rej: "txsRejected e = {}" by (simp add: deadlocked_def no_rejects_def)
  have sp: "spends ?f = spends e"
    using decide_tx_dag [of e M T ord tx] by (auto simp: same_dag_def spends_def fun_eq_iff)
  have nr: "no_rejects ?f"
    using norej.I_decide [OF _ ord tx] e by (simp add: deadlocked_def)
  have acc: "txsAccepted ?f \<inter> {a, b} = A"
  proof (rule decide_tx_cases [OF rej ord, of M T tx])
    fix inputs
    assume acc: "tx_InputIDs T tx = Inr inputs" "canAccept e (tx_ID T tx) inputs"
      "?f = (log_call (TxAccept (tx_ID T tx)) e)\<lparr>txsAccepted := insert (tx_ID T tx) (txsAccepted e)\<rparr>"
    have "False" if "tx_ID T tx \<in> {a, b}"
    proof -
      from that e have "j \<in> inputs_of T tx" unfolding deadlocked_def by blast
      then have "j \<in> set inputs" by (simp add: inputs_of_def acc(1))
      with e have "a = tx_ID T tx" "b = tx_ID T tx" "a \<noteq> b"
        using canAccept_competitor [OF rej acc(2), of j] by (simp_all add: deadlocked_def)
      then show False by simp
    qed
    with acc(3) e show ?thesis by (auto simp: deadlocked_def log_call_def)
  next
    assume "txsAccepted ?f = txsAccepted e"
    with e show ?thesis by (simp add: deadlocked_def)
  qed
  with e sp nr show "deadlocked T j a b A ?f" unfolding deadlocked_def by simp
next
  fix e :: "'v engine" and i
  assume "deadlocked T j a b A e"
  then show "deadlocked T j a b A (log_call (VtxAccept i) e)"
    by (simp add: deadlocked_def norej.I_log) (simp add: spends_def log_call_def)
qed

text \<open>
  C25. The engine never rejects a transaction: no \<^verbatim>\<open>Reject\<close> call is ever made on a transaction, so
  the branch of \<^verbatim>\<open>canAccept\<close> that waits for the competitors to be rejected waits forever. From the
  moment two different transactions are recorded as spending the same input (and an ID determines that its transaction
  spends it), the decisions on them are frozen, whatever is processed and decided afterwards: one of them that is
  accepted by then stays accepted, one that is not is never accepted and never rejected.
\<close>

theorem conflicts_never_resolved:
  assumes "engine_reach M T e" and "spends e a j" and "spends e b j" and "a \<noteq> b"
    and "\<And>t. tx_ID T t = a \<or> tx_ID T t = b \<Longrightarrow> j \<in> inputs_of T t"
    and "engine_steps M T e e'"
  shows "(decided e' a \<longleftrightarrow> decided e a) \<and> (decided e' b \<longleftrightarrow> decided e b) \<and>
    txsAccepted e' \<inter> {a, b} = txsAccepted e \<inter> {a, b} \<and> txsRejected e' = {} \<and> (\<forall>c. TxReject c \<notin> set (calls e'))"
proof -
  have e: "deadlocked T j a b (txsAccepted e \<inter> {a, b}) e"
    using assms(1-5) no_rejects_reach by (auto simp: deadlocked_def)
  with assms(6) have e': "deadlocked T j a b (txsAccepted e \<inter> {a, b}) e'" by (rule stuck.I_steps)
  have "decided e' c \<longleftrightarrow> decided e c" if "c \<in> {a, b}" for c
  proof -
    have "txsRejected e = {}" "txsRejected e' = {}" "txsAccepted e' \<inter> {a, b} = txsAccepted e \<inter> {a, b}"
      using e e' by (simp_all add: deadlocked_def no_rejects_def)
    then show ?thesis using that unfolding decided_def by blast
  qed
  with e' show ?thesis by (simp add: deadlocked_def no_rejects_def)
qed

definition rivals :: "net_vertex engine" where
  "rivals = fst (ProcessVertex (net False) one_input_txs (NewParallelEngine 4)
     (test_ID 1, [test_ID 11, test_ID 12], True))"

text \<open>Two competitors in one vertex, and a competitor that comes after the other was accepted.\<close>

definition late_rival :: "net_vertex engine" where
  "late_rival =
     (let e1 = fst (ProcessVertex (net False) one_input_txs (NewParallelEngine 4) (test_ID 1, [test_ID 11], True));
          e2 = fst (decide_frontier (net False) one_input_txs some_order [test_ID 1] e1)
      in fst (ProcessVertex (net False) one_input_txs e2 (test_ID 2, [test_ID 12], True)))"

theorem conflicts_never_resolved_witness:
  "\<not> decided (fst (decide_frontier (net False) one_input_txs some_order [test_ID 1] rivals)) (test_ID 11) \<and>
   \<not> decided (fst (decide_frontier (net False) one_input_txs some_order [test_ID 1] rivals)) (test_ID 12) \<and>
   decided (fst (decide_frontier (net False) one_input_txs some_order [test_ID 2] late_rival)) (test_ID 11) \<and>
   \<not> decided (fst (decide_frontier (net False) one_input_txs some_order [test_ID 2] late_rival)) (test_ID 12)"
proof -
  have reach: "engine_reach (net False) one_input_txs rivals" "engine_reach (net False) one_input_txs late_rival"
    unfolding engine_reach_def rivals_def late_rival_def Let_def by (intro exI [of _ 4] engine_steps.intros valid_some_order)+
  have facts: "spends rivals (test_ID 11) (test_ID 0)" "spends rivals (test_ID 12) (test_ID 0)"
    "test_ID 11 \<noteq> test_ID 12" "\<not> decided rivals (test_ID 11)" "\<not> decided rivals (test_ID 12)"
    by (simp_all add: rivals_def spends_def engine_run_simps)
  have late: "spends late_rival (test_ID 11) (test_ID 0)" "spends late_rival (test_ID 12) (test_ID 0)"
    "decided late_rival (test_ID 11)" "\<not> decided late_rival (test_ID 12)"
    by (simp_all add: late_rival_def spends_def engine_run_simps some_order_def)
  note never = conflicts_never_resolved [OF _ _ _ facts(3) _ engine_steps.decide [OF engine_steps.none valid_some_order],
      of "net False" one_input_txs _ "test_ID 0"]
  show ?thesis
    using never [OF reach(1) facts(1,2)] never [OF reach(2) late(1,2)] facts(4,5) late(3,4) by (simp del: decide_frontier.simps)
qed

section \<open>DecideTxs does not return\<close>

text \<open>The engine's frontier is the vertices without a child, recomputed from the edge map.\<close>

definition engine_parents :: "'v engine \<Rightarrow> ID \<Rightarrow> ID set" where
  "engine_parents e c = (case edgeMap e c of None \<Rightarrow> {} | Some ps \<Rightarrow> set ps)"

lemma isParent_iff: "isParent e v \<longleftrightarrow> (\<exists>c. v \<in> engine_parents e c)"
  by (auto simp: isParent_def engine_parents_def ran_def split: option.splits)

interpretation engf: frontier_view "\<lambda>e. dom (e_vertices e)" engine_parents
  "\<lambda>e. {v \<in> dom (e_vertices e). \<not> isParent e v}" no_rejects
proof
  fix e :: "'v engine"
  assume e: "no_rejects e"
  then show "finite (dom (e_vertices e))" by (simp add: no_rejects_def)
  have "v \<in> engine_parents e c \<Longrightarrow> c \<in> dom (e_vertices e)" for v c
    using e by (auto simp: no_rejects_def engine_parents_def split: option.splits)
  then show "{v \<in> dom (e_vertices e). \<not> isParent e v} =
      {v \<in> dom (e_vertices e). \<forall>c \<in> dom (e_vertices e). v \<notin> engine_parents e c}"
    unfolding isParent_iff by blast
qed

definition no_errors :: "('v, 't) vertex_methods \<Rightarrow> 't tx_methods \<Rightarrow> bool" where
  "no_errors M T \<longleftrightarrow>
     (\<forall>v. \<not> isl (v_Txs M v) \<and> snd (v_Accept M v) = None) \<and>
     (\<forall>t. \<not> isl (tx_InputIDs T t) \<and> snd (tx_Accept T t) = None \<and> snd (tx_Reject T t) = None)"

lemma reject_no_error:
  assumes "no_errors M T"
  shows "snd (reject_matching T c ts e) = None"
    and "snd (reject_in_vertices M T c vs e) = None"
    and "snd (reject_conflicts M T ord x cs e) = None"
    and "snd (reject_inputs M T ord x is e) = None"
proof -
  show 1: "snd (reject_matching T c ts e) = None" for c ts and e :: "'v engine"
    using assms by (induction ts arbitrary: e) (auto simp: no_errors_def Let_def)
  show 2: "snd (reject_in_vertices M T c vs e) = None" for c vs e
  proof (induction vs arbitrary: e)
    case (Cons v vs)
    then show ?case using 1 [of c "txs_of M (e_vertices e v)" e]
      by (auto split: prod.splits option.splits)
  qed simp
  show 3: "snd (reject_conflicts M T ord x cs e) = None" for cs e
  proof (induction cs arbitrary: e)
    case (Cons c cs)
    then show ?case using 2 [of c "ord (dom (e_vertices e))" e]
      by (auto split: prod.splits option.splits)
  qed simp
  show "snd (reject_inputs M T ord x is e) = None"
  proof (induction "is" arbitrary: e)
    case (Cons i "is")
    show ?case
    proof (cases "conflicts e i")
      case (Some cs)
      with Cons 3 [of "ord cs" e] show ?thesis by (auto split: prod.splits option.splits)
    qed (simp add: Cons)
  qed simp
qed

lemma decide_tx_no_error:
  assumes "no_errors M T"
  shows "snd (decide_tx M T ord tx e) = None"
proof -
  from assms have "\<not> isl (tx_InputIDs T tx)" "snd (tx_Accept T tx) = None"
    by (simp_all add: no_errors_def)
  with reject_no_error(4) [OF assms] show ?thesis
    by (auto simp: decide_tx_def Let_def split: sum.splits)
qed

lemma decide_txs_no_error: "no_errors M T \<Longrightarrow> snd (decide_txs M T ord txs e) = None"
proof (induction txs arbitrary: e)
  case (Cons tx txs)
  then show ?case using decide_tx_no_error [of M T ord tx e]
    by (auto split: prod.splits option.splits)
qed simp

lemma decide_vertex_no_error:
  assumes "no_errors M T"
  shows "snd (decide_vertex M T ord v e) = None"
proof (cases "e_vertices e v")
  case (Some w)
  obtain txs where "v_Txs M w = Inr txs"
    using assms by (cases "v_Txs M w") (auto simp: no_errors_def dest: spec [of _ w])
  with Some decide_txs_no_error [OF assms, of ord txs e] assms show ?thesis
    by (auto simp: decide_vertex_def no_errors_def split: prod.splits option.splits)
qed (simp add: decide_vertex_def)

lemma decide_frontier_no_error: "no_errors M T \<Longrightarrow> snd (decide_frontier M T ord vs e) = None"
proof (induction vs arbitrary: e)
  case (Cons v vs)
  then show ?case using decide_vertex_no_error [of M T ord v e]
    by (auto split: prod.splits option.splits)
qed simp

lemma same_dag_front: "same_dag e e' \<Longrightarrow> isParent e' = isParent e"
  by (rule ext) (simp add: same_dag_def isParent_def)

lemma DecideTxs_diverges:
  assumes "no_errors M T" and "\<And>n. valid_ord (ords n)"
    and "finite (dom (e_vertices e))" and "\<exists>v \<in> dom (e_vertices e). \<not> isParent e v"
  shows "DecideTxs M T ords n e = None"
proof -
  have "\<not> (no_errors M T \<and> (\<forall>n. valid_ord (ords n)) \<and> finite (dom (e_vertices e)) \<and>
      (\<exists>v \<in> dom (e_vertices e). \<not> isParent e v))"
    if "DecideTxs M T ords n e = Some y" for y
    using that
  proof (rule DecideTxs.raw_induct [rotated])
    fix D and M :: "('a, 'b) vertex_methods" and T :: "'b tx_methods" and ords n e y
    assume IH: "\<And>(M :: ('a, 'b) vertex_methods) (T :: 'b tx_methods) ords n e y. D M T ords n e = Some y \<Longrightarrow>
        \<not> (no_errors M T \<and> (\<forall>n. valid_ord (ords n)) \<and> finite (dom (e_vertices e)) \<and>
          (\<exists>v \<in> dom (e_vertices e). \<not> isParent e v))"
      and eq: "(let frontier = getFrontier e (ords n (dom (e_vertices e))) in
        if frontier = [] then Some (e, None)
        else case decide_frontier M T (ords n) frontier e of
               (e', None) \<Rightarrow> D M T ords (Suc n) e'
             | (e', Some err) \<Rightarrow> Some (e', Some err)) = Some y"
    show "\<not> (no_errors M T \<and> (\<forall>n. valid_ord (ords n)) \<and> finite (dom (e_vertices e)) \<and>
        (\<exists>v \<in> dom (e_vertices e). \<not> isParent e v))"
    proof
      assume a: "no_errors M T \<and> (\<forall>n. valid_ord (ords n)) \<and> finite (dom (e_vertices e)) \<and>
        (\<exists>v \<in> dom (e_vertices e). \<not> isParent e v)"
      let ?F = "getFrontier e (ords n (dom (e_vertices e)))"
      obtain e' r where f: "decide_frontier M T (ords n) ?F e = (e', r)"
        by (cases "decide_frontier M T (ords n) ?F e")
      from a have "?F \<noteq> []"
        by (auto simp: getFrontier_def valid_ord_def filter_empty_conv)
      with eq f decide_frontier_no_error [of M T "ords n" ?F e] a
      have "D M T ords (Suc n) e' = Some y" by (simp add: Let_def)
      moreover have "same_dag e e'"
        using decide_frontier_dag [of e M T "ords n" ?F] f by simp
      ultimately show False
        using IH [of M T ords "Suc n" e' y] a same_dag_front [of e e'] by (simp add: same_dag_def)
    qed
  qed
  with assms show ?thesis by (cases "DecideTxs M T ords n e") auto
qed

text \<open>
  C24. \<^verbatim>\<open>DecideTxs\<close> never returns on a non-empty acyclic DAG whose objects report no errors: its
  loop recomputes the frontier from maps that deciding does not change, so the frontier never
  becomes empty. A \<^verbatim>\<open>RunConsensus\<close> whose first event is a tick never returns either, and its
  engine keeps the lock.
\<close>

theorem DecideTxs_never_returns:
  assumes "engine_reach M T e" and "e_vertices e \<noteq> Map.empty" and "no_errors M T"
    and "acyclic {(c, p). c \<in> dom (e_vertices e) \<and> p \<in> dom (e_vertices e) \<and> p \<in> engine_parents e c}"
    and "\<And>n. valid_ord (ords n)" and "\<not> e_running e"
  shows "DecideTxs M T ords 0 e = None \<and> engine_RunConsensus M T ords (Tick # evs) e = None"
proof -
  have nr: "no_rejects e" using assms(1) by (rule no_rejects_reach)
  have "{v \<in> dom (e_vertices e). \<not> isParent e v} \<noteq> {}"
    using engf.front_nonempty [OF nr] assms(2,4) by (simp add: engf.edge_def)
  then have front: "\<exists>v \<in> dom (e_vertices e). \<not> isParent e v" by blast
  have fin: "finite (dom (e_vertices e))" using nr by (simp add: no_rejects_def)
  have "DecideTxs M T ords 0 e = None"
    by (rule DecideTxs_diverges [OF assms(3,5) fin front])
  moreover have "DecideTxs M T ords 0 (e\<lparr>e_running := True\<rparr>) = None"
    by (rule DecideTxs_diverges [OF assms(3,5)]) (use fin front in \<open>simp_all add: isParent_def\<close>)
  ultimately show ?thesis using assms(6) by (simp add: engine_RunConsensus_def)
qed

theorem DecideTxs_never_returns_witness:
  "DecideTxs (net False) one_input_txs (\<lambda>_. some_order) 0 rivals = None"
proof -
  have reach: "engine_reach (net False) one_input_txs rivals"
    unfolding engine_reach_def rivals_def by (intro exI [of _ 4] engine_steps.intros)
  have v: "e_vertices rivals \<noteq> Map.empty" "\<not> e_running rivals"
    "{(c, p). c \<in> dom (e_vertices rivals) \<and> p \<in> dom (e_vertices rivals) \<and> p \<in> engine_parents rivals c} = {}"
    by (auto simp: rivals_def engine_run_simps engine_parents_def split: if_splits)
  have "no_errors (net False) one_input_txs" by (simp add: no_errors_def)
  then show ?thesis
    using DecideTxs_never_returns [OF reach v(1), of "\<lambda>_. some_order"] v(2) valid_some_order
    by (simp add: v(3) acyclic_def)
qed

section \<open>Batches\<close>

interpretation batch: loop_task "ProcessVertex M T" "engine_steps M T e0"
  for M :: "('v, 't) vertex_methods" and T e0
  by unfold_locales (rule engine_steps.process)

lemma ProcessVertex_dom: "dom (e_vertices (fst (ProcessVertex M T e v))) = insert (v_ID M v) (dom (e_vertices e))"
  by (auto simp: ProcessVertex_def Let_def log_call_def register_txs_frame split: sum.splits option.splits)

lemma run_seq_dom:
  "dom (e_vertices (fst (run_seq (ProcessVertex M T) e vs))) = v_ID M ` set vs \<union> dom (e_vertices e)"
proof (induction vs arbitrary: e)
  case (Cons v vs)
  obtain f r where f: "ProcessVertex M T e v = (f, r)" by (cases "ProcessVertex M T e v")
  with Cons.IH [of f] ProcessVertex_dom [of M T e v] show ?case
    by (cases "run_seq (ProcessVertex M T) f vs") simp
qed simp

lemma mset_sortVertices: "mset (sortVerticesByPriority M vs) = mset vs"
  by (simp add: sortVerticesByPriority_def mset_bubble_sort)

lemma NewParallelEngine_workers: "0 < e_maxWorkers (NewParallelEngine n)"
  by (simp add: NewParallelEngine_def)

text \<open>
  C26. Every schedule of \<^verbatim>\<open>BatchProcessVertices\<close> ends: its workers are never all blocked and it has no
  infinite run. Every outcome is the one of calling \<^verbatim>\<open>ProcessVertex\<close> on the parallel vertices one after the other, nearly by
  descending priority: the first \<open>k\<close> vertices processed are among the \<open>k + maxWorkers - 1\<close> of highest
  priority, and with one worker they are processed exactly by descending priority. The vertex map gains exactly their IDs, the
  elements that are not parallel vertices are skipped, and the returned error is nil iff no such call failed.
\<close>

theorem BatchProcessVertices_linearisable:
  assumes "0 < e_maxWorkers e"
  shows "every_schedule_ends (nat (e_maxWorkers e)) (ProcessVertex M T) (batch_state M T e vs) \<and>
    (\<exists>e' err. BatchProcessVertices M T e vs e' err) \<and>
    (\<forall>e' err. BatchProcessVertices M T e vs e' err \<longrightarrow>
       engine_steps M T e e' \<and>
       dom (e_vertices e') = v_ID M ` set (parallel_vertices vs) \<union> dom (e_vertices e) \<and>
       (\<exists>ss us rs. mset ss = mset (parallel_vertices vs) \<and> sorted_wrt (\<lambda>a b. v_Priority M b \<le> v_Priority M a) ss \<and>
          nearly_in_order (nat (e_maxWorkers e)) ss us \<and> (e_maxWorkers e = 1 \<longrightarrow> us = ss) \<and>
          run_seq (ProcessVertex M T) e us = (e', rs) \<and>
          (err = None \<longleftrightarrow> set rs \<subseteq> {None}) \<and> (\<forall>x. err = Some x \<longrightarrow> Some x \<in> set rs)))"
proof (intro conjI allI impI)
  let ?s = "sortVerticesByPriority M (parallel_vertices vs)" and ?n = "nat (e_maxWorkers e)"
  have n: "0 < ?n" using assms by simp
  have state: "batch_state M T e vs = loop_reach ?n (ProcessVertex M T) ?s e" by (simp add: batch_state_def fun_eq_iff)
  show "every_schedule_ends ?n (ProcessVertex M T) (batch_state M T e vs)"
    unfolding state by (rule loop_every_schedule_ends [OF n])
  obtain l where "loop_reach ?n (ProcessVertex M T) ?s e l" "loop_done l"
    using loop_can_finish [OF n loop_reach.start, of "ProcessVertex M T" ?s e] by blast
  then show "\<exists>e' err. BatchProcessVertices M T e vs e' err"
    by (auto simp: BatchProcessVertices_def state)
  fix e' err
  assume "BatchProcessVertices M T e vs e' err"
  then obtain l where l: "loop_reach ?n (ProcessVertex M T) ?s e l" "loop_done l"
    and e': "e' = shared l" and err: "err = first_error (sent l)"
    by (auto simp: BatchProcessVertices_def state)
  show "engine_steps M T e e'"
    unfolding e' using l(1) engine_steps.none by (rule batch.reach_inv)
  obtain us rs where us: "nearly_in_order ?n ?s us" "run_seq (ProcessVertex M T) e us = (e', rs)"
    and rs: "mset (sent l) = mset rs"
    using loop_done_in_turn [OF l] e' by blast
  have "mset us = mset (parallel_vertices vs)" using us(1) mset_sortVertices by (simp add: nearly_in_order_def)
  then have "set us = set (parallel_vertices vs)" by (rule mset_eq_setD)
  with run_seq_dom [of M T e us] us(2)
  show "dom (e_vertices e') = v_ID M ` set (parallel_vertices vs) \<union> dom (e_vertices e)" by simp
  have sorted: "sorted_wrt (\<lambda>a b. v_Priority M b \<le> v_Priority M a) ?s"
    unfolding sortVerticesByPriority_def by (rule sorted_bubble_sort)
  have one: "e_maxWorkers e = 1 \<longrightarrow> us = ?s" using us(1) nearly_in_order_1 by auto
  have "set rs = set (sent l)" using rs by (metis set_mset_mset)
  with us one sorted err first_error_None [of "sent l"] first_error_Some [of "sent l"]
  show "\<exists>ss us rs. mset ss = mset (parallel_vertices vs) \<and> sorted_wrt (\<lambda>a b. v_Priority M b \<le> v_Priority M a) ss \<and>
      nearly_in_order ?n ss us \<and> (e_maxWorkers e = 1 \<longrightarrow> us = ss) \<and> run_seq (ProcessVertex M T) e us = (e', rs) \<and>
      (err = None \<longleftrightarrow> set rs \<subseteq> {None}) \<and> (\<forall>x. err = Some x \<longrightarrow> Some x \<in> set rs)"
    by (intro exI [of _ ?s] exI [of _ us] exI [of _ rs]) (auto simp: mset_sortVertices)
qed

text \<open>One worker, two vertices that fail verification and are rejected: by priority, whatever their order in the slice.\<close>

definition ranked_net :: "(net_vertex, ID) vertex_methods" where
  "ranked_net = (net True)\<lparr>v_Priority := (\<lambda>v. if fst v = test_ID 2 then 5 else 1)\<rparr>"

lemma ranked_run:
  "run_seq (ProcessVertex ranked_net one_input_txs) (NewParallelEngine 1) [(test_ID 2, [], False), (test_ID 1, [], False)] = (e', rs) \<Longrightarrow>
    calls e' = [VtxReject (test_ID 2), VtxReject (test_ID 1)]"
  by (auto simp: ranked_net_def net_def ProcessVertex_def NewParallelEngine_def Let_def log_call_def)

lemma ranked_order:
  assumes "mset ss = {#(test_ID 1, [], False), (test_ID 2, [], False)#}" "sorted_wrt (\<lambda>a b. v_Priority ranked_net b \<le> v_Priority ranked_net a) ss"
  shows "ss = [(test_ID 2, [], False), (test_ID 1, [], False)]"
proof -
  have "length ss = 2" using assms(1) by (metis One_nat_def Suc_1 size_add_mset size_empty size_mset)
  then obtain x y where "ss = [x, y]" by (auto simp: numeral_2_eq_2 length_Suc_conv)
  with assms show ?thesis by (auto simp: ranked_net_def add_eq_conv_ex word_le_nat_alt)
qed

theorem BatchProcessVertices_linearisable_witness:
  "\<exists>e' err. BatchProcessVertices ranked_net one_input_txs (NewParallelEngine 1)
     [Inl (), Inr (test_ID 1, [], False), Inr (test_ID 2, [], False)] e' err \<and>
     calls e' = [VtxReject (test_ID 2), VtxReject (test_ID 1)]"
proof -
  let ?vs = "[Inl (), Inr (test_ID 1, [], False), Inr (test_ID 2, [], False)] :: (unit + net_vertex) list"
  have one: "e_maxWorkers (NewParallelEngine 1 :: net_vertex engine) = 1" by (simp add: NewParallelEngine_def)
  note batch = BatchProcessVertices_linearisable [OF NewParallelEngine_workers [of 1], of ranked_net one_input_txs ?vs]
  from conjunct1 [OF conjunct2 [OF batch]] obtain e' err
    where b: "BatchProcessVertices ranked_net one_input_txs (NewParallelEngine 1) ?vs e' err" by (elim exE)
  from conjunct2 [OF conjunct2 [OF batch], rule_format, OF b] one obtain ss rs where ss: "mset ss = mset (parallel_vertices ?vs)"
    "sorted_wrt (\<lambda>a b. v_Priority ranked_net b \<le> v_Priority ranked_net a) ss"
    "run_seq (ProcessVertex ranked_net one_input_txs) (NewParallelEngine 1) ss = (e', rs)" by blast
  have "mset ss = {#(test_ID 1, [], False), (test_ID 2, [], False)#}" using ss(1) by (simp add: parallel_vertices_def)
  from ranked_run [OF ss(3) [unfolded ranked_order [OF this ss(2)]]] b show ?thesis by blast
qed

end
