(* ===== verification/GoSlices.thy ===== *)
theory GoSlices
  imports GoSort "HOL-Library.Char_ord"
begin

text \<open>
  The slice, map and ordering helpers of pkg/utils: sorting_fixed.go (sortedness predicates and
  comparisons) and compatibility/ (the Go 1.18 replacements of packages \<^verbatim>\<open>slices\<close>, \<^verbatim>\<open>maps\<close>
  and \<^verbatim>\<open>cmp\<close>). A value of a \<^verbatim>\<open>comparable\<close> type parameter is a \<open>go_any\<close>: the dynamic type
  decides the comparison, as the type switches of the source do. Floating point values are left
  out. \<open>hash\<close> stands for \<^verbatim>\<open>hashing.ComputeHash256\<close>.
\<close>

section \<open>Model\<close>

subsection \<open>Dynamically typed values\<close>

datatype go_any = AInt int | AUint uint64 | AString string | AOther nat

fun isLessThan :: "go_any \<Rightarrow> go_any \<Rightarrow> bool" where
  "isLessThan (AInt v) (AInt w) = (v < w)"
| "isLessThan (AUint v) (AUint w) = (v < w)"
| "isLessThan (AString v) (AString w) = (v < w)"
| "isLessThan a b = True"

definition isEqual :: "go_any \<Rightarrow> go_any \<Rightarrow> bool" where
  "isEqual a b = (a = b)"

definition isLessThanOrEqual :: "go_any \<Rightarrow> go_any \<Rightarrow> bool" where
  "isLessThanOrEqual a b = (isLessThan a b \<or> isEqual a b)"

fun compareItems :: "go_any \<Rightarrow> go_any \<Rightarrow> int" where
  "compareItems a b =
     (if a = b then 0
      else case (a, b) of
             (AInt v, AInt w) \<Rightarrow> if v < w then -1 else 1
           | (AUint v, AUint w) \<Rightarrow> if v < w then -1 else 1
           | (AString v, AString w) \<Rightarrow> if v < w then -1 else 1
           | _ \<Rightarrow> 1)"

definition cmp_Compare :: "'a::linorder \<Rightarrow> 'a \<Rightarrow> int" where
  "cmp_Compare a b = (if a < b then -1 else if a > b then 1 else 0)"

subsection \<open>Sortedness predicates\<close>

text \<open>Each loop compares neighbours and returns false at the first bad pair.\<close>

fun adjacent_ok :: "('a \<Rightarrow> 'a \<Rightarrow> bool) \<Rightarrow> 'a list \<Rightarrow> bool" where
  "adjacent_ok bad (x # y # ys) = (if bad x y then False else adjacent_ok bad (y # ys))"
| "adjacent_ok bad _ = True"

definition IsSorted :: "('a \<Rightarrow> 'a \<Rightarrow> bool) \<Rightarrow> 'a list \<Rightarrow> bool" where
  "IsSorted lt s = adjacent_ok (\<lambda>x y. lt y x) s"

definition IsSortedBytes :: "bytes list \<Rightarrow> bool" where
  "IsSortedBytes s = adjacent_ok (\<lambda>x y. bytes_Compare x y > 0) s"

definition IsSortedByHash :: "('a \<Rightarrow> bytes) \<Rightarrow> 'a list \<Rightarrow> bool" where
  "IsSortedByHash hash s = adjacent_ok (\<lambda>x y. bytes_Compare (hash x) (hash y) > 0) s"

definition IsSortedAndUnique :: "('a \<Rightarrow> 'a \<Rightarrow> int) \<Rightarrow> 'a list \<Rightarrow> bool" where
  "IsSortedAndUnique compare s = adjacent_ok (\<lambda>x y. compare x y \<ge> 0) s"

definition IsSortedAndUniqueOrdered :: "go_any list \<Rightarrow> bool" where
  "IsSortedAndUniqueOrdered s = adjacent_ok (\<lambda>x y. \<not> isLessThanOrEqual y x) s"

definition IsSortedAndUniqueByHash :: "('a \<Rightarrow> bytes) \<Rightarrow> 'a list \<Rightarrow> bool" where
  "IsSortedAndUniqueByHash hash s =
     adjacent_ok (\<lambda>x y. bytes_Compare (hash x) (hash y) \<noteq> -1) s"

subsection \<open>Comparing slices\<close>

fun CompareSlice :: "bytes list \<Rightarrow> bytes list \<Rightarrow> int" where
  "CompareSlice (x # xs) (y # ys) =
     (let comparison = bytes_Compare x y in
      if comparison \<noteq> 0 then comparison else CompareSlice xs ys)"
| "CompareSlice xs ys = int (length xs) - int (length ys)"

fun slices_Compare :: "go_any list \<Rightarrow> go_any list \<Rightarrow> int" where
  "slices_Compare (x # xs) (y # ys) =
     (if x \<noteq> y then compareItems x y else slices_Compare xs ys)"
| "slices_Compare xs ys =
     (if length xs < length ys then -1 else if length xs > length ys then 1 else 0)"

fun equal_from :: "'a list \<Rightarrow> 'a list \<Rightarrow> bool" where
  "equal_from (x # xs) (y # ys) = (if x \<noteq> y then False else equal_from xs ys)"
| "equal_from _ _ = True"

definition slices_Equal :: "'a list \<Rightarrow> 'a list \<Rightarrow> bool" where
  "slices_Equal s1 s2 = (if length s1 \<noteq> length s2 then False else equal_from s1 s2)"

fun slices_Contains :: "'a list \<Rightarrow> 'a \<Rightarrow> bool" where
  "slices_Contains [] v = False"
| "slices_Contains (x # xs) v = (if v = x then True else slices_Contains xs v)"

text \<open>A nil slice (\<^term>\<open>None\<close>) is preserved.\<close>

definition slices_Clone :: "'a list option \<Rightarrow> 'a list option" where
  "slices_Clone s = (case s of None \<Rightarrow> None | Some xs \<Rightarrow> Some ([] @ xs))"

text \<open>The in-place filter: kept elements are written to the front of the same array.\<close>

definition slices_DeleteFunc :: "('a \<Rightarrow> bool) \<Rightarrow> 'a list \<Rightarrow> 'a list" where
  "slices_DeleteFunc del s =
     (let (s', n) = foldl (\<lambda>(arr, n) i. let v = arr ! i in
                              if \<not> del v then (arr[n := v], Suc n) else (arr, n))
                      (s, 0) [0..<length s]
      in take n s')"

subsection \<open>Maps\<close>

text \<open>\<open>ks\<close> is the order in which the range over the map visits its keys.\<close>

definition maps_Clone :: "('k \<rightharpoonup> 'v) \<Rightarrow> 'k list \<Rightarrow> ('k \<rightharpoonup> 'v)" where
  "maps_Clone m ks = foldl (\<lambda>r k. r(k := m k)) Map.empty ks"

definition maps_DeleteFunc :: "('k \<Rightarrow> 'v \<Rightarrow> bool) \<Rightarrow> ('k \<rightharpoonup> 'v) \<Rightarrow> 'k list \<Rightarrow> ('k \<rightharpoonup> 'v)" where
  "maps_DeleteFunc del m ks =
     foldl (\<lambda>r k. case m k of Some v \<Rightarrow> if del k v then r(k := None) else r | None \<Rightarrow> r) m ks"

fun maps_equal_from :: "('k \<rightharpoonup> 'v) \<Rightarrow> ('k \<rightharpoonup> 'v) \<Rightarrow> 'k list \<Rightarrow> bool" where
  "maps_equal_from m1 m2 [] = True"
| "maps_equal_from m1 m2 (k # ks) =
     (if m2 k = None \<or> m1 k \<noteq> m2 k then False else maps_equal_from m1 m2 ks)"

definition maps_Equal :: "('k \<rightharpoonup> 'v) \<Rightarrow> ('k \<rightharpoonup> 'v) \<Rightarrow> 'k list \<Rightarrow> bool" where
  "maps_Equal m1 m2 ks =
     (if card (dom m1) \<noteq> card (dom m2) then False else maps_equal_from m1 m2 ks)"

definition maps_Keys :: "('k \<rightharpoonup> 'v) \<Rightarrow> 'k list \<Rightarrow> 'k list" where
  "maps_Keys m ks = foldl (\<lambda>r k. r @ [k]) [] ks"

section \<open>Lemmas\<close>

lemma adjacent_ok_not:
  assumes "transp R"
  shows "adjacent_ok (\<lambda>x y. \<not> R x y) s = sorted_wrt R s"
proof (induction s rule: induct_list012)
  case (3 x y ys)
  have "R x z" if "R x y" "R y z" for z
    using assms that by (meson transpD)
  with 3 show ?case by auto
qed auto

lemma adjacent_ok_sorted_wrt:
  assumes "transp R" and "\<And>x y. bad x y = (\<not> R x y)"
  shows "adjacent_ok bad s = sorted_wrt R s"
proof -
  from assms(2) have "bad = (\<lambda>x y. \<not> R x y)" by (intro ext)
  with adjacent_ok_not [OF assms(1)] show ?thesis by simp
qed

lemma adjacent_ok_map: "adjacent_ok (\<lambda>x y. bad (f x) (f y)) s = adjacent_ok bad (map f s)"
  by (induction s rule: induct_list012) auto

lemma DeleteFunc_loop:
  "i \<le> length s \<Longrightarrow>
   \<exists>arr. foldl (\<lambda>(arr, n) i. let v = arr ! i in
              if \<not> del v then (arr[n := v], Suc n) else (arr, n)) (s, 0) [0..<i]
     = (arr, length (filter (\<lambda>x. \<not> del x) (take i s))) \<and> length arr = length s \<and>
     drop i arr = drop i s \<and>
     take (length (filter (\<lambda>x. \<not> del x) (take i s))) arr = filter (\<lambda>x. \<not> del x) (take i s)"
proof (induction i)
  case 0
  then show ?case by simp
next
  case (Suc i)
  let ?n = "length (filter (\<lambda>x. \<not> del x) (take i s))"
  from Suc obtain arr where arr:
    "foldl (\<lambda>(arr, n) i. let v = arr ! i in
        if \<not> del v then (arr[n := v], Suc n) else (arr, n)) (s, 0) [0..<i] = (arr, ?n)"
    "length arr = length s" "drop i arr = drop i s" "take ?n arr = filter (\<lambda>x. \<not> del x) (take i s)"
    by auto
  have n: "?n \<le> i" by (rule order_trans [OF length_filter_le]) simp
  have ai: "arr ! i = s ! i"
    using arr(2,3) Suc.prems by (metis Suc_le_lessD hd_drop_conv_nth)
  have dr: "drop (Suc i) arr = drop (Suc i) s"
    using arr(3) by (metis drop_Suc tl_drop)
  have tk: "take (Suc i) s = take i s @ [s ! i]"
    using Suc.prems by (simp add: take_Suc_conv_app_nth)
  from Suc.prems n have "?n < length arr" by (simp add: arr(2))
  then have "take (Suc ?n) (arr[?n := s ! i]) = take ?n arr @ [s ! i]"
    by (simp add: take_Suc_conv_app_nth)
  with arr ai dr tk n show ?case by (simp add: drop_update_cancel)
qed

lemma DeleteFunc_filter: "slices_DeleteFunc del s = filter (\<lambda>x. \<not> del x) s"
  using DeleteFunc_loop [of "length s" s del] by (auto simp: slices_DeleteFunc_def)

lemma maps_Clone_fold: "foldl (\<lambda>r k. r(k := m k)) r ks k = (if k \<in> set ks then m k else r k)"
  by (induction ks arbitrary: r) auto

lemma maps_Clone_eq: "range_order m ks \<Longrightarrow> maps_Clone m ks = m"
  by (rule ext) (auto simp: maps_Clone_def maps_Clone_fold range_order_def domIff)

lemma maps_DeleteFunc_fold:
  "foldl (\<lambda>r k. case m k of Some v \<Rightarrow> if del k v then r(k := None) else r | None \<Rightarrow> r) r ks k =
     (if k \<in> set ks \<and> (\<exists>v. m k = Some v \<and> del k v) then None else r k)"
  by (induction ks arbitrary: r) (auto split: option.splits)

lemma maps_DeleteFunc_eq:
  "range_order m ks \<Longrightarrow>
   maps_DeleteFunc del m ks k = (case m k of Some v \<Rightarrow> if del k v then None else Some v | None \<Rightarrow> None)"
  by (auto simp: maps_DeleteFunc_def maps_DeleteFunc_fold range_order_def split: option.splits)

lemma maps_equal_from_iff:
  "maps_equal_from m1 m2 ks \<longleftrightarrow> (\<forall>k \<in> set ks. m2 k \<noteq> None \<and> m1 k = m2 k)"
  by (induction ks) auto

lemma maps_Equal_iff:
  assumes "range_order m1 ks" and "finite (dom m2)"
  shows "maps_Equal m1 m2 ks \<longleftrightarrow> m1 = m2"
proof
  assume "maps_Equal m1 m2 ks"
  then have card: "card (dom m1) = card (dom m2)" and eq: "\<And>k. k \<in> dom m1 \<Longrightarrow> m2 k = m1 k"
    using assms by (auto simp: maps_Equal_def maps_equal_from_iff range_order_def split: if_splits)
  then have "dom m1 \<subseteq> dom m2" by force
  with card assms(2) have "dom m1 = dom m2" by (simp add: card_subset_eq)
  with eq show "m1 = m2" by (metis domIff ext)
next
  assume "m1 = m2"
  with assms(1) show "maps_Equal m1 m2 ks"
    by (auto simp: maps_Equal_def maps_equal_from_iff range_order_def)
qed

lemma maps_Keys_eq: "maps_Keys m ks = ks"
proof -
  have "foldl (\<lambda>r k. r @ [k]) r ks = r @ ks" for r
    by (induction ks arbitrary: r) auto
  then show ?thesis by (simp add: maps_Keys_def)
qed

lemma slices_Equal_iff: "slices_Equal s1 s2 \<longleftrightarrow> s1 = s2"
proof -
  have "length xs = length ys \<Longrightarrow> equal_from xs ys \<longleftrightarrow> xs = ys" for xs ys :: "'a list"
    by (induction xs ys rule: equal_from.induct) auto
  then show ?thesis by (auto simp: slices_Equal_def)
qed

lemma Nil_less: "[] < ys \<longleftrightarrow> ys \<noteq> ([] :: 'a::linorder list)"
  by (cases ys) auto

lemma CompareSlice_neg: "CompareSlice a b < 0 \<longleftrightarrow> a < b"
  by (induction a b rule: CompareSlice.induct)
    (auto simp: Let_def bytes_Compare_zero bytes_Compare_neg Nil_less)

lemma CompareSlice_zero: "CompareSlice a b = 0 \<longleftrightarrow> a = b"
  by (induction a b rule: CompareSlice.induct) (auto simp: Let_def bytes_Compare_zero)

section \<open>Properties\<close>

text \<open>
  The sortedness predicates decide what their names say, for every input: sorted, sorted by
  hash, strictly sorted (sorted and unique), strictly sorted by hash; and the in-place
  \<^verbatim>\<open>DeleteFunc\<close> is a filter, \<^verbatim>\<open>CompareSlice\<close> is the lexicographic order.
\<close>

theorem sortedness_predicates:
  fixes s :: "bytes list" and t :: "'a::linorder list" and hash :: "'b \<Rightarrow> bytes"
  shows "(IsSortedBytes s \<longleftrightarrow> sorted s) \<and> (IsSorted (<) t \<longleftrightarrow> sorted t) \<and>
     (IsSortedByHash hash u \<longleftrightarrow> sorted (map hash u)) \<and>
     (IsSortedAndUnique bytes_Compare s \<longleftrightarrow> sorted_wrt (<) s) \<and>
     (IsSortedAndUniqueByHash hash u \<longleftrightarrow> sorted_wrt (<) (map hash u)) \<and>
     slices_DeleteFunc del u = filter (\<lambda>x. \<not> del x) u \<and>
     (CompareSlice s s' < 0 \<longleftrightarrow> s < s') \<and> (CompareSlice s s' = 0 \<longleftrightarrow> s = s')"
proof (intro conjI)
  show "IsSortedBytes s \<longleftrightarrow> sorted s"
    unfolding IsSortedBytes_def by (rule adjacent_ok_sorted_wrt) (auto simp: bytes_Compare_iffs)
  show "IsSorted (<) t \<longleftrightarrow> sorted t"
    unfolding IsSorted_def by (rule adjacent_ok_sorted_wrt) auto
  show "IsSortedByHash hash u \<longleftrightarrow> sorted (map hash u)"
  proof -
    have "IsSortedByHash hash u = adjacent_ok (\<lambda>x y. bytes_Compare x y > 0) (map hash u)"
      unfolding IsSortedByHash_def by (rule adjacent_ok_map)
    also have "\<dots> = sorted (map hash u)"
      by (rule adjacent_ok_sorted_wrt) (auto simp: bytes_Compare_iffs)
    finally show ?thesis .
  qed
  show "IsSortedAndUnique bytes_Compare s \<longleftrightarrow> sorted_wrt (<) s"
    unfolding IsSortedAndUnique_def by (rule adjacent_ok_sorted_wrt) (auto simp: bytes_Compare_iffs)
  show "IsSortedAndUniqueByHash hash u \<longleftrightarrow> sorted_wrt (<) (map hash u)"
  proof -
    have "IsSortedAndUniqueByHash hash u = adjacent_ok (\<lambda>x y. bytes_Compare x y \<noteq> -1) (map hash u)"
      unfolding IsSortedAndUniqueByHash_def by (rule adjacent_ok_map)
    also have "\<dots> = sorted_wrt (<) (map hash u)"
      by (rule adjacent_ok_sorted_wrt) (auto simp: bytes_Compare_minus_one)
    finally show ?thesis .
  qed
  show "slices_DeleteFunc del u = filter (\<lambda>x. \<not> del x) u" by (rule DeleteFunc_filter)
  show "CompareSlice s s' < 0 \<longleftrightarrow> s < s'" by (rule CompareSlice_neg)
  show "CompareSlice s s' = 0 \<longleftrightarrow> s = s'" by (rule CompareSlice_zero)
qed

text \<open>
  \<^verbatim>\<open>IsSortedAndUniqueOrdered\<close> tests the opposite order: it returns true exactly on the
  lists sorted in descending order (with duplicates allowed), so it rejects every strictly
  ascending list of two or more elements, the only ones its comment says it accepts.
\<close>

theorem IsSortedAndUniqueOrdered_descending:
  "(IsSortedAndUniqueOrdered (map AInt xs) \<longleftrightarrow> sorted_wrt (\<ge>) xs) \<and>
   (sorted_wrt (<) xs \<and> length xs \<ge> 2 \<longrightarrow> \<not> IsSortedAndUniqueOrdered (map AInt xs))"
proof -
  have "IsSortedAndUniqueOrdered (map AInt xs) = adjacent_ok (\<lambda>x y. \<not> y \<le> x) xs"
  proof -
    have "adjacent_ok (\<lambda>x y. \<not> y \<le> x) xs =
        adjacent_ok (\<lambda>x y. \<not> isLessThanOrEqual (AInt y) (AInt x)) xs"
      by (simp add: isLessThanOrEqual_def isEqual_def le_less)
    also have "\<dots> = adjacent_ok (\<lambda>x y. \<not> isLessThanOrEqual y x) (map AInt xs)"
      by (rule adjacent_ok_map)
    finally show ?thesis by (simp add: IsSortedAndUniqueOrdered_def)
  qed
  also have "\<dots> = sorted_wrt (\<ge>) xs"
    by (rule adjacent_ok_sorted_wrt) auto
  finally have main: "IsSortedAndUniqueOrdered (map AInt xs) \<longleftrightarrow> sorted_wrt (\<ge>) xs" .
  have "\<not> sorted_wrt (\<ge>) xs" if "sorted_wrt (<) xs" "length xs \<ge> 2"
  proof -
    from that(2) obtain x y ys where "xs = x # y # ys"
      by (metis Suc_le_length_iff numeral_2_eq_2)
    with that(1) show ?thesis by auto
  qed
  with main show ?thesis by blast
qed

theorem IsSortedAndUniqueOrdered_descending_witness:
  "\<not> IsSortedAndUniqueOrdered [AInt 1, AInt 2] \<and> IsSortedAndUniqueOrdered [AInt 2, AInt 2, AInt 1]"
  using IsSortedAndUniqueOrdered_descending [of "[1, 2]"]
    IsSortedAndUniqueOrdered_descending [of "[2, 2, 1]"]
  by simp

end
