(* ===== verification/GoSets.thy ===== *)
theory GoSets
  imports GoSort
begin

text \<open>
  pkg/utils/set: the map-backed \<^verbatim>\<open>set\<close> and \<^verbatim>\<open>SetJSON\<close> (set_fixed.go) and the
  \<^verbatim>\<open>SampleableSet\<close> (sampleable_set_fixed.go), an element slice with an index map kept in step
  by swap-removal. The contract of the \<^verbatim>\<open>Set\<close> interface is the locale \<open>go_set\<close>, in which
  the generic functions written against the interface are proved once; both implementations
  interpret it. A nil map or slice is \<^term>\<open>None\<close>; writing to a nil map panics.
\<close>

section \<open>The Set interface\<close>

text \<open>
  Functions of set_fixed.go that use only the interface. \<open>xs\<close> is what \<^verbatim>\<open>s1.List()\<close> returns.
\<close>

definition set_Equals ::
  "('s \<Rightarrow> nat) \<Rightarrow> ('s \<Rightarrow> 'a \<Rightarrow> bool) \<Rightarrow> 's \<Rightarrow> 's \<Rightarrow> 'a list \<Rightarrow> bool" where
  "set_Equals len contains s1 s2 xs \<longleftrightarrow> len s1 = len s2 \<and> list_all (contains s2) xs"

definition set_Difference :: "('s \<Rightarrow> 'a \<Rightarrow> bool) \<Rightarrow> 's \<Rightarrow> 'a list \<Rightarrow> 'a set option" where
  "set_Difference contains s2 xs = Some (set (filter (\<lambda>x. \<not> contains s2 x) xs))"

definition set_Intersection :: "('s \<Rightarrow> 'a \<Rightarrow> bool) \<Rightarrow> 's \<Rightarrow> 'a list \<Rightarrow> 'a set option" where
  "set_Intersection contains s2 xs = Some (set (filter (contains s2) xs))"

text \<open>
  The laws of the interface: an abstraction to sets, what each operation does to it, and what
  \<^verbatim>\<open>List\<close> may return (the order is not specified).
\<close>

locale go_set =
  fixes elems :: "'s \<Rightarrow> 'a set"
    and inv :: "'s \<Rightarrow> bool"
    and add :: "'a \<Rightarrow> 's \<Rightarrow> 's go"
    and remove :: "'a \<Rightarrow> 's \<Rightarrow> 's"
    and contains :: "'s \<Rightarrow> 'a \<Rightarrow> bool"
    and len :: "'s \<Rightarrow> nat"
    and lists :: "'s \<Rightarrow> 'a list \<Rightarrow> bool"
  assumes finite_elems: "inv s \<Longrightarrow> finite (elems s)"
    and add_ok: "inv s \<Longrightarrow> \<exists>s'. add x s = Ret s' \<and> inv s' \<and> elems s' = insert x (elems s)"
    and remove_inv: "inv s \<Longrightarrow> inv (remove x s)"
    and elems_remove: "inv s \<Longrightarrow> elems (remove x s) = elems s - {x}"
    and contains_iff: "inv s \<Longrightarrow> contains s x \<longleftrightarrow> x \<in> elems s"
    and len_eq: "inv s \<Longrightarrow> len s = card (elems s)"
    and lists_elems: "inv s \<Longrightarrow> lists s xs \<Longrightarrow> distinct xs \<and> set xs = elems s"
begin

lemma Equals_iff:
  assumes "inv s" and "inv t" and "lists s xs"
  shows "set_Equals len contains s t xs \<longleftrightarrow> elems s = elems t"
proof -
  have "set_Equals len contains s t xs \<longleftrightarrow> card (elems s) = card (elems t) \<and> elems s \<subseteq> elems t"
    using lists_elems [OF assms(1,3)] by (auto simp: set_Equals_def len_eq contains_iff assms list_all_iff)
  also have "\<dots> \<longleftrightarrow> elems s = elems t"
    using card_subset_eq [OF finite_elems [OF assms(2)]] by auto
  finally show ?thesis .
qed

lemma Difference_eq: "inv s \<Longrightarrow> inv t \<Longrightarrow> lists s xs \<Longrightarrow> set_Difference contains t xs = Some (elems s - elems t)"
  using lists_elems [of s xs] by (auto simp: set_Difference_def contains_iff)

lemma Intersection_eq: "inv s \<Longrightarrow> inv t \<Longrightarrow> lists s xs \<Longrightarrow> set_Intersection contains t xs = Some (elems s \<inter> elems t)"
  using lists_elems [of s xs] by (auto simp: set_Intersection_def contains_iff)

lemma remove_all:
  "inv s \<Longrightarrow> inv (foldl (\<lambda>s x. remove x s) s xs) \<and> elems (foldl (\<lambda>s x. remove x s) s xs) = elems s - set xs"
  by (induction xs arbitrary: s) (auto simp: remove_inv elems_remove)

lemma contains_add: "inv s \<Longrightarrow> add x s = Ret s' \<Longrightarrow> contains s' y \<longleftrightarrow> y = x \<or> contains s y"
  using add_ok [of s x] by (auto simp: contains_iff)

lemma len_add: "inv s \<Longrightarrow> add x s = Ret s' \<Longrightarrow> len s' = (if contains s x then len s else Suc (len s))"
  using add_ok [of s x] finite_elems [of s] by (auto simp: contains_iff len_eq insert_absorb)

end

section \<open>The map-backed set\<close>

type_synonym 'a mapset = "'a set option"

definition mset_Empty :: "'a mapset" where
  "mset_Empty = None"

definition mset_Of :: "'a list \<Rightarrow> 'a mapset" where
  "mset_Of xs = Some (set xs)"

definition mset_Contains :: "'a mapset \<Rightarrow> 'a \<Rightarrow> bool" where
  "mset_Contains s x = (case s of None \<Rightarrow> False | Some m \<Rightarrow> x \<in> m)"

definition mset_Add :: "'a \<Rightarrow> 'a mapset \<Rightarrow> 'a mapset \<times> bool" where
  "mset_Add x s =
     (let m = (case s of None \<Rightarrow> {} | Some m \<Rightarrow> m) in
      if x \<in> m then (Some m, False) else (Some (insert x m), True))"

definition mset_Get :: "'a mapset \<Rightarrow> 'a \<Rightarrow> 'a \<times> bool" where
  "mset_Get s x = (case s of None \<Rightarrow> (x, False) | Some m \<Rightarrow> (x, x \<in> m))"

definition mset_Remove :: "'a \<Rightarrow> 'a mapset \<Rightarrow> 'a mapset \<times> bool" where
  "mset_Remove x s =
     (case s of None \<Rightarrow> (s, False)
      | Some m \<Rightarrow> if x \<notin> m then (s, False) else (Some (m - {x}), True))"

definition mset_Len :: "'a mapset \<Rightarrow> nat" where
  "mset_Len s = (case s of None \<Rightarrow> 0 | Some m \<Rightarrow> card m)"

definition mset_elems :: "'a mapset \<Rightarrow> 'a set" where
  "mset_elems s = (case s of None \<Rightarrow> {} | Some m \<Rightarrow> m)"

text \<open>A possible result of \<^verbatim>\<open>List\<close>: one entry per element, in the order of the range.\<close>

definition mset_List :: "'a mapset \<Rightarrow> 'a list \<Rightarrow> bool" where
  "mset_List s xs \<longleftrightarrow> distinct xs \<and> set xs = mset_elems s"

definition mset_Clear :: "'a mapset \<Rightarrow> 'a mapset" where
  "mset_Clear s = Some {}"

definition mset_Union :: "'a mapset \<Rightarrow> 'a list \<Rightarrow> 'a mapset" where
  "mset_Union s xs = Some (set xs \<union> mset_elems s)"

lemmas mset_defs = mset_Empty_def mset_Of_def mset_Contains_def mset_Add_def mset_Get_def
  mset_Remove_def mset_Len_def mset_elems_def mset_List_def mset_Clear_def mset_Union_def

interpretation ms: go_set mset_elems "\<lambda>s. finite (mset_elems s)"
  "\<lambda>x s. Ret (fst (mset_Add x s))" "\<lambda>x s. fst (mset_Remove x s)" mset_Contains mset_Len mset_List
  by unfold_locales (auto simp: mset_defs Let_def split: option.splits if_splits)

section \<open>SampleableSet\<close>

record 'a sampleable =
  indices :: "('a \<rightharpoonup> nat) option"
  elements :: "'a list option"

definition ss_map :: "'a sampleable \<Rightarrow> 'a \<rightharpoonup> nat" where
  "ss_map s = (case indices s of None \<Rightarrow> Map.empty | Some m \<Rightarrow> m)"

definition ss_list :: "'a sampleable \<Rightarrow> 'a list" where
  "ss_list s = (case elements s of None \<Rightarrow> [] | Some es \<Rightarrow> es)"

definition NewSampleableSet :: "int \<Rightarrow> 'a sampleable" where
  "NewSampleableSet n =
     (if n < 0 then \<lparr>indices = None, elements = None\<rparr>
      else \<lparr>indices = Some Map.empty, elements = Some []\<rparr>)"

definition resize :: "'a sampleable \<Rightarrow> 'a sampleable" where
  "resize s = (if elements s = None then s\<lparr>indices := Some Map.empty\<rparr> else s)"

definition ss_add :: "'a \<Rightarrow> 'a sampleable \<Rightarrow> 'a sampleable go" where
  "ss_add e s =
     (if ss_map s e \<noteq> None then Ret s
      else case indices s of
             None \<Rightarrow> Panic ''assignment to entry in nil map''
           | Some m \<Rightarrow> Ret \<lparr>indices = Some (m(e \<mapsto> length (ss_list s))), elements = Some (ss_list s @ [e])\<rparr>)"

fun ss_add_all :: "'a list \<Rightarrow> 'a sampleable \<Rightarrow> 'a sampleable go" where
  "ss_add_all [] s = Ret s"
| "ss_add_all (e # es) s =
     (case ss_add e s of Ret s' \<Rightarrow> ss_add_all es s' | Panic m \<Rightarrow> Panic m | Block \<Rightarrow> Block)"

definition ss_Add :: "'a list \<Rightarrow> 'a sampleable \<Rightarrow> 'a sampleable go" where
  "ss_Add es s = ss_add_all es (resize s)"

definition OfSampleable :: "'a list \<Rightarrow> 'a sampleable go" where
  "OfSampleable elts = ss_Add elts (NewSampleableSet (int (length elts)))"

definition ss_Union :: "'a sampleable \<Rightarrow> 'a sampleable \<Rightarrow> 'a sampleable go" where
  "ss_Union s t = ss_add_all (ss_list t) (resize s)"

text \<open>
  \<open>remove\<close> moves the last element into the hole. The write of the zero value beyond the new end
  of the slice is not visible in the slice.
\<close>

definition ss_remove :: "'a \<Rightarrow> 'a sampleable \<Rightarrow> 'a sampleable" where
  "ss_remove e s =
     (case ss_map s e of
        None \<Rightarrow> s
      | Some indexToRemove \<Rightarrow>
          (let lastIndex = length (ss_list s) - 1;
               lastElement = ss_list s ! lastIndex;
               m = (if indexToRemove \<noteq> lastIndex then (ss_map s)(lastElement \<mapsto> indexToRemove) else ss_map s);
               es = (if indexToRemove \<noteq> lastIndex then (ss_list s)[indexToRemove := lastElement] else ss_list s)
           in \<lparr>indices = Some (m(e := None)), elements = Some (take lastIndex es)\<rparr>))"

definition ss_Remove :: "'a list \<Rightarrow> 'a sampleable \<Rightarrow> 'a sampleable" where
  "ss_Remove es s = foldl (\<lambda>s e. ss_remove e s) s es"

definition ss_Difference :: "'a sampleable \<Rightarrow> 'a sampleable \<Rightarrow> 'a sampleable" where
  "ss_Difference s t = ss_Remove (ss_list t) s"

definition ss_Contains :: "'a sampleable \<Rightarrow> 'a \<Rightarrow> bool" where
  "ss_Contains s e \<longleftrightarrow> ss_map s e \<noteq> None"

definition ss_Len :: "'a sampleable \<Rightarrow> nat" where
  "ss_Len s = length (ss_list s)"

definition ss_Overlaps :: "'a sampleable \<Rightarrow> 'a sampleable \<Rightarrow> bool" where
  "ss_Overlaps s big =
     (let (small, big) = (if ss_Len s > ss_Len big then (big, s) else (s, big)) in
      list_ex (ss_Contains big) (ss_list small))"

definition ss_Clear :: "'a sampleable \<Rightarrow> 'a sampleable" where
  "ss_Clear s = \<lparr>indices = Some Map.empty, elements = Some []\<rparr>"

definition ss_List :: "'a sampleable \<Rightarrow> 'a list" where
  "ss_List s = ss_list s"

text \<open>The range over the index map stops at the first missing key; the order does not matter.\<close>

definition ss_Equals :: "'a sampleable \<Rightarrow> 'a sampleable \<Rightarrow> bool" where
  "ss_Equals s t \<longleftrightarrow> card (dom (ss_map s)) = card (dom (ss_map t)) \<and>
     (\<forall>k \<in> dom (ss_map s). ss_Contains t k)"

subsection \<open>Invariant and refinement\<close>

definition ss_inv :: "'a sampleable \<Rightarrow> bool" where
  "ss_inv s \<longleftrightarrow> (elements s \<noteq> None \<longrightarrow> indices s \<noteq> None) \<and>
     (\<forall>e i. ss_map s e = Some i \<longleftrightarrow> i < length (ss_list s) \<and> ss_list s ! i = e)"

definition ss_elems :: "'a sampleable \<Rightarrow> 'a set" where
  "ss_elems s = set (ss_list s)"

lemma ss_simps [simp]:
  "ss_map \<lparr>indices = Some m, elements = es\<rparr> = m"
  "ss_list \<lparr>indices = m', elements = Some xs\<rparr> = xs"
  "ss_map \<lparr>indices = None, elements = es\<rparr> = Map.empty"
  "ss_list \<lparr>indices = m', elements = None\<rparr> = []"
  by (simp_all add: ss_map_def ss_list_def)

lemma ss_inv_at: "ss_inv s \<Longrightarrow> i < length (ss_list s) \<Longrightarrow> ss_map s (ss_list s ! i) = Some i"
  by (simp add: ss_inv_def)

lemma ss_inv_lookup: "ss_inv s \<Longrightarrow> ss_map s e = Some i \<Longrightarrow> i < length (ss_list s) \<and> ss_list s ! i = e"
  by (simp add: ss_inv_def)

lemma ss_inv_distinct: "ss_inv s \<Longrightarrow> distinct (ss_list s)"
  using ss_inv_at [of s] by (metis distinct_conv_nth option.inject)

lemma ss_dom: "ss_inv s \<Longrightarrow> dom (ss_map s) = ss_elems s"
  using ss_inv_at [of s] ss_inv_lookup [of s]
  by (auto simp: ss_elems_def in_set_conv_nth) blast+

lemma ss_Contains_iff: "ss_inv s \<Longrightarrow> ss_Contains s e \<longleftrightarrow> e \<in> ss_elems s"
  using ss_dom [of s] by (auto simp: ss_Contains_def)

lemma ss_inv_New: "ss_inv (NewSampleableSet n)"
  by (simp add: ss_inv_def NewSampleableSet_def)

lemma ss_elems_New [simp]: "ss_elems (NewSampleableSet n) = {}"
  by (simp add: ss_elems_def NewSampleableSet_def)

lemma ss_inv_resize: "ss_inv s \<Longrightarrow> ss_inv (resize s) \<and> ss_list (resize s) = ss_list s \<and> indices (resize s) \<noteq> None"
  by (auto simp: ss_inv_def resize_def ss_map_def ss_list_def split: option.splits)

lemma ss_add_ok:
  assumes "ss_inv s" and "indices s \<noteq> None"
  shows "\<exists>s'. ss_add e s = Ret s' \<and> ss_inv s' \<and> ss_elems s' = insert e (ss_elems s) \<and> indices s' \<noteq> None"
proof (cases "ss_map s e")
  case None
  from assms(2) obtain m where m: "indices s = Some m" by blast
  then have sm: "ss_map s = m" by (simp add: ss_map_def)
  have look: "m x = Some i \<longleftrightarrow> i < length (ss_list s) \<and> ss_list s ! i = x" for x i
    using assms(1) by (simp add: ss_inv_def sm)
  have nin: "ss_list s ! i \<noteq> e" if "i < length (ss_list s)" for i
    using ss_inv_at [OF assms(1) that] None by auto
  let ?t = "\<lparr>indices = Some (m(e \<mapsto> length (ss_list s))), elements = Some (ss_list s @ [e])\<rparr>"
  have "(m(e \<mapsto> length (ss_list s))) x = Some i \<longleftrightarrow> i < Suc (length (ss_list s)) \<and> (ss_list s @ [e]) ! i = x" for x i
    using look nin [of i] by (cases "i = length (ss_list s)"; cases "x = e") (auto simp: nth_append less_Suc_eq)
  then have "ss_inv ?t" by (simp add: ss_inv_def)
  moreover have "ss_add e s = Ret ?t" by (simp add: ss_add_def None m)
  ultimately show ?thesis by (auto simp: ss_elems_def)
next
  case (Some i)
  with ss_inv_lookup [OF assms(1) Some] assms show ?thesis
    by (auto simp: ss_add_def ss_elems_def)
qed

lemma ss_add_all_ok:
  "ss_inv s \<Longrightarrow> indices s \<noteq> None \<Longrightarrow>
   \<exists>s'. ss_add_all es s = Ret s' \<and> ss_inv s' \<and> ss_elems s' = set es \<union> ss_elems s"
proof (induction es arbitrary: s)
  case (Cons e es)
  from ss_add_ok [OF Cons.prems] obtain t where t: "ss_add e s = Ret t" "ss_inv t"
    "ss_elems t = insert e (ss_elems s)" "indices t \<noteq> None" by blast
  with Cons.IH [of t] show ?case by auto
qed simp

lemma ss_Add_ok:
  assumes "ss_inv s"
  shows "\<exists>s'. ss_Add es s = Ret s' \<and> ss_inv s' \<and> ss_elems s' = set es \<union> ss_elems s"
  using ss_add_all_ok [of "resize s" es] ss_inv_resize [OF assms]
  by (auto simp: ss_Add_def ss_elems_def)

lemma nth_take_upd:
  "j < length xs - 1 \<Longrightarrow> take (length xs - 1) (xs[i := v]) ! j = (if j = i then v else xs ! j)"
  by (simp add: nth_list_update)

lemma ss_remove_absent: "ss_map s e = None \<Longrightarrow> ss_remove e s = s"
  by (simp add: ss_remove_def)

lemma ss_remove_present:
  assumes inv: "ss_inv s" and i: "ss_map s e = Some i"
  shows "ss_inv (ss_remove e s) \<and> ss_elems (ss_remove e s) = ss_elems s - {e}"
proof -
  let ?xs = "ss_list s" and ?m = "ss_map s"
  let ?n = "length ?xs - 1"
  let ?l = "?xs ! ?n"
  have at: "i < length ?xs" "?xs ! i = e" using ss_inv_lookup [OF inv i] by auto
  then have n: "?n < length ?xs" "i \<le> ?n" by auto
  have look: "?m x = Some j \<longleftrightarrow> j < length ?xs \<and> ?xs ! j = x" for x j using inv by (simp add: ss_inv_def)
  have uniq: "j = k" if "j < length ?xs" "k < length ?xs" "?xs ! j = ?xs ! k" for j k
    using that ss_inv_distinct [OF inv] by (simp add: nth_eq_iff_index_eq)
  define m' where "m' = (if i \<noteq> ?n then ?m(?l \<mapsto> i) else ?m)(e := None)"
  define es' where "es' = take ?n (if i \<noteq> ?n then ?xs[i := ?l] else ?xs)"
  have eq: "ss_remove e s = \<lparr>indices = Some m', elements = Some es'\<rparr>"
    by (simp add: ss_remove_def i Let_def m'_def es'_def)
  have len: "length es' = ?n" by (simp add: es'_def)
  have nth: "es' ! j = (if j = i then ?l else ?xs ! j)" if "j < ?n" for j
    using that by (auto simp: es'_def nth_list_update)
  have m'_iff: "m' x = Some j \<longleftrightarrow> j < ?n \<and> es' ! j = x" for x j
  proof (cases "x = e")
    case True
    have "es' ! j \<noteq> e" if "j < ?n"
      using that nth [OF that] uniq [of j i] uniq [of ?n i] at n by (auto split: if_splits)
    with True show ?thesis by (auto simp: m'_def)
  next
    case False
    show ?thesis
    proof (cases "i \<noteq> ?n \<and> x = ?l")
      case True
      then have "m' x = Some i" using False by (simp add: m'_def)
      moreover have "es' ! j = x \<longleftrightarrow> j = i" if "j < ?n"
        using that nth [OF that] True uniq [of j ?n] n(1) by auto
      ultimately show ?thesis using True n(2) nth [of i] by auto
    next
      case F2: False
      then have "m' x = ?m x" using False by (auto simp: m'_def)
      moreover have "j < length ?xs \<and> ?xs ! j = x \<longleftrightarrow> j < ?n \<and> es' ! j = x"
        using F2 False nth [of j] at n by (cases "j = ?n"; cases "j = i") auto
      ultimately show ?thesis by (simp add: look)
    qed
  qed
  have inv': "ss_inv (ss_remove e s)" unfolding eq using m'_iff len by (simp add: ss_inv_def)
  have "dom m' = dom ?m - {e}"
    using look [of ?l ?n] n(1) by (auto simp: m'_def)
  then have "ss_elems (ss_remove e s) = ss_elems s - {e}"
    using ss_dom [OF inv'] ss_dom [OF inv] unfolding eq by simp
  with inv' show ?thesis ..
qed

lemma ss_remove_ok:
  assumes "ss_inv s"
  shows "ss_inv (ss_remove e s) \<and> ss_elems (ss_remove e s) = ss_elems s - {e}"
proof (cases "ss_map s e")
  case None
  with ss_dom [OF assms] assms show ?thesis by (auto simp: ss_remove_absent)
qed (rule ss_remove_present [OF assms])

interpretation ss: go_set ss_elems ss_inv "\<lambda>x. ss_Add [x]" ss_remove ss_Contains ss_Len
  "\<lambda>s xs. xs = ss_List s"
proof
  show "ss_Len s = card (ss_elems s)" if "ss_inv s" for s :: "'a sampleable"
    using ss_inv_distinct [OF that] by (simp add: ss_Len_def ss_elems_def distinct_card)
  show "\<exists>s'. ss_Add [x] s = Ret s' \<and> ss_inv s' \<and> ss_elems s' = insert x (ss_elems s)"
    if "ss_inv s" for s :: "'a sampleable" and x
    using ss_Add_ok [OF that, of "[x]"] by simp
  show "distinct xs \<and> set xs = ss_elems s" if "ss_inv s" "xs = ss_List s" for s :: "'a sampleable" and xs
    using that ss_inv_distinct by (simp add: ss_List_def ss_elems_def)
qed (simp_all add: ss_elems_def ss_remove_ok [unfolded ss_elems_def] ss_Contains_iff [unfolded ss_elems_def])

section \<open>JSON\<close>

text \<open>
  \<^verbatim>\<open>MarshalJSON\<close> of both kinds of set: the encodings of the elements, exchange-sorted, between
  brackets and separated by commas. \<open>marshal\<close> stands for \<^verbatim>\<open>json.Marshal\<close> at the element type,
  \<open>unmarshal\<close> for \<^verbatim>\<open>json.Unmarshal\<close> into a slice of elements; the writes to a
  \<^verbatim>\<open>bytes.Buffer\<close> do not fail.
\<close>

fun marshal_all :: "('a \<Rightarrow> bytes res) \<Rightarrow> 'a list \<Rightarrow> bytes list res" where
  "marshal_all marshal [] = Inr []"
| "marshal_all marshal (x # xs) =
     (case marshal x of
        Inl err \<Rightarrow> Inl err
      | Inr b \<Rightarrow> (case marshal_all marshal xs of Inl err \<Rightarrow> Inl err | Inr bs \<Rightarrow> Inr (b # bs)))"

fun join_commas :: "bytes list \<Rightarrow> bytes" where
  "join_commas [] = []"
| "join_commas [b] = b"
| "join_commas (b # bs) = b @ 0x2C # join_commas bs"

definition json_array :: "bytes list \<Rightarrow> bytes" where
  "json_array bs = 0x5B # join_commas bs @ [0x5D]"

definition set_MarshalJSON :: "('a \<Rightarrow> bytes res) \<Rightarrow> 'a list \<Rightarrow> bytes res" where
  "set_MarshalJSON marshal xs = map_sum id (\<lambda>bs. json_array (exchange_sort bs)) (marshal_all marshal xs)"

text \<open>\<^verbatim>\<open>avajson.Null\<close>.\<close>

definition json_Null :: bytes where
  "json_Null = [0x6E, 0x75, 0x6C, 0x6C]"

definition set_UnmarshalJSON :: "(bytes \<Rightarrow> 'a list res) \<Rightarrow> 'a mapset \<Rightarrow> bytes \<Rightarrow> 'a mapset \<times> go_error option" where
  "set_UnmarshalJSON unmarshal s b =
     (if b = json_Null then (s, None)
      else case unmarshal b of
             Inl err \<Rightarrow> (s, Some err)
           | Inr xs \<Rightarrow> (mset_Union (mset_Clear s) xs, None))"

definition ss_UnmarshalJSON ::
  "(bytes \<Rightarrow> 'a list res) \<Rightarrow> 'a sampleable \<Rightarrow> bytes \<Rightarrow> ('a sampleable \<times> go_error option) go" where
  "ss_UnmarshalJSON unmarshal s b =
     (if b = json_Null then Ret (s, None)
      else case unmarshal b of
             Inl err \<Rightarrow> Ret (s, Some err)
           | Inr xs \<Rightarrow> (case ss_Add xs (ss_Clear s) of
                          Ret s' \<Rightarrow> Ret (s', None) | Panic m \<Rightarrow> Panic m | Block \<Rightarrow> Block))"

subsection \<open>SetJSON\<close>

definition json_ContainsAny :: "'a set \<Rightarrow> 'a set \<Rightarrow> bool" where
  "json_ContainsAny s t =
     (let (small, large) = (if card s > card t then (t, s) else (s, t)) in \<exists>x \<in> small. x \<in> large)"

definition json_ContainsAll :: "'a set \<Rightarrow> 'a set \<Rightarrow> bool" where
  "json_ContainsAll s t \<longleftrightarrow> \<not> card s < card t \<and> (\<forall>x \<in> t. x \<in> s)"

definition json_Remove :: "'a list \<Rightarrow> 'a mapset \<Rightarrow> 'a mapset" where
  "json_Remove xs s = (case s of None \<Rightarrow> None | Some m \<Rightarrow> Some (foldl (\<lambda>m x. m - {x}) m xs))"

definition json_Equals :: "'a set \<Rightarrow> 'a set \<Rightarrow> bool" where
  "json_Equals s t \<longleftrightarrow> card s = card t \<and> (\<forall>x \<in> s. x \<in> t)"

section \<open>Properties\<close>

lemma ss_Overlaps_iff: "ss_inv s \<Longrightarrow> ss_inv t \<Longrightarrow> ss_Overlaps s t \<longleftrightarrow> ss_elems s \<inter> ss_elems t \<noteq> {}"
  by (auto simp: ss_Overlaps_def Let_def list_ex_iff ss_Contains_iff split: if_splits)
    (auto simp: ss_elems_def)

lemma ss_Equals_iff:
  assumes "ss_inv s" and "ss_inv t"
  shows "ss_Equals s t \<longleftrightarrow> ss_elems s = ss_elems t"
proof -
  have "ss_Equals s t \<longleftrightarrow> card (ss_elems s) = card (ss_elems t) \<and> ss_elems s \<subseteq> ss_elems t"
    using assms by (auto simp: ss_Equals_def ss_dom ss_Contains_iff)
  then show ?thesis
    using card_subset_eq [OF ss.finite_elems [OF assms(2)]] by auto
qed

text \<open>
  Every operation of \<^verbatim>\<open>SampleableSet\<close> keeps the index map in step with the element slice,
  never panics, and does to the set of elements what its name says; \<^verbatim>\<open>Contains\<close>, \<^verbatim>\<open>Len\<close>,
  \<^verbatim>\<open>List\<close>, \<^verbatim>\<open>Overlaps\<close> and \<^verbatim>\<open>Equals\<close> answer the question about that set.
\<close>

theorem SampleableSet_refines_set:
  assumes s: "ss_inv s" and t: "ss_inv t"
  shows "(\<exists>u. ss_Add xs s = Ret u \<and> ss_inv u \<and> ss_elems u = set xs \<union> ss_elems s) \<and>
    (\<exists>u. ss_Union s t = Ret u \<and> ss_inv u \<and> ss_elems u = ss_elems t \<union> ss_elems s) \<and>
    ss_inv (ss_Remove xs s) \<and> ss_elems (ss_Remove xs s) = ss_elems s - set xs \<and>
    ss_inv (ss_Difference s t) \<and> ss_elems (ss_Difference s t) = ss_elems s - ss_elems t \<and>
    ss_inv (ss_Clear s) \<and> ss_elems (ss_Clear s) = {} \<and>
    (\<exists>u. OfSampleable xs = Ret u \<and> ss_inv u \<and> ss_elems u = set xs) \<and>
    (ss_Contains s x \<longleftrightarrow> x \<in> ss_elems s) \<and> ss_Len s = card (ss_elems s) \<and>
    distinct (ss_List s) \<and> set (ss_List s) = ss_elems s \<and>
    (ss_Overlaps s t \<longleftrightarrow> ss_elems s \<inter> ss_elems t \<noteq> {}) \<and> (ss_Equals s t \<longleftrightarrow> ss_elems s = ss_elems t)"
proof (intro conjI)
  show "\<exists>u. ss_Add xs s = Ret u \<and> ss_inv u \<and> ss_elems u = set xs \<union> ss_elems s"
    by (rule ss_Add_ok [OF s])
  show "\<exists>u. ss_Union s t = Ret u \<and> ss_inv u \<and> ss_elems u = ss_elems t \<union> ss_elems s"
    using ss_Add_ok [OF s, of "ss_list t"] by (simp add: ss_Union_def ss_Add_def) (simp add: ss_elems_def)
  show "\<exists>u. OfSampleable xs = Ret u \<and> ss_inv u \<and> ss_elems u = set xs"
    using ss_Add_ok [OF ss_inv_New, of xs "int (length xs)"] by (simp add: OfSampleable_def)
  show "ss_inv (ss_Clear s)" "ss_elems (ss_Clear s) = {}"
    by (simp_all add: ss_Clear_def ss_inv_def ss_elems_def)
  show "ss_inv (ss_Difference s t)" "ss_elems (ss_Difference s t) = ss_elems s - ss_elems t"
    using ss.remove_all [OF s, of "ss_list t"] by (simp_all add: ss_Difference_def ss_Remove_def)
      (simp add: ss_elems_def)
qed (use ss.remove_all [OF s, of xs] ss.lists_elems [OF s] in
      \<open>simp_all add: ss_Remove_def ss.contains_iff s ss.len_eq ss_Overlaps_iff t ss_Equals_iff\<close>)

theorem SampleableSet_refines_set_witness:
  "\<exists>u. ss_Add [1, 2, 3 :: nat] (NewSampleableSet (-1)) = Ret u \<and> ss_inv u \<and> ss_elems u = {1, 2, 3}"
  using conjunct1 [OF SampleableSet_refines_set [OF ss_inv_New [of "-1"] ss_inv_New [of 0], of "[1, 2, 3 :: nat]"]]
  by (simp del: One_nat_def)

text \<open>
  The functions of set_fixed.go are correct on the map-backed set: \<^verbatim>\<open>Add\<close> and
  \<^verbatim>\<open>Remove\<close> report whether they changed it, \<^verbatim>\<open>Equals\<close>, \<^verbatim>\<open>Difference\<close> and
  \<^verbatim>\<open>Intersection\<close> compute equality, difference and intersection for every iteration order, and
  \<^verbatim>\<open>SetJSON\<close>'s \<^verbatim>\<open>ContainsAny\<close> and \<^verbatim>\<open>ContainsAll\<close> decide overlap and inclusion.
\<close>

theorem map_set_correct:
  fixes s t :: "'a mapset"
  assumes s: "finite (mset_elems s)" and t: "finite (mset_elems t)" and xs: "mset_List s xs"
  shows "(snd (mset_Add x s) \<longleftrightarrow> mset_elems (fst (mset_Add x s)) \<noteq> mset_elems s) \<and>
    (snd (mset_Remove x s) \<longleftrightarrow> mset_elems (fst (mset_Remove x s)) \<noteq> mset_elems s) \<and>
    mset_elems (fst (mset_Add x s)) = insert x (mset_elems s) \<and>
    mset_elems (fst (mset_Remove x s)) = mset_elems s - {x} \<and>
    (set_Equals mset_Len mset_Contains s t xs \<longleftrightarrow> mset_elems s = mset_elems t) \<and>
    set_Difference mset_Contains t xs = Some (mset_elems s - mset_elems t) \<and>
    set_Intersection mset_Contains t xs = Some (mset_elems s \<inter> mset_elems t) \<and>
    (json_ContainsAny (mset_elems s) (mset_elems t) \<longleftrightarrow> mset_elems s \<inter> mset_elems t \<noteq> {}) \<and>
    (json_ContainsAll (mset_elems s) (mset_elems t) \<longleftrightarrow> mset_elems t \<subseteq> mset_elems s)"
proof (intro conjI)
  show "json_ContainsAll (mset_elems s) (mset_elems t) \<longleftrightarrow> mset_elems t \<subseteq> mset_elems s"
    using card_mono [OF s, of "mset_elems t"] by (auto simp: json_ContainsAll_def)
  show "json_ContainsAny (mset_elems s) (mset_elems t) \<longleftrightarrow> mset_elems s \<inter> mset_elems t \<noteq> {}"
    by (auto simp: json_ContainsAny_def)
qed (use s t xs in \<open>auto simp: ms.Equals_iff ms.Difference_eq ms.Intersection_eq mset_Add_def
       mset_Remove_def mset_elems_def Let_def split: option.splits if_splits\<close>)

theorem map_set_correct_witness:
  "set_Difference mset_Contains (mset_Of [2 :: nat]) [1, 2] = Some ({1, 2} - {2})"
  using map_set_correct [of "mset_Of [1, 2 :: nat]" "mset_Of [2]" "[1, 2]"]
  by (simp add: mset_defs)

lemma marshal_all_Inr:
  "marshal_all marshal xs = Inr bs \<longleftrightarrow> map marshal xs = map Inr bs"
proof (induction xs arbitrary: bs)
  case (Cons x xs)
  then show ?case by (cases bs; cases "marshal x"; cases "marshal_all marshal xs") auto
qed auto

lemma marshal_all_Inl: "marshal_all marshal xs = Inl err \<Longrightarrow> Inl err \<in> set (map marshal xs)"
  by (induction xs) (auto split: sum.splits)

lemma mset_map_split: "mset ys = mset (map f xs) \<Longrightarrow> \<exists>zs. mset zs = mset xs \<and> map f zs = ys"
proof (induction ys arbitrary: xs)
  case (Cons y ys)
  from mset_eq_setD [OF Cons.prems] have "set (y # ys) = set (map f xs)" .
  then have "y \<in> set (map f xs)" by auto
  then obtain x where x: "x \<in> set xs" "y = f x" by auto
  then obtain us vs where xs: "xs = us @ x # vs" by (meson split_list)
  with Cons.prems x(2) have "mset ys = mset (map f (us @ vs))" by simp
  with Cons.IH obtain zs where "mset zs = mset (us @ vs)" "map f zs = ys" by blast
  with xs x(2) show ?case by (intro exI [of _ "x # zs"]) simp
qed simp

lemma exchange_sort_cong: "mset bs = mset cs \<Longrightarrow> exchange_sort bs = exchange_sort cs"
  by (metis mset_exchange_sort sorted_exchange_sort properties_for_sort)

lemma marshal_all_perm:
  assumes "marshal_all marshal xs = Inr bs" and "mset xs = mset ys"
  shows "\<exists>cs. marshal_all marshal ys = Inr cs \<and> mset cs = mset bs"
proof -
  from assms(1) have m: "map marshal xs = map Inr bs" by (simp add: marshal_all_Inr)
  from m assms(2) have "mset (map marshal ys) = mset (map Inr bs)" by (metis mset_map)
  from mset_map_split [OF this] obtain cs where "mset cs = mset bs" "map Inr cs = map marshal ys" by blast
  then show ?thesis by (metis marshal_all_Inr)
qed

text \<open>
  The JSON encoding of a set does not depend on the order in which its elements are visited,
  and decoding it gives the set back, provided \<^verbatim>\<open>json.Unmarshal\<close> decodes an array of encodings to
  the elements encoded.
\<close>


theorem set_json_roundtrip:
  assumes decode: "\<And>es bs. map marshal es = map Inr bs \<Longrightarrow> unmarshal (json_array bs) = Inr es"
    and xs: "distinct xs" and ys: "distinct ys" and same: "set xs = set ys"
    and enc: "set_MarshalJSON marshal xs = Inr b"
  shows "set_MarshalJSON marshal ys = Inr b \<and> set_UnmarshalJSON unmarshal s b = (Some (set xs), None)"
proof
  from enc obtain bs where bs: "marshal_all marshal xs = Inr bs" and b: "b = json_array (exchange_sort bs)"
    by (cases "marshal_all marshal xs") (auto simp: set_MarshalJSON_def)
  have "mset xs = mset ys" using xs ys same by (simp add: set_eq_iff_mset_eq_distinct)
  from marshal_all_perm [OF bs this] obtain cs where cs: "marshal_all marshal ys = Inr cs" "mset cs = mset bs"
    by blast
  with b exchange_sort_cong [OF cs(2)] show "set_MarshalJSON marshal ys = Inr b"
    by (simp add: set_MarshalJSON_def)
  have "mset (map Inr (exchange_sort bs)) = mset (map marshal xs)"
    using bs by (simp add: marshal_all_Inr mset_exchange_sort del: mset_map) (simp add: mset_exchange_sort)
  from mset_map_split [OF this] obtain zs where zs: "mset zs = mset xs"
    and "map marshal zs = map Inr (exchange_sort bs)" by blast
  then have "unmarshal b = Inr zs" unfolding b by (intro decode)
  moreover have "set zs = set xs" using zs by (rule mset_eq_setD)
  moreover have "b \<noteq> json_Null" unfolding b by (simp add: json_array_def json_Null_def)
  ultimately show "set_UnmarshalJSON unmarshal s b = (Some (set xs), None)"
    by (simp add: set_UnmarshalJSON_def mset_Union_def mset_Clear_def mset_elems_def)
qed

text \<open>An element type with one-byte encodings, for the witness: booleans as \<^verbatim>\<open>1\<close> and \<^verbatim>\<open>0\<close>.\<close>

definition bit_json :: "bool \<Rightarrow> bytes res" where
  "bit_json b = Inr [if b then 0x31 else 0x30]"

fun bits_of_json :: "bytes \<Rightarrow> bool list" where
  "bits_of_json (c # d # r) = (c = 0x31) # (if d = 0x2C then bits_of_json r else [])"
| "bits_of_json _ = []"

lemma bits_of_json: "bits_of_json (join_commas (map (\<lambda>b. [if b then 0x31 else 0x30]) es) @ [0x5D]) = es"
proof (induction es)
  case (Cons e es)
  then show ?case by (cases es) auto
qed simp

theorem set_json_roundtrip_witness:
  "set_UnmarshalJSON (\<lambda>b. Inr (bits_of_json (drop 1 b))) None
     (json_array [[0x30], [0x31]]) = (Some {True, False}, None)"
proof -
  have dec: "Inr (bits_of_json (drop 1 (json_array bs))) = (Inr es :: bool list res)"
    if "map bit_json es = map Inr bs" for es bs
  proof -
    from that have "bs = map (\<lambda>b. [if b then 0x31 else 0x30]) es"
      by (induction es arbitrary: bs) (auto simp: bit_json_def)
    then show ?thesis by (simp add: json_array_def bits_of_json)
  qed
  have "exchange_sort [[0x31], [0x30]] = [[0x30], [0x31 :: byte]]"
    by (simp add: exchange_sort_def exchange_row_def swap_def upt_rec)
  then have "set_MarshalJSON bit_json [True, False] = Inr (json_array [[0x30], [0x31]])"
    by (simp add: set_MarshalJSON_def bit_json_def)
  from set_json_roundtrip [where unmarshal = "\<lambda>b. Inr (bits_of_json (drop 1 b))", OF dec _ _ _ this, of "[True, False]" None]
  show ?thesis by simp
qed

end
