(* ===== verification/Sampler.thy ===== *)
theory Sampler
  imports Prelude
begin

text \<open>
  pkg/utils/sampler: the rejection-sampling generator of uniform.go, the lazy Fisher-Yates
  \<^verbatim>\<open>uniformReplacer\<close>, the binary-search \<^verbatim>\<open>weightedHeapSampler\<close>, the priority heap
  \<^verbatim>\<open>weightedHeap\<close> and \<^verbatim>\<open>weightedWithoutReplacementGeneric\<close>. The random source is an argument:
  the values that \<^verbatim>\<open>Int63\<close> and \<^verbatim>\<open>Intn\<close> return. The heap's floating-point arithmetic is an
  argument too (\<open>float_ops\<close>): the scaled weights, and priorities in some linear order.
\<close>

definition sampler_error :: "string \<Rightarrow> go_error" where
  "sampler_error msg = Err (''sampler error: '' @ msg)"

definition errNoEligibleSamples :: go_error where
  "errNoEligibleSamples = sampler_error ''no eligible samples found''"
definition errIndexOutOfRange :: go_error where
  "errIndexOutOfRange = sampler_error ''index out of range''"
definition errElementRemoved :: go_error where
  "errElementRemoved = sampler_error ''element was already removed''"
definition errWeightOverflow :: go_error where
  "errWeightOverflow = sampler_error ''weight overflowed''"
definition errNoValidUniformSamplers :: go_error where
  "errNoValidUniformSamplers = Err ''no valid uniform samplers found''"
definition errOutOfRange :: go_error where
  "errOutOfRange = Err ''out of range''"
definition errInvalidArgument :: go_error where
  "errInvalidArgument = Err ''invalid argument''"

section \<open>Uniform samples with replacement\<close>

text \<open>\<^verbatim>\<open>uniformGenerator.Next\<close>; \<^term>\<open>None\<close> when the recursion does not end.\<close>

partial_function (option) generator_Next :: "uint64 \<Rightarrow> uint64 \<Rightarrow> uint64 res option" where
  "generator_Next sampleRange val =
     (if sampleRange = 0 then Some (Inl errNoEligibleSamples)
      else
        let max = 2 ^ 63 - 2 ^ 63 mod sampleRange in
        if val < max then Some (Inr (val mod sampleRange))
        else generator_Next sampleRange (val - max))"

text \<open>\<^verbatim>\<open>uniformSampler.Draw\<close>: one \<^verbatim>\<open>Int63\<close> value per sample.\<close>

fun uniform_Draw :: "uint64 \<Rightarrow> uint64 list \<Rightarrow> uint64 list res option" where
  "uniform_Draw sampleRange [] = Some (Inr [])"
| "uniform_Draw sampleRange (r # rs) =
     (case generator_Next sampleRange r of
        None \<Rightarrow> None
      | Some (Inl err) \<Rightarrow> Some (Inl err)
      | Some (Inr v) \<Rightarrow>
          (case uniform_Draw sampleRange rs of
             None \<Rightarrow> None
           | Some (Inl err) \<Rightarrow> Some (Inl err)
           | Some (Inr vs) \<Rightarrow> Some (Inr (v # vs))))"

lemma unat_2_63: "unat (2 ^ 63 :: uint64) = 2 ^ 63"
  by simp

lemma unat_sampler_max:
  "unat (2 ^ 63 - 2 ^ 63 mod r :: uint64) = 2 ^ 63 - 2 ^ 63 mod unat r"
proof -
  have m: "unat (2 ^ 63 mod r :: uint64) = 2 ^ 63 mod unat r"
    by (simp add: unat_mod_distrib)
  then have "2 ^ 63 mod r \<le> (2 ^ 63 :: uint64)"
    by (simp add: word_le_nat_alt)
  then show ?thesis using m unat_2_63 by (metis unat_sub)
qed

lemma generator_first: "r \<noteq> 0 \<Longrightarrow> val < 2 ^ 63 - 2 ^ 63 mod r \<Longrightarrow> generator_Next r val = Some (Inr (val mod r))"
  by (subst generator_Next.simps) (simp add: Let_def)

lemma generator_second:
  assumes "r \<noteq> 0" and "r \<le> 2 ^ 63" and "val < 2 ^ 63" and "\<not> val < 2 ^ 63 - 2 ^ 63 mod r"
  shows "generator_Next r val = Some (Inr ((val - (2 ^ 63 - 2 ^ 63 mod r)) mod r))"
proof -
  let ?max = "2 ^ 63 - 2 ^ 63 mod r"
  from assms(1) have pos: "0 < unat r" by (simp add: unat_gt_0)
  have le: "unat r \<le> 2 ^ 63" using assms(2) by (simp add: word_le_nat_alt)
  have big: "unat r \<le> 2 ^ 63 - 2 ^ 63 mod unat r"
  proof -
    have "2 ^ 63 - 2 ^ 63 mod unat r = unat r * (2 ^ 63 div unat r)"
      by (simp add: minus_mod_eq_mult_div)
    moreover have "1 \<le> 2 ^ 63 div unat r" using le pos by (simp add: div_greater_zero_iff Suc_le_eq)
    ultimately show ?thesis by (metis mult.right_neutral mult_le_mono2)
  qed
  have "unat (val - ?max) = unat val - unat ?max"
    using assms(4) by (intro unat_sub) (simp add: not_less)
  also have "\<dots> < 2 ^ 63 mod unat r"
  proof -
    have v: "unat val < 2 ^ 63" using assms(3) by (simp add: word_less_nat_alt)
    have g: "2 ^ 63 - 2 ^ 63 mod unat r \<le> unat val"
      using assms(4) unfolding word_less_nat_alt unat_sampler_max by simp
    have "(2::nat) ^ 63 mod unat r \<le> 2 ^ 63" by simp
    with v g show ?thesis unfolding unat_sampler_max by linarith
  qed
  also have "\<dots> < unat r" using pos by simp
  also have "\<dots> \<le> unat ?max" using big unfolding unat_sampler_max .
  finally have "val - ?max < ?max" by (simp add: word_less_nat_alt)
  with generator_first [OF assms(1), of "val - ?max"] assms(1,4) show ?thesis
    by (subst generator_Next.simps) (simp add: Let_def)
qed

lemma generator_total:
  assumes "r \<noteq> 0" and "r \<le> 2 ^ 63" and "val < 2 ^ 63"
  shows "\<exists>k. generator_Next r val = Some (Inr k) \<and> k < r"
proof -
  have "x mod r < r" for x :: uint64 using assms(1) by (simp add: word_mod_less_divisor word_gt_0)
  then show ?thesis
    using generator_first [OF assms(1), of val] generator_second [OF assms]
    by (cases "val < 2 ^ 63 - 2 ^ 63 mod r") auto
qed

lemma generator_diverges:
  assumes "2 ^ 63 < r"
  shows "generator_Next r val = None"
proof -
  have "\<not> 2 ^ 63 < r" if "generator_Next r val = Some y" for y
    using that
  proof (rule generator_Next.raw_induct [rotated])
    fix G and r val :: uint64 and y
    assume IH: "\<And>r val y. G r val = Some y \<Longrightarrow> \<not> 2 ^ 63 < r"
      and eq: "(if r = 0 then Some (Inl errNoEligibleSamples)
        else let max = 2 ^ 63 - 2 ^ 63 mod r
          in if val < max then Some (Inr (val mod r)) else G r (val - max)) = Some y"
    show "\<not> 2 ^ 63 < r"
    proof
      assume r: "2 ^ 63 < r"
      then have "(2 ^ 63 :: uint64) mod r = 2 ^ 63"
        by (simp add: word_less_nat_alt word_unat_eq_iff unat_mod_distrib)
      with eq r have "G r (val - 0) = Some y"
        by (auto simp: Let_def split: if_splits)
      with IH r show False by blast
    qed
  qed
  with assms show ?thesis by (cases "generator_Next r val") auto
qed

text \<open>
  \<^verbatim>\<open>uniformGenerator.Next\<close> on a value of \<^verbatim>\<open>Int63\<close>: an error on an empty range, otherwise a
  sample below the range as long as the range is at most \<open>2 ^ 63\<close>; a larger range makes the
  recursion endless for every value. \<^verbatim>\<open>Draw\<close> fills its slice with samples below the range.
\<close>

theorem generator_Next_behaviour:
  assumes "val < 2 ^ 63" and "\<forall>x \<in> set vals. x < 2 ^ 63"
  shows "generator_Next 0 val = Some (Inl errNoEligibleSamples) \<and>
    (0 < r \<and> r \<le> 2 ^ 63 \<longrightarrow>
       (\<exists>k. generator_Next r val = Some (Inr k) \<and> k < r) \<and>
       (\<exists>ks. uniform_Draw r vals = Some (Inr ks) \<and> length ks = length vals \<and> (\<forall>k \<in> set ks. k < r))) \<and>
    (2 ^ 63 < r \<longrightarrow> generator_Next r val = None)"
proof (intro conjI impI)
  show "generator_Next 0 val = Some (Inl errNoEligibleSamples)"
    by (subst generator_Next.simps) simp
next
  assume r: "0 < r \<and> r \<le> 2 ^ 63"
  with generator_total [OF _ _ assms(1)] show "\<exists>k. generator_Next r val = Some (Inr k) \<and> k < r"
    by (auto simp: word_gt_0)
  show "\<exists>ks. uniform_Draw r vals = Some (Inr ks) \<and> length ks = length vals \<and> (\<forall>k \<in> set ks. k < r)"
    using assms(2)
  proof (induction vals)
    case (Cons v vals)
    then obtain ks where "uniform_Draw r vals = Some (Inr ks)" "length ks = length vals" "\<forall>k \<in> set ks. k < r"
      by auto
    moreover from Cons.prems r obtain k where "generator_Next r v = Some (Inr k)" "k < r"
      using generator_total [of r v] by (auto simp: word_gt_0)
    ultimately show ?case by auto
  qed simp
next
  assume "2 ^ 63 < r"
  then show "generator_Next r val = None" by (rule generator_diverges)
qed

theorem generator_Next_behaviour_witness:
  "(\<exists>k. generator_Next 10 7 = Some (Inr k) \<and> k < 10) \<and> generator_Next (2 ^ 63 + 1) 7 = None"
  using generator_Next_behaviour [of 7 "[]" 10] generator_Next_behaviour [of 7 "[]" "2 ^ 63 + 1"]
  by (simp add: word_less_nat_alt word_le_nat_alt)

section \<open>Uniform samples without replacement\<close>

text \<open>
  \<^verbatim>\<open>uniformReplacer\<close>. \<open>r_rng\<close> says whether the pointer to the generator is set; only
  \<^verbatim>\<open>SetSeed\<close> sets it. \<open>index\<close> is the value \<^verbatim>\<open>Intn\<close> returns.
\<close>

record replacer =
  r_rng :: bool
  r_length :: nat
  r_drawn :: nat
  replacement :: "nat \<rightharpoonup> nat"

definition default_get :: "(nat \<rightharpoonup> nat) \<Rightarrow> nat \<Rightarrow> nat \<Rightarrow> nat" where
  "default_get m key defaultVal = (case m key of Some val \<Rightarrow> val | None \<Rightarrow> defaultVal)"

definition MaxInt32 :: int where
  "MaxInt32 = 2 ^ 31 - 1"

definition replacer_Initialize :: "int \<Rightarrow> replacer \<Rightarrow> replacer \<times> go_error option" where
  "replacer_Initialize n s =
     (if n \<le> 0 then (s, Some errInvalidArgument)
      else if n > MaxInt32 then (s, Some errInvalidArgument)
      else (s\<lparr>r_length := nat n, r_drawn := 0, replacement := Map.empty\<rparr>, None))"

definition replacer_nextInt :: "nat \<Rightarrow> replacer \<Rightarrow> (nat \<times> replacer) go" where
  "replacer_nextInt index s =
     (if \<not> r_rng s then Panic ''nil pointer dereference''
      else
        let ret = default_get (replacement s) index index;
            replacementIndex = r_length s - r_drawn s - 1;
            replacementVal = default_get (replacement s) replacementIndex replacementIndex
        in Ret (ret, s\<lparr>replacement := (replacement s)(index \<mapsto> replacementVal), r_drawn := Suc (r_drawn s)\<rparr>))"

fun replacer_loop :: "nat list \<Rightarrow> replacer \<Rightarrow> (nat list \<times> replacer) go" where
  "replacer_loop [] s = Ret ([], s)"
| "replacer_loop (index # is) s =
     (case replacer_nextInt index s of
        Ret (ret, s') \<Rightarrow>
          (case replacer_loop is s' of Ret (rs, s'') \<Rightarrow> Ret (ret # rs, s'') | Panic m \<Rightarrow> Panic m | Block \<Rightarrow> Block)
      | Panic m \<Rightarrow> Panic m | Block \<Rightarrow> Block)"

text \<open>\<open>is\<close>: the \<^verbatim>\<open>count\<close> values that \<^verbatim>\<open>Intn\<close> returns during the call.\<close>

definition replacer_Sample :: "int \<Rightarrow> nat list \<Rightarrow> replacer \<Rightarrow> (nat list res \<times> replacer) go" where
  "replacer_Sample cnt is s =
     (if cnt \<le> 0 then Ret (Inr [], s)
      else if int (r_drawn s) + cnt > int (r_length s) then Ret (Inl errOutOfRange, s)
      else case replacer_loop is s of Ret (rs, s') \<Rightarrow> Ret (Inr rs, s') | Panic m \<Rightarrow> Panic m | Block \<Rightarrow> Block)"

definition replacer_Reset :: "replacer \<Rightarrow> replacer" where
  "replacer_Reset s = s\<lparr>replacement := Map.empty, r_drawn := 0\<rparr>"

definition replacer_SetSeed :: "replacer \<Rightarrow> replacer" where
  "replacer_SetSeed s = s\<lparr>r_rng := True\<rparr>"

text \<open>
  What \<^verbatim>\<open>Intn\<close> promises of the values it returns: each is below the number of elements left.
\<close>

fun draws_ok :: "nat list \<Rightarrow> nat \<Rightarrow> bool" where
  "draws_ok [] left = True"
| "draws_ok (i # is) left \<longleftrightarrow> i < left \<and> draws_ok is (left - 1)"

text \<open>The elements not drawn yet: the virtual array that the map represents lazily.\<close>

definition remaining :: "replacer \<Rightarrow> nat list" where
  "remaining s = map (\<lambda>j. default_get (replacement s) j j) [0..<r_length s - r_drawn s]"

definition replacer_inv :: "replacer \<Rightarrow> bool" where
  "replacer_inv s \<longleftrightarrow> r_drawn s \<le> r_length s \<and> distinct (remaining s) \<and> set (remaining s) \<subseteq> {..<r_length s}"

lemma length_remaining [simp]: "length (remaining s) = r_length s - r_drawn s"
  by (simp add: remaining_def)

lemma nth_remaining: "j < r_length s - r_drawn s \<Longrightarrow> remaining s ! j = default_get (replacement s) j j"
  by (simp add: remaining_def)

lemma remaining_nextInt:
  assumes "replacer_nextInt i s = Ret (x, s')" and "i < r_length s - r_drawn s"
  shows "x = remaining s ! i" and "r_length s' = r_length s" and "r_drawn s' = Suc (r_drawn s)"
    and "r_rng s' = r_rng s"
    and "remaining s' = butlast ((remaining s)[i := last (remaining s)])"
proof -
  from assms(1) show *: "r_length s' = r_length s" "r_drawn s' = Suc (r_drawn s)" "r_rng s' = r_rng s"
    by (auto simp: replacer_nextInt_def Let_def split: if_splits)
  from assms show "x = remaining s ! i"
    by (auto simp: replacer_nextInt_def Let_def nth_remaining split: if_splits)
  have rep: "replacement s' = (replacement s)(i \<mapsto> default_get (replacement s) (r_length s - r_drawn s - 1) (r_length s - r_drawn s - 1))"
    using assms(1) by (auto simp: replacer_nextInt_def Let_def split: if_splits)
  have last: "last (remaining s) = default_get (replacement s) (r_length s - r_drawn s - 1) (r_length s - r_drawn s - 1)"
    using assms(2) by (subst last_conv_nth) (auto simp: nth_remaining simp flip: length_0_conv)
  show "remaining s' = butlast ((remaining s)[i := last (remaining s)])"
  proof (rule nth_equalityI)
    show "length (remaining s') = length (butlast ((remaining s)[i := last (remaining s)]))"
      by (simp add: *)
    fix j
    assume "j < length (remaining s')"
    then show "remaining s' ! j = butlast ((remaining s)[i := last (remaining s)]) ! j"
      by (simp add: * nth_remaining nth_butlast nth_list_update last rep default_get_def)
  qed
qed

lemma mset_swap_butlast:
  assumes "i < length xs"
  shows "add_mset (xs ! i) (mset (butlast (xs[i := last xs]))) = mset xs"
  using assms
proof (cases xs rule: rev_cases)
  case (snoc ys z)
  show ?thesis
  proof (cases "i < length ys")
    case True
    then show ?thesis by (simp add: snoc list_update_append nth_append mset_update butlast_append)
  next
    case False
    with assms snoc have "i = length ys" by simp
    with snoc show ?thesis by (simp add: list_update_append nth_append)
  qed
qed simp

lemma replacer_loop_draws:
  "r_rng s \<Longrightarrow> draws_ok is (r_length s - r_drawn s) \<Longrightarrow>
   \<exists>rs s'. replacer_loop is s = Ret (rs, s') \<and> length rs = length is \<and> r_rng s' \<and>
     r_length s' = r_length s \<and> r_drawn s' = r_drawn s + length is \<and>
     mset rs + mset (remaining s') = mset (remaining s)"
proof (induction "is" arbitrary: s)
  case (Cons i "is")
  from Cons.prems(1) obtain x t where t: "replacer_nextInt i s = Ret (x, t)"
    by (auto simp: replacer_nextInt_def Let_def)
  from Cons.prems(2) have i: "i < r_length s - r_drawn s" by simp
  note r = remaining_nextInt [OF t i]
  have m: "add_mset x (mset (remaining t)) = mset (remaining s)"
    using mset_swap_butlast [of i "remaining s"] i r(1,5) by simp
  have "draws_ok is (r_length t - r_drawn t)" using Cons.prems(2) r(2,3) by simp
  with Cons.IH [of t] Cons.prems(1) r obtain rs u where u: "replacer_loop is t = Ret (rs, u)"
    "length rs = length is" "r_rng u" "r_length u = r_length s" "r_drawn u = Suc (r_drawn s + length is)"
    "mset rs + mset (remaining u) = mset (remaining t)" by auto
  then show ?case using t m by (intro exI [of _ "x # rs"] exI [of _ u]) auto
qed simp

lemma remaining_fresh: "replacement s = Map.empty \<Longrightarrow> remaining s = [0..<r_length s - r_drawn s]"
  by (simp add: remaining_def default_get_def map_idI)

lemma draws_ok_length: "draws_ok is n \<Longrightarrow> length is \<le> n"
  by (induction "is" n rule: draws_ok.induct) auto

text \<open>
  A freshly initialised and seeded \<^verbatim>\<open>uniformReplacer\<close> samples without replacement: for any
  values of \<^verbatim>\<open>Intn\<close> in range, a sample of at most \<^verbatim>\<open>length\<close> elements succeeds, the values drawn
  are distinct and below \<^verbatim>\<open>length\<close>, together with the values still undrawn they are all of
  \<open>{0..<length}\<close>; a larger sample, or one that exceeds what is left, returns the error and draws
  nothing. Without a \<^verbatim>\<open>SetSeed\<close> the nil generator makes the first draw panic.
\<close>

theorem replacer_draws_distinct:
  assumes n: "0 < n" "n \<le> 2 ^ 31 - 1" and draws: "draws_ok is n"
    and r: "r = fst (replacer_Initialize (int n) (replacer_SetSeed s))"
  shows "(\<exists>xs r'. replacer_Sample (int (length is)) is r = Ret (Inr xs, r') \<and> length xs = length is \<and>
      distinct xs \<and> mset xs + mset (remaining r') = mset [0..<n] \<and> r_drawn r' = length is) \<and>
    (int n < k \<longrightarrow> replacer_Sample k js r = Ret (Inl errOutOfRange, r)) \<and>
    (\<not> r_rng u \<longrightarrow> replacer_nextInt j u = Panic ''nil pointer dereference'')"
proof (intro conjI impI)
  have f: "r_rng r" "r_length r = n" "r_drawn r = 0" "replacement r = Map.empty"
    using n by (auto simp: r replacer_Initialize_def replacer_SetSeed_def MaxInt32_def)
  have rem: "remaining r = [0..<n]" using remaining_fresh [OF f(4)] by (simp add: f)
  from replacer_loop_draws [OF f(1), of "is"] draws obtain xs r' where
    *: "replacer_loop is r = Ret (xs, r')" "length xs = length is" "r_drawn r' = length is"
      "mset xs + mset (remaining r') = mset [0..<n]"
    by (auto simp: f rem)
  have "distinct (xs @ remaining r')"
    using *(4) by (metis distinct_upt mset_append mset_eq_imp_distinct_iff)
  then have d: "distinct xs" by simp
  show "\<exists>xs r'. replacer_Sample (int (length is)) is r = Ret (Inr xs, r') \<and> length xs = length is \<and>
      distinct xs \<and> mset xs + mset (remaining r') = mset [0..<n] \<and> r_drawn r' = length is"
  proof (cases "is = []")
    case True
    then show ?thesis by (simp add: replacer_Sample_def rem f)
  next
    case False
    with * d draws_ok_length [OF draws] f show ?thesis by (simp add: replacer_Sample_def)
  qed
  show "replacer_Sample k js r = Ret (Inl errOutOfRange, r)" if "int n < k"
    using that by (simp add: replacer_Sample_def f)
qed (simp add: replacer_nextInt_def)

theorem replacer_draws_distinct_witness:
  "\<exists>xs r'. replacer_Sample 2 [1, 0] (fst (replacer_Initialize 3 (replacer_SetSeed
      \<lparr>r_rng = False, r_length = 0, r_drawn = 0, replacement = Map.empty\<rparr>))) = Ret (Inr xs, r') \<and> distinct xs"
proof -
  let ?s = "\<lparr>r_rng = False, r_length = 0, r_drawn = 0, replacement = Map.empty\<rparr>"
  have "draws_ok [1, 0] 3" by simp
  from conjunct1 [OF replacer_draws_distinct [of 3, OF _ _ this refl [of "fst (replacer_Initialize (int 3) (replacer_SetSeed ?s))"]]]
  obtain xs r' where "replacer_Sample (int (length [1, 0 :: nat])) [1, 0]
      (fst (replacer_Initialize (int 3) (replacer_SetSeed ?s))) = Ret (Inr xs, r')" "distinct xs" by auto
  then show ?thesis by auto
qed

section \<open>Weighted samples: binary search in the cumulative weights\<close>

text \<open>
  The binary search of \<^verbatim>\<open>weightedHeapSampler\<close> (weighted.go); the sampler itself follows the heap it
  contains. \<open>cumulative\<close> is the running total, which wraps.
\<close>

fun cumulative :: "uint64 \<Rightarrow> uint64 list \<Rightarrow> uint64 list" where
  "cumulative acc [] = []"
| "cumulative acc (w # ws) = (acc + w) # cumulative (acc + w) ws"

function search :: "uint64 list \<Rightarrow> uint64 \<Rightarrow> int \<Rightarrow> int \<Rightarrow> int" where
  "search cs v low high =
     (if low \<le> high then
        let mid = (low + high) div 2 in
        if cs ! nat mid \<le> v then search cs v (mid + 1) high else search cs v low (mid - 1)
      else low)"
  by auto
termination
  by (relation "measure (\<lambda>(cs, v, low, high). nat (high - low + 1))") auto

declare search.simps [simp del]

text \<open>The result for given weights, as \<^verbatim>\<open>Initialize\<close> prepares it.\<close>

definition weighted_Sample :: "uint64 list \<Rightarrow> uint64 \<Rightarrow> nat \<times> bool" where
  "weighted_Sample weights sampleValue =
     (let cumulativeSum = cumulative 0 weights;
          totalWeight = (if weights = [] then 0 else last cumulativeSum) in
      if totalWeight = 0 \<or> sampleValue \<ge> totalWeight then (0, False)
      else
        let low = search cumulativeSum sampleValue 0 (int (length weights) - 1) in
        if low = 0 then (0, True) else (nat low, True))"

lemma length_cumulative [simp]: "length (cumulative t ws) = length ws"
  by (induction ws arbitrary: t) auto

lemma nth_cumulative:
  "i < length ws \<Longrightarrow> unat t + sum_list (map unat ws) < 2 ^ 64 \<Longrightarrow>
   unat (cumulative t ws ! i) = unat t + sum_list (map unat (take (Suc i) ws))"
proof (induction ws arbitrary: t i)
  case (Cons w ws)
  have w: "unat (t + w) = unat t + unat w"
    using Cons.prems(2) by (intro unat_add_lem [THEN iffD1]) simp
  show ?case
  proof (cases i)
    case (Suc j)
    with Cons.IH [of j "t + w"] Cons.prems w show ?thesis by simp
  qed (simp add: w)
qed simp

lemma take_sum_mono: "i \<le> j \<Longrightarrow> sum_list (map unat (take i ws)) \<le> sum_list (map unat (take j ws :: uint64 list))"
proof -
  assume "i \<le> j"
  then obtain k where "j = i + k" using le_Suc_ex by blast
  then show ?thesis by (simp add: take_add)
qed

text \<open>The search keeps: everything left of \<open>low\<close> is at most \<open>v\<close>, everything right of \<open>high\<close> above.\<close>

definition split_at :: "uint64 list \<Rightarrow> uint64 \<Rightarrow> nat \<Rightarrow> bool" where
  "split_at cs v k \<longleftrightarrow> k \<le> length cs \<and> (\<forall>i < k. cs ! i \<le> v) \<and> (\<forall>i < length cs. k \<le> i \<longrightarrow> v < cs ! i)"

lemma search_correct:
  assumes mono: "\<And>i j. i \<le> j \<Longrightarrow> j < length cs \<Longrightarrow> cs ! i \<le> cs ! j"
  shows "0 \<le> low \<Longrightarrow> high < int (length cs) \<Longrightarrow> low \<le> high + 1 \<Longrightarrow>
    (\<And>i. i < nat low \<Longrightarrow> cs ! i \<le> v) \<Longrightarrow> (\<And>i. high < int i \<Longrightarrow> i < length cs \<Longrightarrow> v < cs ! i) \<Longrightarrow>
    0 \<le> search cs v low high \<and> split_at cs v (nat (search cs v low high))"
proof (induction "nat (high - low + 1)" arbitrary: low high rule: less_induct)
  case less
  note prems = less.prems
  show ?case
  proof (cases "low \<le> high")
    case False
    with prems(3) have "search cs v low high = low" "low = high + 1" by (simp_all add: search.simps)
    with prems show ?thesis by (auto simp: split_at_def)
  next
    case True
    define mid where "mid = (low + high) div 2"
    have mid: "low \<le> mid" "mid \<le> high" using True by (auto simp: mid_def)
    then have inr: "nat mid < length cs" using prems(1,2) by simp
    show ?thesis
    proof (cases "cs ! nat mid \<le> v")
      case le: True
      have "cs ! i \<le> v" if "i < nat (mid + 1)" for i
      proof -
        have "cs ! i \<le> cs ! nat mid" using that inr by (intro mono) auto
        then show ?thesis using le by (rule order_trans)
      qed
      with less.hyps [of high "mid + 1"] prems mid have
        "0 \<le> search cs v (mid + 1) high \<and> split_at cs v (nat (search cs v (mid + 1) high))" by simp
      moreover have "search cs v low high = search cs v (mid + 1) high"
        using True le by (subst search.simps) (simp add: mid_def Let_def)
      ultimately show ?thesis by simp
    next
      case gt: False
      have "v < cs ! i" if "mid - 1 < int i" "i < length cs" for i
      proof -
        have "cs ! nat mid \<le> cs ! i" using that by (intro mono) auto
        with gt show ?thesis by simp
      qed
      with less.hyps [of "mid - 1" low] prems mid have
        "0 \<le> search cs v low (mid - 1) \<and> split_at cs v (nat (search cs v low (mid - 1)))" by simp
      moreover have "search cs v low high = search cs v low (mid - 1)"
        using True gt by (subst search.simps) (simp add: mid_def Let_def)
      ultimately show ?thesis by simp
    qed
  qed
qed

lemma weighted_Sample_correct:
  assumes sum: "sum_list (map unat weights) < 2 ^ 64"
  shows "(unat v < sum_list (map unat weights) \<longrightarrow>
      (\<exists>i < length weights. weighted_Sample weights v = (i, True) \<and>
        sum_list (map unat (take i weights)) \<le> unat v \<and>
        unat v < sum_list (map unat (take i weights)) + unat (weights ! i))) \<and>
    (sum_list (map unat weights) \<le> unat v \<longrightarrow> weighted_Sample weights v = (0, False))"
proof -
  let ?cs = "cumulative 0 weights" and ?n = "length weights"
  define total where "total = (if weights = [] then 0 else last ?cs)"
  have at: "unat (?cs ! i) = sum_list (map unat (take (Suc i) weights))" if "i < ?n" for i
    using nth_cumulative [OF that, of 0] sum by simp
  have tot: "unat total = sum_list (map unat weights)"
    using at [of "?n - 1"] by (auto simp: total_def last_conv_nth simp flip: length_greater_0_conv)
  have mono: "?cs ! i \<le> ?cs ! j" if "i \<le> j" "j < length ?cs" for i j
    using that take_sum_mono [of "Suc i" "Suc j" weights] by (simp add: word_le_nat_alt at)
  define low where "low = search ?cs v 0 (int ?n - 1)"
  have low: "0 \<le> low" "split_at ?cs v (nat low)"
    using search_correct [OF mono, of 0 "int ?n - 1" v] by (auto simp: low_def)
  have samp: "weighted_Sample weights v = (if total = 0 \<or> total \<le> v then (0, False) else (nat low, True))"
    unfolding weighted_Sample_def Let_def total_def [symmetric] low_def [symmetric] by simp
  show ?thesis
  proof (intro conjI impI)
    assume v: "unat v < sum_list (map unat weights)"
    then have "weights \<noteq> []" by auto
    then have "v < ?cs ! (?n - 1)" "?n - 1 < ?n"
      using v at [of "?n - 1"] by (auto simp: word_less_nat_alt)
    moreover have "?cs ! (?n - 1) \<le> v" if "\<not> nat low < ?n"
      using low(2) that \<open>?n - 1 < ?n\<close> by (auto simp: split_at_def)
    ultimately have i: "nat low < ?n" by (meson not_le)
    have "v < ?cs ! nat low" using low(2) i by (simp add: split_at_def)
    then have hi: "unat v < sum_list (map unat (take (Suc (nat low)) weights))"
      using i by (simp add: word_less_nat_alt at)
    have lo: "sum_list (map unat (take (nat low) weights)) \<le> unat v"
    proof (cases "nat low")
      case (Suc k)
      with low(2) have "?cs ! k \<le> v" by (simp add: split_at_def)
      with Suc i show ?thesis by (simp add: word_le_nat_alt at)
    qed simp
    have "v < total" using v unfolding tot [symmetric] by (simp add: word_less_nat_alt)
    then have "\<not> (total = 0 \<or> total \<le> v)" by auto
    with samp i hi lo show "\<exists>i < ?n. weighted_Sample weights v = (i, True) \<and>
        sum_list (map unat (take i weights)) \<le> unat v \<and>
        unat v < sum_list (map unat (take i weights)) + unat (weights ! i)"
      by (auto simp: take_Suc_conv_app_nth)
  next
    assume "sum_list (map unat weights) \<le> unat v"
    with tot have "total \<le> v" by (simp add: word_le_nat_alt)
    then show "weighted_Sample weights v = (0, False)" by (simp add: samp)
  qed
qed

section \<open>The weighted heap\<close>

text \<open>
  \<^verbatim>\<open>weightedHeap\<close> (weighted_heap_fixed.go). \<open>scale ws w\<close> is the weight \<open>w\<close> scaled by the
  floating-point factor \<^verbatim>\<open>MaxUint64 / sum\<close> of the weights \<open>ws\<close>, \<open>power c w\<close> the priority of an element with cumulative
  sum \<open>c\<close> and weight \<open>w > 0\<close>, \<open>infinity\<close> and \<open>zero_prio\<close> are \<^verbatim>\<open>math.Inf(1)\<close> and \<^verbatim>\<open>0\<close>.
\<close>

record 'p float_ops =
  scale :: "uint64 list \<Rightarrow> uint64 \<Rightarrow> uint64"
  power_prio :: "uint64 \<Rightarrow> uint64 \<Rightarrow> 'p"
  infinity :: 'p
  zero_prio :: 'p

record 'p weightedElement =
  initialIndex :: nat
  we_weight :: uint64
  we_cumulativeSum :: uint64
  drawIndex :: int
  priority :: 'p

record 'p weightedHeap =
  heap :: "'p weightedElement list"
  numWeights :: int

text \<open>Percolation down from \<open>index\<close> among the first \<open>n\<close> elements, and up.\<close>

definition min_child :: "nat \<Rightarrow> nat \<Rightarrow> ('p::linorder) weightedElement list \<Rightarrow> nat" where
  "min_child n index h =
     (let minChild = 2 * index + 1; rightChild = minChild + 1 in
      if rightChild < n \<and> priority (h ! rightChild) < priority (h ! minChild) then rightChild else minChild)"

definition heap_swap :: "nat \<Rightarrow> nat \<Rightarrow> 'p weightedElement list \<Rightarrow> 'p weightedElement list" where
  "heap_swap i j h =
     (let h = swap h i j; h = h[i := (h ! i)\<lparr>drawIndex := int i\<rparr>] in h[j := (h ! j)\<lparr>drawIndex := int j\<rparr>])"

lemma min_child_bounds: "index < min_child n index h" "2 * index + 1 < n \<Longrightarrow> min_child n index h < n"
  by (auto simp: min_child_def Let_def)

function percolate_down :: "nat \<Rightarrow> nat \<Rightarrow> ('p::linorder) weightedElement list \<Rightarrow> 'p weightedElement list" where
  "percolate_down n index h =
     (if 2 * index + 1 \<ge> n then h
      else
        let minChild = min_child n index h in
        if priority (h ! index) \<le> priority (h ! minChild) then h
        else percolate_down n minChild (heap_swap index minChild h))"
  by auto
termination
  by (relation "measure (\<lambda>(n, index, h). n - index)")
    (auto simp: not_le intro: diff_less_mono2 min_child_bounds(1))

declare percolate_down.simps [simp del]

function percolate_up :: "nat \<Rightarrow> ('p::linorder) weightedElement list \<Rightarrow> nat \<times> 'p weightedElement list" where
  "percolate_up index h =
     (if index = 0 then (index, h)
      else
        let parentIndex = (index - 1) div 2 in
        if priority (h ! index) \<ge> priority (h ! parentIndex) then (index, h)
        else percolate_up parentIndex (heap_swap index parentIndex h))"
  by auto
termination
  by (relation "measure fst") auto

declare percolate_up.simps [simp del]

definition rebalance :: "nat \<Rightarrow> ('p::linorder) weightedHeap \<Rightarrow> 'p weightedHeap" where
  "rebalance index s =
     (let (index, h) = percolate_up index (heap s) in s\<lparr>heap := percolate_down (nat (numWeights s)) index h\<rparr>)"

definition reset_elem :: "'p float_ops \<Rightarrow> nat \<Rightarrow> 'p weightedElement \<Rightarrow> 'p weightedElement" where
  "reset_elem F i e =
     (if drawIndex e < 0 then e\<lparr>priority := infinity F\<rparr>
      else e\<lparr>priority := (if we_weight e > 0 then power_prio F (we_cumulativeSum e) (we_weight e) else infinity F),
             drawIndex := int i\<rparr>)"

definition build_heap :: "nat \<Rightarrow> ('p::linorder) weightedElement list \<Rightarrow> 'p weightedElement list" where
  "build_heap n h = foldl (\<lambda>h i. percolate_down n i h) h (rev [0..<Suc ((n - 1) div 2)])"

definition heap_reset :: "('p::linorder) float_ops \<Rightarrow> 'p weightedHeap \<Rightarrow> 'p weightedHeap" where
  "heap_reset F s =
     (let n = length (heap s) in
      if n = 0 then s\<lparr>numWeights := 0\<rparr>
      else \<lparr>heap = build_heap n (map (\<lambda>(i, e). reset_elem F i e) (enumerate 0 (heap s))), numWeights = int n\<rparr>)"

fun init_elems :: "'p float_ops \<Rightarrow> nat \<Rightarrow> uint64 \<Rightarrow> uint64 list \<Rightarrow> 'p weightedElement list \<times> bool" where
  "init_elems F i cumSum [] = ([], True)"
| "init_elems F i cumSum (w # ws) =
     (let e = \<lparr>initialIndex = i, we_weight = w, we_cumulativeSum = cumSum, drawIndex = -1, priority = zero_prio F\<rparr>;
          z = \<lparr>initialIndex = 0, we_weight = 0, we_cumulativeSum = 0, drawIndex = 0, priority = zero_prio F\<rparr> in
      if cumSum + w < cumSum then (e # replicate (length ws) z, False)
      else let (es, ok) = init_elems F (Suc i) (cumSum + w) ws in (e # es, ok))"

definition heap_Initialize ::
  "('p::linorder) float_ops \<Rightarrow> uint64 list \<Rightarrow> 'p weightedHeap \<Rightarrow> 'p weightedHeap \<times> go_error option" where
  "heap_Initialize F weights s =
     (if weights = [] then (s\<lparr>numWeights := 0\<rparr>, Some errNoEligibleSamples)
      else
        let (es, ok) = init_elems F 0 0 (map (scale F weights) weights); s = \<lparr>heap = es, numWeights = int (length weights)\<rparr> in
        if \<not> ok then (s, Some errWeightOverflow) else (heap_reset F s, None))"

definition heap_Remove :: "int \<Rightarrow> 'p weightedHeap \<Rightarrow> 'p weightedHeap \<times> go_error option" where
  "heap_Remove index s =
     (if index < 0 \<or> index \<ge> numWeights s then (s, Some errIndexOutOfRange)
      else
        let d = drawIndex (heap s ! nat index) in
        if d < 0 then (s, Some errElementRemoved)
        else (s\<lparr>heap := (heap s)[nat d := (heap s ! nat d)\<lparr>drawIndex := -1\<rparr>]\<rparr>, None))"

definition heap_Update ::
  "int \<Rightarrow> uint64 \<Rightarrow> ('p::linorder) weightedHeap \<Rightarrow> (uint64 \<times> go_error option) \<times> 'p weightedHeap" where
  "heap_Update index weight s =
     (if index < 0 \<or> index \<ge> numWeights s then ((0, Some errIndexOutOfRange), s)
      else
        let elt = heap s ! nat index; d = drawIndex elt in
        if d < 0 then ((we_weight elt, Some errElementRemoved), s)
        else ((we_weight elt, None),
              rebalance (nat d) (s\<lparr>heap := (heap s)[nat d := (heap s ! nat d)\<lparr>we_weight := weight\<rparr>]\<rparr>)))"

definition heap_update :: "('p::linorder) weightedHeap \<Rightarrow> 'p weightedHeap go" where
  "heap_update s =
     (if heap s = [] then Panic ''index out of range''
      else
        let h = (heap s)[0 := (heap s ! 0)\<lparr>drawIndex := -1\<rparr>];
            h = swap h 0 (length h - 1);
            n = numWeights s - 1 in
        if n \<le> 0 then Ret \<lparr>heap = h, numWeights = n\<rparr>
        else Ret \<lparr>heap = percolate_down (nat n) 0 (take (nat n) h), numWeights = n\<rparr>)"

fun heap_sample_loop :: "nat \<Rightarrow> ('p::linorder) weightedHeap \<Rightarrow> (nat list \<times> 'p weightedHeap) go" where
  "heap_sample_loop 0 s = Ret ([], s)"
| "heap_sample_loop (Suc k) s =
     (case heap_update s of
        Ret s \<Rightarrow>
          (let index = initialIndex (heap s ! 0) in
           case heap_sample_loop k (fst (heap_Remove (int index) s)) of
             Ret (is, s) \<Rightarrow> Ret (index # is, s) | Panic m \<Rightarrow> Panic m | Block \<Rightarrow> Block)
      | Panic m \<Rightarrow> Panic m | Block \<Rightarrow> Block)"

definition heap_Sample ::
  "('p::linorder) float_ops \<Rightarrow> int \<Rightarrow> 'p weightedHeap \<Rightarrow> (nat list res \<times> 'p weightedHeap) go" where
  "heap_Sample F numSamples s =
     (if numSamples \<le> 0 then Ret (Inr [], s)
      else if numSamples > numWeights s
        then Ret (Inl (Err ''no more than %d elements can be sampled, requested %d''), s)
      else case heap_sample_loop (nat numSamples) s of
             Ret (is, s) \<Rightarrow> Ret (Inr is, heap_reset F s) | Panic m \<Rightarrow> Panic m | Block \<Rightarrow> Block)"

text \<open>
  After \<^verbatim>\<open>Initialize\<close> every element is marked removed and has the sentinel priority. \<open>flat m\<close>: the
  heap has \<open>m\<close> such elements, and all but the first are in their initial order.
\<close>

definition flat :: "'p float_ops \<Rightarrow> nat \<Rightarrow> nat \<Rightarrow> 'p weightedHeap \<Rightarrow> bool" where
  "flat F m x s \<longleftrightarrow> numWeights s = int m \<and> 0 < m \<and> map initialIndex (heap s) = x # [1..<m] \<and>
     (\<forall>e \<in> set (heap s). drawIndex e = -1 \<and> priority e = infinity F)"

lemma flat_length: "flat F m x s \<Longrightarrow> length (heap s) = m"
  unfolding flat_def by (metis Suc_pred length_Cons length_map length_upt One_nat_def)

lemma percolate_down_flat:
  assumes "\<forall>e \<in> set h. priority e = p" and "n \<le> length h"
  shows "percolate_down n i h = h"
proof (cases "2 * i + 1 < n")
  case True
  have "priority (h ! min_child n i h) = p" "priority (h ! i) = p"
    using assms True min_child_bounds(2) [OF True, of h] by auto
  then show ?thesis by (subst percolate_down.simps) (simp add: Let_def)
qed (simp add: percolate_down.simps)

lemma build_heap_flat:
  assumes "\<forall>e \<in> set h. priority e = p"
  shows "build_heap (length h) h = h"
proof -
  have "foldl (\<lambda>h i. percolate_down (length h0) i h) h0 is = h0"
    if "\<forall>e \<in> set h0. priority e = p" for "is" and h0 :: "'a weightedElement list"
    by (induction "is") (auto simp: percolate_down_flat [OF that])
  with assms show ?thesis by (simp add: build_heap_def del: upt_Suc)
qed

lemma init_elems_ok:
  "init_elems F i c ws = (es, True) \<Longrightarrow>
   map initialIndex es = [i..<i + length ws] \<and> (\<forall>e \<in> set es. drawIndex e = -1)"
proof (induction F i c ws arbitrary: es rule: init_elems.induct)
  case (2 F i c w ws)
  then obtain es' where "init_elems F (Suc i) (c + w) ws = (es', True)"
    and es: "es = \<lparr>initialIndex = i, we_weight = w, we_cumulativeSum = c, drawIndex = -1, priority = zero_prio F\<rparr> # es'"
    and "\<not> c + w < c"
    by (auto simp: Let_def split: if_splits prod.splits)
  with "2.IH" [OF refl refl, of es'] show ?case by (simp add: upt_conv_Cons del: upt_Suc)
qed simp

lemma flat_Initialize:
  assumes "heap_Initialize F ws s = (t, None)"
  shows "flat F (length ws) 0 t"
proof -
  from assms obtain es where ne: "ws \<noteq> []" and es: "init_elems F 0 0 (map (scale F ws) ws) = (es, True)"
    and t: "t = heap_reset F \<lparr>heap = es, numWeights = int (length ws)\<rparr>"
    by (auto simp: heap_Initialize_def Let_def split: if_splits prod.splits)
  from init_elems_ok [OF es] have ix: "map initialIndex es = [0..<length ws]" and d: "\<forall>e \<in> set es. drawIndex e = -1"
    by auto
  from ix have len: "length es = length ws" by (metis length_map length_upt diff_zero)
  define h where "h = map (\<lambda>e. e\<lparr>priority := infinity F\<rparr>) es"
  have h: "map (\<lambda>(i, e). reset_elem F i e) (enumerate 0 es) = h"
    using d by (auto simp: h_def reset_elem_def nth_enumerate_eq intro!: nth_equalityI)
  have p: "\<forall>e \<in> set h. priority e = infinity F" by (simp add: h_def)
  have "length es = length h" "h \<noteq> []" using ne len by (auto simp: h_def)
  with build_heap_flat [OF p] have "t = \<lparr>heap = h, numWeights = int (length ws)\<rparr>"
    unfolding t heap_reset_def Let_def by (simp add: h flip: len)
  moreover have "map initialIndex h = 0 # [1..<length ws]"
  proof -
    have "map initialIndex h = map initialIndex es" by (simp add: h_def)
    then show ?thesis using ix ne by (simp add: upt_conv_Cons)
  qed
  ultimately show ?thesis using ne d by (simp add: flat_def) (simp add: h_def)
qed

lemma heap_Remove_flat: "\<forall>e \<in> set (heap s). drawIndex e = -1 \<Longrightarrow> numWeights s \<le> int (length (heap s)) \<Longrightarrow>
    fst (heap_Remove i s) = s"
proof -
  assume d: "\<forall>e \<in> set (heap s). drawIndex e = -1" and n: "numWeights s \<le> int (length (heap s))"
  have "drawIndex (heap s ! nat i) = -1" if "0 \<le> i" "i < numWeights s"
    using d n that by (simp add: nat_less_iff)
  then show ?thesis by (auto simp: heap_Remove_def Let_def)
qed

lemma heap_update_flat:
  assumes f: "flat F m x s" and m: "2 \<le> m"
  shows "\<exists>t. heap_update s = Ret t \<and> flat F (m - 1) (m - 1) t"
proof -
  let ?h = "heap s"
  from f have ix: "map initialIndex ?h = x # [1..<m]" and n: "numWeights s = int m"
    and el: "\<forall>e \<in> set ?h. drawIndex e = -1 \<and> priority e = infinity F"
    by (auto simp: flat_def)
  have len: "length ?h = m" using f by (rule flat_length)
  have h0: "?h[0 := (?h ! 0)\<lparr>drawIndex := -1\<rparr>] = ?h"
  proof -
    have "drawIndex (?h ! 0) = -1" using el len m by simp
    then have "(?h ! 0)\<lparr>drawIndex := -1\<rparr> = ?h ! 0" by simp
    then show ?thesis by simp
  qed
  define g where "g = take (m - 1) (swap ?h 0 (m - 1))"
  have sub: "set g \<subseteq> set ?h"
    using set_take_subset [of "m - 1" "swap ?h 0 (m - 1)"] set_swap [of 0 ?h "m - 1"] len m by (auto simp: g_def)
  then have el': "\<forall>e \<in> set g. drawIndex e = -1 \<and> priority e = infinity F" using el by blast
  have lg: "length g = m - 1" using len by (simp add: g_def)
  have "heap_update s = Ret \<lparr>heap = percolate_down (m - 1) 0 g, numWeights = int (m - 1)\<rparr>"
    using len m by (auto simp: heap_update_def Let_def h0 n g_def nat_diff_distrib of_nat_diff)
  moreover have "percolate_down (m - 1) 0 g = g"
    using el' lg by (intro percolate_down_flat) auto
  moreover have "map initialIndex g = (m - 1) # [1..<m - 1]"
  proof (rule nth_equalityI)
    show "length (map initialIndex g) = length ((m - 1) # [1..<m - 1])" using m lg by simp
    fix j
    assume "j < length (map initialIndex g)"
    then have j: "j < m - 1" by (simp add: lg)
    have at: "initialIndex (?h ! k) = (x # [1..<m]) ! k" if "k < m" for k
      using ix that len by (metis nth_map)
    show "map initialIndex g ! j = ((m - 1) # [1..<m - 1]) ! j"
      using j m at [of j] at [of "m - 1"] len lg by (cases j) (auto simp: g_def nth_swap)
  qed
  ultimately show ?thesis using el' m by (auto simp: flat_def)
qed

lemma heap_update_last:
  assumes "flat F 1 x s"
  shows "heap_update s = Ret (s\<lparr>numWeights := 0\<rparr>)"
proof -
  from assms obtain e where e: "heap s = [e]" "drawIndex e = -1" "numWeights s = 1"
    by (auto simp: flat_def)
  then show ?thesis by (cases s) (simp add: heap_update_def Let_def swap_def)
qed

text \<open>The \<open>i\<close>-th index of a sample from \<open>m\<close> elements headed by the one with index \<open>x\<close>.\<close>

definition sampled_index :: "nat \<Rightarrow> nat \<Rightarrow> nat \<Rightarrow> nat" where
  "sampled_index m x i = (if 1 < m - i then m - i - 1 else if m = 1 then x else 1)"

lemma flat_head: "flat F m x s \<Longrightarrow> initialIndex (heap s ! 0) = x"
  by (auto simp: flat_def dest: map_eq_Cons_D)

lemma heap_sample_loop_flat:
  "flat F m x s \<Longrightarrow> k \<le> m \<Longrightarrow>
   \<exists>t. heap_sample_loop k s = Ret (map (sampled_index m x) [0..<k], t)"
proof (induction k arbitrary: m x s)
  case (Suc k)
  have shift: "map f [0..<Suc k] = f 0 # map (\<lambda>i. f (Suc i)) [0..<k]" for f :: "nat \<Rightarrow> nat"
    by (simp add: map_Suc_upt [symmetric] upt_conv_Cons comp_def del: upt_Suc map_Suc_upt)
  show ?case
  proof (cases "m = 1")
    case True
    with Suc.prems have k: "k = 0" and f: "flat F 1 x s" by auto
    have "initialIndex (heap s ! 0) = x" using f by (rule flat_head)
    with heap_update_last [OF f] True k show ?thesis by (simp add: Let_def sampled_index_def)
  next
    case False
    with Suc.prems have m: "2 \<le> m" by (auto simp: flat_def)
    from heap_update_flat [OF Suc.prems(1) m] obtain t where t: "heap_update s = Ret t"
      and ft: "flat F (m - 1) (m - 1) t" by blast
    have rem: "fst (heap_Remove i t) = t" for i
      using ft flat_length [OF ft] by (intro heap_Remove_flat) (auto simp: flat_def)
    have hd: "initialIndex (heap t ! 0) = m - 1" using ft by (rule flat_head)
    have "k \<le> m - 1" using Suc.prems(2) by simp
    from Suc.IH [OF ft this] obtain u
      where u: "heap_sample_loop k t = Ret (map (sampled_index (m - 1) (m - 1)) [0..<k], u)" by blast
    have "sampled_index m x 0 = m - 1" "sampled_index m x (Suc i) = sampled_index (m - 1) (m - 1) i" for i
      using m by (auto simp: sampled_index_def)
    then show ?thesis using t u rem hd by (simp add: Let_def shift del: upt_Suc)
  qed
qed simp

text \<open>
  \<^verbatim>\<open>weightedHeap\<close> does not sample by weight. \<^verbatim>\<open>Initialize\<close> marks every element as removed, so
  \<^verbatim>\<open>Update\<close> and \<^verbatim>\<open>Remove\<close> fail on every index, and \<^verbatim>\<open>Sample(k)\<close> returns the same indices for all
  weights: the last one first, descending to 1. A sample of all of two or more elements contains
  index 1 twice and index 0 never.
\<close>

theorem heap_Sample_ignores_weights:
  assumes init: "heap_Initialize F ws s = (t, None)" and k: "0 < k" "k \<le> length ws"
  shows "(\<exists>u. heap_Sample F (int k) t = Ret (Inr (map (sampled_index (length ws) 0) [0..<k]), u)) \<and>
    (\<forall>i < length ws. snd (heap_Remove (int i) t) = Some errElementRemoved \<and>
       snd (fst (heap_Update (int i) w t)) = Some errElementRemoved) \<and>
    (2 \<le> length ws \<longrightarrow> \<not> distinct (map (sampled_index (length ws) 0) [0..<length ws]) \<and>
       0 \<notin> set (map (sampled_index (length ws) 0) [0..<length ws]))"
proof (intro conjI allI impI)
  have f: "flat F (length ws) 0 t" using init by (rule flat_Initialize)
  then have n: "numWeights t = int (length ws)" and d: "\<forall>e \<in> set (heap t). drawIndex e = -1"
    and len: "length (heap t) = length ws"
    using flat_length [OF f] by (auto simp: flat_def)
  show "\<exists>u. heap_Sample F (int k) t = Ret (Inr (map (sampled_index (length ws) 0) [0..<k]), u)"
    using heap_sample_loop_flat [OF f k(2)] k n by (auto simp: heap_Sample_def)
  fix i
  assume i: "i < length ws"
  then have "drawIndex (heap t ! i) = -1" using d len by simp
  with i n show "snd (heap_Remove (int i) t) = Some errElementRemoved"
    and "snd (fst (heap_Update (int i) w t)) = Some errElementRemoved"
    by (simp_all add: heap_Remove_def heap_Update_def Let_def)
next
  let ?f = "sampled_index (length ws) 0"
  assume n: "2 \<le> length ws"
  have "?f (length ws - 2) = ?f (length ws - 1)" using n by (simp add: sampled_index_def)
  moreover have "length ws - 2 \<noteq> length ws - 1" "length ws - 2 < length ws" "length ws - 1 < length ws"
    using n by auto
  ultimately have "\<not> inj_on ?f {0..<length ws}" unfolding inj_on_def by force
  then show "\<not> distinct (map ?f [0..<length ws])" by (simp add: distinct_map)
  show "0 \<notin> set (map ?f [0..<length ws])" using n by (auto simp: sampled_index_def)
qed

definition unit_floats :: "nat float_ops" where
  "unit_floats = \<lparr>scale = (\<lambda>_ w. w), power_prio = (\<lambda>_ _. 0), infinity = 1, zero_prio = 0\<rparr>"

definition no_heap :: "'p weightedHeap" where
  "no_heap = \<lparr>heap = [], numWeights = 0\<rparr>"

theorem heap_Sample_ignores_weights_witness:
  "\<exists>u. heap_Sample unit_floats 3 (fst (heap_Initialize unit_floats [5, 7, 9] no_heap)) = Ret (Inr [2, 1, 1], u)"
proof -
  have "heap_Initialize unit_floats [5, 7, 9] no_heap = (fst (heap_Initialize unit_floats [5, 7, 9] no_heap), None)"
    by (simp add: heap_Initialize_def unit_floats_def Let_def)
  from conjunct1 [OF heap_Sample_ignores_weights [OF this, of 3]] show ?thesis
    by (simp add: sampled_index_def upt_rec numeral_2_eq_2)
qed

section \<open>weightedHeapSampler\<close>

record 'p weightedHeapSampler =
  s_heap :: "'p weightedHeap"
  totalWeight :: uint64
  s_numWeights :: nat
  s_weights :: "uint64 list"
  cumulativeSum :: "uint64 list"

definition whs_Initialize ::
  "('p::linorder) float_ops \<Rightarrow> uint64 list \<Rightarrow> 'p weightedHeapSampler \<Rightarrow> 'p weightedHeapSampler \<times> go_error option" where
  "whs_Initialize F weights s =
     (if weights = [] then (s\<lparr>s_numWeights := 0\<rparr>, Some errNoEligibleSamples)
      else
        let cs = cumulative 0 weights; (h, err) = heap_Initialize F weights no_heap in
        (\<lparr>s_heap = h, totalWeight = last cs, s_numWeights = length weights, s_weights = weights,
          cumulativeSum = cs\<rparr>, err))"

definition whs_Sample :: "'p weightedHeapSampler \<Rightarrow> uint64 \<Rightarrow> nat \<times> bool" where
  "whs_Sample s sampleValue =
     (if totalWeight s = 0 \<or> sampleValue \<ge> totalWeight s then (0, False)
      else
        let low = search (cumulativeSum s) sampleValue 0 (int (s_numWeights s) - 1) in
        if low = 0 then (0, True) else (nat low, True))"

lemma whs_Sample_eq:
  "weights \<noteq> [] \<Longrightarrow> whs_Sample (fst (whs_Initialize F weights s)) v = weighted_Sample weights v"
  by (simp add: whs_Sample_def whs_Initialize_def weighted_Sample_def Let_def split: prod.splits)

text \<open>
  When the weights do not overflow, \<^verbatim>\<open>weightedHeapSampler.Sample\<close> finds the element whose
  interval of the cumulative weights contains the sample value, so each element is hit by exactly
  as many sample values as its weight; a sample value that reaches the total weight is refused.
\<close>

theorem whs_Sample_correct:
  assumes "sum_list (map unat weights) < 2 ^ 64" and "weights \<noteq> []"
    and s: "s' = fst (whs_Initialize F weights s)"
  shows "(unat v < sum_list (map unat weights) \<longrightarrow>
      (\<exists>i < length weights. whs_Sample s' v = (i, True) \<and>
        sum_list (map unat (take i weights)) \<le> unat v \<and>
        unat v < sum_list (map unat (take i weights)) + unat (weights ! i))) \<and>
    (sum_list (map unat weights) \<le> unat v \<longrightarrow> whs_Sample s' v = (0, False))"
  unfolding s whs_Sample_eq [OF assms(2)] by (rule weighted_Sample_correct [OF assms(1)])

definition no_sampler :: "'p weightedHeapSampler" where
  "no_sampler = \<lparr>s_heap = no_heap, totalWeight = 0, s_numWeights = 0, s_weights = [], cumulativeSum = []\<rparr>"

theorem whs_Sample_correct_witness:
  "\<exists>i < 3. whs_Sample (fst (whs_Initialize unit_floats [2, 0, 3] no_sampler)) 4 = (i, True) \<and>
     sum_list (map unat (take i [2, 0, 3 :: uint64])) \<le> 4"
  using whs_Sample_correct [of "[2, 0, 3]" _ unit_floats no_sampler 4, OF _ _ refl] by auto

section \<open>Weighted samples without replacement\<close>

text \<open>
  \<^verbatim>\<open>weightedWithoutReplacementGeneric\<close>: \<open>g_range\<close> is the range of its uniform generator, and the
  \<^verbatim>\<open>Int63\<close> values of the draws are an argument. \<^term>\<open>None\<close>: the generator does not return.
\<close>

record 'p weightedWithoutReplacement =
  g_range :: uint64
  g_w :: "'p weightedHeapSampler"
  samplingWeight :: uint64
  g_weights :: "uint64 list"

definition wwr_Initialize ::
  "('p::linorder) float_ops \<Rightarrow> uint64 list \<Rightarrow> 'p weightedWithoutReplacement \<Rightarrow>
   'p weightedWithoutReplacement \<times> go_error option" where
  "wwr_Initialize F weights s =
     (let s = s\<lparr>g_weights := weights\<rparr>; (w, err) = whs_Initialize F weights (g_w s); s = s\<lparr>g_w := w\<rparr> in
      if err \<noteq> None then (s, err)
      else
        let s = s\<lparr>samplingWeight := sum_list weights\<rparr> in
        ((if samplingWeight s > 0 then s\<lparr>g_range := samplingWeight s\<rparr> else s), None))"

fun wwr_loop ::
  "('p::linorder) float_ops \<Rightarrow> uint64 list \<Rightarrow> uint64 list \<Rightarrow> 'p weightedWithoutReplacement \<Rightarrow>
   (nat list res \<times> 'p weightedWithoutReplacement) option" where
  "wwr_loop F [] tempWeights s = Some (Inr [], s)"
| "wwr_loop F (rand # rands) tempWeights s =
     (case generator_Next (g_range s) rand of
        None \<Rightarrow> None
      | Some (Inl err) \<Rightarrow> Some (Inl err, s)
      | Some (Inr weight) \<Rightarrow>
          (case whs_Sample (g_w s) weight of
             (index, False) \<Rightarrow> Some (Inl errNoValidUniformSamplers, s)
           | (index, True) \<Rightarrow>
               (case whs_Initialize F tempWeights (g_w s) of
                  (w, Some err) \<Rightarrow> Some (Inl err, s\<lparr>g_w := w\<rparr>)
                | (w, None) \<Rightarrow>
                    (let s = s\<lparr>g_w := w, samplingWeight := samplingWeight s - tempWeights ! index\<rparr>;
                         s = (if samplingWeight s > 0 then s\<lparr>g_range := samplingWeight s\<rparr> else s) in
                     case wwr_loop F rands (tempWeights[index := 0]) s of
                       None \<Rightarrow> None
                     | Some (Inl err, s) \<Rightarrow> Some (Inl err, s)
                     | Some (Inr is, s) \<Rightarrow> Some (Inr (index # is), s)))))"

text \<open>\<open>rands\<close>: the \<^verbatim>\<open>cnt\<close> values of \<^verbatim>\<open>Int63\<close>.\<close>

definition wwr_Sample ::
  "('p::linorder) float_ops \<Rightarrow> int \<Rightarrow> uint64 list \<Rightarrow> 'p weightedWithoutReplacement \<Rightarrow>
   (nat list res \<times> 'p weightedWithoutReplacement) option" where
  "wwr_Sample F cnt rands s =
     (if samplingWeight s = 0 \<or> cnt \<le> 0 then Some (Inr [], s)
      else if cnt > int (length (g_weights s))
        then Some (Inl (Err ''attempt to sample %d elements from a %d element list''), s)
      else wwr_loop F rands (g_weights s) s)"

definition no_wwr :: "'p weightedWithoutReplacement" where
  "no_wwr = \<lparr>g_range = 0, g_w = no_sampler, samplingWeight = 0, g_weights = []\<rparr>"

lemma wwr_loop_step:
  assumes "generator_Next (g_range s) r = Some (Inr v)" and "whs_Sample (g_w s) v = (ix, True)"
    and "snd (whs_Initialize F tw (g_w s)) = None"
  shows "wwr_loop F (r # rs) tw s =
    (let s = s\<lparr>g_w := fst (whs_Initialize F tw (g_w s)), samplingWeight := samplingWeight s - tw ! ix\<rparr>;
         s = (if samplingWeight s > 0 then s\<lparr>g_range := samplingWeight s\<rparr> else s) in
     case wwr_loop F rs (tw[ix := 0]) s of
       None \<Rightarrow> None | Some (Inl err, s) \<Rightarrow> Some (Inl err, s) | Some (Inr is, s) \<Rightarrow> Some (Inr (ix # is), s))"
  using assms by (cases "whs_Initialize F tw (g_w s)") simp

lemma wwr_first_inits:
  "fst (wwr_Initialize unit_floats [1, 1] no_wwr) =
     \<lparr>g_range = 2, g_w = fst (whs_Initialize unit_floats [1, 1] no_sampler), samplingWeight = 2, g_weights = [1, 1]\<rparr>"
  "fst (wwr_Initialize unit_floats [5] no_wwr) =
     \<lparr>g_range = 5, g_w = fst (whs_Initialize unit_floats [5] no_sampler), samplingWeight = 5, g_weights = [5]\<rparr>"
  by (simp_all add: wwr_Initialize_def no_wwr_def whs_Initialize_def Let_def heap_Initialize_def unit_floats_def)

lemma generator_zero: "r \<noteq> 0 \<Longrightarrow> r \<le> 2 ^ 63 \<Longrightarrow> generator_Next r 0 = Some (Inr 0)"
proof -
  assume r: "r \<noteq> 0" "r \<le> 2 ^ 63"
  have "unat (2 ^ 63 - 2 ^ 63 mod r :: uint64) \<noteq> 0"
  proof -
    have "2 ^ 63 mod unat r < unat r" "unat r \<le> 2 ^ 63"
      using r by (auto simp: word_le_nat_alt unat_gt_0)
    then show ?thesis unfolding unat_sampler_max by simp
  qed
  then have "0 < (2 ^ 63 - 2 ^ 63 mod r :: uint64)" by (simp only: word_less_nat_alt) simp
  from generator_first [OF r(1) this] show ?thesis by simp
qed

text \<open>
  \<^verbatim>\<open>weightedWithoutReplacementGeneric\<close> can draw an element twice, because it rebuilds its weighted
  sampler before it clears the weight of the element drawn: two elements of weight 1, sampled
  completely with the random values 0, give index 0 twice. The weight it samples from is not restored
  afterwards: a sampler that has drawn its only element returns nothing from then on.
\<close>

theorem wwr_Sample_repeats:
  "(\<exists>s. wwr_Sample unit_floats 2 [0, 0] (fst (wwr_Initialize unit_floats [1, 1] no_wwr)) = Some (Inr [0, 0], s)) \<and>
   (\<exists>s. wwr_Sample unit_floats 1 [0] (fst (wwr_Initialize unit_floats [5] no_wwr)) = Some (Inr [0], s) \<and>
      (\<forall>cnt rands. wwr_Sample unit_floats cnt rands s = Some (Inr [], s)))"
proof -
  have w: "whs_Sample (fst (whs_Initialize unit_floats [1, 1] s)) 0 = (0, True)"
    "whs_Sample (fst (whs_Initialize unit_floats [5] s)) 0 = (0, True)" for s
    by (simp_all add: whs_Sample_eq weighted_Sample_def search.simps Let_def)
  have i: "snd (whs_Initialize unit_floats ws s) = None" if "ws \<in> {[1, 1], [0, 1], [5]}" for ws s
    using that by (auto simp: whs_Initialize_def Let_def heap_Initialize_def unit_floats_def)
  show ?thesis
    unfolding wwr_Sample_def wwr_first_inits
    by (simp add: wwr_loop_step generator_zero w i Let_def del: wwr_loop.simps(2))
qed

end
