(* ===== verification/Block.thy ===== *)
theory Block
  imports Vertex
begin

text \<open>
  pkg/blockchain/transaction.go and block.go. A Go string is its sequence of bytes. A block and the
  mempool share transaction objects, so transactions live in a store: a \<^verbatim>\<open>*Transaction\<close> is an
  index into the list of all transactions allocated so far. \<^verbatim>\<open>sha256\<close> and the clock are
  arguments of the definitions that use them.
\<close>

section \<open>Encodings\<close>

text \<open>\<^verbatim>\<open>%d\<close> of an unsigned integer.\<close>

fun decimal :: "nat \<Rightarrow> bytes" where
  "decimal n = (if n < 10 then [of_nat (48 + n)] else decimal (n div 10) @ [of_nat (48 + n mod 10)])"

declare decimal.simps [simp del]

text \<open>\<^verbatim>\<open>binary.BigEndian.PutUint64\<close>.\<close>

definition be64 :: "uint64 \<Rightarrow> bytes" where
  "be64 w = map (\<lambda>i. ucast (drop_bit (56 - 8 * i) w)) [0..<8]"

definition dash :: byte where
  "dash = 0x2D"

section \<open>Transaction\<close>

record Transaction =
  T_ID :: ID
  Sender :: bytes
  Recipient :: bytes
  Amount :: uint64
  Nonce :: uint64
  Signature :: bytes
  t_status :: Status
  t_deps :: "nat list"
  t_bytes :: "bytes option"

type_synonym tx_store = "Transaction list"

definition ErrInvalidSenderOrRecipient :: go_error where
  "ErrInvalidSenderOrRecipient = Err ''invalid sender or recipient''"
definition ErrZeroAmount :: go_error where
  "ErrZeroAmount = Err ''amount must be greater than zero''"
definition ErrEmptyPrivateKey :: go_error where
  "ErrEmptyPrivateKey = Err ''private key cannot be empty''"

definition tx_generateBytes :: "Transaction \<Rightarrow> bytes" where
  "tx_generateBytes tx =
     Sender tx @ dash # Recipient tx @ dash # decimal (unat (Amount tx)) @ dash # decimal (unat (Nonce tx))"

text \<open>\<^verbatim>\<open>copy(tx.ID_[:], hasher.Sum(nil))\<close>: the digest has 32 bytes, the length of an ID.\<close>

definition NewTransaction :: "(bytes \<Rightarrow> ID) \<Rightarrow> bytes \<Rightarrow> bytes \<Rightarrow> uint64 \<Rightarrow> uint64 \<Rightarrow> Transaction" where
  "NewTransaction sha256 sender recipient amount nonce =
     (let tx = \<lparr>T_ID = replicate 32 0, Sender = sender, Recipient = recipient, Amount = amount,
                Nonce = nonce, Signature = [], t_status = Processing, t_deps = [], t_bytes = None\<rparr>;
          bytes = tx_generateBytes tx
      in tx\<lparr>t_bytes := Some bytes, T_ID := sha256 bytes\<rparr>)"

definition txn_Accept :: "Transaction \<Rightarrow> Transaction \<times> go_error option" where
  "txn_Accept tx = (tx\<lparr>t_status := Accepted\<rparr>, None)"

definition txn_Reject :: "Transaction \<Rightarrow> Transaction \<times> go_error option" where
  "txn_Reject tx = (tx\<lparr>t_status := Rejected\<rparr>, None)"

definition tx_Bytes :: "Transaction \<Rightarrow> bytes \<times> Transaction" where
  "tx_Bytes tx =
     (case t_bytes tx of
        Some bs \<Rightarrow> (bs, tx)
      | None \<Rightarrow> let bs = tx_generateBytes tx in (bs, tx\<lparr>t_bytes := Some bs\<rparr>))"

definition txn_Verify :: "Transaction \<Rightarrow> go_error option" where
  "txn_Verify tx =
     (if Sender tx = [] \<or> Recipient tx = [] then Some ErrInvalidSenderOrRecipient
      else if Amount tx = 0 then Some ErrZeroAmount
      else None)"

definition Dependencies :: "Transaction \<Rightarrow> nat list" where
  "Dependencies tx = t_deps tx"

definition InputIDs :: "tx_store \<Rightarrow> Transaction \<Rightarrow> ID list" where
  "InputIDs txs tx = map (\<lambda>d. T_ID (txs ! d)) (t_deps tx)"

definition SignTransaction :: "bytes \<Rightarrow> Transaction \<Rightarrow> Transaction \<times> go_error option" where
  "SignTransaction privateKey tx =
     (if privateKey = [] then (tx, Some ErrEmptyPrivateKey) else (tx\<lparr>Signature := privateKey\<rparr>, None))"

definition VerifySignature :: "bytes \<Rightarrow> Transaction \<Rightarrow> bool" where
  "VerifySignature publicKey tx \<longleftrightarrow> length (Signature tx) > 0"

definition AddDependency :: "nat \<Rightarrow> Transaction \<Rightarrow> Transaction" where
  "AddDependency dep tx = tx\<lparr>t_deps := t_deps tx @ [dep]\<rparr>"

interpretation txd: decidable T_ID txn_Accept txn_Reject t_status
  by unfold_locales (simp_all add: txn_Accept_def txn_Reject_def)

section \<open>Block\<close>

record Block =
  B_ID :: ID
  ParentIDs :: "ID list"
  B_Height :: uint64
  Timestamp :: "64 word"
  Transactions :: "nat list"
  b_status :: Status
  b_bytes :: bytes

definition block_generateBytes :: "Block \<Rightarrow> bytes" where
  "block_generateBytes b =
     be64 (B_Height b) @ be64 (of_nat (length (ParentIDs b))) @ concat (ParentIDs b) @
     be64 (of_nat (length (Transactions b)))"

definition NewBlock :: "(bytes \<Rightarrow> ID) \<Rightarrow> 64 word \<Rightarrow> ID list \<Rightarrow> nat list \<Rightarrow> uint64 \<Rightarrow> Block" where
  "NewBlock sha256 now parentIDs transactions height =
     (let b = \<lparr>B_ID = replicate 32 0, ParentIDs = parentIDs, B_Height = height, Timestamp = now,
               Transactions = transactions, b_status = Processing, b_bytes = []\<rparr>;
          bytes = block_generateBytes b
      in b\<lparr>b_bytes := bytes, B_ID := sha256 bytes\<rparr>)"

text \<open>The loops over the transactions of a block; a failing call ends them.\<close>

fun each_tx ::
  "(Transaction \<Rightarrow> Transaction \<times> go_error option) \<Rightarrow> nat list \<Rightarrow> tx_store \<Rightarrow> tx_store \<times> go_error option" where
  "each_tx f [] txs = (txs, None)"
| "each_tx f (a # as) txs =
     (case f (txs ! a) of
        (tx, None) \<Rightarrow> each_tx f as (txs[a := tx])
      | (tx, Some err) \<Rightarrow> (txs[a := tx], Some err))"

definition block_Accept :: "tx_store \<times> Block \<Rightarrow> (tx_store \<times> Block) \<times> go_error option" where
  "block_Accept = (\<lambda>(txs, b).
     let b = b\<lparr>b_status := Accepted\<rparr>; (txs, err) = each_tx txn_Accept (Transactions b) txs in ((txs, b), err))"

definition block_Reject :: "tx_store \<times> Block \<Rightarrow> (tx_store \<times> Block) \<times> go_error option" where
  "block_Reject = (\<lambda>(txs, b).
     let b = b\<lparr>b_status := Rejected\<rparr>; (txs, err) = each_tx txn_Reject (Transactions b) txs in ((txs, b), err))"

fun verify_all :: "tx_store \<Rightarrow> nat list \<Rightarrow> go_error option" where
  "verify_all txs [] = None"
| "verify_all txs (a # as) =
     (case txn_Verify (txs ! a) of
        Some err \<Rightarrow> Some (Wrap ''invalid transaction'' err)
      | None \<Rightarrow> verify_all txs as)"

definition block_Verify :: "tx_store \<Rightarrow> Block \<Rightarrow> go_error option" where
  "block_Verify txs b = verify_all txs (Transactions b)"

definition block_Parents :: "Block \<Rightarrow> Block list res" where
  "block_Parents b = Inr []"

definition block_Txs :: "Block \<Rightarrow> nat list res" where
  "block_Txs b = Inr (Transactions b)"

definition block_Height :: "Block \<Rightarrow> uint64 res" where
  "block_Height b = Inr (B_Height b)"

definition block_Priority :: "Block \<Rightarrow> uint64" where
  "block_Priority b = B_Height b"

interpretation blkd: decidable "B_ID \<circ> snd" block_Accept block_Reject "b_status \<circ> snd"
  by unfold_locales (auto simp: block_Accept_def block_Reject_def Let_def split: prod.splits)

section \<open>Loops over a block's transactions\<close>

lemma each_Accept:
  "each_tx txn_Accept as txs = (foldl (\<lambda>txs a. txs[a := (txs ! a)\<lparr>t_status := Accepted\<rparr>]) txs as, None)"
  by (induction as arbitrary: txs) (auto simp: txn_Accept_def)

lemma each_Reject:
  "each_tx txn_Reject as txs = (foldl (\<lambda>txs a. txs[a := (txs ! a)\<lparr>t_status := Rejected\<rparr>]) txs as, None)"
  by (induction as arbitrary: txs) (auto simp: txn_Reject_def)

definition set_statuses :: "Status \<Rightarrow> nat list \<Rightarrow> tx_store \<Rightarrow> tx_store" where
  "set_statuses st as txs = foldl (\<lambda>txs a. txs[a := (txs ! a)\<lparr>t_status := st\<rparr>]) txs as"

lemma length_set_statuses [simp]: "length (set_statuses st as txs) = length txs"
  by (induction as arbitrary: txs) (auto simp: set_statuses_def)

lemma nth_set_statuses:
  "i < length txs \<Longrightarrow> set_statuses st as txs ! i = (if i \<in> set as then (txs ! i)\<lparr>t_status := st\<rparr> else txs ! i)"
proof (induction as arbitrary: txs)
  case (Cons a as)
  have "set_statuses st (a # as) txs = set_statuses st as (txs[a := (txs ! a)\<lparr>t_status := st\<rparr>])"
    by (simp add: set_statuses_def)
  with Cons show ?case by (cases "i = a") auto
qed (simp add: set_statuses_def)

lemma block_Accept_eq:
  "block_Accept (txs, b) = ((set_statuses Accepted (Transactions b) txs, b\<lparr>b_status := Accepted\<rparr>), None)"
  by (simp add: block_Accept_def Let_def each_Accept set_statuses_def)

lemma block_Reject_eq:
  "block_Reject (txs, b) = ((set_statuses Rejected (Transactions b) txs, b\<lparr>b_status := Rejected\<rparr>), None)"
  by (simp add: block_Reject_def Let_def each_Reject set_statuses_def)

lemma verify_txs_None: "verify_all txs as = None \<longleftrightarrow> (\<forall>a \<in> set as. txn_Verify (txs ! a) = None)"
  by (induction as) (auto split: option.splits)

section \<open>Encodings determine what they encode\<close>

lemma length_be64 [simp]: "length (be64 w) = 8"
  by (simp add: be64_def)

lemma be64_inject [simp]: "be64 v = be64 w \<longleftrightarrow> v = w"
proof
  assume eq: "be64 v = be64 w"
  show "v = w"
  proof (rule bit_word_eqI)
    fix n
    assume "n < LENGTH(64)"
    then have n: "n < 64" by simp
    let ?i = "7 - n div 8"
    have i: "?i < 8" by simp
    from eq have "be64 v ! ?i = be64 w ! ?i" by simp
    then have "(ucast (drop_bit (56 - 8 * ?i) v) :: byte) = ucast (drop_bit (56 - 8 * ?i) w)"
      using i by (simp add: be64_def)
    then have "bit (ucast (drop_bit (56 - 8 * ?i) v) :: byte) (n mod 8) =
        bit (ucast (drop_bit (56 - 8 * ?i) w) :: byte) (n mod 8)" by simp
    moreover have "56 - 8 * ?i + n mod 8 = n" using n by presburger
    ultimately show "bit v n = bit w n" by (simp add: bit_ucast_iff bit_drop_bit_eq)
  qed
qed simp

lemma decimal_digits: "b \<in> set (decimal n) \<Longrightarrow> b \<noteq> dash"
proof (induction n rule: decimal.induct)
  case (1 n)
  have d: "(of_nat (48 + d) :: byte) \<noteq> dash" if "d < 10" for d
  proof -
    have "unat (of_nat (48 + d) :: byte) = 48 + d" using that by (simp add: unat_of_nat del: of_nat_add)
    then have "unat (of_nat (48 + d) :: byte) \<noteq> unat dash" by (simp add: dash_def del: of_nat_add)
    then show ?thesis by metis
  qed
  show ?case
    using 1 d [of n] d [of "n mod 10"] by (subst (asm) (2) decimal.simps) (auto split: if_splits)
qed

lemma decimal_nonempty [simp]: "decimal n \<noteq> []"
  by (subst decimal.simps) simp

lemma digit_inject: "d < 10 \<Longrightarrow> e < 10 \<Longrightarrow> (of_nat (48 + d) :: byte) = of_nat (48 + e) \<Longrightarrow> d = e"
proof -
  assume de: "d < 10" "e < 10" and "(of_nat (48 + d) :: byte) = of_nat (48 + e)"
  then have "unat (of_nat (48 + d) :: byte) = unat (of_nat (48 + e) :: byte)" by simp
  with de show "d = e" by (simp add: unat_of_nat del: of_nat_add)
qed

lemma decimal_inject [simp]: "decimal m = decimal n \<longleftrightarrow> m = n"
proof
  show "decimal m = decimal n \<Longrightarrow> m = n"
  proof (induction m arbitrary: n rule: decimal.induct)
    case (1 m)
    show ?case
    proof (cases "m < 10 \<longleftrightarrow> n < 10")
      case True
      show ?thesis
      proof (cases "m < 10")
        case small: True
        with True "1.prems" show ?thesis
          by (subst (asm) (1 2) decimal.simps) (auto dest: digit_inject simp del: of_nat_add)
      next
        case big: False
        with True "1.prems" have eq: "decimal (m div 10) = decimal (n div 10)"
          "(of_nat (48 + m mod 10) :: byte) = of_nat (48 + n mod 10)"
          by (subst (asm) (1 2) decimal.simps; simp del: of_nat_add)+
        from "1.IH" [OF big eq(1)] digit_inject [OF _ _ eq(2)] have "m div 10 = n div 10" "m mod 10 = n mod 10"
          by simp_all
        then show ?thesis by (metis div_mult_mod_eq)
      qed
    next
      case False
      then have "length (decimal m) \<noteq> length (decimal n)"
        by (subst (1 2) decimal.simps) (auto simp: Suc_le_eq)
      with "1.prems" show ?thesis by simp
    qed
  qed
qed simp

lemma append_sep_inject:
  assumes "sep \<notin> set xs" and "sep \<notin> set xs'" and "xs @ sep # ys = xs' @ sep # ys'"
  shows "xs = xs' \<and> ys = ys'"
  using assms
proof (induction xs arbitrary: xs')
  case Nil
  then show ?case by (cases xs') auto
next
  case (Cons x xs)
  then show ?case by (cases xs') auto
qed

text \<open>
  The bytes a transaction's ID is computed from determine sender, recipient, amount and nonce
  as long as sender and recipient contain no dash; with dashes they do not: the sender \<open>a-b\<close> with
  recipient \<open>c\<close> and the sender \<open>a\<close> with recipient \<open>b-c\<close> give transactions with the same bytes and
  the same ID, whatever the hash function.
\<close>

theorem tx_bytes_identify:
  "(dash \<notin> set (Sender t) \<and> dash \<notin> set (Sender u) \<and> dash \<notin> set (Recipient t) \<and> dash \<notin> set (Recipient u) \<longrightarrow>
     (tx_generateBytes t = tx_generateBytes u \<longleftrightarrow>
        Sender t = Sender u \<and> Recipient t = Recipient u \<and> Amount t = Amount u \<and> Nonce t = Nonce u)) \<and>
   T_ID (NewTransaction sha256 (a @ dash # b) c m n) = T_ID (NewTransaction sha256 a (b @ dash # c) m n)"
proof
  show "T_ID (NewTransaction sha256 (a @ dash # b) c m n) = T_ID (NewTransaction sha256 a (b @ dash # c) m n)"
    by (simp add: NewTransaction_def Let_def tx_generateBytes_def)
  show "dash \<notin> set (Sender t) \<and> dash \<notin> set (Sender u) \<and> dash \<notin> set (Recipient t) \<and> dash \<notin> set (Recipient u) \<longrightarrow>
     (tx_generateBytes t = tx_generateBytes u \<longleftrightarrow>
        Sender t = Sender u \<and> Recipient t = Recipient u \<and> Amount t = Amount u \<and> Nonce t = Nonce u)"
  proof (intro impI iffI)
    assume no: "dash \<notin> set (Sender t) \<and> dash \<notin> set (Sender u) \<and> dash \<notin> set (Recipient t) \<and> dash \<notin> set (Recipient u)"
      and eq: "tx_generateBytes t = tx_generateBytes u"
    from append_sep_inject [OF _ _ eq [unfolded tx_generateBytes_def]] no
    have s: "Sender t = Sender u" and eq2: "Recipient t @ dash # decimal (unat (Amount t)) @ dash # decimal (unat (Nonce t)) =
        Recipient u @ dash # decimal (unat (Amount u)) @ dash # decimal (unat (Nonce u))" by auto
    from append_sep_inject [OF _ _ eq2] no
    have r: "Recipient t = Recipient u" and eq3: "decimal (unat (Amount t)) @ dash # decimal (unat (Nonce t)) =
        decimal (unat (Amount u)) @ dash # decimal (unat (Nonce u))" by auto
    from append_sep_inject [OF _ _ eq3] decimal_digits
    have "unat (Amount t) = unat (Amount u)" "unat (Nonce t) = unat (Nonce u)" by auto
    with s r show "Sender t = Sender u \<and> Recipient t = Recipient u \<and> Amount t = Amount u \<and> Nonce t = Nonce u"
      by (simp add: word_unat_eq_iff)
  qed (simp add: tx_generateBytes_def)
qed

theorem tx_bytes_identify_witness:
  "tx_generateBytes (NewTransaction (\<lambda>_. []) [1] [2] 3 4) \<noteq> tx_generateBytes (NewTransaction (\<lambda>_. []) [1] [2] 3 5)"
  using tx_bytes_identify [of "NewTransaction (\<lambda>_. []) [1] [2] 3 4" "NewTransaction (\<lambda>_. []) [1] [2] 3 5"]
  by (simp add: NewTransaction_def Let_def dash_def)

lemma concat_inject:
  "\<forall>x \<in> set xs. length x = k \<Longrightarrow> \<forall>y \<in> set ys. length y = k \<Longrightarrow> length xs = length ys \<Longrightarrow>
   concat xs @ us = concat ys @ vs \<Longrightarrow> xs = ys \<and> us = vs"
  by (induction xs ys rule: list_induct2') auto

lemma of_nat_inject_64: "m < 2 ^ 64 \<Longrightarrow> n < 2 ^ 64 \<Longrightarrow> (of_nat m :: uint64) = of_nat n \<longleftrightarrow> m = n"
  by (auto simp: word_unat_eq_iff unat_of_nat)

text \<open>
  A block's bytes, and with a collision-free hash its ID, determine its height, its parents and
  the number of its transactions, and nothing else: two blocks that differ only in which transactions
  they contain or when they were made have the same bytes and the same ID.
\<close>

theorem block_bytes_identify:
  assumes ids: "\<forall>p \<in> set (ParentIDs b) \<union> set (ParentIDs c). wf_ID p"
    and parents: "length (ParentIDs b) < 2 ^ 64" "length (ParentIDs c) < 2 ^ 64"
    and txs: "length (Transactions b) < 2 ^ 64" "length (Transactions c) < 2 ^ 64"
  shows "(block_generateBytes b = block_generateBytes c \<longleftrightarrow>
      B_Height b = B_Height c \<and> ParentIDs b = ParentIDs c \<and> length (Transactions b) = length (Transactions c)) \<and>
    (length as = length as' \<longrightarrow> B_ID (NewBlock sha256 now ps as h) = B_ID (NewBlock sha256 now' ps as' h))"
proof (intro conjI iffI impI)
  assume eq: "block_generateBytes b = block_generateBytes c"
  then have h: "B_Height b = B_Height c" and n: "length (ParentIDs b) = length (ParentIDs c)"
    and rest: "concat (ParentIDs b) @ be64 (of_nat (length (Transactions b))) =
      concat (ParentIDs c) @ be64 (of_nat (length (Transactions c)))"
    using of_nat_inject_64 [OF parents] by (auto simp: block_generateBytes_def)
  from concat_inject [OF _ _ n rest, of 32] ids have "ParentIDs b = ParentIDs c"
    "be64 (of_nat (length (Transactions b))) = be64 (of_nat (length (Transactions c)))"
    by (auto simp: wf_ID_def IDLen_def)
  with h show "B_Height b = B_Height c" "ParentIDs b = ParentIDs c" "length (Transactions b) = length (Transactions c)"
    using of_nat_inject_64 [OF txs] by simp_all
qed (simp_all add: block_generateBytes_def NewBlock_def Let_def)

theorem block_bytes_identify_witness:
  "block_generateBytes (NewBlock (\<lambda>_. []) 0 [replicate 32 1] [0, 1] 7) =
     block_generateBytes (NewBlock (\<lambda>_. []) 5 [replicate 32 1] [2, 3] 7)"
  using block_bytes_identify [of "NewBlock (\<lambda>_. []) 0 [replicate 32 1] [0, 1] 7" "NewBlock (\<lambda>_. []) 5 [replicate 32 1] [2, 3] 7"]
  by (simp add: NewBlock_def Let_def wf_ID_def IDLen_def)

end
