(* ===== verification/Blockchain.thy ===== *)
theory Blockchain
  imports Block Sync
begin

text \<open>
  pkg/blockchain/blockchain.go. The maps hold pointers, so their values are addresses in the
  stores of transactions and blocks. Every exported method holds the blockchain's lock for its whole
  body, except \<^verbatim>\<open>ProcessPendingBlocks\<close>, which releases it while the workers verify and accept the
  blocks it has snapshotted; the transition system \<open>chain_reach\<close> interleaves its parts with the other
  methods.
\<close>

section \<open>Model\<close>

record blockchain =
  genesisBlock :: nat
  txPool :: "ID \<rightharpoonup> nat"
  blocks :: "ID \<rightharpoonup> nat"
  acceptedBlocks :: "ID \<rightharpoonup> nat"
  pendingBlocks :: "ID \<rightharpoonup> nat"
  latestBlocks :: "ID \<rightharpoonup> nat"
  blocksByHeight :: "uint64 \<rightharpoonup> nat list"
  currentHeight :: uint64
  bc_maxWorkers :: int
  txs :: tx_store
  blks :: "Block list"

definition createGenesisBlock :: "(bytes \<Rightarrow> ID) \<Rightarrow> 64 word \<Rightarrow> Block" where
  "createGenesisBlock sha256 now = snd (fst (block_Accept ([], NewBlock sha256 now [] [] 0)))"

definition NewBlockchain :: "(bytes \<Rightarrow> ID) \<Rightarrow> 64 word \<Rightarrow> int \<Rightarrow> blockchain" where
  "NewBlockchain sha256 now n =
     (let genesis = createGenesisBlock sha256 now in
      \<lparr>genesisBlock = 0, txPool = Map.empty, blocks = [B_ID genesis \<mapsto> 0],
       acceptedBlocks = [B_ID genesis \<mapsto> 0], pendingBlocks = Map.empty,
       latestBlocks = [B_ID genesis \<mapsto> 0], blocksByHeight = [0 \<mapsto> [0]], currentHeight = 0,
       bc_maxWorkers = (if n \<le> 0 then 4 else n), txs = [], blks = [genesis]\<rparr>)"

definition AddTransaction :: "nat \<Rightarrow> blockchain \<Rightarrow> blockchain \<times> go_error option" where
  "AddTransaction tx bc =
     (case txn_Verify (txs bc ! tx) of
        Some err \<Rightarrow> (bc, Some (Wrap ''invalid transaction'' err))
      | None \<Rightarrow>
          (let txID = T_ID (txs bc ! tx) in
           if txPool bc txID \<noteq> None then (bc, Some (Err ''transaction already in pool''))
           else (bc\<lparr>txPool := (txPool bc)(txID \<mapsto> tx)\<rparr>, None)))"

subsection \<open>CreateBlock\<close>

definition block_height :: "uint64 \<Rightarrow> uint64 list \<Rightarrow> uint64" where
  "block_height cur hs = foldl (\<lambda>height h. if h \<ge> cur then h + 1 else height) (cur + 1) hs"

text \<open>
  The selection loop: \<open>ks\<close> is the order of the range over the pool; the entry visited is deleted, and
  the test against \<^verbatim>\<open>maxTxs\<close> comes after the append.
\<close>

fun select_txs :: "tx_store \<Rightarrow> int \<Rightarrow> int \<Rightarrow> ID list \<Rightarrow> (ID \<rightharpoonup> nat) \<Rightarrow> nat list \<times> (ID \<rightharpoonup> nat)" where
  "select_txs ts maxTxs cnt [] pool = ([], pool)"
| "select_txs ts maxTxs cnt (k # ks) pool =
     (case pool k of
        None \<Rightarrow> select_txs ts maxTxs cnt ks pool
      | Some tx \<Rightarrow>
          (let pool = pool(T_ID (ts ! tx) := None) in
           if cnt + 1 \<ge> maxTxs then ([tx], pool)
           else let (as, pool) = select_txs ts maxTxs (cnt + 1) ks pool in (tx # as, pool)))"

text \<open>
  The slice for the selected transactions is made with capacity \<^verbatim>\<open>maxTxs\<close>, which panics for a negative one; the
  memory limit, beyond which a huge capacity panics too, is left out.
\<close>

definition CreateBlock ::
  "(bytes \<Rightarrow> ID) \<Rightarrow> 64 word \<Rightarrow> ID list \<Rightarrow> ID list \<Rightarrow> int \<Rightarrow> blockchain \<Rightarrow> (nat res \<times> blockchain) go" where
  "CreateBlock sha256 now ks parentIDs maxTxs bc =
     (if \<exists>p \<in> set parentIDs. blocks bc p = None then Ret (Inl (Err ''parent block not found''), bc)
      else if maxTxs < 0 then Panic ''makeslice: cap out of range''
      else
        let height = block_height (currentHeight bc) (map (\<lambda>p. B_Height (blks bc ! the (blocks bc p))) parentIDs);
            (selectedTxs, pool) = select_txs (txs bc) maxTxs 0 ks (txPool bc);
            block = NewBlock sha256 now parentIDs selectedTxs height;
            a = length (blks bc);
            byHeight = (case blocksByHeight bc height of None \<Rightarrow> [] | Some bs \<Rightarrow> bs)
        in Ret (Inr a, bc\<lparr>blks := blks bc @ [block], txPool := pool,
             blocks := (blocks bc)(B_ID block \<mapsto> a),
             pendingBlocks := (pendingBlocks bc)(B_ID block \<mapsto> a),
             blocksByHeight := (blocksByHeight bc)(height \<mapsto> byHeight @ [a])\<rparr>))"

subsection \<open>SubmitBlock\<close>

definition SubmitBlock :: "nat \<Rightarrow> blockchain \<Rightarrow> blockchain" where
  "SubmitBlock a bc =
     (let block = blks bc ! a; i = B_ID block;
          bc = (if blocks bc i = None
                then bc\<lparr>blocks := (blocks bc)(i \<mapsto> a), pendingBlocks := (pendingBlocks bc)(i \<mapsto> a)\<rparr>
                else bc);
          bc = bc\<lparr>latestBlocks := ((latestBlocks bc) |` (- set (ParentIDs block)))(i \<mapsto> a)\<rparr>
      in if B_Height block > currentHeight bc then bc\<lparr>currentHeight := B_Height block\<rparr> else bc)"

subsection \<open>ProcessPendingBlocks\<close>

text \<open>
  A worker: verify the block and, when that succeeds, accept it. The workers hold no lock between the snapshot and the
  commit of the results; a worker's verification and acceptance are modelled as one step. Verification reads
  nothing that acceptance writes (the statuses), and acceptances write the same value, so splitting the step would give no
  further outcome.
\<close>

definition verify_accept ::
  "tx_store \<times> Block list \<Rightarrow> nat \<Rightarrow> (tx_store \<times> Block list) \<times> (ID \<times> go_error option)" where
  "verify_accept s a =
     (let (ts, bs) = s; b = bs ! a in
      case block_Verify ts b of
        Some err \<Rightarrow> (s, (B_ID b, Some err))
      | None \<Rightarrow> (case block_Accept (ts, b) of ((ts', b'), err) \<Rightarrow> ((ts', bs[a := b']), (B_ID b, err))))"

definition commit_result :: "ID \<times> go_error option \<Rightarrow> blockchain \<Rightarrow> blockchain go" where
  "commit_result res bc =
     (case res of
        (i, Some _) \<Rightarrow> Ret bc
      | (i, None) \<Rightarrow>
          (case blocks bc i of
             None \<Rightarrow> Panic ''nil pointer dereference''
           | Some a \<Rightarrow> Ret (bc\<lparr>acceptedBlocks := (acceptedBlocks bc)(i \<mapsto> a),
                               pendingBlocks := (pendingBlocks bc)(i := None)\<rparr>)))"

fun commit_results :: "(ID \<times> go_error option) list \<Rightarrow> blockchain \<Rightarrow> blockchain go" where
  "commit_results [] bc = Ret bc"
| "commit_results (r # rs) bc =
     (case commit_result r bc of Ret bc' \<Rightarrow> commit_results rs bc' | Panic m \<Rightarrow> Panic m | Block \<Rightarrow> Block)"

definition snapshot :: "ID list \<Rightarrow> blockchain \<Rightarrow> nat list" where
  "snapshot ks bc = map (\<lambda>k. the (pendingBlocks bc k)) ks"

text \<open>
  A call without interference: \<open>ks\<close> is the order of the range over the pending blocks, \<open>pending_state\<close> holds of the states its
  workers go through.
\<close>

definition pending_state ::
  "ID list \<Rightarrow> blockchain \<Rightarrow> (tx_store \<times> Block list, nat, ID \<times> go_error option) loop \<Rightarrow> bool" where
  "pending_state ks bc l \<longleftrightarrow>
     loop_reach (nat (bc_maxWorkers bc)) verify_accept (snapshot ks bc) (txs bc, blks bc) l"

definition ProcessPendingBlocks :: "ID list \<Rightarrow> blockchain \<Rightarrow> blockchain go \<Rightarrow> bool" where
  "ProcessPendingBlocks ks bc out \<longleftrightarrow>
     (\<exists>l. pending_state ks bc l \<and> loop_done l \<and>
        out = commit_results (sent l) (bc\<lparr>txs := fst (shared l), blks := snd (shared l)\<rparr>))"

subsection \<open>Queries\<close>

definition GetBlock :: "ID \<Rightarrow> blockchain \<Rightarrow> nat res" where
  "GetBlock i bc = (case blocks bc i of None \<Rightarrow> Inl (Err ''block not found'') | Some a \<Rightarrow> Inr a)"

definition GetTransaction :: "ID list \<Rightarrow> ID \<Rightarrow> blockchain \<Rightarrow> nat res" where
  "GetTransaction ks i bc =
     (case txPool bc i of
        Some tx \<Rightarrow> Inr tx
      | None \<Rightarrow>
          (case find (\<lambda>tx. T_ID (txs bc ! tx) = i)
                  (concat (map (\<lambda>k. Transactions (blks bc ! the (blocks bc k))) ks)) of
             Some tx \<Rightarrow> Inr tx
           | None \<Rightarrow> Inl (Err ''transaction not found'')))"

definition GetBlockchainHeight :: "blockchain \<Rightarrow> uint64" where
  "GetBlockchainHeight bc = currentHeight bc"

definition GetBlocksByHeight :: "uint64 \<Rightarrow> blockchain \<Rightarrow> nat list" where
  "GetBlocksByHeight h bc = (case blocksByHeight bc h of None \<Rightarrow> [] | Some bs \<Rightarrow> bs)"

definition GetLatestBlocks :: "ID list \<Rightarrow> blockchain \<Rightarrow> nat list" where
  "GetLatestBlocks ks bc = map (\<lambda>k. the (latestBlocks bc k)) ks"

section \<open>Invariant\<close>

text \<open>
  Maps are keyed by the IDs of what they point to; a block is accepted or pending; pointers are
  valid.
\<close>

definition keyed :: "('o \<Rightarrow> ID) \<Rightarrow> 'o list \<Rightarrow> (ID \<rightharpoonup> nat) \<Rightarrow> bool" where
  "keyed key os m \<longleftrightarrow> (\<forall>k a. m k = Some a \<longrightarrow> a < length os \<and> key (os ! a) = k)"

definition covers :: "(ID \<rightharpoonup> nat) \<Rightarrow> (ID \<rightharpoonup> nat) \<Rightarrow> (ID \<rightharpoonup> nat) \<Rightarrow> bool" where
  "covers acc pend all \<longleftrightarrow> dom all = dom acc \<union> dom pend"

definition within :: "(ID \<rightharpoonup> nat) \<Rightarrow> (ID \<rightharpoonup> nat) \<Rightarrow> bool" where
  "within m all \<longleftrightarrow> dom m \<subseteq> dom all"

lemma covers_new: "covers acc pend all \<Longrightarrow> covers acc (pend(k \<mapsto> a)) (all(k \<mapsto> b))"
  by (auto simp: covers_def)

lemma covers_commit: "covers acc pend all \<Longrightarrow> k \<in> dom all \<Longrightarrow> covers (acc(k \<mapsto> a)) (pend(k := None)) all"
  by (auto simp: covers_def)

lemma within_new: "within m all \<Longrightarrow> within m (all(k \<mapsto> a))"
  by (auto simp: within_def)

lemma within_upd: "within m all \<Longrightarrow> k \<in> dom all \<Longrightarrow> within ((m |` S)(k \<mapsto> a)) all"
  by (simp add: within_def) blast

lemma map_le_new: "m \<subseteq>\<^sub>m all \<Longrightarrow> m(k \<mapsto> a) \<subseteq>\<^sub>m all(k \<mapsto> a)"
  by (simp add: map_le_def)

lemma map_le_del: "m \<subseteq>\<^sub>m all \<Longrightarrow> m(k := None) \<subseteq>\<^sub>m all"
  by (auto simp: map_le_def)

lemmas chain_map_rules = covers_new covers_commit within_new within_upd map_le_new map_le_del

definition chain_inv :: "blockchain \<Rightarrow> bool" where
  "chain_inv bc \<longleftrightarrow>
     keyed T_ID (txs bc) (txPool bc) \<and> keyed B_ID (blks bc) (blocks bc) \<and>
     keyed B_ID (blks bc) (acceptedBlocks bc) \<and> keyed B_ID (blks bc) (latestBlocks bc) \<and>
     pendingBlocks bc \<subseteq>\<^sub>m blocks bc \<and>
     covers (acceptedBlocks bc) (pendingBlocks bc) (blocks bc) \<and> within (latestBlocks bc) (blocks bc) \<and>
     (\<forall>b \<in> set (blks bc). set (Transactions b) \<subseteq> {..<length (txs bc)}) \<and>
     finite (dom (txPool bc)) \<and> finite (dom (blocks bc)) \<and> 0 < bc_maxWorkers bc"

lemma keyedD: "keyed key os m \<Longrightarrow> m k = Some a \<Longrightarrow> a < length os \<and> key (os ! a) = k"
  by (simp add: keyed_def)

lemma keyed_append [simp]: "keyed key os m \<Longrightarrow> keyed key (os @ xs) m"
  by (auto simp: keyed_def nth_append trans_less_add1)

lemma keyed_upd: "keyed key os m \<Longrightarrow> a < length os \<Longrightarrow> key (os ! a) = k \<Longrightarrow> keyed key os (m(k \<mapsto> a))"
  by (auto simp: keyed_def)

lemma keyed_restrict: "keyed key os m \<Longrightarrow> m' \<subseteq>\<^sub>m m \<Longrightarrow> keyed key os m'"
  by (auto simp: keyed_def map_le_def dom_def)

lemma keyed_cong:
  "keyed key os m \<Longrightarrow> length os' = length os \<Longrightarrow> (\<And>i. i < length os \<Longrightarrow> key (os' ! i) = key (os ! i)) \<Longrightarrow>
   keyed key os' m"
  by (simp add: keyed_def)

lemma chain_inv_New: "chain_inv (NewBlockchain sha256 now n)"
  by (simp add: chain_inv_def NewBlockchain_def Let_def keyed_def createGenesisBlock_def block_Accept_eq
      NewBlock_def covers_def within_def)

lemma chain_inv_AddTransaction:
  "chain_inv bc \<Longrightarrow> a < length (txs bc) \<Longrightarrow> chain_inv (fst (AddTransaction a bc))"
  by (simp add: chain_inv_def AddTransaction_def Let_def keyed_upd split: option.splits)

lemma select_txs_pool:
  assumes "keyed T_ID ts pool" and "select_txs ts maxTxs cnt ks pool = (as, pool')"
  shows "pool' \<subseteq>\<^sub>m pool \<and> set as \<subseteq> ran pool"
  using assms
proof (induction ts maxTxs cnt ks pool arbitrary: as pool' rule: select_txs.induct)
  case (2 ts maxTxs cnt k ks pool)
  show ?case
  proof (cases "pool k")
    case None
    with 2 show ?thesis by simp
  next
    case (Some tx)
    let ?p = "pool(T_ID (ts ! tx) := None)"
    have p: "?p \<subseteq>\<^sub>m pool" "ran ?p \<subseteq> ran pool" by (auto simp: map_le_def ran_def)
    have kp: "keyed T_ID ts ?p" using "2.prems"(1) p(1) by (rule keyed_restrict)
    have tx: "tx \<in> ran pool" using Some by (rule ranI)
    show ?thesis
    proof (cases "cnt + 1 \<ge> maxTxs")
      case True
      with Some "2.prems"(2) p tx show ?thesis by auto
    next
      case False
      then obtain as' where as': "select_txs ts maxTxs (cnt + 1) ks ?p = (as', pool')" "as = tx # as'"
        using Some "2.prems"(2) by (auto simp: Let_def split: prod.splits)
      from "2.IH"(2) [OF Some refl False kp as'(1)] p have "pool' \<subseteq>\<^sub>m pool" "set as' \<subseteq> ran pool"
        by (blast intro: map_le_trans)+
      with as'(2) tx show ?thesis by simp
    qed
  qed
qed simp

lemma keyed_ran: "keyed key os m \<Longrightarrow> ran m \<subseteq> {..<length os}"
  by (auto simp: keyed_def ran_def)

text \<open>An operation that adds an object to a store keeps the invariant.\<close>

lemma chain_inv_new_tx:
  assumes "chain_inv bc"
  shows "chain_inv (bc\<lparr>txs := txs bc @ [t]\<rparr>)"
proof -
  have "set (Transactions b) \<subseteq> {..<Suc (length (txs bc))}" if "b \<in> set (blks bc)" for b
    using assms that by (force simp: chain_inv_def)
  with assms show ?thesis by (simp add: chain_inv_def)
qed

lemma chain_inv_new_block:
  "chain_inv bc \<Longrightarrow> set (Transactions b) \<subseteq> {..<length (txs bc)} \<Longrightarrow> chain_inv (bc\<lparr>blks := blks bc @ [b]\<rparr>)"
  by (simp add: chain_inv_def)

lemma chain_inv_sign: "chain_inv bc \<Longrightarrow> chain_inv (bc\<lparr>txs := (txs bc)[a := fst (SignTransaction key (txs bc ! a))]\<rparr>)"
proof -
  assume inv: "chain_inv bc"
  have "T_ID ((txs bc)[a := fst (SignTransaction key (txs bc ! a))] ! i) = T_ID (txs bc ! i)" if "i < length (txs bc)" for i
    using that by (cases "i = a") (auto simp: SignTransaction_def)
  with inv show ?thesis by (auto simp: chain_inv_def intro: keyed_cong)
qed

lemma NewBlock_simps [simp]:
  "Transactions (NewBlock sha256 now ps as h) = as" "ParentIDs (NewBlock sha256 now ps as h) = ps"
  "B_Height (NewBlock sha256 now ps as h) = h" "b_status (NewBlock sha256 now ps as h) = Processing"
  by (simp_all add: NewBlock_def Let_def)

lemma chain_inv_CreateBlock:
  assumes inv: "chain_inv bc" and cb: "CreateBlock sha256 now ks ps n bc = Ret (r, bc')"
  shows "chain_inv bc'"
proof (cases "\<exists>p \<in> set ps. blocks bc p = None")
  case True
  with cb inv show ?thesis by (simp add: CreateBlock_def)
next
  case False
  obtain as pool where sel: "select_txs (txs bc) n 0 ks (txPool bc) = (as, pool)"
    by (cases "select_txs (txs bc) n 0 ks (txPool bc)")
  from inv have kp: "keyed T_ID (txs bc) (txPool bc)" by (simp add: chain_inv_def)
  from select_txs_pool [OF kp sel] have pool: "pool \<subseteq>\<^sub>m txPool bc" and as: "set as \<subseteq> {..<length (txs bc)}"
    using keyed_ran [OF kp] by auto
  have kpool: "keyed T_ID (txs bc) pool" using kp pool by (rule keyed_restrict)
  have fin: "finite (dom pool)"
    using map_le_implies_dom_le [OF pool] inv by (simp add: chain_inv_def finite_subset)
  from cb False sel have n: "\<not> n < 0" by (auto simp: CreateBlock_def)
  define h where "h = block_height (currentHeight bc) (map (\<lambda>p. B_Height (blks bc ! the (blocks bc p))) ps)"
  define b where "b = NewBlock sha256 now ps as h"
  let ?a = "length (blks bc)"
  have bc': "bc' = bc\<lparr>blks := blks bc @ [b], txPool := pool, blocks := (blocks bc)(B_ID b \<mapsto> ?a),
      pendingBlocks := (pendingBlocks bc)(B_ID b \<mapsto> ?a),
      blocksByHeight := (blocksByHeight bc)(h \<mapsto> (case blocksByHeight bc h of None \<Rightarrow> [] | Some bs \<Rightarrow> bs) @ [?a])\<rparr>"
    using cb False n by (simp add: CreateBlock_def sel Let_def flip: h_def b_def)
  have kb: "keyed B_ID (blks bc @ [b]) (m(B_ID b \<mapsto> ?a))" if "keyed B_ID (blks bc) m" for m
    using that by (intro keyed_upd) simp_all
  show ?thesis
    using inv kpool fin as unfolding bc' chain_inv_def
    by (simp add: kb chain_map_rules) (simp add: b_def)
qed

lemma chain_inv_SubmitBlock:
  assumes inv: "chain_inv bc" and a: "a < length (blks bc)"
  shows "chain_inv (SubmitBlock a bc)"
proof -
  let ?i = "B_ID (blks bc ! a)"
  define bc1 where "bc1 = (if blocks bc ?i = None
      then bc\<lparr>blocks := (blocks bc)(?i \<mapsto> a), pendingBlocks := (pendingBlocks bc)(?i \<mapsto> a)\<rparr> else bc)"
  have 1: "chain_inv bc1 \<and> blks bc1 = blks bc \<and> ?i \<in> dom (blocks bc1) \<and> latestBlocks bc1 = latestBlocks bc"
  proof (cases "blocks bc ?i = None")
    case True
    with inv a show ?thesis
      unfolding bc1_def by (simp add: chain_inv_def keyed_upd chain_map_rules)
  next
    case False
    with inv show ?thesis by (auto simp: bc1_def)
  qed
  have kl: "keyed B_ID (blks bc) (latestBlocks bc)" using inv by (simp add: chain_inv_def)
  have lat: "keyed B_ID (blks bc) ((latestBlocks bc |` S)(?i \<mapsto> a))" for S
  proof -
    have "latestBlocks bc |` S \<subseteq>\<^sub>m latestBlocks bc" by (simp add: map_le_def)
    from keyed_restrict [OF kl this] a show ?thesis by (intro keyed_upd) simp_all
  qed
  have main: "chain_inv (bc1\<lparr>latestBlocks := (latestBlocks bc |` S)(?i \<mapsto> a), currentHeight := h\<rparr>)" for S h
  proof -
    from 1 have i: "chain_inv bc1" and e: "blks bc1 = blks bc" "latestBlocks bc1 = latestBlocks bc"
      and d: "?i \<in> dom (blocks bc1)" by auto
    from i d lat [of S] show ?thesis unfolding chain_inv_def by (simp add: within_upd e del: fun_upd_apply)
  qed
  have "chain_inv (bc1\<lparr>latestBlocks := (latestBlocks bc |` S)(?i \<mapsto> a)\<rparr>)" for S
    using main [where S = S and h = "currentHeight bc1"] by simp
  with main 1 show ?thesis by (simp add: SubmitBlock_def Let_def flip: bc1_def)
qed

subsection \<open>The parts of ProcessPendingBlocks\<close>

text \<open>The work on one block: on the stores, and what it reports.\<close>

lemma verify_accept_eq:
  "verify_accept (ts, bs) a =
     (case block_Verify ts (bs ! a) of
        Some err \<Rightarrow> ((ts, bs), (B_ID (bs ! a), Some err))
      | None \<Rightarrow> ((set_statuses Accepted (Transactions (bs ! a)) ts, bs[a := (bs ! a)\<lparr>b_status := Accepted\<rparr>]),
                 (B_ID (bs ! a), None)))"
  by (simp add: verify_accept_def Let_def block_Accept_eq split: option.splits)

text \<open>What no work changes: everything but the statuses.\<close>

definition same_tx :: "Transaction \<Rightarrow> Transaction \<Rightarrow> bool" where
  "same_tx t u \<longleftrightarrow> t\<lparr>t_status := Processing\<rparr> = u\<lparr>t_status := Processing\<rparr>"

definition same_block :: "Block \<Rightarrow> Block \<Rightarrow> bool" where
  "same_block b c \<longleftrightarrow> b\<lparr>b_status := Processing\<rparr> = c\<lparr>b_status := Processing\<rparr>"

definition same_stores :: "tx_store \<times> Block list \<Rightarrow> tx_store \<times> Block list \<Rightarrow> bool" where
  "same_stores = (\<lambda>(ts, bs) (ts', bs'). list_all2 same_tx ts ts' \<and> list_all2 same_block bs bs')"

lemma same_tx_fields: "same_tx t u \<Longrightarrow> T_ID t = T_ID u \<and> txn_Verify t = txn_Verify u"
  by (cases t; cases u) (simp add: same_tx_def txn_Verify_def)

lemma same_block_fields: "same_block b c \<Longrightarrow> B_ID b = B_ID c \<and> Transactions b = Transactions c \<and>
    ParentIDs b = ParentIDs c \<and> B_Height b = B_Height c"
  by (cases b; cases c) (simp add: same_block_def)

lemma same_stores_refl [simp]: "same_stores s s"
  by (auto simp: same_stores_def same_tx_def same_block_def list_all2_same split: prod.splits)

lemma same_stores_trans: "same_stores s t \<Longrightarrow> same_stores t u \<Longrightarrow> same_stores s u"
proof -
  assume "same_stores s t" "same_stores t u"
  moreover have "list_all2 same_tx as cs" if "list_all2 same_tx as bs" "list_all2 same_tx bs cs" for as bs cs
    using _ that by (rule list_all2_trans) (simp add: same_tx_def)
  moreover have "list_all2 same_block as cs" if "list_all2 same_block as bs" "list_all2 same_block bs cs" for as bs cs
    using _ that by (rule list_all2_trans) (simp add: same_block_def)
  ultimately show ?thesis by (cases s; cases t; cases u) (auto simp: same_stores_def)
qed

lemma same_stores_work: "same_stores s (fst (verify_accept s a))"
proof -
  obtain ts bs where s: "s = (ts, bs)" by (cases s)
  have "list_all2 same_tx ts (set_statuses st as ts)" for st as
    by (auto simp: list_all2_conv_all_nth nth_set_statuses same_tx_def)
  moreover have "list_all2 same_block bs (bs[a := (bs ! a)\<lparr>b_status := Accepted\<rparr>])"
    by (cases "a < length bs") (auto simp: list_all2_conv_all_nth nth_list_update same_block_def)
  moreover have "list_all2 same_tx ts ts" "list_all2 same_block bs bs"
    by (simp_all add: list_all2_same same_tx_def same_block_def)
  ultimately show ?thesis
    by (simp add: s verify_accept_eq same_stores_def split: option.splits)
qed

interpretation work: loop_task verify_accept "same_stores s0" for s0
  by unfold_locales (blast intro: same_stores_trans same_stores_work)

lemma chain_inv_same_stores:
  assumes inv: "chain_inv bc" and same: "same_stores (txs bc, blks bc) (ts, bs)"
  shows "chain_inv (bc\<lparr>txs := ts, blks := bs\<rparr>)"
proof -
  from same have t: "list_all2 same_tx (txs bc) ts" and b: "list_all2 same_block (blks bc) bs"
    by (auto simp: same_stores_def)
  have kt: "keyed T_ID ts m" if "keyed T_ID (txs bc) m" for m
  proof (rule keyed_cong [OF that])
    show "length ts = length (txs bc)" using t by (simp add: list_all2_lengthD)
    show "T_ID (ts ! i) = T_ID (txs bc ! i)" if "i < length (txs bc)" for i
      using same_tx_fields [OF list_all2_nthD [OF t that]] by simp
  qed
  have kb: "keyed B_ID bs m" if "keyed B_ID (blks bc) m" for m
  proof (rule keyed_cong [OF that])
    show "length bs = length (blks bc)" using b by (simp add: list_all2_lengthD)
    show "B_ID (bs ! i) = B_ID (blks bc ! i)" if "i < length (blks bc)" for i
      using same_block_fields [OF list_all2_nthD [OF b that]] by simp
  qed
  have "\<forall>c \<in> set bs. set (Transactions c) \<subseteq> {..<length ts}"
  proof
    fix c
    assume "c \<in> set bs"
    then obtain i where i: "i < length bs" "c = bs ! i" by (auto simp: in_set_conv_nth)
    with b have "same_block (blks bc ! i) c" "i < length (blks bc)" by (auto simp: list_all2_conv_all_nth)
    then have "Transactions c = Transactions (blks bc ! i)" "blks bc ! i \<in> set (blks bc)"
      by (auto dest: same_block_fields)
    with inv t show "set (Transactions c) \<subseteq> {..<length ts}"
      by (simp add: chain_inv_def list_all2_lengthD)
  qed
  with inv kt kb show ?thesis by (simp add: chain_inv_def)
qed

lemma chain_inv_commit:
  assumes inv: "chain_inv bc" and c: "commit_result res bc = Ret bc'"
  shows "chain_inv bc'"
proof (cases "snd res")
  case (Some err)
  with c inv show ?thesis by (cases res) (simp add: commit_result_def)
next
  case None
  with c obtain i a where a: "blocks bc i = Some a" and bc': "bc' = bc\<lparr>acceptedBlocks := (acceptedBlocks bc)(i \<mapsto> a),
      pendingBlocks := (pendingBlocks bc)(i := None)\<rparr>"
    by (cases res) (auto simp: commit_result_def split: option.splits)
  from inv a have "keyed B_ID (blks bc) ((acceptedBlocks bc)(i \<mapsto> a))"
    by (intro keyed_upd) (auto simp: chain_inv_def dest: keyedD)
  with inv a show ?thesis unfolding bc' by (simp add: chain_inv_def chain_map_rules domI)
qed

lemma commit_result_ok:
  "snd res = None \<longrightarrow> fst res \<in> dom (blocks bc) \<Longrightarrow> \<exists>bc'. commit_result res bc = Ret bc' \<and> blocks bc' = blocks bc"
  by (auto simp: commit_result_def split: prod.splits option.splits)

end
