(* ===== verification/ChainProperties.thy ===== *)
theory ChainProperties
  imports Blockchain
begin

text \<open>
  What the blockchain guarantees: its invariant under every interleaving of its methods with the
  three phases of \<^verbatim>\<open>ProcessPendingBlocks\<close>, what \<^verbatim>\<open>CreateBlock\<close> takes from the pool, which
  blocks \<^verbatim>\<open>ProcessPendingBlocks\<close> accepts, and where two blocks get the same ID.
\<close>

section \<open>Interleaved executions\<close>

text \<open>
  The blockchain, the blocks that calls of \<^verbatim>\<open>ProcessPendingBlocks\<close> have snapshotted and not yet
  worked on, and the results not yet committed.
\<close>

record config =
  chain :: blockchain
  jobs :: "nat list"
  results :: "(ID \<times> go_error option) list"

inductive chain_reach :: "(bytes \<Rightarrow> ID) \<Rightarrow> config \<Rightarrow> bool" for sha256 where
  init: "chain_reach sha256 \<lparr>chain = NewBlockchain sha256 now n, jobs = [], results = []\<rparr>"
| new_tx: "chain_reach sha256 c \<Longrightarrow>
     chain_reach sha256 (c\<lparr>chain := (chain c)\<lparr>txs := txs (chain c) @ [NewTransaction sha256 s r m k]\<rparr>\<rparr>)"
| sign: "chain_reach sha256 c \<Longrightarrow>
     chain_reach sha256 (c\<lparr>chain := (chain c)\<lparr>txs := (txs (chain c))[a := fst (SignTransaction key (txs (chain c) ! a))]\<rparr>\<rparr>)"
| add: "chain_reach sha256 c \<Longrightarrow> a < length (txs (chain c)) \<Longrightarrow>
     chain_reach sha256 (c\<lparr>chain := fst (AddTransaction a (chain c))\<rparr>)"
| create: "chain_reach sha256 c \<Longrightarrow> CreateBlock sha256 now ks ps n (chain c) = Ret (r, bc) \<Longrightarrow>
     chain_reach sha256 (c\<lparr>chain := bc\<rparr>)"
| new_block: "chain_reach sha256 c \<Longrightarrow> set as \<subseteq> {..<length (txs (chain c))} \<Longrightarrow>
     chain_reach sha256 (c\<lparr>chain := (chain c)\<lparr>blks := blks (chain c) @ [NewBlock sha256 now ps as h]\<rparr>\<rparr>)"
| submit: "chain_reach sha256 c \<Longrightarrow> a < length (blks (chain c)) \<Longrightarrow>
     chain_reach sha256 (c\<lparr>chain := SubmitBlock a (chain c)\<rparr>)"
| snap: "chain_reach sha256 c \<Longrightarrow> range_order (pendingBlocks (chain c)) ks \<Longrightarrow>
     chain_reach sha256 (c\<lparr>jobs := jobs c @ snapshot ks (chain c)\<rparr>)"
| work: "chain_reach sha256 c \<Longrightarrow> jobs c = as @ a # bs \<Longrightarrow>
     verify_accept (txs (chain c), blks (chain c)) a = ((ts, bs'), r) \<Longrightarrow>
     chain_reach sha256 (c\<lparr>chain := (chain c)\<lparr>txs := ts, blks := bs'\<rparr>, jobs := as @ bs, results := results c @ [r]\<rparr>)"
| commit: "chain_reach sha256 c \<Longrightarrow> results c = rs @ r # ss \<Longrightarrow> commit_result r (chain c) = Ret bc \<Longrightarrow>
     chain_reach sha256 (c\<lparr>chain := bc, results := rs @ ss\<rparr>)"

text \<open>Blocks are never forgotten and never change their ID.\<close>

definition extends :: "blockchain \<Rightarrow> blockchain \<Rightarrow> bool" where
  "extends bc bc' \<longleftrightarrow> dom (blocks bc) \<subseteq> dom (blocks bc') \<and> length (blks bc) \<le> length (blks bc') \<and>
     (\<forall>i < length (blks bc). B_ID (blks bc' ! i) = B_ID (blks bc ! i))"

definition config_inv :: "config \<Rightarrow> bool" where
  "config_inv c \<longleftrightarrow> chain_inv (chain c) \<and>
     (\<forall>a \<in> set (jobs c). a < length (blks (chain c)) \<and> B_ID (blks (chain c) ! a) \<in> dom (blocks (chain c))) \<and>
     (\<forall>r \<in> set (results c). fst r \<in> dom (blocks (chain c)))"

lemma config_inv_extends:
  "config_inv c \<Longrightarrow> chain_inv bc \<Longrightarrow> extends (chain c) bc \<Longrightarrow> config_inv (c\<lparr>chain := bc\<rparr>)"
  unfolding config_inv_def extends_def by (simp add: subset_iff) (meson less_le_trans)

lemma extends_simple:
  "blocks bc' = blocks bc \<Longrightarrow> blks bc' = blks bc \<Longrightarrow> extends bc bc'"
  by (simp add: extends_def)

lemma extends_AddTransaction: "extends bc (fst (AddTransaction a bc))"
  by (rule extends_simple) (simp_all add: AddTransaction_def Let_def split: option.splits)

lemma extends_append: "extends bc (bc\<lparr>blks := blks bc @ [b]\<rparr>)"
  by (simp add: extends_def nth_append)

lemma extends_CreateBlock: "CreateBlock sha256 now ks ps n bc = Ret (r, bc') \<Longrightarrow> extends bc bc'"
  by (auto simp: CreateBlock_def Let_def extends_def nth_append split: if_splits prod.splits)

lemma extends_SubmitBlock: "extends bc (SubmitBlock a bc)"
  by (auto simp: SubmitBlock_def Let_def extends_def)

lemma extends_commit: "commit_result r bc = Ret bc' \<Longrightarrow> extends bc bc'"
  by (auto simp: commit_result_def extends_def split: prod.splits option.splits)

lemma extends_same_stores:
  assumes "same_stores (txs bc, blks bc) (ts, bs)"
  shows "extends bc (bc\<lparr>txs := ts, blks := bs\<rparr>)"
proof -
  from assms have b: "list_all2 same_block (blks bc) bs" by (simp add: same_stores_def)
  then have "B_ID (bs ! i) = B_ID (blks bc ! i)" if "i < length (blks bc)" for i
    using same_block_fields [OF list_all2_nthD [OF b that]] by simp
  with b show ?thesis by (simp add: extends_def list_all2_lengthD)
qed

lemma verify_accept_ID: "fst (snd (verify_accept (ts, bs) a)) = B_ID (bs ! a)"
  by (simp add: verify_accept_eq split: option.splits)

lemma snapshot_known:
  assumes inv: "chain_inv bc" and ks: "range_order (pendingBlocks bc) ks" and a: "a \<in> set (snapshot ks bc)"
  shows "a < length (blks bc) \<and> B_ID (blks bc ! a) \<in> dom (blocks bc)"
proof -
  from a obtain k where "k \<in> set ks" "a = the (pendingBlocks bc k)" by (auto simp: snapshot_def)
  with ks have "pendingBlocks bc k = Some a" by (auto simp: range_order_def)
  moreover from inv have "pendingBlocks bc \<subseteq>\<^sub>m blocks bc" by (simp add: chain_inv_def)
  ultimately have "blocks bc k = Some a" by (metis domI map_le_def)
  with inv show ?thesis by (auto simp: chain_inv_def dest: keyedD)
qed

lemma chain_reach_inv: "chain_reach sha256 c \<Longrightarrow> config_inv c"
proof (induction rule: chain_reach.induct)
  case (init now n)
  show ?case by (simp add: config_inv_def chain_inv_New)
next
  case (new_tx c s r m k)
  then show ?case
    by (intro config_inv_extends chain_inv_new_tx extends_simple) (auto simp: config_inv_def)
next
  case (sign c a key)
  then show ?case
    by (intro config_inv_extends chain_inv_sign extends_simple) (auto simp: config_inv_def)
next
  case (add c a)
  then show ?case
    by (intro config_inv_extends chain_inv_AddTransaction extends_AddTransaction) (auto simp: config_inv_def)
next
  case (create c now ks ps n r bc)
  then show ?case
    by (intro config_inv_extends [OF _ chain_inv_CreateBlock extends_CreateBlock]) (auto simp: config_inv_def)
next
  case (new_block c as now ps h)
  then show ?case
    by (intro config_inv_extends chain_inv_new_block extends_append) (auto simp: config_inv_def)
next
  case (submit c a)
  then show ?case
    by (intro config_inv_extends chain_inv_SubmitBlock extends_SubmitBlock) (auto simp: config_inv_def)
next
  case (snap c ks)
  have "a < length (blks (chain c)) \<and> B_ID (blks (chain c) ! a) \<in> dom (blocks (chain c))"
    if "a \<in> set (snapshot ks (chain c))" for a
    using snapshot_known [OF _ snap.hyps(2) that] snap.IH by (simp add: config_inv_def)
  with snap.IH show ?case by (auto simp: config_inv_def)
next
  case (work c as a bs ts bs' r)
  have same: "same_stores (txs (chain c), blks (chain c)) (ts, bs')"
    using same_stores_work [of "(txs (chain c), blks (chain c))" a] work.hyps(3) by simp
  have "config_inv (c\<lparr>chain := (chain c)\<lparr>txs := ts, blks := bs'\<rparr>\<rparr>)"
    using work.IH chain_inv_same_stores [OF _ same] extends_same_stores [OF same]
    by (intro config_inv_extends) (auto simp: config_inv_def)
  moreover have "fst r \<in> dom (blocks (chain c))"
    using verify_accept_ID [of "txs (chain c)" "blks (chain c)" a] work.hyps(2,3) work.IH
    by (auto simp: config_inv_def)
  ultimately show ?case using work.hyps(2) by (auto simp: config_inv_def)
next
  case (commit c rs r ss bc)
  have "config_inv (c\<lparr>chain := bc\<rparr>)"
    using commit.IH chain_inv_commit [OF _ commit.hyps(3)] extends_commit [OF commit.hyps(3)]
    by (intro config_inv_extends) (auto simp: config_inv_def)
  then show ?case using commit.hyps(2) by (auto simp: config_inv_def)
qed

text \<open>
  C33. In every state that interleaved calls of the blockchain's methods can reach, every block is
  accepted or pending, a pending block is stored under its own ID, pool and block maps point to
  objects with the IDs they are filed under, the edge of the DAG consists of known blocks, and the
  commit of an outstanding result finds its block: it does not dereference nil.
\<close>

theorem chain_invariant:
  assumes "chain_reach sha256 c"
  shows "dom (blocks (chain c)) = dom (acceptedBlocks (chain c)) \<union> dom (pendingBlocks (chain c)) \<and>
    pendingBlocks (chain c) \<subseteq>\<^sub>m blocks (chain c) \<and>
    keyed T_ID (txs (chain c)) (txPool (chain c)) \<and> keyed B_ID (blks (chain c)) (blocks (chain c)) \<and>
    keyed B_ID (blks (chain c)) (acceptedBlocks (chain c)) \<and>
    dom (latestBlocks (chain c)) \<subseteq> dom (blocks (chain c)) \<and>
    (\<forall>r \<in> set (results c). \<exists>bc. commit_result r (chain c) = Ret bc)"
proof -
  have c: "config_inv c" using assms by (rule chain_reach_inv)
  have "\<exists>bc. commit_result r (chain c) = Ret bc" if "r \<in> set (results c)" for r
    using commit_result_ok [of r "chain c"] c that by (auto simp: config_inv_def)
  moreover have "chain_inv (chain c)" using c by (simp add: config_inv_def)
  ultimately show ?thesis unfolding chain_inv_def covers_def within_def by blast
qed

text \<open>A hash for the witnesses: the lowest byte of a block's height.\<close>

definition height_hash :: "bytes \<Rightarrow> ID" where
  "height_hash bs = replicate 32 (if length bs > 7 then bs ! 7 else 0)"

lemma genesis_ID: "B_ID (createGenesisBlock height_hash 0) = replicate 32 0"
  by (simp add: createGenesisBlock_def block_Accept_eq NewBlock_def Let_def height_hash_def
      block_generateBytes_def be64_def nth_append)

theorem chain_invariant_witness:
  "\<exists>c. chain_reach height_hash c \<and> chain c = NewBlockchain height_hash 0 4 \<and>
     dom (blocks (chain c)) = dom (acceptedBlocks (chain c)) \<union> dom (pendingBlocks (chain c))"
  using chain_invariant [OF chain_reach.init [of height_hash 0 4]] chain_reach.init [of height_hash 0 4]
  by (metis config.select_convs(1))

section \<open>CreateBlock\<close>

lemma select_txs_eq:
  "keyed T_ID ts pool \<Longrightarrow> distinct ks \<Longrightarrow> set ks \<subseteq> dom pool \<Longrightarrow>
   select_txs ts m c ks pool =
     (let n = nat (max 1 (m - c)) in (map (\<lambda>k. the (pool k)) (take n ks), pool |` (- set (take n ks))))"
proof (induction ks arbitrary: c pool)
  case Nil
  then show ?case by simp
next
  case (Cons k ks)
  from Cons.prems(3) obtain tx where tx: "pool k = Some tx" by auto
  with Cons.prems(1) have k: "T_ID (ts ! tx) = k" by (auto dest: keyedD)
  show ?case
  proof (cases "c + 1 \<ge> m")
    case True
    then have "nat (max 1 (m - c)) = 1" by simp
    moreover have "pool(k := None) = pool |` (- {k})" by (auto simp: restrict_map_def)
    ultimately show ?thesis using True tx k by (simp add: Let_def)
  next
    case False
    let ?p = "pool(k := None)" and ?n = "nat (max 1 (m - (c + 1)))"
    have n: "nat (max 1 (m - c)) = Suc ?n" using False by simp
    have kp: "keyed T_ID ts ?p" using Cons.prems(1) by (auto simp: keyed_def)
    have sub: "set ks \<subseteq> dom ?p" using Cons.prems(2,3) by auto
    have "distinct ks" using Cons.prems(2) by simp
    from Cons.IH [OF kp this sub, of "c + 1"]
    have IH: "select_txs ts m (c + 1) ks ?p = (map (\<lambda>k. the (?p k)) (take ?n ks), ?p |` (- set (take ?n ks)))"
      by (simp only: Let_def)
    have "map (\<lambda>x. the (?p x)) (take ?n ks) = map (\<lambda>x. the (pool x)) (take ?n ks)"
      using Cons.prems(2) by (auto dest: in_set_takeD)
    moreover have "?p |` (- set (take ?n ks)) = pool |` (- set (take (Suc ?n) (k # ks)))"
      by (auto simp: restrict_map_def)
    ultimately show ?thesis using False tx k IH unfolding n by (simp add: Let_def)
  qed
qed

lemma select_txs_split:
  assumes kp: "keyed T_ID ts pool" and ks: "range_order pool ks" and sel: "select_txs ts n 0 ks pool = (as, pool')"
  shows "distinct as" "length as = min (card (dom pool)) (nat (max 1 n))" "ran pool = ran pool' \<union> set as"
    "ran pool' \<inter> set as = {}" "pool' \<subseteq>\<^sub>m pool"
proof -
  let ?m = "nat (max 1 n)"
  have as: "as = map (\<lambda>k. the (pool k)) (take ?m ks)" and pool': "pool' = pool |` (- set (take ?m ks))"
    using select_txs_eq [OF kp, of ks n 0] range_orderD [OF ks] sel by (auto simp: Let_def)
  have at: "pool k = Some (the (pool k))" if "k \<in> set ks" for k
    using that range_orderD(2) [OF ks] by auto
  have key: "T_ID (ts ! the (pool k)) = k" if "k \<in> set ks" for k
    using keyedD [OF kp at [OF that]] by simp
  have "inj_on (\<lambda>k. the (pool k)) (set (take ?m ks))" by (rule inj_onI) (metis key in_set_takeD)
  with range_orderD(1) [OF ks] show "distinct as" by (simp add: as distinct_map)
  show "length as = min (card (dom pool)) ?m" using range_order_length [OF ks] by (simp add: as)
  have ran_as: "set as = {a. \<exists>k \<in> set (take ?m ks). pool k = Some a}"
    unfolding as using at by (auto dest: in_set_takeD) (metis imageI in_set_takeD option.sel)
  have ran_pool: "ran pool' = {a. \<exists>k. k \<notin> set (take ?m ks) \<and> pool k = Some a}"
    by (auto simp: pool' ran_def restrict_map_def)
  show "ran pool' \<inter> set as = {}" unfolding ran_as ran_pool using kp by (auto dest: keyedD)
  show "ran pool = ran pool' \<union> set as" unfolding ran_as ran_pool by (auto simp: ran_def)
  show "pool' \<subseteq>\<^sub>m pool" by (simp add: pool' map_le_def)
qed

text \<open>
  C35. \<^verbatim>\<open>CreateBlock\<close> fails on an unknown parent and changes nothing; with a negative \<^verbatim>\<open>maxTxs\<close> it
  panics; otherwise it creates a pending block at the end of the block store that takes
  \<^verbatim>\<open>max 1 maxTxs\<close> transactions from the pool, or all if there are fewer (so a limit of 0 still takes
  one), and every pool entry is afterwards either still in the pool or in the block, never both.
\<close>

theorem CreateBlock_conserves:
  assumes inv: "chain_inv bc" and ks: "range_order (txPool bc) ks"
  shows "((\<exists>p \<in> set ps. p \<notin> dom (blocks bc)) \<longrightarrow>
      CreateBlock sha256 now ks ps n bc = Ret (Inl (Err ''parent block not found''), bc)) \<and>
    (set ps \<subseteq> dom (blocks bc) \<and> n < 0 \<longrightarrow>
      CreateBlock sha256 now ks ps n bc = Panic ''makeslice: cap out of range'') \<and>
    (set ps \<subseteq> dom (blocks bc) \<and> 0 \<le> n \<longrightarrow>
      (\<exists>bc' b. CreateBlock sha256 now ks ps n bc = Ret (Inr (length (blks bc)), bc') \<and>
        blks bc' = blks bc @ [b] \<and> txs bc' = txs bc \<and>
        blocks bc' = (blocks bc)(B_ID b \<mapsto> length (blks bc)) \<and>
        pendingBlocks bc' = (pendingBlocks bc)(B_ID b \<mapsto> length (blks bc)) \<and>
        ParentIDs b = ps \<and> distinct (Transactions b) \<and>
        length (Transactions b) = min (card (dom (txPool bc))) (nat (max 1 n)) \<and>
        ran (txPool bc) = ran (txPool bc') \<union> set (Transactions b) \<and>
        ran (txPool bc') \<inter> set (Transactions b) = {}))" (is "_ \<and> _ \<and> (_ \<longrightarrow> ?created)")
proof (intro conjI impI)
  assume p: "set ps \<subseteq> dom (blocks bc) \<and> 0 \<le> n"
  from inv have kp: "keyed T_ID (txs bc) (txPool bc)" by (simp add: chain_inv_def)
  obtain as pool where sel: "select_txs (txs bc) n 0 ks (txPool bc) = (as, pool)" by fastforce
  from p select_txs_split [OF kp ks sel] show ?created
    by (auto simp: CreateBlock_def sel Let_def subset_iff)
qed (auto simp: CreateBlock_def)

theorem CreateBlock_conserves_witness:
  "\<exists>bc' b. CreateBlock height_hash 0 [] [replicate 32 0] 5 (NewBlockchain height_hash 0 4) = Ret (Inr 1, bc') \<and>
     blks bc' = blks (NewBlockchain height_hash 0 4) @ [b] \<and> length (Transactions b) = 0"
proof -
  let ?bc = "NewBlockchain height_hash 0 4"
  have "range_order (txPool ?bc) []" by (simp add: NewBlockchain_def Let_def)
  from CreateBlock_conserves [OF chain_inv_New this, of "[replicate 32 0]" height_hash 0 5]
  show ?thesis by (auto simp: NewBlockchain_def Let_def genesis_ID)
qed

subsection \<open>Colliding block IDs\<close>

lemma CreateBlock_cases:
  assumes "CreateBlock sha256 now ks ps n bc = Ret (Inr a, bc')"
  obtains as pool where "select_txs (txs bc) n 0 ks (txPool bc) = (as, pool)" and "a = length (blks bc)"
    and "\<forall>p \<in> set ps. blocks bc p \<noteq> None" and "txs bc' = txs bc" and "txPool bc' = pool"
    and "currentHeight bc' = currentHeight bc"
    and "blks bc' = blks bc @ [NewBlock sha256 now ps as
           (block_height (currentHeight bc) (map (\<lambda>p. B_Height (blks bc ! the (blocks bc p))) ps))]"
    and "blocks bc' = (blocks bc)(B_ID (blks bc' ! a) \<mapsto> a)"
    and "pendingBlocks bc' = (pendingBlocks bc)(B_ID (blks bc' ! a) \<mapsto> a)"
  using assms by (auto simp: CreateBlock_def Let_def split: if_splits prod.splits)

text \<open>A new block does not change the heights of known parents.\<close>

lemma parent_heights_stable:
  assumes kb: "keyed B_ID (blks bc) (blocks bc)" and par: "\<forall>p \<in> set ps. blocks bc p \<noteq> None"
    and new: "i \<notin> dom (blocks bc)" and b1: "blocks bc1 = (blocks bc)(i \<mapsto> a)" and bl1: "blks bc1 = blks bc @ [x]"
  shows "map (\<lambda>p. B_Height (blks bc1 ! the (blocks bc1 p))) ps = map (\<lambda>p. B_Height (blks bc ! the (blocks bc p))) ps"
proof (rule map_cong [OF refl])
  fix p
  assume "p \<in> set ps"
  with par obtain y where y: "blocks bc p = Some y" by blast
  with new have "blocks bc1 p = Some y" by (auto simp: b1)
  with y keyedD [OF kb y] show "B_Height (blks bc1 ! the (blocks bc1 p)) = B_Height (blks bc ! the (blocks bc p))"
    by (simp add: bl1 nth_append)
qed

text \<open>
  Two blocks created one after the other on the same parents with equally many transactions get
  the same ID. The second replaces the first in the block map and among the pending blocks: no map
  points to the first block any more, and its transactions, already taken from the pool, are lost.
\<close>

theorem CreateBlock_collision:
  assumes inv: "chain_inv bc"
    and first: "CreateBlock sha256 now ks ps n bc = Ret (Inr a, bc1)" and ks: "range_order (txPool bc) ks"
    and second: "CreateBlock sha256 now' ks' ps n' bc1 = Ret (Inr b, bc2)"
    and len: "length (Transactions (blks bc2 ! a)) = length (Transactions (blks bc2 ! b))"
    and new: "B_ID (blks bc1 ! a) \<notin> dom (blocks bc)"
  shows "B_ID (blks bc2 ! a) = B_ID (blks bc2 ! b) \<and> a \<noteq> b \<and> a \<notin> ran (blocks bc2) \<and>
    a \<notin> ran (pendingBlocks bc2) \<and> set (Transactions (blks bc2 ! a)) \<inter> ran (txPool bc2) = {}"
proof -
  from first obtain as pool where sel: "select_txs (txs bc) n 0 ks (txPool bc) = (as, pool)"
    and a: "a = length (blks bc)" and par: "\<forall>p \<in> set ps. blocks bc p \<noteq> None" and t1: "txs bc1 = txs bc"
    and p1: "txPool bc1 = pool" and h1: "currentHeight bc1 = currentHeight bc"
    and bl1: "blks bc1 = blks bc @ [NewBlock sha256 now ps as
        (block_height (currentHeight bc) (map (\<lambda>p. B_Height (blks bc ! the (blocks bc p))) ps))]"
    and b1: "blocks bc1 = (blocks bc)(B_ID (blks bc1 ! a) \<mapsto> a)"
    and pe1: "pendingBlocks bc1 = (pendingBlocks bc)(B_ID (blks bc1 ! a) \<mapsto> a)"
    by (rule CreateBlock_cases)
  from second obtain as' pool' where sel': "select_txs (txs bc1) n' 0 ks' (txPool bc1) = (as', pool')"
    and b: "b = length (blks bc1)" and p2: "txPool bc2 = pool'"
    and bl2: "blks bc2 = blks bc1 @ [NewBlock sha256 now' ps as'
        (block_height (currentHeight bc1) (map (\<lambda>p. B_Height (blks bc1 ! the (blocks bc1 p))) ps))]"
    and b2: "blocks bc2 = (blocks bc1)(B_ID (blks bc2 ! b) \<mapsto> b)"
    and pe2: "pendingBlocks bc2 = (pendingBlocks bc1)(B_ID (blks bc2 ! b) \<mapsto> b)"
    by (rule CreateBlock_cases)
  have kb: "keyed B_ID (blks bc) (blocks bc)" and kp: "keyed T_ID (txs bc) (txPool bc)"
    and pend: "pendingBlocks bc \<subseteq>\<^sub>m blocks bc"
    using inv by (simp_all add: chain_inv_def)
  note hs = parent_heights_stable [OF kb par new b1 bl1]
  have a2: "blks bc2 ! a = blks bc1 ! a" using a bl1 bl2 by (simp add: nth_append)
  have ab: "a < b" using a b bl1 by simp
  have tx: "Transactions (blks bc2 ! a) = as" "Transactions (blks bc2 ! b) = as'"
    using a b bl1 bl2 a2 by (simp_all add: nth_append)
  define H where "H = block_height (currentHeight bc) (map (\<lambda>p. B_Height (blks bc ! the (blocks bc p))) ps)"
  have "blks bc2 ! b = NewBlock sha256 now' ps as' H"
    using b by (simp add: bl2 hs h1 H_def)
  moreover have "blks bc2 ! a = NewBlock sha256 now ps as H"
    unfolding a2 by (simp add: bl1 a H_def)
  ultimately have "B_ID (blks bc2 ! a) = B_ID (blks bc2 ! b)"
    using len tx by (simp add: NewBlock_def Let_def block_generateBytes_def)
  moreover have "a \<notin> ran (blocks bc)" "a \<notin> ran (pendingBlocks bc)"
    using keyed_ran [OF kb] keyed_ran [OF keyed_restrict [OF kb pend]] a by auto
  ultimately have "a \<notin> ran (blocks bc2) \<and> a \<notin> ran (pendingBlocks bc2)"
    using ab a2 by (auto simp: b2 b1 pe2 pe1 ran_def split: if_splits)
  moreover note split = select_txs_split [OF kp ks sel]
  have "keyed T_ID (txs bc1) pool" using keyed_restrict [OF kp split(5)] by (simp add: t1)
  then have "pool' \<subseteq>\<^sub>m pool" using select_txs_pool sel' p1 by blast
  then have "ran pool' \<subseteq> ran pool" by (auto simp: ran_def map_le_def dom_def) metis
  then have "set as \<inter> ran pool' = {}" using split(4) by blast
  ultimately show ?thesis
    using \<open>B_ID (blks bc2 ! a) = B_ID (blks bc2 ! b)\<close> ab tx p2 by simp
qed

lemma NewBlockchain_simps [simp]:
  "txPool (NewBlockchain height_hash 0 n) = Map.empty" "txs (NewBlockchain height_hash 0 n) = []"
  "blocks (NewBlockchain height_hash 0 n) = [replicate 32 0 \<mapsto> 0]"
  "blks (NewBlockchain height_hash 0 n) = [createGenesisBlock height_hash 0]"
  "pendingBlocks (NewBlockchain height_hash 0 n) = Map.empty"
  "currentHeight (NewBlockchain height_hash 0 n) = 0"
  "blocksByHeight (NewBlockchain height_hash 0 n) = [0 \<mapsto> [0]]"
  by (simp_all add: NewBlockchain_def Let_def genesis_ID)

lemma genesis_height [simp]: "B_Height (createGenesisBlock height_hash 0) = 0"
  by (simp add: createGenesisBlock_def block_Accept_eq)

lemma height_hash_ID [simp]:
  "B_ID (NewBlock height_hash now ps as 1) = replicate 32 1"
  "B_ID (NewBlock height_hash now ps as 2) = replicate 32 2"
  by (simp_all add: NewBlock_def Let_def height_hash_def block_generateBytes_def be64_def nth_append)

lemma block_height_simps [simp]: "block_height c [] = c + 1"
  "block_height c [h] = (if h \<ge> c then h + 1 else c + 1)"
  by (simp_all add: block_height_def)

text \<open>A block on top of the genesis block, created from an empty pool.\<close>

definition on_genesis :: "blockchain \<Rightarrow> blockchain" where
  "on_genesis bc = bc\<lparr>blks := blks bc @ [NewBlock height_hash 0 [replicate 32 0] [] 1],
     blocks := (blocks bc)(replicate 32 1 \<mapsto> length (blks bc)),
     pendingBlocks := (pendingBlocks bc)(replicate 32 1 \<mapsto> length (blks bc)),
     blocksByHeight := (blocksByHeight bc)(1 \<mapsto> GetBlocksByHeight 1 bc @ [length (blks bc)])\<rparr>"

lemma CreateBlock_on_genesis:
  assumes "txPool bc = Map.empty" and "blocks bc (replicate 32 0) = Some 0" and "B_Height (blks bc ! 0) = 0"
    and "currentHeight bc = 0"
  shows "CreateBlock height_hash 0 [] [replicate 32 0] 5 bc = Ret (Inr (length (blks bc)), on_genesis bc)"
  using assms by (cases bc) (simp add: CreateBlock_def Let_def on_genesis_def GetBlocksByHeight_def)

theorem CreateBlock_collision_witness:
  "B_ID (blks (on_genesis (on_genesis (NewBlockchain height_hash 0 4))) ! 1) =
     B_ID (blks (on_genesis (on_genesis (NewBlockchain height_hash 0 4))) ! 2) \<and>
   (1 :: nat) \<notin> ran (blocks (on_genesis (on_genesis (NewBlockchain height_hash 0 4))))"
proof -
  let ?bc = "NewBlockchain height_hash 0 4"
  have 1: "CreateBlock height_hash 0 [] [replicate 32 0] 5 ?bc = Ret (Inr 1, on_genesis ?bc)"
    by (subst CreateBlock_on_genesis) simp_all
  have 2: "CreateBlock height_hash 0 [] [replicate 32 0] 5 (on_genesis ?bc) = Ret (Inr 2, on_genesis (on_genesis ?bc))"
    by (subst CreateBlock_on_genesis) (simp_all add: on_genesis_def)
  show ?thesis
    using CreateBlock_collision [OF chain_inv_New 1 _ 2] by (simp add: on_genesis_def)
qed

text \<open>
  The height of a new block is not the maximum of its parents' heights plus one, as the comment
  in \<^verbatim>\<open>CreateBlock\<close> says: it is one more than the last listed parent that reaches the current
  height, so with two unsubmitted parents of heights 2 and 1, in this order, the block gets the
  height of its own parent, and the order of the parents changes the height.
\<close>

lemma block_height_append:
  "block_height c (hs @ [h]) = (if h \<ge> c then h + 1 else block_height c hs)"
  by (simp add: block_height_def)

lemma block_height_below: "\<forall>h \<in> set hs. h < c \<Longrightarrow> block_height c (gs @ hs) = block_height c gs"
  by (induction hs rule: rev_induct) (auto simp: block_height_append simp flip: append_assoc)

lemma two_blocks:
  obtains bc where "chain_reach height_hash \<lparr>chain = bc, jobs = [], results = []\<rparr>"
    and "blocks bc = [replicate 32 0 \<mapsto> 0, replicate 32 1 \<mapsto> 1, replicate 32 2 \<mapsto> 2]"
    and "map B_Height (blks bc) = [0, 1, 2]" and "currentHeight bc = 0" and "txPool bc = Map.empty"
proof -
  let ?bc = "NewBlockchain height_hash 0 4"
  have 1: "CreateBlock height_hash 0 [] [replicate 32 0] 5 ?bc = Ret (Inr 1, on_genesis ?bc)"
    by (subst CreateBlock_on_genesis) simp_all
  obtain bc where 2: "CreateBlock height_hash 0 [] [replicate 32 1] 5 (on_genesis ?bc) = Ret (Inr 2, bc)"
    and bc: "blocks bc = [replicate 32 0 \<mapsto> 0, replicate 32 1 \<mapsto> 1, replicate 32 2 \<mapsto> 2]"
      "map B_Height (blks bc) = [0, 1, 2]" "currentHeight bc = 0" "txPool bc = Map.empty"
    by (simp add: CreateBlock_def on_genesis_def Let_def numeral_2_eq_2)
  note r0 = chain_reach.init [of height_hash 0 4]
  note r1 = chain_reach.create [OF r0, unfolded config.select_convs, OF 1, unfolded config.update_convs]
  note r2 = chain_reach.create [OF r1, unfolded config.select_convs, OF 2, unfolded config.update_convs]
  from that [OF r2 bc] show thesis .
qed

theorem CreateBlock_height_last_parent:
  "(CreateBlock sha256 now ks ps n bc = Ret (Inr a, bc') \<longrightarrow> B_Height (blks bc' ! a) =
      block_height (currentHeight bc) (map (\<lambda>p. B_Height (blks bc ! the (blocks bc p))) ps)) \<and>
   ((\<forall>h \<in> set hs. h < cur) \<and> cur \<le> p \<longrightarrow> block_height cur (gs @ p # hs) = p + 1) \<and>
   (\<exists>c bc2. chain_reach height_hash c \<and>
      CreateBlock height_hash 0 [] [replicate 32 2, replicate 32 1] 5 (chain c) = Ret (Inr 3, bc2) \<and>
      B_Height (blks bc2 ! 3) = 2 \<and> B_Height (blks bc2 ! the (blocks (chain c) (replicate 32 2))) = 2)"
proof (intro conjI impI)
  assume "CreateBlock sha256 now ks ps n bc = Ret (Inr a, bc')"
  then show "B_Height (blks bc' ! a) =
      block_height (currentHeight bc) (map (\<lambda>p. B_Height (blks bc ! the (blocks bc p))) ps)"
    by (auto elim!: CreateBlock_cases)
next
  assume "(\<forall>h \<in> set hs. h < cur) \<and> cur \<le> p"
  with block_height_below [of hs cur "gs @ [p]"] show "block_height cur (gs @ p # hs) = p + 1"
    by (simp add: block_height_append)
next
  obtain bc where r: "chain_reach height_hash \<lparr>chain = bc, jobs = [], results = []\<rparr>"
    and bc: "blocks bc = [replicate 32 0 \<mapsto> 0, replicate 32 1 \<mapsto> 1, replicate 32 2 \<mapsto> 2]"
      "map B_Height (blks bc) = [0, 1, 2]" "currentHeight bc = 0" "txPool bc = Map.empty"
    by (rule two_blocks)
  have len: "length (blks bc) = 3" using arg_cong [OF bc(2), of length] by simp
  have hts: "B_Height (blks bc ! 1) = 1" "B_Height (blks bc ! 2) = 2"
    using bc(2) len by (metis One_nat_def nth_Cons_0 nth_Cons_Suc nth_map numeral_2_eq_2 numeral_3_eq_3 lessI less_Suc_eq)+
  have "\<exists>bc2. CreateBlock height_hash 0 [] [replicate 32 2, replicate 32 1] 5 bc = Ret (Inr 3, bc2) \<and>
      B_Height (blks bc2 ! 3) = 2 \<and> B_Height (blks bc2 ! 2) = 2"
    using bc len hts by (simp add: CreateBlock_def Let_def block_height_def nth_append)
  with r bc show "\<exists>c bc2. chain_reach height_hash c \<and>
      CreateBlock height_hash 0 [] [replicate 32 2, replicate 32 1] 5 (chain c) = Ret (Inr 3, bc2) \<and>
      B_Height (blks bc2 ! 3) = 2 \<and> B_Height (blks bc2 ! the (blocks (chain c) (replicate 32 2))) = 2"
    by (intro exI [of _ "\<lparr>chain = bc, jobs = [], results = []\<rparr>"]) auto
qed

theorem CreateBlock_height_last_parent_witness: "block_height 3 ([7] @ 5 # [1, 2]) = 6"
  using CreateBlock_height_last_parent [where hs = "[1, 2]" and cur = 3 and p = 5 and gs = "[7]"] by simp

section \<open>ProcessPendingBlocks\<close>

lemma block_Verify_same:
  assumes "same_stores (ts, bs) (ts', bs')" and "a < length bs" and "set (Transactions (bs ! a)) \<subseteq> {..<length ts}"
  shows "block_Verify ts' (bs' ! a) = block_Verify ts (bs ! a)"
proof -
  from assms(1) have t: "list_all2 same_tx ts ts'" and b: "list_all2 same_block bs bs'"
    by (auto simp: same_stores_def)
  have "verify_all ts' as = verify_all ts as" if "set as \<subseteq> {..<length ts}" for as
    using that
  proof (induction as)
    case (Cons x as)
    then have "same_tx (ts ! x) (ts' ! x)" using t by (auto simp: list_all2_conv_all_nth)
    with Cons same_tx_fields [of "ts ! x" "ts' ! x"] show ?case by (auto split: option.splits)
  qed simp
  moreover have "Transactions (bs' ! a) = Transactions (bs ! a)"
    using same_block_fields [OF list_all2_nthD [OF b assms(2)]] by simp
  ultimately show ?thesis using assms(3) by (simp add: block_Verify_def)
qed

text \<open>The stores when the blocks in \<open>G\<close> have been accepted: their statuses and those of their transactions.\<close>

definition accept_stores :: "nat set \<Rightarrow> tx_store \<times> Block list \<Rightarrow> tx_store \<times> Block list" where
  "accept_stores G = (\<lambda>(ts, bs).
     (map (\<lambda>t. if \<exists>a \<in> G. t \<in> set (Transactions (bs ! a)) then (ts ! t)\<lparr>t_status := Accepted\<rparr> else ts ! t) [0..<length ts],
      map (\<lambda>a. if a \<in> G then (bs ! a)\<lparr>b_status := Accepted\<rparr> else bs ! a) [0..<length bs]))"

lemma accept_stores_none [simp]: "accept_stores {} s = s"
  by (cases s) (simp add: accept_stores_def map_nth)

lemma accept_stores_insert:
  assumes "u < length (snd s)" "G \<subseteq> {..<length (snd s)}"
  shows "accept_stores G (accept_stores {u} s) = accept_stores (insert u G) s"
proof -
  obtain ts bs where s: "s = (ts, bs)" by (cases s)
  have "Transactions (snd (accept_stores {u} s) ! a) = Transactions (bs ! a)" if "a \<in> G" for a
    using assms that by (auto simp: s accept_stores_def)
  then show ?thesis by (auto simp: s accept_stores_def intro!: nth_equalityI)
qed

definition valid_jobs :: "tx_store \<times> Block list \<Rightarrow> nat list \<Rightarrow> bool" where
  "valid_jobs s us \<longleftrightarrow> (\<forall>a \<in> set us. a < length (snd s) \<and> set (Transactions (snd s ! a)) \<subseteq> {..<length (fst s)})"

lemma verify_accept_stores:
  assumes "valid_jobs s [u]"
  shows "verify_accept s u = (accept_stores (if block_Verify (fst s) (snd s ! u) = None then {u} else {}) s,
     (B_ID (snd s ! u), block_Verify (fst s) (snd s ! u)))"
proof -
  obtain ts bs where s: "s = (ts, bs)" by (cases s)
  have "set_statuses Accepted (Transactions (bs ! u)) ts = fst (accept_stores {u} (ts, bs))"
    "bs[u := (bs ! u)\<lparr>b_status := Accepted\<rparr>] = snd (accept_stores {u} (ts, bs))"
    using assms by (auto simp: s accept_stores_def nth_set_statuses valid_jobs_def nth_list_update intro!: nth_equalityI)
  then show ?thesis by (auto simp: s verify_accept_eq split: option.splits)
qed

lemma valid_jobs_work:
  assumes "valid_jobs s us"
  shows "valid_jobs (fst (verify_accept s u)) us"
proof -
  obtain ts bs ts' bs' where s: "s = (ts, bs)" and s': "fst (verify_accept s u) = (ts', bs')"
    by (cases s; cases "fst (verify_accept s u)")
  from same_stores_work [of s u] have "list_all2 same_tx ts ts'" and b: "list_all2 same_block bs bs'"
    unfolding s' by (auto simp: s same_stores_def)
  then have "length ts' = length ts" "length bs' = length bs"
    "\<And>a. a < length bs \<Longrightarrow> Transactions (bs' ! a) = Transactions (bs ! a)"
    using same_block_fields [OF list_all2_nthD [OF b]] by (auto simp: list_all2_lengthD)
  with assms show ?thesis unfolding s' by (simp add: s valid_jobs_def)
qed

lemma verify_after_work:
  assumes "valid_jobs s [a]"
  shows "block_Verify (fst (fst (verify_accept s u))) (snd (fst (verify_accept s u)) ! a) = block_Verify (fst s) (snd s ! a)"
    and "B_ID (snd (fst (verify_accept s u)) ! a) = B_ID (snd s ! a)"
proof -
  let ?s = "fst (verify_accept s u)"
  have same: "same_stores s ?s" by (rule same_stores_work)
  then show "block_Verify (fst ?s) (snd ?s ! a) = block_Verify (fst s) (snd s ! a)"
    using block_Verify_same [of "fst s" "snd s" "fst ?s" "snd ?s" a] assms by (simp add: valid_jobs_def)
  have "list_all2 same_block (snd s) (snd ?s)" using same by (auto simp: same_stores_def split: prod.splits)
  from same_block_fields [OF list_all2_nthD [OF this, of a]] assms
  show "B_ID (snd ?s ! a) = B_ID (snd s ! a)" by (simp add: valid_jobs_def)
qed

lemma run_seq_accepts:
  "valid_jobs s us \<Longrightarrow> run_seq verify_accept s us =
     (accept_stores {a \<in> set us. block_Verify (fst s) (snd s ! a) = None} s,
      map (\<lambda>a. (B_ID (snd s ! a), block_Verify (fst s) (snd s ! a))) us)"
proof (induction us arbitrary: s)
  case (Cons u us)
  let ?G = "\<lambda>us. {a \<in> set us. block_Verify (fst s) (snd s ! a) = None}"
  obtain s1 r where w: "verify_accept s u = (s1, r)" by (cases "verify_accept s u")
  have valid: "valid_jobs s [a]" if "a \<in> set (u # us)" for a
    using Cons.prems that by (auto simp: valid_jobs_def)
  have "valid_jobs s us" using Cons.prems by (simp add: valid_jobs_def)
  then have v1: "valid_jobs s1 us" using valid_jobs_work [of s us u] by (simp add: w)
  have same: "block_Verify (fst s1) (snd s1 ! a) = block_Verify (fst s) (snd s ! a)" "B_ID (snd s1 ! a) = B_ID (snd s ! a)"
    if "a \<in> set us" for a
    using verify_after_work [OF valid, of a u] that by (simp_all add: w)
  have G: "{a \<in> set us. block_Verify (fst s1) (snd s1 ! a) = None} = ?G us" using same by auto
  have seq: "run_seq verify_accept s1 us = (accept_stores (?G us) s1, map (\<lambda>a. (B_ID (snd s ! a), block_Verify (fst s) (snd s ! a))) us)"
    using Cons.IH [OF v1] same unfolding G by simp
  have u: "u < length (snd s)" "?G us \<subseteq> {..<length (snd s)}" using Cons.prems by (auto simp: valid_jobs_def)
  have "accept_stores (?G us) s1 = accept_stores (?G (u # us)) s"
  proof (cases "block_Verify (fst s) (snd s ! u) = None")
    case True
    then have "s1 = accept_stores {u} s" "?G (u # us) = insert u (?G us)" using verify_accept_stores [OF valid, of u] w by auto
    then show ?thesis using accept_stores_insert [OF u] by simp
  next
    case False
    then have "s1 = s" "?G (u # us) = ?G us" using verify_accept_stores [OF valid, of u] w by auto
    then show ?thesis by simp
  qed
  with seq w verify_accept_stores [OF valid, of u] show ?case by simp
qed simp

lemma commit_results_maps:
  "\<forall>r \<in> set rs. fst r \<in> dom (blocks bc) \<Longrightarrow>
   commit_results rs bc = Ret (bc\<lparr>
     acceptedBlocks := (\<lambda>k. if (k, None) \<in> set rs then blocks bc k else acceptedBlocks bc k),
     pendingBlocks := (\<lambda>k. if (k, None) \<in> set rs then None else pendingBlocks bc k)\<rparr>)"
proof (induction rs arbitrary: bc)
  case (Cons r rs)
  then obtain a where a: "blocks bc (fst r) = Some a" by auto
  show ?case
  proof (cases "snd r")
    case None
    let ?bc = "bc\<lparr>acceptedBlocks := (acceptedBlocks bc)(fst r \<mapsto> a), pendingBlocks := (pendingBlocks bc)(fst r := None)\<rparr>"
    have "commit_result r bc = Ret ?bc" using None a by (cases r) (simp add: commit_result_def)
    then have "commit_results (r # rs) bc = commit_results rs ?bc" by simp
    also have "\<dots> = Ret (?bc\<lparr>
        acceptedBlocks := (\<lambda>k. if (k, None) \<in> set rs then blocks ?bc k else acceptedBlocks ?bc k),
        pendingBlocks := (\<lambda>k. if (k, None) \<in> set rs then None else pendingBlocks ?bc k)\<rparr>)"
      by (rule Cons.IH) (use Cons.prems in simp)
    also have "\<dots> = Ret (bc\<lparr>
        acceptedBlocks := (\<lambda>k. if (k, None) \<in> set (r # rs) then blocks bc k else acceptedBlocks bc k),
        pendingBlocks := (\<lambda>k. if (k, None) \<in> set (r # rs) then None else pendingBlocks bc k)\<rparr>)"
    proof -
      have "(fst r, None) = r" using None by (cases r) simp
      then show ?thesis using a by (intro arg_cong [where f = Ret] blockchain.equality) (auto simp: fun_eq_iff)
    qed
    finally show ?thesis .
  next
    case (Some err)
    then have "commit_result r bc = Ret bc" "\<And>k. (k, None) \<noteq> r" by (cases r; simp add: commit_result_def)+
    with Cons show ?thesis by simp
  qed
qed simp

lemma commit_results_inv: "chain_inv bc \<Longrightarrow> commit_results rs bc = Ret bc' \<Longrightarrow> chain_inv bc'"
  by (induction rs arbitrary: bc) (auto split: go.splits intro: chain_inv_commit)

lemma pending_valid:
  assumes inv: "chain_inv bc" and p: "pendingBlocks bc k = Some a"
  shows "a < length (blks bc) \<and> B_ID (blks bc ! a) = k \<and> blocks bc k = Some a \<and> valid_jobs (txs bc, blks bc) [a]"
proof -
  from inv p have b: "blocks bc k = Some a" by (auto simp: chain_inv_def map_le_def dom_def)
  with inv have a: "a < length (blks bc)" "B_ID (blks bc ! a) = k" by (auto simp: chain_inv_def dest: keyedD)
  then have "blks bc ! a \<in> set (blks bc)" by simp
  with inv a b show ?thesis unfolding chain_inv_def valid_jobs_def by simp
qed

text \<open>The blocks a call should accept: pending, and all their transactions verify.\<close>

definition valid_pending :: "blockchain \<Rightarrow> nat set" where
  "valid_pending bc = {a. \<exists>k. pendingBlocks bc k = Some a \<and> block_Verify (txs bc) (blks bc ! a) = None}"

text \<open>What the workers of one call leave: the stores, and results for exactly the pending blocks.\<close>

lemma pending_loop:
  assumes inv: "chain_inv bc" and ks: "range_order (pendingBlocks bc) ks" and l: "pending_state ks bc l" "loop_done l"
  shows "shared l = accept_stores (valid_pending bc) (txs bc, blks bc)"
    and "chain_inv (bc\<lparr>txs := fst (shared l), blks := snd (shared l)\<rparr>)"
    and "\<And>k e. (k, e) \<in> set (sent l) \<longleftrightarrow>
      (\<exists>a. pendingBlocks bc k = Some a \<and> block_Verify (txs bc) (blks bc ! a) = e)"
proof -
  let ?s = "(txs bc, blks bc)"
  obtain us rs where us: "mset us = mset (snapshot ks bc)" and seq: "run_seq verify_accept ?s us = (shared l, rs)"
    and sent: "mset (sent l) = mset rs" using loop_done_linearised [OF l(1) [unfolded pending_state_def] l(2)] by blast
  have "set us = set (snapshot ks bc)" using us by (rule mset_eq_setD)
  also have "\<dots> = {a. \<exists>k. pendingBlocks bc k = Some a}"
    using range_orderD(2) [OF ks] by (force simp: snapshot_def)
  finally have set_us: "set us = {a. \<exists>k. pendingBlocks bc k = Some a}" .
  have valid: "valid_jobs ?s us"
    using pending_valid [OF inv] set_us by (auto simp: valid_jobs_def)
  note acc = run_seq_accepts [OF valid]
  have "{a \<in> set us. block_Verify (txs bc) (blks bc ! a) = None} = valid_pending bc"
    by (auto simp: set_us valid_pending_def)
  then show "shared l = accept_stores (valid_pending bc) ?s" using acc seq by simp
  have same: "same_stores ?s (shared l)" by (rule work.reach_inv [OF l(1) [unfolded pending_state_def]]) simp
  then show "chain_inv (bc\<lparr>txs := fst (shared l), blks := snd (shared l)\<rparr>)"
    using chain_inv_same_stores [OF inv, of "fst (shared l)" "snd (shared l)"] by simp
  have "set (sent l) = set rs" using sent by (rule mset_eq_setD)
  also have "\<dots> = {(B_ID (blks bc ! a), block_Verify (txs bc) (blks bc ! a)) | a. \<exists>k. pendingBlocks bc k = Some a}"
    using acc seq set_us by auto
  finally show "(k, e) \<in> set (sent l) \<longleftrightarrow>
      (\<exists>a. pendingBlocks bc k = Some a \<and> block_Verify (txs bc) (blks bc ! a) = e)" for k e
    using pending_valid [OF inv] by fastforce
qed

text \<open>The blockchain after a call.\<close>

definition accept_valid :: "blockchain \<Rightarrow> blockchain" where
  "accept_valid bc = bc\<lparr>
     txs := fst (accept_stores (valid_pending bc) (txs bc, blks bc)),
     blks := snd (accept_stores (valid_pending bc) (txs bc, blks bc)),
     acceptedBlocks := (\<lambda>k. if pendingBlocks bc k \<in> Some ` valid_pending bc then pendingBlocks bc k else acceptedBlocks bc k),
     pendingBlocks := (\<lambda>k. if pendingBlocks bc k \<in> Some ` valid_pending bc then None else pendingBlocks bc k)\<rparr>"

lemma ProcessPendingBlocks_outcome:
  assumes inv: "chain_inv bc" and ks: "range_order (pendingBlocks bc) ks" and p: "ProcessPendingBlocks ks bc out"
  shows "out = Ret (accept_valid bc) \<and> chain_inv (accept_valid bc)"
proof -
  obtain l where l: "pending_state ks bc l" "loop_done l"
    and out: "out = commit_results (sent l) (bc\<lparr>txs := fst (shared l), blks := snd (shared l)\<rparr>)"
    using p by (auto simp: ProcessPendingBlocks_def)
  note loop = pending_loop [OF inv ks l]
  have sent: "(k, None) \<in> set (sent l) \<longleftrightarrow> pendingBlocks bc k \<in> Some ` valid_pending bc" for k
    unfolding loop(3) by (auto simp: valid_pending_def)
  have blocks: "blocks bc k = pendingBlocks bc k" if "pendingBlocks bc k \<in> Some ` valid_pending bc" for k
    using that pending_valid [OF inv, of k] by (auto simp: valid_pending_def)
  have "\<forall>r \<in> set (sent l). fst r \<in> dom (blocks (bc\<lparr>txs := fst (shared l), blks := snd (shared l)\<rparr>))"
    using loop(3) pending_valid [OF inv] by fastforce
  from commit_results_maps [OF this] have "out = Ret (accept_valid bc)"
    unfolding out accept_valid_def by (simp add: sent loop(1) blocks cong: if_cong)
  moreover have "chain_inv (accept_valid bc)" using commit_results_inv [OF loop(2)] out calculation by metis
  ultimately show ?thesis by simp
qed

text \<open>
  C34. Every schedule of the workers of \<^verbatim>\<open>ProcessPendingBlocks\<close> ends, and all of them have the same outcome:
  no panic, and a blockchain in which exactly the pending blocks whose transactions all verify have
  been accepted. Such a block has moved from the pending to the accepted map, and it and its transactions have status accepted.
  Nothing else has changed: a block that fails verification keeps its status and stays pending, to be verified again
  by every later call, and no transaction outside the accepted blocks is touched.
\<close>

theorem ProcessPendingBlocks_accepts:
  assumes inv: "chain_inv bc" and ks: "range_order (pendingBlocks bc) ks"
  shows "every_schedule_ends (nat (bc_maxWorkers bc)) verify_accept (pending_state ks bc) \<and>
    (\<exists>bc'. (\<forall>out. ProcessPendingBlocks ks bc out \<longleftrightarrow> out = Ret bc') \<and> chain_inv bc' \<and>
      bc' = bc\<lparr>txs := txs bc', blks := blks bc', acceptedBlocks := acceptedBlocks bc', pendingBlocks := pendingBlocks bc'\<rparr> \<and>
      (\<forall>k. (\<exists>a. pendingBlocks bc k = Some a \<and> a \<in> valid_pending bc \<and> pendingBlocks bc' k = None \<and> acceptedBlocks bc' k = Some a) \<or>
         \<not> (\<exists>a. pendingBlocks bc k = Some a \<and> a \<in> valid_pending bc) \<and>
         pendingBlocks bc' k = pendingBlocks bc k \<and> acceptedBlocks bc' k = acceptedBlocks bc k) \<and>
      blks bc' = map (\<lambda>a. if a \<in> valid_pending bc then (blks bc ! a)\<lparr>b_status := Accepted\<rparr> else blks bc ! a) [0..<length (blks bc)] \<and>
      txs bc' = map (\<lambda>t. if \<exists>a \<in> valid_pending bc. t \<in> set (Transactions (blks bc ! a))
         then (txs bc ! t)\<lparr>t_status := Accepted\<rparr> else txs bc ! t) [0..<length (txs bc)])"
proof (intro conjI exI [of _ "accept_valid bc"])
  let ?n = "nat (bc_maxWorkers bc)" and ?s = "(txs bc, blks bc)"
  have n: "0 < ?n" using inv by (simp add: chain_inv_def)
  have state: "pending_state ks bc = loop_reach ?n verify_accept (snapshot ks bc) ?s" by (simp add: pending_state_def fun_eq_iff)
  show "every_schedule_ends ?n verify_accept (pending_state ks bc)"
    unfolding state by (rule loop_every_schedule_ends [OF n])
  have "\<exists>out. ProcessPendingBlocks ks bc out"
    using loop_can_finish [OF n loop_reach.start, of verify_accept "snapshot ks bc" ?s]
    unfolding ProcessPendingBlocks_def state by blast
  then obtain out where out: "ProcessPendingBlocks ks bc out" ..
  note outcome = ProcessPendingBlocks_outcome [OF inv ks]
  show "\<forall>out. ProcessPendingBlocks ks bc out \<longleftrightarrow> out = Ret (accept_valid bc)" using outcome out by metis
  show "chain_inv (accept_valid bc)" using outcome [OF out] by simp
  show "\<forall>k. (\<exists>a. pendingBlocks bc k = Some a \<and> a \<in> valid_pending bc \<and> pendingBlocks (accept_valid bc) k = None \<and> acceptedBlocks (accept_valid bc) k = Some a) \<or>
      \<not> (\<exists>a. pendingBlocks bc k = Some a \<and> a \<in> valid_pending bc) \<and>
      pendingBlocks (accept_valid bc) k = pendingBlocks bc k \<and> acceptedBlocks (accept_valid bc) k = acceptedBlocks bc k"
    by (auto simp: accept_valid_def)
qed (auto simp: accept_valid_def accept_stores_def)

text \<open>Two pending blocks, one of which has a transaction of amount zero.\<close>

definition mixed_pending :: blockchain where
  "mixed_pending =
     (let bc = NewBlockchain height_hash 0 4;
          bc = bc\<lparr>txs := [NewTransaction height_hash [1] [2] 0 0]\<rparr>;
          bc = bc\<lparr>blks := blks bc @ [NewBlock height_hash 0 [] [] 1]\<rparr>;
          bc = bc\<lparr>blks := blks bc @ [NewBlock height_hash 0 [] [0] 2]\<rparr>
      in SubmitBlock 2 (SubmitBlock 1 bc))"

lemma mixed_pending_inv: "chain_inv mixed_pending"
  unfolding mixed_pending_def Let_def
  by (intro chain_inv_SubmitBlock chain_inv_new_block) (simp_all add: chain_inv_def NewBlockchain_def Let_def keyed_def
      createGenesisBlock_def block_Accept_eq NewBlock_def covers_def within_def SubmitBlock_def)

lemma mixed_pending_fields:
  "pendingBlocks mixed_pending = [replicate 32 1 \<mapsto> 1, replicate 32 2 \<mapsto> 2]"
  "txs mixed_pending = [NewTransaction height_hash [1] [2] 0 0]" "length (blks mixed_pending) = 3"
  "Transactions (blks mixed_pending ! 1) = []" "Transactions (blks mixed_pending ! 2) = [0]" "b_status (blks mixed_pending ! 2) = Processing"
  by (simp_all add: mixed_pending_def SubmitBlock_def NewBlockchain_def Let_def genesis_ID NewBlock_def height_hash_def
      block_generateBytes_def be64_def nth_append)

theorem ProcessPendingBlocks_accepts_witness:
  "\<exists>bc'. ProcessPendingBlocks [replicate 32 1, replicate 32 2] mixed_pending (Ret bc') \<and>
     acceptedBlocks bc' (replicate 32 1) = Some 1 \<and> b_status (blks bc' ! 1) = Accepted \<and>
     pendingBlocks bc' (replicate 32 2) = Some 2 \<and> b_status (blks bc' ! 2) = Processing"
proof -
  let ?bc = mixed_pending
  have ks: "range_order (pendingBlocks ?bc) [replicate 32 1, replicate 32 2]"
    by (auto simp: range_order_def mixed_pending_fields)
  have v: "valid_pending ?bc = {1}"
    by (auto simp: valid_pending_def mixed_pending_fields block_Verify_def txn_Verify_def NewTransaction_def Let_def split: if_splits simp del: One_nat_def)
  from ProcessPendingBlocks_accepts [OF mixed_pending_inv ks] obtain bc' where
    p: "ProcessPendingBlocks [replicate 32 1, replicate 32 2] ?bc (Ret bc')" and
    k: "\<And>k. (\<exists>a. pendingBlocks ?bc k = Some a \<and> a \<in> valid_pending ?bc \<and> pendingBlocks bc' k = None \<and> acceptedBlocks bc' k = Some a) \<or>
      \<not> (\<exists>a. pendingBlocks ?bc k = Some a \<and> a \<in> valid_pending ?bc) \<and>
      pendingBlocks bc' k = pendingBlocks ?bc k \<and> acceptedBlocks bc' k = acceptedBlocks ?bc k" and
    b: "blks bc' = map (\<lambda>a. if a \<in> valid_pending ?bc then (blks ?bc ! a)\<lparr>b_status := Accepted\<rparr> else blks ?bc ! a) [0..<length (blks ?bc)]"
    by blast
  have "acceptedBlocks bc' (replicate 32 1) = Some 1" "pendingBlocks bc' (replicate 32 2) = Some 2"
    using k [of "replicate 32 1"] k [of "replicate 32 2"] by (auto simp: v mixed_pending_fields)
  moreover have "b_status (blks bc' ! 1) = Accepted" "b_status (blks bc' ! 2) = Processing"
    by (simp_all add: b v mixed_pending_fields(3,6) mixed_pending_fields(6) [unfolded numeral_2_eq_2])
  ultimately show ?thesis using p by blast
qed

end
