(* ===== verification/Node.thy ===== *)
theory Node
  imports Blockchain
begin

text \<open>
  pkg/blockchain/node.go: the life cycle of a node and its HTTP handlers. A handler gets the request
  method and what decoding the body or the query parameter gave; the string form of IDs
  (\<^verbatim>\<open>ids.FromString\<close>, default/ids) is an argument of the handlers that parse one. An error reply is
  its status code. A transaction object that no map refers to after a failed request is dropped.
\<close>

section \<open>Life cycle\<close>

text \<open>
  \<open>consensus_loops\<close> counts the \<^verbatim>\<open>RunConsensus\<close> goroutines whose context has not been cancelled;
  \<open>cancel_stored\<close> says whether a cancel function is stored in \<^verbatim>\<open>shutdownCtxCancel\<close>.
\<close>

record node =
  n_blockchain :: blockchain
  n_running :: bool
  consensus_loops :: nat
  cancel_stored :: bool
  server_up :: bool

definition NewNode :: "(bytes \<Rightarrow> ID) \<Rightarrow> 64 word \<Rightarrow> int \<Rightarrow> node" where
  "NewNode sha256 now maxParallelism =
     \<lparr>n_blockchain = NewBlockchain sha256 now maxParallelism, n_running = False, consensus_loops = 0,
      cancel_stored = False, server_up = False\<rparr>"

definition Start :: "node \<Rightarrow> node \<times> go_error option" where
  "Start n =
     (if n_running n then (n, Some (Err ''node already running''))
      else (n\<lparr>consensus_loops := Suc (consensus_loops n), cancel_stored := True, server_up := True,
              n_running := True\<rparr>, None))"

text \<open>\<open>shutdown\<close>: what \<^verbatim>\<open>http.Server.Shutdown\<close> returns.\<close>

definition Stop :: "go_error option \<Rightarrow> node \<Rightarrow> node \<times> go_error option" where
  "Stop shutdown n =
     (if \<not> n_running n then (n, Some (Err ''node not running''))
      else case shutdown of
             Some err \<Rightarrow> (n\<lparr>server_up := False\<rparr>, Some (Wrap ''server shutdown error'' err))
           | None \<Rightarrow> (n\<lparr>server_up := False, n_running := False\<rparr>, None))"

section \<open>Handlers\<close>

datatype http_method = MethodGet | MethodPost | MethodOther

datatype 'r reply = HttpError nat | Reply 'r

definition StatusBadRequest :: nat where "StatusBadRequest = 400"
definition StatusNotFound :: nat where "StatusNotFound = 404"
definition StatusMethodNotAllowed :: nat where "StatusMethodNotAllowed = 405"

lemmas status_codes = StatusBadRequest_def StatusNotFound_def StatusMethodNotAllowed_def

record submit_request =
  rq_Sender :: bytes
  rq_Recipient :: bytes
  rq_Amount :: uint64
  rq_Nonce :: uint64
  rq_Key :: bytes

definition handleSubmitTransaction ::
  "(bytes \<Rightarrow> ID) \<Rightarrow> http_method \<Rightarrow> submit_request res \<Rightarrow> blockchain \<Rightarrow> ID reply \<times> blockchain" where
  "handleSubmitTransaction sha256 meth body bc =
     (if meth \<noteq> MethodPost then (HttpError StatusMethodNotAllowed, bc)
      else case body of
        Inl err \<Rightarrow> (HttpError StatusBadRequest, bc)
      | Inr req \<Rightarrow>
          (case SignTransaction (rq_Key req)
                  (NewTransaction sha256 (rq_Sender req) (rq_Recipient req) (rq_Amount req) (rq_Nonce req)) of
             (tx, Some err) \<Rightarrow> (HttpError StatusBadRequest, bc)
           | (tx, None) \<Rightarrow>
               (case AddTransaction (length (txs bc)) (bc\<lparr>txs := txs bc @ [tx]\<rparr>) of
                  (bc', Some err) \<Rightarrow> (HttpError StatusBadRequest, bc)
                | (bc', None) \<Rightarrow> (Reply (T_ID tx), bc'))))"

record tx_view =
  tv_ID :: ID
  tv_Sender :: bytes
  tv_Recipient :: bytes
  tv_Amount :: uint64
  tv_Nonce :: uint64
  tv_Status :: string

text \<open>\<open>ks\<close>: the order of the range over the blocks.\<close>

definition handleGetTransaction ::
  "(bytes \<Rightarrow> ID res) \<Rightarrow> ID list \<Rightarrow> http_method \<Rightarrow> bytes \<Rightarrow> blockchain \<Rightarrow> tx_view reply" where
  "handleGetTransaction fromString ks meth idStr bc =
     (if meth \<noteq> MethodGet then HttpError StatusMethodNotAllowed
      else if idStr = [] then HttpError StatusBadRequest
      else case fromString idStr of
        Inl err \<Rightarrow> HttpError StatusBadRequest
      | Inr i \<Rightarrow>
          (case GetTransaction ks i bc of
             Inl err \<Rightarrow> HttpError StatusNotFound
           | Inr a \<Rightarrow>
               (let tx = txs bc ! a in
                Reply \<lparr>tv_ID = T_ID tx, tv_Sender = Sender tx, tv_Recipient = Recipient tx,
                       tv_Amount = Amount tx, tv_Nonce = Nonce tx, tv_Status = status_String (t_status tx)\<rparr>)))"

fun parse_ids :: "(bytes \<Rightarrow> ID res) \<Rightarrow> bytes list \<Rightarrow> ID list res" where
  "parse_ids fromString [] = Inr []"
| "parse_ids fromString (s # ss) =
     (case fromString s of
        Inl err \<Rightarrow> Inl err
      | Inr i \<Rightarrow> (case parse_ids fromString ss of Inl err \<Rightarrow> Inl err | Inr is \<Rightarrow> Inr (i # is)))"

record block_created =
  bk_ID :: ID
  bk_Height :: uint64
  bk_TxIDs :: "ID list"

text \<open>
  \<open>ks\<close>: the order of the range over the pool. A panic of \<^verbatim>\<open>CreateBlock\<close> ends the request; the
  HTTP server recovers it.
\<close>

definition handleCreateBlock ::
  "(bytes \<Rightarrow> ID) \<Rightarrow> (bytes \<Rightarrow> ID res) \<Rightarrow> 64 word \<Rightarrow> ID list \<Rightarrow> http_method \<Rightarrow> (bytes list \<times> int) res \<Rightarrow>
   blockchain \<Rightarrow> (block_created reply \<times> blockchain) go" where
  "handleCreateBlock sha256 fromString now ks meth body bc =
     (if meth \<noteq> MethodPost then Ret (HttpError StatusMethodNotAllowed, bc)
      else case body of
        Inl err \<Rightarrow> Ret (HttpError StatusBadRequest, bc)
      | Inr (parents, maxTxs) \<Rightarrow>
          (case parse_ids fromString parents of
             Inl err \<Rightarrow> Ret (HttpError StatusBadRequest, bc)
           | Inr parentIDs \<Rightarrow>
               (case CreateBlock sha256 now ks parentIDs maxTxs bc of
                  Panic m \<Rightarrow> Panic m
                | Block \<Rightarrow> Block
                | Ret (Inl err, bc') \<Rightarrow> Ret (HttpError StatusBadRequest, bc')
                | Ret (Inr a, bc') \<Rightarrow>
                    (let bc' = SubmitBlock a bc'; b = blks bc' ! a in
                     Ret (Reply \<lparr>bk_ID = B_ID b, bk_Height = B_Height b,
                                 bk_TxIDs = map (\<lambda>t. T_ID (txs bc' ! t)) (Transactions b)\<rparr>, bc')))))"

record block_view =
  bv_ID :: ID
  bv_ParentIDs :: "ID list"
  bv_Height :: uint64
  bv_Status :: string
  bv_TxIDs :: "ID list"

definition handleGetBlock :: "(bytes \<Rightarrow> ID res) \<Rightarrow> http_method \<Rightarrow> bytes \<Rightarrow> blockchain \<Rightarrow> block_view reply" where
  "handleGetBlock fromString meth idStr bc =
     (if meth \<noteq> MethodGet then HttpError StatusMethodNotAllowed
      else if idStr = [] then HttpError StatusBadRequest
      else case fromString idStr of
        Inl err \<Rightarrow> HttpError StatusBadRequest
      | Inr i \<Rightarrow>
          (case GetBlock i bc of
             Inl err \<Rightarrow> HttpError StatusNotFound
           | Inr a \<Rightarrow>
               (let b = blks bc ! a in
                Reply \<lparr>bv_ID = B_ID b, bv_ParentIDs = ParentIDs b, bv_Height = B_Height b,
                       bv_Status = status_String (b_status b),
                       bv_TxIDs = map (\<lambda>t. T_ID (txs bc ! t)) (Transactions b)\<rparr>)))"

definition handleGetBlockchainHeight :: "http_method \<Rightarrow> blockchain \<Rightarrow> uint64 reply" where
  "handleGetBlockchainHeight meth bc =
     (if meth \<noteq> MethodGet then HttpError StatusMethodNotAllowed else Reply (GetBlockchainHeight bc))"

definition handleGetLatestBlocks :: "ID list \<Rightarrow> http_method \<Rightarrow> blockchain \<Rightarrow> (ID \<times> uint64) list reply" where
  "handleGetLatestBlocks ks meth bc =
     (if meth \<noteq> MethodGet then HttpError StatusMethodNotAllowed
      else Reply (map (\<lambda>a. (B_ID (blks bc ! a), B_Height (blks bc ! a))) (GetLatestBlocks ks bc)))"

section \<open>Properties\<close>

text \<open>
  C36. A submitted transaction can be read back: when the submit request succeeds, which it does
  exactly for a POST with a decodable body, a key, a sender, a recipient, a positive amount and an
  ID not in the pool, a GET with the string of the returned ID replies with the fields of the
  request and status Processing. Otherwise the reply is 405 or 400 and nothing changes.
\<close>

definition valid_submit :: "(bytes \<Rightarrow> ID) \<Rightarrow> submit_request \<Rightarrow> blockchain \<Rightarrow> bool" where
  "valid_submit sha256 req bc \<longleftrightarrow> rq_Key req \<noteq> [] \<and> rq_Sender req \<noteq> [] \<and> rq_Recipient req \<noteq> [] \<and>
     rq_Amount req \<noteq> 0 \<and>
     txPool bc (T_ID (NewTransaction sha256 (rq_Sender req) (rq_Recipient req) (rq_Amount req) (rq_Nonce req))) = None"

theorem submit_then_get:
  assumes parse: "\<And>i. fromString (toString i) = Inr i" and nonempty: "\<And>i. toString i \<noteq> []"
  shows "(case handleSubmitTransaction sha256 meth body bc of
       (Reply i, bc') \<Rightarrow> meth = MethodPost \<and>
         (\<exists>req. body = Inr req \<and> valid_submit sha256 req bc \<and>
            handleGetTransaction fromString ks MethodGet (toString i) bc' =
              Reply \<lparr>tv_ID = i, tv_Sender = rq_Sender req, tv_Recipient = rq_Recipient req,
                     tv_Amount = rq_Amount req, tv_Nonce = rq_Nonce req, tv_Status = ''Processing''\<rparr>)
     | (HttpError code, bc') \<Rightarrow> bc' = bc \<and>
         (if meth \<noteq> MethodPost then code = 405
          else code = 400 \<and> (\<forall>req. body = Inr req \<longrightarrow> \<not> valid_submit sha256 req bc)))"
proof (cases "meth = MethodPost \<and> (\<exists>req. body = Inr req)")
  case False
  then show ?thesis
    by (cases body) (auto simp: handleSubmitTransaction_def status_codes)
next
  case True
  then obtain req where m: "meth = MethodPost" and body: "body = Inr req" by blast
  define tx where "tx = NewTransaction sha256 (rq_Sender req) (rq_Recipient req) (rq_Amount req) (rq_Nonce req)"
  have fields: "Sender tx = rq_Sender req" "Recipient tx = rq_Recipient req" "Amount tx = rq_Amount req"
    "Nonce tx = rq_Nonce req" "t_status tx = Processing"
    by (simp_all add: tx_def NewTransaction_def Let_def)
  have str: "status_String Processing = ''Processing''"
    by (simp add: status_String_def status_defs)
  show ?thesis
    using parse nonempty
    by (auto simp: m body handleSubmitTransaction_def SignTransaction_def AddTransaction_def txn_Verify_def Let_def
        valid_submit_def handleGetTransaction_def GetTransaction_def status_codes fields str simp flip: tx_def)
qed

theorem submit_then_get_witness:
  "\<exists>bc'. handleSubmitTransaction (\<lambda>_. replicate 32 9) MethodPost
       (Inr \<lparr>rq_Sender = [1], rq_Recipient = [2], rq_Amount = 3, rq_Nonce = 4, rq_Key = [5]\<rparr>)
       (NewBlockchain (\<lambda>_. replicate 32 8) 0 4) = (Reply (replicate 32 9), bc') \<and>
     handleGetTransaction (\<lambda>s. Inr (tl s)) [] MethodGet (0 # replicate 32 9) bc' =
       Reply \<lparr>tv_ID = replicate 32 9, tv_Sender = [1], tv_Recipient = [2], tv_Amount = 3, tv_Nonce = 4,
              tv_Status = ''Processing''\<rparr>"
proof -
  let ?req = "\<lparr>rq_Sender = [1], rq_Recipient = [2], rq_Amount = 3, rq_Nonce = 4, rq_Key = [5]\<rparr>"
  let ?h = "handleSubmitTransaction (\<lambda>_. replicate 32 9) MethodPost (Inr ?req) (NewBlockchain (\<lambda>_. replicate 32 8) 0 4)"
  have "\<exists>bc'. ?h = (Reply (replicate 32 9), bc')"
    by (simp add: handleSubmitTransaction_def SignTransaction_def AddTransaction_def txn_Verify_def Let_def
        NewTransaction_def NewBlockchain_def)
  then obtain bc' where h: "?h = (Reply (replicate 32 9), bc')" ..
  from submit_then_get [where fromString = "\<lambda>s. Inr (tl s)" and toString = "\<lambda>i. 0 # i" and ?sha256.0 = "\<lambda>_. replicate 32 9"
      and meth = MethodPost and body = "Inr ?req" and bc = "NewBlockchain (\<lambda>_. replicate 32 8) 0 4" and ks = "[]"] h
  show ?thesis by auto
qed

text \<open>
  A successful block creation request leaves the new block among the latest blocks, at a height
  not above the chain's, its parents no longer among them (unless one is the block itself), and
  reading the block back by its ID gives the parents and transaction IDs of the reply. A request with
  a negative \<^verbatim>\<open>maxTxs\<close> and known parents panics; every other failure is a 4xx reply that leaves the
  chain as it was.
\<close>

lemma SubmitBlock_frame [simp]:
  "blks (SubmitBlock a bc) = blks bc" "txs (SubmitBlock a bc) = txs bc" "txPool (SubmitBlock a bc) = txPool bc"
  by (simp_all add: SubmitBlock_def Let_def)

lemma SubmitBlock_latest:
  "latestBlocks (SubmitBlock a bc) =
     ((latestBlocks bc) |` (- set (ParentIDs (blks bc ! a))))(B_ID (blks bc ! a) \<mapsto> a)"
  by (simp add: SubmitBlock_def Let_def)

lemma SubmitBlock_blocks: "blocks bc (B_ID (blks bc ! a)) = Some a \<Longrightarrow> blocks (SubmitBlock a bc) = blocks bc"
  by (simp add: SubmitBlock_def Let_def)

lemma SubmitBlock_height: "B_Height (blks bc ! a) \<le> currentHeight (SubmitBlock a bc)"
  by (simp add: SubmitBlock_def Let_def not_less)

lemma CreateBlock_result:
  "CreateBlock sha256 now ks ps n bc = Ret (Inr a, bc') \<Longrightarrow>
   a < length (blks bc') \<and> ParentIDs (blks bc' ! a) = ps \<and> blocks bc' (B_ID (blks bc' ! a)) = Some a"
  by (auto simp: CreateBlock_def Let_def split: if_splits prod.splits)

lemma CreateBlock_error: "CreateBlock sha256 now ks ps n bc = Ret (Inl err, bc') \<Longrightarrow> bc' = bc"
  by (auto simp: CreateBlock_def Let_def split: if_splits prod.splits)

theorem create_then_get:
  assumes parse: "\<And>i. fromString (toString i) = Inr i" and nonempty: "\<And>i. toString i \<noteq> []"
  shows "(case handleCreateBlock sha256 fromString now ks meth body bc of
       Ret (Reply r, bc') \<Rightarrow>
         (\<exists>strs n ps a. meth = MethodPost \<and> body = Inr (strs, n) \<and> parse_ids fromString strs = Inr ps \<and>
            latestBlocks bc' (bk_ID r) = Some a \<and> bk_Height r \<le> GetBlockchainHeight bc' \<and>
            (\<forall>p \<in> set ps - {bk_ID r}. latestBlocks bc' p = None) \<and>
            (\<exists>st. handleGetBlock fromString MethodGet (toString (bk_ID r)) bc' =
               Reply \<lparr>bv_ID = bk_ID r, bv_ParentIDs = ps, bv_Height = bk_Height r, bv_Status = st, bv_TxIDs = bk_TxIDs r\<rparr>))
     | Ret (HttpError code, bc') \<Rightarrow> code \<in> {400, 405} \<and> bc' = bc
     | Panic m \<Rightarrow> (\<exists>strs n. body = Inr (strs, n) \<and> n < 0)
     | Block \<Rightarrow> False)"
proof (cases "meth = MethodPost \<and> (\<exists>strs n ps. body = Inr (strs, n) \<and> parse_ids fromString strs = Inr ps)")
  case False
  then show ?thesis
    by (auto simp: handleCreateBlock_def status_codes split: sum.splits)
next
  case True
  then obtain strs n ps where m: "meth = MethodPost" and body: "body = Inr (strs, n)"
    and ps: "parse_ids fromString strs = Inr ps" by blast
  show ?thesis
  proof (cases "CreateBlock sha256 now ks ps n bc")
    case (Panic msg)
    then have "n < 0" by (auto simp: CreateBlock_def Let_def split: if_splits prod.splits)
    with Panic m body ps show ?thesis by (simp add: handleCreateBlock_def)
  next
    case Block
    then show ?thesis by (auto simp: CreateBlock_def Let_def split: if_splits prod.splits)
  next
    case (Ret out)
    obtain r bc' where out: "out = (r, bc')" by (cases out)
    show ?thesis
    proof (cases r)
      case (Inl err)
      with Ret out CreateBlock_error have "bc' = bc" by blast
      with Inl Ret out m body ps show ?thesis by (simp add: handleCreateBlock_def status_codes)
    next
      case (Inr a)
      with Ret out have c: "CreateBlock sha256 now ks ps n bc = Ret (Inr a, bc')" by simp
      note res = CreateBlock_result [OF c]
      let ?b = "blks bc' ! a" and ?bc = "SubmitBlock a bc'"
      have h: "handleCreateBlock sha256 fromString now ks meth body bc =
          Ret (Reply \<lparr>bk_ID = B_ID ?b, bk_Height = B_Height ?b, bk_TxIDs = map (\<lambda>t. T_ID (txs bc' ! t)) (Transactions ?b)\<rparr>, ?bc)"
        by (simp add: handleCreateBlock_def m body ps c Let_def)
      have get: "handleGetBlock fromString MethodGet (toString (B_ID ?b)) ?bc =
          Reply \<lparr>bv_ID = B_ID ?b, bv_ParentIDs = ps, bv_Height = B_Height ?b,
                 bv_Status = status_String (b_status ?b), bv_TxIDs = map (\<lambda>t. T_ID (txs bc' ! t)) (Transactions ?b)\<rparr>"
        using res by (simp add: handleGetBlock_def parse nonempty GetBlock_def SubmitBlock_blocks Let_def)
      show ?thesis
        unfolding h using get res SubmitBlock_height [of bc' a] m body ps
        by (simp add: SubmitBlock_latest GetBlockchainHeight_def restrict_map_def)
    qed
  qed
qed

theorem create_then_get_witness:
  "\<exists>r bc'. handleCreateBlock (\<lambda>bs. replicate 32 (bs ! 7)) (\<lambda>s. Inr (tl s)) 0 [] MethodPost (Inr ([0 # replicate 32 0], 5))
       (NewBlockchain (\<lambda>bs. replicate 32 (bs ! 7)) 0 4) = Ret (Reply r, bc') \<and> bk_Height r \<le> GetBlockchainHeight bc'"
proof -
  let ?sha = "\<lambda>bs. replicate 32 (bs ! 7) :: ID" and ?from = "\<lambda>s. Inr (tl s) :: ID res"
  let ?h = "handleCreateBlock ?sha ?from 0 [] MethodPost (Inr ([0 # replicate 32 0], 5)) (NewBlockchain ?sha 0 4)"
  have gen: "B_ID (createGenesisBlock ?sha 0) = replicate 32 0"
    by (simp add: createGenesisBlock_def block_Accept_eq NewBlock_def Let_def block_generateBytes_def be64_def nth_append)
  have "\<exists>r bc'. ?h = Ret (Reply r, bc')"
    by (simp add: handleCreateBlock_def CreateBlock_def NewBlockchain_def gen Let_def)
  then obtain r bc' where h: "?h = Ret (Reply r, bc')" by blast
  from create_then_get [where fromString = ?from and toString = "\<lambda>i. 0 # i" and ?sha256.0 = ?sha and now = 0 and ks = "[]"
      and meth = MethodPost and body = "Inr ([0 # replicate 32 0], 5)" and bc = "NewBlockchain ?sha 0 4"] h
  show ?thesis by auto
qed

text \<open>
  Stopping a node does not stop its consensus loop: no meth cancels the context stored by
  \<^verbatim>\<open>Start\<close>, so after \<open>k\<close> cycles of \<^verbatim>\<open>Start\<close> and \<^verbatim>\<open>Stop\<close> a node that is not running has \<open>k\<close> consensus
  loops working on its blockchain. Starting twice and stopping twice in a row fail.
\<close>

fun cycle :: "nat \<Rightarrow> node \<Rightarrow> node" where
  "cycle 0 n = n"
| "cycle (Suc k) n = cycle k (fst (Stop None (fst (Start n))))"

theorem consensus_loops_leak:
  assumes "\<not> n_running n"
  shows "\<not> n_running (cycle k n) \<and> consensus_loops (cycle k n) = consensus_loops n + k \<and>
    snd (Start (fst (Start n))) \<noteq> None \<and> snd (Stop e n) \<noteq> None"
  using assms
  by (induction k arbitrary: n) (auto simp: Start_def Stop_def)

theorem consensus_loops_leak_witness:
  "consensus_loops (cycle 3 (NewNode (\<lambda>_. replicate 32 0) 0 4)) = 3"
  using consensus_loops_leak [of "NewNode (\<lambda>_. replicate 32 0) 0 4" 3] by (simp add: NewNode_def)

end
