(* ===== verification/Worker.thy ===== *)
theory Worker
  imports Block
begin

text \<open>
  pkg/worker: the worker pool (service.go), its HTTP server (server.go) and the client (client.go).
  The pool is a transition system: its goroutines take tasks from a channel of bounded capacity and
  store results under the pool's lock. Times are left out of tasks and results; the task IDs that
  \<^verbatim>\<open>uuid.New\<close> makes, and the response to a client's request, are arguments. A panic in a goroutine of
  the pool ends the process.
\<close>

section \<open>Tasks and workers\<close>

record Task =
  tk_ID :: bytes
  tk_Payload :: bytes

record Result =
  TaskID :: bytes
  Output :: bytes
  res_Error :: "go_error option"

text \<open>The \<^verbatim>\<open>Worker\<close> interface has one method; a worker is its \<^verbatim>\<open>ProcessTask\<close>.\<close>

type_synonym worker = "Task \<Rightarrow> Result \<times> go_error option"

definition ascii :: "string \<Rightarrow> bytes" where
  "ascii s = map (\<lambda>c. of_nat (of_char c)) s"

definition DefaultWorker :: "bytes \<Rightarrow> worker" where
  "DefaultWorker wid task =
     (\<lparr>TaskID = tk_ID task, Output = ascii ''Processed by worker '' @ wid, res_Error = None\<rparr>, None)"

section \<open>WorkerPool\<close>

datatype goroutine = Idle | Busy Task worker | Exited

record WorkerPool =
  workers :: "bytes \<rightharpoonup> worker"
  taskChan :: "Task list"
  capacity :: nat
  chan_closed :: bool
  results :: "bytes \<rightharpoonup> Result"
  goroutines :: "goroutine list"

definition NewWorkerPool :: "nat \<Rightarrow> WorkerPool" where
  "NewWorkerPool cap =
     \<lparr>workers = Map.empty, taskChan = [], capacity = cap, chan_closed = False, results = Map.empty,
      goroutines = []\<rparr>"

definition AddWorker :: "bytes \<Rightarrow> worker \<Rightarrow> WorkerPool \<Rightarrow> WorkerPool" where
  "AddWorker wid w wp = wp\<lparr>workers := (workers wp)(wid \<mapsto> w)\<rparr>"

definition RemoveWorker :: "bytes \<Rightarrow> WorkerPool \<Rightarrow> WorkerPool" where
  "RemoveWorker wid wp = wp\<lparr>workers := (workers wp)(wid := None)\<rparr>"

definition GetWorkers :: "WorkerPool \<Rightarrow> bytes \<rightharpoonup> worker" where
  "GetWorkers wp = workers wp"

text \<open>
  A send on a closed channel panics; on a full one it blocks. On a channel without buffer it waits for a receiver:
  see \<open>hand_over\<close> below.
\<close>

definition SubmitTask :: "Task \<Rightarrow> WorkerPool \<Rightarrow> WorkerPool go" where
  "SubmitTask task wp =
     (if chan_closed wp then Panic ''send on closed channel''
      else if length (taskChan wp) \<ge> capacity wp then Block
      else Ret (wp\<lparr>taskChan := taskChan wp @ [task]\<rparr>))"

definition pool_Start :: "nat \<Rightarrow> WorkerPool \<Rightarrow> WorkerPool" where
  "pool_Start numWorkers wp = wp\<lparr>goroutines := goroutines wp @ replicate numWorkers Idle\<rparr>"

text \<open>
  \<^verbatim>\<open>workers[task.ID[0]%byte(len(workers))]\<close>: the index expression panics on an empty ID, the
  remainder when the number of workers is a multiple of 256.
\<close>

definition pick_worker :: "bytes \<Rightarrow> worker list \<Rightarrow> worker go" where
  "pick_worker taskID ws =
     (if taskID = [] then Panic ''index out of range''
      else if (of_nat (length ws) :: byte) = 0 then Panic ''integer divide by zero''
      else Ret (ws ! unat (hd taskID mod of_nat (length ws))))"

text \<open>
  Goroutine \<open>g\<close> receives the next task; \<open>ids\<close> is the order of the range over the workers.
\<close>

definition take_task :: "nat \<Rightarrow> bytes list \<Rightarrow> WorkerPool \<Rightarrow> WorkerPool go" where
  "take_task g ids wp =
     (case taskChan wp of
        [] \<Rightarrow> if chan_closed wp then Ret (wp\<lparr>goroutines := (goroutines wp)[g := Exited]\<rparr>) else Block
      | task # rest \<Rightarrow>
          (let wp = wp\<lparr>taskChan := rest\<rparr>; ws = map (\<lambda>i. the (workers wp i)) ids in
           if ws = [] then Ret wp
           else case pick_worker (tk_ID task) ws of
                  Ret w \<Rightarrow> Ret (wp\<lparr>goroutines := (goroutines wp)[g := Busy task w]\<rparr>)
                | Panic m \<Rightarrow> Panic m
                | Block \<Rightarrow> Block))"

text \<open>A send on a channel without buffer, at the moment an idle goroutine receives: the task passes from one to the other.\<close>

definition hand_over :: "nat \<Rightarrow> bytes list \<Rightarrow> Task \<Rightarrow> WorkerPool \<Rightarrow> WorkerPool go" where
  "hand_over g ids task wp =
     (if chan_closed wp then Panic ''send on closed channel'' else take_task g ids (wp\<lparr>taskChan := taskChan wp @ [task]\<rparr>))"

text \<open>The goroutine's worker has finished: store the result.\<close>

definition store_result :: "nat \<Rightarrow> Task \<Rightarrow> worker \<Rightarrow> WorkerPool \<Rightarrow> WorkerPool" where
  "store_result g task w wp =
     (let (result, err) = w task;
          result = (case err of None \<Rightarrow> result | Some e \<Rightarrow> result\<lparr>res_Error := Some e\<rparr>)
      in wp\<lparr>results := (results wp)(tk_ID task \<mapsto> result), goroutines := (goroutines wp)[g := Idle]\<rparr>)"

text \<open>\<^verbatim>\<open>Stop\<close> closes the channel, which panics the second time, and then waits until every goroutine has returned.\<close>

definition pool_Stop :: "WorkerPool \<Rightarrow> WorkerPool go" where
  "pool_Stop wp = (if chan_closed wp then Panic ''close of closed channel'' else Ret (wp\<lparr>chan_closed := True\<rparr>))"

definition pool_Wait :: "WorkerPool \<Rightarrow> WorkerPool go" where
  "pool_Wait wp = (if list_all (\<lambda>g. g = Exited) (goroutines wp) then Ret wp else Block)"

definition GetResult :: "bytes \<Rightarrow> WorkerPool \<Rightarrow> Result option" where
  "GetResult taskID wp = results wp taskID"

subsection \<open>Executions\<close>

text \<open>
  \<open>pool_run wp S D F\<close>: the pool reaches \<open>wp\<close> after the tasks \<open>S\<close> were submitted, the tasks \<open>D\<close> were
  dropped because no worker was registered, and the tasks \<open>F\<close> were finished.
\<close>

inductive pool_run :: "WorkerPool \<Rightarrow> Task list \<Rightarrow> Task list \<Rightarrow> Task list \<Rightarrow> bool" where
  new: "pool_run (NewWorkerPool cap) [] [] []"
| addw: "pool_run wp S D F \<Longrightarrow> pool_run (AddWorker i w wp) S D F"
| removew: "pool_run wp S D F \<Longrightarrow> pool_run (RemoveWorker i wp) S D F"
| submit: "pool_run wp S D F \<Longrightarrow> SubmitTask t wp = Ret wp' \<Longrightarrow> pool_run wp' (S @ [t]) D F"
| start: "pool_run wp S D F \<Longrightarrow> pool_run (pool_Start n wp) S D F"
| closed: "pool_run wp S D F \<Longrightarrow> taskChan wp = [] \<Longrightarrow> g < length (goroutines wp) \<Longrightarrow> goroutines wp ! g = Idle \<Longrightarrow>
     take_task g ids wp = Ret wp' \<Longrightarrow> pool_run wp' S D F"
| drop: "pool_run wp S D F \<Longrightarrow> taskChan wp = t # ts \<Longrightarrow> g < length (goroutines wp) \<Longrightarrow> goroutines wp ! g = Idle \<Longrightarrow>
     workers wp = Map.empty \<Longrightarrow> take_task g [] wp = Ret wp' \<Longrightarrow> pool_run wp' S (D @ [t]) F"
| taken: "pool_run wp S D F \<Longrightarrow> taskChan wp = t # ts \<Longrightarrow> g < length (goroutines wp) \<Longrightarrow> goroutines wp ! g = Idle \<Longrightarrow>
     range_order (workers wp) ids \<Longrightarrow> ids \<noteq> [] \<Longrightarrow> take_task g ids wp = Ret wp' \<Longrightarrow> pool_run wp' S D F"
| finish: "pool_run wp S D F \<Longrightarrow> g < length (goroutines wp) \<Longrightarrow> goroutines wp ! g = Busy t w \<Longrightarrow>
     pool_run (store_result g t w wp) S D (F @ [t])"
| ctx_done: "pool_run wp S D F \<Longrightarrow> g < length (goroutines wp) \<Longrightarrow> goroutines wp ! g = Idle \<Longrightarrow>
     pool_run (wp\<lparr>goroutines := (goroutines wp)[g := Exited]\<rparr>) S D F"
| stop: "pool_run wp S D F \<Longrightarrow> pool_Stop wp = Ret wp' \<Longrightarrow> pool_run wp' S D F"
| pass_drop: "pool_run wp S D F \<Longrightarrow> capacity wp = 0 \<Longrightarrow> g < length (goroutines wp) \<Longrightarrow> goroutines wp ! g = Idle \<Longrightarrow>
     workers wp = Map.empty \<Longrightarrow> hand_over g [] t wp = Ret wp' \<Longrightarrow> pool_run wp' (S @ [t]) (D @ [t]) F"
| pass: "pool_run wp S D F \<Longrightarrow> capacity wp = 0 \<Longrightarrow> g < length (goroutines wp) \<Longrightarrow> goroutines wp ! g = Idle \<Longrightarrow>
     range_order (workers wp) ids \<Longrightarrow> ids \<noteq> [] \<Longrightarrow> hand_over g ids t wp = Ret wp' \<Longrightarrow> pool_run wp' (S @ [t]) D F"

section \<open>Picking a worker\<close>

lemma pick_worker_zero: "(of_nat (length ws) :: byte) = 0 \<longleftrightarrow> length ws mod 256 = 0"
  by (simp add: word_unat_eq_iff unat_of_nat)

lemma pick_worker_ok:
  assumes "taskID \<noteq> []" and "length ws mod 256 \<noteq> 0"
  shows "\<exists>i < length ws. i < 256 \<and> pick_worker taskID ws = Ret (ws ! i) \<and>
    i = unat (hd taskID) mod (length ws mod 256)"
proof -
  have i: "unat (hd taskID mod of_nat (length ws)) = unat (hd taskID) mod (length ws mod 256)"
    by (simp add: unat_mod_distrib unat_of_nat)
  have "unat (hd taskID) mod (length ws mod 256) < length ws mod 256" using assms(2) by simp
  moreover have "length ws mod 256 \<le> length ws" "length ws mod 256 < 256" by simp_all
  ultimately have "unat (hd taskID) mod (length ws mod 256) < length ws"
    "unat (hd taskID) mod (length ws mod 256) < 256" by linarith+
  with assms i show ?thesis
    by (intro exI [of _ "unat (hd taskID) mod (length ws mod 256)"]) (simp add: pick_worker_def pick_worker_zero)
qed

text \<open>
  With a non-empty task ID the pool picks one of its workers, at the first byte of the ID modulo
  the number of workers, unless the number of workers is a multiple of 256: then the conversion of
  the number to a byte gives 0 and the remainder panics, for every task. Workers after the first 255
  are never picked when there are fewer than 256.
\<close>

theorem pick_worker_total:
  "(taskID \<noteq> [] \<and> length ws mod 256 \<noteq> 0 \<longrightarrow>
      (\<exists>i < length ws. i < 256 \<and> pick_worker taskID ws = Ret (ws ! i) \<and>
         i = unat (hd taskID) mod (length ws mod 256))) \<and>
    (taskID = [] \<longrightarrow> pick_worker taskID ws = Panic ''index out of range'') \<and>
    (taskID \<noteq> [] \<and> length ws mod 256 = 0 \<longrightarrow> pick_worker taskID ws = Panic ''integer divide by zero'')"
  using pick_worker_ok [of taskID ws] by (simp add: pick_worker_def pick_worker_zero)

theorem pick_worker_total_witness:
  "pick_worker [7] (replicate 256 (DefaultWorker [])) = Panic ''integer divide by zero''"
  using pick_worker_total [of "[7]" "replicate 256 (DefaultWorker [])"] by simp

section \<open>No task disappears unaccounted for\<close>

fun busy_task :: "goroutine \<Rightarrow> Task list" where
  "busy_task (Busy t w) = [t]"
| "busy_task _ = []"

definition busy_tasks :: "WorkerPool \<Rightarrow> Task multiset" where
  "busy_tasks wp = mset (concat (map busy_task (goroutines wp)))"

lemma busy_update:
  assumes "g < length gs"
  shows "mset (concat (map busy_task (gs[g := x]))) + mset (busy_task (gs ! g)) =
    mset (concat (map busy_task gs)) + mset (busy_task x)"
proof -
  have "gs = take g gs @ gs ! g # drop (Suc g) gs" using assms by (rule id_take_nth_drop)
  moreover have "gs[g := x] = take g gs @ x # drop (Suc g) gs" using assms by (rule upd_conv_take_nth_drop)
  ultimately have "mset (concat (map busy_task gs)) = mset (concat (map busy_task (take g gs @ gs ! g # drop (Suc g) gs)))"
    "mset (concat (map busy_task (gs[g := x]))) = mset (concat (map busy_task (take g gs @ x # drop (Suc g) gs)))"
    by simp_all
  then show ?thesis by simp
qed

definition accounted :: "WorkerPool \<Rightarrow> Task list \<Rightarrow> Task list \<Rightarrow> Task list \<Rightarrow> bool" where
  "accounted wp S D F \<longleftrightarrow> mset S = mset (taskChan wp) + busy_tasks wp + mset D + mset F \<and>
     (\<forall>i. results wp i \<noteq> None \<longleftrightarrow> i \<in> tk_ID ` set F) \<and> length (taskChan wp) \<le> capacity wp"

lemma pool_run_accounted: "pool_run wp S D F \<Longrightarrow> accounted wp S D F"
proof (induction rule: pool_run.induct)
  case (new cap)
  show ?case by (simp add: accounted_def NewWorkerPool_def busy_tasks_def)
next
  case (addw wp S D F i w)
  then show ?case by (simp add: accounted_def AddWorker_def busy_tasks_def)
next
  case (removew wp S D F i)
  then show ?case by (simp add: accounted_def RemoveWorker_def busy_tasks_def)
next
  case (submit wp S D F t wp')
  then show ?case by (auto simp: accounted_def SubmitTask_def busy_tasks_def split: if_splits)
next
  case (start wp S D F n)
  have "concat (map busy_task (replicate n Idle)) = []" by simp
  with start show ?case by (simp add: accounted_def pool_Start_def busy_tasks_def)
next
  case (closed wp S D F g ids wp')
  with busy_update [of g "goroutines wp" Exited] show ?case
    by (auto simp: accounted_def take_task_def busy_tasks_def split: if_splits)
next
  case (drop wp S D F t ts g wp')
  then show ?case by (auto simp: accounted_def take_task_def Let_def busy_tasks_def)
next
  case (taken wp S D F t ts g ids wp')
  then obtain w where "wp' = wp\<lparr>taskChan := ts, goroutines := (goroutines wp)[g := Busy t w]\<rparr>"
    by (auto simp: take_task_def Let_def split: go.splits)
  with taken busy_update [of g "goroutines wp" "Busy t w"] show ?case
    by (auto simp: accounted_def busy_tasks_def)
next
  case (finish wp S D F g t w)
  with busy_update [of g "goroutines wp" Idle] show ?case
    by (auto simp: accounted_def store_result_def busy_tasks_def Let_def split: prod.splits)
next
  case (ctx_done wp S D F g)
  with busy_update [of g "goroutines wp" Exited] show ?case
    by (auto simp: accounted_def busy_tasks_def)
next
  case (stop wp S D F wp')
  then show ?case by (auto simp: accounted_def pool_Stop_def busy_tasks_def split: if_splits)
next
  case (pass_drop wp S D F g t wp')
  then show ?case by (auto simp: accounted_def hand_over_def take_task_def Let_def busy_tasks_def split: if_splits)
next
  case (pass wp S D F g ids t wp')
  then have "taskChan wp = []" by (simp add: accounted_def)
  with pass obtain w where "wp' = wp\<lparr>taskChan := [], goroutines := (goroutines wp)[g := Busy t w]\<rparr>"
    by (auto simp: hand_over_def take_task_def Let_def split: go.splits if_splits)
  with pass busy_update [of g "goroutines wp" "Busy t w"] show ?case
    by (auto simp: accounted_def busy_tasks_def)
qed

text \<open>
  \<^verbatim>\<open>Stop\<close> can return: with the channel closed, an idle goroutine takes what is queued and exits when nothing is left. A second
  \<^verbatim>\<open>Stop\<close> panics.
\<close>

lemma stopped_pool:
  assumes "pool_Stop wp = Ret wp'"
  shows "pool_Stop wp' = Panic ''close of closed channel''" and "SubmitTask t wp' = Panic ''send on closed channel''"
    and "taskChan wp = [] \<Longrightarrow> goroutines wp = [Idle] \<Longrightarrow> \<exists>wp''. take_task 0 ids wp' = Ret wp'' \<and> pool_Wait wp'' = Ret wp''"
  using assms by (auto simp: pool_Stop_def SubmitTask_def take_task_def pool_Wait_def split: if_splits)

text \<open>
  C38. In every execution of the pool, with a buffered or an unbuffered channel, each submitted task is exactly once queued, being processed,
  finished or dropped; the results are those of the finished tasks; the queue never exceeds its
  capacity. A task dropped because no worker was registered, with an ID no other task has, never gets
  a result.
\<close>

theorem pool_accounts_for_tasks:
  assumes "pool_run wp S D F"
  shows "mset S = mset (taskChan wp) + busy_tasks wp + mset D + mset F \<and>
    (GetResult i wp \<noteq> None \<longleftrightarrow> i \<in> tk_ID ` set F) \<and> length (taskChan wp) \<le> capacity wp \<and>
    (t \<in> set D \<and> distinct (map tk_ID S) \<longrightarrow> GetResult (tk_ID t) wp = None)"
proof -
  have a: "accounted wp S D F" using assms by (rule pool_run_accounted)
  have "GetResult (tk_ID t) wp = None" if t: "t \<in> set D" "distinct (map tk_ID S)"
  proof (rule ccontr)
    assume "GetResult (tk_ID t) wp \<noteq> None"
    with a obtain u where u: "u \<in> set F" "tk_ID u = tk_ID t" by (auto simp: accounted_def GetResult_def)
    let ?ids = "image_mset tk_ID (mset S)"
    from u t(1) have c: "count (image_mset tk_ID (mset D)) (tk_ID t) \<ge> 1" "count (image_mset tk_ID (mset F)) (tk_ID t) \<ge> 1"
      by (auto simp: Suc_le_eq) (metis imageI)
    from a have "count ?ids (tk_ID t) = count (image_mset tk_ID (mset (taskChan wp) + busy_tasks wp)) (tk_ID t) +
        count (image_mset tk_ID (mset D)) (tk_ID t) + count (image_mset tk_ID (mset F)) (tk_ID t)"
      by (simp add: accounted_def)
    with c have "count ?ids (tk_ID t) \<ge> 2" by linarith
    moreover have "count ?ids (tk_ID t) \<le> 1"
      using t(2) by (metis distinct_count_atmost_1 mset_map le_numeral_extra(4) zero_le_one)
    ultimately show False by simp
  qed
  with a show ?thesis by (auto simp: accounted_def GetResult_def)
qed

definition demo_task :: Task where
  "demo_task = \<lparr>tk_ID = [65], tk_Payload = []\<rparr>"

theorem pool_accounts_for_tasks_witness:
  "GetResult [65] ((pool_Start 1 (NewWorkerPool 100))\<lparr>taskChan := []\<rparr>) = None"
proof -
  let ?p = "pool_Start 1 (NewWorkerPool 100)"
  have "pool_run ?p [] [] []" by (intro pool_run.start pool_run.new)
  from pool_run.submit [OF this, of demo_task] have "pool_run (?p\<lparr>taskChan := [demo_task]\<rparr>) [demo_task] [] []"
    by (simp add: SubmitTask_def pool_Start_def NewWorkerPool_def)
  from pool_run.drop [OF this, of demo_task "[]" 0 "?p\<lparr>taskChan := []\<rparr>"]
  have "pool_run (?p\<lparr>taskChan := []\<rparr>) [demo_task] [demo_task] []"
    by (simp add: take_task_def pool_Start_def NewWorkerPool_def)
  from pool_accounts_for_tasks [OF this, of _ demo_task] show ?thesis by (simp add: demo_task_def)
qed

section \<open>Server\<close>

record Server =
  workerPool :: WorkerPool
  s_tasks :: "bytes \<rightharpoonup> Task"

definition worker_name :: "nat \<Rightarrow> bytes" where
  "worker_name i = ascii ''worker-'' @ decimal i"

definition NewServer :: "nat \<Rightarrow> Server" where
  "NewServer numWorkers =
     \<lparr>workerPool = foldl (\<lambda>wp i. AddWorker (worker_name i) (DefaultWorker (worker_name i)) wp)
                     (NewWorkerPool 100) [0..<numWorkers],
      s_tasks = Map.empty\<rparr>"

text \<open>The first step of \<^verbatim>\<open>Server.Start\<close>; the rest waits for a signal and shuts down.\<close>

definition server_Start :: "Server \<Rightarrow> Server" where
  "server_Start s = s\<lparr>workerPool := pool_Start 10 (workerPool s)\<rparr>"

datatype 'r http_reply = Code nat | Code_body nat 'r

text \<open>
  \<open>taskID\<close> is what \<^verbatim>\<open>uuid.New().String()\<close> returned; \<open>body\<close> the decoded payload.
\<close>

definition handleSubmitTask :: "bytes \<Rightarrow> bytes res \<Rightarrow> Server \<Rightarrow> (bytes http_reply \<times> Server) go" where
  "handleSubmitTask taskID body s =
     (case body of
        Inl err \<Rightarrow> Ret (Code 400, s)
      | Inr payload \<Rightarrow>
          (let task = \<lparr>tk_ID = taskID, tk_Payload = payload\<rparr>;
               s = s\<lparr>s_tasks := (s_tasks s)(taskID \<mapsto> task)\<rparr> in
           case SubmitTask task (workerPool s) of
             Ret wp \<Rightarrow> Ret (Code_body 202 taskID, s\<lparr>workerPool := wp\<rparr>)
           | Panic m \<Rightarrow> Panic m
           | Block \<Rightarrow> Block))"

text \<open>A 202 reply without a result says that the task is being processed.\<close>

definition handleGetTaskResult :: "bytes \<Rightarrow> Server \<Rightarrow> Result http_reply" where
  "handleGetTaskResult taskID s =
     (if s_tasks s taskID = None then Code 404
      else case GetResult taskID (workerPool s) of
             None \<Rightarrow> Code 202
           | Some r \<Rightarrow> Code_body 200 r)"

definition handleHealth :: "unit http_reply" where
  "handleHealth = Code 200"

definition handleReadiness :: "Server \<Rightarrow> unit http_reply" where
  "handleReadiness s = (if GetWorkers (workerPool s) = Map.empty then Code 503 else Code 200)"

section \<open>Client\<close>

text \<open>
  The response to the client's request: a transport error, or a status code and the outcome of
  decoding the body.
\<close>

type_synonym 'r response = "(nat \<times> 'r res) res"

definition client_SubmitTask :: "bytes response \<Rightarrow> bytes res" where
  "client_SubmitTask resp =
     (case resp of
        Inl err \<Rightarrow> Inl (Wrap ''failed to submit task'' err)
      | Inr (code, body) \<Rightarrow>
          if code \<noteq> 202 then Inl (Err ''unexpected status code'')
          else case body of Inl err \<Rightarrow> Inl (Wrap ''failed to decode task response'' err) | Inr taskID \<Rightarrow> Inr taskID)"

definition client_GetTaskResult :: "Result response \<Rightarrow> Result res" where
  "client_GetTaskResult resp =
     (case resp of
        Inl err \<Rightarrow> Inl (Wrap ''failed to get task result'' err)
      | Inr (code, body) \<Rightarrow>
          if code = 404 then Inl (Err ''task not found'')
          else if code \<noteq> 200 then Inl (Err ''unexpected status code'')
          else case body of Inl err \<Rightarrow> Inl (Wrap ''failed to decode task result'' err) | Inr r \<Rightarrow> Inr r)"

definition client_Health :: "unit response \<Rightarrow> go_error option" where
  "client_Health resp =
     (case resp of
        Inl err \<Rightarrow> Some (Wrap ''failed to check health'' err)
      | Inr (code, _) \<Rightarrow> if code \<noteq> 200 then Some (Err ''worker service is unhealthy'') else None)"

record Client =
  baseURL :: bytes
  concurrency :: int
  c_Timeout :: int

text \<open>\<^verbatim>\<open>strings.TrimSuffix(baseURL, "/")\<close>; options are functions on the client. Ten seconds.\<close>

definition trim_slash :: "bytes \<Rightarrow> bytes" where
  "trim_slash u = (if u \<noteq> [] \<and> last u = 0x2F then butlast u else u)"

definition WithConcurrency :: "int \<Rightarrow> Client \<Rightarrow> Client" where
  "WithConcurrency n c = (if n > 0 then c\<lparr>concurrency := n\<rparr> else c)"

definition WithTimeout :: "int \<Rightarrow> Client \<Rightarrow> Client" where
  "WithTimeout t c = c\<lparr>c_Timeout := t\<rparr>"

definition NewClient :: "bytes \<Rightarrow> (Client \<Rightarrow> Client) list \<Rightarrow> Client" where
  "NewClient url options =
     foldl (\<lambda>c opt. opt c) \<lparr>baseURL = trim_slash url, concurrency = 10, c_Timeout = 10000000000\<rparr> options"

text \<open>The reply of a server as the client sees it, over a transport that works.\<close>

definition delivered :: "'r http_reply \<Rightarrow> 'r response" where
  "delivered r = (case r of Code c \<Rightarrow> Inr (c, Inl (Err ''EOF'')) | Code_body c b \<Rightarrow> Inr (c, Inr b))"

section \<open>A task from client to result\<close>

text \<open>Goroutine \<open>g\<close> takes the next task and, if a worker was found, processes it.\<close>

definition serve_one :: "nat \<Rightarrow> bytes list \<Rightarrow> Server \<Rightarrow> Server go" where
  "serve_one g ids s =
     (case take_task g ids (workerPool s) of
        Ret wp \<Rightarrow>
          (case goroutines wp ! g of
             Busy t w \<Rightarrow> Ret (s\<lparr>workerPool := store_result g t w wp\<rparr>)
           | _ \<Rightarrow> Ret (s\<lparr>workerPool := wp\<rparr>))
      | Panic m \<Rightarrow> Panic m
      | Block \<Rightarrow> Block)"

lemma NewServer_pool:
  "workers (workerPool (NewServer n)) = (\<lambda>i. if i \<in> worker_name ` {..<n} then Some (DefaultWorker i) else None) \<and>
   taskChan (workerPool (NewServer n)) = [] \<and> capacity (workerPool (NewServer n)) = 100 \<and>
   \<not> chan_closed (workerPool (NewServer n)) \<and> results (workerPool (NewServer n)) = Map.empty \<and>
   goroutines (workerPool (NewServer n)) = []"
  by (induction n) (auto simp: NewServer_def NewWorkerPool_def AddWorker_def fun_eq_iff lessThan_Suc)

lemma worker_name_inj: "inj_on worker_name A"
  by (auto simp: inj_on_def worker_name_def)

text \<open>The workers of a fresh server, in the order \<open>ids\<close>.\<close>

definition fresh_workers :: "nat \<Rightarrow> bytes list \<Rightarrow> worker list" where
  "fresh_workers n ids = map (\<lambda>i. the (workers (workerPool (NewServer n)) i)) ids"

lemma fresh_workers:
  assumes ids: "range_order (workers (workerPool (NewServer n))) ids"
  shows "length (fresh_workers n ids) = n"
    and "k < n \<Longrightarrow> \<exists>i < n. fresh_workers n ids ! k = DefaultWorker (worker_name i)"
proof -
  have set_ids: "set ids = worker_name ` {..<n}"
    using range_orderD(2) [OF ids] NewServer_pool [of n] by (auto split: if_splits)
  have "length ids = card (set ids)" using range_orderD(1) [OF ids] by (simp add: distinct_card)
  then show len: "length (fresh_workers n ids) = n"
    by (simp add: fresh_workers_def set_ids card_image [OF worker_name_inj])
  assume k: "k < n"
  then have "ids ! k \<in> worker_name ` {..<n}" using len set_ids by (metis length_map nth_mem fresh_workers_def)
  then obtain i where "i < n" "ids ! k = worker_name i" by auto
  then show "\<exists>i < n. fresh_workers n ids ! k = DefaultWorker (worker_name i)"
    using k len NewServer_pool [of n] by (auto simp: fresh_workers_def)
qed

text \<open>The server after one submission, and what a goroutine does with the task.\<close>

definition submitted :: "bytes \<Rightarrow> bytes \<Rightarrow> nat \<Rightarrow> Server" where
  "submitted taskID payload n =
     (let t = \<lparr>tk_ID = taskID, tk_Payload = payload\<rparr> in
      \<lparr>workerPool = (pool_Start 10 (workerPool (NewServer n)))\<lparr>taskChan := [t]\<rparr>, s_tasks = [taskID \<mapsto> t]\<rparr>)"

lemma fresh_submit:
  "taskID \<noteq> [] \<Longrightarrow>
   handleSubmitTask taskID (Inr payload) (server_Start (NewServer n)) = Ret (Code_body 202 taskID, submitted taskID payload n)"
  using NewServer_pool [of n]
  by (auto simp: handleSubmitTask_def server_Start_def SubmitTask_def pool_Start_def Let_def NewServer_def submitted_def)

lemma serve_submitted:
  defines "t taskID payload \<equiv> \<lparr>tk_ID = taskID, tk_Payload = payload\<rparr>"
    and "wp n \<equiv> (pool_Start 10 (workerPool (NewServer n)))\<lparr>taskChan := []\<rparr>"
  shows "serve_one 0 ids (submitted taskID payload n) =
    (if fresh_workers n ids = [] then Ret ((submitted taskID payload n)\<lparr>workerPool := wp n\<rparr>)
     else case pick_worker taskID (fresh_workers n ids) of
            Ret w \<Rightarrow> Ret ((submitted taskID payload n)\<lparr>workerPool := store_result 0 (t taskID payload) w
                ((wp n)\<lparr>goroutines := (replicate 10 Idle)[0 := Busy (t taskID payload) w]\<rparr>)\<rparr>)
          | Panic m \<Rightarrow> Panic m | Block \<Rightarrow> Block)"
  using NewServer_pool [of n]
  by (simp add: serve_one_def take_task_def submitted_def fresh_workers_def pool_Start_def Let_def assms
      split: go.splits)

lemmas client_result_defs = client_GetTaskResult_def delivered_def handleGetTaskResult_def GetResult_def

text \<open>
  C37. A task submitted to a fresh server with \<open>n\<close> workers: the client gets the task's ID, and while
  the task is queued its request for the result fails with an unexpected status code. Once a
  goroutine has served the task, with \<open>n\<close> not a multiple of 256 the client gets the result, produced by
  one of the workers; with no workers the task is lost and the request keeps failing; with a positive
  multiple of 256 workers serving the task panics.
\<close>

theorem client_server_task:
  assumes tid: "taskID \<noteq> []" and ids: "range_order (workers (workerPool (NewServer n))) ids"
    and s1: "handleSubmitTask taskID (Inr payload) (server_Start (NewServer n)) = Ret (reply, s1)"
  shows "client_SubmitTask (delivered reply) = Inr taskID \<and>
    client_GetTaskResult (delivered (handleGetTaskResult taskID s1)) = Inl (Err ''unexpected status code'') \<and>
    (n mod 256 \<noteq> 0 \<longrightarrow> (\<exists>s2 i. serve_one 0 ids s1 = Ret s2 \<and> i < n \<and>
       client_GetTaskResult (delivered (handleGetTaskResult taskID s2)) =
         Inr \<lparr>TaskID = taskID, Output = ascii ''Processed by worker '' @ worker_name i, res_Error = None\<rparr>)) \<and>
    (n = 0 \<longrightarrow> (\<exists>s2. serve_one 0 ids s1 = Ret s2 \<and> taskChan (workerPool s2) = [] \<and>
       client_GetTaskResult (delivered (handleGetTaskResult taskID s2)) = Inl (Err ''unexpected status code''))) \<and>
    (0 < n \<and> n mod 256 = 0 \<longrightarrow> serve_one 0 ids s1 = Panic ''integer divide by zero'')"
proof -
  from s1 fresh_submit [OF tid, of payload n] have eq: "s1 = submitted taskID payload n" "reply = Code_body 202 taskID" by auto
  have res: "results (workerPool s1) = Map.empty" "results (pool_Start 10 (workerPool (NewServer n))) = Map.empty"
    "s_tasks s1 = [taskID \<mapsto> \<lparr>tk_ID = taskID, tk_Payload = payload\<rparr>]"
    using NewServer_pool [of n] by (simp_all add: eq submitted_def pool_Start_def Let_def)
  note len = fresh_workers(1) [OF ids] and serve = serve_submitted [of ids taskID payload n, folded eq(1)]
  have "client_SubmitTask (delivered reply) = Inr taskID"
    by (simp add: client_SubmitTask_def delivered_def eq)
  moreover have "client_GetTaskResult (delivered (handleGetTaskResult taskID s1)) = Inl (Err ''unexpected status code'')"
    by (simp add: client_result_defs res)
  moreover have "\<exists>s2 i. serve_one 0 ids s1 = Ret s2 \<and> i < n \<and>
       client_GetTaskResult (delivered (handleGetTaskResult taskID s2)) =
         Inr \<lparr>TaskID = taskID, Output = ascii ''Processed by worker '' @ worker_name i, res_Error = None\<rparr>"
    if n: "n mod 256 \<noteq> 0"
  proof -
    from pick_worker_ok [OF tid, of "fresh_workers n ids"] n len obtain k
      where k: "k < n" "pick_worker taskID (fresh_workers n ids) = Ret (fresh_workers n ids ! k)" by auto
    from fresh_workers(2) [OF ids k(1)] k(2) obtain i
      where i: "i < n" "pick_worker taskID (fresh_workers n ids) = Ret (DefaultWorker (worker_name i))" by auto
    have "fresh_workers n ids \<noteq> []" using len n by auto
    with i serve res(3) show ?thesis by (auto simp: client_result_defs store_result_def DefaultWorker_def)
  qed
  moreover have "\<exists>s2. serve_one 0 ids s1 = Ret s2 \<and> taskChan (workerPool s2) = [] \<and>
       client_GetTaskResult (delivered (handleGetTaskResult taskID s2)) = Inl (Err ''unexpected status code'')" if "n = 0"
    using serve len that res by (auto simp: client_result_defs)
  moreover have "serve_one 0 ids s1 = Panic ''integer divide by zero''" if "0 < n \<and> n mod 256 = 0"
  proof -
    have "(of_nat (length (fresh_workers n ids)) :: byte) = 0" unfolding pick_worker_zero using that by (simp add: len)
    with serve len that tid show ?thesis by (auto simp: pick_worker_def)
  qed
  ultimately show ?thesis by blast
qed

theorem client_server_task_witness:
  "\<exists>s1 s2. handleSubmitTask [65] (Inr []) (server_Start (NewServer 1)) = Ret (Code_body 202 [65], s1) \<and>
     serve_one 0 [worker_name 0] s1 = Ret s2 \<and>
     \<not> isl (client_GetTaskResult (delivered (handleGetTaskResult [65] s2)))"
proof -
  note pool = NewServer_pool [of 1]
  have ids: "range_order (workers (workerPool (NewServer 1))) [worker_name 0]"
    using pool by (auto simp: range_order_def split: if_splits)
  obtain s1 where s1: "handleSubmitTask [65] (Inr []) (server_Start (NewServer 1)) = Ret (Code_body 202 [65], s1)"
    using pool by (auto simp: handleSubmitTask_def server_Start_def SubmitTask_def pool_Start_def Let_def)
  from client_server_task [OF _ ids s1] s1 show ?thesis by auto
qed

end
