(* ===== verification/Spec2Isabelle.thy ===== *)
theory Spec2Isabelle
  imports SnowmanPolls ValidatorProperties PrefixDB BootstrapRestart BootstrapPolls Packer LruCache SafeMath EngineProperties GoSlices GoSets Sampler ChainProperties Node Worker
begin

text \<open>
  A verification of the consensus, blockchain, worker and utility packages under \<^verbatim>\<open>src/pkg\<close>, and of
  the snowball family of protocols, of bootstrapping and of the key-value databases below it in the AvalancheGo fork
  under \<^verbatim>\<open>src/default\<close>.

  \<^bold>\<open>The program.\<close> A node (\<^verbatim>\<open>pkg/blockchain/node.go\<close>) serves an HTTP API over a block DAG
  (\<^verbatim>\<open>blockchain.go\<close>, \<^verbatim>\<open>block.go\<close>, \<^verbatim>\<open>transaction.go\<close>): transactions are submitted to a pool, blocks are
  created from the pool on given parents, and a background loop verifies and accepts pending blocks
  in parallel. \<^verbatim>\<open>pkg/consensus\<close> holds the parallel DAG and the parallel engine that are meant to run
  Avalanche consensus over vertices and their transactions; \<^verbatim>\<open>pkg/worker\<close> is a task service with a
  pool of goroutines, an HTTP server and a client; \<^verbatim>\<open>pkg/utils\<close> has checked arithmetic, sorting
  helpers, sets and samplers. The fork supplies identifiers, statuses, the vertex and transaction
  interfaces, and the consensus protocols proper: polls of \<^verbatim>\<open>K\<close> validators feed snow instances, one
  for every disputed bit of the choices in the snowball tree, and snowman keeps one such tree for
  the children of every block. Before that a node bootstraps: it polls beacons for blocks to start from, fetches their
  ancestors from peers in any order, records them in a database together with the intervals of heights it has, and
  executes them in order once no gap is left.

  \<^bold>\<open>Theories.\<close>
  \<^item> \<open>Prelude\<close>: bytes, identifiers, Go errors, calls that may panic or block, Go's range over a map
    as an order the program does not control (\<open>valid_ord\<close>), list and map lemmas.
  \<^item> \<open>Sync\<close>: \<^verbatim>\<open>sync.RWMutex\<close> and the bounded parallel loop (one goroutine per item, a semaphore, a
    result channel) that three packages share, as a transition system with one linearisation lemma. Shown: every schedule
    ends, and items are worked on nearly in the order of the list.
  \<^item> \<open>Choices\<close>, \<open>Vertex\<close>: \<^verbatim>\<open>snow/choices/status.go\<close>; the Go interfaces \<^verbatim>\<open>Vertex\<close>, \<^verbatim>\<open>Tx\<close> as records of
    methods, \<^verbatim>\<open>VertexAdapter\<close>.
  \<^item> \<open>ParallelDAG\<close>: \<^verbatim>\<open>pkg/consensus/dag.go\<close>, every method of \<^verbatim>\<open>ParallelDAG\<close> and of
    \<^verbatim>\<open>DefaultVertexProcessor\<close>. Shown: the frontier in terms of the vertices' parents, coverage of the DAG by the frontier, the
    self-deadlock of \<^verbatim>\<open>ProcessFrontier\<close>, the error paths.
  \<^item> \<open>ParallelEngine\<close>, \<open>EngineProperties\<close>: \<^verbatim>\<open>pkg/consensus/adapter.go\<close>. Shown: accepted transactions
    never share an input when every vertex verifies, they may when one does not; the decisions on
    recorded conflicts are frozen; \<^verbatim>\<open>DecideTxs\<close> does not return; a parallel batch is a sequential run nearly by
    descending priority.
  \<^item> \<open>Block\<close>, \<open>Blockchain\<close>, \<open>ChainProperties\<close>, \<open>Node\<close>: \<^verbatim>\<open>pkg/blockchain\<close>. Shown: the invariant of the
    chain under every interleaving, the one outcome of a round on the pending blocks, what \<^verbatim>\<open>CreateBlock\<close> does on
    each branch, how identifiers collide, round trips through the HTTP handlers.
  \<^item> \<open>Worker\<close>: \<^verbatim>\<open>pkg/worker\<close>. Shown: every task is accounted for, a task from client to result.
  \<^item> \<open>SafeMath\<close>, \<open>GoSort\<close>, \<open>GoSlices\<close>, \<open>GoSets\<close>, \<open>Sampler\<close>: \<^verbatim>\<open>pkg/utils\<close>. The \<^verbatim>\<open>Set\<close> interface is
    the locale \<open>go_set\<close>, interpreted on both set implementations.
  \<^item> \<open>IdBits\<close>, \<open>Bag\<close>: \<^verbatim>\<open>default/ids/bits.go\<close> and \<^verbatim>\<open>default/utils/bag/bag.go\<close>; a bag refines a multiset.
  \<^item> \<open>Snowball\<close>, \<open>SnowballProperties\<close>: the slush, snowflake and snowball instances, factories and
    \<^verbatim>\<open>Flat\<close> of \<^verbatim>\<open>default/snow/consensus/snowball\<close>. The contract of an instance (a final one does not
    change) is the locale \<open>snow_instance\<close>. Shown: when an instance decides and for what.
  \<^item> \<open>SnowTree\<close>, \<open>TreeProperties\<close>, \<open>TreeLiveness\<close>: \<^verbatim>\<open>tree.go\<close>. Shown: decisions are never undone, and
    \<^verbatim>\<open>Beta\<close> polls with enough votes for one choice make the tree final with it.
  \<^item> \<open>Snowman\<close>: \<^verbatim>\<open>Topological\<close> and \<^verbatim>\<open>snowmanBlock\<close> of \<^verbatim>\<open>default/snow/consensus/snowman\<close>, every method.
    \<open>SnowmanVotes\<close>: the block tree invariant, and that counting votes by a topological sort gives the
    number of votes for every subtree. \<open>SnowmanDecisions\<close>: the log of decisions, rejecting whole subtrees.
    \<open>SnowmanSafety\<close>: the vote along a branch keeps the invariants. \<open>SnowmanProperties\<close>: all reachable
    states; safety, termination, preferences. \<open>SnowmanLiveness\<close>: supported blocks are accepted.
  \<^item> \<open>VoteGraph\<close>, \<open>PrefixGroup\<close>, \<open>EarlyTermPoll\<close>, \<open>PollSet\<close>: \<^verbatim>\<open>default/snow/consensus/snowman/poll\<close>. Shown: a
    poll counts the first answers of its validators, it terminates early only when no threshold outcome
    can change any more, and the set of polls is a queue. The contract of a poll is the locale \<open>poll_contract\<close>.
    \<open>SnowmanPolls\<close> composes polls with \<^verbatim>\<open>Topological\<close>.
  \<^item> \<open>Validators\<close>, \<open>ValidatorProperties\<close>: \<^verbatim>\<open>default/snow/validators\<close>, the weighted sets of all subnets and
    their listeners. Shown: all sequences of calls implement one map per subnet, and every listener
    can reconstruct these maps from what it is told.
  \<^item> \<open>Database\<close>: the interface of \<^verbatim>\<open>default/database\<close> as a record of methods and its contract as the locale
    \<open>database\<close> (an open database is a finite map; batches, iterators, Close). \<open>MemDB\<close>, \<open>VersionDB\<close>, \<open>PrefixDB\<close>: the databases
    in memory, with uncommitted changes and under a prefix. Each satisfies the contract when the database below it
    does (\<open>sublocale\<close>), so they stack. Shown: uncommitted and committed views, isolation of prefixes, the effect of a batch's Reset.
  \<^item> \<open>ByteOrder\<close>, \<open>Packer\<close>: big-endian integers and \<^verbatim>\<open>default/utils/wrappers/packing.go\<close>. Shown: what is packed is
    unpacked, and truncated input is refused.
  \<^item> \<open>IntervalTree\<close>, \<open>IntervalProofs\<close>, \<open>IntervalStore\<close>: \<^verbatim>\<open>default/snow/engine/snowman/bootstrap/interval\<close>, on any
    writer (locale \<open>kv_writer\<close>: a database or a batch of one). Shown: the tree and the stored intervals implement a map from heights to
    blocks, and the tree can be read back.
  \<^item> \<open>BootstrapStorage\<close>, \<open>BootstrapProofs\<close>: \<^verbatim>\<open>storage.go\<close> of the same package, and what Start and process of its
    \<^verbatim>\<open>Bootstrapper\<close> do with the tree, the database and the missing identifiers. Shown: no gap is forgotten, and blocks are executed in order,
    once, exactly until a halt, leaving a database to restart from.
  \<^item> \<open>BiMap\<close>, \<open>Syncing\<close>, \<open>BootstrapRestart\<close>: \<^verbatim>\<open>default/utils/bimap\<close> and the handlers of the \<^verbatim>\<open>Bootstrapper\<close> that fetch blocks,
    execute them and restart. Shown: every missing block is being requested; restarts end.
  \<^item> \<open>BootstrapPolls\<close>: \<^verbatim>\<open>default/snow/consensus/snowman/bootstrapper\<close>, the polls for the frontier and for the accepted blocks.
    Shown: the accepted blocks are those reported by more than half of the weight.
  \<^item> \<open>LinkedList\<close>, \<open>LinkedHashmap\<close>, \<open>LruCache\<close>: \<^verbatim>\<open>default/utils/linked\<close> and \<^verbatim>\<open>default/cache/lru\<close>. List
    elements live in a heap of pointers; the operations on them implement operations on sequences.
    The contract of an insertion-ordered map is the locale \<open>ordered_map\<close>, interpreted on the hashmap;
    the caches are shown to keep the most recently used keys and their accounts of sizes, and what
    \<^verbatim>\<open>Put\<close> evicts.

  \<^bold>\<open>Conventions.\<close> A Go struct is a record, a method returns the updated receiver; \<^verbatim>\<open>error\<close> results are
  options or sums; a panic, a deadlock or an endless loop is a value of the result type. Objects
  shared through pointers (transactions, blocks of \<^verbatim>\<open>pkg/blockchain\<close>) live in a store and are named by
  address. Heights, statuses and bytes are words; Go's \<^verbatim>\<open>int\<close> is \<^typ>\<open>int\<close> where only small counts
  of votes and polls occur. Loops that may not end are partial functions into options or step relations,
  and that they return is a theorem where they do. Loops over a database iterator (\<^verbatim>\<open>GetIntervals\<close>, \<^verbatim>\<open>execute\<close>)
  take a bound on the number of rounds and give None when it is too small; the theorems hold for every bound above the number of
  stored keys or blocks, which is enough because every round consumes an entry.

  \<^bold>\<open>Parameters.\<close> What the program takes from elsewhere is an argument: \<^verbatim>\<open>sha256\<close>, the clock, the random
  source, floating-point operations of the weighted heap, decoding of JSON elements, \<^verbatim>\<open>ids.FromString\<close>,
  fresh task identifiers, the methods of vertices, transactions and blocks, the acceptor that snowman notifies, the
  iteration order of maps, the B-tree of \<^verbatim>\<open>github.com/google/btree\<close> (\<open>btree_ok\<close> states its documented order and is satisfied by
  \<open>list_btree\<close>), the growth of slices, the hash that makes database prefixes, the peer that is selected for a request. The snowman theorems assume of blocks that identifier, parent and height
  are consistent (\<open>block_law\<close>) and that accepting and rejecting give no error (\<open>no_errors\<close>).

  \<^bold>\<open>Not modelled.\<close> Logging, metrics and tracing, which do not influence the modelled state; flag
  parsing and signal handling of the commands; sockets, HTTP routing and JSON text; the printing of
  bags, instances, trees, polls and validators; \<^verbatim>\<open>MinPercentConnectedHealthy\<close> (floating point);
  \<^verbatim>\<open>SampleableSet.Sample\<close>, \<^verbatim>\<open>vdrSet.Sample\<close> and the second \<^verbatim>\<open>VertexAdapter\<close>, which do not type-check in Go. Of the fork: networking, virtual
  machines, wallet, databases on disk, the reflection-based codec, configuration, and the engines that turn network messages into polls; of
  bootstrapping, the handlers that drive the polls of the beacons and the tracking of connections, request times and bandwidth.
\<close>

end
